(* ===== verification/Prelude.thy ===== *)
theory Prelude
  imports Main "HOL-Library.AList" "HOL-Library.Multiset"
begin

text \<open>
  Shared vocabulary of the development: Python's errors as values, dictionaries that keep
  insertion order, and the list lemmas the components share. A Python dict is an
  association list without repeated keys: reading is map_of, assignment AList.update (in
  place for a known key, at the end for a new one), del is AList.delete.
\<close>

section \<open>Errors\<close>

datatype py_error =
    RuntimeError
  | ValueError
  | KeyError
  | IndexError
  | TypeError
  | AssertionError
  | MemoryError
  | ZeroDivisionError
  | NotImplementedError
  | AttributeError
  | OverflowError
  | StructError

text \<open>A call either raises or returns; the state after the call is the second component.\<close>

type_synonym ('a, 's) outcome = "(py_error + 'a) \<times> 's"

section \<open>Dictionaries in insertion order\<close>

type_synonym ('k, 'v) dict = "('k \<times> 'v) list"

abbreviation dict_keys :: "('k, 'v) dict \<Rightarrow> 'k list" where
  "dict_keys d \<equiv> map fst d"

abbreviation dict_values :: "('k, 'v) dict \<Rightarrow> 'v list" where
  "dict_values d \<equiv> map snd d"

abbreviation dict_set :: "'k \<Rightarrow> 'v \<Rightarrow> ('k, 'v) dict \<Rightarrow> ('k, 'v) dict" where
  "dict_set k v d \<equiv> AList.update k v d"

abbreviation dict_del :: "'k \<Rightarrow> ('k, 'v) dict \<Rightarrow> ('k, 'v) dict" where
  "dict_del k d \<equiv> AList.delete k d"

text \<open>dict.pop(k, None): the value, if any, and the dictionary without the key.\<close>

definition dict_pop :: "'k \<Rightarrow> ('k, 'v) dict \<Rightarrow> 'v option \<times> ('k, 'v) dict" where
  "dict_pop k d = (map_of d k, dict_del k d)"

named_theorems dict_simps

lemma map_of_dict_set [dict_simps]:
  "map_of (dict_set k v d) j = (if j = k then Some v else map_of d j)"
  by (simp add: AList.update_conv')

lemma map_of_dict_del [dict_simps]:
  "map_of (dict_del k d) j = (if j = k then None else map_of d j)"
  by (simp add: AList.delete_conv')

lemma set_dict_keys_set [dict_simps]:
  "set (dict_keys (dict_set k v d)) = insert k (set (dict_keys d))"
  using AList.dom_update [of k v d] by simp

lemma set_dict_keys_del [dict_simps]:
  "set (dict_keys (dict_del k d)) = set (dict_keys d) - {k}"
  by (auto simp: AList.delete_keys)

lemma distinct_dict_set [simp, intro]:
  "distinct (dict_keys d) \<Longrightarrow> distinct (dict_keys (dict_set k v d))"
  by (rule AList.distinct_update)

lemma distinct_dict_del [simp, intro]:
  "distinct (dict_keys d) \<Longrightarrow> distinct (dict_keys (dict_del k d))"
  by (rule AList.distinct_delete)

lemma dict_in_keys_iff: "k \<in> set (dict_keys d) \<longleftrightarrow> map_of d k \<noteq> None"
  by (simp add: map_of_eq_None_iff)

lemma map_of_SomeD_keys: "map_of d k = Some v \<Longrightarrow> k \<in> set (dict_keys d)"
  by (metis dict_in_keys_iff option.distinct(1))

lemma dict_set_new: "map_of d k = None \<Longrightarrow> dict_set k v d = d @ [(k, v)]"
  by (induction d) auto

text \<open>Sums over the entries of a dictionary.\<close>

lemma dict_sum_new:
  "map_of d k = None \<Longrightarrow> sum_list (map f (dict_set k v d)) = sum_list (map f d) + (f (k, v) :: 'b::comm_monoid_add)"
  by (simp add: dict_set_new)

lemma dict_sum_del:
  "distinct (dict_keys d) \<Longrightarrow> map_of d k = Some v \<Longrightarrow>
    sum_list (map f (dict_del k d)) = sum_list (map f d) - (f (k, v) :: 'b::ab_group_add)"
proof (induction d)
  case (Cons y d)
  show ?case
  proof (cases "fst y = k")
    case True
    then have "k \<notin> set (dict_keys d)" using Cons.prems(1) by auto
    then have "dict_del k d = d" by (simp add: AList.delete_id)
    then show ?thesis using True Cons.prems by (cases y) simp
  next
    case False
    then show ?thesis using Cons by (cases y) (simp add: AList.delete_eq)
  qed
qed simp

section \<open>Lists\<close>

lemma find_SomeD_split:
  assumes "find P xs = Some x"
  shows "\<exists>ps ss. xs = ps @ x # ss \<and> P x \<and> (\<forall>y \<in> set ps. \<not> P y)"
  using assms
proof (induction xs)
  case Nil
  then show ?case by simp
next
  case (Cons y xs)
  show ?case
  proof (cases "P y")
    case True
    with Cons.prems have "y # xs = [] @ x # xs \<and> P x \<and> (\<forall>z \<in> set []. \<not> P z)" by simp
    then show ?thesis by blast
  next
    case False
    with Cons.prems Cons.IH obtain ps ss
      where "xs = ps @ x # ss" "P x" "\<forall>z \<in> set ps. \<not> P z" by auto
    with False have "y # xs = (y # ps) @ x # ss \<and> P x \<and> (\<forall>z \<in> set (y # ps). \<not> P z)"
      by simp
    then show ?thesis by blast
  qed
qed

lemma sum_list_remove1:
  fixes f :: "'a \<Rightarrow> int"
  assumes "x \<in> set xs"
  shows "sum_list (map f (remove1 x xs)) = sum_list (map f xs) - f x"
  using assms by (induction xs) auto

lemma remove1_split:
  assumes "x \<notin> set ps"
  shows "remove1 x (ps @ x # ss) = ps @ ss"
  using assms by (simp add: remove1_append)

lemma takeWhile_split:
  assumes "\<forall>x \<in> set ps. P x" "\<forall>x \<in> set ss. \<not> P x"
  shows "takeWhile P (ps @ ss) = ps"
  using assms by (cases ss) auto

end
