(* ===== verification/Third_Party.thy ===== *)
theory Third_Party
  imports Complex_Main Prelude
begin

text \<open>
  Code the repository calls but does not contain, as one record of functions that the
  definitions take as an argument: the operations of sortedcontainers.SortedList the
  address manager uses (a SortedList is read as the sequence of its elements), the size
  arithmetic of torch, and the truncation of a floating-point product. The predicate
  env_ok states what their documentation promises; reference_env shows that it can hold.
\<close>

section \<open>Free blocks\<close>

text \<open>FreeBlock of memory_management.py: the elements of the sorted list.\<close>

record free_block =
  start :: int
  bsize :: int

abbreviation bend :: "free_block \<Rightarrow> int" where
  "bend b \<equiv> start b + bsize b"

definition can_be_coalesced :: "free_block \<Rightarrow> free_block \<Rightarrow> bool" where
  "can_be_coalesced b succ \<longleftrightarrow> start b + bsize b = start succ"

section \<open>The environment\<close>

type_synonym torch_size = "int list"
type_synonym torch_dtype = string

record env =
  sl_add :: "free_block \<Rightarrow> free_block list \<Rightarrow> free_block list"
  sl_remove :: "free_block \<Rightarrow> free_block list \<Rightarrow> free_block list option"
  sl_bisect_left :: "free_block list \<Rightarrow> free_block \<Rightarrow> nat"
  numel :: "torch_size \<Rightarrow> int"
  itemsize :: "torch_dtype \<Rightarrow> int"
  float_trunc_mul :: "nat \<Rightarrow> real \<Rightarrow> int"

abbreviation starts :: "free_block list \<Rightarrow> int list" where
  "starts xs \<equiv> map start xs"

text \<open>
  add keeps the list sorted by key and inserts one occurrence; remove deletes an equal
  element and raises ValueError (None) when there is none; bisect_left is the index
  before which every key is smaller and from which every key is at least the given one.
\<close>

definition sorted_list_ok :: "env \<Rightarrow> bool" where
  "sorted_list_ok E \<longleftrightarrow>
     (\<forall>b xs. sorted (starts xs) \<longrightarrow>
        sorted (starts (sl_add E b xs)) \<and> mset (sl_add E b xs) = add_mset b (mset xs)) \<and>
     (\<forall>b xs. sorted (starts xs) \<longrightarrow> b \<notin> set xs \<longrightarrow> sl_remove E b xs = None) \<and>
     (\<forall>b xs. sorted (starts xs) \<longrightarrow> b \<in> set xs \<longrightarrow>
        (\<exists>ys. sl_remove E b xs = Some ys \<and> sorted (starts ys) \<and> mset xs = add_mset b (mset ys))) \<and>
     (\<forall>b xs. sorted (starts xs) \<longrightarrow> sl_bisect_left E xs b \<le> length xs \<and>
        (\<forall>x \<in> set (take (sl_bisect_left E xs b) xs). start x < start b) \<and>
        (\<forall>x \<in> set (drop (sl_bisect_left E xs b) xs). start b \<le> start x))"

text \<open>
  torch: sizes and item sizes are not negative. Floating point: the truncated product of
  a count n and a ratio between 0 and 1 lies between 0 and n, and is 0 for the ratio 0.
\<close>

definition torch_ok :: "env \<Rightarrow> bool" where
  "torch_ok E \<longleftrightarrow> (\<forall>s. 0 \<le> numel E s) \<and> (\<forall>d. 0 < itemsize E d)"

definition float_ok :: "env \<Rightarrow> bool" where
  "float_ok E \<longleftrightarrow>
     (\<forall>n r. 0 \<le> r \<longrightarrow> r \<le> 1 \<longrightarrow> 0 \<le> float_trunc_mul E n r \<and> float_trunc_mul E n r \<le> int n) \<and>
     (\<forall>n. float_trunc_mul E n 0 = 0)"

definition env_ok :: "env \<Rightarrow> bool" where
  "env_ok E \<longleftrightarrow> sorted_list_ok E \<and> torch_ok E \<and> float_ok E"

subsection \<open>What the hypotheses determine\<close>

text \<open>
  On a list whose keys are distinct the promises leave no freedom: the three operations
  are insort, remove1 and a prefix length.
\<close>

lemma sorted_distinct_starts_unique:
  assumes "sorted (starts xs)" "sorted (starts ys)" "distinct (starts xs)" "mset xs = mset ys"
  shows "xs = ys"
proof -
  have "starts xs = starts ys"
    using assms
    by (metis mset_map properties_for_sort sorted_sort_id)
  moreover have "inj_on start (set xs \<union> set ys)"
    using assms(3,4) by (metis Un_absorb distinct_map set_mset_mset)
  ultimately show ?thesis by (rule map_inj_on)
qed

lemma sl_add_insort:
  assumes E: "sorted_list_ok E" and s: "sorted (starts xs)"
    and d: "distinct (starts xs)" and n: "start b \<notin> set (starts xs)"
  shows "sl_add E b xs = insort_key start b xs"
proof (rule sorted_distinct_starts_unique)
  show "sorted (starts (sl_add E b xs))" using E s by (simp add: sorted_list_ok_def)
  show "sorted (starts (insort_key start b xs))" using s by (simp add: sorted_insort_key)
  have m: "mset (sl_add E b xs) = add_mset b (mset xs)" using E s by (simp add: sorted_list_ok_def)
  then show "mset (sl_add E b xs) = mset (insort_key start b xs)" by simp
  have "mset (starts (sl_add E b xs)) = mset (starts (b # xs))"
    by (simp add: m)
  then show "distinct (starts (sl_add E b xs))"
    using d n by (metis distinct.simps(2) list.map(2) mset_eq_imp_distinct_iff)
qed

lemma sl_remove_remove1:
  assumes E: "sorted_list_ok E" and s: "sorted (starts xs)"
    and d: "distinct (starts xs)" and b: "b \<in> set xs"
  shows "sl_remove E b xs = Some (remove1 b xs)"
proof -
  obtain ys where ys: "sl_remove E b xs = Some ys" "sorted (starts ys)"
    "mset xs = add_mset b (mset ys)"
    using E s b unfolding sorted_list_ok_def by blast
  have "mset (starts xs) = mset (starts (b # ys))" by (simp add: ys(3))
  then have "distinct (starts (b # ys))" using d by (metis mset_eq_imp_distinct_iff)
  moreover have "sorted (starts (remove1 b xs))" using s by (simp add: sorted_map_remove1)
  moreover have "mset (remove1 b xs) = mset ys" using ys(3) by simp
  ultimately have "ys = remove1 b xs"
    by (intro sorted_distinct_starts_unique [OF ys(2)]) auto
  with ys(1) show ?thesis by simp
qed

lemma sl_bisect_left_split:
  assumes E: "sorted_list_ok E" and s: "sorted (starts (ps @ ss))"
    and p: "\<forall>x \<in> set ps. start x < start b" and q: "\<forall>x \<in> set ss. start b \<le> start x"
  shows "sl_bisect_left E (ps @ ss) b = length ps"
proof -
  let ?i = "sl_bisect_left E (ps @ ss) b" and ?xs = "ps @ ss"
  have i: "?i \<le> length ?xs" "\<forall>x \<in> set (take ?i ?xs). start x < start b"
    "\<forall>x \<in> set (drop ?i ?xs). start b \<le> start x"
    using E s unfolding sorted_list_ok_def by blast+
  have "\<not> ?i < length ps"
  proof
    assume "?i < length ps"
    then have "ps ! ?i \<in> set (drop ?i ?xs)" "ps ! ?i \<in> set ps"
      by (simp_all add: Cons_nth_drop_Suc [symmetric])
    with i(3) p show False by fastforce
  qed
  moreover have "\<not> length ps < ?i"
  proof
    assume l: "length ps < ?i"
    with i(1) have "ss \<noteq> []" by (cases ss) auto
    with l have "hd ss \<in> set (take ?i ?xs)" by (cases ss; cases "?i - length ps") auto
    with i(2) have "start (hd ss) < start b" by blast
    moreover have "start b \<le> start (hd ss)" using q \<open>ss \<noteq> []\<close> by simp
    ultimately show False by simp
  qed
  ultimately show ?thesis by simp
qed

section \<open>A reference instance\<close>

text \<open>The list functions that the hypotheses describe, for the witnesses.\<close>

definition reference_env :: env where
  "reference_env = \<lparr>
     sl_add = insort_key start,
     sl_remove = (\<lambda>b xs. if b \<in> set xs then Some (remove1 b xs) else None),
     sl_bisect_left = (\<lambda>xs b. length (takeWhile (\<lambda>x. start x < start b) xs)),
     numel = (\<lambda>s. \<bar>prod_list s\<bar>),
     itemsize = (\<lambda>d. if d = ''float16'' then 2 else if d = ''int8'' then 1 else 4),
     float_trunc_mul = (\<lambda>n r. \<lfloor>real n * r\<rfloor>)\<rparr>"

lemma sorted_drop_takeWhile:
  assumes "sorted (starts xs)" "x \<in> set (dropWhile (\<lambda>x. start x < k) xs)"
  shows "k \<le> start x"
  using assms by (induction xs) (auto split: if_splits)

lemma reference_sorted_list_ok: "sorted_list_ok reference_env"
  unfolding sorted_list_ok_def
proof (intro conjI allI impI)
  fix b :: free_block and xs :: "free_block list"
  let ?i = "sl_bisect_left reference_env xs b"
  assume s: "sorted (starts xs)"
  show "sorted (starts (sl_add reference_env b xs))"
    using s by (simp add: reference_env_def sorted_insort_key)
  show "mset (sl_add reference_env b xs) = add_mset b (mset xs)"
    by (simp add: reference_env_def)
  show "?i \<le> length xs" by (simp add: reference_env_def length_takeWhile_le)
  show "\<forall>x \<in> set (take ?i xs). start x < start b"
    by (auto simp: reference_env_def takeWhile_eq_take [symmetric] dest: set_takeWhileD)
  show "\<forall>x \<in> set (drop ?i xs). start b \<le> start x"
    using s by (auto simp: reference_env_def dropWhile_eq_drop [symmetric]
        intro: sorted_drop_takeWhile)
  {
    assume "b \<notin> set xs"
    then show "sl_remove reference_env b xs = None" by (simp add: reference_env_def)
  next
    assume "b \<in> set xs"
    then show "\<exists>ys. sl_remove reference_env b xs = Some ys \<and> sorted (starts ys) \<and>
        mset xs = add_mset b (mset ys)"
      using s by (simp add: reference_env_def sorted_map_remove1)
  }
qed

lemma reference_env_ok: "env_ok reference_env"
proof -
  have "torch_ok reference_env" by (simp add: torch_ok_def reference_env_def)
  moreover have "float_ok reference_env"
    unfolding float_ok_def
  proof (intro allI impI conjI)
    show "float_trunc_mul reference_env n 0 = 0" for n by (simp add: reference_env_def)
    fix n :: nat and r :: real
    assume r: "0 \<le> r" "r \<le> 1"
    then show "0 \<le> float_trunc_mul reference_env n r" by (simp add: reference_env_def)
    have "real n * r \<le> real n" using r by (simp add: mult_left_le)
    then show "float_trunc_mul reference_env n r \<le> int n"
      by (simp add: reference_env_def floor_le_iff)
  qed
  ultimately show ?thesis using reference_sorted_list_ok by (simp add: env_ok_def)
qed

end
