(* ===== verification/Address_Manager.thy ===== *)
theory Address_Manager
  imports Third_Party
begin

text \<open>
  AddressManager of memory_management.py: a first-fit allocator over a virtual address
  space. The state is the explicit list of free blocks with the debug counter; allocate,
  batched_allocate, free, sbrk and check_consistency are the methods of the class. A
  reference to an element of the sorted list is an index, because prev_block is changed
  in place. The lemmas show that the free list stays sorted, disjoint and coalesced, that
  batched_allocate is iterated allocate, and what each operation does to the set of free
  addresses.
\<close>

unbundle bit_operations_syntax

section \<open>State and operations\<close>

record address_manager =
  am_size :: int
  am_align :: int
  explicit_list :: "free_block list"
  total_allocated_size :: int

definition ALIGN_BYTES :: int where
  "ALIGN_BYTES = 4096"

definition am_init :: "env \<Rightarrow> int \<Rightarrow> int \<Rightarrow> address_manager" where
  "am_init E sz align_bytes = \<lparr>
     am_size = sz,
     am_align = align_bytes,
     explicit_list = sl_add E \<lparr>start = 0, bsize = sz\<rparr> [],
     total_allocated_size = 0\<rparr>"

definition compute_aligned_size :: "address_manager \<Rightarrow> int \<Rightarrow> int" where
  "compute_aligned_size am raw_size =
     (raw_size + am_align am - 1) AND (NOT (am_align am - 1))"

definition grow_block :: "int \<Rightarrow> free_block \<Rightarrow> free_block" where
  "grow_block n b = b\<lparr>bsize := bsize b + n\<rparr>"

definition coalesce :: "env \<Rightarrow> free_block list \<Rightarrow> free_block \<Rightarrow> nat option \<Rightarrow> free_block option
    \<Rightarrow> (bool, free_block list) outcome" where
  "coalesce E xs curr_block prev succ =
     (let merge_prev = (case prev of None \<Rightarrow> False | Some i \<Rightarrow> can_be_coalesced (xs ! i) curr_block);
          merge_succ = (case succ of None \<Rightarrow> False | Some s \<Rightarrow> can_be_coalesced curr_block s)
      in if merge_prev \<and> merge_succ then
           let i = the prev; s = the succ;
               xs1 = xs[i := grow_block (bsize curr_block + bsize s) (xs ! i)]
           in (case sl_remove E s xs1 of
                 None \<Rightarrow> (Inl ValueError, xs1)
               | Some ys \<Rightarrow> (Inr True, ys))
         else if merge_prev then
           let i = the prev in (Inr True, xs[i := grow_block (bsize curr_block) (xs ! i)])
         else if merge_succ then
           let s = the succ
           in (case sl_remove E s xs of
                 None \<Rightarrow> (Inl ValueError, xs)
               | Some ys \<Rightarrow>
                   (Inr True, sl_add E \<lparr>start = start s - bsize curr_block,
                                       bsize = bsize s + bsize curr_block\<rparr> ys))
         else (Inr False, xs))"

definition am_allocate :: "env \<Rightarrow> address_manager \<Rightarrow> int
    \<Rightarrow> (int \<times> int, address_manager) outcome" where
  "am_allocate E am sz =
     (let aligned_size = compute_aligned_size am sz
      in case find (\<lambda>b. aligned_size \<le> bsize b) (explicit_list am) of
           None \<Rightarrow> (Inl RuntimeError, am)
         | Some block \<Rightarrow>
             (case sl_remove E block (explicit_list am) of
                None \<Rightarrow> (Inl ValueError, am)
              | Some ys \<Rightarrow>
                  let zs = (if aligned_size < bsize block
                            then sl_add E \<lparr>start = start block + aligned_size,
                                           bsize = bsize block - aligned_size\<rparr> ys
                            else ys)
                  in (Inr (start block, aligned_size),
                      am\<lparr>explicit_list := zs,
                         total_allocated_size := total_allocated_size am + aligned_size\<rparr>)))"

text \<open>
  The loop of batched_allocate over the free list. Its state is what the loop assigns:
  remaining, allocate_result, blocks_to_remove and blocks_to_add. Floor division by a zero
  aligned size raises.
\<close>

fun batched_scan :: "int \<Rightarrow> free_block list \<Rightarrow> int \<Rightarrow> (int \<times> int) list \<Rightarrow> free_block list
    \<Rightarrow> free_block list
    \<Rightarrow> py_error + (int \<times> (int \<times> int) list \<times> free_block list \<times> free_block list)" where
  "batched_scan a [] remaining res to_remove to_add = Inr (remaining, res, to_remove, to_add)"
| "batched_scan a (block # bs) remaining res to_remove to_add =
     (if remaining \<le> 0 then Inr (remaining, res, to_remove, to_add)
      else if bsize block < a then batched_scan a bs remaining res to_remove to_add
      else if a = 0 then Inl ZeroDivisionError
      else let num_from_block = min remaining (bsize block div a);
               used = num_from_block * a
           in batched_scan a bs (remaining - num_from_block)
                (res @ map (\<lambda>i. (start block + i * a, a)) [0..num_from_block - 1])
                (to_remove @ [block])
                (if used < bsize block
                 then to_add @ [\<lparr>start = start block + used, bsize = bsize block - used\<rparr>]
                 else to_add))"

fun sl_remove_all :: "env \<Rightarrow> free_block list \<Rightarrow> free_block list
    \<Rightarrow> (unit, free_block list) outcome" where
  "sl_remove_all E [] xs = (Inr (), xs)"
| "sl_remove_all E (b # bs) xs =
     (case sl_remove E b xs of None \<Rightarrow> (Inl ValueError, xs) | Some ys \<Rightarrow> sl_remove_all E bs ys)"

definition am_batched_allocate :: "env \<Rightarrow> address_manager \<Rightarrow> int \<Rightarrow> int
    \<Rightarrow> ((int \<times> int) list, address_manager) outcome" where
  "am_batched_allocate E am sz batch_size =
     (let aligned_size = compute_aligned_size am sz
      in case batched_scan aligned_size (explicit_list am) batch_size [] [] [] of
           Inl e \<Rightarrow> (Inl e, am)
         | Inr (remaining, allocate_result, blocks_to_remove, blocks_to_add) \<Rightarrow>
             if 0 < remaining then (Inl RuntimeError, am)
             else if int (length allocate_result) \<noteq> batch_size then (Inl RuntimeError, am)
             else (case sl_remove_all E blocks_to_remove (explicit_list am) of
                     (Inl e, ys) \<Rightarrow> (Inl e, am\<lparr>explicit_list := ys\<rparr>)
                   | (Inr _, ys) \<Rightarrow>
                       (Inr allocate_result,
                        am\<lparr>explicit_list := fold (sl_add E) blocks_to_add ys,
                           total_allocated_size :=
                             total_allocated_size am + aligned_size * batch_size\<rparr>)))"

definition am_free :: "env \<Rightarrow> address_manager \<Rightarrow> int \<Rightarrow> int
    \<Rightarrow> (unit, address_manager) outcome" where
  "am_free E am address sz =
     (let new_free_block = \<lparr>start = address, bsize = sz\<rparr>;
          xs = explicit_list am;
          index = sl_bisect_left E xs new_free_block;
          prev = (if 0 < index then Some (index - 1) else None);
          succ = (if index < length xs then Some (xs ! index) else None)
      in case coalesce E xs new_free_block prev succ of
           (Inl e, ys) \<Rightarrow> (Inl e, am\<lparr>explicit_list := ys\<rparr>)
         | (Inr coalesced, ys) \<Rightarrow>
             (Inr (), am\<lparr>explicit_list := (if coalesced then ys else sl_add E new_free_block ys),
                        total_allocated_size := total_allocated_size am - sz\<rparr>))"

definition am_sbrk :: "env \<Rightarrow> address_manager \<Rightarrow> int \<Rightarrow> (unit, address_manager) outcome" where
  "am_sbrk E am raw_size =
     (let sz = compute_aligned_size am raw_size;
          new_block = \<lparr>start = am_size am, bsize = sz\<rparr>;
          xs = explicit_list am;
          prev = (if 0 < length xs then Some (length xs - 1) else None)
      in case coalesce E xs new_block prev None of
           (Inl e, ys) \<Rightarrow> (Inl e, am\<lparr>explicit_list := ys\<rparr>)
         | (Inr coalesced, ys) \<Rightarrow>
             (Inr (), am\<lparr>explicit_list := (if coalesced then ys else sl_add E new_block ys),
                        am_size := am_size am + sz\<rparr>))"

definition get_heap_size :: "address_manager \<Rightarrow> int" where
  "get_heap_size am = am_size am"

definition get_free_size :: "address_manager \<Rightarrow> int" where
  "get_free_size am = am_size am - total_allocated_size am"

definition check_consistency :: "address_manager \<Rightarrow> bool" where
  "check_consistency am =
     (if \<exists>(prev, succ) \<in> set (zip (butlast (explicit_list am)) (tl (explicit_list am))).
           can_be_coalesced prev succ
      then False
      else sum_list (map bsize (explicit_list am)) + total_allocated_size am = am_size am)"

section \<open>Well-formed free lists\<close>

text \<open>
  Sorted with a gap between neighbours (so disjoint and coalesced), and no empty block.
\<close>

definition blocks_ok :: "free_block list \<Rightarrow> bool" where
  "blocks_ok xs \<longleftrightarrow> sorted_wrt (\<lambda>b c. bend b < start c) xs \<and> (\<forall>b \<in> set xs. 0 < bsize b)"

definition region :: "int \<Rightarrow> int \<Rightarrow> int set" where
  "region a n = {a ..< a + n}"

definition free_set :: "free_block list \<Rightarrow> int set" where
  "free_set xs = (\<Union>b \<in> set xs. region (start b) (bsize b))"

definition am_inv :: "address_manager \<Rightarrow> bool" where
  "am_inv am \<longleftrightarrow> 0 \<le> am_size am \<and> blocks_ok (explicit_list am) \<and>
     (\<forall>b \<in> set (explicit_list am). 0 \<le> start b \<and> bend b \<le> am_size am) \<and>
     sum_list (map bsize (explicit_list am)) + total_allocated_size am = am_size am"

abbreviation free_addresses :: "address_manager \<Rightarrow> int set" where
  "free_addresses am \<equiv> free_set (explicit_list am)"

lemma blocks_ok_Nil [simp]: "blocks_ok []"
  by (simp add: blocks_ok_def)

lemma blocks_ok_Cons [simp]:
  "blocks_ok (b # bs) \<longleftrightarrow> 0 < bsize b \<and> (\<forall>c \<in> set bs. bend b < start c) \<and> blocks_ok bs"
  by (auto simp: blocks_ok_def)

lemma blocks_ok_append [simp]:
  "blocks_ok (ps @ ss) \<longleftrightarrow>
     blocks_ok ps \<and> blocks_ok ss \<and> (\<forall>p \<in> set ps. \<forall>s \<in> set ss. bend p < start s)"
  by (auto simp: blocks_ok_def sorted_wrt_append)

lemma blocks_ok_pos: "blocks_ok xs \<Longrightarrow> b \<in> set xs \<Longrightarrow> 0 < bsize b"
  by (simp add: blocks_ok_def)

lemma blocks_ok_starts:
  "blocks_ok xs \<Longrightarrow> sorted (starts xs) \<and> distinct (starts xs)"
proof (induction xs)
  case Nil
  then show ?case by simp
next
  case (Cons b bs)
  then show ?case by force
qed

lemma blocks_ok_sorted: "blocks_ok xs \<Longrightarrow> sorted (starts xs)"
  and blocks_ok_distinct: "blocks_ok xs \<Longrightarrow> distinct (starts xs)"
  using blocks_ok_starts by auto

lemma free_set_Nil [simp]: "free_set [] = {}"
  by (simp add: free_set_def)

lemma free_set_Cons [simp]: "free_set (b # bs) = region (start b) (bsize b) \<union> free_set bs"
  by (simp add: free_set_def)

lemma free_set_append [simp]: "free_set (ps @ ss) = free_set ps \<union> free_set ss"
  by (simp add: free_set_def)

lemma region_split: "0 \<le> m \<Longrightarrow> 0 \<le> n \<Longrightarrow> region a (m + n) = region a m \<union> region (a + m) n"
  by (auto simp: region_def)

lemma region_disjoint_iff:
  "0 < m \<Longrightarrow> 0 < n \<Longrightarrow> region a m \<inter> region b n = {} \<longleftrightarrow> a + m \<le> b \<or> b + n \<le> a"
  by (auto simp: region_def)

lemma region_empty [simp]: "region a 0 = {}"
  by (simp add: region_def)

lemma region_subset_free_bounds:
  assumes "\<forall>b \<in> set xs. lo \<le> start b \<and> bend b \<le> hi"
  shows "free_set xs \<subseteq> {lo ..< hi}"
  using assms by (fastforce simp: free_set_def region_def)

lemma free_set_disjoint_iff:
  assumes "blocks_ok xs" "0 < n"
  shows "region a n \<inter> free_set xs = {} \<longleftrightarrow> (\<forall>b \<in> set xs. bend b \<le> a \<or> a + n \<le> start b)"
proof -
  have "region a n \<inter> free_set xs = {} \<longleftrightarrow>
      (\<forall>b \<in> set xs. region a n \<inter> region (start b) (bsize b) = {})"
    by (auto simp: free_set_def)
  also have "\<dots> \<longleftrightarrow> (\<forall>b \<in> set xs. bend b \<le> a \<or> a + n \<le> start b)"
    using assms by (auto simp: region_disjoint_iff blocks_ok_def)
  finally show ?thesis .
qed

section \<open>Freeing and growing: insertion with coalescing\<close>

text \<open>
  Under the invariant, free and sbrk insert a block between the blocks before it and the
  blocks after it and join it with a neighbour it touches.
\<close>

fun merge_right :: "free_block \<Rightarrow> free_block list \<Rightarrow> free_block list" where
  "merge_right b [] = [b]"
| "merge_right b (s # ss) =
     (if bend b = start s then \<lparr>start = start b, bsize = bsize b + bsize s\<rparr> # ss
      else b # s # ss)"

definition merge_left :: "free_block list \<Rightarrow> free_block list \<Rightarrow> free_block list" where
  "merge_left ps cs =
     (if ps \<noteq> [] \<and> bend (last ps) = start (hd cs)
      then butlast ps @ grow_block (bsize (hd cs)) (last ps) # tl cs
      else ps @ cs)"

lemma merge_right_hd [simp]: "start (hd (merge_right b ss)) = start b" "merge_right b ss \<noteq> []"
  by (cases ss; simp)+

lemma merge_right_ok:
  assumes "blocks_ok ss" "0 < bsize b" "\<forall>s \<in> set ss. bend b \<le> start s"
  shows "blocks_ok (merge_right b ss)"
proof (cases ss)
  case Nil
  then show ?thesis using assms by simp
next
  case (Cons s ss')
  with assms have "bend b \<le> start s" "bend s \<le> start c" if "c \<in> set ss'" for c
    using that by force+
  with Cons assms show ?thesis by (cases "bend b = start s") fastforce+
qed

lemma merge_right_free_set:
  assumes "blocks_ok ss" "0 < bsize b"
  shows "free_set (merge_right b ss) = region (start b) (bsize b) \<union> free_set ss"
proof (cases ss)
  case (Cons s ss')
  then have "0 < bsize s" using assms by simp
  with Cons assms show ?thesis
    by (auto simp: region_split less_imp_le)
qed simp

lemma merge_right_sum:
  "sum_list (map bsize (merge_right b ss)) = bsize b + sum_list (map bsize ss)"
  by (cases ss) auto

lemma merge_right_start_ge:
  assumes "\<forall>s \<in> set ss. bend b \<le> start s" "0 < bsize b" "c \<in> set (merge_right b ss)"
  shows "start b \<le> start c"
  using assms by (cases ss) (auto split: if_splits)

lemma merge_right_bounds:
  assumes "\<forall>s \<in> set ss. 0 \<le> start s \<and> bend s \<le> hi" "0 \<le> start b" "bend b \<le> hi"
  shows "\<forall>c \<in> set (merge_right b ss). 0 \<le> start c \<and> bend c \<le> hi"
  using assms by (cases ss) auto

lemma merge_left_snoc:
  "cs \<noteq> [] \<Longrightarrow> merge_left (ps @ [p]) cs =
     (if bend p = start (hd cs) then ps @ grow_block (bsize (hd cs)) p # tl cs else ps @ p # cs)"
  by (simp add: merge_left_def)

lemma merge_left_Nil [simp]: "merge_left [] cs = cs"
  by (simp add: merge_left_def)

lemma merge_left_props:
  assumes "blocks_ok ps" "blocks_ok cs" "cs \<noteq> []"
    and le: "\<forall>p \<in> set ps. bend p \<le> start (hd cs)"
  shows "blocks_ok (merge_left ps cs) \<and>
    free_set (merge_left ps cs) = free_set ps \<union> free_set cs \<and>
    sum_list (map bsize (merge_left ps cs)) = sum_list (map bsize ps) + sum_list (map bsize cs)"
proof (cases ps rule: rev_cases)
  case Nil
  then show ?thesis using assms by simp
next
  case (snoc qs p)
  obtain c cs' where cs: "cs = c # cs'" using assms(3) by (cases cs) auto
  have pos: "0 < bsize p" "0 < bsize c" using assms snoc cs by auto
  have q: "\<forall>q \<in> set qs. bend q < start p" using assms(1) snoc by auto
  show ?thesis
  proof (cases "bend p = start c")
    case True
    then have "\<forall>q \<in> set qs. \<forall>s \<in> set cs'. bend q < start s"
      using q assms(2) cs pos by fastforce
    with True q pos assms snoc cs show ?thesis
      by (auto simp: merge_left_snoc grow_block_def region_split less_imp_le)
  next
    case False
    then have "bend p < start c" using le snoc cs by auto
    moreover from this q pos have "\<forall>q \<in> set qs. bend q < start c" by fastforce
    ultimately have "\<forall>q \<in> set ps. \<forall>s \<in> set cs. bend q < start s"
      using snoc cs assms(2) pos by fastforce
    then show ?thesis using False assms snoc cs by (auto simp: merge_left_snoc)
  qed
qed

lemma merge_left_bounds:
  assumes "\<forall>s \<in> set ps. 0 \<le> start s \<and> bend s \<le> hi" "\<forall>s \<in> set cs. 0 \<le> start s \<and> bend s \<le> hi"
    and "cs \<noteq> []"
  shows "\<forall>c \<in> set (merge_left ps cs). 0 \<le> start c \<and> bend c \<le> hi"
proof (cases ps rule: rev_cases)
  case Nil
  then show ?thesis using assms by simp
next
  case (snoc qs p)
  then show ?thesis using assms
    by (cases cs) (auto simp: merge_left_snoc grow_block_def)
qed

lemma sl_remove_split:
  assumes "sorted_list_ok E" "sorted (starts (qs @ s # ts))" "distinct (starts (qs @ s # ts))"
  shows "sl_remove E s (qs @ s # ts) = Some (qs @ ts)"
proof -
  have "s \<notin> set qs" using assms(3) by auto
  then show ?thesis using sl_remove_remove1 [OF assms, of s] by (simp add: remove1_split)
qed

lemma sl_add_split:
  assumes E: "sorted_list_ok E" and s: "sorted (starts (ps @ ss))" "distinct (starts (ps @ ss))"
    and lt: "\<forall>p \<in> set ps. start p < start b" and gt: "\<forall>s \<in> set ss. start b < start s"
  shows "sl_add E b (ps @ ss) = ps @ b # ss"
proof (rule sorted_distinct_starts_unique)
  show "sorted (starts (sl_add E b (ps @ ss)))" using E s(1) by (simp add: sorted_list_ok_def)
  have m: "mset (sl_add E b (ps @ ss)) = add_mset b (mset (ps @ ss))"
    using E s(1) unfolding sorted_list_ok_def by blast
  then show "mset (sl_add E b (ps @ ss)) = mset (ps @ b # ss)" by simp
  have "start b \<notin> set (starts (ps @ ss))" using lt gt by auto
  moreover have "mset (starts (sl_add E b (ps @ ss))) = mset (start b # starts (ps @ ss))"
    using m by simp
  ultimately show "distinct (starts (sl_add E b (ps @ ss)))"
    using s(2) by (metis distinct.simps(2) mset_eq_imp_distinct_iff)
  show "sorted (starts (ps @ b # ss))"
    using s(1) lt gt by (fastforce simp: sorted_append less_imp_le)
qed

lemma coalesce_canonical:
  assumes E: "sorted_list_ok E" and ok: "blocks_ok (ps @ ss)"
    and b: "0 < bsize b" "\<forall>p \<in> set ps. bend p \<le> start b" "\<forall>s \<in> set ss. bend b \<le> start s"
  shows "\<exists>c ys. coalesce E (ps @ ss) b (if 0 < length ps then Some (length ps - 1) else None)
            (if length ps < length (ps @ ss) then Some ((ps @ ss) ! length ps) else None)
            = (Inr c, ys) \<and>
          (if c then ys else sl_add E b ys) = merge_left ps (merge_right b ss)"
proof -
  have lt: "\<forall>p \<in> set ps. start p < start b" and gt: "\<forall>s \<in> set ss. start b < start s"
    using ok b blocks_ok_pos [of ps] by fastforce+
  have s: "sorted (starts (ps @ ss))" "distinct (starts (ps @ ss))"
    using ok by (auto simp: blocks_ok_sorted blocks_ok_distinct simp del: map_append)
  have add: "sl_add E b (ps @ ss) = ps @ b # ss" by (rule sl_add_split [OF E s lt gt])
  have add_merged: "sl_add E \<lparr>start = start s - bsize b, bsize = bsize s + bsize b\<rparr> (ps @ ts)
      = ps @ \<lparr>start = start b, bsize = bsize b + bsize s\<rparr> # ts"
    if "ss = s # ts" "bend b = start s" for s ts
    using that s lt gt
    by (subst sl_add_split [OF E]) (auto simp: add.commute sorted_append)
  have rm: "sl_remove E s (ps @ s # ts) = Some (ps @ ts)" if "ss = s # ts" for s ts
    using that s by (intro sl_remove_split [OF E]) auto
  have rm_grown: "sl_remove E s (qs @ grow_block n p # s # ts) = Some (qs @ grow_block n p # ts)"
    if "ss = s # ts" "ps = qs @ [p]" for s ts qs p n
    using that s sl_remove_split [OF E, of "qs @ [grow_block n p]" s ts]
    by (simp add: grow_block_def)
  show ?thesis
  proof (cases ps rule: rev_cases)
    case Nil
    then show ?thesis using add add_merged rm
      by (cases ss) (auto simp: coalesce_def Let_def can_be_coalesced_def)
  next
    case (snoc qs p)
    then show ?thesis using add add_merged rm rm_grown
      by (cases ss) (auto simp: coalesce_def Let_def can_be_coalesced_def merge_left_snoc
          list_update_append nth_append grow_block_def)
  qed
qed

lemma free_split:
  assumes "blocks_ok xs" "0 < n" "\<forall>b \<in> set xs. bend b \<le> a \<or> a + n \<le> start b"
  shows "\<exists>ps ss. xs = ps @ ss \<and> (\<forall>p \<in> set ps. bend p \<le> a) \<and> (\<forall>s \<in> set ss. a + n \<le> start s)"
  using assms
proof (induction xs)
  case Nil
  then show ?case by simp
next
  case (Cons b bs)
  show ?case
  proof (cases "bend b \<le> a")
    case True
    from Cons obtain ps ss where "bs = ps @ ss" "\<forall>p \<in> set ps. bend p \<le> a"
      "\<forall>s \<in> set ss. a + n \<le> start s" by auto
    with True have "b # bs = (b # ps) @ ss \<and> (\<forall>p \<in> set (b # ps). bend p \<le> a) \<and>
      (\<forall>s \<in> set ss. a + n \<le> start s)" by simp
    then show ?thesis by blast
  next
    case False
    then have "a + n \<le> start b" using Cons.prems by auto
    with Cons.prems have "b # bs = [] @ (b # bs) \<and> (\<forall>p \<in> set []. bend p \<le> a) \<and>
      (\<forall>s \<in> set (b # bs). a + n \<le> start s)" by fastforce
    then show ?thesis by blast
  qed
qed

lemma am_free_canonical:
  assumes E: "sorted_list_ok E" and ok: "blocks_ok (explicit_list am)" and n: "0 < n"
    and xs: "explicit_list am = ps @ ss"
    and p: "\<forall>p \<in> set ps. bend p \<le> a" and s: "\<forall>s \<in> set ss. a + n \<le> start s"
  shows "am_free E am a n =
    (Inr (), am\<lparr>explicit_list := merge_left ps (merge_right \<lparr>start = a, bsize = n\<rparr> ss),
               total_allocated_size := total_allocated_size am - n\<rparr>)"
proof -
  let ?b = "\<lparr>start = a, bsize = n\<rparr>"
  have ok': "blocks_ok (ps @ ss)" using ok xs by simp
  have "start q < start ?b" if "q \<in> set ps" for q
    using that p ok' blocks_ok_pos [of ps q] by fastforce
  moreover have "start ?b \<le> start q" if "q \<in> set ss" for q
    using that s n by fastforce
  ultimately have i: "sl_bisect_left E (ps @ ss) ?b = length ps"
    using sl_bisect_left_split [OF E blocks_ok_sorted [OF ok']] by blast
  obtain c ys where "coalesce E (ps @ ss) ?b
      (if 0 < length ps then Some (length ps - 1) else None)
      (if length ps < length (ps @ ss) then Some ((ps @ ss) ! length ps) else None) = (Inr c, ys)"
    "(if c then ys else sl_add E ?b ys) = merge_left ps (merge_right ?b ss)"
    using coalesce_canonical [OF E ok', of ?b] n p s by auto
  then show ?thesis by (simp only: am_free_def Let_def xs i) simp
qed

text \<open>What freeing a region outside the free list does to the state and to the free addresses.\<close>

lemma am_free_spec:
  assumes E: "sorted_list_ok E" and inv: "am_inv am" and n: "0 < n"
    and bounds: "0 \<le> a" "a + n \<le> am_size am"
    and disj: "region a n \<inter> free_addresses am = {}"
  shows "\<exists>am'. am_free E am a n = (Inr (), am') \<and> am_inv am' \<and>
    free_addresses am' = free_addresses am \<union> region a n \<and>
    am_size am' = am_size am \<and> am_align am' = am_align am \<and>
    total_allocated_size am' = total_allocated_size am - n"
proof -
  let ?b = "\<lparr>start = a, bsize = n\<rparr>"
  have ok: "blocks_ok (explicit_list am)" using inv by (simp add: am_inv_def)
  obtain ps ss where xs: "explicit_list am = ps @ ss" and p: "\<forall>p \<in> set ps. bend p \<le> a"
    and s: "\<forall>s \<in> set ss. a + n \<le> start s"
    using free_split [OF ok n disj [unfolded free_set_disjoint_iff [OF ok n]]] by blast
  have okp: "blocks_ok ps" and oks: "blocks_ok ss" using ok xs by auto
  let ?cs = "merge_right ?b ss"
  have cs: "blocks_ok ?cs" "?cs \<noteq> []" "\<forall>p \<in> set ps. bend p \<le> start (hd ?cs)"
    using merge_right_ok [OF oks, of ?b] n s p by auto
  note ml = merge_left_props [OF okp cs]
  have bd: "\<forall>c \<in> set (merge_left ps ?cs). 0 \<le> start c \<and> bend c \<le> am_size am"
    using inv xs bounds
    by (intro merge_left_bounds merge_right_bounds) (auto simp: am_inv_def)
  have fs: "free_set ?cs = region a n \<union> free_set ss"
    using merge_right_free_set [OF oks, of ?b] n by simp
  have sum: "sum_list (map bsize (merge_left ps ?cs)) =
      sum_list (map bsize (explicit_list am)) + n"
    using ml merge_right_sum [of ?b ss] xs by simp
  let ?am = "am\<lparr>explicit_list := merge_left ps ?cs,
      total_allocated_size := total_allocated_size am - n\<rparr>"
  have "am_free E am a n = (Inr (), ?am)" by (rule am_free_canonical [OF E ok n xs p s])
  moreover have "am_inv ?am" using ml bd sum inv by (simp add: am_inv_def)
  moreover have "free_addresses ?am = free_addresses am \<union> region a n"
    using ml fs xs by auto
  ultimately show ?thesis by auto
qed

end
