(* ===== verification/Address_Space.thy ===== *)
theory Address_Space
  imports Address_Manager
begin

text \<open>
  The allocation side of the address manager. allocate is reduced to first_fit and
  batched_allocate to its n-fold iteration; both reductions assume only the promises of
  the sorted list. The properties of the component close the theory: what allocate and
  free do to the set of free addresses, that a batch is iterated allocation made atomic,
  the round trip of allocate and free, growth by sbrk and the consistency check.
\<close>

section \<open>First fit\<close>

definition tail_block :: "int \<Rightarrow> free_block \<Rightarrow> free_block list" where
  "tail_block n b = (if n < bsize b then [\<lparr>start = start b + n, bsize = bsize b - n\<rparr>] else [])"

fun first_fit :: "int \<Rightarrow> free_block list \<Rightarrow> (int \<times> free_block list) option" where
  "first_fit a [] = None"
| "first_fit a (b # bs) =
     (if a \<le> bsize b then Some (start b, tail_block a b @ bs)
      else map_option (\<lambda>(s, ys). (s, b # ys)) (first_fit a bs))"

lemma first_fit_None_iff: "first_fit a xs = None \<longleftrightarrow> (\<forall>b \<in> set xs. bsize b < a)"
  by (induction xs) auto

lemma first_fit_split:
  assumes "first_fit a xs = Some (s, ys)"
  shows "\<exists>ps b ss. xs = ps @ b # ss \<and> (\<forall>p \<in> set ps. bsize p < a) \<and> a \<le> bsize b \<and>
    s = start b \<and> ys = ps @ tail_block a b @ ss"
  using assms
proof (induction xs arbitrary: ys)
  case Nil
  then show ?case by simp
next
  case (Cons c cs)
  show ?case
  proof (cases "a \<le> bsize c")
    case True
    with Cons.prems have "c # cs = [] @ c # cs \<and> (\<forall>p \<in> set []. bsize p < a) \<and> a \<le> bsize c \<and>
        s = start c \<and> ys = [] @ tail_block a c @ cs" by simp
    then show ?thesis by blast
  next
    case False
    with Cons.prems obtain zs where z: "first_fit a cs = Some (s, zs)" "ys = c # zs" by auto
    with Cons.IH obtain ps b ss where "cs = ps @ b # ss" "\<forall>p \<in> set ps. bsize p < a"
      "a \<le> bsize b" "s = start b" "zs = ps @ tail_block a b @ ss" by blast
    with False z have "c # cs = (c # ps) @ b # ss \<and> (\<forall>p \<in> set (c # ps). bsize p < a) \<and>
      a \<le> bsize b \<and> s = start b \<and> ys = (c # ps) @ tail_block a b @ ss" by simp
    then show ?thesis by blast
  qed
qed

lemma tail_block_props:
  assumes "0 < a" "a \<le> bsize b"
  shows "blocks_ok (tail_block a b)"
    and "free_set (tail_block a b) = region (start b) (bsize b) - region (start b) a"
    and "sum_list (map bsize (tail_block a b)) = bsize b - a"
    and "c \<in> set (tail_block a b) \<Longrightarrow> start b < start c \<and> bend c = bend b"
  using assms by (auto simp: tail_block_def region_def split: if_splits)

lemma first_fit_ok:
  assumes "first_fit a xs = Some (s, ys)" "blocks_ok xs" "0 < a"
  shows "blocks_ok ys"
    and "region s a \<subseteq> free_set xs"
    and "free_set ys = free_set xs - region s a"
    and "sum_list (map bsize ys) = sum_list (map bsize xs) - a"
    and "\<forall>b \<in> set xs. lo \<le> start b \<and> bend b \<le> hi \<Longrightarrow> \<forall>b \<in> set ys. lo \<le> start b \<and> bend b \<le> hi"
proof -
  obtain ps b ss where xs: "xs = ps @ b # ss" and b: "a \<le> bsize b"
    and s: "s = start b" and ys: "ys = ps @ tail_block a b @ ss"
    using first_fit_split [OF assms(1)] by blast
  note t = tail_block_props [OF assms(3) b]
  have ok: "blocks_ok ps" "blocks_ok ss" "\<forall>p \<in> set ps. bend p < start b"
    "\<forall>p \<in> set ps. \<forall>q \<in> set ss. bend p < start q" "\<forall>q \<in> set ss. bend b < start q"
    using assms(2) xs by auto
  have "\<forall>p \<in> set ps. \<forall>c \<in> set (tail_block a b). bend p < start c"
    using ok(3) t(4) by fastforce
  moreover have "\<forall>c \<in> set (tail_block a b). \<forall>q \<in> set ss. bend c < start q"
    using ok(5) t(4) by fastforce
  ultimately show "blocks_ok ys" using ok t(1) by (auto simp: ys)
  have sub: "region s a \<subseteq> region (start b) (bsize b)" using b s by (auto simp: region_def)
  then show "region s a \<subseteq> free_set xs" by (auto simp: xs)
  have "region s a \<inter> free_set ps = {}" "region s a \<inter> free_set ss = {}"
    using ok b s assms(3) by (simp_all add: free_set_disjoint_iff) fastforce+
  then show "free_set ys = free_set xs - region s a" using t(2) s by (auto simp: xs ys)
  show "sum_list (map bsize ys) = sum_list (map bsize xs) - a" using t(3) by (simp add: xs ys)
  assume "\<forall>b \<in> set xs. lo \<le> start b \<and> bend b \<le> hi"
  then show "\<forall>b \<in> set ys. lo \<le> start b \<and> bend b \<le> hi"
    using t(4) by (auto simp: xs ys) force+
qed

text \<open>Because neighbours are coalesced, a free run lies inside one block.\<close>

lemma free_run_in_block:
  assumes "blocks_ok xs" "0 < a" "region t a \<subseteq> free_set xs"
  shows "\<exists>b \<in> set xs. start b \<le> t \<and> t + a \<le> bend b"
proof -
  have "t \<in> free_set xs" using assms(2,3) by (auto simp: region_def)
  then obtain b where b: "b \<in> set xs" "start b \<le> t" "t < bend b"
    by (auto simp: free_set_def region_def)
  have "bend b \<notin> free_set xs"
  proof
    assume "bend b \<in> free_set xs"
    then obtain c where c: "c \<in> set xs" "start c \<le> bend b" "bend b < bend c"
      by (auto simp: free_set_def region_def)
    from b(1) obtain ps ss where xs: "xs = ps @ b # ss" by (meson split_list)
    show False
      using c assms(1) xs by (auto dest: blocks_ok_pos)
  qed
  with assms(3) b have "\<not> bend b < t + a" by (auto simp: region_def subset_iff)
  with b show ?thesis by force
qed

lemma first_fit_least:
  assumes "first_fit a xs = Some (s, ys)" "blocks_ok xs" "0 < a" "region t a \<subseteq> free_set xs"
  shows "s \<le> t"
proof -
  obtain ps b ss where xs: "xs = ps @ b # ss" and p: "\<forall>p \<in> set ps. bsize p < a"
    and s: "s = start b"
    using first_fit_split [OF assms(1)] by blast
  obtain c where c: "c \<in> set xs" "start c \<le> t" "t + a \<le> bend c"
    using free_run_in_block [OF assms(2-4)] by blast
  with p have "c \<notin> set ps" by fastforce
  with c xs have "c = b \<or> c \<in> set ss" by auto
  then show ?thesis
  proof
    assume "c \<in> set ss"
    moreover have "0 < bsize b" using assms(2) xs by simp
    ultimately show ?thesis using assms(2) xs c s by fastforce
  qed (use c s in simp)
qed

lemma first_fit_None_no_run:
  assumes "blocks_ok xs" "0 < a"
  shows "first_fit a xs = None \<longleftrightarrow> \<not> (\<exists>t. region t a \<subseteq> free_set xs)"
proof
  assume n: "first_fit a xs = None"
  show "\<not> (\<exists>t. region t a \<subseteq> free_set xs)"
  proof
    assume "\<exists>t. region t a \<subseteq> free_set xs"
    then obtain t b where "b \<in> set xs" "start b \<le> t" "t + a \<le> bend b"
      using free_run_in_block [OF assms] by blast
    with n show False by (fastforce simp: first_fit_None_iff)
  qed
next
  assume n: "\<not> (\<exists>t. region t a \<subseteq> free_set xs)"
  show "first_fit a xs = None"
  proof (cases "first_fit a xs")
    case (Some r)
    then show ?thesis using n first_fit_ok(2) [of a xs "fst r" "snd r"] assms by auto
  qed
qed

section \<open>allocate is first fit\<close>

lemma find_first_fit:
  assumes "blocks_ok xs" "0 < a" "sorted_list_ok E"
  shows "(case find (\<lambda>b. a \<le> bsize b) xs of
       None \<Rightarrow> first_fit a xs = None
     | Some b \<Rightarrow> \<exists>ys. sl_remove E b xs = Some ys \<and>
         first_fit a xs = Some (start b,
           if a < bsize b then sl_add E \<lparr>start = start b + a, bsize = bsize b - a\<rparr> ys else ys))"
proof (cases "find (\<lambda>b. a \<le> bsize b) xs")
  case None
  then have "\<forall>x \<in> set xs. \<not> a \<le> bsize x" by (auto simp: find_None_iff)
  with None show ?thesis by (auto simp: first_fit_None_iff)
next
  case (Some b)
  then obtain ps ss where xs: "xs = ps @ b # ss" and b: "a \<le> bsize b"
    and p: "\<forall>p \<in> set ps. \<not> a \<le> bsize p" using find_SomeD_split by metis
  have ff: "first_fit a (ps @ b # ss) = Some (start b, ps @ tail_block a b @ ss)"
    using p b by (induction ps) auto
  have ok: "blocks_ok (ps @ b # ss)" using assms(1) xs by simp
  have rm: "sl_remove E b xs = Some (ps @ ss)"
    using sl_remove_split [OF assms(3) blocks_ok_sorted [OF ok] blocks_ok_distinct [OF ok]]
    by (simp add: xs)
  have add: "sl_add E \<lparr>start = start b + a, bsize = bsize b - a\<rparr> (ps @ ss)
      = ps @ tail_block a b @ ss" if "a < bsize b"
  proof -
    have "blocks_ok (ps @ ss)" using ok by simp
    then have so: "sorted (starts (ps @ ss))" "distinct (starts (ps @ ss))"
      by (rule blocks_ok_sorted, rule blocks_ok_distinct)
    have "\<forall>p \<in> set ps. start p < start b + a" "\<forall>s \<in> set ss. start b + a < start s"
      using ok that assms(2) blocks_ok_pos [of ps] by fastforce+
    with so that show ?thesis
      by (subst sl_add_split [OF assms(3)]) (auto simp: tail_block_def)
  qed
  show ?thesis using Some rm ff add b by (auto simp: xs tail_block_def)
qed

lemma am_allocate_first_fit:
  assumes E: "sorted_list_ok E" and inv: "am_inv am" and a: "0 < compute_aligned_size am sz"
  shows "am_allocate E am sz =
    (let a = compute_aligned_size am sz
     in case first_fit a (explicit_list am) of
          None \<Rightarrow> (Inl RuntimeError, am)
        | Some (s, ys) \<Rightarrow> (Inr (s, a), am\<lparr>explicit_list := ys,
            total_allocated_size := total_allocated_size am + a\<rparr>))"
proof -
  have ok: "blocks_ok (explicit_list am)" using inv by (simp add: am_inv_def)
  show ?thesis
    using find_first_fit [OF ok a E]
    by (auto simp: am_allocate_def Let_def split: option.splits)
qed

lemma am_allocate_cases:
  assumes E: "sorted_list_ok E" and inv: "am_inv am" and a: "0 < compute_aligned_size am sz"
  shows "(\<exists>s ys. first_fit (compute_aligned_size am sz) (explicit_list am) = Some (s, ys) \<and>
      am_allocate E am sz = (Inr (s, compute_aligned_size am sz),
        am\<lparr>explicit_list := ys,
           total_allocated_size := total_allocated_size am + compute_aligned_size am sz\<rparr>) \<and>
      am_inv (am\<lparr>explicit_list := ys,
           total_allocated_size := total_allocated_size am + compute_aligned_size am sz\<rparr>))
    \<or> (first_fit (compute_aligned_size am sz) (explicit_list am) = None \<and>
       am_allocate E am sz = (Inl RuntimeError, am))"
proof (cases "first_fit (compute_aligned_size am sz) (explicit_list am)")
  case None
  then show ?thesis using am_allocate_first_fit [OF assms] by (simp add: Let_def)
next
  case (Some r)
  obtain s ys where r: "r = (s, ys)" by (cases r)
  have ok: "blocks_ok (explicit_list am)" using inv by (simp add: am_inv_def)
  note ff = first_fit_ok [OF Some [unfolded r] ok a]
  have "\<forall>b \<in> set ys. 0 \<le> start b \<and> bend b \<le> am_size am"
    using ff(5) [of 0 "am_size am"] inv by (simp add: am_inv_def)
  then have "am_inv (am\<lparr>explicit_list := ys,
      total_allocated_size := total_allocated_size am + compute_aligned_size am sz\<rparr>)"
    using ff(1,4) inv by (simp add: am_inv_def)
  then show ?thesis using Some r am_allocate_first_fit [OF assms] by (simp add: Let_def)
qed

section \<open>batched_allocate is iterated allocate\<close>

text \<open>The specification: allocate the blocks one after the other.\<close>

fun allocate_n :: "env \<Rightarrow> nat \<Rightarrow> address_manager \<Rightarrow> int
    \<Rightarrow> ((int \<times> int) list, address_manager) outcome" where
  "allocate_n E 0 am sz = (Inr [], am)"
| "allocate_n E (Suc n) am sz =
     (case am_allocate E am sz of
        (Inl e, am') \<Rightarrow> (Inl e, am')
      | (Inr r, am') \<Rightarrow>
          (case allocate_n E n am' sz of
             (Inl e, am'') \<Rightarrow> (Inl e, am'')
           | (Inr rs, am'') \<Rightarrow> (Inr (r # rs), am'')))"

fun first_fit_n :: "int \<Rightarrow> nat \<Rightarrow> free_block list \<Rightarrow> ((int \<times> int) list \<times> free_block list) option" where
  "first_fit_n a 0 xs = Some ([], xs)"
| "first_fit_n a (Suc n) xs =
     (case first_fit a xs of
        None \<Rightarrow> None
      | Some (s, ys) \<Rightarrow> map_option (\<lambda>(rs, zs). ((s, a) # rs, zs)) (first_fit_n a n ys))"

lemma first_fit_n_skip:
  "bsize b < a \<Longrightarrow>
     first_fit_n a n (b # bs) = map_option (\<lambda>(rs, ys). (rs, b # ys)) (first_fit_n a n bs)"
  by (induction n arbitrary: bs) (auto split: option.splits simp: option.map_comp comp_def prod.case_distrib)

lemma first_fit_n_Nil [simp]: "0 < n \<Longrightarrow> first_fit_n a n [] = None"
  by (cases n) auto

lemma first_fit_n_carve:
  assumes "0 < a" "int k * a \<le> bsize b"
  shows "first_fit_n a (k + m) (b # bs) =
    map_option (\<lambda>(rs, ys). (map (\<lambda>i. (start b + int i * a, a)) [0..<k] @ rs, ys))
      (first_fit_n a m ((if k = 0 then [b] else tail_block (int k * a) b) @ bs))"
  using assms(2)
proof (induction k arbitrary: b)
  case 0
  then show ?case by (cases "first_fit_n a m (b # bs)") auto
next
  case (Suc k)
  have "1 * a \<le> int (Suc k) * a" using assms(1) by (intro mult_right_mono) auto
  with Suc.prems have ab: "a \<le> bsize b" by linarith
  have step: "first_fit a (b # bs) = Some (start b, tail_block a b @ bs)" using ab by simp
  show ?case
  proof (cases "k = 0")
    case True
    then show ?thesis using step by (simp split: option.splits)
  next
    case False
    then have "1 * a \<le> int k * a" using assms(1) by (intro mult_right_mono) auto
    with Suc.prems have lt: "a < bsize b" by (simp add: algebra_simps) (use assms(1) in linarith)
    let ?c = "\<lparr>start = start b + a, bsize = bsize b - a\<rparr>"
    have "int k * a \<le> bsize ?c" using Suc.prems by (simp add: algebra_simps)
    note IH = Suc.IH [OF this]
    have tl: "tail_block (int k * a) ?c = tail_block (int (Suc k) * a) b"
      by (simp add: tail_block_def algebra_simps)
    have r: "map (\<lambda>i. (start b + int i * a, a)) [0..<Suc k] =
        (start b, a) # map (\<lambda>i. (start ?c + int i * a, a)) [0..<k]"
      by (subst upt_conv_Cons) (simp_all add: map_Suc_upt [symmetric] algebra_simps comp_def
          del: map_Suc_upt upt_Suc)
    show ?thesis
      using step lt False IH tl r
      by (simp add: tail_block_def [of a] option.map_comp comp_def prod.case_distrib
          del: upt_Suc)
  qed
qed

lemma upto_upt: "[0..int k - 1] = map int [0..<k]"
  by (induction k) (auto simp: upto_rec2)

lemma batched_scan_first_fit_n:
  assumes a: "0 < a"
  shows "\<exists>rem r R A.
    batched_scan a xs (int n) res rm ad = Inr (rem, res @ r, rm @ R, ad @ A) \<and>
    mset R \<subseteq># mset xs \<and>
    (case first_fit_n a n xs of
       None \<Rightarrow> 0 < rem
     | Some (rs, ys) \<Rightarrow> rem = 0 \<and> r = rs \<and> length rs = n \<and> mset ys = mset xs - mset R + mset A)"
proof (induction xs arbitrary: n res rm ad)
  case Nil
  then show ?case by (cases n) auto
next
  case (Cons b bs)
  consider "n = 0" | "0 < n" "bsize b < a" | "0 < n" "a \<le> bsize b" by force
  then show ?case
  proof cases
    case 1
    then show ?thesis by auto
  next
    case 2
    from Cons.IH [of n res rm ad] obtain rem r R A where
      IH: "batched_scan a bs (int n) res rm ad = Inr (rem, res @ r, rm @ R, ad @ A)"
        "mset R \<subseteq># mset bs"
        "case first_fit_n a n bs of None \<Rightarrow> 0 < rem
         | Some (rs, ys) \<Rightarrow> rem = 0 \<and> r = rs \<and> length rs = n \<and> mset ys = mset bs - mset R + mset A"
      by blast
    have "mset R \<subseteq># mset (b # bs)"
      using IH(2) by (metis mset.simps(2) add_mset_add_single mset_subset_eq_add_left subset_mset.order_trans)
    moreover have "batched_scan a (b # bs) (int n) res rm ad = Inr (rem, res @ r, rm @ R, ad @ A)"
      using IH(1) 2 by simp
    moreover have "add_mset b (mset bs + mset A - mset R) = add_mset b (mset bs) - mset R + mset A"
      using IH(2) by (auto simp: multiset_eq_iff subseteq_mset_def Suc_diff_le trans_le_add1)
    moreover have "case first_fit_n a n (b # bs) of None \<Rightarrow> 0 < rem
         | Some (rs, ys) \<Rightarrow> rem = 0 \<and> r = rs \<and> length rs = n \<and>
             mset ys = mset (b # bs) - mset R + mset A"
      using IH(2,3) 2 calculation(3) by (auto simp: first_fit_n_skip split: option.splits)
    ultimately show ?thesis by blast
  next
    case 3
    let ?num = "min (int n) (bsize b div a)"
    define k where "k = nat ?num"
    define m where "m = n - k"
    let ?tl = "tail_block (int k * a) b"
    let ?r = "map (\<lambda>i. (start b + int i * a, a)) [0..<k]"
    have "1 \<le> bsize b div a" using 3 a by (metis div_self less_irrefl zdiv_mono1)
    then have k: "0 < k" "k \<le> n" "n = k + m" and num: "?num = int k"
      using 3 by (auto simp: k_def m_def)
    have "int k * a \<le> bsize b div a * a" using num a by (intro mult_right_mono) auto
    also have "\<dots> \<le> bsize b" using a by (simp add: minus_mod_eq_div_mult [symmetric])
    finally have ka: "int k * a \<le> bsize b" .
    have tail: "first_fit_n a m (?tl @ bs) = map_option (\<lambda>(rs, ys). (rs, ?tl @ ys)) (first_fit_n a m bs)"
    proof (cases "m = 0 \<or> ?tl = []")
      case True
      then show ?thesis by (auto simp: option.map_id prod.case_eq_if option.map_ident)
    next
      case False
      then have "int k = bsize b div a" using num m_def by linarith
      then have "bsize b - int k * a < a" using a by (simp add: minus_div_mult_eq_mod)
      then show ?thesis using False by (auto simp: tail_block_def first_fit_n_skip)
    qed
    have ff: "first_fit_n a n (b # bs) =
        map_option (\<lambda>(rs, ys). (?r @ rs, ?tl @ ys)) (first_fit_n a m bs)"
      using first_fit_n_carve [OF a ka, of m bs] tail k
      by (simp add: option.map_comp comp_def prod.case_distrib)
    from Cons.IH [of m "res @ ?r" "rm @ [b]" "ad @ ?tl"] obtain rem r R A where
      IH: "batched_scan a bs (int m) (res @ ?r) (rm @ [b]) (ad @ ?tl)
        = Inr (rem, (res @ ?r) @ r, (rm @ [b]) @ R, (ad @ ?tl) @ A)"
        "mset R \<subseteq># mset bs"
        "case first_fit_n a m bs of None \<Rightarrow> 0 < rem
         | Some (rs, ys) \<Rightarrow> rem = 0 \<and> r = rs \<and> length rs = m \<and> mset ys = mset bs - mset R + mset A"
      by blast
    have rem: "int n - int k = int m" using k(3) by simp
    have "batched_scan a (b # bs) (int n) res rm ad =
        batched_scan a bs (int m) (res @ ?r) (rm @ [b]) (ad @ ?tl)"
      using 3 a num rem by (simp add: tail_block_def Let_def upto_upt comp_def)
    with IH(1) have "batched_scan a (b # bs) (int n) res rm ad =
        Inr (rem, res @ (?r @ r), rm @ (b # R), ad @ (?tl @ A))" by simp
    moreover have "mset (b # R) \<subseteq># mset (b # bs)" using IH(2) by simp
    moreover have "case first_fit_n a n (b # bs) of None \<Rightarrow> 0 < rem
         | Some (rs, ys) \<Rightarrow> rem = 0 \<and> ?r @ r = rs \<and> length rs = n \<and>
             mset ys = mset (b # bs) - mset (b # R) + mset (?tl @ A)"
      unfolding ff using IH(3) k(3) by (cases "first_fit_n a m bs") auto
    ultimately show ?thesis by blast
  qed
qed

lemma sl_remove_all_mset:
  assumes E: "sorted_list_ok E"
  shows "sorted (starts xs) \<Longrightarrow> mset R \<subseteq># mset xs \<Longrightarrow>
    \<exists>ys. sl_remove_all E R xs = (Inr (), ys) \<and> sorted (starts ys) \<and> mset ys = mset xs - mset R"
proof (induction R arbitrary: xs)
  case Nil
  then show ?case by simp
next
  case (Cons b R)
  then have "b \<in> set xs" by (metis mset_subset_eqD set_mset_mset list.set_intros(1))
  with E Cons.prems obtain ys where ys: "sl_remove E b xs = Some ys" "sorted (starts ys)"
    "mset xs = add_mset b (mset ys)" unfolding sorted_list_ok_def by blast
  then have "mset R \<subseteq># mset ys" using Cons.prems by simp
  with Cons.IH [OF ys(2)] ys show ?case by auto
qed

lemma fold_sl_add_mset:
  assumes E: "sorted_list_ok E"
  shows "sorted (starts xs) \<Longrightarrow> sorted (starts (fold (sl_add E) A xs)) \<and>
    mset (fold (sl_add E) A xs) = mset xs + mset A"
proof (induction A arbitrary: xs)
  case Nil
  then show ?case by simp
next
  case (Cons b A)
  have "sorted (starts (sl_add E b xs))" "mset (sl_add E b xs) = add_mset b (mset xs)"
    using E Cons.prems unfolding sorted_list_ok_def by blast+
  with Cons.IH [of "sl_add E b xs"] show ?case by simp
qed

lemma first_fit_n_ok:
  "first_fit_n a n xs = Some (rs, ys) \<Longrightarrow> blocks_ok xs \<Longrightarrow> 0 < a \<Longrightarrow> blocks_ok ys"
proof (induction n arbitrary: xs rs)
  case 0
  then show ?case by simp
next
  case (Suc n)
  then show ?case using first_fit_ok(1) by (fastforce split: option.splits)
qed

lemma compute_aligned_size_update [simp]:
  "compute_aligned_size (am\<lparr>explicit_list := ys, total_allocated_size := t\<rparr>) sz
    = compute_aligned_size am sz"
  by (simp add: compute_aligned_size_def)

lemma allocate_n_first_fit_n:
  assumes E: "sorted_list_ok E"
  shows "am_inv am \<Longrightarrow> 0 < compute_aligned_size am sz \<Longrightarrow>
    (case first_fit_n (compute_aligned_size am sz) n (explicit_list am) of
       None \<Rightarrow> fst (allocate_n E n am sz) = Inl RuntimeError
     | Some (rs, ys) \<Rightarrow> allocate_n E n am sz = (Inr rs, am\<lparr>explicit_list := ys,
          total_allocated_size := total_allocated_size am + compute_aligned_size am sz * int n\<rparr>))"
proof (induction n arbitrary: am)
  case 0
  then show ?case by simp
next
  case (Suc n)
  let ?a = "compute_aligned_size am sz"
  from am_allocate_cases [OF E Suc.prems] show ?case
  proof (elim disjE exE conjE)
    fix s ys
    let ?am = "am\<lparr>explicit_list := ys, total_allocated_size := total_allocated_size am + ?a\<rparr>"
    assume ff: "first_fit ?a (explicit_list am) = Some (s, ys)"
      and al: "am_allocate E am sz = (Inr (s, ?a), ?am)" and inv: "am_inv ?am"
    from Suc.IH [OF inv] Suc.prems ff al show ?case
      by (auto split: option.splits sum.splits prod.splits simp: algebra_simps)
  next
    assume "first_fit ?a (explicit_list am) = None" "am_allocate E am sz = (Inl RuntimeError, am)"
    then show ?case by simp
  qed
qed

lemma am_batched_allocate_iterates:
  assumes E: "sorted_list_ok E" and inv: "am_inv am" and a: "0 < compute_aligned_size am sz"
  shows "am_batched_allocate E am sz (int n) =
    (case allocate_n E n am sz of
       (Inr rs, am') \<Rightarrow> (Inr rs, am')
     | (Inl e, am') \<Rightarrow> (Inl e, am))"
proof -
  let ?a = "compute_aligned_size am sz" and ?xs = "explicit_list am"
  have ok: "blocks_ok ?xs" using inv by (simp add: am_inv_def)
  obtain rem r R A where
    scan: "batched_scan ?a ?xs (int n) [] [] [] = Inr (rem, r, R, A)"
    and sub: "mset R \<subseteq># mset ?xs"
    and ff: "case first_fit_n ?a n ?xs of None \<Rightarrow> 0 < rem
      | Some (rs, ys) \<Rightarrow> rem = 0 \<and> r = rs \<and> length rs = n \<and> mset ys = mset ?xs - mset R + mset A"
    using batched_scan_first_fit_n [OF a, of ?xs n "[]" "[]" "[]"] by auto
  note al = allocate_n_first_fit_n [OF E inv a, of n]
  show ?thesis
  proof (cases "first_fit_n ?a n ?xs")
    case None
    with al ff have "fst (allocate_n E n am sz) = Inl RuntimeError" "0 < rem" by auto
    then show ?thesis
      by (cases "allocate_n E n am sz") (simp add: am_batched_allocate_def Let_def scan)
  next
    case (Some p)
    obtain rs ys where p: "p = (rs, ys)" by (cases p)
    obtain zs where zs: "sl_remove_all E R ?xs = (Inr (), zs)" "sorted (starts zs)"
      "mset zs = mset ?xs - mset R"
      using sl_remove_all_mset [OF E blocks_ok_sorted [OF ok] sub] by blast
    have oky: "blocks_ok ys" using first_fit_n_ok Some p ok a by blast
    have "fold (sl_add E) A zs = ys"
    proof (rule sym, rule sorted_distinct_starts_unique)
      show "sorted (starts ys)" "distinct (starts ys)"
        using oky by (simp_all add: blocks_ok_sorted blocks_ok_distinct)
      show "sorted (starts (fold (sl_add E) A zs))" "mset ys = mset (fold (sl_add E) A zs)"
        using fold_sl_add_mset [OF E zs(2)] zs(3) ff Some p by auto
    qed
    with ff al Some p scan zs show ?thesis
      by (simp add: am_batched_allocate_def Let_def)
  qed
qed

section \<open>Alignment\<close>

lemma and_not_mask_int: "x AND NOT (2 ^ k - 1) = 2 ^ k * (x div 2 ^ k)" for x :: int
proof -
  have "x AND NOT (mask k) = push_bit k (drop_bit k x)"
    by (rule bit_eqI) (auto simp: bit_simps)
  then show ?thesis by (simp add: mask_eq_exp_minus_1 push_bit_eq_mult drop_bit_eq_div mult.commute)
qed

lemma compute_aligned_size_pow2:
  assumes "am_align am = 2 ^ k"
  shows "compute_aligned_size am n = 2 ^ k * ((n + 2 ^ k - 1) div 2 ^ k)"
  using and_not_mask_int [of _ k] by (simp add: compute_aligned_size_def assms add_diff_eq)

lemma aligned_size_bounds:
  assumes "am_align am = 2 ^ k"
  shows "2 ^ k dvd compute_aligned_size am n \<and> n \<le> compute_aligned_size am n
    \<and> compute_aligned_size am n < n + 2 ^ k"
proof -
  let ?p = "(2::int) ^ k" and ?m = "(n + 2 ^ k - 1) mod 2 ^ k"
  have "compute_aligned_size am n = n + ?p - 1 - ?m"
    using compute_aligned_size_pow2 [OF assms] by (simp add: minus_mod_eq_mult_div)
  moreover have "0 \<le> ?m" "?m < ?p" by simp_all
  ultimately have "n \<le> compute_aligned_size am n" "compute_aligned_size am n < n + ?p" by linarith+
  moreover have "?p dvd compute_aligned_size am n" by (simp add: compute_aligned_size_pow2 [OF assms])
  ultimately show ?thesis by blast
qed

section \<open>Growing the space\<close>

lemma am_sbrk_spec:
  assumes E: "sorted_list_ok E" and inv: "am_inv am" and n: "0 < compute_aligned_size am sz"
  shows "\<exists>am'. am_sbrk E am sz = (Inr (), am') \<and> am_inv am' \<and>
    am_size am' = am_size am + compute_aligned_size am sz \<and> am_align am' = am_align am \<and>
    free_addresses am' = free_addresses am \<union> region (am_size am) (compute_aligned_size am sz)"
proof -
  let ?n = "compute_aligned_size am sz" and ?xs = "explicit_list am"
  let ?b = "\<lparr>start = am_size am, bsize = ?n\<rparr>"
  have ok: "blocks_ok (?xs @ [])" using inv by (simp add: am_inv_def)
  have le: "\<forall>p \<in> set ?xs. bend p \<le> start ?b" using inv by (simp add: am_inv_def)
  obtain c ys where "coalesce E ?xs ?b (if 0 < length ?xs then Some (length ?xs - 1) else None) None
      = (Inr c, ys)" and ys: "(if c then ys else sl_add E ?b ys) = merge_left ?xs [?b]"
    using coalesce_canonical [OF E ok, of ?b] n le by auto
  then have "am_sbrk E am sz = (Inr (), am\<lparr>explicit_list := merge_left ?xs [?b],
      am_size := am_size am + ?n\<rparr>)"
    by (simp add: am_sbrk_def Let_def)
  moreover have ml: "blocks_ok (merge_left ?xs [?b])"
      "free_set (merge_left ?xs [?b]) = free_set ?xs \<union> region (am_size am) ?n"
      "sum_list (map bsize (merge_left ?xs [?b])) = sum_list (map bsize ?xs) + ?n"
    using merge_left_props [of ?xs "[?b]"] ok n le by auto
  moreover have "\<forall>b \<in> set (merge_left ?xs [?b]). 0 \<le> start b \<and> bend b \<le> am_size am + ?n"
  proof (rule merge_left_bounds)
    have "0 \<le> am_size am" using inv by (simp add: am_inv_def)
    then show "\<forall>s\<in>set [?b]. 0 \<le> start s \<and> bend s \<le> am_size am + ?n" using n by simp
  qed (use inv n in \<open>auto simp: am_inv_def\<close>)
  ultimately show ?thesis using inv n by (simp add: am_inv_def)
qed

lemma am_init_ok:
  assumes E: "sorted_list_ok E" and "0 < sz"
  shows "am_inv (am_init E sz al) \<and> free_addresses (am_init E sz al) = {0 ..< sz} \<and>
    am_size (am_init E sz al) = sz \<and> am_align (am_init E sz al) = al"
proof -
  have "sl_add E \<lparr>start = 0, bsize = sz\<rparr> [] = [\<lparr>start = 0, bsize = sz\<rparr>]"
    using sl_add_split [OF E, of "[]" "[]"] by simp
  then show ?thesis using assms(2) by (simp add: am_init_def am_inv_def region_def)
qed

lemma check_consistency_inv:
  assumes "am_inv am"
  shows "check_consistency am"
proof -
  have "\<not> can_be_coalesced p s"
    if "(p, s) \<in> set (zip (butlast xs) (tl xs))" "blocks_ok xs" for p s xs
    using that
  proof (induction xs)
    case Nil
    then show ?case by simp
  next
    case (Cons b bs)
    then show ?case by (cases bs) (auto simp: can_be_coalesced_def split: if_splits)
  qed
  then show ?thesis using assms by (auto simp: check_consistency_def am_inv_def)
qed

section \<open>The interface the tensor allocator relies on\<close>

text \<open>
  An address space hands out regions of its free set and takes them back. e is the
  environment and env_sat what is assumed of it; rounded is the size a request is rounded
  to. A list of live regions is laid out well when the regions are pairwise disjoint and,
  with the free set, make up the whole space.
\<close>

definition disjoint_regions :: "(int \<times> int) list \<Rightarrow> bool" where
  "disjoint_regions live \<longleftrightarrow>
     sorted_wrt (\<lambda>(a, n) (b, m). region a n \<inter> region b m = {}) live"

definition live_set :: "(int \<times> int) list \<Rightarrow> int set" where
  "live_set live = (\<Union>(a, n) \<in> set live. region a n)"

definition laid_out :: "int \<Rightarrow> int set \<Rightarrow> (int \<times> int) list \<Rightarrow> bool" where
  "laid_out space free live \<longleftrightarrow> disjoint_regions live \<and> (\<forall>(a, n) \<in> set live. 0 < n) \<and>
     live_set live \<inter> free = {} \<and> live_set live \<union> free = {0 ..< space}"

lemma laid_out_grow:
  assumes "laid_out sp free live" "0 \<le> sp" "0 \<le> n"
  shows "laid_out (sp + n) (free \<union> region sp n) live"
proof -
  have u: "live_set live \<union> free = {0 ..< sp}" using assms(1) by (simp add: laid_out_def)
  then have "live_set live \<subseteq> {0 ..< sp}" by blast
  then have "live_set live \<inter> region sp n = {}" by (fastforce simp: region_def)
  moreover have "{0 ..< sp} \<union> region sp n = {0 ..< sp + n}"
    using assms(2,3) by (auto simp: region_def)
  then have "live_set live \<union> (free \<union> region sp n) = {0 ..< sp + n}"
    using u by (simp add: Un_assoc [symmetric])
  ultimately show ?thesis using assms(1) by (auto simp: laid_out_def)
qed

locale address_space =
  fixes env_sat :: "'e \<Rightarrow> bool"
    and inv :: "'s \<Rightarrow> bool"
    and space :: "'s \<Rightarrow> int"
    and free :: "'s \<Rightarrow> int set"
    and rounded :: "'s \<Rightarrow> int \<Rightarrow> int"
    and alloc :: "'e \<Rightarrow> 's \<Rightarrow> int \<Rightarrow> (int \<times> int, 's) outcome"
    and release :: "'e \<Rightarrow> 's \<Rightarrow> int \<Rightarrow> int \<Rightarrow> (unit, 's) outcome"
  assumes alloc_ok: "env_sat e \<Longrightarrow> inv s \<Longrightarrow> 0 < rounded s n \<Longrightarrow> alloc e s n = (Inr (a, m), s') \<Longrightarrow>
      m = rounded s n \<and> inv s' \<and> region a m \<subseteq> free s \<and> free s' = free s - region a m \<and>
      space s' = space s \<and> (\<forall>i. rounded s' i = rounded s i)"
    and alloc_raises: "env_sat e \<Longrightarrow> inv s \<Longrightarrow> 0 < rounded s n \<Longrightarrow> alloc e s n = (Inl x, s') \<Longrightarrow>
      x = RuntimeError \<and> s' = s"
    and release_ok: "env_sat e \<Longrightarrow> inv s \<Longrightarrow> 0 < n \<Longrightarrow> region a n \<subseteq> {0 ..< space s} \<Longrightarrow>
      region a n \<inter> free s = {} \<Longrightarrow>
      \<exists>s'. release e s a n = (Inr (), s') \<and> inv s' \<and> free s' = free s \<union> region a n \<and>
        space s' = space s \<and> (\<forall>i. rounded s' i = rounded s i)"
begin

lemma alloc_laid_out:
  assumes "env_sat e" "inv s" "0 < rounded s n" "alloc e s n = (Inr (a, m), s')"
    and "laid_out (space s) (free s) live"
  shows "inv s' \<and> laid_out (space s') (free s') ((a, m) # live)"
proof -
  have *: "m = rounded s n" "inv s'" "region a m \<subseteq> free s" "free s' = free s - region a m"
    "space s' = space s" using alloc_ok [OF assms(1-4)] by blast+
  have "\<forall>(b, k) \<in> set live. region b k \<subseteq> live_set live" by (auto simp: live_set_def)
  then have "\<forall>(b, k) \<in> set live. region a m \<inter> region b k = {}"
    using *(3) assms(5) by (fastforce simp: laid_out_def)
  moreover have "live_set ((a, m) # live) = region a m \<union> live_set live"
    by (simp add: live_set_def)
  ultimately show ?thesis using * assms(3,5)
    by (auto simp: laid_out_def disjoint_regions_def)
qed

lemma release_laid_out:
  assumes "env_sat e" "inv s" "laid_out (space s) (free s) live" "(a, n) \<in> set live"
  shows "\<exists>s'. release e s a n = (Inr (), s') \<and> inv s' \<and>
    laid_out (space s') (free s') (remove1 (a, n) live)"
proof -
  obtain ps ss where live: "live = ps @ (a, n) # ss" "(a, n) \<notin> set ps"
    using split_list_first [OF assms(4)] by blast
  have rm: "remove1 (a, n) live = ps @ ss" using live by (simp add: remove1_append)
  have n: "0 < n" and sub: "region a n \<subseteq> live_set live"
    using assms(3,4) by (auto simp: laid_out_def live_set_def)
  have "region a n \<subseteq> {0 ..< space s}" "region a n \<inter> free s = {}"
    using sub assms(3) by (auto simp: laid_out_def)
  from release_ok [OF assms(1,2) n this] obtain s' where
    s': "release e s a n = (Inr (), s')" "inv s'" "free s' = free s \<union> region a n"
      "space s' = space s" by blast
  have "live_set live = region a n \<union> live_set (ps @ ss)" by (auto simp: live live_set_def)
  moreover have "region a n \<inter> live_set (ps @ ss) = {}"
    using assms(3)
    by (fastforce simp: live live_set_def laid_out_def disjoint_regions_def sorted_wrt_append)
  ultimately have "laid_out (space s') (free s') (ps @ ss)"
    using assms(3) s'
    by (auto simp: laid_out_def live disjoint_regions_def sorted_wrt_append)
  with s' rm show ?thesis by simp
qed

end

lemma am_allocate_result:
  assumes E: "sorted_list_ok E" and inv: "am_inv am" and a: "0 < compute_aligned_size am sz"
    and res: "am_allocate E am sz = (Inr (s, m), am')"
  shows "m = compute_aligned_size am sz" and "am_inv am'"
    and "region s m \<subseteq> free_addresses am"
    and "free_addresses am' = free_addresses am - region s m"
    and "am_size am' = am_size am" and "am_align am' = am_align am"
    and "region t m \<subseteq> free_addresses am \<Longrightarrow> s \<le> t"
proof -
  have ok: "blocks_ok (explicit_list am)" using inv by (simp add: am_inv_def)
  from am_allocate_cases [OF E inv a] res obtain ys where
    ff: "first_fit (compute_aligned_size am sz) (explicit_list am) = Some (s, ys)"
    and m: "m = compute_aligned_size am sz"
    and am': "am' = am\<lparr>explicit_list := ys, total_allocated_size := total_allocated_size am + m\<rparr>"
    and i: "am_inv am'" by auto
  show "m = compute_aligned_size am sz" "am_inv am'" by (fact m, fact i)
  show "region s m \<subseteq> free_addresses am" "free_addresses am' = free_addresses am - region s m"
    using first_fit_ok [OF ff ok a] by (simp_all add: am' m)
  show "am_size am' = am_size am" "am_align am' = am_align am" by (simp_all add: am')
  show "s \<le> t" if "region t m \<subseteq> free_addresses am"
    using first_fit_least [OF ff ok a] that m by simp
qed

lemma compute_aligned_size_cong: "am_align am' = am_align am \<Longrightarrow>
  compute_aligned_size am' n = compute_aligned_size am n"
  by (simp add: compute_aligned_size_def)

interpretation am: address_space sorted_list_ok am_inv am_size free_addresses
  compute_aligned_size am_allocate am_free
proof
  fix E :: env and am am' a m and n :: int
  assume A: "sorted_list_ok E" "am_inv am"
  {
    assume *: "0 < compute_aligned_size am n" "am_allocate E am n = (Inr (a, m), am')"
    show "m = compute_aligned_size am n \<and> am_inv am' \<and> region a m \<subseteq> free_addresses am \<and>
      free_addresses am' = free_addresses am - region a m \<and> am_size am' = am_size am \<and>
      (\<forall>i. compute_aligned_size am' i = compute_aligned_size am i)"
      using am_allocate_result [OF A *] compute_aligned_size_cong by blast
  next
    fix x
    assume "0 < compute_aligned_size am n" "am_allocate E am n = (Inl x, am')"
    then show "x = RuntimeError \<and> am' = am" using am_allocate_cases [OF A] by force
  next
    assume *: "0 < n" "region a n \<subseteq> {0..<am_size am}" "region a n \<inter> free_addresses am = {}"
    have "0 \<le> a \<and> a + n \<le> am_size am" using *(1,2) by (simp add: region_def)
    with am_free_spec [OF A *(1) _ _ *(3)] compute_aligned_size_cong
    show "\<exists>am'. am_free E am a n = (Inr (), am') \<and> am_inv am' \<and>
      free_addresses am' = free_addresses am \<union> region a n \<and> am_size am' = am_size am \<and>
      (\<forall>i. compute_aligned_size am' i = compute_aligned_size am i)"
      by blast
  }
qed

section \<open>Histories of calls\<close>

text \<open>
  A client that frees only what it was handed, as TensorMemoryAllocator does: the steps
  carry the list of live regions beside the state.
\<close>

inductive am_step :: "env \<Rightarrow> address_manager \<times> (int \<times> int) list
    \<Rightarrow> address_manager \<times> (int \<times> int) list \<Rightarrow> bool" for E where
  step_allocate: "0 < n \<Longrightarrow> am_allocate E am n = (Inr r, am') \<Longrightarrow>
    am_step E (am, live) (am', r # live)"
| step_allocate_raises: "0 < n \<Longrightarrow> am_allocate E am n = (Inl e, am') \<Longrightarrow>
    am_step E (am, live) (am', live)"
| step_batched: "0 < n \<Longrightarrow> am_batched_allocate E am n (int k) = (Inr rs, am') \<Longrightarrow>
    am_step E (am, live) (am', rev rs @ live)"
| step_batched_raises: "0 < n \<Longrightarrow> am_batched_allocate E am n (int k) = (Inl e, am') \<Longrightarrow>
    am_step E (am, live) (am', live)"
| step_free: "r \<in> set live \<Longrightarrow> am_free E am (fst r) (snd r) = (Inr (), am') \<Longrightarrow>
    am_step E (am, live) (am', remove1 r live)"
| step_sbrk: "0 < n \<Longrightarrow> am_sbrk E am n = (Inr (), am') \<Longrightarrow> am_step E (am, live) (am', live)"

inductive_cases am_step_elim: "am_step E (am, live) (am', live')"

definition am_good :: "nat \<Rightarrow> address_manager \<times> (int \<times> int) list \<Rightarrow> bool" where
  "am_good k = (\<lambda>(am, live). am_inv am \<and> am_align am = 2 ^ k \<and>
     laid_out (am_size am) (free_addresses am) live)"

lemma aligned_pos:
  assumes "am_align am = 2 ^ k" "0 < n"
  shows "0 < compute_aligned_size am n"
  using aligned_size_bounds [OF assms(1), of n] assms(2) by linarith

lemma am_good_allocate:
  assumes E: "sorted_list_ok E" and good: "am_good k (am, live)" and n: "0 < n"
    and res: "am_allocate E am n = (Inr r, am')"
  shows "am_good k (am', r # live)"
proof -
  obtain a m where r: "r = (a, m)" by (cases r)
  have i: "am_inv am" "am_align am = 2 ^ k" "laid_out (am_size am) (free_addresses am) live"
    using good by (simp_all add: am_good_def)
  note p = aligned_pos [OF i(2) n]
  show ?thesis
    using am.alloc_laid_out [OF E i(1) p res [unfolded r] i(3)] i(2)
      am_allocate_result(6) [OF E i(1) p res [unfolded r]]
    by (simp add: am_good_def r)
qed

lemma am_good_allocate_n:
  assumes E: "sorted_list_ok E"
  shows "am_good k (am, live) \<Longrightarrow> 0 < n \<Longrightarrow> allocate_n E i am n = (Inr rs, am') \<Longrightarrow>
    am_good k (am', rev rs @ live)"
proof (induction i arbitrary: am live rs)
  case 0
  then show ?case by simp
next
  case (Suc i)
  then obtain r am1 rs1 where
    r: "am_allocate E am n = (Inr r, am1)" "allocate_n E i am1 n = (Inr rs1, am')" "rs = r # rs1"
    by (auto split: sum.splits prod.splits)
  from Suc.IH [OF am_good_allocate [OF E Suc.prems(1,2) r(1)] Suc.prems(2) r(2)] r(3)
  show ?case by simp
qed

lemma am_good_step:
  assumes E: "sorted_list_ok E" and good: "am_good k s" and step: "am_step E s s'"
  shows "am_good k s'"
  using step
proof cases
  case (step_allocate n am r am' live)
  then show ?thesis using am_good_allocate [OF E] good by simp
next
  case (step_allocate_raises n am e am' live)
  then have "am_inv am" "0 < compute_aligned_size am n"
    using good aligned_pos by (auto simp: am_good_def)
  then have "am' = am" using am.alloc_raises [OF E] step_allocate_raises by blast
  then show ?thesis using step_allocate_raises good by simp
next
  case (step_batched n am i rs am' live)
  then have "am_inv am" "0 < compute_aligned_size am n"
    using good aligned_pos by (auto simp: am_good_def)
  from am_batched_allocate_iterates [OF E this, of i] step_batched
  have "allocate_n E i am n = (Inr rs, am')" by (auto split: sum.splits prod.splits)
  then show ?thesis using am_good_allocate_n [OF E] good step_batched by simp
next
  case (step_batched_raises n am i e am' live)
  then have "am_inv am" "0 < compute_aligned_size am n"
    using good aligned_pos by (auto simp: am_good_def)
  from am_batched_allocate_iterates [OF E this, of i] step_batched_raises
  have "am' = am" by (auto split: sum.splits prod.splits)
  then show ?thesis using step_batched_raises good by simp
next
  case (step_free r live am am')
  then have i: "am_inv am" "am_align am = 2 ^ k" "laid_out (am_size am) (free_addresses am) live"
    using good by (simp_all add: am_good_def)
  obtain am1 where "am_free E am (fst r) (snd r) = (Inr (), am1)" "am_inv am1"
    "laid_out (am_size am1) (free_addresses am1) (remove1 r live)"
    using am.release_laid_out [OF E i(1,3), of "fst r" "snd r"] step_free by auto
  moreover have "am_align am' = am_align am" using step_free(4)
    by (auto simp: am_free_def Let_def split: prod.splits sum.splits)
  ultimately show ?thesis using step_free i by (simp add: am_good_def)
next
  case (step_sbrk n am am' live)
  then have i: "am_inv am" "am_align am = 2 ^ k" "laid_out (am_size am) (free_addresses am) live"
    using good by (simp_all add: am_good_def)
  note p = aligned_pos [OF i(2) \<open>0 < n\<close>]
  from am_sbrk_spec [OF E i(1) p] step_sbrk
  have am': "am_inv am'" "am_size am' = am_size am + compute_aligned_size am n"
    "am_align am' = am_align am"
    "free_addresses am' = free_addresses am \<union> region (am_size am) (compute_aligned_size am n)"
    by auto
  have "0 \<le> am_size am" using i(1) by (simp add: am_inv_def)
  with i(3) p have "laid_out (am_size am') (free_addresses am') live"
    by (simp add: am' laid_out_grow)
  then show ?thesis using am' i step_sbrk by (simp add: am_good_def)
qed

lemma am_good_reachable:
  assumes E: "sorted_list_ok E" and "(am_step E)\<^sup>*\<^sup>* s s'" "am_good k s"
  shows "am_good k s'"
  using assms(2,3) by (induction rule: rtranclp_induct) (auto intro: am_good_step [OF E])

text \<open>The set of free addresses determines a coalesced free list.\<close>

lemma blocks_ok_hd_Least:
  assumes "blocks_ok (b # bs)"
  shows "start b \<in> free_set (b # bs)" and "t \<in> free_set (b # bs) \<Longrightarrow> start b \<le> t"
    and "bend b \<notin> free_set (b # bs)" and "start b \<le> t \<Longrightarrow> t < bend b \<Longrightarrow> t \<in> free_set (b # bs)"
    and "free_set bs = free_set (b # bs) - region (start b) (bsize b)"
proof -
  have d: "region (start b) (bsize b) \<inter> free_set bs = {}"
    using assms by (subst free_set_disjoint_iff) (auto simp: less_imp_le)
  then show "free_set bs = free_set (b # bs) - region (start b) (bsize b)" by auto
  show "start b \<in> free_set (b # bs)" using assms by (simp add: region_def)
  show "start b \<le> t" if "t \<in> free_set (b # bs)"
    using that assms by (fastforce simp: free_set_def region_def)
  show "bend b \<notin> free_set (b # bs)"
    using assms by (fastforce simp: free_set_def region_def)
  show "t \<in> free_set (b # bs)" if "start b \<le> t" "t < bend b"
    using that by (simp add: region_def)
qed

lemma free_set_inj:
  "blocks_ok xs \<Longrightarrow> blocks_ok ys \<Longrightarrow> free_set xs = free_set ys \<Longrightarrow> xs = ys"
proof (induction xs arbitrary: ys)
  case Nil
  then show ?case using blocks_ok_hd_Least(1) by (metis empty_iff free_set_Nil list.exhaust)
next
  case (Cons b bs)
  obtain c cs where ys: "ys = c # cs"
    using Cons.prems blocks_ok_hd_Least(1) by (metis empty_iff free_set_Nil list.exhaust)
  note B = blocks_ok_hd_Least [OF Cons.prems(1)]
  note C = blocks_ok_hd_Least [OF Cons.prems(2) [unfolded ys]]
  have eq: "free_set (b # bs) = free_set (c # cs)" using Cons.prems(3) ys by simp
  have st: "start b = start c" using B(1,2) C(1,2) eq by (metis order_antisym)
  have "bend b = bend c"
  proof (rule linorder_cases [of "bend b" "bend c"])
    assume "bend b < bend c"
    then have "bend b \<in> free_set (c # cs)"
      using C(4) [of "bend b"] st Cons.prems(1) by (simp add: less_imp_le)
    with B(3) show ?thesis unfolding eq by blast
  next
    assume "bend c < bend b"
    then have "bend c \<in> free_set (b # bs)"
      using B(4) [of "bend c"] st Cons.prems(2) ys by (simp add: less_imp_le)
    with C(3) show ?thesis unfolding eq by blast
  qed
  then have bc: "b = c" using st by simp
  then have "free_set bs = free_set cs" using B(5) C(5) eq by simp
  then have "bs = cs" using Cons.IH [of cs] Cons.prems ys by simp
  then show ?case using bc ys by simp
qed

lemma am_eqI:
  assumes "am_inv a" "am_inv b" "free_addresses a = free_addresses b"
    and "am_size a = am_size b" "am_align a = am_align b"
  shows "a = b"
proof -
  have "explicit_list a = explicit_list b"
    using assms(1-3) by (intro free_set_inj) (simp_all add: am_inv_def)
  moreover from this have "total_allocated_size a = total_allocated_size b"
    using assms(1,2,4) by (simp add: am_inv_def)
  ultimately show ?thesis using assms(4,5) by simp
qed

lemma free_set_card: "blocks_ok xs \<Longrightarrow> finite (free_set xs) \<and>
  int (card (free_set xs)) = sum_list (map bsize xs)"
proof (induction xs)
  case Nil
  then show ?case by simp
next
  case (Cons b bs)
  then have "region (start b) (bsize b) \<inter> free_set bs = {}"
    by (subst free_set_disjoint_iff) (auto simp: less_imp_le)
  with Cons show ?case by (simp add: card_Un_disjoint region_def)
qed

section \<open>Properties\<close>

text \<open>C1: Histories of the address manager. After any sequence of allocate, batched_allocate,
  free of a live region and sbrk, successful or not, the regions handed out and not yet freed
  are pairwise disjoint, they and the free list exactly tile the address space, the free
  list is sorted and coalesced, check_consistency answers True and get_free_size is the
  number of free addresses.\<close>

theorem address_manager_never_overlaps:
  assumes "sorted_list_ok E" "0 < sz" "(am_step E)\<^sup>*\<^sup>* (am_init E sz (2 ^ k), []) (am, live)"
  shows "laid_out (am_size am) (free_addresses am) live \<and> am_inv am \<and> check_consistency am \<and>
    get_free_size am = int (card (free_addresses am))"
proof -
  have "am_good k (am_init E sz (2 ^ k), [])"
    using am_init_ok [OF assms(1,2)]
    by (simp add: am_good_def laid_out_def live_set_def disjoint_regions_def)
  then have "am_good k (am, live)" using am_good_reachable assms(1,3) by blast
  then have "laid_out (am_size am) (free_addresses am) live" "am_inv am"
    by (simp_all add: am_good_def)
  then show ?thesis using check_consistency_inv free_set_card [of "explicit_list am"]
    by (simp add: am_inv_def get_free_size_def)
qed

definition sample_manager :: address_manager where
  "sample_manager = am_init reference_env 16384 (2 ^ 12)"

definition sample_after :: address_manager where
  "sample_after = sample_manager\<lparr>explicit_list := [\<lparr>start = 4096, bsize = 12288\<rparr>],
     total_allocated_size := 4096\<rparr>"

lemma sample_allocate: "am_allocate reference_env sample_manager 100 = (Inr (0, 4096), sample_after)"
  by code_simp

lemma sample_inv: "am_inv sample_manager" "compute_aligned_size sample_manager 100 = 4096"
  using am_init_ok [OF reference_sorted_list_ok, of 16384 "2 ^ 12"]
  by (simp_all add: sample_manager_def compute_aligned_size_def)

lemma address_manager_never_overlaps_witness:
  "laid_out 16384 (free_addresses sample_after) [(0, 4096)]"
proof -
  have "am_step reference_env (sample_manager, []) (sample_after, [(0, 4096)])"
    by (rule step_allocate [of 100]) (simp_all add: sample_allocate)
  then have "(am_step reference_env)\<^sup>*\<^sup>* (am_init reference_env 16384 (2 ^ 12), [])
      (sample_after, [(0, 4096)])" by (simp add: sample_manager_def)
  from address_manager_never_overlaps [OF reference_sorted_list_ok _ this] show ?thesis
    by (simp add: sample_after_def sample_manager_def am_init_def)
qed

text \<open>C2: allocate is lowest-address first fit and fails only when it must: a successful
  call returns the aligned size and the least address at which a free run of that size
  starts, takes exactly that run off the free set and keeps the invariant; it raises
  RuntimeError exactly when no free run is long enough, and then changes nothing.\<close>

theorem am_allocate_spec:
  assumes "sorted_list_ok E" "am_inv am" "0 < compute_aligned_size am sz"
  shows "case am_allocate E am sz of
      (Inr (s, n), am') \<Rightarrow> n = compute_aligned_size am sz \<and> region s n \<subseteq> free_addresses am \<and>
        (\<forall>t. region t n \<subseteq> free_addresses am \<longrightarrow> s \<le> t) \<and>
        free_addresses am' = free_addresses am - region s n \<and> am_inv am'
    | (Inl e, am') \<Rightarrow> e = RuntimeError \<and> am' = am \<and>
        (\<forall>t. \<not> region t (compute_aligned_size am sz) \<subseteq> free_addresses am)"
proof -
  have ok: "blocks_ok (explicit_list am)" using assms(2) by (simp add: am_inv_def)
  show ?thesis
  proof (cases "am_allocate E am sz")
    case (Pair r am')
    show ?thesis
    proof (cases r)
      case (Inr p)
      obtain s n where p: "p = (s, n)" by (cases p)
      note q = am_allocate_result [OF assms Pair [unfolded Inr p]]
      show ?thesis unfolding Pair Inr p prod.case sum.case using q by blast
    next
      case (Inl e)
      with am_allocate_cases [OF assms] Pair first_fit_None_no_run [OF ok assms(3)]
      show ?thesis by auto
    qed
  qed
qed

lemma am_allocate_spec_witness:
  "region 0 4096 \<subseteq> free_addresses sample_manager \<and> am_inv sample_after"
  using am_allocate_spec [OF reference_sorted_list_ok sample_inv(1), of 100]
  by (simp add: sample_inv sample_allocate)

text \<open>batched_allocate is iterated allocate made atomic: with enough memory it returns
  the very regions that batch_size calls of allocate return, in the same order, and leaves
  the same state; otherwise it raises and, unlike the iteration, leaves the state untouched.\<close>

theorem batched_allocate_is_atomic_iteration:
  assumes "sorted_list_ok E" "am_inv am" "0 < compute_aligned_size am sz"
  shows "am_batched_allocate E am sz (int n) =
    (case allocate_n E n am sz of (Inr rs, am') \<Rightarrow> (Inr rs, am') | (Inl e, am') \<Rightarrow> (Inl e, am))"
  by (rule am_batched_allocate_iterates [OF assms])

lemma batched_allocate_is_atomic_iteration_witness:
  "fst (am_batched_allocate reference_env sample_manager 100 1) = Inr [(0, 4096)]"
  using batched_allocate_is_atomic_iteration [OF reference_sorted_list_ok sample_inv(1), of 100 1]
  by (simp add: sample_inv sample_allocate)

text \<open>C3: allocate followed by free of the region it returned restores the address manager
  exactly: the free list is the same list, whatever neighbours were split or joined.\<close>

theorem allocate_free_roundtrip:
  assumes E: "sorted_list_ok E" and inv: "am_inv am" and a: "0 < compute_aligned_size am sz"
    and res: "am_allocate E am sz = (Inr (s, n), am')"
  shows "am_free E am' s n = (Inr (), am)"
proof -
  note r = am_allocate_result [OF E inv a res]
  have "region s n \<subseteq> {0 ..< am_size am}"
    using r(3) inv region_subset_free_bounds [of "explicit_list am" 0 "am_size am"]
    by (auto simp: am_inv_def)
  moreover have "0 < n" using r(1) a by simp
  ultimately have "0 \<le> s" "s + n \<le> am_size am'" using r(5) by (simp_all add: region_def)
  moreover have "region s n \<inter> free_addresses am' = {}" using r(4) by blast
  ultimately obtain am'' where
    g: "am_free E am' s n = (Inr (), am'')" "am_inv am''"
      "free_addresses am'' = free_addresses am' \<union> region s n" "am_size am'' = am_size am'"
      "am_align am'' = am_align am'"
      "total_allocated_size am'' = total_allocated_size am' - n"
    using am_free_spec [OF E r(2) \<open>0 < n\<close>] by metis
  have "free_addresses am' \<union> region s n = free_addresses am" using r(3,4) by blast
  with g r(5,6) have
    f: "am_free E am' s n = (Inr (), am'')" "am_inv am''"
      "free_addresses am'' = free_addresses am" "am_size am'' = am_size am"
      "am_align am'' = am_align am"
    by simp_all
  have "am'' = am" by (rule am_eqI) (use f inv in simp_all)
  with f show ?thesis by simp
qed

lemma allocate_free_roundtrip_witness:
  "am_free reference_env sample_after 0 4096 = (Inr (), sample_manager)"
  by (rule allocate_free_roundtrip [OF reference_sorted_list_ok sample_inv(1) _ sample_allocate])
    (simp add: sample_inv)

text \<open>The aligned size is the least multiple of the alignment, a power of two, that is
  not below the requested size.\<close>

theorem compute_aligned_size_least:
  assumes "am_align am = 2 ^ k"
  shows "2 ^ k dvd compute_aligned_size am n \<and> n \<le> compute_aligned_size am n \<and>
    (\<forall>m. 2 ^ k dvd m \<longrightarrow> n \<le> m \<longrightarrow> compute_aligned_size am n \<le> m)"
proof -
  note b = aligned_size_bounds [OF assms, of n]
  have "compute_aligned_size am n \<le> m" if "2 ^ k dvd m" "n \<le> m" for m
  proof (rule ccontr)
    assume "\<not> compute_aligned_size am n \<le> m"
    then have "0 < compute_aligned_size am n - m" by simp
    moreover have "2 ^ k dvd compute_aligned_size am n - m" using b that by simp
    ultimately have "2 ^ k \<le> compute_aligned_size am n - m" by (rule zdvd_imp_le [rotated])
    with b that show False by linarith
  qed
  with b show ?thesis by blast
qed

lemma compute_aligned_size_least_witness: "100 \<le> compute_aligned_size sample_manager 100"
  using compute_aligned_size_least [of sample_manager 12 100]
  by (simp add: sample_manager_def am_init_def)

end
