(* ===== verification/Memory_Objects.thy ===== *)
theory Memory_Objects
  imports Third_Party
begin

text \<open>
  MemoryFormat, MemoryObjMetadata and TensorMemoryObj of memory_management.py. A memory
  object has identity, so objects live in a heap and are named by numbers; the raw tensor
  of an object is the slice (offset, length) of the pool it views. Counting down the last
  reference calls the parent allocator, which is an argument here. Metrics, PinMonitor and
  the destructor are not modelled; cached_positions and extra are carried by no operation.
\<close>

section \<open>Formats and metadata\<close>

datatype memory_format =
    UNDEFINED
  | KV_2LTD
  | KV_T2D
  | KV_2TD
  | BINARY
  | BINARY_BUFFER
  | KV_MLA_FMT

fun token_dim :: "memory_format \<Rightarrow> nat" where
  "token_dim KV_2LTD = 2"
| "token_dim KV_T2D = 1"
| "token_dim KV_2TD = 0"
| "token_dim BINARY = 0"
| "token_dim BINARY_BUFFER = 0"
| "token_dim KV_MLA_FMT = 2"
| "token_dim UNDEFINED = 0"

text \<open>The values that Enum and auto give the members.\<close>

fun fmt_value :: "memory_format \<Rightarrow> int" where
  "fmt_value UNDEFINED = 0"
| "fmt_value KV_2LTD = 1"
| "fmt_value KV_T2D = 2"
| "fmt_value KV_2TD = 3"
| "fmt_value BINARY = 4"
| "fmt_value BINARY_BUFFER = 5"
| "fmt_value KV_MLA_FMT = 6"

definition fmt_of_value :: "int \<Rightarrow> py_error + memory_format" where
  "fmt_of_value v =
     (case find (\<lambda>f. fmt_value f = v)
         [UNDEFINED, KV_2LTD, KV_T2D, KV_2TD, BINARY, BINARY_BUFFER, KV_MLA_FMT] of
        None \<Rightarrow> Inl ValueError
      | Some f \<Rightarrow> Inr f)"

record mem_metadata =
  shape :: torch_size
  dtype :: "torch_dtype option"
  address :: int
  phy_size :: int
  ref_count :: int
  pin_count :: int
  fmt :: memory_format
  shapes :: "torch_size list option"
  dtypes :: "torch_dtype list option"

definition get_size_bytes :: "env \<Rightarrow> torch_size list \<Rightarrow> torch_dtype list \<Rightarrow> py_error + int" where
  "get_size_bytes E ss ds =
     (if length ss \<noteq> length ds then Inl AssertionError
      else Inr (sum_list (map (\<lambda>(s, d). numel E s * itemsize E d) (zip ss ds))))"

definition metadata_get_size :: "env \<Rightarrow> mem_metadata \<Rightarrow> py_error + int" where
  "metadata_get_size E md =
     (case (shapes md, dtypes md) of
        (Some ss, Some ds) \<Rightarrow> get_size_bytes E ss ds
      | _ \<Rightarrow> (case dtype md of
               None \<Rightarrow> Inl AttributeError
             | Some d \<Rightarrow> Inr (numel E (shape md) * itemsize E d)))"

subsection \<open>Serialisation\<close>

text \<open>
  The dictionary of to_dict, one field per key. str of a dtype is its torch name with the
  module in front. Empty lists are falsy, so shapes and dtypes that are empty become None.
\<close>

record metadata_dict =
  d_shape :: "int list"
  d_dtype :: "string option"
  d_address :: int
  d_phy_size :: int
  d_ref_count :: int
  d_fmt :: int
  d_shapes :: "int list list option"
  d_dtypes :: "string list option"

definition dtype_str :: "torch_dtype \<Rightarrow> string" where
  "dtype_str d = ''torch.'' @ d"

definition truthy :: "'a list option \<Rightarrow> 'a list option" where
  "truthy x = (case x of Some (y # ys) \<Rightarrow> Some (y # ys) | _ \<Rightarrow> None)"

definition to_dict :: "mem_metadata \<Rightarrow> metadata_dict" where
  "to_dict md = \<lparr>
     d_shape = shape md,
     d_dtype = map_option dtype_str (dtype md),
     d_address = address md,
     d_phy_size = phy_size md,
     d_ref_count = ref_count md,
     d_fmt = fmt_value (fmt md),
     d_shapes = truthy (shapes md),
     d_dtypes = map_option (map dtype_str) (truthy (dtypes md))\<rparr>"

text \<open>str.replace with the empty string: every occurrence, from the left.\<close>

fun remove_all :: "nat \<Rightarrow> string \<Rightarrow> string \<Rightarrow> string" where
  "remove_all pos old [] = []"
| "remove_all (Suc pos) old (c # cs) = remove_all pos old cs"
| "remove_all 0 old (c # cs) =
     (if take (length old) (c # cs) = old then remove_all (length old - 1) old cs
      else c # remove_all 0 old cs)"

definition dtype_name :: "string \<Rightarrow> torch_dtype" where
  "dtype_name s = remove_all 0 ''torch.'' s"

text \<open>getattr(torch, name) raises AttributeError for a name that torch does not have.\<close>

definition getattr_torch :: "torch_dtype set \<Rightarrow> torch_dtype \<Rightarrow> py_error + torch_dtype" where
  "getattr_torch known d = (if d \<in> known then Inr d else Inl AttributeError)"

fun getattr_torch_all :: "torch_dtype set \<Rightarrow> torch_dtype list \<Rightarrow> py_error + torch_dtype list" where
  "getattr_torch_all known [] = Inr []"
| "getattr_torch_all known (d # ds) =
     (case getattr_torch known d of
        Inl e \<Rightarrow> Inl e
      | Inr x \<Rightarrow> (case getattr_torch_all known ds of Inl e \<Rightarrow> Inl e | Inr xs \<Rightarrow> Inr (x # xs)))"

definition from_dict :: "torch_dtype set \<Rightarrow> metadata_dict \<Rightarrow> py_error + mem_metadata" where
  "from_dict known d =
     (case (case d_dtype d of
              None \<Rightarrow> Inr None
            | Some s \<Rightarrow> if s = [] then Inr None else map_sum id Some (getattr_torch known (dtype_name s)))
      of
        Inl e \<Rightarrow> Inl e
      | Inr dt \<Rightarrow>
          (case (case truthy (d_dtypes d) of
                   None \<Rightarrow> Inr None
                 | Some ss \<Rightarrow> map_sum id Some (getattr_torch_all known (map dtype_name ss)))
           of
             Inl e \<Rightarrow> Inl e
           | Inr dts \<Rightarrow>
               (case fmt_of_value (d_fmt d) of
                  Inl e \<Rightarrow> Inl e
                | Inr f \<Rightarrow> Inr \<lparr>shape = d_shape d, dtype = dt, address = d_address d,
                      phy_size = d_phy_size d, ref_count = d_ref_count d, pin_count = 0,
                      fmt = f, shapes = truthy (d_shapes d), dtypes = dts\<rparr>)))"

section \<open>Tensor memory objects\<close>

record mem_obj =
  meta :: mem_metadata
  raw_data :: "int \<times> int"
  valid :: bool
  has_parent :: bool
  group_prefix_sum :: "int list"

text \<open>The objects of a program, under the numbers that stand for references, and its allocator.\<close>

record 'a mem =
  allocator :: 'a
  objs :: "nat \<Rightarrow> mem_obj option"
  next_oid :: nat

fun prefix_sums :: "env \<Rightarrow> int \<Rightarrow> (torch_size \<times> torch_dtype) list \<Rightarrow> int list" where
  "prefix_sums E n [] = []"
| "prefix_sums E n ((s, d) # gs) =
     (n + numel E s * itemsize E d) # prefix_sums E (n + numel E s * itemsize E d) gs"

definition tensor_memory_obj :: "env \<Rightarrow> int \<times> int \<Rightarrow> mem_metadata \<Rightarrow> bool \<Rightarrow> py_error + mem_obj" where
  "tensor_memory_obj E raw md par =
     (if dtype md = None then Inl AssertionError
      else case (case (shapes md, dtypes md) of
               (Some ss, Some ds) \<Rightarrow>
                 if length ss \<noteq> length ds then Inl ValueError
                 else Inr (0 # prefix_sums E 0 (zip ss ds))
             | _ \<Rightarrow> map_sum id (\<lambda>n. [0, n]) (metadata_get_size E md))
        of
          Inl e \<Rightarrow> Inl e
        | Inr pre \<Rightarrow> Inr \<lparr>meta = md, raw_data = raw, valid = True, has_parent = par,
                         group_prefix_sum = pre\<rparr>)"

definition new_obj :: "mem_obj \<Rightarrow> 'a mem \<Rightarrow> nat \<times> 'a mem" where
  "new_obj m st = (next_oid st, st\<lparr>objs := (objs st)(next_oid st \<mapsto> m), next_oid := Suc (next_oid st)\<rparr>)"

definition upd_obj :: "(mem_obj \<Rightarrow> mem_obj) \<Rightarrow> nat \<Rightarrow> 'a mem \<Rightarrow> 'a mem" where
  "upd_obj f r st = (case objs st r of None \<Rightarrow> st | Some m \<Rightarrow> st\<lparr>objs := (objs st)(r \<mapsto> f m)\<rparr>)"

definition upd_meta :: "(mem_metadata \<Rightarrow> mem_metadata) \<Rightarrow> nat \<Rightarrow> 'a mem \<Rightarrow> 'a mem" where
  "upd_meta f = upd_obj (\<lambda>m. m\<lparr>meta := f (meta m)\<rparr>)"

definition invalidate :: "nat \<Rightarrow> 'a mem \<Rightarrow> 'a mem" where
  "invalidate = upd_obj (\<lambda>m. m\<lparr>valid := False\<rparr>)"

definition is_valid :: "'a mem \<Rightarrow> nat \<Rightarrow> bool" where
  "is_valid st r = (case objs st r of None \<Rightarrow> False | Some m \<Rightarrow> valid m)"

definition obj_get_size :: "mem_obj \<Rightarrow> int" where
  "obj_get_size m = last (group_prefix_sum m)"

definition obj_get_shapes :: "mem_obj \<Rightarrow> py_error + torch_size list" where
  "obj_get_shapes m = (case shapes (meta m) of None \<Rightarrow> Inl AssertionError | Some ss \<Rightarrow> Inr ss)"

definition obj_get_dtypes :: "mem_obj \<Rightarrow> py_error + torch_dtype list" where
  "obj_get_dtypes m = (case dtypes (meta m) of None \<Rightarrow> Inl AssertionError | Some ds \<Rightarrow> Inr ds)"

definition ref_count_up :: "nat \<Rightarrow> 'a mem \<Rightarrow> 'a mem" where
  "ref_count_up = upd_meta (\<lambda>md. md\<lparr>ref_count := ref_count md + 1\<rparr>)"

text \<open>parent_free is the free method of the object's parent allocator.\<close>

definition ref_count_down :: "(nat \<Rightarrow> 'a mem \<Rightarrow> (unit, 'a mem) outcome) \<Rightarrow> nat \<Rightarrow> 'a mem
    \<Rightarrow> (unit, 'a mem) outcome" where
  "ref_count_down parent_free r st =
     (case objs st r of
        None \<Rightarrow> (Inr (), st)
      | Some m \<Rightarrow>
          let n = ref_count (meta m) - 1;
              n' = (if n < 0 then 0 else n);
              st' = upd_meta (\<lambda>md. md\<lparr>ref_count := n'\<rparr>) r st
          in if n' = 0 \<and> has_parent m \<and> pin_count (meta m) = 0 then parent_free r st'
             else (Inr (), st'))"

definition get_num_tokens :: "mem_obj \<Rightarrow> py_error + int" where
  "get_num_tokens m =
     (let d = token_dim (fmt (meta m)); s = shape (meta m)
      in if d < length s then Inr (s ! d) else Inl IndexError)"

definition pin :: "nat \<Rightarrow> 'a mem \<Rightarrow> bool \<times> 'a mem" where
  "pin r st = (True, upd_meta (\<lambda>md. md\<lparr>pin_count := pin_count md + 1\<rparr>) r st)"

definition unpin :: "(nat \<Rightarrow> 'a mem \<Rightarrow> (unit, 'a mem) outcome) \<Rightarrow> nat \<Rightarrow> 'a mem
    \<Rightarrow> (bool, 'a mem) outcome" where
  "unpin parent_free r st =
     (case objs st r of
        None \<Rightarrow> (Inr True, st)
      | Some m \<Rightarrow>
          let n = pin_count (meta m) - 1;
              st1 = upd_meta (\<lambda>md. md\<lparr>pin_count := n\<rparr>) r st
          in case (if n \<le> 0 \<and> ref_count (meta m) \<le> 0 \<and> has_parent m
                   then parent_free r st1 else (Inr (), st1)) of
               (Inl e, st2) \<Rightarrow> (Inl e, st2)
             | (Inr _, st2) \<Rightarrow>
                 (Inr True, if n < 0 then upd_meta (\<lambda>md. md\<lparr>pin_count := 0\<rparr>) r st2 else st2))"

definition is_pinned :: "mem_obj \<Rightarrow> bool" where
  "is_pinned m \<longleftrightarrow> 0 < pin_count (meta m)"

definition can_evict :: "mem_obj \<Rightarrow> bool" where
  "can_evict m \<longleftrightarrow> \<not> is_pinned m \<and> ref_count (meta m) = 1"

text \<open>A slice of a view: Python clips both ends to the length of the view.\<close>

definition py_slice :: "int \<Rightarrow> int \<Rightarrow> int \<times> int \<Rightarrow> int \<times> int" where
  "py_slice lo hi v =
     (let len = snd v; lo' = min (max lo 0) len; hi' = min (max hi 0) len
      in (fst v + lo', max 0 (hi' - lo')))"

text \<open>
  The bytes a tensor access views; view raises when they do not match dtype and shape
  (RuntimeError), and an invalidated object gives None.
\<close>

definition obj_tensor :: "env \<Rightarrow> mem_obj \<Rightarrow> py_error + (int \<times> int) option" where
  "obj_tensor E m =
     (if \<not> valid m then Inr None
      else case dtype (meta m) of
        None \<Rightarrow> Inl AssertionError
      | Some d \<Rightarrow>
          let v = py_slice 0 (obj_get_size m) (raw_data m)
          in if snd v = numel E (shape (meta m)) * itemsize E d then Inr (Some v)
             else Inl RuntimeError)"

definition obj_raw_tensor :: "mem_obj \<Rightarrow> (int \<times> int) option" where
  "obj_raw_tensor m = (if valid m then Some (raw_data m) else None)"

definition get_tensor :: "env \<Rightarrow> mem_obj \<Rightarrow> nat \<Rightarrow> py_error + (int \<times> int) option" where
  "get_tensor E m i =
     (if \<not> valid m then Inr None
      else case (shapes (meta m), dtypes (meta m)) of
        (Some ss, Some ds) \<Rightarrow>
          if Suc i < length (group_prefix_sum m) then
            let v = py_slice (group_prefix_sum m ! i) (group_prefix_sum m ! Suc i) (raw_data m)
            in if \<not> (i < length ds \<and> i < length ss) then Inl IndexError
               else if snd v = numel E (ss ! i) * itemsize E (ds ! i) then Inr (Some v)
               else Inl RuntimeError
          else Inl IndexError
      | _ \<Rightarrow> Inl AssertionError)"

section \<open>Lemmas\<close>

named_theorems mem_simps

lemma upd_obj_objs [mem_simps]:
  "objs (upd_obj f r st) q = (if q = r then map_option f (objs st r) else objs st q)"
  by (simp add: upd_obj_def split: option.splits)

lemma upd_obj_other [simp]:
  "allocator (upd_obj f r st) = allocator st" "next_oid (upd_obj f r st) = next_oid st"
  by (simp_all add: upd_obj_def split: option.splits)

lemma upd_meta_objs [mem_simps]:
  "objs (upd_meta f r st) q =
     (if q = r then map_option (\<lambda>m. m\<lparr>meta := f (meta m)\<rparr>) (objs st r) else objs st q)"
  by (simp add: upd_meta_def mem_simps)

lemma upd_meta_other [simp]:
  "allocator (upd_meta f r st) = allocator st" "next_oid (upd_meta f r st) = next_oid st"
  by (simp_all add: upd_meta_def)

lemma invalidate_objs [mem_simps]:
  "objs (invalidate r st) q =
     (if q = r then map_option (\<lambda>m. m\<lparr>valid := False\<rparr>) (objs st r) else objs st q)"
  by (simp add: invalidate_def mem_simps)

lemma invalidate_other [simp]:
  "allocator (invalidate r st) = allocator st" "next_oid (invalidate r st) = next_oid st"
  by (simp_all add: invalidate_def)

lemma fmt_value_roundtrip [simp]: "fmt_of_value (fmt_value f) = Inr f"
  by (cases f) (simp_all add: fmt_of_value_def)

lemma get_size_bytes_nonneg:
  assumes "torch_ok E" "get_size_bytes E ss ds = Inr n"
  shows "0 \<le> n"
proof -
  have "\<forall>x \<in> set (map (\<lambda>(s, d). numel E s * itemsize E d) (zip ss ds)). 0 \<le> x"
    using assms(1) by (auto simp: torch_ok_def less_imp_le)
  then show ?thesis using assms(2)
    by (auto simp: get_size_bytes_def intro!: sum_list_nonneg split: if_splits)
qed

lemma last_prefix_sums:
  "last (n # prefix_sums E n gs) = n + sum_list (map (\<lambda>(s, d). numel E s * itemsize E d) gs)"
  by (induction gs arbitrary: n) (auto split: prod.splits)

lemma remove_all_skip: "n \<le> length s \<Longrightarrow> remove_all n old s = remove_all 0 old (drop n s)"
proof (induction n arbitrary: s)
  case (Suc n)
  then show ?case by (cases s) auto
qed simp

lemma remove_all_absent:
  assumes "old \<noteq> []" "\<not> (\<exists>ps ss. s = ps @ old @ ss)"
  shows "remove_all 0 old s = s"
  using assms(2)
proof (induction s)
  case Nil
  then show ?case by simp
next
  case (Cons c cs)
  have "take (length old) (c # cs) \<noteq> old"
    using Cons.prems by (metis append_Nil append_take_drop_id)
  moreover have "\<not> (\<exists>ps ss. cs = ps @ old @ ss)"
    using Cons.prems by (metis append_Cons)
  ultimately show ?case using Cons.IH by simp
qed

lemma remove_all_prefix:
  assumes "old \<noteq> []"
  shows "remove_all 0 old (old @ s) = remove_all 0 old s"
proof -
  obtain c cs where old: "old = c # cs" using assms by (cases old) auto
  then have "remove_all 0 old (old @ s) = remove_all (length cs) old (cs @ s)" by simp
  then show ?thesis using remove_all_skip [of "length cs" "cs @ s" old] by simp
qed

lemma dtype_name_str:
  assumes "\<not> (\<exists>ps ss. d = ps @ ''torch.'' @ ss)"
  shows "dtype_name (dtype_str d) = d"
  unfolding dtype_name_def dtype_str_def
  by (subst remove_all_prefix) (simp_all add: remove_all_absent [OF _ assms])

end
