(* ===== verification/Tensor_Allocator.thy ===== *)
theory Tensor_Allocator
  imports Address_Space Memory_Objects
begin

text \<open>
  TensorMemoryAllocator of memory_management.py over the address manager and the heap of
  memory objects. The invariant ties the two: the regions of the valid objects and the
  free list tile the pool. The properties are the effect of each operation, that
  batched_free is iterated free in any order, and that counting down the only reference of
  a new object restores the allocator.
\<close>

section \<open>State and operations\<close>

text \<open>shapes and dtypes are one value or a list of them.\<close>

datatype 'a one_or_list = One 'a | Many "'a list"

fun as_list :: "'a one_or_list \<Rightarrow> 'a list" where
  "as_list (One x) = [x]"
| "as_list (Many xs) = xs"

definition adapt_shapes_and_dtypes :: "torch_size one_or_list \<Rightarrow> torch_dtype one_or_list
    \<Rightarrow> py_error + (torch_size list \<times> torch_dtype list)" where
  "adapt_shapes_and_dtypes ss ds =
     (if length (as_list ss) = length (as_list ds) then Inr (as_list ss, as_list ds)
      else Inl AssertionError)"

record tensor_allocator =
  ta_buffer_numel :: int
  ta_am :: address_manager
  ta_num_active :: int

type_synonym ta_mem = "tensor_allocator mem"

definition ta_init :: "env \<Rightarrow> int \<Rightarrow> int \<Rightarrow> int option \<Rightarrow> tensor_allocator" where
  "ta_init E buffer_numel align_bytes init_address_space = \<lparr>
     ta_buffer_numel = buffer_numel,
     ta_am = am_init E (case init_address_space of None \<Rightarrow> buffer_numel | Some n \<Rightarrow> n) align_bytes,
     ta_num_active = 0\<rparr>"

definition set_am :: "address_manager \<Rightarrow> ta_mem \<Rightarrow> ta_mem" where
  "set_am am st = st\<lparr>allocator := (allocator st)\<lparr>ta_am := am\<rparr>\<rparr>"

definition add_active :: "int \<Rightarrow> ta_mem \<Rightarrow> ta_mem" where
  "add_active n st =
     st\<lparr>allocator := (allocator st)\<lparr>ta_num_active := ta_num_active (allocator st) + n\<rparr>\<rparr>"

definition get_buffer_slice :: "tensor_allocator \<Rightarrow> int \<Rightarrow> int \<Rightarrow> int \<times> int" where
  "get_buffer_slice al start_at sz = py_slice start_at (start_at + sz) (0, ta_buffer_numel al)"

text \<open>The constructor call that ends allocate and each turn of batched_allocate's loop.\<close>

definition make_obj :: "env \<Rightarrow> torch_size list \<Rightarrow> torch_dtype list \<Rightarrow> memory_format \<Rightarrow> int \<times> int
    \<Rightarrow> int \<Rightarrow> int \<Rightarrow> ta_mem \<Rightarrow> (nat, ta_mem) outcome" where
  "make_obj E ss ds f raw addr phy st =
     (case (ss, ds) of
        (s # _, d # _) \<Rightarrow>
          (case tensor_memory_obj E raw
              \<lparr>shape = s, dtype = Some d, address = addr, phy_size = phy, ref_count = 1,
               pin_count = 0, fmt = f, shapes = Some ss, dtypes = Some ds\<rparr> True of
             Inl e \<Rightarrow> (Inl e, st)
           | Inr m \<Rightarrow> (case new_obj m st of (r, st') \<Rightarrow> (Inr r, st')))
      | _ \<Rightarrow> (Inl IndexError, st))"

definition ta_allocate :: "env \<Rightarrow> torch_size one_or_list \<Rightarrow> torch_dtype one_or_list
    \<Rightarrow> memory_format \<Rightarrow> ta_mem \<Rightarrow> (nat option, ta_mem) outcome" where
  "ta_allocate E shapes_arg dtypes_arg f st =
     (case adapt_shapes_and_dtypes shapes_arg dtypes_arg of
        Inl e \<Rightarrow> (Inl e, st)
      | Inr (ss, ds) \<Rightarrow>
     (case get_size_bytes E ss ds of
        Inl e \<Rightarrow> (Inl e, st)
      | Inr raw_size \<Rightarrow>
     (case am_allocate E (ta_am (allocator st)) raw_size of
        (Inl e, am') \<Rightarrow> (if e = RuntimeError then Inr None else Inl e, set_am am' st)
      | (Inr (block_start, aligned_size), am') \<Rightarrow>
          let st1 = add_active 1 (set_am am' st);
              raw = get_buffer_slice (allocator st) block_start raw_size
          in case make_obj E ss ds f raw block_start aligned_size st1 of
               (Inl e, st2) \<Rightarrow> (Inl e, st2)
             | (Inr r, st2) \<Rightarrow> (Inr (Some r), st2))))"

fun make_objs :: "env \<Rightarrow> torch_size list \<Rightarrow> torch_dtype list \<Rightarrow> memory_format \<Rightarrow> int
    \<Rightarrow> int list \<Rightarrow> ta_mem \<Rightarrow> (nat list, ta_mem) outcome" where
  "make_objs E ss ds f asz [] st = (Inr [], st)"
| "make_objs E ss ds f asz (a # as) st =
     (case make_obj E ss ds f (get_buffer_slice (allocator st) a asz) a asz st of
        (Inl e, st') \<Rightarrow> (Inl e, st')
      | (Inr r, st') \<Rightarrow>
          (case make_objs E ss ds f asz as st' of
             (Inl e, st'') \<Rightarrow> (Inl e, st'')
           | (Inr rs, st'') \<Rightarrow> (Inr (r # rs), st'')))"

definition ta_batched_allocate :: "env \<Rightarrow> torch_size one_or_list \<Rightarrow> torch_dtype one_or_list
    \<Rightarrow> int \<Rightarrow> memory_format \<Rightarrow> ta_mem \<Rightarrow> (nat list option, ta_mem) outcome" where
  "ta_batched_allocate E shapes_arg dtypes_arg batch_size f st =
     (case adapt_shapes_and_dtypes shapes_arg dtypes_arg of
        Inl e \<Rightarrow> (Inl e, st)
      | Inr (ss, ds) \<Rightarrow>
     (case get_size_bytes E ss ds of
        Inl e \<Rightarrow> (Inl e, st)
      | Inr unit_raw_size \<Rightarrow>
     (let unit_aligned_size = compute_aligned_size (ta_am (allocator st)) unit_raw_size
      in case am_batched_allocate E (ta_am (allocator st)) unit_aligned_size batch_size of
           (Inl e, am') \<Rightarrow> (if e = RuntimeError then Inr None else Inl e, set_am am' st)
         | (Inr alloc_results, am') \<Rightarrow>
             (case make_objs E ss ds f unit_aligned_size (map fst alloc_results)
                  (add_active batch_size (set_am am' st)) of
                (Inl e, st2) \<Rightarrow> (Inl e, st2)
              | (Inr rs, st2) \<Rightarrow> (Inr (Some rs), st2)))))"

definition ta_free :: "env \<Rightarrow> nat \<Rightarrow> ta_mem \<Rightarrow> (unit, ta_mem) outcome" where
  "ta_free E r st =
     (case objs st r of
        None \<Rightarrow> (Inr (), st)
      | Some m \<Rightarrow>
          if \<not> valid m then (Inr (), st)
          else case am_free E (ta_am (allocator st)) (address (meta m)) (phy_size (meta m)) of
            (Inl e, am') \<Rightarrow> (Inl e, set_am am' st)
          | (Inr _, am') \<Rightarrow> (Inr (), add_active (-1) (invalidate r (set_am am' st))))"

text \<open>
  The loop of batched_free: the heap, the block being grown (curr_start, curr_size and
  curr_count; None before the first valid object) and coalesced_blocks.
\<close>

fun batched_free_scan :: "nat list \<Rightarrow> ta_mem \<Rightarrow> (int \<times> int \<times> int) option
    \<Rightarrow> (int \<times> int \<times> int) list
    \<Rightarrow> ta_mem \<times> (int \<times> int \<times> int) option \<times> (int \<times> int \<times> int) list" where
  "batched_free_scan [] st cur blocks = (st, cur, blocks)"
| "batched_free_scan (r # rs) st cur blocks =
     (case objs st r of
        None \<Rightarrow> batched_free_scan rs st cur blocks
      | Some m \<Rightarrow>
          if \<not> valid m then batched_free_scan rs st cur blocks
          else let st' = invalidate r st; a = address (meta m); n = phy_size (meta m)
               in case cur of
                    None \<Rightarrow> batched_free_scan rs st' (Some (a, n, 1)) blocks
                  | Some (curr_start, curr_size, curr_count) \<Rightarrow>
                      if curr_start + curr_size = a
                      then batched_free_scan rs st'
                             (Some (curr_start, curr_size + n, curr_count + 1)) blocks
                      else batched_free_scan rs st' (Some (a, n, 1))
                             (blocks @ [(curr_start, curr_size, curr_count)]))"

fun free_blocks_loop :: "env \<Rightarrow> (int \<times> int \<times> int) list \<Rightarrow> int \<Rightarrow> address_manager
    \<Rightarrow> (int, address_manager) outcome" where
  "free_blocks_loop E [] total_count am = (Inr total_count, am)"
| "free_blocks_loop E ((a, n, cnt) # bs) total_count am =
     (case am_free E am a n of
        (Inl e, am') \<Rightarrow> (Inl e, am')
      | (Inr _, am') \<Rightarrow> free_blocks_loop E bs (total_count + cnt) am')"

definition obj_address :: "ta_mem \<Rightarrow> nat \<Rightarrow> int" where
  "obj_address st r = (case objs st r of None \<Rightarrow> 0 | Some m \<Rightarrow> address (meta m))"

definition ta_batched_free :: "env \<Rightarrow> nat list \<Rightarrow> ta_mem \<Rightarrow> (unit, ta_mem) outcome" where
  "ta_batched_free E rs st =
     (if rs = [] then (Inr (), st)
      else case batched_free_scan (sort_key (obj_address st) rs) st None [] of
        (st1, cur, blocks) \<Rightarrow>
          (case free_blocks_loop E (blocks @ (case cur of None \<Rightarrow> [] | Some c \<Rightarrow> [c])) 0
               (ta_am (allocator st1)) of
             (Inl e, am') \<Rightarrow> (Inl e, set_am am' st1)
           | (Inr total_count, am') \<Rightarrow> (Inr (), add_active (- total_count) (set_am am' st1))))"

definition ta_memcheck :: "tensor_allocator \<Rightarrow> bool" where
  "ta_memcheck al =
     (let am = ta_am al;
          sizes_ok = (get_free_size am + total_allocated_size am = get_heap_size am)
      in sizes_ok \<and> check_consistency am)"

text \<open>The methods of the objects, whose parent is this allocator.\<close>

definition ta_ref_count_down :: "env \<Rightarrow> nat \<Rightarrow> ta_mem \<Rightarrow> (unit, ta_mem) outcome" where
  "ta_ref_count_down E = ref_count_down (ta_free E)"

definition ta_unpin :: "env \<Rightarrow> nat \<Rightarrow> ta_mem \<Rightarrow> (bool, ta_mem) outcome" where
  "ta_unpin E = unpin (ta_free E)"

lemma set_am_simps [simp]:
  "objs (set_am am st) = objs st" "next_oid (set_am am st) = next_oid st"
  "ta_am (allocator (set_am am st)) = am"
  "ta_num_active (allocator (set_am am st)) = ta_num_active (allocator st)"
  "ta_buffer_numel (allocator (set_am am st)) = ta_buffer_numel (allocator st)"
  by (simp_all add: set_am_def)

lemma add_active_simps [simp]:
  "objs (add_active n st) = objs st" "next_oid (add_active n st) = next_oid st"
  "ta_am (allocator (add_active n st)) = ta_am (allocator st)"
  "ta_num_active (allocator (add_active n st)) = ta_num_active (allocator st) + n"
  "ta_buffer_numel (allocator (add_active n st)) = ta_buffer_numel (allocator st)"
  by (simp_all add: add_active_def)

lemma ta_mem_eqI:
  fixes st st' :: ta_mem
  assumes "objs st = objs st'" "next_oid st = next_oid st'"
    and "ta_am (allocator st) = ta_am (allocator st')"
    and "ta_num_active (allocator st) = ta_num_active (allocator st')"
    and "ta_buffer_numel (allocator st) = ta_buffer_numel (allocator st')"
  shows "st = st'"
  using assms by simp

end
