(* ===== verification/Tensor_Pool.thy ===== *)
theory Tensor_Pool
  imports Tensor_Allocator
begin

text \<open>
  Correctness of the tensor allocator: the pool invariant, the effect of allocation,
  freeing and reference counting on it, the equivalence of batched and iterated freeing,
  and the properties of the component.
\<close>

section \<open>The pool invariant\<close>

definition live_objs :: "ta_mem \<Rightarrow> nat set" where
  "live_objs st = {r. is_valid st r}"

definition obj_region :: "ta_mem \<Rightarrow> nat \<Rightarrow> int set" where
  "obj_region st r =
     (case objs st r of None \<Rightarrow> {} | Some m \<Rightarrow> region (address (meta m)) (phy_size (meta m)))"

definition pool_used :: "ta_mem \<Rightarrow> int set" where
  "pool_used st = (\<Union>r \<in> live_objs st. obj_region st r)"

abbreviation pool_am :: "ta_mem \<Rightarrow> address_manager" where
  "pool_am st \<equiv> ta_am (allocator st)"

definition objs_disjoint :: "ta_mem \<Rightarrow> bool" where
  "objs_disjoint st \<longleftrightarrow> (\<forall>r q. is_valid st r \<longrightarrow> is_valid st q \<longrightarrow> r \<noteq> q \<longrightarrow>
     obj_region st r \<inter> obj_region st q = {})"

definition obj_in_place :: "mem_obj \<Rightarrow> bool" where
  "obj_in_place m \<longleftrightarrow> 0 < phy_size (meta m) \<and> fst (raw_data m) = address (meta m) \<and>
     0 \<le> snd (raw_data m) \<and> snd (raw_data m) \<le> phy_size (meta m)"

definition pool_ok :: "nat \<Rightarrow> ta_mem \<Rightarrow> bool" where
  "pool_ok k st \<longleftrightarrow> am_inv (pool_am st) \<and> am_align (pool_am st) = 2 ^ k \<and>
     am_size (pool_am st) \<le> ta_buffer_numel (allocator st) \<and>
     (\<forall>r. next_oid st \<le> r \<longrightarrow> objs st r = None) \<and>
     (\<forall>r m. objs st r = Some m \<longrightarrow> valid m \<longrightarrow> obj_in_place m) \<and>
     objs_disjoint st \<and>
     pool_used st \<inter> free_addresses (pool_am st) = {} \<and>
     pool_used st \<union> free_addresses (pool_am st) = {0 ..< am_size (pool_am st)} \<and>
     ta_num_active (allocator st) = int (card (live_objs st))"

lemma is_valid_some: "is_valid st r \<longleftrightarrow> (\<exists>m. objs st r = Some m \<and> valid m)"
  by (simp add: is_valid_def split: option.splits)

lemma live_objs_iff [simp]: "r \<in> live_objs st \<longleftrightarrow> is_valid st r"
  by (simp add: live_objs_def)

lemma live_objs_finite:
  assumes "\<forall>r. next_oid st \<le> r \<longrightarrow> objs st r = None"
  shows "finite (live_objs st)"
proof (rule finite_subset)
  show "live_objs st \<subseteq> {..<next_oid st}"
  proof
    fix r
    assume "r \<in> live_objs st"
    then obtain m where "objs st r = Some m" by (auto simp: is_valid_some)
    with assms have "\<not> next_oid st \<le> r" by auto
    then show "r \<in> {..<next_oid st}" by simp
  qed
qed simp

lemma set_am_views [simp]:
  "is_valid (set_am am st) = is_valid st" "obj_region (set_am am st) = obj_region st"
  "live_objs (set_am am st) = live_objs st" "pool_used (set_am am st) = pool_used st"
  "objs_disjoint (set_am am st) = objs_disjoint st"
  by (auto simp: is_valid_def obj_region_def live_objs_def pool_used_def objs_disjoint_def fun_eq_iff)

lemma add_active_views [simp]:
  "is_valid (add_active n st) = is_valid st" "obj_region (add_active n st) = obj_region st"
  "live_objs (add_active n st) = live_objs st" "pool_used (add_active n st) = pool_used st"
  "objs_disjoint (add_active n st) = objs_disjoint st"
  by (auto simp: is_valid_def obj_region_def live_objs_def pool_used_def objs_disjoint_def fun_eq_iff)

lemma is_valid_invalidate [simp]: "is_valid (invalidate r st) q \<longleftrightarrow> is_valid st q \<and> q \<noteq> r"
  by (auto simp: is_valid_def mem_simps split: option.splits)

lemma obj_region_invalidate [simp]: "obj_region (invalidate r st) q = obj_region st q"
  by (simp add: obj_region_def mem_simps split: option.splits)

lemma obj_region_upd_meta:
  assumes "\<And>md. address (f md) = address md" "\<And>md. phy_size (f md) = phy_size md"
  shows "obj_region (upd_meta f r st) q = obj_region st q"
  using assms by (simp add: obj_region_def mem_simps split: option.splits)

lemma is_valid_upd_meta [simp]: "is_valid (upd_meta f r st) q = is_valid st q"
  by (auto simp: is_valid_def mem_simps split: option.splits)

lemma pool_ok_upd_meta:
  assumes "pool_ok k st"
    and f: "\<And>md. address (f md) = address md" "\<And>md. phy_size (f md) = phy_size md"
  shows "pool_ok k (upd_meta f r st)"
proof -
  have *: "obj_region (upd_meta f r st) = obj_region st" "is_valid (upd_meta f r st) = is_valid st"
    using obj_region_upd_meta [OF f] by auto
  have "\<forall>q m. objs (upd_meta f r st) q = Some m \<longrightarrow> valid m \<longrightarrow> obj_in_place m"
    using assms(1) f by (auto simp: mem_simps pool_ok_def obj_in_place_def split: if_splits)
  moreover have "\<forall>q. next_oid st \<le> q \<longrightarrow> objs (upd_meta f r st) q = None"
    using assms(1) by (auto simp: mem_simps pool_ok_def)
  ultimately show ?thesis using assms(1)
    by (simp add: pool_ok_def * pool_used_def objs_disjoint_def live_objs_def)
qed

section \<open>Allocation\<close>

lemma prefix_sums_length [simp]: "length (prefix_sums E n gs) = length gs"
  by (induction gs arbitrary: n) auto

text \<open>What make_obj does when it does not raise.\<close>

definition obj_of :: "env \<Rightarrow> torch_size list \<Rightarrow> torch_dtype list \<Rightarrow> memory_format \<Rightarrow> int \<times> int
    \<Rightarrow> int \<Rightarrow> int \<Rightarrow> mem_obj" where
  "obj_of E ss ds f raw a phy =
     \<lparr>meta = \<lparr>shape = hd ss, dtype = Some (hd ds), address = a, phy_size = phy, ref_count = 1,
        pin_count = 0, fmt = f, shapes = Some ss, dtypes = Some ds\<rparr>,
      raw_data = raw, valid = True, has_parent = True,
      group_prefix_sum = 0 # prefix_sums E 0 (zip ss ds)\<rparr>"

lemma make_obj_eq:
  assumes "length ss = length ds" "ss \<noteq> []"
  shows "make_obj E ss ds f raw a phy st =
    (Inr (next_oid st), st\<lparr>objs := (objs st)(next_oid st \<mapsto> obj_of E ss ds f raw a phy),
       next_oid := Suc (next_oid st)\<rparr>)"
proof -
  obtain s ss' d ds' where "ss = s # ss'" "ds = d # ds'"
    using assms by (cases ss; cases ds) auto
  with assms show ?thesis
    by (simp add: make_obj_def tensor_memory_obj_def new_obj_def obj_of_def)
qed

text \<open>The state after an allocation of the region (a, n) with a new object for it.\<close>

definition with_obj :: "address_manager \<Rightarrow> mem_obj \<Rightarrow> ta_mem \<Rightarrow> ta_mem" where
  "with_obj am' m st = (add_active 1 (set_am am' st))
     \<lparr>objs := (objs st)(next_oid st \<mapsto> m), next_oid := Suc (next_oid st)\<rparr>"

lemma with_obj_simps [simp]:
  "pool_am (with_obj am' m st) = am'" "next_oid (with_obj am' m st) = Suc (next_oid st)"
  "objs (with_obj am' m st) = (objs st)(next_oid st \<mapsto> m)"
  "ta_buffer_numel (allocator (with_obj am' m st)) = ta_buffer_numel (allocator st)"
  "ta_num_active (allocator (with_obj am' m st)) = ta_num_active (allocator st) + 1"
  by (simp_all add: with_obj_def add_active_def set_am_def)

lemma pool_ok_with_obj:
  assumes ok: "pool_ok k st"
    and am': "am_inv am'" "am_size am' = am_size (pool_am st)" "am_align am' = am_align (pool_am st)"
      "free_addresses am' = free_addresses (pool_am st) - region a n"
      "region a n \<subseteq> free_addresses (pool_am st)"
    and m: "valid m" "address (meta m) = a" "phy_size (meta m) = n" "obj_in_place m"
  shows "pool_ok k (with_obj am' m st)"
proof -
  let ?r = "next_oid st" and ?st = "with_obj am' m st"
  have fresh: "objs st ?r = None" using ok by (simp add: pool_ok_def)
  have valid: "is_valid ?st q \<longleftrightarrow> q = ?r \<or> is_valid st q" for q
    using fresh m(1) by (auto simp: is_valid_def)
  have reg: "obj_region ?st q = (if q = ?r then region a n else obj_region st q)" for q
    using m(2,3) by (simp add: obj_region_def)
  have nv: "\<not> is_valid st ?r" using fresh by (simp add: is_valid_def)
  have live: "live_objs ?st = insert ?r (live_objs st)" by (auto simp: valid)
  have used: "pool_used ?st = region a n \<union> pool_used st"
    using nv by (auto simp: pool_used_def live reg)
  have d: "obj_region st q \<inter> region a n = {}" if "is_valid st q" for q
    using that am'(5) ok by (fastforce simp: pool_ok_def pool_used_def)
  have "objs_disjoint ?st"
    using ok d nv by (fastforce simp: objs_disjoint_def valid reg pool_ok_def)
  moreover have "pool_used ?st \<inter> free_addresses am' = {}"
    "pool_used ?st \<union> free_addresses am' = {0 ..< am_size am'}"
    using ok am'(2,4,5) by (auto simp: used pool_ok_def)
  moreover have "card (live_objs ?st) = Suc (card (live_objs st))"
    using ok nv live_objs_finite by (simp add: live pool_ok_def)
  moreover have "\<forall>q m'. objs ?st q = Some m' \<longrightarrow> valid m' \<longrightarrow> obj_in_place m'"
    using ok m(4) by (auto simp: pool_ok_def)
  ultimately show ?thesis using ok am'(1-3) by (simp add: pool_ok_def)
qed

lemma buffer_slice_inside:
  assumes "0 \<le> a" "0 \<le> n" "a + n \<le> ta_buffer_numel al"
  shows "get_buffer_slice al a n = (a, n)"
  using assms by (simp add: get_buffer_slice_def py_slice_def Let_def)

lemma pool_region_bounds:
  assumes "pool_ok k st" "region a n \<subseteq> free_addresses (pool_am st)" "0 < n"
  shows "0 \<le> a \<and> a + n \<le> ta_buffer_numel (allocator st)"
proof -
  have "region a n \<subseteq> {0 ..< am_size (pool_am st)}" using assms(1,2) by (auto simp: pool_ok_def)
  moreover have "am_size (pool_am st) \<le> ta_buffer_numel (allocator st)"
    using assms(1) by (simp add: pool_ok_def)
  ultimately show ?thesis using assms(3) by (simp add: region_def)
qed

lemma obj_of_in_place:
  assumes "0 < n" "0 \<le> j" "j \<le> n"
  shows "obj_in_place (obj_of E ss ds f (a, j) a n)"
  using assms by (simp add: obj_in_place_def obj_of_def)

lemma adapt_lengths:
  "adapt_shapes_and_dtypes sa da = Inr (ss, ds) \<Longrightarrow> length ss = length ds"
  by (auto simp: adapt_shapes_and_dtypes_def split: if_splits)

lemma get_size_bytes_pos_nonempty: "get_size_bytes E ss ds = Inr n \<Longrightarrow> 0 < n \<Longrightarrow> ss \<noteq> []"
  by (auto simp: get_size_bytes_def split: if_splits)

lemma ta_allocate_cases:
  assumes E: "sorted_list_ok E" and ok: "pool_ok k st"
    and adapt: "adapt_shapes_and_dtypes sa da = Inr (ss, ds)"
    and sz: "get_size_bytes E ss ds = Inr raw" "0 < raw"
  shows "(\<exists>a am'. let n = compute_aligned_size (pool_am st) raw;
        m = obj_of E ss ds f (a, raw) a n
      in am_allocate E (pool_am st) raw = (Inr (a, n), am') \<and>
        ta_allocate E sa da f st = (Inr (Some (next_oid st)), with_obj am' m st) \<and>
        pool_ok k (with_obj am' m st)) \<or>
    (am_allocate E (pool_am st) raw = (Inl RuntimeError, pool_am st) \<and>
     ta_allocate E sa da f st = (Inr None, st))"
proof -
  let ?am = "pool_am st"
  let ?n = "compute_aligned_size ?am raw"
  have inv: "am_inv ?am" "am_align ?am = 2 ^ k" using ok by (simp_all add: pool_ok_def)
  have n: "0 < ?n" "raw \<le> ?n"
    using aligned_pos [OF inv(2) sz(2)] aligned_size_bounds [OF inv(2)] by auto
  from am_allocate_cases [OF E inv(1) n(1)] show ?thesis
  proof (elim disjE exE conjE)
    fix a ys
    let ?am' = "?am\<lparr>explicit_list := ys, total_allocated_size := total_allocated_size ?am + ?n\<rparr>"
    assume al: "am_allocate E ?am raw = (Inr (a, ?n), ?am')"
    note r = am_allocate_result [OF E inv(1) n(1) al]
    have "0 \<le> a" "a + raw \<le> ta_buffer_numel (allocator st)"
      using pool_region_bounds [OF ok r(3) n(1)] n(2) by auto
    then have raw: "get_buffer_slice (allocator st) a raw = (a, raw)"
      using sz(2) by (simp add: buffer_slice_inside)
    let ?m = "obj_of E ss ds f (a, raw) a ?n"
    have "ta_allocate E sa da f st = (Inr (Some (next_oid st)), with_obj ?am' ?m st)"
      using make_obj_eq [OF adapt_lengths [OF adapt] get_size_bytes_pos_nonempty [OF sz]]
      by (simp add: ta_allocate_def adapt sz(1) al raw Let_def with_obj_def)
    moreover have "pool_ok k (with_obj ?am' ?m st)"
      using r(2-6) obj_of_in_place [OF n(1)] n(2) sz(2)
      by (intro pool_ok_with_obj [OF ok, where a = a and n = ?n]) (simp_all add: obj_of_def)
    ultimately show ?thesis using al unfolding Let_def by blast
  next
    assume f: "am_allocate E ?am raw = (Inl RuntimeError, ?am)"
    moreover have "set_am ?am st = st" by (simp add: set_am_def)
    ultimately show ?thesis by (simp add: ta_allocate_def adapt sz(1))
  qed
qed

section \<open>Freeing\<close>

text \<open>
  What freeing a set of objects should do: the valid ones become invalid, their regions
  return to the free set and the counters follow. Under the invariant this determines the
  resulting state, because a free set has one coalesced free list.
\<close>

definition freed_objs :: "nat set \<Rightarrow> (nat \<Rightarrow> mem_obj option) \<Rightarrow> nat \<Rightarrow> mem_obj option" where
  "freed_objs R os q = (if q \<in> R then map_option (\<lambda>m. m\<lparr>valid := False\<rparr>) (os q) else os q)"

definition freed :: "nat set \<Rightarrow> ta_mem \<Rightarrow> ta_mem \<Rightarrow> bool" where
  "freed R st st' \<longleftrightarrow>
     objs st' = freed_objs R (objs st) \<and> next_oid st' = next_oid st \<and>
     am_inv (pool_am st') \<and> am_size (pool_am st') = am_size (pool_am st) \<and>
     am_align (pool_am st') = am_align (pool_am st) \<and>
     ta_buffer_numel (allocator st') = ta_buffer_numel (allocator st) \<and>
     free_addresses (pool_am st') =
       free_addresses (pool_am st) \<union> (\<Union>r \<in> R \<inter> live_objs st. obj_region st r) \<and>
     ta_num_active (allocator st') =
       ta_num_active (allocator st) - int (card (R \<inter> live_objs st))"

lemma freed_unique:
  assumes "freed R st st1" "freed R st st2"
  shows "st1 = st2"
proof (rule ta_mem_eqI)
  show "pool_am st1 = pool_am st2"
    by (rule am_eqI) (use assms in \<open>simp_all add: freed_def\<close>)
qed (use assms in \<open>simp_all add: freed_def\<close>)

lemma freed_views:
  assumes "freed R st st'"
  shows "is_valid st' q \<longleftrightarrow> is_valid st q \<and> q \<notin> R" and "obj_region st' q = obj_region st q"
  using assms
  by (auto simp: freed_def freed_objs_def is_valid_def obj_region_def split: option.splits)

lemma freed_ok:
  assumes ok: "pool_ok k st" and fr: "freed R st st'"
  shows "pool_ok k st'"
proof -
  note v = freed_views [OF fr]
  have live: "live_objs st' = live_objs st - R" by (rule set_eqI) (simp add: v(1))
  have used: "pool_used st = (\<Union>r \<in> R \<inter> live_objs st. obj_region st r) \<union> pool_used st'"
    unfolding pool_used_def live v(2) by blast
  have "pool_used st' \<inter> (\<Union>r \<in> R \<inter> live_objs st. obj_region st r) = {}"
  proof -
    have d: "obj_region st q \<inter> obj_region st r = {}"
      if "is_valid st q" "q \<notin> R" "r \<in> R" "is_valid st r" for q r
      using ok that by (metis objs_disjoint_def pool_ok_def)
    show ?thesis
    proof (rule equals0I)
      fix x
      assume "x \<in> pool_used st' \<inter> (\<Union>r \<in> R \<inter> live_objs st. obj_region st r)"
      then obtain q r where "is_valid st q" "q \<notin> R" "r \<in> R" "is_valid st r"
        "x \<in> obj_region st q" "x \<in> obj_region st r"
        unfolding pool_used_def live v(2) by auto
      then show False using d by blast
    qed
  qed
  moreover have "card (live_objs st') + card (R \<inter> live_objs st) = card (live_objs st)"
  proof -
    have "finite (live_objs st)" using ok live_objs_finite by (simp add: pool_ok_def)
    then have "card (live_objs st') = card (live_objs st) - card (R \<inter> live_objs st)"
      and "card (R \<inter> live_objs st) \<le> card (live_objs st)"
      by (simp_all add: live card_Diff_subset_Int Int_commute card_mono)
    then show ?thesis by simp
  qed
  moreover have "objs_disjoint st'" using ok by (simp add: pool_ok_def objs_disjoint_def v)
  moreover have "\<forall>q m. objs st' q = Some m \<longrightarrow> valid m \<longrightarrow> obj_in_place m"
    using ok fr by (auto simp: pool_ok_def freed_def freed_objs_def split: if_splits)
  moreover have "\<forall>q. next_oid st' \<le> q \<longrightarrow> objs st' q = None"
    using ok fr by (auto simp: pool_ok_def freed_def freed_objs_def)
  ultimately show ?thesis using ok fr used by (auto simp: pool_ok_def freed_def)
qed

lemma freed_refl:
  assumes "am_inv (pool_am st)" "R \<inter> live_objs st = {}"
  shows "freed R st st"
proof -
  have "freed_objs R (objs st) q = objs st q" for q
  proof (cases "objs st q")
    case (Some m)
    with assms(2) have "q \<in> R \<Longrightarrow> \<not> valid m" by (auto simp: is_valid_some)
    then show ?thesis using Some by (cases m) (auto simp: freed_objs_def)
  qed (simp add: freed_objs_def)
  then show ?thesis using assms by (auto simp: freed_def)
qed

lemma freed_trans:
  assumes "freed R st st1" "freed Q st1 st2" and ok: "pool_ok k st"
  shows "freed (R \<union> Q) st st2"
proof -
  note v = freed_views [OF assms(1)]
  have q: "Q \<inter> live_objs st1 = (Q - R) \<inter> live_objs st" by (auto simp: v)
  have "(R \<union> Q) \<inter> live_objs st = (R \<inter> live_objs st) \<union> ((Q - R) \<inter> live_objs st)" by auto
  moreover have "finite (live_objs st)" using ok live_objs_finite by (simp add: pool_ok_def)
  ultimately have "card ((R \<union> Q) \<inter> live_objs st)
      = card (R \<inter> live_objs st) + card ((Q - R) \<inter> live_objs st)"
    by (simp add: card_Un_disjoint disjoint_iff)
  moreover have "freed_objs Q (freed_objs R os) = freed_objs (R \<union> Q) os" for os
    by (auto simp: freed_objs_def fun_eq_iff option.map_comp comp_def)
  moreover have "(\<Union>r \<in> R \<inter> live_objs st. obj_region st r) \<union> (\<Union>r \<in> (Q - R) \<inter> live_objs st. obj_region st r)
      = (\<Union>r \<in> (R \<union> Q) \<inter> live_objs st. obj_region st r)" by auto
  ultimately show ?thesis using assms(1,2)
    by (simp add: freed_def q v Un_assoc)
qed

lemma obj_region_facts:
  assumes ok: "pool_ok k st" and m: "objs st r = Some m" "valid m"
  shows "0 < phy_size (meta m)"
    and "region (address (meta m)) (phy_size (meta m)) \<subseteq> {0 ..< am_size (pool_am st)}"
    and "region (address (meta m)) (phy_size (meta m)) \<inter> free_addresses (pool_am st) = {}"
proof -
  show "0 < phy_size (meta m)" using ok m by (auto simp: pool_ok_def obj_in_place_def)
  have "is_valid st r" using m by (simp add: is_valid_def)
  then have "region (address (meta m)) (phy_size (meta m)) \<subseteq> pool_used st"
    using m unfolding pool_used_def by (auto simp: obj_region_def intro!: bexI [of _ r])
  then show "region (address (meta m)) (phy_size (meta m)) \<subseteq> {0 ..< am_size (pool_am st)}"
    "region (address (meta m)) (phy_size (meta m)) \<inter> free_addresses (pool_am st) = {}"
    using ok by (auto simp: pool_ok_def)
qed

lemma am_free_region:
  assumes "sorted_list_ok E" "am_inv am" "0 < n" "region a n \<subseteq> {0 ..< am_size am}"
    "region a n \<inter> free_addresses am = {}"
  shows "\<exists>am'. am_free E am a n = (Inr (), am') \<and> am_inv am' \<and>
    free_addresses am' = free_addresses am \<union> region a n \<and>
    am_size am' = am_size am \<and> am_align am' = am_align am"
proof -
  have "0 \<le> a" "a + n \<le> am_size am" using assms(3,4) by (simp_all add: region_def)
  from am_free_spec [OF assms(1-3) this assms(5)] show ?thesis by blast
qed

lemma ta_free_freed:
  assumes E: "sorted_list_ok E" and ok: "pool_ok k st"
  shows "\<exists>st'. ta_free E r st = (Inr (), st') \<and> freed {r} st st'"
proof (cases "is_valid st r")
  case False
  then have "ta_free E r st = (Inr (), st)"
    by (auto simp: ta_free_def is_valid_def split: option.splits)
  moreover have "freed {r} st st" using freed_refl ok False by (simp add: pool_ok_def)
  ultimately show ?thesis by blast
next
  case True
  then obtain m where m: "objs st r = Some m" "valid m" by (auto simp: is_valid_some)
  have "am_inv (pool_am st)" using ok by (simp add: pool_ok_def)
  from am_free_region [OF E this obj_region_facts [OF ok m]] obtain am' where
    am': "am_free E (pool_am st) (address (meta m)) (phy_size (meta m)) = (Inr (), am')"
      "am_inv am'" "free_addresses am' = free_addresses (pool_am st) \<union>
         region (address (meta m)) (phy_size (meta m))"
      "am_size am' = am_size (pool_am st)" "am_align am' = am_align (pool_am st)" by blast
  have "{r} \<inter> live_objs st = {r}" using True by simp
  then have "freed {r} st (add_active (-1) (invalidate r (set_am am' st)))"
    using am' m
    by (auto simp: freed_def freed_objs_def fun_eq_iff mem_simps obj_region_def)
  then show ?thesis using am'(1) m by (simp add: ta_free_def)
qed

section \<open>Batched freeing\<close>

definition block_region :: "int \<times> int \<times> int \<Rightarrow> int set" where
  "block_region b = (case b of (a, n, c) \<Rightarrow> region a n)"

definition blocks_good :: "(int \<times> int \<times> int) list \<Rightarrow> bool" where
  "blocks_good bs \<longleftrightarrow> sorted_wrt (\<lambda>b c. block_region b \<inter> block_region c = {}) bs \<and>
     (\<forall>(a, n, c) \<in> set bs. 0 < n)"

definition block_union :: "(int \<times> int \<times> int) list \<Rightarrow> int set" where
  "block_union bs = (\<Union>b \<in> set bs. block_region b)"

definition block_count :: "(int \<times> int \<times> int) list \<Rightarrow> int" where
  "block_count bs = sum_list (map (\<lambda>(a, n, c). c) bs)"

abbreviation with_cur :: "(int \<times> int \<times> int) list \<Rightarrow> (int \<times> int \<times> int) option
    \<Rightarrow> (int \<times> int \<times> int) list" where
  "with_cur bs cur \<equiv> bs @ (case cur of None \<Rightarrow> [] | Some c \<Rightarrow> [c])"

lemma block_union_simps [simp]:
  "block_union [] = {}" "block_union (b # bs) = block_region b \<union> block_union bs"
  "block_union (bs @ cs) = block_union bs \<union> block_union cs"
  by (auto simp: block_union_def)

lemma block_count_simps [simp]:
  "block_count [] = 0" "block_count ((a, n, c) # bs) = c + block_count bs"
  "block_count (bs @ cs) = block_count bs + block_count cs"
  by (auto simp: block_count_def)

lemma blocks_good_snoc:
  "blocks_good (bs @ [(a, n, c)]) \<longleftrightarrow> blocks_good bs \<and> 0 < n \<and> block_union bs \<inter> region a n = {}"
  by (auto simp: blocks_good_def sorted_wrt_append block_union_def block_region_def)

lemma blocks_good_snoc2:
  "blocks_good (bs @ [x, (a, n, c)]) \<longleftrightarrow>
     blocks_good (bs @ [x]) \<and> 0 < n \<and> (block_union bs \<union> block_region x) \<inter> region a n = {}"
  using blocks_good_snoc [of "bs @ [x]"] by simp

text \<open>The scan turns the valid objects into blocks with the same addresses and the same count.\<close>

lemma batched_free_scan_spec:
  assumes "batched_free_scan rs st cur blocks = (st', cur', blocks')"
    and "\<forall>r m. objs st r = Some m \<longrightarrow> valid m \<longrightarrow> 0 < phy_size (meta m)"
    and "objs_disjoint st" and "blocks_good (with_cur blocks cur)"
    and "\<forall>r \<in> live_objs st. obj_region st r \<inter> block_union (with_cur blocks cur) = {}"
    and "finite (live_objs st)"
  shows "objs st' = freed_objs (set rs) (objs st) \<and> allocator st' = allocator st \<and>
    next_oid st' = next_oid st \<and> blocks_good (with_cur blocks' cur') \<and>
    block_union (with_cur blocks' cur') = block_union (with_cur blocks cur) \<union>
      (\<Union>r \<in> set rs \<inter> live_objs st. obj_region st r) \<and>
    block_count (with_cur blocks' cur') =
      block_count (with_cur blocks cur) + int (card (set rs \<inter> live_objs st))"
  using assms
proof (induction rs arbitrary: st cur blocks)
  case Nil
  then show ?case by (simp add: freed_objs_def fun_eq_iff)
next
  case (Cons r rs)
  show ?case
  proof (cases "is_valid st r")
    case False
    then have "batched_free_scan rs st cur blocks = (st', cur', blocks')"
      using Cons.prems(1) by (auto simp: is_valid_def split: option.splits)
    note IH = Cons.IH [OF this Cons.prems(2-6)]
    have "set (r # rs) \<inter> live_objs st = set rs \<inter> live_objs st" using False by auto
    moreover have "freed_objs (set (r # rs)) (objs st) = freed_objs (set rs) (objs st)"
    proof
      fix q
      show "freed_objs (set (r # rs)) (objs st) q = freed_objs (set rs) (objs st) q"
      proof (cases "objs st q")
        case (Some m)
        with False have "q = r \<Longrightarrow> \<not> valid m" by (auto simp: is_valid_some)
        then show ?thesis using Some by (cases m) (auto simp: freed_objs_def)
      qed (auto simp: freed_objs_def)
    qed
    ultimately show ?thesis using IH by simp
  next
    case True
    then obtain m where m: "objs st r = Some m" "valid m" by (auto simp: is_valid_some)
    let ?st = "invalidate r st" and ?a = "address (meta m)" and ?n = "phy_size (meta m)"
    have reg: "obj_region st r = region ?a ?n" using m by (simp add: obj_region_def)
    have n: "0 < ?n" using Cons.prems(2) m by simp
    have clear: "region ?a ?n \<inter> block_union (with_cur blocks cur) = {}"
      using Cons.prems(5) True reg by (metis live_objs_iff)
    obtain cur1 blocks1 where
      scan: "batched_free_scan rs ?st cur1 blocks1 = (st', cur', blocks')"
      and good: "blocks_good (with_cur blocks1 cur1)"
      and un: "block_union (with_cur blocks1 cur1) = block_union (with_cur blocks cur) \<union> region ?a ?n"
      and cnt: "block_count (with_cur blocks1 cur1) = block_count (with_cur blocks cur) + 1"
    proof (cases cur)
      case None
      show ?thesis
        using Cons.prems(1,4) m None n clear
        by (intro that [of "Some (?a, ?n, 1)" blocks])
          (auto simp: Let_def blocks_good_snoc block_region_def)
    next
      case (Some c)
      obtain s z cc where c: "c = (s, z, cc)" by (cases c)
      have z: "0 < z" "blocks_good blocks" "block_union blocks \<inter> region s z = {}"
        using Cons.prems(4) Some c by (simp_all add: blocks_good_snoc)
      show ?thesis
      proof (cases "s + z = ?a")
        case True
        then have "region s (z + ?n) = region s z \<union> region ?a ?n"
          using region_split [of z ?n s] z n by (simp add: less_imp_le)
        then show ?thesis
          using Cons.prems(1) m Some c True n clear z
          by (intro that [of "Some (s, z + ?n, cc + 1)" blocks])
            (auto simp: Let_def blocks_good_snoc block_region_def)
      next
        case False
        show ?thesis
          using Cons.prems(1,4) m Some c False n clear z
          by (intro that [of "Some (?a, ?n, 1)" "blocks @ [(s, z, cc)]"])
            (auto simp: Let_def blocks_good_snoc blocks_good_snoc2 block_region_def)
      qed
    qed
    have live: "live_objs ?st = live_objs st - {r}" by auto
    have IH: "objs st' = freed_objs (set rs) (objs ?st) \<and> allocator st' = allocator ?st \<and>
      next_oid st' = next_oid ?st \<and> blocks_good (with_cur blocks' cur') \<and>
      block_union (with_cur blocks' cur') = block_union (with_cur blocks1 cur1) \<union>
        (\<Union>q \<in> set rs \<inter> live_objs ?st. obj_region ?st q) \<and>
      block_count (with_cur blocks' cur') =
        block_count (with_cur blocks1 cur1) + int (card (set rs \<inter> live_objs ?st))"
    proof (rule Cons.IH [OF scan _ _ good])
      show "\<forall>q m. objs ?st q = Some m \<longrightarrow> valid m \<longrightarrow> 0 < phy_size (meta m)"
        using Cons.prems(2) by (auto simp: mem_simps split: if_splits)
      show "objs_disjoint ?st" using Cons.prems(3) by (simp add: objs_disjoint_def)
      show "finite (live_objs ?st)" using Cons.prems(6) live by simp
      show "\<forall>q \<in> live_objs ?st. obj_region ?st q \<inter> block_union (with_cur blocks1 cur1) = {}"
        using Cons.prems(3,5) True unfolding un reg [symmetric]
        by (simp add: objs_disjoint_def Int_Un_distrib)
    qed
    have "freed_objs (set rs) (objs ?st) = freed_objs (set (r # rs)) (objs st)"
      by (auto simp: freed_objs_def fun_eq_iff mem_simps option.map_comp comp_def)
    moreover have ins: "set (r # rs) \<inter> live_objs st = insert r (set rs \<inter> live_objs ?st)"
      using True by auto
    moreover have "card (set (r # rs) \<inter> live_objs st) = Suc (card (set rs \<inter> live_objs ?st))"
      unfolding ins by simp
    moreover have "(\<Union>q \<in> set (r # rs) \<inter> live_objs st. obj_region st q) =
        region ?a ?n \<union> (\<Union>q \<in> set rs \<inter> live_objs ?st. obj_region ?st q)"
      unfolding ins using reg by simp
    ultimately show ?thesis using IH un cnt
      by (simp add: Un_assoc del: block_union_simps block_count_simps)
  qed
qed

lemma free_blocks_loop_spec:
  assumes E: "sorted_list_ok E"
  shows "am_inv am \<Longrightarrow> blocks_good bs \<Longrightarrow> block_union bs \<subseteq> {0 ..< am_size am} \<Longrightarrow>
    block_union bs \<inter> free_addresses am = {} \<Longrightarrow>
    \<exists>am'. free_blocks_loop E bs n am = (Inr (n + block_count bs), am') \<and> am_inv am' \<and>
      am_size am' = am_size am \<and> am_align am' = am_align am \<and>
      free_addresses am' = free_addresses am \<union> block_union bs"
proof (induction bs arbitrary: n am)
  case Nil
  then show ?case by simp
next
  case (Cons b bs)
  obtain a z c where b: "b = (a, z, c)" by (cases b)
  have z: "0 < z" "region a z \<inter> block_union bs = {}" "blocks_good bs"
    using Cons.prems(2) by (auto simp: b blocks_good_def block_union_def block_region_def)
  have "region a z \<subseteq> {0 ..< am_size am}" "region a z \<inter> free_addresses am = {}"
    using Cons.prems(3,4) by (auto simp: b block_region_def)
  from am_free_region [OF E Cons.prems(1) z(1) this] obtain am1 where
    am1: "am_free E am a z = (Inr (), am1)" "am_inv am1"
      "free_addresses am1 = free_addresses am \<union> region a z"
      "am_size am1 = am_size am" "am_align am1 = am_align am" by blast
  have "block_union bs \<subseteq> {0 ..< am_size am1}" "block_union bs \<inter> free_addresses am1 = {}"
    using Cons.prems(3,4) z(2) am1(3,4) by auto
  from Cons.IH [OF am1(2) z(3) this, of "n + c"] am1 show ?case
    by (auto simp: b block_region_def Un_assoc Un_commute)
qed

lemma ta_batched_free_freed:
  assumes E: "sorted_list_ok E" and ok: "pool_ok k st"
  shows "\<exists>st'. ta_batched_free E rs st = (Inr (), st') \<and> freed (set rs) st st'"
proof (cases "rs = []")
  case True
  then show ?thesis using freed_refl ok by (auto simp: ta_batched_free_def pool_ok_def)
next
  case False
  let ?rs = "sort_key (obj_address st) rs"
  obtain st1 cur blocks where scan: "batched_free_scan ?rs st None [] = (st1, cur, blocks)"
    by (metis prod_cases3)
  have "finite (live_objs st)" using ok live_objs_finite by (simp add: pool_ok_def)
  moreover have "\<forall>r m. objs st r = Some m \<longrightarrow> valid m \<longrightarrow> 0 < phy_size (meta m)"
    using obj_region_facts(1) [OF ok] by blast
  moreover have "objs_disjoint st" using ok by (simp add: pool_ok_def)
  ultimately have sp: "objs st1 = freed_objs (set rs) (objs st)" "allocator st1 = allocator st"
    "next_oid st1 = next_oid st" "blocks_good (with_cur blocks cur)"
    "block_union (with_cur blocks cur) = (\<Union>r \<in> set rs \<inter> live_objs st. obj_region st r)"
    "block_count (with_cur blocks cur) = int (card (set rs \<inter> live_objs st))"
    using batched_free_scan_spec [OF scan] by (simp_all add: blocks_good_def
        del: block_union_simps(3) block_count_simps(3))
  have "block_union (with_cur blocks cur) \<subseteq> pool_used st"
    unfolding sp(5) pool_used_def by blast
  then have "block_union (with_cur blocks cur) \<subseteq> {0 ..< am_size (pool_am st)}"
    "block_union (with_cur blocks cur) \<inter> free_addresses (pool_am st) = {}"
    using ok by (auto simp: pool_ok_def simp del: block_union_simps)
  moreover have "am_inv (pool_am st)" using ok by (simp add: pool_ok_def)
  ultimately obtain am' where
    am': "free_blocks_loop E (with_cur blocks cur) 0 (pool_am st)
        = (Inr (block_count (with_cur blocks cur)), am')"
      "am_inv am'" "am_size am' = am_size (pool_am st)" "am_align am' = am_align (pool_am st)"
      "free_addresses am' = free_addresses (pool_am st) \<union> block_union (with_cur blocks cur)"
    using free_blocks_loop_spec [OF E _ sp(4), of "pool_am st" 0] by auto
  let ?st = "add_active (- block_count (with_cur blocks cur)) (set_am am' st1)"
  have "ta_batched_free E rs st = (Inr (), ?st)"
    using False am'(1) by (simp add: ta_batched_free_def scan sp(2))
  moreover have "freed (set rs) st ?st"
    using am' sp by (simp add: freed_def)
  ultimately show ?thesis by blast
qed

fun ta_free_each :: "env \<Rightarrow> nat list \<Rightarrow> ta_mem \<Rightarrow> (unit, ta_mem) outcome" where
  "ta_free_each E [] st = (Inr (), st)"
| "ta_free_each E (r # rs) st =
     (case ta_free E r st of (Inl e, st') \<Rightarrow> (Inl e, st') | (Inr _, st') \<Rightarrow> ta_free_each E rs st')"

lemma ta_free_each_freed:
  assumes E: "sorted_list_ok E"
  shows "pool_ok k st \<Longrightarrow> \<exists>st'. ta_free_each E rs st = (Inr (), st') \<and> freed (set rs) st st'"
proof (induction rs arbitrary: st)
  case Nil
  then show ?case using freed_refl by (simp add: pool_ok_def)
next
  case (Cons r rs)
  from ta_free_freed [OF E Cons.prems] obtain st1 where
    st1: "ta_free E r st = (Inr (), st1)" "freed {r} st st1" by blast
  from Cons.IH [OF freed_ok [OF Cons.prems st1(2)]] obtain st' where
    st': "ta_free_each E rs st1 = (Inr (), st')" "freed (set rs) st1 st'" by blast
  have "freed ({r} \<union> set rs) st st'" by (rule freed_trans [OF st1(2) st'(2) Cons.prems])
  with st1 st' show ?case by simp
qed

section \<open>Batched allocation\<close>

definition new_objs :: "env \<Rightarrow> torch_size list \<Rightarrow> torch_dtype list \<Rightarrow> memory_format \<Rightarrow> int
    \<Rightarrow> ta_mem \<Rightarrow> nat list \<Rightarrow> ta_mem \<Rightarrow> bool" where
  "new_objs E ss ds f asz st rs st' \<longleftrightarrow>
     rs = [next_oid st ..< next_oid st'] \<and> next_oid st' = next_oid st + length rs \<and>
     (\<forall>q < next_oid st. objs st' q = objs st q) \<and>
     (\<forall>q \<in> set rs. \<exists>a. objs st' q = Some (obj_of E ss ds f (a, asz) a asz))"

lemma aligned_idem:
  assumes "am_align am = 2 ^ k"
  shows "compute_aligned_size am (compute_aligned_size am n) = compute_aligned_size am n"
proof -
  let ?a = "compute_aligned_size am n"
  let ?b = "compute_aligned_size am ?a"
  have "2 ^ k dvd ?b - ?a" "?a \<le> ?b" "?b < ?a + 2 ^ k"
    using aligned_size_bounds [OF assms, of n] aligned_size_bounds [OF assms, of ?a] by auto
  then show ?thesis using zdvd_imp_le [of "2 ^ k" "?b - ?a"] by linarith
qed

lemma make_objs_batch:
  assumes E: "sorted_list_ok E" and len: "length ss = length ds" "ss \<noteq> []"
  shows "pool_ok k st \<Longrightarrow> asz = compute_aligned_size (pool_am st) sz \<Longrightarrow> 0 < asz \<Longrightarrow>
    allocate_n E n (pool_am st) sz = (Inr regs, am') \<Longrightarrow>
    \<exists>rs st'. make_objs E ss ds f asz (map fst regs) (add_active (int n) (set_am am' st)) = (Inr rs, st') \<and>
      length rs = n \<and> pool_ok k st' \<and> new_objs E ss ds f asz st rs st'"
proof (induction n arbitrary: st regs)
  case 0
  then have r: "regs = []" "am' = pool_am st" by simp_all
  have e: "add_active (int 0) (set_am (pool_am st) st) = st" by (simp add: add_active_def set_am_def)
  show ?case unfolding r list.map make_objs.simps e using 0(1) by (simp add: new_objs_def)
next
  case (Suc n)
  let ?am = "pool_am st"
  obtain a m am1 regs1 where
    al: "am_allocate E ?am sz = (Inr (a, m), am1)" "allocate_n E n am1 sz = (Inr regs1, am')"
    and regs: "regs = (a, m) # regs1"
    using Suc.prems(4) by (auto split: sum.splits prod.splits)
  have inv: "am_inv ?am" "0 < compute_aligned_size ?am sz"
    using Suc.prems(1-3) by (simp_all add: pool_ok_def)
  note r = am_allocate_result [OF E inv al(1)]
  have m: "m = asz" using r(1) Suc.prems(2) by simp
  have "0 \<le> a" "a + asz \<le> ta_buffer_numel (allocator st)"
    using pool_region_bounds [OF Suc.prems(1) r(3)] Suc.prems(3) m by auto
  then have raw: "get_buffer_slice (allocator (add_active (int (Suc n)) (set_am am' st))) a asz = (a, asz)"
    using Suc.prems(3) by (intro buffer_slice_inside) simp_all
  let ?o = "obj_of E ss ds f (a, asz) a asz"
  let ?st1 = "with_obj am1 ?o st"
  have ok1: "pool_ok k ?st1"
    using r(2-6) m Suc.prems(3) obj_of_in_place [of asz asz]
    by (intro pool_ok_with_obj [OF Suc.prems(1), where a = a and n = m]) (simp_all add: obj_of_def)
  have step: "make_obj E ss ds f (a, asz) a asz (add_active (int (Suc n)) (set_am am' st)) =
      (Inr (next_oid st), add_active (int n) (set_am am' ?st1))"
    unfolding make_obj_eq [OF len] prod.inject by (intro conjI ta_mem_eqI) simp_all
  have "asz = compute_aligned_size (pool_am ?st1) sz"
    by (simp add: Suc.prems(2) compute_aligned_size_def r(6))
  moreover have "allocate_n E n (pool_am ?st1) sz = (Inr regs1, am')" using al(2) by simp
  ultimately obtain rs st' where
    IH: "make_objs E ss ds f asz (map fst regs1) (add_active (int n) (set_am am' ?st1)) = (Inr rs, st')"
      "length rs = n" "pool_ok k st'" "new_objs E ss ds f asz ?st1 rs st'"
    using Suc.IH [OF ok1 _ Suc.prems(3)] by blast
  have "new_objs E ss ds f asz st (next_oid st # rs) st'"
  proof -
    note p = IH(4) [unfolded new_objs_def with_obj_simps]
    have rs: "rs = [Suc (next_oid st) ..< next_oid st']"
      and p2: "next_oid st' = Suc (next_oid st) + length rs"
      and p3: "\<forall>q < Suc (next_oid st). objs st' q = ((objs st)(next_oid st \<mapsto> ?o)) q"
      and p4: "\<forall>q \<in> set rs. \<exists>a. objs st' q = Some (obj_of E ss ds f (a, asz) a asz)"
      using p by blast+
    have nx: "next_oid st' = next_oid st + length (next_oid st # rs)" using p2 by simp
    then have "next_oid st < next_oid st'" by simp
    then have l: "next_oid st # rs = [next_oid st ..< next_oid st']"
      using rs by (simp add: upt_conv_Cons)
    have old: "\<forall>q < next_oid st. objs st' q = objs st q" using p3 by simp
    have "objs st' (next_oid st) = Some ?o" using p3 by simp
    then have new: "\<forall>q \<in> set (next_oid st # rs). \<exists>a. objs st' q = Some (obj_of E ss ds f (a, asz) a asz)"
      using p4 by auto
    from l nx old new show ?thesis unfolding new_objs_def by blast
  qed
  with IH show ?case by (simp add: regs raw step m del: of_nat_Suc)
qed

lemma ta_batched_allocate_cases:
  assumes E: "sorted_list_ok E" and ok: "pool_ok k st"
    and adapt: "adapt_shapes_and_dtypes sa da = Inr (ss, ds)"
    and sz: "get_size_bytes E ss ds = Inr raw" "0 < raw"
  shows "(\<exists>rs st'. ta_batched_allocate E sa da (int n) f st = (Inr (Some rs), st') \<and>
      length rs = n \<and> pool_ok k st' \<and>
      new_objs E ss ds f (compute_aligned_size (pool_am st) raw) st rs st') \<or>
    (fst (allocate_n E n (pool_am st) raw) = Inl RuntimeError \<and>
     ta_batched_allocate E sa da (int n) f st = (Inr None, st))"
proof -
  let ?am = "pool_am st"
  let ?a = "compute_aligned_size ?am raw"
  have inv: "am_inv ?am" "am_align ?am = 2 ^ k" using ok by (simp_all add: pool_ok_def)
  have a: "0 < ?a" by (rule aligned_pos [OF inv(2) sz(2)])
  have idem: "compute_aligned_size ?am ?a = ?a" by (rule aligned_idem [OF inv(2)])
  have bat: "am_batched_allocate E ?am ?a (int n) =
    (case allocate_n E n ?am ?a of (Inr rs, am') \<Rightarrow> (Inr rs, am') | (Inl e, am') \<Rightarrow> (Inl e, ?am))"
    using am_batched_allocate_iterates [OF E inv(1)] a idem by simp
  have same: "allocate_n E n am ?a = allocate_n E n am raw"
    if "am_inv am" "compute_aligned_size am raw = ?a" "am_align am = 2 ^ k" for am
    using that
  proof (induction n arbitrary: am)
    case (Suc n)
    have eq: "am_allocate E am ?a = am_allocate E am raw"
      using Suc.prems(2) aligned_idem [OF Suc.prems(3), of raw] by (simp add: am_allocate_def)
    have "allocate_n E n am1 ?a = allocate_n E n am1 raw"
      if "am_allocate E am raw = (Inr (b, m), am1)" for b m am1
      using Suc.IH am_allocate_result [OF E Suc.prems(1) _ that] Suc.prems a
      by (metis compute_aligned_size_cong)
    then show ?case by (auto simp: eq split: prod.splits sum.splits)
  qed simp
  show ?thesis
  proof (cases "allocate_n E n ?am raw")
    case (Pair r am')
    show ?thesis
    proof (cases r)
      case (Inl e)
      have "e = RuntimeError"
        using allocate_n_first_fit_n [OF E inv(1) a, of n] Pair Inl by (auto split: option.splits)
      moreover have "set_am ?am st = st" by (simp add: set_am_def)
      ultimately show ?thesis using Pair Inl
        by (simp add: ta_batched_allocate_def adapt sz(1) bat same inv Let_def)
    next
      case (Inr regs)
      from make_objs_batch [OF E adapt_lengths [OF adapt] get_size_bytes_pos_nonempty [OF sz] ok refl a
          Pair [unfolded Inr], of f]
      show ?thesis using Pair Inr
        by (elim exE conjE) (simp add: ta_batched_allocate_def adapt sz(1) bat same inv Let_def)
    qed
  qed
qed

section \<open>Reference counting and histories\<close>

lemma ta_free_ok:
  assumes "sorted_list_ok E" "pool_ok k st" "ta_free E r st = (res, st')"
  shows "pool_ok k st' \<and> res = Inr ()"
  using ta_free_freed [OF assms(1,2), of r] freed_ok [OF assms(2)] assms(3) by auto

lemma ref_count_down_ok:
  assumes E: "sorted_list_ok E" and ok: "pool_ok k st"
    and res: "ta_ref_count_down E r st = (res, st')"
  shows "pool_ok k st' \<and> res = Inr ()"
proof -
  have u: "pool_ok k (upd_meta (\<lambda>md. md\<lparr>ref_count := n\<rparr>) r st)" for n
    using ok by (rule pool_ok_upd_meta) simp_all
  show ?thesis
    using res ok u by (auto simp: ta_ref_count_down_def ref_count_down_def Let_def
        split: option.splits if_splits dest: ta_free_ok [OF E u])
qed

lemma unpin_ok:
  assumes E: "sorted_list_ok E" and ok: "pool_ok k st" and res: "ta_unpin E r st = (res, st')"
  shows "pool_ok k st' \<and> res = Inr True"
proof (cases "objs st r")
  case None
  then show ?thesis using res ok by (simp add: ta_unpin_def unpin_def)
next
  case (Some m)
  let ?n = "pin_count (meta m) - 1"
  let ?st1 = "upd_meta (\<lambda>md. md\<lparr>pin_count := ?n\<rparr>) r st"
  have u: "pool_ok k (upd_meta (\<lambda>md. md\<lparr>pin_count := n\<rparr>) r s)" if "pool_ok k s" for n s
    using that by (rule pool_ok_upd_meta) simp_all
  obtain res2 st2 where p: "(if ?n \<le> 0 \<and> ref_count (meta m) \<le> 0 \<and> has_parent m
      then ta_free E r ?st1 else (Inr (), ?st1)) = (res2, st2)" by fastforce
  then have st2: "res2 = Inr ()" "pool_ok k st2"
    using ta_free_ok [OF E u [OF ok]] u [OF ok] by (auto split: if_splits)
  have "res = Inr True" "st' = (if ?n < 0 then upd_meta (\<lambda>md. md\<lparr>pin_count := 0\<rparr>) r st2 else st2)"
    using res unfolding ta_unpin_def unpin_def Some Let_def option.case p st2(1) by simp_all
  then show ?thesis using st2(2) u by simp
qed

inductive pool_step :: "env \<Rightarrow> ta_mem \<Rightarrow> ta_mem \<Rightarrow> bool" for E where
  pool_allocate: "adapt_shapes_and_dtypes sa da = Inr (ss, ds) \<Longrightarrow> get_size_bytes E ss ds = Inr n \<Longrightarrow>
    0 < n \<Longrightarrow> ta_allocate E sa da f st = (res, st') \<Longrightarrow> pool_step E st st'"
| pool_batched_allocate: "adapt_shapes_and_dtypes sa da = Inr (ss, ds) \<Longrightarrow>
    get_size_bytes E ss ds = Inr n \<Longrightarrow> 0 < n \<Longrightarrow>
    ta_batched_allocate E sa da (int i) f st = (res', st') \<Longrightarrow> pool_step E st st'"
| pool_free: "ta_free E r st = (res1, st') \<Longrightarrow> pool_step E st st'"
| pool_batched_free: "ta_batched_free E rs st = (res1, st') \<Longrightarrow> pool_step E st st'"
| pool_ref_up: "pool_step E st (ref_count_up r st)"
| pool_ref_down: "ta_ref_count_down E r st = (res1, st') \<Longrightarrow> pool_step E st st'"
| pool_pin: "pool_step E st (snd (pin r st))"
| pool_unpin: "ta_unpin E r st = (res2, st') \<Longrightarrow> pool_step E st st'"

lemma pool_step_ok:
  assumes E: "sorted_list_ok E" and ok: "pool_ok k st" and step: "pool_step E st st'"
  shows "pool_ok k st'"
  using step
proof cases
  case (pool_allocate sa da ss ds n f res)
  from ta_allocate_cases [OF E ok pool_allocate(1-3), of f] pool_allocate(4) ok
  show ?thesis by (auto simp: Let_def)
next
  case (pool_batched_allocate sa da ss ds n i f res)
  from ta_batched_allocate_cases [OF E ok pool_batched_allocate(1-3), of i f]
    pool_batched_allocate(4) ok
  show ?thesis by auto
next
  case (pool_free r res)
  then show ?thesis using ta_free_ok [OF E ok] by blast
next
  case (pool_batched_free rs res)
  then show ?thesis using ta_batched_free_freed [OF E ok, of rs] freed_ok [OF ok] by auto
next
  case (pool_ref_up r)
  then show ?thesis using pool_ok_upd_meta [OF ok] by (simp add: ref_count_up_def)
next
  case (pool_ref_down r res)
  then show ?thesis using ref_count_down_ok [OF E ok] by blast
next
  case (pool_pin r)
  then show ?thesis using pool_ok_upd_meta [OF ok] by (simp add: pin_def)
next
  case (pool_unpin r res)
  then show ?thesis using unpin_ok [OF E ok] by blast
qed

definition empty_pool :: "env \<Rightarrow> int \<Rightarrow> int \<Rightarrow> int option \<Rightarrow> ta_mem" where
  "empty_pool E n al init = \<lparr>allocator = ta_init E n al init, objs = (\<lambda>r. None), next_oid = 0\<rparr>"

lemma empty_pool_ok:
  assumes "sorted_list_ok E" "0 < (case init of None \<Rightarrow> n | Some i \<Rightarrow> i)"
    and "(case init of None \<Rightarrow> n | Some i \<Rightarrow> i) \<le> n"
  shows "pool_ok k (empty_pool E n (2 ^ k) init)"
proof -
  have "live_objs (empty_pool E n (2 ^ k) init) = {}"
    by (auto simp: is_valid_def empty_pool_def)
  then show ?thesis using am_init_ok [OF assms(1,2)] assms(3)
    by (simp add: pool_ok_def pool_used_def objs_disjoint_def is_valid_def empty_pool_def ta_init_def)
qed

lemma pool_reachable_ok:
  assumes "sorted_list_ok E" "(pool_step E)\<^sup>*\<^sup>* st st'" "pool_ok k st"
  shows "pool_ok k st'"
  using assms(2,3) by (induction rule: rtranclp_induct) (auto intro: pool_step_ok [OF assms(1)])

definition raw_region :: "mem_obj \<Rightarrow> int set" where
  "raw_region m = region (fst (raw_data m)) (snd (raw_data m))"

lemma raw_region_subset:
  "obj_in_place m \<Longrightarrow> raw_region m \<subseteq> region (address (meta m)) (phy_size (meta m))"
  by (auto simp: obj_in_place_def raw_region_def region_def)

section \<open>Properties\<close>

text \<open>Histories of the tensor allocator. Whatever sequence of allocate, batched_allocate,
  free, batched_free, ref_count_up, ref_count_down, pin and unpin is applied to whatever
  objects, double frees and failed allocations included, two valid objects never view a
  common byte of the pool, every byte is either in a valid object's region or free,
  memcheck answers True and the active counter is the number of valid objects.\<close>

theorem tensor_pool_objects_disjoint:
  assumes "sorted_list_ok E" "0 < n" "(pool_step E)\<^sup>*\<^sup>* (empty_pool E n (2 ^ k) None) st"
  shows "(\<forall>r q m m'. r \<noteq> q \<and> objs st r = Some m \<and> valid m \<and> objs st q = Some m' \<and> valid m' \<longrightarrow>
        raw_region m \<inter> raw_region m' = {}) \<and>
    pool_used st \<union> free_addresses (pool_am st) = {0 ..< am_size (pool_am st)} \<and>
    ta_memcheck (allocator st) \<and> ta_num_active (allocator st) = int (card (live_objs st))"
proof -
  have "pool_ok k (empty_pool E n (2 ^ k) None)" using empty_pool_ok assms(1,2) by simp
  then have ok: "pool_ok k st" using pool_reachable_ok assms(1,3) by blast
  have "raw_region m \<inter> raw_region m' = {}"
    if "r \<noteq> q" "objs st r = Some m" "valid m" "objs st q = Some m'" "valid m'" for r q m m'
  proof -
    have "obj_region st r \<inter> obj_region st q = {}"
      using that ok by (simp add: pool_ok_def objs_disjoint_def is_valid_def)
    moreover have "raw_region m \<subseteq> obj_region st r" "raw_region m' \<subseteq> obj_region st q"
      using that ok raw_region_subset by (simp_all add: pool_ok_def obj_region_def)
    ultimately show ?thesis by blast
  qed
  moreover have "ta_memcheck (allocator st)"
    using ok check_consistency_inv
    by (simp add: pool_ok_def ta_memcheck_def Let_def get_free_size_def get_heap_size_def)
  ultimately show ?thesis using ok unfolding pool_ok_def by blast
qed

definition sample_pool :: ta_mem where
  "sample_pool = empty_pool reference_env 16384 (2 ^ 12) None"

definition sample_pool_after :: ta_mem where
  "sample_pool_after = snd (ta_allocate reference_env (One [2, 32]) (One ''int8'') KV_2LTD sample_pool)"

lemma sample_pool_allocate:
  "ta_allocate reference_env (One [2, 32]) (One ''int8'') KV_2LTD sample_pool
     = (Inr (Some 0), sample_pool_after)"
proof -
  have "fst (ta_allocate reference_env (One [2, 32]) (One ''int8'') KV_2LTD sample_pool) = Inr (Some 0)"
    by code_simp
  then show ?thesis unfolding sample_pool_after_def by (metis prod.collapse)
qed

lemma sample_pool_ok: "pool_ok 12 sample_pool"
  unfolding sample_pool_def using empty_pool_ok [OF reference_sorted_list_ok, where init = None and n = 16384 and k = 12]
  by simp

lemma sample_shape: "adapt_shapes_and_dtypes (One [2, 32]) (One ''int8'') = Inr ([[2, 32]], [''int8''])"
  "get_size_bytes reference_env [[2, 32]] [''int8''] = Inr 64"
  by code_simp+

lemma tensor_pool_objects_disjoint_witness: "ta_memcheck (allocator sample_pool_after)"
proof -
  have "pool_step reference_env sample_pool sample_pool_after"
    by (rule pool_allocate [OF sample_shape _ sample_pool_allocate]) simp
  then have "(pool_step reference_env)\<^sup>*\<^sup>* (empty_pool reference_env 16384 (2 ^ 12) None) sample_pool_after"
    by (simp add: sample_pool_def)
  from tensor_pool_objects_disjoint [OF reference_sorted_list_ok _ this] show ?thesis by simp
qed

text \<open>batched_free, which sorts the objects by address and frees coalesced runs, is
  equivalent to freeing the objects one by one in any order: for lists with the same
  objects, in any order and with any repetition, both end in the same state, and neither
  raises.\<close>

theorem batched_free_is_free_each:
  assumes "sorted_list_ok E" "pool_ok k st" "set rs = set rs'"
  shows "ta_batched_free E rs st = ta_free_each E rs' st \<and> fst (ta_batched_free E rs st) = Inr ()"
proof -
  obtain st1 where 1: "ta_batched_free E rs st = (Inr (), st1)" "freed (set rs) st st1"
    using ta_batched_free_freed [OF assms(1,2)] by blast
  obtain st2 where 2: "ta_free_each E rs' st = (Inr (), st2)" "freed (set rs') st st2"
    using ta_free_each_freed [OF assms(1,2)] by blast
  have "st1 = st2" using freed_unique 1(2) 2(2) assms(3) by metis
  with 1 2 show ?thesis by simp
qed

lemma batched_free_is_free_each_witness:
  "ta_batched_free reference_env [0, 0, 3] sample_pool = ta_free_each reference_env [3, 0] sample_pool"
  using batched_free_is_free_each [OF reference_sorted_list_ok sample_pool_ok, of "[0, 0, 3]" "[3, 0]"]
  by auto

text \<open>Allocation and release. An allocation that returns an object returns a fresh
  valid one with one reference, whose bytes were free; counting that reference down
  invalidates it and restores the allocator, free list and counters, exactly. When it
  returns None nothing has changed and no free run of the aligned size exists.\<close>

theorem allocate_ref_count_down_roundtrip:
  assumes E: "sorted_list_ok E" and ok: "pool_ok k st"
    and adapt: "adapt_shapes_and_dtypes sa da = Inr (ss, ds)"
    and sz: "get_size_bytes E ss ds = Inr n" "0 < n"
  shows "case ta_allocate E sa da f st of
      (Inr (Some r), st') \<Rightarrow> objs st r = None \<and> is_valid st' r \<and>
        obj_region st' r \<subseteq> free_addresses (pool_am st) \<and>
        (\<exists>st''. ta_ref_count_down E r st' = (Inr (), st'') \<and> \<not> is_valid st'' r \<and>
          allocator st'' = allocator st)
    | (Inr None, st') \<Rightarrow> st' = st \<and>
        (\<forall>t. \<not> region t (compute_aligned_size (pool_am st) n) \<subseteq> free_addresses (pool_am st))
    | (Inl e, st') \<Rightarrow> False"
proof -
  let ?am = "pool_am st" and ?a = "compute_aligned_size (pool_am st) n"
  have inv: "am_inv ?am" "am_align ?am = 2 ^ k" using ok by (simp_all add: pool_ok_def)
  note a = aligned_pos [OF inv(2) sz(2)]
  from ta_allocate_cases [OF E ok adapt sz, of f] show ?thesis
    unfolding Let_def
  proof (elim disjE exE conjE)
    fix s am'
    let ?r = "next_oid st" and ?m = "obj_of E ss ds f (s, n) s ?a"
    let ?st' = "with_obj am' ?m st"
    let ?st1 = "upd_meta (\<lambda>md. md\<lparr>ref_count := 0\<rparr>) ?r ?st'"
    assume al: "am_allocate E ?am n = (Inr (s, ?a), am')"
      and res: "ta_allocate E sa da f st = (Inr (Some ?r), ?st')" and ok': "pool_ok k ?st'"
    note r = am_allocate_result [OF E inv(1) a al]
    have ok1: "pool_ok k ?st1" by (rule pool_ok_upd_meta [OF ok']) simp_all
    obtain st'' where f: "ta_free E ?r ?st1 = (Inr (), st'')" "freed {?r} ?st1 st''"
      using ta_free_freed [OF E ok1] by blast
    have down: "ta_ref_count_down E ?r ?st' = (Inr (), st'')"
      using f(1) by (simp add: ta_ref_count_down_def ref_count_down_def obj_of_def Let_def)
    have v: "is_valid ?st' ?r" "obj_region ?st' ?r = region s ?a"
      by (simp_all add: is_valid_def obj_region_def obj_of_def)
    have one: "{?r} \<inter> live_objs ?st1 = {?r}" using v(1) by simp
    have "obj_region ?st1 ?r = region s ?a" using v(2) by (subst obj_region_upd_meta) simp_all
    then have "free_addresses (pool_am st'') = free_addresses ?am"
      using f(2) r(3,4) by (auto simp: freed_def one)
    then have "pool_am st'' = ?am"
      using f(2) inv r(5,6) by (intro am_eqI) (simp_all add: freed_def)
    then have "allocator st'' = allocator st" using f(2) by (simp add: freed_def one)
    moreover have "\<not> is_valid st'' ?r" using freed_views(1) [OF f(2)] by simp
    moreover have "objs st ?r = None" using ok by (simp add: pool_ok_def)
    ultimately show ?thesis using res v r(3) down by auto
  next
    assume f: "am_allocate E ?am n = (Inl RuntimeError, ?am)"
      and res: "ta_allocate E sa da f st = (Inr None, st)"
    have "first_fit ?a (explicit_list ?am) = None" using am_allocate_cases [OF E inv(1) a] f by auto
    moreover have "blocks_ok (explicit_list ?am)" using inv(1) by (simp add: am_inv_def)
    ultimately show ?thesis using first_fit_None_no_run a res by auto
  qed
qed

lemma allocate_ref_count_down_roundtrip_witness:
  "is_valid sample_pool_after 0 \<and>
   (\<exists>st. ta_ref_count_down reference_env 0 sample_pool_after = (Inr (), st) \<and>
      allocator st = allocator sample_pool)"
  using allocate_ref_count_down_roundtrip [OF reference_sorted_list_ok sample_pool_ok sample_shape,
      of KV_2LTD] by (auto simp: sample_pool_allocate)

text \<open>batched_allocate is all or nothing: it returns exactly batch_size fresh objects,
  each with one reference and a region of the aligned size, leaving the other objects
  as they were and the pool well-formed, or it returns None and changes nothing, because
  batch_size single allocations would not fit.\<close>

theorem batched_allocate_all_or_nothing:
  assumes "sorted_list_ok E" "pool_ok k st" "adapt_shapes_and_dtypes sa da = Inr (ss, ds)"
    and "get_size_bytes E ss ds = Inr n" "0 < n"
  shows "case ta_batched_allocate E sa da (int i) f st of
      (Inr (Some rs), st') \<Rightarrow> length rs = i \<and> pool_ok k st' \<and>
        new_objs E ss ds f (compute_aligned_size (pool_am st) n) st rs st'
    | (Inr None, st') \<Rightarrow> st' = st \<and> fst (allocate_n E i (pool_am st) n) = Inl RuntimeError
    | (Inl e, st') \<Rightarrow> False"
  using ta_batched_allocate_cases [OF assms, of i f] by auto

lemma batched_allocate_all_or_nothing_witness:
  "\<exists>st'. ta_batched_allocate reference_env (One [2, 32]) (One ''int8'') 2 KV_2LTD sample_pool
     = (Inr (Some [0, 1]), st') \<and> pool_ok 12 st'"
proof -
  have "fst (ta_batched_allocate reference_env (One [2, 32]) (One ''int8'') 2 KV_2LTD sample_pool)
      = Inr (Some [0, 1])" by code_simp
  then obtain st' where "ta_batched_allocate reference_env (One [2, 32]) (One ''int8'') 2 KV_2LTD
      sample_pool = (Inr (Some [0, 1]), st')" by (metis prod.collapse)
  with batched_allocate_all_or_nothing [OF reference_sorted_list_ok sample_pool_ok sample_shape,
      of 2 KV_2LTD] show ?thesis by auto
qed

text \<open>Metadata survives to_dict and from_dict except for pin_count, which is not
  serialised and comes back as 0; shapes and dtypes that are empty lists come back as None.
  The dtypes have to be names torch knows, which do not contain the module prefix.\<close>

theorem metadata_dict_roundtrip:
  assumes known: "\<forall>d \<in> set_option (dtype md) \<union> (\<Union>ds \<in> set_option (dtypes md). set ds). d \<in> known"
    and names: "\<forall>d \<in> known. \<not> (\<exists>ps ss. d = ps @ ''torch.'' @ ss)"
  shows "from_dict known (to_dict md) =
    Inr (md\<lparr>pin_count := 0, shapes := truthy (shapes md), dtypes := truthy (dtypes md)\<rparr>)"
proof -
  have one: "getattr_torch known (dtype_name (dtype_str d)) = Inr d" if "d \<in> known" for d
    using that names dtype_name_str by (simp add: getattr_torch_def)
  have all: "getattr_torch_all known (map dtype_name (map dtype_str ds)) = Inr ds"
    if "set ds \<subseteq> known" for ds
    using that by (induction ds) (auto simp: one)
  have ne: "dtype_str d \<noteq> []" for d by (simp add: dtype_str_def)
  have dt: "(case d_dtype (to_dict md) of None \<Rightarrow> Inr None
      | Some s \<Rightarrow> if s = [] then Inr None else map_sum id Some (getattr_torch known (dtype_name s)))
    = Inr (dtype md)"
    using known by (cases "dtype md") (simp_all add: to_dict_def one ne)
  have dts: "(case truthy (d_dtypes (to_dict md)) of None \<Rightarrow> Inr None
      | Some ss \<Rightarrow> map_sum id Some (getattr_torch_all known (map dtype_name ss)))
    = Inr (truthy (dtypes md))"
  proof (cases "truthy (dtypes md)")
    case None
    then show ?thesis by (simp add: to_dict_def truthy_def)
  next
    case (Some ds)
    then have "dtypes md = Some ds" "ds \<noteq> []" by (auto simp: truthy_def split: option.splits list.splits)
    then have "set ds \<subseteq> known" using known by auto
    moreover have "truthy (d_dtypes (to_dict md)) = Some (map dtype_str ds)"
      using Some \<open>ds \<noteq> []\<close> by (cases ds) (simp_all add: to_dict_def truthy_def)
    ultimately show ?thesis using all Some by simp
  qed
  have "truthy (d_shapes (to_dict md)) = truthy (shapes md)"
    by (simp add: to_dict_def truthy_def split: option.splits list.splits)
  then show ?thesis unfolding from_dict_def dt dts by (simp add: to_dict_def)
qed

lemma metadata_dict_roundtrip_witness:
  "from_dict {''int8''} (to_dict \<lparr>shape = [2], dtype = Some ''int8'', address = 0, phy_size = 2,
     ref_count = 1, pin_count = 3, fmt = KV_2LTD, shapes = None, dtypes = Some []\<rparr>) =
   Inr \<lparr>shape = [2], dtype = Some ''int8'', address = 0, phy_size = 2,
     ref_count = 1, pin_count = 0, fmt = KV_2LTD, shapes = None, dtypes = None\<rparr>"
proof (subst metadata_dict_roundtrip)
  show "\<forall>d \<in> {''int8''}. \<not> (\<exists>ps ss. d = ps @ ''torch.'' @ ss)"
  proof clarify
    fix ps ss
    assume "''int8'' = ps @ ''torch.'' @ ss"
    then have "length ''int8'' = length (ps @ ''torch.'' @ ss)" by (rule arg_cong)
    then show False by simp
  qed
qed (simp_all add: truthy_def)

end
