(* ===== verification/Lazy_Allocator.thy ===== *)
theory Lazy_Allocator
  imports Tensor_Pool
begin

text \<open>
  LazyMemoryAllocator of lmcache/v1/lazy_memory_allocator.py: a TensorMemoryAllocator over
  a buffer of the final size whose address space starts at the initial size and is grown
  by a background thread, which pins the buffer chunk by chunk and commits every gigabyte
  with sbrk. The allocation methods forward to the inner allocator (the parent pointer
  they reset is not part of the object model). The pin calls themselves go to the CUDA
  runtime; the record of them is kept. buffer_ptr is the address the runtime gave the
  buffer.
\<close>

section \<open>State and operations\<close>

unbundle bit_operations_syntax

definition align_to :: "int \<Rightarrow> int \<Rightarrow> int" where
  "align_to sz align_size = (sz + align_size - 1) AND (NOT (align_size - 1))"

definition PIN_CHUNK_SIZE :: int where
  "PIN_CHUNK_SIZE = 2 ^ 26"

definition COMMIT_SIZE :: int where
  "COMMIT_SIZE = 2 ^ 30"

record lazy =
  curr_size :: int
  final_size :: int
  buffer_ptr :: int
  pin_record :: "(int \<times> int) list"
  lazy_mem :: ta_mem

definition pin_memory_chunk :: "int \<Rightarrow> int \<Rightarrow> lazy \<Rightarrow> (unit, lazy) outcome" where
  "pin_memory_chunk offset sz st =
     (if offset AND (PIN_CHUNK_SIZE - 1) \<noteq> 0 then (Inl AssertionError, st)
      else if sz AND (PIN_CHUNK_SIZE - 1) \<noteq> 0 then (Inl AssertionError, st)
      else if \<not> offset + sz \<le> final_size st then (Inl AssertionError, st)
      else (Inr (), st\<lparr>pin_record := pin_record st @ [(buffer_ptr st + offset, sz)]\<rparr>))"

definition lazy_init :: "env \<Rightarrow> int \<Rightarrow> int \<Rightarrow> int \<Rightarrow> int \<Rightarrow> py_error + lazy" where
  "lazy_init E ptr init_sz final_sz align_bytes =
     (let curr = align_to init_sz PIN_CHUNK_SIZE;
          final = align_to final_sz PIN_CHUNK_SIZE;
          inner = \<lparr>allocator = ta_init E final align_bytes (Some curr), objs = (\<lambda>r. None), next_oid = 0\<rparr>
      in case pin_memory_chunk 0 curr
                \<lparr>curr_size = curr, final_size = final, buffer_ptr = ptr, pin_record = [], lazy_mem = inner\<rparr> of
           (Inl e, _) \<Rightarrow> Inl e
         | (Inr _, st) \<Rightarrow> Inr st)"

definition commit_expansion :: "env \<Rightarrow> int \<Rightarrow> lazy \<Rightarrow> (unit, lazy) outcome" where
  "commit_expansion E expand_size st =
     (case am_sbrk E (ta_am (allocator (lazy_mem st))) expand_size of
        (Inl e, am) \<Rightarrow> (Inl e, st\<lparr>lazy_mem := set_am am (lazy_mem st)\<rparr>)
      | (Inr _, am) \<Rightarrow> (Inr (), st\<lparr>lazy_mem := set_am am (lazy_mem st)\<rparr>))"

text \<open>The for loop of one turn of the worker, which breaks at the final size.\<close>

primrec pin_chunks :: "nat \<Rightarrow> lazy \<Rightarrow> (unit, lazy) outcome" where
  "pin_chunks 0 st = (Inr (), st)"
| "pin_chunks (Suc n) st =
     (if final_size st \<le> curr_size st then (Inr (), st)
      else case pin_memory_chunk (curr_size st) PIN_CHUNK_SIZE st of
             (Inl e, st') \<Rightarrow> (Inl e, st')
           | (Inr _, st') \<Rightarrow> pin_chunks n (st'\<lparr>curr_size := curr_size st' + PIN_CHUNK_SIZE\<rparr>))"

definition expand_round :: "env \<Rightarrow> int \<Rightarrow> lazy \<Rightarrow> (unit, lazy) outcome" where
  "expand_round E last_commit_size st =
     (case pin_chunks (nat (COMMIT_SIZE div PIN_CHUNK_SIZE)) st of
        (Inl e, st') \<Rightarrow> (Inl e, st')
      | (Inr _, st') \<Rightarrow> commit_expansion E (curr_size st' - last_commit_size) st')"

lemma PIN_CHUNK_pos [simp]: "0 < PIN_CHUNK_SIZE"
  by (simp add: PIN_CHUNK_SIZE_def)

lemma pin_memory_chunk_state:
  "snd (pin_memory_chunk off sz st) = st \<or>
   snd (pin_memory_chunk off sz st) = st\<lparr>pin_record := pin_record st @ [(buffer_ptr st + off, sz)]\<rparr>"
  by (simp add: pin_memory_chunk_def)

lemma pin_chunks_sizes:
  "pin_chunks n st = (r, st') \<Longrightarrow> final_size st' = final_size st \<and> curr_size st \<le> curr_size st' \<and>
    lazy_mem st' = lazy_mem st \<and> buffer_ptr st' = buffer_ptr st"
proof (induction n arbitrary: st)
  case (Suc n)
  obtain r1 st1 where p: "pin_memory_chunk (curr_size st) PIN_CHUNK_SIZE st = (r1, st1)" by fastforce
  have st1: "final_size st1 = final_size st" "curr_size st1 = curr_size st" "lazy_mem st1 = lazy_mem st"
    "buffer_ptr st1 = buffer_ptr st"
    using pin_memory_chunk_state [of "curr_size st" PIN_CHUNK_SIZE st] p by auto
  show ?case
  proof (cases "final_size st \<le> curr_size st \<or> (\<exists>e. r1 = Inl e)")
    case True
    then show ?thesis using Suc.prems p st1 by (auto split: if_splits)
  next
    case False
    then have "pin_chunks n (st1\<lparr>curr_size := curr_size st1 + PIN_CHUNK_SIZE\<rparr>) = (r, st')"
      using Suc.prems p by (cases r1) auto
    from Suc.IH [OF this] show ?thesis using st1 by (simp add: PIN_CHUNK_SIZE_def)
  qed
qed simp

lemma pin_chunks_progress:
  assumes "pin_chunks (Suc n) st = (Inr x, st')" "curr_size st < final_size st"
  shows "curr_size st < curr_size st'"
proof -
  obtain r1 st1 where p: "pin_memory_chunk (curr_size st) PIN_CHUNK_SIZE st = (r1, st1)" by fastforce
  have st1: "curr_size st1 = curr_size st"
    using pin_memory_chunk_state [of "curr_size st" PIN_CHUNK_SIZE st] p by auto
  have "pin_chunks n (st1\<lparr>curr_size := curr_size st1 + PIN_CHUNK_SIZE\<rparr>) = (Inr x, st')"
    using assms p by (cases r1) auto
  from pin_chunks_sizes [OF this] show ?thesis using st1 by (simp add: PIN_CHUNK_SIZE_def)
qed

lemma rounds_per_commit: "nat (COMMIT_SIZE div PIN_CHUNK_SIZE) = Suc 15"
  by (simp add: COMMIT_SIZE_def PIN_CHUNK_SIZE_def)

lemma expand_round_progress:
  assumes "expand_round E l st = (Inr x, st')" "curr_size st < final_size st"
  shows "curr_size st < curr_size st' \<and> final_size st' = final_size st \<and> buffer_ptr st' = buffer_ptr st"
proof -
  obtain r1 st1 where p: "pin_chunks (Suc 15) st = (r1, st1)" by fastforce
  then obtain y where r1: "r1 = Inr y"
    using assms(1) unfolding expand_round_def rounds_per_commit by (cases r1) auto
  have "curr_size st' = curr_size st1 \<and> final_size st' = final_size st1 \<and> buffer_ptr st' = buffer_ptr st1"
    using assms(1) p r1 unfolding expand_round_def rounds_per_commit commit_expansion_def
    by (auto split: prod.splits sum.splits)
  then show ?thesis using pin_chunks_progress [of 15 st y st1] pin_chunks_sizes [OF p] p r1 assms(2) by simp
qed

text \<open>
  The worker. stop says at each test of the loop whether close has asked it to stop; i
  counts the tests.
\<close>

function expand_worker :: "env \<Rightarrow> (nat \<Rightarrow> bool) \<Rightarrow> nat \<Rightarrow> int \<Rightarrow> lazy \<Rightarrow> (unit, lazy) outcome" where
  "expand_worker E stop i last_commit_size st =
     (if curr_size st < final_size st \<and> \<not> stop i
      then case expand_round E last_commit_size st of
             (Inl e, st') \<Rightarrow> (Inl e, st')
           | (Inr _, st') \<Rightarrow> expand_worker E stop (Suc i) (curr_size st') st'
      else (Inr (), st))"
  by pat_completeness auto

termination expand_worker
proof (relation "measure (\<lambda>(E, stop, i, l, st). nat (final_size st - curr_size st))", simp)
  fix E and stop :: "nat \<Rightarrow> bool" and i l st x y z w
  assume "curr_size st < final_size st \<and> \<not> stop i" "(y, z) = expand_round E l st" "y = Inr w"
  then show "((E, stop, Suc i, curr_size z, z), E, stop, i, l, st)
      \<in> measure (\<lambda>(E, stop, i, l, st). nat (final_size st - curr_size st))"
    using expand_round_progress [of E l st w z] by simp
qed

section \<open>The worker's bookkeeping\<close>

text \<open>
  The address space of the inner allocator never exceeds what is pinned, and the record of
  pinned chunks covers the buffer from its start to the current size, chunk after chunk.
\<close>

definition contiguous :: "int \<Rightarrow> (int \<times> int) list \<Rightarrow> int \<Rightarrow> bool" where
  "contiguous a ps b \<longleftrightarrow>
     fold (\<lambda>(p, n) x. case x of None \<Rightarrow> None | Some e \<Rightarrow> if p = e then Some (p + n) else None) ps (Some a) = Some b"

lemma contiguous_snoc: "contiguous a ps b \<Longrightarrow> contiguous a (ps @ [(b, n)]) (b + n)"
  by (simp add: contiguous_def)

definition lazy_ok :: "nat \<Rightarrow> int \<Rightarrow> lazy \<Rightarrow> bool" where
  "lazy_ok k committed st \<longleftrightarrow> pool_ok k (lazy_mem st) \<and>
     am_size (pool_am (lazy_mem st)) = committed \<and> committed \<le> curr_size st \<and>
     curr_size st \<le> final_size st \<and> ta_buffer_numel (allocator (lazy_mem st)) = final_size st \<and>
     PIN_CHUNK_SIZE dvd curr_size st \<and> PIN_CHUNK_SIZE dvd final_size st \<and> PIN_CHUNK_SIZE dvd committed \<and>
     contiguous (buffer_ptr st) (pin_record st) (buffer_ptr st + curr_size st)"

lemma chunk_mask: "x AND (PIN_CHUNK_SIZE - 1) = 0 \<longleftrightarrow> PIN_CHUNK_SIZE dvd x" for x :: int
proof -
  have "x AND (2 ^ 26 - 1) = x mod 2 ^ 26"
    using take_bit_eq_mask [of 26 x] by (simp add: mask_eq_exp_minus_1 take_bit_eq_mod)
  then show ?thesis by (simp add: PIN_CHUNK_SIZE_def dvd_eq_mod_eq_0)
qed

lemma next_chunk_fits:
  assumes "PIN_CHUNK_SIZE dvd a" "PIN_CHUNK_SIZE dvd b" "a < b"
  shows "a + PIN_CHUNK_SIZE \<le> b"
proof -
  obtain i j where ij: "a = PIN_CHUNK_SIZE * i" "b = PIN_CHUNK_SIZE * j" using assms(1,2) by (auto elim!: dvdE)
  then have "i + 1 \<le> j" using assms(3) by (simp add: PIN_CHUNK_SIZE_def)
  then show ?thesis unfolding ij by (simp add: PIN_CHUNK_SIZE_def)
qed

lemma pin_chunks_ok:
  "lazy_ok k c st \<Longrightarrow> \<exists>st'. pin_chunks n st = (Inr (), st') \<and> lazy_ok k c st' \<and>
    curr_size st' = min (final_size st) (curr_size st + int n * PIN_CHUNK_SIZE)"
proof (induction n arbitrary: st)
  case 0
  then show ?case by (simp add: lazy_ok_def)
next
  case (Suc n)
  show ?case
  proof (cases "final_size st \<le> curr_size st")
    case True
    then have "curr_size st = final_size st" using Suc.prems by (simp add: lazy_ok_def)
    then show ?thesis using Suc.prems by (simp add: PIN_CHUNK_SIZE_def)
  next
    case False
    let ?st1 = "st\<lparr>pin_record := pin_record st @ [(buffer_ptr st + curr_size st, PIN_CHUNK_SIZE)],
      curr_size := curr_size st + PIN_CHUNK_SIZE\<rparr>"
    have fits: "curr_size st + PIN_CHUNK_SIZE \<le> final_size st"
      using Suc.prems False by (intro next_chunk_fits) (auto simp: lazy_ok_def)
    have "lazy_ok k c ?st1"
      using Suc.prems fits contiguous_snoc [of "buffer_ptr st" "pin_record st" "buffer_ptr st + curr_size st" PIN_CHUNK_SIZE]
      by (auto simp: lazy_ok_def PIN_CHUNK_SIZE_def add.assoc)
    from Suc.IH [OF this] obtain st' where st': "pin_chunks n ?st1 = (Inr (), st')" "lazy_ok k c st'"
      "curr_size st' = min (final_size st) (curr_size st + PIN_CHUNK_SIZE + int n * PIN_CHUNK_SIZE)" by auto
    moreover have "pin_memory_chunk (curr_size st) PIN_CHUNK_SIZE st =
        (Inr (), st\<lparr>pin_record := pin_record st @ [(buffer_ptr st + curr_size st, PIN_CHUNK_SIZE)]\<rparr>)"
      using Suc.prems fits by (simp add: pin_memory_chunk_def chunk_mask lazy_ok_def)
    ultimately show ?thesis using False by (simp add: algebra_simps)
  qed
qed

text \<open>sbrk extends a consistent pool whose buffer is large enough.\<close>

lemma pool_ok_sbrk:
  assumes E: "sorted_list_ok E" and ok: "pool_ok k st" and n: "0 < n" "2 ^ k dvd n"
    and fits: "am_size (pool_am st) + n \<le> ta_buffer_numel (allocator st)"
  shows "\<exists>am. am_sbrk E (pool_am st) n = (Inr (), am) \<and> pool_ok k (set_am am st) \<and>
    am_size am = am_size (pool_am st) + n"
proof -
  have al: "am_align (pool_am st) = 2 ^ k" and inv: "am_inv (pool_am st)" using ok by (simp_all add: pool_ok_def)
  have a: "compute_aligned_size (pool_am st) n = n"
  proof (rule ccontr)
    let ?d = "compute_aligned_size (pool_am st) n - n"
    assume "compute_aligned_size (pool_am st) n \<noteq> n"
    then have "0 < ?d" "?d < 2 ^ k" using aligned_size_bounds [OF al, of n] by linarith+
    moreover have "2 ^ k dvd ?d" using aligned_size_bounds [OF al, of n] n(2) by (intro dvd_diff) blast+
    ultimately show False by (meson zdvd_not_zless)
  qed
  obtain am where am: "am_sbrk E (pool_am st) n = (Inr (), am)" "am_inv am"
    "am_size am = am_size (pool_am st) + n" "am_align am = 2 ^ k"
    "free_addresses am = free_addresses (pool_am st) \<union> region (am_size (pool_am st)) n"
    using am_sbrk_spec [OF E inv, of n] n(1) a al by auto
  have u: "pool_used st \<inter> free_addresses (pool_am st) = {}"
    "pool_used st \<union> free_addresses (pool_am st) = {0 ..< am_size (pool_am st)}"
    using ok by (simp_all add: pool_ok_def)
  have "0 \<le> am_size (pool_am st)" using inv by (simp add: am_inv_def)
  then have "{0 ..< am_size (pool_am st)} \<union> region (am_size (pool_am st)) n = {0 ..< am_size am}"
    "{0 ..< am_size (pool_am st)} \<inter> region (am_size (pool_am st)) n = {}"
    using n(1) am(3) by (auto simp: region_def)
  then have "pool_used st \<inter> free_addresses am = {}" "pool_used st \<union> free_addresses am = {0 ..< am_size am}"
    using u am(5) by blast+
  moreover have "objs (set_am am st) = objs st" "next_oid (set_am am st) = next_oid st"
    "pool_am (set_am am st) = am" "ta_buffer_numel (allocator (set_am am st)) = ta_buffer_numel (allocator st)"
    "ta_num_active (allocator (set_am am st)) = ta_num_active (allocator st)"
    by (simp_all add: set_am_def)
  ultimately have "pool_ok k (set_am am st)" using ok am fits by (simp add: pool_ok_def)
  then show ?thesis using am by blast
qed

lemma expand_round_ok:
  assumes E: "sorted_list_ok E" and ok: "lazy_ok k (curr_size st) st" and k: "k \<le> 26"
    and less: "curr_size st < final_size st"
  shows "\<exists>st'. expand_round E (curr_size st) st = (Inr (), st') \<and> lazy_ok k (curr_size st') st'"
proof -
  obtain st1 where st1: "pin_chunks (Suc 15) st = (Inr (), st1)" "lazy_ok k (curr_size st) st1"
    using pin_chunks_ok [OF ok, of "Suc 15"] by blast
  let ?n = "curr_size st1 - curr_size st"
  have n: "0 < ?n" using pin_chunks_progress [OF st1(1) less] by simp
  have "(2 ^ k :: int) dvd 2 ^ 26" using k by (rule le_imp_power_dvd)
  moreover have "PIN_CHUNK_SIZE dvd ?n" using ok st1(2) by (simp add: lazy_ok_def)
  ultimately have d: "2 ^ k dvd ?n" unfolding PIN_CHUNK_SIZE_def by (rule dvd_trans)
  have pool: "pool_ok k (lazy_mem st1)" "am_size (pool_am (lazy_mem st1)) + ?n \<le> ta_buffer_numel (allocator (lazy_mem st1))"
    using st1(2) by (simp_all add: lazy_ok_def)
  from pool_ok_sbrk [OF E pool(1) n d pool(2)] obtain am
    where am: "am_sbrk E (pool_am (lazy_mem st1)) ?n = (Inr (), am)" "pool_ok k (set_am am (lazy_mem st1))"
      "am_size am = curr_size st1" using st1(2) by (auto simp: lazy_ok_def)
  let ?st2 = "st1\<lparr>lazy_mem := set_am am (lazy_mem st1)\<rparr>"
  have "lazy_ok k (curr_size ?st2) ?st2"
    using st1(2) am(2,3) by (auto simp: lazy_ok_def set_am_def)
  moreover have "expand_round E (curr_size st) st = (Inr (), ?st2)"
    unfolding expand_round_def rounds_per_commit st1(1) commit_expansion_def using am(1) by simp
  ultimately show ?thesis by blast
qed

declare expand_worker.simps [simp del]

lemma expand_worker_ok:
  assumes E: "sorted_list_ok E" and k: "k \<le> 26"
  shows "lazy_ok k (curr_size st) st \<Longrightarrow>
    \<exists>st'. expand_worker E stop i (curr_size st) st = (Inr (), st') \<and> lazy_ok k (curr_size st') st' \<and>
      final_size st' = final_size st \<and> buffer_ptr st' = buffer_ptr st \<and> ((\<forall>j. \<not> stop j) \<longrightarrow> curr_size st' = final_size st)"
proof (induction "nat (final_size st - curr_size st)" arbitrary: st i rule: less_induct)
  case less
  show ?case
  proof (cases "curr_size st < final_size st \<and> \<not> stop i")
    case False
    then show ?thesis using less.prems by (subst expand_worker.simps) (auto simp: lazy_ok_def)
  next
    case True
    then obtain st1 where st1: "expand_round E (curr_size st) st = (Inr (), st1)" "lazy_ok k (curr_size st1) st1"
      using expand_round_ok [OF E less.prems k] by blast
    have p: "curr_size st < curr_size st1" "final_size st1 = final_size st" "buffer_ptr st1 = buffer_ptr st"
      using expand_round_progress [OF st1(1)] True by auto
    then have "nat (final_size st1 - curr_size st1) < nat (final_size st - curr_size st)" using True by simp
    from less.hyps [OF this st1(2), of "Suc i"] show ?thesis
      using True st1(1) p(2,3) by (subst expand_worker.simps) simp
  qed
qed

lemma align_to_bounds:
  "2 ^ k dvd align_to n (2 ^ k) \<and> n \<le> align_to n (2 ^ k) \<and> align_to n (2 ^ k) < n + 2 ^ k"
proof -
  let ?am = "\<lparr>am_size = 0, am_align = 2 ^ k, explicit_list = [], total_allocated_size = 0\<rparr>"
  have "align_to n (2 ^ k) = compute_aligned_size ?am n"
    by (simp add: align_to_def compute_aligned_size_def)
  then show ?thesis using aligned_size_bounds [of ?am k n] by simp
qed

lemma lazy_init_ok:
  assumes E: "sorted_list_ok E" and n: "0 < init_sz" "init_sz \<le> final_sz"
  shows "\<exists>st. lazy_init E ptr init_sz final_sz (2 ^ k) = Inr st \<and> lazy_ok k (curr_size st) st \<and>
    buffer_ptr st = ptr \<and> curr_size st = align_to init_sz PIN_CHUNK_SIZE \<and> final_size st = align_to final_sz PIN_CHUNK_SIZE"
proof -
  let ?c = "align_to init_sz PIN_CHUNK_SIZE" and ?f = "align_to final_sz PIN_CHUNK_SIZE"
  have c: "PIN_CHUNK_SIZE dvd ?c" "init_sz \<le> ?c" and f: "PIN_CHUNK_SIZE dvd ?f" "?c < ?f + PIN_CHUNK_SIZE"
    using align_to_bounds [of 26 init_sz] align_to_bounds [of 26 final_sz] n(2)
    by (auto simp: PIN_CHUNK_SIZE_def)
  have le: "?c \<le> ?f"
  proof (rule ccontr)
    assume "\<not> ?c \<le> ?f"
    then show False using next_chunk_fits [OF f(1) c(1)] f(2) by simp
  qed
  have "pool_ok k (empty_pool E ?f (2 ^ k) (Some ?c))"
    using empty_pool_ok [OF E, where init = "Some ?c" and n = ?f and k = k] c(2) n(1) le by simp
  then have "lazy_ok k ?c \<lparr>curr_size = ?c, final_size = ?f, buffer_ptr = ptr,
      pin_record = [(ptr, ?c)], lazy_mem = empty_pool E ?f (2 ^ k) (Some ?c)\<rparr>"
    using c f(1) le by (simp add: lazy_ok_def contiguous_def empty_pool_def ta_init_def am_init_def)
  then show ?thesis using c(1) le
    by (auto simp: lazy_init_def Let_def pin_memory_chunk_def chunk_mask empty_pool_def)
qed

section \<open>Properties\<close>

text \<open>C35: The background expansion finishes the job. For 0 < init_size <= final_size and an
  alignment that is a power of two up to the pin chunk, the constructor succeeds and the worker,
  when nobody stops it, returns after finitely many turns without a failed assertion, with
  the address space of the allocator equal to the final size rounded up to the chunk,
  every byte of it pinned exactly once by consecutive chunks, and the pool consistent;
  stopped at any moment, it leaves a consistent pool whose address space is what has
  been pinned.\<close>

theorem lazy_expansion_completes:
  assumes "sorted_list_ok E" "k \<le> 26" "0 < init_sz" "init_sz \<le> final_sz"
  shows "\<exists>st st'. lazy_init E ptr init_sz final_sz (2 ^ k) = Inr st \<and>
    expand_worker E stop 0 (curr_size st) st = (Inr (), st') \<and>
    am_size (pool_am (lazy_mem st')) = curr_size st' \<and> pool_ok k (lazy_mem st') \<and>
    contiguous ptr (pin_record st') (ptr + curr_size st') \<and>
    ((\<forall>j. \<not> stop j) \<longrightarrow> curr_size st' = align_to final_sz PIN_CHUNK_SIZE)"
proof -
  obtain st where st: "lazy_init E ptr init_sz final_sz (2 ^ k) = Inr st" "lazy_ok k (curr_size st) st"
    "buffer_ptr st = ptr" "final_size st = align_to final_sz PIN_CHUNK_SIZE"
    using lazy_init_ok [OF assms(1,3,4)] by blast
  from expand_worker_ok [OF assms(1,2) st(2), of stop 0] st show ?thesis
    unfolding lazy_ok_def by metis
qed

lemma lazy_expansion_completes_witness:
  "\<exists>st st'. lazy_init reference_env 4096 (2 ^ 27) (2 ^ 31 + 1) (2 ^ 12) = Inr st \<and>
    expand_worker reference_env (\<lambda>j. False) 0 (curr_size st) st = (Inr (), st') \<and>
    am_size (pool_am (lazy_mem st')) = 2 ^ 31 + 2 ^ 26"
proof -
  have "align_to (2 ^ 31 + 1) PIN_CHUNK_SIZE = 2 ^ 31 + 2 ^ 26" by code_simp
  then show ?thesis
    using lazy_expansion_completes [OF reference_sorted_list_ok, of 12 "2 ^ 27" "2 ^ 31 + 1" 4096 "\<lambda>j. False"]
    by auto
qed

end
