(* ===== verification/L1_Memory.thy ===== *)
theory L1_Memory
  imports Lazy_Allocator
begin

text \<open>
  L1Error, MemoryLayoutDesc and L1MemoryManager (error.py, api.py and memory_manager.py of
  lmcache/v1/distributed). The manager owns one allocator, a MixedMemoryAllocator or a
  LazyMemoryAllocator; both hand tensor requests to a TensorMemoryAllocator, the first
  with the format KV_2LTD and a dispatch on the format of the objects it frees, the second
  with UNDEFINED and no dispatch. The locale object_memory is the contract L1Manager
  relies on, and the manager is an instance.
\<close>

section \<open>Error codes and layouts\<close>

datatype l1_error =
    SUCCESS
  | KEY_NOT_EXIST
  | KEY_NOT_READABLE
  | KEY_NOT_WRITABLE
  | KEY_IN_WRONG_STATE
  | KEY_IS_LOCKED
  | OUT_OF_MEMORY

fun strerror :: "l1_error \<Rightarrow> string" where
  "strerror SUCCESS = ''Operation succeeded.''"
| "strerror KEY_NOT_EXIST = ''The specified key does not exist.''"
| "strerror KEY_NOT_READABLE = ''The specified key exists but cannot be read.''"
| "strerror KEY_NOT_WRITABLE = ''The specified key exists but cannot be written.''"
| "strerror KEY_IN_WRONG_STATE = ''The specified key is in the wrong state for the operation.''"
| "strerror KEY_IS_LOCKED = ''The specified key is locked and cannot perform the operation.''"
| "strerror OUT_OF_MEMORY = ''Not enough memory to complete the operation.''"

record memory_layout_desc =
  layout_shapes :: "torch_size list"
  layout_dtypes :: "torch_dtype list"

definition make_layout :: "torch_size list \<Rightarrow> torch_dtype list \<Rightarrow> py_error + memory_layout_desc" where
  "make_layout ss ds =
     (if length ss \<noteq> length ds then Inl ValueError
      else Inr \<lparr>layout_shapes = ss, layout_dtypes = ds\<rparr>)"

section \<open>The memory manager\<close>

datatype allocator_kind = MixedAllocator | LazyAllocator

record l1_mm =
  mm_kind :: allocator_kind
  mm_mem :: ta_mem

fun default_format :: "allocator_kind \<Rightarrow> memory_format" where
  "default_format MixedAllocator = KV_2LTD"
| "default_format LazyAllocator = UNDEFINED"

text \<open>
  create_memory_allocator: the constructor checks of the two allocators. ptr is where the
  runtime put the buffer. The lazy allocator's own counters belong to its worker; what it
  shares with the manager is the pool.
\<close>

definition mm_init :: "env \<Rightarrow> int \<Rightarrow> bool \<Rightarrow> int \<Rightarrow> int \<Rightarrow> int \<Rightarrow> py_error + l1_mm" where
  "mm_init E ptr use_lazy init_size_in_bytes size_in_bytes align_bytes =
     (if use_lazy then
        (case lazy_init E ptr init_size_in_bytes size_in_bytes align_bytes of
           Inl e \<Rightarrow> Inl e
         | Inr l \<Rightarrow> Inr \<lparr>mm_kind = LazyAllocator, mm_mem = lazy_mem l\<rparr>)
      else if align_bytes \<le> 0 \<or> align_bytes AND (align_bytes - 1) \<noteq> 0 then Inl ValueError
      else Inr \<lparr>mm_kind = MixedAllocator,
             mm_mem = \<lparr>allocator = ta_init E size_in_bytes align_bytes None, objs = (\<lambda>r. None), next_oid = 0\<rparr>\<rparr>)"

definition mm_allocate :: "env \<Rightarrow> memory_layout_desc \<Rightarrow> nat \<Rightarrow> l1_mm
    \<Rightarrow> (l1_error \<times> nat list, l1_mm) outcome" where
  "mm_allocate E layout n mm =
     (case ta_batched_allocate E (Many (layout_shapes layout)) (Many (layout_dtypes layout))
         (int n) (default_format (mm_kind mm)) (mm_mem mm) of
        (Inl e, st) \<Rightarrow> (Inl e, mm\<lparr>mm_mem := st\<rparr>)
      | (Inr None, st) \<Rightarrow> (Inr (OUT_OF_MEMORY, []), mm\<lparr>mm_mem := st\<rparr>)
      | (Inr (Some rs), st) \<Rightarrow> (Inr (SUCCESS, rs), mm\<lparr>mm_mem := st\<rparr>))"

text \<open>MixedMemoryAllocator.batched_free looks at the format of the first object only.\<close>

definition mixed_batched_free :: "env \<Rightarrow> nat list \<Rightarrow> ta_mem \<Rightarrow> (unit, ta_mem) outcome" where
  "mixed_batched_free E rs st =
     (case rs of
        [] \<Rightarrow> (Inr (), st)
      | r # _ \<Rightarrow>
          (case objs st r of
             None \<Rightarrow> (Inr (), st)
           | Some m \<Rightarrow>
               if fmt (meta m) = BINARY_BUFFER then (Inr (), st)
               else if fmt (meta m) \<in> {KV_2LTD, KV_2TD, KV_T2D, KV_MLA_FMT} then ta_batched_free E rs st
               else (Inl ValueError, st)))"

definition mm_free :: "env \<Rightarrow> nat list \<Rightarrow> l1_mm \<Rightarrow> (l1_error, l1_mm) outcome" where
  "mm_free E rs mm =
     (case (case mm_kind mm of
              MixedAllocator \<Rightarrow> mixed_batched_free E rs (mm_mem mm)
            | LazyAllocator \<Rightarrow> ta_batched_free E rs (mm_mem mm)) of
        (Inl e, st) \<Rightarrow> (Inl e, mm\<lparr>mm_mem := st\<rparr>)
      | (Inr _, st) \<Rightarrow> (Inr SUCCESS, mm\<lparr>mm_mem := st\<rparr>))"

definition mm_get_memory_usage :: "l1_mm \<Rightarrow> int \<times> int" where
  "mm_get_memory_usage mm =
     (let am = ta_am (allocator (mm_mem mm));
          free_size = get_free_size am;
          total_size = get_heap_size am
      in (total_size - free_size, total_size))"

definition mm_memcheck :: "l1_mm \<Rightarrow> bool" where
  "mm_memcheck mm = ta_memcheck (allocator (mm_mem mm))"

section \<open>The contract with the L1 manager\<close>

text \<open>
  live is the set of objects that are allocated and not freed. owned relates it to a
  client that holds one object per key: the objects are live and no two keys share one.
\<close>

locale object_memory =
  fixes env_sat :: "'e \<Rightarrow> bool"
    and inv :: "'s \<Rightarrow> bool"
    and live :: "'s \<Rightarrow> nat set"
    and layout_ok :: "'e \<Rightarrow> 'l \<Rightarrow> bool"
    and alloc :: "'e \<Rightarrow> 'l \<Rightarrow> nat \<Rightarrow> 's \<Rightarrow> (l1_error \<times> nat list, 's) outcome"
    and release :: "'e \<Rightarrow> nat list \<Rightarrow> 's \<Rightarrow> (l1_error, 's) outcome"
  assumes alloc_cases: "env_sat e \<Longrightarrow> inv s \<Longrightarrow> layout_ok e l \<Longrightarrow>
      (\<exists>rs s'. alloc e l n s = (Inr (SUCCESS, rs), s') \<and> inv s' \<and> length rs = n \<and> distinct rs \<and>
         set rs \<inter> live s = {} \<and> live s' = live s \<union> set rs) \<or>
      alloc e l n s = (Inr (OUT_OF_MEMORY, []), s)"
    and release_cases: "env_sat e \<Longrightarrow> inv s \<Longrightarrow> set rs \<subseteq> live s \<Longrightarrow>
      \<exists>s'. release e rs s = (Inr SUCCESS, s') \<and> inv s' \<and> live s' = live s - set rs"
begin

definition owned :: "('k \<Rightarrow> nat option) \<Rightarrow> nat set \<Rightarrow> 's \<Rightarrow> bool" where
  "owned obj_of_key garbage s \<longleftrightarrow> inv s \<and>
     (\<forall>k r. obj_of_key k = Some r \<longrightarrow> r \<in> live s \<and> r \<notin> garbage) \<and>
     (\<forall>k k' r. obj_of_key k = Some r \<longrightarrow> obj_of_key k' = Some r \<longrightarrow> k = k') \<and>
     garbage \<subseteq> live s"

lemma owned_drop:
  assumes "owned f G s" "f k = Some r"
  shows "owned (f(k := None)) (insert r G) s"
  using assms by (fastforce simp: owned_def split: if_splits)

lemma owned_forget:
  assumes "owned f G s"
  shows "owned (f(k := None)) G s"
  using assms by (fastforce simp: owned_def split: if_splits)

lemma owned_release:
  assumes "env_sat e" "owned f (set rs) s"
  shows "\<exists>s'. release e rs s = (Inr SUCCESS, s') \<and> owned f {} s'"
proof -
  have "inv s" "set rs \<subseteq> live s" using assms(2) by (simp_all add: owned_def)
  then obtain s' where s': "release e rs s = (Inr SUCCESS, s')" "inv s'" "live s' = live s - set rs"
    using release_cases [OF assms(1)] by blast
  moreover have "owned f {} s'" using assms(2) s'(2,3) unfolding owned_def by blast
  ultimately show ?thesis by blast
qed

lemma owned_add:
  assumes "owned f {} s" "r \<in> live s" "\<forall>k. f k \<noteq> Some r"
  shows "owned (f(k \<mapsto> r)) {} s"
  using assms by (fastforce simp: owned_def split: if_splits)

lemma owned_alloc:
  assumes "env_sat e" "layout_ok e l" "owned f {} s" "alloc e l n s = (Inr (SUCCESS, rs), s')"
  shows "owned f {} s' \<and> length rs = n \<and> distinct rs \<and> set rs \<subseteq> live s' \<and>
    (\<forall>r \<in> set rs. \<forall>k. f k \<noteq> Some r)"
proof -
  have "inv s" using assms(3) by (simp add: owned_def)
  from alloc_cases [OF assms(1) this assms(2), of n] assms(4)
  have "inv s'" "length rs = n" "distinct rs" "set rs \<inter> live s = {}" "live s' = live s \<union> set rs"
    by auto
  then show ?thesis using assms(3) by (fastforce simp: owned_def)
qed

end

subsection \<open>The memory manager keeps the contract\<close>

definition mm_inv :: "l1_mm \<Rightarrow> bool" where
  "mm_inv mm \<longleftrightarrow> (\<exists>k. pool_ok k (mm_mem mm)) \<and>
     (\<forall>r m. objs (mm_mem mm) r = Some m \<longrightarrow> valid m \<longrightarrow> fmt (meta m) = default_format (mm_kind mm))"

definition mm_live :: "l1_mm \<Rightarrow> nat set" where
  "mm_live mm = live_objs (mm_mem mm)"

definition layout_ok :: "env \<Rightarrow> memory_layout_desc \<Rightarrow> bool" where
  "layout_ok E l \<longleftrightarrow> length (layout_shapes l) = length (layout_dtypes l) \<and>
     (\<exists>n. get_size_bytes E (layout_shapes l) (layout_dtypes l) = Inr n \<and> 0 < n)"

lemma mm_init_ok:
  assumes E: "sorted_list_ok E" and n: "0 < size_in_bytes"
    and l: "use_lazy \<Longrightarrow> 0 < init_size_in_bytes \<and> init_size_in_bytes \<le> size_in_bytes"
  shows "\<exists>mm. mm_init E ptr use_lazy init_size_in_bytes size_in_bytes (2 ^ k) = Inr mm \<and>
    mm_inv mm \<and> mm_live mm = {}"
proof (cases use_lazy)
  case True
  have i: "mm_inv \<lparr>mm_kind = LazyAllocator, mm_mem = lazy_mem l\<rparr> \<and> mm_live \<lparr>mm_kind = LazyAllocator, mm_mem = lazy_mem l\<rparr> = {}"
    if "lazy_init E ptr init_size_in_bytes size_in_bytes (2 ^ k) = Inr l" "lazy_ok k c l" for l c
  proof -
    have "objs (lazy_mem l) = (\<lambda>r. None)"
      using that(1) by (auto simp: lazy_init_def Let_def pin_memory_chunk_def split: if_splits)
    then show ?thesis using that(2) by (auto simp: mm_inv_def mm_live_def lazy_ok_def is_valid_def)
  qed
  from lazy_init_ok [OF E, of init_size_in_bytes size_in_bytes ptr k] l True i show ?thesis
    by (auto simp: mm_init_def)
next
  case False
  have "(2 ^ k :: int) AND (2 ^ k - 1) = 0"
    using take_bit_eq_mask [of k "2 ^ k :: int"] by (simp add: mask_eq_exp_minus_1 take_bit_eq_mod)
  moreover have "pool_ok k (empty_pool E size_in_bytes (2 ^ k) None)" using empty_pool_ok [OF E] n by simp
  ultimately show ?thesis using False
    by (auto simp: mm_init_def mm_inv_def mm_live_def empty_pool_def is_valid_def)
qed

lemma mm_inv_sbrk:
  assumes E: "sorted_list_ok E" and inv: "mm_inv mm" and n: "0 < n" "am_align (pool_am (mm_mem mm)) dvd n"
    and fits: "am_size (pool_am (mm_mem mm)) + n \<le> ta_buffer_numel (allocator (mm_mem mm))"
    and am: "am_sbrk E (pool_am (mm_mem mm)) n = (r, am)"
  shows "mm_inv (mm\<lparr>mm_mem := set_am am (mm_mem mm)\<rparr>) \<and>
    mm_live (mm\<lparr>mm_mem := set_am am (mm_mem mm)\<rparr>) = mm_live mm"
proof -
  obtain k where ok: "pool_ok k (mm_mem mm)" using inv by (auto simp: mm_inv_def)
  then have "2 ^ k dvd n" using n(2) by (simp add: pool_ok_def)
  from pool_ok_sbrk [OF E ok n(1) this fits] am have "pool_ok k (set_am am (mm_mem mm))" by auto
  moreover have "objs (set_am am (mm_mem mm)) = objs (mm_mem mm)" by (simp add: set_am_def)
  ultimately show ?thesis using inv by (auto simp: mm_inv_def mm_live_def)
qed

lemma mm_allocate_cases:
  assumes E: "sorted_list_ok E" and inv: "mm_inv mm" and l: "layout_ok E l"
  shows "(\<exists>rs mm'. mm_allocate E l n mm = (Inr (SUCCESS, rs), mm') \<and> mm_inv mm' \<and>
      mm_kind mm' = mm_kind mm \<and> length rs = n \<and> distinct rs \<and> set rs \<inter> mm_live mm = {} \<and>
      mm_live mm' = mm_live mm \<union> set rs \<and>
      (\<forall>r \<in> mm_live mm. objs (mm_mem mm') r = objs (mm_mem mm) r)) \<or>
    mm_allocate E l n mm = (Inr (OUT_OF_MEMORY, []), mm)"
proof -
  let ?ss = "layout_shapes l" and ?ds = "layout_dtypes l" and ?f = "default_format (mm_kind mm)"
  obtain k where ok: "pool_ok k (mm_mem mm)" using inv by (auto simp: mm_inv_def)
  obtain sz where sz: "get_size_bytes E ?ss ?ds = Inr sz" "0 < sz" and len: "length ?ss = length ?ds"
    using l by (auto simp: layout_ok_def)
  have adapt: "adapt_shapes_and_dtypes (Many ?ss) (Many ?ds) = Inr (?ss, ?ds)"
    using len by (simp add: adapt_shapes_and_dtypes_def)
  from ta_batched_allocate_cases [OF E ok adapt sz, of n ?f] show ?thesis
  proof (elim disjE exE conjE)
    fix rs st'
    let ?mm = "mm\<lparr>mm_mem := st'\<rparr>" and ?a = "compute_aligned_size (pool_am (mm_mem mm)) sz"
    assume res: "ta_batched_allocate E (Many ?ss) (Many ?ds) (int n) ?f (mm_mem mm) = (Inr (Some rs), st')"
      and len: "length rs = n" and ok': "pool_ok k st'"
      and new: "new_objs E ?ss ?ds ?f ?a (mm_mem mm) rs st'"
    have rs: "rs = [next_oid (mm_mem mm) ..< next_oid st']"
      and old: "\<forall>q < next_oid (mm_mem mm). objs st' q = objs (mm_mem mm) q"
      and got: "\<forall>q \<in> set rs. \<exists>a. objs st' q = Some (obj_of E ?ss ?ds ?f (a, ?a) a ?a)"
      using new unfolding new_objs_def by blast+
    have fresh: "next_oid (mm_mem mm) \<le> q \<Longrightarrow> objs (mm_mem mm) q = None"
      and fresh': "next_oid st' \<le> q \<Longrightarrow> objs st' q = None" for q
      using ok ok' by (simp_all add: pool_ok_def)
    have some: "q < next_oid (mm_mem mm)" if "is_valid (mm_mem mm) q" for q
    proof (rule ccontr)
      assume "\<not> q < next_oid (mm_mem mm)"
      then have "objs (mm_mem mm) q = None" by (intro fresh) simp
      with that show False by (simp add: is_valid_def)
    qed
    have valid: "is_valid st' q \<longleftrightarrow> is_valid (mm_mem mm) q \<or> q \<in> set rs" for q
    proof -
      consider "q < next_oid (mm_mem mm)" | "q \<in> set rs" | "next_oid st' \<le> q \<and> next_oid (mm_mem mm) \<le> q"
        unfolding rs set_upt atLeastLessThan_iff by linarith
      then show ?thesis
      proof cases
        case 1
        then show ?thesis using old rs by (auto simp: is_valid_def)
      next
        case 2
        with got obtain a where "objs st' q = Some (obj_of E ?ss ?ds ?f (a, ?a) a ?a)" by blast
        then show ?thesis using 2 by (simp add: is_valid_def obj_of_def)
      next
        case 3
        then show ?thesis using fresh fresh' rs by (auto simp: is_valid_def)
      qed
    qed
    have "fmt (meta m) = ?f" if m: "objs st' q = Some m" "valid m" for q m
    proof -
      have "is_valid (mm_mem mm) q \<or> q \<in> set rs" using valid [of q] m by (simp add: is_valid_def)
      then show ?thesis
      proof
        assume "q \<in> set rs"
        with got obtain a where "objs st' q = Some (obj_of E ?ss ?ds ?f (a, ?a) a ?a)" by blast
        with m show ?thesis by (auto simp: obj_of_def)
      next
        assume "is_valid (mm_mem mm) q"
        moreover from this have "objs (mm_mem mm) q = Some m" using some old m by simp
        ultimately show ?thesis using inv m by (simp add: mm_inv_def)
      qed
    qed
    then have "mm_inv ?mm" using ok' by (auto simp: mm_inv_def)
    moreover have "set rs \<inter> mm_live mm = {}"
      using some by (fastforce simp: mm_live_def rs disjoint_iff not_le [symmetric])
    moreover have "mm_live ?mm = mm_live mm \<union> set rs" using valid by (auto simp: mm_live_def)
    moreover have "\<forall>r \<in> mm_live mm. objs st' r = objs (mm_mem mm) r"
      using some old by (auto simp: mm_live_def)
    ultimately show ?thesis using res len rs by (simp add: mm_allocate_def)
  next
    assume "ta_batched_allocate E (Many ?ss) (Many ?ds) (int n) ?f (mm_mem mm) = (Inr None, mm_mem mm)"
    then show ?thesis by (simp add: mm_allocate_def)
  qed
qed

lemma mm_free_cases:
  assumes E: "sorted_list_ok E" and inv: "mm_inv mm" and rs: "set rs \<subseteq> mm_live mm"
  shows "\<exists>mm'. mm_free E rs mm = (Inr SUCCESS, mm') \<and> mm_inv mm' \<and> mm_kind mm' = mm_kind mm \<and>
    mm_live mm' = mm_live mm - set rs \<and>
    (\<forall>r. r \<notin> set rs \<longrightarrow> objs (mm_mem mm') r = objs (mm_mem mm) r)"
proof -
  obtain k where ok: "pool_ok k (mm_mem mm)" using inv by (auto simp: mm_inv_def)
  obtain st' where st': "ta_batched_free E rs (mm_mem mm) = (Inr (), st')" "freed (set rs) (mm_mem mm) st'"
    using ta_batched_free_freed [OF E ok] by blast
  have mixed: "mixed_batched_free E rs (mm_mem mm) = ta_batched_free E rs (mm_mem mm)"
    if "mm_kind mm = MixedAllocator"
  proof (cases rs)
    case Nil
    then show ?thesis by (simp add: mixed_batched_free_def ta_batched_free_def)
  next
    case (Cons r rs')
    then have "is_valid (mm_mem mm) r" using rs by (simp add: mm_live_def)
    then obtain m where "objs (mm_mem mm) r = Some m" "valid m" by (auto simp: is_valid_some)
    moreover from this have "fmt (meta m) = KV_2LTD" using inv that by (auto simp: mm_inv_def)
    ultimately show ?thesis using Cons by (simp add: mixed_batched_free_def)
  qed
  have "mm_free E rs mm = (Inr SUCCESS, mm\<lparr>mm_mem := st'\<rparr>)"
    using st'(1) mixed by (cases "mm_kind mm") (simp_all add: mm_free_def)
  moreover have "fmt (meta m) = default_format (mm_kind mm)" if "objs st' q = Some m" "valid m" for q m
    using that st'(2) inv by (auto simp: freed_def freed_objs_def mm_inv_def split: if_splits)
  then have "mm_inv (mm\<lparr>mm_mem := st'\<rparr>)"
    using freed_ok [OF ok st'(2)] by (auto simp: mm_inv_def)
  moreover have "mm_live (mm\<lparr>mm_mem := st'\<rparr>) = mm_live mm - set rs"
    by (rule set_eqI) (simp add: mm_live_def freed_views(1) [OF st'(2)])
  moreover have "objs st' r = objs (mm_mem mm) r" if "r \<notin> set rs" for r
    using st'(2) that by (simp add: freed_def freed_objs_def)
  ultimately show ?thesis by simp
qed

interpretation mm: object_memory sorted_list_ok mm_inv mm_live layout_ok mm_allocate mm_free
proof
  fix E :: env and mm :: l1_mm and l and n :: nat and rs :: "nat list"
  assume a: "sorted_list_ok E" "mm_inv mm"
  {
    assume "layout_ok E l"
    then show "(\<exists>rs mm'. mm_allocate E l n mm = (Inr (SUCCESS, rs), mm') \<and> mm_inv mm' \<and> length rs = n \<and>
        distinct rs \<and> set rs \<inter> mm_live mm = {} \<and> mm_live mm' = mm_live mm \<union> set rs) \<or>
      mm_allocate E l n mm = (Inr (OUT_OF_MEMORY, []), mm)"
      using mm_allocate_cases [OF a] by blast
  next
    assume "set rs \<subseteq> mm_live mm"
    then show "\<exists>mm'. mm_free E rs mm = (Inr SUCCESS, mm') \<and> mm_inv mm' \<and> mm_live mm' = mm_live mm - set rs"
      using mm_free_cases [OF a] by blast
  }
qed

lemma mm_usage_counts:
  assumes "mm_inv mm"
  shows "fst (mm_get_memory_usage mm) = int (card (pool_used (mm_mem mm)))"
    and "snd (mm_get_memory_usage mm) = am_size (pool_am (mm_mem mm))"
proof -
  let ?am = "pool_am (mm_mem mm)"
  obtain k where ok: "pool_ok k (mm_mem mm)" using assms by (auto simp: mm_inv_def)
  then have inv: "am_inv ?am" and
    u: "pool_used (mm_mem mm) \<inter> free_addresses ?am = {}"
      "pool_used (mm_mem mm) \<union> free_addresses ?am = {0 ..< am_size ?am}"
    by (simp_all add: pool_ok_def)
  have "finite (pool_used (mm_mem mm))" using u(2) by (metis finite_Un finite_atLeastLessThan_int)
  moreover have f: "finite (free_addresses ?am)"
      "int (card (free_addresses ?am)) = sum_list (map bsize (explicit_list ?am))"
    using free_set_card inv by (auto simp: am_inv_def)
  ultimately have "card (pool_used (mm_mem mm)) + card (free_addresses ?am) = card {0 ..< am_size ?am}"
    using u card_Un_disjoint by metis
  then have "int (card (pool_used (mm_mem mm)) + card (free_addresses ?am)) = int (card {0 ..< am_size ?am})"
    by (rule arg_cong)
  then have "int (card (pool_used (mm_mem mm))) + sum_list (map bsize (explicit_list ?am)) = am_size ?am"
    using f(2) inv by (simp add: am_inv_def)
  then show "fst (mm_get_memory_usage mm) = int (card (pool_used (mm_mem mm)))"
    using inv by (simp add: mm_get_memory_usage_def Let_def get_free_size_def get_heap_size_def am_inv_def)
  show "snd (mm_get_memory_usage mm) = am_size ?am"
    by (simp add: mm_get_memory_usage_def Let_def get_heap_size_def)
qed

end
