(* ===== verification/Ttl_Lock.thy ===== *)
theory Ttl_Lock
  imports Main
begin

text \<open>
  TTLLock of csrc/storage_manager/ttl_lock.cpp. The first part is the lock as its clients
  see it, each call atomic at a clock reading now (L1Manager and the adapters call it
  under a mutex). The second part is the lock as a machine of atomic loads, stores and
  compare-and-swaps by concurrent threads, because the class claims to be thread-safe on
  its own. Milliseconds and counters are unbounded here: int64 does not wrap in any
  uptime.
\<close>

section \<open>The lock under a mutex\<close>

record ttl =
  counter :: int
  expiration_ms :: int
  ttl_ms :: int

definition ttl_new :: "int \<Rightarrow> ttl" where
  "ttl_new ttl_sec = \<lparr>counter = 0, expiration_ms = 0, ttl_ms = ttl_sec * 1000\<rparr>"

definition ttl_lock :: "int \<Rightarrow> ttl \<Rightarrow> ttl" where
  "ttl_lock now l =
     (if expiration_ms l \<le> now then l\<lparr>counter := 1, expiration_ms := now + ttl_ms l\<rparr>
      else l\<lparr>counter := counter l + 1, expiration_ms := now + ttl_ms l\<rparr>)"

definition ttl_unlock :: "ttl \<Rightarrow> ttl" where
  "ttl_unlock l = (if counter l \<le> 0 then l else l\<lparr>counter := counter l - 1\<rparr>)"

definition is_locked :: "int \<Rightarrow> ttl \<Rightarrow> bool" where
  "is_locked now l \<longleftrightarrow> 0 < counter l \<and> now < expiration_ms l"

definition ttl_reset :: "ttl \<Rightarrow> ttl" where
  "ttl_reset l = l\<lparr>counter := 0, expiration_ms := 0\<rparr>"

text \<open>for _ in range(n): lock.lock(), and the same for unlock.\<close>

definition lock_times :: "nat \<Rightarrow> int \<Rightarrow> ttl \<Rightarrow> ttl" where
  "lock_times n now = (ttl_lock now ^^ n)"

definition unlock_times :: "nat \<Rightarrow> ttl \<Rightarrow> ttl" where
  "unlock_times n = (ttl_unlock ^^ n)"

lemma ttl_ms_const [simp]:
  "ttl_ms (ttl_lock now l) = ttl_ms l" "ttl_ms (ttl_unlock l) = ttl_ms l"
  by (simp_all add: ttl_lock_def ttl_unlock_def)

lemma lock_times_simps [simp]:
  "lock_times 0 now l = l" "lock_times (Suc n) now l = ttl_lock now (lock_times n now l)"
  by (simp_all add: lock_times_def)

lemma unlock_times_simps [simp]:
  "unlock_times 0 l = l" "unlock_times (Suc n) l = ttl_unlock (unlock_times n l)"
  by (simp_all add: unlock_times_def)

lemma lock_times_eq:
  assumes "0 < ttl_ms l"
  shows "lock_times (Suc n) now l =
    l\<lparr>counter := (if expiration_ms l \<le> now then 1 else counter l + 1) + int n,
      expiration_ms := now + ttl_ms l\<rparr>"
  using assms by (induction n) (auto simp: ttl_lock_def)

lemma unlock_times_eq:
  "0 \<le> counter l \<Longrightarrow> unlock_times n l = l\<lparr>counter := max 0 (counter l - int n)\<rparr>"
  by (induction n) (auto simp: ttl_unlock_def max_def)

lemma is_locked_lock_times:
  assumes "0 < ttl_ms l" "0 \<le> counter l"
  shows "is_locked now (lock_times (Suc n) now l)"
  using assms by (simp add: lock_times_eq is_locked_def del: lock_times_simps)

lemma ttl_lock_held:
  assumes "0 < ttl_ms l" "0 \<le> counter l"
  shows "is_locked now (ttl_lock now l)"
  using is_locked_lock_times [OF assms, of now 0] by simp

lemma counter_nonneg:
  "0 \<le> counter l \<Longrightarrow> 0 \<le> counter (ttl_lock now l)"
  "0 \<le> counter l \<Longrightarrow> 0 \<le> counter (ttl_unlock l)"
  "0 \<le> counter l \<Longrightarrow> 0 \<le> counter (lock_times n now l)"
  "0 \<le> counter l \<Longrightarrow> 0 \<le> counter (unlock_times n l)"
proof -
  show "0 \<le> counter l \<Longrightarrow> 0 \<le> counter (ttl_lock now l)" for l now by (simp add: ttl_lock_def)
  then show "0 \<le> counter l \<Longrightarrow> 0 \<le> counter (lock_times n now l)" by (induction n) simp_all
  show "0 \<le> counter l \<Longrightarrow> 0 \<le> counter (ttl_unlock l)" for l by (simp add: ttl_unlock_def)
  then show "0 \<le> counter l \<Longrightarrow> 0 \<le> counter (unlock_times n l)" by (induction n) simp_all
qed

lemma ttl_ms_times [simp]:
  "ttl_ms (lock_times n now l) = ttl_ms l" "ttl_ms (unlock_times n l) = ttl_ms l"
  by (induction n) simp_all

section \<open>The lock as a concurrent machine\<close>

text \<open>
  One step is one atomic access. lock() reads the clock once (t), then loops: it loads
  the expiration, loads the counter and, depending on the loaded expiration, tries one of
  two compare-and-swaps; a successful one is followed by one more store. unlock() loads
  the counter and tries a compare-and-swap.
\<close>

datatype pc =
    Idle
  | LockStart int
  | LockLoadedExp int int
  | LockLoaded int int int
  | LockStoreCounter
  | LockStoreExp int
  | UnlockStart
  | UnlockLoaded int

record machine =
  m_counter :: int
  m_expiration :: int
  m_ttl :: int
  m_now :: int
  m_pc :: "nat \<Rightarrow> pc"
  m_locks_done :: nat
  m_unlocks_done :: nat

definition goto :: "nat \<Rightarrow> pc \<Rightarrow> machine \<Rightarrow> machine" where
  "goto i p m = m\<lparr>m_pc := (m_pc m)(i := p)\<rparr>"

inductive tstep :: "machine \<Rightarrow> machine \<Rightarrow> bool" where
  tick: "m_now m \<le> t \<Longrightarrow> tstep m (m\<lparr>m_now := t\<rparr>)"
| call_lock: "m_pc m i = Idle \<Longrightarrow> tstep m (goto i (LockStart (m_now m)) m)"
| load_exp: "m_pc m i = LockStart t \<Longrightarrow> tstep m (goto i (LockLoadedExp t (m_expiration m)) m)"
| load_counter: "m_pc m i = LockLoadedExp t e \<Longrightarrow> tstep m (goto i (LockLoaded t e (m_counter m)) m)"
| cas_exp: "m_pc m i = LockLoaded t e c \<Longrightarrow> e \<le> t \<Longrightarrow> m_expiration m = e \<Longrightarrow>
    tstep m (goto i LockStoreCounter (m\<lparr>m_expiration := t + m_ttl m\<rparr>))"
| cas_exp_fails: "m_pc m i = LockLoaded t e c \<Longrightarrow> e \<le> t \<Longrightarrow> m_expiration m \<noteq> e \<Longrightarrow>
    tstep m (goto i (LockStart t) m)"
| store_counter: "m_pc m i = LockStoreCounter \<Longrightarrow>
    tstep m (goto i Idle (m\<lparr>m_counter := 1, m_locks_done := Suc (m_locks_done m)\<rparr>))"
| cas_counter: "m_pc m i = LockLoaded t e c \<Longrightarrow> t < e \<Longrightarrow> m_counter m = c \<Longrightarrow>
    tstep m (goto i (LockStoreExp t) (m\<lparr>m_counter := c + 1\<rparr>))"
| cas_counter_fails: "m_pc m i = LockLoaded t e c \<Longrightarrow> t < e \<Longrightarrow> m_counter m \<noteq> c \<Longrightarrow>
    tstep m (goto i (LockStart t) m)"
| store_exp: "m_pc m i = LockStoreExp t \<Longrightarrow>
    tstep m (goto i Idle (m\<lparr>m_expiration := t + m_ttl m, m_locks_done := Suc (m_locks_done m)\<rparr>))"
| call_unlock: "m_pc m i = Idle \<Longrightarrow> tstep m (goto i UnlockStart m)"
| unlock_load: "m_pc m i = UnlockStart \<Longrightarrow> tstep m (goto i (UnlockLoaded (m_counter m)) m)"
| unlock_zero: "m_pc m i = UnlockLoaded c \<Longrightarrow> c \<le> 0 \<Longrightarrow>
    tstep m (goto i Idle (m\<lparr>m_unlocks_done := Suc (m_unlocks_done m)\<rparr>))"
| unlock_cas: "m_pc m i = UnlockLoaded c \<Longrightarrow> 0 < c \<Longrightarrow> m_counter m = c \<Longrightarrow>
    tstep m (goto i Idle (m\<lparr>m_counter := c - 1, m_unlocks_done := Suc (m_unlocks_done m)\<rparr>))"
| unlock_cas_fails: "m_pc m i = UnlockLoaded c \<Longrightarrow> 0 < c \<Longrightarrow> m_counter m \<noteq> c \<Longrightarrow>
    tstep m (goto i UnlockStart m)"

definition m_init :: "int \<Rightarrow> machine" where
  "m_init ttl = \<lparr>m_counter = 0, m_expiration = 0, m_ttl = ttl, m_now = 0, m_pc = (\<lambda>i. Idle),
     m_locks_done = 0, m_unlocks_done = 0\<rparr>"

inductive_cases tstep_elim: "tstep m m'"

lemma goto_simps [simp]:
  "m_counter (goto i p m) = m_counter m" "m_expiration (goto i p m) = m_expiration m"
  "m_ttl (goto i p m) = m_ttl m" "m_now (goto i p m) = m_now m"
  "m_locks_done (goto i p m) = m_locks_done m" "m_unlocks_done (goto i p m) = m_unlocks_done m"
  "m_pc (goto i p m) = (m_pc m)(i := p)"
  by (simp_all add: goto_def)

text \<open>Mutual consistency of the two parts: a thread that runs lock() alone does ttl_lock.\<close>

lemma lock_alone:
  assumes "m_pc m i = Idle"
  shows "\<exists>m'. tstep\<^sup>*\<^sup>* m m' \<and> m_pc m' = m_pc m \<and> m_locks_done m' = Suc (m_locks_done m) \<and>
    (let l = ttl_lock (m_now m) \<lparr>counter = m_counter m, expiration_ms = m_expiration m, ttl_ms = m_ttl m\<rparr>
     in m_counter m' = counter l \<and> m_expiration m' = expiration_ms l)"
proof -
  let ?t = "m_now m" and ?e = "m_expiration m" and ?c = "m_counter m"
  define m1 where "m1 = goto i (LockStart ?t) m"
  define m2 where "m2 = goto i (LockLoadedExp ?t ?e) m1"
  define m3 where "m3 = goto i (LockLoaded ?t ?e ?c) m2"
  have 1: "tstep m m1" unfolding m1_def by (rule call_lock) (fact assms)
  have 2: "tstep m1 m2" unfolding m2_def using load_exp [of m1 i ?t] by (simp add: m1_def)
  have 3: "tstep m2 m3" unfolding m3_def using load_counter [of m2 i ?t ?e]
    by (simp add: m2_def m1_def)
  have pc: "(m_pc m)(i := Idle) = m_pc m" using assms by (simp add: fun_upd_idem)
  show ?thesis
  proof (cases "?e \<le> ?t")
    case True
    define m4 where "m4 = goto i LockStoreCounter (m3\<lparr>m_expiration := ?t + m_ttl m3\<rparr>)"
    define m5 where "m5 = goto i Idle (m4\<lparr>m_counter := 1, m_locks_done := Suc (m_locks_done m4)\<rparr>)"
    have 4: "tstep m3 m4" unfolding m4_def
      by (rule cas_exp [where t = ?t and e = ?e and c = ?c]) (use True in \<open>simp_all add: m3_def m2_def m1_def\<close>)
    have 5: "tstep m4 m5" unfolding m5_def by (rule store_counter) (simp add: m4_def)
    have "tstep\<^sup>*\<^sup>* m m5" using 1 2 3 4 5 by (meson rtranclp.rtrancl_into_rtrancl rtranclp.rtrancl_refl)
    then show ?thesis using True pc
      by (intro exI [of _ m5]) (simp add: m5_def m4_def m3_def m2_def m1_def ttl_lock_def)
  next
    case False
    define m4 where "m4 = goto i (LockStoreExp ?t) (m3\<lparr>m_counter := ?c + 1\<rparr>)"
    define m5 where "m5 = goto i Idle (m4\<lparr>m_expiration := ?t + m_ttl m4, m_locks_done := Suc (m_locks_done m4)\<rparr>)"
    have 4: "tstep m3 m4" unfolding m4_def
      by (rule cas_counter [where t = ?t and e = ?e]) (use False in \<open>simp_all add: m3_def m2_def m1_def\<close>)
    have 5: "tstep m4 m5" unfolding m5_def by (rule store_exp) (simp add: m4_def)
    have "tstep\<^sup>*\<^sup>* m m5" using 1 2 3 4 5 by (meson rtranclp.rtrancl_into_rtrancl rtranclp.rtrancl_refl)
    then show ?thesis using False pc
      by (intro exI [of _ m5]) (simp add: m5_def m4_def m3_def m2_def m1_def ttl_lock_def)
  qed
qed

section \<open>Properties\<close>

text \<open>n calls of lock followed by n calls of unlock, on a lock that nobody holds, leave
  it free, and until the last unlock it is held; on a lock that is held they restore the
  counter. In every case the TTL has been refreshed to the time of the last lock.\<close>

theorem ttl_lock_unlock_balance:
  assumes "0 < ttl_ms l" "0 \<le> counter l" "0 < n"
  shows "is_locked now (lock_times n now l) \<and>
    (\<forall>k < n. is_locked now (unlock_times k (lock_times n now l))) \<and>
    is_locked now (unlock_times n (lock_times n now l)) = is_locked now l \<and>
    (is_locked now l \<longrightarrow> counter (unlock_times n (lock_times n now l)) = counter l) \<and>
    expiration_ms (unlock_times n (lock_times n now l)) = now + ttl_ms l"
proof -
  obtain j where j: "n = Suc j" using assms(3) by (cases n) auto
  let ?c = "(if expiration_ms l \<le> now then 1 else counter l + 1) + int j"
  have eq: "lock_times n now l = l\<lparr>counter := ?c, expiration_ms := now + ttl_ms l\<rparr>"
    unfolding j by (rule lock_times_eq [OF assms(1)])
  have un: "unlock_times k (lock_times n now l) =
      l\<lparr>counter := max 0 (?c - int k), expiration_ms := now + ttl_ms l\<rparr>" for k
    using assms(2) unfolding eq by (subst unlock_times_eq) (auto simp: max_def)
  have "is_locked now (lock_times n now l)"
    using assms unfolding eq is_locked_def by simp
  moreover have "is_locked now (unlock_times k (lock_times n now l))" if "k < n" for k
    using that assms j unfolding un by (simp add: is_locked_def max_def)
  moreover have "is_locked now (unlock_times n (lock_times n now l)) = is_locked now l"
    using assms j unfolding un by (auto simp: is_locked_def max_def)
  moreover have "counter (unlock_times n (lock_times n now l)) = counter l" if "is_locked now l"
    using that assms j unfolding un by (simp add: is_locked_def max_def)
  moreover have "expiration_ms (unlock_times n (lock_times n now l)) = now + ttl_ms l"
    unfolding un by simp
  ultimately show ?thesis by blast
qed

lemma ttl_lock_unlock_balance_witness:
  "is_locked 7 (lock_times 2 7 (ttl_new 1)) \<and> \<not> is_locked 7 (unlock_times 2 (lock_times 2 7 (ttl_new 1)))"
proof -
  have "0 < ttl_ms (ttl_new 1)" "0 \<le> counter (ttl_new 1)" "\<not> is_locked 7 (ttl_new 1)"
    by (simp_all add: ttl_new_def is_locked_def)
  with ttl_lock_unlock_balance [of "ttl_new 1" 2 7] show ?thesis by auto
qed

text \<open>The clock only moves forward, so a run that ends at the clock reading it began with has
  read that same value at every step.\<close>

lemma tsteps_clock: "tstep\<^sup>*\<^sup>* m m' \<Longrightarrow> m_now m \<le> m_now m'"
proof (induction rule: rtranclp_induct)
  case (step m1 m2)
  from step(2) have "m_now m1 \<le> m_now m2" by (cases rule: tstep.cases) simp_all
  then show ?case using step by simp
qed simp

text \<open>The interleaving that loses a lock: thread 0 wins the compare-and-swap on the expired
  expiration, thread 1 sees the new expiration and increments the counter, and thread 0 then
  stores 1.\<close>

lemma two_locks_one_counted:
  assumes ttl: "0 < ttl"
  shows "\<exists>m. tstep\<^sup>*\<^sup>* (m_init ttl) m \<and> m_locks_done m = 2 \<and> m_unlocks_done m = 0 \<and>
    (\<forall>i. m_pc m i = Idle) \<and> m_counter m = 1 \<and> m_expiration m = ttl \<and> m_now m = 0"
proof -
  define m0 where "m0 = m_init ttl"
  define a1 where "a1 = goto 0 (LockStart 0) m0"
  define a2 where "a2 = goto 0 (LockLoadedExp 0 0) a1"
  define a3 where "a3 = goto 0 (LockLoaded 0 0 0) a2"
  define a4 where "a4 = goto 0 LockStoreCounter (a3\<lparr>m_expiration := 0 + m_ttl a3\<rparr>)"
  define b1 where "b1 = goto 1 (LockStart 0) a4"
  define b2 where "b2 = goto 1 (LockLoadedExp 0 ttl) b1"
  define b3 where "b3 = goto 1 (LockLoaded 0 ttl 0) b2"
  define b4 where "b4 = goto 1 (LockStoreExp 0) (b3\<lparr>m_counter := 0 + 1\<rparr>)"
  define b5 where "b5 = goto 1 Idle (b4\<lparr>m_expiration := 0 + m_ttl b4, m_locks_done := Suc (m_locks_done b4)\<rparr>)"
  define a5 where "a5 = goto 0 Idle (b5\<lparr>m_counter := 1, m_locks_done := Suc (m_locks_done b5)\<rparr>)"
  note d = m0_def m_init_def a1_def a2_def a3_def a4_def b1_def b2_def b3_def b4_def b5_def
  have "tstep m0 a1" unfolding a1_def using call_lock [of m0 0] by (simp add: d)
  moreover have "tstep a1 a2" unfolding a2_def using load_exp [of a1 0 0] by (simp add: d)
  moreover have "tstep a2 a3" unfolding a3_def using load_counter [of a2 0 0 0] by (simp add: d)
  moreover have "tstep a3 a4" unfolding a4_def
    by (rule cas_exp [where e = 0 and c = 0]) (simp_all add: d)
  moreover have "tstep a4 b1" unfolding b1_def using call_lock [of a4 1] by (simp add: d)
  moreover have "tstep b1 b2" unfolding b2_def using load_exp [of b1 1 0] by (simp add: d)
  moreover have "tstep b2 b3" unfolding b3_def using load_counter [of b2 1 0 ttl] by (simp add: d)
  moreover have "tstep b3 b4" unfolding b4_def
    by (rule cas_counter [where t = 0 and e = ttl]) (use ttl in \<open>simp_all add: d\<close>)
  moreover have "tstep b4 b5" unfolding b5_def by (rule store_exp) (simp add: d)
  moreover have "tstep b5 a5" unfolding a5_def by (rule store_counter) (simp add: d)
  ultimately have "tstep\<^sup>*\<^sup>* m0 a5"
    by (meson rtranclp.rtrancl_into_rtrancl rtranclp.rtrancl_refl)
  then show ?thesis
    unfolding m0_def [symmetric] using ttl by (intro exI [of _ a5]) (simp add: a5_def d)
qed

text \<open>A thread that runs unlock() alone on a positive counter decrements it.\<close>

lemma unlock_alone:
  assumes "m_pc m i = Idle" "0 < m_counter m"
  shows "\<exists>m'. tstep\<^sup>*\<^sup>* m m' \<and> m_pc m' = m_pc m \<and> m_counter m' = m_counter m - 1 \<and>
    m_now m' = m_now m \<and> m_expiration m' = m_expiration m \<and> m_locks_done m' = m_locks_done m \<and>
    m_unlocks_done m' = Suc (m_unlocks_done m)"
proof -
  define m1 where "m1 = goto i UnlockStart m"
  define m2 where "m2 = goto i (UnlockLoaded (m_counter m)) m1"
  define m3 where "m3 = goto i Idle (m2\<lparr>m_counter := m_counter m - 1, m_unlocks_done := Suc (m_unlocks_done m2)\<rparr>)"
  have "tstep m m1" unfolding m1_def by (rule call_unlock) (fact assms(1))
  moreover have "tstep m1 m2" unfolding m2_def using unlock_load [of m1 i] by (simp add: m1_def)
  moreover have "tstep m2 m3" unfolding m3_def
    by (rule unlock_cas) (use assms(2) in \<open>simp_all add: m2_def m1_def\<close>)
  ultimately have "tstep\<^sup>*\<^sup>* m m3" by (meson rtranclp.rtrancl_into_rtrancl rtranclp.rtrancl_refl)
  moreover have "(m_pc m)(i := Idle) = m_pc m" using assms(1) by (simp add: fun_upd_idem)
  ultimately show ?thesis by (intro exI [of _ m3]) (simp add: m3_def m2_def m1_def)
qed

text \<open>C37: The concurrent lock() can lose a lock although no time passes. From a fresh lock, and with
  the clock at one reading throughout (so nothing expires in between), two threads can both
  return from lock() with no unlock done and leave the counter at 1, because the thread that
  wins the compare-and-swap on the expired expiration stores 1 over the increment of the other;
  one unlock() then leaves the counter at 0, so the lock is free while one of the two is still
  out. The same calls one after the other, as a mutex makes them, leave the counter at 2 and
  the lock held after the unlock.\<close>

theorem concurrent_lock_can_be_lost:
  assumes "0 < ttl" and "l = \<lparr>counter = 0, expiration_ms = 0, ttl_ms = ttl\<rparr>"
  shows "(\<exists>m m'. tstep\<^sup>*\<^sup>* (m_init ttl) m \<and> m_locks_done m = 2 \<and> m_unlocks_done m = 0 \<and>
      (\<forall>i. m_pc m i = Idle) \<and> m_counter m = 1 \<and>
      tstep\<^sup>*\<^sup>* m m' \<and> m_locks_done m' = 2 \<and> m_unlocks_done m' = 1 \<and>
      (\<forall>i. m_pc m' i = Idle) \<and> m_counter m' = 0 \<and>
      m_now m' = m_now (m_init ttl) \<and> m_now m' < m_expiration m') \<and>
    counter (lock_times 2 (m_now (m_init ttl)) l) = 2 \<and>
    is_locked (m_now (m_init ttl)) (ttl_unlock (lock_times 2 (m_now (m_init ttl)) l))"
proof -
  obtain m where m: "tstep\<^sup>*\<^sup>* (m_init ttl) m" "m_locks_done m = 2" "m_unlocks_done m = 0"
      "\<forall>i. m_pc m i = Idle" "m_counter m = 1" "m_expiration m = ttl" "m_now m = 0"
    using two_locks_one_counted [OF assms(1)] by blast
  obtain m' where "tstep\<^sup>*\<^sup>* m m'" "m_pc m' = m_pc m" "m_counter m' = 0" "m_now m' = 0"
      "m_expiration m' = ttl" "m_locks_done m' = 2" "m_unlocks_done m' = 1"
    using unlock_alone [of m 0] m by auto
  moreover have "m_now (m_init ttl) = 0" by (simp add: m_init_def)
  moreover have "counter (lock_times 2 0 l) = 2" "is_locked 0 (ttl_unlock (lock_times 2 0 l))"
    using assms by (simp_all add: numeral_2_eq_2 ttl_lock_def ttl_unlock_def is_locked_def)
  ultimately show ?thesis using m assms(1) by fastforce
qed

lemma concurrent_lock_can_be_lost_witness:
  "(\<exists>m. tstep\<^sup>*\<^sup>* (m_init 1000) m \<and> m_locks_done m = 2 \<and> m_unlocks_done m = 0 \<and> m_counter m = 1) \<and>
   counter (lock_times 2 0 \<lparr>counter = 0, expiration_ms = 0, ttl_ms = 1000\<rparr>) = 2"
  using concurrent_lock_can_be_lost [OF _ refl, of 1000] by (auto simp: m_init_def)

end
