(* ===== verification/Eviction.thy ===== *)
theory Eviction
  imports Third_Party
begin

text \<open>
  The listeners of the L1 manager: the eviction policies of eviction.py and
  eviction_policy/lru.py and noop.py, and the StoreListener of store_controller.py. The
  OrderedDict of the LRU policy, whose values are None, is the list of its keys, oldest
  first. The locale eviction_policy is what the eviction controller relies on; both
  policies are instances. An eventfd is the number written to it.
\<close>

section \<open>LRU\<close>

datatype eviction_destination = DISCARD | L2_CACHE

record 'k eviction_action =
  act_destination :: eviction_destination
  act_keys :: "'k list"

record 'k lru =
  lru_order :: "'k list"
  lru_destinations :: "eviction_destination list"
  lru_default :: eviction_destination

definition lru_init :: "eviction_destination \<Rightarrow> 'k lru" where
  "lru_init d = \<lparr>lru_order = [], lru_destinations = [], lru_default = d\<rparr>"

definition move_to_end :: "'k \<Rightarrow> 'k list \<Rightarrow> 'k list" where
  "move_to_end k xs = remove1 k xs @ [k]"

definition lru_register_destination :: "eviction_destination \<Rightarrow> 'k lru \<Rightarrow> 'k lru" where
  "lru_register_destination d p =
     (if d \<notin> set (lru_destinations p) then p\<lparr>lru_destinations := lru_destinations p @ [d]\<rparr> else p)"

definition lru_create_step :: "'k \<Rightarrow> 'k list \<Rightarrow> 'k list" where
  "lru_create_step k xs = (if k \<in> set xs then move_to_end k xs else xs @ [k])"

definition lru_on_keys_created :: "'k list \<Rightarrow> 'k lru \<Rightarrow> 'k lru" where
  "lru_on_keys_created ks p = p\<lparr>lru_order := fold lru_create_step (rev ks) (lru_order p)\<rparr>"

definition lru_touch_step :: "'k \<Rightarrow> 'k list \<Rightarrow> 'k list" where
  "lru_touch_step k xs = (if k \<in> set xs then move_to_end k xs else xs)"

definition lru_on_keys_touched :: "'k list \<Rightarrow> 'k lru \<Rightarrow> 'k lru" where
  "lru_on_keys_touched ks p = p\<lparr>lru_order := fold lru_touch_step (rev ks) (lru_order p)\<rparr>"

definition lru_remove_step :: "'k \<Rightarrow> 'k list \<Rightarrow> 'k list" where
  "lru_remove_step k xs = (if k \<in> set xs then remove1 k xs else xs)"

definition lru_on_keys_removed :: "'k list \<Rightarrow> 'k lru \<Rightarrow> 'k lru" where
  "lru_on_keys_removed ks p = p\<lparr>lru_order := fold lru_remove_step ks (lru_order p)\<rparr>"

text \<open>
  The loop that collects keys: it appends before it compares, so it takes at least one.
\<close>

fun collect_keys :: "int \<Rightarrow> 'k list \<Rightarrow> 'k list \<Rightarrow> 'k list" where
  "collect_keys n [] acc = acc"
| "collect_keys n (k # ks) acc =
     (let acc' = acc @ [k] in if n \<le> int (length acc') then acc' else collect_keys n ks acc')"

definition lru_get_eviction_actions :: "env \<Rightarrow> real \<Rightarrow> 'k lru \<Rightarrow> 'k eviction_action list" where
  "lru_get_eviction_actions E expected_ratio p =
     (if lru_order p = [] then []
      else let ratio = max 0 (min 1 expected_ratio);
               count = float_trunc_mul E (length (lru_order p)) ratio;
               target = (if 0 < ratio \<and> count = 0 \<and> 0 < length (lru_order p) then 1 else count)
           in if target = 0 then []
              else let ks = collect_keys target (lru_order p) []
                   in if ks = [] then []
                      else [\<lparr>act_destination = (case lru_destinations p of [] \<Rightarrow> lru_default p | d # _ \<Rightarrow> d),
                             act_keys = ks\<rparr>])"

definition lru_num_tracked :: "'k lru \<Rightarrow> nat" where
  "lru_num_tracked p = length (lru_order p)"

definition lru_eviction_candidates :: "int \<Rightarrow> 'k lru \<Rightarrow> 'k list" where
  "lru_eviction_candidates n p = collect_keys n (lru_order p) []"

section \<open>Policies and listeners\<close>

text \<open>CreateEvictionPolicy chooses between the two classes; NoOp ignores every call.\<close>

datatype 'k policy = LRU "'k lru" | NoOp

definition create_eviction_policy :: "string \<Rightarrow> py_error + 'k policy" where
  "create_eviction_policy name =
     (if name = ''LRU'' then Inr (LRU (lru_init DISCARD))
      else if name = ''noop'' then Inr NoOp
      else Inl ValueError)"

fun on_keys_created :: "'k list \<Rightarrow> 'k policy \<Rightarrow> 'k policy" where
  "on_keys_created ks (LRU p) = LRU (lru_on_keys_created ks p)"
| "on_keys_created ks NoOp = NoOp"

fun on_keys_touched :: "'k list \<Rightarrow> 'k policy \<Rightarrow> 'k policy" where
  "on_keys_touched ks (LRU p) = LRU (lru_on_keys_touched ks p)"
| "on_keys_touched ks NoOp = NoOp"

fun on_keys_removed :: "'k list \<Rightarrow> 'k policy \<Rightarrow> 'k policy" where
  "on_keys_removed ks (LRU p) = LRU (lru_on_keys_removed ks p)"
| "on_keys_removed ks NoOp = NoOp"

fun get_eviction_actions :: "env \<Rightarrow> real \<Rightarrow> 'k policy \<Rightarrow> 'k eviction_action list" where
  "get_eviction_actions E r (LRU p) = lru_get_eviction_actions E r p"
| "get_eviction_actions E r NoOp = []"

record 'k store_listener =
  pending_keys :: "'k list"
  event_count :: nat

definition store_listener_new :: "'k store_listener" where
  "store_listener_new = \<lparr>pending_keys = [], event_count = 0\<rparr>"

definition pop_pending_keys :: "'k store_listener \<Rightarrow> 'k list \<times> 'k store_listener" where
  "pop_pending_keys l = (pending_keys l, l\<lparr>pending_keys := []\<rparr>)"

definition pending_count :: "'k store_listener \<Rightarrow> nat" where
  "pending_count l = length (pending_keys l)"

definition store_on_write_finished :: "'k list \<Rightarrow> 'k store_listener \<Rightarrow> 'k store_listener" where
  "store_on_write_finished ks l =
     l\<lparr>pending_keys := pending_keys l @ ks, event_count := event_count l + 1\<rparr>"

datatype 'k listener = PolicyListener "'k policy" | StoreListener "'k store_listener"

text \<open>The callbacks of L1ManagerListener, dispatched on the class of the listener.\<close>

fun on_l1_keys_reserved_read :: "'k list \<Rightarrow> 'k listener \<Rightarrow> 'k listener" where
  "on_l1_keys_reserved_read ks l = l"

fun on_l1_keys_read_finished :: "'k list \<Rightarrow> 'k listener \<Rightarrow> 'k listener" where
  "on_l1_keys_read_finished ks (PolicyListener p) = PolicyListener (on_keys_touched ks p)"
| "on_l1_keys_read_finished ks (StoreListener s) = StoreListener s"

fun on_l1_keys_reserved_write :: "'k list \<Rightarrow> 'k listener \<Rightarrow> 'k listener" where
  "on_l1_keys_reserved_write ks l = l"

fun on_l1_keys_write_finished :: "'k list \<Rightarrow> 'k listener \<Rightarrow> 'k listener" where
  "on_l1_keys_write_finished ks (PolicyListener p) = PolicyListener (on_keys_created ks p)"
| "on_l1_keys_write_finished ks (StoreListener s) = StoreListener (store_on_write_finished ks s)"

fun on_l1_keys_finish_write_and_reserve_read :: "'k list \<Rightarrow> 'k listener \<Rightarrow> 'k listener" where
  "on_l1_keys_finish_write_and_reserve_read ks (PolicyListener p) = PolicyListener (on_keys_created ks p)"
| "on_l1_keys_finish_write_and_reserve_read ks (StoreListener s) = StoreListener s"

fun on_l1_keys_deleted :: "'k list \<Rightarrow> 'k listener \<Rightarrow> 'k listener" where
  "on_l1_keys_deleted ks (PolicyListener p) = PolicyListener (on_keys_removed ks p)"
| "on_l1_keys_deleted ks (StoreListener s) = StoreListener s"

section \<open>Lemmas\<close>

lemma set_move_to_end [simp]: "k \<in> set xs \<Longrightarrow> set (move_to_end k xs) = set xs"
proof -
  assume "k \<in> set xs"
  then have "insert k (set (remove1 k xs)) = set xs"
    by (induction xs) auto
  then show ?thesis by (simp add: move_to_end_def)
qed

lemma distinct_move_to_end [simp]: "distinct xs \<Longrightarrow> distinct (move_to_end k xs)"
  by (simp add: move_to_end_def)

lemma lru_create_step_set [simp]: "set (lru_create_step k xs) = insert k (set xs)"
  by (auto simp: lru_create_step_def)

lemma lru_touch_step_set [simp]: "set (lru_touch_step k xs) = set xs"
  by (simp add: lru_touch_step_def)

lemma lru_remove_step_set [simp]: "distinct xs \<Longrightarrow> set (lru_remove_step k xs) = set xs - {k}"
  by (auto simp: lru_remove_step_def set_remove1_eq)

lemma lru_steps_distinct [simp]:
  "distinct xs \<Longrightarrow> distinct (lru_create_step k xs)"
  "distinct xs \<Longrightarrow> distinct (lru_touch_step k xs)"
  "distinct xs \<Longrightarrow> distinct (lru_remove_step k xs)"
  by (simp_all add: lru_create_step_def lru_touch_step_def lru_remove_step_def)

lemma lru_created_set: "set (fold lru_create_step ks xs) = set xs \<union> set ks"
  by (induction ks arbitrary: xs) auto

lemma lru_touched_set: "set (fold lru_touch_step ks xs) = set xs"
  by (induction ks arbitrary: xs) auto

lemma lru_removed_set: "distinct xs \<Longrightarrow> set (fold lru_remove_step ks xs) = set xs - set ks"
  by (induction ks arbitrary: xs) auto

lemma lru_folds_distinct:
  "distinct xs \<Longrightarrow> distinct (fold lru_create_step ks xs)"
  "distinct xs \<Longrightarrow> distinct (fold lru_touch_step ks xs)"
  "distinct xs \<Longrightarrow> distinct (fold lru_remove_step ks xs)"
proof -
  show "distinct xs \<Longrightarrow> distinct (fold lru_create_step ks xs)"
    by (induction ks arbitrary: xs) auto
  show "distinct xs \<Longrightarrow> distinct (fold lru_touch_step ks xs)"
    by (induction ks arbitrary: xs) auto
  show "distinct xs \<Longrightarrow> distinct (fold lru_remove_step ks xs)"
    by (induction ks arbitrary: xs) auto
qed

lemma collect_keys_take:
  "int (length acc) < n \<Longrightarrow> collect_keys n ks acc = acc @ take (nat (n - int (length acc))) ks"
proof (induction ks arbitrary: acc)
  case Nil
  then show ?case by simp
next
  case (Cons k ks)
  have s: "nat (n - int (length acc)) = Suc (nat (n - int (length acc) - 1))"
    using Cons.prems by simp
  show ?case
  proof (cases "n \<le> int (length (acc @ [k]))")
    case True
    with Cons.prems have "nat (n - int (length acc) - 1) = 0" by simp
    with True s show ?thesis by simp
  next
    case False
    with Cons.IH [of "acc @ [k]"] s show ?thesis by (simp add: Let_def algebra_simps)
  qed
qed

lemma remove1_filter_distinct:
  "distinct xs \<Longrightarrow> remove1 k (filter P xs) = filter (\<lambda>x. P x \<and> x \<noteq> k) xs"
  by (induction xs) (auto intro!: filter_cong)

lemma lru_created_order:
  assumes "distinct xs" "distinct ks"
  shows "fold lru_create_step ks xs = filter (\<lambda>x. x \<notin> set ks) xs @ ks"
  using assms(2)
proof (induction ks rule: rev_induct)
  case Nil
  then show ?case by simp
next
  case (snoc k ks)
  have "filter (\<lambda>x. x \<notin> set ks \<and> x \<noteq> k) xs = filter (\<lambda>x. x \<notin> set ks) xs" if "k \<notin> set xs"
    using that by (auto intro: filter_cong)
  then show ?case using snoc assms(1)
    by (auto simp: lru_create_step_def move_to_end_def remove1_append remove1_filter_distinct
        intro: filter_cong)
qed

lemma lru_touched_order:
  assumes "distinct xs" "distinct ks"
  shows "fold lru_touch_step ks xs = filter (\<lambda>x. x \<notin> set ks) xs @ filter (\<lambda>k. k \<in> set xs) ks"
  using assms(2)
proof (induction ks rule: rev_induct)
  case Nil
  then show ?case by simp
next
  case (snoc k ks)
  have "filter (\<lambda>x. x \<notin> set ks \<and> x \<noteq> k) xs = filter (\<lambda>x. x \<notin> set ks) xs" if "k \<notin> set xs"
    using that by (auto intro: filter_cong)
  then show ?case using snoc assms(1)
    by (auto simp: lru_touch_step_def move_to_end_def remove1_append remove1_filter_distinct
        intro: filter_cong)
qed

lemma collect_keys_prefix:
  assumes "ks \<noteq> []"
  shows "collect_keys n ks [] = take (max 1 (nat n)) ks"
proof (cases "0 < n")
  case True
  then have "max 1 (nat n) = nat n" by auto
  then show ?thesis using True collect_keys_take [of "[]" n ks] by simp
next
  case False
  then show ?thesis using assms by (cases ks) (simp_all add: Let_def)
qed

section \<open>The interface of an eviction policy\<close>

text \<open>
  tracked is the set of keys a policy may propose. A policy never proposes a key that was
  not created, or that was removed since.
\<close>

locale eviction_policy =
  fixes tracked :: "'p \<Rightarrow> 'k set"
    and pol_inv :: "'p \<Rightarrow> bool"
    and created :: "'k list \<Rightarrow> 'p \<Rightarrow> 'p"
    and touched :: "'k list \<Rightarrow> 'p \<Rightarrow> 'p"
    and removed :: "'k list \<Rightarrow> 'p \<Rightarrow> 'p"
    and actions :: "env \<Rightarrow> real \<Rightarrow> 'p \<Rightarrow> 'k eviction_action list"
  assumes created_tracked: "pol_inv p \<Longrightarrow> tracked (created ks p) \<subseteq> tracked p \<union> set ks"
    and touched_tracked: "pol_inv p \<Longrightarrow> tracked (touched ks p) \<subseteq> tracked p"
    and removed_tracked: "pol_inv p \<Longrightarrow> tracked (removed ks p) \<subseteq> tracked p - set ks"
    and pol_inv_created: "pol_inv p \<Longrightarrow> pol_inv (created ks p)"
    and pol_inv_touched: "pol_inv p \<Longrightarrow> pol_inv (touched ks p)"
    and pol_inv_removed: "pol_inv p \<Longrightarrow> pol_inv (removed ks p)"
    and actions_tracked: "pol_inv p \<Longrightarrow> a \<in> set (actions E r p) \<Longrightarrow> set (act_keys a) \<subseteq> tracked p"
begin

definition confined :: "'k set \<Rightarrow> 'p \<Rightarrow> bool" where
  "confined K p \<longleftrightarrow> pol_inv p \<and> tracked p \<subseteq> K"

lemma confined_created: "confined K p \<Longrightarrow> set ks \<subseteq> K \<Longrightarrow> confined K (created ks p)"
  using created_tracked pol_inv_created by (fastforce simp: confined_def)

lemma confined_touched: "confined K p \<Longrightarrow> confined K (touched ks p)"
  using touched_tracked pol_inv_touched by (fastforce simp: confined_def)

lemma confined_removed: "confined K p \<Longrightarrow> confined (K - set ks) (removed ks p)"
  using removed_tracked pol_inv_removed by (fastforce simp: confined_def)

lemma confined_mono: "confined K p \<Longrightarrow> K \<subseteq> L \<Longrightarrow> confined L p"
  by (auto simp: confined_def)

lemma confined_actions: "confined K p \<Longrightarrow> a \<in> set (actions E r p) \<Longrightarrow> set (act_keys a) \<subseteq> K"
  using actions_tracked by (fastforce simp: confined_def)

end

fun policy_tracked :: "'k policy \<Rightarrow> 'k set" where
  "policy_tracked (LRU p) = set (lru_order p)"
| "policy_tracked NoOp = {}"

fun policy_inv :: "'k policy \<Rightarrow> bool" where
  "policy_inv (LRU p) = distinct (lru_order p)"
| "policy_inv NoOp = True"

lemma collect_keys_subset: "set (collect_keys n ks acc) \<subseteq> set acc \<union> set ks"
proof (induction ks arbitrary: acc)
  case (Cons k ks)
  from Cons.IH [of "acc @ [k]"] show ?case by (auto simp: Let_def)
qed simp

lemma lru_actions_cases:
  "lru_get_eviction_actions E r p = [] \<or>
   (\<exists>d n. lru_get_eviction_actions E r p = [\<lparr>act_destination = d, act_keys = collect_keys n (lru_order p) []\<rparr>])"
  by (auto simp: lru_get_eviction_actions_def Let_def)

interpretation lru: eviction_policy "\<lambda>p. set (lru_order p)" "\<lambda>p. distinct (lru_order p)"
  lru_on_keys_created lru_on_keys_touched lru_on_keys_removed lru_get_eviction_actions
proof
  fix p :: "'a lru" and ks :: "'a list" and a :: "'a eviction_action" and E r
  assume d: "distinct (lru_order p)"
  show "set (lru_order (lru_on_keys_created ks p)) \<subseteq> set (lru_order p) \<union> set ks"
    by (simp add: lru_on_keys_created_def lru_created_set)
  show "set (lru_order (lru_on_keys_touched ks p)) \<subseteq> set (lru_order p)"
    by (simp add: lru_on_keys_touched_def lru_touched_set)
  show "set (lru_order (lru_on_keys_removed ks p)) \<subseteq> set (lru_order p) - set ks"
    by (simp add: lru_on_keys_removed_def lru_removed_set d)
  show "distinct (lru_order (lru_on_keys_created ks p))" "distinct (lru_order (lru_on_keys_touched ks p))"
    "distinct (lru_order (lru_on_keys_removed ks p))"
    using d by (simp_all add: lru_on_keys_created_def lru_on_keys_touched_def
        lru_on_keys_removed_def lru_folds_distinct)
  assume "a \<in> set (lru_get_eviction_actions E r p)"
  then show "set (act_keys a) \<subseteq> set (lru_order p)"
    using lru_actions_cases [of E r p] collect_keys_subset
    by (metis (no_types, lifting) Un_empty_left empty_set eviction_action.select_convs(2)
        list.distinct(1) list.set_cases set_ConsD)
qed

interpretation policy: eviction_policy policy_tracked policy_inv
  on_keys_created on_keys_touched on_keys_removed get_eviction_actions
proof
  fix p :: "'a policy" and ks :: "'a list" and a :: "'a eviction_action" and E r
  assume i: "policy_inv p"
  show "policy_tracked (on_keys_created ks p) \<subseteq> policy_tracked p \<union> set ks"
    using i lru.created_tracked by (cases p) auto
  show "policy_tracked (on_keys_touched ks p) \<subseteq> policy_tracked p"
    using i lru.touched_tracked by (cases p) auto
  show "policy_tracked (on_keys_removed ks p) \<subseteq> policy_tracked p - set ks"
    using i lru.removed_tracked by (cases p) auto
  show "policy_inv (on_keys_created ks p)" "policy_inv (on_keys_touched ks p)"
    "policy_inv (on_keys_removed ks p)"
    using i by (cases p; simp add: lru.pol_inv_created lru.pol_inv_touched lru.pol_inv_removed)+
  assume "a \<in> set (get_eviction_actions E r p)"
  then show "set (act_keys a) \<subseteq> policy_tracked p"
  proof (cases p)
    case (LRU q)
    with i lru.actions_tracked [of q a E r] \<open>a \<in> set (get_eviction_actions E r p)\<close>
    show ?thesis by simp
  qed (use \<open>a \<in> set (get_eviction_actions E r p)\<close> in simp)
qed

lemma lru_removed_order: "distinct xs \<Longrightarrow> fold lru_remove_step ks xs = filter (\<lambda>x. x \<notin> set ks) xs"
proof (induction ks arbitrary: xs)
  case (Cons k ks)
  have "lru_remove_step k xs = filter (\<lambda>x. x \<noteq> k) xs"
    using Cons.prems remove1_filter_distinct [of xs k "\<lambda>x. True"]
    by (auto simp: lru_remove_step_def intro!: filter_True [symmetric])
  then show ?case using Cons by (auto intro: filter_cong)
qed simp

section \<open>Properties\<close>

text \<open>LRU order. From any distinct order, on_keys_created with distinct keys puts them at
  the recent end in reverse, so that the later keys of a request go first, and keeps the
  relative order of the others; on_keys_touched does the same with the keys it tracks and
  adds none; on_keys_removed drops exactly the given keys.\<close>

theorem lru_order_after_events:
  assumes "distinct (lru_order p)" "distinct ks"
  shows "lru_order (lru_on_keys_created ks p) = filter (\<lambda>x. x \<notin> set ks) (lru_order p) @ rev ks \<and>
    lru_order (lru_on_keys_touched ks p) =
      filter (\<lambda>x. x \<notin> set ks) (lru_order p) @ rev (filter (\<lambda>k. k \<in> set (lru_order p)) ks) \<and>
    lru_order (lru_on_keys_removed ks p) = filter (\<lambda>x. x \<notin> set ks) (lru_order p)"
proof -
  show ?thesis
    using lru_created_order [of "lru_order p" "rev ks"] lru_touched_order [of "lru_order p" "rev ks"] assms
    by (simp add: lru_on_keys_created_def lru_on_keys_touched_def lru_on_keys_removed_def lru_removed_order rev_filter)
qed

lemma lru_order_after_events_witness:
  "lru_order (lru_on_keys_created [1, 2, 3::nat] \<lparr>lru_order = [4, 2], lru_destinations = [], lru_default = DISCARD\<rparr>)
     = [4, 3, 2, 1]"
  using lru_order_after_events [of "\<lparr>lru_order = [4, 2], lru_destinations = [], lru_default = DISCARD\<rparr>"
      "[1, 2, 3::nat]"] by simp

text \<open>An eviction by ratio takes the least recently used keys: nothing when nothing is
  tracked or the ratio is not positive, and otherwise one action whose keys are the first
  max(1, int(count * ratio)) of the LRU order, the ratio clamped to 1; these are never
  more than are tracked.\<close>

theorem lru_evicts_oldest_first:
  assumes "float_ok E"
  shows "lru_get_eviction_actions E r p =
    (if lru_order p = [] \<or> r \<le> 0 then []
     else [\<lparr>act_destination = (case lru_destinations p of [] \<Rightarrow> lru_default p | d # _ \<Rightarrow> d),
            act_keys = take (max 1 (nat (float_trunc_mul E (length (lru_order p)) (min 1 r))))
              (lru_order p)\<rparr>])"
proof (cases "lru_order p = [] \<or> r \<le> 0")
  case True
  then show ?thesis using assms by (auto simp: lru_get_eviction_actions_def Let_def float_ok_def)
next
  case False
  let ?n = "float_trunc_mul E (length (lru_order p)) (min 1 r)"
  have r: "max 0 (min 1 r) = min 1 r" "0 < min 1 r" using False by auto
  have "0 \<le> ?n" using assms r(2) by (simp add: float_ok_def)
  moreover have "collect_keys n (lru_order p) [] \<noteq> []" for n
    using False by (simp add: collect_keys_prefix)
  moreover have "take (max 1 (nat 1)) (lru_order p) = take (max 1 (nat 0)) (lru_order p)" by simp
  ultimately show ?thesis using False r
    by (auto simp: lru_get_eviction_actions_def Let_def collect_keys_prefix)
qed

lemma lru_evicts_oldest_first_witness:
  "lru_get_eviction_actions reference_env (1 / 2)
     \<lparr>lru_order = [4, 3, 2, 1::int], lru_destinations = [], lru_default = DISCARD\<rparr>
   = [\<lparr>act_destination = DISCARD, act_keys = [4, 3]\<rparr>]"
proof -
  have "float_ok reference_env" using reference_env_ok by (simp add: env_ok_def)
  moreover have "float_trunc_mul reference_env (Suc (Suc (Suc (Suc 0)))) (1 / 2) = 2"
    by (simp add: reference_env_def)
  ultimately show ?thesis by (simp add: lru_evicts_oldest_first)
qed

end
