(* ===== verification/L1_Manager.thy ===== *)
theory L1_Manager
  imports L1_Memory Ttl_Lock Eviction
begin

text \<open>
  L1Manager of lmcache/v1/distributed/l1_manager.py: the dictionary of objects with their
  write and read locks, the memory manager, the registered listeners and the log of the
  events published. Every method runs under the manager's mutex, so a method is one
  function of the state; now is the clock reading of the call. The body of a loop over
  keys is a step function, run by fold; its state is what the loop assigns. Keys are
  opaque to the manager. A MemoryObj that becomes garbage is not reclaimed here (the
  destructor of TensorMemoryObj would free it).
\<close>

section \<open>State\<close>

record l1_object_state =
  memory_obj :: nat
  write_lock :: ttl
  read_lock :: ttl
  is_temporary :: bool

definition available_for_read :: "int \<Rightarrow> l1_object_state \<Rightarrow> bool" where
  "available_for_read now e \<longleftrightarrow> \<not> is_locked now (write_lock e)"

definition available_for_write :: "int \<Rightarrow> l1_object_state \<Rightarrow> bool" where
  "available_for_write now e \<longleftrightarrow>
     \<not> is_locked now (write_lock e) \<and> \<not> is_locked now (read_lock e) \<and> \<not> is_temporary e"

datatype event_type =
    L1_READ_RESERVED
  | L1_READ_FINISHED
  | L1_WRITE_RESERVED
  | L1_WRITE_FINISHED
  | L1_WRITE_FINISHED_AND_READ_RESERVED
  | L1_KEYS_EVICTED

record 'k l1 =
  objects :: "('k, l1_object_state) dict"
  memory_manager :: l1_mm
  write_ttl_seconds :: int
  read_ttl_seconds :: int
  listeners :: "'k listener list"
  event_bus :: "(event_type \<times> 'k list) list"

definition MAX_READ_LOCK_COUNT :: int where
  "MAX_READ_LOCK_COUNT = 128"

definition validate_extra_count :: "int \<Rightarrow> int" where
  "validate_extra_count extra_count =
     (if extra_count < 0 then 0
      else let upper = MAX_READ_LOCK_COUNT - 1
           in if upper < extra_count then upper else extra_count)"

definition l1_init :: "l1_mm \<Rightarrow> int \<Rightarrow> int \<Rightarrow> 'k l1" where
  "l1_init mm wttl rttl = \<lparr>objects = [], memory_manager = mm, write_ttl_seconds = wttl,
     read_ttl_seconds = rttl, listeners = [], event_bus = []\<rparr>"

definition register_listener :: "'k listener \<Rightarrow> 'k l1 \<Rightarrow> 'k l1" where
  "register_listener l st = st\<lparr>listeners := listeners st @ [l]\<rparr>"

definition notify :: "('k listener \<Rightarrow> 'k listener) \<Rightarrow> 'k l1 \<Rightarrow> 'k l1" where
  "notify f st = st\<lparr>listeners := map f (listeners st)\<rparr>"

definition publish :: "event_type \<Rightarrow> 'k list \<Rightarrow> 'k l1 \<Rightarrow> 'k l1" where
  "publish ev ks st = st\<lparr>event_bus := event_bus st @ [(ev, ks)]\<rparr>"

type_synonym l1_result = "l1_error \<times> nat option"

section \<open>Reading\<close>

definition reserve_read_step :: "int \<Rightarrow> nat \<Rightarrow> 'k
    \<Rightarrow> ('k, l1_object_state) dict \<times> ('k, l1_result) dict \<times> 'k list
    \<Rightarrow> ('k, l1_object_state) dict \<times> ('k, l1_result) dict \<times> 'k list" where
  "reserve_read_step now n_total key = (\<lambda>(objects1, ret, successful_keys).
     case map_of objects1 key of
       None \<Rightarrow> (objects1, dict_set key (KEY_NOT_EXIST, None) ret, successful_keys)
     | Some e \<Rightarrow>
         if \<not> available_for_read now e
         then (objects1, dict_set key (KEY_NOT_READABLE, None) ret, successful_keys)
         else (dict_set key (e\<lparr>read_lock := lock_times n_total now (read_lock e)\<rparr>) objects1,
               dict_set key (SUCCESS, Some (memory_obj e)) ret, successful_keys @ [key]))"

definition reserve_read :: "int \<Rightarrow> 'k list \<Rightarrow> int \<Rightarrow> 'k l1 \<Rightarrow> ('k, l1_result) dict \<times> 'k l1" where
  "reserve_read now keys extra_count st =
     (let n_total = nat (1 + validate_extra_count extra_count)
      in case fold (reserve_read_step now n_total) keys (objects st, [], []) of
           (objects1, ret, successful_keys) \<Rightarrow>
             (ret, publish L1_READ_RESERVED successful_keys
                (notify (on_l1_keys_reserved_read successful_keys) (st\<lparr>objects := objects1\<rparr>))))"

definition unsafe_read_step :: "int \<Rightarrow> ('k, l1_object_state) dict \<Rightarrow> 'k
    \<Rightarrow> ('k, l1_result) dict \<Rightarrow> ('k, l1_result) dict" where
  "unsafe_read_step now objects1 key ret =
     (case map_of objects1 key of
        None \<Rightarrow> dict_set key (KEY_NOT_EXIST, None) ret
      | Some e \<Rightarrow>
          if \<not> is_locked now (read_lock e) then dict_set key (KEY_NOT_READABLE, None) ret
          else dict_set key (SUCCESS, Some (memory_obj e)) ret)"

definition unsafe_read :: "int \<Rightarrow> 'k list \<Rightarrow> 'k l1 \<Rightarrow> ('k, l1_result) dict" where
  "unsafe_read now keys st = fold (unsafe_read_step now (objects st)) keys []"

record 'k finish_read_loop =
  fr_objs :: "('k, l1_object_state) dict"
  fr_ret :: "('k, l1_error) dict"
  fr_successful :: "'k list"
  fr_free :: "nat list"
  fr_free_keys :: "'k list"

definition finish_read_step :: "int \<Rightarrow> nat \<Rightarrow> 'k \<Rightarrow> 'k finish_read_loop \<Rightarrow> 'k finish_read_loop" where
  "finish_read_step now n_total key s =
     (case map_of (fr_objs s) key of
        None \<Rightarrow> s\<lparr>fr_ret := dict_set key KEY_NOT_EXIST (fr_ret s)\<rparr>
      | Some e \<Rightarrow>
          if is_locked now (write_lock e) then s\<lparr>fr_ret := dict_set key KEY_IN_WRONG_STATE (fr_ret s)\<rparr>
          else if \<not> is_locked now (read_lock e)
          then s\<lparr>fr_ret := dict_set key KEY_IN_WRONG_STATE (fr_ret s)\<rparr>
          else let e' = e\<lparr>read_lock := unlock_times n_total (read_lock e)\<rparr>;
                   s1 = (if is_temporary e' \<and> \<not> is_locked now (read_lock e')
                         then s\<lparr>fr_objs := dict_del key (fr_objs s),
                                fr_free := fr_free s @ [memory_obj e'],
                                fr_free_keys := fr_free_keys s @ [key]\<rparr>
                         else s\<lparr>fr_objs := dict_set key e' (fr_objs s)\<rparr>)
               in s1\<lparr>fr_ret := dict_set key SUCCESS (fr_ret s1),
                     fr_successful := fr_successful s1 @ [key]\<rparr>)"

definition finish_read :: "env \<Rightarrow> int \<Rightarrow> 'k list \<Rightarrow> int \<Rightarrow> 'k l1
    \<Rightarrow> (('k, l1_error) dict, 'k l1) outcome" where
  "finish_read E now keys extra_count st =
     (let n_total = nat (1 + validate_extra_count extra_count);
          s = fold (finish_read_step now n_total) keys
                \<lparr>fr_objs = objects st, fr_ret = [], fr_successful = [], fr_free = [], fr_free_keys = []\<rparr>
      in case mm_free E (fr_free s) (memory_manager st) of
           (Inl e, mm) \<Rightarrow> (Inl e, st\<lparr>objects := fr_objs s, memory_manager := mm\<rparr>)
         | (Inr _, mm) \<Rightarrow>
             (Inr (fr_ret s),
              publish L1_KEYS_EVICTED (fr_free_keys s)
                (publish L1_READ_FINISHED (fr_successful s)
                  (notify (\<lambda>l. on_l1_keys_deleted (fr_free_keys s)
                                 (on_l1_keys_read_finished (fr_successful s) l))
                    (st\<lparr>objects := fr_objs s, memory_manager := mm\<rparr>)))))"

section \<open>Writing\<close>

datatype write_mode = ModeNew | ModeUpdate | ModeAll

record 'k reserve_write_loop =
  rw_objs :: "('k, l1_object_state) dict"
  rw_need :: "('k \<times> bool) list"
  rw_ret :: "('k, l1_result) dict"
  rw_successful :: "'k list"

definition reserve_write_step :: "int \<Rightarrow> write_mode \<Rightarrow> 'k \<times> bool \<Rightarrow> 'k reserve_write_loop
    \<Rightarrow> 'k reserve_write_loop" where
  "reserve_write_step now mode kt s =
     (let key = fst kt
      in case map_of (rw_objs s) key of
           None \<Rightarrow> s\<lparr>rw_need := rw_need s @ [kt]\<rparr>
         | Some e \<Rightarrow>
             if mode = ModeNew then s\<lparr>rw_ret := dict_set key (KEY_NOT_WRITABLE, None) (rw_ret s)\<rparr>
             else if \<not> available_for_write now e
             then s\<lparr>rw_ret := dict_set key (KEY_NOT_WRITABLE, None) (rw_ret s)\<rparr>
             else s\<lparr>rw_objs := dict_set key (e\<lparr>write_lock := ttl_lock now (write_lock e)\<rparr>) (rw_objs s),
                    rw_ret := dict_set key (SUCCESS, Some (memory_obj e)) (rw_ret s),
                    rw_successful := rw_successful s @ [key]\<rparr>)"

definition mark_all :: "l1_error \<Rightarrow> ('k \<times> bool) list \<Rightarrow> ('k, l1_result) dict \<Rightarrow> ('k, l1_result) dict" where
  "mark_all err need ret = fold (\<lambda>kt. dict_set (fst kt) (err, None)) need ret"

definition insert_new_step :: "int \<Rightarrow> int \<Rightarrow> int \<Rightarrow> ('k \<times> bool) \<times> nat \<Rightarrow> 'k reserve_write_loop
    \<Rightarrow> 'k reserve_write_loop" where
  "insert_new_step now wttl rttl x s =
     (case x of ((key, is_temp), mem_obj) \<Rightarrow>
        s\<lparr>rw_objs := dict_set key
              \<lparr>memory_obj = mem_obj, write_lock = ttl_lock now (ttl_new wttl), read_lock = ttl_new rttl,
               is_temporary = is_temp\<rparr> (rw_objs s),
          rw_ret := dict_set key (SUCCESS, Some mem_obj) (rw_ret s),
          rw_successful := rw_successful s @ [key]\<rparr>)"

definition reserve_write :: "env \<Rightarrow> int \<Rightarrow> 'k list \<Rightarrow> bool list \<Rightarrow> memory_layout_desc \<Rightarrow> write_mode
    \<Rightarrow> 'k l1 \<Rightarrow> (('k, l1_result) dict, 'k l1) outcome" where
  "reserve_write E now keys is_temp layout mode st =
     (let s = fold (reserve_write_step now mode) (zip keys is_temp)
                \<lparr>rw_objs = objects st, rw_need = [], rw_ret = [], rw_successful = []\<rparr>;
          st1 = st\<lparr>objects := rw_objs s\<rparr>
      in if length (rw_need s) = 0 then (Inr (rw_ret s), st1)
         else if mode = ModeUpdate then (Inr (mark_all KEY_NOT_WRITABLE (rw_need s) (rw_ret s)), st1)
         else case mm_allocate E layout (length (rw_need s)) (memory_manager st) of
           (Inl e, mm) \<Rightarrow> (Inl e, st1\<lparr>memory_manager := mm\<rparr>)
         | (Inr (err, allocated), mm) \<Rightarrow>
             let finish = (\<lambda>s' mm'. (Inr (rw_ret s'),
                   publish L1_WRITE_RESERVED (rw_successful s')
                     (notify (on_l1_keys_reserved_write (rw_successful s'))
                       (st\<lparr>objects := rw_objs s', memory_manager := mm'\<rparr>))))
             in if err \<noteq> SUCCESS then
                  let s' = s\<lparr>rw_ret := mark_all OUT_OF_MEMORY (rw_need s) (rw_ret s)\<rparr>
                  in if allocated \<noteq> [] then
                       (case mm_free E allocated mm of
                          (Inl e, mm') \<Rightarrow> (Inl e, st1\<lparr>memory_manager := mm'\<rparr>)
                        | (Inr _, mm') \<Rightarrow> finish s' mm')
                     else finish s' mm
                else finish (fold (insert_new_step now (write_ttl_seconds st) (read_ttl_seconds st))
                               (zip (rw_need s) allocated) s) mm)"

definition finish_write_step :: "int \<Rightarrow> 'k
    \<Rightarrow> ('k, l1_object_state) dict \<times> ('k, l1_error) dict \<times> 'k list
    \<Rightarrow> ('k, l1_object_state) dict \<times> ('k, l1_error) dict \<times> 'k list" where
  "finish_write_step now key = (\<lambda>(objects1, ret, successful_keys).
     case map_of objects1 key of
       None \<Rightarrow> (objects1, dict_set key KEY_NOT_EXIST ret, successful_keys)
     | Some e \<Rightarrow>
         if \<not> is_locked now (write_lock e) then (objects1, dict_set key KEY_IN_WRONG_STATE ret, successful_keys)
         else if is_locked now (read_lock e) then (objects1, dict_set key KEY_IN_WRONG_STATE ret, successful_keys)
         else (dict_set key (e\<lparr>write_lock := ttl_unlock (write_lock e)\<rparr>) objects1,
               dict_set key SUCCESS ret, successful_keys @ [key]))"

definition finish_write :: "int \<Rightarrow> 'k list \<Rightarrow> 'k l1 \<Rightarrow> ('k, l1_error) dict \<times> 'k l1" where
  "finish_write now keys st =
     (case fold (finish_write_step now) keys (objects st, [], []) of
        (objects1, ret, successful_keys) \<Rightarrow>
          (ret, publish L1_WRITE_FINISHED successful_keys
             (notify (on_l1_keys_write_finished successful_keys) (st\<lparr>objects := objects1\<rparr>))))"

definition finish_write_and_reserve_read_step :: "int \<Rightarrow> nat \<Rightarrow> 'k
    \<Rightarrow> ('k, l1_object_state) dict \<times> ('k, l1_result) dict \<times> 'k list
    \<Rightarrow> ('k, l1_object_state) dict \<times> ('k, l1_result) dict \<times> 'k list" where
  "finish_write_and_reserve_read_step now n_total key = (\<lambda>(objects1, ret, successful_keys).
     case map_of objects1 key of
       None \<Rightarrow> (objects1, dict_set key (KEY_NOT_EXIST, None) ret, successful_keys)
     | Some e \<Rightarrow>
         if \<not> is_locked now (write_lock e)
         then (objects1, dict_set key (KEY_IN_WRONG_STATE, None) ret, successful_keys)
         else if is_locked now (read_lock e)
         then (objects1, dict_set key (KEY_IN_WRONG_STATE, None) ret, successful_keys)
         else (dict_set key (e\<lparr>write_lock := ttl_unlock (write_lock e),
                              read_lock := lock_times n_total now (read_lock e)\<rparr>) objects1,
               dict_set key (SUCCESS, Some (memory_obj e)) ret, successful_keys @ [key]))"

definition finish_write_and_reserve_read :: "int \<Rightarrow> 'k list \<Rightarrow> int \<Rightarrow> 'k l1
    \<Rightarrow> ('k, l1_result) dict \<times> 'k l1" where
  "finish_write_and_reserve_read now keys extra_count st =
     (let n_total = nat (1 + validate_extra_count extra_count)
      in case fold (finish_write_and_reserve_read_step now n_total) keys (objects st, [], []) of
           (objects1, ret, successful_keys) \<Rightarrow>
             (ret, publish L1_WRITE_FINISHED_AND_READ_RESERVED successful_keys
                (notify (on_l1_keys_finish_write_and_reserve_read successful_keys)
                  (st\<lparr>objects := objects1\<rparr>))))"

section \<open>Deleting\<close>

record 'k delete_loop =
  dl_objs :: "('k, l1_object_state) dict"
  dl_ret :: "('k, l1_error) dict"
  dl_successful :: "'k list"
  dl_free :: "nat list"

definition delete_step :: "int \<Rightarrow> 'k \<Rightarrow> 'k delete_loop \<Rightarrow> 'k delete_loop" where
  "delete_step now key s =
     (case map_of (dl_objs s) key of
        None \<Rightarrow> s\<lparr>dl_ret := dict_set key KEY_NOT_EXIST (dl_ret s)\<rparr>
      | Some e \<Rightarrow>
          if is_locked now (read_lock e) \<or> is_locked now (write_lock e)
          then s\<lparr>dl_ret := dict_set key KEY_IS_LOCKED (dl_ret s)\<rparr>
          else s\<lparr>dl_objs := dict_del key (dl_objs s), dl_free := dl_free s @ [memory_obj e],
                 dl_ret := dict_set key SUCCESS (dl_ret s), dl_successful := dl_successful s @ [key]\<rparr>)"

definition l1_delete :: "env \<Rightarrow> int \<Rightarrow> 'k list \<Rightarrow> 'k l1 \<Rightarrow> (('k, l1_error) dict, 'k l1) outcome" where
  "l1_delete E now keys st =
     (let s = fold (delete_step now) keys
                \<lparr>dl_objs = objects st, dl_ret = [], dl_successful = [], dl_free = []\<rparr>
      in case mm_free E (dl_free s) (memory_manager st) of
           (Inl e, mm) \<Rightarrow> (Inl e, st\<lparr>objects := dl_objs s, memory_manager := mm\<rparr>)
         | (Inr _, mm) \<Rightarrow>
             (Inr (dl_ret s),
              publish L1_KEYS_EVICTED (dl_successful s)
                (notify (on_l1_keys_deleted (dl_successful s))
                  (st\<lparr>objects := dl_objs s, memory_manager := mm\<rparr>))))"

definition entry_locked :: "int \<Rightarrow> l1_object_state \<Rightarrow> bool" where
  "entry_locked now e \<longleftrightarrow> is_locked now (write_lock e) \<or> is_locked now (read_lock e)"

definition l1_clear :: "env \<Rightarrow> int \<Rightarrow> bool \<Rightarrow> 'k l1 \<Rightarrow> (unit, 'k l1) outcome" where
  "l1_clear E now force st =
     (if force then
        let all_keys = dict_keys (objects st);
            all_memory_objs = map memory_obj (dict_values (objects st))
        in case mm_free E all_memory_objs (memory_manager st) of
             (Inl e, mm) \<Rightarrow> (Inl e, st\<lparr>memory_manager := mm\<rparr>)
           | (Inr _, mm) \<Rightarrow>
               (Inr (), publish L1_KEYS_EVICTED all_keys
                  (notify (on_l1_keys_deleted all_keys) (st\<lparr>objects := [], memory_manager := mm\<rparr>)))
      else
        let unlocked = filter (\<lambda>(k, e). \<not> entry_locked now e) (objects st);
            keys_to_clear = map fst unlocked;
            objs_to_free = map (\<lambda>(k, e). memory_obj e) unlocked;
            objects1 = fold dict_del keys_to_clear (objects st)
        in case mm_free E objs_to_free (memory_manager st) of
             (Inl e, mm) \<Rightarrow> (Inl e, st\<lparr>objects := objects1, memory_manager := mm\<rparr>)
           | (Inr _, mm) \<Rightarrow>
               let st1 = st\<lparr>objects := objects1, memory_manager := mm\<rparr>
               in (Inr (), if keys_to_clear \<noteq> []
                           then publish L1_KEYS_EVICTED keys_to_clear
                                  (notify (on_l1_keys_deleted keys_to_clear) st1)
                           else st1))"

definition l1_close :: "env \<Rightarrow> 'k l1 \<Rightarrow> (unit, 'k l1) outcome" where
  "l1_close E st =
     (case mm_free E (map memory_obj (dict_values (objects st))) (memory_manager st) of
        (Inl e, mm) \<Rightarrow> (Inl e, st\<lparr>memory_manager := mm\<rparr>)
      | (Inr _, mm) \<Rightarrow> (Inr (), st\<lparr>objects := [], memory_manager := mm\<rparr>))"

section \<open>Reports\<close>

definition l1_get_memory_usage :: "'k l1 \<Rightarrow> int \<times> int" where
  "l1_get_memory_usage st = mm_get_memory_usage (memory_manager st)"

definition get_object_state :: "'k \<Rightarrow> 'k l1 \<Rightarrow> l1_object_state option" where
  "get_object_state key st = map_of (objects st) key"

record l1_status =
  st_is_healthy :: bool
  st_total_object_count :: nat
  st_write_locked_count :: nat
  st_read_locked_count :: nat
  st_temporary_count :: nat
  st_memory_used_bytes :: int
  st_memory_total_bytes :: int
  st_write_ttl_seconds :: int
  st_read_ttl_seconds :: int

text \<open>memory_usage_ratio, the quotient of two of the fields, is left to the reader.\<close>

definition report_status :: "int \<Rightarrow> 'k l1 \<Rightarrow> l1_status" where
  "report_status now st =
     (let es = dict_values (objects st); usage = mm_get_memory_usage (memory_manager st)
      in \<lparr>st_is_healthy = mm_memcheck (memory_manager st),
          st_total_object_count = length (objects st),
          st_write_locked_count = length (filter (\<lambda>e. is_locked now (write_lock e)) es),
          st_read_locked_count = length (filter (\<lambda>e. is_locked now (read_lock e)) es),
          st_temporary_count = length (filter is_temporary es),
          st_memory_used_bytes = fst usage,
          st_memory_total_bytes = snd usage,
          st_write_ttl_seconds = write_ttl_seconds st,
          st_read_ttl_seconds = read_ttl_seconds st\<rparr>)"

definition l1_memcheck :: "'k l1 \<Rightarrow> bool" where
  "l1_memcheck st = mm_memcheck (memory_manager st)"

end
