(* ===== verification/L1_State.thy ===== *)
theory L1_State
  imports L1_Manager
begin

text \<open>
  The L1 manager's invariant. The loops of the manager's methods are instances of one
  scheme, in which a key's turn changes that key's entry by a function of the entry; the
  lemmas about the scheme give each method its effect on the table and the preservation
  of the invariant.
\<close>

section \<open>A loop over keys\<close>

definition entry_upd :: "('e \<Rightarrow> 'e option) \<Rightarrow> 'k \<Rightarrow> ('k, 'e) dict \<Rightarrow> ('k, 'e) dict" where
  "entry_upd f key d =
     (case map_of d key of
        None \<Rightarrow> d
      | Some e \<Rightarrow> (case f e of None \<Rightarrow> dict_del key d | Some e' \<Rightarrow> dict_set key e' d))"

text \<open>
  The state of the scheme: the table, the results, the successful keys, the memory objects
  to free and the keys deleted.
\<close>

type_synonym ('k, 'r) key_loop =
  "('k, l1_object_state) dict \<times> ('k, 'r) dict \<times> 'k list \<times> nat list \<times> 'k list"

definition removed_obj :: "(l1_object_state \<Rightarrow> l1_object_state option) \<Rightarrow> l1_object_state option \<Rightarrow> nat option" where
  "removed_obj f x = (case x of None \<Rightarrow> None | Some e \<Rightarrow> if f e = None then Some (memory_obj e) else None)"

definition key_step :: "(l1_object_state \<Rightarrow> l1_object_state option)
    \<Rightarrow> (l1_object_state option \<Rightarrow> 'r option) \<Rightarrow> (l1_object_state option \<Rightarrow> bool)
    \<Rightarrow> 'k \<Rightarrow> ('k, 'r) key_loop \<Rightarrow> ('k, 'r) key_loop" where
  "key_step f res good key = (\<lambda>(d, ret, ok, free, gone).
     let x = map_of d key
     in (entry_upd f key d,
         (case res x of None \<Rightarrow> ret | Some r \<Rightarrow> dict_set key r ret),
         (if good x then ok @ [key] else ok),
         (case removed_obj f x of None \<Rightarrow> free | Some r \<Rightarrow> free @ [r]),
         (case removed_obj f x of None \<Rightarrow> gone | Some r \<Rightarrow> gone @ [key])))"

lemma map_of_entry_upd:
  "map_of (entry_upd f key d) q = (if q = key then Option.bind (map_of d key) f else map_of d q)"
  by (simp add: entry_upd_def dict_simps split: option.splits)

lemma entry_upd_same: "map_of d key = Some e \<Longrightarrow> f e = Some e \<Longrightarrow> entry_upd f key d = d"
  by (simp add: entry_upd_def AList.update_triv)

lemma distinct_entry_upd [simp]: "distinct (dict_keys d) \<Longrightarrow> distinct (dict_keys (entry_upd f key d))"
  by (auto simp: entry_upd_def split: option.splits)

lemma distinct_fold_entry_upd: "distinct (dict_keys d) \<Longrightarrow> distinct (dict_keys (fold (entry_upd f) ks d))"
  by (induction ks arbitrary: d) auto

lemma map_of_fold_entry_upd:
  assumes "distinct ks"
  shows "map_of (fold (entry_upd f) ks d) q =
    (if q \<in> set ks then Option.bind (map_of d q) f else map_of d q)"
  using assms by (induction ks arbitrary: d) (auto simp: map_of_entry_upd)

lemma key_step_fst: "fst (key_step f res good key s) = entry_upd f key (fst s)"
  by (cases s) (simp add: key_step_def Let_def)

lemma key_loop_fst: "fst (fold (key_step f res good) ks s) = fold (entry_upd f) ks (fst s)"
  by (induction ks arbitrary: s) (simp_all add: key_step_fst)

lemma key_loop_distinct:
  assumes "distinct ks"
  shows "fold (key_step f res good) ks (d, ret, ok, free, gone) =
    (fold (entry_upd f) ks d,
     fold (\<lambda>k r. case res (map_of d k) of None \<Rightarrow> r | Some x \<Rightarrow> dict_set k x r) ks ret,
     ok @ filter (\<lambda>k. good (map_of d k)) ks,
     free @ concat (map (\<lambda>k. case removed_obj f (map_of d k) of None \<Rightarrow> [] | Some r \<Rightarrow> [r]) ks),
     gone @ filter (\<lambda>k. removed_obj f (map_of d k) \<noteq> None) ks)"
  using assms
proof (induction ks arbitrary: d ret ok free gone)
  case Nil
  then show ?case by simp
next
  case (Cons k ks)
  have same: "map_of (entry_upd f k d) q = map_of d q" if "q \<in> set ks" for q
    using that Cons.prems by (auto simp: map_of_entry_upd)
  have "fold (\<lambda>q r. case res (map_of (entry_upd f k d) q) of None \<Rightarrow> r | Some x \<Rightarrow> dict_set q x r) ks r
      = fold (\<lambda>q r. case res (map_of d q) of None \<Rightarrow> r | Some x \<Rightarrow> dict_set q x r) ks r" for r
    by (rule fold_cong) (simp_all add: same)
  moreover have "filter (\<lambda>q. good (map_of (entry_upd f k d) q)) ks = filter (\<lambda>q. good (map_of d q)) ks"
    "filter (\<lambda>q. removed_obj f (map_of (entry_upd f k d) q) \<noteq> None) ks
       = filter (\<lambda>q. removed_obj f (map_of d q) \<noteq> None) ks"
    by (rule filter_cong; simp add: same)+
  moreover have "concat (map (\<lambda>q. case removed_obj f (map_of (entry_upd f k d) q) of None \<Rightarrow> [] | Some r \<Rightarrow> [r]) ks)
      = concat (map (\<lambda>q. case removed_obj f (map_of d q) of None \<Rightarrow> [] | Some r \<Rightarrow> [r]) ks)"
    by (rule arg_cong [where f = concat], rule map_cong) (simp_all add: same)
  ultimately show ?case using Cons.IH Cons.prems
    by (simp add: key_step_def Let_def split: option.splits)
qed

lemma map_of_results:
  assumes "distinct ks"
  shows "map_of (fold (\<lambda>k r. case res k of None \<Rightarrow> r | Some x \<Rightarrow> dict_set k x r) ks ret) q =
    (if q \<in> set ks \<and> res q \<noteq> None then res q else map_of ret q)"
  using assms by (induction ks arbitrary: ret) (auto simp: dict_simps split: option.splits)

section \<open>The methods as loops\<close>

definition rr_entry :: "int \<Rightarrow> nat \<Rightarrow> l1_object_state \<Rightarrow> l1_object_state option" where
  "rr_entry now n e =
     Some (if available_for_read now e then e\<lparr>read_lock := lock_times n now (read_lock e)\<rparr> else e)"

definition rr_result :: "int \<Rightarrow> l1_object_state option \<Rightarrow> l1_result" where
  "rr_result now x =
     (case x of None \<Rightarrow> (KEY_NOT_EXIST, None)
      | Some e \<Rightarrow> if available_for_read now e then (SUCCESS, Some (memory_obj e)) else (KEY_NOT_READABLE, None))"

definition rr_good :: "int \<Rightarrow> l1_object_state option \<Rightarrow> bool" where
  "rr_good now x = (case x of None \<Rightarrow> False | Some e \<Rightarrow> available_for_read now e)"

definition fr_entry :: "int \<Rightarrow> nat \<Rightarrow> l1_object_state \<Rightarrow> l1_object_state option" where
  "fr_entry now n e =
     (if is_locked now (write_lock e) \<or> \<not> is_locked now (read_lock e) then Some e
      else if is_temporary e \<and> \<not> is_locked now (unlock_times n (read_lock e)) then None
      else Some (e\<lparr>read_lock := unlock_times n (read_lock e)\<rparr>))"

definition fr_good :: "int \<Rightarrow> l1_object_state option \<Rightarrow> bool" where
  "fr_good now x = (case x of None \<Rightarrow> False
     | Some e \<Rightarrow> \<not> is_locked now (write_lock e) \<and> is_locked now (read_lock e))"

definition fr_result :: "int \<Rightarrow> l1_object_state option \<Rightarrow> l1_error" where
  "fr_result now x = (if x = None then KEY_NOT_EXIST else if fr_good now x then SUCCESS else KEY_IN_WRONG_STATE)"

definition rw_good :: "int \<Rightarrow> write_mode \<Rightarrow> l1_object_state option \<Rightarrow> bool" where
  "rw_good now mode x = (case x of None \<Rightarrow> False | Some e \<Rightarrow> mode \<noteq> ModeNew \<and> available_for_write now e)"

definition rw_entry :: "int \<Rightarrow> write_mode \<Rightarrow> l1_object_state \<Rightarrow> l1_object_state option" where
  "rw_entry now mode e =
     Some (if mode \<noteq> ModeNew \<and> available_for_write now e
           then e\<lparr>write_lock := ttl_lock now (write_lock e)\<rparr> else e)"

definition rw_result :: "int \<Rightarrow> write_mode \<Rightarrow> l1_object_state option \<Rightarrow> l1_result option" where
  "rw_result now mode x =
     (case x of None \<Rightarrow> None
      | Some e \<Rightarrow> Some (if rw_good now mode x then (SUCCESS, Some (memory_obj e)) else (KEY_NOT_WRITABLE, None)))"

definition fw_good :: "int \<Rightarrow> l1_object_state option \<Rightarrow> bool" where
  "fw_good now x = (case x of None \<Rightarrow> False
     | Some e \<Rightarrow> is_locked now (write_lock e) \<and> \<not> is_locked now (read_lock e))"

definition fw_entry :: "int \<Rightarrow> l1_object_state \<Rightarrow> l1_object_state option" where
  "fw_entry now e =
     Some (if fw_good now (Some e) then e\<lparr>write_lock := ttl_unlock (write_lock e)\<rparr> else e)"

definition fw_result :: "int \<Rightarrow> l1_object_state option \<Rightarrow> l1_error" where
  "fw_result now x = (if x = None then KEY_NOT_EXIST else if fw_good now x then SUCCESS else KEY_IN_WRONG_STATE)"

definition fwr_entry :: "int \<Rightarrow> nat \<Rightarrow> l1_object_state \<Rightarrow> l1_object_state option" where
  "fwr_entry now n e =
     Some (if fw_good now (Some e)
           then e\<lparr>write_lock := ttl_unlock (write_lock e), read_lock := lock_times n now (read_lock e)\<rparr> else e)"

definition fwr_result :: "int \<Rightarrow> l1_object_state option \<Rightarrow> l1_result" where
  "fwr_result now x =
     (case x of None \<Rightarrow> (KEY_NOT_EXIST, None)
      | Some e \<Rightarrow> if fw_good now x then (SUCCESS, Some (memory_obj e)) else (KEY_IN_WRONG_STATE, None))"

definition dl_entry :: "int \<Rightarrow> l1_object_state \<Rightarrow> l1_object_state option" where
  "dl_entry now e = (if entry_locked now e then Some e else None)"

definition dl_good :: "int \<Rightarrow> l1_object_state option \<Rightarrow> bool" where
  "dl_good now x = (case x of None \<Rightarrow> False | Some e \<Rightarrow> \<not> entry_locked now e)"

definition dl_result :: "int \<Rightarrow> l1_object_state option \<Rightarrow> l1_error" where
  "dl_result now x = (if x = None then KEY_NOT_EXIST else if dl_good now x then SUCCESS else KEY_IS_LOCKED)"

lemmas rr_defs = rr_entry_def rr_result_def rr_good_def
lemmas fr_defs = fr_entry_def fr_result_def fr_good_def
lemmas rw_defs = rw_entry_def rw_result_def rw_good_def
lemmas fw_defs = fw_entry_def fw_result_def fw_good_def fwr_entry_def fwr_result_def
lemmas dl_defs = dl_entry_def dl_result_def dl_good_def

definition three :: "('k, 'r) key_loop \<Rightarrow> ('k, l1_object_state) dict \<times> ('k, 'r) dict \<times> 'k list" where
  "three = (\<lambda>(d, ret, ok, free, gone). (d, ret, ok))"

lemma fold_three:
  assumes "\<And>k s. step k (three s) = three (big k s)"
  shows "fold step ks (three s) = three (fold big ks s)"
  using assms by (induction ks arbitrary: s) simp_all

lemma entry_upd_cases:
  "entry_upd f key d = (case map_of d key of None \<Rightarrow> d
     | Some e \<Rightarrow> if f e = Some e then d else (case f e of None \<Rightarrow> dict_del key d | Some e' \<Rightarrow> dict_set key e' d))"
  by (auto simp: entry_upd_def AList.update_triv split: option.splits)

lemma reserve_read_loop:
  "fold (reserve_read_step now n) ks (d, [], []) =
     three (fold (key_step (rr_entry now n) (\<lambda>x. Some (rr_result now x)) (rr_good now)) ks (d, [], [], [], []))"
proof -
  have "reserve_read_step now n k (three s) =
      three (key_step (rr_entry now n) (\<lambda>x. Some (rr_result now x)) (rr_good now) k s)" for k :: 'a and s
    by (cases s) (simp add: reserve_read_step_def three_def key_step_def Let_def rr_defs
        entry_upd_def AList.update_triv split: option.splits)
  from fold_three [where step = "reserve_read_step now n"
      and big = "key_step (rr_entry now n) (\<lambda>x. Some (rr_result now x)) (rr_good now)", OF this, where s = "(d, [], [], [], [])"]
  show ?thesis by (simp add: three_def)
qed

lemma finish_write_loop:
  "fold (finish_write_step now) ks (d, [], []) =
     three (fold (key_step (fw_entry now) (\<lambda>x. Some (fw_result now x)) (fw_good now)) ks (d, [], [], [], []))"
proof -
  have "finish_write_step now k (three s) =
      three (key_step (fw_entry now) (\<lambda>x. Some (fw_result now x)) (fw_good now) k s)" for k :: 'a and s
    by (cases s) (simp add: finish_write_step_def three_def key_step_def Let_def fw_defs
        entry_upd_def AList.update_triv split: option.splits)
  from fold_three [where step = "finish_write_step now"
      and big = "key_step (fw_entry now) (\<lambda>x. Some (fw_result now x)) (fw_good now)", OF this, where s = "(d, [], [], [], [])"]
  show ?thesis by (simp add: three_def)
qed

lemma finish_write_and_reserve_read_loop:
  "fold (finish_write_and_reserve_read_step now n) ks (d, [], []) =
     three (fold (key_step (fwr_entry now n) (\<lambda>x. Some (fwr_result now x)) (fw_good now)) ks (d, [], [], [], []))"
proof -
  have "finish_write_and_reserve_read_step now n k (three s) =
      three (key_step (fwr_entry now n) (\<lambda>x. Some (fwr_result now x)) (fw_good now) k s)" for k :: 'a and s
    by (cases s) (simp add: finish_write_and_reserve_read_step_def three_def key_step_def Let_def fw_defs
        entry_upd_def AList.update_triv split: option.splits)
  from fold_three [where step = "finish_write_and_reserve_read_step now n"
      and big = "key_step (fwr_entry now n) (\<lambda>x. Some (fwr_result now x)) (fw_good now)", OF this, where s = "(d, [], [], [], [])"]
  show ?thesis by (simp add: three_def)
qed

definition fr_view :: "('k, l1_error) key_loop \<Rightarrow> 'k finish_read_loop" where
  "fr_view = (\<lambda>(d, ret, ok, free, gone).
     \<lparr>fr_objs = d, fr_ret = ret, fr_successful = ok, fr_free = free, fr_free_keys = gone\<rparr>)"

lemma finish_read_loop:
  "fold (finish_read_step now n) ks (fr_view s) =
     fr_view (fold (key_step (fr_entry now n) (\<lambda>x. Some (fr_result now x)) (fr_good now)) ks s)"
proof -
  have "finish_read_step now n k (fr_view s) =
      fr_view (key_step (fr_entry now n) (\<lambda>x. Some (fr_result now x)) (fr_good now) k s)" for k :: 'a and s
    by (cases s) (simp add: finish_read_step_def fr_view_def key_step_def Let_def fr_defs removed_obj_def
        entry_upd_def AList.update_triv split: option.splits)
  then show ?thesis by (induction ks arbitrary: s) simp_all
qed

definition dl_view :: "('k, l1_error) key_loop \<Rightarrow> 'k delete_loop" where
  "dl_view = (\<lambda>(d, ret, ok, free, gone). \<lparr>dl_objs = d, dl_ret = ret, dl_successful = ok, dl_free = free\<rparr>)"

lemma delete_loop:
  "fold (delete_step now) ks (dl_view s) =
     dl_view (fold (key_step (dl_entry now) (\<lambda>x. Some (dl_result now x)) (dl_good now)) ks s)"
proof -
  have "delete_step now k (dl_view s) =
      dl_view (key_step (dl_entry now) (\<lambda>x. Some (dl_result now x)) (dl_good now) k s)" for k :: 'a and s
    by (cases s) (simp add: delete_step_def dl_view_def key_step_def Let_def dl_defs removed_obj_def
        entry_locked_def entry_upd_def AList.update_triv split: option.splits; blast)
  then show ?thesis by (induction ks arbitrary: s) simp_all
qed

section \<open>The invariant\<close>

definition lock_ok :: "ttl \<Rightarrow> bool" where
  "lock_ok l \<longleftrightarrow> 0 \<le> counter l \<and> 0 < ttl_ms l"

definition entry_ok :: "l1_object_state \<Rightarrow> bool" where
  "entry_ok e \<longleftrightarrow> lock_ok (write_lock e) \<and> lock_ok (read_lock e)"

definition obj_map :: "('k, l1_object_state) dict \<Rightarrow> 'k \<Rightarrow> nat option" where
  "obj_map d k = map_option memory_obj (map_of d k)"

text \<open>A policy that listens tracks only keys of the table.\<close>

fun listener_ok :: "'k set \<Rightarrow> 'k listener \<Rightarrow> bool" where
  "listener_ok K (PolicyListener p) = policy.confined K p"
| "listener_ok K (StoreListener s) = True"

definition table_ok :: "('k, l1_object_state) dict \<Rightarrow> bool" where
  "table_ok d \<longleftrightarrow> distinct (dict_keys d) \<and> (\<forall>k e. map_of d k = Some e \<longrightarrow> entry_ok e)"

definition l1_inv :: "'k l1 \<Rightarrow> bool" where
  "l1_inv st \<longleftrightarrow> table_ok (objects st) \<and> mm.owned (obj_map (objects st)) {} (memory_manager st) \<and>
     0 < write_ttl_seconds st \<and> 0 < read_ttl_seconds st \<and>
     (\<forall>l \<in> set (listeners st). listener_ok (set (dict_keys (objects st))) l)"

lemma lock_ok_ops [simp]:
  "lock_ok l \<Longrightarrow> lock_ok (ttl_lock now l)" "lock_ok l \<Longrightarrow> lock_ok (ttl_unlock l)"
  "lock_ok l \<Longrightarrow> lock_ok (lock_times n now l)" "lock_ok l \<Longrightarrow> lock_ok (unlock_times n l)"
  by (simp_all add: lock_ok_def counter_nonneg)

lemma lock_ok_new [simp]: "0 < t \<Longrightarrow> lock_ok (ttl_new t)"
  by (simp add: lock_ok_def ttl_new_def)

definition entry_fun_ok :: "(l1_object_state \<Rightarrow> l1_object_state option) \<Rightarrow> bool" where
  "entry_fun_ok f \<longleftrightarrow>
     (\<forall>e e'. entry_ok e \<longrightarrow> f e = Some e' \<longrightarrow> entry_ok e' \<and> memory_obj e' = memory_obj e)"

lemma entry_funs_ok [simp]:
  "entry_fun_ok (rr_entry now n)" "entry_fun_ok (fr_entry now n)" "entry_fun_ok (rw_entry now mode)"
  "entry_fun_ok (fw_entry now)" "entry_fun_ok (fwr_entry now n)" "entry_fun_ok (dl_entry now)"
  by (auto simp: entry_fun_ok_def entry_ok_def rr_entry_def fr_entry_def rw_entry_def fw_entry_def
      fwr_entry_def dl_entry_def split: if_splits)

definition loop_ok :: "'k set \<Rightarrow> l1_mm \<Rightarrow> ('k, 'r) key_loop \<Rightarrow> bool" where
  "loop_ok K mem = (\<lambda>(d, ret, ok, free, gone).
     table_ok d \<and> mm.owned (obj_map d) (set free) mem \<and>
     set (dict_keys d) \<union> set gone = K \<and> set ok \<subseteq> K)"

lemma obj_map_update_same:
  "map_of d k = Some e \<Longrightarrow> memory_obj e' = memory_obj e \<Longrightarrow> obj_map (dict_set k e' d) = obj_map d"
  by (auto simp: obj_map_def fun_eq_iff dict_simps)

lemma obj_map_delete: "obj_map (dict_del k d) = (obj_map d)(k := None)"
  by (auto simp: obj_map_def fun_eq_iff dict_simps)

lemma obj_map_set: "obj_map (dict_set k e d) = (obj_map d)(k \<mapsto> memory_obj e)"
  by (auto simp: obj_map_def fun_eq_iff dict_simps)

lemma key_step_ok:
  assumes f: "entry_fun_ok f" and good: "\<not> good None" and ok: "loop_ok K mem s"
  shows "loop_ok K mem (key_step f res good k s)"
proof -
  obtain d ret okk free gone where s: "s = (d, ret, okk, free, gone)" by (cases s)
  have t: "table_ok d" and ow: "mm.owned (obj_map d) (set free) mem"
    and K: "set (dict_keys d) \<union> set gone = K" "set okk \<subseteq> K"
    using ok by (simp_all add: s loop_ok_def)
  show ?thesis
  proof (cases "map_of d k")
    case None
    then show ?thesis using t ow K good
      by (simp add: s key_step_def Let_def loop_ok_def entry_upd_def removed_obj_def)
  next
    case (Some e)
    have kK: "k \<in> K" using K(1) map_of_SomeD_keys [OF Some] by auto
    have e: "entry_ok e" using t Some by (simp add: table_ok_def)
    show ?thesis
    proof (cases "f e")
      case None
      have "table_ok (dict_del k d)" using t by (auto simp: table_ok_def dict_simps)
      moreover have "mm.owned (obj_map (dict_del k d)) (insert (memory_obj e) (set free)) mem"
        unfolding obj_map_delete using ow Some by (intro mm.owned_drop) (simp_all add: obj_map_def)
      moreover have "set (dict_keys (dict_del k d)) \<union> set (gone @ [k]) = K"
        using K(1) kK by (auto simp: set_dict_keys_del simp del: set_map)
      ultimately show ?thesis using None Some K(2) kK
        by (simp add: s key_step_def Let_def loop_ok_def entry_upd_def removed_obj_def)
    next
      case (Some e')
      then have e': "entry_ok e'" "memory_obj e' = memory_obj e"
        using f e unfolding entry_fun_ok_def by blast+
      have "table_ok (dict_set k e' d)" using t e' by (auto simp: table_ok_def dict_simps)
      moreover have "obj_map (dict_set k e' d) = obj_map d"
        using \<open>map_of d k = Some e\<close> e'(2) by (rule obj_map_update_same)
      moreover have "set (dict_keys (dict_set k e' d)) = set (dict_keys d)"
        using map_of_SomeD_keys [OF \<open>map_of d k = Some e\<close>] by (auto simp: set_dict_keys_set simp del: set_map)
      moreover obtain ret' okk' where step: "key_step f res good k s = (dict_set k e' d, ret', okk', free, gone)"
        and okk': "set okk' \<subseteq> insert k (set okk)"
        using Some \<open>map_of d k = Some e\<close>
        by (cases "good (Some e)")
          (simp_all add: s key_step_def Let_def entry_upd_def removed_obj_def subset_insertI)
      moreover have "set okk' \<subseteq> K" using okk' K(2) kK by blast
      ultimately show ?thesis using ow K(1) by (simp add: loop_ok_def del: set_map)
    qed
  qed
qed

lemma key_loop_ok:
  assumes "entry_fun_ok f" "\<not> good None"
  shows "loop_ok K mem s \<Longrightarrow> loop_ok K mem (fold (key_step f res good) ks s)"
proof (induction ks arbitrary: s)
  case (Cons k ks)
  have "loop_ok K mem (key_step f res good k s)" by (rule key_step_ok) (fact assms Cons.prems)+
  then show ?case using Cons.IH by simp
qed simp

lemma loop_start:
  assumes "l1_inv st"
  shows "loop_ok (set (dict_keys (objects st))) (memory_manager st) (objects st, [], [], [], [])"
  using assms by (simp add: loop_ok_def l1_inv_def)

text \<open>A loop whose entry function never deletes removes nothing.\<close>

lemma key_loop_keeps:
  assumes "\<And>e. f e \<noteq> None"
  shows "fold (key_step f res good) ks (d, ret, ok, free, gone) = (d', ret', ok', free', gone') \<Longrightarrow>
    free' = free \<and> gone' = gone"
proof (induction ks arbitrary: d ret ok free gone)
  case (Cons k ks)
  have "removed_obj f (map_of d k) = None"
  proof (cases "map_of d k")
    case (Some e)
    then show ?thesis using assms [of e] by (auto simp: removed_obj_def)
  qed (simp add: removed_obj_def)
  with Cons show ?case by (simp add: key_step_def Let_def)
qed simp

lemma key_loop_grows_ok:
  assumes "\<not> good None" "\<And>e. f e \<noteq> None"
  shows "fold (key_step f res good) ks (d, ret, ok, free, gone) = (d', ret', ok', free', gone') \<Longrightarrow>
    set (dict_keys d') = set (dict_keys d)"
proof (induction ks arbitrary: d ret ok free gone)
  case (Cons k ks)
  have "set (dict_keys (entry_upd f k d)) = set (dict_keys d)"
  proof (cases "map_of d k")
    case (Some e)
    then obtain e' where "f e = Some e'" using assms(2) [of e] by auto
    then show ?thesis using Some map_of_SomeD_keys [OF Some]
      by (auto simp: entry_upd_def set_dict_keys_set simp del: set_map)
  qed (simp add: entry_upd_def)
  then show ?case using Cons by (simp add: key_step_def Let_def)
qed simp

section \<open>Each method keeps it\<close>

lemma publish_notify_simps [simp]:
  "memory_manager (publish ev ks st) = memory_manager st" "memory_manager (notify f st) = memory_manager st"
  "objects (publish ev ks st) = objects st" "objects (notify f st) = objects st"
  by (simp_all add: publish_def notify_def)

lemma publish_inv [simp]: "l1_inv (publish ev ks st) = l1_inv st"
  by (simp add: l1_inv_def publish_def)

lemma notify_inv:
  assumes "l1_inv (st\<lparr>listeners := []\<rparr>)"
    and "\<And>l. l \<in> set (listeners st) \<Longrightarrow> listener_ok (set (dict_keys (objects st))) (f l)"
  shows "l1_inv (notify f st)"
  using assms by (auto simp: l1_inv_def notify_def)

lemma listener_ok_created:
  "listener_ok K l \<Longrightarrow> set ks \<subseteq> K \<Longrightarrow> listener_ok K (on_l1_keys_write_finished ks l)"
  "listener_ok K l \<Longrightarrow> set ks \<subseteq> K \<Longrightarrow> listener_ok K (on_l1_keys_finish_write_and_reserve_read ks l)"
  by (cases l; simp add: policy.confined_created)+

lemma listener_ok_touched: "listener_ok K l \<Longrightarrow> listener_ok K (on_l1_keys_read_finished ks l)"
  by (cases l) (simp_all add: policy.confined_touched)

lemma listener_ok_deleted:
  "listener_ok K l \<Longrightarrow> K - set ks \<subseteq> L \<Longrightarrow> listener_ok L (on_l1_keys_deleted ks l)"
  by (cases l) (auto intro: policy.confined_mono [OF policy.confined_removed])

lemma listener_ok_reserved [simp]:
  "on_l1_keys_reserved_read ks l = l" "on_l1_keys_reserved_write ks l = l"
  by simp_all

lemma reserve_read_eq:
  "reserve_read now keys ec st =
     (case fold (key_step (rr_entry now (nat (1 + validate_extra_count ec)))
         (\<lambda>x. Some (rr_result now x)) (rr_good now)) keys (objects st, [], [], [], []) of
        (d, ret, ok, free, gone) \<Rightarrow>
          (ret, publish L1_READ_RESERVED ok (notify (on_l1_keys_reserved_read ok) (st\<lparr>objects := d\<rparr>))))"
  by (simp add: reserve_read_def Let_def reserve_read_loop three_def split: prod.splits)

lemma finish_write_eq:
  "finish_write now keys st =
     (case fold (key_step (fw_entry now) (\<lambda>x. Some (fw_result now x)) (fw_good now)) keys
         (objects st, [], [], [], []) of
        (d, ret, ok, free, gone) \<Rightarrow>
          (ret, publish L1_WRITE_FINISHED ok (notify (on_l1_keys_write_finished ok) (st\<lparr>objects := d\<rparr>))))"
  by (simp add: finish_write_def finish_write_loop three_def split: prod.splits)

lemma finish_write_and_reserve_read_eq:
  "finish_write_and_reserve_read now keys ec st =
     (case fold (key_step (fwr_entry now (nat (1 + validate_extra_count ec)))
         (\<lambda>x. Some (fwr_result now x)) (fw_good now)) keys (objects st, [], [], [], []) of
        (d, ret, ok, free, gone) \<Rightarrow>
          (ret, publish L1_WRITE_FINISHED_AND_READ_RESERVED ok
             (notify (on_l1_keys_finish_write_and_reserve_read ok) (st\<lparr>objects := d\<rparr>))))"
  by (simp add: finish_write_and_reserve_read_def Let_def finish_write_and_reserve_read_loop three_def
      split: prod.splits)

lemma finish_read_eq:
  "finish_read E now keys ec st =
     (case fold (key_step (fr_entry now (nat (1 + validate_extra_count ec)))
         (\<lambda>x. Some (fr_result now x)) (fr_good now)) keys (objects st, [], [], [], []) of
        (d, ret, ok, free, gone) \<Rightarrow>
          (case mm_free E free (memory_manager st) of
             (Inl e, mem) \<Rightarrow> (Inl e, st\<lparr>objects := d, memory_manager := mem\<rparr>)
           | (Inr _, mem) \<Rightarrow>
               (Inr ret, publish L1_KEYS_EVICTED gone (publish L1_READ_FINISHED ok
                  (notify (\<lambda>l. on_l1_keys_deleted gone (on_l1_keys_read_finished ok l))
                    (st\<lparr>objects := d, memory_manager := mem\<rparr>))))))"
proof -
  have v: "\<lparr>fr_objs = objects st, fr_ret = [], fr_successful = [], fr_free = [], fr_free_keys = []\<rparr> =
      fr_view (objects st, [], [], [], [])" by (simp add: fr_view_def)
  obtain d ret ok free gone where
    loop: "fold (key_step (fr_entry now (nat (1 + validate_extra_count ec)))
      (\<lambda>x. Some (fr_result now x)) (fr_good now)) keys (objects st, [], [], [], [])
      = (d, ret, ok, free, gone)" by (metis prod_cases5)
  show ?thesis unfolding finish_read_def Let_def v finish_read_loop loop
    by (simp only: fr_view_def prod.case finish_read_loop.select_convs)
qed

lemma l1_delete_eq:
  "l1_delete E now keys st =
     (case fold (key_step (dl_entry now) (\<lambda>x. Some (dl_result now x)) (dl_good now)) keys
         (objects st, [], [], [], []) of
        (d, ret, ok, free, gone) \<Rightarrow>
          (case mm_free E free (memory_manager st) of
             (Inl e, mem) \<Rightarrow> (Inl e, st\<lparr>objects := d, memory_manager := mem\<rparr>)
           | (Inr _, mem) \<Rightarrow>
               (Inr ret, publish L1_KEYS_EVICTED ok
                  (notify (on_l1_keys_deleted ok) (st\<lparr>objects := d, memory_manager := mem\<rparr>)))))"
proof -
  have v: "\<lparr>dl_objs = objects st, dl_ret = [], dl_successful = [], dl_free = []\<rparr> =
      dl_view (objects st, [], [], [], [])" by (simp add: dl_view_def)
  obtain d ret ok free gone where
    loop: "fold (key_step (dl_entry now) (\<lambda>x. Some (dl_result now x)) (dl_good now)) keys
      (objects st, [], [], [], []) = (d, ret, ok, free, gone)" by (metis prod_cases5)
  show ?thesis unfolding l1_delete_def Let_def v delete_loop loop
    by (simp only: dl_view_def prod.case delete_loop.select_convs)
qed

lemma reserve_read_inv:
  assumes inv: "l1_inv st"
  shows "l1_inv (snd (reserve_read now keys ec st))"
proof -
  let ?n = "nat (1 + validate_extra_count ec)"
  obtain d ret ok free gone where
    loop: "fold (key_step (rr_entry now ?n) (\<lambda>x. Some (rr_result now x)) (rr_good now)) keys
      (objects st, [], [], [], []) = (d, ret, ok, free, gone)" by (metis prod_cases5)
  have "\<not> rr_good now None" "\<And>e. rr_entry now ?n e \<noteq> None" by (simp_all add: rr_defs)
  note k = key_loop_keeps [OF this(2) loop] key_loop_grows_ok [OF this loop]
  have "loop_ok (set (dict_keys (objects st))) (memory_manager st) (d, ret, ok, free, gone)"
    unfolding loop [symmetric] by (rule key_loop_ok [OF _ _ loop_start [OF inv]]) (simp_all add: rr_defs)
  then show ?thesis using inv k loop
    by (auto simp: reserve_read_eq loop_ok_def l1_inv_def notify_def publish_def)
qed

lemma write_loop_inv:
  assumes inv: "l1_inv st" and f: "entry_fun_ok f" "\<And>e. f e \<noteq> None" and good: "\<not> good None"
    and loop: "fold (key_step f res good) keys (objects st, [], [], [], []) = (d, ret, ok, free, gone)"
  shows "l1_inv (st\<lparr>objects := d\<rparr>) \<and> set ok \<subseteq> set (dict_keys d) \<and>
    set (dict_keys d) = set (dict_keys (objects st))"
proof -
  note k = key_loop_keeps [OF f(2) loop] key_loop_grows_ok [OF good f(2) loop]
  have "loop_ok (set (dict_keys (objects st))) (memory_manager st) (d, ret, ok, free, gone)"
    unfolding loop [symmetric] by (intro key_loop_ok loop_start) (fact f(1) good inv)+
  then show ?thesis using inv k by (auto simp: loop_ok_def l1_inv_def)
qed

lemma finish_write_inv:
  assumes inv: "l1_inv st"
  shows "l1_inv (snd (finish_write now keys st))"
proof -
  obtain d ret ok free gone where
    loop: "fold (key_step (fw_entry now) (\<lambda>x. Some (fw_result now x)) (fw_good now)) keys
      (objects st, [], [], [], []) = (d, ret, ok, free, gone)" by (metis prod_cases5)
  have "l1_inv (st\<lparr>objects := d\<rparr>) \<and> set ok \<subseteq> set (dict_keys d) \<and> set (dict_keys d) = set (dict_keys (objects st))"
    by (rule write_loop_inv [OF inv _ _ _ loop]) (simp_all add: fw_defs)
  then have w: "l1_inv (st\<lparr>objects := d\<rparr>)" "set ok \<subseteq> set (dict_keys d)" by blast+
  then have "l1_inv (notify (on_l1_keys_write_finished ok) (st\<lparr>objects := d\<rparr>))"
    by (intro notify_inv) (auto simp: l1_inv_def intro: listener_ok_created)
  then show ?thesis by (simp add: finish_write_eq loop)
qed

lemma finish_write_and_reserve_read_inv:
  assumes inv: "l1_inv st"
  shows "l1_inv (snd (finish_write_and_reserve_read now keys ec st))"
proof -
  let ?n = "nat (1 + validate_extra_count ec)"
  obtain d ret ok free gone where
    loop: "fold (key_step (fwr_entry now ?n) (\<lambda>x. Some (fwr_result now x)) (fw_good now)) keys
      (objects st, [], [], [], []) = (d, ret, ok, free, gone)" by (metis prod_cases5)
  have "l1_inv (st\<lparr>objects := d\<rparr>) \<and> set ok \<subseteq> set (dict_keys d) \<and> set (dict_keys d) = set (dict_keys (objects st))"
    by (rule write_loop_inv [OF inv _ _ _ loop]) (simp_all add: fw_defs)
  then have w: "l1_inv (st\<lparr>objects := d\<rparr>)" "set ok \<subseteq> set (dict_keys d)" by blast+
  then have "l1_inv (notify (on_l1_keys_finish_write_and_reserve_read ok) (st\<lparr>objects := d\<rparr>))"
    by (intro notify_inv) (auto simp: l1_inv_def intro: listener_ok_created)
  then show ?thesis by (simp add: finish_write_and_reserve_read_eq loop)
qed

lemma listeners_inv:
  assumes "l1_inv st" "l \<in> set (listeners st)"
  shows "listener_ok (set (dict_keys (objects st))) l"
  using assms by (simp add: l1_inv_def)

lemma loop_keys:
  assumes "loop_ok K mem (d, ret, ok, free, gone)"
  shows "K - set gone \<subseteq> set (dict_keys d)"
  using assms by (auto simp: loop_ok_def)

text \<open>An object that stays allocated is left as it is: its address, size and flags.\<close>

definition mm_keeps :: "l1_mm \<Rightarrow> l1_mm \<Rightarrow> bool" where
  "mm_keeps mem mem' \<longleftrightarrow>
     (\<forall>r \<in> mm_live mem \<inter> mm_live mem'. objs (mm_mem mem') r = objs (mm_mem mem) r)"

lemma mm_keeps_refl [simp]: "mm_keeps mem mem"
  by (simp add: mm_keeps_def)

text \<open>After a loop that deletes, freeing the objects removed restores the invariant.\<close>

lemma freed_inv:
  assumes E: "sorted_list_ok E" and inv: "l1_inv st"
    and loop: "loop_ok (set (dict_keys (objects st))) (memory_manager st) (d, ret, ok, free, gone)"
    and f: "\<And>l. listener_ok (set (dict_keys (objects st))) l \<Longrightarrow> listener_ok (set (dict_keys d)) (f l)"
  shows "\<exists>mem. mm_free E free (memory_manager st) = (Inr SUCCESS, mem) \<and>
    mm_live mem = mm_live (memory_manager st) - set free \<and> mm_keeps (memory_manager st) mem \<and>
    l1_inv (notify f (st\<lparr>objects := d, memory_manager := mem\<rparr>))"
proof -
  have ow: "mm.owned (obj_map d) (set free) (memory_manager st)" and t: "table_ok d"
    using loop by (simp_all add: loop_ok_def)
  then obtain mem where mem: "mm_free E free (memory_manager st) = (Inr SUCCESS, mem)"
    "mm.owned (obj_map d) {} mem" using mm.owned_release [OF E] by blast
  moreover have "mm_live mem = mm_live (memory_manager st) - set free" "mm_keeps (memory_manager st) mem"
    using mm_free_cases [OF E, of "memory_manager st" free] ow mem(1)
    by (auto simp: mm.owned_def mm_keeps_def)
  ultimately show ?thesis using inv t f by (auto simp: l1_inv_def notify_def)
qed

lemma finish_read_inv:
  assumes E: "sorted_list_ok E" and inv: "l1_inv st"
  shows "\<exists>ret st'. finish_read E now keys ec st = (Inr ret, st') \<and> l1_inv st' \<and>
    mm_keeps (memory_manager st) (memory_manager st')"
proof -
  let ?n = "nat (1 + validate_extra_count ec)"
  obtain d ret ok free gone where
    loop: "fold (key_step (fr_entry now ?n) (\<lambda>x. Some (fr_result now x)) (fr_good now)) keys
      (objects st, [], [], [], []) = (d, ret, ok, free, gone)" by (metis prod_cases5)
  have l: "loop_ok (set (dict_keys (objects st))) (memory_manager st) (d, ret, ok, free, gone)"
    unfolding loop [symmetric]
    by (intro key_loop_ok loop_start) (fact inv | simp add: fr_good_def)+
  have "\<exists>mem. mm_free E free (memory_manager st) = (Inr SUCCESS, mem) \<and>
    mm_live mem = mm_live (memory_manager st) - set free \<and> mm_keeps (memory_manager st) mem \<and>
    l1_inv (notify (\<lambda>l. on_l1_keys_deleted gone (on_l1_keys_read_finished ok l))
      (st\<lparr>objects := d, memory_manager := mem\<rparr>))"
    by (rule freed_inv [OF E inv l])
      (rule listener_ok_deleted [OF listener_ok_touched loop_keys [OF l]])
  then show ?thesis by (auto simp: finish_read_eq loop)
qed

text \<open>In the delete loop the keys deleted are the successful ones.\<close>

lemma delete_loop_gone:
  "fold (key_step (dl_entry now) res (dl_good now)) ks (d, ret, ok, free, ok) = (d', ret', ok', free', gone') \<Longrightarrow>
    gone' = ok'"
proof (induction ks arbitrary: d ret ok free)
  case (Cons k ks)
  have "dl_good now x = (removed_obj (dl_entry now) x \<noteq> None)" for x
    by (simp add: dl_defs removed_obj_def split: option.splits)
  then have "\<exists>d1 ret1 ok1 free1. key_step (dl_entry now) res (dl_good now) k (d, ret, ok, free, ok) =
      (d1, ret1, ok1, free1, ok1)"
    by (simp add: key_step_def Let_def split: option.splits)
  then show ?case using Cons by (metis fold_simps(2))
qed simp

lemma l1_delete_inv:
  assumes E: "sorted_list_ok E" and inv: "l1_inv st"
  shows "\<exists>ret st'. l1_delete E now keys st = (Inr ret, st') \<and> l1_inv st' \<and>
    mm_keeps (memory_manager st) (memory_manager st')"
proof -
  obtain d ret ok free gone where
    loop: "fold (key_step (dl_entry now) (\<lambda>x. Some (dl_result now x)) (dl_good now)) keys
      (objects st, [], [], [], []) = (d, ret, ok, free, gone)" by (metis prod_cases5)
  have [simp]: "gone = ok" by (rule delete_loop_gone [OF loop])
  have l: "loop_ok (set (dict_keys (objects st))) (memory_manager st) (d, ret, ok, free, ok)"
    unfolding loop [symmetric, simplified]
    by (intro key_loop_ok loop_start) (fact inv | simp add: dl_good_def)+
  have "\<exists>mem. mm_free E free (memory_manager st) = (Inr SUCCESS, mem) \<and>
    mm_live mem = mm_live (memory_manager st) - set free \<and> mm_keeps (memory_manager st) mem \<and>
    l1_inv (notify (on_l1_keys_deleted ok) (st\<lparr>objects := d, memory_manager := mem\<rparr>))"
    by (rule freed_inv [OF E inv l]) (rule listener_ok_deleted [OF _ loop_keys [OF l]])
  then show ?thesis by (auto simp: l1_delete_eq loop)
qed

subsection \<open>Reserving for writing\<close>

definition rw_ok :: "'k set \<Rightarrow> l1_mm \<Rightarrow> 'k reserve_write_loop \<Rightarrow> bool" where
  "rw_ok K mem s \<longleftrightarrow> table_ok (rw_objs s) \<and> mm.owned (obj_map (rw_objs s)) {} mem \<and>
     K \<subseteq> set (dict_keys (rw_objs s))"

lemma rw_ok_update:
  assumes "rw_ok K mem s" "map_of (rw_objs s) k = Some e" "entry_ok e'" "memory_obj e' = memory_obj e"
  shows "rw_ok K mem (s\<lparr>rw_objs := dict_set k e' (rw_objs s), rw_ret := r, rw_successful := ok\<rparr>)"
proof -
  have "K \<subseteq> set (dict_keys (dict_set k e' (rw_objs s)))"
    using assms(1) unfolding rw_ok_def set_dict_keys_set by blast
  then show ?thesis using assms obj_map_update_same [OF assms(2,4)]
    by (auto simp: rw_ok_def table_ok_def dict_simps simp del: set_map)
qed

lemma rw_ok_step:
  assumes ok: "rw_ok K mem s"
  shows "rw_ok K mem (reserve_write_step now mode kt s)"
proof (cases "map_of (rw_objs s) (fst kt)")
  case None
  then show ?thesis using ok by (simp add: reserve_write_step_def rw_ok_def Let_def)
next
  case (Some e)
  then have "entry_ok e" using ok by (simp add: rw_ok_def table_ok_def)
  then have "entry_ok (e\<lparr>write_lock := ttl_lock now (write_lock e)\<rparr>)" by (simp add: entry_ok_def)
  from rw_ok_update [OF ok Some this] show ?thesis using Some ok
    by (simp add: reserve_write_step_def Let_def) (simp add: rw_ok_def)
qed

lemma rw_ok_loop: "rw_ok K mem s \<Longrightarrow> rw_ok K mem (fold (reserve_write_step now mode) xs s)"
  by (induction xs arbitrary: s) (simp_all add: rw_ok_step)

lemma insert_new_ok:
  assumes "rw_ok K mem s" "0 < wttl" "0 < rttl" "distinct (map snd xs)"
    "set (map snd xs) \<subseteq> mm_live mem" "\<forall>r \<in> set (map snd xs). \<forall>k. obj_map (rw_objs s) k \<noteq> Some r"
  shows "rw_ok K mem (fold (insert_new_step now wttl rttl) xs s)"
  using assms
proof (induction xs arbitrary: s)
  case (Cons x xs)
  obtain k t r where x: "x = ((k, t), r)" by (metis prod.collapse)
  let ?s = "insert_new_step now wttl rttl x s"
  obtain e where e: "rw_objs ?s = dict_set k e (rw_objs s)" "memory_obj e = r" "entry_ok e"
    using Cons.prems(2,3) by (simp add: x insert_new_step_def entry_ok_def)
  have m: "obj_map (rw_objs ?s) = (obj_map (rw_objs s))(k \<mapsto> r)"
    by (simp add: e obj_map_set)
  have "mm.owned (obj_map (rw_objs ?s)) {} mem"
    unfolding m by (rule mm.owned_add) (use Cons.prems x in \<open>auto simp: rw_ok_def\<close>)
  moreover have "table_ok (rw_objs ?s)" using Cons.prems(1) e
    by (auto simp: rw_ok_def table_ok_def dict_simps)
  moreover have "K \<subseteq> set (dict_keys (rw_objs ?s))"
    using Cons.prems(1) unfolding e set_dict_keys_set rw_ok_def by blast
  ultimately have "rw_ok K mem ?s" by (simp add: rw_ok_def)
  moreover have "\<forall>q \<in> set (map snd xs). \<forall>j. obj_map (rw_objs ?s) j \<noteq> Some q"
    using Cons.prems(4,6) unfolding m by (auto simp: x)
  ultimately show ?case using Cons.IH [of ?s] Cons.prems by simp
qed simp

lemma rw_ok_inv:
  assumes "l1_inv st" "rw_ok (set (dict_keys (objects st))) mem s"
  shows "l1_inv (st\<lparr>objects := rw_objs s, memory_manager := mem\<rparr>)"
proof -
  have "listener_ok (set (dict_keys (rw_objs s))) l" if "l \<in> set (listeners st)" for l
  proof (cases l)
    case (PolicyListener p)
    then show ?thesis using assms listeners_inv [OF assms(1) that]
      by (simp add: rw_ok_def policy.confined_mono del: set_map)
  qed simp
  then show ?thesis using assms by (simp add: l1_inv_def rw_ok_def)
qed

lemma notify_reserved_write [simp]:
  "notify (on_l1_keys_reserved_write ks) st = st" "notify (on_l1_keys_reserved_read ks) st = st"
  by (simp_all add: notify_def map_idI)

lemma reserve_write_inv:
  assumes E: "sorted_list_ok E" and l: "layout_ok E layout" and inv: "l1_inv st"
  shows "\<exists>ret st'. reserve_write E now keys tmp layout mode st = (Inr ret, st') \<and> l1_inv st' \<and>
    mm_keeps (memory_manager st) (memory_manager st')"
proof -
  let ?s = "fold (reserve_write_step now mode) (zip keys tmp)
     \<lparr>rw_objs = objects st, rw_need = [], rw_ret = [], rw_successful = []\<rparr>"
  have ok: "rw_ok (set (dict_keys (objects st))) (memory_manager st) ?s"
    by (rule rw_ok_loop) (use inv in \<open>simp add: rw_ok_def l1_inv_def\<close>)
  have i1: "l1_inv (st\<lparr>objects := rw_objs ?s\<rparr>)" using rw_ok_inv [OF inv ok] by simp
  have mi: "mm_inv (memory_manager st)" using inv by (simp add: l1_inv_def mm.owned_def)
  show ?thesis
  proof (cases "length (rw_need ?s) = 0 \<or> mode = ModeUpdate")
    case True
    then show ?thesis using i1 by (auto simp: reserve_write_def Let_def)
  next
    case False
    from mm_allocate_cases [OF E mi l, of "length (rw_need ?s)"] show ?thesis
    proof (elim disjE exE conjE)
      fix rs mem
      assume a: "mm_allocate E layout (length (rw_need ?s)) (memory_manager st) = (Inr (SUCCESS, rs), mem)"
      let ?t = "fold (insert_new_step now (write_ttl_seconds st) (read_ttl_seconds st)) (zip (rw_need ?s) rs) ?s"
      have ow: "mm.owned (obj_map (rw_objs ?s)) {} (memory_manager st)" using ok by (simp add: rw_ok_def)
      note al = mm.owned_alloc [OF E l ow a]
      have sub: "set (map snd (zip (rw_need ?s) rs)) \<subseteq> set rs" by (auto dest: set_zip_rightD)
      have "rw_ok (set (dict_keys (objects st))) mem ?t"
      proof (rule insert_new_ok)
        show "rw_ok (set (dict_keys (objects st))) mem ?s" using ok al by (simp add: rw_ok_def)
        show "distinct (map snd (zip (rw_need ?s) rs))" using al by simp
        show "set (map snd (zip (rw_need ?s) rs)) \<subseteq> mm_live mem" using al sub by blast
        show "\<forall>r\<in>set (map snd (zip (rw_need ?s) rs)). \<forall>k. obj_map (rw_objs ?s) k \<noteq> Some r"
          using al sub by blast
      qed (use inv in \<open>simp_all add: l1_inv_def\<close>)
      moreover have "mm_keeps (memory_manager st) mem"
        using mm_allocate_cases [OF E mi l, of "length (rw_need ?s)"] a by (auto simp: mm_keeps_def)
      ultimately show ?thesis using False rw_ok_inv [OF inv]
        by (simp add: reserve_write_def Let_def a)
    next
      assume a: "mm_allocate E layout (length (rw_need ?s)) (memory_manager st) =
        (Inr (OUT_OF_MEMORY, []), memory_manager st)"
      from i1 show ?thesis using False
        by (simp add: reserve_write_def Let_def a)
    qed
  qed
qed

subsection \<open>Clearing\<close>

lemma fold_dict_del:
  "map_of (fold dict_del ks d) q = (if q \<in> set ks then None else map_of d q)"
  "set (dict_keys (fold dict_del ks d)) = set (dict_keys d) - set ks"
  "distinct (dict_keys d) \<Longrightarrow> distinct (dict_keys (fold dict_del ks d))"
proof (induction ks arbitrary: d)
  case (Cons k ks)
  { case 1 show ?case by (simp add: Cons.IH(1) dict_simps) }
  { case 2 show ?case using Cons.IH(2) [of "dict_del k d"] set_dict_keys_del [of k d] by auto }
  { case 3 then show ?case using Cons.IH(3) [of "dict_del k d"] by (simp add: distinct_dict_del) }
qed simp_all

lemma dict_entry:
  "table_ok d \<Longrightarrow> (k, e) \<in> set d \<longleftrightarrow> map_of d k = Some e"
  by (simp add: table_ok_def map_of_eq_Some_iff)

text \<open>Dropping any sublist of the entries, keys and objects together, is a deleting loop.\<close>

lemma drop_entries_ok:
  assumes inv: "l1_inv st" and sub: "set es \<subseteq> set (objects st)"
  shows "loop_ok (set (dict_keys (objects st))) (memory_manager st)
    (fold dict_del (map fst es) (objects st), ret, [], map (\<lambda>(k, e). memory_obj e) es, map fst es)"
proof -
  let ?d = "objects st"
  have t: "table_ok ?d" and ow: "mm.owned (obj_map ?d) {} (memory_manager st)"
    using inv by (simp_all add: l1_inv_def)
  have e: "obj_map ?d k = Some (memory_obj e)" if "(k, e) \<in> set es" for k e
  proof -
    have "map_of ?d k = Some e" using that sub dict_entry [OF t] by blast
    then show ?thesis by (simp add: obj_map_def)
  qed
  have g: "r \<in> set (map (\<lambda>(k, e). memory_obj e) es) \<Longrightarrow> \<exists>k \<in> set (map fst es). obj_map ?d k = Some r" for r
    using e by force
  have o: "obj_map (fold dict_del (map fst es) ?d) k = (if k \<in> set (map fst es) then None else obj_map ?d k)" for k
    by (simp add: obj_map_def fold_dict_del(1))
  have "mm.owned (obj_map (fold dict_del (map fst es) ?d)) (set (map (\<lambda>(k, e). memory_obj e) es))
      (memory_manager st)"
    unfolding mm.owned_def
  proof (intro conjI allI impI)
    show "mm_inv (memory_manager st)" using ow by (simp add: mm.owned_def)
    show "set (map (\<lambda>(k, e). memory_obj e) es) \<subseteq> mm_live (memory_manager st)"
      using g ow unfolding mm.owned_def by blast
    fix k r assume k: "obj_map (fold dict_del (map fst es) ?d) k = Some r"
    then have k': "k \<notin> set (map fst es)" "obj_map ?d k = Some r"
      unfolding o by (meson option.distinct(1))+
    show "r \<in> mm_live (memory_manager st)" using k'(2) ow unfolding mm.owned_def by blast
    show "r \<notin> set (map (\<lambda>(k, e). memory_obj e) es)" using g k' ow unfolding mm.owned_def by blast
    fix j assume "obj_map (fold dict_del (map fst es) ?d) j = Some r"
    then have "obj_map ?d j = Some r" unfolding o by (meson option.distinct(1))
    then show "k = j" using k'(2) ow unfolding mm.owned_def by blast
  qed
  moreover have "table_ok (fold dict_del (map fst es) ?d)"
    using t fold_dict_del(3) by (auto simp: table_ok_def fold_dict_del(1))
  moreover have "set (dict_keys (fold dict_del (map fst es) ?d)) \<union> set (map fst es) = set (dict_keys ?d)"
    using sub unfolding fold_dict_del(2) by auto
  ultimately show ?thesis by (simp add: loop_ok_def del: set_map)
qed

lemma fold_dict_del_all: "fold dict_del (dict_keys d) d = []"
proof -
  have "set (dict_keys (fold dict_del (dict_keys d) d)) = {}" unfolding fold_dict_del(2) by simp
  then show ?thesis by simp
qed

lemma l1_clear_inv:
  assumes E: "sorted_list_ok E" and inv: "l1_inv st"
  shows "\<exists>st'. l1_clear E now force st = (Inr (), st') \<and> l1_inv st' \<and>
    mm_keeps (memory_manager st) (memory_manager st')"
proof -
  let ?es = "if force then objects st else filter (\<lambda>(k, e). \<not> entry_locked now e) (objects st)"
  let ?d = "fold dict_del (map fst ?es) (objects st)"
  have l: "loop_ok (set (dict_keys (objects st))) (memory_manager st)
      (?d, [], [], map (\<lambda>(k, e). memory_obj e) ?es, map fst ?es)"
    by (rule drop_entries_ok [OF inv]) (auto split: if_splits)
  have "\<exists>mem. mm_free E (map (\<lambda>(k, e). memory_obj e) ?es) (memory_manager st) = (Inr SUCCESS, mem) \<and>
    mm_live mem = mm_live (memory_manager st) - set (map (\<lambda>(k, e). memory_obj e) ?es) \<and>
    mm_keeps (memory_manager st) mem \<and>
    l1_inv (notify (on_l1_keys_deleted (map fst ?es)) (st\<lparr>objects := ?d, memory_manager := mem\<rparr>))"
    by (rule freed_inv [OF E inv l]) (rule listener_ok_deleted [OF _ loop_keys [OF l]])
  then obtain mem where mem: "mm_free E (map (\<lambda>(k, e). memory_obj e) ?es) (memory_manager st) = (Inr SUCCESS, mem)"
    and [simp]: "mm_keeps (memory_manager st) mem"
    and i: "l1_inv (notify (on_l1_keys_deleted (map fst ?es)) (st\<lparr>objects := ?d, memory_manager := mem\<rparr>))"
    by blast
  have vals: "map (memory_obj \<circ> snd) (objects st) = map (\<lambda>(k, e). memory_obj e) (objects st)"
    by (simp add: case_prod_beta)
  show ?thesis
  proof (cases force)
    case True
    then show ?thesis using mem i by (simp add: l1_clear_def Let_def vals fold_dict_del_all)
  next
    case False
    have "l1_inv (st\<lparr>objects := ?d, memory_manager := mem\<rparr>)" if "map fst ?es = []"
    proof -
      have "\<forall>l \<in> set (listeners st). listener_ok (set (dict_keys ?d)) l"
        using that inv by (simp add: l1_inv_def)
      then show ?thesis using i by (simp add: l1_inv_def notify_def)
    qed
    then show ?thesis using False mem i by (simp add: l1_clear_def Let_def)
  qed
qed

lemma l1_close_ok:
  assumes E: "sorted_list_ok E" and inv: "l1_inv st"
  shows "\<exists>mem. l1_close E st = (Inr (), st\<lparr>objects := [], memory_manager := mem\<rparr>) \<and> mm_inv mem \<and>
    mm_live mem = mm_live (memory_manager st) - set (map memory_obj (dict_values (objects st)))"
proof -
  have vals: "map (memory_obj \<circ> snd) (objects st) = map (\<lambda>(k, e). memory_obj e) (objects st)"
    by (simp add: case_prod_beta)
  have "loop_ok (set (dict_keys (objects st))) (memory_manager st)
      (fold dict_del (map fst (objects st)) (objects st), [], [], map (\<lambda>(k, e). memory_obj e) (objects st),
       map fst (objects st))"
    by (rule drop_entries_ok [OF inv]) simp
  then have "set (map (\<lambda>(k, e). memory_obj e) (objects st)) \<subseteq> mm_live (memory_manager st)"
    "mm_inv (memory_manager st)" unfolding loop_ok_def prod.case mm.owned_def by blast+
  from mm_free_cases [OF E this(2,1)] show ?thesis
    by (auto simp: l1_close_def map_map vals simp del: set_map)
qed

lemma register_listener_inv:
  assumes "l1_inv st" "listener_ok (set (dict_keys (objects st))) l"
  shows "l1_inv (register_listener l st)"
  using assms by (auto simp: l1_inv_def register_listener_def)

end
