(* ===== verification/L1_History.thy ===== *)
theory L1_History
  imports L1_State
begin

text \<open>
  Histories of the L1 manager: any sequence of method calls, at any clock readings that do
  not go back, from a manager just created. The invariant holds along them, no call
  raises, and the locks protect what they should: an entry somebody reads stays, with its
  memory object untouched, until its readers are done or its deadline passes, and an entry
  somebody writes is left alone by everybody else.
\<close>

section \<open>Calls\<close>

datatype 'k l1_op =
    ReserveRead "'k list" int
  | FinishRead "'k list" int
  | ReserveWrite "'k list" "bool list" memory_layout_desc write_mode
  | FinishWrite "'k list"
  | FinishWriteReserveRead "'k list" int
  | Delete "'k list"
  | Clear bool

fun run_op :: "env \<Rightarrow> int \<Rightarrow> 'k l1_op \<Rightarrow> 'k l1 \<Rightarrow> (unit, 'k l1) outcome" where
  "run_op E now (ReserveRead ks ec) st = (Inr (), snd (reserve_read now ks ec st))"
| "run_op E now (FinishRead ks ec) st = map_prod (map_sum id (\<lambda>_. ())) id (finish_read E now ks ec st)"
| "run_op E now (ReserveWrite ks ts l m) st = map_prod (map_sum id (\<lambda>_. ())) id (reserve_write E now ks ts l m st)"
| "run_op E now (FinishWrite ks) st = (Inr (), snd (finish_write now ks st))"
| "run_op E now (FinishWriteReserveRead ks ec) st = (Inr (), snd (finish_write_and_reserve_read now ks ec st))"
| "run_op E now (Delete ks) st = map_prod (map_sum id (\<lambda>_. ())) id (l1_delete E now ks st)"
| "run_op E now (Clear force) st = l1_clear E now force st"

text \<open>
  Steps of the whole: a call, a listener registered, the background thread of the lazy
  allocator committing an expansion, and the clock. The layouts a caller reserves must have
  a size.
\<close>

fun op_ok :: "env \<Rightarrow> 'k l1_op \<Rightarrow> bool" where
  "op_ok E (ReserveWrite ks ts l m) = layout_ok E l"
| "op_ok E op = True"

inductive l1_step :: "env \<Rightarrow> int \<times> 'k l1 \<Rightarrow> int \<times> 'k l1 \<Rightarrow> bool" for E where
  call: "op_ok E op \<Longrightarrow> run_op E now op st = (r, st') \<Longrightarrow> l1_step E (now, st) (now, st')"
| listen: "listener_ok {} l \<Longrightarrow> l1_step E (now, st) (now, register_listener l st)"
| expand: "am_align (pool_am (mm_mem mm)) dvd n \<Longrightarrow> 0 < n \<Longrightarrow> mm = memory_manager st \<Longrightarrow>
    am_size (pool_am (mm_mem mm)) + n \<le> ta_buffer_numel (allocator (mm_mem mm)) \<Longrightarrow>
    am_sbrk E (pool_am (mm_mem mm)) n = (r1, am) \<Longrightarrow>
    l1_step E (now, st) (now, st\<lparr>memory_manager := mm\<lparr>mm_mem := set_am am (mm_mem mm)\<rparr>\<rparr>)"
| tick: "now \<le> now' \<Longrightarrow> l1_step E (now, st) (now', st)"

lemma listener_ok_mono: "listener_ok K l \<Longrightarrow> K \<subseteq> L \<Longrightarrow> listener_ok L l"
  by (cases l) (auto intro: policy.confined_mono)

lemma run_op_inv:
  assumes "sorted_list_ok E" "l1_inv st" "op_ok E op"
  shows "\<exists>st'. run_op E now op st = (Inr (), st') \<and> l1_inv st' \<and>
    mm_keeps (memory_manager st) (memory_manager st')"
proof (cases op)
  case (ReserveRead ks ec)
  then show ?thesis using reserve_read_inv [OF assms(2), of now ks ec]
    by (simp add: reserve_read_eq split: prod.splits)
next
  case (FinishRead ks ec)
  then show ?thesis using finish_read_inv [OF assms(1,2), of now ks ec] by auto
next
  case (ReserveWrite ks ts l m)
  then show ?thesis using reserve_write_inv [OF assms(1) _ assms(2), of l now ks ts m] assms(3) by auto
next
  case (FinishWrite ks)
  then show ?thesis using finish_write_inv [OF assms(2), of now ks]
    by (simp add: finish_write_eq split: prod.splits)
next
  case (FinishWriteReserveRead ks ec)
  then show ?thesis using finish_write_and_reserve_read_inv [OF assms(2), of now ks ec]
    by (simp add: finish_write_and_reserve_read_eq split: prod.splits)
next
  case (Delete ks)
  then show ?thesis using l1_delete_inv [OF assms(1,2), of now ks] by auto
next
  case (Clear force)
  then show ?thesis using l1_clear_inv [OF assms(1,2), of now force] by auto
qed

lemma l1_step_inv:
  assumes "l1_step E a b" "sorted_list_ok E" "l1_inv (snd a)"
  shows "l1_inv (snd b)"
  using assms(1)
proof cases
  case (call op now st r st')
  then show ?thesis using run_op_inv [of E st op now] assms by auto
next
  case (listen l now st)
  then show ?thesis using assms register_listener_inv listener_ok_mono by (metis empty_subsetI snd_conv)
next
  case (expand mm n st r1 am now)
  have ow: "mm.owned (obj_map (objects st)) {} mm" using assms(3) expand by (simp add: l1_inv_def)
  then have "mm_inv mm" by (simp add: mm.owned_def)
  from mm_inv_sbrk [OF assms(2) this] expand ow
  have "mm.owned (obj_map (objects st)) {} (mm\<lparr>mm_mem := set_am am (mm_mem mm)\<rparr>)"
    by (simp add: mm.owned_def)
  then show ?thesis using assms(3) expand by (simp add: l1_inv_def)
qed (use assms in simp)

lemma l1_init_inv:
  assumes "mm_inv mem" "0 < w" "0 < r"
  shows "l1_inv (l1_init mem w r)"
  using assms by (simp add: l1_inv_def l1_init_def table_ok_def mm.owned_def obj_map_def)

lemma l1_reachable_inv:
  assumes "(l1_step E)\<^sup>*\<^sup>* (t0, l1_init mem w r) c"
    and "sorted_list_ok E" "mm_inv mem" "0 < w" "0 < r"
  shows "l1_inv (snd c)"
  using assms(1)
proof (induction rule: rtranclp_induct)
  case base
  then show ?case using l1_init_inv [OF assms(3-5)] by simp
next
  case (step b c)
  then show ?case using l1_step_inv assms(2) by blast
qed

section \<open>What a call does to one entry\<close>

lemma map_of_fold_entry_upd_iter:
  "map_of (fold (entry_upd f) ks d) k = ((\<lambda>x. Option.bind x f) ^^ count_list ks k) (map_of d k)"
proof (induction ks arbitrary: d)
  case (Cons q ks)
  let ?g = "\<lambda>x. Option.bind x f"
  have "(?g ^^ n) (?g x) = ?g ((?g ^^ n) x)" for n x
    by (rule funpow_swap1 [symmetric])
  then show ?case by (simp add: Cons.IH map_of_entry_upd)
qed simp

lemma objects_after:
  "objects (snd (reserve_read now ks ec st)) =
     fold (entry_upd (rr_entry now (nat (1 + validate_extra_count ec)))) ks (objects st)"
  "objects (snd (finish_read E now ks ec st)) =
     fold (entry_upd (fr_entry now (nat (1 + validate_extra_count ec)))) ks (objects st)"
  "objects (snd (finish_write now ks st)) = fold (entry_upd (fw_entry now)) ks (objects st)"
  "objects (snd (finish_write_and_reserve_read now ks ec st)) =
     fold (entry_upd (fwr_entry now (nat (1 + validate_extra_count ec)))) ks (objects st)"
  "objects (snd (l1_delete E now ks st)) = fold (entry_upd (dl_entry now)) ks (objects st)"
proof -
  have l: "fold (key_step f res good) ks (objects st, [], [], [], []) = (d, ret, ok, free, gone) \<Longrightarrow>
    d = fold (entry_upd f) ks (objects st)" for f and res :: "_ \<Rightarrow> 'r option" and good d ret ok free gone
    using key_loop_fst [of f res good ks "(objects st, [], [], [], [])"] by simp
  show "objects (snd (reserve_read now ks ec st)) =
     fold (entry_upd (rr_entry now (nat (1 + validate_extra_count ec)))) ks (objects st)"
    by (auto simp: reserve_read_eq l split: prod.splits)
  show "objects (snd (finish_read E now ks ec st)) =
     fold (entry_upd (fr_entry now (nat (1 + validate_extra_count ec)))) ks (objects st)"
    by (auto simp: finish_read_eq l split: prod.splits sum.splits)
  show "objects (snd (finish_write now ks st)) = fold (entry_upd (fw_entry now)) ks (objects st)"
    by (auto simp: finish_write_eq l split: prod.splits)
  show "objects (snd (finish_write_and_reserve_read now ks ec st)) =
     fold (entry_upd (fwr_entry now (nat (1 + validate_extra_count ec)))) ks (objects st)"
    by (auto simp: finish_write_and_reserve_read_eq l split: prod.splits)
  show "objects (snd (l1_delete E now ks st)) = fold (entry_upd (dl_entry now)) ks (objects st)"
    by (auto simp: l1_delete_eq l split: prod.splits sum.splits)
qed

text \<open>reserve_write leaves an entry alone that is not available for writing.\<close>

lemma reserve_write_loop_locked:
  assumes "map_of (rw_objs s) k = Some e" "\<not> available_for_write now e" "k \<notin> fst ` set (rw_need s)"
  shows "map_of (rw_objs (fold (reserve_write_step now mode) xs s)) k = Some e \<and>
    k \<notin> fst ` set (rw_need (fold (reserve_write_step now mode) xs s))"
  using assms
proof (induction xs arbitrary: s)
  case (Cons x xs)
  have "map_of (rw_objs (reserve_write_step now mode x s)) k = Some e \<and>
      k \<notin> fst ` set (rw_need (reserve_write_step now mode x s))"
    using Cons.prems by (auto simp: reserve_write_step_def Let_def dict_simps split: option.splits)
  then show ?case using Cons.IH Cons.prems(2) by simp
qed simp

lemma insert_new_other:
  "k \<notin> fst ` set (map fst xs) \<Longrightarrow> map_of (rw_objs (fold (insert_new_step now wttl rttl) xs s)) k = map_of (rw_objs s) k"
  by (induction xs arbitrary: s) (auto simp: insert_new_step_def dict_simps)

lemma reserve_write_locked:
  assumes e: "map_of (objects st) k = Some e" "\<not> available_for_write now e"
  shows "map_of (objects (snd (reserve_write E now keys tmp layout mode st))) k = Some e"
proof -
  define s where "s = fold (reserve_write_step now mode) (zip keys tmp)
     \<lparr>rw_objs = objects st, rw_need = [], rw_ret = [], rw_successful = []\<rparr>"
  have s: "map_of (rw_objs s) k = Some e" "k \<notin> fst ` set (rw_need s)"
    unfolding s_def using reserve_write_loop_locked [of "\<lparr>rw_objs = objects st, rw_need = [], rw_ret = [], rw_successful = []\<rparr>"
        k e now mode "zip keys tmp"] e by simp_all
  have "k \<notin> fst ` set (map fst (zip (rw_need s) rs))" for rs :: "nat list"
    using s(2) by (force dest: set_zip_leftD)
  then show ?thesis using s(1) unfolding reserve_write_def Let_def s_def [symmetric]
    by (simp add: insert_new_other split: sum.splits prod.splits)
qed

lemma clear_keeps_locked:
  assumes "map_of (objects st) k = Some e" "entry_locked now e" "table_ok (objects st)"
  shows "map_of (objects (snd (l1_clear E now False st))) k = Some e"
proof -
  have "k \<notin> set (map fst (filter (\<lambda>(k, e). \<not> entry_locked now e) (objects st)))"
    using assms dict_entry [OF assms(3)] by auto
  then show ?thesis using assms(1)
    by (auto simp: l1_clear_def Let_def fold_dict_del(1) split: prod.splits sum.splits)
qed

section \<open>Protection by the write lock\<close>

fun run_ops :: "env \<Rightarrow> (int \<times> 'k l1_op) list \<Rightarrow> 'k l1 \<Rightarrow> (unit, 'k l1) outcome" where
  "run_ops E [] st = (Inr (), st)"
| "run_ops E ((now, op) # h) st =
     (case run_op E now op st of
        (Inl err, st') \<Rightarrow> (Inl err, st')
      | (Inr _, st') \<Rightarrow> run_ops E h st')"

text \<open>The calls that may end a write of k: the writer's own, and the two that ignore locks.\<close>

fun ends_write :: "'k \<Rightarrow> 'k l1_op \<Rightarrow> bool" where
  "ends_write k (FinishWrite ks) = (k \<in> set ks)"
| "ends_write k (FinishWriteReserveRead ks ec) = (k \<in> set ks)"
| "ends_write k (Clear force) = force"
| "ends_write k op = False"

lemma funpow_fixpoint: "g x = x \<Longrightarrow> (g ^^ n) x = x"
  by (induction n) simp_all

lemma write_locked_entry:
  assumes e: "map_of (objects st) k = Some e" "is_locked now (write_lock e)"
    and op: "\<not> ends_write k op" and t: "table_ok (objects st)"
  shows "map_of (objects (snd (run_op E now op st))) k = Some e"
proof -
  have fix_entry: "((\<lambda>x. Option.bind x f) ^^ n) (Some e) = Some e" if "f e = Some e" for f n
    by (rule funpow_fixpoint) (simp add: that)
  have "rr_entry now n e = Some e" "fr_entry now n e = Some e" "dl_entry now e = Some e" for n
    using e(2) by (simp_all add: rr_entry_def fr_entry_def dl_entry_def available_for_read_def entry_locked_def)
  then have f: "((\<lambda>x. Option.bind x (rr_entry now n)) ^^ m) (Some e) = Some e"
    "((\<lambda>x. Option.bind x (fr_entry now n)) ^^ m) (Some e) = Some e"
    "((\<lambda>x. Option.bind x (dl_entry now)) ^^ m) (Some e) = Some e" for n m
    by (intro fix_entry; simp)+
  have rw: "\<not> available_for_write now e" "entry_locked now e"
    using e(2) by (simp_all add: available_for_write_def entry_locked_def)
  show ?thesis
  proof (cases op)
    case (Clear force)
    then show ?thesis using op clear_keeps_locked [OF e(1) rw(2) t] by simp
  next
    case (ReserveWrite ks ts l m)
    then show ?thesis using reserve_write_locked [OF e(1) rw(1)] by simp
  qed (use e op in \<open>simp_all add: objects_after map_of_fold_entry_upd_iter f count_list_0_iff\<close>)
qed

lemma l1_inv_live:
  assumes "l1_inv st" "map_of (objects st) k = Some e"
  shows "memory_obj e \<in> mm_live (memory_manager st)"
  using assms by (auto simp: l1_inv_def mm.owned_def obj_map_def)

lemma write_locked_history:
  assumes E: "sorted_list_ok E"
    and h: "\<forall>(t, op) \<in> set h. op_ok E op \<and> t < expiration_ms (write_lock e) \<and> \<not> ends_write k op"
  shows "l1_inv st \<Longrightarrow> map_of (objects st) k = Some e \<Longrightarrow> 0 < counter (write_lock e) \<Longrightarrow>
    \<exists>st'. run_ops E h st = (Inr (), st') \<and> l1_inv st' \<and> map_of (objects st') k = Some e \<and>
      objs (mm_mem (memory_manager st')) (memory_obj e) = objs (mm_mem (memory_manager st)) (memory_obj e)"
  using h
proof (induction h arbitrary: st)
  case (Cons x h)
  obtain t op where x: "x = (t, op)" by (cases x)
  have op: "op_ok E op" "\<not> ends_write k op" and l: "is_locked t (write_lock e)"
    using Cons.prems by (auto simp: x is_locked_def)
  obtain st1 where st1: "run_op E t op st = (Inr (), st1)" "l1_inv st1"
    "mm_keeps (memory_manager st) (memory_manager st1)"
    using run_op_inv [OF E Cons.prems(1) op(1)] by blast
  have e: "map_of (objects st1) k = Some e"
    using write_locked_entry [OF Cons.prems(2) l op(2), of E] st1(1) Cons.prems(1) by (simp add: l1_inv_def)
  have "objs (mm_mem (memory_manager st1)) (memory_obj e) = objs (mm_mem (memory_manager st)) (memory_obj e)"
    using st1(3) l1_inv_live [OF Cons.prems(1,2)] l1_inv_live [OF st1(2) e] by (simp add: mm_keeps_def)
  with Cons.IH [OF st1(2) e Cons.prems(3)] Cons.prems(4) show ?case by (simp add: x st1(1))
qed simp

section \<open>Protection by a read lock\<close>

text \<open>
  held follows the reader count of k along a history: every call takes or gives back what
  its arguments say, and the count stays positive.
\<close>

fun read_delta :: "'k \<Rightarrow> 'k l1_op \<Rightarrow> int" where
  "read_delta k (ReserveRead ks ec) = int (count_list ks k) * (1 + validate_extra_count ec)"
| "read_delta k (FinishRead ks ec) = - (int (count_list ks k) * (1 + validate_extra_count ec))"
| "read_delta k op = 0"

fun held :: "'k \<Rightarrow> int \<Rightarrow> (int \<times> 'k l1_op) list \<Rightarrow> bool" where
  "held k c [] = True"
| "held k c ((t, op) # h) = (0 < c + read_delta k op \<and> held k (c + read_delta k op) h)"

lemma validate_nonneg: "0 \<le> validate_extra_count ec"
  by (simp add: validate_extra_count_def MAX_READ_LOCK_COUNT_def Let_def)

lemma lock_times_add: "lock_times a now (lock_times b now l) = lock_times (a + b) now l"
  by (simp add: lock_times_def funpow_add)

lemma unlock_times_add: "unlock_times a (unlock_times b l) = unlock_times (a + b) l"
  by (simp add: unlock_times_def funpow_add)

lemma rr_iter:
  assumes "\<not> is_locked now (write_lock e)"
  shows "((\<lambda>x. Option.bind x (rr_entry now n)) ^^ m) (Some e) =
    Some (e\<lparr>read_lock := lock_times (n * m) now (read_lock e)\<rparr>)"
  using assms by (induction m) (simp_all add: rr_entry_def available_for_read_def lock_times_add)

lemma fr_iter:
  assumes "\<not> is_locked now (write_lock e)" "now < expiration_ms (read_lock e)"
    "int (n * m) < counter (read_lock e)"
  shows "((\<lambda>x. Option.bind x (fr_entry now n)) ^^ m) (Some e) =
    Some (e\<lparr>read_lock := unlock_times (n * m) (read_lock e)\<rparr>)"
  using assms
proof (induction m)
  case (Suc m)
  let ?u = "unlock_times (n * m) (read_lock e)" and ?v = "unlock_times (n + n * m) (read_lock e)"
  have c: "int (n * m) < counter (read_lock e)" "int (n + n * m) < counter (read_lock e)"
    using Suc.prems(3) by simp_all
  moreover have "0 \<le> counter (read_lock e)" using c(1) by linarith
  ultimately have "is_locked now ?u" "is_locked now ?v"
    using Suc.prems(2) unfolding unlock_times_eq [OF \<open>0 \<le> counter (read_lock e)\<close>] is_locked_def
    by simp_all
  moreover have "unlock_times n ?u = ?v" by (simp add: unlock_times_add)
  ultimately have "fr_entry now n (e\<lparr>read_lock := ?u\<rparr>) = Some (e\<lparr>read_lock := ?v\<rparr>)"
    using Suc.prems(1) by (simp add: fr_entry_def)
  then show ?case using Suc.IH Suc.prems(1,2) c(1) by simp
qed simp

text \<open>
  An entry in the hands of readers, as one call leaves it: the same object, the same write
  lock and flag, the count changed by the call's share and the deadline not moved forward
  in time.
\<close>

definition reading :: "int \<Rightarrow> int \<Rightarrow> nat \<Rightarrow> int \<Rightarrow> l1_object_state \<Rightarrow> bool" where
  "reading t0 deadline r c e \<longleftrightarrow> memory_obj e = r \<and> counter (read_lock e) = c \<and> 0 < c \<and>
     deadline \<le> expiration_ms (read_lock e) \<and> deadline \<le> t0 + ttl_ms (read_lock e) \<and>
     0 < ttl_ms (read_lock e) \<and> \<not> is_locked t0 (write_lock e)"

lemma not_locked_later: "\<not> is_locked t0 l \<Longrightarrow> t0 \<le> t \<Longrightarrow> \<not> is_locked t l"
  by (auto simp: is_locked_def)

lemma lock_times_held:
  assumes "0 < ttl_ms l" "now < expiration_ms l"
  shows "counter (lock_times n now l) = counter l + int n"
    and "D \<le> expiration_ms l \<Longrightarrow> D \<le> now + ttl_ms l \<Longrightarrow> D \<le> expiration_ms (lock_times n now l)"
  using assms by (cases n; simp add: lock_times_eq del: lock_times_simps(2))+

lemma reading_step:
  assumes e: "map_of (objects st) k = Some e" "reading t0 deadline r c e"
    and t: "t0 \<le> now" "now < deadline" and op: "op \<noteq> Clear True" "0 < c + read_delta k op"
    and ok: "table_ok (objects st)"
  shows "\<exists>e'. map_of (objects (snd (run_op E now op st))) k = Some e' \<and>
    reading t0 deadline r (c + read_delta k op) e'"
proof -
  have unlocked: "\<not> is_locked now (write_lock e)"
    using e(2) t(1) not_locked_later by (auto simp: reading_def)
  have exp: "now < expiration_ms (read_lock e)" and c: "counter (read_lock e) = c" "0 < c"
    using e(2) t(2) by (auto simp: reading_def)
  have locked: "is_locked now (read_lock e)" using exp c by (simp add: is_locked_def)
  have fixed: "((\<lambda>x. Option.bind x f) ^^ m) (Some e) = Some e" if "f e = Some e" for f m
    by (rule funpow_fixpoint) (simp add: that)
  have f: "((\<lambda>x. Option.bind x (fw_entry now)) ^^ m) (Some e) = Some e"
    "((\<lambda>x. Option.bind x (fwr_entry now n)) ^^ m) (Some e) = Some e"
    "((\<lambda>x. Option.bind x (dl_entry now)) ^^ m) (Some e) = Some e" for n m
    by (intro fixed; use locked unlocked in \<open>simp add: fw_defs dl_defs entry_locked_def\<close>)+
  show ?thesis
  proof (cases op)
    case (ReserveRead ks ec)
    let ?m = "nat (1 + validate_extra_count ec) * count_list ks k"
    let ?e = "e\<lparr>read_lock := lock_times ?m now (read_lock e)\<rparr>"
    have m: "int ?m = read_delta k op" using ReserveRead validate_nonneg [of ec] by simp
    have ttl: "0 < ttl_ms (read_lock e)" using e(2) by (simp add: reading_def)
    have "counter (read_lock ?e) = c + read_delta k op"
      using lock_times_held(1) [OF ttl exp, of ?m] c(1) m by simp
    moreover have "deadline \<le> expiration_ms (read_lock ?e)"
      using lock_times_held(2) [OF ttl exp, of deadline ?m] e(2) t(1) by (simp add: reading_def)
    ultimately have "reading t0 deadline r (c + read_delta k op) ?e"
      using e(2) op(2) by (simp add: reading_def)
    then show ?thesis
      using ReserveRead e(1) by (simp add: objects_after map_of_fold_entry_upd_iter rr_iter unlocked)
  next
    case (FinishRead ks ec)
    let ?m = "nat (1 + validate_extra_count ec) * count_list ks k"
    let ?e = "e\<lparr>read_lock := unlock_times ?m (read_lock e)\<rparr>"
    have m: "int ?m = - read_delta k op" using FinishRead validate_nonneg [of ec] by simp
    then have less: "int ?m < counter (read_lock e)" using op(2) c by simp
    then have "counter (read_lock ?e) = c + read_delta k op" using m c by (simp add: unlock_times_eq)
    then have "reading t0 deadline r (c + read_delta k op) ?e"
      using e(2) op(2) c by (simp add: reading_def unlock_times_eq)
    then show ?thesis
      using FinishRead e(1) fr_iter [OF unlocked exp less] objects_after(2) [of E now ks ec st]
      by (simp add: map_of_fold_entry_upd_iter)
  next
    case (ReserveWrite ks ts l m)
    then show ?thesis using reserve_write_locked [OF e(1), of now] locked e(2)
      by (simp add: available_for_write_def)
  next
    case (Clear force)
    then show ?thesis using clear_keeps_locked [OF e(1) _ ok, of now] locked op(1) e(2)
      by (simp add: entry_locked_def)
  qed (use e in \<open>simp_all add: objects_after map_of_fold_entry_upd_iter f\<close>)
qed

lemma reading_history:
  assumes E: "sorted_list_ok E"
    and h: "\<forall>(t, op) \<in> set h. op_ok E op \<and> op \<noteq> Clear True \<and> t0 \<le> t \<and> t < deadline"
    and "l1_inv st" "map_of (objects st) k = Some e" "reading t0 deadline r c e" "held k c h"
  shows "\<exists>st' e' c'. run_ops E h st = (Inr (), st') \<and> l1_inv st' \<and> map_of (objects st') k = Some e' \<and>
      reading t0 deadline r c' e' \<and>
      objs (mm_mem (memory_manager st')) r = objs (mm_mem (memory_manager st)) r"
  using assms(2-)
proof (induction h arbitrary: st e c)
  case Nil
  then show ?case by auto
next
  case (Cons x h)
  obtain t op where x: "x = (t, op)" by (cases x)
  have op: "op_ok E op" "op \<noteq> Clear True" "t0 \<le> t" "t < deadline" "0 < c + read_delta k op"
    using Cons.prems by (auto simp: x)
  obtain st1 where st1: "run_op E t op st = (Inr (), st1)" "l1_inv st1"
    "mm_keeps (memory_manager st) (memory_manager st1)"
    using run_op_inv [OF E Cons.prems(2) op(1)] by blast
  have t: "table_ok (objects st)" using Cons.prems(2) by (simp add: l1_inv_def)
  obtain e1 where e1: "map_of (objects st1) k = Some e1" "reading t0 deadline r (c + read_delta k op) e1"
    using reading_step [OF Cons.prems(3,4) op(3,4,2,5) t, of E] st1(1) by auto
  have "objs (mm_mem (memory_manager st1)) r = objs (mm_mem (memory_manager st)) r"
    using st1(3) l1_inv_live [OF Cons.prems(2,3)] l1_inv_live [OF st1(2) e1(1)] Cons.prems(4) e1(2)
    by (simp add: mm_keeps_def reading_def)
  moreover have "held k (c + read_delta k op) h" using Cons.prems(5) by (simp add: x)
  ultimately show ?case using Cons.IH [OF _ st1(2) e1] Cons.prems(1) by (simp add: x st1(1))
qed

end
