(* ===== verification/L1_Properties.thy ===== *)
theory L1_Properties
  imports L1_History
begin

text \<open>The properties of the L1 manager, over the lemmas of L1_State and L1_History.\<close>

section \<open>A sample manager\<close>

definition sample_layout :: memory_layout_desc where
  "sample_layout = \<lparr>layout_shapes = [[2, 32]], layout_dtypes = [''int8'']\<rparr>"

definition sample_mm :: l1_mm where
  "sample_mm = \<lparr>mm_kind = MixedAllocator, mm_mem = sample_pool\<rparr>"

definition sample_l1 :: "int l1" where
  "sample_l1 = l1_init sample_mm 600 300"

definition sample_written :: "int l1" where
  "sample_written = snd (reserve_write reference_env 0 [1, 2] [False, True] sample_layout ModeNew sample_l1)"

lemma sample_layout_ok: "layout_ok reference_env sample_layout"
  using sample_shape(2) by (simp add: layout_ok_def sample_layout_def)

lemma sample_mm_ok: "mm_inv sample_mm"
  using sample_pool_ok
  by (auto simp: mm_inv_def sample_mm_def sample_pool_def empty_pool_def)

lemma sample_l1_inv: "l1_inv sample_l1"
  unfolding sample_l1_def by (rule l1_init_inv [OF sample_mm_ok]) simp_all

lemma sample_written_eq:
  "\<exists>ret. reserve_write reference_env 0 [1, 2] [False, True] sample_layout ModeNew sample_l1 = (Inr ret, sample_written)"
  "l1_inv sample_written"
  using reserve_write_inv [OF reference_sorted_list_ok sample_layout_ok sample_l1_inv, of 0 "[1, 2]" "[False, True]" ModeNew]
  by (auto simp: sample_written_def)

definition sample_entry :: "nat \<Rightarrow> bool \<Rightarrow> l1_object_state" where
  "sample_entry r tmp = \<lparr>memory_obj = r, write_lock = \<lparr>counter = 1, expiration_ms = 600000, ttl_ms = 600000\<rparr>,
     read_lock = \<lparr>counter = 0, expiration_ms = 0, ttl_ms = 300000\<rparr>, is_temporary = tmp\<rparr>"

lemma sample_written_objects: "objects sample_written = [(1, sample_entry 0 False), (2, sample_entry 1 True)]"
  by code_simp

section \<open>Histories\<close>

text \<open>C4: Histories of the L1 manager. Start it over a fresh memory manager of either kind and
  apply any calls in any order at any times, by any number of clients, with the background
  expansion and new listeners in between: every entry's memory object is allocated, no two
  keys share one, the memory check answers True, an eviction policy that listens tracks
  only keys that exist, and no further call with a sensible layout can raise.\<close>

theorem l1_histories_are_safe:
  assumes "sorted_list_ok E" "mm_init E ptr use_lazy isz sz (2 ^ k) = Inr mem" "0 < sz"
    and "use_lazy \<longrightarrow> 0 < isz \<and> isz \<le> sz" "0 < w" "0 < r"
    and "(l1_step E)\<^sup>*\<^sup>* (t0, l1_init mem w r) (now, st)"
  shows "(\<forall>key e. get_object_state key st = Some e \<longrightarrow> memory_obj e \<in> mm_live (memory_manager st)) \<and>
    (\<forall>key key' e e'. get_object_state key st = Some e \<and> get_object_state key' st = Some e' \<and>
       memory_obj e = memory_obj e' \<longrightarrow> key = key') \<and>
    l1_memcheck st \<and>
    (\<forall>p. PolicyListener p \<in> set (listeners st) \<longrightarrow> policy_tracked p \<subseteq> set (dict_keys (objects st))) \<and>
    (\<forall>op. op_ok E op \<longrightarrow> (\<exists>st'. run_op E now op st = (Inr (), st')))"
proof -
  have "mm_inv mem" using mm_init_ok [OF assms(1,3), of use_lazy isz ptr k] assms(2,4) by auto
  from l1_reachable_inv [OF assms(7,1) this assms(5,6)] have inv: "l1_inv st" by simp
  then have ow: "mm.owned (obj_map (objects st)) {} (memory_manager st)" by (simp add: l1_inv_def)
  then obtain j where "pool_ok j (mm_mem (memory_manager st))" by (auto simp: mm.owned_def mm_inv_def)
  then have "l1_memcheck st"
    using check_consistency_inv [of "pool_am (mm_mem (memory_manager st))"]
    by (simp add: l1_memcheck_def mm_memcheck_def pool_ok_def ta_memcheck_def Let_def get_free_size_def get_heap_size_def)
  moreover have "policy_tracked p \<subseteq> set (dict_keys (objects st))" if "PolicyListener p \<in> set (listeners st)" for p
    using listeners_inv [OF inv that] by (simp add: policy.confined_def)
  ultimately show ?thesis using inv ow run_op_inv [OF assms(1) inv]
    by (fastforce simp: get_object_state_def l1_inv_live mm.owned_def obj_map_def)
qed

lemma l1_histories_are_safe_witness: "l1_memcheck sample_written"
proof -
  have m: "mm_init reference_env 0 False 0 16384 (2 ^ 12) = Inr sample_mm"
    by (simp add: mm_init_def sample_mm_def sample_pool_def empty_pool_def)
  obtain ret where "reserve_write reference_env 0 [1, 2] [False, True] sample_layout ModeNew sample_l1 = (Inr ret, sample_written)"
    using sample_written_eq(1) by blast
  then have "run_op reference_env 0 (ReserveWrite [1, 2] [False, True] sample_layout ModeNew) sample_l1 = (Inr (), sample_written)"
    by simp
  from call [OF _ this] have "l1_step reference_env (0, sample_l1) (0, sample_written)"
    by (simp add: sample_layout_ok)
  then have "(l1_step reference_env)\<^sup>*\<^sup>* (0, l1_init sample_mm 600 300) (0, sample_written)"
    by (simp add: sample_l1_def)
  from l1_histories_are_safe [OF reference_sorted_list_ok m _ _ _ _ this] show ?thesis by simp
qed

section \<open>The locks\<close>

text \<open>C6: The write lock is exclusive. An entry whose write lock is held is untouched by any
  sequence of calls made before the lock expires, other than its own finish_write, its own
  finish_write_and_reserve_read, and a forced clear: reads and writes of it are refused, deletes and
  clears skip it, its memory object stays allocated and unchanged, and no call raises.\<close>

theorem write_lock_is_exclusive:
  assumes "sorted_list_ok E" "l1_inv st" "get_object_state key st = Some e" "0 < counter (write_lock e)"
    and "\<forall>(t, op) \<in> set h. op_ok E op \<and> t < expiration_ms (write_lock e) \<and> \<not> ends_write key op"
  shows "\<exists>st'. run_ops E h st = (Inr (), st') \<and> get_object_state key st' = Some e \<and>
    memory_obj e \<in> mm_live (memory_manager st') \<and>
    objs (mm_mem (memory_manager st')) (memory_obj e) = objs (mm_mem (memory_manager st)) (memory_obj e) \<and>
    (\<forall>t < expiration_ms (write_lock e).
       fst (reserve_read t [key] 0 st') = [(key, (KEY_NOT_READABLE, None))] \<and>
       fst (reserve_write E t [key] [False] layout ModeAll st') = Inr [(key, (KEY_NOT_WRITABLE, None))])"
proof -
  obtain st' where st': "run_ops E h st = (Inr (), st')" "l1_inv st'" "map_of (objects st') key = Some e"
    "objs (mm_mem (memory_manager st')) (memory_obj e) = objs (mm_mem (memory_manager st)) (memory_obj e)"
    using write_locked_history [OF assms(1,5,2) _ assms(4)] assms(3) by (auto simp: get_object_state_def)
  have "is_locked t (write_lock e)" if "t < expiration_ms (write_lock e)" for t
    using that assms(4) by (simp add: is_locked_def)
  then have "\<not> available_for_read t e \<and> \<not> available_for_write t e" if "t < expiration_ms (write_lock e)" for t
    using that by (simp add: available_for_read_def available_for_write_def)
  then show ?thesis using st' l1_inv_live [OF st'(2,3)]
    by (simp add: get_object_state_def reserve_read_def reserve_read_step_def reserve_write_def
        reserve_write_step_def Let_def)
qed

lemma write_lock_is_exclusive_witness:
  "\<exists>st'. run_ops reference_env [(5, Delete [1, 2]), (6, Clear False), (7, FinishWrite [2])] sample_written = (Inr (), st') \<and>
    get_object_state 1 st' = Some (sample_entry 0 False)"
  using write_lock_is_exclusive [OF reference_sorted_list_ok sample_written_eq(2), of 1 "sample_entry 0 False"
      "[(5, Delete [1, 2]), (6, Clear False), (7, FinishWrite [2])]"]
  by (auto simp: get_object_state_def sample_written_objects sample_entry_def)

definition rr_held :: "int \<Rightarrow> ('k, l1_object_state) dict \<times> ('k, l1_result) dict \<times> 'k list \<Rightarrow> 'k \<Rightarrow> bool" where
  "rr_held now s k \<longleftrightarrow> table_ok (fst s) \<and>
     (\<forall>r. map_of (fst (snd s)) k = Some (SUCCESS, Some r) \<longrightarrow>
       (\<exists>e. map_of (fst s) k = Some e \<and> memory_obj e = r \<and> \<not> is_locked now (write_lock e) \<and>
         0 < counter (read_lock e) \<and> 0 < ttl_ms (read_lock e) \<and>
         expiration_ms (read_lock e) = now + ttl_ms (read_lock e)))"

lemma rr_held_step:
  assumes "rr_held now s k"
  shows "rr_held now (reserve_read_step now (Suc n) q s) k"
proof (cases s)
  case (fields d ret ok)
  show ?thesis
  proof (cases "\<exists>e. map_of d q = Some e \<and> available_for_read now e")
    case False
    then show ?thesis using assms
      by (auto simp: rr_held_def fields reserve_read_step_def dict_simps split: option.splits)
  next
    case True
    then obtain e where e: "map_of d q = Some e" "available_for_read now e" by blast
    have ok: "entry_ok e" using assms e(1) by (auto simp: rr_held_def fields table_ok_def)
    have l: "0 < counter (lock_times (Suc n) now (read_lock e))"
      "expiration_ms (lock_times (Suc n) now (read_lock e)) = now + ttl_ms (read_lock e)"
      using ok by (simp_all add: entry_ok_def lock_ok_def lock_times_eq del: lock_times_simps(2))
    show ?thesis using assms e l ok
      by (auto simp: rr_held_def fields reserve_read_step_def dict_simps table_ok_def entry_ok_def
          lock_ok_def available_for_read_def counter_nonneg simp del: lock_times_simps(2))
  qed
qed

lemma reserve_read_success:
  assumes "l1_inv st" "reserve_read now ks ec st = (ret, st')" "map_of ret k = Some (SUCCESS, Some r)"
  shows "\<exists>e. map_of (objects st') k = Some e \<and> memory_obj e = r \<and> \<not> is_locked now (write_lock e) \<and>
    0 < counter (read_lock e) \<and> 0 < ttl_ms (read_lock e) \<and> expiration_ms (read_lock e) = now + ttl_ms (read_lock e)"
proof -
  obtain n where n: "nat (1 + validate_extra_count ec) = Suc n"
    using validate_nonneg [of ec] by (metis Suc_nat_eq_nat_zadd1)
  have "rr_held now (fold (reserve_read_step now (Suc n)) ks s) k" if "rr_held now s k" for s
    using that by (induction ks arbitrary: s) (simp_all add: rr_held_step)
  moreover have "rr_held now (objects st, [], []) k" using assms(1) by (simp add: rr_held_def l1_inv_def)
  ultimately have "rr_held now (fold (reserve_read_step now (Suc n)) ks (objects st, [], [])) k" .
  then show ?thesis using assms(2,3) by (auto simp: reserve_read_def Let_def n rr_held_def split: prod.splits)
qed

text \<open>C5: A read reservation protects its object. After a successful reserve_read of a key at t0,
  and through any later calls before t0 plus the lock's time to live, by anyone, except a
  forced clear, as long as after every one of them at least one of the key's read locks has
  not been given back: the entry stays with the same memory object, which stays allocated
  and unchanged, no call raises, and unsafe_read returns it at any time before the
  deadline, although others may read, try to write, delete or clear meanwhile.\<close>

theorem read_lock_protects:
  assumes "sorted_list_ok E" "l1_inv st0" "reserve_read t0 keys extra_count st0 = (ret, st)"
    and "map_of ret key = Some (SUCCESS, Some r)" "get_object_state key st = Some e"
    and "\<forall>(t, op) \<in> set h. op_ok E op \<and> op \<noteq> Clear True \<and> t0 \<le> t \<and> t < t0 + ttl_ms (read_lock e)"
    and "held key (counter (read_lock e)) h"
  shows "\<exists>st'. run_ops E h st = (Inr (), st') \<and> r \<in> mm_live (memory_manager st') \<and>
    objs (mm_mem (memory_manager st')) r = objs (mm_mem (memory_manager st)) r \<and>
    (\<forall>t < t0 + ttl_ms (read_lock e). unsafe_read t [key] st' = [(key, (SUCCESS, Some r))])"
proof -
  let ?D = "t0 + ttl_ms (read_lock e)"
  have inv: "l1_inv st" using reserve_read_inv [OF assms(2), of t0 keys extra_count] assms(3) by simp
  have e: "map_of (objects st) key = Some e" using assms(5) by (simp add: get_object_state_def)
  have "reading t0 ?D r (counter (read_lock e)) e"
    using reserve_read_success [OF assms(2-4)] e by (auto simp: reading_def)
  from reading_history [OF assms(1,6) inv e this assms(7)] obtain st' e' c' where
    st': "run_ops E h st = (Inr (), st')" "l1_inv st'" "map_of (objects st') key = Some e'"
      "reading t0 ?D r c' e'" "objs (mm_mem (memory_manager st')) r = objs (mm_mem (memory_manager st)) r"
    by blast
  have "is_locked t (read_lock e')" if "t < ?D" for t
    using st'(4) that by (auto simp: reading_def is_locked_def)
  then show ?thesis using st' l1_inv_live [OF st'(2,3)]
    by (auto simp: unsafe_read_def unsafe_read_step_def reading_def)
qed

definition sample_finished :: "int l1" where
  "sample_finished = snd (finish_write 1 [1, 2] sample_written)"

lemma sample_finished_inv: "l1_inv sample_finished"
  unfolding sample_finished_def by (rule finish_write_inv [OF sample_written_eq(2)])

definition sample_reading :: "int l1" where
  "sample_reading = snd (reserve_read 2 [1, 2] 1 sample_finished)"

lemma sample_reading_eq:
  "reserve_read 2 [1, 2] 1 sample_finished = ([(1, SUCCESS, Some 0), (2, SUCCESS, Some 1)], sample_reading)"
  "\<exists>e. get_object_state 2 sample_reading = Some e \<and> counter (read_lock e) = 2 \<and> ttl_ms (read_lock e) = 300000"
proof -
  have "fst (reserve_read 2 [1, 2] 1 sample_finished) = [(1, SUCCESS, Some 0), (2, SUCCESS, Some 1)]"
    by code_simp
  then show "reserve_read 2 [1, 2] 1 sample_finished = ([(1, SUCCESS, Some 0), (2, SUCCESS, Some 1)], sample_reading)"
    by (metis prod.collapse sample_reading_def)
  have "map_option (\<lambda>e. (counter (read_lock e), ttl_ms (read_lock e))) (get_object_state 2 sample_reading) = Some (2, 300000)"
    by code_simp
  then show "\<exists>e. get_object_state 2 sample_reading = Some e \<and> counter (read_lock e) = 2 \<and> ttl_ms (read_lock e) = 300000"
    by auto
qed

lemma read_lock_protects_witness:
  "\<exists>st'. run_ops reference_env [(5, FinishRead [2] 0), (6, Delete [1, 2]), (7, Clear False)] sample_reading = (Inr (), st') \<and>
    unsafe_read 8 [2] st' = [(2, (SUCCESS, Some 1))]"
proof -
  obtain e where e: "get_object_state 2 sample_reading = Some e" "counter (read_lock e) = 2" "ttl_ms (read_lock e) = 300000"
    using sample_reading_eq(2) by blast
  have "held 2 (counter (read_lock e)) [(5, FinishRead [2] 0), (6, Delete [1, 2]), (7, Clear False)]"
    using e(2) by (simp add: validate_extra_count_def MAX_READ_LOCK_COUNT_def)
  from read_lock_protects [OF reference_sorted_list_ok sample_finished_inv sample_reading_eq(1) _ e(1) _ this, of 1]
  show ?thesis using e(3) by auto
qed

section \<open>What the calls answer\<close>

text \<open>Functional behaviour of reserve_read on distinct keys. Each key gets its own answer
  (missing, being written, or its memory object), exactly the entries answered with
  SUCCESS take 1 + extra_count read locks, a number between 1 and 128 whatever extra_count
  is, nothing else changes, and the published event lists the successful keys in order.\<close>

theorem reserve_read_spec:
  assumes "distinct keys"
  shows "\<exists>ret st' n. reserve_read now keys extra_count st = (ret, st') \<and> 1 \<le> n \<and> n \<le> 128 \<and>
    (0 \<le> extra_count \<and> extra_count < 128 \<longrightarrow> int n = 1 + extra_count) \<and>
    (\<forall>k. map_of ret k = (if k \<notin> set keys then None else Some (case get_object_state k st of
         None \<Rightarrow> (KEY_NOT_EXIST, None)
       | Some e \<Rightarrow> if is_locked now (write_lock e) then (KEY_NOT_READABLE, None) else (SUCCESS, Some (memory_obj e))))) \<and>
    (\<forall>k. get_object_state k st' = (case get_object_state k st of
         None \<Rightarrow> None
       | Some e \<Rightarrow> Some (if k \<in> set keys \<and> \<not> is_locked now (write_lock e)
                        then e\<lparr>read_lock := lock_times n now (read_lock e)\<rparr> else e))) \<and>
    memory_manager st' = memory_manager st \<and>
    event_bus st' = event_bus st @ [(L1_READ_RESERVED,
      filter (\<lambda>k. case get_object_state k st of None \<Rightarrow> False | Some e \<Rightarrow> \<not> is_locked now (write_lock e)) keys)]"
proof -
  let ?n = "nat (1 + validate_extra_count extra_count)"
  have n: "1 \<le> ?n" "?n \<le> 128" "0 \<le> extra_count \<and> extra_count < 128 \<longrightarrow> int ?n = 1 + extra_count"
    by (auto simp: validate_extra_count_def MAX_READ_LOCK_COUNT_def Let_def)
  obtain ret st' where st': "reserve_read now keys extra_count st = (ret, st')" by fastforce
  then have ret: "ret = fold (\<lambda>k r. case Some (rr_result now (map_of (objects st) k)) of None \<Rightarrow> r
      | Some x \<Rightarrow> dict_set k x r) keys []"
    and ev: "event_bus st' = event_bus st @ [(L1_READ_RESERVED, filter (\<lambda>k. rr_good now (map_of (objects st) k)) keys)]"
    and mm: "memory_manager st' = memory_manager st"
    by (simp_all add: reserve_read_eq key_loop_distinct [OF assms] publish_def)
      (auto simp: publish_def notify_def)
  have "map_of ret k = (if k \<notin> set keys then None else Some (rr_result now (map_of (objects st) k)))" for k
    unfolding ret using map_of_results [OF assms, of "\<lambda>k. Some (rr_result now (map_of (objects st) k))" "[]" k]
    by simp
  moreover have "get_object_state k st' = (if k \<in> set keys then Option.bind (map_of (objects st) k) (rr_entry now ?n)
      else map_of (objects st) k)" for k
    using objects_after(1) [of now keys extra_count st] st'
    by (simp add: get_object_state_def map_of_fold_entry_upd [OF assms])
  ultimately show ?thesis using n st' ev mm
    by (intro exI [of _ ret] exI [of _ st'] exI [of _ ?n])
      (auto simp: get_object_state_def rr_defs available_for_read_def split: option.splits)
qed

lemma reserve_read_spec_witness:
  "\<exists>ret st'. reserve_read 1 [1, 3] 500 sample_written = (ret, st') \<and>
    map_of ret 1 = Some (KEY_NOT_READABLE, None) \<and> map_of ret 3 = Some (KEY_NOT_EXIST, None)"
proof -
  have "distinct [1, 3 :: int]" by simp
  from reserve_read_spec [OF this, of 1 500 sample_written] show ?thesis
    by (auto simp: get_object_state_def sample_written_objects sample_entry_def is_locked_def)
qed

text \<open>Functional behaviour of delete on distinct keys. It never raises; exactly the requested
  keys that exist and hold neither lock disappear, each key gets its own answer, exactly
  their memory objects are returned to the allocator, and policies stop tracking them.\<close>

theorem l1_delete_spec:
  assumes "sorted_list_ok E" "l1_inv st" "distinct keys"
  shows "\<exists>ret st'. l1_delete E now keys st = (Inr ret, st') \<and>
    (\<forall>k. map_of ret k = (if k \<notin> set keys then None else Some (case get_object_state k st of
         None \<Rightarrow> KEY_NOT_EXIST | Some e \<Rightarrow> if entry_locked now e then KEY_IS_LOCKED else SUCCESS))) \<and>
    (\<forall>k. get_object_state k st' = (case get_object_state k st of
         None \<Rightarrow> None
       | Some e \<Rightarrow> if k \<in> set keys \<and> \<not> entry_locked now e then None else Some e)) \<and>
    mm_live (memory_manager st') = mm_live (memory_manager st) -
      {memory_obj e | k e. k \<in> set keys \<and> get_object_state k st = Some e \<and> \<not> entry_locked now e} \<and>
    (\<forall>p. PolicyListener p \<in> set (listeners st') \<longrightarrow>
       policy_tracked p \<inter> {k \<in> set keys. \<exists>e. get_object_state k st = Some e \<and> \<not> entry_locked now e} = {})"
proof -
  let ?d = "objects st" and ?f = "dl_entry now"
  let ?ok = "filter (\<lambda>k. dl_good now (map_of ?d k)) keys"
  let ?free = "concat (map (\<lambda>k. case removed_obj ?f (map_of ?d k) of None \<Rightarrow> [] | Some r \<Rightarrow> [r]) keys)"
  let ?d' = "fold (entry_upd ?f) keys ?d"
  let ?ret = "fold (\<lambda>k r. case Some (dl_result now (map_of ?d k)) of None \<Rightarrow> r | Some x \<Rightarrow> dict_set k x r) keys []"
  have loop: "fold (key_step ?f (\<lambda>x. Some (dl_result now x)) (dl_good now)) keys (?d, [], [], [], []) =
      (?d', ?ret, ?ok, ?free, filter (\<lambda>k. removed_obj ?f (map_of ?d k) \<noteq> None) keys)"
    by (simp add: key_loop_distinct [OF assms(3)])
  have gone: "filter (\<lambda>k. removed_obj ?f (map_of ?d k) \<noteq> None) keys = ?ok"
    by (rule filter_cong) (auto simp: removed_obj_def dl_defs split: option.splits)
  have l: "loop_ok (set (dict_keys ?d)) (memory_manager st) (?d', ?ret, ?ok, ?free, ?ok)"
    unfolding loop [unfolded gone, symmetric]
    by (intro key_loop_ok loop_start) (fact assms(2) | simp add: dl_good_def)+
  have "\<exists>mem. mm_free E ?free (memory_manager st) = (Inr SUCCESS, mem) \<and>
    mm_live mem = mm_live (memory_manager st) - set ?free \<and> mm_keeps (memory_manager st) mem \<and>
    l1_inv (notify (on_l1_keys_deleted ?ok) (st\<lparr>objects := ?d', memory_manager := mem\<rparr>))"
    by (rule freed_inv [OF assms(1,2) l]) (rule listener_ok_deleted [OF _ loop_keys [OF l]])
  then obtain mem where mem: "mm_free E ?free (memory_manager st) = (Inr SUCCESS, mem)"
    "mm_live mem = mm_live (memory_manager st) - set ?free"
    "l1_inv (notify (on_l1_keys_deleted ?ok) (st\<lparr>objects := ?d', memory_manager := mem\<rparr>))" by blast
  let ?st = "publish L1_KEYS_EVICTED ?ok (notify (on_l1_keys_deleted ?ok) (st\<lparr>objects := ?d', memory_manager := mem\<rparr>))"
  have eq: "l1_delete E now keys st = (Inr ?ret, ?st)"
    unfolding l1_delete_eq loop gone prod.case mem(1) sum.case by simp
  have m: "map_of ?d' k = (if k \<in> set keys then Option.bind (map_of ?d k) ?f else map_of ?d k)" for k
    by (rule map_of_fold_entry_upd [OF assms(3)])
  have r: "map_of ?ret k = (if k \<notin> set keys then None else Some (dl_result now (map_of ?d k)))" for k
    using map_of_results [OF assms(3), of "\<lambda>k. Some (dl_result now (map_of ?d k))" "[]" k] by simp
  have f: "set ?free = {memory_obj e | k e. k \<in> set keys \<and> map_of ?d k = Some e \<and> \<not> entry_locked now e}"
    by (force simp: removed_obj_def dl_entry_def split: option.splits if_splits)
  have "policy_tracked p \<subseteq> set (dict_keys ?d')" if "PolicyListener p \<in> set (listeners ?st)" for p
    using listeners_inv [OF mem(3), of "PolicyListener p"] that
    by (simp add: publish_def policy.confined_def del: set_map)
  moreover have "k \<notin> set (dict_keys ?d')" if "k \<in> set keys" "map_of ?d k = Some e" "\<not> entry_locked now e" for k e
    using m [of k] that unfolding dict_in_keys_iff by (simp add: dl_entry_def)
  ultimately have "policy_tracked p \<inter> {k \<in> set keys. \<exists>e. map_of ?d k = Some e \<and> \<not> entry_locked now e} = {}"
    if "PolicyListener p \<in> set (listeners ?st)" for p using that by blast
  then show ?thesis using eq m r f mem(2)
    by (intro exI [of _ ?ret] exI [of _ ?st])
      (auto simp: get_object_state_def dl_defs split: option.splits)
qed

lemma l1_delete_spec_witness:
  "\<exists>ret st'. l1_delete reference_env 1000000 [1, 2, 3] sample_written = (Inr ret, st') \<and>
    map_of ret 2 = Some SUCCESS \<and> map_of ret 3 = Some KEY_NOT_EXIST \<and> get_object_state 1 st' = None"
proof -
  have "distinct [1, 2, 3 :: int]" by simp
  from l1_delete_spec [OF reference_sorted_list_ok sample_written_eq(2) this, of 1000000] show ?thesis
    by (auto simp: get_object_state_def sample_written_objects sample_entry_def entry_locked_def is_locked_def)
qed

text \<open>An abandoned write becomes readable. If the writer of a new key never calls
  finish_write, then once the write lock expires the entry, whose memory was never
  completely written, is handed to readers as a success; and no eviction policy tracks the
  key, so no eviction can ever choose it.\<close>

theorem abandoned_write_becomes_readable:
  assumes "l1_inv st" "get_object_state key st = None"
    and "reserve_write E t0 [key] [tmp] layout mode st = (Inr [(key, (SUCCESS, Some r))], st')"
    and "t0 + write_ttl_seconds st * 1000 \<le> t"
  shows "fst (reserve_read t [key] 0 st') = [(key, (SUCCESS, Some r))] \<and>
    (\<forall>p. PolicyListener p \<in> set (listeners st') \<longrightarrow> key \<notin> policy_tracked p)"
proof -
  have none: "map_of (objects st) key = None" using assms(2) by (simp add: get_object_state_def)
  obtain err rs mm where a: "mm_allocate E layout 1 (memory_manager st) = (Inr (err, rs), mm)"
    using assms(3) none
    by (auto simp: reserve_write_def reserve_write_step_def Let_def mark_all_def split: if_splits prod.splits sum.splits)
  have err: "err = SUCCESS" and l: "listeners st' = listeners st"
    using assms(3) none a
    by (auto simp: reserve_write_def reserve_write_step_def Let_def mark_all_def publish_def split: if_splits prod.splits sum.splits)
  obtain q where rs: "rs = q # tl rs"
    using assms(3) none a err
    by (cases rs) (auto simp: reserve_write_def reserve_write_step_def Let_def mark_all_def split: if_splits)
  have zip: "zip [(key, tmp)] rs = [((key, tmp), q)]" by (subst rs) simp
  have e: "map_of (objects st') key = Some \<lparr>memory_obj = r, write_lock = ttl_lock t0 (ttl_new (write_ttl_seconds st)),
      read_lock = ttl_new (read_ttl_seconds st), is_temporary = tmp\<rparr>"
    using assms(3) none a err zip
    by (auto simp: reserve_write_def reserve_write_step_def Let_def mark_all_def insert_new_step_def dict_simps
        split: if_splits)
  have "\<not> is_locked t (ttl_lock t0 (ttl_new (write_ttl_seconds st)))"
    using assms(4) by (simp add: is_locked_def ttl_lock_def ttl_new_def)
  then have "fst (reserve_read t [key] 0 st') = [(key, (SUCCESS, Some r))]"
    by (simp add: reserve_read_def reserve_read_step_def Let_def e available_for_read_def)
  moreover have "key \<notin> policy_tracked p" if "PolicyListener p \<in> set (listeners st')" for p
  proof -
    have "policy_tracked p \<subseteq> set (dict_keys (objects st))"
      using listeners_inv [OF assms(1)] that l by (fastforce simp: policy.confined_def)
    then show ?thesis using none unfolding map_of_eq_None_iff by auto
  qed
  ultimately show ?thesis by blast
qed

lemma abandoned_write_becomes_readable_witness:
  "fst (reserve_read 600000 [7] 0 (snd (reserve_write reference_env 0 [7] [False] sample_layout ModeNew sample_l1)))
    = [(7, (SUCCESS, Some 0))]"
proof -
  let ?w = "reserve_write reference_env 0 [7] [False] sample_layout ModeNew sample_l1"
  have "fst ?w = Inr [(7, (SUCCESS, Some 0))]" by code_simp
  then have "?w = (Inr [(7, (SUCCESS, Some 0))], snd ?w)" by (metis prod.collapse)
  from abandoned_write_becomes_readable [OF sample_l1_inv _ this, of 600000] show ?thesis
    by (simp add: get_object_state_def sample_l1_def l1_init_def)
qed

end
