(* ===== verification/Paged_Allocator.thy ===== *)
theory Paged_Allocator
  imports Tensor_Allocator
begin

text \<open>
  PagedTensorMemoryAllocator and PagedAddressManager of memory_management.py: every page
  has its memory object from the start, and free_blocks is a queue of them. A page is not
  invalidated when it is freed, so the properties are about clients that free only what
  they hold; what happens to a client that counts a reference down too often is a
  theorem as well.
\<close>

section \<open>State and operations\<close>

record paged_allocator =
  pa_buffer_size :: int
  pa_shapes :: "torch_size list"
  pa_dtypes :: "torch_dtype list"
  pa_align_bytes :: int
  pa_free_blocks :: "nat list"
  pa_num_active :: int
  pa_total_allocated :: int

type_synonym pa_mem = "paged_allocator mem"

definition page_buffer :: "paged_allocator \<Rightarrow> int \<Rightarrow> int \<times> int" where
  "page_buffer al idx = (idx * pa_align_bytes al, pa_align_bytes al)"

fun init_pages :: "env \<Rightarrow> memory_format \<Rightarrow> int \<Rightarrow> nat \<Rightarrow> pa_mem \<Rightarrow> (unit, pa_mem) outcome" where
  "init_pages E f idx 0 st = (Inr (), st)"
| "init_pages E f idx (Suc n) st =
     (let al = allocator st
      in case (pa_shapes al, pa_dtypes al) of
           (s # _, d # _) \<Rightarrow>
             (case tensor_memory_obj E (page_buffer al idx)
                 \<lparr>shape = s, dtype = Some d, address = idx, phy_size = pa_align_bytes al,
                  ref_count = 1, pin_count = 0, fmt = f, shapes = Some (pa_shapes al),
                  dtypes = Some (pa_dtypes al)\<rparr> True of
                Inl e \<Rightarrow> (Inl e, st)
              | Inr m \<Rightarrow>
                  (case new_obj m st of
                     (r, st') \<Rightarrow> init_pages E f (idx + 1) n
                       (st'\<lparr>allocator := al\<lparr>pa_free_blocks := pa_free_blocks al @ [r]\<rparr>\<rparr>)))
         | _ \<Rightarrow> (Inl IndexError, st))"

definition pa_init :: "env \<Rightarrow> int \<Rightarrow> torch_size list \<Rightarrow> torch_dtype list \<Rightarrow> memory_format
    \<Rightarrow> py_error + pa_mem" where
  "pa_init E buffer_numel ss ds f =
     (case get_size_bytes E ss ds of
        Inl e \<Rightarrow> Inl e
      | Inr n \<Rightarrow>
          if n = 0 then Inl ZeroDivisionError
          else if buffer_numel mod n \<noteq> 0 then Inl AssertionError
          else (case init_pages E f 0 (nat (buffer_numel div n))
              \<lparr>allocator = \<lparr>pa_buffer_size = buffer_numel, pa_shapes = ss, pa_dtypes = ds,
                 pa_align_bytes = n, pa_free_blocks = [], pa_num_active = 0,
                 pa_total_allocated = 0\<rparr>, objs = (\<lambda>r. None), next_oid = 0\<rparr> of
              (Inl e, st) \<Rightarrow> Inl e
            | (Inr _, st) \<Rightarrow> Inr st))"

text \<open>What allocate and batched_allocate do to the page they popped.\<close>

definition refit_page :: "env \<Rightarrow> torch_size list \<Rightarrow> torch_dtype list \<Rightarrow> memory_format \<Rightarrow> nat
    \<Rightarrow> pa_mem \<Rightarrow> (unit, pa_mem) outcome" where
  "refit_page E ss ds f r st =
     (case (ss, ds) of
        (s # _, d # _) \<Rightarrow>
          let st1 = upd_meta (\<lambda>md. md\<lparr>shape := s, dtype := Some d, shapes := Some ss,
                dtypes := Some ds, fmt := f, ref_count := 1\<rparr>) r st
          in if ss \<noteq> pa_shapes (allocator st) then
               (case get_size_bytes E ss ds of
                  Inl e \<Rightarrow> (Inl e, st1)
                | Inr n \<Rightarrow> (Inr (), upd_obj (\<lambda>m. m\<lparr>raw_data := py_slice 0 n (raw_data m)\<rparr>) r st1))
             else (Inr (), st1)
      | _ \<Rightarrow> (Inl IndexError, st))"

definition set_free_blocks :: "nat list \<Rightarrow> pa_mem \<Rightarrow> pa_mem" where
  "set_free_blocks rs st = st\<lparr>allocator := (allocator st)\<lparr>pa_free_blocks := rs\<rparr>\<rparr>"

definition set_counters :: "int \<Rightarrow> int \<Rightarrow> pa_mem \<Rightarrow> pa_mem" where
  "set_counters active tot st =
     st\<lparr>allocator := (allocator st)\<lparr>pa_num_active := active, pa_total_allocated := tot\<rparr>\<rparr>"

definition pa_allocate :: "env \<Rightarrow> torch_size one_or_list \<Rightarrow> torch_dtype one_or_list
    \<Rightarrow> memory_format \<Rightarrow> pa_mem \<Rightarrow> (nat option, pa_mem) outcome" where
  "pa_allocate E sa da f st =
     (case adapt_shapes_and_dtypes sa da of
        Inl e \<Rightarrow> (Inl e, st)
      | Inr (ss, ds) \<Rightarrow>
     (case pa_free_blocks (allocator st) of
        [] \<Rightarrow> (Inr None, st)
      | r # rest \<Rightarrow>
     (case refit_page E ss ds f r (set_free_blocks rest st) of
        (Inl e, st1) \<Rightarrow> (Inl e, st1)
      | (Inr _, st1) \<Rightarrow>
          let al = allocator st1
          in (Inr (Some r), set_counters (pa_num_active al + 1)
                (pa_total_allocated al + pa_align_bytes al) st1))))"

text \<open>The page of a shrunk object is given back whole.\<close>

definition restore_page :: "nat \<Rightarrow> pa_mem \<Rightarrow> pa_mem" where
  "restore_page r st =
     (case objs st r of
        None \<Rightarrow> st
      | Some m \<Rightarrow>
          if shapes (meta m) \<noteq> Some (pa_shapes (allocator st))
          then upd_obj (\<lambda>m. m\<lparr>raw_data := page_buffer (allocator st) (address (meta m))\<rparr>) r st
          else st)"

definition push_page :: "nat \<Rightarrow> pa_mem \<Rightarrow> pa_mem" where
  "push_page r st = set_free_blocks (pa_free_blocks (allocator st) @ [r]) st"

definition pa_free :: "nat \<Rightarrow> pa_mem \<Rightarrow> (unit, pa_mem) outcome" where
  "pa_free r st =
     (if \<not> is_valid st r then (Inr (), st)
      else let st1 = push_page r (restore_page r st); al = allocator st1
           in (Inr (), set_counters (pa_num_active al - 1)
                 (pa_total_allocated al - pa_align_bytes al) st1))"

definition pa_batched_free :: "nat list \<Rightarrow> bool \<Rightarrow> pa_mem \<Rightarrow> pa_mem" where
  "pa_batched_free rs update_stats st =
     (if rs = [] then st
      else let st1 = fold (\<lambda>r s. if \<not> is_valid s r then s else push_page r (restore_page r s)) rs st;
               al = allocator st1; n = int (length rs)
           in if update_stats
              then set_counters (pa_num_active al - n)
                     (pa_total_allocated al - pa_align_bytes al * n) st1
              else st1)"

fun pa_batch_loop :: "env \<Rightarrow> torch_size list \<Rightarrow> torch_dtype list \<Rightarrow> memory_format \<Rightarrow> nat
    \<Rightarrow> nat list \<Rightarrow> pa_mem \<Rightarrow> (nat list option, pa_mem) outcome" where
  "pa_batch_loop E ss ds f 0 acc st = (Inr (Some acc), st)"
| "pa_batch_loop E ss ds f (Suc n) acc st =
     (case pa_free_blocks (allocator st) of
        [] \<Rightarrow> (Inr None, pa_batched_free acc False st)
      | r # rest \<Rightarrow>
          (case refit_page E ss ds f r (set_free_blocks rest st) of
             (Inl e, st1) \<Rightarrow> (Inl e, st1)
           | (Inr _, st1) \<Rightarrow> pa_batch_loop E ss ds f n (acc @ [r]) st1))"

definition pa_batched_allocate :: "env \<Rightarrow> torch_size one_or_list \<Rightarrow> torch_dtype one_or_list
    \<Rightarrow> int \<Rightarrow> memory_format \<Rightarrow> pa_mem \<Rightarrow> (nat list option, pa_mem) outcome" where
  "pa_batched_allocate E sa da batch_size f st =
     (case adapt_shapes_and_dtypes sa da of
        Inl e \<Rightarrow> (Inl e, st)
      | Inr (ss, ds) \<Rightarrow>
     (case pa_batch_loop E ss ds f (nat batch_size) [] st of
        (Inl e, st1) \<Rightarrow> (Inl e, st1)
      | (Inr None, st1) \<Rightarrow> (Inr None, st1)
      | (Inr (Some rs), st1) \<Rightarrow>
          let active = pa_num_active (allocator st1) + batch_size
          in (Inr (Some rs), set_counters active (active * pa_align_bytes (allocator st1)) st1)))"

definition pa_memcheck :: "paged_allocator \<Rightarrow> bool" where
  "pa_memcheck al \<longleftrightarrow>
     int (length (pa_free_blocks al)) * pa_align_bytes al + pa_total_allocated al = pa_buffer_size al"

definition pa_get_heap_size :: "paged_allocator \<Rightarrow> int" where
  "pa_get_heap_size al = pa_buffer_size al"

definition pa_get_free_size :: "paged_allocator \<Rightarrow> int" where
  "pa_get_free_size al = int (length (pa_free_blocks al)) * pa_align_bytes al"

definition pa_ref_count_down :: "nat \<Rightarrow> pa_mem \<Rightarrow> (unit, pa_mem) outcome" where
  "pa_ref_count_down = ref_count_down pa_free"

end
