(* ===== verification/Paged_Pool.thy ===== *)
theory Paged_Pool
  imports Paged_Allocator Address_Space
begin

text \<open>
  Correctness of the paged allocator for clients that free only what they hold: pages are
  conserved, no page is handed out twice, a failed batch restores the queue. Two theorems
  show what the code does outside that discipline and on partially filled pages.
\<close>

section \<open>The page invariant\<close>

definition page_ok :: "paged_allocator \<Rightarrow> nat \<Rightarrow> mem_obj \<Rightarrow> bool" where
  "page_ok al r m \<longleftrightarrow> valid m \<and> has_parent m \<and> address (meta m) = int r \<and>
     fst (raw_data m) = int r * pa_align_bytes al \<and>
     0 \<le> snd (raw_data m) \<and> snd (raw_data m) \<le> pa_align_bytes al \<and>
     (shapes (meta m) = Some (pa_shapes al) \<longrightarrow> raw_data m = page_buffer al (int r))"

text \<open>The pages are split between the queue, where they are whole, and the holders.\<close>

definition pages_split :: "nat \<Rightarrow> nat list \<Rightarrow> pa_mem \<Rightarrow> bool" where
  "pages_split n held st \<longleftrightarrow>
     (let al = allocator st
      in distinct (pa_free_blocks al @ held) \<and> set (pa_free_blocks al @ held) = {..<n} \<and>
         0 < pa_align_bytes al \<and> pa_buffer_size al = pa_align_bytes al * int n \<and>
         (\<forall>r < n. \<exists>m. objs st r = Some m \<and> page_ok al r m \<and>
            (r \<in> set (pa_free_blocks al) \<longrightarrow> raw_data m = page_buffer al (int r))))"

definition pages_ok :: "nat \<Rightarrow> nat list \<Rightarrow> pa_mem \<Rightarrow> bool" where
  "pages_ok n held st \<longleftrightarrow> pages_split n held st \<and>
     pa_num_active (allocator st) = int (length held) \<and>
     pa_total_allocated (allocator st) = pa_align_bytes (allocator st) * int (length held)"

lemma set_free_blocks_simps [simp]:
  "objs (set_free_blocks rs st) = objs st" "next_oid (set_free_blocks rs st) = next_oid st"
  "allocator (set_free_blocks rs st) = (allocator st)\<lparr>pa_free_blocks := rs\<rparr>"
  by (simp_all add: set_free_blocks_def)

lemma set_counters_simps [simp]:
  "objs (set_counters a b st) = objs st" "next_oid (set_counters a b st) = next_oid st"
  "allocator (set_counters a b st) = (allocator st)\<lparr>pa_num_active := a, pa_total_allocated := b\<rparr>"
  by (simp_all add: set_counters_def)

lemma page_ok_cong:
  "pa_align_bytes al' = pa_align_bytes al \<Longrightarrow> pa_shapes al' = pa_shapes al \<Longrightarrow>
     page_ok al' r m = page_ok al r m"
  by (simp add: page_ok_def page_buffer_def)

lemma page_buffer_cong: "pa_align_bytes al' = pa_align_bytes al \<Longrightarrow> page_buffer al' = page_buffer al"
  by (simp add: page_buffer_def fun_eq_iff)

lemma pages_split_set_counters [simp]: "pages_split n held (set_counters a b st) = pages_split n held st"
  by (simp add: pages_split_def Let_def page_ok_def page_buffer_def)

text \<open>What refit_page does when the request has shapes.\<close>

definition refit :: "env \<Rightarrow> paged_allocator \<Rightarrow> torch_size list \<Rightarrow> torch_dtype list \<Rightarrow> memory_format
    \<Rightarrow> int \<Rightarrow> mem_obj \<Rightarrow> mem_obj" where
  "refit E al ss ds f n m =
     (let m1 = m\<lparr>meta := (meta m)\<lparr>shape := hd ss, dtype := Some (hd ds), shapes := Some ss,
            dtypes := Some ds, fmt := f, ref_count := 1\<rparr>\<rparr>
      in if ss \<noteq> pa_shapes al then m1\<lparr>raw_data := py_slice 0 n (raw_data m)\<rparr> else m1)"

lemma refit_page_eq:
  assumes "length ss = length ds" "ss \<noteq> []" "get_size_bytes E ss ds = Inr n" "objs st r = Some m"
  shows "refit_page E ss ds f r st = (Inr (), st\<lparr>objs := (objs st)(r \<mapsto> refit E (allocator st) ss ds f n m)\<rparr>)"
proof -
  obtain s ss' d ds' where "ss = s # ss'" "ds = d # ds'" using assms(1,2) by (cases ss; cases ds) auto
  with assms show ?thesis
    by (simp add: refit_page_def upd_meta_def upd_obj_def refit_def Let_def)
qed

lemma refit_ok:
  assumes "page_ok al r m" "raw_data m = page_buffer al (int r)" "0 < pa_align_bytes al"
  shows "page_ok al r (refit E al ss ds f n m)"
  using assms by (simp add: page_ok_def refit_def Let_def py_slice_def page_buffer_def)

lemma pages_split_pop:
  assumes ps: "pages_split n held st" and free: "pa_free_blocks (allocator st) = r # rest"
    and sz: "length ss = length ds" "ss \<noteq> []" "get_size_bytes E ss ds = Inr k"
  shows "\<exists>st1. refit_page E ss ds f r (set_free_blocks rest st) = (Inr (), st1) \<and>
    pages_split n (r # held) st1 \<and> pa_free_blocks (allocator st1) = rest \<and>
    allocator st1 = (allocator st)\<lparr>pa_free_blocks := rest\<rparr>"
proof -
  let ?al = "allocator st" and ?al' = "(allocator st)\<lparr>pa_free_blocks := rest\<rparr>"
  have r: "r < n" "r \<notin> set rest" "r \<notin> set held" using ps free by (auto simp: pages_split_def Let_def)
  then obtain m where m: "objs st r = Some m" "page_ok ?al r m" "raw_data m = page_buffer ?al (int r)"
    using ps free by (auto simp: pages_split_def Let_def)
  have al: "0 < pa_align_bytes ?al" using ps by (simp add: pages_split_def Let_def)
  let ?m = "refit E ?al' ss ds f k m"
  let ?st1 = "(set_free_blocks rest st)\<lparr>objs := (objs st)(r \<mapsto> ?m)\<rparr>"
  have "refit_page E ss ds f r (set_free_blocks rest st) = (Inr (), ?st1)"
    using refit_page_eq [OF sz, of "set_free_blocks rest st" r m f] m(1) by simp
  moreover have "page_ok ?al' r ?m"
    using m al by (intro refit_ok) (simp_all add: page_ok_def page_buffer_def)
  then have "pages_split n (r # held) ?st1"
    using ps r free by (auto simp: pages_split_def Let_def page_ok_cong [of ?al' ?al]
        page_buffer_cong [of ?al' ?al])
  ultimately show ?thesis by auto
qed

lemma pages_split_push:
  assumes ps: "pages_split n held st" and r: "r \<in> set held"
  shows "is_valid st r \<and> pages_split n (remove1 r held) (push_page r (restore_page r st)) \<and>
    allocator (push_page r (restore_page r st)) =
      (allocator st)\<lparr>pa_free_blocks := pa_free_blocks (allocator st) @ [r]\<rparr> \<and>
    (\<forall>q m m'. objs st q = Some m \<longrightarrow> objs (push_page r (restore_page r st)) q = Some m' \<longrightarrow> valid m' = valid m)"
proof -
  let ?al = "allocator st"
  have "r < n" using ps r by (auto simp: pages_split_def Let_def)
  then obtain m where m: "objs st r = Some m" "page_ok ?al r m"
    using ps by (auto simp: pages_split_def Let_def)
  let ?m = "m\<lparr>raw_data := page_buffer ?al (int r)\<rparr>"
  have "m\<lparr>raw_data := raw_data m\<rparr> = m" by simp
  then have "restore_page r st = st\<lparr>objs := (objs st)(r \<mapsto> ?m)\<rparr>"
    using m by (auto simp: restore_page_def upd_obj_def page_ok_def fun_upd_idem)
  then have eq: "push_page r (restore_page r st) =
      st\<lparr>allocator := ?al\<lparr>pa_free_blocks := pa_free_blocks ?al @ [r]\<rparr>, objs := (objs st)(r \<mapsto> ?m)\<rparr>"
    by (simp add: push_page_def set_free_blocks_def)
  have pm: "page_ok ?al r ?m" using m(2) ps
    by (simp add: page_ok_def page_buffer_def pages_split_def Let_def)
  have d: "distinct held" using ps by (simp add: pages_split_def Let_def)
  have "pages_split n (remove1 r held) (push_page r (restore_page r st))"
    unfolding eq using ps r d pm
    by (auto simp: pages_split_def Let_def set_remove1_eq page_ok_cong [of "?al\<lparr>pa_free_blocks := _\<rparr>" ?al]
        page_buffer_cong [of "?al\<lparr>pa_free_blocks := _\<rparr>" ?al])
  moreover have "is_valid st r" using m by (simp add: is_valid_def page_ok_def)
  ultimately show ?thesis using m by (auto simp: eq)
qed

lemma page_held_valid:
  assumes "pages_split n held st" "r \<in> set held"
  shows "is_valid st r"
  using pages_split_push [OF assms] by simp

section \<open>The operations keep it\<close>

lemma adapt_ok_lengths:
  "adapt_shapes_and_dtypes sa da = Inr (ss, ds) \<Longrightarrow> \<exists>k. length ss = length ds \<and> get_size_bytes E ss ds = Inr k"
  by (auto simp: adapt_shapes_and_dtypes_def get_size_bytes_def split: if_splits)

lemma pa_allocate_ok:
  assumes ok: "pages_ok n held st" and adapt: "adapt_shapes_and_dtypes sa da = Inr (ss, ds)" "ss \<noteq> []"
  shows "case pa_free_blocks (allocator st) of
      [] \<Rightarrow> pa_allocate E sa da f st = (Inr None, st)
    | r # rest \<Rightarrow> \<exists>st'. pa_allocate E sa da f st = (Inr (Some r), st') \<and> pages_ok n (r # held) st' \<and>
        pa_free_blocks (allocator st') = rest"
proof (cases "pa_free_blocks (allocator st)")
  case Nil
  then show ?thesis by (simp add: pa_allocate_def adapt)
next
  case (Cons r rest)
  obtain k where k: "length ss = length ds" "get_size_bytes E ss ds = Inr k"
    using adapt_ok_lengths [OF adapt(1)] by blast
  have ps: "pages_split n held st" using ok by (simp add: pages_ok_def)
  from pages_split_pop [OF ps Cons k(1) adapt(2) k(2), of f] obtain st1 where
    st1: "refit_page E ss ds f r (set_free_blocks rest st) = (Inr (), st1)"
      "pages_split n (r # held) st1" "allocator st1 = (allocator st)\<lparr>pa_free_blocks := rest\<rparr>" by blast
  have "pages_ok n (r # held) (set_counters (pa_num_active (allocator st) + 1)
      (pa_total_allocated (allocator st) + pa_align_bytes (allocator st)) st1)"
    using ok st1(2,3) by (simp add: pages_ok_def algebra_simps)
  then show ?thesis using Cons adapt st1(1,3) by (simp add: pa_allocate_def Let_def)
qed

lemma pa_free_fold_ok:
  "pages_split n held st \<Longrightarrow> distinct rs \<Longrightarrow> set rs \<subseteq> set held \<Longrightarrow>
   \<exists>st'. fold (\<lambda>r s. if \<not> is_valid s r then s else push_page r (restore_page r s)) rs st = st' \<and>
     pages_split n (filter (\<lambda>q. q \<notin> set rs) held) st' \<and>
     allocator st' = (allocator st)\<lparr>pa_free_blocks := pa_free_blocks (allocator st) @ rs\<rparr>"
proof (induction rs arbitrary: held st)
  case Nil
  then show ?case by simp
next
  case (Cons r rs)
  have r: "r \<in> set held" using Cons.prems by simp
  note push = pages_split_push [OF Cons.prems(1) r]
  let ?st = "push_page r (restore_page r st)"
  have d: "distinct held" using Cons.prems(1) by (simp add: pages_split_def Let_def)
  have "distinct rs" "set rs \<subseteq> set (remove1 r held)"
    using Cons.prems d by (auto simp: set_remove1_eq)
  with Cons.IH [of "remove1 r held" ?st] push obtain st' where
    st': "fold (\<lambda>r s. if \<not> is_valid s r then s else push_page r (restore_page r s)) rs ?st = st'"
      "pages_split n (filter (\<lambda>q. q \<notin> set rs) (remove1 r held)) st'"
      "allocator st' = (allocator ?st)\<lparr>pa_free_blocks := pa_free_blocks (allocator ?st) @ rs\<rparr>" by blast
  moreover have "filter (\<lambda>q. q \<notin> set rs) (remove1 r held) = filter (\<lambda>q. q \<notin> set (r # rs)) held"
    using d by (simp add: distinct_remove1_removeAll removeAll_filter_not_eq) (metis (lifting))
  ultimately show ?case using push by simp
qed

lemma filter_notin_length:
  assumes "distinct held" "distinct rs" "set rs \<subseteq> set held"
  shows "length (filter (\<lambda>q. q \<notin> set rs) held) + length rs = length held"
proof -
  have "length (filter (\<lambda>q. q \<in> set rs) held) = card (set rs)"
    using assms(1,3) by (subst distinct_card [symmetric]) (auto intro!: arg_cong [where f = card])
  then show ?thesis using assms(2) sum_length_filter_compl [of "\<lambda>q. q \<in> set rs" held]
    by (simp add: distinct_card)
qed

lemma pa_batched_free_ok:
  assumes ok: "pages_ok n held st" and rs: "distinct rs" "set rs \<subseteq> set held"
  shows "pages_ok n (filter (\<lambda>q. q \<notin> set rs) held) (pa_batched_free rs True st)"
proof (cases "rs = []")
  case True
  then show ?thesis using ok by (simp add: pa_batched_free_def)
next
  case False
  have ps: "pages_split n held st" using ok by (simp add: pages_ok_def)
  obtain st' where
    st': "fold (\<lambda>r s. if \<not> is_valid s r then s else push_page r (restore_page r s)) rs st = st'"
      "pages_split n (filter (\<lambda>q. q \<notin> set rs) held) st'"
      "allocator st' = (allocator st)\<lparr>pa_free_blocks := pa_free_blocks (allocator st) @ rs\<rparr>"
    using pa_free_fold_ok [OF ps rs] by blast
  have "distinct held" using ps by (simp add: pages_split_def Let_def)
  note len = filter_notin_length [OF this rs]
  then have "int (length held) = int (length (filter (\<lambda>q. q \<notin> set rs) held)) + int (length rs)"
    by simp
  then show ?thesis using False st' ok
    by (simp add: pa_batched_free_def Let_def pages_ok_def algebra_simps)
qed

lemma pa_free_ok:
  assumes ok: "pages_ok n held st" and r: "r \<in> set held" and res: "pa_free r st = (res, st')"
  shows "pages_ok n (remove1 r held) st' \<and> res = Inr ()"
proof -
  have ps: "pages_split n held st" using ok by (simp add: pages_ok_def)
  note push = pages_split_push [OF ps r]
  have "int (length held) = int (length (remove1 r held)) + 1"
    using r length_pos_if_in_set [OF r] by (simp add: length_remove1 of_nat_diff Suc_le_eq)
  then show ?thesis using push res ok
    by (auto simp: pa_free_def Let_def pages_ok_def algebra_simps)
qed

lemma pa_batch_loop_ok:
  assumes sz: "length ss = length ds" "ss \<noteq> []" "get_size_bytes E ss ds = Inr k"
  shows "pages_split n (acc @ held) st \<Longrightarrow> distinct acc \<Longrightarrow>
    case pa_batch_loop E ss ds f i acc st of
      (Inr (Some rs), st') \<Rightarrow> pages_split n (rs @ held) st' \<and> length rs = length acc + i \<and>
        allocator st' = (allocator st)\<lparr>pa_free_blocks := drop i (pa_free_blocks (allocator st))\<rparr> \<and>
        rs = acc @ take i (pa_free_blocks (allocator st)) \<and> i \<le> length (pa_free_blocks (allocator st))
    | (Inr None, st') \<Rightarrow> pages_split n held st' \<and> length (pa_free_blocks (allocator st)) < i \<and>
        allocator st' = (allocator st)\<lparr>pa_free_blocks := acc @ pa_free_blocks (allocator st)\<rparr>
    | (Inl e, st') \<Rightarrow> False"
proof (induction i arbitrary: acc st)
  case 0
  then show ?case by simp
next
  case (Suc i)
  show ?case
  proof (cases "pa_free_blocks (allocator st)")
    case Nil
    have d: "distinct (acc @ held)" using Suc.prems(1) by (simp add: pages_split_def Let_def)
    then have f: "filter (\<lambda>q. q \<notin> set acc) (acc @ held) = held" by (auto intro!: filter_True)
    obtain st' where
      "fold (\<lambda>r s. if \<not> is_valid s r then s else push_page r (restore_page r s)) acc st = st'"
      "pages_split n held st'"
      "allocator st' = (allocator st)\<lparr>pa_free_blocks := pa_free_blocks (allocator st) @ acc\<rparr>"
      using pa_free_fold_ok [OF Suc.prems] f by auto
    then show ?thesis using Nil Suc.prems by (auto simp: pa_batched_free_def Let_def)
  next
    case (Cons r rest)
    from pages_split_pop [OF Suc.prems(1) Cons sz, of f] obtain st1 where
      st1: "refit_page E ss ds f r (set_free_blocks rest st) = (Inr (), st1)"
        "pages_split n (r # acc @ held) st1" "allocator st1 = (allocator st)\<lparr>pa_free_blocks := rest\<rparr>"
      by blast
    have "pages_split n ((acc @ [r]) @ held) st1" "distinct (acc @ [r])"
      using st1(2) by (auto simp: pages_split_def Let_def)
    from Suc.IH [OF this] st1 Cons show ?thesis
      by (auto split: prod.splits sum.splits option.splits)
  qed
qed

lemma pa_batched_allocate_ok:
  assumes ok: "pages_ok n held st" and adapt: "adapt_shapes_and_dtypes sa da = Inr (ss, ds)" "ss \<noteq> []"
  shows "case pa_batched_allocate E sa da (int i) f st of
      (Inr (Some rs), st') \<Rightarrow> pages_ok n (rs @ held) st' \<and> length rs = i
    | (Inr None, st') \<Rightarrow> pages_ok n held st' \<and> allocator st' = allocator st \<and>
        length (pa_free_blocks (allocator st)) < i
    | (Inl e, st') \<Rightarrow> False"
proof -
  obtain k where k: "length ss = length ds" "get_size_bytes E ss ds = Inr k"
    using adapt_ok_lengths [OF adapt(1)] by blast
  have ps: "pages_split n ([] @ held) st" using ok by (simp add: pages_ok_def)
  note loop = pa_batch_loop_ok [OF k(1) adapt(2) k(2) ps, where f = f and i = i]
  show ?thesis
  proof (cases "pa_batch_loop E ss ds f i [] st")
    case (Pair r st1)
    with loop ok adapt show ?thesis
      by (auto simp: pa_batched_allocate_def Let_def pages_ok_def algebra_simps
          split: sum.splits option.splits)
  qed
qed

section \<open>Histories\<close>

text \<open>
  A client of the paged allocator: it frees what it holds, by free, batched_free or by
  counting a reference down, and may change counts of anything.
\<close>

inductive paged_step :: "env \<Rightarrow> nat list \<times> pa_mem \<Rightarrow> nat list \<times> pa_mem \<Rightarrow> bool" for E where
  paged_allocate: "adapt_shapes_and_dtypes sa da = Inr (ss, ds) \<Longrightarrow> ss \<noteq> [] \<Longrightarrow>
    pa_allocate E sa da f st = (Inr got, st') \<Longrightarrow>
    paged_step E (held, st) ((case got of None \<Rightarrow> held | Some r \<Rightarrow> r # held), st')"
| paged_batched_allocate: "adapt_shapes_and_dtypes sa da = Inr (ss, ds) \<Longrightarrow> ss \<noteq> [] \<Longrightarrow>
    pa_batched_allocate E sa da (int i) f st = (Inr gots, st') \<Longrightarrow>
    paged_step E (held, st) ((case gots of None \<Rightarrow> held | Some rs \<Rightarrow> rs @ held), st')"
| paged_free: "r \<in> set held \<Longrightarrow> pa_free r st = (res, st') \<Longrightarrow> paged_step E (held, st) (remove1 r held, st')"
| paged_batched_free: "distinct rs \<Longrightarrow> set rs \<subseteq> set held \<Longrightarrow>
    paged_step E (held, st) (filter (\<lambda>q. q \<notin> set rs) held, pa_batched_free rs True st)"
| paged_ref_up: "paged_step E (held, st) (held, ref_count_up r st)"
| paged_pin: "paged_step E (held, st) (held, snd (pin r st))"
| paged_ref_down: "r \<in> set held \<Longrightarrow> objs st r = Some m \<Longrightarrow> pa_ref_count_down r st = (res, st') \<Longrightarrow>
    paged_step E (held, st)
      ((if ref_count (meta m) \<le> 1 \<and> pin_count (meta m) = 0 then remove1 r held else held), st')"

lemma pages_ok_upd_meta:
  assumes "pages_ok n held st"
    and f: "\<And>md. address (f md) = address md" "\<And>md. shapes (f md) = shapes md"
  shows "pages_ok n held (upd_meta f r st)"
proof -
  have "\<exists>m'. objs (upd_meta f r st) q = Some m' \<and> page_ok al q m' \<and> raw_data m' = raw_data m"
    if "objs st q = Some m" "page_ok al q m" for q m al
    using that f by (cases "q = r") (auto simp: mem_simps page_ok_def)
  with assms(1) show ?thesis unfolding pages_ok_def pages_split_def Let_def upd_meta_other
    by (metis (no_types, lifting))
qed

lemma paged_step_ok:
  assumes "pages_ok n (fst s) (snd s)" "paged_step E s s'"
  shows "pages_ok n (fst s') (snd s')"
  using assms(2)
proof cases
  case (paged_allocate sa da ss ds f st got st' held)
  then show ?thesis using pa_allocate_ok [where n = n and held = held and st = st and sa = sa and da = da
        and ss = ss and ds = ds and E = E and f = f] assms(1)
    by (auto split: list.splits)
next
  case (paged_batched_allocate sa da ss ds i f st gots st' held)
  then show ?thesis using pa_batched_allocate_ok [where n = n and held = held and st = st and sa = sa and da = da
        and ss = ss and ds = ds and E = E and i = i and f = f] assms(1)
    by (auto split: option.splits)
next
  case (paged_free r held st res st')
  then show ?thesis using pa_free_ok assms(1) by simp
next
  case (paged_batched_free rs held st)
  then show ?thesis using pa_batched_free_ok assms(1) by simp
next
  case (paged_ref_up held st r)
  then show ?thesis using pages_ok_upd_meta assms(1) by (simp add: ref_count_up_def)
next
  case (paged_pin held st r)
  then show ?thesis using pages_ok_upd_meta assms(1) by (simp add: pin_def)
next
  case (paged_ref_down r held st m res st')
  have u: "pages_ok n held (upd_meta (\<lambda>md. md\<lparr>ref_count := c\<rparr>) r st)" for c
    using assms(1) paged_ref_down(1) by (intro pages_ok_upd_meta) simp_all
  have "pages_split n held st" using assms(1) paged_ref_down(1) by (simp add: pages_ok_def)
  then have "\<exists>m'. objs st r = Some m' \<and> has_parent m'"
    using paged_ref_down(3) unfolding pages_split_def Let_def page_ok_def by auto
  then have "has_parent m" using paged_ref_down(4) by simp
  let ?c = "if ref_count (meta m) - 1 < 0 then 0 else ref_count (meta m) - 1"
  let ?free = "ref_count (meta m) \<le> 1 \<and> pin_count (meta m) = 0"
  let ?st = "upd_meta (\<lambda>md. md\<lparr>ref_count := ?c\<rparr>) r st"
  have "?c = 0 \<longleftrightarrow> ref_count (meta m) \<le> 1" by auto
  with paged_ref_down(4,5) \<open>has_parent m\<close>
  have res: "(res, st') = (if ?free then pa_free r ?st else (Inr (), ?st))"
    by (simp add: pa_ref_count_down_def ref_count_down_def Let_def)
  have "pages_ok n (if ?free then remove1 r held else held) st'"
  proof (cases ?free)
    case True
    with res have "pa_free r ?st = (res, st')" by simp
    with pa_free_ok [OF u paged_ref_down(3)] True show ?thesis by simp
  next
    case False
    with res have "(res, st') = (Inr (), ?st)" by (simp only: False if_False)
    then have "st' = ?st" by blast
    then show ?thesis using u [of ?c] by (simp only: False if_False)
  qed
  with paged_ref_down(2) show ?thesis by simp
qed

lemma paged_reachable_ok:
  assumes "(paged_step E)\<^sup>*\<^sup>* s s'" "pages_ok n (fst s) (snd s)"
  shows "pages_ok n (fst s') (snd s')"
  using assms by (induction rule: rtranclp_induct) (auto intro: paged_step_ok)

text \<open>The constructor establishes the invariant with nothing held.\<close>

lemma init_pages_ok:
  assumes "length ss = length ds" "ss \<noteq> []" "0 < al"
  shows "allocator st = \<lparr>pa_buffer_size = al * int n, pa_shapes = ss, pa_dtypes = ds,
      pa_align_bytes = al, pa_free_blocks = [0..<i], pa_num_active = 0, pa_total_allocated = 0\<rparr> \<Longrightarrow>
    next_oid st = i \<Longrightarrow> i + j = n \<Longrightarrow>
    (\<forall>r < i. \<exists>m. objs st r = Some m \<and> page_ok (allocator st) r m \<and>
        raw_data m = page_buffer (allocator st) (int r)) \<Longrightarrow>
    \<exists>st'. init_pages E f (int i) j st = (Inr (), st') \<and> pages_ok n [] st'"
proof (induction j arbitrary: i st)
  case 0
  then show ?case using assms(3) by (auto simp: pages_ok_def pages_split_def Let_def)
next
  case (Suc j)
  obtain s ss' d ds' where sd: "ss = s # ss'" "ds = d # ds'" using assms(1,2) by (cases ss; cases ds) auto
  define m where "m = \<lparr>meta = \<lparr>shape = s, dtype = Some d, address = int i, phy_size = al,
      ref_count = 1, pin_count = 0, fmt = f, shapes = Some ss, dtypes = Some ds\<rparr>,
    raw_data = page_buffer (allocator st) (int i), valid = True, has_parent = True,
    group_prefix_sum = 0 # prefix_sums E 0 (zip ss ds)\<rparr>"
  let ?al = "(allocator st)\<lparr>pa_free_blocks := [0..<Suc i]\<rparr>"
  let ?st = "st\<lparr>objs := (objs st)(i \<mapsto> m), next_oid := Suc i, allocator := ?al\<rparr>"
  have step: "init_pages E f (int i) (Suc j) st = init_pages E f (int (Suc i)) j ?st"
    using Suc.prems(1,2) sd assms(1)
    by (simp add: Let_def tensor_memory_obj_def new_obj_def m_def add.commute)
  have pm: "page_ok ?al i m" "raw_data m = page_buffer ?al (int i)"
    using Suc.prems(1) assms(3) by (simp_all add: page_ok_def m_def page_buffer_def)
  have "\<exists>st'. init_pages E f (int (Suc i)) j ?st = (Inr (), st') \<and> pages_ok n [] st'"
  proof (rule Suc.IH)
    have c: "page_ok ?al = page_ok (allocator st)" "page_buffer ?al = page_buffer (allocator st)"
      by (simp_all add: page_ok_def page_buffer_def fun_eq_iff)
    show "\<forall>r < Suc i. \<exists>m. objs ?st r = Some m \<and> page_ok (allocator ?st) r m \<and>
        raw_data m = page_buffer (allocator ?st) (int r)"
    proof (intro allI impI)
      fix r
      assume "r < Suc i"
      then consider "r = i" | "r < i" by linarith
      then show "\<exists>m. objs ?st r = Some m \<and> page_ok (allocator ?st) r m \<and>
          raw_data m = page_buffer (allocator ?st) (int r)"
      proof cases
        case 1
        then show ?thesis using pm by simp
      next
        case 2
        with Suc.prems(4) obtain m' where "objs st r = Some m'" "page_ok (allocator st) r m'"
          "raw_data m' = page_buffer (allocator st) (int r)" by blast
        with 2 show ?thesis unfolding mem.select_convs mem.update_convs
          by (auto simp: c simp del: upt_Suc)
      qed
    qed
  qed (use Suc.prems in simp_all)
  then show ?case using step by simp
qed

lemma pa_init_ok:
  assumes "get_size_bytes E ss ds = Inr p" "0 < p"
  shows "\<exists>st. pa_init E (p * int n) ss ds f = Inr st \<and> pages_ok n [] st"
proof -
  have len: "length ss = length ds" "ss \<noteq> []"
    using assms by (auto simp: get_size_bytes_def split: if_splits)
  let ?st = "\<lparr>allocator = \<lparr>pa_buffer_size = p * int n, pa_shapes = ss, pa_dtypes = ds,
      pa_align_bytes = p, pa_free_blocks = [], pa_num_active = 0, pa_total_allocated = 0\<rparr>,
    objs = (\<lambda>r. None), next_oid = 0\<rparr> :: pa_mem"
  have "\<exists>st'. init_pages E f (int 0) n ?st = (Inr (), st') \<and> pages_ok n [] st'"
    by (rule init_pages_ok [OF len assms(2)]) simp_all
  then show ?thesis using assms by (auto simp: pa_init_def)
qed

lemma pages_ok_facts:
  assumes "pages_ok n held st"
  shows "pa_memcheck (allocator st)"
    and "distinct held" and "set held \<inter> set (pa_free_blocks (allocator st)) = {}"
    and "set held \<union> set (pa_free_blocks (allocator st)) = {..<n}"
    and "r \<in> set held \<Longrightarrow> objs st r = Some m \<Longrightarrow>
      region (fst (raw_data m)) (snd (raw_data m)) \<subseteq>
      region (int r * pa_align_bytes (allocator st)) (pa_align_bytes (allocator st))"
proof -
  let ?al = "allocator st"
  have ps: "pages_split n held st" using assms by (simp add: pages_ok_def)
  then have d: "distinct (pa_free_blocks ?al @ held)" "set (pa_free_blocks ?al @ held) = {..<n}"
    by (simp_all add: pages_split_def Let_def)
  then show "distinct held" "set held \<inter> set (pa_free_blocks ?al) = {}"
    "set held \<union> set (pa_free_blocks ?al) = {..<n}" by auto
  have "length (pa_free_blocks ?al @ held) = n" using d by (metis card_lessThan distinct_card)
  then have "int n = int (length (pa_free_blocks ?al)) + int (length held)" by simp
  then show "pa_memcheck ?al" using assms
    by (simp add: pages_ok_def pages_split_def Let_def pa_memcheck_def algebra_simps)
  assume r: "r \<in> set held" "objs st r = Some m"
  then have "r < n" using d by auto
  then have "page_ok ?al r m" using ps r(2) by (auto simp: pages_split_def Let_def)
  then show "region (fst (raw_data m)) (snd (raw_data m)) \<subseteq>
      region (int r * pa_align_bytes ?al) (pa_align_bytes ?al)"
    by (auto simp: page_ok_def region_def)
qed

section \<open>Properties\<close>

text \<open>C36: Page conservation. After any history in which clients free only pages they hold,
  every page is either queued or held by exactly one holder, a held object views bytes of
  its own page only, memcheck answers True and the counters count the held pages.\<close>

theorem paged_pages_conserved:
  assumes "get_size_bytes E ss ds = Inr p" "0 < p" "pa_init E (p * int n) ss ds f = Inr st0"
    and "(paged_step E)\<^sup>*\<^sup>* ([], st0) (held, st)"
  shows "distinct (pa_free_blocks (allocator st) @ held) \<and>
    set (pa_free_blocks (allocator st) @ held) = {..<n} \<and>
    (\<forall>r \<in> set held. \<forall>m. objs st r = Some m \<longrightarrow>
       region (fst (raw_data m)) (snd (raw_data m)) \<subseteq>
       region (int r * pa_align_bytes (allocator st)) (pa_align_bytes (allocator st))) \<and>
    pa_memcheck (allocator st) \<and> pa_num_active (allocator st) = int (length held)"
proof -
  have "pages_ok n [] st0" using pa_init_ok [OF assms(1,2), of n f] assms(3) by simp
  then have ok: "pages_ok n held st" using paged_reachable_ok [OF assms(4)] by simp
  note facts = pages_ok_facts [OF ok]
  have "distinct (pa_free_blocks (allocator st))"
    using ok by (simp add: pages_ok_def pages_split_def Let_def)
  then show ?thesis using facts ok by (auto simp: pages_ok_def)
qed

definition sample_pages :: pa_mem where
  "sample_pages = (case pa_init reference_env 12 [[2], [1]] [''float16'', ''float16''] KV_2LTD of
     Inr st \<Rightarrow> st | Inl e \<Rightarrow> undefined)"

lemma sample_pages_size: "get_size_bytes reference_env [[2], [1]] [''float16'', ''float16''] = Inr 6"
  by code_simp

lemma sample_pages_init: "pa_init reference_env (6 * int 2) [[2], [1]] [''float16'', ''float16''] KV_2LTD
    = Inr sample_pages" "pages_ok 2 [] sample_pages"
  using pa_init_ok [OF sample_pages_size, of 2 KV_2LTD] by (auto simp: sample_pages_def)

lemma paged_pages_conserved_witness:
  "\<exists>st. pa_allocate reference_env (Many [[1], [1]]) (Many [''float16'', ''float16'']) KV_2LTD sample_pages
      = (Inr (Some 0), st) \<and> pa_memcheck (allocator st) \<and> pa_num_active (allocator st) = 1"
proof -
  have "fst (pa_allocate reference_env (Many [[1], [1]]) (Many [''float16'', ''float16'']) KV_2LTD
      sample_pages) = Inr (Some 0)" by code_simp
  then obtain st where st: "pa_allocate reference_env (Many [[1], [1]])
      (Many [''float16'', ''float16'']) KV_2LTD sample_pages = (Inr (Some 0), st)"
    by (metis prod.collapse)
  have "adapt_shapes_and_dtypes (Many [[1], [1]]) (Many [''float16'', ''float16'']) =
      Inr ([[1], [1]], [''float16'', ''float16''])" by code_simp
  from paged_allocate [OF this _ st, of "[]"]
  have "(paged_step reference_env)\<^sup>*\<^sup>* ([], sample_pages) ([0], st)" by simp
  from paged_pages_conserved [OF sample_pages_size _ sample_pages_init(1) this] st
  show ?thesis by simp
qed

text \<open>A batched allocation that runs out of pages rolls back completely: the queue
  (its order included) and the counters are as before, and it fails only when fewer pages
  are queued than asked for; otherwise it returns as many distinct pages as asked.\<close>

theorem paged_batched_allocate_rolls_back:
  assumes "pages_ok n held st" "adapt_shapes_and_dtypes sa da = Inr (ss, ds)" "ss \<noteq> []"
  shows "case pa_batched_allocate E sa da (int i) f st of
      (Inr (Some rs), st') \<Rightarrow> length rs = i \<and> distinct (rs @ held) \<and> pages_ok n (rs @ held) st'
    | (Inr None, st') \<Rightarrow> allocator st' = allocator st \<and> pages_ok n held st' \<and>
        length (pa_free_blocks (allocator st)) < i
    | (Inl e, st') \<Rightarrow> False"
  using pa_batched_allocate_ok [OF assms, where E = E and i = i and f = f]
  by (auto split: prod.splits sum.splits option.splits simp del: distinct_append
      intro: pages_ok_facts(2))

lemma paged_batched_allocate_rolls_back_witness:
  "allocator (snd (pa_batched_allocate reference_env (Many [[1], [1]])
      (Many [''float16'', ''float16'']) 3 KV_2LTD sample_pages)) = allocator sample_pages"
proof -
  have a: "adapt_shapes_and_dtypes (Many [[1], [1]]) (Many [''float16'', ''float16'']) =
      Inr ([[1], [1]], [''float16'', ''float16''])" by code_simp
  have "fst (pa_batched_allocate reference_env (Many [[1], [1]]) (Many [''float16'', ''float16'']) 3
      KV_2LTD sample_pages) = Inr None" by code_simp
  then obtain st where "pa_batched_allocate reference_env (Many [[1], [1]])
      (Many [''float16'', ''float16'']) 3 KV_2LTD sample_pages = (Inr None, st)"
    by (metis prod.collapse)
  with paged_batched_allocate_rolls_back [OF sample_pages_init(2) a,
      where E = reference_env and i = 3 and f = KV_2LTD]
  show ?thesis by simp
qed

section \<open>Outside the discipline\<close>

text \<open>
  A reference counted down once more than it was counted up: ref_count is clamped to 0 and
  the page is queued a second time, because freeing does not invalidate it; the next two
  allocations then hand the same page to two holders.
\<close>

definition single_page :: pa_mem where
  "single_page = (case pa_init reference_env 4 [[2]] [''float16''] KV_2LTD of
     Inr st \<Rightarrow> st | Inl e \<Rightarrow> undefined)"

lemma paged_double_count_down_aliases:
  "(let alloc = pa_allocate reference_env (One [2]) (One ''float16'') KV_2LTD;
        st1 = snd (alloc single_page);
        st2 = snd (pa_ref_count_down 0 (snd (pa_ref_count_down 0 st1)));
        (first, st3) = alloc st2;
        (second, st4) = alloc st3
    in (first, second)) = (Inr (Some 0), Inr (Some 0))"
  by code_simp

text \<open>
  group_prefix_sum is computed once, for the full page: an object allocated with smaller
  shapes keeps the page's sums, so get_size answers the size of the page and get_tensor
  slices at the wrong offsets; with two groups the first view raises.
\<close>

lemma paged_partial_page_views:
  "(let st = snd (pa_allocate reference_env (Many [[1], [1]]) (Many [''float16'', ''float16''])
          KV_2LTD sample_pages);
        m = the (objs st 0)
    in (snd (raw_data m), obj_get_size m, get_tensor reference_env m 0)) = (4, 6, Inl RuntimeError)"
  by code_simp

end
