(* ===== verification/Precision_Tiers.thy ===== *)
theory Precision_Tiers
  imports Complex_Main Prelude L1_Memory "HOL-Library.Char_ord"
begin

text \<open>
  The precision tiers of lmcache/v1/multiprocess/precision_codec.py: which chunks of a
  request are stored in full precision and which in the INT8 base form, and the model
  namespace and the layout the base form has. The environment variables are an argument
  (environ), with the parsing of floating-point numbers and their division as parameters;
  integers, stripping and lower case are Python's on ASCII text. The tensor codec itself
  (floating-point arithmetic on tensors) is not modelled.
\<close>

section \<open>The environment\<close>

record proc_env =
  environ :: "string \<Rightarrow> string option"
  float_of_string :: "string \<Rightarrow> real option"
  float_div :: "int \<Rightarrow> int \<Rightarrow> real"

text \<open>Correctly rounded division is monotone in the numerator and exact on n / n.\<close>

definition float_div_ok :: "proc_env \<Rightarrow> bool" where
  "float_div_ok V \<longleftrightarrow> (\<forall>n > 0. float_div V n n = 1 \<and> (\<forall>i j. i \<le> j \<longrightarrow> float_div V i n \<le> float_div V j n))"

definition is_py_space :: "char \<Rightarrow> bool" where
  "is_py_space c \<longleftrightarrow> (let n = (of_char c :: nat) in n = 32 \<or> (9 \<le> n \<and> n \<le> 13) \<or> (28 \<le> n \<and> n \<le> 31))"

definition py_strip :: "string \<Rightarrow> string" where
  "py_strip s = rev (dropWhile is_py_space (rev (dropWhile is_py_space s)))"

definition lower_char :: "char \<Rightarrow> char" where
  "lower_char c = (let n = (of_char c :: nat) in if 65 \<le> n \<and> n \<le> 90 then char_of (n + 32) else c)"

definition py_lower :: "string \<Rightarrow> string" where
  "py_lower s = map lower_char s"

text \<open>int(s): a sign, decimal digits, single underscores between digits.\<close>

fun dec_digits :: "bool \<Rightarrow> int \<Rightarrow> string \<Rightarrow> int option" where
  "dec_digits prev acc [] = (if prev then Some acc else None)"
| "dec_digits prev acc (c # cs) =
     (let n = (of_char c :: nat)
      in if 48 \<le> n \<and> n \<le> 57 then dec_digits True (10 * acc + (int n - 48)) cs
         else if c = CHR ''_'' \<and> prev then dec_digits False acc cs
         else None)"

definition py_int :: "string \<Rightarrow> int option" where
  "py_int s =
     (case py_strip s of
        [] \<Rightarrow> None
      | c # cs \<Rightarrow> if c = CHR ''-'' then map_option uminus (dec_digits False 0 cs)
                  else if c = CHR ''+'' then dec_digits False 0 cs
                  else dec_digits False 0 (c # cs))"

definition env_bool :: "proc_env \<Rightarrow> string \<Rightarrow> bool" where
  "env_bool V name =
     (py_lower (py_strip (case environ V name of None \<Rightarrow> [] | Some s \<Rightarrow> s)) \<in> {''1'', ''true'', ''yes'', ''on''})"

definition env_int :: "proc_env \<Rightarrow> string \<Rightarrow> int \<Rightarrow> py_error + int" where
  "env_int V name dflt =
     (case environ V name of
        None \<Rightarrow> Inr dflt
      | Some raw \<Rightarrow> if raw = [] then Inr dflt
                     else case py_int raw of None \<Rightarrow> Inl ValueError | Some n \<Rightarrow> Inr (max 0 n))"

definition env_float :: "proc_env \<Rightarrow> string \<Rightarrow> real \<Rightarrow> py_error + real" where
  "env_float V name dflt =
     (case environ V name of
        None \<Rightarrow> Inr dflt
      | Some raw \<Rightarrow> if raw = [] then Inr dflt
                     else case float_of_string V raw of None \<Rightarrow> Inl ValueError | Some x \<Rightarrow> Inr x)"

text \<open>x or d, for a string x.\<close>

definition str_or :: "string \<Rightarrow> string \<Rightarrow> string" where
  "str_or s d = (if s = [] then d else s)"

definition precision_policy_from_env :: "proc_env \<Rightarrow> string" where
  "precision_policy_from_env V =
     str_or (py_strip (case environ V ''LMCACHE_PRECISION_POLICY'' of None \<Rightarrow> ''all-full'' | Some s \<Rightarrow> s)) ''all-full''"

definition base_codec_from_env :: "proc_env \<Rightarrow> string" where
  "base_codec_from_env V =
     str_or (py_lower (py_strip (case environ V ''LMCACHE_BASE_CODEC'' of None \<Rightarrow> ''fake'' | Some s \<Rightarrow> s))) ''fake''"

abbreviation MP_FULL_TIER :: string where "MP_FULL_TIER \<equiv> ''full''"
abbreviation MP_BASE_TIER :: string where "MP_BASE_TIER \<equiv> ''base''"

definition is_mp_int8_base_enabled :: "proc_env \<Rightarrow> bool" where
  "is_mp_int8_base_enabled V \<longleftrightarrow> precision_policy_from_env V = ''all-base'' \<and>
     env_bool V ''LMCACHE_ENABLE_FIDELITY_CACHE'' \<and> base_codec_from_env V = ''int8''"

definition is_mp_mixed_3span_enabled :: "proc_env \<Rightarrow> bool" where
  "is_mp_mixed_3span_enabled V \<longleftrightarrow> precision_policy_from_env V = ''mixed-3span'' \<and>
     env_bool V ''LMCACHE_ENABLE_FIDELITY_CACHE'' \<and> base_codec_from_env V = ''int8''"

definition is_mp_int8_base_tier_enabled :: "proc_env \<Rightarrow> string \<Rightarrow> bool" where
  "is_mp_int8_base_tier_enabled V tier \<longleftrightarrow> tier = MP_BASE_TIER \<and>
     env_bool V ''LMCACHE_ENABLE_FIDELITY_CACHE'' \<and> base_codec_from_env V = ''int8''"

definition namespace_model_name_for_precision :: "proc_env \<Rightarrow> string \<Rightarrow> string option \<Rightarrow> py_error + string" where
  "namespace_model_name_for_precision V model_name tier =
     (let t = (case tier of
                 None \<Rightarrow> if precision_policy_from_env V = ''all-base'' then MP_BASE_TIER else MP_FULL_TIER
               | Some t \<Rightarrow> t)
      in if t = MP_FULL_TIER then Inr model_name
         else if t = MP_BASE_TIER
         then Inr (model_name @ ''#precision=base#codec='' @ base_codec_from_env V)
         else Inl ValueError)"

section \<open>Tiers of a request\<close>

definition build_mixed_3span_tiers :: "proc_env \<Rightarrow> int \<Rightarrow> int option \<Rightarrow> int option \<Rightarrow> py_error + string list" where
  "build_mixed_3span_tiers V total_chunks sink_chunks recent_chunks =
     (if total_chunks < 0 then Inl ValueError
      else if total_chunks = 0 then Inr []
      else case (case sink_chunks of None \<Rightarrow> env_int V ''LMCACHE_MIXED_SINK_CHUNKS'' 1 | Some n \<Rightarrow> Inr n) of
        Inl e \<Rightarrow> Inl e
      | Inr sink \<Rightarrow>
     (case (case recent_chunks of None \<Rightarrow> env_int V ''LMCACHE_MIXED_RECENT_CHUNKS'' 2 | Some n \<Rightarrow> Inr n) of
        Inl e \<Rightarrow> Inl e
      | Inr recent \<Rightarrow>
          let sink_end = min (max sink 0) total_chunks;
              recent_start = max sink_end (total_chunks - max recent 0);
              tiers = replicate (nat total_chunks) MP_BASE_TIER;
              tiers1 = fold (\<lambda>i ts. ts[i := MP_FULL_TIER]) [0 ..< nat sink_end] tiers;
              tiers2 = fold (\<lambda>i ts. ts[i := MP_FULL_TIER]) [nat recent_start ..< nat total_chunks] tiers1
          in Inr tiers2))"

text \<open>The loop of group_precision_tier_spans over tiers[1:].\<close>

fun group_spans_loop :: "nat \<Rightarrow> string list \<Rightarrow> nat \<Rightarrow> string \<Rightarrow> (nat \<times> nat \<times> string) list
    \<Rightarrow> nat \<times> string \<times> (nat \<times> nat \<times> string) list" where
  "group_spans_loop idx [] st current spans = (st, current, spans)"
| "group_spans_loop idx (tier # ts) st current spans =
     (if tier = current then group_spans_loop (Suc idx) ts st current spans
      else group_spans_loop (Suc idx) ts idx tier (spans @ [(st, idx, current)]))"

definition group_precision_tier_spans :: "string list \<Rightarrow> (nat \<times> nat \<times> string) list" where
  "group_precision_tier_spans tiers =
     (case tiers of
        [] \<Rightarrow> []
      | t # ts \<Rightarrow> (case group_spans_loop 1 ts 0 t [] of
          (st, current, spans) \<Rightarrow> spans @ [(st, length tiers, current)]))"

definition is_standard_threshold_span_shape :: "string list \<Rightarrow> bool" where
  "is_standard_threshold_span_shape tiers =
     (case group_precision_tier_spans tiers of
        [] \<Rightarrow> True
      | [(a, b, t)] \<Rightarrow> t = MP_FULL_TIER
      | [(a0, b0, t0), (a1, b1, t1), (a2, b2, t2)] \<Rightarrow>
          a0 = 0 \<and> t0 = MP_FULL_TIER \<and> t1 = MP_BASE_TIER \<and> t2 = MP_FULL_TIER \<and> b2 = length tiers
      | _ \<Rightarrow> False)"

definition normalize_threshold_mixed_tiers :: "string list \<Rightarrow> string list" where
  "normalize_threshold_mixed_tiers tiers =
     (if is_standard_threshold_span_shape tiers then tiers else replicate (length tiers) MP_FULL_TIER)"

definition threshold_tier :: "proc_env \<Rightarrow> int \<Rightarrow> real \<Rightarrow> int \<Rightarrow> int \<Rightarrow> string" where
  "threshold_tier V total_chunks threshold_value sink chunk_idx =
     (let recent_score = float_div V (chunk_idx + 1) total_chunks;
          sink_score = (if chunk_idx < max sink 0 then 1 else 0);
          score = max recent_score sink_score
      in if threshold_value \<le> score then MP_FULL_TIER else MP_BASE_TIER)"

definition build_threshold_mixed_tiers :: "proc_env \<Rightarrow> int \<Rightarrow> real option \<Rightarrow> int option \<Rightarrow> py_error + string list" where
  "build_threshold_mixed_tiers V total_chunks threshold sink_chunks =
     (if total_chunks < 0 then Inl ValueError
      else if total_chunks = 0 then Inr []
      else case (case threshold of None \<Rightarrow> env_float V ''LMCACHE_PRECISION_THRESHOLD'' (1 / 2) | Some x \<Rightarrow> Inr x) of
        Inl e \<Rightarrow> Inl e
      | Inr threshold_value \<Rightarrow>
     (case (case sink_chunks of None \<Rightarrow> env_int V ''LMCACHE_MIXED_SINK_CHUNKS'' 1 | Some n \<Rightarrow> Inr n) of
        Inl e \<Rightarrow> Inl e
      | Inr sink \<Rightarrow>
          Inr (normalize_threshold_mixed_tiers
            (map (\<lambda>i. threshold_tier V total_chunks threshold_value sink (int i)) [0 ..< nat total_chunks]))))"

definition precision_tiers_for_range :: "proc_env \<Rightarrow> int \<Rightarrow> int \<Rightarrow> int \<Rightarrow> py_error + string list" where
  "precision_tiers_for_range V total_chunks start_chunk end_chunk =
     (if start_chunk < 0 \<or> end_chunk < start_chunk \<or> total_chunks < end_chunk then Inl ValueError
      else let policy = precision_policy_from_env V
           in case (if policy = ''all-base'' then Inr (replicate (nat total_chunks) MP_BASE_TIER)
                    else if policy = ''mixed-3span'' then build_mixed_3span_tiers V total_chunks None None
                    else if policy = ''threshold-mixed'' then build_threshold_mixed_tiers V total_chunks None None
                    else Inr (replicate (nat total_chunks) MP_FULL_TIER)) of
                Inl e \<Rightarrow> Inl e
              | Inr tiers \<Rightarrow> Inr (drop (nat start_chunk) (take (nat end_chunk) tiers)))"

section \<open>The layout of the base form\<close>

text \<open>
  floating says which dtypes are floating-point. The loop body; zip with strict raises
  when the lists differ in length, after the pairs before.
\<close>

fun base_layout_loop :: "torch_dtype set \<Rightarrow> torch_size list \<Rightarrow> torch_dtype list
    \<Rightarrow> py_error + torch_size list \<times> torch_dtype list" where
  "base_layout_loop floating [] [] = Inr ([], [])"
| "base_layout_loop floating (s # ss) (d # ds) =
     (if d \<notin> floating then Inl TypeError
      else if length s = 0 then Inl ValueError
      else case base_layout_loop floating ss ds of
             Inl e \<Rightarrow> Inl e
           | Inr (shs, dts) \<Rightarrow> Inr (s # (butlast s @ [1]) # shs, ''int8'' # ''float32'' # dts))"
| "base_layout_loop floating _ _ = Inl ValueError"

definition build_mp_base_layout_desc :: "torch_dtype set \<Rightarrow> memory_layout_desc \<Rightarrow> py_error + memory_layout_desc" where
  "build_mp_base_layout_desc floating l =
     (case base_layout_loop floating (layout_shapes l) (layout_dtypes l) of
        Inl e \<Rightarrow> Inl e
      | Inr (shs, dts) \<Rightarrow> make_layout shs dts)"

section \<open>Lemmas\<close>

lemma nth_fold_update:
  "j < length ts \<Longrightarrow> fold (\<lambda>i ts. ts[i := x]) ks ts ! j = (if j \<in> set ks then x else ts ! j)"
  by (induction ks arbitrary: ts) (auto simp: nth_list_update)

lemma length_fold_update [simp]: "length (fold (\<lambda>i ts. ts[i := x]) ks ts) = length ts"
  by (induction ks arbitrary: ts) simp_all

abbreviation expand_spans :: "(nat \<times> nat \<times> string) list \<Rightarrow> string list" where
  "expand_spans \<equiv> concat \<circ> map (\<lambda>(a, b, t). replicate (b - a) t)"

definition next_span :: "nat \<times> nat \<times> string \<Rightarrow> nat \<times> nat \<times> string \<Rightarrow> bool" where
  "next_span = (\<lambda>(a, b, t) (a', b', t'). b = a' \<and> t \<noteq> t')"

lemma group_spans_loop_inv:
  "group_spans_loop idx ts st cur acc = (st', cur', acc') \<Longrightarrow> st < idx \<Longrightarrow>
     successively next_span (acc @ [(st, idx, cur)]) \<Longrightarrow> \<forall>(a, b, t) \<in> set acc. a < b \<and> b \<le> st \<Longrightarrow>
     st' < idx + length ts \<and>
     expand_spans acc' @ replicate (idx + length ts - st') cur' =
       expand_spans acc @ replicate (idx - st) cur @ ts \<and>
     successively next_span (acc' @ [(st', idx + length ts, cur')]) \<and>
     (\<forall>(a, b, t) \<in> set acc'. a < b \<and> b \<le> st')"
proof (induction ts arbitrary: idx st cur acc)
  case Nil
  then show ?case by simp
next
  case (Cons t ts)
  show ?case
  proof (cases "t = cur")
    case True
    have "successively next_span (acc @ [(st, Suc idx, cur)])"
      using Cons.prems(3) by (auto simp: successively_append_iff next_span_def)
    moreover have "replicate (Suc idx - st) cur @ ts = replicate (idx - st) cur @ t # ts"
      using True Cons.prems(2) by (simp add: Suc_diff_le replicate_app_Cons_same)
    ultimately show ?thesis using Cons.IH [of "Suc idx" st cur acc] Cons.prems True by simp
  next
    case False
    let ?acc = "acc @ [(st, idx, cur)]"
    have "successively next_span (?acc @ [(idx, Suc idx, t)])"
      using Cons.prems(3) False
      unfolding successively_append_iff [of _ ?acc] by (simp add: next_span_def)
    moreover have "\<forall>(a, b, t) \<in> set ?acc. a < b \<and> b \<le> idx" using Cons.prems(2,4) by auto
    ultimately show ?thesis using Cons.IH [of "Suc idx" idx t ?acc] Cons.prems(1) False by simp
  qed
qed

lemma group_spans_partition:
  "expand_spans (group_precision_tier_spans tiers) = tiers"
  "successively next_span (group_precision_tier_spans tiers)"
  "\<forall>(a, b, t) \<in> set (group_precision_tier_spans tiers). a < b \<and> b \<le> length tiers"
proof -
  have "expand_spans (group_precision_tier_spans tiers) = tiers \<and>
    successively next_span (group_precision_tier_spans tiers) \<and>
    (\<forall>(a, b, t) \<in> set (group_precision_tier_spans tiers). a < b \<and> b \<le> length tiers)"
  proof (cases tiers)
    case Nil
    then show ?thesis by (simp add: group_precision_tier_spans_def)
  next
    case (Cons t ts)
    obtain st' cur' acc' where l: "group_spans_loop (Suc 0) ts 0 t [] = (st', cur', acc')" by (metis prod_cases3)
    from group_spans_loop_inv [OF this] show ?thesis
      by (fastforce simp: Cons group_precision_tier_spans_def l)
  qed
  then show "expand_spans (group_precision_tier_spans tiers) = tiers"
    "successively next_span (group_precision_tier_spans tiers)"
    "\<forall>(a, b, t) \<in> set (group_precision_tier_spans tiers). a < b \<and> b \<le> length tiers" by blast+
qed

lemma group_spans_loop_same:
  "group_spans_loop idx (replicate k cur @ ts) st cur acc = group_spans_loop (idx + k) ts st cur acc"
  by (induction k arbitrary: idx) simp_all

lemma standard_three_spans:
  assumes "0 < a" "0 < c"
  shows "is_standard_threshold_span_shape
    (replicate a MP_FULL_TIER @ replicate b MP_BASE_TIER @ replicate c MP_FULL_TIER)"
proof -
  obtain a' c' where a: "a = Suc a'" and c: "c = Suc c'" using assms by (metis gr0_implies_Suc)
  have full: "group_spans_loop i (replicate c' MP_FULL_TIER) st MP_FULL_TIER acc = (st, MP_FULL_TIER, acc)" for i st acc
    using group_spans_loop_same [of i c' MP_FULL_TIER "[]" st acc] by simp
  show ?thesis
  proof (cases b)
    case 0
    have "replicate a' MP_FULL_TIER @ MP_FULL_TIER # replicate c' MP_FULL_TIER = replicate (a' + Suc c') MP_FULL_TIER"
      using replicate_add [of a' "Suc c'" MP_FULL_TIER] by simp
    then show ?thesis using group_spans_loop_same [of 1 "a' + Suc c'" MP_FULL_TIER "[]" 0 "[]"] 0
      by (simp add: a c is_standard_threshold_span_shape_def group_precision_tier_spans_def)
  next
    case (Suc b')
    then show ?thesis
      by (simp add: a c is_standard_threshold_span_shape_def group_precision_tier_spans_def
          group_spans_loop_same full)
  qed
qed

lemma standard_shape_blocks:
  assumes "is_standard_threshold_span_shape tiers"
  shows "\<exists>a b c. tiers = replicate a MP_FULL_TIER @ replicate b MP_BASE_TIER @ replicate c MP_FULL_TIER"
proof -
  note e = group_spans_partition(1) [of tiers]
  show ?thesis
  proof (cases "group_precision_tier_spans tiers")
    case Nil
    then have "tiers = replicate 0 MP_FULL_TIER @ replicate 0 MP_BASE_TIER @ replicate 0 MP_FULL_TIER"
      using e by simp
    then show ?thesis by blast
  next
    case (Cons x xs)
    obtain a0 b0 t0 where x: "x = (a0, b0, t0)" by (metis prod_cases3)
    show ?thesis
    proof (cases xs)
      case Nil
      then have "tiers = replicate (b0 - a0) MP_FULL_TIER @ replicate 0 MP_BASE_TIER @ replicate 0 MP_FULL_TIER"
        using assms e Cons x by (simp add: is_standard_threshold_span_shape_def)
      then show ?thesis by blast
    next
      case (Cons y ys)
      then obtain z zs where ys: "ys = z # zs"
        using assms \<open>group_precision_tier_spans tiers = x # xs\<close> x
        by (cases ys) (auto simp: is_standard_threshold_span_shape_def)
      obtain a1 b1 t1 a2 b2 t2 where "y = (a1, b1, t1)" "z = (a2, b2, t2)" by (metis prod_cases3)
      then have "tiers = replicate (b0 - a0) MP_FULL_TIER @ replicate (b1 - a1) MP_BASE_TIER @ replicate (b2 - a2) MP_FULL_TIER"
        using assms e Cons ys x \<open>group_precision_tier_spans tiers = x # xs\<close>
        by (cases zs) (auto simp: is_standard_threshold_span_shape_def)
      then show ?thesis by blast
    qed
  qed
qed

section \<open>Properties\<close>

definition exact_env :: "string \<Rightarrow> proc_env" where
  "exact_env policy = \<lparr>environ = (\<lambda>x. if x = ''LMCACHE_PRECISION_POLICY'' then Some policy else None),
     float_of_string = (\<lambda>s. None), float_div = (\<lambda>i n. of_int i / of_int n)\<rparr>"

text \<open>The mixed policy marks chunks as its name says: min(sink, total) full chunks, then base
  chunks, then as many full chunks as recent asks for and the sink leaves; negative sink or
  recent counts are zero and the three parts always add up to the number of chunks.\<close>

theorem mixed_3span_tiers_shape:
  fixes total sink recent :: int
  defines "a \<equiv> min (max sink 0) total"
  defines "c \<equiv> min (max recent 0) (total - a)"
  assumes "0 \<le> total"
  shows "build_mixed_3span_tiers V total (Some sink) (Some recent) =
    Inr (replicate (nat a) MP_FULL_TIER @ replicate (nat (total - a - c)) MP_BASE_TIER @ replicate (nat c) MP_FULL_TIER)"
proof (cases "total = 0")
  case True
  then show ?thesis by (simp add: build_mixed_3span_tiers_def a_def c_def)
next
  case False
  let ?ts = "replicate (nat total) MP_BASE_TIER" and ?r = "max a (total - max recent 0)"
  let ?l = "fold (\<lambda>i ts. ts[i := MP_FULL_TIER]) [nat ?r ..< nat total]
      (fold (\<lambda>i ts. ts[i := MP_FULL_TIER]) [0 ..< nat a] ?ts)"
  let ?q = "replicate (nat a) MP_FULL_TIER @ replicate (nat (total - a - c)) MP_BASE_TIER @ replicate (nat c) MP_FULL_TIER"
  have a: "0 \<le> a" "a \<le> total" and c: "0 \<le> c" "c \<le> total - a" and r: "?r = total - c"
    using assms(3) by (auto simp: a_def c_def)
  have "?l = ?q"
  proof (rule nth_equalityI)
    show len: "length ?l = length ?q" using a c assms(3) by simp
    fix i assume "i < length ?l"
    then have i: "i < nat total" by simp
    then show "?l ! i = ?q ! i"
      using a c unfolding r by (auto simp: nth_fold_update nth_append nat_less_iff)
  qed
  then show ?thesis using assms(3) False
    by (simp add: build_mixed_3span_tiers_def Let_def a_def [symmetric])
qed

lemma mixed_3span_tiers_shape_witness:
  "build_mixed_3span_tiers (exact_env []) 6 (Some 1) (Some 2) = Inr [''full'', ''base'', ''base'', ''base'', ''full'', ''full'']"
  using mixed_3span_tiers_shape [of 6 "exact_env []" 1 2] by (simp add: eval_nat_numeral)

text \<open>Grouping the chunks of a request by tier loses nothing: expanding the spans gives back
  the tiers, the spans are non-empty and follow each other without gaps, and neighbouring
  spans differ in tier, so there are as few as possible.\<close>

theorem group_spans_roundtrip:
  "expand_spans (group_precision_tier_spans tiers) = tiers \<and>
   successively next_span (group_precision_tier_spans tiers) \<and>
   list_all (\<lambda>(a, b, t). a < b \<and> b \<le> length tiers) (group_precision_tier_spans tiers)"
  using group_spans_partition [of tiers] by (simp add: list_all_iff)

lemma prefix_gap_suffix:
  assumes "\<forall>i < s. full i" "s < N" "full (N - 1)"
    and mono: "\<And>i j. s \<le> i \<Longrightarrow> full i \<Longrightarrow> i \<le> j \<Longrightarrow> j < N \<Longrightarrow> full j"
  shows "\<exists>b c. 0 < c \<and> map (\<lambda>i. if full i then x else y) [0 ..< N] =
    replicate s x @ replicate b y @ replicate c x"
proof -
  define m where "m = (LEAST i. s \<le> i \<and> full i)"
  have ex: "s \<le> N - 1 \<and> full (N - 1)" using assms(2,3) by simp
  have m: "s \<le> m" "full m" using LeastI [of "\<lambda>i. s \<le> i \<and> full i", OF ex] by (simp_all add: m_def)
  have "m \<le> N - 1" unfolding m_def by (rule Least_le) (rule ex)
  moreover have "\<not> full i" if "s \<le> i" "i < m" for i using not_less_Least [of i] that by (auto simp: m_def)
  ultimately have "map (\<lambda>i. if full i then x else y) [0 ..< N] =
      replicate s x @ replicate (m - s) y @ replicate (N - m) x"
    using m assms(1,2) mono by (intro nth_equalityI) (auto simp: nth_append)
  moreover have "0 < N - m" using \<open>m \<le> N - 1\<close> assms(2) by simp
  ultimately show ?thesis by blast
qed

lemma all_full_standard: "is_standard_threshold_span_shape (replicate n MP_FULL_TIER)"
proof (cases n)
  case (Suc m)
  then show ?thesis using group_spans_loop_same [of 1 m MP_FULL_TIER "[]" 0 "[]"]
    by (simp add: is_standard_threshold_span_shape_def group_precision_tier_spans_def)
qed (simp add: is_standard_threshold_span_shape_def group_precision_tier_spans_def)

lemma threshold_tiers_standard:
  assumes "float_div_ok V" "0 < n" "1 \<le> sink" "th \<le> 1"
  shows "is_standard_threshold_span_shape (map (\<lambda>i. threshold_tier V n th sink (int i)) [0 ..< nat n])"
proof -
  let ?full = "\<lambda>i. int i < sink \<or> th \<le> max (float_div V (int i + 1) n) 0"
  have tier: "threshold_tier V n th sink (int i) = (if ?full i then MP_FULL_TIER else MP_BASE_TIER)" for i
    using assms(3,4) by (auto simp: threshold_tier_def Let_def max_def)
  have last: "?full (nat n - 1)" using assms(1,2,4) by (simp add: float_div_ok_def of_nat_diff)
  have mono: "?full j" if "nat sink \<le> i" "?full i" "i \<le> j" for i j
  proof -
    have "float_div V (int i + 1) n \<le> float_div V (int j + 1) n"
      using assms(1,2) that(3) by (simp add: float_div_ok_def)
    then show ?thesis using that(1,2) by auto
  qed
  show ?thesis
  proof (cases "nat sink < nat n")
    case True
    have "\<forall>i < nat sink. ?full i" by (simp add: zless_nat_eq_int_zless)
    from prefix_gap_suffix [where full = ?full, OF this True last mono]
    have "\<exists>b c. 0 < c \<and> map (\<lambda>i. if ?full i then MP_FULL_TIER else MP_BASE_TIER) [0 ..< nat n] =
        replicate (nat sink) MP_FULL_TIER @ replicate b MP_BASE_TIER @ replicate c MP_FULL_TIER" .
    then obtain b c where bc: "0 < c" "map (\<lambda>i. if ?full i then MP_FULL_TIER else MP_BASE_TIER) [0 ..< nat n] =
        replicate (nat sink) MP_FULL_TIER @ replicate b MP_BASE_TIER @ replicate c MP_FULL_TIER"
      by (elim exE conjE)
    show ?thesis unfolding tier bc(2) using standard_three_spans [of "nat sink" c b] assms(3) bc(1) by simp
  next
    case False
    then have "map (\<lambda>i. threshold_tier V n th sink (int i)) [0 ..< nat n] = map (\<lambda>i. MP_FULL_TIER) [0 ..< nat n]"
      by (intro map_cong) (auto simp: tier)
    then show ?thesis using all_full_standard [of "nat n"] by (simp add: map_replicate_const)
  qed
qed

text \<open>C38: The threshold policy never degrades a chunk it should keep. For any threshold and sink
  the result has one tier per chunk, every chunk whose score reaches the threshold is full,
  and the tiers are full chunks, then base chunks, then full chunks; with a threshold of at
  most 1 and at least one sink chunk the fallback to all-full is never taken, so that
  exactly the chunks that reach the threshold are full.\<close>

theorem threshold_tiers_spec:
  assumes "0 \<le> n"
  shows "\<exists>tiers. build_threshold_mixed_tiers V n (Some th) (Some sink) = Inr tiers \<and> length tiers = nat n \<and>
    (\<forall>i < nat n. threshold_tier V n th sink (int i) = MP_FULL_TIER \<longrightarrow> tiers ! i = MP_FULL_TIER) \<and>
    (\<exists>a b c. tiers = replicate a MP_FULL_TIER @ replicate b MP_BASE_TIER @ replicate c MP_FULL_TIER) \<and>
    (float_div_ok V \<and> 1 \<le> sink \<and> th \<le> 1 \<longrightarrow>
       tiers = map (\<lambda>i. threshold_tier V n th sink (int i)) [0 ..< nat n])"
proof (cases "n = 0")
  case True
  then show ?thesis by (auto simp: build_threshold_mixed_tiers_def)
next
  case False
  let ?raw = "map (\<lambda>i. threshold_tier V n th sink (int i)) [0 ..< nat n]"
  have b: "build_threshold_mixed_tiers V n (Some th) (Some sink) = Inr (normalize_threshold_mixed_tiers ?raw)"
    using False assms by (simp add: build_threshold_mixed_tiers_def)
  show ?thesis
  proof (cases "is_standard_threshold_span_shape ?raw")
    case True
    then show ?thesis using standard_shape_blocks [OF True] b
      by (auto simp: normalize_threshold_mixed_tiers_def)
  next
    case bad: False
    have "\<exists>a b c. replicate (nat n) MP_FULL_TIER = replicate a MP_FULL_TIER @ replicate b MP_BASE_TIER @ replicate c MP_FULL_TIER"
      by (rule exI [of _ "nat n"], rule exI [of _ 0], rule exI [of _ 0]) simp
    moreover have "normalize_threshold_mixed_tiers ?raw = replicate (nat n) MP_FULL_TIER"
      using bad by (simp add: normalize_threshold_mixed_tiers_def)
    ultimately show ?thesis using bad b threshold_tiers_standard [of V n sink th] False assms
      by (intro exI [of _ "replicate (nat n) MP_FULL_TIER"] conjI) auto
  qed
qed

lemma exact_env_ok: "float_div_ok (exact_env p)"
  by (simp add: float_div_ok_def exact_env_def divide_right_mono)

lemma threshold_tiers_spec_witness:
  "build_threshold_mixed_tiers (exact_env []) 4 (Some (3 / 4)) (Some 1) = Inr [''full'', ''base'', ''full'', ''full'']"
proof -
  have "nat 4 = 4" by simp
  moreover have "map (\<lambda>i. threshold_tier (exact_env []) 4 (3 / 4) 1 (int i)) [0 ..< 4] =
      [''full'', ''base'', ''full'', ''full'']"
    by (simp add: upt_rec threshold_tier_def exact_env_def)
  ultimately show ?thesis
    using threshold_tiers_spec [of 4 "exact_env []" "3 / 4" 1] exact_env_ok by auto
qed

lemma tiers_length:
  assumes "0 \<le> n"
  shows "build_mixed_3span_tiers V n s r = Inr ts \<Longrightarrow> length ts = nat n"
    and "build_threshold_mixed_tiers V n th s = Inr ts \<Longrightarrow> length ts = nat n"
  using assms by (auto simp: build_mixed_3span_tiers_def build_threshold_mixed_tiers_def Let_def
      normalize_threshold_mixed_tiers_def split: if_splits sum.splits)

text \<open>The tier of a chunk does not depend on the range it is asked in: over 0 <= a <= b <= c <= n
  the tiers of [a, c) are those of [a, b) followed by those of [b, c), with one tier per
  chunk, under every policy; and an invalid range raises ValueError.\<close>

theorem tiers_of_ranges_compose:
  assumes "0 \<le> a" "a \<le> b" "b \<le> c" "c \<le> n" "precision_tiers_for_range V n a c = Inr ts"
  shows "\<exists>xs ys. precision_tiers_for_range V n a b = Inr xs \<and> precision_tiers_for_range V n b c = Inr ys \<and>
    ts = xs @ ys \<and> length xs = nat (b - a) \<and> length ys = nat (c - b) \<and>
    precision_tiers_for_range V n b (b - 1) = Inl ValueError"
proof -
  let ?all = "if precision_policy_from_env V = ''all-base'' then Inr (replicate (nat n) MP_BASE_TIER)
      else if precision_policy_from_env V = ''mixed-3span'' then build_mixed_3span_tiers V n None None
      else if precision_policy_from_env V = ''threshold-mixed'' then build_threshold_mixed_tiers V n None None
      else Inr (replicate (nat n) MP_FULL_TIER)"
  obtain all where all: "?all = Inr all"
    using assms by (auto simp: precision_tiers_for_range_def Let_def split: sum.splits if_splits)
  then have len: "length all = nat n" using assms tiers_length by (auto split: if_splits)
  have r: "precision_tiers_for_range V n x y = Inr (drop (nat x) (take (nat y) all))" if "0 \<le> x" "x \<le> y" "y \<le> n" for x y
    using that by (simp add: precision_tiers_for_range_def Let_def all)
  have "drop (nat a) (take (nat c) all) = drop (nat a) (take (nat b) all) @ drop (nat b) (take (nat c) all)"
  proof -
    have "take (nat c) all = take (nat b) all @ drop (nat b) (take (nat c) all)"
      using append_take_drop_id [of "nat b" "take (nat c) all"] assms(3)
      by (simp add: min_absorb1 nat_mono)
    then have "drop (nat a) (take (nat c) all) = drop (nat a) (take (nat b) all @ drop (nat b) (take (nat c) all))"
      by simp
    then show ?thesis using assms len by simp
  qed
  moreover have "length (drop (nat a) (take (nat b) all)) = nat (b - a)"
    "length (drop (nat b) (take (nat c) all)) = nat (c - b)"
    using assms by (simp_all add: len nat_diff_distrib min_absorb2 nat_mono)
  moreover have "precision_tiers_for_range V n b (b - 1) = Inl ValueError"
    by (simp add: precision_tiers_for_range_def)
  moreover have "ts = drop (nat a) (take (nat c) all)" using r [of a c] assms by simp
  moreover have "precision_tiers_for_range V n a b = Inr (drop (nat a) (take (nat b) all))"
    "precision_tiers_for_range V n b c = Inr (drop (nat b) (take (nat c) all))"
    using r [of a b] r [of b c] assms by simp_all
  ultimately show ?thesis by blast
qed

lemma tiers_of_ranges_compose_witness:
  "\<exists>xs ys. precision_tiers_for_range (exact_env ''mixed-3span'') 5 0 2 = Inr xs \<and>
    precision_tiers_for_range (exact_env ''mixed-3span'') 5 2 4 = Inr ys \<and>
    xs @ ys = [''full'', ''base'', ''base'', ''full'']"
proof -
  have "precision_tiers_for_range (exact_env ''mixed-3span'') 5 0 4 = Inr [''full'', ''base'', ''base'', ''full'']"
    by code_simp
  from tiers_of_ranges_compose [OF _ _ _ _ this, of 2] show ?thesis by auto
qed

end
