(* ===== verification/Token_Hashing.thy ===== *)
theory Token_Hashing
  imports Complex_Main Prelude "HOL-Library.Word" "HOL-Library.Sublist"
begin

text \<open>
  Chunk hashes of token sequences: TokenHasher and the numba kernels of
  lmcache/v1/multiprocess/token_hasher.py, and Session and SessionManager of session.py.
  The hash function (blake3, one of vLLM's or the builtin one) is a field of the hasher and may
  raise; blake3_hash, the default, is modelled over the digest of the blake3 package.
  Bytes are 8-bit words; the kernels compute on 64-bit words, as numba does.
\<close>

unbundle bit_operations_syntax

type_synonym byte = "8 word"

section \<open>Bytes\<close>

text \<open>int.to_bytes(n, "big"): the n low bytes of a number, most significant first.\<close>

definition be_bytes :: "nat \<Rightarrow> int \<Rightarrow> byte list" where
  "be_bytes n x = map (\<lambda>i. word_of_int (x div 256 ^ (n - 1 - i))) [0 ..< n]"

definition int_of_be :: "byte list \<Rightarrow> int" where
  "int_of_be bs = fold (\<lambda>b acc. 256 * acc + uint b) bs 0"

datatype hash_val = HashBytes "byte list" | HashInt int

text \<open>
  The bytes blake3_hash feeds to the hash: the prefix, then the tokens as big-endian 32-bit
  integers. struct.pack refuses a token that does not fit.
\<close>

definition blake3_input :: "hash_val \<Rightarrow> int list \<Rightarrow> py_error + byte list" where
  "blake3_input prefix_hash tokens =
     (case (case prefix_hash of
              HashBytes bs \<Rightarrow> Inr bs
            | HashInt n \<Rightarrow> if - (2 ^ 63) \<le> n \<and> n < 2 ^ 63 then Inr (be_bytes 8 n) else Inl OverflowError) of
        Inl e \<Rightarrow> Inl e
      | Inr p \<Rightarrow>
          if \<forall>t \<in> set tokens. 0 \<le> t \<and> t < 2 ^ 32 then Inr (p @ concat (map (be_bytes 4) tokens))
          else Inl StructError)"

text \<open>The default hash function; the digest of the blake3 package is a parameter.\<close>

definition blake3_hash :: "(byte list \<Rightarrow> byte list) \<Rightarrow> hash_val \<Rightarrow> int list \<Rightarrow> py_error + hash_val" where
  "blake3_hash digest prefix_hash tokens =
     (case blake3_input prefix_hash tokens of Inl e \<Rightarrow> Inl e | Inr bs \<Rightarrow> Inr (HashBytes (digest bs)))"

section \<open>TokenHasher\<close>

record hasher =
  chunk_size :: nat
  hash_func :: "hash_val \<Rightarrow> int list \<Rightarrow> py_error + hash_val"
  none_hash :: hash_val

text \<open>_init_none_hash: vLLM's NONE_HASH where there is one, otherwise the hash of (0, (0,)).\<close>

definition init_none_hash :: "(hash_val \<Rightarrow> int list \<Rightarrow> py_error + hash_val) \<Rightarrow> hash_val option
    \<Rightarrow> py_error + hash_val" where
  "init_none_hash f vllm_none_hash =
     (case vllm_none_hash of Some v \<Rightarrow> Inr v | None \<Rightarrow> f (HashInt 0) [0])"

definition hasher_new :: "nat \<Rightarrow> (hash_val \<Rightarrow> int list \<Rightarrow> py_error + hash_val) \<Rightarrow> hash_val option
    \<Rightarrow> py_error + hasher" where
  "hasher_new n f vllm_none_hash =
     (case init_none_hash f vllm_none_hash of
        Inl e \<Rightarrow> Inl e
      | Inr v \<Rightarrow> Inr \<lparr>chunk_size = n, hash_func = f, none_hash = v\<rparr>)"

definition hash_tokens :: "hasher \<Rightarrow> int list \<Rightarrow> hash_val option \<Rightarrow> py_error + hash_val" where
  "hash_tokens H tokens prefix_hash =
     hash_func H (case prefix_hash of None \<Rightarrow> none_hash H | Some p \<Rightarrow> p) tokens"

definition hash_to_bytes :: "hash_val \<Rightarrow> py_error + byte list" where
  "hash_to_bytes v =
     (case v of
        HashBytes bs \<Rightarrow> Inr bs
      | HashInt n \<Rightarrow> if - (2 ^ 63) \<le> n \<and> n < 2 ^ 63 then Inr (be_bytes 8 n) else Inl OverflowError)"

text \<open>token_ids[i : j] for 0 <= i.\<close>

definition slice :: "nat \<Rightarrow> nat \<Rightarrow> 'a list \<Rightarrow> 'a list" where
  "slice i j xs = drop i (take j xs)"

text \<open>The loop of compute_chunk_hashes over the starts of the chunks.\<close>

fun chunk_hashes_loop :: "hasher \<Rightarrow> int list \<Rightarrow> int \<Rightarrow> nat list \<Rightarrow> hash_val \<Rightarrow> byte list list
    \<Rightarrow> py_error + byte list list" where
  "chunk_hashes_loop H token_ids start_at [] prefix_hash hashes = Inr hashes"
| "chunk_hashes_loop H token_ids start_at (i # is) prefix_hash hashes =
     (case hash_tokens H (slice i (i + chunk_size H) token_ids) (Some prefix_hash) of
        Inl e \<Rightarrow> Inl e
      | Inr h \<Rightarrow>
          if start_at \<le> int i
          then (case hash_to_bytes h of
                  Inl e \<Rightarrow> Inl e
                | Inr bs \<Rightarrow> chunk_hashes_loop H token_ids start_at is h (hashes @ [bs]))
          else chunk_hashes_loop H token_ids start_at is h hashes)"

definition compute_chunk_hashes :: "hasher \<Rightarrow> int list \<Rightarrow> hash_val option \<Rightarrow> int \<Rightarrow> int option
    \<Rightarrow> py_error + byte list list" where
  "compute_chunk_hashes H token_ids prefix_hash start_at end_at =
     (if chunk_size H = 0 then Inl ZeroDivisionError
      else let effective_len = (case end_at of None \<Rightarrow> int (length token_ids)
                                | Some e \<Rightarrow> min (int (length token_ids)) e);
               num_complete = effective_len - effective_len mod int (chunk_size H)
           in chunk_hashes_loop H token_ids start_at
                (map (\<lambda>j. j * chunk_size H) [0 ..< nat (num_complete div int (chunk_size H))])
                (case prefix_hash of None \<Rightarrow> none_hash H | Some p \<Rightarrow> p) [])"

section \<open>Sessions\<close>

record session =
  s_token_ids :: "int list"
  s_chunk_hashes :: "hash_val list"
  last_prefix_hash :: "hash_val option"
  num_chunks_processed :: nat
  created_at :: real

definition session_new :: "real \<Rightarrow> session" where
  "session_new now = \<lparr>s_token_ids = [], s_chunk_hashes = [], last_prefix_hash = None,
     num_chunks_processed = 0, created_at = now\<rparr>"

definition set_tokens :: "int list \<Rightarrow> session \<Rightarrow> session" where
  "set_tokens ts s = s\<lparr>s_token_ids := ts\<rparr>"

text \<open>One turn of the loop of _compute_hash: a hash function that raises leaves the session as it was.\<close>

definition hash_next_chunk :: "hasher \<Rightarrow> session \<Rightarrow> (unit, session) outcome" where
  "hash_next_chunk H s =
     (let cs = num_chunks_processed s * chunk_size H;
          ce = cs + chunk_size H
      in case hash_tokens H (slice cs ce (s_token_ids s))
                (Some (case last_prefix_hash s of None \<Rightarrow> none_hash H | Some p \<Rightarrow> p)) of
           Inl e \<Rightarrow> (Inl e, s)
         | Inr h \<Rightarrow> (Inr (), s\<lparr>last_prefix_hash := Some h, s_chunk_hashes := s_chunk_hashes s @ [h],
             num_chunks_processed := num_chunks_processed s + 1\<rparr>))"

function compute_hash :: "hasher \<Rightarrow> nat \<Rightarrow> session \<Rightarrow> (unit, session) outcome" where
  "compute_hash H end_chunk s =
     (if num_chunks_processed s < end_chunk
      then (case hash_next_chunk H s of
              (Inl e, s') \<Rightarrow> (Inl e, s')
            | (Inr _, s') \<Rightarrow> compute_hash H end_chunk s')
      else (Inr (), s))"
  by pat_completeness auto

termination compute_hash
  by (relation "measure (\<lambda>(H, end_chunk, s). end_chunk - num_chunks_processed s)")
    (auto simp: hash_next_chunk_def Let_def split: sum.splits)

declare compute_hash.simps [simp del]

definition get_hashes :: "hasher \<Rightarrow> nat \<Rightarrow> nat \<Rightarrow> session \<Rightarrow> (hash_val list, session) outcome" where
  "get_hashes H start_at end_at s =
     (if chunk_size H = 0 then (Inl ZeroDivisionError, s)
      else if start_at mod chunk_size H \<noteq> 0 then (Inl AssertionError, s)
      else if end_at mod chunk_size H \<noteq> 0 then (Inl AssertionError, s)
      else let start_chunk = start_at div chunk_size H; end_chunk = end_at div chunk_size H
           in case compute_hash H end_chunk s of
                (Inl e, s') \<Rightarrow> (Inl e, s')
              | (Inr _, s') \<Rightarrow> (Inr (slice start_chunk end_chunk (s_chunk_hashes s')), s'))"

record 'r session_manager =
  sessions :: "('r, session) dict"
  session_ttl :: real

definition get_or_create :: "real \<Rightarrow> 'r \<Rightarrow> 'r session_manager \<Rightarrow> session \<times> 'r session_manager" where
  "get_or_create now rid m =
     (case map_of (sessions m) rid of
        Some s \<Rightarrow> (s, m)
      | None \<Rightarrow> (session_new now, m\<lparr>sessions := dict_set rid (session_new now) (sessions m)\<rparr>))"

definition session_remove :: "'r \<Rightarrow> 'r session_manager \<Rightarrow> 'r session_manager" where
  "session_remove rid m =
     (if map_of (sessions m) rid \<noteq> None then m\<lparr>sessions := dict_del rid (sessions m)\<rparr> else m)"

definition cleanup_expired :: "real \<Rightarrow> 'r session_manager \<Rightarrow> nat \<times> 'r session_manager" where
  "cleanup_expired now m =
     (let expired = map fst (filter (\<lambda>(rid, s). session_ttl m < now - created_at s) (sessions m))
      in (length expired, m\<lparr>sessions := fold dict_del expired (sessions m)\<rparr>))"

definition active_count :: "'r session_manager \<Rightarrow> nat" where
  "active_count m = length (sessions m)"

section \<open>The kernels\<close>

text \<open>Arrays are read within bounds only; the kernels do not check.\<close>

definition rolling_hash_windows :: "64 word list \<Rightarrow> nat \<Rightarrow> 64 word \<Rightarrow> 64 word list" where
  "rolling_hash_windows arr k base =
     (let n = length arr;
          power = fold (\<lambda>i p. p * base) [0 ..< k - 1] 1;
          h = fold (\<lambda>i h. h * base + arr ! i) [0 ..< k] 0
      in snd (fold (\<lambda>i (h, out).
                let old = arr ! (i - k); new = arr ! i;
                    h1 = h - old * power;
                    h2 = h1 * base + new
                in (h2, out @ [h2])) [k ..< n] (h, [h])))"

definition chunk_hash_windows :: "64 word list \<Rightarrow> nat \<Rightarrow> 64 word \<Rightarrow> 64 word list" where
  "chunk_hash_windows arr k base =
     map (\<lambda>w. fold (\<lambda>i h. h * base + arr ! i) [w * k ..< w * k + k] 0) [0 ..< length arr div k]"

definition update_table_id :: "64 word list \<Rightarrow> int list \<Rightarrow> int list \<Rightarrow> int list" where
  "update_table_id hashes table vals =
     fold (\<lambda>i table. table[unat ((hashes ! i) AND (of_nat (length table) - 1)) := vals ! i])
       [0 ..< length hashes] table"

definition unique_hits_step :: "int list \<Rightarrow> 64 word \<Rightarrow> 64 word \<Rightarrow> bool list \<times> int list
    \<Rightarrow> bool list \<times> int list" where
  "unique_hits_step table mask_u64 h = (\<lambda>(seen, out).
     let hit = table ! unat (h AND mask_u64)
     in if hit \<noteq> -1 \<and> \<not> seen ! nat hit then (seen[nat hit := True], out @ [hit]) else (seen, out))"

definition unique_hits_direct_id :: "64 word list \<Rightarrow> int list \<Rightarrow> 64 word \<Rightarrow> nat \<Rightarrow> int list" where
  "unique_hits_direct_id hashes table mask_u64 num_ids =
     snd (fold (unique_hits_step table mask_u64) hashes (replicate num_ids False, []))"

section \<open>Lemmas on the kernels\<close>

definition window :: "64 word \<Rightarrow> 64 word list \<Rightarrow> nat \<Rightarrow> nat \<Rightarrow> 64 word" where
  "window base arr a n = fold (\<lambda>i h. h * base + arr ! i) [a ..< a + n] 0"

lemma window_back: "window base arr a (Suc n) = window base arr a n * base + arr ! (a + n)"
  by (simp add: window_def)

lemma window_front: "window base arr a (Suc n) = arr ! a * base ^ n + window base arr (Suc a) n"
proof (induction n)
  case 0
  then show ?case by (simp add: window_def)
next
  case (Suc n)
  have "window base arr a (Suc (Suc n)) = window base arr a (Suc n) * base + arr ! (a + Suc n)"
    by (rule window_back)
  also have "\<dots> = (arr ! a * base ^ n + window base arr (Suc a) n) * base + arr ! (a + Suc n)"
    by (simp only: Suc)
  also have "\<dots> = arr ! a * base ^ Suc n + window base arr (Suc a) (Suc n)"
    by (simp add: window_back algebra_simps)
  finally show ?case .
qed

lemma window_sum: "window base arr a n = (\<Sum>i < n. arr ! (a + i) * base ^ (n - 1 - i))"
proof (induction n arbitrary: a)
  case 0
  then show ?case by (simp add: window_def)
next
  case (Suc n)
  have "(\<Sum>i < n. arr ! (Suc a + i) * base ^ (n - 1 - i)) = (\<Sum>i < n. arr ! (a + Suc i) * base ^ (n - Suc i))"
    by (rule sum.cong) simp_all
  then show ?case unfolding window_front Suc sum.lessThan_Suc_shift by simp
qed

lemma power_loop: "fold (\<lambda>i p. p * base) [0 ..< n] 1 = (base :: 64 word) ^ n"
  by (induction n) (simp_all add: mult.commute)

lemma rolling_loop:
  assumes "k = Suc n"
  shows "fold (\<lambda>i (h, out). let old = arr ! (i - k); new = arr ! i; h1 = h - old * base ^ n; h2 = h1 * base + new
      in (h2, out @ [h2])) [k ..< k + m] (window base arr 0 k, [window base arr 0 k])
    = (window base arr m k, map (\<lambda>w. window base arr w k) [0 ..< Suc m])"
proof (induction m)
  case 0
  then show ?case by simp
next
  case (Suc m)
  have "(window base arr m k - arr ! m * base ^ n) * base + arr ! (m + k) = window base arr (Suc m) k"
    using window_front [of base arr m n] window_back [of base arr "Suc m" n] assms by (simp add: add.commute)
  then show ?case using Suc by (simp add: add.commute Let_def)
qed

lemma rolling_windows_eq:
  assumes "1 \<le> k" "k \<le> length arr"
  shows "rolling_hash_windows arr k base = map (\<lambda>w. window base arr w k) [0 ..< length arr - k + 1]"
proof -
  obtain n where k: "k = Suc n" using assms(1) by (cases k) simp_all
  have h: "fold (\<lambda>i h. h * base + arr ! i) [0 ..< k] 0 = window base arr 0 k" by (simp add: window_def)
  have p: "fold (\<lambda>i p. p * base) [0 ..< k - 1] 1 = base ^ n" by (simp add: k power_loop)
  obtain m where m: "length arr = k + m" using assms(2) le_Suc_ex by blast
  show ?thesis unfolding rolling_hash_windows_def Let_def h p m
    using rolling_loop [OF k, of arr base m] by (simp add: Let_def)
qed

lemma chunk_windows_eq: "chunk_hash_windows arr k base = map (\<lambda>w. window base arr (w * k) k) [0 ..< length arr div k]"
  by (simp add: chunk_hash_windows_def window_def)

section \<open>Lemmas on bytes\<close>

lemma int_of_be_append: "int_of_be (bs @ cs) = int_of_be bs * 256 ^ length cs + int_of_be cs"
proof -
  have "fold (\<lambda>b acc. 256 * acc + uint b) cs a = a * 256 ^ length cs + fold (\<lambda>b acc. 256 * acc + uint b) cs 0" for a
  proof (induction cs arbitrary: a)
    case (Cons c cs)
    have "fold (\<lambda>b acc. 256 * acc + uint b) (c # cs) a =
        (256 * a + uint c) * 256 ^ length cs + fold (\<lambda>b acc. 256 * acc + uint b) cs 0"
      using Cons [of "256 * a + uint c"] by simp
    moreover have "fold (\<lambda>b acc. 256 * acc + uint b) (c # cs) 0 =
        uint c * 256 ^ length cs + fold (\<lambda>b acc. 256 * acc + uint b) cs 0"
      using Cons [of "uint c"] by simp
    ultimately show ?case by (simp add: distrib_right)
  qed simp
  then show ?thesis unfolding int_of_be_def fold_append comp_apply by blast
qed

lemma length_be_bytes [simp]: "length (be_bytes n x) = n"
  by (simp add: be_bytes_def)

lemma be_bytes_Suc: "be_bytes (Suc n) x = be_bytes n (x div 256) @ [word_of_int x]"
proof -
  have "x div 256 ^ (n - i) = x div 256 div 256 ^ (n - 1 - i)" if "i < n" for i
  proof -
    have "256 * 256 ^ (n - 1 - i) = (256 :: int) ^ (n - i)"
      using that by (metis Suc_diff_Suc diff_Suc_1 diff_commute power_Suc)
    moreover have "x div (256 * 256 ^ (n - 1 - i)) = x div 256 div 256 ^ (n - 1 - i)"
      by (rule zdiv_zmult2_eq) simp
    ultimately show ?thesis by metis
  qed
  then show ?thesis by (simp add: be_bytes_def)
qed

lemma int_of_be_bytes: "int_of_be (be_bytes n x) = x mod 256 ^ n"
proof (induction n arbitrary: x)
  case 0
  then show ?case by (simp add: int_of_be_def be_bytes_def)
next
  case (Suc n)
  have "int_of_be (be_bytes (Suc n) x) = x div 256 mod 256 ^ n * 256 + x mod 256"
    using Suc [of "x div 256"] by (simp add: be_bytes_Suc int_of_be_append) (simp add: int_of_be_def uint_word_of_int)
  also have "\<dots> = x mod (256 * 256 ^ n)" by (simp add: zmod_zmult2_eq)
  finally show ?case by simp
qed

lemma be_bytes_inj:
  "be_bytes n x = be_bytes n y \<Longrightarrow> 0 \<le> x \<Longrightarrow> x < 256 ^ n \<Longrightarrow> 0 \<le> y \<Longrightarrow> y < 256 ^ n \<Longrightarrow> x = y"
  by (metis int_of_be_bytes mod_pos_pos_trivial)

lemma be_bytes_nonempty [simp]: "be_bytes 4 x \<noteq> []"
  using length_be_bytes [of 4 x] by force

lemma concat_be_bytes_inj:
  "concat (map (be_bytes 4) ts) = concat (map (be_bytes 4) us) \<Longrightarrow>
    \<forall>t \<in> set ts. 0 \<le> t \<and> t < 2 ^ 32 \<Longrightarrow> \<forall>u \<in> set us. 0 \<le> u \<and> u < 2 ^ 32 \<Longrightarrow> ts = us"
proof (induction ts arbitrary: us)
  case Nil
  then show ?case by (cases us) (simp_all add: be_bytes_nonempty)
next
  case (Cons t ts)
  obtain u us' where us: "us = u # us'" using Cons.prems(1) by (cases us) (simp_all add: be_bytes_nonempty)
  have "be_bytes 4 t @ concat (map (be_bytes 4) ts) = be_bytes 4 u @ concat (map (be_bytes 4) us')"
    using Cons.prems(1) by (simp add: us)
  moreover have "length (be_bytes 4 t) = length (be_bytes 4 u)" by simp
  ultimately have e: "be_bytes 4 t = be_bytes 4 u" "concat (map (be_bytes 4) ts) = concat (map (be_bytes 4) us')"
    by (metis append_eq_append_conv)+
  have "(2 :: int) ^ 32 = 256 ^ 4" by simp
  then have "t = u" using be_bytes_inj [OF e(1)] Cons.prems(2,3) by (simp only: us list.set_intros ball_simps)
  moreover have "ts = us'" by (rule Cons.IH [OF e(2)]) (use Cons.prems us in simp_all)
  ultimately show ?case by (simp add: us)
qed

section \<open>Lemmas on chains of hashes\<close>

text \<open>
  The rolling hashes of a list of chunks, or the error of the first chunk whose hash raises; and
  the chunks a, ..., b - 1 of a token list.
\<close>

fun chain :: "hasher \<Rightarrow> hash_val \<Rightarrow> int list list \<Rightarrow> py_error + hash_val list" where
  "chain H p [] = Inr []"
| "chain H p (c # cs) = (case hash_func H p c of
     Inl e \<Rightarrow> Inl e
   | Inr h \<Rightarrow> (case chain H h cs of Inl e \<Rightarrow> Inl e | Inr hs \<Rightarrow> Inr (h # hs)))"

definition chunks :: "nat \<Rightarrow> int list \<Rightarrow> nat \<Rightarrow> nat \<Rightarrow> int list list" where
  "chunks n ts a b = map (\<lambda>j. slice (j * n) (j * n + n) ts) [a ..< b]"

fun bytes_all :: "hash_val list \<Rightarrow> py_error + byte list list" where
  "bytes_all [] = Inr []"
| "bytes_all (h # hs) = (case hash_to_bytes h of Inl e \<Rightarrow> Inl e
     | Inr b \<Rightarrow> (case bytes_all hs of Inl e \<Rightarrow> Inl e | Inr bs \<Rightarrow> Inr (b # bs)))"

definition last_hash :: "hash_val \<Rightarrow> hash_val list \<Rightarrow> hash_val" where
  "last_hash p hs = (if hs = [] then p else last hs)"

lemma length_chain: "chain H p cs = Inr hs \<Longrightarrow> length hs = length cs"
  by (induction cs arbitrary: p hs) (auto split: sum.splits)

lemma chain_append: "chain H p (cs @ ds) = (case chain H p cs of
    Inl e \<Rightarrow> Inl e
  | Inr hs \<Rightarrow> (case chain H (last_hash p hs) ds of Inl e \<Rightarrow> Inl e | Inr hs' \<Rightarrow> Inr (hs @ hs')))"
  by (induction cs arbitrary: p) (auto simp: last_hash_def split: sum.splits)

lemma chunks_Suc: "chunks n ts 0 (Suc b) = chunks n ts 0 b @ [slice (b * n) (b * n + n) ts]"
  by (simp add: chunks_def)

lemma chunks_append: "k \<le> b \<Longrightarrow> chunks n ts 0 b = chunks n ts 0 k @ chunks n ts k b"
  using upt_add_eq_append [of 0 k "b - k"] by (simp add: chunks_def)

lemma length_chunks [simp]: "length (chunks n ts a b) = b - a"
  by (simp add: chunks_def)

lemma chunks_prefix:
  assumes "prefix ts us" "b * n \<le> length ts"
  shows "chunks n us 0 b = chunks n ts 0 b"
proof -
  obtain ys where us: "us = ts @ ys" using assms(1) by (auto simp: prefix_def)
  have "j * n + n \<le> length ts" if "j < b" for j
    using assms(2) that by (metis Suc_leI add.commute le_trans mult_Suc mult_le_mono1)
  then show ?thesis by (auto simp: chunks_def slice_def us)
qed

definition session_ok :: "hasher \<Rightarrow> session \<Rightarrow> bool" where
  "session_ok H s \<longleftrightarrow> num_chunks_processed s * chunk_size H \<le> length (s_token_ids s) \<and>
     chain H (none_hash H) (chunks (chunk_size H) (s_token_ids s) 0 (num_chunks_processed s)) = Inr (s_chunk_hashes s) \<and>
     last_prefix_hash s = (if num_chunks_processed s = 0 then None else Some (last (s_chunk_hashes s)))"

lemma session_new_ok: "session_ok H (session_new now)"
  by (simp add: session_ok_def session_new_def chunks_def)

lemma set_tokens_ok: "session_ok H s \<Longrightarrow> prefix (s_token_ids s) ts \<Longrightarrow> session_ok H (set_tokens ts s)"
  using prefix_length_le by (fastforce simp: session_ok_def set_tokens_def chunks_prefix)

lemma session_ok_prefix: "session_ok H s \<Longrightarrow>
    (case last_prefix_hash s of None \<Rightarrow> none_hash H | Some p \<Rightarrow> p) = last_hash (none_hash H) (s_chunk_hashes s)"
  by (cases "num_chunks_processed s = 0")
    (auto simp: session_ok_def last_hash_def dest!: length_chain)

lemma hash_next_chunk_ok:
  assumes ok: "session_ok H s" and len: "Suc (num_chunks_processed s) * chunk_size H \<le> length (s_token_ids s)"
  shows "case hash_next_chunk H s of
      (Inl e, s') \<Rightarrow> s' = s \<and> chain H (none_hash H) (chunks (chunk_size H) (s_token_ids s) 0 (Suc (num_chunks_processed s))) = Inl e
    | (Inr _, s') \<Rightarrow> session_ok H s' \<and> s_token_ids s' = s_token_ids s \<and> num_chunks_processed s' = Suc (num_chunks_processed s)"
  using ok len unfolding hash_next_chunk_def Let_def session_ok_prefix [OF ok]
  by (auto simp: session_ok_def chunks_Suc chain_append hash_tokens_def split: sum.splits)

lemma compute_hash_ok:
  "session_ok H s \<Longrightarrow> end_chunk * chunk_size H \<le> length (s_token_ids s) \<Longrightarrow>
    compute_hash H end_chunk s = (r, s') \<Longrightarrow>
    session_ok H s' \<and> s_token_ids s' = s_token_ids s \<and>
    (case r of Inl e \<Rightarrow> chain H (none_hash H) (chunks (chunk_size H) (s_token_ids s) 0 end_chunk) = Inl e
     | Inr _ \<Rightarrow> end_chunk \<le> num_chunks_processed s')"
proof (induction H end_chunk s rule: compute_hash.induct)
  case (1 H end_chunk s)
  show ?case
  proof (cases "num_chunks_processed s < end_chunk")
    case True
    obtain r1 s1 where n: "hash_next_chunk H s = (r1, s1)" by fastforce
    from True have "Suc (num_chunks_processed s) * chunk_size H \<le> end_chunk * chunk_size H"
      by (intro mult_le_mono1) simp
    then have "Suc (num_chunks_processed s) * chunk_size H \<le> length (s_token_ids s)"
      using 1(3) by (rule le_trans)
    note nx = hash_next_chunk_ok [OF 1(2) this, unfolded n]
    show ?thesis
    proof (cases r1)
      case (Inl e)
      then show ?thesis using nx 1(2,4) True
        chunks_append [of "Suc (num_chunks_processed s)" end_chunk "chunk_size H" "s_token_ids s"]
        by (auto simp: compute_hash.simps [of H end_chunk s] n chain_append)
    next
      case (Inr u)
      then show ?thesis using nx 1(1) [OF True n [symmetric] Inr] 1(3,4) True
        by (simp add: compute_hash.simps [of H end_chunk s] n split: sum.splits)
    qed
  next
    case False
    then show ?thesis using 1(2,4) by (auto simp: compute_hash.simps [of H end_chunk s])
  qed
qed

text \<open>What get_hashes returns does not depend on what the session had computed before.\<close>

lemma get_hashes_scratch:
  assumes "session_ok H s" "0 < chunk_size H" "b * chunk_size H \<le> length (s_token_ids s)"
    and "get_hashes H (a * chunk_size H) (b * chunk_size H) s = (r, s')"
  shows "session_ok H s' \<and> s_token_ids s' = s_token_ids s \<and>
    r = (case chain H (none_hash H) (chunks (chunk_size H) (s_token_ids s) 0 b) of
           Inl e \<Rightarrow> Inl e | Inr hs \<Rightarrow> Inr (drop a hs))"
proof -
  obtain r1 where c: "compute_hash H b s = (r1, s')"
    and r: "r = (case r1 of Inl e \<Rightarrow> Inl e | Inr _ \<Rightarrow> Inr (slice a b (s_chunk_hashes s')))"
    using assms(2,4) by (auto simp: get_hashes_def Let_def split: prod.splits sum.splits)
  note ok = compute_hash_ok [OF assms(1,3) c]
  show ?thesis
  proof (cases r1)
    case (Inl e)
    then show ?thesis using ok r by simp
  next
    case (Inr u)
    let ?n = "num_chunks_processed s'"
    have "b \<le> ?n" using ok Inr by simp
    note app = chunks_append [OF this, of "chunk_size H" "s_token_ids s"]
    have "chain H (none_hash H) (chunks (chunk_size H) (s_token_ids s) 0 ?n) = Inr (s_chunk_hashes s')"
      using ok by (metis session_ok_def)
    then obtain hs hs' where "chain H (none_hash H) (chunks (chunk_size H) (s_token_ids s) 0 b) = Inr hs"
      and "hs @ hs' = s_chunk_hashes s'" by (auto simp: app chain_append split: sum.splits)
    then show ?thesis using ok r Inr by (auto simp: slice_def simp flip: \<open>hs @ hs' = _\<close> dest: length_chain)
  qed
qed

lemma chunk_hashes_loop_ok:
  assumes n: "0 < chunk_size H"
  shows "m \<le> b \<Longrightarrow> chain H p (chunks (chunk_size H) ts m b) = Inr hs \<Longrightarrow>
    chunk_hashes_loop H ts (int (a * chunk_size H)) (map (\<lambda>j. j * chunk_size H) [m ..< b]) p acc =
    (case bytes_all (drop (a - m) hs) of Inl e \<Rightarrow> Inl e | Inr bs \<Rightarrow> Inr (acc @ bs))"
proof (induction "b - m" arbitrary: m p acc hs)
  case 0
  then show ?case by (simp add: chunks_def)
next
  case (Suc d)
  let ?c = "slice (m * chunk_size H) (m * chunk_size H + chunk_size H) ts"
  have lt: "m < b" using Suc.hyps(2) by simp
  have c: "chunks (chunk_size H) ts m b = ?c # chunks (chunk_size H) ts (Suc m) b"
    using lt by (simp add: chunks_def upt_conv_Cons)
  obtain h hs' where h: "hash_func H p ?c = Inr h"
    and ch: "chain H h (chunks (chunk_size H) ts (Suc m) b) = Inr hs'" and hs: "hs = h # hs'"
    using Suc.prems(2) by (auto simp: c split: sum.splits)
  have u: "[m ..< b] = m # [Suc m ..< b]" using lt by (simp add: upt_conv_Cons)
  have ih: "chunk_hashes_loop H ts (int (a * chunk_size H)) (map (\<lambda>j. j * chunk_size H) [Suc m ..< b]) h acc' =
      (case bytes_all (drop (a - Suc m) hs') of Inl e \<Rightarrow> Inl e | Inr bs \<Rightarrow> Inr (acc' @ bs))" for acc'
    using Suc.hyps(1) [OF _ _ ch] Suc.hyps(2) lt by simp
  have le: "(int (a * chunk_size H) \<le> int (m * chunk_size H)) = (a \<le> m)" using n by simp
  show ?case
  proof (cases "a \<le> m")
    case True
    then show ?thesis unfolding u hs
      by (auto simp: le hash_tokens_def h ih simp del: of_nat_mult split: sum.splits)
  next
    case False
    moreover have "a - m = Suc (a - Suc m)" using False by simp
    ultimately show ?thesis unfolding u hs
      using n by (simp add: le hash_tokens_def h ih del: of_nat_mult)
  qed
qed

lemma chunk_hashes_loop_raises:
  "m \<le> b \<Longrightarrow> chain H p (chunks (chunk_size H) ts m b) = Inl e \<Longrightarrow>
    chunk_hashes_loop H ts st (map (\<lambda>j. j * chunk_size H) [m ..< b]) p acc \<in> {Inl e, Inl OverflowError}"
proof (induction "b - m" arbitrary: m p acc)
  case 0
  then show ?case by (simp add: chunks_def)
next
  case (Suc d)
  have lt: "m < b" using Suc.hyps(2) by simp
  have c: "chunks (chunk_size H) ts m b = slice (m * chunk_size H) (m * chunk_size H + chunk_size H) ts
      # chunks (chunk_size H) ts (Suc m) b" using lt by (simp add: chunks_def upt_conv_Cons)
  have u: "[m ..< b] = m # [Suc m ..< b]" using lt by (simp add: upt_conv_Cons)
  have ih: "chain H h (chunks (chunk_size H) ts (Suc m) b) = Inl e \<Longrightarrow>
      chunk_hashes_loop H ts st (map (\<lambda>j. j * chunk_size H) [Suc m ..< b]) h acc' \<in> {Inl e, Inl OverflowError}" for h acc'
    using Suc.hyps(1) [of "Suc m"] Suc.hyps(2) lt by simp
  have "hash_to_bytes h = Inl e' \<Longrightarrow> e' = OverflowError" for h e'
    by (auto simp: hash_to_bytes_def split: hash_val.splits if_splits)
  then show ?case using Suc.prems(2) ih unfolding c u
    by (auto simp: hash_tokens_def split: sum.splits)
qed

section \<open>Properties\<close>

text \<open>The rolling kernel is the polynomial hash. For a window size between 1 and the length of
  the array, entry w of rolling_hash_windows is the documented sum over the window at w,
  with 64-bit wrap-around, although each is computed from the previous one; and the chunked
  kernel gives the entries at multiples of the window size.\<close>

theorem rolling_hash_is_polynomial:
  assumes "1 \<le> k" "k \<le> length arr"
  shows "rolling_hash_windows arr k base =
      map (\<lambda>w. \<Sum>i < k. arr ! (w + i) * base ^ (k - 1 - i)) [0 ..< length arr - k + 1] \<and>
    chunk_hash_windows arr k base =
      map (\<lambda>w. rolling_hash_windows arr k base ! (w * k)) [0 ..< length arr div k]"
proof -
  have "w * k < length arr - k + 1" if "w < length arr div k" for w
  proof -
    have "w * k + k \<le> length arr div k * k" using that by (metis Suc_leI add.commute mult_Suc mult_le_mono1)
    then show ?thesis using assms(2) div_times_less_eq_dividend [of "length arr" k] by linarith
  qed
  then show ?thesis unfolding rolling_windows_eq [OF assms] chunk_windows_eq
    by (auto simp: window_sum simp del: upt_Suc)
qed

lemma rolling_hash_is_polynomial_witness:
  "rolling_hash_windows [1, 2, 3] 2 10 = [12, 23]"
  using rolling_hash_is_polynomial [of 2 "[1, 2, 3 :: 64 word]" 10]
  by (simp add: upt_rec numeral_2_eq_2 lessThan_Suc)

text \<open>The lookup kernel returns every hit once: the identifiers it returns are distinct and are
  exactly the table entries, other than -1, that some hash of the stream selects.\<close>

theorem unique_hits_are_the_hits:
  assumes "\<forall>h \<in> set hashes. table ! unat (h AND mask_u64) \<noteq> -1 \<longrightarrow>
    0 \<le> table ! unat (h AND mask_u64) \<and> table ! unat (h AND mask_u64) < int num_ids"
  shows "distinct (unique_hits_direct_id hashes table mask_u64 num_ids) \<and>
    set (unique_hits_direct_id hashes table mask_u64 num_ids) =
      (\<lambda>h. table ! unat (h AND mask_u64)) ` set hashes - {-1}"
proof -
  let ?hit = "\<lambda>h. table ! unat (h AND mask_u64)"
  have "distinct out' \<and> set out' = set out \<union> (?hit ` set hs - {-1})"
    if "fold (unique_hits_step table mask_u64) hs (seen, out) = (seen', out')" "length seen = num_ids"
      "\<forall>x. 0 \<le> x \<and> x < int num_ids \<longrightarrow> seen ! nat x = (x \<in> set out)"
      "distinct out" "\<forall>x \<in> set out. 0 \<le> x" "set hs \<subseteq> set hashes" for hs seen out seen' out'
    using that
  proof (induction hs arbitrary: seen out)
    case (Cons h hs)
    let ?x = "?hit h"
    show ?case
    proof (cases "?x \<noteq> -1 \<and> \<not> seen ! nat ?x")
      case True
      then have x: "0 \<le> ?x" "?x < int num_ids" using assms Cons.prems(6) by auto
      then have "?x \<notin> set out" using True Cons.prems(3) by blast
      moreover have "\<forall>y. 0 \<le> y \<and> y < int num_ids \<longrightarrow> seen[nat ?x := True] ! nat y = (y \<in> set (out @ [?x]))"
        using Cons.prems(2,3) x by (auto simp: nth_list_update nat_eq_iff2)
      ultimately show ?thesis
        using Cons.IH [of "seen[nat ?x := True]" "out @ [?x]"] Cons.prems x True
        by (auto simp: unique_hits_step_def Let_def)
    next
      case False
      then have "?x = -1 \<or> ?x \<in> set out" using assms Cons.prems(3,6) by auto
      then show ?thesis using Cons.IH [of seen out] Cons.prems False
        by (auto simp: unique_hits_step_def Let_def)
    qed
  qed simp
  from this [of hashes "replicate num_ids False" "[]"] show ?thesis
    unfolding unique_hits_direct_id_def
    by (cases "fold (unique_hits_step table mask_u64) hashes (replicate num_ids False, [])") (auto simp: nat_less_iff)
qed

lemma unique_hits_are_the_hits_witness:
  "set (unique_hits_direct_id [5, 4, 5] [-1, 1] 1 2) = {1}"
proof -
  have "{1, - 1, 1} - {- 1} = {1 :: int}" by auto
  then show ?thesis
    using unique_hits_are_the_hits [of "[5, 4, 5 :: 64 word]" "[-1, 1]" 1 2] by simp
qed

text \<open>With blake3 the hashes of a list of chunks exist exactly when every token is a 32-bit number;
  otherwise hashing raises struct.error.\<close>

lemma blake3_chain:
  "hash_func H = blake3_hash digest \<Longrightarrow>
    (\<forall>c \<in> set cs. \<forall>t \<in> set c. 0 \<le> t \<and> t < 2 ^ 32) = (\<exists>hs. chain H (HashBytes v) cs = Inr hs) \<and>
    (\<forall>e. chain H (HashBytes v) cs = Inl e \<longrightarrow> e = StructError)"
proof (induction cs arbitrary: v)
  case (Cons c cs)
  have "blake3_hash digest (HashBytes v) c = (if \<forall>t \<in> set c. 0 \<le> t \<and> t < 2 ^ 32
      then Inr (HashBytes (digest (v @ concat (map (be_bytes 4) c)))) else Inl StructError)"
    by (auto simp: blake3_hash_def blake3_input_def)
  then show ?case using Cons.IH [OF Cons.prems, of "digest (v @ concat (map (be_bytes 4) c))"] Cons.prems
    by (auto split: sum.splits)
qed simp

text \<open>C39: Incremental hashing equals hashing from scratch, errors included. In a session whose
  cached hashes belong to its tokens (a new session is one), after set_tokens with an extension
  of them, get_hashes on an aligned range within the tokens returns, or raises, what it does in
  a new session given the same tokens, whatever was computed before, and even when the hash
  function raises the session keeps only hashes that belong to its tokens. A returned list has
  one hash per chunk of the range, and compute_chunk_hashes on the new tokens returns the same
  hashes as bytes (or the error of a hash that has none); where get_hashes raises,
  compute_chunk_hashes raises the same error, or OverflowError if an integer hash before the
  failing chunk does not fit into 8 bytes.\<close>

theorem session_hashes_from_scratch:
  assumes "session_ok H s" "prefix (s_token_ids s) ts" "0 < chunk_size H"
    and "a \<le> b" "b * chunk_size H \<le> length ts"
    and "get_hashes H (a * chunk_size H) (b * chunk_size H) (set_tokens ts s) = (r, s')"
  shows "fst (get_hashes H (a * chunk_size H) (b * chunk_size H) (set_tokens ts (session_new now))) = r \<and>
    session_ok H (session_new now) \<and> session_ok H s' \<and> s_token_ids s' = ts \<and>
    (case r of
       Inr hs \<Rightarrow> length hs = b - a \<and>
         compute_chunk_hashes H ts None (int (a * chunk_size H)) (Some (int (b * chunk_size H))) = bytes_all hs
     | Inl e \<Rightarrow>
         compute_chunk_hashes H ts None (int (a * chunk_size H)) (Some (int (b * chunk_size H)))
           \<in> {Inl e, Inl OverflowError})"
proof -
  let ?n = "chunk_size H" and ?c = "chain H (none_hash H) (chunks (chunk_size H) ts 0 b)"
  have ts: "s_token_ids (set_tokens ts s0) = ts" for s0 by (simp add: set_tokens_def)
  have len: "b * ?n \<le> length (s_token_ids (set_tokens ts s0))" for s0 using assms(5) by (simp add: ts)
  note inc = get_hashes_scratch [OF set_tokens_ok [OF assms(1,2)] assms(3) len assms(6), unfolded ts]
  have new: "session_ok H (set_tokens ts (session_new now))"
    by (rule set_tokens_ok [OF session_new_ok]) (simp add: session_new_def)
  obtain r2 s2 where g2: "get_hashes H (a * ?n) (b * ?n) (set_tokens ts (session_new now)) = (r2, s2)"
    by fastforce
  note fresh = get_hashes_scratch [OF new assms(3) len g2, unfolded ts]
  have "int (b * ?n) mod int ?n = 0" by simp
  moreover have "min (int (length ts)) (int (b * ?n)) = int (b * ?n)"
    using assms(5) by (metis min.absorb2 of_nat_le_iff)
  moreover have "nat (int (b * ?n) div int ?n) = b" using assms(3) by simp
  ultimately have loop: "compute_chunk_hashes H ts None (int (a * ?n)) (Some (int (b * ?n))) =
      chunk_hashes_loop H ts (int (a * ?n)) (map (\<lambda>j. j * ?n) [0 ..< b]) (none_hash H) []"
    using assms(3) by (simp add: compute_chunk_hashes_def Let_def)
  show ?thesis
  proof (cases ?c)
    case (Inl e)
    then show ?thesis using inc fresh g2 session_new_ok chunk_hashes_loop_raises [of 0 b] unfolding loop by simp
  next
    case (Inr hs)
    then show ?thesis using inc fresh g2 session_new_ok chunk_hashes_loop_ok [OF assms(3), of 0 b "none_hash H" ts hs a "[]"]
      unfolding loop by (simp add: length_chain split: sum.splits)
  qed
qed

text \<open>The default hash function over a stand-in digest, and a sum in place of the builtin hash.\<close>

definition blake3_hasher :: "(byte list \<Rightarrow> byte list) \<Rightarrow> hasher" where
  "blake3_hasher digest = \<lparr>chunk_size = 2, hash_func = blake3_hash digest,
     none_hash = HashBytes (digest (be_bytes 8 0 @ be_bytes 4 0))\<rparr>"

definition toy_hasher :: hasher where
  "toy_hasher = \<lparr>chunk_size = 2,
     hash_func = (\<lambda>p ts. Inr (HashInt ((case p of HashInt n \<Rightarrow> n | HashBytes _ \<Rightarrow> 0) + sum_list ts))),
     none_hash = HashInt 0\<rparr>"

lemma session_hashes_from_scratch_witness:
  "(case get_hashes (blake3_hasher (take 3)) 2 4 (set_tokens [1, 2, 3, 4, 5] (session_new 0)) of
      (Inr hs, s') \<Rightarrow> length hs = 1 | (Inl e, s') \<Rightarrow> False) \<and>
   fst (get_hashes (blake3_hasher (take 3)) 2 4 (set_tokens [1, 2, 3, -4, 5] (session_new 0))) = Inl StructError \<and>
   compute_chunk_hashes (blake3_hasher (take 3)) [1, 2, 3, -4, 5] None 2 (Some 4) \<in> {Inl StructError, Inl OverflowError}"
proof -
  let ?H = "blake3_hasher (take 3)"
  have cs: "chunk_size ?H = 2" by (simp add: blake3_hasher_def)
  note scratch = session_hashes_from_scratch [OF session_new_ok, of 0 _ ?H 1 2 _ _ 0, unfolded cs]
  have p: "prefix (s_token_ids (session_new 0)) ts" for ts by (simp add: session_new_def)
  have ok: "case get_hashes ?H 2 4 (set_tokens [1, 2, 3, 4, 5] (session_new 0)) of (Inr hs, s') \<Rightarrow> True | (Inl e, s') \<Rightarrow> False"
    by code_simp
  have err: "fst (get_hashes ?H 2 4 (set_tokens [1, 2, 3, -4, 5] (session_new 0))) = Inl StructError" by code_simp
  obtain r1 s1 where g1: "get_hashes ?H 2 4 (set_tokens [1, 2, 3, 4, 5] (session_new 0)) = (r1, s1)" by fastforce
  obtain r2 s2 where g2: "get_hashes ?H 2 4 (set_tokens [1, 2, 3, -4, 5] (session_new 0)) = (r2, s2)" by fastforce
  show ?thesis using ok err scratch [OF p, of "[1, 2, 3, 4, 5]" r1 s1] scratch [OF p, of "[1, 2, 3, -4, 5]" r2 s2] g1 g2
    by (auto split: sum.splits)
qed

text \<open>The bytes fed to blake3 determine the chunk: if two prefix hashes have the same length and
  their inputs are the same bytes, then the prefixes and the token lists are the same, so
  only a collision of the hash itself can confuse two chunks. A token that is not an
  unsigned 32-bit integer is an error.\<close>

theorem blake3_input_injective:
  assumes "blake3_input (HashBytes p) ts = Inr bs" "blake3_input (HashBytes q) us = Inr bs" "length p = length q"
  shows "p = q \<and> ts = us \<and> (\<forall>t. t < 0 \<or> 2 ^ 32 \<le> t \<longrightarrow> blake3_input (HashBytes p) (t # ts) = Inl StructError)"
proof -
  have r: "\<forall>t \<in> set ts. 0 \<le> t \<and> t < 2 ^ 32" "\<forall>t \<in> set us. 0 \<le> t \<and> t < 2 ^ 32"
    and e: "p @ concat (map (be_bytes 4) ts) = q @ concat (map (be_bytes 4) us)"
    using assms(1,2) by (auto simp: blake3_input_def split: if_splits)
  have "p = q" "concat (map (be_bytes 4) ts) = concat (map (be_bytes 4) us)"
    using e assms(3) by (metis append_eq_append_conv)+
  then show ?thesis using concat_be_bytes_inj [OF _ r] by (auto simp: blake3_input_def)
qed

lemma blake3_input_injective_witness:
  "blake3_input (HashBytes [7]) [-1, 258] = Inl StructError"
proof -
  have "blake3_input (HashBytes [7]) [258] = Inr [7, 0, 0, 1, 2]" by code_simp
  from blake3_input_injective [OF this this] show ?thesis by simp
qed

text \<open>A replacement that is not an extension is served from the stale cache.\<close>

lemma stale_session_hashes:
  "fst (get_hashes toy_hasher 0 2 (set_tokens [7, 8] (snd (get_hashes toy_hasher 0 2 (set_tokens [1, 2] (session_new 0)))))) =
     Inr [HashInt 3] \<and>
   fst (get_hashes toy_hasher 0 2 (set_tokens [7, 8] (session_new 0))) = Inr [HashInt 15]"
  by code_simp

end
