(* ===== verification/Object_Keys.thy ===== *)
theory Object_Keys
  imports Precision_Tiers Token_Hashing
begin

text \<open>
  ObjectKey and ipc_key_to_object_keys of lmcache/v1/distributed/api.py, with the
  IPCCacheEngineKey they start from (lmcache/v1/multiprocess/custom_types.py). Identifiers
  of integers are unbounded, as in Python, and bit operations are Python's on them.
\<close>

record object_key =
  chunk_hash :: "byte list"
  model_name :: string
  kv_rank :: int

definition int_hash_to_bytes :: "int \<Rightarrow> py_error + byte list" where
  "int_hash_to_bytes h = (if 0 \<le> h \<and> h < 2 ^ 32 then Inr (be_bytes 4 h) else Inl OverflowError)"

definition bytes_to_int_hash :: "byte list \<Rightarrow> int" where
  "bytes_to_int_hash bs = int_of_be bs AND (push_bit 64 1 - 1)"

definition compute_kv_rank :: "int \<Rightarrow> int \<Rightarrow> int \<Rightarrow> int \<Rightarrow> int" where
  "compute_kv_rank world_size global_rank local_world_size local_rank =
     push_bit 24 world_size OR push_bit 16 global_rank OR push_bit 8 local_world_size OR local_rank"

record ipc_key =
  ipc_model_name :: string
  ipc_world_size :: int
  ipc_worker_id :: "int option"
  ipc_token_ids :: "int list"
  ipc_start :: int
  ipc_end :: int
  ipc_request_id :: string

text \<open>request_id is excluded from comparisons.\<close>

definition ipc_key_eq :: "ipc_key \<Rightarrow> ipc_key \<Rightarrow> bool" where
  "ipc_key_eq k k' \<longleftrightarrow> k\<lparr>ipc_request_id := []\<rparr> = k'\<lparr>ipc_request_id := []\<rparr>"

definition no_worker_id_version :: "ipc_key \<Rightarrow> ipc_key" where
  "no_worker_id_version k = k\<lparr>ipc_worker_id := None\<rparr>"

fun all_results :: "(py_error + 'a) list \<Rightarrow> py_error + 'a list" where
  "all_results [] = Inr []"
| "all_results (r # rs) = (case r of Inl e \<Rightarrow> Inl e
     | Inr x \<Rightarrow> (case all_results rs of Inl e \<Rightarrow> Inl e | Inr xs \<Rightarrow> Inr (x # xs)))"

definition object_key_for :: "proc_env \<Rightarrow> ipc_key \<Rightarrow> byte list \<Rightarrow> string option \<Rightarrow> int \<Rightarrow> py_error + object_key" where
  "object_key_for V k h tier worker_id =
     (let rank = compute_kv_rank (ipc_world_size k) worker_id (ipc_world_size k) worker_id
      in case namespace_model_name_for_precision V (ipc_model_name k) tier of
           Inl e \<Rightarrow> Inl e
         | Inr name \<Rightarrow> Inr \<lparr>chunk_hash = h, model_name = name, kv_rank = rank\<rparr>)"

definition ipc_workers :: "ipc_key \<Rightarrow> int list" where
  "ipc_workers k = (case ipc_worker_id k of None \<Rightarrow> [0 .. ipc_world_size k - 1] | Some w \<Rightarrow> [w])"

definition ipc_key_to_object_keys :: "proc_env \<Rightarrow> ipc_key \<Rightarrow> byte list list \<Rightarrow> string list option
    \<Rightarrow> py_error + object_key list" where
  "ipc_key_to_object_keys V k chunk_hashes precision_tiers =
     (if (case precision_tiers of None \<Rightarrow> False | Some ts \<Rightarrow> length ts \<noteq> length chunk_hashes) then Inl ValueError
      else all_results (concat (map (\<lambda>(idx, h).
        let tier = (case precision_tiers of None \<Rightarrow> None | Some ts \<Rightarrow> Some (ts ! idx))
        in map (object_key_for V k h tier) (ipc_workers k)) (enumerate 0 chunk_hashes))))"

section \<open>Properties\<close>

lemma mask_fits: "0 \<le> (x :: int) \<Longrightarrow> x < 256 \<Longrightarrow> take_bit 8 x = x"
  using take_bit_int_eq_self [of x 8] by simp

lemma drop_small: "0 \<le> (x :: int) \<Longrightarrow> x < 256 \<Longrightarrow> drop_bit (8 + n) x = 0"
proof -
  assume x: "0 \<le> x" "x < 256"
  have "(256 :: int) \<le> 256 * 2 ^ n" by simp
  then have "x < 256 * 2 ^ n" using x(2) by (rule less_le_trans [rotated])
  then have "x < 2 ^ (8 + n)" by (simp add: power_add)
  then show ?thesis using x(1) by (simp add: drop_bit_eq_div)
qed

text \<open>The packed rank is faithful for up to 255 workers: with all four numbers between 0 and
  255, each can be read back from its byte of kv_rank, so different parallel setups and
  ranks get different numbers. Beyond that it is not: with 257 workers, the workers 0 and
  256 get the same rank.\<close>

theorem kv_rank_roundtrip:
  assumes "0 \<le> gr" "gr < 256" "0 \<le> lws" "lws < 256" "0 \<le> lr" "lr < 256"
  shows "drop_bit 24 (compute_kv_rank ws gr lws lr) = ws \<and>
    take_bit 8 (drop_bit 16 (compute_kv_rank ws gr lws lr)) = gr \<and>
    take_bit 8 (drop_bit 8 (compute_kv_rank ws gr lws lr)) = lws \<and>
    take_bit 8 (compute_kv_rank ws gr lws lr) = lr \<and>
    compute_kv_rank 257 256 257 256 = compute_kv_rank 257 0 257 0"
proof -
  have d: "drop_bit 24 (push_bit 16 gr) = 0" "drop_bit 24 (push_bit 8 lws) = 0" "drop_bit 24 lr = 0"
    "drop_bit 16 (push_bit 8 lws) = 0" "drop_bit 16 lr = 0" "drop_bit 8 lr = 0"
    using drop_small [of gr 0] drop_small [of lws 0] drop_small [of lws 8] drop_small [of lr 0]
      drop_small [of lr 8] drop_small [of lr 16] assms
    by (simp_all add: drop_bit_push_bit)
  show ?thesis using d assms
    by (simp add: compute_kv_rank_def drop_bit_push_bit take_bit_push_bit mask_fits)
qed

lemma kv_rank_roundtrip_witness:
  "compute_kv_rank 8 5 4 1 = 134546433 \<and> take_bit 8 (drop_bit 16 (compute_kv_rank 8 5 4 1)) = 5"
proof -
  have "compute_kv_rank 8 5 4 1 = 134546433" by code_simp
  then show ?thesis using kv_rank_roundtrip [of 5 4 1 8] by simp
qed

lemma kv_rank_inj:
  assumes "0 \<le> w" "w < 256" "0 \<le> w'" "w' < 256" "0 \<le> ws" "ws < 256"
    and "compute_kv_rank ws w ws w = compute_kv_rank ws w' ws w'"
  shows "w = w'"
proof -
  have "take_bit 8 (compute_kv_rank ws x ws x) = x" if "0 \<le> x" "x < 256" for x
  proof -
    have "take_bit 8 (push_bit 24 ws) = 0" "take_bit 8 (push_bit 16 x) = 0" "take_bit 8 (push_bit 8 ws) = 0"
      by (simp_all add: take_bit_push_bit)
    then show ?thesis using that by (simp add: compute_kv_rank_def mask_fits)
  qed
  then show ?thesis using assms by metis
qed

lemma all_results_Inr: "all_results (map (\<lambda>x. Inr (f x)) xs) = Inr (map f xs)"
  by (induction xs) simp_all

lemma all_results_concat:
  "all_results (concat (map (\<lambda>x. map (\<lambda>y. Inr (f x y)) (ys x)) xs)) = Inr (concat (map (\<lambda>x. map (f x) (ys x)) xs))"
  using all_results_Inr [of "\<lambda>(x, y). f x y" "concat (map (\<lambda>x. map (Pair x) (ys x)) xs)"]
  by (simp add: map_concat comp_def)

definition tier_name :: "proc_env \<Rightarrow> string \<Rightarrow> string \<Rightarrow> string" where
  "tier_name V m tier = (if tier = MP_FULL_TIER then m else m @ ''#precision=base#codec='' @ base_codec_from_env V)"

text \<open>The keys of a request. With one valid tier per chunk the expansion succeeds and lists, chunk
  by chunk in order, one key per worker (all of them for a lookup, the given one otherwise),
  each with the chunk's hash, the model name of the chunk's tier and the worker's rank; for at
  most 255 workers and distinct chunk hashes no key occurs twice, and the full and base
  names of a model differ. A list of tiers of another length is a ValueError.\<close>

theorem object_keys_of_request:
  assumes "length tiers = length hashes" "set tiers \<subseteq> {MP_FULL_TIER, MP_BASE_TIER}"
    and "0 \<le> ipc_world_size k" "ipc_world_size k < 256" "\<forall>w. ipc_worker_id k = Some w \<longrightarrow> 0 \<le> w \<and> w < 256"
  shows "\<exists>keys. ipc_key_to_object_keys V k hashes (Some tiers) = Inr keys \<and>
    keys = concat (map (\<lambda>(h, tier). map (\<lambda>w. \<lparr>chunk_hash = h, model_name = tier_name V (ipc_model_name k) tier,
        kv_rank = compute_kv_rank (ipc_world_size k) w (ipc_world_size k) w\<rparr>) (ipc_workers k)) (zip hashes tiers)) \<and>
    (distinct hashes \<longrightarrow> distinct keys) \<and>
    tier_name V (ipc_model_name k) MP_FULL_TIER \<noteq> tier_name V (ipc_model_name k) MP_BASE_TIER \<and>
    ipc_key_to_object_keys V k (h # hashes) (Some tiers) = Inl ValueError"
proof -
  let ?key = "\<lambda>h tier w. \<lparr>chunk_hash = h, model_name = tier_name V (ipc_model_name k) tier,
        kv_rank = compute_kv_rank (ipc_world_size k) w (ipc_world_size k) w\<rparr>"
  let ?keys = "concat (map (\<lambda>(h, tier). map (?key h tier) (ipc_workers k)) (zip hashes tiers))"
  have key: "object_key_for V k h (Some t) w = Inr (?key h t w)" if "t \<in> set tiers" for h t w
    using that assms(2) by (auto simp: object_key_for_def namespace_model_name_for_precision_def tier_name_def Let_def)
  have "map (\<lambda>(idx, h). map (object_key_for V k h (Some (tiers ! idx))) (ipc_workers k)) (enumerate 0 hashes) =
      map (\<lambda>(h, t). map (\<lambda>w. Inr (?key h t w)) (ipc_workers k)) (zip hashes tiers)"
    using assms(1) by (intro nth_equalityI) (auto simp: nth_enumerate_eq key)
  then have eq: "ipc_key_to_object_keys V k hashes (Some tiers) = Inr ?keys"
    using assms(1) all_results_concat [of "\<lambda>(h, t) w. ?key h t w" "\<lambda>x. ipc_workers k" "zip hashes tiers"]
    by (simp add: ipc_key_to_object_keys_def case_prod_beta')
  have w: "distinct (ipc_workers k)" "\<forall>w \<in> set (ipc_workers k). 0 \<le> w \<and> w < 256"
    using assms(4,5) by (auto simp: ipc_workers_def split: option.splits)
  have inj: "inj_on (?key h t) (set (ipc_workers k))" for h t
    using w(2) assms(3,4) kv_rank_inj by (auto simp: inj_on_def)
  have "distinct (concat (map (\<lambda>(h, tier). map (?key h tier) (ipc_workers k)) (zip hs ts)))"
    if "distinct hs" for hs ts
    using that
  proof (induction hs arbitrary: ts)
    case (Cons h hs)
    show ?case
    proof (cases ts)
      case (Cons t us)
      have "set (map (?key h t) (ipc_workers k)) \<inter>
          set (concat (map (\<lambda>(h, tier). map (?key h tier) (ipc_workers k)) (zip hs us))) = {}"
        using Cons.prems by (auto dest: set_zip_leftD)
      then show ?thesis using Cons.IH [of us] Cons.prems w(1) inj
        by (simp add: \<open>ts = t # us\<close> distinct_map)
    qed simp
  qed simp
  then show ?thesis using eq assms(1)
    by (simp add: tier_name_def ipc_key_to_object_keys_def)
qed

lemma object_keys_of_request_witness:
  "\<exists>keys. ipc_key_to_object_keys (exact_env []) \<lparr>ipc_model_name = ''m'', ipc_world_size = 2, ipc_worker_id = None,
      ipc_token_ids = [], ipc_start = 0, ipc_end = 0, ipc_request_id = []\<rparr> [[1], [2]] (Some [''full'', ''base'']) = Inr keys \<and>
    distinct keys"
proof -
  let ?k = "\<lparr>ipc_model_name = ''m'', ipc_world_size = 2, ipc_worker_id = None,
      ipc_token_ids = [], ipc_start = 0, ipc_end = 0, ipc_request_id = []\<rparr>"
  have "length [''full'', ''base''] = length [[1], [2 :: byte]]" "set [''full'', ''base''] \<subseteq> {MP_FULL_TIER, MP_BASE_TIER}"
    "0 \<le> ipc_world_size ?k" "ipc_world_size ?k < 256" "\<forall>w. ipc_worker_id ?k = Some w \<longrightarrow> 0 \<le> w \<and> w < 256"
    by simp_all
  from object_keys_of_request [OF this, of "exact_env []"] show ?thesis by auto
qed

end
