(* ===== verification/Token_Database.thy ===== *)
theory Token_Database
  imports Prelude
begin

text \<open>
  ChunkedTokenDatabase and SegmentTokenDatabase of lmcache/v1/token_database.py. The two
  process_tokens are generators: what they have yielded before an exception stays yielded,
  so a run is the list of yielded items and the exception, if any. The hash function and
  the separator tokens of the tokenizer are fields of the database. Keys carry the hash
  and the logical world size; the other fields of CacheEngineKey are the metadata's,
  copied. Tensors of tokens are lists of integers; a mask is the list of its booleans.
\<close>

type_synonym ('h, 'y) run = "'y list \<times> py_error option"

record 'h token_db =
  db_chunk_size :: nat
  db_save_unfull_chunk :: bool
  db_hash_func :: "'h \<Rightarrow> int list \<Rightarrow> 'h"
  db_none_hash :: 'h
  db_world_size :: int
  db_save_only_first_rank :: bool
  db_sep_tokens :: "int list"

datatype 'h entry_id = KeyOf int 'h | HashOf 'h

definition make_key_by_hash :: "'h token_db \<Rightarrow> bool \<Rightarrow> 'h \<Rightarrow> 'h entry_id" where
  "make_key_by_hash db make_key h =
     (if make_key then KeyOf (if \<not> db_save_only_first_rank db then db_world_size db else 1) h else HashOf h)"

definition hash_chunk :: "'h token_db \<Rightarrow> int list \<Rightarrow> 'h option \<Rightarrow> 'h" where
  "hash_chunk db tokens prefix_hash =
     db_hash_func db (case prefix_hash of None \<Rightarrow> db_none_hash db | Some p \<Rightarrow> p) tokens"

section \<open>Fixed-size chunks\<close>

definition py_slice_nat :: "nat \<Rightarrow> nat \<Rightarrow> 'a list \<Rightarrow> 'a list" where
  "py_slice_nat i j xs = drop i (take j xs)"

text \<open>The number of turns of range(0, end, chunk_size) is the rounded-up quotient.\<close>

definition chunk_tokens :: "'h token_db \<Rightarrow> int list \<Rightarrow> int list list" where
  "chunk_tokens db tokens =
     (let n = db_chunk_size db;
          stop = (if db_save_unfull_chunk db then length tokens else length tokens - length tokens mod n)
      in map (\<lambda>j. py_slice_nat (j * n) (j * n + n) tokens) [0 ..< (stop + n - 1) div n])"

fun prefix_hashes :: "'h token_db \<Rightarrow> int list list \<Rightarrow> 'h \<Rightarrow> 'h list" where
  "prefix_hashes db [] p = []"
| "prefix_hashes db (c # cs) p = (let h = hash_chunk db c (Some p) in h # prefix_hashes db cs h)"

definition mask_falses :: "bool list option \<Rightarrow> nat" where
  "mask_falses msk = (case msk of None \<Rightarrow> 0 | Some m \<Rightarrow> length m - length (filter id m))"

fun chunk_items :: "'h token_db \<Rightarrow> bool \<Rightarrow> nat \<Rightarrow> nat \<Rightarrow> nat \<Rightarrow> 'h list \<Rightarrow> (nat \<times> nat \<times> 'h entry_id) list" where
  "chunk_items db make_key total_len num_falses chunk_id [] = []"
| "chunk_items db make_key total_len num_falses chunk_id (h # hs) =
     (let start_idx = chunk_id * db_chunk_size db;
          end_idx = min (start_idx + db_chunk_size db) total_len
      in if start_idx < num_falses then chunk_items db make_key total_len num_falses (Suc chunk_id) hs
         else (start_idx, end_idx, make_key_by_hash db make_key h)
              # chunk_items db make_key total_len num_falses (Suc chunk_id) hs)"

text \<open>The branch for given hashes, which the two classes share; zip stops at the shorter list.\<close>

fun hash_items :: "'h token_db \<Rightarrow> bool \<Rightarrow> nat \<Rightarrow> ('h \<times> nat) list \<Rightarrow> (nat \<times> nat \<times> 'h entry_id) list" where
  "hash_items db make_key start_idx [] = []"
| "hash_items db make_key start_idx ((h, offset) # xs) =
     (start_idx, start_idx + offset, make_key_by_hash db make_key h)
     # hash_items db make_key (start_idx + offset) xs"

definition given_hashes :: "'h token_db \<Rightarrow> bool \<Rightarrow> 'h list option \<Rightarrow> nat list option
    \<Rightarrow> ('h, nat \<times> nat \<times> 'h entry_id) run" where
  "given_hashes db make_key hashes offsets =
     (case hashes of
        None \<Rightarrow> ([], Some ValueError)
      | Some hs \<Rightarrow> (case offsets of None \<Rightarrow> ([], Some AssertionError)
                    | Some os \<Rightarrow> (hash_items db make_key 0 (zip hs os), None)))"

definition chunked_process_tokens :: "'h token_db \<Rightarrow> int list option \<Rightarrow> 'h list option \<Rightarrow> nat list option
    \<Rightarrow> bool list option \<Rightarrow> bool \<Rightarrow> ('h, nat \<times> nat \<times> 'h entry_id) run" where
  "chunked_process_tokens db tokens hashes offsets msk make_key =
     (let num_falses = mask_falses msk
      in if db_chunk_size db = 0 then ([], Some ZeroDivisionError)
         else if num_falses mod db_chunk_size db \<noteq> 0 then ([], Some ValueError)
         else case tokens of
           Some ts \<Rightarrow> (chunk_items db make_key (length ts) num_falses 0
                         (prefix_hashes db (chunk_tokens db ts) (db_none_hash db)), None)
         | None \<Rightarrow> given_hashes db make_key hashes offsets)"

section \<open>Segments between separators\<close>

text \<open>
  The positions where the separator matches. unfold raises when the window is longer than
  the tensor; the early yield of the whole input does not return.
\<close>

definition sep_matches :: "int list \<Rightarrow> int list \<Rightarrow> nat list" where
  "sep_matches sep tokens =
     filter (\<lambda>i. py_slice_nat i (i + length sep) tokens = sep) [0 ..< length tokens - length sep + 1]"

fun split_at_matches :: "nat \<Rightarrow> int list \<Rightarrow> nat list \<Rightarrow> nat \<Rightarrow> int list list" where
  "split_at_matches n tokens [] start_at = [drop start_at tokens]"
| "split_at_matches n tokens (i # is) start_at =
     py_slice_nat start_at i tokens # split_at_matches n tokens is (i + n)"

definition fast_split_by_subtensor :: "'h token_db \<Rightarrow> int list \<Rightarrow> ('h, int list) run" where
  "fast_split_by_subtensor db tokens =
     (let sep = db_sep_tokens db; n = length sep;
          first = (if n = 0 \<or> length tokens < n then [tokens] else [])
      in if length tokens < n then (first, Some RuntimeError)
         else (first @ split_at_matches n tokens (sep_matches sep tokens) 0, None))"

fun segment_items :: "'h token_db \<Rightarrow> bool \<Rightarrow> nat \<Rightarrow> nat \<Rightarrow> nat \<Rightarrow> int list list
    \<Rightarrow> (nat \<times> nat \<times> 'h entry_id) list" where
  "segment_items db make_key num_falses idx start_at [] = []"
| "segment_items db make_key num_falses idx start_at (c # cs) =
     (let shift = (if 0 < idx then length (db_sep_tokens db) else 0);
          start_idx = start_at + shift;
          end_idx = start_at + length c + shift;
          rest = segment_items db make_key num_falses (Suc idx) end_idx cs
      in if num_falses \<le> start_idx
         then (start_idx, end_idx, make_key_by_hash db make_key (hash_chunk db c None)) # rest
         else rest)"

definition segment_process_tokens :: "'h token_db \<Rightarrow> int list option \<Rightarrow> 'h list option \<Rightarrow> nat list option
    \<Rightarrow> bool list option \<Rightarrow> bool \<Rightarrow> ('h, nat \<times> nat \<times> 'h entry_id) run" where
  "segment_process_tokens db tokens hashes offsets msk make_key =
     (case tokens of
        Some ts \<Rightarrow>
          (let num_falses = mask_falses msk
           in if \<not> num_falses < length ts then ([], Some AssertionError)
              else case fast_split_by_subtensor db ts of
                (token_chunks, err) \<Rightarrow> (segment_items db make_key num_falses 0 0 token_chunks, err))
      | None \<Rightarrow> given_hashes db make_key hashes offsets)"

section \<open>Lemmas\<close>

lemma length_prefix_hashes [simp]: "length (prefix_hashes db cs p) = length cs"
  by (induction cs arbitrary: p) (simp_all add: Let_def)

lemma prefix_hashes_empty: "prefix_hashes db cs p = [] \<longleftrightarrow> cs = []"
  by (cases cs) (simp_all add: Let_def)

lemma take_prefix_hashes: "take k (prefix_hashes db cs p) = prefix_hashes db (take k cs) p"
  by (induction cs arbitrary: p k) (simp_all add: take_Cons' Let_def)

lemma length_chunk_items_le: "length (chunk_items db mk len f i hs) \<le> length hs"
  by (induction hs arbitrary: i) (simp_all add: Let_def le_SucI)

lemma chunk_items_eq:
  "chunk_items db mk len (f * db_chunk_size db) i hs =
     map (\<lambda>j. (j * db_chunk_size db, min (j * db_chunk_size db + db_chunk_size db) len, make_key_by_hash db mk (hs ! (j - i))))
       [max i f ..< i + length hs]"
  if "0 < db_chunk_size db"
proof (induction hs arbitrary: i)
  case Nil
  then show ?case by simp
next
  case (Cons h hs)
  have hs: "(h # hs) ! (j - i) = hs ! (j - Suc i)" if "Suc i \<le> j" for j
    using that by (simp add: Suc_diff_Suc [symmetric])
  show ?case
  proof (cases "i < f")
    case True
    then have "i * db_chunk_size db < f * db_chunk_size db" using \<open>0 < db_chunk_size db\<close> by simp
    moreover have "max i f = max (Suc i) f" using True by simp
    ultimately have "chunk_items db mk len (f * db_chunk_size db) i (h # hs) =
        map (\<lambda>j. (j * db_chunk_size db, min (j * db_chunk_size db + db_chunk_size db) len, make_key_by_hash db mk (hs ! (j - Suc i))))
          [max i f ..< i + length (h # hs)]"
      by (simp add: Let_def Cons.IH del: upt_Suc)
    also have "\<dots> = map (\<lambda>j. (j * db_chunk_size db, min (j * db_chunk_size db + db_chunk_size db) len,
        make_key_by_hash db mk ((h # hs) ! (j - i)))) [max i f ..< i + length (h # hs)]"
      using True by (intro map_cong refl) (subst hs, auto)
    finally show ?thesis .
  next
    case False
    then have "\<not> i * db_chunk_size db < f * db_chunk_size db" by simp
    moreover have "[max i f ..< i + length (h # hs)] = i # [max (Suc i) f ..< Suc i + length hs]"
      using False by (simp add: upt_conv_Cons max_absorb1 del: upt_Suc)
    moreover have "map (\<lambda>j. (j * db_chunk_size db, min (j * db_chunk_size db + db_chunk_size db) len, make_key_by_hash db mk (hs ! (j - Suc i))))
          [max (Suc i) f ..< Suc i + length hs] =
        map (\<lambda>j. (j * db_chunk_size db, min (j * db_chunk_size db + db_chunk_size db) len,
          make_key_by_hash db mk ((h # hs) ! (j - i)))) [max (Suc i) f ..< Suc i + length hs]"
      by (intro map_cong refl) (subst hs, auto)
    ultimately show ?thesis by (simp add: Let_def Cons.IH del: upt_Suc)
  qed
qed

lemma chunk_tokens_full:
  assumes "0 < db_chunk_size db" "m * db_chunk_size db \<le> length ts"
  shows "take m (chunk_tokens db ts) =
    map (\<lambda>j. py_slice_nat (j * db_chunk_size db) (j * db_chunk_size db + db_chunk_size db) ts) [0 ..< m]"
proof -
  let ?n = "db_chunk_size db"
  let ?stop = "if db_save_unfull_chunk db then length ts else length ts - length ts mod ?n"
  have "m \<le> length ts div ?n" using assms by (simp add: less_eq_div_iff_mult_less_eq)
  then have "m * ?n \<le> length ts div ?n * ?n" by (rule mult_le_mono1)
  then have "m * ?n \<le> ?stop" using assms(2) by (simp add: minus_mod_eq_div_mult)
  then have "m * ?n \<le> ?stop + ?n - 1" using assms(1) by linarith
  then have "m \<le> (?stop + ?n - 1) div ?n" using assms(1) by (simp add: less_eq_div_iff_mult_less_eq)
  then show ?thesis by (simp add: chunk_tokens_def Let_def take_map)
qed

lemma length_chunk_tokens:
  assumes "0 < db_chunk_size db" "m * db_chunk_size db \<le> length ts"
  shows "m \<le> length (chunk_tokens db ts)"
  using arg_cong [OF chunk_tokens_full [OF assms], where f = length] by simp

text \<open>Chunks are determined by the tokens they cover, and determine them.\<close>

lemma slices_determine:
  fixes ts us :: "'a list"
  assumes "\<And>j. j < m \<Longrightarrow> py_slice_nat (j * n) (j * n + n) ts = py_slice_nat (j * n) (j * n + n) us"
  shows "take (m * n) ts = take (m * n) us"
  using assms
proof (induction m)
  case (Suc m)
  have "take (Suc m * n) xs = take (m * n) xs @ py_slice_nat (m * n) (m * n + n) xs" for xs :: "'a list"
  proof -
    have "take (Suc m * n) xs = take (m * n) (take (Suc m * n) xs) @ drop (m * n) (take (Suc m * n) xs)"
      by (rule append_take_drop_id [symmetric])
    then show ?thesis by (simp add: py_slice_nat_def add.commute min_def)
  qed
  note split = this
  have "take (m * n) ts = take (m * n) us" by (rule Suc.IH) (simp add: Suc.prems)
  moreover have "py_slice_nat (m * n) (m * n + n) ts = py_slice_nat (m * n) (m * n + n) us"
    by (rule Suc.prems) simp
  ultimately show ?case unfolding split by simp
qed simp

lemma slices_agree:
  fixes ts us :: "'a list"
  assumes "take (m * n) ts = take (m * n) us" "j < m"
  shows "py_slice_nat (j * n) (j * n + n) ts = py_slice_nat (j * n) (j * n + n) us"
proof -
  have "j * n + n \<le> m * n" using assms(2) by (metis Suc_leI add.commute mult_Suc mult_le_mono1)
  then have "take (j * n + n) xs = take (j * n + n) (take (m * n) xs)" for xs :: "'a list" by (simp add: min_def)
  then show ?thesis using assms(1) unfolding py_slice_nat_def by metis
qed

lemma prefix_hashes_last_inj:
  assumes inj: "\<And>p c p' c'. db_hash_func db p c = db_hash_func db p' c' \<Longrightarrow> p = p' \<and> c = c'"
  shows "length cs = length ds \<Longrightarrow> cs \<noteq> [] \<Longrightarrow>
    last (prefix_hashes db cs p) = last (prefix_hashes db ds p) \<Longrightarrow> cs = ds"
proof (induction cs arbitrary: ds rule: rev_induct)
  case (snoc c cs)
  obtain d ds' where ds: "ds = ds' @ [d]" using snoc.prems(1) by (cases ds rule: rev_cases) auto
  have l: "prefix_hashes db (xs @ [x]) p = prefix_hashes db xs p @
      [db_hash_func db (if xs = [] then p else last (prefix_hashes db xs p)) x]" for xs x p
    by (induction xs arbitrary: p) (auto simp: hash_chunk_def Let_def prefix_hashes_empty)
  have len: "length cs = length ds'" using snoc.prems(1) ds by simp
  have "db_hash_func db (if cs = [] then p else last (prefix_hashes db cs p)) c =
      db_hash_func db (if ds' = [] then p else last (prefix_hashes db ds' p)) d"
    using snoc.prems(3) by (simp only: ds l last_snoc)
  then have "(if cs = [] then p else last (prefix_hashes db cs p)) =
      (if ds' = [] then p else last (prefix_hashes db ds' p)) \<and> c = d" by (rule inj)
  moreover from this have "cs = ds'"
    using snoc.IH [OF len] len by (cases "cs = []"; cases "ds' = []") auto
  ultimately show ?case by (simp add: ds)
qed simp


lemma take_chunk_items:
  "take m (chunk_items db mk len 0 i hs) = chunk_items db mk len 0 i (take m hs)"
  by (induction hs arbitrary: i m) (simp_all add: Let_def take_Cons')

lemma chunk_items_ids:
  "map (\<lambda>(s, e, k). k) (chunk_items db mk len 0 i hs) = map (make_key_by_hash db mk) hs"
  by (induction hs arbitrary: i) (simp_all add: Let_def)

lemma chunk_items_full_len:
  "(i + length hs) * db_chunk_size db \<le> len \<Longrightarrow> (i + length hs) * db_chunk_size db \<le> len' \<Longrightarrow>
   chunk_items db mk len 0 i hs = chunk_items db mk len' 0 i hs"
proof (induction hs arbitrary: i)
  case (Cons h hs)
  have "i * db_chunk_size db + db_chunk_size db = Suc i * db_chunk_size db" by simp
  also have "\<dots> \<le> (i + length (h # hs)) * db_chunk_size db" by (rule mult_le_mono1) simp
  finally have le: "i * db_chunk_size db + db_chunk_size db \<le> (i + length (h # hs)) * db_chunk_size db" .
  have "chunk_items db mk len 0 (Suc i) hs = chunk_items db mk len' 0 (Suc i) hs"
    by (rule Cons.IH) (use Cons.prems in simp_all)
  then show ?case using le Cons.prems by (simp add: Let_def min_absorb1 del: mult_Suc)
qed simp

lemma make_key_by_hash_inj [simp]: "make_key_by_hash db mk h = make_key_by_hash db mk h' \<longleftrightarrow> h = h'"
  by (simp add: make_key_by_hash_def)

lemma chunked_process_tokens_tokens:
  "0 < db_chunk_size db \<Longrightarrow> chunked_process_tokens db (Some ts) h os None mk =
    (chunk_items db mk (length ts) 0 0 (prefix_hashes db (chunk_tokens db ts) (db_none_hash db)), None)"
  by (simp add: chunked_process_tokens_def mask_falses_def)

lemma take_process_tokens:
  assumes "0 < db_chunk_size db" "m * db_chunk_size db \<le> length ts"
  shows "take m (fst (chunked_process_tokens db (Some ts) h os None mk)) =
    chunk_items db mk (m * db_chunk_size db) 0 0
      (prefix_hashes db (map (\<lambda>j. py_slice_nat (j * db_chunk_size db) (j * db_chunk_size db + db_chunk_size db) ts) [0 ..< m])
        (db_none_hash db))"
  using assms length_chunk_tokens [OF assms]
  by (simp add: chunked_process_tokens_tokens take_chunk_items take_prefix_hashes chunk_tokens_full
      del: upt_Suc) (rule chunk_items_full_len; simp)


lemma segment_items_spans:
  assumes "(s, e, k) \<in> set (segment_items db mk falses idx start_at (split_at_matches (length (db_sep_tokens db)) ts is st))"
    and "st = start_at + (if 0 < idx then length (db_sep_tokens db) else 0)" "st \<le> length ts"
    and "\<forall>i \<in> set is. i + length (db_sep_tokens db) \<le> length ts"
    and "sorted_wrt (\<lambda>i j. i + length (db_sep_tokens db) \<le> j) is" "is \<noteq> [] \<Longrightarrow> st \<le> hd is"
  shows "s \<le> e \<and> e \<le> length ts \<and> falses \<le> s \<and> k = make_key_by_hash db mk (hash_chunk db (py_slice_nat s e ts) None)"
  using assms
proof (induction "is" arbitrary: idx start_at st)
  case Nil
  then show ?case by (auto simp: Let_def py_slice_nat_def split: if_splits)
next
  case (Cons i "is")
  let ?n = "length (db_sep_tokens db)"
  have i: "st \<le> i" "i + ?n \<le> length ts" using Cons.prems by auto
  have len: "length (py_slice_nat st i ts) = i - st" using i by (simp add: py_slice_nat_def)
  have items: "segment_items db mk falses idx start_at (split_at_matches ?n ts (i # is) st) =
      (if falses \<le> st then [(st, i, make_key_by_hash db mk (hash_chunk db (py_slice_nat st i ts) None))] else [])
      @ segment_items db mk falses (Suc idx) i (split_at_matches ?n ts is (i + ?n))"
    using i Cons.prems(2) len by (simp add: Let_def)
  show ?case
  proof (cases "(s, e, k) \<in> set (segment_items db mk falses (Suc idx) i (split_at_matches ?n ts is (i + ?n)))")
    case True
    then show ?thesis
      by (rule Cons.IH) (use Cons.prems i in \<open>auto simp: neq_Nil_conv\<close>)
  next
    case False
    then have "falses \<le> st" "s = st" "e = i" "k = make_key_by_hash db mk (hash_chunk db (py_slice_nat st i ts) None)"
      using Cons.prems(1) unfolding items by (auto split: if_splits)
    then show ?thesis using i by simp
  qed
qed

lemma sep_matches_bound:
  "length sep \<le> length ts \<Longrightarrow> i \<in> set (sep_matches sep ts) \<Longrightarrow> i + length sep \<le> length ts"
  by (auto simp add: sep_matches_def simp del: upt_Suc)

definition sample_token_db :: "int list list token_db" where
  "sample_token_db = \<lparr>db_chunk_size = 2, db_save_unfull_chunk = False, db_hash_func = (\<lambda>p c. c # p), db_none_hash = [],
    db_world_size = 8, db_save_only_first_rank = False, db_sep_tokens = [9, 9]\<rparr>"

lemma concat_slices_aux:
  "k \<le> l \<Longrightarrow> concat (map (\<lambda>j. py_slice_nat (j * n) (min (j * n + n) (length ts)) ts) [k ..< l]) = drop (k * n) (take (l * n) ts)"
proof (induction l)
  case (Suc l)
  show ?case
  proof (cases "k = Suc l")
    case False
    then have le: "k * n \<le> l * n" using Suc.prems by simp
    have "py_slice_nat (l * n) (min (l * n + n) (length ts)) ts = take n (drop (l * n) ts)"
      by (auto simp: py_slice_nat_def min_def take_drop add.commute)
    moreover have "drop (k * n) (take (Suc l * n) ts) = drop (k * n) (take (l * n) ts) @ take n (drop (l * n) ts)"
      using le by (cases "length ts \<le> l * n") (simp_all add: add.commute [of n] take_add)
    ultimately show ?thesis using Suc False by simp
  qed simp
qed simp

lemma chunk_count:
  assumes "0 < db_chunk_size db"
  shows "take (length (chunk_tokens db ts) * db_chunk_size db) ts =
      take (if db_save_unfull_chunk db then length ts else length ts - length ts mod db_chunk_size db) ts"
proof -
  let ?n = "db_chunk_size db"
  have up: "x \<le> (x + ?n - 1) div ?n * ?n" for x
  proof -
    have "(x + ?n - 1) div ?n * ?n + (x + ?n - 1) mod ?n = x + ?n - 1" by simp
    moreover have "(x + ?n - 1) mod ?n < ?n" using assms by simp
    ultimately show ?thesis by linarith
  qed
  have ex: "(q * ?n + ?n - 1) div ?n = q" for q
  proof -
    have "q * ?n + ?n - 1 = ?n - 1 + q * ?n" using assms by linarith
    then have "(q * ?n + ?n - 1) div ?n = (?n - 1 + q * ?n) div ?n" by (simp only:)
    also have "\<dots> = q + (?n - 1) div ?n" using assms by (intro div_mult_self1) simp
    also have "(?n - 1) div ?n = 0" using assms by (intro div_less) simp
    finally show ?thesis by simp
  qed
  show ?thesis
    using up [of "length ts"] ex [of "length ts div ?n"]
    by (simp add: chunk_tokens_def Let_def minus_mod_eq_div_mult)
qed

lemma concat_slices:
  assumes "0 < db_chunk_size db"
  shows "concat (map (\<lambda>j. py_slice_nat (j * db_chunk_size db) (min (j * db_chunk_size db + db_chunk_size db) (length ts)) ts)
      [k ..< length (chunk_tokens db ts)]) =
    drop (k * db_chunk_size db) (take (length (chunk_tokens db ts) * db_chunk_size db) ts)"
proof (cases "k \<le> length (chunk_tokens db ts)")
  case False
  then have "length (chunk_tokens db ts) * db_chunk_size db \<le> k * db_chunk_size db" by simp
  then show ?thesis using False by (simp add: min.coboundedI2)
qed (rule concat_slices_aux)

lemma prefix_items_iff:
  assumes "0 < db_chunk_size db" "m * db_chunk_size db \<le> length ts" "m * db_chunk_size db \<le> length us"
    and "\<forall>p c p' c'. db_hash_func db p c = db_hash_func db p' c' \<longrightarrow> p = p' \<and> c = c'"
  shows "take m (fst (chunked_process_tokens db (Some ts) None None None mk)) =
           take m (fst (chunked_process_tokens db (Some us) None None None mk))
         \<longleftrightarrow> take (m * db_chunk_size db) ts = take (m * db_chunk_size db) us" (is "?items ts = ?items us \<longleftrightarrow> _")
proof
  let ?n = "db_chunk_size db"
  let ?chunks = "\<lambda>xs. map (\<lambda>j. py_slice_nat (j * ?n) (j * ?n + ?n) xs) [0 ..< m]"
  assume "take (m * ?n) ts = take (m * ?n) us"
  then have "?chunks ts = ?chunks us" using slices_agree by (intro map_cong refl) auto
  then show "?items ts = ?items us" using assms by (simp only: take_process_tokens)
next
  let ?n = "db_chunk_size db"
  let ?chunks = "\<lambda>xs. map (\<lambda>j. py_slice_nat (j * ?n) (j * ?n + ?n) xs) [0 ..< m]"
  assume "?items ts = ?items us"
  then have "map (\<lambda>(s, e, k). k) (?items ts) = map (\<lambda>(s, e, k). k) (?items us)" by simp
  then have hashes: "prefix_hashes db (?chunks ts) (db_none_hash db) = prefix_hashes db (?chunks us) (db_none_hash db)"
    using assms by (simp add: take_process_tokens chunk_items_ids inj_map_eq_map inj_on_def del: upt_Suc)
  have "?chunks ts = ?chunks us"
  proof (cases "m = 0")
    case False
    then show ?thesis using assms(4) hashes by (intro prefix_hashes_last_inj [of db _ _ "db_none_hash db"]) auto
  qed simp
  then show "take (m * ?n) ts = take (m * ?n) us" by (intro slices_determine) auto
qed

lemma last_Suc: "length xs = Suc i \<Longrightarrow> last xs = xs ! i"
  by (cases xs rule: rev_cases) (auto simp: nth_append)

lemma key_alone_iff:
  assumes "0 < db_chunk_size db" "Suc i * db_chunk_size db \<le> length ts" "Suc i * db_chunk_size db \<le> length us"
    and "\<forall>p c p' c'. db_hash_func db p c = db_hash_func db p' c' \<longrightarrow> p = p' \<and> c = c'"
  shows "snd (snd (fst (chunked_process_tokens db (Some ts) None None None mk) ! i)) =
           snd (snd (fst (chunked_process_tokens db (Some us) None None None mk) ! i))
         \<longleftrightarrow> take (Suc i * db_chunk_size db) ts = take (Suc i * db_chunk_size db) us" (is "?key ts = ?key us \<longleftrightarrow> _")
proof -
  let ?n = "db_chunk_size db"
  let ?chunks = "\<lambda>xs. map (\<lambda>j. py_slice_nat (j * ?n) (j * ?n + ?n) xs) [0 ..< Suc i]"
  let ?hs = "\<lambda>xs. prefix_hashes db (?chunks xs) (db_none_hash db)"
  have key: "?key xs = make_key_by_hash db mk (last (?hs xs))" if "Suc i * ?n \<le> length xs" for xs
  proof -
    let ?items = "fst (chunked_process_tokens db (Some xs) None None None mk)"
    have len: "length (?hs xs) = Suc i" by simp
    have ids: "map (\<lambda>(s, e, k). k) (take (Suc i) ?items) = map (make_key_by_hash db mk) (?hs xs)"
      unfolding take_process_tokens [OF assms(1) that] chunk_items_ids ..
    have "length (take (Suc i) ?items) = Suc i"
      using arg_cong [OF ids, of length] len by (simp only: length_map)
    then have "?key xs = map (\<lambda>(s, e, k). k) (take (Suc i) ?items) ! i" by (simp add: case_prod_beta)
    also have "\<dots> = map (make_key_by_hash db mk) (?hs xs) ! i" by (simp only: ids)
    also have "\<dots> = make_key_by_hash db mk (?hs xs ! i)" by (rule nth_map) simp
    also have "\<dots> = make_key_by_hash db mk (last (?hs xs))" by (simp only: last_Suc [OF len])
    finally show ?thesis .
  qed
  have "?key ts = ?key us \<longleftrightarrow> last (?hs ts) = last (?hs us)"
    using key assms(2,3) by simp
  also have "\<dots> \<longleftrightarrow> ?chunks ts = ?chunks us"
  proof
    assume "last (?hs ts) = last (?hs us)"
    moreover have "p = p' \<and> c = c'" if "db_hash_func db p c = db_hash_func db p' c'" for p c p' c'
      using assms(4) that by blast
    ultimately show "?chunks ts = ?chunks us"
      by (intro prefix_hashes_last_inj [of db _ _ "db_none_hash db"]) simp_all
  qed (simp only:)
  also have "\<dots> \<longleftrightarrow> take (Suc i * ?n) ts = take (Suc i * ?n) us"
  proof
    assume e: "take (Suc i * ?n) ts = take (Suc i * ?n) us"
    show "?chunks ts = ?chunks us" by (intro map_cong refl slices_agree [OF e]) (simp del: mult_Suc upt_Suc)
  qed (intro slices_determine; simp del: upt_Suc mult_Suc)
  finally show ?thesis .
qed

section \<open>Properties\<close>

text \<open>C40: Prefix caching is sound: with a hash function that never maps two pairs of a prefix hash and
  a chunk to the same hash, key number i alone, of two inputs that both have m > i full chunks,
  is the same exactly when their whole prefixes of (i + 1) * chunk_size tokens are equal, not
  only the chunks number i; so a key that is found in the cache stands for everything before
  it. And the first m keys, with their spans, are the same exactly when the first
  m * chunk_size tokens are, whatever follows.\<close>

theorem prefix_keys_iff_same_prefix:
  assumes "0 < db_chunk_size db" "m * db_chunk_size db \<le> length ts" "m * db_chunk_size db \<le> length us"
    and "\<forall>p c p' c'. db_hash_func db p c = db_hash_func db p' c' \<longrightarrow> p = p' \<and> c = c'"
  shows "(\<forall>i < m. snd (snd (fst (chunked_process_tokens db (Some ts) None None None mk) ! i)) =
             snd (snd (fst (chunked_process_tokens db (Some us) None None None mk) ! i))
           \<longleftrightarrow> take (Suc i * db_chunk_size db) ts = take (Suc i * db_chunk_size db) us) \<and>
         (take m (fst (chunked_process_tokens db (Some ts) None None None mk)) =
             take m (fst (chunked_process_tokens db (Some us) None None None mk))
           \<longleftrightarrow> take (m * db_chunk_size db) ts = take (m * db_chunk_size db) us)"
proof (intro conjI allI impI)
  fix i assume "i < m"
  then have "Suc i * db_chunk_size db \<le> m * db_chunk_size db" by (intro mult_le_mono1) simp
  then show "snd (snd (fst (chunked_process_tokens db (Some ts) None None None mk) ! i)) =
             snd (snd (fst (chunked_process_tokens db (Some us) None None None mk) ! i))
           \<longleftrightarrow> take (Suc i * db_chunk_size db) ts = take (Suc i * db_chunk_size db) us"
    using assms by (intro key_alone_iff) auto
qed (rule prefix_items_iff [OF assms])

theorem prefix_keys_iff_same_prefix_witness:
  "snd (snd (fst (chunked_process_tokens sample_token_db (Some [1, 2, 3, 4, 5]) None None None True) ! 1)) \<noteq>
     snd (snd (fst (chunked_process_tokens sample_token_db (Some [9, 2, 3, 4]) None None None True) ! 1)) \<and>
   take 2 (fst (chunked_process_tokens sample_token_db (Some [1, 2, 3, 4, 5]) None None None True)) =
   take 2 (fst (chunked_process_tokens sample_token_db (Some [1, 2, 3, 4, 6]) None None None True))"
  using prefix_keys_iff_same_prefix [of sample_token_db 2 "[1, 2, 3, 4, 5]" "[1, 2, 3, 4, 6]" True]
    prefix_keys_iff_same_prefix [of sample_token_db 2 "[1, 2, 3, 4, 5]" "[9, 2, 3, 4]" True]
  by (simp add: sample_token_db_def)

text \<open>A mask keeps the keys and drops the masked chunks: it must mask a whole number k of chunks (otherwise
  ValueError and no key), then the run yields what the unmasked run yields from chunk k on, and the spans of the
  keys tile the tokens between the masked prefix and the last saved token (all of them when unfull chunks are
  saved, the last full chunk otherwise).\<close>

theorem chunked_mask_spec:
  assumes "0 < db_chunk_size db"
  shows "case chunked_process_tokens db (Some ts) None None (Some msk) mk of (ys, err) \<Rightarrow>
    if mask_falses (Some msk) mod db_chunk_size db \<noteq> 0 then ys = [] \<and> err = Some ValueError
    else err = None
       \<and> ys = drop (mask_falses (Some msk) div db_chunk_size db)
                 (fst (chunked_process_tokens db (Some ts) None None None mk))
       \<and> concat (map (\<lambda>(s, e, k). py_slice_nat s e ts) ys) =
           drop (mask_falses (Some msk))
             (take (if db_save_unfull_chunk db then length ts else length ts - length ts mod db_chunk_size db) ts)"
proof (cases "mask_falses (Some msk) mod db_chunk_size db = 0")
  case False
  then show ?thesis using assms by (simp add: chunked_process_tokens_def)
next
  case True
  let ?n = "db_chunk_size db" and ?hs = "prefix_hashes db (chunk_tokens db ts) (db_none_hash db)"
  let ?item = "\<lambda>j. (j * ?n, min (j * ?n + ?n) (length ts), make_key_by_hash db mk (?hs ! j))"
  define k where "k = mask_falses (Some msk) div ?n"
  then have falses: "mask_falses (Some msk) = k * ?n" using True by (simp add: mult.commute mod_0_imp_dvd)
  have items: "chunk_items db mk (length ts) (f * ?n) 0 ?hs = map ?item [f ..< length ?hs]" for f
    using chunk_items_eq [OF assms, of mk "length ts" f 0 ?hs] by simp
  have run: "chunked_process_tokens db (Some ts) None None (Some msk) mk = (map ?item [k ..< length ?hs], None)"
    using assms True falses by (simp add: chunked_process_tokens_def items)
  have plain: "fst (chunked_process_tokens db (Some ts) None None None mk) = map ?item [0 ..< length ?hs]"
    using assms items [of 0] by (simp add: chunked_process_tokens_tokens)
  have ys: "map ?item [k ..< length ?hs] = drop (mask_falses (Some msk) div ?n)
      (fst (chunked_process_tokens db (Some ts) None None None mk))"
    unfolding plain k_def [symmetric] by (simp add: drop_map)
  have tile: "concat (map (\<lambda>(s, e, k). py_slice_nat s e ts) (map ?item [k ..< length ?hs])) =
      drop (mask_falses (Some msk))
        (take (if db_save_unfull_chunk db then length ts else length ts - length ts mod ?n) ts)"
    unfolding falses chunk_count [OF assms, symmetric] concat_slices [OF assms, symmetric] by (simp add: comp_def)
  show ?thesis unfolding run prod.case True by (simp only: simp_thms if_False) (intro conjI ys tile)
qed

theorem chunked_mask_spec_witness:
  "case chunked_process_tokens sample_token_db (Some [1, 2, 3, 4, 5]) None None (Some [False, False, True, True, True]) True of
    (ys, err) \<Rightarrow>
    err = None
       \<and> ys = drop 1 (fst (chunked_process_tokens sample_token_db (Some [1, 2, 3, 4, 5]) None None None True))
       \<and> concat (map (\<lambda>(s, e, k). py_slice_nat s e [1, 2, 3, 4, 5]) ys) = [3, 4 :: int]"
  using chunked_mask_spec [where db = sample_token_db and ts = "[1, 2, 3, 4, 5]"
      and msk = "[False, False, True, True, True]" and mk = True]
  by (simp add: sample_token_db_def mask_falses_def)

text \<open>The segments of an input lie between its separators: when no two separator matches overlap, every yielded
  (start, end, key) has masked_prefix <= start <= end <= len, and its key is the hash of exactly the tokens
  start..end of the input, independent of what stands before them.\<close>

theorem segment_spans_spec:
  assumes "length (db_sep_tokens db) \<le> length ts" "db_sep_tokens db \<noteq> []" "mask_falses msk < length ts"
    and "sorted_wrt (\<lambda>i j. i + length (db_sep_tokens db) \<le> j) (sep_matches (db_sep_tokens db) ts)"
  shows "case segment_process_tokens db (Some ts) None None msk mk of (ys, err) \<Rightarrow> err = None \<and>
    (\<forall>(s, e, k) \<in> set ys. mask_falses msk \<le> s \<and> s \<le> e \<and> e \<le> length ts
       \<and> k = make_key_by_hash db mk (db_hash_func db (db_none_hash db) (py_slice_nat s e ts)))"
proof -
  let ?sep = "db_sep_tokens db"
  have run: "segment_process_tokens db (Some ts) None None msk mk =
      (segment_items db mk (mask_falses msk) 0 0 (split_at_matches (length ?sep) ts (sep_matches ?sep ts) 0), None)"
    using assms by (simp add: segment_process_tokens_def fast_split_by_subtensor_def Let_def)
  have "s \<le> e \<and> e \<le> length ts \<and> mask_falses msk \<le> s \<and> k = make_key_by_hash db mk (hash_chunk db (py_slice_nat s e ts) None)"
    if "(s, e, k) \<in> set (segment_items db mk (mask_falses msk) 0 0 (split_at_matches (length ?sep) ts (sep_matches ?sep ts) 0))"
    for s e k
    by (rule segment_items_spans [OF that]) (use assms sep_matches_bound in auto)
  then show ?thesis unfolding run by (auto simp: hash_chunk_def)
qed

theorem segment_spans_spec_witness:
  "case segment_process_tokens sample_token_db (Some [1, 9, 9, 2, 3]) None None None True of (ys, err) \<Rightarrow> err = None \<and>
    (\<forall>(s, e, k) \<in> set ys. mask_falses None \<le> s \<and> s \<le> e \<and> e \<le> length [1, 9, 9, 2, 3 :: int]
       \<and> k = make_key_by_hash sample_token_db True
           (db_hash_func sample_token_db (db_none_hash sample_token_db) (py_slice_nat s e [1, 9, 9, 2, 3])))"
proof (rule segment_spans_spec)
  show "sorted_wrt (\<lambda>i j. i + length (db_sep_tokens sample_token_db) \<le> j)
      (sep_matches (db_sep_tokens sample_token_db) [1, 9, 9, 2, 3])" by code_simp
qed (simp_all add: sample_token_db_def mask_falses_def)

section \<open>Where the segment database departs from its description\<close>

text \<open>
  An input shorter than the separator is yielded whole, and then, since the generator has
  no return there, unfold raises: the caller that consumes the run gets RuntimeError.
\<close>

lemma short_input_raises:
  "length ts < length (db_sep_tokens db) \<Longrightarrow> mask_falses msk < length ts \<Longrightarrow>
   snd (segment_process_tokens db (Some ts) None None msk mk) = Some RuntimeError"
  by (simp add: segment_process_tokens_def fast_split_by_subtensor_def Let_def)

text \<open>
  Separators that overlap, as in 9 9 9 for the separator 9 9, make a match start before the end of
  the last one: the slice between them is empty but the position still advances by the
  separator's length, so the later spans lie beyond the input.
\<close>

lemma overlapping_separators_misalign:
  "map (\<lambda>(s, e, k). (s, e)) (fst (segment_process_tokens sample_token_db (Some [1, 9, 9, 9, 2]) None None None True)) =
     [(0, 1), (3, 3), (5, 6)]"
  by code_simp

end
