(* ===== verification/Eviction_Controller.thy ===== *)
theory Eviction_Controller
  imports L1_Properties
begin

text \<open>
  EvictionController of lmcache/v1/distributed/storage_controllers/eviction_controller.py:
  the body of its loop, which runs once per second. The policy it asks is the object that
  also listens to the L1 manager, so it is found among the manager's listeners, at the
  position where the constructor registered it. The usage is compared as an exact quotient.
\<close>

record eviction_config =
  eviction_policy_name :: string
  trigger_watermark :: real
  eviction_ratio :: real

text \<open>The constructor: the policy is created and registered; the position is remembered.\<close>

definition eviction_controller_init :: "eviction_config \<Rightarrow> 'k l1 \<Rightarrow> py_error + nat \<times> 'k l1" where
  "eviction_controller_init cfg st =
     (case create_eviction_policy (eviction_policy_name cfg) of
        Inl e \<Rightarrow> Inl e
      | Inr p \<Rightarrow> Inr (length (listeners st), register_listener (PolicyListener p) st))"

definition controller_policy :: "nat \<Rightarrow> 'k l1 \<Rightarrow> 'k policy" where
  "controller_policy i st = (case listeners st ! i of PolicyListener p \<Rightarrow> p | StoreListener s \<Rightarrow> NoOp)"

definition execute_eviction_action :: "env \<Rightarrow> int \<Rightarrow> 'k eviction_action \<Rightarrow> 'k l1 \<Rightarrow> (unit, 'k l1) outcome" where
  "execute_eviction_action E now a st =
     (if act_destination a = DISCARD
      then map_prod (map_sum id (\<lambda>_. ())) id (l1_delete E now (act_keys a) st)
      else map_prod (map_sum id (\<lambda>_. ())) id (l1_delete E now (act_keys a) st))"

fun execute_actions :: "env \<Rightarrow> int \<Rightarrow> 'k eviction_action list \<Rightarrow> 'k l1 \<Rightarrow> (unit, 'k l1) outcome" where
  "execute_actions E now [] st = (Inr (), st)"
| "execute_actions E now (a # as) st =
     (case execute_eviction_action E now a st of
        (Inl e, st') \<Rightarrow> (Inl e, st')
      | (Inr _, st') \<Rightarrow> execute_actions E now as st')"

definition memory_usage_ratio :: "'k l1 \<Rightarrow> real" where
  "memory_usage_ratio st =
     (case l1_get_memory_usage st of (used_bytes, total_bytes) \<Rightarrow> if total_bytes = 0 then 0 else of_int used_bytes / of_int total_bytes)"

definition eviction_round :: "env \<Rightarrow> eviction_config \<Rightarrow> nat \<Rightarrow> int \<Rightarrow> 'k l1 \<Rightarrow> (unit, 'k l1) outcome" where
  "eviction_round E cfg i now st =
     (if memory_usage_ratio st < trigger_watermark cfg then (Inr (), st)
      else execute_actions E now (get_eviction_actions E (eviction_ratio cfg) (controller_policy i st)) st)"

text \<open>The loop, as the rounds at the given times; it ends if a round raises.\<close>

fun eviction_loop :: "env \<Rightarrow> eviction_config \<Rightarrow> nat \<Rightarrow> int list \<Rightarrow> 'k l1 \<Rightarrow> (unit, 'k l1) outcome" where
  "eviction_loop E cfg i [] st = (Inr (), st)"
| "eviction_loop E cfg i (now # ts) st =
     (case eviction_round E cfg i now st of
        (Inl e, st') \<Rightarrow> (Inl e, st')
      | (Inr _, st') \<Rightarrow> eviction_loop E cfg i ts st')"

section \<open>Lemmas\<close>

text \<open>What a delete of distinct keys leaves, the listeners included.\<close>

lemma l1_delete_effect:
  assumes "sorted_list_ok E" "l1_inv st" "distinct keys"
  shows "\<exists>ret st'. l1_delete E now keys st = (Inr ret, st') \<and> l1_inv st' \<and>
    objects st' = fold (entry_upd (dl_entry now)) keys (objects st) \<and>
    listeners st' = map (on_l1_keys_deleted (filter (\<lambda>k. dl_good now (map_of (objects st) k)) keys)) (listeners st)"
proof -
  obtain ret st' where st': "l1_delete E now keys st = (Inr ret, st')" "l1_inv st'"
    using l1_delete_inv [OF assms(1,2)] by blast
  moreover have "objects st' = fold (entry_upd (dl_entry now)) keys (objects st)"
    using objects_after(5) [of E now keys st] st'(1) by simp
  moreover have "listeners st' = map (on_l1_keys_deleted (filter (\<lambda>k. dl_good now (map_of (objects st) k)) keys)) (listeners st)"
    using st'(1) unfolding l1_delete_eq key_loop_distinct [OF assms(3)] prod.case
    by (auto simp: publish_def notify_def split: prod.splits sum.splits)
  ultimately show ?thesis by blast
qed

lemma execute_eviction_action_eq:
  "execute_eviction_action E now a st = map_prod (map_sum id (\<lambda>_. ())) id (l1_delete E now (act_keys a) st)"
  by (simp add: execute_eviction_action_def)

text \<open>The keys a round proposes, and those of them it can delete.\<close>

definition candidates :: "env \<Rightarrow> real \<Rightarrow> 'k lru \<Rightarrow> 'k list" where
  "candidates E r p = (if r \<le> 0 then [] else take (max 1 (nat (float_trunc_mul E (length (lru_order p)) (min 1 r)))) (lru_order p))"

lemma execute_lru_actions:
  assumes "float_ok E"
  shows "execute_actions E now (get_eviction_actions E r (LRU p)) st =
    (if lru_order p = [] \<or> r \<le> 0 then (Inr (), st)
     else map_prod (map_sum id (\<lambda>_. ())) id (l1_delete E now (candidates E r p) st))"
  by (auto simp: lru_evicts_oldest_first [OF assms] execute_eviction_action_eq candidates_def
      split: prod.splits sum.splits)

lemma eviction_round_effect:
  assumes E: "sorted_list_ok E" "float_ok E" and inv: "l1_inv st"
    and p: "i < length (listeners st)" "listeners st ! i = PolicyListener (LRU p)"
    and w: "trigger_watermark cfg \<le> memory_usage_ratio st" and r: "0 < eviction_ratio cfg" and ne: "lru_order p \<noteq> []"
  shows "\<exists>st' p'. eviction_round E cfg i now st = (Inr (), st') \<and> l1_inv st' \<and>
    length (listeners st') = length (listeners st) \<and> listeners st' ! i = PolicyListener (LRU p') \<and>
    (\<forall>k. get_object_state k st' = (case get_object_state k st of None \<Rightarrow> None
       | Some e \<Rightarrow> if k \<in> set (candidates E (eviction_ratio cfg) p) \<and> \<not> entry_locked now e then None else Some e)) \<and>
    lru_order p' = filter (\<lambda>k. \<not> (k \<in> set (candidates E (eviction_ratio cfg) p) \<and>
       (\<exists>e. get_object_state k st = Some e \<and> \<not> entry_locked now e))) (lru_order p)"
proof -
  let ?c = "candidates E (eviction_ratio cfg) p"
  let ?ok = "filter (\<lambda>k. dl_good now (map_of (objects st) k)) ?c"
  have d: "distinct (lru_order p)"
    using listeners_inv [OF inv, of "PolicyListener (LRU p)"] p by (auto simp: policy.confined_def in_set_conv_nth)
  then have dc: "distinct ?c" by (simp add: candidates_def)
  obtain ret st' where st': "l1_delete E now ?c st = (Inr ret, st')" "l1_inv st'"
    "objects st' = fold (entry_upd (dl_entry now)) ?c (objects st)" "listeners st' = map (on_l1_keys_deleted ?ok) (listeners st)"
    using l1_delete_effect [OF E(1) inv dc] by blast
  have "controller_policy i st = LRU p" using p by (simp add: controller_policy_def)
  then have round: "eviction_round E cfg i now st = (Inr (), st')"
    using w r ne st'(1) unfolding eviction_round_def \<open>controller_policy i st = LRU p\<close> execute_lru_actions [OF E(2)]
    by simp
  have l: "listeners st' ! i = PolicyListener (LRU (lru_on_keys_removed ?ok p))" using p st'(4) by simp
  have good: "dl_good now (map_of (objects st) k) \<longleftrightarrow> (\<exists>e. get_object_state k st = Some e \<and> \<not> entry_locked now e)" for k
    by (auto simp: dl_good_def get_object_state_def split: option.splits)
  have "lru_order (lru_on_keys_removed ?ok p) = filter (\<lambda>k. \<not> (k \<in> set ?c \<and>
       (\<exists>e. get_object_state k st = Some e \<and> \<not> entry_locked now e))) (lru_order p)"
    unfolding lru_on_keys_removed_def by (simp add: lru_removed_order [OF d] good cong: filter_cong)
  moreover have "get_object_state k st' = (case get_object_state k st of None \<Rightarrow> None
       | Some e \<Rightarrow> if k \<in> set ?c \<and> \<not> entry_locked now e then None else Some e)" for k
    by (auto simp: get_object_state_def st'(3) map_of_fold_entry_upd [OF dc] dl_entry_def split: option.splits)
  ultimately show ?thesis using round l st'(2,4) by (intro exI [of _ st'] exI conjI) auto
qed


lemma eviction_round_idle:
  assumes "float_ok E" "memory_usage_ratio st < trigger_watermark cfg \<or> controller_policy i st = LRU p \<and> lru_order p = []"
  shows "eviction_round E cfg i now st = (Inr (), st)"
proof (cases "memory_usage_ratio st < trigger_watermark cfg")
  case False
  then have "controller_policy i st = LRU p" "lru_order p = []" using assms(2) by auto
  then show ?thesis unfolding eviction_round_def \<open>controller_policy i st = LRU p\<close> execute_lru_actions [OF assms(1)] by simp
qed (simp add: eviction_round_def)

lemma eviction_loop_idle:
  assumes "float_ok E" "memory_usage_ratio st < trigger_watermark cfg \<or> controller_policy i st = LRU p \<and> lru_order p = []"
  shows "eviction_loop E cfg i ts st = (Inr (), st)"
  by (induction ts) (simp_all add: eviction_round_idle [OF assms])

lemma candidates_nonempty: "0 < r \<Longrightarrow> lru_order p \<noteq> [] \<Longrightarrow> hd (lru_order p) \<in> set (candidates E r p)"
  by (cases "lru_order p") (simp_all add: candidates_def take_Cons')

text \<open>Nothing tracked is locked from t0 on.\<close>

definition evictable :: "int \<Rightarrow> 'k l1 \<Rightarrow> 'k lru \<Rightarrow> bool" where
  "evictable t0 st p \<longleftrightarrow> (\<forall>k \<in> set (lru_order p). \<exists>e. get_object_state k st = Some e \<and> \<not> entry_locked t0 e)"

lemma unlocked_later: "\<not> entry_locked t0 e \<Longrightarrow> t0 \<le> t \<Longrightarrow> \<not> entry_locked t e"
  by (auto simp: entry_locked_def is_locked_def)

lemma eviction_loop_drains:
  assumes E: "sorted_list_ok E" "float_ok E" and r: "0 < eviction_ratio cfg"
  shows "l1_inv st \<Longrightarrow> i < length (listeners st) \<Longrightarrow> listeners st ! i = PolicyListener (LRU p) \<Longrightarrow> evictable t0 st p \<Longrightarrow>
    \<forall>t \<in> set ts. t0 \<le> t \<Longrightarrow> length (lru_order p) \<le> length ts \<Longrightarrow>
    \<exists>st' p'. eviction_loop E cfg i ts st = (Inr (), st') \<and> l1_inv st' \<and> listeners st' ! i = PolicyListener (LRU p') \<and>
      (memory_usage_ratio st' < trigger_watermark cfg \<or> lru_order p' = [])"
proof (induction ts arbitrary: st p)
  case Nil
  then show ?case by (intro exI [of _ st] exI [of _ p]) simp
next
  case (Cons t ts)
  have cp: "controller_policy i st = LRU p" using Cons.prems(3) by (simp add: controller_policy_def)
  show ?case
  proof (cases "memory_usage_ratio st < trigger_watermark cfg \<or> lru_order p = []")
    case True
    then have "eviction_loop E cfg i (t # ts) st = (Inr (), st)" using eviction_loop_idle [OF E(2)] cp by blast
    then show ?thesis using Cons.prems True by (intro exI [of _ st] exI [of _ p]) simp
  next
    case False
    then have w: "trigger_watermark cfg \<le> memory_usage_ratio st" and ne: "lru_order p \<noteq> []" by auto
    let ?c = "candidates E (eviction_ratio cfg) p"
    obtain st1 p1 where st1: "eviction_round E cfg i t st = (Inr (), st1)" "l1_inv st1"
      "length (listeners st1) = length (listeners st)" "listeners st1 ! i = PolicyListener (LRU p1)"
      and obj: "\<forall>k. get_object_state k st1 = (case get_object_state k st of None \<Rightarrow> None
       | Some e \<Rightarrow> if k \<in> set ?c \<and> \<not> entry_locked t e then None else Some e)"
      and ord: "lru_order p1 = filter (\<lambda>k. \<not> (k \<in> set ?c \<and>
       (\<exists>e. get_object_state k st = Some e \<and> \<not> entry_locked t e))) (lru_order p)"
      using eviction_round_effect [OF E Cons.prems(1,2,3) w r ne] by blast
    have free: "\<exists>e. get_object_state k st = Some e \<and> \<not> entry_locked t e" if "k \<in> set (lru_order p)" for k
      using Cons.prems(4,5) that unlocked_later by (fastforce simp: evictable_def)
    have "evictable t0 st1 p1"
      using Cons.prems(4) free by (auto simp: evictable_def ord obj)
    moreover have "length (lru_order p1) < length (lru_order p)"
      unfolding ord using free [of "hd (lru_order p)"] ne candidates_nonempty [OF r ne, of E]
      by (intro length_filter_less [of "hd (lru_order p)"]) auto
    ultimately show ?thesis
      using Cons.IH [of st1 p1] st1 Cons.prems by simp
  qed
qed

section \<open>A sample\<close>

definition sample_config :: eviction_config where
  "sample_config = \<lparr>eviction_policy_name = ''LRU'', trigger_watermark = 0, eviction_ratio = 1 / 2\<rparr>"

definition sample_tracked :: "int l1" where
  "sample_tracked = snd (finish_write 1 [1, 2] (snd (reserve_write reference_env 0 [1, 2] [False, False] sample_layout ModeNew
     (register_listener (PolicyListener (LRU (lru_init DISCARD))) sample_l1))))"

definition sample_lru :: "int lru" where
  "sample_lru = \<lparr>lru_order = [2, 1], lru_destinations = [], lru_default = DISCARD\<rparr>"

lemma reference_float_ok: "float_ok reference_env"
  using reference_env_ok by (simp add: env_ok_def)

lemma sample_tracked_inv: "l1_inv sample_tracked"
proof -
  have "l1_inv (register_listener (PolicyListener (LRU (lru_init DISCARD))) sample_l1)"
    by (rule register_listener_inv [OF sample_l1_inv]) (simp add: policy.confined_def lru_init_def)
  from reserve_write_inv [OF reference_sorted_list_ok sample_layout_ok this, of 0 "[1, 2]" "[False, False]" ModeNew]
  show ?thesis unfolding sample_tracked_def by (intro finish_write_inv) auto
qed

lemma sample_tracked_eq: "listeners sample_tracked = [PolicyListener (LRU sample_lru)]"
  by code_simp

lemma sample_tracked_unlocked:
  assumes "k \<in> {1, 2}" "2 \<le> t"
  shows "\<exists>e. get_object_state k sample_tracked = Some e \<and> \<not> entry_locked t e"
proof -
  have "map_option (entry_locked 2) (get_object_state 1 sample_tracked) = Some False"
    "map_option (entry_locked 2) (get_object_state 2 sample_tracked) = Some False" by code_simp+
  then show ?thesis using assms unlocked_later by auto
qed

lemma sample_usage: "0 \<le> memory_usage_ratio sample_tracked"
proof -
  have "l1_get_memory_usage sample_tracked = (8192, 16384)" by code_simp
  then show ?thesis by (simp add: memory_usage_ratio_def)
qed

section \<open>Properties\<close>

text \<open>A round of the eviction controller. Below the watermark it changes nothing; from the watermark on, with an
  LRU policy, a positive ratio and something tracked, it deletes exactly those of the max(1, int(count * ratio))
  least recently used keys whose entries hold no lock, leaves every other entry as it is, the policy forgets
  exactly the deleted keys and keeps the order of the rest, and it does not raise.\<close>

theorem eviction_round_spec:
  assumes "sorted_list_ok E" "float_ok E" "l1_inv st"
    and "i < length (listeners st)" "listeners st ! i = PolicyListener (LRU p)" "0 < eviction_ratio cfg"
  shows "\<exists>st' p'. eviction_round E cfg i now st = (Inr (), st') \<and> listeners st' ! i = PolicyListener (LRU p') \<and>
    (if memory_usage_ratio st < trigger_watermark cfg \<or> lru_order p = [] then st' = st
     else let n = max 1 (nat (float_trunc_mul E (length (lru_order p)) (min 1 (eviction_ratio cfg))));
              evicted = (\<lambda>k. k \<in> set (take n (lru_order p)) \<and>
                (\<exists>e. get_object_state k st = Some e \<and> \<not> entry_locked now e))
          in (\<forall>k. get_object_state k st' = (if evicted k then None else get_object_state k st)) \<and>
             lru_order p' = filter (\<lambda>k. \<not> evicted k) (lru_order p))"
proof (cases "memory_usage_ratio st < trigger_watermark cfg \<or> lru_order p = []")
  case True
  have "controller_policy i st = LRU p" using assms(5) by (simp add: controller_policy_def)
  then have "eviction_round E cfg i now st = (Inr (), st)" using True eviction_round_idle [OF assms(2)] by blast
  then show ?thesis using True assms(5) by (intro exI [of _ st] exI [of _ p]) simp
next
  case False
  then have w: "trigger_watermark cfg \<le> memory_usage_ratio st" and ne: "lru_order p \<noteq> []" by auto
  have c: "candidates E (eviction_ratio cfg) p =
      take (max 1 (nat (float_trunc_mul E (length (lru_order p)) (min 1 (eviction_ratio cfg))))) (lru_order p)"
    using assms(6) by (simp add: candidates_def)
  obtain st' p' where "eviction_round E cfg i now st = (Inr (), st')" "listeners st' ! i = PolicyListener (LRU p')"
    "\<forall>k. get_object_state k st' = (case get_object_state k st of None \<Rightarrow> None
       | Some e \<Rightarrow> if k \<in> set (candidates E (eviction_ratio cfg) p) \<and> \<not> entry_locked now e then None else Some e)"
    "lru_order p' = filter (\<lambda>k. \<not> (k \<in> set (candidates E (eviction_ratio cfg) p) \<and>
       (\<exists>e. get_object_state k st = Some e \<and> \<not> entry_locked now e))) (lru_order p)"
    using eviction_round_effect [OF assms(1-5) w assms(6) ne] by blast
  then show ?thesis using False unfolding c Let_def
    by (intro exI [of _ st'] exI [of _ p']) (auto split: option.splits)
qed

theorem eviction_round_spec_witness:
  "\<exists>st'. eviction_round reference_env sample_config 0 5 sample_tracked = (Inr (), st') \<and>
    get_object_state 2 st' = None \<and> get_object_state 1 st' = get_object_state 1 sample_tracked"
proof -
  have m: "float_trunc_mul reference_env (length (lru_order sample_lru)) (min 1 (eviction_ratio sample_config)) = 1"
    by (simp add: reference_env_def sample_lru_def sample_config_def)
  have c: "\<not> (memory_usage_ratio sample_tracked < trigger_watermark sample_config \<or> lru_order sample_lru = [])"
    using sample_usage by (simp add: sample_config_def sample_lru_def)
  have t: "take (max 1 (nat 1)) (lru_order sample_lru) = [2]" by (simp add: sample_lru_def)
  have u: "\<exists>e. get_object_state 2 sample_tracked = Some e \<and> \<not> entry_locked 5 e"
    using sample_tracked_unlocked [of 2 5] by simp
  have l: "0 < length (listeners sample_tracked)" "listeners sample_tracked ! 0 = PolicyListener (LRU sample_lru)"
    "0 < eviction_ratio sample_config" by (simp_all add: sample_tracked_eq sample_config_def)
  obtain st' p' where st': "eviction_round reference_env sample_config 0 5 sample_tracked = (Inr (), st')"
    and "\<forall>k. get_object_state k st' = (if k \<in> {2} \<and> (\<exists>e. get_object_state k sample_tracked = Some e \<and> \<not> entry_locked 5 e)
           then None else get_object_state k sample_tracked)"
    using eviction_round_spec [OF reference_sorted_list_ok reference_float_ok sample_tracked_inv l, of 5]
    unfolding m Let_def t if_not_P [OF c] by auto
  then show ?thesis using u by (intro exI [of _ st'] conjI) simp_all
qed

text \<open>C33: Eviction makes progress when eviction_ratio is positive. With the LRU policy, if every tracked key has
  an entry in L1, none of them is locked from t0 on and nothing else happens, then after as many
  rounds at or after t0 as there are tracked keys either the memory usage is below the watermark or nothing
  tracked is left, and no round raises. (The configuration does not refuse an eviction_ratio of 0, with which
  a round evicts nothing.)\<close>

theorem eviction_reaches_watermark:
  assumes "sorted_list_ok E" "float_ok E" "l1_inv st"
    and "i < length (listeners st)" "listeners st ! i = PolicyListener (LRU p)" "0 < eviction_ratio cfg"
    and "\<forall>k \<in> set (lru_order p). \<exists>e. get_object_state k st = Some e \<and> \<not> entry_locked t0 e"
    and "\<forall>t \<in> set ts. t0 \<le> t" "length (lru_order p) \<le> length ts"
  shows "\<exists>st' p'. eviction_loop E cfg i ts st = (Inr (), st') \<and> listeners st' ! i = PolicyListener (LRU p') \<and>
    (memory_usage_ratio st' < trigger_watermark cfg \<or> lru_order p' = [])"
  using eviction_loop_drains [OF assms(1,2,6,3,4,5) _ assms(8,9)] assms(7) by (fastforce simp: evictable_def)

theorem eviction_reaches_watermark_witness:
  "\<exists>st' p'. eviction_loop reference_env sample_config 0 [5, 6] sample_tracked = (Inr (), st') \<and>
    listeners st' ! 0 = PolicyListener (LRU p') \<and>
    (memory_usage_ratio st' < trigger_watermark sample_config \<or> lru_order p' = [])"
  using sample_tracked_eq sample_tracked_unlocked
  by (intro eviction_reaches_watermark [OF reference_sorted_list_ok reference_float_ok sample_tracked_inv, of 0 sample_lru _ 2])
    (auto simp: sample_config_def sample_lru_def)

text \<open>
  The candidates are the oldest keys, whether locked or not: when all of them are locked the
  round evicts nothing, although younger keys are free, and so does every later round until
  a lock goes.
\<close>

lemma locked_candidates_block_eviction:
  assumes "sorted_list_ok E" "float_ok E" "l1_inv st"
    and "i < length (listeners st)" "listeners st ! i = PolicyListener (LRU p)" "0 < eviction_ratio cfg"
    and "\<forall>k \<in> set (candidates E (eviction_ratio cfg) p). \<exists>e. get_object_state k st = Some e \<and> entry_locked now e"
  shows "\<exists>st' p'. eviction_round E cfg i now st = (Inr (), st') \<and> (\<forall>k. get_object_state k st' = get_object_state k st) \<and>
    listeners st' ! i = PolicyListener (LRU p') \<and> lru_order p' = lru_order p"
proof (cases "memory_usage_ratio st < trigger_watermark cfg \<or> lru_order p = []")
  case True
  have "controller_policy i st = LRU p" using assms(5) by (simp add: controller_policy_def)
  then have "eviction_round E cfg i now st = (Inr (), st)" using True eviction_round_idle [OF assms(2)] by blast
  then show ?thesis using assms(5) by (intro exI [of _ st] exI [of _ p]) simp
next
  case False
  then have w: "trigger_watermark cfg \<le> memory_usage_ratio st" and ne: "lru_order p \<noteq> []" by auto
  obtain st' p' where st': "eviction_round E cfg i now st = (Inr (), st')" "listeners st' ! i = PolicyListener (LRU p')"
    and obj: "\<forall>k. get_object_state k st' = (case get_object_state k st of None \<Rightarrow> None
       | Some e \<Rightarrow> if k \<in> set (candidates E (eviction_ratio cfg) p) \<and> \<not> entry_locked now e then None else Some e)"
    and ord: "lru_order p' = filter (\<lambda>k. \<not> (k \<in> set (candidates E (eviction_ratio cfg) p) \<and>
       (\<exists>e. get_object_state k st = Some e \<and> \<not> entry_locked now e))) (lru_order p)"
    using eviction_round_effect [OF assms(1-5) w assms(6) ne] by blast
  have "get_object_state k st' = get_object_state k st" for k
    using assms(7) obj by (auto split: option.splits)
  moreover have "lru_order p' = lru_order p" unfolding ord using assms(7) by (auto intro!: filter_True)
  ultimately show ?thesis using st' by blast
qed

end
