(* ===== verification/L1_Exclusion.thy ===== *)
theory L1_Exclusion
  imports L1_Properties
begin

text \<open>
  Readers and writers of the L1 manager exclude each other at every moment of every history,
  although each of the two locks expires on its own and nothing links them but the tests
  the methods make.
\<close>

definition excl :: "int \<Rightarrow> l1_object_state \<Rightarrow> bool" where
  "excl now e \<longleftrightarrow> \<not> (is_locked now (write_lock e) \<and> is_locked now (read_lock e)) \<and> counter (write_lock e) \<le> 1"

definition excl_table :: "int \<Rightarrow> ('k, l1_object_state) dict \<Rightarrow> bool" where
  "excl_table now d \<longleftrightarrow> (\<forall>k e. map_of d k = Some e \<longrightarrow> excl now e)"

lemma excl_later: "excl now e \<Longrightarrow> now \<le> t \<Longrightarrow> excl t e"
  by (auto simp: excl_def is_locked_def)

lemma not_locked_unlocked [simp]: "\<not> is_locked now l \<Longrightarrow> \<not> is_locked now (ttl_unlock l)"
  by (auto simp: is_locked_def ttl_unlock_def)

lemma not_locked_unlock_times [simp]: "\<not> is_locked now l \<Longrightarrow> \<not> is_locked now (unlock_times n l)"
  by (induction n) simp_all

lemma counter_le [simp]: "counter l \<le> 1 \<Longrightarrow> counter (ttl_unlock l) \<le> 1"
  by (simp add: ttl_unlock_def)

lemma released [simp]: "counter l \<le> 1 \<Longrightarrow> \<not> is_locked now (ttl_unlock l)"
  by (auto simp: is_locked_def ttl_unlock_def)

lemma taken: "counter l \<le> 1 \<Longrightarrow> \<not> is_locked now l \<Longrightarrow> counter (ttl_lock now l) \<le> 1"
  by (auto simp: is_locked_def ttl_lock_def)

text \<open>Every turn of every loop keeps an entry exclusive.\<close>

lemma excl_entry_funs:
  assumes "excl now e"
  shows "rr_entry now n e = Some e' \<Longrightarrow> excl now e'"
    and "fr_entry now n e = Some e' \<Longrightarrow> excl now e'"
    and "rw_entry now mode e = Some e' \<Longrightarrow> excl now e'"
    and "fw_entry now e = Some e' \<Longrightarrow> excl now e'"
    and "fwr_entry now n e = Some e' \<Longrightarrow> excl now e'"
    and "dl_entry now e = Some e' \<Longrightarrow> excl now e'"
  using assms taken [of "write_lock e" now]
  by (auto simp: excl_def rr_entry_def fr_entry_def rw_entry_def fw_entry_def fwr_entry_def fw_good_def dl_entry_def
      available_for_read_def available_for_write_def split: if_splits)

lemma excl_fold:
  assumes "excl_table now d" "\<And>e e'. excl now e \<Longrightarrow> f e = Some e' \<Longrightarrow> excl now e'"
  shows "excl_table now (fold (entry_upd f) ks d)"
  using assms(1)
proof (induction ks arbitrary: d)
  case (Cons k ks)
  have "excl_table now (entry_upd f k d)"
    using Cons.prems assms(2) by (auto simp: excl_table_def map_of_entry_upd bind_eq_Some_conv split: if_splits)
  then show ?case using Cons.IH by simp
qed simp

lemma excl_reserve_write_step:
  "excl_table now (rw_objs s) \<Longrightarrow> excl_table now (rw_objs (reserve_write_step now mode kt s))"
  using taken [of "write_lock _" now]
  by (auto simp: excl_table_def reserve_write_step_def Let_def dict_simps excl_def available_for_write_def
      split: option.splits if_splits)

lemma excl_reserve_write_loop:
  "excl_table now (rw_objs s) \<Longrightarrow> excl_table now (rw_objs (fold (reserve_write_step now mode) xs s))"
  by (induction xs arbitrary: s) (simp_all add: excl_reserve_write_step)

lemma excl_insert_new:
  "excl_table now (rw_objs s) \<Longrightarrow> excl_table now (rw_objs (fold (insert_new_step now wttl rttl) xs s))"
proof (induction xs arbitrary: s)
  case (Cons x xs)
  have "excl_table now (rw_objs (insert_new_step now wttl rttl x s))"
    using Cons.prems taken [of "ttl_new wttl" now]
    by (auto simp: insert_new_step_def excl_table_def dict_simps excl_def ttl_new_def is_locked_def split: prod.splits)
  then show ?case using Cons.IH by simp
qed simp

lemma excl_reserve_write:
  "excl_table now (objects st) \<Longrightarrow> excl_table now (objects (snd (reserve_write E now keys tmp layout mode st)))"
  unfolding reserve_write_def Let_def
  by (auto simp: publish_def notify_def intro!: excl_insert_new excl_reserve_write_loop split: prod.splits sum.splits)

lemma excl_clear: "excl_table now (objects st) \<Longrightarrow> excl_table now (objects (snd (l1_clear E now force st)))"
  by (auto simp: l1_clear_def Let_def publish_def notify_def excl_table_def fold_dict_del(1)
      split: prod.splits sum.splits if_splits)

lemma excl_run_op:
  assumes "excl_table now (objects st)"
  shows "excl_table now (objects (snd (run_op E now op st)))"
proof (cases op)
  case (ReserveRead ks ec)
  then show ?thesis using excl_fold [OF assms excl_entry_funs(1)] by (simp add: objects_after)
next
  case (FinishRead ks ec)
  then show ?thesis using excl_fold [OF assms excl_entry_funs(2)] by (simp add: objects_after)
next
  case (FinishWrite ks)
  then show ?thesis using excl_fold [OF assms excl_entry_funs(4)] by (simp add: objects_after)
next
  case (FinishWriteReserveRead ks ec)
  then show ?thesis using excl_fold [OF assms excl_entry_funs(5)] by (simp add: objects_after)
next
  case (Delete ks)
  then show ?thesis using excl_fold [OF assms excl_entry_funs(6)] by (simp add: objects_after)
qed (simp_all add: assms excl_reserve_write excl_clear)

lemma excl_step:
  assumes "l1_step E a b" "excl_table (fst a) (objects (snd a))"
  shows "excl_table (fst b) (objects (snd b))"
  using assms(1)
proof cases
  case (call op now st r st')
  then show ?thesis using excl_run_op [of now st E op] assms(2) by simp
next
  case (listen l now st)
  then show ?thesis using assms(2) by (simp add: register_listener_def)
next
  case (expand mm n st r1 am now)
  then show ?thesis using assms(2) by simp
next
  case (tick now now' st)
  then show ?thesis using assms(2) by (auto simp: excl_table_def intro: excl_later)
qed

text \<open>C7: Readers and writers exclude each other. In every history of a manager, whatever calls are made by
  however many clients and whenever locks expire, no entry is read-locked and write-locked at the same time,
  an entry has at most one writer, and get_object_state never shows an entry that is available for writing
  but not for reading.\<close>

theorem readers_and_writers_exclude:
  assumes "(l1_step E)\<^sup>*\<^sup>* (t0, l1_init mem w r) (now, st)" "get_object_state key st = Some e"
  shows "\<not> (is_locked now (write_lock e) \<and> is_locked now (read_lock e)) \<and> counter (write_lock e) \<le> 1 \<and>
    (available_for_write now e \<longrightarrow> available_for_read now e)"
proof -
  have "excl_table (fst c) (objects (snd c))" if "(l1_step E)\<^sup>*\<^sup>* (t0, l1_init mem w r) c" for c
    using that by (induction rule: rtranclp_induct) (auto simp: excl_table_def l1_init_def dest: excl_step)
  from this [OF assms(1)] have "excl now e" using assms(2) by (simp add: excl_table_def get_object_state_def)
  then show ?thesis by (simp add: excl_def available_for_write_def available_for_read_def)
qed

theorem readers_and_writers_exclude_witness:
  "\<not> (is_locked 0 (write_lock (sample_entry 0 False)) \<and> is_locked 0 (read_lock (sample_entry 0 False)))"
proof -
  obtain ret where "reserve_write reference_env 0 [1, 2] [False, True] sample_layout ModeNew sample_l1 = (Inr ret, sample_written)"
    using sample_written_eq(1) by blast
  then have "run_op reference_env 0 (ReserveWrite [1, 2] [False, True] sample_layout ModeNew) sample_l1 = (Inr (), sample_written)"
    by simp
  from call [OF _ this] have "l1_step reference_env (0, sample_l1) (0, sample_written)"
    by (simp add: sample_layout_ok)
  then have "(l1_step reference_env)\<^sup>*\<^sup>* (0, l1_init sample_mm 600 300) (0, sample_written)"
    by (simp add: sample_l1_def)
  from readers_and_writers_exclude [OF this, of 1 "sample_entry 0 False"] show ?thesis
    by (simp add: get_object_state_def sample_written_objects)
qed

end
