(* ===== verification/Bitmap.thy ===== *)
theory Bitmap
  imports Main "HOL-Library.Word"
begin

text \<open>
  The Bitmap of csrc/storage_manager/bitmap.cpp, with which the L2 adapters and the prefetch
  controller say which keys of a request they mean, byte by byte, and the proof that it
  implements a list of booleans. Bytes are 8-bit words. The compiler's builtins are
  described on the eight bits of a byte.
\<close>

unbundle bit_operations_syntax

section \<open>Bytes\<close>

definition byte_popcount :: "8 word \<Rightarrow> nat" where
  "byte_popcount b = length (filter (bit b) [0 ..< 8])"

definition byte_ctz :: "8 word \<Rightarrow> nat" where
  "byte_ctz b = length (takeWhile (\<lambda>i. \<not> bit b i) [0 ..< 8])"

text \<open>static_cast<uint8_t>((1u << n) - 1) and static_cast<uint8_t>(1u << n), for n < 8.\<close>

definition low_mask :: "nat \<Rightarrow> 8 word" where
  "low_mask n = push_bit n 1 - 1"

definition one_bit :: "nat \<Rightarrow> 8 word" where
  "one_bit n = push_bit n 1"

section \<open>The bitmap\<close>

record bitmap =
  bm_size :: nat
  bm_data :: "8 word list"

definition num_bytes :: "nat \<Rightarrow> nat" where
  "num_bytes n = (if n = 0 then 0 else (n - 1) div 8 + 1)"

definition bm_new :: "nat \<Rightarrow> bitmap" where
  "bm_new n = \<lparr>bm_size = n, bm_data = replicate (num_bytes n) 0\<rparr>"

definition bm_prefix :: "nat \<Rightarrow> nat \<Rightarrow> bitmap" where
  "bm_prefix n prefix_bits =
     (if prefix_bits = 0 \<or> n = 0 then bm_new n
      else let p = (if n < prefix_bits then n else prefix_bits);
               full_bytes = p div 8;
               remaining = p mod 8;
               d = fold (\<lambda>i d. d[i := 0xFF]) [0 ..< full_bytes] (bm_data (bm_new n))
           in \<lparr>bm_size = n, bm_data = (if 0 < remaining then d[full_bytes := low_mask remaining] else d)\<rparr>)"

definition bm_set :: "nat \<Rightarrow> bitmap \<Rightarrow> bitmap" where
  "bm_set index b =
     (if bm_size b \<le> index then b
      else b\<lparr>bm_data := (bm_data b)[index div 8 := (bm_data b ! (index div 8)) OR one_bit (index mod 8)]\<rparr>)"

definition bm_clear :: "nat \<Rightarrow> bitmap \<Rightarrow> bitmap" where
  "bm_clear index b =
     (if bm_size b \<le> index then b
      else b\<lparr>bm_data := (bm_data b)[index div 8 := (bm_data b ! (index div 8)) AND NOT (one_bit (index mod 8))]\<rparr>)"

definition bm_test :: "nat \<Rightarrow> bitmap \<Rightarrow> bool" where
  "bm_test index b =
     (if bm_size b \<le> index then False
      else drop_bit (index mod 8) (bm_data b ! (index div 8)) AND 1 = 1)"

definition bm_popcount :: "bitmap \<Rightarrow> nat" where
  "bm_popcount b =
     (if bm_data b = [] then 0
      else let count = sum_list (map (\<lambda>i. byte_popcount (bm_data b ! i)) [0 ..< bm_size b div 8]);
               remaining_bits = bm_size b mod 8
           in if 0 < remaining_bits then count + byte_popcount (last (bm_data b) AND low_mask remaining_bits)
              else count)"

text \<open>The loop of clz over the full bytes: the count so far, and whether it has returned.\<close>

fun clz_loop :: "8 word list \<Rightarrow> nat \<Rightarrow> nat \<times> bool" where
  "clz_loop [] count = (count, False)"
| "clz_loop (b # bs) count = (if b = 0 then clz_loop bs (count + 8) else (count + byte_ctz b, True))"

definition bm_clz :: "bitmap \<Rightarrow> nat" where
  "bm_clz b =
     (if bm_size b = 0 then 0
      else case clz_loop (take (bm_size b div 8) (bm_data b)) 0 of
        (count, returned) \<Rightarrow>
          if returned then count
          else let remaining_bits = bm_size b mod 8
               in if 0 < remaining_bits
                  then let last_byte = last (bm_data b) AND low_mask remaining_bits
                       in if last_byte = 0 then count + remaining_bits else count + byte_ctz last_byte
                  else count)"

definition bm_not :: "bitmap \<Rightarrow> bitmap" where
  "bm_not b =
     (let d = map (\<lambda>x. NOT x) (bm_data b); remaining_bits = bm_size b mod 8
      in \<lparr>bm_size = bm_size b,
          bm_data = (if 0 < remaining_bits
                     then d[length d - 1 := last d AND low_mask remaining_bits] else d)\<rparr>)"

definition bm_clo :: "bitmap \<Rightarrow> nat" where
  "bm_clo b = bm_clz (bm_not b)"

definition bm_and :: "bitmap \<Rightarrow> bitmap \<Rightarrow> bitmap" where
  "bm_and a b =
     (let n = (if bm_size a \<le> bm_size b then bm_size a else bm_size b)
      in \<lparr>bm_size = n, bm_data = map (\<lambda>i. (bm_data a ! i) AND (bm_data b ! i)) [0 ..< num_bytes n]\<rparr>)"

definition bm_or :: "bitmap \<Rightarrow> bitmap \<Rightarrow> bitmap" where
  "bm_or a b =
     (let n = (if bm_size a \<le> bm_size b then bm_size a else bm_size b)
      in \<lparr>bm_size = n, bm_data = map (\<lambda>i. (bm_data a ! i) OR (bm_data b ! i)) [0 ..< num_bytes n]\<rparr>)"

text \<open>The inner loop of get_indices takes the lowest set bit until the byte is zero.\<close>

lemma clear_lowest_less: "(x :: 8 word) \<noteq> 0 \<Longrightarrow> unat (x AND (x - 1)) < unat x"
proof -
  assume "x \<noteq> 0"
  have "x AND (x - 1) \<le> x - 1" by (rule word_and_le1)
  also have "x - 1 < x" using \<open>x \<noteq> 0\<close> by (simp add: word_less_1 unat_minus_one word_less_nat_alt unat_gt_0)
  finally show ?thesis by (simp add: word_less_nat_alt)
qed

function byte_indices :: "8 word \<Rightarrow> nat list" where
  "byte_indices byte = (if byte = 0 then [] else byte_ctz byte # byte_indices (byte AND (byte - 1)))"
  by pat_completeness auto

termination byte_indices
  by (relation "measure unat") (simp_all add: clear_lowest_less)

declare byte_indices.simps [simp del]

definition bm_get_indices :: "bitmap \<Rightarrow> nat list" where
  "bm_get_indices b =
     concat (map (\<lambda>i. filter (\<lambda>idx. idx < bm_size b) (map (\<lambda>bt. i * 8 + bt) (byte_indices (bm_data b ! i))))
       [0 ..< length (bm_data b)])"

text \<open>gather of the Python binding.\<close>

definition bm_gather :: "bitmap \<Rightarrow> 'a list \<Rightarrow> 'a list" where
  "bm_gather b items = map (\<lambda>idx. items ! idx) (filter (\<lambda>idx. idx < length items) (bm_get_indices b))"

section \<open>The bits of a bitmap\<close>

definition bm_ok :: "bitmap \<Rightarrow> bool" where
  "bm_ok b \<longleftrightarrow> length (bm_data b) = num_bytes (bm_size b)"

definition bm_bits :: "bitmap \<Rightarrow> bool list" where
  "bm_bits b = map (\<lambda>i. bit (bm_data b ! (i div 8)) (i mod 8)) [0 ..< bm_size b]"

lemma length_bm_bits [simp]: "length (bm_bits b) = bm_size b"
  by (simp add: bm_bits_def)

lemma nth_bm_bits [simp]: "i < bm_size b \<Longrightarrow> bm_bits b ! i = bit (bm_data b ! (i div 8)) (i mod 8)"
  by (simp add: bm_bits_def)

lemma num_bytes_bound: "i < n \<Longrightarrow> i div 8 < num_bytes n"
proof -
  assume "i < n"
  then have "i div 8 \<le> (n - 1) div 8" by (intro div_le_mono) simp
  then show ?thesis using \<open>i < n\<close> by (simp add: num_bytes_def)
qed

lemma bits_eqI: "bm_size a = length xs \<Longrightarrow> (\<And>i. i < bm_size a \<Longrightarrow> bit (bm_data a ! (i div 8)) (i mod 8) = xs ! i) \<Longrightarrow>
    bm_bits a = xs"
  by (intro nth_equalityI) simp_all

lemma bit_one_bit [simp]: "i < 8 \<Longrightarrow> j < 8 \<Longrightarrow> bit (one_bit i) j \<longleftrightarrow> i = j"
  by (auto simp: one_bit_def bit_simps)

lemma bit_low_mask [simp]: "i < 8 \<Longrightarrow> j < 8 \<Longrightarrow> bit (low_mask i) j \<longleftrightarrow> j < i"
  by (simp add: low_mask_def push_bit_of_1 flip: mask_eq_exp_minus_1) (simp add: bit_mask_iff)

lemma same_bit: "(index div 8 = i div 8 \<and> index mod 8 = i mod 8) \<longleftrightarrow> (index :: nat) = i"
  by (metis div_mult_mod_eq)


lemma clear_lowest:
  fixes x :: "8 word"
  assumes "bit x k" "\<forall>j < k. \<not> bit x j"
  shows "x AND (x - 1) = unset_bit k x"
proof -
  let ?y = "unset_bit k x"
  have "x = ?y OR push_bit k 1" using assms(1)
    by (intro bit_word_eqI) (auto simp: bit_simps)
  also have "\<dots> = ?y + push_bit k 1" by (rule disjunctive_add [symmetric]) (auto simp: bit_simps)
  finally have "x - 1 = ?y + mask k" by (simp add: mask_eq_exp_minus_1 push_bit_of_1)
  also have "\<dots> = ?y OR mask k" using assms(2) by (intro disjunctive_add) (auto simp: bit_simps)
  finally show ?thesis using assms by (intro bit_word_eqI) (auto simp: bit_simps)
qed
lemma filter_lowest:
  assumes "(x :: 8 word) \<noteq> 0"
  shows "filter (bit x) [0 ..< 8] = byte_ctz x # filter (bit (x AND (x - 1))) [0 ..< 8]"
proof -
  obtain j where j: "j < 8" "bit x j" using assms bit_word_eqI [of x 0] by auto
  define k where "k = (LEAST i. bit x i)"
  have k1: "bit x k" unfolding k_def by (rule LeastI) (rule j(2))
  have k2: "\<forall>i < k. \<not> bit x i" unfolding k_def by (blast dest: not_less_Least)
  have "k \<le> j" unfolding k_def by (rule Least_le) (rule j(2))
  then have k: "bit x k" "\<forall>i < k. \<not> bit x i" "k < 8" using k1 k2 j(1) by simp_all
  have split: "[0 ..< 8] = [0 ..< k] @ k # [Suc k ..< 8]"
    using k(3) upt_add_eq_append [of 0 k "8 - k"] by (simp add: upt_conv_Cons)
  have "byte_ctz x = k" unfolding byte_ctz_def split using k(1,2) by (subst takeWhile_append2) auto
  moreover have "filter (bit x) [0 ..< k] = []" "filter (bit (unset_bit k x)) [0 ..< k] = []"
    using k(2) by (auto simp: filter_empty_conv bit_simps)
  moreover have "filter (bit (unset_bit k x)) [Suc k ..< 8] = filter (bit x) [Suc k ..< 8]"
    by (intro filter_cong refl) (auto simp: bit_simps)
  ultimately show ?thesis unfolding clear_lowest [OF k(1,2)] split using k(1) by (simp add: bit_simps)
qed

lemma byte_indices_eq: "byte_indices b = filter (bit b) [0 ..< 8]"
proof (induction b rule: byte_indices.induct)
  case (1 b)
  show ?case
  proof (cases "b = 0")
    case True
    then show ?thesis by (simp add: byte_indices.simps [of 0])
  next
    case False
    then show ?thesis using 1 filter_lowest [OF False] by (subst byte_indices.simps) simp
  qed
qed

lemma bits_new [simp]: "bm_bits (bm_new n) = replicate n False" "bm_ok (bm_new n)"
  by (auto intro!: bits_eqI simp: bm_new_def bm_ok_def num_bytes_bound)

lemma bits_set [simp]:
  assumes "bm_ok b"
  shows "bm_bits (bm_set i b) = (bm_bits b)[i := True]" "bm_ok (bm_set i b)"
proof -
  show "bm_ok (bm_set i b)" using assms by (simp add: bm_ok_def bm_set_def)
  show "bm_bits (bm_set i b) = (bm_bits b)[i := True]"
  proof (cases "bm_size b \<le> i")
    case False
    have "bm_bits b ! j = bit (bm_data b ! (j div 8)) (j mod 8)" if "j < bm_size b" for j using that by simp
    then show ?thesis using False assms num_bytes_bound [of i "bm_size b"] same_bit [of i]
      by (intro bits_eqI) (auto simp: bm_set_def bm_ok_def nth_list_update bit_simps)
  qed (simp add: bm_set_def list_update_beyond)
qed

lemma bits_clear [simp]:
  assumes "bm_ok b"
  shows "bm_bits (bm_clear i b) = (bm_bits b)[i := False]" "bm_ok (bm_clear i b)"
proof -
  show "bm_ok (bm_clear i b)" using assms by (simp add: bm_ok_def bm_clear_def)
  show "bm_bits (bm_clear i b) = (bm_bits b)[i := False]"
  proof (cases "bm_size b \<le> i")
    case False
    then show ?thesis using assms num_bytes_bound [of i "bm_size b"] same_bit [of i]
      by (intro bits_eqI) (auto simp: bm_clear_def bm_ok_def nth_list_update bit_simps)
  qed (simp add: bm_clear_def list_update_beyond)
qed

lemma bits_test [simp]: "bm_test i b \<longleftrightarrow> i < bm_size b \<and> bm_bits b ! i"
proof (cases "i < bm_size b")
  case True
  have "(x AND 1 = 1) \<longleftrightarrow> bit x 0" for x :: "8 word"
    by (simp add: and_one_eq bit_0 odd_iff_mod_2_eq_one)
  then show ?thesis using True by (simp add: bm_test_def bit_drop_bit_eq)
qed (simp add: bm_test_def)

lemma bits_and [simp]:
  assumes "bm_ok a" "bm_ok b"
  shows "bm_bits (bm_and a b) = map2 (\<and>) (bm_bits a) (bm_bits b)" "bm_ok (bm_and a b)"
  using num_bytes_bound
  by (auto intro!: bits_eqI simp: bm_and_def bm_ok_def Let_def bit_simps split: if_splits)

lemma bits_or [simp]:
  assumes "bm_ok a" "bm_ok b"
  shows "bm_bits (bm_or a b) = map2 (\<or>) (bm_bits a) (bm_bits b)" "bm_ok (bm_or a b)"
  using num_bytes_bound
  by (auto intro!: bits_eqI simp: bm_or_def bm_ok_def Let_def bit_simps split: if_splits)


lemma num_bytes_eq:
  "0 < n mod 8 \<Longrightarrow> num_bytes n = Suc (n div 8)" "n mod 8 = 0 \<Longrightarrow> num_bytes n = n div 8"
proof -
  have n: "n = n div 8 * 8 + n mod 8" by simp
  show "num_bytes n = Suc (n div 8)" if "0 < n mod 8"
  proof -
    have "n - 1 = n div 8 * 8 + (n mod 8 - 1)" "n mod 8 - 1 < 8" using n that by linarith+
    then have "(n - 1) div 8 = n div 8" by (metis div_mult_self3 div_less add.right_neutral add.commute zero_neq_numeral)
    then show ?thesis using that by (auto simp: num_bytes_def)
  qed
  show "num_bytes n = n div 8" if "n mod 8 = 0"
  proof (cases "n = 0")
    case False
    then have "n div 8 \<noteq> 0" using n that by (metis add.right_neutral mult_zero_left)
    then have "n - 1 = (n div 8 - 1) * 8 + 7" using n that by linarith
    then have "(n - 1) div 8 = n div 8 - 1" by simp
    then show ?thesis using False \<open>n div 8 \<noteq> 0\<close> by (simp add: num_bytes_def)
  qed (simp add: num_bytes_def)
qed

lemma in_last_byte: "(i :: nat) < n \<Longrightarrow> i div 8 = n div 8 \<Longrightarrow> i mod 8 < n mod 8"
  by (metis div_mult_mod_eq nat_add_left_cancel_less)

lemma bits_not [simp]:
  assumes "bm_ok b"
  shows "bm_bits (bm_not b) = map Not (bm_bits b)" "bm_ok (bm_not b)"
proof -
  show "bm_ok (bm_not b)" using assms by (simp add: bm_ok_def bm_not_def Let_def)
  have "bit (bm_data (bm_not b) ! (i div 8)) (i mod 8) \<longleftrightarrow> \<not> bm_bits b ! i" if i: "i < bm_size b" for i
  proof (cases "0 < bm_size b mod 8 \<and> i div 8 = bm_size b div 8")
    case True
    then have "i div 8 = length (bm_data b) - 1" "bm_data b \<noteq> []"
      using assms num_bytes_eq(1) [of "bm_size b"] by (auto simp: bm_ok_def)
    moreover from this have "last (map (\<lambda>x. NOT x) (bm_data b)) = NOT (bm_data b ! (i div 8))"
      by (simp add: last_map last_conv_nth)
    ultimately show ?thesis using True i in_last_byte [OF i]
      by (simp add: bm_not_def Let_def bit_simps)
  next
    case False
    have "i div 8 < length (bm_data b)" using assms num_bytes_bound [OF i] by (simp add: bm_ok_def)
    moreover have "0 < bm_size b mod 8 \<Longrightarrow> i div 8 \<noteq> length (bm_data b) - 1"
      using False assms num_bytes_eq(1) [of "bm_size b"] by (simp add: bm_ok_def)
    ultimately show ?thesis using i by (auto simp: bm_not_def Let_def bit_simps)
  qed
  then show "bm_bits (bm_not b) = map Not (bm_bits b)"
    by (intro bits_eqI) (simp_all add: bm_not_def Let_def)
qed

text \<open>The bits as the full bytes and the rest.\<close>

definition byte_bits :: "8 word \<Rightarrow> bool list" where
  "byte_bits b = map (bit b) [0 ..< 8]"

lemma upt_bytes: "[0 ..< q * 8] = concat (map (\<lambda>i. map (\<lambda>j. i * 8 + j) [0 ..< 8]) [0 ..< q])"
proof (induction q)
  case (Suc q)
  have "[0 ..< Suc q * 8] = [0 ..< q * 8] @ [q * 8 ..< q * 8 + 8]"
    using upt_add_eq_append [of 0 "q * 8" 8] by (simp add: add.commute del: upt_Suc)
  also have "[q * 8 ..< q * 8 + 8] = map (\<lambda>j. q * 8 + j) [0 ..< 8]"
    using map_add_upt [of "q * 8" 8] by (simp add: add.commute del: upt_Suc)
  finally show ?case using Suc by simp
qed simp

lemma bm_bits_split:
  assumes "bm_ok b"
  shows "bm_bits b = concat (map byte_bits (take (bm_size b div 8) (bm_data b)))
    @ map (bit (last (bm_data b))) [0 ..< bm_size b mod 8]"
proof -
  let ?q = "bm_size b div 8" and ?r = "bm_size b mod 8" and ?f = "\<lambda>i. bit (bm_data b ! (i div 8)) (i mod 8)"
  have "[0 ..< bm_size b] = [0 ..< ?q * 8] @ [?q * 8 ..< ?q * 8 + ?r]"
    using upt_add_eq_append [of 0 "?q * 8" ?r] by simp
  also have "[?q * 8 ..< ?q * 8 + ?r] = map (\<lambda>j. ?q * 8 + j) [0 ..< ?r]"
    using map_add_upt [of "?q * 8" ?r] by (simp add: add.commute del: upt_Suc)
  finally have "bm_bits b = map ?f [0 ..< ?q * 8] @ map (\<lambda>j. ?f (?q * 8 + j)) [0 ..< ?r]"
    by (simp add: bm_bits_def)
  also have "map ?f [0 ..< ?q * 8] = concat (map (\<lambda>i. map (\<lambda>j. ?f (i * 8 + j)) [0 ..< 8]) [0 ..< ?q])"
    unfolding upt_bytes by (simp add: map_concat comp_def del: upt_Suc)
  also have "\<dots> = concat (map (\<lambda>i. byte_bits (bm_data b ! i)) [0 ..< ?q])"
    by (intro arg_cong [where f = concat] map_cong refl) (simp add: byte_bits_def)
  also have "map (\<lambda>i. byte_bits (bm_data b ! i)) [0 ..< ?q] = map byte_bits (take ?q (bm_data b))"
  proof -
    have "?q \<le> length (bm_data b)"
      using assms num_bytes_eq [of "bm_size b"] by (cases "?r = 0") (simp_all add: bm_ok_def)
    then have "map (\<lambda>i. bm_data b ! i) [0 ..< ?q] = take ?q (bm_data b)"
      by (intro nth_equalityI) simp_all
    from this [symmetric] show ?thesis by (simp only: list.map_comp comp_def)
  qed
  also have "map (\<lambda>j. ?f (?q * 8 + j)) [0 ..< ?r] = map (bit (last (bm_data b))) [0 ..< ?r]"
  proof (cases "?r = 0")
    case False
    then have "length (bm_data b) = Suc ?q" using assms num_bytes_eq(1) [of "bm_size b"] by (simp add: bm_ok_def)
    then have "last (bm_data b) = bm_data b ! ?q" by (subst last_conv_nth) auto
    moreover have "?r < 8" by simp
    ultimately show ?thesis by (intro map_cong refl) (simp del: mod_less_divisor)
  qed simp
  finally show ?thesis .
qed


lemma filter_map_id: "length (filter id (map f xs)) = length (filter f xs)"
  by (induction xs) simp_all

lemma takeWhile_Not_map: "length (takeWhile Not (map f xs)) = length (takeWhile (\<lambda>i. \<not> f i) xs)"
  by (induction xs) simp_all

lemma bit_masked: "r < 8 \<Longrightarrow> j < 8 \<Longrightarrow> bit (x AND low_mask r) j \<longleftrightarrow> bit x j \<and> j < r"
  by (simp add: bit_simps)

lemma zero_iff_bits: "(x :: 8 word) = 0 \<longleftrightarrow> (\<forall>j < 8. \<not> bit x j)"
  by (auto intro: bit_word_eqI)

lemma bm_popcount_eq:
  assumes "bm_ok b"
  shows "bm_popcount b = length (filter id (bm_bits b))"
proof -
  let ?q = "bm_size b div 8" and ?r = "bm_size b mod 8"
  have r: "?r < 8" by simp
  have q: "?q \<le> length (bm_data b)"
    using assms num_bytes_eq [of "bm_size b"] by (cases "?r = 0") (simp_all add: bm_ok_def)
  have byte: "byte_popcount x = length (filter id (byte_bits x))" for x
    by (simp add: byte_popcount_def byte_bits_def filter_map_id)
  have full: "sum_list (map (\<lambda>i. byte_popcount (bm_data b ! i)) [0 ..< ?q]) =
      length (filter id (concat (map byte_bits (take ?q (bm_data b)))))"
  proof -
    have "map (\<lambda>i. bm_data b ! i) [0 ..< ?q] = take ?q (bm_data b)" using q by (intro nth_equalityI) simp_all
    then have m: "map (\<lambda>i. byte_popcount (bm_data b ! i)) [0 ..< ?q] = map byte_popcount (take ?q (bm_data b))"
      by (metis (no_types, lifting) list.map_comp comp_def map_eq_conv)
    have "byte_popcount = (\<lambda>x. length (filter id (byte_bits x)))" using byte by (rule ext)
    then show ?thesis unfolding m by (simp add: filter_concat length_concat comp_def)
  qed
  have rest: "byte_popcount (x AND low_mask ?r) = length (filter (bit x) [0 ..< ?r])" for x
  proof -
    have "[0 ..< 8] = [0 ..< ?r] @ [?r ..< 8]" using upt_add_eq_append [of 0 ?r "8 - ?r"] r by simp
    then have "filter (bit (x AND low_mask ?r)) [0 ..< 8] =
        filter (bit (x AND low_mask ?r)) [0 ..< ?r] @ filter (bit (x AND low_mask ?r)) [?r ..< 8]" by simp
    moreover have "filter (bit (x AND low_mask ?r)) [0 ..< ?r] = filter (bit x) [0 ..< ?r]"
      using r by (intro filter_cong refl) (simp add: bit_masked)
    moreover have "filter (bit (x AND low_mask ?r)) [?r ..< 8] = []"
      using r by (simp add: filter_empty_conv bit_masked)
    ultimately show ?thesis by (simp add: byte_popcount_def)
  qed
  show ?thesis
  proof (cases "bm_data b = []")
    case True
    then show ?thesis using q assms num_bytes_eq(1) [of "bm_size b"]
      by (cases "?r = 0") (auto simp: bm_popcount_def bm_bits_split [OF assms] bm_ok_def)
  next
    case False
    then show ?thesis by (simp add: bm_popcount_def Let_def full rest bm_bits_split [OF assms] filter_map_id)
  qed
qed

lemma ctz_eq: "byte_ctz x = length (takeWhile Not (byte_bits x))"
  by (simp add: byte_ctz_def byte_bits_def takeWhile_Not_map)

lemma clz_loop_eq:
  "clz_loop bs n = (n + length (takeWhile Not (concat (map byte_bits bs))), \<exists>b \<in> set bs. b \<noteq> 0)"
proof (induction bs arbitrary: n)
  case (Cons b bs)
  show ?case
  proof (cases "b = 0")
    case True
    moreover have "byte_bits 0 = replicate 8 False" by code_simp
    ultimately have "byte_bits b = replicate 8 False" by simp
    then have "takeWhile Not (byte_bits b @ xs) = replicate 8 False @ takeWhile Not xs" for xs
      by (subst takeWhile_append2) auto
    then show ?thesis using Cons True by simp
  next
    case False
    then obtain j where "j < 8" "bit b j" using zero_iff_bits by blast
    then have "True \<in> set (byte_bits b)" by (force simp: byte_bits_def)
    then show ?thesis using False by (simp add: ctz_eq takeWhile_append1)
  qed
qed simp

lemma bm_clz_eq:
  assumes "bm_ok b"
  shows "bm_clz b = length (takeWhile Not (bm_bits b))"
proof -
  let ?q = "bm_size b div 8" and ?r = "bm_size b mod 8" and ?full = "take (bm_size b div 8) (bm_data b)"
  let ?x = "last (bm_data b)"
  have r: "?r < 8" by simp
  show ?thesis
  proof (cases "\<exists>b \<in> set ?full. b \<noteq> 0")
    case True
    then obtain c where c: "c \<in> set ?full" "c \<noteq> 0" by blast
    then obtain j where "j < 8" "bit c j" using zero_iff_bits by blast
    then have "True \<in> set (concat (map byte_bits ?full))" using c(1) by (force simp: byte_bits_def)
    moreover have "bm_size b \<noteq> 0" using c(1) by (cases "bm_size b = 0") auto
    ultimately show ?thesis using True
      by (simp add: bm_clz_def clz_loop_eq bm_bits_split [OF assms] takeWhile_append1)
  next
    case False
    then have zeros: "\<forall>y \<in> set (concat (map byte_bits ?full)). \<not> y" by (auto simp: byte_bits_def)
    have l: "length (takeWhile Not (concat (map byte_bits ?full))) = length (concat (map byte_bits ?full))"
      using zeros by (simp add: takeWhile_eq_all_conv [THEN iffD2])
    have "?x AND low_mask ?r = 0 \<longleftrightarrow> (\<forall>j < ?r. \<not> bit ?x j)"
      unfolding zero_iff_bits using less_trans [OF _ r] by (auto simp: bit_masked [OF r])
    moreover have "length (takeWhile Not (map (bit ?x) [0 ..< ?r])) =
        (if \<forall>j < ?r. \<not> bit ?x j then ?r else byte_ctz (?x AND low_mask ?r))"
    proof (cases "\<forall>j < ?r. \<not> bit ?x j")
      case True
      then have w: "takeWhile Not (map (bit ?x) [0 ..< ?r]) = map (bit ?x) [0 ..< ?r]" by (auto simp: takeWhile_eq_all_conv)
      show ?thesis unfolding w using True by simp
    next
      case False
      then obtain i where i: "i < ?r" "bit ?x i" by blast
      have "[0 ..< 8] = [0 ..< ?r] @ [?r ..< 8]" using upt_add_eq_append [of 0 ?r "8 - ?r"] r by simp
      moreover have "map (bit (?x AND low_mask ?r)) [0 ..< ?r] = map (bit ?x) [0 ..< ?r]"
        using r by (intro map_cong refl) (simp add: bit_masked)
      ultimately have "byte_bits (?x AND low_mask ?r) = map (bit ?x) [0 ..< ?r] @ map (bit (?x AND low_mask ?r)) [?r ..< 8]"
        by (simp add: byte_bits_def)
      moreover have "True \<in> set (map (bit ?x) [0 ..< ?r])" using i by force
      ultimately show ?thesis using False by (simp only: ctz_eq takeWhile_append1 if_False simp_thms)
    qed
    moreover have "takeWhile Not (concat (map byte_bits ?full) @ ys) = concat (map byte_bits ?full) @ takeWhile Not ys" for ys
      using zeros by (intro takeWhile_append2) blast
    ultimately show ?thesis using False l
      by (cases "bm_size b = 0") (auto simp: bm_clz_def clz_loop_eq bm_bits_split [OF assms] Let_def)
  qed
qed


lemma bm_clo_eq: "bm_ok b \<Longrightarrow> bm_clo b = length (takeWhile id (bm_bits b))"
  by (simp add: bm_clo_def bm_clz_eq takeWhile_map comp_def id_def)

lemma concat_byte_indices:
  "concat (map (\<lambda>i. filter (\<lambda>idx. idx < n) (map (\<lambda>bt. i * 8 + bt) (byte_indices (d ! i)))) [0 ..< q]) =
   filter (\<lambda>i. i < n \<and> bit (d ! (i div 8)) (i mod 8)) [0 ..< q * 8]"
proof -
  have "filter (\<lambda>idx. idx < n) (map (\<lambda>bt. i * 8 + bt) (byte_indices (d ! i))) =
      filter (\<lambda>i. i < n \<and> bit (d ! (i div 8)) (i mod 8)) (map (\<lambda>j. i * 8 + j) [0 ..< 8])" for i
    unfolding byte_indices_eq filter_map filter_filter comp_def
    by (intro arg_cong [where f = "map _"] filter_cong refl) auto
  then show ?thesis unfolding upt_bytes by (simp add: filter_concat comp_def del: upt_Suc)
qed

lemma bm_get_indices_eq:
  assumes "bm_ok b"
  shows "bm_get_indices b = filter (\<lambda>i. bm_bits b ! i) [0 ..< bm_size b]"
proof -
  let ?n = "bm_size b" and ?P = "\<lambda>i. i < bm_size b \<and> bit (bm_data b ! (i div 8)) (i mod 8)"
  have le: "?n \<le> num_bytes ?n * 8"
    using num_bytes_bound [of "?n - 1" ?n] by (cases "?n = 0") (auto simp: num_bytes_def div_mult_mod_eq less_mult_imp_div_less)
  have "bm_get_indices b = filter ?P [0 ..< num_bytes ?n * 8]"
    using assms concat_byte_indices [where n = ?n and d = "bm_data b" and q = "num_bytes ?n"]
    by (simp add: bm_get_indices_def bm_ok_def)
  also have "[0 ..< num_bytes ?n * 8] = [0 ..< ?n] @ [?n ..< num_bytes ?n * 8]"
    using upt_add_eq_append [of 0 ?n "num_bytes ?n * 8 - ?n"] le by simp
  also have "filter ?P \<dots> = filter ?P [0 ..< ?n]" by (simp add: filter_empty_conv)
  also have "\<dots> = filter (\<lambda>i. bm_bits b ! i) [0 ..< ?n]" by (intro filter_cong refl) simp
  finally show ?thesis .
qed

lemma bm_gather_eq:
  assumes "bm_ok b"
  shows "bm_gather b items = map snd (filter fst (zip (bm_bits b) items))"
proof -
  let ?m = "min (bm_size b) (length items)"
  have z: "zip (bm_bits b) items = map (\<lambda>i. (bm_bits b ! i, items ! i)) [0 ..< ?m]"
    by (intro nth_equalityI) simp_all
  have f: "filter (\<lambda>i. bm_bits b ! i \<and> i < length items) [0 ..< bm_size b] = filter (\<lambda>i. bm_bits b ! i) [0 ..< ?m]"
  proof (cases "bm_size b \<le> length items")
    case True
    then show ?thesis by (intro filter_cong) auto
  next
    case False
    then have "[0 ..< bm_size b] = [0 ..< ?m] @ [?m ..< bm_size b]"
      using upt_add_eq_append [of 0 ?m "bm_size b - ?m"] by (simp add: min_def)
    moreover have "filter (\<lambda>i. bm_bits b ! i \<and> i < length items) [?m ..< bm_size b] = []"
      using False by (auto simp: filter_empty_conv)
    moreover have "filter (\<lambda>i. bm_bits b ! i \<and> i < length items) [0 ..< ?m] = filter (\<lambda>i. bm_bits b ! i) [0 ..< ?m]"
      by (intro filter_cong) auto
    ultimately show ?thesis by simp
  qed
  show ?thesis unfolding bm_gather_def bm_get_indices_eq [OF assms] filter_filter f z
    by (simp add: filter_map comp_def)
qed

lemma bits_prefix [simp]: "bm_bits (bm_prefix n p) = map (\<lambda>i. i < p) [0 ..< n]" "bm_ok (bm_prefix n p)"
proof -
  define q where "q = (if n < p then n else p)"
  have len: "length (fold (\<lambda>i d. d[i := x]) ks d) = length d" for x :: "8 word" and ks d
    by (induction ks arbitrary: d) simp_all
  have nth: "j < length d \<Longrightarrow> fold (\<lambda>i d. d[i := x]) ks d ! j = (if j \<in> set ks then x else d ! j)" for x :: "8 word" and ks d j
    by (induction ks arbitrary: d) (auto simp: nth_list_update)
  show "bm_ok (bm_prefix n p)" by (simp add: bm_prefix_def bm_ok_def Let_def len bm_new_def)
  have size: "bm_size (bm_prefix n p) = n" by (simp add: bm_prefix_def bm_new_def Let_def)
  have ff: "j < 8 \<Longrightarrow> bit (0xFF :: 8 word) j" for j
  proof -
    have "(0xFF :: 8 word) = mask 8" by (simp add: mask_eq_exp_minus_1)
    then show "j < 8 \<Longrightarrow> bit (0xFF :: 8 word) j" by (simp only: bit_mask_iff) simp
  qed
  have "bit (bm_data (bm_prefix n p) ! (i div 8)) (i mod 8) \<longleftrightarrow> i < p" if i: "i < n" for i
  proof (cases "p = 0")
    case False
    have b: "i div 8 < num_bytes n" by (rule num_bytes_bound [OF i])
    have "i < p \<longleftrightarrow> i < q" using i by (simp add: q_def)
    also have "\<dots> \<longleftrightarrow> i div 8 < q div 8 \<or> (i div 8 = q div 8 \<and> i mod 8 < q mod 8)"
      by (metis div_le_mono div_less_iff_less_mult div_mult_mod_eq in_last_byte leD le_neq_implies_less linorder_not_le nat_add_left_cancel_less order.strict_implies_order)
    finally show ?thesis using False i b ff
      by (auto simp: bm_prefix_def q_def [symmetric] Let_def bm_new_def nth_list_update len nth)
  qed (use i in \<open>simp add: bm_prefix_def bm_new_def num_bytes_bound\<close>)
  then show "bm_bits (bm_prefix n p) = map (\<lambda>i. i < p) [0 ..< n]"
    using size by (intro bits_eqI) simp_all
qed


section \<open>What its users rely on\<close>

text \<open>
  The interface of the bitmap, as the prefetch code uses it: every operation is given by the
  list of bits of its arguments. What the users need of unions, prefixes and intersections
  is proved from it.
\<close>

locale bit_collection =
  fixes bits :: "'b \<Rightarrow> bool list" and ok :: "'b \<Rightarrow> bool"
    and empty :: "nat \<Rightarrow> 'b" and first :: "nat \<Rightarrow> nat \<Rightarrow> 'b"
    and conj :: "'b \<Rightarrow> 'b \<Rightarrow> 'b" and disj :: "'b \<Rightarrow> 'b \<Rightarrow> 'b" and neg :: "'b \<Rightarrow> 'b"
    and count :: "'b \<Rightarrow> nat" and ones :: "'b \<Rightarrow> nat"
  assumes bits_empty: "ok (empty n) \<and> bits (empty n) = replicate n False"
    and bits_first: "ok (first n p) \<and> bits (first n p) = map (\<lambda>i. i < p) [0 ..< n]"
    and bits_conj: "ok a \<Longrightarrow> ok b \<Longrightarrow> ok (conj a b) \<and> bits (conj a b) = map2 (\<and>) (bits a) (bits b)"
    and bits_disj: "ok a \<Longrightarrow> ok b \<Longrightarrow> ok (disj a b) \<and> bits (disj a b) = map2 (\<or>) (bits a) (bits b)"
    and bits_neg: "ok a \<Longrightarrow> ok (neg a) \<and> bits (neg a) = map Not (bits a)"
    and count_bits: "ok a \<Longrightarrow> count a = length (filter id (bits a))"
    and ones_bits: "ok a \<Longrightarrow> ones a = length (takeWhile id (bits a))"
begin

text \<open>A bitmap of n bits, as a set of indices below n.\<close>

definition means :: "nat \<Rightarrow> nat set \<Rightarrow> 'b \<Rightarrow> bool" where
  "means n X b \<longleftrightarrow> ok b \<and> length (bits b) = n \<and> X = {i. i < n \<and> bits b ! i}"

lemma means_below: "means n X b \<Longrightarrow> X \<subseteq> {..<n}"
  by (auto simp: means_def)

lemma means_empty: "means n {} (empty n)"
  using bits_empty [of n] by (simp add: means_def)

lemma means_first: "p \<le> n \<Longrightarrow> means n {..<p} (first n p)"
  using bits_first [of n p] by (auto simp: means_def)

lemma means_conj: "means n X a \<Longrightarrow> means n Y b \<Longrightarrow> means n (X \<inter> Y) (conj a b)"
  using bits_conj [of a b] by (auto simp: means_def)

lemma means_disj: "means n X a \<Longrightarrow> means n Y b \<Longrightarrow> means n (X \<union> Y) (disj a b)"
  using bits_disj [of a b] by (auto simp: means_def)

lemma means_neg: "means n X a \<Longrightarrow> means n ({..<n} - X) (neg a)"
  using bits_neg [of a] by (auto simp: means_def)

lemma means_count: "means n X b \<Longrightarrow> count b = 0 \<longleftrightarrow> X = {}"
  using count_bits [of b] by (auto simp: means_def filter_empty_conv in_set_conv_nth)

lemma means_union:
  assumes "list_all2 (means n) Xs bs" "means n X b"
  shows "means n (X \<union> \<Union> (set Xs)) (fold (\<lambda>c acc. disj acc c) bs b)"
  using assms
proof (induction arbitrary: X b rule: list_all2_induct)
  case (Cons Y Ys c cs)
  from Cons.IH [OF means_disj [OF Cons.prems Cons.hyps(1)]] show ?case by (simp add: Un_assoc)
qed simp

lemma takeWhile_ones: "length (takeWhile id xs) = m \<longleftrightarrow> m \<le> length xs \<and> (\<forall>i < m. xs ! i) \<and> (m < length xs \<longrightarrow> \<not> xs ! m)"
proof (induction xs arbitrary: m)
  case (Cons x xs)
  then show ?case by (cases m) (auto simp: less_Suc_eq_0_disj)
qed auto

lemma means_ones:
  assumes "means n X b"
  shows "ones b = m \<longleftrightarrow> m \<le> n \<and> {..<m} \<subseteq> X \<and> m \<notin> X"
  using assms ones_bits [of b] takeWhile_ones [of "bits b" m]
  by (auto simp: means_def subset_iff nat_less_le)

end

interpretation bm: bit_collection bm_bits bm_ok bm_new bm_prefix bm_and bm_or bm_not bm_popcount bm_clo
  by unfold_locales (simp_all add: bm_popcount_eq bm_clo_eq)

section \<open>Properties\<close>

text \<open>C34: The byte-level bitmap refines a list of booleans: with bm_bits as the abstraction, on well-formed
  bitmaps every operation commutes with it and keeps well-formedness: construction, also with a prefix set,
  set and clear (out of range they do nothing), test, popcount, the leading zeros and ones, and, or and
  complement (of different sizes: truncated to the shorter), the set indices in ascending order, and gather.\<close>

theorem bitmap_refines_bool_list:
  assumes "bm_ok a" "bm_ok b"
  shows "bm_bits (bm_new n) = replicate n False \<and> bm_ok (bm_new n) \<and>
    bm_bits (bm_prefix n p) = map (\<lambda>i. i < p) [0 ..< n] \<and> bm_ok (bm_prefix n p) \<and>
    bm_bits (bm_set i a) = (bm_bits a)[i := True] \<and> bm_ok (bm_set i a) \<and>
    bm_bits (bm_clear i a) = (bm_bits a)[i := False] \<and> bm_ok (bm_clear i a) \<and>
    bm_test i a = (i < length (bm_bits a) \<and> bm_bits a ! i) \<and>
    bm_popcount a = length (filter id (bm_bits a)) \<and>
    bm_clz a = length (takeWhile Not (bm_bits a)) \<and> bm_clo a = length (takeWhile id (bm_bits a)) \<and>
    bm_bits (bm_and a b) = map2 (\<and>) (bm_bits a) (bm_bits b) \<and> bm_ok (bm_and a b) \<and>
    bm_bits (bm_or a b) = map2 (\<or>) (bm_bits a) (bm_bits b) \<and> bm_ok (bm_or a b) \<and>
    bm_bits (bm_not a) = map Not (bm_bits a) \<and> bm_ok (bm_not a) \<and>
    bm_get_indices a = filter (\<lambda>i. bm_bits a ! i) [0 ..< length (bm_bits a)] \<and>
    bm_gather a items = map snd (filter fst (zip (bm_bits a) items))"
  using assms by (simp add: bm_popcount_eq bm_clz_eq bm_clo_eq bm_get_indices_eq bm_gather_eq)

theorem bitmap_refines_bool_list_witness:
  "bm_clo (bm_set 2 (bm_prefix 11 9)) = 9 \<and>
   bm_gather (bm_set 2 (bm_prefix 11 1)) [''a'', ''b'', ''c'', ''d''] = [''a'', ''c'']"
proof -
  have b: "bm_bits (bm_set 2 (bm_prefix 11 9)) = replicate 9 True @ replicate 2 False"
    "bm_bits (bm_set 2 (bm_prefix 11 1)) = [True, False, True] @ replicate 8 False" by code_simp+
  have "length (takeWhile id (replicate 9 True @ replicate 2 False)) = 9"
    "map snd (filter fst (zip ([True, False, True] @ replicate 8 False) [''a'', ''b'', ''c'', ''d''])) = [''a'', ''c'']"
    by code_simp+
  moreover have ok: "bm_ok (bm_set 2 (bm_prefix 11 9))" "bm_ok (bm_set 2 (bm_prefix 11 1))" by simp_all
  moreover have "bm_clo (bm_set 2 (bm_prefix 11 9)) = length (takeWhile id (bm_bits (bm_set 2 (bm_prefix 11 9))))"
    using bitmap_refines_bool_list [OF ok(1) ok(1), of 0 0 0 "[] :: nat list"] by blast
  moreover have "bm_gather (bm_set 2 (bm_prefix 11 1)) [''a'', ''b'', ''c'', ''d''] =
      map snd (filter fst (zip (bm_bits (bm_set 2 (bm_prefix 11 1))) [''a'', ''b'', ''c'', ''d'']))"
    using bitmap_refines_bool_list [OF ok(2) ok(2), of 0 0 0 "[''a'', ''b'', ''c'', ''d'']"] by blast
  ultimately show ?thesis by (simp only: b simp_thms)
qed

end
