(* ===== verification/L2_Adapter.thy ===== *)
theory L2_Adapter
  imports Prelude Bitmap
begin

text \<open>
  The interface of an L2 adapter (lmcache/v1/distributed/l2_adapters/base.py), as a record of
  its operations over a state of the adapter's own, with the laws the controllers rely on as
  a locale, and the in-memory adapter of mock_l2_adapter.py, which satisfies them. The
  adapter's work is done by callbacks and coroutines on an event loop of its own: they wait
  in a pool and run one at a time in any order, and a coroutine that sleeps to simulate
  bandwidth completes any time later.
\<close>

section \<open>The interface\<close>

record ('k, 'a) l2_ops =
  l2_submit_store_task :: "'k list \<Rightarrow> nat list \<Rightarrow> 'a \<Rightarrow> int \<times> 'a"
  l2_pop_completed_store_tasks :: "'a \<Rightarrow> (int, bool) dict \<times> 'a"
  l2_submit_lookup_and_lock_task :: "'k list \<Rightarrow> 'a \<Rightarrow> int \<times> 'a"
  l2_query_lookup_and_lock_result :: "int \<Rightarrow> 'a \<Rightarrow> bitmap option \<times> 'a"
  l2_submit_unlock :: "'k list \<Rightarrow> 'a \<Rightarrow> 'a"
  l2_submit_load_task :: "'k list \<Rightarrow> nat list \<Rightarrow> 'a \<Rightarrow> int \<times> 'a"
  l2_query_load_result :: "int \<Rightarrow> 'a \<Rightarrow> bitmap option \<times> 'a"

text \<open>
  Task identifiers are never reused: every submission returns one that was not issued before.
\<close>

locale l2_adapter =
  fixes ops :: "('k, 'a) l2_ops" and issued :: "'a \<Rightarrow> int set"
  assumes store_fresh: "l2_submit_store_task ops ks rs a = (t, a') \<Longrightarrow> t \<notin> issued a \<and> issued a' = insert t (issued a)"
    and lookup_fresh: "l2_submit_lookup_and_lock_task ops ks a = (t, a') \<Longrightarrow> t \<notin> issued a \<and> issued a' = insert t (issued a)"
    and load_fresh: "l2_submit_load_task ops ks rs a = (t, a') \<Longrightarrow> t \<notin> issued a \<and> issued a' = insert t (issued a)"
    and pop_issued: "l2_pop_completed_store_tasks ops a = (d, a') \<Longrightarrow> issued a' = issued a"
    and query_lookup_issued: "l2_query_lookup_and_lock_result ops t a = (r, a') \<Longrightarrow> issued a' = issued a"
    and unlock_issued: "issued (l2_submit_unlock ops ks a) = issued a"
    and query_load_issued: "l2_query_load_result ops t a = (r, a') \<Longrightarrow> issued a' = issued a"
begin

text \<open>What was issued stays issued, whatever is called.\<close>

lemma issued_mono:
  "l2_submit_store_task ops ks rs a = (t, a') \<Longrightarrow> issued a \<subseteq> issued a'"
  "l2_submit_lookup_and_lock_task ops ks a = (t, a') \<Longrightarrow> issued a \<subseteq> issued a'"
  "l2_submit_load_task ops ks rs a = (t, a') \<Longrightarrow> issued a \<subseteq> issued a'"
  using store_fresh lookup_fresh load_fresh by blast+

text \<open>A task that is tracked under an issued identifier is not overwritten by a submission.\<close>

lemma store_keeps_tracked:
  assumes "l2_submit_store_task ops ks rs a = (t, a')" "set (dict_keys d) \<subseteq> issued a"
  shows "map_of (dict_set t x d) q = (if q = t then Some x else map_of d q) \<and> map_of d t = None \<and>
    set (dict_keys (dict_set t x d)) \<subseteq> issued a'"
  using store_fresh [OF assms(1)] assms(2) set_dict_keys_set [of t x d] dict_in_keys_iff [of t d]
  by (auto simp: dict_simps)

end

section \<open>The mock adapter\<close>

text \<open>
  A stored object is its size and its data. A submitted task waits with its arguments; the
  memory objects are references, read or written when the task runs.
\<close>

datatype 'k mock_job =
    StoreJob "'k list" "nat list" int
  | LookupJob "'k list" int
  | UnlockJob "'k list"
  | LoadJob "'k list" "nat list" int

datatype mock_sleeping =
    StoreDone int bool
  | LoadDone int bitmap

record ('k, 'd) mock =
  mk_capacity :: int
  mk_objects :: "('k, int \<times> 'd) dict"
  mk_queue :: "'k list"
  mk_locked :: "('k, int) dict"
  mk_size :: int
  mk_next_id :: int
  mk_store_done :: "(int, bool) dict"
  mk_lookup_done :: "(int, bitmap) dict"
  mk_load_done :: "(int, bitmap) dict"
  mk_jobs :: "'k mock_job list"
  mk_sleeping :: "mock_sleeping list"

definition mock_init :: "int \<Rightarrow> ('k, 'd) mock" where
  "mock_init capacity = \<lparr>mk_capacity = capacity, mk_objects = [], mk_queue = [], mk_locked = [], mk_size = 0,
     mk_next_id = 0, mk_store_done = [], mk_lookup_done = [], mk_load_done = [], mk_jobs = [], mk_sleeping = []\<rparr>"

definition get_next_task_id :: "('k, 'd) mock \<Rightarrow> int \<times> ('k, 'd) mock" where
  "get_next_task_id a = (mk_next_id a, a\<lparr>mk_next_id := mk_next_id a + 1\<rparr>)"

definition mock_submit_store_task :: "'k list \<Rightarrow> nat list \<Rightarrow> ('k, 'd) mock \<Rightarrow> int \<times> ('k, 'd) mock" where
  "mock_submit_store_task keys refs a =
     (case get_next_task_id a of (t, a1) \<Rightarrow> (t, a1\<lparr>mk_jobs := mk_jobs a1 @ [StoreJob keys refs t]\<rparr>))"

definition mock_pop_completed_store_tasks :: "('k, 'd) mock \<Rightarrow> (int, bool) dict \<times> ('k, 'd) mock" where
  "mock_pop_completed_store_tasks a = (mk_store_done a, a\<lparr>mk_store_done := []\<rparr>)"

definition mock_submit_lookup_and_lock_task :: "'k list \<Rightarrow> ('k, 'd) mock \<Rightarrow> int \<times> ('k, 'd) mock" where
  "mock_submit_lookup_and_lock_task keys a =
     (case get_next_task_id a of (t, a1) \<Rightarrow> (t, a1\<lparr>mk_jobs := mk_jobs a1 @ [LookupJob keys t]\<rparr>))"

definition mock_query_lookup_and_lock_result :: "int \<Rightarrow> ('k, 'd) mock \<Rightarrow> bitmap option \<times> ('k, 'd) mock" where
  "mock_query_lookup_and_lock_result t a =
     (case dict_pop t (mk_lookup_done a) of (r, d) \<Rightarrow> (r, a\<lparr>mk_lookup_done := d\<rparr>))"

definition mock_submit_unlock :: "'k list \<Rightarrow> ('k, 'd) mock \<Rightarrow> ('k, 'd) mock" where
  "mock_submit_unlock keys a = a\<lparr>mk_jobs := mk_jobs a @ [UnlockJob keys]\<rparr>"

definition mock_submit_load_task :: "'k list \<Rightarrow> nat list \<Rightarrow> ('k, 'd) mock \<Rightarrow> int \<times> ('k, 'd) mock" where
  "mock_submit_load_task keys refs a =
     (case get_next_task_id a of (t, a1) \<Rightarrow> (t, a1\<lparr>mk_jobs := mk_jobs a1 @ [LoadJob keys refs t]\<rparr>))"

definition mock_query_load_result :: "int \<Rightarrow> ('k, 'd) mock \<Rightarrow> bitmap option \<times> ('k, 'd) mock" where
  "mock_query_load_result t a =
     (case dict_pop t (mk_load_done a) of (r, d) \<Rightarrow> (r, a\<lparr>mk_load_done := d\<rparr>))"

definition mock_ops :: "('k, ('k, 'd) mock) l2_ops" where
  "mock_ops = \<lparr>l2_submit_store_task = mock_submit_store_task,
     l2_pop_completed_store_tasks = mock_pop_completed_store_tasks,
     l2_submit_lookup_and_lock_task = mock_submit_lookup_and_lock_task,
     l2_query_lookup_and_lock_result = mock_query_lookup_and_lock_result,
     l2_submit_unlock = mock_submit_unlock,
     l2_submit_load_task = mock_submit_load_task,
     l2_query_load_result = mock_query_load_result\<rparr>"

subsection \<open>The work on the event loop\<close>

definition key_locked :: "'k \<Rightarrow> ('k, 'd) mock \<Rightarrow> bool" where
  "key_locked k a \<longleftrightarrow> 0 < (case map_of (mk_locked a) k of None \<Rightarrow> 0 | Some n \<Rightarrow> n)"

text \<open>The while loop of _evict_if_needed; its counter is keys_to_check.\<close>

fun evict_loop :: "nat \<Rightarrow> int \<Rightarrow> ('k, 'd) mock \<Rightarrow> (unit, ('k, 'd) mock) outcome" where
  "evict_loop 0 required_bytes a = (Inr (), a)"
| "evict_loop (Suc keys_to_check) required_bytes a =
     (if mk_capacity a < mk_size a + required_bytes
      then case mk_queue a of
        [] \<Rightarrow> (Inl IndexError, a)
      | k # q \<Rightarrow>
          if key_locked k a then evict_loop keys_to_check required_bytes (a\<lparr>mk_queue := q @ [k]\<rparr>)
          else (case map_of (mk_objects a) k of
                  None \<Rightarrow> evict_loop keys_to_check required_bytes (a\<lparr>mk_queue := q\<rparr>)
                | Some (n, d) \<Rightarrow> evict_loop keys_to_check required_bytes
                    (a\<lparr>mk_queue := q, mk_objects := dict_del k (mk_objects a), mk_size := mk_size a - n\<rparr>))
      else (Inr (), a))"

definition evict_if_needed :: "int \<Rightarrow> ('k, 'd) mock \<Rightarrow> (unit, ('k, 'd) mock) outcome" where
  "evict_if_needed required_bytes a =
     (case evict_loop (length (mk_queue a)) required_bytes a of
        (Inl e, a') \<Rightarrow> (Inl e, a')
      | (Inr _, a') \<Rightarrow>
          if mk_capacity a' < mk_size a' + required_bytes then (Inl MemoryError, a') else (Inr (), a'))"

text \<open>
  The loop of _execute_store_in_the_loop: read gives an object's size and data, or no data
  when its tensor is gone. Any exception ends the loop and makes the task fail.
\<close>

fun store_loop :: "(nat \<Rightarrow> int \<times> 'd option) \<Rightarrow> ('k \<times> nat) list \<Rightarrow> ('k, 'd) mock \<Rightarrow> bool \<times> ('k, 'd) mock" where
  "store_loop read_obj [] a = (True, a)"
| "store_loop read_obj ((k, r) # xs) a =
     (case read_obj r of (obj_size, data) \<Rightarrow>
        if mk_capacity a < obj_size then store_loop read_obj xs a
        else if map_of (mk_objects a) k \<noteq> None then store_loop read_obj xs a
        else case evict_if_needed obj_size a of
          (Inl e, a') \<Rightarrow> (False, a')
        | (Inr _, a') \<Rightarrow>
            (case data of
               None \<Rightarrow> (False, a')
             | Some d \<Rightarrow> store_loop read_obj xs
                 (a'\<lparr>mk_objects := dict_set k (obj_size, d) (mk_objects a'), mk_queue := mk_queue a' @ [k],
                     mk_size := mk_size a' + obj_size\<rparr>)))"

definition execute_store :: "(nat \<Rightarrow> int \<times> 'd option) \<Rightarrow> 'k list \<Rightarrow> nat list \<Rightarrow> int \<Rightarrow> ('k, 'd) mock \<Rightarrow> ('k, 'd) mock" where
  "execute_store read_obj keys refs t a =
     (case store_loop read_obj (zip keys refs) a of
        (success, a') \<Rightarrow> a'\<lparr>mk_sleeping := mk_sleeping a' @ [StoreDone t success]\<rparr>)"

definition lookup_step :: "nat \<times> 'k \<Rightarrow> bitmap \<times> ('k, 'd) mock \<Rightarrow> bitmap \<times> ('k, 'd) mock" where
  "lookup_step x s =
     (case x of (i, k) \<Rightarrow>
        if map_of (mk_objects (snd s)) k = None then s
        else (bm_set i (fst s),
              (snd s)\<lparr>mk_locked := dict_set k ((case map_of (mk_locked (snd s)) k of None \<Rightarrow> 0 | Some n \<Rightarrow> n) + 1)
                 (mk_locked (snd s))\<rparr>))"

definition execute_lookup :: "'k list \<Rightarrow> int \<Rightarrow> ('k, 'd) mock \<Rightarrow> ('k, 'd) mock" where
  "execute_lookup keys t a =
     (case fold lookup_step (enumerate 0 keys) (bm_new (length keys), a) of
        (b, a') \<Rightarrow> a'\<lparr>mk_lookup_done := dict_set t b (mk_lookup_done a')\<rparr>)"

definition unlock_step :: "'k \<Rightarrow> ('k, int) dict \<Rightarrow> ('k, int) dict" where
  "unlock_step k d =
     (case map_of d k of
        None \<Rightarrow> d
      | Some n \<Rightarrow> if n \<le> 1 then dict_del k d else dict_set k (n - 1) d)"

definition execute_unlock :: "'k list \<Rightarrow> ('k, 'd) mock \<Rightarrow> ('k, 'd) mock" where
  "execute_unlock keys a = a\<lparr>mk_locked := fold unlock_step keys (mk_locked a)\<rparr>"

text \<open>
  The loop of _execute_load_in_loop: alive says whether a destination still has a tensor; the
  copies are what it writes into the destinations. An assertion that fails kills the
  coroutine before it reports.
\<close>

fun load_loop :: "(nat \<Rightarrow> bool) \<Rightarrow> nat list \<Rightarrow> ('k, 'd) mock \<Rightarrow> (nat \<times> 'k) list \<Rightarrow> bitmap \<Rightarrow> (nat \<times> 'd) list
    \<Rightarrow> (py_error + bitmap) \<times> (nat \<times> 'd) list" where
  "load_loop alive refs a [] b copies = (Inr b, copies)"
| "load_loop alive refs a ((i, k) # xs) b copies =
     (case map_of (mk_objects a) k of
        None \<Rightarrow> load_loop alive refs a xs b copies
      | Some (n, d) \<Rightarrow>
          if length refs \<le> i then (Inl IndexError, copies)
          else if \<not> alive (refs ! i) then (Inl AssertionError, copies)
          else load_loop alive refs a xs (bm_set i b) (copies @ [(refs ! i, d)]))"

definition execute_load :: "(nat \<Rightarrow> bool) \<Rightarrow> 'k list \<Rightarrow> nat list \<Rightarrow> int \<Rightarrow> ('k, 'd) mock \<Rightarrow> (nat \<times> 'd) list \<times> ('k, 'd) mock" where
  "execute_load alive keys refs t a =
     (case load_loop alive refs a (enumerate 0 keys) (bm_new (length keys)) [] of
        (Inl e, copies) \<Rightarrow> (copies, a)
      | (Inr b, copies) \<Rightarrow> (copies, a\<lparr>mk_sleeping := mk_sleeping a @ [LoadDone t b]\<rparr>))"

definition drop_nth :: "nat \<Rightarrow> 'x list \<Rightarrow> 'x list" where
  "drop_nth i xs = take i xs @ drop (Suc i) xs"

text \<open>One turn of the event loop: the waiting job at i runs, or the sleeping coroutine at i reports.\<close>

definition run_job :: "(nat \<Rightarrow> int \<times> 'd option) \<Rightarrow> nat \<Rightarrow> ('k, 'd) mock \<Rightarrow> (nat \<times> 'd) list \<times> ('k, 'd) mock" where
  "run_job read_obj i a =
     (if i < length (mk_jobs a)
      then let a1 = a\<lparr>mk_jobs := drop_nth i (mk_jobs a)\<rparr>
           in case mk_jobs a ! i of
                StoreJob keys refs t \<Rightarrow> ([], execute_store read_obj keys refs t a1)
              | LookupJob keys t \<Rightarrow> ([], execute_lookup keys t a1)
              | UnlockJob keys \<Rightarrow> ([], execute_unlock keys a1)
              | LoadJob keys refs t \<Rightarrow> execute_load (\<lambda>r. snd (read_obj r) \<noteq> None) keys refs t a1
      else ([], a))"

definition wake :: "nat \<Rightarrow> ('k, 'd) mock \<Rightarrow> ('k, 'd) mock" where
  "wake i a =
     (if i < length (mk_sleeping a)
      then let a1 = a\<lparr>mk_sleeping := drop_nth i (mk_sleeping a)\<rparr>
           in case mk_sleeping a ! i of
                StoreDone t success \<Rightarrow> a1\<lparr>mk_store_done := dict_set t success (mk_store_done a1)\<rparr>
              | LoadDone t b \<Rightarrow> a1\<lparr>mk_load_done := dict_set t b (mk_load_done a1)\<rparr>
      else a)"

record mock_status =
  ms_stored_object_count :: nat
  ms_locked_key_count :: nat
  ms_current_size_bytes :: int
  ms_max_capacity_bytes :: int

definition mock_report_status :: "('k, 'd) mock \<Rightarrow> mock_status" where
  "mock_report_status a = \<lparr>ms_stored_object_count = length (mk_objects a), ms_locked_key_count = length (mk_locked a),
     ms_current_size_bytes = mk_size a, ms_max_capacity_bytes = mk_capacity a\<rparr>"


section \<open>The laws hold for the mock adapter\<close>

interpretation mock: l2_adapter mock_ops "\<lambda>a. {t. t < mk_next_id a}"
  by unfold_locales
    (auto simp: mock_ops_def mock_submit_store_task_def mock_submit_lookup_and_lock_task_def mock_submit_load_task_def
      mock_pop_completed_store_tasks_def mock_query_lookup_and_lock_result_def mock_submit_unlock_def
      mock_query_load_result_def get_next_task_id_def dict_pop_def)

section \<open>The store of the mock adapter\<close>

definition mock_ok :: "('k, 'd) mock \<Rightarrow> bool" where
  "mock_ok a \<longleftrightarrow> distinct (dict_keys (mk_objects a)) \<and> distinct (mk_queue a) \<and>
     set (mk_queue a) = set (dict_keys (mk_objects a)) \<and>
     mk_size a = sum_list (map (fst \<circ> snd) (mk_objects a)) \<and> mk_size a \<le> mk_capacity a \<and>
     distinct (dict_keys (mk_locked a)) \<and>
     (\<forall>k n. map_of (mk_locked a) k = Some n \<longrightarrow> 1 \<le> n \<and> k \<in> set (dict_keys (mk_objects a)))"

text \<open>What both loops keep: the capacity, the locks, and every locked object.\<close>

definition keeps_locked :: "('k, 'd) mock \<Rightarrow> ('k, 'd) mock \<Rightarrow> bool" where
  "keeps_locked a b \<longleftrightarrow> mk_capacity b = mk_capacity a \<and> mk_locked b = mk_locked a \<and>
     (\<forall>k x. key_locked k a \<longrightarrow> map_of (mk_objects a) k = Some x \<longrightarrow> map_of (mk_objects b) k = Some x)"

lemma keeps_locked_trans: "keeps_locked a b \<Longrightarrow> keeps_locked b c \<Longrightarrow> keeps_locked a c"
  by (auto simp: keeps_locked_def key_locked_def)

lemma locked_conv: "mock_ok a \<Longrightarrow> key_locked k a \<longleftrightarrow> map_of (mk_locked a) k \<noteq> None"
  by (force simp: mock_ok_def key_locked_def split: option.splits)

text \<open>The table with k evicted from the front of the queue.\<close>

lemma evict_one_ok:
  assumes "mock_ok a" "mk_queue a = k # q" "\<not> key_locked k a" "map_of (mk_objects a) k = Some (n, d)" "0 \<le> n"
  shows "mock_ok (a\<lparr>mk_queue := q, mk_objects := dict_del k (mk_objects a), mk_size := mk_size a - n\<rparr>)"
    and "keeps_locked a (a\<lparr>mk_queue := q, mk_objects := dict_del k (mk_objects a), mk_size := mk_size a - n\<rparr>)"
proof -
  have "k \<notin> set q" "insert k (set q) = set (dict_keys (mk_objects a))" using assms(1,2) by (simp_all add: mock_ok_def)
  then have q: "set q = set (dict_keys (mk_objects a)) - {k}" by blast
  have l: "map_of (mk_locked a) k = None" using assms(3) locked_conv [OF assms(1), of k] by simp
  have "1 \<le> m \<and> i \<in> set (dict_keys (dict_del k (mk_objects a)))" if i: "map_of (mk_locked a) i = Some m" for i m
  proof -
    have "i \<noteq> k" using i l by auto
    then show ?thesis using assms(1) i unfolding mock_ok_def set_dict_keys_del by blast
  qed
  moreover have "mk_size a - n = sum_list (map (fst \<circ> snd) (dict_del k (mk_objects a)))"
    using assms(1) dict_sum_del [OF _ assms(4), of "fst \<circ> snd"] by (simp add: mock_ok_def)
  moreover have "set q = set (dict_keys (dict_del k (mk_objects a)))" unfolding set_dict_keys_del by (rule q)
  moreover have "distinct q" "distinct (dict_keys (dict_del k (mk_objects a)))" "mk_size a - n \<le> mk_capacity a"
    "distinct (dict_keys (mk_locked a))"
    using assms(1,2,5) distinct_dict_del by (simp_all add: mock_ok_def)
  ultimately show "mock_ok (a\<lparr>mk_queue := q, mk_objects := dict_del k (mk_objects a), mk_size := mk_size a - n\<rparr>)"
    unfolding mock_ok_def by simp
  show "keeps_locked a (a\<lparr>mk_queue := q, mk_objects := dict_del k (mk_objects a), mk_size := mk_size a - n\<rparr>)"
    using assms(3) by (auto simp: keeps_locked_def key_locked_def dict_simps)
qed

lemma rotate_ok:
  assumes "mock_ok a" "mk_queue a = k # q"
  shows "mock_ok (a\<lparr>mk_queue := q @ [k]\<rparr>)" "keeps_locked a (a\<lparr>mk_queue := q @ [k]\<rparr>)"
  using assms by (auto simp: mock_ok_def keeps_locked_def key_locked_def)

definition sizes_ok :: "('k, 'd) mock \<Rightarrow> bool" where
  "sizes_ok a \<longleftrightarrow> (\<forall>k n d. map_of (mk_objects a) k = Some (n, d) \<longrightarrow> 0 \<le> n)"

lemma evict_loop_ok:
  "mock_ok a \<Longrightarrow> sizes_ok a \<Longrightarrow> n \<le> length (mk_queue a) \<Longrightarrow>
    \<exists>a'. evict_loop n b a = (Inr (), a') \<and> mock_ok a' \<and> sizes_ok a' \<and> keeps_locked a a' \<and>
      (\<forall>k. map_of (mk_objects a) k = None \<longrightarrow> map_of (mk_objects a') k = None)"
proof (induction n b a rule: evict_loop.induct)
  case (1 b a)
  then show ?case by (simp add: keeps_locked_def)
next
  case (2 n b a)
  show ?case
  proof (cases "mk_capacity a < mk_size a + b")
    case True
    obtain k q where q: "mk_queue a = k # q" using 2(5,6) by (cases "mk_queue a") auto
    then have "k \<in> set (dict_keys (mk_objects a))" using 2(4) by (auto simp: mock_ok_def)
    then obtain m d where obj: "map_of (mk_objects a) k = Some (m, d)"
      unfolding dict_in_keys_iff by auto
    show ?thesis
    proof (cases "key_locked k a")
      case locked: True
      let ?b = "a\<lparr>mk_queue := q @ [k]\<rparr>"
      have "sizes_ok ?b" using 2(5) by (simp add: sizes_ok_def)
      then obtain a' where "evict_loop n b ?b = (Inr (), a')" "mock_ok a'" "sizes_ok a'" "keeps_locked ?b a'"
        "\<forall>k. map_of (mk_objects a) k = None \<longrightarrow> map_of (mk_objects a') k = None"
        using 2(1) [OF True q locked rotate_ok(1) [OF 2(4) q]] 2(6) q by auto
      then show ?thesis using True q locked keeps_locked_trans [OF rotate_ok(2) [OF 2(4) q]] by auto
    next
      case free: False
      let ?b = "a\<lparr>mk_queue := q, mk_objects := dict_del k (mk_objects a), mk_size := mk_size a - m\<rparr>"
      have "0 \<le> m" using 2(5) obj by (auto simp: sizes_ok_def)
      note one = evict_one_ok [OF 2(4) q free obj this]
      have "sizes_ok ?b" using 2(5) by (auto simp: sizes_ok_def dict_simps split: if_splits)
      then obtain a' where "evict_loop n b ?b = (Inr (), a')" "mock_ok a'" "sizes_ok a'" "keeps_locked ?b a'"
        "\<forall>i. map_of (dict_del k (mk_objects a)) i = None \<longrightarrow> map_of (mk_objects a') i = None"
        using 2(3) [OF True q free obj refl one(1)] 2(6) q by auto
      then show ?thesis using True q free obj keeps_locked_trans [OF one(2)] by (auto simp: dict_simps)
    qed
  qed (use 2 in \<open>simp add: keeps_locked_def\<close>)
qed


lemma evict_if_needed_ok:
  assumes "mock_ok a" "sizes_ok a" "evict_if_needed b a = (r, a')"
  shows "mock_ok a' \<and> sizes_ok a' \<and> keeps_locked a a' \<and>
    (\<forall>k. map_of (mk_objects a) k = None \<longrightarrow> map_of (mk_objects a') k = None) \<and>
    (r = Inr () \<longrightarrow> mk_size a' + b \<le> mk_capacity a')"
  using evict_loop_ok [OF assms(1,2) le_refl, of b] assms(3)
  by (auto simp: evict_if_needed_def split: if_splits)

lemma insert_ok:
  assumes "mock_ok a" "map_of (mk_objects a) k = None" "mk_size a + n \<le> mk_capacity a"
  shows "mock_ok (a\<lparr>mk_objects := dict_set k (n, d) (mk_objects a), mk_queue := mk_queue a @ [k], mk_size := mk_size a + n\<rparr>)"
    and "keeps_locked a (a\<lparr>mk_objects := dict_set k (n, d) (mk_objects a), mk_queue := mk_queue a @ [k], mk_size := mk_size a + n\<rparr>)"
proof -
  have "k \<notin> set (mk_queue a)" using assms(1,2) dict_in_keys_iff [of k "mk_objects a"] by (simp add: mock_ok_def)
  moreover have "mk_size a + n = sum_list (map (fst \<circ> snd) (dict_set k (n, d) (mk_objects a)))"
    using assms(1) dict_sum_new [OF assms(2), of "fst \<circ> snd"] by (simp add: mock_ok_def)
  moreover have "set (mk_queue a @ [k]) = set (dict_keys (dict_set k (n, d) (mk_objects a)))"
    unfolding set_dict_keys_set using assms(1) by (simp add: mock_ok_def)
  moreover have "1 \<le> m \<and> i \<in> set (dict_keys (dict_set k (n, d) (mk_objects a)))" if "map_of (mk_locked a) i = Some m" for i m
    using assms(1) that unfolding mock_ok_def set_dict_keys_set by blast
  moreover have "distinct (mk_queue a)" "distinct (dict_keys (dict_set k (n, d) (mk_objects a)))" "distinct (dict_keys (mk_locked a))"
    using assms(1) distinct_dict_set by (simp_all add: mock_ok_def)
  ultimately show "mock_ok (a\<lparr>mk_objects := dict_set k (n, d) (mk_objects a), mk_queue := mk_queue a @ [k], mk_size := mk_size a + n\<rparr>)"
    using assms(3) unfolding mock_ok_def by simp
  show "keeps_locked a (a\<lparr>mk_objects := dict_set k (n, d) (mk_objects a), mk_queue := mk_queue a @ [k], mk_size := mk_size a + n\<rparr>)"
    using assms(2) by (auto simp: keeps_locked_def key_locked_def dict_simps)
qed

lemma store_loop_ok:
  assumes "\<forall>r. 0 \<le> fst (read_obj r)"
  shows "mock_ok a \<Longrightarrow> sizes_ok a \<Longrightarrow> store_loop read_obj xs a = (success, a') \<Longrightarrow>
    mock_ok a' \<and> sizes_ok a' \<and> keeps_locked a a'"
proof (induction xs arbitrary: a)
  case Nil
  then show ?case by (simp add: keeps_locked_def)
next
  case (Cons x xs)
  obtain k r where x: "x = (k, r)" by (cases x)
  obtain n d where rd: "read_obj r = (n, d)" by (cases "read_obj r")
  have n: "0 \<le> n" using assms rd by (metis fst_conv)
  show ?case
  proof (cases "mk_capacity a < n \<or> map_of (mk_objects a) k \<noteq> None")
    case True
    then have "store_loop read_obj (x # xs) a = store_loop read_obj xs a" using rd by (auto simp: x)
    then show ?thesis using Cons by metis
  next
    case False
    obtain e a1 where ev: "evict_if_needed n a = (e, a1)" by (cases "evict_if_needed n a")
    note ok = evict_if_needed_ok [OF Cons.prems(1,2) ev]
    show ?thesis
    proof (cases "\<exists>x. e = Inr () \<and> d = Some x")
      case fail: False
      then have "a' = a1" using Cons.prems(3) False rd ev by (cases e; cases d) (auto simp: x)
      then show ?thesis using ok by simp
    next
      case True
      then obtain y where y: "e = Inr ()" "d = Some y" by blast
      let ?b = "a1\<lparr>mk_objects := dict_set k (n, y) (mk_objects a1), mk_queue := mk_queue a1 @ [k], mk_size := mk_size a1 + n\<rparr>"
      have "map_of (mk_objects a) k = None" using False by (simp only: de_Morgan_disj not_not)
      then have "map_of (mk_objects a1) k = None" "mk_size a1 + n \<le> mk_capacity a1" using ok y(1) by simp_all
      note ins = insert_ok [OF conjunct1 [OF ok] this, of y]
      have "sizes_ok ?b" using ok n by (auto simp: sizes_ok_def dict_simps)
      moreover have "store_loop read_obj xs ?b = (success, a')" using Cons.prems(3) False rd ev y by (simp add: x)
      ultimately have "mock_ok a' \<and> sizes_ok a' \<and> keeps_locked ?b a'" using Cons.IH ins(1) by blast
      then show ?thesis using ok ins(2) keeps_locked_trans by blast
    qed
  qed
qed

text \<open>The other jobs do not touch the objects.\<close>

lemma lookup_step_ok:
  "mock_ok (snd s) \<Longrightarrow> mock_ok (snd (lookup_step x s)) \<and> mk_objects (snd (lookup_step x s)) = mk_objects (snd s) \<and>
    (\<forall>k. key_locked k (snd s) \<longrightarrow> key_locked k (snd (lookup_step x s)))"
proof (cases x; cases "map_of (mk_objects (snd s)) (snd x)")
  fix i k y assume x: "x = (i, k)" and obj: "map_of (mk_objects (snd s)) (snd x) = Some y" and ok: "mock_ok (snd s)"
  have "1 \<le> (case map_of (mk_locked (snd s)) k of None \<Rightarrow> 0 | Some n \<Rightarrow> n) + 1"
    using ok by (force simp: mock_ok_def split: option.splits)
  moreover have "k \<in> set (dict_keys (mk_objects (snd s)))" by (rule map_of_SomeD_keys [of _ _ y]) (use obj x in simp)
  ultimately show ?thesis using ok obj
    by (auto simp: mock_ok_def lookup_step_def x dict_simps key_locked_def split: if_splits option.splits)
qed (auto simp: lookup_step_def)

lemma lookup_loop_ok:
  "mock_ok (snd s) \<Longrightarrow> mock_ok (snd (fold lookup_step xs s)) \<and> mk_objects (snd (fold lookup_step xs s)) = mk_objects (snd s) \<and>
    (\<forall>k. key_locked k (snd s) \<longrightarrow> key_locked k (snd (fold lookup_step xs s)))"
proof (induction xs arbitrary: s)
  case (Cons x xs)
  from Cons.IH [of "lookup_step x s"] lookup_step_ok [OF Cons.prems, of x] show ?case by simp
qed simp

definition locks_ok :: "'k set \<Rightarrow> ('k, int) dict \<Rightarrow> bool" where
  "locks_ok K d \<longleftrightarrow> distinct (dict_keys d) \<and> (\<forall>k n. map_of d k = Some n \<longrightarrow> 1 \<le> n \<and> k \<in> K)"

lemma unlock_step_locks: "locks_ok K d \<Longrightarrow> locks_ok K (unlock_step k d)"
proof -
  assume l: "locks_ok K d"
  then have "distinct (dict_keys (unlock_step k d))" by (auto simp: locks_ok_def unlock_step_def split: option.splits)
  moreover have "\<forall>k n. map_of d k = Some n \<longrightarrow> 1 \<le> n \<and> k \<in> K" using l by (simp add: locks_ok_def)
  then have "\<forall>i n. map_of (unlock_step k d) i = Some n \<longrightarrow> 1 \<le> n \<and> i \<in> K"
    by (auto simp: unlock_step_def dict_simps split: option.splits if_splits)
  ultimately show ?thesis unfolding locks_ok_def by blast
qed

lemma unlock_loop_locks: "locks_ok K d \<Longrightarrow> locks_ok K (fold unlock_step ks d)"
  by (induction ks arbitrary: d) (simp_all add: unlock_step_locks)

lemma mock_ok_locks: "mock_ok a \<Longrightarrow> locks_ok (set (dict_keys (mk_objects a))) (mk_locked a)"
  unfolding mock_ok_def locks_ok_def by blast

lemma relocked_ok:
  "mock_ok a \<Longrightarrow> locks_ok (set (dict_keys (mk_objects a))) d \<Longrightarrow> mock_ok (a\<lparr>mk_locked := d\<rparr>)"
  unfolding mock_ok_def locks_ok_def by (cases a) (simp only: mock.select_convs mock.update_convs, blast)

text \<open>A change of the queues and results only.\<close>

definition same_store :: "('k, 'd) mock \<Rightarrow> ('k, 'd) mock \<Rightarrow> bool" where
  "same_store a b \<longleftrightarrow> mk_capacity b = mk_capacity a \<and> mk_objects b = mk_objects a \<and> mk_queue b = mk_queue a \<and>
     mk_size b = mk_size a \<and> mk_locked b = mk_locked a"

lemma same_store_ok: "same_store a b \<Longrightarrow> (mock_ok b \<longleftrightarrow> mock_ok a) \<and> (sizes_ok b \<longleftrightarrow> sizes_ok a)"
  by (simp add: same_store_def mock_ok_def sizes_ok_def)

lemma execute_lookup_ok:
  assumes "mock_ok a"
  shows "mock_ok (execute_lookup ks t a) \<and> mk_objects (execute_lookup ks t a) = mk_objects a"
proof -
  obtain b a' where f: "fold lookup_step (enumerate 0 ks) (bm_new (length ks), a) = (b, a')"
    by (cases "fold lookup_step (enumerate 0 ks) (bm_new (length ks), a)")
  have s: "same_store a' (execute_lookup ks t a)" by (simp add: execute_lookup_def f same_store_def)
  have "mock_ok a'" "mk_objects a' = mk_objects a"
    using lookup_loop_ok [of "(bm_new (length ks), a)" "enumerate 0 ks"] assms unfolding f snd_conv by blast+
  then show ?thesis using same_store_ok [OF s] s by (simp add: same_store_def)
qed

lemma execute_unlock_ok:
  assumes "mock_ok a"
  shows "mock_ok (execute_unlock ks a) \<and> mk_objects (execute_unlock ks a) = mk_objects a"
proof
  show "mock_ok (execute_unlock ks a)" unfolding execute_unlock_def
    by (rule relocked_ok [OF assms unlock_loop_locks [OF mock_ok_locks [OF assms]]])
qed (simp add: execute_unlock_def)

lemma execute_load_same: "execute_load alive ks rs t a = (cs, a') \<Longrightarrow> same_store a a'"
  by (auto simp: execute_load_def same_store_def split: prod.splits sum.splits)

text \<open>Any number of calls and turns of the event loop, in any order.\<close>

inductive mock_step :: "(nat \<Rightarrow> int \<times> 'd option) \<Rightarrow> ('k, 'd) mock \<Rightarrow> ('k, 'd) mock \<Rightarrow> bool" for read_obj where
  submit_store: "mock_step read_obj a (snd (mock_submit_store_task ks rs a))"
| pop_store: "mock_step read_obj a (snd (mock_pop_completed_store_tasks a))"
| submit_lookup: "mock_step read_obj a (snd (mock_submit_lookup_and_lock_task ks a))"
| query_lookup: "mock_step read_obj a (snd (mock_query_lookup_and_lock_result t a))"
| submit_unlock: "mock_step read_obj a (mock_submit_unlock ks a)"
| submit_load: "mock_step read_obj a (snd (mock_submit_load_task ks rs a))"
| query_load: "mock_step read_obj a (snd (mock_query_load_result t a))"
| job: "mock_step read_obj a (snd (run_job read_obj i a))"
| woken: "mock_step read_obj a (wake i a)"

lemmas mock_defs = mock_submit_store_task_def mock_submit_lookup_and_lock_task_def mock_submit_load_task_def
  mock_pop_completed_store_tasks_def mock_query_lookup_and_lock_result_def mock_submit_unlock_def
  mock_query_load_result_def get_next_task_id_def dict_pop_def

lemma run_job_ok:
  assumes "\<forall>r. 0 \<le> fst (read_obj r)" "mock_ok a" "sizes_ok a"
  shows "mock_ok (snd (run_job read_obj i a)) \<and> sizes_ok (snd (run_job read_obj i a)) \<and>
    mk_capacity (snd (run_job read_obj i a)) = mk_capacity a \<and>
    (\<forall>k x. key_locked k a \<longrightarrow> map_of (mk_objects a) k = Some x \<longrightarrow> map_of (mk_objects (snd (run_job read_obj i a))) k = Some x)"
proof (cases "i < length (mk_jobs a)")
  case False
  then show ?thesis using assms by (simp add: run_job_def)
next
  case True
  let ?a = "a\<lparr>mk_jobs := drop_nth i (mk_jobs a)\<rparr>"
  have s: "same_store a ?a" by (simp add: same_store_def)
  then have ok: "mock_ok ?a" "sizes_ok ?a" using same_store_ok assms(2,3) by blast+
  show ?thesis
  proof (cases "mk_jobs a ! i")
    case (StoreJob ks rs t)
    obtain success b where b: "store_loop read_obj (zip ks rs) ?a = (success, b)" by (cases "store_loop read_obj (zip ks rs) ?a")
    have "same_store b (b\<lparr>mk_sleeping := mk_sleeping b @ [StoreDone t success]\<rparr>)" by (simp add: same_store_def)
    with store_loop_ok [OF assms(1) ok b] show ?thesis using StoreJob True b same_store_ok [of b]
      by (auto simp: run_job_def execute_store_def keeps_locked_def key_locked_def)
  next
    case (LookupJob ks t)
    have "mk_capacity (execute_lookup ks t ?a) = mk_capacity a"
    proof -
      have "mk_capacity (snd (fold lookup_step xs s)) = mk_capacity (snd s)" for xs s
        by (induction xs arbitrary: s) (auto simp: lookup_step_def split: prod.splits)
      from this [of "enumerate 0 ks" "(bm_new (length ks), ?a)"] show ?thesis
        by (simp add: execute_lookup_def case_prod_beta)
    qed
    then show ?thesis using LookupJob True execute_lookup_ok [OF ok(1), of ks t] assms(3)
      by (simp add: run_job_def sizes_ok_def)
  next
    case (UnlockJob ks)
    then show ?thesis using True execute_unlock_ok [OF ok(1), of ks] assms(3)
      by (simp add: run_job_def sizes_ok_def execute_unlock_def)
  next
    case (LoadJob ks rs t)
    obtain cs b where b: "execute_load (\<lambda>r. snd (read_obj r) \<noteq> None) ks rs t ?a = (cs, b)"
      by (cases "execute_load (\<lambda>r. snd (read_obj r) \<noteq> None) ks rs t ?a")
    have "same_store ?a b" by (rule execute_load_same [OF b])
    then show ?thesis using LoadJob True b ok same_store_ok [of ?a b] by (simp add: run_job_def same_store_def)
  qed
qed

lemma mock_step_ok:
  assumes "mock_step read_obj a b" "\<forall>r. 0 \<le> fst (read_obj r)" "mock_ok a" "sizes_ok a"
  shows "mock_ok b \<and> sizes_ok b \<and> mk_capacity b = mk_capacity a \<and>
    (\<forall>k x. key_locked k a \<longrightarrow> map_of (mk_objects a) k = Some x \<longrightarrow> map_of (mk_objects b) k = Some x)"
  using assms(1)
proof cases
  case (job i)
  then show ?thesis using run_job_ok [OF assms(2-4)] by blast
next
  case (woken i)
  have "same_store a b" using woken by (simp add: wake_def same_store_def Let_def split: mock_sleeping.splits)
  then show ?thesis using same_store_ok assms(3,4) by (auto simp: same_store_def)
qed (use assms(3,4) in \<open>simp_all add: mock_defs mock_ok_def sizes_ok_def\<close>)

section \<open>Properties\<close>

text \<open>The mock L2 adapter never loses a locked object and never exceeds its capacity. From an empty adapter,
  through any calls and any order of the work on its event loop: its size is the sum of the stored sizes and at
  most the capacity, its FIFO queue lists each stored key once, only stored keys are locked, and whatever happens
  next, an object whose key is locked stays stored with the same data.\<close>

theorem mock_adapter_keeps_locked_objects:
  assumes "0 \<le> capacity" "\<forall>r. 0 \<le> fst (read_obj r)" "(mock_step read_obj)\<^sup>*\<^sup>* (mock_init capacity) a"
  shows "mk_size a = sum_list (map (\<lambda>(k, n, d). n) (mk_objects a)) \<and> mk_size a \<le> capacity \<and>
    distinct (mk_queue a) \<and> set (mk_queue a) = set (dict_keys (mk_objects a)) \<and>
    (\<forall>k. key_locked k a \<longrightarrow> map_of (mk_objects a) k \<noteq> None) \<and>
    (\<forall>b k. mock_step read_obj a b \<and> key_locked k a \<longrightarrow> map_of (mk_objects b) k = map_of (mk_objects a) k)"
proof -
  have ok: "mock_ok a \<and> sizes_ok a \<and> mk_capacity a = capacity"
    using assms(3)
  proof (induction rule: rtranclp_induct)
    case base
    then show ?case using assms(1) by (simp add: mock_ok_def sizes_ok_def mock_init_def)
  next
    case (step b c)
    then show ?case using mock_step_ok [OF _ assms(2)] by metis
  qed
  have locked: "map_of (mk_objects a) k \<noteq> None" if "key_locked k a" for k
    using ok locked_conv [of a k] that dict_in_keys_iff [of k "mk_objects a"] by (auto simp: mock_ok_def)
  moreover have "map_of (mk_objects b) k = map_of (mk_objects a) k" if "mock_step read_obj a b" "key_locked k a" for b k
    using mock_step_ok [OF that(1) assms(2)] ok locked [OF that(2)] that(2) by fastforce
  moreover have "mk_size a = sum_list (map (\<lambda>(k, n, d). n) (mk_objects a))"
  proof -
    have "map (\<lambda>(k, n, d). n) (mk_objects a) = map (fst \<circ> snd) (mk_objects a)" by (intro map_cong refl) auto
    then show ?thesis using ok unfolding mock_ok_def by (simp only:)
  qed
  ultimately show ?thesis using ok by (simp add: mock_ok_def)
qed

theorem mock_adapter_keeps_locked_objects_witness:
  "mk_size (snd (run_job (\<lambda>r. (8, Some r)) 0 (snd (mock_submit_store_task [''a'', ''b''] [1, 2] (mock_init 10))))) \<le> 10"
proof -
  let ?r = "\<lambda>r :: nat. (8 :: int, Some r)"
  have "(mock_step ?r)\<^sup>*\<^sup>* (mock_init 10) (snd (run_job ?r 0 (snd (mock_submit_store_task [''a'', ''b''] [1, 2] (mock_init 10)))))"
    by (meson mock_step.job mock_step.submit_store r_into_rtranclp rtranclp.rtrancl_into_rtrancl)
  from mock_adapter_keeps_locked_objects [OF _ _ this] show ?thesis by simp
qed

end
