(* ===== verification/Store_Controller.thy ===== *)
theory Store_Controller
  imports L1_Exclusion L2_Adapter
begin

text \<open>
  StoreController and the store policies (lmcache/v1/distributed/storage_controllers/
  store_controller.py and store_policy.py): the background loop that takes the keys whose
  write has finished, holds a read lock on each while an adapter stores it, and gives the
  lock back when the adapter reports. The listener is the one of the L1 manager at the
  position where the constructor registered it. A handler runs at one clock reading.
\<close>

section \<open>Policies\<close>

record adapter_descriptor =
  ad_index :: nat
  ad_type_name :: string

datatype store_policy = DefaultStorePolicy | BufferOnlyStorePolicy

definition create_store_policy :: "string \<Rightarrow> py_error + store_policy" where
  "create_store_policy name =
     (if name = ''default'' then Inr DefaultStorePolicy
      else if name = ''skip_l1'' then Inr BufferOnlyStorePolicy
      else Inl ValueError)"

definition select_store_targets :: "store_policy \<Rightarrow> 'k list \<Rightarrow> adapter_descriptor list \<Rightarrow> (nat, 'k list) dict" where
  "select_store_targets p keys adapters = fold (\<lambda>ad d. dict_set (ad_index ad) keys d) adapters []"

fun select_l1_deletions :: "store_policy \<Rightarrow> 'k list \<Rightarrow> 'k list" where
  "select_l1_deletions DefaultStorePolicy keys = []"
| "select_l1_deletions BufferOnlyStorePolicy keys = keys"

section \<open>The controller\<close>

record 'k in_flight_store =
  it_adapter_index :: nat
  it_keys :: "'k list"
  it_read_locked_keys :: "'k list"

record ('k, 'a) store_controller =
  sc_adapters :: "'a list"
  sc_descriptors :: "adapter_descriptor list"
  sc_policy :: store_policy
  sc_listener :: nat
  sc_in_flight :: "(nat \<times> int, 'k in_flight_store) dict"
  sc_status_in_flight :: int

definition store_controller_init :: "'a list \<Rightarrow> adapter_descriptor list \<Rightarrow> store_policy \<Rightarrow> 'k l1
    \<Rightarrow> ('k, 'a) store_controller \<times> 'k l1" where
  "store_controller_init adapters descriptors p st =
     (\<lparr>sc_adapters = adapters, sc_descriptors = descriptors, sc_policy = p, sc_listener = length (listeners st),
       sc_in_flight = [], sc_status_in_flight = 0\<rparr>,
      register_listener (StoreListener store_listener_new) st)"

text \<open>The keys whose reservation succeeded, with their objects, in the order of target_keys.\<close>

definition successful_reads :: "('k, l1_result) dict \<Rightarrow> 'k list \<Rightarrow> ('k \<times> nat) list" where
  "successful_reads read_results target_keys =
     concat (map (\<lambda>key. case map_of read_results key of
        None \<Rightarrow> []
      | Some (err, obj) \<Rightarrow> (case obj of None \<Rightarrow> [] | Some r \<Rightarrow> if err \<noteq> SUCCESS then [] else [(key, r)]))
       target_keys)"

text \<open>The body of the loop over the plan.\<close>

definition store_to_adapter :: "('k, 'a) l2_ops \<Rightarrow> int \<Rightarrow> nat \<times> 'k list \<Rightarrow> 'k l1 \<times> ('k, 'a) store_controller
    \<Rightarrow> 'k l1 \<times> ('k, 'a) store_controller" where
  "store_to_adapter ops now target s =
     (case (target, s) of ((adapter_index, target_keys), (st, sc)) \<Rightarrow>
        if target_keys = [] then (st, sc)
        else if length (sc_adapters sc) \<le> adapter_index then (st, sc)
        else case reserve_read now target_keys 0 st of
          (read_results, st1) \<Rightarrow>
            let successful = successful_reads read_results target_keys
            in if successful = [] then (st1, sc)
               else case l2_submit_store_task ops (map fst successful) (map snd successful) (sc_adapters sc ! adapter_index) of
                 (task_id, a) \<Rightarrow>
                   (st1, sc\<lparr>sc_adapters := (sc_adapters sc)[adapter_index := a],
                            sc_in_flight := dict_set (adapter_index, task_id)
                              \<lparr>it_adapter_index = adapter_index, it_keys = map fst successful,
                               it_read_locked_keys = map fst successful\<rparr> (sc_in_flight sc),
                            sc_status_in_flight := sc_status_in_flight sc + 1\<rparr>))"

definition process_new_keys :: "('k, 'a) l2_ops \<Rightarrow> int \<Rightarrow> 'k list \<Rightarrow> 'k l1 \<times> ('k, 'a) store_controller
    \<Rightarrow> 'k l1 \<times> ('k, 'a) store_controller" where
  "process_new_keys ops now keys s =
     fold (store_to_adapter ops now) (select_store_targets (sc_policy (snd s)) keys (sc_descriptors (snd s))) s"

fun completed_loop :: "env \<Rightarrow> int \<Rightarrow> nat \<Rightarrow> (int, bool) dict \<Rightarrow> 'k l1 \<times> ('k, 'a) store_controller
    \<Rightarrow> (unit, 'k l1 \<times> ('k, 'a) store_controller) outcome" where
  "completed_loop E now adapter_index [] s = (Inr (), s)"
| "completed_loop E now adapter_index ((task_id, success) # xs) (st, sc) =
     (case dict_pop (adapter_index, task_id) (sc_in_flight sc) of
        (None, d) \<Rightarrow> completed_loop E now adapter_index xs (st, sc\<lparr>sc_in_flight := d\<rparr>)
      | (Some task, d) \<Rightarrow>
          let sc1 = sc\<lparr>sc_in_flight := d, sc_status_in_flight := sc_status_in_flight sc - 1\<rparr>
          in case finish_read E now (it_read_locked_keys task) 0 st of
               (Inl e, st1) \<Rightarrow> (Inl e, (st1, sc1))
             | (Inr _, st1) \<Rightarrow>
                 (let delete_keys = (if success then select_l1_deletions (sc_policy sc1) (it_keys task) else [])
                  in if delete_keys \<noteq> []
                     then (case l1_delete E now delete_keys st1 of
                             (Inl e, st2) \<Rightarrow> (Inl e, (st2, sc1))
                           | (Inr _, st2) \<Rightarrow> completed_loop E now adapter_index xs (st2, sc1))
                     else completed_loop E now adapter_index xs (st1, sc1)))"

definition process_completed_tasks :: "('k, 'a) l2_ops \<Rightarrow> env \<Rightarrow> int \<Rightarrow> nat \<Rightarrow> 'k l1 \<times> ('k, 'a) store_controller
    \<Rightarrow> (unit, 'k l1 \<times> ('k, 'a) store_controller) outcome" where
  "process_completed_tasks ops E now adapter_index s =
     (case s of (st, sc) \<Rightarrow>
        case l2_pop_completed_store_tasks ops (sc_adapters sc ! adapter_index) of
          (completed, a) \<Rightarrow>
            completed_loop E now adapter_index completed (st, sc\<lparr>sc_adapters := (sc_adapters sc)[adapter_index := a]\<rparr>))"

text \<open>_cleanup_in_flight_tasks, which stop calls once the thread has ended.\<close>

fun cleanup_loop :: "env \<Rightarrow> int \<Rightarrow> 'k in_flight_store list \<Rightarrow> 'k l1 \<Rightarrow> (unit, 'k l1) outcome" where
  "cleanup_loop E now [] st = (Inr (), st)"
| "cleanup_loop E now (task # ts) st =
     (case finish_read E now (it_read_locked_keys task) 0 st of
        (Inl e, st1) \<Rightarrow> (Inl e, st1)
      | (Inr _, st1) \<Rightarrow> cleanup_loop E now ts st1)"

definition cleanup_in_flight_tasks :: "env \<Rightarrow> int \<Rightarrow> 'k l1 \<times> ('k, 'a) store_controller
    \<Rightarrow> (unit, 'k l1 \<times> ('k, 'a) store_controller) outcome" where
  "cleanup_in_flight_tasks E now s =
     (case s of (st, sc) \<Rightarrow>
        case cleanup_loop E now (dict_values (sc_in_flight sc)) st of
          (Inl e, st1) \<Rightarrow> (Inl e, (st1, sc))
        | (Inr _, st1) \<Rightarrow> (Inr (), (st1, sc\<lparr>sc_in_flight := []\<rparr>)))"

text \<open>One ready file descriptor in the loop: the listener's or an adapter's.\<close>

datatype store_event = ListenerReady | AdapterReady nat

definition take_pending :: "nat \<Rightarrow> 'k l1 \<Rightarrow> 'k list \<times> 'k l1" where
  "take_pending i st =
     (case listeners st ! i of
        PolicyListener p \<Rightarrow> ([], st)
      | StoreListener l \<Rightarrow> (case pop_pending_keys l of
          (keys, l') \<Rightarrow> (keys, st\<lparr>listeners := (listeners st)[i := StoreListener l']\<rparr>)))"

fun store_turn :: "('k, 'a) l2_ops \<Rightarrow> env \<Rightarrow> int \<Rightarrow> store_event \<Rightarrow> 'k l1 \<times> ('k, 'a) store_controller
    \<Rightarrow> (unit, 'k l1 \<times> ('k, 'a) store_controller) outcome" where
  "store_turn ops E now ListenerReady (st, sc) =
     (case take_pending (sc_listener sc) st of
        (keys, st1) \<Rightarrow> (Inr (), if keys \<noteq> [] then process_new_keys ops now keys (st1, sc) else (st1, sc)))"
| "store_turn ops E now (AdapterReady i) s = process_completed_tasks ops E now i s"

section \<open>Counting read locks\<close>

definition eff :: "int \<Rightarrow> l1_object_state option \<Rightarrow> int" where
  "eff now x = (case x of None \<Rightarrow> 0 | Some e \<Rightarrow> if is_locked now (read_lock e) then counter (read_lock e) else 0)"

text \<open>The read locks the controller holds on a key, over all its tasks.\<close>

definition store_locks :: "('k, 'a) store_controller \<Rightarrow> 'k \<Rightarrow> int" where
  "store_locks sc k = sum_list (map (\<lambda>t. int (count_list (it_read_locked_keys t) k)) (dict_values (sc_in_flight sc)))"

lemma eff_lock:
  assumes "entry_ok e"
  shows "eff now (Some (e\<lparr>read_lock := ttl_lock now (read_lock e)\<rparr>)) = eff now (Some e) + 1"
  using assms by (auto simp: eff_def is_locked_def ttl_lock_def entry_ok_def lock_ok_def)

lemma rr_one:
  assumes "entry_ok e"
  shows "\<exists>e'. ((\<lambda>x. Option.bind x (rr_entry now 1)) ^^ m) (Some e) = Some e' \<and> entry_ok e' \<and>
    write_lock e' = write_lock e \<and> memory_obj e' = memory_obj e \<and>
    eff now (Some e') = eff now (Some e) + (if available_for_read now e then int m else 0)"
proof (induction m)
  case (Suc m)
  then obtain e' where e': "((\<lambda>x. Option.bind x (rr_entry now 1)) ^^ m) (Some e) = Some e'" "entry_ok e'"
    "write_lock e' = write_lock e" "memory_obj e' = memory_obj e"
    "eff now (Some e') = eff now (Some e) + (if available_for_read now e then int m else 0)" by blast
  have a: "available_for_read now e' = available_for_read now e" using e'(3) by (simp add: available_for_read_def)
  let ?l = "if available_for_read now e then e'\<lparr>read_lock := ttl_lock now (read_lock e')\<rparr> else e'"
  have "rr_entry now 1 e' = Some ?l" using a by (simp add: rr_entry_def lock_times_def)
  then have "((\<lambda>x. Option.bind x (rr_entry now 1)) ^^ Suc m) (Some e) = Some ?l" using e'(1) by simp
  then show ?case using e' eff_lock [OF e'(2), of now] by (intro exI [of _ ?l]) (auto simp: entry_ok_def)
qed (use assms in simp)

lemma fr_one:
  assumes "entry_ok e" "\<not> (is_locked now (write_lock e) \<and> is_locked now (read_lock e))" "int m \<le> eff now (Some e)"
  shows "eff now (((\<lambda>x. Option.bind x (fr_entry now 1)) ^^ m) (Some e)) = eff now (Some e) - int m"
  using assms
proof (induction m arbitrary: e)
  case (Suc m)
  have l: "is_locked now (read_lock e)" "\<not> is_locked now (write_lock e)"
    using Suc.prems by (auto simp: eff_def split: if_splits)
  have swap: "((\<lambda>x. Option.bind x (fr_entry now 1)) ^^ Suc m) (Some e) =
      ((\<lambda>x. Option.bind x (fr_entry now 1)) ^^ m) (fr_entry now 1 e)"
    by (simp only: funpow_Suc_right comp_apply bind.simps)
  have none: "((\<lambda>x. Option.bind x (fr_entry now 1)) ^^ m) None = None" by (induction m) simp_all
  show ?case
  proof (cases "is_temporary e \<and> \<not> is_locked now (unlock_times 1 (read_lock e))")
    case True
    then have "fr_entry now 1 e = None" using l by (simp add: fr_entry_def)
    moreover have "counter (read_lock e) = 1"
      using True l(1) by (auto simp: is_locked_def unlock_times_def ttl_unlock_def)
    ultimately show ?thesis using Suc.prems(3) l(1) none swap by (simp add: eff_def)
  next
    case False
    let ?e = "e\<lparr>read_lock := unlock_times 1 (read_lock e)\<rparr>"
    have f: "fr_entry now 1 e = Some ?e" using False l by (auto simp: fr_entry_def)
    have "eff now (Some ?e) = eff now (Some e) - 1"
      using l(1) by (auto simp: eff_def is_locked_def unlock_times_def ttl_unlock_def)
    moreover have "entry_ok ?e" using Suc.prems(1) by (simp add: entry_ok_def)
    ultimately show ?thesis using Suc.IH [of ?e] Suc.prems(3) l(2) swap f by simp
  qed
qed simp


subsection \<open>The manager's calls, counted\<close>

lemma rr_result_step:
  "rr_result now (map_of (fst (reserve_read_step now n q s)) k) = rr_result now (map_of (fst s) k)"
  by (cases s) (auto simp: reserve_read_step_def rr_result_def available_for_read_def dict_simps split: option.splits)

lemma reserve_read_results:
  "map_of (fst (snd (fold (reserve_read_step now n) ks s))) k =
     (if k \<in> set ks then Some (rr_result now (map_of (fst s) k)) else map_of (fst (snd s)) k) \<and>
   rr_result now (map_of (fst (fold (reserve_read_step now n) ks s)) k) = rr_result now (map_of (fst s) k)"
proof (induction ks arbitrary: s)
  case (Cons q ks)
  have "map_of (fst (snd (reserve_read_step now n q s))) k =
      (if k = q then Some (rr_result now (map_of (fst s) k)) else map_of (fst (snd s)) k)"
    by (cases s) (auto simp: reserve_read_step_def rr_result_def dict_simps split: option.splits)
  then show ?case using Cons.IH [of "reserve_read_step now n q s"] rr_result_step [of now n q s k]
    by (cases "k = q") auto
qed simp

definition readable :: "int \<Rightarrow> 'k l1 \<Rightarrow> 'k \<Rightarrow> bool" where
  "readable now st k \<longleftrightarrow> (\<exists>e. get_object_state k st = Some e \<and> available_for_read now e)"

lemma rr_result_cases:
  "readable now st k \<Longrightarrow> \<exists>r. rr_result now (get_object_state k st) = (SUCCESS, Some r)"
  "\<not> readable now st k \<Longrightarrow> snd (rr_result now (get_object_state k st)) = None"
  by (auto simp: readable_def rr_result_def split: option.splits)

lemma one_lock: "nat (1 + validate_extra_count 0) = 1"
  by (simp add: validate_extra_count_def MAX_READ_LOCK_COUNT_def)

lemma count_filter: "count_list (filter P xs) k = (if P k then count_list xs k else 0)"
  by (induction xs) auto

lemma reserve_read_counted:
  assumes "l1_inv st" "reserve_read now ks 0 st = (ret, st1)"
  shows "l1_inv st1"
    and "map_of ret k = (if k \<in> set ks then Some (rr_result now (get_object_state k st)) else None)"
    and "rr_result now (get_object_state k st1) = rr_result now (get_object_state k st)"
    and "eff now (get_object_state k st1) = eff now (get_object_state k st) + (if readable now st k then int (count_list ks k) else 0)"
    and "excl_table now (objects st) \<Longrightarrow> excl_table now (objects st1)"
proof -
  show "l1_inv st1" using reserve_read_inv [OF assms(1), of now ks 0] assms(2) by simp
  have obj: "objects st1 = fold (entry_upd (rr_entry now 1)) ks (objects st)"
    using objects_after(1) [of now ks 0 st] assms(2) by (simp add: one_lock)
  show "excl_table now (objects st1)" if "excl_table now (objects st)"
    unfolding obj by (rule excl_fold [OF that excl_entry_funs(1)])
  have f: "fst (fold (reserve_read_step now 1) ks (objects st, [], [])) = objects st1"
    "fst (snd (fold (reserve_read_step now 1) ks (objects st, [], []))) = ret"
    using assms(2) unfolding reserve_read_def one_lock Let_def
    by (auto simp: publish_def notify_def split: prod.splits)
  show "map_of ret k = (if k \<in> set ks then Some (rr_result now (get_object_state k st)) else None)"
    "rr_result now (get_object_state k st1) = rr_result now (get_object_state k st)"
    using reserve_read_results [of now 1 ks "(objects st, [], [])" k] by (simp_all only: f get_object_state_def fst_conv snd_conv map_of.simps)
  show "eff now (get_object_state k st1) = eff now (get_object_state k st) + (if readable now st k then int (count_list ks k) else 0)"
  proof (cases "map_of (objects st) k")
    case None
    have "((\<lambda>x. Option.bind x (rr_entry now 1)) ^^ m) None = None" for m by (induction m) simp_all
    then show ?thesis using None
      by (simp only: get_object_state_def obj map_of_fold_entry_upd_iter readable_def) (simp add: eff_def)
  next
    case (Some e)
    then have "entry_ok e" using assms(1) by (auto simp: l1_inv_def table_ok_def)
    from rr_one [OF this, of "count_list ks k" now] Some show ?thesis
      by (simp only: get_object_state_def obj map_of_fold_entry_upd_iter readable_def) auto
  qed
qed

lemma finish_read_counted:
  assumes "sorted_list_ok E" "l1_inv st" "excl_table now (objects st)"
    and "\<forall>k. int (count_list ks k) \<le> eff now (get_object_state k st)"
  shows "\<exists>ret st1. finish_read E now ks 0 st = (Inr ret, st1) \<and> l1_inv st1 \<and> excl_table now (objects st1) \<and>
    (\<forall>k. eff now (get_object_state k st1) = eff now (get_object_state k st) - int (count_list ks k))"
proof -
  obtain ret st1 where st1: "finish_read E now ks 0 st = (Inr ret, st1)" "l1_inv st1"
    using finish_read_inv [OF assms(1,2), of now ks 0] by blast
  have obj: "objects st1 = fold (entry_upd (fr_entry now 1)) ks (objects st)"
    using objects_after(2) [of E now ks 0 st] st1(1) by (simp add: one_lock)
  have "eff now (get_object_state k st1) = eff now (get_object_state k st) - int (count_list ks k)" for k
  proof (cases "map_of (objects st) k")
    case None
    then have "int (count_list ks k) \<le> 0" using assms(4) [rule_format, of k] by (simp add: eff_def get_object_state_def)
    then show ?thesis using None by (simp add: get_object_state_def obj map_of_fold_entry_upd_iter eff_def)
  next
    case (Some e)
    then have "entry_ok e" "excl now e" using assms(2,3) by (auto simp: l1_inv_def table_ok_def excl_table_def)
    moreover have "int (count_list ks k) \<le> eff now (Some e)" using assms(4) [rule_format, of k] Some by (simp add: get_object_state_def)
    ultimately show ?thesis using fr_one [of e now "count_list ks k"] Some
      by (simp add: get_object_state_def obj map_of_fold_entry_upd_iter excl_def)
  qed
  moreover have "excl_table now (objects st1)" unfolding obj by (rule excl_fold [OF assms(3) excl_entry_funs(2)])
  ultimately show ?thesis using st1 by blast
qed

lemma delete_counted:
  assumes "sorted_list_ok E" "l1_inv st" "excl_table now (objects st)"
  shows "\<exists>ret st1. l1_delete E now ks st = (Inr ret, st1) \<and> l1_inv st1 \<and> excl_table now (objects st1) \<and>
    (\<forall>k. eff now (get_object_state k st1) = eff now (get_object_state k st))"
proof -
  obtain ret st1 where st1: "l1_delete E now ks st = (Inr ret, st1)" "l1_inv st1"
    using l1_delete_inv [OF assms(1,2), of now ks] by blast
  have obj: "objects st1 = fold (entry_upd (dl_entry now)) ks (objects st)"
    using objects_after(5) [of E now ks st] st1(1) by simp
  have "eff now (Option.bind x (dl_entry now)) = eff now x" for x
    by (cases x) (auto simp: eff_def dl_entry_def entry_locked_def)
  then have "eff now (((\<lambda>x. Option.bind x (dl_entry now)) ^^ m) x) = eff now x" for m x
    by (induction m) simp_all
  then have "eff now (get_object_state k st1) = eff now (get_object_state k st)" for k
    by (simp add: get_object_state_def obj map_of_fold_entry_upd_iter)
  moreover have "excl_table now (objects st1)" unfolding obj by (rule excl_fold [OF assms(3) excl_entry_funs(6)])
  ultimately show ?thesis using st1 by blast
qed

section \<open>What the handlers keep\<close>

text \<open>The read locks on a key that the controller does not hold.\<close>

definition foreign_locks :: "int \<Rightarrow> 'k l1 \<times> ('k, 'a) store_controller \<Rightarrow> 'k \<Rightarrow> int" where
  "foreign_locks now s k = eff now (get_object_state k (fst s)) - store_locks (snd s) k"

definition tracked :: "('a \<Rightarrow> int set) \<Rightarrow> 'a list \<Rightarrow> (nat \<times> int, 'v) dict \<Rightarrow> bool" where
  "tracked issued as d \<longleftrightarrow> distinct (dict_keys d) \<and> (\<forall>(i, t) \<in> set (dict_keys d). i < length as \<and> t \<in> issued (as ! i))"

definition store_inv :: "('a \<Rightarrow> int set) \<Rightarrow> int \<Rightarrow> 'k l1 \<times> ('k, 'a) store_controller \<Rightarrow> bool" where
  "store_inv issued now s \<longleftrightarrow> l1_inv (fst s) \<and> excl_table now (objects (fst s)) \<and>
     tracked issued (sc_adapters (snd s)) (sc_in_flight (snd s)) \<and> (\<forall>k. 0 \<le> foreign_locks now s k)"

lemma successful_reads_readable:
  assumes "\<And>k. k \<in> set ks \<Longrightarrow> map_of ret k = Some (rr_result now (get_object_state k st))"
  shows "map fst (successful_reads ret ks) = filter (readable now st) ks"
  using assms
proof (induction ks)
  case (Cons k ks)
  have "map_of ret k = Some (rr_result now (get_object_state k st))" by (rule Cons.prems) simp
  moreover have "map fst (successful_reads ret ks) = filter (readable now st) ks" by (rule Cons.IH, rule Cons.prems) simp
  ultimately show ?case using rr_result_cases [of now st k]
    by (cases "readable now st k") (auto simp: successful_reads_def split: option.splits prod.splits)
qed (simp add: successful_reads_def)

lemma store_locks_nonneg: "0 \<le> store_locks sc k"
  unfolding store_locks_def by (rule sum_list_nonneg) auto

lemma store_locks_new:
  "map_of (sc_in_flight sc) q = None \<Longrightarrow>
    store_locks (sc\<lparr>sc_adapters := as, sc_in_flight := dict_set q t (sc_in_flight sc), sc_status_in_flight := c\<rparr>) k =
      store_locks sc k + int (count_list (it_read_locked_keys t) k)"
  by (simp add: store_locks_def dict_set_new)

lemma store_locks_pop:
  assumes "distinct (dict_keys (sc_in_flight sc))" "map_of (sc_in_flight sc) q = Some t"
  shows "store_locks (sc\<lparr>sc_in_flight := dict_del q (sc_in_flight sc), sc_status_in_flight := c\<rparr>) k =
      store_locks sc k - int (count_list (it_read_locked_keys t) k)"
  using dict_sum_del [OF assms, of "\<lambda>y. int (count_list (it_read_locked_keys (snd y)) k)"]
  by (simp add: store_locks_def comp_def)

lemma tracked_del: "tracked issued as d \<Longrightarrow> tracked issued as (dict_del q d)"
  unfolding tracked_def using set_dict_keys_del [of q d] by blast

lemma tracked_update:
  assumes "issued a = issued (as ! i)" "tracked issued as d"
  shows "tracked issued (as[i := a]) d"
proof -
  have "issued (as[i := a] ! j) = issued (as ! j)" for j
    using assms(1) by (cases "j = i \<and> i < length as") (auto simp: nth_list_update list_update_beyond)
  then show ?thesis using assms(2) by (simp add: tracked_def)
qed

context l2_adapter
begin

lemma tracked_new:
  assumes "tracked issued as d" "i < length as" "l2_submit_store_task ops ks rs (as ! i) = (t, a)"
  shows "map_of d (i, t) = None \<and> tracked issued (as[i := a]) (dict_set (i, t) x d)"
proof -
  have f: "t \<notin> issued (as ! i)" "issued a = insert t (issued (as ! i))" using store_fresh [OF assms(3)] by blast+
  have n: "(i, t) \<notin> set (dict_keys d)" using assms(1) f(1) by (auto simp: tracked_def)
  then have "map_of d (i, t) = None" using dict_in_keys_iff [of "(i, t)" d] by blast
  moreover have "distinct (dict_keys (dict_set (i, t) x d))" using assms(1) by (simp add: tracked_def)
  moreover have "\<forall>(j, u) \<in> insert (i, t) (set (dict_keys d)). j < length (as[i := a]) \<and> u \<in> issued (as[i := a] ! j)"
    using assms(1,2) f by (auto simp: tracked_def nth_list_update)
  ultimately show ?thesis unfolding tracked_def by (simp only: set_dict_keys_set)
qed

lemma store_to_adapter_keeps:
  assumes "store_inv issued now s"
  shows "store_inv issued now (store_to_adapter ops now target s) \<and>
    (\<forall>k. foreign_locks now (store_to_adapter ops now target s) k = foreign_locks now s k)"
proof -
  obtain i ks st sc where s: "target = (i, ks)" "s = (st, sc)" by (cases target, cases s)
  obtain ret st1 where rr: "reserve_read now ks 0 st = (ret, st1)" by (cases "reserve_read now ks 0 st")
  have inv: "l1_inv st" "excl_table now (objects st)" "tracked issued (sc_adapters sc) (sc_in_flight sc)"
    "0 \<le> foreign_locks now (st, sc) k" for k
    using assms s by (simp_all add: store_inv_def)
  note rrc = reserve_read_counted [OF inv(1) rr]
  have keys: "map fst (successful_reads ret ks) = filter (readable now st) ks"
    by (rule successful_reads_readable) (simp add: rrc(2))
  show ?thesis
  proof (cases "ks = [] \<or> length (sc_adapters sc) \<le> i")
    case True
    then show ?thesis using assms s by (auto simp: store_to_adapter_def)
  next
    case False
    show ?thesis
    proof (cases "successful_reads ret ks = []")
      case True
      then have "filter (readable now st) ks = []" using keys by simp
      then have "eff now (get_object_state k st1) = eff now (get_object_state k st)" for k
        using rrc(4) [of k] by (auto simp: filter_empty_conv count_list_0_iff)
      then have "foreign_locks now (st1, sc) k = foreign_locks now (st, sc) k" for k by (simp add: foreign_locks_def)
      moreover have "store_to_adapter ops now target s = (st1, sc)"
        using False True s rr by (auto simp: store_to_adapter_def)
      ultimately show ?thesis using inv rrc(1) rrc(5) s by (simp add: store_inv_def)
    next
      case nonempty: False
      obtain t a where t: "l2_submit_store_task ops (map fst (successful_reads ret ks)) (map snd (successful_reads ret ks))
        (sc_adapters sc ! i) = (t, a)" by fastforce
      let ?task = "\<lparr>it_adapter_index = i, it_keys = map fst (successful_reads ret ks),
        it_read_locked_keys = map fst (successful_reads ret ks)\<rparr>"
      let ?sc = "sc\<lparr>sc_adapters := (sc_adapters sc)[i := a], sc_in_flight := dict_set (i, t) ?task (sc_in_flight sc),
        sc_status_in_flight := sc_status_in_flight sc + 1\<rparr>"
      have step: "store_to_adapter ops now target s = (st1, ?sc)"
        using False nonempty s rr t by (auto simp: store_to_adapter_def Let_def)
      have new: "map_of (sc_in_flight sc) (i, t) = None"
        "tracked issued (sc_adapters ?sc) (sc_in_flight ?sc)"
        using tracked_new [OF inv(3) _ t, of ?task] False by simp_all
      have "foreign_locks now (st1, ?sc) k = foreign_locks now (st, sc) k" for k
        using rrc(4) [of k] store_locks_new [OF new(1)] by (simp add: foreign_locks_def keys count_filter)
      then show ?thesis using inv new(2) rrc(1) rrc(5) s step by (simp add: store_inv_def)
    qed
  qed
qed

lemma process_new_keys_keeps:
  assumes "store_inv issued now s"
  shows "store_inv issued now (process_new_keys ops now keys s) \<and>
    (\<forall>k. foreign_locks now (process_new_keys ops now keys s) k = foreign_locks now s k)"
proof -
  have "store_inv issued now (fold (store_to_adapter ops now) plan s) \<and>
    (\<forall>k. foreign_locks now (fold (store_to_adapter ops now) plan s) k = foreign_locks now s k)" for plan
    using assms
  proof (induction plan arbitrary: s)
    case (Cons x plan)
    then show ?case using store_to_adapter_keeps [OF Cons.prems, of x] by simp
  qed simp
  then show ?thesis by (simp add: process_new_keys_def)
qed

lemma completed_loop_keeps:
  assumes "sorted_list_ok E" "store_inv issued now s"
  shows "\<exists>s'. completed_loop E now i xs s = (Inr (), s') \<and> store_inv issued now s' \<and>
    (\<forall>k. foreign_locks now s' k = foreign_locks now s k)"
  using assms(2)
proof (induction xs arbitrary: s)
  case Nil
  then show ?case by (cases s) simp
next
  case (Cons x xs)
  obtain t ok st sc where s: "x = (t, ok)" "s = (st, sc)" by (cases x, cases s)
  have inv: "l1_inv st" "excl_table now (objects st)" "tracked issued (sc_adapters sc) (sc_in_flight sc)"
    "0 \<le> foreign_locks now (st, sc) k" for k
    using Cons.prems s by (simp_all add: store_inv_def)
  have dis: "distinct (dict_keys (sc_in_flight sc))" using inv(3) by (simp add: tracked_def)
  show ?case
  proof (cases "map_of (sc_in_flight sc) (i, t)")
    case None
    then have "dict_del (i, t) (sc_in_flight sc) = sc_in_flight sc"
      using dict_in_keys_iff [of "(i, t)" "sc_in_flight sc"] by (simp add: AList.delete_id)
    then have "completed_loop E now i (x # xs) s = completed_loop E now i xs s"
      using None s by (simp add: dict_pop_def)
    then show ?thesis using Cons.IH [OF Cons.prems] by simp
  next
    case (Some task)
    let ?sc = "sc\<lparr>sc_in_flight := dict_del (i, t) (sc_in_flight sc), sc_status_in_flight := sc_status_in_flight sc - 1\<rparr>"
    have tr: "tracked issued (sc_adapters ?sc) (sc_in_flight ?sc)" using tracked_del [OF inv(3)] by simp
    have locks: "store_locks ?sc k = store_locks sc k - int (count_list (it_read_locked_keys task) k)" for k
      by (rule store_locks_pop [OF dis Some])
    have "int (count_list (it_read_locked_keys task) k) \<le> eff now (get_object_state k st)" for k
      using inv(4) [of k] locks [of k] store_locks_nonneg [of ?sc k] by (simp add: foreign_locks_def)
    then obtain r1 st1 where st1: "finish_read E now (it_read_locked_keys task) 0 st = (Inr r1, st1)"
      "l1_inv st1" "excl_table now (objects st1)"
      "\<And>k. eff now (get_object_state k st1) = eff now (get_object_state k st) - int (count_list (it_read_locked_keys task) k)"
      using finish_read_counted [OF assms(1) inv(1,2), of "it_read_locked_keys task"] by blast
    have returned: "foreign_locks now (st1, ?sc) k = foreign_locks now (st, sc) k" for k
      using st1(4) [of k] locks [of k] by (simp add: foreign_locks_def)
    let ?ks = "if ok then select_l1_deletions (sc_policy ?sc) (it_keys task) else []"
    obtain st2 where st2: "completed_loop E now i (x # xs) s = completed_loop E now i xs (st2, ?sc)"
      "l1_inv st2" "excl_table now (objects st2)" "\<And>k. eff now (get_object_state k st2) = eff now (get_object_state k st1)"
    proof (cases "?ks = []")
      case True
      then have "completed_loop E now i (x # xs) s = completed_loop E now i xs (st1, ?sc)"
        using Some s st1(1) by (simp add: dict_pop_def Let_def)
      then show ?thesis using that st1 by blast
    next
      case False
      obtain r2 st2 where "l1_delete E now ?ks st1 = (Inr r2, st2)" "l1_inv st2" "excl_table now (objects st2)"
        "\<And>k. eff now (get_object_state k st2) = eff now (get_object_state k st1)"
        using delete_counted [OF assms(1) st1(2,3), of ?ks] by blast
      moreover from this(1) False have "completed_loop E now i (x # xs) s = completed_loop E now i xs (st2, ?sc)"
        using Some s st1(1) by (simp add: dict_pop_def Let_def)
      ultimately show ?thesis using that by blast
    qed
    then have same: "foreign_locks now (st2, ?sc) k = foreign_locks now (st, sc) k" for k
      using returned [of k] by (simp add: foreign_locks_def)
    then have "store_inv issued now (st2, ?sc)" using st2 tr inv(4) by (simp add: store_inv_def)
    from Cons.IH [OF this] show ?thesis using st2(1) same s by simp
  qed
qed

end

section \<open>New keys reach every adapter\<close>

text \<open>What a batch of keys becomes: the readable ones, in order, with their objects.\<close>

definition readable_batch :: "int \<Rightarrow> 'k l1 \<Rightarrow> 'k list \<Rightarrow> ('k \<times> nat) list" where
  "readable_batch now st keys = concat (map (\<lambda>k. case get_object_state k st of
      None \<Rightarrow> []
    | Some e \<Rightarrow> if available_for_read now e then [(k, memory_obj e)] else []) keys)"

lemma successful_reads_batch:
  assumes "\<And>k. k \<in> set ks \<Longrightarrow> map_of ret k = Some (rr_result now (get_object_state k st))"
  shows "successful_reads ret ks = readable_batch now st ks"
  using assms
proof (induction ks)
  case (Cons k ks)
  have "map_of ret k = Some (rr_result now (get_object_state k st))" by (rule Cons.prems) simp
  moreover have "successful_reads ret ks = readable_batch now st ks" by (rule Cons.IH, rule Cons.prems) simp
  ultimately show ?case
    by (cases "get_object_state k st") (simp_all add: successful_reads_def readable_batch_def rr_result_def)
qed (simp add: successful_reads_def readable_batch_def)

lemma rr_result_batch:
  assumes "\<And>k. rr_result now (get_object_state k st') = rr_result now (get_object_state k st)"
  shows "readable_batch now st' ks = readable_batch now st ks"
proof -
  have eq: "(case x of None \<Rightarrow> [] | Some e \<Rightarrow> if available_for_read now e then [(k, memory_obj e)] else []) =
      (case snd (rr_result now x) of None \<Rightarrow> [] | Some r \<Rightarrow> [(k, r)])" for x k
    by (cases x) (simp_all add: rr_result_def)
  show ?thesis unfolding readable_batch_def by (simp only: eq assms)
qed

text \<open>The keys and objects of the batch, submitted to one adapter.\<close>

definition submitted :: "('k, 'a) l2_ops \<Rightarrow> ('k \<times> nat) list \<Rightarrow> 'a \<Rightarrow> 'a" where
  "submitted ops batch a = (if batch = [] then a else snd (l2_submit_store_task ops (map fst batch) (map snd batch) a))"

lemma store_to_adapter_submits:
  assumes "l1_inv st" "ks \<noteq> []" "i < length (sc_adapters sc)" "store_to_adapter ops now (i, ks) (st, sc) = (st', sc')"
  shows "sc_adapters sc' = (sc_adapters sc)[i := submitted ops (readable_batch now st ks) (sc_adapters sc ! i)] \<and>
    l1_inv st' \<and> (\<forall>k. rr_result now (get_object_state k st') = rr_result now (get_object_state k st))"
proof -
  obtain ret st1 where rr: "reserve_read now ks 0 st = (ret, st1)" by (cases "reserve_read now ks 0 st")
  note rrc = reserve_read_counted [OF assms(1) rr]
  have batch: "successful_reads ret ks = readable_batch now st ks"
    by (rule successful_reads_batch) (simp add: rrc(2))
  have "st' = st1 \<and> sc_adapters sc' = (sc_adapters sc)[i := submitted ops (readable_batch now st ks) (sc_adapters sc ! i)]"
    using assms(2-4) rr batch
    by (auto simp: store_to_adapter_def Let_def submitted_def split: if_splits prod.splits)
  then show ?thesis using rrc(1,3) by blast
qed

lemma targets_submit:
  assumes "l1_inv st" "ks \<noteq> []" "distinct is" "set is \<subseteq> {..<length (sc_adapters sc)}"
    and "fold (store_to_adapter ops now) (map (\<lambda>i. (i, ks)) is) (st, sc) = (st', sc')"
  shows "length (sc_adapters sc') = length (sc_adapters sc) \<and>
    (\<forall>j. sc_adapters sc' ! j = (if j \<in> set is then submitted ops (readable_batch now st ks) (sc_adapters sc ! j)
       else sc_adapters sc ! j)) \<and>
    (\<forall>k. rr_result now (get_object_state k st') = rr_result now (get_object_state k st))"
  using assms
proof (induction "is" arbitrary: st sc)
  case (Cons i "is")
  obtain st1 sc1 where one: "store_to_adapter ops now (i, ks) (st, sc) = (st1, sc1)"
    by (cases "store_to_adapter ops now (i, ks) (st, sc)")
  have i: "i < length (sc_adapters sc)" using Cons.prems(4) by simp
  note s1 = store_to_adapter_submits [OF Cons.prems(1,2) i one]
  have rest: "fold (store_to_adapter ops now) (map (\<lambda>i. (i, ks)) is) (st1, sc1) = (st', sc')"
    using Cons.prems(5) one by simp
  have len: "length (sc_adapters sc1) = length (sc_adapters sc)" using s1 by simp
  have sub: "set is \<subseteq> {..<length (sc_adapters sc1)}" using Cons.prems(4) len by simp
  have batch: "readable_batch now st1 ks = readable_batch now st ks" using s1 by (intro rr_result_batch) blast
  note ih = Cons.IH [OF _ Cons.prems(2) _ sub rest]
  have "l1_inv st1" "distinct is" "i \<notin> set is" using s1 Cons.prems(3) by auto
  with ih have "length (sc_adapters sc') = length (sc_adapters sc1)"
    "\<forall>j. sc_adapters sc' ! j = (if j \<in> set is then submitted ops (readable_batch now st ks) (sc_adapters sc1 ! j) else sc_adapters sc1 ! j)"
    "\<forall>k. rr_result now (get_object_state k st') = rr_result now (get_object_state k st1)"
    by (simp_all add: batch)
  moreover have "sc_adapters sc1 ! j = (if j = i then submitted ops (readable_batch now st ks) (sc_adapters sc ! i) else sc_adapters sc ! j)" for j
    using s1 i by (simp add: nth_list_update)
  ultimately show ?case using s1 len \<open>i \<notin> set is\<close> by auto
qed simp

lemma select_store_targets_all:
  assumes "distinct (map ad_index ads)"
  shows "select_store_targets p ks ads = map (\<lambda>i. (i, ks)) (map ad_index ads)"
proof -
  have "fold (\<lambda>ad d. dict_set (ad_index ad) ks d) ads d = d @ map (\<lambda>ad. (ad_index ad, ks)) ads"
    if "distinct (map ad_index ads)" "set (map ad_index ads) \<inter> set (dict_keys d) = {}" for ads :: "adapter_descriptor list" and d
    using that
  proof (induction ads arbitrary: d)
    case (Cons ad ads)
    have "map_of d (ad_index ad) = None" using Cons.prems(2) dict_in_keys_iff [of "ad_index ad" d] by auto
    then have "dict_set (ad_index ad) ks d = d @ [(ad_index ad, ks)]" by (rule dict_set_new)
    then show ?case using Cons.IH [of "d @ [(ad_index ad, ks)]"] Cons.prems by auto
  qed simp
  from this [of ads "[]"] assms show ?thesis by (simp add: select_store_targets_def)
qed

section \<open>The mock adapters\<close>

abbreviation mock_issued :: "('k, 'd) mock \<Rightarrow> int set" where
  "mock_issued \<equiv> (\<lambda>a. {t. t < mk_next_id a})"

lemma take_pending_keeps:
  assumes "take_pending i st = (keys, st')" "l1_inv st"
  shows "l1_inv st' \<and> objects st' = objects st"
proof -
  have sub: "set ((listeners st)[i := StoreListener l]) \<subseteq> insert (StoreListener l) (set (listeners st))" for l
    by (rule set_update_subset_insert)
  show ?thesis using assms sub
    by (cases "listeners st ! i") (fastforce simp: take_pending_def pop_pending_keys_def l1_inv_def)+
qed

lemma store_turn_keeps:
  assumes "sorted_list_ok E" "store_inv mock_issued now (st, sc)"
  shows "\<exists>s'. store_turn mock_ops E now ev (st, sc) = (Inr (), s') \<and> store_inv mock_issued now s' \<and>
    (\<forall>k. foreign_locks now s' k = foreign_locks now (st, sc) k)"
proof (cases ev)
  case ListenerReady
  obtain keys st1 where t: "take_pending (sc_listener sc) st = (keys, st1)" by (cases "take_pending (sc_listener sc) st")
  have "l1_inv st1 \<and> objects st1 = objects st" by (rule take_pending_keeps [OF t]) (use assms(2) in \<open>simp add: store_inv_def\<close>)
  then have s1: "store_inv mock_issued now (st1, sc)" "\<And>k. foreign_locks now (st1, sc) k = foreign_locks now (st, sc) k"
    using assms(2) by (simp_all add: store_inv_def foreign_locks_def get_object_state_def)
  then show ?thesis using mock.process_new_keys_keeps [OF s1(1), of keys] ListenerReady t by (cases "keys = []") auto
next
  case (AdapterReady i)
  obtain d a where p: "l2_pop_completed_store_tasks mock_ops (sc_adapters sc ! i) = (d, a)" by fastforce
  let ?sc = "sc\<lparr>sc_adapters := (sc_adapters sc)[i := a]\<rparr>"
  have "tracked mock_issued (sc_adapters ?sc) (sc_in_flight ?sc)"
    using tracked_update [where issued = mock_issued, OF mock.pop_issued [OF p], of "sc_in_flight sc"] assms(2)
    by (simp add: store_inv_def)
  then have "store_inv mock_issued now (st, ?sc)" "\<And>k. foreign_locks now (st, ?sc) k = foreign_locks now (st, sc) k"
    using assms(2) by (simp_all add: store_inv_def foreign_locks_def store_locks_def)
  then show ?thesis using mock.completed_loop_keeps [OF assms(1), of now "(st, ?sc)" i d] AdapterReady p
    by (auto simp: process_completed_tasks_def)
qed

lemma cleanup_loop_returns:
  assumes "sorted_list_ok E" "l1_inv st" "excl_table now (objects st)"
    and "\<And>k. sum_list (map (\<lambda>t. int (count_list (it_read_locked_keys t) k)) ts) \<le> eff now (get_object_state k st)"
  shows "\<exists>st'. cleanup_loop E now ts st = (Inr (), st') \<and> (\<forall>k. eff now (get_object_state k st') =
    eff now (get_object_state k st) - sum_list (map (\<lambda>t. int (count_list (it_read_locked_keys t) k)) ts))"
  using assms(2-4)
proof (induction ts arbitrary: st)
  case (Cons t ts)
  have rest: "0 \<le> sum_list (map (\<lambda>t. int (count_list (it_read_locked_keys t) k)) ts)" for k
    by (rule sum_list_nonneg) auto
  have "\<forall>k. int (count_list (it_read_locked_keys t) k) \<le> eff now (get_object_state k st)"
  proof
    fix k
    show "int (count_list (it_read_locked_keys t) k) \<le> eff now (get_object_state k st)"
      using Cons.prems(3) [of k] rest [of k] by simp
  qed
  from finish_read_counted [OF assms(1) Cons.prems(1,2) this] obtain r st1 where
    st1: "finish_read E now (it_read_locked_keys t) 0 st = (Inr r, st1)" "l1_inv st1" "excl_table now (objects st1)"
      "\<And>k. eff now (get_object_state k st1) = eff now (get_object_state k st) - int (count_list (it_read_locked_keys t) k)"
    by blast
  have le: "sum_list (map (\<lambda>t. int (count_list (it_read_locked_keys t) k)) ts) \<le> eff now (get_object_state k st1)" for k
    using Cons.prems(3) [of k] st1(4) [of k] by simp
  obtain st' where "cleanup_loop E now ts st1 = (Inr (), st')" "\<forall>k. eff now (get_object_state k st') =
    eff now (get_object_state k st1) - sum_list (map (\<lambda>t. int (count_list (it_read_locked_keys t) k)) ts)"
    using Cons.IH [OF st1(2,3) le] by blast
  then show ?case using st1(1,4) by simp
qed simp

lemma cleanup_returns:
  assumes "sorted_list_ok E" "store_inv issued now s"
  shows "\<exists>s'. cleanup_in_flight_tasks E now s = (Inr (), s') \<and> sc_in_flight (snd s') = [] \<and>
    (\<forall>k. eff now (get_object_state k (fst s')) = foreign_locks now s k)"
proof -
  obtain st sc where s: "s = (st, sc)" by (cases s)
  have inv: "l1_inv st" "excl_table now (objects st)" "0 \<le> foreign_locks now (st, sc) k" for k
    using assms(2) s by (simp_all add: store_inv_def)
  have "sum_list (map (\<lambda>t. int (count_list (it_read_locked_keys t) k)) (dict_values (sc_in_flight sc))) \<le> eff now (get_object_state k st)" for k
    using inv(3) [of k] by (simp add: foreign_locks_def store_locks_def comp_def)
  from cleanup_loop_returns [OF assms(1) inv(1,2) this] show ?thesis
    using s by (auto simp: cleanup_in_flight_tasks_def foreign_locks_def store_locks_def)
qed

lemma reserve_read_listeners: "listeners (snd (reserve_read now ks ec st)) = map (on_l1_keys_reserved_read (snd (snd (fold (reserve_read_step now (nat (1 + validate_extra_count ec))) ks (objects st, [], []))))) (listeners st)"
  by (auto simp: reserve_read_def Let_def publish_def notify_def split: prod.splits)

lemma store_to_adapter_listeners:
  fixes s :: "'b l1 \<times> ('b, 'a) store_controller"
  shows "listeners (fst (store_to_adapter ops now target s)) = listeners (fst s)"
proof -
  have "map (on_l1_keys_reserved_read ks) ls = ls" for ks :: "'b list" and ls by (induction ls) simp_all
  then have "listeners (snd (reserve_read now ks ec st)) = listeners st" for ks ec and st :: "'b l1"
    by (simp add: reserve_read_listeners)
  then have "reserve_read now ks ec st = (r, st') \<Longrightarrow> listeners st' = listeners st" for ks ec r and st st' :: "'b l1"
    by (metis snd_conv)
  then show ?thesis by (auto simp: store_to_adapter_def Let_def split: prod.splits)
qed

lemma fold_listeners: "fold (store_to_adapter ops now) plan s = (st', sc') \<Longrightarrow> listeners st' = listeners (fst s)"
proof (induction plan arbitrary: s)
  case (Cons x plan)
  then show ?case using store_to_adapter_listeners [of ops now x s] by simp
qed simp

section \<open>Properties\<close>

text \<open>A controller over one mock adapter, registered before two keys are written and finished.\<close>

definition sample_store_start :: "(int, (int, int) mock) store_controller \<times> int l1" where
  "sample_store_start = store_controller_init [mock_init 100000] [\<lparr>ad_index = 0, ad_type_name = ''mock''\<rparr>] DefaultStorePolicy sample_l1"

definition sample_store :: "int l1 \<times> (int, (int, int) mock) store_controller" where
  "sample_store = (snd (finish_write 1 [1, 2] (snd (reserve_write reference_env 0 [1, 2] [False, False]
     sample_layout ModeNew (snd sample_store_start)))), fst sample_store_start)"

lemma eff_nonneg: "l1_inv st \<Longrightarrow> 0 \<le> eff now (get_object_state k st)"
  by (auto simp: eff_def is_locked_def split: option.splits)

text \<open>A controller that has no task yet satisfies its invariant.\<close>

lemma store_inv_init:
  "l1_inv st \<Longrightarrow> excl_table now (objects st) \<Longrightarrow> sc_in_flight sc = [] \<Longrightarrow> store_inv issued now (st, sc)"
  by (simp add: store_inv_def tracked_def foreign_locks_def store_locks_def eff_nonneg)

lemma sample_store_inv: "l1_inv (fst sample_store)" "store_inv mock_issued 1 sample_store"
proof -
  let ?st0 = "register_listener (StoreListener store_listener_new) sample_l1"
  let ?st1 = "snd (reserve_write reference_env 0 [1, 2] [False, False] sample_layout ModeNew ?st0)"
  have st: "fst sample_store = snd (finish_write 1 [1, 2] ?st1)"
    by (simp add: sample_store_def sample_store_start_def store_controller_init_def)
  have "l1_inv ?st0" by (rule register_listener_inv [OF sample_l1_inv]) simp
  from reserve_write_inv [OF reference_sorted_list_ok sample_layout_ok this, of 0 "[1, 2]" "[False, False]" ModeNew]
  have "l1_inv ?st1" by auto
  then show inv: "l1_inv (fst sample_store)" unfolding st by (rule finish_write_inv)
  have "excl_table 0 (objects ?st0)" by (simp add: register_listener_def sample_l1_def l1_init_def excl_table_def)
  from excl_reserve_write [OF this] have "excl_table 0 (objects ?st1)" .
  then have "excl_table 1 (objects ?st1)" using excl_later by (fastforce simp: excl_table_def)
  from excl_run_op [OF this, of reference_env "FinishWrite [1, 2]"] have "excl_table 1 (objects (fst sample_store))"
    unfolding st by simp
  from store_inv_init [OF inv this, of "snd sample_store"] show "store_inv mock_issued 1 sample_store"
    by (simp add: sample_store_def sample_store_start_def store_controller_init_def)
qed

text \<open>C12: The store controller gives back exactly the read locks it takes. From any state where the locks it
  tracks are among those held, a turn of its loop, for whichever event, over any policy, any number of mock
  adapters and any keys, returns, keeps the tracking consistent (task identifiers distinct and issued) and
  changes no key's count of read locks other than its own; and stopping it then leaves on every key exactly
  the read locks that the others held before the turn.\<close>

theorem store_controller_balances_locks:
  assumes "sorted_list_ok E" "store_inv mock_issued now s"
  shows "\<exists>s' s''. store_turn mock_ops E now ev s = (Inr (), s') \<and> store_inv mock_issued now s' \<and>
    (\<forall>k. foreign_locks now s' k = foreign_locks now s k) \<and>
    cleanup_in_flight_tasks E now s' = (Inr (), s'') \<and> sc_in_flight (snd s'') = [] \<and>
    (\<forall>k. eff now (get_object_state k (fst s'')) = foreign_locks now s k)"
proof -
  obtain s' where s': "store_turn mock_ops E now ev s = (Inr (), s')" "store_inv mock_issued now s'"
    "\<forall>k. foreign_locks now s' k = foreign_locks now s k"
    using store_turn_keeps [OF assms(1), of now "fst s" "snd s" ev] assms(2) by auto
  from cleanup_returns [OF assms(1) s'(2)] show ?thesis using s' by metis
qed

theorem store_controller_balances_locks_witness:
  "\<exists>s' s''. store_turn mock_ops reference_env 1 ListenerReady sample_store = (Inr (), s') \<and>
    cleanup_in_flight_tasks reference_env 1 s' = (Inr (), s'') \<and> sc_in_flight (snd s'') = [] \<and>
    eff 1 (get_object_state 1 (fst s'')) = 0"
proof -
  have "foreign_locks 1 sample_store 1 = 0" by code_simp
  with store_controller_balances_locks [OF reference_sorted_list_ok sample_store_inv(2), of ListenerReady] show ?thesis
    by metis
qed

text \<open>C13: Every key whose write finished reaches every adapter. When the listener is ready, the controller takes all
  the pending keys and hands each adapter one store task with those of them that are readable, in order and
  with their own memory objects, whatever locks the earlier adapters' tasks have taken; an adapter gets no task
  when none is readable, and no key stays pending.\<close>

theorem written_keys_reach_every_adapter:
  assumes "l1_inv st" "sc_listener sc < length (listeners st)" "listeners st ! sc_listener sc = StoreListener l"
    and "map ad_index (sc_descriptors sc) = [0..<length (sc_adapters sc)]" "i < length (sc_adapters sc)"
  shows "\<exists>st' sc'. store_turn mock_ops E now ListenerReady (st, sc) = (Inr (), (st', sc')) \<and>
    (let batch = readable_batch now st (pending_keys l); a = sc_adapters sc ! i; a' = sc_adapters sc' ! i
     in mk_jobs a' = mk_jobs a @ (if batch = [] then [] else [StoreJob (map fst batch) (map snd batch) (mk_next_id a)]) \<and>
        mk_next_id a' = mk_next_id a + (if batch = [] then 0 else 1)) \<and>
    (\<exists>l'. listeners st' ! sc_listener sc = StoreListener l' \<and> pending_keys l' = [])"
proof -
  let ?l = "l\<lparr>pending_keys := []\<rparr>" and ?ks = "pending_keys l"
  let ?st = "st\<lparr>listeners := (listeners st)[sc_listener sc := StoreListener ?l]\<rparr>"
  have t: "take_pending (sc_listener sc) st = (?ks, ?st)"
    using assms(3) by (simp add: take_pending_def pop_pending_keys_def)
  have inv: "l1_inv ?st" using take_pending_keeps [OF t assms(1)] by blast
  have batch: "readable_batch now ?st ks = readable_batch now st ks" for ks
    by (simp add: readable_batch_def get_object_state_def)
  have pend: "listeners ?st ! sc_listener sc = StoreListener ?l" using assms(2) by simp
  show ?thesis
  proof (cases "?ks = []")
    case True
    then have "store_turn mock_ops E now ListenerReady (st, sc) = (Inr (), (?st, sc))" "readable_batch now st ?ks = []"
      using t by (simp_all add: readable_batch_def)
    then show ?thesis using pend by (intro exI [of _ ?st] exI [of _ sc]) (auto simp: Let_def)
  next
    case False
    let ?plan = "map (\<lambda>i. (i, ?ks)) [0..<length (sc_adapters sc)]"
    obtain st' sc' where f: "fold (store_to_adapter mock_ops now) ?plan (?st, sc) = (st', sc')"
      by (cases "fold (store_to_adapter mock_ops now) ?plan (?st, sc)")
    have "select_store_targets (sc_policy sc) ?ks (sc_descriptors sc) = ?plan"
      using select_store_targets_all [of "sc_descriptors sc" "sc_policy sc" ?ks] assms(4) by simp
    then have turn: "store_turn mock_ops E now ListenerReady (st, sc) = (Inr (), (st', sc'))"
      using t False f by (simp add: process_new_keys_def)
    have set: "set [0..<length (sc_adapters sc)] \<subseteq> {..<length (sc_adapters sc)}" by auto
    from targets_submit [OF inv False distinct_upt set f] assms(5)
    have a: "sc_adapters sc' ! i = submitted mock_ops (readable_batch now st ?ks) (sc_adapters sc ! i)"
      by (simp add: batch)
    have "\<exists>l'. listeners st' ! sc_listener sc = StoreListener l' \<and> pending_keys l' = []"
      using fold_listeners [OF f] assms(2) by simp
    with turn a show ?thesis
      by (intro exI [of _ st'] exI [of _ sc'])
        (auto simp: submitted_def mock_ops_def mock_submit_store_task_def get_next_task_id_def Let_def)
  qed
qed

theorem written_keys_reach_every_adapter_witness:
  "\<exists>st' sc'. store_turn mock_ops reference_env 1 ListenerReady sample_store = (Inr (), (st', sc')) \<and>
    mk_jobs (sc_adapters sc' ! 0) = [StoreJob [1, 2] [0, 1] 0]"
proof -
  have "listeners (fst sample_store) = [StoreListener \<lparr>pending_keys = [1, 2], event_count = 1\<rparr>]"
    "readable_batch 1 (fst sample_store) [1, 2] = [(1, 0), (2, 1)]"
    "sc_listener (snd sample_store) = 0" "sc_adapters (snd sample_store) = [mock_init 100000]"
    "map ad_index (sc_descriptors (snd sample_store)) = [0]" "mk_jobs (mock_init 100000 :: (int, int) mock) = []"
    "mk_next_id (mock_init 100000 :: (int, int) mock) = 0"
    by code_simp+
  with written_keys_reach_every_adapter [OF sample_store_inv(1), of "snd sample_store" "\<lparr>pending_keys = [1, 2], event_count = 1\<rparr>" 0 reference_env 1]
  show ?thesis by (auto simp: Let_def)
qed

end
