(* ===== verification/Prefetch_Plan.thy ===== *)
theory Prefetch_Plan
  imports Store_Controller
begin

text \<open>
  The load plan of a prefetch: the default policy of lmcache/v1/distributed/
  storage_controllers/prefetch_policy.py, which chooses the adapter that loads each key, and
  the helpers of prefetch_controller.py that trim a plan to a prefix of the keys. A plan
  maps an adapter's index to the bitmap of the keys it loads.
\<close>

section \<open>The policy\<close>

datatype prefetch_policy = DefaultPrefetchPolicy

definition create_prefetch_policy :: "string \<Rightarrow> py_error + prefetch_policy" where
  "create_prefetch_policy name = (if name \<noteq> ''default'' then Inl ValueError else Inr DefaultPrefetchPolicy)"

definition load_plan_step :: "(nat, bitmap) dict \<Rightarrow> adapter_descriptor \<Rightarrow> (nat, bitmap) dict \<times> bitmap \<Rightarrow> (nat, bitmap) dict \<times> bitmap" where
  "load_plan_step lookup_results ad s =
     (case s of (plan, global_bitmap) \<Rightarrow>
        case map_of lookup_results (ad_index ad) of
          None \<Rightarrow> s
        | Some curr_bitmap \<Rightarrow>
            let local_bitmap = bm_and global_bitmap curr_bitmap;
                global' = bm_and global_bitmap (bm_not local_bitmap)
            in if bm_popcount local_bitmap = 0 then (plan, global')
               else (dict_set (ad_index ad) local_bitmap plan, global'))"

definition select_load_plan :: "'k list \<Rightarrow> (nat, bitmap) dict \<Rightarrow> adapter_descriptor list \<Rightarrow> (nat, bitmap) dict" where
  "select_load_plan keys lookup_results adapters =
     (let global_bitmap = fold (\<lambda>b g. bm_or g b) (dict_values lookup_results) (bm_new (length keys))
      in fst (fold (load_plan_step lookup_results) (sort_key ad_index adapters) ([], global_bitmap)))"

section \<open>Trimming\<close>

definition trim_load_plan_to_first_n_keys :: "(nat, bitmap) dict \<Rightarrow> nat \<Rightarrow> nat \<Rightarrow> (nat, bitmap) dict" where
  "trim_load_plan_to_first_n_keys load_plan num_keys n =
     (if n = 0 then []
      else let mask_bitmap = bm_prefix num_keys n
           in fold (\<lambda>(adapter_idx, b) trimmed.
                let new_bitmap = bm_and b mask_bitmap
                in if bm_popcount new_bitmap = 0 then trimmed else dict_set adapter_idx new_bitmap trimmed)
              load_plan [])"

definition trim_load_plan_to_prefix :: "(nat, bitmap) dict \<Rightarrow> nat \<Rightarrow> (nat, bitmap) dict" where
  "trim_load_plan_to_prefix load_plan num_keys =
     (let merged_plan = fold (\<lambda>b m. bm_or m b) (dict_values load_plan) (bm_new num_keys)
      in trim_load_plan_to_first_n_keys load_plan num_keys (bm_clo merged_plan))"

definition merge_bitmaps :: "bitmap list \<Rightarrow> nat \<Rightarrow> bitmap" where
  "merge_bitmaps bitmaps num_keys =
     (if bitmaps = [] then bm_new 0 else fold (\<lambda>b m. bm_or m b) bitmaps (bm_new num_keys))"

section \<open>A plan as sets of positions\<close>

definition positions :: "(nat, bitmap) dict \<Rightarrow> nat \<Rightarrow> nat set" where
  "positions plan i = (case map_of plan i of None \<Rightarrow> {} | Some b \<Rightarrow> {j. j < bm_size b \<and> bm_bits b ! j})"

text \<open>All the bitmaps of a plan are over n keys, and one per adapter.\<close>

definition plan_ok :: "nat \<Rightarrow> (nat, bitmap) dict \<Rightarrow> bool" where
  "plan_ok n plan \<longleftrightarrow> distinct (dict_keys plan) \<and> (\<forall>b \<in> set (dict_values plan). bm_ok b \<and> bm_size b = n)"

lemma plan_ok_entry: "plan_ok n plan \<Longrightarrow> (i, b) \<in> set plan \<Longrightarrow> bm_ok b \<and> bm_size b = n"
  by (auto simp: plan_ok_def)

lemma plan_ok_means: "plan_ok n plan \<Longrightarrow> map_of plan i = Some b \<Longrightarrow> bm.means n (positions plan i) b"
  by (auto simp: plan_ok_def bm.means_def positions_def dest: map_of_SomeD)

lemma positions_none [simp]: "map_of plan i = None \<Longrightarrow> positions plan i = {}" "positions [] i = {}"
  by (simp_all add: positions_def)

lemma positions_set: "bm.means n X b \<Longrightarrow> positions (dict_set i b plan) j = (if j = i then X else positions plan j)"
  by (simp add: positions_def dict_simps bm.means_def)

lemma plan_ok_set: "bm.means n X b \<Longrightarrow> plan_ok n plan \<Longrightarrow> plan_ok n (dict_set i b plan)"
proof -
  assume m: "bm.means n X b" and p: "plan_ok n plan"
  have "set (dict_values (dict_set i b plan)) \<subseteq> insert b (set (dict_values plan))"
    by (induction plan) auto
  moreover have "bm_ok b \<and> bm_size b = n" "\<forall>c \<in> set (dict_values plan). bm_ok c \<and> bm_size c = n"
    using m p by (simp_all add: bm.means_def plan_ok_def)
  ultimately have "\<forall>c \<in> set (dict_values (dict_set i b plan)). bm_ok c \<and> bm_size c = n" by blast
  then show ?thesis using p unfolding plan_ok_def by blast
qed

lemma positions_below: "plan_ok n plan \<Longrightarrow> positions plan i \<subseteq> {..<n}"
  using plan_ok_means [of n plan i] bm.means_below by (cases "map_of plan i") auto

lemma plan_ok_Nil [simp]: "plan_ok n []"
  by (simp add: plan_ok_def)

lemma positions_union: "distinct (dict_keys plan) \<Longrightarrow>
    (\<Union>b \<in> set (dict_values plan). {j. j < bm_size b \<and> bm_bits b ! j}) = (\<Union>i. positions plan i)"
proof (intro set_eqI iffI)
  fix j
  assume d: "distinct (dict_keys plan)"
  assume "j \<in> (\<Union>b \<in> set (dict_values plan). {j. j < bm_size b \<and> bm_bits b ! j})"
  then obtain i b where "(i, b) \<in> set plan" "j < bm_size b \<and> bm_bits b ! j" by auto
  then have "j \<in> positions plan i" using map_of_is_SomeI [OF d] by (simp add: positions_def)
  then show "j \<in> (\<Union>i. positions plan i)" by blast
next
  fix j
  assume "j \<in> (\<Union>i. positions plan i)"
  then obtain i where "j \<in> positions plan i" by blast
  then obtain b where "map_of plan i = Some b" "j < bm_size b \<and> bm_bits b ! j"
    by (auto simp: positions_def split: option.splits)
  then show "j \<in> (\<Union>b \<in> set (dict_values plan). {j. j < bm_size b \<and> bm_bits b ! j})"
    by (force dest: map_of_SomeD)
qed

text \<open>The merge of a plan is the union of what its adapters load.\<close>

lemma merged_means:
  assumes "plan_ok n plan"
  shows "bm.means n (\<Union>i. positions plan i) (fold (\<lambda>b m. bm_or m b) (dict_values plan) (bm_new n))"
proof -
  let ?X = "\<lambda>b. {j. j < bm_size b \<and> bm_bits b ! j}"
  have "list_all2 (bm.means n) (map ?X (dict_values plan)) (dict_values plan)"
    using assms by (auto simp: list_all2_conv_all_nth plan_ok_def bm.means_def)
  from bm.means_union [OF this bm.means_empty] show ?thesis
    using positions_union [of plan] assms by (simp add: plan_ok_def)
qed

lemma load_plan_fold:
  assumes "plan_ok n lookups" "bm.means n G g" "plan_ok n plan"
    and "distinct (map ad_index ads)" "sorted (map ad_index ads)"
    and "set (map ad_index ads) \<inter> set (dict_keys plan) = {}"
  shows "plan_ok n (fst (fold (load_plan_step lookups) ads (plan, g))) \<and>
    (\<forall>i. positions (fst (fold (load_plan_step lookups) ads (plan, g))) i =
      (if i \<in> set (map ad_index ads)
       then G \<inter> positions lookups i - (\<Union>i' \<in> {i' \<in> set (map ad_index ads). i' < i}. positions lookups i')
       else positions plan i))"
  using assms(2-6)
proof (induction ads arbitrary: plan g G)
  case (Cons ad ads)
  let ?a = "ad_index ad"
  have fresh: "map_of plan ?a = None" using Cons.prems(5) dict_in_keys_iff [of ?a plan] by auto
  have less: "?a < i" if "i \<in> set (map ad_index ads)" for i
    using Cons.prems(3,4) that by (auto simp: less_le)
  obtain plan' g' where step: "load_plan_step lookups ad (plan, g) = (plan', g')" by fastforce
  have one: "plan_ok n plan' \<and> bm.means n (G - positions lookups ?a) g' \<and>
      (\<forall>i. positions plan' i = (if i = ?a then G \<inter> positions lookups ?a else positions plan i)) \<and>
      set (dict_keys plan') \<subseteq> insert ?a (set (dict_keys plan))"
  proof (cases "map_of lookups ?a")
    case None
    then show ?thesis using step Cons.prems(1,2) fresh by (auto simp: load_plan_step_def)
  next
    case (Some c)
    let ?L = "G \<inter> positions lookups ?a"
    have l: "bm.means n ?L (bm_and g c)" by (rule bm.means_conj [OF Cons.prems(1) plan_ok_means [OF assms(1) Some]])
    have "bm.means n (G \<inter> ({..<n} - ?L)) (bm_and g (bm_not (bm_and g c)))"
      by (rule bm.means_conj [OF Cons.prems(1) bm.means_neg [OF l]])
    moreover have "G \<inter> ({..<n} - ?L) = G - positions lookups ?a" using bm.means_below [OF Cons.prems(1)] by auto
    ultimately have g': "bm.means n (G - positions lookups ?a) g'"
      using step Some by (auto simp: load_plan_step_def Let_def split: if_splits)
    show ?thesis
    proof (cases "bm_popcount (bm_and g c) = 0")
      case True
      then have "plan' = plan" "?L = {}" using step Some bm.means_count [OF l] by (auto simp: load_plan_step_def Let_def)
      then show ?thesis using g' Cons.prems(2) fresh by auto
    next
      case False
      then have "plan' = dict_set ?a (bm_and g c) plan" using step Some by (auto simp: load_plan_step_def Let_def)
      then show ?thesis using g' positions_set [OF l] plan_ok_set [OF l Cons.prems(2)] set_dict_keys_set [of ?a _ plan] by auto
    qed
  qed
  have "?a \<notin> set (map ad_index ads)" "set (map ad_index ads) \<inter> set (dict_keys plan) = {}"
    using Cons.prems(3,5) by auto
  with one have "set (map ad_index ads) \<inter> set (dict_keys plan') = {}" by blast
  with Cons.IH [of "G - positions lookups ?a" g' plan'] one Cons.prems(3,4)
  have ih: "plan_ok n (fst (fold (load_plan_step lookups) ads (plan', g')))"
    "\<And>i. positions (fst (fold (load_plan_step lookups) ads (plan', g'))) i =
      (if i \<in> set (map ad_index ads)
       then (G - positions lookups ?a) \<inter> positions lookups i - (\<Union>i' \<in> {i' \<in> set (map ad_index ads). i' < i}. positions lookups i')
       else positions plan' i)" by simp_all
  have "positions (fst (fold (load_plan_step lookups) ads (plan', g'))) i =
      (if i \<in> set (map ad_index (ad # ads))
       then G \<inter> positions lookups i - (\<Union>i' \<in> {i' \<in> set (map ad_index (ad # ads)). i' < i}. positions lookups i')
       else positions plan i)" for i
  proof (cases "i = ?a")
    case True
    then have out: "i \<notin> set (map ad_index ads)" using Cons.prems(3) by simp
    have none: "{i' \<in> set (map ad_index (ad # ads)). i' < i} = {}" using True less by fastforce
    show ?thesis unfolding none using ih(2) [of i] one out True by simp
  next
    case False
    show ?thesis
    proof (cases "i \<in> set (map ad_index ads)")
      case True
      then have "{i' \<in> set (map ad_index (ad # ads)). i' < i} = insert ?a {i' \<in> set (map ad_index ads). i' < i}"
        using less by auto
      then show ?thesis using True ih(2) [of i] False by auto
    qed (use False ih(2) [of i] one in auto)
  qed
  then show ?case using ih(1) step by simp
qed simp

lemma select_load_plan_positions:
  assumes "plan_ok (length keys) lookups" "distinct (map ad_index ads)"
  shows "plan_ok (length keys) (select_load_plan keys lookups ads) \<and>
    (\<forall>i. positions (select_load_plan keys lookups ads) i =
      (if i \<in> set (map ad_index ads)
       then positions lookups i - (\<Union>i' \<in> {i' \<in> set (map ad_index ads). i' < i}. positions lookups i')
       else {}))"
proof -
  let ?U = "\<Union>i. positions lookups i"
  have s: "set (map ad_index (sort_key ad_index ads)) = set (map ad_index ads)" by simp
  have d: "distinct (map ad_index (sort_key ad_index ads))" using assms(2) by (simp add: distinct_map)
  have "?U \<inter> X = X" if "X = positions lookups i" for X i using that by blast
  then have u: "?U \<inter> positions lookups i = positions lookups i" for i by blast
  from load_plan_fold [OF assms(1) merged_means [OF assms(1)] plan_ok_Nil d sorted_sort_key]
  show ?thesis unfolding select_load_plan_def Let_def by (simp only: s u) simp
qed

lemma trim_first_n_positions:
  assumes "plan_ok n plan" "p \<le> n"
  shows "plan_ok n (trim_load_plan_to_first_n_keys plan n p) \<and>
    (\<forall>i. positions (trim_load_plan_to_first_n_keys plan n p) i = positions plan i \<inter> {..<p}) \<and>
    (\<forall>i. map_of (trim_load_plan_to_first_n_keys plan n p) i = None \<longleftrightarrow> positions plan i \<inter> {..<p} = {})"
proof (cases "p = 0")
  case True
  then show ?thesis by (simp add: trim_load_plan_to_first_n_keys_def)
next
  case False
  let ?step = "\<lambda>(adapter_idx, b) trimmed. let new_bitmap = bm_and b (bm_prefix n p)
      in if bm_popcount new_bitmap = 0 then trimmed else dict_set adapter_idx new_bitmap trimmed"
  have "plan_ok n (fold ?step xs t) \<and>
      (\<forall>i. positions (fold ?step xs t) i = (if i \<in> set (dict_keys xs) then positions xs i \<inter> {..<p} else positions t i)) \<and>
      (\<forall>i. map_of (fold ?step xs t) i = None \<longleftrightarrow>
        (if i \<in> set (dict_keys xs) then positions xs i \<inter> {..<p} = {} else map_of t i = None))"
    if "plan_ok n xs" "plan_ok n t" "set (dict_keys xs) \<inter> set (dict_keys t) = {}" for xs t
    using that
  proof (induction xs arbitrary: t)
    case (Cons x xs)
    obtain i b where x: "x = (i, b)" by (cases x)
    have ok: "plan_ok n xs" "i \<notin> set (dict_keys xs)" using Cons.prems(1) x by (auto simp: plan_ok_def)
    have P: "bm.means n (positions (x # xs) i \<inter> {..<p}) (bm_and b (bm_prefix n p))"
      using bm.means_conj [OF plan_ok_means [OF Cons.prems(1), of i b] bm.means_first [OF assms(2)]] x by simp
    have same: "positions (x # xs) j = positions xs j" if "j \<in> set (dict_keys xs)" for j
      using that ok(2) x by (auto simp: positions_def)
    have ti: "map_of t i = None" using Cons.prems(3) x dict_in_keys_iff [of i t] by auto
    let ?t = "?step x t"
    have t': "plan_ok n ?t \<and> positions ?t i = positions (x # xs) i \<inter> {..<p} \<and>
        (map_of ?t i = None \<longleftrightarrow> positions (x # xs) i \<inter> {..<p} = {}) \<and>
        (\<forall>j. j \<noteq> i \<longrightarrow> map_of ?t j = map_of t j)"
    proof (cases "bm_popcount (bm_and b (bm_prefix n p)) = 0")
      case True
      then have "?t = t" "positions (x # xs) i \<inter> {..<p} = {}" using bm.means_count [OF P] x by simp_all
      then show ?thesis using Cons.prems(2) ti by simp
    next
      case False
      then have t: "?t = dict_set i (bm_and b (bm_prefix n p)) t" and ne: "positions (x # xs) i \<inter> {..<p} \<noteq> {}"
        using bm.means_count [OF P] x by simp_all
      show ?thesis using plan_ok_set [OF P Cons.prems(2)] positions_set [OF P] ne unfolding t by (simp add: dict_simps)
    qed
    have "set (dict_keys xs) \<inter> set (dict_keys ?t) = {}"
    proof -
      have "j \<notin> set (dict_keys ?t)" if j: "j \<in> set (dict_keys xs)" for j
      proof -
        have "j \<noteq> i" using j ok(2) by blast
        moreover have "j \<notin> set (dict_keys t)" using Cons.prems(3) j by auto
        ultimately have "map_of ?t j = None" using t' dict_in_keys_iff [of j t] by simp
        then show ?thesis using dict_in_keys_iff [of j ?t] by blast
      qed
      then show ?thesis by blast
    qed
    note I = Cons.IH [OF ok(1) conjunct1 [OF t'] this]
    note ih = conjunct1 [OF I] spec [OF conjunct1 [OF conjunct2 [OF I]]] spec [OF conjunct2 [OF conjunct2 [OF I]]]
    have pt: "positions ?t j = positions t j" if "j \<noteq> i" for j using t' that by (simp only: positions_def) simp
    have fold: "fold ?step (x # xs) t = fold ?step xs ?t" by simp
    have keys: "j \<in> set (dict_keys (x # xs)) \<longleftrightarrow> j = i \<or> j \<in> set (dict_keys xs)" for j using x by auto
    show ?case unfolding fold keys
    proof (intro conjI allI)
      show "plan_ok n (fold ?step xs ?t)" by (rule ih(1))
      fix j
      show "positions (fold ?step xs ?t) j =
          (if j = i \<or> j \<in> set (dict_keys xs) then positions (x # xs) j \<inter> {..<p} else positions t j)"
        using ih(2) [of j] t' pt [of j] same [of j] ok(2) by (cases "j = i") simp_all
      show "(map_of (fold ?step xs ?t) j = None) =
          (if j = i \<or> j \<in> set (dict_keys xs) then positions (x # xs) j \<inter> {..<p} = {} else map_of t j = None)"
        using ih(3) [of j] t' same [of j] ok(2) by (cases "j = i") simp_all
    qed
  qed simp
  from this [OF assms(1), of "[]"] show ?thesis
    using False dict_in_keys_iff [of _ plan] unfolding trim_load_plan_to_first_n_keys_def Let_def
    by auto
qed

lemma trim_prefix_positions:
  assumes "plan_ok n plan"
  obtains p where "p \<le> n" "{..<p} \<subseteq> (\<Union>i. positions plan i)" "p \<notin> (\<Union>i. positions plan i)"
    "plan_ok n (trim_load_plan_to_prefix plan n)"
    "\<And>i. positions (trim_load_plan_to_prefix plan n) i = positions plan i \<inter> {..<p}"
    "\<And>i. map_of (trim_load_plan_to_prefix plan n) i = None \<longleftrightarrow> positions plan i \<inter> {..<p} = {}"
proof -
  let ?p = "bm_clo (fold (\<lambda>b m. bm_or m b) (dict_values plan) (bm_new n))"
  have p: "?p \<le> n" "{..<?p} \<subseteq> (\<Union>i. positions plan i)" "?p \<notin> (\<Union>i. positions plan i)"
    using bm.means_ones [OF merged_means [OF assms], of ?p] by blast+
  have t: "trim_load_plan_to_prefix plan n = trim_load_plan_to_first_n_keys plan n ?p"
    by (simp add: trim_load_plan_to_prefix_def)
  note f = trim_first_n_positions [OF assms p(1)]
  show ?thesis
  proof (rule that [OF p])
    show "plan_ok n (trim_load_plan_to_prefix plan n)" unfolding t by (rule conjunct1 [OF f])
    show "positions (trim_load_plan_to_prefix plan n) i = positions plan i \<inter> {..<?p}" for i
      unfolding t by (rule spec [OF conjunct1 [OF conjunct2 [OF f]]])
    show "map_of (trim_load_plan_to_prefix plan n) i = None \<longleftrightarrow> positions plan i \<inter> {..<?p} = {}" for i
      unfolding t by (rule spec [OF conjunct2 [OF conjunct2 [OF f]]])
  qed
qed

lemma takeWhile_upt: "length (takeWhile P [0 ..< n]) = m \<longleftrightarrow> m \<le> n \<and> (\<forall>i < m. P i) \<and> (m < n \<longrightarrow> \<not> P m)"
proof -
  have "length (takeWhile P [0 ..< n]) = length (takeWhile id (map P [0 ..< n]))"
    by (simp add: takeWhile_map)
  then show ?thesis using bm.takeWhile_ones [of "map P [0 ..< n]" m] by auto
qed

lemma least_union: "(\<Union>i. if i \<in> I then X i - (\<Union>i' \<in> {i' \<in> I. i' < i}. X i') else {}) = (\<Union>(i :: nat) \<in> I. X i)"
proof (intro equalityI subsetI)
  fix j
  assume "j \<in> (\<Union>i \<in> I. X i)"
  then have "\<exists>i. i \<in> I \<and> j \<in> X i" by blast
  from exists_least_iff [THEN iffD1, OF this] obtain i where "i \<in> I" "j \<in> X i" "\<forall>i' < i. \<not> (i' \<in> I \<and> j \<in> X i')"
    by blast
  then show "j \<in> (\<Union>i. if i \<in> I then X i - (\<Union>i' \<in> {i' \<in> I. i' < i}. X i') else {})"
    by (intro UN_I [of i]) auto
qed (auto split: if_splits)

section \<open>Properties\<close>

text \<open>C11: The load plan covers exactly the prefix of the keys that some adapter has, each key once. For any lookup
  results over the keys and any descriptors with distinct indices, adapter i is told to load key j exactly if
  j is before the first key that no adapter has, i has j, and no adapter with a smaller index has it; and no
  adapter with nothing to load appears in the plan.\<close>

theorem load_plan_is_the_found_prefix:
  assumes "plan_ok (length keys) lookups" "distinct (map ad_index ads)"
  shows "let has = (\<lambda>i j. i \<in> set (map ad_index ads) \<and> (\<exists>b. map_of lookups i = Some b \<and> bm_test j b));
             p = length (takeWhile (\<lambda>j. \<exists>i. has i j) [0 ..< length keys]);
             plan = trim_load_plan_to_prefix (select_load_plan keys lookups ads) (length keys)
    in plan_ok (length keys) plan \<and>
       (\<forall>i j. (\<exists>b. map_of plan i = Some b \<and> bm_test j b) \<longleftrightarrow> j < p \<and> has i j \<and> \<not> (\<exists>i' < i. has i' j)) \<and>
       (\<forall>i. map_of plan i \<noteq> None \<longleftrightarrow> (\<exists>b j. map_of plan i = Some b \<and> bm_test j b))"
proof -
  let ?n = "length keys" and ?I = "set (map ad_index ads)"
  let ?has = "\<lambda>i j. i \<in> ?I \<and> (\<exists>b. map_of lookups i = Some b \<and> bm_test j b)"
  let ?full = "select_load_plan keys lookups ads"
  let ?plan = "trim_load_plan_to_prefix ?full ?n"
  have test: "(\<exists>b. map_of plan i = Some b \<and> bm_test j b) \<longleftrightarrow> j \<in> positions plan i" for plan i j
    by (cases "map_of plan i") (auto simp: positions_def)
  have has: "?has i j \<longleftrightarrow> i \<in> ?I \<and> j \<in> positions lookups i" for i j using test by simp
  have full: "plan_ok ?n ?full" "\<And>i. positions ?full i =
      (if i \<in> ?I then positions lookups i - (\<Union>i' \<in> {i' \<in> ?I. i' < i}. positions lookups i') else {})"
    using select_load_plan_positions [OF assms] by blast+
  have U: "(\<Union>i. positions ?full i) = (\<Union>i \<in> ?I. positions lookups i)" unfolding full(2) by (rule least_union)
  obtain p where p: "p \<le> ?n" "{..<p} \<subseteq> (\<Union>i \<in> ?I. positions lookups i)" "p \<notin> (\<Union>i \<in> ?I. positions lookups i)"
    "plan_ok ?n ?plan" "\<And>i. positions ?plan i = positions ?full i \<inter> {..<p}"
    "\<And>i. map_of ?plan i = None \<longleftrightarrow> positions ?full i \<inter> {..<p} = {}"
    using trim_prefix_positions [OF full(1)] unfolding U by blast
  have len: "length (takeWhile (\<lambda>j. \<exists>i. ?has i j) [0 ..< ?n]) = p"
    unfolding takeWhile_upt has using p(1-3) by blast
  have cover: "j \<in> positions ?plan i \<longleftrightarrow> j < p \<and> ?has i j \<and> \<not> (\<exists>i' < i. ?has i' j)" for i j
    unfolding has p(5) full(2) by auto
  have "map_of ?plan i \<noteq> None \<longleftrightarrow> (\<exists>j. j \<in> positions ?plan i)" for i unfolding p(5,6) by blast
  then have some: "map_of ?plan i \<noteq> None \<longleftrightarrow> (\<exists>b j. map_of ?plan i = Some b \<and> bm_test j b)" for i
    using test [of ?plan i] by blast
  show ?thesis unfolding Let_def len using p(4) cover some test [of ?plan] by presburger
qed

text \<open>Three adapters that have keys 0 1 3, 1 2 3 and nothing, of five keys.\<close>

definition sample_lookups :: "(nat, bitmap) dict" where
  "sample_lookups = [(1, bm_set 3 (bm_set 2 (bm_set 1 (bm_new 5)))), (0, bm_set 3 (bm_prefix 5 2)), (2, bm_new 5)]"

definition sample_adapters :: "adapter_descriptor list" where
  "sample_adapters = map (\<lambda>i. \<lparr>ad_index = i, ad_type_name = ''mock''\<rparr>) [0, 1, 2]"

theorem load_plan_is_the_found_prefix_witness:
  "plan_ok (length ''abcde'') (trim_load_plan_to_prefix (select_load_plan ''abcde'' sample_lookups sample_adapters) (length ''abcde'')) \<and>
   map (\<lambda>(i, b). (i, bm_get_indices b))
     (trim_load_plan_to_prefix (select_load_plan ''abcde'' sample_lookups sample_adapters) (length ''abcde'')) = [(0, [0, 1, 3]), (1, [2])]"
proof
  have "plan_ok (length ''abcde'') sample_lookups"
    by (simp add: plan_ok_def sample_lookups_def bm_prefix_def bm_set_def bm_new_def bm_ok_def num_bytes_def Let_def)
  moreover have "distinct (map ad_index sample_adapters)" by (simp add: sample_adapters_def)
  ultimately show "plan_ok (length ''abcde'')
      (trim_load_plan_to_prefix (select_load_plan ''abcde'' sample_lookups sample_adapters) (length ''abcde''))"
    by (rule load_plan_is_the_found_prefix [unfolded Let_def, THEN conjunct1])
  show "map (\<lambda>(i, b). (i, bm_get_indices b))
      (trim_load_plan_to_prefix (select_load_plan ''abcde'' sample_lookups sample_adapters) (length ''abcde'')) =
     [(0, [0, 1, 3]), (1, [2])]" by code_simp
qed

end
