(* ===== verification/Prefetch_Controller.thy ===== *)
theory Prefetch_Controller
  imports Prefetch_Plan
begin

text \<open>
  PrefetchController of lmcache/v1/distributed/storage_controllers/prefetch_controller.py:
  requests are submitted from outside into a queue, the background loop looks their keys up
  in every adapter, plans the loads, reserves L1 buffers and submits the loads, and when all
  loads of a request have reported turns the loaded prefix over to its readers. A request is
  shared with the table of requests in flight, so what a handler assigns to it is written
  back to the table. A handler runs at one clock reading.
\<close>

section \<open>State\<close>

datatype prefetch_phase = LOOKUP | PLAN_AND_LOAD

record 'k prefetch_request =
  pr_request_id :: int
  pr_keys :: "'k list"
  pr_layout_desc :: memory_layout_desc
  pr_phase :: prefetch_phase
  pr_extra_count :: int
  pr_pending_lookup_tasks :: "(nat, int) dict"
  pr_lookup_results :: "(nat, bitmap) dict"
  pr_load_plan :: "(nat, bitmap) dict"
  pr_pending_load_tasks :: "(nat, int) dict"
  pr_load_results :: "(nat, bitmap) dict"
  pr_write_reserved_keys :: "'k list"
  pr_write_reserved_objs :: "('k, nat) dict"

definition all_lookups_done :: "'k prefetch_request \<Rightarrow> bool" where
  "all_lookups_done req \<longleftrightarrow> pr_pending_lookup_tasks req = []"

definition all_loads_done :: "'k prefetch_request \<Rightarrow> bool" where
  "all_loads_done req \<longleftrightarrow> pr_pending_load_tasks req = []"

type_synonym 'k submission = "int \<times> 'k list \<times> memory_layout_desc \<times> int"

record ('k, 'a) prefetch_controller =
  pc_adapters :: "'a list"
  pc_descriptors :: "adapter_descriptor list"
  pc_max_in_flight :: int
  pc_in_flight :: "(int, 'k prefetch_request) dict"
  pc_pending_queue :: "'k submission list"
  pc_status_in_flight :: int
  pc_status_pending :: int
  pc_status_lookup_phase :: int
  pc_status_load_phase :: int
  pc_submission_queue :: "'k submission list"
  pc_next_request_id :: int
  pc_completed_results :: "(int, int) dict"

definition prefetch_controller_init :: "'a list \<Rightarrow> adapter_descriptor list \<Rightarrow> int \<Rightarrow> ('k, 'a) prefetch_controller" where
  "prefetch_controller_init adapters descriptors max_in_flight =
     \<lparr>pc_adapters = adapters, pc_descriptors = descriptors, pc_max_in_flight = max_in_flight, pc_in_flight = [],
      pc_pending_queue = [], pc_status_in_flight = 0, pc_status_pending = 0, pc_status_lookup_phase = 0,
      pc_status_load_phase = 0, pc_submission_queue = [], pc_next_request_id = 0, pc_completed_results = []\<rparr>"

definition pc_put :: "'k prefetch_request \<Rightarrow> ('k, 'a) prefetch_controller \<Rightarrow> ('k, 'a) prefetch_controller" where
  "pc_put req pc = pc\<lparr>pc_in_flight := dict_set (pr_request_id req) req (pc_in_flight pc)\<rparr>"

section \<open>Requests from outside\<close>

definition submit_prefetch_request :: "'k list \<Rightarrow> memory_layout_desc \<Rightarrow> int \<Rightarrow> ('k, 'a) prefetch_controller
    \<Rightarrow> int \<times> ('k, 'a) prefetch_controller" where
  "submit_prefetch_request keys layout extra_count pc =
     (let request_id = pc_next_request_id pc
      in (request_id, pc\<lparr>pc_next_request_id := request_id + 1,
                         pc_submission_queue := pc_submission_queue pc @ [(request_id, keys, layout, extra_count)]\<rparr>))"

definition query_prefetch_result :: "int \<Rightarrow> ('k, 'a) prefetch_controller \<Rightarrow> int option \<times> ('k, 'a) prefetch_controller" where
  "query_prefetch_result request_id pc =
     (case dict_pop request_id (pc_completed_results pc) of
        (r, d) \<Rightarrow> (r, pc\<lparr>pc_completed_results := d\<rparr>))"

section \<open>Completion and unlocking\<close>

definition complete_request :: "int \<Rightarrow> int \<Rightarrow> ('k, 'a) prefetch_controller \<Rightarrow> ('k, 'a) prefetch_controller" where
  "complete_request request_id prefix_hits pc =
     (let pc1 = pc\<lparr>pc_completed_results := dict_set request_id prefix_hits (pc_completed_results pc)\<rparr>
      in case dict_pop request_id (pc_in_flight pc1) of
           (None, d) \<Rightarrow> pc1\<lparr>pc_in_flight := d\<rparr>
         | (Some removed, d) \<Rightarrow>
             let pc2 = pc1\<lparr>pc_in_flight := d, pc_status_in_flight := pc_status_in_flight pc1 - 1\<rparr>
             in (case pr_phase removed of
                   LOOKUP \<Rightarrow> pc2\<lparr>pc_status_lookup_phase := pc_status_lookup_phase pc2 - 1\<rparr>
                 | PLAN_AND_LOAD \<Rightarrow> pc2\<lparr>pc_status_load_phase := pc_status_load_phase pc2 - 1\<rparr>))"

definition unlock_at :: "('k, 'a) l2_ops \<Rightarrow> nat \<Rightarrow> 'k list \<Rightarrow> ('k, 'a) prefetch_controller \<Rightarrow> ('k, 'a) prefetch_controller" where
  "unlock_at ops i ks pc = pc\<lparr>pc_adapters := (pc_adapters pc)[i := l2_submit_unlock ops ks (pc_adapters pc ! i)]\<rparr>"

definition unneeded_bitmap :: "'k prefetch_request \<Rightarrow> nat \<Rightarrow> bitmap \<Rightarrow> bitmap" where
  "unneeded_bitmap req i lookup_bitmap =
     (let plan_bitmap = (case map_of (pr_load_plan req) i of None \<Rightarrow> bm_new (length (pr_keys req)) | Some b \<Rightarrow> b)
      in bm_and lookup_bitmap (bm_not plan_bitmap))"

definition unlock_unneeded_keys :: "('k, 'a) l2_ops \<Rightarrow> 'k prefetch_request \<Rightarrow> ('k, 'a) prefetch_controller
    \<Rightarrow> ('k, 'a) prefetch_controller" where
  "unlock_unneeded_keys ops req pc =
     fold (\<lambda>(i, lookup_bitmap) pc.
        let unlock_keys = bm_gather (unneeded_bitmap req i lookup_bitmap) (pr_keys req)
        in if unlock_keys \<noteq> [] then unlock_at ops i unlock_keys pc else pc) (pr_lookup_results req) pc"

definition unlock_all_plan_keys :: "('k, 'a) l2_ops \<Rightarrow> 'k prefetch_request \<Rightarrow> ('k, 'a) prefetch_controller
    \<Rightarrow> ('k, 'a) prefetch_controller" where
  "unlock_all_plan_keys ops req pc =
     fold (\<lambda>(i, load_bitmap) pc. unlock_at ops i (bm_gather load_bitmap (pr_keys req)) pc) (pr_load_plan req) pc"

definition unlock_all_lookups :: "('k, 'a) l2_ops \<Rightarrow> 'k prefetch_request \<Rightarrow> ('k, 'a) prefetch_controller
    \<Rightarrow> ('k, 'a) prefetch_controller" where
  "unlock_all_lookups ops req pc =
     fold (\<lambda>(i, lookup_bitmap) pc.
        let unlock_keys = bm_gather lookup_bitmap (pr_keys req)
        in if unlock_keys \<noteq> [] then unlock_at ops i unlock_keys pc else pc) (pr_lookup_results req) pc"

section \<open>The lookup phase\<close>

definition start_lookup_phase :: "('k, 'a) l2_ops \<Rightarrow> 'k submission \<Rightarrow> ('k, 'a) prefetch_controller
    \<Rightarrow> ('k, 'a) prefetch_controller" where
  "start_lookup_phase ops sub pc =
     (case sub of (request_id, keys, layout, extra_count) \<Rightarrow>
        if pc_adapters pc = [] then complete_request request_id 0 pc
        else let submitted = map (l2_submit_lookup_and_lock_task ops keys) (pc_adapters pc);
                 request = \<lparr>pr_request_id = request_id, pr_keys = keys, pr_layout_desc = layout, pr_phase = LOOKUP,
                   pr_extra_count = extra_count, pr_pending_lookup_tasks = enumerate 0 (map fst submitted),
                   pr_lookup_results = [], pr_load_plan = [], pr_pending_load_tasks = [], pr_load_results = [],
                   pr_write_reserved_keys = [], pr_write_reserved_objs = []\<rparr>;
                 pc1 = pc_put request (pc\<lparr>pc_adapters := map snd submitted\<rparr>)
             in pc1\<lparr>pc_status_in_flight := pc_status_in_flight pc1 + 1,
                    pc_status_lookup_phase := pc_status_lookup_phase pc1 + 1\<rparr>)"

definition drain_submission_queue :: "('k, 'a) prefetch_controller \<Rightarrow> ('k, 'a) prefetch_controller" where
  "drain_submission_queue pc =
     pc\<lparr>pc_submission_queue := [], pc_pending_queue := pc_pending_queue pc @ pc_submission_queue pc,
        pc_status_pending := pc_status_pending pc + int (length (pc_submission_queue pc))\<rparr>"

fun start_pending_loop :: "('k, 'a) l2_ops \<Rightarrow> 'k submission list \<Rightarrow> ('k, 'a) prefetch_controller
    \<Rightarrow> ('k, 'a) prefetch_controller" where
  "start_pending_loop ops [] pc = pc"
| "start_pending_loop ops (sub # queue) pc =
     (if int (length (pc_in_flight pc)) < pc_max_in_flight pc
      then start_pending_loop ops queue
             (start_lookup_phase ops sub (pc\<lparr>pc_pending_queue := queue, pc_status_pending := pc_status_pending pc - 1\<rparr>))
      else pc)"

definition start_pending_requests :: "('k, 'a) l2_ops \<Rightarrow> ('k, 'a) prefetch_controller \<Rightarrow> ('k, 'a) prefetch_controller" where
  "start_pending_requests ops pc = start_pending_loop ops (pc_pending_queue pc) pc"

section \<open>The load phase\<close>

text \<open>The loop over the plan that submits the loads; the objects are looked up by key.\<close>

fun submit_loads :: "('k, 'a) l2_ops \<Rightarrow> (nat, bitmap) dict \<Rightarrow> 'k prefetch_request \<Rightarrow> ('k, 'a) prefetch_controller
    \<Rightarrow> (unit, ('k, 'a) prefetch_controller) outcome" where
  "submit_loads ops [] req pc = (Inr (), pc)"
| "submit_loads ops ((i, b) # plan) req pc =
     (let per_adapter_keys = bm_gather b (pr_keys req)
      in case those (map (map_of (pr_write_reserved_objs req)) per_adapter_keys) of
           None \<Rightarrow> (Inl KeyError, pc)
         | Some per_adapter_objs \<Rightarrow>
             (case l2_submit_load_task ops per_adapter_keys per_adapter_objs (pc_adapters pc ! i) of
                (task_id, a) \<Rightarrow>
                  let req1 = req\<lparr>pr_pending_load_tasks := dict_set i task_id (pr_pending_load_tasks req)\<rparr>
                  in submit_loads ops plan req1 (pc_put req1 (pc\<lparr>pc_adapters := (pc_adapters pc)[i := a]\<rparr>))))"

definition reserved_items :: "('k, l1_result) dict \<Rightarrow> ('k \<times> nat) list" where
  "reserved_items write_results =
     concat (map (\<lambda>(key, err, mem_obj). case mem_obj of
        Some r \<Rightarrow> if err = SUCCESS then [(key, r)] else [] | None \<Rightarrow> []) write_results)"

definition with_reserved :: "('k \<times> nat) list \<Rightarrow> 'k prefetch_request \<Rightarrow> 'k prefetch_request" where
  "with_reserved items req =
     req\<lparr>pr_write_reserved_keys := pr_write_reserved_keys req @ map fst items,
         pr_write_reserved_objs := fold (\<lambda>(k, r). dict_set k r) items (pr_write_reserved_objs req)\<rparr>"

definition reserved_bitmap :: "'k set \<Rightarrow> 'k list \<Rightarrow> bitmap" where
  "reserved_bitmap reserved keys =
     fold (\<lambda>(i, key) b. if key \<in> reserved then bm_set i b else b) (enumerate 0 keys) (bm_new (length keys))"

text \<open>finish_write and then delete, on keys whose buffers will not be filled.\<close>

definition discard_reserved :: "env \<Rightarrow> int \<Rightarrow> 'k list \<Rightarrow> 'k l1 \<Rightarrow> (unit, 'k l1) outcome" where
  "discard_reserved E now keys st =
     (if keys \<noteq> [] then map_prod (map_sum id (\<lambda>_. ())) id (l1_delete E now keys (snd (finish_write now keys st)))
      else (Inr (), st))"

definition transition_to_load_phase :: "('k, 'a) l2_ops \<Rightarrow> env \<Rightarrow> int \<Rightarrow> 'k prefetch_request
    \<Rightarrow> 'k l1 \<times> ('k, 'a) prefetch_controller \<Rightarrow> (unit, 'k l1 \<times> ('k, 'a) prefetch_controller) outcome" where
  "transition_to_load_phase ops E now req s =
     (let n = length (pr_keys req);
          st = fst s;
          req1 = req\<lparr>pr_phase := PLAN_AND_LOAD\<rparr>;
          pc1 = (pc_put req1 (snd s))\<lparr>pc_status_lookup_phase := pc_status_lookup_phase (snd s) - 1,
                                      pc_status_load_phase := pc_status_load_phase (snd s) + 1\<rparr>;
          load_plan = select_load_plan (pr_keys req1) (pr_lookup_results req1) (pc_descriptors pc1);
          trimmed_plan = trim_load_plan_to_prefix load_plan n
      in if trimmed_plan = []
         then (Inr (), (st, complete_request (pr_request_id req1) 0 (unlock_all_lookups ops req1 pc1)))
         else
           let keys_to_reserve = bm_gather (merge_bitmaps (dict_values trimmed_plan) n) (pr_keys req1)
           in case reserve_write E now keys_to_reserve (replicate (length keys_to_reserve) True)
                     (pr_layout_desc req1) ModeNew st of
                (Inl e, st1) \<Rightarrow> (Inl e, (st1, pc1))
              | (Inr write_results, st1) \<Rightarrow>
                  let items = reserved_items write_results;
                      req2 = with_reserved items req1;
                      prefix_length = bm_clo (reserved_bitmap (set (map fst items)) (pr_keys req2));
                      plan = trim_load_plan_to_first_n_keys load_plan n prefix_length;
                      req3 = req2\<lparr>pr_load_plan := plan\<rparr>;
                      pc2 = unlock_unneeded_keys ops req3 (pc_put req3 pc1)
                  in if plan = []
                     then (case discard_reserved E now (pr_write_reserved_keys req3) st1 of
                             (Inl e, st2) \<Rightarrow> (Inl e, (st2, pc2))
                           | (Inr _, st2) \<Rightarrow> (Inr (), (st2, complete_request (pr_request_id req3) 0 pc2)))
                     else (case submit_loads ops plan req3 pc2 of (r, pc3) \<Rightarrow> (r, (st1, pc3))))"

text \<open>Scatter the adapters' results into positions of the request's keys.\<close>

definition load_result_bitmap :: "'k prefetch_request \<Rightarrow> bitmap" where
  "load_result_bitmap req =
     fold (\<lambda>(i, plan_bitmap) result.
        case map_of (pr_load_results req) i of
          None \<Rightarrow> result
        | Some load_bitmap \<Rightarrow> fold bm_set (bm_gather load_bitmap (bm_get_indices plan_bitmap)) result)
       (pr_load_plan req) (bm_new (length (pr_keys req)))"

definition finalize_load :: "('k, 'a) l2_ops \<Rightarrow> env \<Rightarrow> int \<Rightarrow> 'k prefetch_request
    \<Rightarrow> 'k l1 \<times> ('k, 'a) prefetch_controller \<Rightarrow> (unit, 'k l1 \<times> ('k, 'a) prefetch_controller) outcome" where
  "finalize_load ops E now req s =
     (let num_keys = length (pr_keys req);
          result_bitmap = load_result_bitmap req;
          loaded_keys = bm_gather result_bitmap (pr_keys req);
          failed_keys = filter (\<lambda>k. k \<notin> set loaded_keys) (pr_write_reserved_keys req);
          pc1 = unlock_all_plan_keys ops req (snd s);
          st1 = (if loaded_keys \<noteq> [] then snd (finish_write_and_reserve_read now loaded_keys (pr_extra_count req) (fst s))
                 else fst s)
      in case discard_reserved E now failed_keys st1 of
           (Inl e, st2) \<Rightarrow> (Inl e, (st2, pc1))
         | (Inr _, st2) \<Rightarrow>
             let prefix_hits = bm_clo result_bitmap;
                 prefix_mask = bm_prefix num_keys prefix_hits;
                 non_prefix_loaded = bm_gather (bm_and result_bitmap (bm_not prefix_mask)) (pr_keys req)
             in case (if non_prefix_loaded \<noteq> []
                      then map_prod (map_sum id (\<lambda>_. ())) id (finish_read E now non_prefix_loaded (pr_extra_count req) st2)
                      else (Inr (), st2)) of
                  (Inl e, st3) \<Rightarrow> (Inl e, (st3, pc1))
                | (Inr _, st3) \<Rightarrow> (Inr (), (st3, complete_request (pr_request_id req) (int prefix_hits) pc1)))"

section \<open>The loop\<close>

text \<open>
  The first loops of _process_lookup_completions and _process_load_completions, over a copy of
  the table of requests; the requests that became ready are collected.
\<close>

definition lookup_completion_step :: "('k, 'a) l2_ops \<Rightarrow> nat \<Rightarrow> 'k prefetch_request
    \<Rightarrow> ('k, 'a) prefetch_controller \<times> 'k prefetch_request list \<Rightarrow> ('k, 'a) prefetch_controller \<times> 'k prefetch_request list" where
  "lookup_completion_step ops i req s =
     (case s of (pc, ready) \<Rightarrow>
        if pr_phase req \<noteq> LOOKUP then s
        else case map_of (pr_pending_lookup_tasks req) i of
          None \<Rightarrow> s
        | Some task_id \<Rightarrow>
            (case l2_query_lookup_and_lock_result ops task_id (pc_adapters pc ! i) of
               (None, a) \<Rightarrow> (pc\<lparr>pc_adapters := (pc_adapters pc)[i := a]\<rparr>, ready)
             | (Some b, a) \<Rightarrow>
                 let req1 = req\<lparr>pr_lookup_results := dict_set i b (pr_lookup_results req),
                                pr_pending_lookup_tasks := dict_del i (pr_pending_lookup_tasks req)\<rparr>
                 in (pc_put req1 (pc\<lparr>pc_adapters := (pc_adapters pc)[i := a]\<rparr>),
                     if all_lookups_done req1 then ready @ [req1] else ready)))"

definition load_completion_step :: "('k, 'a) l2_ops \<Rightarrow> nat \<Rightarrow> 'k prefetch_request
    \<Rightarrow> ('k, 'a) prefetch_controller \<times> 'k prefetch_request list \<Rightarrow> ('k, 'a) prefetch_controller \<times> 'k prefetch_request list" where
  "load_completion_step ops i req s =
     (case s of (pc, ready) \<Rightarrow>
        if pr_phase req \<noteq> PLAN_AND_LOAD then s
        else case map_of (pr_pending_load_tasks req) i of
          None \<Rightarrow> s
        | Some task_id \<Rightarrow>
            (case l2_query_load_result ops task_id (pc_adapters pc ! i) of
               (None, a) \<Rightarrow> (pc\<lparr>pc_adapters := (pc_adapters pc)[i := a]\<rparr>, ready)
             | (Some b, a) \<Rightarrow>
                 let req1 = req\<lparr>pr_load_results := dict_set i b (pr_load_results req),
                                pr_pending_load_tasks := dict_del i (pr_pending_load_tasks req)\<rparr>
                 in (pc_put req1 (pc\<lparr>pc_adapters := (pc_adapters pc)[i := a]\<rparr>),
                     if all_loads_done req1 then ready @ [req1] else ready)))"

fun each_request :: "('k prefetch_request \<Rightarrow> 's \<Rightarrow> (unit, 's) outcome) \<Rightarrow> 'k prefetch_request list \<Rightarrow> 's \<Rightarrow> (unit, 's) outcome" where
  "each_request handle [] s = (Inr (), s)"
| "each_request handle (req # reqs) s =
     (case handle req s of (Inl e, s1) \<Rightarrow> (Inl e, s1) | (Inr _, s1) \<Rightarrow> each_request handle reqs s1)"

definition process_lookup_completions :: "('k, 'a) l2_ops \<Rightarrow> env \<Rightarrow> int \<Rightarrow> nat \<Rightarrow> 'k l1 \<times> ('k, 'a) prefetch_controller
    \<Rightarrow> (unit, 'k l1 \<times> ('k, 'a) prefetch_controller) outcome" where
  "process_lookup_completions ops E now i s =
     (case fold (lookup_completion_step ops i) (dict_values (pc_in_flight (snd s))) (snd s, []) of
        (pc, ready) \<Rightarrow> each_request (transition_to_load_phase ops E now) ready (fst s, pc))"

definition process_load_completions :: "('k, 'a) l2_ops \<Rightarrow> env \<Rightarrow> int \<Rightarrow> nat \<Rightarrow> 'k l1 \<times> ('k, 'a) prefetch_controller
    \<Rightarrow> (unit, 'k l1 \<times> ('k, 'a) prefetch_controller) outcome" where
  "process_load_completions ops E now i s =
     (case fold (load_completion_step ops i) (dict_values (pc_in_flight (snd s))) (snd s, []) of
        (pc, ready) \<Rightarrow> each_request (finalize_load ops E now) ready (fst s, pc))"

text \<open>One turn of the loop: the ready file descriptors in order, then the pending requests.\<close>

datatype prefetch_event = SubmissionReady | LookupReady nat | LoadReady nat

fun prefetch_events :: "('k, 'a) l2_ops \<Rightarrow> env \<Rightarrow> int \<Rightarrow> prefetch_event list \<Rightarrow> 'k l1 \<times> ('k, 'a) prefetch_controller
    \<Rightarrow> (unit, 'k l1 \<times> ('k, 'a) prefetch_controller) outcome" where
  "prefetch_events ops E now [] s = (Inr (), s)"
| "prefetch_events ops E now (ev # evs) s =
     (case (case ev of
              SubmissionReady \<Rightarrow> (Inr (), (fst s, drain_submission_queue (snd s)))
            | LookupReady i \<Rightarrow> process_lookup_completions ops E now i s
            | LoadReady i \<Rightarrow> process_load_completions ops E now i s) of
        (Inl e, s1) \<Rightarrow> (Inl e, s1)
      | (Inr _, s1) \<Rightarrow> prefetch_events ops E now evs s1)"

definition prefetch_turn :: "('k, 'a) l2_ops \<Rightarrow> env \<Rightarrow> int \<Rightarrow> prefetch_event list \<Rightarrow> 'k l1 \<times> ('k, 'a) prefetch_controller
    \<Rightarrow> (unit, 'k l1 \<times> ('k, 'a) prefetch_controller) outcome" where
  "prefetch_turn ops E now evs s =
     (case prefetch_events ops E now evs s of
        (Inl e, s1) \<Rightarrow> (Inl e, s1)
      | (Inr _, s1) \<Rightarrow> (Inr (), (fst s1, start_pending_requests ops (snd s1))))"

text \<open>_cleanup_in_flight_requests, which stop calls once the thread has ended.\<close>

fun cleanup_requests :: "('k, 'a) l2_ops \<Rightarrow> env \<Rightarrow> int \<Rightarrow> 'k prefetch_request list \<Rightarrow> 'k l1 \<times> ('k, 'a) prefetch_controller
    \<Rightarrow> (unit, 'k l1 \<times> ('k, 'a) prefetch_controller) outcome" where
  "cleanup_requests ops E now [] s = (Inr (), s)"
| "cleanup_requests ops E now (req # reqs) (st, pc) =
     (if pr_phase req = PLAN_AND_LOAD
      then (case discard_reserved E now (pr_write_reserved_keys req) st of
              (Inl e, st1) \<Rightarrow> (Inl e, (st1, pc))
            | (Inr _, st1) \<Rightarrow> cleanup_requests ops E now reqs (st1, unlock_all_plan_keys ops req pc))
      else cleanup_requests ops E now reqs (st, unlock_all_lookups ops req pc))"

definition cleanup_in_flight_requests :: "('k, 'a) l2_ops \<Rightarrow> env \<Rightarrow> int \<Rightarrow> 'k l1 \<times> ('k, 'a) prefetch_controller
    \<Rightarrow> (unit, 'k l1 \<times> ('k, 'a) prefetch_controller) outcome" where
  "cleanup_in_flight_requests ops E now s =
     (case cleanup_requests ops E now (dict_values (pc_in_flight (snd s))) s of
        (Inl e, s1) \<Rightarrow> (Inl e, s1)
      | (Inr _, (st, pc)) \<Rightarrow> (Inr (), (st, pc\<lparr>pc_in_flight := []\<rparr>)))"

record prefetch_status =
  ps_max_in_flight :: int
  ps_submission_queue_size :: nat
  ps_pending_queue_size :: int
  ps_in_flight_request_count :: int
  ps_lookup_phase_count :: int
  ps_load_phase_count :: int
  ps_completed_results_count :: nat
  ps_num_l2_adapters :: nat

definition prefetch_report_status :: "('k, 'a) prefetch_controller \<Rightarrow> prefetch_status" where
  "prefetch_report_status pc =
     \<lparr>ps_max_in_flight = pc_max_in_flight pc, ps_submission_queue_size = length (pc_submission_queue pc),
      ps_pending_queue_size = pc_status_pending pc, ps_in_flight_request_count = pc_status_in_flight pc,
      ps_lookup_phase_count = pc_status_lookup_phase pc, ps_load_phase_count = pc_status_load_phase pc,
      ps_completed_results_count = length (pc_completed_results pc), ps_num_l2_adapters = length (pc_adapters pc)\<rparr>"

section \<open>Sets of positions\<close>

lemma gather_positions:
  assumes "bm.means n X b" "length items = n"
  shows "set (bm_gather b items) = (\<lambda>j. items ! j) ` X" "distinct items \<Longrightarrow> distinct (bm_gather b items)"
proof -
  have b: "bm_ok b" "bm_size b = n" "X = {i. i < n \<and> bm_bits b ! i}" using assms(1) by (simp_all add: bm.means_def)
  have g: "bm_gather b items = map (\<lambda>j. items ! j) (filter (\<lambda>j. bm_bits b ! j) [0 ..< n])"
    unfolding bm_gather_def bm_get_indices_eq [OF b(1)] b(2) assms(2)
    by (intro arg_cong [where f = "map _"] filter_True) simp
  show "set (bm_gather b items) = (\<lambda>j. items ! j) ` X" unfolding g b(3) by auto
  show "distinct (bm_gather b items)" if "distinct items"
    unfolding g distinct_map using that assms(2) by (auto simp: inj_on_def nth_eq_iff_index_eq)
qed

lemma means_set: "bm.means n X b \<Longrightarrow> i < n \<Longrightarrow> bm.means n (insert i X) (bm_set i b)"
  by (auto simp: bm.means_def nth_list_update)

lemma means_set_all: "bm.means n X b \<Longrightarrow> set is \<subseteq> {..<n} \<Longrightarrow> bm.means n (X \<union> set is) (fold bm_set is b)"
proof (induction "is" arbitrary: X b)
  case (Cons i "is")
  from Cons.IH [OF means_set [OF Cons.prems(1)], of i] Cons.prems(2) show ?case by simp
qed simp

text \<open>
  Position j of the request was loaded: the adapter whose plan has it reported success at the
  place of j among the positions of its plan.
\<close>

definition loaded_at :: "'k prefetch_request \<Rightarrow> nat \<Rightarrow> bool" where
  "loaded_at req j \<longleftrightarrow> (\<exists>(i, plan_bitmap) \<in> set (pr_load_plan req).
     case map_of (pr_load_results req) i of None \<Rightarrow> False
     | Some load_bitmap \<Rightarrow> j \<in> set (bm_gather load_bitmap (bm_get_indices plan_bitmap)))"

lemma gather_subset: "set (bm_gather b items) \<subseteq> set items"
  by (auto simp: bm_gather_def)

lemma load_result_means:
  assumes "plan_ok (length (pr_keys req)) (pr_load_plan req)"
  shows "bm.means (length (pr_keys req)) {j. loaded_at req j} (load_result_bitmap req)"
proof -
  let ?n = "length (pr_keys req)"
  let ?step = "\<lambda>(i, plan_bitmap) result. case map_of (pr_load_results req) i of None \<Rightarrow> result
      | Some load_bitmap \<Rightarrow> fold bm_set (bm_gather load_bitmap (bm_get_indices plan_bitmap)) result"
  let ?S = "\<lambda>xs. {j. \<exists>(i, plan_bitmap) \<in> set xs. case map_of (pr_load_results req) i of None \<Rightarrow> False
      | Some load_bitmap \<Rightarrow> j \<in> set (bm_gather load_bitmap (bm_get_indices plan_bitmap))}"
  have "bm.means ?n (X \<union> ?S xs) (fold ?step xs b)"
    if "bm.means ?n X b" "\<forall>(i, pb) \<in> set xs. bm_ok pb \<and> bm_size pb = ?n" for xs X b
    using that
  proof (induction xs arbitrary: X b)
    case (Cons x xs)
    obtain i pb where x: "x = (i, pb)" by (cases x)
    have ok: "bm_ok pb" "bm_size pb = ?n" using Cons.prems(2) x by auto
    have rest: "\<forall>(i, pb) \<in> set xs. bm_ok pb \<and> bm_size pb = ?n" using Cons.prems(2) by simp
    show ?case
    proof (cases "map_of (pr_load_results req) i")
      case None
      then have "?S (x # xs) = ?S xs" "fold ?step (x # xs) b = fold ?step xs b" using x by auto
      then show ?thesis using Cons.IH [OF Cons.prems(1) rest] by simp
    next
      case (Some lb)
      let ?js = "bm_gather lb (bm_get_indices pb)"
      have "set ?js \<subseteq> {..<?n}" using gather_subset [of lb "bm_get_indices pb"] ok by (auto simp: bm_get_indices_eq)
      from Cons.IH [OF means_set_all [OF Cons.prems(1) this] rest]
      have "bm.means ?n (X \<union> set ?js \<union> ?S xs) (fold ?step (x # xs) b)" using Some x by simp
      moreover have "X \<union> set ?js \<union> ?S xs = X \<union> ?S (x # xs)" using Some x by auto
      ultimately show ?thesis by simp
    qed
  qed simp
  from this [OF bm.means_empty, of "pr_load_plan req"] assms
  have "bm.means ?n ({} \<union> ?S (pr_load_plan req)) (fold ?step (pr_load_plan req) (bm_new ?n))"
    by (simp add: plan_ok_def case_prod_beta)
  then show ?thesis unfolding load_result_bitmap_def loaded_at_def by (simp only: Un_empty_left)
qed

section \<open>What a load leaves in L1\<close>

text \<open>The entry of a reserved key: a temporary buffer with one writer and no reader.\<close>

definition reserved_entry :: "int \<Rightarrow> l1_object_state \<Rightarrow> bool" where
  "reserved_entry now e \<longleftrightarrow> entry_ok e \<and> is_temporary e \<and> is_locked now (write_lock e) \<and> counter (write_lock e) = 1 \<and>
     \<not> is_locked now (read_lock e)"

text \<open>The entry once its load is handed over to n readers.\<close>

definition handed_over :: "int \<Rightarrow> nat \<Rightarrow> l1_object_state \<Rightarrow> l1_object_state" where
  "handed_over now n e = e\<lparr>write_lock := ttl_unlock (write_lock e), read_lock := lock_times n now (read_lock e)\<rparr>"

lemma reserved_entry_loaded: "reserved_entry now e \<Longrightarrow> fwr_entry now n e = Some (handed_over now n e)"
  by (simp add: reserved_entry_def fwr_entry_def fw_good_def handed_over_def)

lemma handed_over_eff:
  assumes "reserved_entry now e" "0 < n"
  shows "eff now (Some (handed_over now n e)) = int n"
proof -
  obtain m where n: "n = Suc m" using assms(2) by (cases n) auto
  have "0 < ttl_ms (read_lock e)" "0 \<le> counter (read_lock e)" "\<not> is_locked now (read_lock e)"
    using assms(1) by (auto simp: reserved_entry_def entry_ok_def lock_ok_def)
  then show ?thesis unfolding n eff_def handed_over_def
    by (auto simp: lock_times_eq is_locked_def simp del: lock_times_simps)
qed

lemma handed_over_dropped:
  assumes "reserved_entry now e" "0 < n"
  shows "fr_entry now n (handed_over now n e) = None"
proof -
  obtain m where n: "n = Suc m" using assms(2) by (cases n) auto
  let ?l = "lock_times n now (read_lock e)"
  have l: "0 < ttl_ms (read_lock e)" "0 \<le> counter (read_lock e)" "\<not> is_locked now (read_lock e)"
    using assms(1) by (auto simp: reserved_entry_def entry_ok_def lock_ok_def)
  have c: "counter ?l = int n" "is_locked now ?l"
    using l unfolding n by (auto simp: lock_times_eq is_locked_def simp del: lock_times_simps)
  have "\<not> is_locked now (unlock_times n ?l)" using c(1) by (simp add: unlock_times_eq is_locked_def)
  moreover have "\<not> is_locked now (ttl_unlock (write_lock e))"
    using assms(1) by (simp add: reserved_entry_def ttl_unlock_def is_locked_def)
  ultimately show ?thesis using c(2) assms(1) by (simp add: fr_entry_def handed_over_def reserved_entry_def)
qed

lemma reserved_entry_discarded:
  assumes "reserved_entry now e"
  shows "Option.bind (fw_entry now e) (dl_entry now) = None"
  using assms by (auto simp: reserved_entry_def fw_entry_def fw_good_def dl_entry_def entry_locked_def ttl_unlock_def is_locked_def)

lemma discard_reserved_spec:
  assumes "sorted_list_ok E" "l1_inv st" "distinct ks"
    and "\<And>k. k \<in> set ks \<Longrightarrow> \<exists>e. get_object_state k st = Some e \<and> reserved_entry now e"
  shows "\<exists>st'. discard_reserved E now ks st = (Inr (), st') \<and> l1_inv st' \<and>
    (\<forall>k. get_object_state k st' = (if k \<in> set ks then None else get_object_state k st))"
proof (cases "ks = []")
  case False
  let ?st1 = "snd (finish_write now ks st)"
  have "l1_inv ?st1" by (rule finish_write_inv [OF assms(2)])
  from l1_delete_inv [OF assms(1) this, of now ks] obtain ret st' where
    st': "l1_delete E now ks ?st1 = (Inr ret, st')" "l1_inv st'" by blast
  have "objects st' = fold (entry_upd (dl_entry now)) ks (fold (entry_upd (fw_entry now)) ks (objects st))"
    using objects_after(5) [of E now ks ?st1] st'(1) objects_after(3) [of now ks st] by simp
  then have "get_object_state k st' = (if k \<in> set ks then Option.bind (Option.bind (get_object_state k st) (fw_entry now)) (dl_entry now)
      else get_object_state k st)" for k
    by (simp add: get_object_state_def map_of_fold_entry_upd [OF assms(3)])
  moreover have "Option.bind (Option.bind (get_object_state k st) (fw_entry now)) (dl_entry now) = None" if "k \<in> set ks" for k
    using assms(4) [OF that] reserved_entry_discarded by auto
  ultimately show ?thesis using st' False by (simp add: discard_reserved_def)
qed (use assms(2) in \<open>simp add: discard_reserved_def\<close>)

lemma complete_request_results [simp]:
  "map_of (pc_completed_results (complete_request i h pc)) i = Some h"
  "map_of (pc_in_flight (complete_request i h pc)) i = None"
  by (auto simp: complete_request_def dict_pop_def Let_def dict_simps split: option.splits prefetch_phase.splits)

text \<open>What _transition_to_load_phase leaves: the request of a load that has all its results.\<close>

definition load_ready :: "int \<Rightarrow> 'k l1 \<Rightarrow> 'k prefetch_request \<Rightarrow> bool" where
  "load_ready now st req \<longleftrightarrow> distinct (pr_keys req) \<and> plan_ok (length (pr_keys req)) (pr_load_plan req) \<and>
     distinct (pr_write_reserved_keys req) \<and>
     (\<forall>k \<in> set (pr_write_reserved_keys req). \<exists>e. get_object_state k st = Some e \<and> reserved_entry now e) \<and>
     (\<forall>(i, b) \<in> set (pr_load_plan req). set (bm_gather b (pr_keys req)) \<subseteq> set (pr_write_reserved_keys req))"

lemma load_readyD:
  assumes "load_ready now st req"
  shows "distinct (pr_keys req)" "plan_ok (length (pr_keys req)) (pr_load_plan req)" "distinct (pr_write_reserved_keys req)"
    and "k \<in> set (pr_write_reserved_keys req) \<Longrightarrow> \<exists>e. get_object_state k st = Some e \<and> reserved_entry now e"
    and "(i, b) \<in> set (pr_load_plan req) \<Longrightarrow> set (bm_gather b (pr_keys req)) \<subseteq> set (pr_write_reserved_keys req)"
  using assms unfolding load_ready_def by fast+

lemma loaded_at_below:
  assumes "load_ready now st req" "loaded_at req j"
  shows "j < length (pr_keys req)" "pr_keys req ! j \<in> set (pr_write_reserved_keys req)"
proof -
  obtain i pb lb where p: "(i, pb) \<in> set (pr_load_plan req)" "j \<in> set (bm_gather lb (bm_get_indices pb))"
    using assms(2) by (auto simp: loaded_at_def split: option.splits)
  note ok = plan_ok_entry [OF load_readyD(2) [OF assms(1)] p(1), THEN conjunct1]
    plan_ok_entry [OF load_readyD(2) [OF assms(1)] p(1), THEN conjunct2]
  have "j \<in> set (bm_get_indices pb)" by (rule subsetD [OF gather_subset p(2)])
  then have j: "j < length (pr_keys req)" "bm_bits pb ! j" using ok by (simp_all add: bm_get_indices_eq del: nth_bm_bits)
  then show "j < length (pr_keys req)" by simp
  have "bm.means (length (pr_keys req)) {i. i < length (pr_keys req) \<and> bm_bits pb ! i} pb" using ok by (simp add: bm.means_def)
  from gather_positions(1) [OF this refl] have "pr_keys req ! j \<in> set (bm_gather pb (pr_keys req))" using j by auto
  then show "pr_keys req ! j \<in> set (pr_write_reserved_keys req)" by (rule subsetD [OF load_readyD(5) [OF assms(1) p(1)]])
qed

lemma unlock_at_fields [simp]:
  "pc_completed_results (unlock_at ops i ks pc) = pc_completed_results pc"
  "pc_in_flight (unlock_at ops i ks pc) = pc_in_flight pc"
  by (simp_all add: unlock_at_def)

text \<open>The two passes over L1 after a load, on keys that are pairwise distinct.\<close>

lemma hand_over_spec:
  assumes "l1_inv st" "distinct L" "\<And>k. k \<in> set L \<Longrightarrow> \<exists>e. get_object_state k st = Some e \<and> reserved_entry now e"
    and "n = nat (1 + validate_extra_count ec)"
  defines "st1 \<equiv> (if L \<noteq> [] then snd (finish_write_and_reserve_read now L ec st) else st)"
  shows "l1_inv st1"
    and "get_object_state k st1 = (if k \<in> set L then map_option (handed_over now n) (get_object_state k st) else get_object_state k st)"
proof -
  show "l1_inv st1" unfolding st1_def using assms(1) finish_write_and_reserve_read_inv by auto
  have "objects st1 = fold (entry_upd (fwr_entry now n)) L (objects st)"
    unfolding st1_def assms(4) by (simp add: objects_after(4))
  then have "get_object_state k st1 = (if k \<in> set L then Option.bind (get_object_state k st) (fwr_entry now n) else get_object_state k st)"
    by (simp add: get_object_state_def map_of_fold_entry_upd [OF assms(2)])
  then show "get_object_state k st1 = (if k \<in> set L then map_option (handed_over now n) (get_object_state k st) else get_object_state k st)"
    using assms(3) [of k] reserved_entry_loaded by auto
qed

lemma drop_readers_spec:
  assumes "sorted_list_ok E" "l1_inv st" "distinct L"
    and "\<And>k. k \<in> set L \<Longrightarrow> \<exists>e. get_object_state k st = Some (handed_over now n e) \<and> reserved_entry now e"
    and "n = nat (1 + validate_extra_count ec)"
  shows "\<exists>st'. (if L \<noteq> [] then map_prod (map_sum id (\<lambda>_. ())) id (finish_read E now L ec st) else (Inr (), st)) = (Inr (), st') \<and>
    l1_inv st' \<and> (\<forall>k. get_object_state k st' = (if k \<in> set L then None else get_object_state k st))"
proof (cases "L = []")
  case False
  obtain ret st' where st': "finish_read E now L ec st = (Inr ret, st')" "l1_inv st'"
    using finish_read_inv [OF assms(1,2), of now L ec] by blast
  have "0 < n" using assms(5) by (simp add: validate_extra_count_def Let_def MAX_READ_LOCK_COUNT_def)
  have "objects st' = fold (entry_upd (fr_entry now n)) L (objects st)"
    using objects_after(2) [of E now L ec st] st'(1) assms(5) by simp
  then have "get_object_state k st' = (if k \<in> set L then Option.bind (get_object_state k st) (fr_entry now n) else get_object_state k st)" for k
    by (simp add: get_object_state_def map_of_fold_entry_upd [OF assms(3)])
  moreover have "Option.bind (get_object_state k st) (fr_entry now n) = None" if "k \<in> set L" for k
    using assms(4) [OF that] handed_over_dropped [OF _ \<open>0 < n\<close>] by auto
  ultimately show ?thesis using st' False by simp
qed (use assms(2) in simp)

lemma unlock_plan_fields [simp]:
  "pc_completed_results (unlock_all_plan_keys ops req pc) = pc_completed_results pc"
  "pc_in_flight (unlock_all_plan_keys ops req pc) = pc_in_flight pc"
proof -
  have "pc_completed_results (fold (\<lambda>(i, b) pc. unlock_at ops i (bm_gather b ks) pc) xs pc) = pc_completed_results pc \<and>
      pc_in_flight (fold (\<lambda>(i, b) pc. unlock_at ops i (bm_gather b ks) pc) xs pc) = pc_in_flight pc" for ks xs
    by (induction xs arbitrary: pc) (auto split: prod.splits)
  then show "pc_completed_results (unlock_all_plan_keys ops req pc) = pc_completed_results pc"
    "pc_in_flight (unlock_all_plan_keys ops req pc) = pc_in_flight pc"
    by (simp_all add: unlock_all_plan_keys_def)
qed

section \<open>Properties\<close>

text \<open>C9: When the loads of a prefetch request have reported, and L1 still is as the request left it, exactly the
  contiguous prefix of loaded keys is handed to the readers. The state required (load_ready) is this: the keys of
  the request and its reserved keys are without repetition, the plan of each adapter is about reserved keys, and
  every reserved key's entry is still in L1, temporary, write-locked once with the lock not expired, and unread. Then,
  with h the number of leading positions that an adapter loaded, _finalize_load reports h hits and ends the
  request; each of the first h keys is readable with 1 + extra_count read locks (clamped as the manager clamps it)
  and no writer; every other buffer reserved for the request, loaded beyond a gap or failed, is gone from L1; and
  no other key's entry has changed. Where a write lock has expired in the meantime the state is another one and
  the reported prefix can be longer than the readable one, because _finalize_load does not look at what
  finish_write_and_reserve_read answers.\<close>

theorem finalize_hands_over_the_prefix:
  assumes "sorted_list_ok E" "l1_inv st" "load_ready now st req"
  shows "\<exists>st' pc'. finalize_load ops E now req (st, pc) = (Inr (), (st', pc')) \<and> l1_inv st' \<and>
    (let h = length (takeWhile (loaded_at req) [0 ..< length (pr_keys req)]); n = nat (1 + validate_extra_count (pr_extra_count req))
     in map_of (pc_completed_results pc') (pr_request_id req) = Some (int h) \<and>
        map_of (pc_in_flight pc') (pr_request_id req) = None \<and>
        (\<forall>k. if k \<in> set (take h (pr_keys req))
              then \<exists>e. get_object_state k st' = Some e \<and> available_for_read now e \<and> eff now (Some e) = int n \<and>
                     Some (memory_obj e) = map_option memory_obj (get_object_state k st)
              else if k \<in> set (pr_write_reserved_keys req) then get_object_state k st' = None
              else get_object_state k st' = get_object_state k st))"
proof -
  let ?keys = "pr_keys req" and ?N = "length (pr_keys req)" and ?R = "load_result_bitmap req"
  let ?n = "nat (1 + validate_extra_count (pr_extra_count req))"
  let ?h = "length (takeWhile (loaded_at req) [0 ..< ?N])"
  note D = load_readyD [OF assms(3)]
  note R = load_result_means [OF D(2)]
  have "?h \<le> ?N \<and> (\<forall>i < ?h. loaded_at req i) \<and> (?h < ?N \<longrightarrow> \<not> loaded_at req ?h)" by (rule iffD1 [OF takeWhile_upt refl])
  moreover from this have "\<not> loaded_at req ?h" using loaded_at_below(1) [OF assms(3)] by fastforce
  ultimately have h: "?h \<le> ?N" "{..<?h} \<subseteq> {j. loaded_at req j}" "?h \<notin> {j. loaded_at req j}" by auto
  then have clo: "bm_clo ?R = ?h" using bm.means_ones [OF R, of ?h] by blast
  let ?L = "bm_gather ?R ?keys"
  have L: "set ?L = (\<lambda>j. ?keys ! j) ` {j. loaded_at req j}" "distinct ?L"
    using gather_positions [OF R refl] D(1) by blast+
  have LR: "set ?L \<subseteq> set (pr_write_reserved_keys req)"
    unfolding L(1) using loaded_at_below(2) [OF assms(3)] by blast
  let ?st1 = "if ?L \<noteq> [] then snd (finish_write_and_reserve_read now ?L (pr_extra_count req) st) else st"
  have Lres: "\<exists>e. get_object_state k st = Some e \<and> reserved_entry now e" if "k \<in> set ?L" for k
    using that LR D(4) by blast
  note one = hand_over_spec [where ec = "pr_extra_count req", OF assms(2) L(2) Lres refl]
  let ?F = "filter (\<lambda>k. k \<notin> set ?L) (pr_write_reserved_keys req)"
  have Fres: "\<exists>e. get_object_state k ?st1 = Some e \<and> reserved_entry now e" if "k \<in> set ?F" for k
    using that D(4) [of k] one(2) [of k] by simp
  obtain st2 where st2: "discard_reserved E now ?F ?st1 = (Inr (), st2)" "l1_inv st2"
    "\<And>k. get_object_state k st2 = (if k \<in> set ?F then None else get_object_state k ?st1)"
    using discard_reserved_spec [OF assms(1) one(1) _ Fres] D(3) by (meson distinct_filter)
  let ?M = "bm_and ?R (bm_not (bm_prefix ?N ?h))"
  have M: "bm.means ?N ({j. loaded_at req j} \<inter> ({..<?N} - {..<?h})) ?M"
    by (rule bm.means_conj [OF R bm.means_neg [OF bm.means_first [OF h(1)]]])
  let ?P = "bm_gather ?M ?keys"
  have P: "set ?P = (\<lambda>j. ?keys ! j) ` {j. loaded_at req j \<and> ?h \<le> j}" "distinct ?P"
    using gather_positions [OF M refl] D(1) loaded_at_below(1) [OF assms(3)] by auto
  have PL: "set ?P \<subseteq> set ?L" unfolding P(1) L(1) by blast
  have Pres: "\<exists>e. get_object_state k st2 = Some (handed_over now ?n e) \<and> reserved_entry now e" if "k \<in> set ?P" for k
    using that PL Lres [of k] one(2) [of k] st2(3) [of k] by auto
  obtain st3 where st3: "(if ?P \<noteq> [] then map_prod (map_sum id (\<lambda>_. ())) id (finish_read E now ?P (pr_extra_count req) st2)
      else (Inr (), st2)) = (Inr (), st3)" "l1_inv st3"
    "\<And>k. get_object_state k st3 = (if k \<in> set ?P then None else get_object_state k st2)"
    using drop_readers_spec [OF assms(1) st2(2) P(2) Pres refl] by blast
  let ?pc = "complete_request (pr_request_id req) (int ?h) (unlock_all_plan_keys ops req pc)"
  have run: "finalize_load ops E now req (st, pc) = (Inr (), (st3, ?pc))"
    by (simp only: finalize_load_def Let_def fst_conv snd_conv clo st2(1) st3(1) prod.case sum.case)
  have T: "set (take ?h ?keys) = (\<lambda>j. ?keys ! j) ` {..<?h}" using nth_image [OF h(1)] by (simp only: lessThan_atLeast0)
  have inj: "?keys ! i = ?keys ! j \<longleftrightarrow> i = j" if "loaded_at req i" "loaded_at req j" for i j
    using D(1) that loaded_at_below(1) [OF assms(3)] by (simp add: nth_eq_iff_index_eq)
  have split: "set ?L = set (take ?h ?keys) \<union> set ?P" "set (take ?h ?keys) \<inter> set ?P = {}"
    unfolding L(1) T P(1) using h(2) inj by (auto simp: image_iff not_le subset_iff)
  have final: "if k \<in> set (take ?h ?keys)
      then \<exists>e. get_object_state k st3 = Some e \<and> available_for_read now e \<and> eff now (Some e) = int ?n \<and>
             Some (memory_obj e) = map_option memory_obj (get_object_state k st)
      else if k \<in> set (pr_write_reserved_keys req) then get_object_state k st3 = None
      else get_object_state k st3 = get_object_state k st" for k
  proof (cases "k \<in> set (take ?h ?keys)")
    case True
    then have k: "k \<in> set ?L" "k \<notin> set ?P" using split by blast+
    then obtain e where e: "get_object_state k st = Some e" "reserved_entry now e" using Lres by blast
    have "0 < ?n" by (simp add: validate_extra_count_def Let_def MAX_READ_LOCK_COUNT_def)
    have "get_object_state k st3 = Some (handed_over now ?n e)"
      using k e(1) st3(3) [of k] st2(3) [of k] one(2) [of k] by simp
    moreover have "available_for_read now (handed_over now ?n e)" "memory_obj (handed_over now ?n e) = memory_obj e"
      using e(2) by (auto simp: available_for_read_def handed_over_def reserved_entry_def ttl_unlock_def is_locked_def)
    ultimately show ?thesis using True handed_over_eff [OF e(2) \<open>0 < ?n\<close>] e(1) by simp
  next
    case False
    then show ?thesis using split LR st3(3) [of k] st2(3) [of k] one(2) [of k] by auto
  qed
  show ?thesis unfolding Let_def
    by (intro exI [of _ st3] exI [of _ ?pc] conjI allI; (rule run st3(2) complete_request_results final)?)
qed

text \<open>Three keys reserved for a request: the first adapter loaded positions 0 and 2, the second failed to load 1.\<close>

definition sample_reserved :: "int l1" where
  "sample_reserved = snd (reserve_write reference_env 0 [1, 2, 3] [True, True, True] sample_layout ModeNew sample_l1)"

definition sample_request :: "int prefetch_request" where
  "sample_request = \<lparr>pr_request_id = 7, pr_keys = [1, 2, 3], pr_layout_desc = sample_layout, pr_phase = PLAN_AND_LOAD,
     pr_extra_count = 1, pr_pending_lookup_tasks = [], pr_lookup_results = [(0, bm_prefix 3 3), (1, bm_prefix 3 2)],
     pr_load_plan = [(0, bm_set 2 (bm_prefix 3 1)), (1, bm_set 1 (bm_new 3))], pr_pending_load_tasks = [],
     pr_load_results = [(0, bm_prefix 2 2), (1, bm_new 1)],
     pr_write_reserved_keys = [1, 2, 3], pr_write_reserved_objs = [(1, 0), (2, 1), (3, 2)]\<rparr>"

lemma sample_reserved_inv: "l1_inv sample_reserved"
  using reserve_write_inv [OF reference_sorted_list_ok sample_layout_ok sample_l1_inv, of 0 "[1, 2, 3]" "[True, True, True]" ModeNew]
  unfolding sample_reserved_def by auto

lemma sample_load_ready: "load_ready 1 sample_reserved sample_request"
proof -
  have "list_all (\<lambda>k. case get_object_state k sample_reserved of None \<Rightarrow> False
      | Some e \<Rightarrow> reserved_entry 1 e) [1, 2, 3]" by code_simp
  then have "\<forall>k \<in> {1, 2, 3}. \<exists>e. get_object_state k sample_reserved = Some e \<and> reserved_entry 1 e"
    by (auto split: option.splits)
  moreover have "plan_ok (length (pr_keys sample_request)) (pr_load_plan sample_request)" by code_simp
  moreover have "list_all (\<lambda>(i, b). set (bm_gather b (pr_keys sample_request)) \<subseteq> {1, 2, 3}) (pr_load_plan sample_request)" by code_simp
  ultimately show ?thesis by (simp add: load_ready_def sample_request_def list_all_iff)
qed

theorem finalize_hands_over_the_prefix_witness:
  "\<exists>st' pc'. finalize_load mock_ops reference_env 1 sample_request
      (sample_reserved, prefetch_controller_init [mock_init 100, mock_init 100 :: (int, int) mock] sample_adapters 8) = (Inr (), (st', pc')) \<and>
    map_of (pc_completed_results pc') 7 = Some 1 \<and> get_object_state 2 st' = None \<and> get_object_state 3 st' = None"
proof -
  have h: "takeWhile (loaded_at sample_request) [0 ..< length [1, 2, 3 :: int]] = [0]" by code_simp
  have f: "pr_request_id sample_request = 7" "pr_keys sample_request = [1, 2, 3]" "pr_write_reserved_keys sample_request = [1, 2, 3]"
    by (simp_all add: sample_request_def)
  from finalize_hands_over_the_prefix [OF reference_sorted_list_ok sample_reserved_inv sample_load_ready,
      of mock_ops "prefetch_controller_init [mock_init 100, mock_init 100 :: (int, int) mock] sample_adapters 8"]
  obtain st' pc' where run: "finalize_load mock_ops reference_env 1 sample_request
      (sample_reserved, prefetch_controller_init [mock_init 100, mock_init 100 :: (int, int) mock] sample_adapters 8) = (Inr (), (st', pc'))"
    and r: "map_of (pc_completed_results pc') 7 = Some (int (length [0 :: nat]))"
    and k: "\<forall>k. if k \<in> set (take (length [0 :: nat]) [1, 2, 3]) then \<exists>e. get_object_state k st' = Some e \<and> available_for_read 1 e \<and> eff 1 (Some e) = int (nat (1 + validate_extra_count (pr_extra_count sample_request))) \<and>
        Some (memory_obj e) = map_option memory_obj (get_object_state k sample_reserved)
      else if k \<in> set [1, 2, 3] then get_object_state k st' = None
      else get_object_state k st' = get_object_state k sample_reserved"
    unfolding Let_def h f by (elim exE conjE) (rule that; assumption)
  show ?thesis using run r spec [OF k, of 2] spec [OF k, of 3] by simp
qed

end
