(* ===== verification/Prefetch_Accounting.thy ===== *)
theory Prefetch_Accounting
  imports Prefetch_Controller
begin

text \<open>
  The bookkeeping of the prefetch controller: where a request is between its submission and
  the retrieval of its result, and that the status counters count what they say. Nothing is
  assumed of the adapters or of L1 here, and a handler may raise.
\<close>

section \<open>The invariant\<close>

definition phase_count :: "prefetch_phase \<Rightarrow> (int, 'k prefetch_request) dict \<Rightarrow> int" where
  "phase_count ph d = sum_list (map (\<lambda>x. if pr_phase (snd x) = ph then 1 else 0) d)"

text \<open>The requests the controller knows: submitted, pending, in flight or completed.\<close>

definition request_ids :: "('k, 'a) prefetch_controller \<Rightarrow> int list" where
  "request_ids pc = map fst (pc_submission_queue pc) @ map fst (pc_pending_queue pc) @ dict_keys (pc_in_flight pc) @
     dict_keys (pc_completed_results pc)"

definition counters_ok :: "('k, 'a) prefetch_controller \<Rightarrow> bool" where
  "counters_ok pc \<longleftrightarrow> pc_status_pending pc = int (length (pc_pending_queue pc)) \<and>
     pc_status_in_flight pc = int (length (pc_in_flight pc)) \<and>
     pc_status_lookup_phase pc = phase_count LOOKUP (pc_in_flight pc) \<and>
     pc_status_load_phase pc = phase_count PLAN_AND_LOAD (pc_in_flight pc)"

definition pc_inv :: "('k, 'a) prefetch_controller \<Rightarrow> bool" where
  "pc_inv pc \<longleftrightarrow> counters_ok pc \<and> distinct (request_ids pc) \<and>
     (\<forall>i r. map_of (pc_in_flight pc) i = Some r \<longrightarrow> pr_request_id r = i) \<and>
     int (length (pc_in_flight pc)) \<le> max 0 (pc_max_in_flight pc)"

lemma pc_invD:
  assumes "pc_inv pc"
  shows "counters_ok pc" "distinct (request_ids pc)" "distinct (dict_keys (pc_in_flight pc))"
    "distinct (dict_keys (pc_completed_results pc))"
    "map_of (pc_in_flight pc) i = Some r \<Longrightarrow> pr_request_id r = i"
    "int (length (pc_in_flight pc)) \<le> max 0 (pc_max_in_flight pc)"
  using assms unfolding pc_inv_def by (auto simp: request_ids_def)

text \<open>A dictionary entry is replaced in place.\<close>

lemma dict_keys_replace: "map_of d k = Some u \<Longrightarrow> dict_keys (dict_set k v d) = dict_keys d"
  by (induction d) (auto split: if_splits)

lemma dict_sum_replace:
  "distinct (dict_keys d) \<Longrightarrow> map_of d k = Some u \<Longrightarrow>
    sum_list (map f (dict_set k v d)) = sum_list (map f d) - f (k, u) + (f (k, v) :: 'b::ab_group_add)"
proof (induction d)
  case (Cons x d)
  then show ?case by (cases "fst x = k") (cases x; auto)+
qed simp

lemma length_dict_del:
  assumes "distinct (dict_keys d)" "map_of d k = Some v"
  shows "int (length (dict_del k d)) = int (length d) - 1"
  using dict_sum_del [OF assms, of "\<lambda>_. 1 :: int"] by (simp add: sum_list_triv)

lemma phase_count_new: "map_of d k = None \<Longrightarrow> phase_count ph (dict_set k r d) = phase_count ph d + (if pr_phase r = ph then 1 else 0)"
  unfolding phase_count_def by (simp add: dict_sum_new)

lemma phase_count_replace:
  "distinct (dict_keys d) \<Longrightarrow> map_of d k = Some u \<Longrightarrow>
    phase_count ph (dict_set k r d) = phase_count ph d - (if pr_phase u = ph then 1 else 0) + (if pr_phase r = ph then 1 else 0)"
  unfolding phase_count_def by (simp add: dict_sum_replace)

lemma phase_count_del:
  "distinct (dict_keys d) \<Longrightarrow> map_of d k = Some u \<Longrightarrow>
    phase_count ph (dict_del k d) = phase_count ph d - (if pr_phase u = ph then 1 else 0)"
  unfolding phase_count_def by (simp add: dict_sum_del)

section \<open>What the handlers do to the table\<close>

text \<open>The steps the handlers are made of: touching the adapters, writing a request back and completing one.\<close>

lemma adapters_only [simp]:
  "pc_inv (pc\<lparr>pc_adapters := as\<rparr>) = pc_inv pc" "request_ids (pc\<lparr>pc_adapters := as\<rparr>) = request_ids pc"
  by (simp_all add: pc_inv_def counters_ok_def request_ids_def)

lemma unlock_adapters_only:
  "\<exists>as. unlock_unneeded_keys ops req pc = pc\<lparr>pc_adapters := as\<rparr>"
  "\<exists>as. unlock_all_plan_keys ops req pc = pc\<lparr>pc_adapters := as\<rparr>"
  "\<exists>as. unlock_all_lookups ops req pc = pc\<lparr>pc_adapters := as\<rparr>"
proof -
  have fold: "\<exists>as. fold f xs pc = pc\<lparr>pc_adapters := as\<rparr>" if f: "\<And>x pc. \<exists>as. f x pc = pc\<lparr>pc_adapters := as\<rparr>"
    for f :: "nat \<times> bitmap \<Rightarrow> ('b, 'c) prefetch_controller \<Rightarrow> ('b, 'c) prefetch_controller" and xs pc
  proof (induction xs arbitrary: pc)
    case Nil
    show ?case by (rule exI [of _ "pc_adapters pc"]) simp
  next
    case (Cons x xs)
    obtain as where x: "f x pc = pc\<lparr>pc_adapters := as\<rparr>" using f by blast
    obtain as' where "fold f xs (pc\<lparr>pc_adapters := as\<rparr>) = (pc\<lparr>pc_adapters := as\<rparr>)\<lparr>pc_adapters := as'\<rparr>" using Cons.IH by blast
    then show ?case using x by (intro exI [of _ as']) simp
  qed
  have same: "\<exists>as. pc = pc\<lparr>pc_adapters := as\<rparr>" for pc :: "('b, 'c) prefetch_controller"
    by (rule exI [of _ "pc_adapters pc"]) simp
  show "\<exists>as. unlock_unneeded_keys ops req pc = pc\<lparr>pc_adapters := as\<rparr>"
    unfolding unlock_unneeded_keys_def by (rule fold) (auto simp: Let_def unlock_at_def intro: same)
  show "\<exists>as. unlock_all_plan_keys ops req pc = pc\<lparr>pc_adapters := as\<rparr>"
    unfolding unlock_all_plan_keys_def by (rule fold) (auto simp: unlock_at_def)
  show "\<exists>as. unlock_all_lookups ops req pc = pc\<lparr>pc_adapters := as\<rparr>"
    unfolding unlock_all_lookups_def by (rule fold) (auto simp: Let_def unlock_at_def intro: same)
qed

text \<open>
  A handler of one request keeps the accounts: the same requests are known, and no other
  request in flight changes.
\<close>

definition kept :: "int \<Rightarrow> ('k, 'a) prefetch_controller \<Rightarrow> ('k, 'b) prefetch_controller \<Rightarrow> bool" where
  "kept i pc pc' \<longleftrightarrow> pc_inv pc' \<and> set (request_ids pc') = set (request_ids pc) \<and>
     (\<forall>j. j \<noteq> i \<longrightarrow> map_of (pc_in_flight pc') j = map_of (pc_in_flight pc) j) \<and>
     pc_submission_queue pc' = pc_submission_queue pc \<and> pc_pending_queue pc' = pc_pending_queue pc \<and>
     pc_next_request_id pc' = pc_next_request_id pc \<and> pc_max_in_flight pc' = pc_max_in_flight pc"

lemma kept_refl [simp]: "kept i pc pc = pc_inv pc"
  by (simp add: kept_def)

lemma kept_trans: "kept i a b \<Longrightarrow> kept i b c \<Longrightarrow> kept i a c"
  by (auto simp: kept_def)

lemma kept_adapters [simp]: "kept i pc (pc'\<lparr>pc_adapters := as\<rparr>) = kept i pc pc'" "kept i (pc\<lparr>pc_adapters := as\<rparr>) pc' = kept i pc pc'"
  by (simp_all add: kept_def)

text \<open>A handler keeps the accounts if it does so on each of its branches.\<close>

lemma kept_branches:
  "(c \<Longrightarrow> kept i a (snd (snd x))) \<Longrightarrow> (\<not> c \<Longrightarrow> kept i a (snd (snd y))) \<Longrightarrow> kept i a (snd (snd (if c then x else y)))"
  "(\<And>e st. kept i a (snd (snd (f e st)))) \<Longrightarrow> (\<And>u st. kept i a (snd (snd (g u st)))) \<Longrightarrow>
    kept i a (snd (snd (case r of (Inl e, st) \<Rightarrow> f e st | (Inr u, st) \<Rightarrow> g u st)))"
  "kept i a (snd z) \<Longrightarrow> kept i a (snd (snd (case z of (r', pc) \<Rightarrow> (r', (st', pc)))))"
  by (auto split: prod.splits sum.splits)

lemma put_kept:
  assumes "pc_inv pc" "map_of (pc_in_flight pc) i = Some old" "pr_request_id req = i" "pr_phase req = pr_phase old"
  shows "kept i pc (pc_put req pc)" "map_of (pc_in_flight (pc_put req pc)) i = Some req"
proof -
  note D = pc_invD [OF assms(1)]
  have keys: "dict_keys (dict_set i req (pc_in_flight pc)) = dict_keys (pc_in_flight pc)" by (rule dict_keys_replace [OF assms(2)])
  then have len: "length (dict_set i req (pc_in_flight pc)) = length (pc_in_flight pc)" by (metis length_map)
  have ids: "request_ids (pc_put req pc) = request_ids pc" by (simp add: request_ids_def pc_put_def assms(3) keys)
  have "counters_ok (pc_put req pc)"
    using D(1) phase_count_replace [OF D(3) assms(2)] assms(4) by (simp add: counters_ok_def pc_put_def assms(3) len)
  moreover have "\<forall>j r. map_of (pc_in_flight (pc_put req pc)) j = Some r \<longrightarrow> pr_request_id r = j"
    using D(5) assms(3) by (simp add: pc_put_def dict_simps)
  moreover have "int (length (pc_in_flight (pc_put req pc))) \<le> max 0 (pc_max_in_flight (pc_put req pc))"
    using D(6) by (simp add: pc_put_def assms(3) len)
  moreover have "distinct (request_ids (pc_put req pc))" unfolding ids by (rule D(2))
  ultimately have "pc_inv (pc_put req pc)" unfolding pc_inv_def by blast
  then show "kept i pc (pc_put req pc)" unfolding kept_def ids by (simp add: pc_put_def assms(3) dict_simps)
  show "map_of (pc_in_flight (pc_put req pc)) i = Some req" by (simp add: pc_put_def assms(3) dict_simps)
qed

lemma enter_load_phase_kept:
  assumes "pc_inv pc" "map_of (pc_in_flight pc) (pr_request_id req) = Some req" "pr_phase req = LOOKUP"
  defines "pc1 \<equiv> (pc_put (req\<lparr>pr_phase := PLAN_AND_LOAD\<rparr>) pc)\<lparr>pc_status_lookup_phase := pc_status_lookup_phase pc - 1,
      pc_status_load_phase := pc_status_load_phase pc + 1\<rparr>"
  shows "kept (pr_request_id req) pc pc1" "map_of (pc_in_flight pc1) (pr_request_id req) = Some (req\<lparr>pr_phase := PLAN_AND_LOAD\<rparr>)"
proof -
  let ?i = "pr_request_id req" and ?r = "req\<lparr>pr_phase := PLAN_AND_LOAD\<rparr>"
  note D = pc_invD [OF assms(1)]
  have keys: "dict_keys (dict_set ?i ?r (pc_in_flight pc)) = dict_keys (pc_in_flight pc)" by (rule dict_keys_replace [OF assms(2)])
  then have len: "length (dict_set ?i ?r (pc_in_flight pc)) = length (pc_in_flight pc)" by (metis length_map)
  have ids: "request_ids pc1 = request_ids pc" by (simp add: request_ids_def pc1_def pc_put_def keys)
  have "counters_ok pc1"
    using D(1) phase_count_replace [OF D(3) assms(2)] assms(3) by (simp add: counters_ok_def pc1_def pc_put_def len)
  moreover have "\<forall>j r. map_of (pc_in_flight pc1) j = Some r \<longrightarrow> pr_request_id r = j"
    using D(5) by (simp add: pc1_def pc_put_def dict_simps)
  moreover have "int (length (pc_in_flight pc1)) \<le> max 0 (pc_max_in_flight pc1)" using D(6) by (simp add: pc1_def pc_put_def len)
  moreover have "distinct (request_ids pc1)" unfolding ids by (rule D(2))
  ultimately have "pc_inv pc1" unfolding pc_inv_def by blast
  then show "kept ?i pc pc1" unfolding kept_def ids by (simp add: pc1_def pc_put_def dict_simps)
  show "map_of (pc_in_flight pc1) ?i = Some ?r" by (simp add: pc1_def pc_put_def dict_simps)
qed

lemma moved:
  assumes "distinct (a @ b @ c @ d)" "i \<in> set c" "set c' = set c - {i}" "distinct c'"
  shows "distinct (a @ b @ c' @ d @ [i])" "set (a @ b @ c' @ d @ [i]) = set (a @ b @ c @ d)"
  using assms by auto

lemma complete_kept:
  assumes "pc_inv pc" "map_of (pc_in_flight pc) i = Some req"
  shows "kept i pc (complete_request i h pc)"
proof -
  let ?pc = "complete_request i h pc"
  note D = pc_invD [OF assms(1)]
  have i: "i \<in> set (dict_keys (pc_in_flight pc))" using assms(2) dict_in_keys_iff [of i "pc_in_flight pc"] by simp
  then have new: "map_of (pc_completed_results pc) i = None"
    using D(2) dict_in_keys_iff [of i "pc_completed_results pc"] by (auto simp: request_ids_def)
  have f: "pc_submission_queue ?pc = pc_submission_queue pc" "pc_pending_queue ?pc = pc_pending_queue pc"
    "pc_in_flight ?pc = dict_del i (pc_in_flight pc)" "pc_completed_results ?pc = pc_completed_results pc @ [(i, h)]"
    "pc_next_request_id ?pc = pc_next_request_id pc" "pc_max_in_flight ?pc = pc_max_in_flight pc"
    "pc_status_pending ?pc = pc_status_pending pc" "pc_status_in_flight ?pc = pc_status_in_flight pc - 1"
    "pc_status_lookup_phase ?pc = pc_status_lookup_phase pc - (if pr_phase req = LOOKUP then 1 else 0)"
    "pc_status_load_phase ?pc = pc_status_load_phase pc - (if pr_phase req = PLAN_AND_LOAD then 1 else 0)"
    using assms(2) dict_set_new [OF new]
    by (auto simp: complete_request_def dict_pop_def Let_def split: prefetch_phase.splits)
  have cnt: "counters_ok ?pc"
    using D(1) phase_count_del [OF D(3) assms(2)] length_dict_del [OF D(3) assms(2)] by (simp add: counters_ok_def f)
  have del: "set (dict_keys (dict_del i (pc_in_flight pc))) = set (dict_keys (pc_in_flight pc)) - {i}" by (rule set_dict_keys_del)
  have after: "request_ids ?pc = map fst (pc_submission_queue pc) @ map fst (pc_pending_queue pc) @
      dict_keys (dict_del i (pc_in_flight pc)) @ dict_keys (pc_completed_results pc) @ [i]"
    by (simp add: request_ids_def f)
  note m = moved [OF D(2) [unfolded request_ids_def] i del distinct_dict_del [OF D(3)]]
  have ids: "set (request_ids ?pc) = set (request_ids pc)" unfolding after using m(2) by (simp only: request_ids_def)
  have "distinct (request_ids ?pc)" unfolding after by (rule m(1))
  then have "pc_inv ?pc" using cnt D(5,6) length_dict_del [OF D(3) assms(2)]
    by (auto simp: pc_inv_def f dict_simps split: if_splits)
  then show ?thesis unfolding kept_def ids by (simp add: f dict_simps)
qed

lemma submit_loads_kept:
  assumes "pc_inv pc" "map_of (pc_in_flight pc) (pr_request_id req) = Some old" "pr_phase req = pr_phase old"
  shows "kept (pr_request_id req) pc (snd (submit_loads ops plan req pc))"
  using assms
proof (induction plan arbitrary: req pc old)
  case (Cons x plan)
  obtain i b where x: "x = (i, b)" by (cases x)
  show ?case
  proof (cases "those (map (map_of (pr_write_reserved_objs req)) (bm_gather b (pr_keys req)))")
    case None
    then show ?thesis using Cons.prems x by (simp add: Let_def)
  next
    case (Some objs)
    obtain t a where t: "l2_submit_load_task ops (bm_gather b (pr_keys req)) objs (pc_adapters pc ! i) = (t, a)" by fastforce
    let ?req = "req\<lparr>pr_pending_load_tasks := dict_set i t (pr_pending_load_tasks req)\<rparr>"
    let ?pc = "pc_put ?req (pc\<lparr>pc_adapters := (pc_adapters pc)[i := a]\<rparr>)"
    have p: "kept (pr_request_id req) (pc\<lparr>pc_adapters := (pc_adapters pc)[i := a]\<rparr>) ?pc" "map_of (pc_in_flight ?pc) (pr_request_id req) = Some ?req"
      by (rule put_kept [where old = old]; use Cons.prems in simp)+
    have "pc_inv ?pc" using p(1) by (simp add: kept_def)
    from Cons.IH [OF this, of ?req ?req] p have "kept (pr_request_id req) ?pc (snd (submit_loads ops plan ?req ?pc))" by simp
    with p(1) show ?thesis using x Some t by (auto simp: Let_def intro: kept_trans)
  qed
qed simp

lemma with_reserved_fields [simp]:
  "pr_request_id (with_reserved items req) = pr_request_id req" "pr_phase (with_reserved items req) = pr_phase req"
  "pr_keys (with_reserved items req) = pr_keys req"
  by (simp_all add: with_reserved_def)

lemma planned_kept:
  fixes ops :: "('k, 'a) l2_ops"
  assumes "pc_inv pc1" "map_of (pc_in_flight pc1) (pr_request_id req1) = Some req1"
  defines "req3 \<equiv> \<lambda>items plan. (with_reserved items req1)\<lparr>pr_load_plan := plan\<rparr>"
  defines "pc2 \<equiv> \<lambda>items plan. unlock_unneeded_keys ops (req3 items plan) (pc_put (req3 items plan) pc1)"
  shows "kept (pr_request_id req1) pc1 (pc2 items plan)"
    and "kept (pr_request_id req1) pc1 (complete_request (pr_request_id req1) h (pc2 items plan))"
    and "kept (pr_request_id req1) pc1 (snd (submit_loads ops plan' (req3 items plan) (pc2 items plan)))"
proof -
  let ?i = "pr_request_id req1"
  have p: "kept ?i pc1 (pc_put (req3 items plan) pc1)" "map_of (pc_in_flight (pc_put (req3 items plan) pc1)) ?i = Some (req3 items plan)"
    by (rule put_kept [OF assms(1,2)]; simp add: req3_def)+
  obtain as where as: "pc2 items plan = (pc_put (req3 items plan) pc1)\<lparr>pc_adapters := as\<rparr>"
    using unlock_adapters_only(1) unfolding pc2_def by blast
  have k: "kept ?i pc1 (pc2 items plan)" "map_of (pc_in_flight (pc2 items plan)) ?i = Some (req3 items plan)"
    using p by (simp_all add: as)
  then have inv: "pc_inv (pc2 items plan)" by (simp add: kept_def)
  show "kept ?i pc1 (pc2 items plan)" by (rule k(1))
  show "kept ?i pc1 (complete_request ?i h (pc2 items plan))"
    by (rule kept_trans [OF k(1) complete_kept [OF inv k(2)]])
  have "kept (pr_request_id (req3 items plan)) (pc2 items plan) (snd (submit_loads ops plan' (req3 items plan) (pc2 items plan)))"
    by (rule submit_loads_kept [OF inv, of _ "req3 items plan"]) (simp_all add: k(2) req3_def)
  then have "kept ?i (pc2 items plan) (snd (submit_loads ops plan' (req3 items plan) (pc2 items plan)))" by (simp add: req3_def)
  with k(1) show "kept ?i pc1 (snd (submit_loads ops plan' (req3 items plan) (pc2 items plan)))" by (rule kept_trans)
qed

lemma transition_kept:
  assumes "pc_inv (snd s)" "map_of (pc_in_flight (snd s)) (pr_request_id req) = Some req" "pr_phase req = LOOKUP"
  shows "kept (pr_request_id req) (snd s) (snd (snd (transition_to_load_phase ops E now req s)))"
proof -
  let ?req1 = "req\<lparr>pr_phase := PLAN_AND_LOAD\<rparr>" and ?i = "pr_request_id req"
  let ?pc1 = "(pc_put ?req1 (snd s))\<lparr>pc_status_lookup_phase := pc_status_lookup_phase (snd s) - 1,
      pc_status_load_phase := pc_status_load_phase (snd s) + 1\<rparr>"
  note e = enter_load_phase_kept [OF assms]
  have inv: "pc_inv ?pc1" using e(1) by (simp add: kept_def)
  have one: "map_of (pc_in_flight ?pc1) (pr_request_id ?req1) = Some ?req1" using e(2) by simp
  have id: "pr_request_id ?req1 = ?i" by simp
  note p = planned_kept [OF inv one, unfolded id, THEN kept_trans [OF e(1)]]
  obtain as where as: "unlock_all_lookups ops ?req1 ?pc1 = ?pc1\<lparr>pc_adapters := as\<rparr>" using unlock_adapters_only(3) by blast
  have idle: "kept ?i (snd s) (complete_request ?i 0 (unlock_all_lookups ops ?req1 ?pc1))"
    unfolding as by (rule kept_trans [where b = "?pc1\<lparr>pc_adapters := as\<rparr>"]) (use e inv one complete_kept [of "?pc1\<lparr>pc_adapters := as\<rparr>" ?i ?req1 0] in simp_all)
  have ids: "pr_request_id ?req1 = ?i" "pr_request_id ((with_reserved items ?req1)\<lparr>pr_load_plan := plan\<rparr>) = ?i" for items plan
    by simp_all
  show ?thesis
    unfolding transition_to_load_phase_def Let_def ids
    by (rule kept_branches(1), simp only: snd_conv idle, rule kept_branches(2), simp only: snd_conv e(1),
        rule kept_branches(1), rule kept_branches(2), simp only: snd_conv p(1), simp only: snd_conv p(2),
        rule kept_branches(3), rule p(3))
qed

lemma finalize_kept:
  assumes "pc_inv (snd s)" "map_of (pc_in_flight (snd s)) (pr_request_id req) = Some req"
  shows "kept (pr_request_id req) (snd s) (snd (snd (finalize_load ops E now req s)))"
proof -
  obtain as where as: "unlock_all_plan_keys ops req (snd s) = (snd s)\<lparr>pc_adapters := as\<rparr>" using unlock_adapters_only(2) by blast
  have c: "kept (pr_request_id req) (snd s) (complete_request (pr_request_id req) h ((snd s)\<lparr>pc_adapters := as\<rparr>))" for h
    using complete_kept [of "(snd s)\<lparr>pc_adapters := as\<rparr>" "pr_request_id req" req h] assms by simp
  have k: "kept (pr_request_id req) (snd s) ((snd s)\<lparr>pc_adapters := as\<rparr>)" using assms(1) by simp
  show ?thesis unfolding finalize_load_def Let_def as
    by (intro kept_branches; unfold snd_conv; rule c k)
qed

text \<open>The first loop of both completion handlers keeps the accounts and collects requests as the table has them.\<close>

definition collected :: "prefetch_phase \<Rightarrow> ('k, 'a) prefetch_controller \<Rightarrow> 'k prefetch_request list \<Rightarrow> bool" where
  "collected ph pc rs \<longleftrightarrow> distinct (map pr_request_id rs) \<and>
     (\<forall>r \<in> set rs. map_of (pc_in_flight pc) (pr_request_id r) = Some r \<and> pr_phase r = ph)"

definition same_accounts :: "('k, 'a) prefetch_controller \<Rightarrow> ('k, 'b) prefetch_controller \<Rightarrow> bool" where
  "same_accounts pc pc' \<longleftrightarrow> pc_inv pc' \<and> set (request_ids pc') = set (request_ids pc) \<and>
     pc_next_request_id pc' = pc_next_request_id pc \<and> pc_max_in_flight pc' = pc_max_in_flight pc"

lemma same_accounts_trans: "same_accounts a b \<Longrightarrow> same_accounts b c \<Longrightarrow> same_accounts a c"
  by (simp add: same_accounts_def)

lemma kept_same_accounts: "kept i a b \<Longrightarrow> same_accounts a b"
  by (simp add: kept_def same_accounts_def)

lemma collect_loop:
  assumes "\<And>req pc ready. pc_inv pc \<Longrightarrow> map_of (pc_in_flight pc) (pr_request_id req) = Some req \<Longrightarrow>
      kept (pr_request_id req) pc (fst (step req (pc, ready))) \<and>
      (snd (step req (pc, ready)) = ready \<or>
       (\<exists>r. snd (step req (pc, ready)) = ready @ [r] \<and> pr_request_id r = pr_request_id req \<and> pr_phase r = ph \<and>
          map_of (pc_in_flight (fst (step req (pc, ready)))) (pr_request_id req) = Some r))"
    and "pc_inv pc" "distinct (map pr_request_id reqs)" "\<forall>r \<in> set reqs. map_of (pc_in_flight pc) (pr_request_id r) = Some r"
    and "collected ph pc ready" "set (map pr_request_id ready) \<inter> set (map pr_request_id reqs) = {}"
  shows "same_accounts pc (fst (fold step reqs (pc, ready))) \<and>
    collected ph (fst (fold step reqs (pc, ready))) (snd (fold step reqs (pc, ready)))"
  using assms(2-6)
proof (induction reqs arbitrary: pc ready)
  case (Cons req reqs)
  obtain pc1 ready1 where s: "step req (pc, ready) = (pc1, ready1)" by fastforce
  have cur: "map_of (pc_in_flight pc) (pr_request_id req) = Some req" using Cons.prems(3) by simp
  note A = assms(1) [OF Cons.prems(1) cur, of ready, unfolded s fst_conv snd_conv]
  then have k: "kept (pr_request_id req) pc pc1" by blast
  have other: "map_of (pc_in_flight pc1) j = map_of (pc_in_flight pc) j" if "j \<noteq> pr_request_id req" for j
    using k that by (simp add: kept_def)
  have notin: "pr_request_id req \<notin> set (map pr_request_id reqs)" "pr_request_id req \<notin> set (map pr_request_id ready)"
    using Cons.prems(2,5) by auto
  have rest: "\<forall>r \<in> set reqs. map_of (pc_in_flight pc1) (pr_request_id r) = Some r"
    using Cons.prems(3) other notin(1) by (metis image_eqI list.set_intros(2) set_map)
  have kept_ready: "collected ph pc1 ready"
    using Cons.prems(4) other notin(2) unfolding collected_def by (metis image_eqI set_map)
  have col: "collected ph pc1 ready1 \<and> set (map pr_request_id ready1) \<inter> set (map pr_request_id reqs) = {}"
    using conjunct2 [OF A]
  proof (elim disjE exE conjE)
    assume "ready1 = ready"
    then show ?thesis using kept_ready Cons.prems(5) by auto
  next
    fix r
    assume "ready1 = ready @ [r]" "pr_request_id r = pr_request_id req" "pr_phase r = ph"
      "map_of (pc_in_flight pc1) (pr_request_id req) = Some r"
    then show ?thesis using kept_ready notin Cons.prems(5) unfolding collected_def by auto
  qed
  have inv: "pc_inv pc1" using k by (simp add: kept_def)
  have dis: "distinct (map pr_request_id reqs)" using Cons.prems(2) by simp
  from Cons.IH [OF inv dis rest conjunct1 [OF col] conjunct2 [OF col]] kept_same_accounts [OF k] show ?case
    unfolding fold_simps(2) s by (blast intro: same_accounts_trans)
qed (simp add: same_accounts_def)

lemma each_request_accounts:
  assumes "\<And>req s. pc_inv (snd s) \<Longrightarrow> map_of (pc_in_flight (snd s)) (pr_request_id req) = Some req \<Longrightarrow> pr_phase req = ph \<Longrightarrow>
      kept (pr_request_id req) (snd s) (snd (snd (handle req s)))"
    and "pc_inv (snd s)" "collected ph (snd s) reqs"
  shows "same_accounts (snd s) (snd (snd (each_request handle reqs s)))"
  using assms(2,3)
proof (induction reqs arbitrary: s)
  case (Cons req reqs)
  note dis = conjunct1 [OF iffD1 [OF collected_def Cons.prems(2)]]
  note cur_all = conjunct2 [OF iffD1 [OF collected_def Cons.prems(2)]]
  have cur: "map_of (pc_in_flight (snd s)) (pr_request_id req) = Some req" "pr_phase req = ph"
    using bspec [OF cur_all, of req] by simp_all
  have k: "kept (pr_request_id req) (snd s) (snd (snd (handle req s)))" by (rule assms(1) [OF Cons.prems(1) cur])
  show ?case
  proof -
    obtain r s1 where Pair: "handle req s = (r, s1)" by (cases "handle req s")
    have inv: "pc_inv (snd s1)" using k Pair by (simp add: kept_def)
    have "map_of (pc_in_flight (snd s1)) (pr_request_id q) = Some q \<and> pr_phase q = ph" if "q \<in> set reqs" for q
    proof -
      have "pr_request_id q \<noteq> pr_request_id req" using dis that by (auto simp: image_iff)
      moreover have "map_of (pc_in_flight (snd s)) (pr_request_id q) = Some q \<and> pr_phase q = ph"
        by (rule bspec [OF cur_all]) (use that in simp)
      ultimately show ?thesis using k Pair by (simp add: kept_def)
    qed
    then have "collected ph (snd s1) reqs" unfolding collected_def using dis by simp
    have rest: "same_accounts (snd s1) (snd (snd (each_request handle reqs s1)))" by (rule Cons.IH [OF inv \<open>collected ph (snd s1) reqs\<close>])
    have one: "same_accounts (snd s) (snd s1)" using kept_same_accounts [OF k] by (simp add: Pair)
    show ?thesis using one same_accounts_trans [OF one rest] by (cases r) (simp_all add: Pair)
  qed
qed (simp add: same_accounts_def)

lemma in_flight_current:
  assumes "pc_inv pc"
  shows "distinct (map pr_request_id (dict_values (pc_in_flight pc)))"
    and "\<forall>r \<in> set (dict_values (pc_in_flight pc)). map_of (pc_in_flight pc) (pr_request_id r) = Some r"
proof -
  note D = pc_invD [OF assms]
  have id: "map_of (pc_in_flight pc) i = Some r \<and> pr_request_id r = i" if "(i, r) \<in> set (pc_in_flight pc)" for i r
    using map_of_is_SomeI [OF D(3) that] D(5) by blast
  then have eq: "map pr_request_id (dict_values (pc_in_flight pc)) = dict_keys (pc_in_flight pc)" by (auto intro!: map_cong)
  show "distinct (map pr_request_id (dict_values (pc_in_flight pc)))" unfolding eq by (rule D(3))
  show "\<forall>r \<in> set (dict_values (pc_in_flight pc)). map_of (pc_in_flight pc) (pr_request_id r) = Some r"
    using id by auto
qed

lemma collect_done:
  assumes "kept (pr_request_id req) pc pc'" "map_of (pc_in_flight pc') (pr_request_id req) = Some r"
    "pr_request_id r = pr_request_id req" "pr_phase r = ph"
  shows "kept (pr_request_id req) pc (fst (pc', if c then ready @ [r] else ready)) \<and>
    (snd (pc', if c then ready @ [r] else ready) = ready \<or>
     (\<exists>r'. snd (pc', if c then ready @ [r] else ready) = ready @ [r'] \<and> pr_request_id r' = pr_request_id req \<and> pr_phase r' = ph \<and>
        map_of (pc_in_flight (fst (pc', if c then ready @ [r] else ready))) (pr_request_id req) = Some r'))"
  using assms by (cases c) auto

lemma lookup_step_collects:
  assumes "pc_inv pc" "map_of (pc_in_flight pc) (pr_request_id req) = Some req"
  shows "kept (pr_request_id req) pc (fst (lookup_completion_step ops i req (pc, ready))) \<and>
    (snd (lookup_completion_step ops i req (pc, ready)) = ready \<or>
     (\<exists>r. snd (lookup_completion_step ops i req (pc, ready)) = ready @ [r] \<and> pr_request_id r = pr_request_id req \<and>
        pr_phase r = LOOKUP \<and>
        map_of (pc_in_flight (fst (lookup_completion_step ops i req (pc, ready)))) (pr_request_id req) = Some r))"
proof (cases "pr_phase req \<noteq> LOOKUP \<or> map_of (pr_pending_lookup_tasks req) i = None")
  case True
  then have "lookup_completion_step ops i req (pc, ready) = (pc, ready)" by (auto simp: lookup_completion_step_def)
  then show ?thesis using assms(1) by simp
next
  case False
  then obtain t where t: "map_of (pr_pending_lookup_tasks req) i = Some t" "pr_phase req = LOOKUP" by auto
  obtain res a where q: "l2_query_lookup_and_lock_result ops t (pc_adapters pc ! i) = (res, a)" by fastforce
  show ?thesis
  proof (cases res)
    case None
    then have "lookup_completion_step ops i req (pc, ready) = (pc\<lparr>pc_adapters := (pc_adapters pc)[i := a]\<rparr>, ready)"
      using t q by (simp add: lookup_completion_step_def)
    then show ?thesis using assms(1) by simp
  next
    case (Some b)
    let ?r = "req\<lparr>pr_lookup_results := dict_set i b (pr_lookup_results req), pr_pending_lookup_tasks := dict_del i (pr_pending_lookup_tasks req)\<rparr>"
    let ?pc = "pc_put ?r (pc\<lparr>pc_adapters := (pc_adapters pc)[i := a]\<rparr>)"
    have step: "lookup_completion_step ops i req (pc, ready) = (?pc, if all_lookups_done ?r then ready @ [?r] else ready)"
      using Some t q by (simp add: lookup_completion_step_def Let_def)
    have p: "kept (pr_request_id req) (pc\<lparr>pc_adapters := (pc_adapters pc)[i := a]\<rparr>) ?pc" "map_of (pc_in_flight ?pc) (pr_request_id req) = Some ?r"
      by (rule put_kept [where old = req]; use assms in simp)+
    show ?thesis unfolding step by (rule collect_done) (use p t in simp_all)
  qed
qed

lemma load_step_collects:
  assumes "pc_inv pc" "map_of (pc_in_flight pc) (pr_request_id req) = Some req"
  shows "kept (pr_request_id req) pc (fst (load_completion_step ops i req (pc, ready))) \<and>
    (snd (load_completion_step ops i req (pc, ready)) = ready \<or>
     (\<exists>r. snd (load_completion_step ops i req (pc, ready)) = ready @ [r] \<and> pr_request_id r = pr_request_id req \<and>
        pr_phase r = PLAN_AND_LOAD \<and>
        map_of (pc_in_flight (fst (load_completion_step ops i req (pc, ready)))) (pr_request_id req) = Some r))"
proof (cases "pr_phase req \<noteq> PLAN_AND_LOAD \<or> map_of (pr_pending_load_tasks req) i = None")
  case True
  then have "load_completion_step ops i req (pc, ready) = (pc, ready)" by (auto simp: load_completion_step_def)
  then show ?thesis using assms(1) by simp
next
  case False
  then obtain t where t: "map_of (pr_pending_load_tasks req) i = Some t" "pr_phase req = PLAN_AND_LOAD" by auto
  obtain res a where q: "l2_query_load_result ops t (pc_adapters pc ! i) = (res, a)" by fastforce
  show ?thesis
  proof (cases res)
    case None
    then have "load_completion_step ops i req (pc, ready) = (pc\<lparr>pc_adapters := (pc_adapters pc)[i := a]\<rparr>, ready)"
      using t q by (simp add: load_completion_step_def)
    then show ?thesis using assms(1) by simp
  next
    case (Some b)
    let ?r = "req\<lparr>pr_load_results := dict_set i b (pr_load_results req), pr_pending_load_tasks := dict_del i (pr_pending_load_tasks req)\<rparr>"
    let ?pc = "pc_put ?r (pc\<lparr>pc_adapters := (pc_adapters pc)[i := a]\<rparr>)"
    have step: "load_completion_step ops i req (pc, ready) = (?pc, if all_loads_done ?r then ready @ [?r] else ready)"
      using Some t q by (simp add: load_completion_step_def Let_def)
    have p: "kept (pr_request_id req) (pc\<lparr>pc_adapters := (pc_adapters pc)[i := a]\<rparr>) ?pc" "map_of (pc_in_flight ?pc) (pr_request_id req) = Some ?r"
      by (rule put_kept [where old = req]; use assms in simp)+
    show ?thesis unfolding step by (rule collect_done) (use p t in simp_all)
  qed
qed

lemma completions_accounts:
  assumes "pc_inv (snd s)"
  shows "same_accounts (snd s) (snd (snd (process_lookup_completions ops E now i s)))"
    and "same_accounts (snd s) (snd (snd (process_load_completions ops E now i s)))"
proof -
  note F = in_flight_current [OF assms]
  have none: "collected ph (snd s) []" "set (map pr_request_id []) \<inter> set (map pr_request_id (dict_values (pc_in_flight (snd s)))) = {}" for ph
    by (simp_all add: collected_def)
  obtain pc ready where l: "fold (lookup_completion_step ops i) (dict_values (pc_in_flight (snd s))) (snd s, []) = (pc, ready)" by fastforce
  note L = collect_loop [where step = "lookup_completion_step ops i", OF lookup_step_collects assms F none, unfolded l fst_conv snd_conv]
  have "pc_inv pc" using L by (simp add: same_accounts_def)
  then have "same_accounts pc (snd (snd (each_request (transition_to_load_phase ops E now) ready (fst s, pc))))"
    using each_request_accounts [OF transition_kept, where s = "(fst s, pc)"] L by simp
  with L show "same_accounts (snd s) (snd (snd (process_lookup_completions ops E now i s)))"
    by (simp add: process_lookup_completions_def l) (blast intro: same_accounts_trans)
  obtain pc2 ready2 where l2: "fold (load_completion_step ops i) (dict_values (pc_in_flight (snd s))) (snd s, []) = (pc2, ready2)" by fastforce
  note L2 = collect_loop [where step = "load_completion_step ops i", OF load_step_collects assms F none, unfolded l2 fst_conv snd_conv]
  have "pc_inv pc2" using L2 by (simp add: same_accounts_def)
  then have "same_accounts pc2 (snd (snd (each_request (finalize_load ops E now) ready2 (fst s, pc2))))"
    using each_request_accounts [where handle = "finalize_load ops E now" and ph = PLAN_AND_LOAD, OF finalize_kept, where s = "(fst s, pc2)"] L2 by simp
  with L2 show "same_accounts (snd s) (snd (snd (process_load_completions ops E now i s)))"
    by (simp add: process_load_completions_def l2) (blast intro: same_accounts_trans)
qed

lemma request_new_id: "distinct (a @ (i # q) @ c @ d) \<Longrightarrow> i \<notin> set a \<and> i \<notin> set q \<and> i \<notin> set c \<and> i \<notin> set d"
  by auto

text \<open>Starting the first pending request.\<close>

lemma start_one_accounts:
  fixes ops :: "('k, 'a) l2_ops"
  assumes "pc_inv pc" "pc_pending_queue pc = sub # q" "int (length (pc_in_flight pc)) < pc_max_in_flight pc"
  defines "pc' \<equiv> start_lookup_phase ops sub (pc\<lparr>pc_pending_queue := q, pc_status_pending := pc_status_pending pc - 1\<rparr>)"
  shows "same_accounts pc pc' \<and> pc_pending_queue pc' = q"
proof -
  obtain i keys l ec where sub: "sub = (i, keys, l, ec)" by (cases sub)
  note D = pc_invD [OF assms(1)]
  have dis: "distinct (map fst (pc_submission_queue pc) @ (i # map fst q) @ dict_keys (pc_in_flight pc) @ dict_keys (pc_completed_results pc))"
    using D(2) assms(2) sub by (simp add: request_ids_def)
  note new = request_new_id [OF dis]
  have none: "map_of (pc_in_flight pc) i = None" "map_of (pc_completed_results pc) i = None"
    using new dict_in_keys_iff [of i "pc_in_flight pc"] dict_in_keys_iff [of i "pc_completed_results pc"] by blast+
  show ?thesis
  proof (cases "pc_adapters pc = []")
    case True
    have "dict_del i (pc_in_flight pc) = pc_in_flight pc" using new by (simp add: AList.delete_id)
    then have pc': "pc' = pc\<lparr>pc_pending_queue := q, pc_status_pending := pc_status_pending pc - 1,
        pc_completed_results := pc_completed_results pc @ [(i, 0)]\<rparr>"
      using True none dict_set_new [OF none(2), of 0] unfolding pc'_def sub
      by (simp add: start_lookup_phase_def complete_request_def dict_pop_def Let_def)
    have "counters_ok pc'" using D(1) assms(2) by (simp add: counters_ok_def pc')
    moreover have "distinct (request_ids pc')" using dis by (auto simp add: request_ids_def pc')
    ultimately have "pc_inv pc'" using D(5,6) unfolding pc_inv_def by (simp add: pc')
    moreover have "set (request_ids pc') = set (request_ids pc)" using assms(2) sub by (auto simp: request_ids_def pc')
    ultimately show ?thesis by (simp add: same_accounts_def pc')
  next
    case False
    let ?sub = "map (l2_submit_lookup_and_lock_task ops keys) (pc_adapters pc)"
    let ?r = "\<lparr>pr_request_id = i, pr_keys = keys, pr_layout_desc = l, pr_phase = LOOKUP,
       pr_extra_count = ec, pr_pending_lookup_tasks = enumerate 0 (map fst ?sub),
       pr_lookup_results = [], pr_load_plan = [], pr_pending_load_tasks = [], pr_load_results = [],
       pr_write_reserved_keys = [], pr_write_reserved_objs = []\<rparr>"
    have pc': "pc' = pc\<lparr>pc_adapters := map snd ?sub, pc_pending_queue := q, pc_status_pending := pc_status_pending pc - 1,
        pc_in_flight := pc_in_flight pc @ [(i, ?r)], pc_status_in_flight := pc_status_in_flight pc + 1,
        pc_status_lookup_phase := pc_status_lookup_phase pc + 1\<rparr>"
      using False dict_set_new [OF none(1), of ?r] unfolding pc'_def sub
      by (simp add: start_lookup_phase_def pc_put_def Let_def)
    have "counters_ok pc'" using D(1) assms(2) by (simp add: counters_ok_def pc' phase_count_def)
    moreover have "distinct (request_ids pc')" using dis by (auto simp add: request_ids_def pc')
    moreover have "\<forall>j r. map_of (pc_in_flight pc') j = Some r \<longrightarrow> pr_request_id r = j"
      using D(5) by (auto simp: pc' map_add_def split: option.splits)
    moreover have "int (length (pc_in_flight pc')) \<le> max 0 (pc_max_in_flight pc')" using assms(3) by (simp add: pc')
    ultimately have "pc_inv pc'" unfolding pc_inv_def by blast
    moreover have "set (request_ids pc') = set (request_ids pc)" using assms(2) sub by (auto simp: request_ids_def pc')
    ultimately show ?thesis by (simp add: same_accounts_def pc')
  qed
qed

lemma start_pending_accounts:
  assumes "pc_inv pc"
  shows "same_accounts pc (start_pending_requests ops pc) \<and>
    (pc_pending_queue (start_pending_requests ops pc) = [] \<or>
     pc_max_in_flight pc \<le> int (length (pc_in_flight (start_pending_requests ops pc))))"
proof -
  have "same_accounts pc (start_pending_loop ops queue pc) \<and>
      (pc_pending_queue (start_pending_loop ops queue pc) = [] \<or>
       pc_max_in_flight pc \<le> int (length (pc_in_flight (start_pending_loop ops queue pc))))"
    if "pc_inv pc" "pc_pending_queue pc = queue" for queue pc
    using that
  proof (induction queue arbitrary: pc)
    case (Cons sub q)
    show ?case
    proof (cases "int (length (pc_in_flight pc)) < pc_max_in_flight pc")
      case True
      let ?pc = "start_lookup_phase ops sub (pc\<lparr>pc_pending_queue := q, pc_status_pending := pc_status_pending pc - 1\<rparr>)"
      note one = start_one_accounts [OF Cons.prems True, of ops]
      have inv: "pc_inv ?pc" and m: "pc_max_in_flight ?pc = pc_max_in_flight pc" using one by (simp_all add: same_accounts_def)
      note rest = Cons.IH [OF inv conjunct2 [OF one]]
      have "start_pending_loop ops (sub # q) pc = start_pending_loop ops q ?pc" using True by simp
      then show ?thesis using rest m same_accounts_trans [OF conjunct1 [OF one] conjunct1 [OF rest]] by simp
    qed (use Cons.prems in \<open>simp add: same_accounts_def\<close>)
  qed (simp add: same_accounts_def)
  from this [OF assms refl] show ?thesis by (simp add: start_pending_requests_def)
qed

lemma drain_accounts:
  assumes "pc_inv pc"
  shows "same_accounts pc (drain_submission_queue pc)"
proof -
  note D = pc_invD [OF assms]
  have "counters_ok (drain_submission_queue pc)" using D(1) by (simp add: counters_ok_def drain_submission_queue_def)
  moreover have "distinct (request_ids (drain_submission_queue pc))" "set (request_ids (drain_submission_queue pc)) = set (request_ids pc)"
    using D(2) by (auto simp: request_ids_def drain_submission_queue_def)
  ultimately show ?thesis using D(5,6) by (simp add: same_accounts_def pc_inv_def) (simp add: drain_submission_queue_def)
qed

lemma events_accounts:
  assumes "pc_inv (snd s)"
  shows "same_accounts (snd s) (snd (snd (prefetch_events ops E now evs s)))"
  using assms
proof (induction evs arbitrary: s)
  case (Cons ev evs)
  let ?one = "case ev of SubmissionReady \<Rightarrow> (Inr (), (fst s, drain_submission_queue (snd s)))
      | LookupReady i \<Rightarrow> process_lookup_completions ops E now i s
      | LoadReady i \<Rightarrow> process_load_completions ops E now i s"
  have one: "same_accounts (snd s) (snd (snd ?one))"
    using drain_accounts [OF Cons.prems] completions_accounts [OF Cons.prems] by (cases ev) simp_all
  obtain r s1 where p: "?one = (r, s1)" by (cases ?one)
  have a: "same_accounts (snd s) (snd s1)" using one unfolding p by simp
  then have "pc_inv (snd s1)" by (simp add: same_accounts_def)
  from same_accounts_trans [OF a Cons.IH [OF this]] a show ?case
    by (cases r) (simp_all only: prefetch_events.simps p prod.case sum.case snd_conv)
qed (simp add: same_accounts_def)

text \<open>A whole turn: the accounts are kept, and when it returns no request waits while there is room.\<close>

lemma turn_accounts:
  assumes "pc_inv (snd s)" "prefetch_turn ops E now evs s = (r, s')"
  shows "same_accounts (snd s) (snd s')"
    and "r = Inr () \<Longrightarrow> pc_pending_queue (snd s') = [] \<or> pc_max_in_flight (snd s') \<le> int (length (pc_in_flight (snd s')))"
proof -
  obtain r1 s1 where e: "prefetch_events ops E now evs s = (r1, s1)" by (cases "prefetch_events ops E now evs s")
  have a: "same_accounts (snd s) (snd s1)" using events_accounts [OF assms(1), of ops E now evs] unfolding e by simp
  then have inv: "pc_inv (snd s1)" by (simp add: same_accounts_def)
  note b = start_pending_accounts [OF inv, of ops]
  have "pc_max_in_flight (start_pending_requests ops (snd s1)) = pc_max_in_flight (snd s1)" using b by (simp add: same_accounts_def)
  then show "same_accounts (snd s) (snd s')"
    and "r = Inr () \<Longrightarrow> pc_pending_queue (snd s') = [] \<or> pc_max_in_flight (snd s') \<le> int (length (pc_in_flight (snd s')))"
    using assms(2) a b same_accounts_trans [OF a conjunct1 [OF b]] by (cases r1; auto simp: prefetch_turn_def e)+
qed

section \<open>Histories of the controller\<close>

text \<open>
  The controller with the set of identifiers whose result was delivered. Any thread submits
  and queries, the loop takes turns, raising or not, and L1 and the adapters change on their
  own.
\<close>

inductive prefetch_step :: "('k, 'a) l2_ops \<Rightarrow> env \<Rightarrow> 'k l1 \<times> ('k, 'a) prefetch_controller \<times> int set
    \<Rightarrow> 'k l1 \<times> ('k, 'a) prefetch_controller \<times> int set \<Rightarrow> bool" for ops E where
  submit: "submit_prefetch_request keys layout extra_count pc = (i, pc') \<Longrightarrow> prefetch_step ops E (st, pc, F) (st, pc', F)"
| query: "query_prefetch_result i pc = (r, pc') \<Longrightarrow>
    prefetch_step ops E (st, pc, F) (st, pc', if r = None then F else insert i F)"
| turn: "prefetch_turn ops E now evs (st, pc) = (r, (st', pc')) \<Longrightarrow> prefetch_step ops E (st, pc, F) (st', pc', F)"
| outside: "prefetch_step ops E (st, pc, F) (st', pc\<lparr>pc_adapters := as\<rparr>, F)"

definition requests_ok :: "int \<Rightarrow> ('k, 'a) prefetch_controller \<Rightarrow> int set \<Rightarrow> bool" where
  "requests_ok m pc F \<longleftrightarrow> pc_inv pc \<and> pc_max_in_flight pc = m \<and> 0 \<le> pc_next_request_id pc \<and>
     set (request_ids pc) \<inter> F = {} \<and> set (request_ids pc) \<union> F = {0 ..< pc_next_request_id pc}"

lemma submit_requests_ok:
  assumes "requests_ok m pc F" "submit_prefetch_request keys layout ec pc = (i, pc')"
  shows "requests_ok m pc' F"
proof -
  have inv: "pc_inv pc" using assms(1) by (simp add: requests_ok_def)
  note D = pc_invD [OF inv]
  have pc': "pc' = pc\<lparr>pc_next_request_id := pc_next_request_id pc + 1,
      pc_submission_queue := pc_submission_queue pc @ [(pc_next_request_id pc, keys, layout, ec)]\<rparr>"
    using assms(2) by (auto simp: submit_prefetch_request_def Let_def)
  have new: "pc_next_request_id pc \<notin> set (request_ids pc)" "pc_next_request_id pc \<notin> F"
    using assms(1) by (auto simp: requests_ok_def set_eq_iff)
  have ids: "set (request_ids pc') = insert (pc_next_request_id pc) (set (request_ids pc))"
    by (auto simp: request_ids_def pc')
  have "distinct (request_ids pc')" using D(2) new(1) by (auto simp: request_ids_def pc')
  then have "pc_inv pc'" using D(1,5,6) unfolding pc_inv_def counters_ok_def by (simp add: pc')
  moreover have "{0 ..< pc_next_request_id pc + 1} = insert (pc_next_request_id pc) {0 ..< pc_next_request_id pc}"
    using assms(1) by (auto simp: requests_ok_def)
  ultimately show ?thesis using assms(1) new(2) unfolding requests_ok_def ids by (simp add: pc')
qed

lemma query_requests_ok:
  assumes "requests_ok m pc F" "query_prefetch_result i pc = (r, pc')"
  shows "requests_ok m pc' (if r = None then F else insert i F)"
proof -
  have inv: "pc_inv pc" using assms(1) by (simp add: requests_ok_def)
  note D = pc_invD [OF inv]
  have pc': "pc' = pc\<lparr>pc_completed_results := dict_del i (pc_completed_results pc)\<rparr>" "r = map_of (pc_completed_results pc) i"
    using assms(2) by (auto simp: query_prefetch_result_def dict_pop_def)
  have del: "set (dict_keys (dict_del i (pc_completed_results pc))) = set (dict_keys (pc_completed_results pc)) - {i}"
    by (rule set_dict_keys_del)
  have dd: "distinct (dict_keys (dict_del i (pc_completed_results pc)))" using D(4) by simp
  have dis: "distinct (request_ids pc')"
    using D(2) del dd unfolding request_ids_def pc' by (auto simp del: set_map)
  have ids: "set (request_ids pc') = (if r = None then set (request_ids pc) else set (request_ids pc) - {i})"
    using D(2) del dict_in_keys_iff [of i "pc_completed_results pc"] unfolding request_ids_def pc' by (auto simp del: set_map)
  have "r \<noteq> None \<Longrightarrow> i \<in> set (request_ids pc)"
    using dict_in_keys_iff [of i "pc_completed_results pc"] unfolding request_ids_def pc'(2) by auto
  moreover have "pc_inv pc'" using dis D(1,5,6) unfolding pc_inv_def counters_ok_def by (simp add: pc'(1))
  ultimately show ?thesis using assms(1) unfolding requests_ok_def ids by (cases "r = None") (auto simp: pc'(1))
qed

lemma step_requests_ok:
  assumes "prefetch_step ops E a b" "requests_ok m (fst (snd a)) (snd (snd a))"
  shows "requests_ok m (fst (snd b)) (snd (snd b))"
  using assms(1)
proof cases
  case (turn now evs st pc r st' pc' F)
  then have "same_accounts pc pc'" using turn_accounts(1) [of "(st, pc)" ops E now evs r "(st', pc')"] assms(2)
    by (simp add: requests_ok_def)
  then show ?thesis using turn assms(2) by (simp add: requests_ok_def same_accounts_def)
next
  case (outside st pc F st' as)
  then show ?thesis using assms(2) by (simp add: requests_ok_def)
next
  case (submit keys layout extra_count pc i pc' st F)
  then show ?thesis using submit_requests_ok [of m pc F keys layout extra_count i pc'] assms(2) by simp
next
  case (query i pc r pc' st F)
  then show ?thesis using query_requests_ok [of m pc F i r pc'] assms(2) by simp
qed

section \<open>Properties\<close>

text \<open>C10: No prefetch request is lost, duplicated or answered twice, and the controller's status is what it counts. In every
  history of submissions, queries and turns of the loop, whether handlers raise or not and whatever the adapters
  and L1 do, each identifier ever issued is in exactly one place: the submission queue, the pending queue, the
  table of requests in flight, the completed results or the results already delivered; at most max_in_flight
  requests are in flight; and the counts that report_status returns are the numbers of pending requests, of
  requests in flight and of those in either phase.\<close>

theorem no_request_is_lost:
  assumes "(prefetch_step ops E)\<^sup>*\<^sup>* (st0, prefetch_controller_init adapters descriptors m, {}) (st, pc, F)"
  shows "distinct (request_ids pc) \<and> set (request_ids pc) \<inter> F = {} \<and>
    set (request_ids pc) \<union> F = {0 ..< pc_next_request_id pc} \<and>
    int (length (pc_in_flight pc)) \<le> max 0 m \<and>
    (let status = prefetch_report_status pc
     in ps_pending_queue_size status = int (length (pc_pending_queue pc)) \<and>
        ps_in_flight_request_count status = int (length (pc_in_flight pc)) \<and>
        ps_lookup_phase_count status = int (length (filter (\<lambda>(i, r). pr_phase r = LOOKUP) (pc_in_flight pc))) \<and>
        ps_load_phase_count status = int (length (filter (\<lambda>(i, r). pr_phase r = PLAN_AND_LOAD) (pc_in_flight pc))))"
proof -
  have init: "requests_ok m (prefetch_controller_init adapters descriptors m :: ('a, 'b) prefetch_controller) {}"
    by (simp add: requests_ok_def pc_inv_def counters_ok_def request_ids_def prefetch_controller_init_def phase_count_def)
  have "requests_ok m (fst (snd c)) (snd (snd c))"
    if "(prefetch_step ops E)\<^sup>*\<^sup>* (st0, prefetch_controller_init adapters descriptors m, {}) c" for c
    using that by (induction rule: rtranclp_induct) (use init step_requests_ok in auto)
  from this [OF assms] have ok: "requests_ok m pc F" by simp
  have count: "phase_count ph d = int (length (filter (\<lambda>(i, r). pr_phase r = ph) d))" for ph and d :: "(int, 'a prefetch_request) dict"
    by (induction d) (auto simp: phase_count_def)
  have m: "pc_max_in_flight pc = m" using ok by (simp add: requests_ok_def)
  show ?thesis using ok unfolding requests_ok_def pc_inv_def counters_ok_def count m
    by (simp add: prefetch_report_status_def Let_def)
qed

theorem no_request_is_lost_witness:
  "set (request_ids (snd (submit_prefetch_request [1 :: int] sample_layout 0
     (prefetch_controller_init [mock_init 100 :: (int, int) mock] [] 8)))) = {0}"
proof -
  let ?pc = "prefetch_controller_init [mock_init 100 :: (int, int) mock] [] 8"
  let ?sub = "submit_prefetch_request [1 :: int] sample_layout 0 ?pc"
  have "prefetch_step mock_ops reference_env (sample_l1, ?pc, {}) (sample_l1, snd ?sub, {})"
    by (rule submit) (rule prod.collapse [symmetric])
  note w = no_request_is_lost [OF r_into_rtranclp [of "prefetch_step mock_ops reference_env", OF this]]
  have "set (request_ids (snd ?sub)) = {0 ..< pc_next_request_id (snd ?sub)}"
    using conjunct1 [OF conjunct2 [OF conjunct2 [OF w]]] by (simp only: Un_empty_right)
  moreover have "pc_next_request_id (snd ?sub) = 1"
    by (simp add: submit_prefetch_request_def prefetch_controller_init_def Let_def)
  moreover have "{0 ..< 1 :: int} = {0}" by auto
  ultimately show ?thesis by (simp only:)
qed

end
