(* ===== verification/Storage_Manager.thy ===== *)
theory Storage_Manager
  imports Prefetch_Controller Eviction_Controller
begin

text \<open>
  StorageManager of lmcache/v1/distributed/storage_manager.py: it builds the L1 manager, the
  adapters and the three controllers, and offers their operations to the serving engine. The
  events it publishes are kept in a log of its own. The controllers' threads are modelled in
  their theories; here are the calls of the engine, each at a clock reading.
\<close>

section \<open>State\<close>

datatype sm_event_type = SM_WRITE_RESERVED | SM_WRITE_FINISHED | SM_READ_PREFETCHED | SM_READ_PREFETCHED_FINISHED

record prefetch_handle =
  ph_request_id :: int
  ph_l1_prefix_hit_count :: nat
  ph_total_requested_keys :: nat
  ph_submit_time :: int

record ('k, 'a) storage_manager =
  sm_l1_manager :: "'k l1"
  sm_eviction_controller :: nat
  sm_l2_adapters :: "'a list"
  sm_store_controller :: "('k, 'a) store_controller"
  sm_prefetch_controller :: "('k, 'a) prefetch_controller"
  sm_events :: "(sm_event_type \<times> 'k list \<times> 'k list) list"

record sm_config =
  cfg_write_ttl :: int
  cfg_read_ttl :: int
  cfg_eviction :: eviction_config
  cfg_adapter_types :: "string list"
  cfg_store_policy :: string
  cfg_prefetch_policy :: string

text \<open>The constructor; the memory manager and the adapters are built by their own constructors.\<close>

definition sm_init :: "sm_config \<Rightarrow> l1_mm \<Rightarrow> 'a list \<Rightarrow> py_error + ('k, 'a) storage_manager" where
  "sm_init cfg mem adapters =
     (case eviction_controller_init (cfg_eviction cfg) (l1_init mem (cfg_write_ttl cfg) (cfg_read_ttl cfg)) of
        Inl e \<Rightarrow> Inl e
      | Inr (i, st) \<Rightarrow>
          let descriptors = map (\<lambda>(i, name). \<lparr>ad_index = i, ad_type_name = name\<rparr>) (enumerate 0 (cfg_adapter_types cfg))
          in case create_store_policy (cfg_store_policy cfg) of
               Inl e \<Rightarrow> Inl e
             | Inr p \<Rightarrow>
                 (case store_controller_init adapters descriptors p st of
                    (sc, st1) \<Rightarrow>
                      (case create_prefetch_policy (cfg_prefetch_policy cfg) of
                         Inl e \<Rightarrow> Inl e
                       | Inr _ \<Rightarrow> Inr \<lparr>sm_l1_manager = st1, sm_eviction_controller = i, sm_l2_adapters = adapters,
                           sm_store_controller = sc,
                           sm_prefetch_controller = prefetch_controller_init adapters descriptors 8, sm_events = []\<rparr>)))"

definition sm_publish :: "sm_event_type \<Rightarrow> 'k list \<Rightarrow> 'k list \<Rightarrow> ('k, 'a) storage_manager \<Rightarrow> ('k, 'a) storage_manager" where
  "sm_publish ev ok failed s = s\<lparr>sm_events := sm_events s @ [(ev, ok, failed)]\<rparr>"

section \<open>Writing\<close>

definition sm_reserve_write :: "env \<Rightarrow> int \<Rightarrow> 'k list \<Rightarrow> memory_layout_desc \<Rightarrow> write_mode \<Rightarrow> ('k, 'a) storage_manager
    \<Rightarrow> (('k, nat) dict, ('k, 'a) storage_manager) outcome" where
  "sm_reserve_write E now keys layout mode s =
     (case reserve_write E now keys (replicate (length keys) False) layout mode (sm_l1_manager s) of
        (Inl e, st) \<Rightarrow> (Inl e, s\<lparr>sm_l1_manager := st\<rparr>)
      | (Inr reserve_result, st) \<Rightarrow>
          let result = concat (map (\<lambda>(k, e, m). case m of None \<Rightarrow> [] | Some r \<Rightarrow> [(k, r)]) reserve_result);
              failed_keys = map fst (filter (\<lambda>(k, e, m). m = None) reserve_result)
          in (Inr result, sm_publish SM_WRITE_RESERVED (dict_keys result) failed_keys (s\<lparr>sm_l1_manager := st\<rparr>)))"

definition by_success :: "('k, l1_error) dict \<Rightarrow> 'k list \<times> 'k list" where
  "by_success result = (map fst (filter (\<lambda>(k, e). e = SUCCESS) result), map fst (filter (\<lambda>(k, e). e \<noteq> SUCCESS) result))"

definition sm_finish_write :: "int \<Rightarrow> 'k list \<Rightarrow> ('k, 'a) storage_manager \<Rightarrow> ('k, 'a) storage_manager" where
  "sm_finish_write now keys s =
     (case finish_write now keys (sm_l1_manager s) of
        (finish_result, st) \<Rightarrow>
          sm_publish SM_WRITE_FINISHED (fst (by_success finish_result)) (snd (by_success finish_result)) (s\<lparr>sm_l1_manager := st\<rparr>))"

section \<open>Reading\<close>

text \<open>
  The context manager read_prefetched_results around a body: the body gets the objects, or
  nothing when a key is missing, and may raise; what the finally clause does is at a later
  clock reading.
\<close>

definition read_prefetched_split :: "('k, l1_result) dict \<Rightarrow> 'k list \<times> nat list \<times> 'k list" where
  "read_prefetched_split read_results =
     (map fst (filter (\<lambda>(k, e, m). m \<noteq> None) read_results),
      concat (map (\<lambda>(k, e, m). case m of None \<Rightarrow> [] | Some r \<Rightarrow> [r]) read_results),
      map fst (filter (\<lambda>(k, e, m). m = None) read_results))"

definition sm_read_prefetched_results :: "env \<Rightarrow> int \<Rightarrow> int \<Rightarrow> 'k list
    \<Rightarrow> (nat list option \<Rightarrow> ('k, 'a) storage_manager \<Rightarrow> ('r, ('k, 'a) storage_manager) outcome)
    \<Rightarrow> ('k, 'a) storage_manager \<Rightarrow> ('r, ('k, 'a) storage_manager) outcome" where
  "sm_read_prefetched_results E now later keys body s =
     (case read_prefetched_split (unsafe_read now keys (sm_l1_manager s)) of
        (good_keys, good_objs, bad_keys) \<Rightarrow>
          let all_good = (bad_keys = [])
          in case body (if all_good then Some good_objs else None) s of
               (res, s1) \<Rightarrow>
                 let successfully_yielded = (case res of Inl _ \<Rightarrow> False | Inr _ \<Rightarrow> True)
                 in if \<not> all_good \<or> \<not> successfully_yielded
                    then (case finish_read E later good_keys 0 (sm_l1_manager s1) of
                            (Inl e, st) \<Rightarrow> (Inl e, s1\<lparr>sm_l1_manager := st\<rparr>)
                          | (Inr _, st) \<Rightarrow> (res, sm_publish SM_READ_PREFETCHED_FINISHED good_keys bad_keys (s1\<lparr>sm_l1_manager := st\<rparr>)))
                    else (res, s1))"

definition sm_finish_read_prefetched :: "env \<Rightarrow> int \<Rightarrow> 'k list \<Rightarrow> int \<Rightarrow> ('k, 'a) storage_manager
    \<Rightarrow> (unit, ('k, 'a) storage_manager) outcome" where
  "sm_finish_read_prefetched E now keys extra_count s =
     (case finish_read E now keys extra_count (sm_l1_manager s) of
        (Inl e, st) \<Rightarrow> (Inl e, s\<lparr>sm_l1_manager := st\<rparr>)
      | (Inr finish_result, st) \<Rightarrow>
          (Inr (), sm_publish SM_READ_PREFETCHED_FINISHED (fst (by_success finish_result)) (snd (by_success finish_result))
                     (s\<lparr>sm_l1_manager := st\<rparr>)))"

section \<open>Prefetching\<close>

text \<open>The two loops of submit_prefetch_task over the result of reserve_read.\<close>

definition l1_hit_count :: "('k, l1_result) dict \<Rightarrow> 'k list \<Rightarrow> nat" where
  "l1_hit_count res keys =
     length (takeWhile (\<lambda>key. case map_of res key of None \<Rightarrow> False | Some (err, obj) \<Rightarrow> err = SUCCESS) keys)"

definition skipped_keys :: "('k, l1_result) dict \<Rightarrow> 'k list \<Rightarrow> 'k list" where
  "skipped_keys res keys = filter (\<lambda>key. case map_of res key of None \<Rightarrow> False | Some (err, obj) \<Rightarrow> obj \<noteq> None) keys"

definition sm_submit_prefetch_task :: "env \<Rightarrow> int \<Rightarrow> 'k list \<Rightarrow> memory_layout_desc \<Rightarrow> int \<Rightarrow> ('k, 'a) storage_manager
    \<Rightarrow> (prefetch_handle, ('k, 'a) storage_manager) outcome" where
  "sm_submit_prefetch_task E now keys layout extra_count s =
     (case reserve_read now keys extra_count (sm_l1_manager s) of
        (l1_read_result, st1) \<Rightarrow>
          let hit_count = l1_hit_count l1_read_result keys;
              remaining_keys = drop hit_count keys;
              skipped = skipped_keys l1_read_result remaining_keys
          in case (if skipped \<noteq> [] then map_prod (map_sum id (\<lambda>_. ())) id (finish_read E now skipped extra_count st1)
                   else (Inr (), st1)) of
               (Inl e, st2) \<Rightarrow> (Inl e, s\<lparr>sm_l1_manager := st2\<rparr>)
             | (Inr _, st2) \<Rightarrow>
                 let s1 = sm_publish SM_READ_PREFETCHED (take hit_count keys) remaining_keys (s\<lparr>sm_l1_manager := st2\<rparr>);
                     (request_id, s2) = (if remaining_keys \<noteq> [] \<and> sm_l2_adapters s1 \<noteq> []
                       then map_prod id (\<lambda>pc. s1\<lparr>sm_prefetch_controller := pc\<rparr>)
                              (submit_prefetch_request remaining_keys layout extra_count (sm_prefetch_controller s1))
                       else (-1, s1))
                 in (Inr \<lparr>ph_request_id = request_id, ph_l1_prefix_hit_count = hit_count,
                          ph_total_requested_keys = length keys, ph_submit_time = now\<rparr>, s2))"

definition sm_query_prefetch_status :: "prefetch_handle \<Rightarrow> ('k, 'a) storage_manager \<Rightarrow> int option \<times> ('k, 'a) storage_manager" where
  "sm_query_prefetch_status handle s =
     (if ph_request_id handle \<noteq> -1
      then case query_prefetch_result (ph_request_id handle) (sm_prefetch_controller s) of
             (None, pc) \<Rightarrow> (None, s\<lparr>sm_prefetch_controller := pc\<rparr>)
           | (Some l2_result, pc) \<Rightarrow>
               (Some (int (ph_l1_prefix_hit_count handle) + l2_result), s\<lparr>sm_prefetch_controller := pc\<rparr>)
      else (Some (int (ph_l1_prefix_hit_count handle) + 0), s))"

definition sm_clear :: "env \<Rightarrow> int \<Rightarrow> bool \<Rightarrow> ('k, 'a) storage_manager \<Rightarrow> (unit, ('k, 'a) storage_manager) outcome" where
  "sm_clear E now force s = map_prod id (\<lambda>st. s\<lparr>sm_l1_manager := st\<rparr>) (l1_clear E now force (sm_l1_manager s))"

definition sm_memcheck :: "('k, 'a) storage_manager \<Rightarrow> bool" where
  "sm_memcheck s = l1_memcheck (sm_l1_manager s)"

section \<open>Lemmas\<close>

lemma reserve_read_results_of:
  assumes "reserve_read now ks ec st = (ret, st1)" "n = nat (1 + validate_extra_count ec)"
  shows "map_of ret k = (if k \<in> set ks then Some (rr_result now (get_object_state k st)) else None)"
    and "objects st1 = fold (entry_upd (rr_entry now n)) ks (objects st)"
proof -
  have f: "fst (snd (fold (reserve_read_step now n) ks (objects st, [], []))) = ret"
    using assms(1) unfolding reserve_read_def Let_def assms(2) by (auto split: prod.splits)
  show "map_of ret k = (if k \<in> set ks then Some (rr_result now (get_object_state k st)) else None)"
    using reserve_read_results [of now n ks "(objects st, [], [])" k]
    by (simp_all only: f get_object_state_def fst_conv snd_conv map_of.simps)
  show "objects st1 = fold (entry_upd (rr_entry now n)) ks (objects st)"
    using objects_after(1) [of now ks ec st] assms by simp
qed

text \<open>Taking n read locks and giving them back.\<close>

lemma lock_unlock_eff:
  assumes "entry_ok e" "available_for_read now e" "0 < n"
  defines "e1 \<equiv> e\<lparr>read_lock := lock_times n now (read_lock e)\<rparr>"
  shows "eff now (Some e1) = eff now (Some e) + int n"
    and "fr_entry now n e1 = (if is_temporary e \<and> eff now (Some e) = 0 then None else Some (e1\<lparr>read_lock := unlock_times n (read_lock e1)\<rparr>))"
    and "eff now (Some (e1\<lparr>read_lock := unlock_times n (read_lock e1)\<rparr>)) = eff now (Some e)"
proof -
  obtain m where n: "n = Suc m" using assms(3) by (cases n) auto
  let ?l = "read_lock e" and ?l1 = "lock_times n now (read_lock e)"
  have l: "0 < ttl_ms ?l" "0 \<le> counter ?l" using assms(1) by (auto simp: entry_ok_def lock_ok_def)
  have l1: "counter ?l1 = eff now (Some e) + int n" "expiration_ms ?l1 = now + ttl_ms ?l"
    using l unfolding n by (auto simp: lock_times_eq eff_def is_locked_def simp del: lock_times_simps)
  have e: "0 \<le> eff now (Some e)" using l by (simp add: eff_def is_locked_def)
  have k1: "is_locked now ?l1" using l1 l e assms(3) by (simp add: is_locked_def)
  have u: "unlock_times n ?l1 = ?l1\<lparr>counter := eff now (Some e)\<rparr>"
    using unlock_times_eq [of ?l1 n] l1 e by simp
  have k2: "is_locked now (unlock_times n ?l1) \<longleftrightarrow> eff now (Some e) \<noteq> 0"
    unfolding u using l1(2) l e by (auto simp: is_locked_def)
  show "eff now (Some e1) = eff now (Some e) + int n" using l1 k1 unfolding e1_def eff_def by simp
  show "fr_entry now n e1 = (if is_temporary e \<and> eff now (Some e) = 0 then None else Some (e1\<lparr>read_lock := unlock_times n (read_lock e1)\<rparr>))"
    using k1 k2 assms(2) unfolding e1_def by (simp add: fr_entry_def available_for_read_def)
  have "eff now (Some (e1\<lparr>read_lock := unlock_times n (read_lock e1)\<rparr>)) = (if is_locked now (unlock_times n ?l1) then counter (unlock_times n ?l1) else 0)"
    unfolding e1_def by (simp add: eff_def)
  also have "\<dots> = eff now (Some e)" unfolding k2 unfolding u by simp
  finally show "eff now (Some (e1\<lparr>read_lock := unlock_times n (read_lock e1)\<rparr>)) = eff now (Some e)" .
qed

text \<open>The reservation and the release of the keys beyond the gap, on one entry.\<close>

definition prefetch_entry :: "int \<Rightarrow> nat \<Rightarrow> bool \<Rightarrow> l1_object_state \<Rightarrow> l1_object_state option" where
  "prefetch_entry now n skip e =
     (if skip then Option.bind (rr_entry now n e) (fr_entry now n) else rr_entry now n e)"

lemma prefetch_entry_eff:
  assumes "entry_ok e" "0 < n" "skip \<longrightarrow> available_for_read now e"
  shows "eff now (prefetch_entry now n skip e) =
      eff now (Some e) + (if available_for_read now e \<and> \<not> skip then int n else 0)"
    and "prefetch_entry now n skip e = None \<longleftrightarrow> skip \<and> is_temporary e \<and> eff now (Some e) = 0"
  using lock_unlock_eff [OF assms(1) _ assms(2), of now] assms(3)
  by (auto simp: prefetch_entry_def rr_entry_def eff_def [of now None])

lemma skipped_readable:
  assumes "reserve_read now keys ec st = (ret, st1)" "set ks \<subseteq> set keys"
  shows "skipped_keys ret ks = filter (readable now st) ks"
proof -
  have "map_of ret k = Some (rr_result now (get_object_state k st))" if "k \<in> set ks" for k
    using reserve_read_results_of(1) [OF assms(1) refl, of k] subsetD [OF assms(2) that] by simp
  then show ?thesis unfolding skipped_keys_def
    by (intro filter_cong refl) (auto simp: readable_def rr_result_def split: option.splits)
qed

lemma hits_readable:
  assumes "reserve_read now keys ec st = (ret, st1)"
  shows "l1_hit_count ret keys = length (takeWhile (readable now st) keys)"
proof -
  have "map_of ret k = Some (rr_result now (get_object_state k st))" if "k \<in> set keys" for k
    using reserve_read_results_of(1) [OF assms refl, of k] that by simp
  then show ?thesis unfolding l1_hit_count_def
    by (intro arg_cong [where f = length] takeWhile_cong refl)
      (auto simp: readable_def rr_result_def split: option.splits)
qed

text \<open>What the two calls do to the table.\<close>

lemma prefetch_table:
  assumes "sorted_list_ok E" "l1_inv st" "distinct keys" "reserve_read now keys ec st = (ret, st1)"
    and n: "n = nat (1 + validate_extra_count ec)"
    and skip: "skip = filter (readable now st) (drop h keys)"
  shows "\<exists>ret2 st2. finish_read E now skip ec st1 = (Inr ret2, st2) \<and> l1_inv st2 \<and>
    (\<forall>k. get_object_state k st2 =
       (if k \<in> set keys then Option.bind (get_object_state k st) (prefetch_entry now n (k \<in> set skip))
        else get_object_state k st))"
proof -
  have inv1: "l1_inv st1" using reserve_read_inv [OF assms(2), of now keys ec] assms(4) by simp
  obtain ret2 st2 where f: "finish_read E now skip ec st1 = (Inr ret2, st2)" "l1_inv st2"
    using finish_read_inv [OF assms(1) inv1] by metis
  have d: "distinct skip" unfolding skip using assms(3) by (simp add: distinct_drop)
  have sub: "set skip \<subseteq> set keys" unfolding skip by (auto dest: in_set_dropD)
  have "objects st2 = fold (entry_upd (fr_entry now n)) skip (objects st1)"
    using objects_after(2) [of E now skip ec st1] f(1) n by simp
  then have "get_object_state k st2 = (if k \<in> set skip then Option.bind (get_object_state k st1) (fr_entry now n)
      else get_object_state k st1)" for k
    by (simp add: get_object_state_def map_of_fold_entry_upd [OF d])
  moreover have "get_object_state k st1 = (if k \<in> set keys then Option.bind (get_object_state k st) (rr_entry now n)
      else get_object_state k st)" for k
    using reserve_read_results_of(2) [OF assms(4) n]
    by (simp add: get_object_state_def map_of_fold_entry_upd [OF assms(3)])
  ultimately have "get_object_state k st2 =
      (if k \<in> set keys then Option.bind (get_object_state k st) (prefetch_entry now n (k \<in> set skip))
       else get_object_state k st)" for k
    using subsetD [OF sub, of k] by (cases "get_object_state k st") (auto simp: prefetch_entry_def)
  then show ?thesis using f by blast
qed

lemma finish_read_nothing:
  assumes "sorted_list_ok E" "l1_inv st"
  shows "\<exists>ret2 st2. finish_read E now [] ec st = (Inr ret2, st2)"
  using finish_read_inv [OF assms] by metis

section \<open>Properties\<close>

text \<open>C8: submit_prefetch_task on distinct keys counts the readable prefix as hits and takes on each
  of its keys the default lock and the extra ones; on every other key the live read locks are as
  before, and the only entries that disappear are temporary ones beyond the gap that nobody was
  reading. The remaining keys, and only they, are queued for the second level, and the returned
  handle carries the request's id.\<close>
lemma submit_prefetch_locks_the_prefix:
  assumes E: "sorted_list_ok E" and inv: "l1_inv (sm_l1_manager s)" and d: "distinct keys"
    and h: "h = length (takeWhile (readable now (sm_l1_manager s)) keys)"
    and n: "n = nat (1 + validate_extra_count extra_count)"
  shows "\<exists>handle s'. sm_submit_prefetch_task E now keys layout extra_count s = (Inr handle, s') \<and>
    l1_inv (sm_l1_manager s') \<and> ph_l1_prefix_hit_count handle = h \<and>
    (\<forall>k. eff now (get_object_state k (sm_l1_manager s')) =
       eff now (get_object_state k (sm_l1_manager s)) + (if k \<in> set (take h keys) then int n else 0)) \<and>
    (\<forall>k. get_object_state k (sm_l1_manager s') = None \<longleftrightarrow>
       (case get_object_state k (sm_l1_manager s) of None \<Rightarrow> True
        | Some e \<Rightarrow> k \<in> set (drop h keys) \<and> is_temporary e \<and> available_for_read now e \<and> eff now (Some e) = 0)) \<and>
    (if drop h keys = [] \<or> sm_l2_adapters s = []
     then ph_request_id handle = -1 \<and> sm_prefetch_controller s' = sm_prefetch_controller s
     else ph_request_id handle = pc_next_request_id (sm_prefetch_controller s) \<and>
       pc_submission_queue (sm_prefetch_controller s') = pc_submission_queue (sm_prefetch_controller s) @
         [(ph_request_id handle, drop h keys, layout, extra_count)])"
proof -
  let ?st = "sm_l1_manager s"
  obtain ret st1 where r: "reserve_read now keys extra_count ?st = (ret, st1)" by (metis surj_pair)
  define skip where "skip = filter (readable now ?st) (drop h keys)"
  obtain ret2 st2 where f: "finish_read E now skip extra_count st1 = (Inr ret2, st2)" "l1_inv st2"
    and t: "\<And>k. get_object_state k st2 =
       (if k \<in> set keys then Option.bind (get_object_state k ?st) (prefetch_entry now n (k \<in> set skip))
        else get_object_state k ?st)"
    using prefetch_table [OF E inv d r n skip_def] by blast
  have sk: "skipped_keys ret (drop h keys) = skip"
    unfolding skip_def by (rule skipped_readable [OF r set_drop_subset])
  have hit: "l1_hit_count ret keys = h" using hits_readable [OF r] h by simp
  define st3 where "st3 = (if skip \<noteq> [] then st2 else st1)"
  have t3: "get_object_state k st3 =
       (if k \<in> set keys then Option.bind (get_object_state k ?st) (prefetch_entry now n (k \<in> set skip))
        else get_object_state k ?st)" for k
  proof (cases "skip = []")
    case True
    have "objects st2 = objects st1"
      using objects_after(2) [of E now skip extra_count st1] f(1) True by simp
    then show ?thesis using t [of k] True by (simp add: st3_def get_object_state_def)
  qed (simp add: st3_def t)
  have inv3: "l1_inv st3"
    using f(2) reserve_read_inv [OF inv, of now keys extra_count] r by (simp add: st3_def)
  have np: "0 < n" unfolding n by (simp add: validate_extra_count_def MAX_READ_LOCK_COUNT_def Let_def)
  have split: "set keys = set (take h keys) \<union> set (drop h keys)" "set (take h keys) \<inter> set (drop h keys) = {}"
    using d by (metis append_take_drop_id set_append, metis append_take_drop_id distinct_append)
  have good: "readable now ?st k" if "k \<in> set (take h keys)" for k
    using that unfolding h takeWhile_eq_take [symmetric] by (rule conjunct2 [OF set_takeWhileD])
  have ok: "entry_ok e" if "get_object_state k ?st = Some e" for k e
    using inv that by (simp add: l1_inv_def table_ok_def get_object_state_def)
  have skip_iff: "k \<in> set skip \<longleftrightarrow> k \<in> set (drop h keys) \<and> (\<exists>e. get_object_state k ?st = Some e \<and> available_for_read now e)" for k
    by (auto simp: skip_def readable_def)
  have none: "eff now None = 0" by (simp add: eff_def)
  have eff3: "eff now (get_object_state k st3) =
      eff now (get_object_state k ?st) + (if k \<in> set (take h keys) then int n else 0)"
    and gone: "get_object_state k st3 = None \<longleftrightarrow>
       (case get_object_state k ?st of None \<Rightarrow> True
        | Some e \<Rightarrow> k \<in> set (drop h keys) \<and> is_temporary e \<and> available_for_read now e \<and> eff now (Some e) = 0)" for k
  proof -
    have k: "k \<in> set (take h keys) \<Longrightarrow> k \<in> set keys \<and> k \<notin> set (drop h keys)" "k \<in> set (drop h keys) \<Longrightarrow> k \<in> set keys"
      using split by blast+
    have "(case get_object_state k ?st of None \<Rightarrow> k \<notin> set (take h keys) \<and> get_object_state k st3 = None
        | Some e \<Rightarrow> eff now (get_object_state k st3) = eff now (Some e) + (if k \<in> set (take h keys) then int n else 0) \<and>
            (get_object_state k st3 = None \<longleftrightarrow>
              k \<in> set (drop h keys) \<and> is_temporary e \<and> available_for_read now e \<and> eff now (Some e) = 0))"
    proof (cases "get_object_state k ?st")
      case None
      then show ?thesis using good [of k] t3 [of k] by (auto simp: readable_def)
    next
      case (Some e)
      have a: "k \<in> set (take h keys) \<Longrightarrow> available_for_read now e" using good [of k] Some by (simp add: readable_def)
      have sk: "k \<in> set skip \<longleftrightarrow> k \<in> set (drop h keys) \<and> available_for_read now e"
        using skip_iff [of k] Some by simp
      have "k \<in> set skip \<longrightarrow> available_for_read now e" using sk by simp
      note p = prefetch_entry_eff [OF ok [OF Some] np this]
      show ?thesis
      proof (cases "k \<in> set keys")
        case True
        then have m: "k \<in> set (take h keys) \<longleftrightarrow> k \<notin> set (drop h keys)" using split by blast
        show ?thesis using p t3 [of k] True Some a sk m by auto
      next
        case False
        then show ?thesis using k t3 [of k] Some by auto
      qed
    qed
    then show "eff now (get_object_state k st3) =
        eff now (get_object_state k ?st) + (if k \<in> set (take h keys) then int n else 0)"
      "get_object_state k st3 = None \<longleftrightarrow>
       (case get_object_state k ?st of None \<Rightarrow> True
        | Some e \<Rightarrow> k \<in> set (drop h keys) \<and> is_temporary e \<and> available_for_read now e \<and> eff now (Some e) = 0)"
      by (auto simp: none split: option.splits)
  qed
  define s1 where "s1 = sm_publish SM_READ_PREFETCHED (take h keys) (drop h keys) (s\<lparr>sm_l1_manager := st3\<rparr>)"
  have s1: "sm_l1_manager s1 = st3" "sm_l2_adapters s1 = sm_l2_adapters s" "sm_prefetch_controller s1 = sm_prefetch_controller s"
    by (simp_all add: s1_def sm_publish_def)
  have fin: "(if skip \<noteq> [] then map_prod (map_sum id (\<lambda>_. ())) id (finish_read E now skip extra_count st1) else (Inr (), st1)) =
      (Inr (), st3)"
    by (simp add: f(1) st3_def)
  obtain i pc where q: "submit_prefetch_request (drop h keys) layout extra_count (sm_prefetch_controller s) = (i, pc)"
    by (metis surj_pair)
  have i: "i = pc_next_request_id (sm_prefetch_controller s)"
    "pc_submission_queue pc = pc_submission_queue (sm_prefetch_controller s) @ [(i, drop h keys, layout, extra_count)]"
    using q by (auto simp: submit_prefetch_request_def Let_def)
  let ?idle = "drop h keys = [] \<or> sm_l2_adapters s = []"
  let ?i = "if ?idle then - 1 else i" and ?s = "if ?idle then s1 else s1\<lparr>sm_prefetch_controller := pc\<rparr>"
  have eq: "sm_submit_prefetch_task E now keys layout extra_count s =
      (Inr \<lparr>ph_request_id = ?i, ph_l1_prefix_hit_count = h, ph_total_requested_keys = length keys, ph_submit_time = now\<rparr>, ?s)"
    unfolding sm_submit_prefetch_task_def r prod.case Let_def hit sk fin sum.case s1_def [symmetric]
    by (simp add: s1 q)
  have l1: "sm_l1_manager ?s = st3" using s1(1) by simp
  show ?thesis
    by (intro exI conjI, rule eq, unfold l1) (use inv3 eff3 gone i s1(3) in \<open>simp_all split: if_splits\<close>)
qed

text \<open>A manager over the first level of the examples, with one adapter.\<close>

definition sample_manager :: "(int, (int, int) mock) storage_manager" where
  "sample_manager = \<lparr>sm_l1_manager = sample_finished, sm_eviction_controller = 0, sm_l2_adapters = [mock_init 100000],
     sm_store_controller = snd sample_store,
     sm_prefetch_controller = prefetch_controller_init [mock_init 100000] [\<lparr>ad_index = 0, ad_type_name = ''mock''\<rparr>] 8,
     sm_events = []\<rparr>"

lemma sample_readable:
  "(\<exists>e. get_object_state 1 sample_finished = Some e \<and> available_for_read 2 e)"
  "get_object_state 5 sample_finished = None"
proof -
  have "(case get_object_state 1 sample_finished of None \<Rightarrow> False | Some e \<Rightarrow> available_for_read 2 e)"
    by code_simp
  then show "\<exists>e. get_object_state 1 sample_finished = Some e \<and> available_for_read 2 e"
    by (auto split: option.splits)
  show "get_object_state 5 sample_finished = None" by code_simp
qed

lemma submit_prefetch_locks_the_prefix_witness:
  "\<exists>handle s'. sm_submit_prefetch_task reference_env 2 [1, 5, 2] sample_layout 1 sample_manager = (Inr handle, s') \<and>
     ph_l1_prefix_hit_count handle = 1 \<and> ph_request_id handle = 0 \<and>
     eff 2 (get_object_state 1 (sm_l1_manager s')) = 2 \<and> eff 2 (get_object_state 2 (sm_l1_manager s')) = 0"
proof -
  have m: "sm_l1_manager sample_manager = sample_finished" "sm_l2_adapters sample_manager \<noteq> []"
    "pc_next_request_id (sm_prefetch_controller sample_manager) = 0"
    by (simp_all add: sample_manager_def prefetch_controller_init_def)
  have h: "1 = length (takeWhile (readable 2 (sm_l1_manager sample_manager)) [1, 5, 2])"
    by (simp add: m(1) readable_def sample_readable)
  have n: "2 = nat (1 + validate_extra_count 1)" by (simp add: validate_extra_count_def MAX_READ_LOCK_COUNT_def)
  have e: "eff 2 (get_object_state 1 sample_finished) = 0" "eff 2 (get_object_state 2 sample_finished) = 0"
    by code_simp+
  have inv: "l1_inv (sm_l1_manager sample_manager)" using sample_finished_inv m(1) by simp
  show ?thesis
    using submit_prefetch_locks_the_prefix [OF reference_sorted_list_ok inv _ h n, of sample_layout] m e by fastforce
qed

end
