(* ===== verification/Registry_Tree.thy ===== *)
theory Registry_Tree
  imports Prelude
begin

text \<open>
  The registry of the cluster controller, lmcache/v1/cache_controller/utils.py, with the list
  cache of lmcache/v1/utils/cache_utils.py: instances hold workers, and a worker node holds the
  chunk hashes stored at each location. Worker nodes are mutable objects that the registry and
  its cached lists share, so they live in a store and are named by references; an instance node
  is only reached through the registry and is kept by value. A ZMQ socket is a number.
\<close>

section \<open>Data\<close>

datatype full_sync_state = FS_IDLE | FS_SYNCING | FS_COMPLETED | FS_FAILED

record worker_sync_info =
  si_sync_id :: string
  si_state :: full_sync_state
  si_start_time :: int
  si_expected_total_keys :: int
  si_expected_batch_count :: int
  si_received_batches :: "int set"
  si_received_keys_count :: int
  si_last_activity_time :: int

record worker_node =
  wn_worker_id :: int
  wn_ip :: string
  wn_port :: int
  wn_peer_init_url :: "string option"
  wn_socket :: nat
  wn_registration_time :: int
  wn_last_heartbeat_time :: int
  wn_seq_tracker :: "(string, int) dict"
  wn_kv_store :: "(string, int set) dict"
  wn_sync_info :: "worker_sync_info option"

record kv_chunk_info =
  ci_instance_id :: string
  ci_worker_id :: int
  ci_location :: string

record worker_info =
  wi_instance_id :: string
  wi_worker_id :: int
  wi_ip :: string
  wi_port :: int
  wi_peer_init_url :: "string option"
  wi_registration_time :: int
  wi_last_heartbeat_time :: int

datatype op_type = ADMIT | EVICT

record kv_op =
  ko_op_type :: op_type
  ko_key :: int
  ko_seq_num :: int

record kv_batch =
  kb_instance_id :: string
  kb_worker_id :: int
  kb_location :: string
  kb_operations :: "kv_op list"

record instance_node =
  in_instance_id :: string
  in_workers :: "(int, nat) dict"

record 'a ttl_cache =
  tc_cache :: "'a list"
  tc_cache_time :: int
  tc_timeout_seconds :: int

record registry_tree =
  rt_instances :: "(string, instance_node) dict"
  rt_nodes :: "worker_node list"
  rt_seq_discontinuity_count :: nat
  rt_worker_info_cache :: "worker_info ttl_cache"
  rt_worker_node_cache :: "(string \<times> nat) ttl_cache"

section \<open>The list cache\<close>

definition ttl_cache_new :: "int \<Rightarrow> 'a ttl_cache" where
  "ttl_cache_new timeout = \<lparr>tc_cache = [], tc_cache_time = 0, tc_timeout_seconds = timeout\<rparr>"

definition is_expired :: "int option \<Rightarrow> int \<Rightarrow> 'a ttl_cache \<Rightarrow> bool" where
  "is_expired timeout_override now c =
     (if tc_cache_time c = 0 then True
      else let effective_timeout = (case timeout_override of Some t \<Rightarrow> t | None \<Rightarrow> tc_timeout_seconds c)
           in effective_timeout \<le> now - tc_cache_time c)"

definition get_cached :: "'a list \<Rightarrow> int option \<Rightarrow> int \<Rightarrow> 'a ttl_cache \<Rightarrow> 'a list \<times> 'a ttl_cache" where
  "get_cached fresh timeout_override now c =
     (if \<not> is_expired timeout_override now c then (tc_cache c, c)
      else (fresh, c\<lparr>tc_cache := fresh, tc_cache_time := now\<rparr>))"

definition ttl_cache_clear :: "'a ttl_cache \<Rightarrow> 'a ttl_cache" where
  "ttl_cache_clear c = c\<lparr>tc_cache := [], tc_cache_time := 0\<rparr>"

section \<open>Worker nodes\<close>

definition worker_sync_info_new :: "string \<Rightarrow> full_sync_state \<Rightarrow> int \<Rightarrow> int \<Rightarrow> int \<Rightarrow> int \<Rightarrow> worker_sync_info" where
  "worker_sync_info_new sync_id state start_time total_keys batch_count last_activity =
     \<lparr>si_sync_id = sync_id, si_state = state, si_start_time = start_time, si_expected_total_keys = total_keys,
      si_expected_batch_count = batch_count, si_received_batches = {}, si_received_keys_count = 0,
      si_last_activity_time = (if last_activity = 0 then start_time else last_activity)\<rparr>"

definition worker_node_new :: "int \<Rightarrow> string \<Rightarrow> int \<Rightarrow> string option \<Rightarrow> nat \<Rightarrow> int \<Rightarrow> worker_node" where
  "worker_node_new worker_id ip port peer_init_url socket registration_time =
     \<lparr>wn_worker_id = worker_id, wn_ip = ip, wn_port = port, wn_peer_init_url = peer_init_url, wn_socket = socket,
      wn_registration_time = registration_time, wn_last_heartbeat_time = registration_time,
      wn_seq_tracker = [], wn_kv_store = [], wn_sync_info = None\<rparr>"

definition wn_syncing :: "worker_node \<Rightarrow> bool" where
  "wn_syncing n = (case wn_sync_info n of None \<Rightarrow> False | Some si \<Rightarrow> si_state si = FS_SYNCING)"

text \<open>
  One operation of a batch: the key is admitted or evicted first, then, outside a full sync, the
  sequence number is compared with the last one; only the first gap of a batch is remembered.
\<close>

definition apply_kv_op :: "kv_op \<Rightarrow> int set \<Rightarrow> int set" where
  "apply_kv_op op keys = (case ko_op_type op of ADMIT \<Rightarrow> insert (ko_key op) keys | EVICT \<Rightarrow> keys - {ko_key op})"

definition check_seq :: "string \<Rightarrow> kv_op \<Rightarrow> (string, int) dict \<times> (int \<times> int \<times> int) option
    \<Rightarrow> (string, int) dict \<times> (int \<times> int \<times> int) option" where
  "check_seq location op s =
     (case s of (tracker, warning) \<Rightarrow>
        (dict_set location (ko_seq_num op) tracker,
         case map_of tracker location of
           None \<Rightarrow> warning
         | Some last_seq_num \<Rightarrow>
             let expected_seq = last_seq_num + 1
             in if ko_seq_num op \<noteq> expected_seq \<and> warning = None
                then Some (expected_seq, ko_seq_num op, ko_seq_num op - expected_seq) else warning))"

definition wn_handle_batched_kv_operations :: "kv_batch \<Rightarrow> bool \<Rightarrow> worker_node
    \<Rightarrow> (bool \<times> (int \<times> int \<times> int) option) \<times> worker_node" where
  "wn_handle_batched_kv_operations msg is_full_sync n =
     (if wn_syncing n \<and> \<not> is_full_sync then ((False, None), n)
      else
        let location = kb_location msg;
            keys0 = (case map_of (wn_kv_store n) location of None \<Rightarrow> {} | Some keys \<Rightarrow> keys);
            keys = fold apply_kv_op (kb_operations msg) keys0;
            (tracker, seq_warning) =
              (if is_full_sync then (wn_seq_tracker n, None)
               else fold (check_seq location) (kb_operations msg) (wn_seq_tracker n, None))
        in ((True, seq_warning),
            n\<lparr>wn_kv_store := (if keys = {} then dict_del location (wn_kv_store n) else dict_set location keys (wn_kv_store n)),
              wn_seq_tracker := tracker\<rparr>))"

definition wn_has_kv :: "string \<Rightarrow> int \<Rightarrow> worker_node \<Rightarrow> bool" where
  "wn_has_kv location key n = (case map_of (wn_kv_store n) location of None \<Rightarrow> False | Some keys \<Rightarrow> key \<in> keys)"

definition wn_get_kv_keys :: "string \<Rightarrow> worker_node \<Rightarrow> int set" where
  "wn_get_kv_keys location n = (case map_of (wn_kv_store n) location of None \<Rightarrow> {} | Some keys \<Rightarrow> keys)"

definition wn_clear_kv_store :: "worker_node \<Rightarrow> worker_node" where
  "wn_clear_kv_store n = n\<lparr>wn_kv_store := [], wn_seq_tracker := []\<rparr>"

definition wn_clear_location :: "string \<Rightarrow> worker_node \<Rightarrow> worker_node" where
  "wn_clear_location location n =
     n\<lparr>wn_kv_store := dict_del location (wn_kv_store n), wn_seq_tracker := dict_del location (wn_seq_tracker n)\<rparr>"

definition wn_get_kv_count :: "worker_node \<Rightarrow> nat" where
  "wn_get_kv_count n = sum_list (map card (dict_values (wn_kv_store n)))"

definition wn_update_seq_num :: "string \<Rightarrow> int \<Rightarrow> worker_node \<Rightarrow> worker_node" where
  "wn_update_seq_num location seq_num n = n\<lparr>wn_seq_tracker := dict_set location seq_num (wn_seq_tracker n)\<rparr>"

definition wn_get_seq_num :: "string \<Rightarrow> worker_node \<Rightarrow> int option" where
  "wn_get_seq_num location n = map_of (wn_seq_tracker n) location"

text \<open>The first result of a loop that returns at the first match.\<close>

primrec first_some :: "('a \<Rightarrow> 'b option) \<Rightarrow> 'a list \<Rightarrow> 'b option" where
  "first_some f [] = None"
| "first_some f (x # xs) = (case f x of None \<Rightarrow> first_some f xs | Some y \<Rightarrow> Some y)"

definition wn_find_key :: "int \<Rightarrow> worker_node \<Rightarrow> (kv_chunk_info \<times> string option \<times> int set) option" where
  "wn_find_key key n =
     first_some (\<lambda>(location, keys). if key \<in> keys
       then Some (\<lparr>ci_instance_id = [], ci_worker_id = wn_worker_id n, ci_location = location\<rparr>, wn_peer_init_url n, keys)
       else None) (wn_kv_store n)"

definition wn_find_key_simple :: "int \<Rightarrow> worker_node \<Rightarrow> kv_chunk_info option" where
  "wn_find_key_simple key n =
     first_some (\<lambda>(location, keys). if key \<in> keys
       then Some \<lparr>ci_instance_id = [], ci_worker_id = wn_worker_id n, ci_location = location\<rparr> else None) (wn_kv_store n)"

definition to_worker_info :: "string \<Rightarrow> worker_node \<Rightarrow> worker_info" where
  "to_worker_info instance_id n =
     \<lparr>wi_instance_id = instance_id, wi_worker_id = wn_worker_id n, wi_ip = wn_ip n, wi_port = wn_port n,
      wi_peer_init_url = wn_peer_init_url n, wi_registration_time = wn_registration_time n,
      wi_last_heartbeat_time = wn_last_heartbeat_time n\<rparr>"

section \<open>Instance nodes\<close>

text \<open>The methods that look into workers take the store of nodes.\<close>

definition instance_new :: "string \<Rightarrow> instance_node" where
  "instance_new instance_id = \<lparr>in_instance_id = instance_id, in_workers = []\<rparr>"

definition in_add_worker :: "int \<Rightarrow> nat \<Rightarrow> instance_node \<Rightarrow> instance_node" where
  "in_add_worker worker_id r i = i\<lparr>in_workers := dict_set worker_id r (in_workers i)\<rparr>"

definition in_remove_worker :: "int \<Rightarrow> instance_node \<Rightarrow> nat option \<times> instance_node" where
  "in_remove_worker worker_id i =
     (case dict_pop worker_id (in_workers i) of (r, ws) \<Rightarrow> (r, i\<lparr>in_workers := ws\<rparr>))"

definition in_get_worker :: "int \<Rightarrow> instance_node \<Rightarrow> nat option" where
  "in_get_worker worker_id i = map_of (in_workers i) worker_id"

definition in_get_worker_ids :: "instance_node \<Rightarrow> int list" where
  "in_get_worker_ids i = sort (dict_keys (in_workers i))"

definition in_has_workers :: "instance_node \<Rightarrow> bool" where
  "in_has_workers i \<longleftrightarrow> in_workers i \<noteq> []"

definition in_get_all_worker_infos :: "worker_node list \<Rightarrow> instance_node \<Rightarrow> worker_info list" where
  "in_get_all_worker_infos nodes i = map (\<lambda>r. to_worker_info (in_instance_id i) (nodes ! r)) (dict_values (in_workers i))"

definition in_find_key :: "worker_node list \<Rightarrow> int \<Rightarrow> instance_node \<Rightarrow> (kv_chunk_info \<times> string option \<times> int set) option" where
  "in_find_key nodes key i =
     first_some (\<lambda>(worker_id, r). map_option (\<lambda>(kv_info, peer_init_url, keys).
         (\<lparr>ci_instance_id = in_instance_id i, ci_worker_id = worker_id, ci_location = ci_location kv_info\<rparr>, peer_init_url, keys))
       (wn_find_key key (nodes ! r))) (in_workers i)"

definition in_find_key_simple :: "worker_node list \<Rightarrow> int \<Rightarrow> instance_node \<Rightarrow> kv_chunk_info option" where
  "in_find_key_simple nodes key i =
     first_some (\<lambda>(worker_id, r). map_option (\<lambda>kv_info.
         \<lparr>ci_instance_id = in_instance_id i, ci_worker_id = worker_id, ci_location = ci_location kv_info\<rparr>)
       (wn_find_key_simple key (nodes ! r))) (in_workers i)"

definition in_has_worker_with_ip :: "worker_node list \<Rightarrow> string \<Rightarrow> instance_node \<Rightarrow> bool" where
  "in_has_worker_with_ip nodes ip i \<longleftrightarrow> list_ex (\<lambda>r. wn_ip (nodes ! r) = ip) (dict_values (in_workers i))"

definition in_get_total_kv_count :: "worker_node list \<Rightarrow> instance_node \<Rightarrow> nat" where
  "in_get_total_kv_count nodes i = sum_list (map (\<lambda>r. wn_get_kv_count (nodes ! r)) (dict_values (in_workers i)))"

section \<open>The registry\<close>

definition registry_new :: registry_tree where
  "registry_new =
     \<lparr>rt_instances = [], rt_nodes = [], rt_seq_discontinuity_count = 0,
      rt_worker_info_cache = ttl_cache_new 30, rt_worker_node_cache = ttl_cache_new 30\<rparr>"

definition upd_node :: "nat \<Rightarrow> (worker_node \<Rightarrow> worker_node) \<Rightarrow> registry_tree \<Rightarrow> registry_tree" where
  "upd_node r f rt = rt\<lparr>rt_nodes := (rt_nodes rt)[r := f (rt_nodes rt ! r)]\<rparr>"

definition get_instance :: "string \<Rightarrow> registry_tree \<Rightarrow> instance_node option" where
  "get_instance instance_id rt = map_of (rt_instances rt) instance_id"

definition get_or_create_instance :: "string \<Rightarrow> registry_tree \<Rightarrow> instance_node \<times> registry_tree" where
  "get_or_create_instance instance_id rt =
     (case get_instance instance_id rt of
        Some i \<Rightarrow> (i, rt)
      | None \<Rightarrow> let i = instance_new instance_id
                in (i, rt\<lparr>rt_instances := dict_set instance_id i (rt_instances rt)\<rparr>))"

definition register_worker :: "string \<Rightarrow> int \<Rightarrow> string \<Rightarrow> int \<Rightarrow> string option \<Rightarrow> nat \<Rightarrow> int \<Rightarrow> registry_tree
    \<Rightarrow> nat \<times> registry_tree" where
  "register_worker instance_id worker_id ip port peer_init_url socket registration_time rt =
     (case get_or_create_instance instance_id rt of
        (i, rt1) \<Rightarrow>
          let r = length (rt_nodes rt1)
          in (r, rt1\<lparr>rt_nodes := rt_nodes rt1 @ [worker_node_new worker_id ip port peer_init_url socket registration_time],
                     rt_instances := dict_set instance_id (in_add_worker worker_id r i) (rt_instances rt1)\<rparr>))"

definition deregister_worker :: "string \<Rightarrow> int \<Rightarrow> registry_tree \<Rightarrow> nat option \<times> registry_tree" where
  "deregister_worker instance_id worker_id rt =
     (case get_instance instance_id rt of
        None \<Rightarrow> (None, rt)
      | Some i \<Rightarrow>
          (case in_remove_worker worker_id i of
             (r, i1) \<Rightarrow>
               let rt1 = rt\<lparr>rt_instances := dict_set instance_id i1 (rt_instances rt)\<rparr>
               in (r, if \<not> in_has_workers i1 then rt1\<lparr>rt_instances := dict_del instance_id (rt_instances rt1)\<rparr> else rt1)))"

definition get_worker :: "string \<Rightarrow> int \<Rightarrow> registry_tree \<Rightarrow> nat option" where
  "get_worker instance_id worker_id rt = Option.bind (get_instance instance_id rt) (in_get_worker worker_id)"

definition get_instances_by_ip :: "string \<Rightarrow> registry_tree \<Rightarrow> instance_node list" where
  "get_instances_by_ip ip rt = filter (in_has_worker_with_ip (rt_nodes rt) ip) (dict_values (rt_instances rt))"

definition get_instance_by_ip :: "string \<Rightarrow> registry_tree \<Rightarrow> instance_node option" where
  "get_instance_by_ip ip rt = find (in_has_worker_with_ip (rt_nodes rt) ip) (dict_values (rt_instances rt))"

definition get_worker_ids :: "string \<Rightarrow> registry_tree \<Rightarrow> int list" where
  "get_worker_ids instance_id rt =
     (case get_instance instance_id rt of None \<Rightarrow> [] | Some i \<Rightarrow> in_get_worker_ids i)"

definition all_worker_infos_fresh :: "registry_tree \<Rightarrow> worker_info list" where
  "all_worker_infos_fresh rt = concat (map (in_get_all_worker_infos (rt_nodes rt)) (dict_values (rt_instances rt)))"

definition get_all_worker_infos_cached :: "int option \<Rightarrow> int \<Rightarrow> registry_tree \<Rightarrow> worker_info list \<times> registry_tree" where
  "get_all_worker_infos_cached timeout_seconds now rt =
     (case get_cached (all_worker_infos_fresh rt) timeout_seconds now (rt_worker_info_cache rt) of
        (infos, c) \<Rightarrow> (infos, rt\<lparr>rt_worker_info_cache := c\<rparr>))"

definition all_worker_nodes_fresh :: "registry_tree \<Rightarrow> (string \<times> nat) list" where
  "all_worker_nodes_fresh rt =
     concat (map (\<lambda>(instance_id, i). map (Pair instance_id) (dict_values (in_workers i))) (rt_instances rt))"

definition get_all_worker_nodes_cached :: "int option \<Rightarrow> int \<Rightarrow> registry_tree \<Rightarrow> (string \<times> nat) list \<times> registry_tree" where
  "get_all_worker_nodes_cached timeout_seconds now rt =
     (case get_cached (all_worker_nodes_fresh rt) timeout_seconds now (rt_worker_node_cache rt) of
        (ws, c) \<Rightarrow> (ws, rt\<lparr>rt_worker_node_cache := c\<rparr>))"

definition update_heartbeat :: "string \<Rightarrow> int \<Rightarrow> int \<Rightarrow> registry_tree \<Rightarrow> bool \<times> registry_tree" where
  "update_heartbeat instance_id worker_id timestamp rt =
     (case get_worker instance_id worker_id rt of
        None \<Rightarrow> (False, rt)
      | Some r \<Rightarrow> (True, upd_node r (\<lambda>n. n\<lparr>wn_last_heartbeat_time := timestamp\<rparr>) rt))"

definition handle_batched_kv_operations :: "kv_batch \<Rightarrow> bool \<Rightarrow> registry_tree \<Rightarrow> bool \<times> registry_tree" where
  "handle_batched_kv_operations msg is_full_sync rt =
     (case get_worker (kb_instance_id msg) (kb_worker_id msg) rt of
        None \<Rightarrow> (False, rt)
      | Some r \<Rightarrow>
          (case wn_handle_batched_kv_operations msg is_full_sync (rt_nodes rt ! r) of
             ((ok, seq_warning), n) \<Rightarrow>
               let rt1 = upd_node r (\<lambda>_. n) rt
               in (ok, if seq_warning \<noteq> None
                       then rt1\<lparr>rt_seq_discontinuity_count := rt_seq_discontinuity_count rt1 + 1\<rparr> else rt1)))"

definition find_kv :: "int \<Rightarrow> string option \<Rightarrow> registry_tree \<Rightarrow> kv_chunk_info option" where
  "find_kv key exclude_instance_id rt =
     first_some (\<lambda>(instance_id, i). if exclude_instance_id = Some instance_id then None
       else in_find_key_simple (rt_nodes rt) key i) (rt_instances rt)"

definition find_kv_with_worker_info :: "int \<Rightarrow> string option \<Rightarrow> registry_tree
    \<Rightarrow> (kv_chunk_info \<times> string option \<times> int set) option" where
  "find_kv_with_worker_info key exclude_instance_id rt =
     first_some (\<lambda>(instance_id, i). if exclude_instance_id = Some instance_id then None
       else in_find_key (rt_nodes rt) key i) (rt_instances rt)"

definition get_total_kv_count :: "registry_tree \<Rightarrow> nat" where
  "get_total_kv_count rt = sum_list (map (in_get_total_kv_count (rt_nodes rt)) (dict_values (rt_instances rt)))"

definition get_worker_kv_keys :: "string \<Rightarrow> int \<Rightarrow> string \<Rightarrow> registry_tree \<Rightarrow> int set" where
  "get_worker_kv_keys instance_id worker_id location rt =
     (case get_worker instance_id worker_id rt of None \<Rightarrow> {} | Some r \<Rightarrow> wn_get_kv_keys location (rt_nodes rt ! r))"

definition clear_worker_kv :: "string \<Rightarrow> int \<Rightarrow> string option \<Rightarrow> registry_tree \<Rightarrow> bool \<times> registry_tree" where
  "clear_worker_kv instance_id worker_id location rt =
     (case get_worker instance_id worker_id rt of
        None \<Rightarrow> (False, rt)
      | Some r \<Rightarrow> (True, upd_node r (case location of None \<Rightarrow> wn_clear_kv_store | Some l \<Rightarrow> wn_clear_location l) rt))"

definition clear_all_worker_kv :: "string \<Rightarrow> int \<Rightarrow> registry_tree \<Rightarrow> bool \<times> registry_tree" where
  "clear_all_worker_kv instance_id worker_id rt =
     (case get_worker instance_id worker_id rt of
        None \<Rightarrow> (False, rt)
      | Some r \<Rightarrow> (True, upd_node r wn_clear_kv_store rt))"

section \<open>The invariant\<close>

text \<open>
  Every node of the registry is in the store under its worker's id, no two workers share a node,
  no instance is empty, and no location keeps an empty set.
\<close>

definition node_ok :: "worker_node \<Rightarrow> bool" where
  "node_ok n \<longleftrightarrow> distinct (dict_keys (wn_kv_store n)) \<and> (\<forall>keys \<in> set (dict_values (wn_kv_store n)). keys \<noteq> {} \<and> finite keys)"

definition instance_ok :: "worker_node list \<Rightarrow> string \<Rightarrow> instance_node \<Rightarrow> bool" where
  "instance_ok nodes iid i \<longleftrightarrow> in_instance_id i = iid \<and> in_workers i \<noteq> [] \<and> distinct (dict_keys (in_workers i)) \<and>
     (\<forall>(w, r) \<in> set (in_workers i). r < length nodes \<and> wn_worker_id (nodes ! r) = w)"

definition registry_ok :: "registry_tree \<Rightarrow> bool" where
  "registry_ok rt \<longleftrightarrow> distinct (dict_keys (rt_instances rt)) \<and>
     (\<forall>(iid, i) \<in> set (rt_instances rt). instance_ok (rt_nodes rt) iid i) \<and>
     (\<forall>i w j v r. get_worker i w rt = Some r \<longrightarrow> get_worker j v rt = Some r \<longrightarrow> i = j \<and> w = v) \<and>
     (\<forall>n \<in> set (rt_nodes rt). node_ok n) \<and>
     (\<forall>(iid, r) \<in> set (tc_cache (rt_worker_node_cache rt)). r < length (rt_nodes rt))"

text \<open>What the cluster stores, as a set of places.\<close>

type_synonym place = "string \<times> int \<times> string \<times> int"

definition places :: "registry_tree \<Rightarrow> place set" where
  "places rt = {(i, w, l, k). k \<in> get_worker_kv_keys i w l rt}"

text \<open>What a batch does to a set of places.\<close>

primrec places_after :: "string \<Rightarrow> int \<Rightarrow> string \<Rightarrow> kv_op list \<Rightarrow> place set \<Rightarrow> place set" where
  "places_after i w l [] P = P"
| "places_after i w l (op # ops) P = places_after i w l ops
     (case ko_op_type op of ADMIT \<Rightarrow> insert (i, w, l, ko_key op) P | EVICT \<Rightarrow> P - {(i, w, l, ko_key op)})"

section \<open>Lemmas\<close>

lemma dict_set_twice: "dict_set k v (dict_set k u d) = dict_set k v d"
  by (induction d) auto

lemma first_some_None: "first_some f xs = None \<longleftrightarrow> (\<forall>x \<in> set xs. f x = None)"
  by (induction xs) (auto split: option.splits)

lemma first_some_SomeD: "first_some f xs = Some y \<Longrightarrow> \<exists>x \<in> set xs. f x = Some y"
  by (induction xs) (auto split: option.splits)

lemma first_some_map: "first_some (\<lambda>x. map_option g (f x)) xs = map_option g (first_some f xs)"
  by (induction xs) (auto split: option.splits)

lemma first_some_cong: "(\<And>x. x \<in> set xs \<Longrightarrow> f x = g x) \<Longrightarrow> first_some f xs = first_some g xs"
  by (induction xs) (simp_all split: option.splits)

lemma get_worker_eq:
  "get_worker i w rt = (case map_of (rt_instances rt) i of None \<Rightarrow> None | Some inst \<Rightarrow> map_of (in_workers inst) w)"
  by (simp add: get_worker_def get_instance_def in_get_worker_def split: option.splits)

lemma upd_node_simps [simp]:
  "rt_instances (upd_node r f rt) = rt_instances rt" "get_worker i w (upd_node r f rt) = get_worker i w rt"
  "length (rt_nodes (upd_node r f rt)) = length (rt_nodes rt)"
  "rt_worker_node_cache (upd_node r f rt) = rt_worker_node_cache rt"
  "rt_worker_info_cache (upd_node r f rt) = rt_worker_info_cache rt"
  by (simp_all add: upd_node_def get_worker_eq)

lemma upd_node_nth: "r < length (rt_nodes rt) \<Longrightarrow>
    rt_nodes (upd_node r f rt) ! q = (if q = r then f (rt_nodes rt ! r) else rt_nodes rt ! q)"
  by (auto simp: upd_node_def)

lemma get_worker_instance:
  assumes "registry_ok rt" "get_worker i w rt = Some r"
  shows "\<exists>inst. (i, inst) \<in> set (rt_instances rt) \<and> instance_ok (rt_nodes rt) i inst \<and> (w, r) \<in> set (in_workers inst)"
proof -
  obtain inst where inst: "map_of (rt_instances rt) i = Some inst" "map_of (in_workers inst) w = Some r"
    using assms(2) by (auto simp: get_worker_eq split: option.splits)
  show ?thesis using map_of_SomeD [OF inst(1)] map_of_SomeD [OF inst(2)] assms(1)
    by (auto simp: registry_ok_def)
qed

lemma instance_worker:
  assumes "registry_ok rt" "(i, inst) \<in> set (rt_instances rt)"
  shows "map_of (rt_instances rt) i = Some inst" "instance_ok (rt_nodes rt) i inst"
    "(w, r) \<in> set (in_workers inst) \<Longrightarrow> get_worker i w rt = Some r"
  using assms by (auto simp: registry_ok_def instance_ok_def get_worker_eq)

lemma get_worker_live:
  assumes "registry_ok rt" "get_worker i w rt = Some r"
  shows "r < length (rt_nodes rt)" "wn_worker_id (rt_nodes rt ! r) = w" "node_ok (rt_nodes rt ! r)"
proof -
  show r: "r < length (rt_nodes rt)" and "wn_worker_id (rt_nodes rt ! r) = w"
    using get_worker_instance [OF assms] by (auto simp: instance_ok_def)
  show "node_ok (rt_nodes rt ! r)" using assms(1) nth_mem [OF r] by (simp add: registry_ok_def)
qed

lemma get_worker_inj:
  "registry_ok rt \<Longrightarrow> get_worker i w rt = Some r \<Longrightarrow> get_worker j v rt = Some r \<Longrightarrow> i = j \<and> w = v"
  unfolding registry_ok_def by blast

text \<open>A worker's node can be replaced by a good one with the same id.\<close>

lemma registry_ok_upd_node:
  assumes "registry_ok rt" "r < length (rt_nodes rt)" "node_ok (f (rt_nodes rt ! r))"
    and "wn_worker_id (f (rt_nodes rt ! r)) = wn_worker_id (rt_nodes rt ! r)"
  shows "registry_ok (upd_node r f rt)"
proof -
  have "instance_ok (rt_nodes (upd_node r f rt)) iid i = instance_ok (rt_nodes rt) iid i" for iid i
    unfolding instance_ok_def using assms(2,4) by (auto simp: upd_node_nth)
  moreover have "node_ok n" if "n \<in> set (rt_nodes (upd_node r f rt))" for n
  proof -
    have "n \<in> insert (f (rt_nodes rt ! r)) (set (rt_nodes rt))"
      using that subsetD [OF set_update_subset_insert] by (simp add: upd_node_def)
    then show ?thesis using assms(1,3) by (auto simp: registry_ok_def)
  qed
  ultimately show ?thesis using assms(1) by (simp add: registry_ok_def)
qed

lemma registry_ok_cong:
  assumes "registry_ok rt" "rt_instances rt' = rt_instances rt" "rt_nodes rt' = rt_nodes rt"
    and "\<forall>(iid, r) \<in> set (tc_cache (rt_worker_node_cache rt')). r < length (rt_nodes rt)"
  shows "registry_ok rt'"
  using assms by (simp add: registry_ok_def get_worker_eq)

lemma kv_keys_upd_node:
  assumes "registry_ok rt" "get_worker i w rt = Some r"
  shows "get_worker_kv_keys j v l (upd_node r f rt) =
    (if j = i \<and> v = w then wn_get_kv_keys l (f (rt_nodes rt ! r)) else get_worker_kv_keys j v l rt)"
proof -
  note r = get_worker_live(1) [OF assms]
  show ?thesis
  proof (cases "j = i \<and> v = w")
    case True
    then show ?thesis using assms(2) r by (simp add: get_worker_kv_keys_def upd_node_nth)
  next
    case False
    then have "q \<noteq> r" if "get_worker j v rt = Some q" for q
      using that get_worker_inj [OF assms(1) assms(2), of j v] by auto
    then show ?thesis using False r
      by (cases "get_worker j v rt") (auto simp: get_worker_kv_keys_def upd_node_nth)
  qed
qed

subsection \<open>One node\<close>

lemma kv_keys_after:
  "k \<in> fold apply_kv_op ops keys \<longleftrightarrow>
     (case find (\<lambda>op. ko_key op = k) (rev ops) of None \<Rightarrow> k \<in> keys | Some op \<Rightarrow> ko_op_type op = ADMIT)"
proof (induction ops rule: rev_induct)
  case (snoc op ops)
  then show ?case by (cases "ko_op_type op") (auto simp: apply_kv_op_def)
qed simp

lemma finite_kv_keys: "finite keys \<Longrightarrow> finite (fold apply_kv_op ops keys)"
  by (induction ops arbitrary: keys) (auto simp: apply_kv_op_def split: op_type.splits)

lemma wn_get_kv_keys_finite: "node_ok n \<Longrightarrow> finite (wn_get_kv_keys l n)"
  unfolding node_ok_def wn_get_kv_keys_def by (auto split: option.splits dest: map_of_SomeD)

lemma set_dict_set: "set (dict_set k x d) \<subseteq> insert (k, x) (set d)"
proof (induction d)
  case (Cons y d)
  then show ?case by (cases "fst y = k"; cases y) auto
qed simp

lemma node_ok_store:
  assumes "node_ok n"
  shows "node_ok (n\<lparr>wn_kv_store := dict_del l (wn_kv_store n), wn_seq_tracker := t\<rparr>)"
    and "keys \<noteq> {} \<Longrightarrow> finite keys \<Longrightarrow> node_ok (n\<lparr>wn_kv_store := dict_set l keys (wn_kv_store n), wn_seq_tracker := t\<rparr>)"
    and "wn_get_kv_keys j (n\<lparr>wn_kv_store := dict_del l (wn_kv_store n), wn_seq_tracker := t\<rparr>) =
      (if j = l then {} else wn_get_kv_keys j n)"
    and "wn_get_kv_keys j (n\<lparr>wn_kv_store := dict_set l keys (wn_kv_store n), wn_seq_tracker := t\<rparr>) =
      (if j = l then keys else wn_get_kv_keys j n)"
proof -
  have "set (dict_del l (wn_kv_store n)) \<subseteq> set (wn_kv_store n)" by (auto simp: AList.delete_eq)
  then show "node_ok (n\<lparr>wn_kv_store := dict_del l (wn_kv_store n), wn_seq_tracker := t\<rparr>)"
    using assms by (fastforce simp: node_ok_def)
  show "node_ok (n\<lparr>wn_kv_store := dict_set l keys (wn_kv_store n), wn_seq_tracker := t\<rparr>)" if "keys \<noteq> {}" "finite keys"
  proof -
    have "snd x \<noteq> {} \<and> finite (snd x)" if "x \<in> set (dict_set l keys (wn_kv_store n))" for x
      using subsetD [OF set_dict_set that] assms \<open>keys \<noteq> {}\<close> \<open>finite keys\<close> by (auto simp: node_ok_def)
    then show ?thesis using assms by (auto simp: node_ok_def)
  qed
qed (simp_all add: wn_get_kv_keys_def dict_simps)

lemma wn_handle_node:
  assumes "wn_handle_batched_kv_operations msg full n = ((ok, warning), n')" "node_ok n"
  shows "node_ok n'" "ok \<longleftrightarrow> full \<or> \<not> wn_syncing n" "wn_worker_id n' = wn_worker_id n" "wn_sync_info n' = wn_sync_info n"
    and "wn_get_kv_keys l n' =
      (if ok \<and> l = kb_location msg then fold apply_kv_op (kb_operations msg) (wn_get_kv_keys l n) else wn_get_kv_keys l n)"
proof -
  let ?keys = "fold apply_kv_op (kb_operations msg) (wn_get_kv_keys (kb_location msg) n)"
  have "wn_syncing n \<and> \<not> full \<and> \<not> ok \<and> n' = n \<or> \<not> (wn_syncing n \<and> \<not> full) \<and> ok \<and> (
      n' = n\<lparr>wn_kv_store := (if ?keys = {} then dict_del (kb_location msg) (wn_kv_store n)
        else dict_set (kb_location msg) ?keys (wn_kv_store n)), wn_seq_tracker := wn_seq_tracker n'\<rparr>)"
    using assms(1) unfolding wn_handle_batched_kv_operations_def Let_def wn_get_kv_keys_def
    by (cases n) (auto split: if_splits prod.splits)
  then obtain t where k: "wn_syncing n \<and> \<not> full \<and> \<not> ok \<and> n' = n \<or> \<not> (wn_syncing n \<and> \<not> full) \<and> ok \<and>
      n' = n\<lparr>wn_kv_store := (if ?keys = {} then dict_del (kb_location msg) (wn_kv_store n)
        else dict_set (kb_location msg) ?keys (wn_kv_store n)), wn_seq_tracker := t\<rparr>" by blast
  have fin: "finite ?keys" by (intro finite_kv_keys wn_get_kv_keys_finite [OF assms(2)])
  show "node_ok n'"
    using k assms(2) node_ok_store(1) [OF assms(2)] node_ok_store(2) [OF assms(2) _ fin] by (cases "?keys = {}") auto
  show "ok \<longleftrightarrow> full \<or> \<not> wn_syncing n" "wn_worker_id n' = wn_worker_id n" "wn_sync_info n' = wn_sync_info n"
    using k by auto
  show "wn_get_kv_keys l n' =
      (if ok \<and> l = kb_location msg then fold apply_kv_op (kb_operations msg) (wn_get_kv_keys l n) else wn_get_kv_keys l n)"
    using k node_ok_store(3,4) [OF assms(2)] by (cases "?keys = {}") auto
qed

lemma wn_clear_node:
  assumes "node_ok n"
  shows "node_ok (wn_clear_kv_store n)" "node_ok (wn_clear_location l n)"
    "wn_get_kv_keys k (wn_clear_kv_store n) = {}" "wn_get_kv_keys k (wn_clear_location l n) = (if k = l then {} else wn_get_kv_keys k n)"
    "wn_worker_id (wn_clear_kv_store n) = wn_worker_id n" "wn_worker_id (wn_clear_location l n) = wn_worker_id n"
    "wn_sync_info (wn_clear_kv_store n) = wn_sync_info n" "wn_sync_info (wn_clear_location l n) = wn_sync_info n"
  using node_ok_store(1,3) [OF assms] by (simp_all add: wn_clear_kv_store_def wn_clear_location_def node_ok_def wn_get_kv_keys_def)

subsection \<open>The operations keep the invariant\<close>

lemma registry_ok_new: "registry_ok registry_new"
  by (simp add: registry_ok_def registry_new_def ttl_cache_new_def get_worker_eq)

lemma register_worker_worker:
  assumes "register_worker i w ip port url sock now rt = (r, rt')"
  shows "r = length (rt_nodes rt)" "rt_nodes rt' = rt_nodes rt @ [worker_node_new w ip port url sock now]"
    and "get_worker j v rt' = (if j = i \<and> v = w then Some r else get_worker j v rt)"
    and "rt_worker_node_cache rt' = rt_worker_node_cache rt"
    and "rt_instances rt' = dict_set i (in_add_worker w r (case map_of (rt_instances rt) i of None \<Rightarrow> instance_new i | Some inst \<Rightarrow> inst))
      (rt_instances rt)"
proof -
  have e: "rt_instances rt' = dict_set i (in_add_worker w r (case map_of (rt_instances rt) i of None \<Rightarrow> instance_new i | Some inst \<Rightarrow> inst))
      (rt_instances rt) \<and> r = length (rt_nodes rt) \<and> rt_nodes rt' = rt_nodes rt @ [worker_node_new w ip port url sock now] \<and>
      rt_worker_node_cache rt' = rt_worker_node_cache rt"
    using assms by (auto simp: register_worker_def get_or_create_instance_def get_instance_def Let_def AList.update_Some_unfold
        dict_set_twice split: option.splits)
  then show "r = length (rt_nodes rt)" "rt_nodes rt' = rt_nodes rt @ [worker_node_new w ip port url sock now]"
    "rt_worker_node_cache rt' = rt_worker_node_cache rt"
    "rt_instances rt' = dict_set i (in_add_worker w r (case map_of (rt_instances rt) i of None \<Rightarrow> instance_new i | Some inst \<Rightarrow> inst))
      (rt_instances rt)" by blast+
  show "get_worker j v rt' = (if j = i \<and> v = w then Some r else get_worker j v rt)"
    using e by (auto simp: get_worker_eq dict_simps in_add_worker_def instance_new_def split: option.splits)
qed

lemma instance_ok_more:
  "instance_ok nodes i inst \<Longrightarrow> instance_ok (nodes @ ns) i inst"
  by (fastforce simp: instance_ok_def nth_append)

lemma registry_ok_register:
  assumes "registry_ok rt" "register_worker i w ip port url sock now rt = (r, rt')"
  shows "registry_ok rt'"
proof -
  note eq = register_worker_worker [OF assms(2)]
  let ?old = "case map_of (rt_instances rt) i of None \<Rightarrow> instance_new i | Some inst \<Rightarrow> inst"
  have old: "in_instance_id ?old = i \<and> distinct (dict_keys (in_workers ?old)) \<and>
      (\<forall>(v, q) \<in> set (in_workers ?old). q < length (rt_nodes rt) \<and> wn_worker_id (rt_nodes rt ! q) = v)"
    using assms(1) by (auto simp: instance_new_def registry_ok_def instance_ok_def split: option.splits dest!: map_of_SomeD)
  have "instance_ok (rt_nodes rt') i (in_add_worker w r ?old)"
    unfolding instance_ok_def
  proof (intro conjI)
    show "in_workers (in_add_worker w r ?old) \<noteq> []"
      by (cases "in_workers ?old") (auto simp: in_add_worker_def)
    show "\<forall>(v, q) \<in> set (in_workers (in_add_worker w r ?old)). q < length (rt_nodes rt') \<and> wn_worker_id (rt_nodes rt' ! q) = v"
      using old eq(1,2) set_dict_set [of w r "in_workers ?old"]
      by (fastforce simp: in_add_worker_def worker_node_new_def nth_append)
  qed (use old in \<open>simp_all add: in_add_worker_def\<close>)
  moreover have "instance_ok (rt_nodes rt') j inst" if "(j, inst) \<in> set (rt_instances rt)" for j inst
    using that assms(1) unfolding eq(2) by (intro instance_ok_more) (auto simp: registry_ok_def)
  ultimately have inst: "\<forall>(j, inst) \<in> set (rt_instances rt'). instance_ok (rt_nodes rt') j inst"
    using set_dict_set [of i "in_add_worker w r ?old" "rt_instances rt"] unfolding eq(5) by blast
  have "q < r" if "get_worker j v rt = Some q" for j v q
    using get_worker_live(1) [OF assms(1) that] eq(1) by simp
  then have "\<forall>j v j' v' q. get_worker j v rt' = Some q \<longrightarrow> get_worker j' v' rt' = Some q \<longrightarrow> j = j' \<and> v = v'"
    using get_worker_inj [OF assms(1)] unfolding eq(3) by (auto split: if_splits)
  moreover have "\<forall>n \<in> set (rt_nodes rt'). node_ok n"
    using assms(1) unfolding eq(2) by (simp add: registry_ok_def node_ok_def worker_node_new_def)
  moreover have "distinct (dict_keys (rt_instances rt'))" using assms(1) unfolding eq(5) by (simp add: registry_ok_def)
  moreover have "\<forall>(iid, q) \<in> set (tc_cache (rt_worker_node_cache rt')). q < length (rt_nodes rt')"
    using assms(1) unfolding eq(2,4) by (fastforce simp: registry_ok_def)
  ultimately show ?thesis using inst unfolding registry_ok_def by blast
qed

lemma deregister_worker_worker:
  assumes "registry_ok rt" "deregister_worker i w rt = (r, rt')"
  shows "r = get_worker i w rt" "rt_nodes rt' = rt_nodes rt" "rt_worker_node_cache rt' = rt_worker_node_cache rt"
    and "get_worker j v rt' = (if j = i \<and> v = w then None else get_worker j v rt)"
    and "registry_ok rt'"
proof -
  let ?del = "\<lambda>inst. inst\<lparr>in_workers := dict_del w (in_workers inst)\<rparr>"
  have e: "r = get_worker i w rt \<and> rt_nodes rt' = rt_nodes rt \<and> rt_worker_node_cache rt' = rt_worker_node_cache rt \<and>
      rt_instances rt' = (case map_of (rt_instances rt) i of None \<Rightarrow> rt_instances rt
        | Some inst \<Rightarrow> if dict_del w (in_workers inst) = [] then dict_del i (dict_set i (?del inst) (rt_instances rt))
            else dict_set i (?del inst) (rt_instances rt))"
    using assms(2) by (auto simp: deregister_worker_def get_instance_def in_remove_worker_def dict_pop_def in_has_workers_def
        get_worker_eq Let_def split: option.splits if_splits)
  then show "r = get_worker i w rt" "rt_nodes rt' = rt_nodes rt" "rt_worker_node_cache rt' = rt_worker_node_cache rt" by simp_all
  have w: "get_worker j v rt' = (if j = i \<and> v = w then None else get_worker j v rt)" for j v
  proof (cases "map_of (rt_instances rt) i")
    case (Some inst)
    have "map_of (in_workers inst) v = None" if "dict_del w (in_workers inst) = []" "v \<noteq> w"
      using map_of_dict_del [of w "in_workers inst" v] that by simp
    then show ?thesis using e Some by (auto simp: get_worker_eq dict_simps)
  qed (use e in \<open>auto simp: get_worker_eq\<close>)
  then show "get_worker j v rt' = (if j = i \<and> v = w then None else get_worker j v rt)" .
  have "instance_ok (rt_nodes rt') k x" if k: "(k, x) \<in> set (rt_instances rt')" for k x
  proof (cases "(k, x) \<in> set (rt_instances rt)")
    case True
    then show ?thesis using assms(1) e by (auto simp: registry_ok_def)
  next
    case False
    then obtain inst where i: "map_of (rt_instances rt) i = Some inst" "dict_del w (in_workers inst) \<noteq> []" "k = i" "x = ?del inst"
      using e k set_dict_set [of i _ "rt_instances rt"] by (fastforce simp: AList.delete_eq split: option.splits if_splits)
    then have "instance_ok (rt_nodes rt) i inst" using instance_worker(2) [OF assms(1) map_of_SomeD] by blast
    then show ?thesis using i e by (auto simp: instance_ok_def AList.delete_eq dest: distinct_dict_del)
  qed
  moreover have "distinct (dict_keys (rt_instances rt'))"
    using assms(1) e by (auto simp: registry_ok_def split: option.splits)
  moreover have "\<forall>j v j' v' q. get_worker j v rt' = Some q \<longrightarrow> get_worker j' v' rt' = Some q \<longrightarrow> j = j' \<and> v = v'"
    using get_worker_inj [OF assms(1)] unfolding w by (auto split: if_splits)
  ultimately show "registry_ok rt'" using assms(1) e unfolding registry_ok_def by auto
qed

lemma registry_ok_clear:
  assumes "registry_ok rt" "clear_worker_kv i w loc rt = (ok, rt')"
  shows "registry_ok rt'" "ok \<longleftrightarrow> get_worker i w rt \<noteq> None" "get_worker j v rt' = get_worker j v rt"
    "get_worker_kv_keys j v l rt' = (if j = i \<and> v = w \<and> (loc = None \<or> loc = Some l) then {} else get_worker_kv_keys j v l rt)"
    "length (rt_nodes rt') = length (rt_nodes rt)"
    "wn_sync_info (rt_nodes rt' ! q) = wn_sync_info (rt_nodes rt ! q)"
proof -
  let ?f = "case loc of None \<Rightarrow> wn_clear_kv_store | Some l \<Rightarrow> wn_clear_location l"
  have "registry_ok rt' \<and> (ok \<longleftrightarrow> get_worker i w rt \<noteq> None) \<and> get_worker j v rt' = get_worker j v rt \<and>
     get_worker_kv_keys j v l rt' = (if j = i \<and> v = w \<and> (loc = None \<or> loc = Some l) then {} else get_worker_kv_keys j v l rt) \<and>
     length (rt_nodes rt') = length (rt_nodes rt) \<and> wn_sync_info (rt_nodes rt' ! q) = wn_sync_info (rt_nodes rt ! q)"
  proof (cases "get_worker i w rt")
    case None
    then show ?thesis using assms by (auto simp: clear_worker_kv_def get_worker_kv_keys_def)
  next
    case (Some r)
    note n = wn_clear_node [OF get_worker_live(3) [OF assms(1) Some]] and r = get_worker_live(1) [OF assms(1) Some]
    have f: "node_ok (?f (rt_nodes rt ! r))" "wn_worker_id (?f (rt_nodes rt ! r)) = wn_worker_id (rt_nodes rt ! r)"
      "wn_sync_info (?f (rt_nodes rt ! r)) = wn_sync_info (rt_nodes rt ! r)"
      "wn_get_kv_keys l (?f (rt_nodes rt ! r)) =
        (if loc = None \<or> loc = Some l then {} else wn_get_kv_keys l (rt_nodes rt ! r))"
      using n by (auto split: option.splits)
    have e: "ok" "rt' = upd_node r ?f rt" using assms(2) Some by (simp_all add: clear_worker_kv_def)
    have "get_worker_kv_keys i w l rt = wn_get_kv_keys l (rt_nodes rt ! r)" using Some by (simp add: get_worker_kv_keys_def)
    then show ?thesis
      using registry_ok_upd_node [where f = ?f, OF assms(1) r f(1,2)] kv_keys_upd_node [OF assms(1) Some, of j v l ?f] f(3,4) r e Some
      by (auto simp: upd_node_nth)
  qed
  then show "registry_ok rt'" "ok \<longleftrightarrow> get_worker i w rt \<noteq> None" "get_worker j v rt' = get_worker j v rt"
    "get_worker_kv_keys j v l rt' = (if j = i \<and> v = w \<and> (loc = None \<or> loc = Some l) then {} else get_worker_kv_keys j v l rt)"
    "length (rt_nodes rt') = length (rt_nodes rt)" "wn_sync_info (rt_nodes rt' ! q) = wn_sync_info (rt_nodes rt ! q)"
    by blast+
qed

lemma handle_batched_worker:
  assumes "registry_ok rt" "handle_batched_kv_operations msg full rt = (ok, rt')"
  shows "registry_ok rt'" "get_worker j v rt' = get_worker j v rt" "length (rt_nodes rt') = length (rt_nodes rt)"
    "wn_sync_info (rt_nodes rt' ! q) = wn_sync_info (rt_nodes rt ! q)"
    "ok \<longleftrightarrow> (\<exists>r. get_worker (kb_instance_id msg) (kb_worker_id msg) rt = Some r \<and> (full \<or> \<not> wn_syncing (rt_nodes rt ! r)))"
    "get_worker_kv_keys j v l rt' =
      (if ok \<and> j = kb_instance_id msg \<and> v = kb_worker_id msg \<and> l = kb_location msg
       then fold apply_kv_op (kb_operations msg) (get_worker_kv_keys j v l rt) else get_worker_kv_keys j v l rt)"
proof -
  let ?i = "kb_instance_id msg" and ?w = "kb_worker_id msg"
  have "registry_ok rt' \<and> get_worker j v rt' = get_worker j v rt \<and> length (rt_nodes rt') = length (rt_nodes rt) \<and>
    wn_sync_info (rt_nodes rt' ! q) = wn_sync_info (rt_nodes rt ! q) \<and>
    (ok \<longleftrightarrow> (\<exists>r. get_worker ?i ?w rt = Some r \<and> (full \<or> \<not> wn_syncing (rt_nodes rt ! r)))) \<and>
    get_worker_kv_keys j v l rt' =
      (if ok \<and> j = ?i \<and> v = ?w \<and> l = kb_location msg
       then fold apply_kv_op (kb_operations msg) (get_worker_kv_keys j v l rt) else get_worker_kv_keys j v l rt)"
  proof (cases "get_worker ?i ?w rt")
    case None
    then show ?thesis using assms by (auto simp: handle_batched_kv_operations_def)
  next
    case (Some r)
    obtain warning n' where h: "wn_handle_batched_kv_operations msg full (rt_nodes rt ! r) = ((ok, warning), n')"
      and e: "\<exists>c. rt' = (upd_node r (\<lambda>_. n') rt)\<lparr>rt_seq_discontinuity_count := c\<rparr>"
      using assms(2) Some
      by (cases "wn_handle_batched_kv_operations msg full (rt_nodes rt ! r)")
        (auto simp: handle_batched_kv_operations_def Let_def upd_node_def split: if_splits; cases rt; auto)
    obtain c where c: "rt' = (upd_node r (\<lambda>_. n') rt)\<lparr>rt_seq_discontinuity_count := c\<rparr>" using e by blast
    note n = wn_handle_node [OF h get_worker_live(3) [OF assms(1) Some]] and r = get_worker_live(1) [OF assms(1) Some]
    have ok: "registry_ok (upd_node r (\<lambda>_. n') rt)" using n(1,3) by (intro registry_ok_upd_node [OF assms(1) r])
    have "registry_ok rt'" using ok unfolding c by (rule registry_ok_cong) (use ok in \<open>simp_all add: registry_ok_def\<close>)
    moreover have "get_worker j v rt' = get_worker j v rt" for j v unfolding c by (simp add: get_worker_eq)
    moreover have "get_worker_kv_keys j v l rt' = get_worker_kv_keys j v l (upd_node r (\<lambda>_. n') rt)"
      unfolding c by (simp add: get_worker_kv_keys_def get_worker_eq split: option.split)
    moreover have "get_worker_kv_keys ?i ?w l rt = wn_get_kv_keys l (rt_nodes rt ! r)"
      using Some by (simp add: get_worker_kv_keys_def)
    ultimately show ?thesis
      using kv_keys_upd_node [OF assms(1) Some, of j v l "\<lambda>_. n'"] n(2,4,5) Some r unfolding c
      by (auto simp: upd_node_nth)
  qed
  then show "registry_ok rt'" "get_worker j v rt' = get_worker j v rt" "length (rt_nodes rt') = length (rt_nodes rt)"
    "wn_sync_info (rt_nodes rt' ! q) = wn_sync_info (rt_nodes rt ! q)"
    "ok \<longleftrightarrow> (\<exists>r. get_worker (kb_instance_id msg) (kb_worker_id msg) rt = Some r \<and> (full \<or> \<not> wn_syncing (rt_nodes rt ! r)))"
    "get_worker_kv_keys j v l rt' =
      (if ok \<and> j = kb_instance_id msg \<and> v = kb_worker_id msg \<and> l = kb_location msg
       then fold apply_kv_op (kb_operations msg) (get_worker_kv_keys j v l rt) else get_worker_kv_keys j v l rt)"
    by blast+
qed

lemma places_after_iff:
  "(j, v, m, k) \<in> places_after i w l ops P \<longleftrightarrow>
     (if j = i \<and> v = w \<and> m = l then k \<in> fold apply_kv_op ops {k. (i, w, l, k) \<in> P} else (j, v, m, k) \<in> P)"
proof (induction ops arbitrary: P)
  case (Cons op ops)
  have "{k. (i, w, l, k) \<in> (case ko_op_type op of ADMIT \<Rightarrow> insert (i, w, l, ko_key op) P | EVICT \<Rightarrow> P - {(i, w, l, ko_key op)})} =
      apply_kv_op op {k. (i, w, l, k) \<in> P}"
    by (cases "ko_op_type op") (auto simp: apply_kv_op_def)
  moreover have "(j, v, m, k) \<in> (case ko_op_type op of ADMIT \<Rightarrow> insert (i, w, l, ko_key op) P | EVICT \<Rightarrow> P - {(i, w, l, ko_key op)}) \<longleftrightarrow>
      (j, v, m, k) \<in> P" if "\<not> (j = i \<and> v = w \<and> m = l)"
    using that by (cases "ko_op_type op") auto
  ultimately show ?case using Cons by simp
qed auto

subsection \<open>Searching\<close>

lemma wn_find_key_simple_eq: "wn_find_key_simple key n = map_option fst (wn_find_key key n)"
  unfolding wn_find_key_simple_def wn_find_key_def first_some_map [symmetric]
  by (intro first_some_cong) auto

lemma in_find_key_simple_eq: "in_find_key_simple nodes key i = map_option fst (in_find_key nodes key i)"
  unfolding in_find_key_simple_def in_find_key_def first_some_map [symmetric]
  by (intro first_some_cong) (auto simp: wn_find_key_simple_eq option.map_comp comp_def split: prod.splits
      intro!: arg_cong2 [where f = map_option])

lemma find_kv_eq: "find_kv key ex rt = map_option fst (find_kv_with_worker_info key ex rt)"
  unfolding find_kv_def find_kv_with_worker_info_def first_some_map [symmetric]
  by (intro first_some_cong) (auto simp: in_find_key_simple_eq)

lemma wn_find_key_spec:
  assumes "node_ok n"
  shows "wn_find_key key n = None \<longleftrightarrow> (\<forall>l. key \<notin> wn_get_kv_keys l n)"
    and "wn_find_key key n = Some (c, url, keys) \<Longrightarrow> url = wn_peer_init_url n \<and> keys = wn_get_kv_keys (ci_location c) n \<and> key \<in> keys"
proof -
  have m: "map_of (wn_kv_store n) l = Some ks \<longleftrightarrow> (l, ks) \<in> set (wn_kv_store n)" for l ks
    using assms by (simp add: node_ok_def)
  have none: "(\<forall>x \<in> set (wn_kv_store n). key \<notin> snd x) \<longleftrightarrow> (\<forall>l. key \<notin> wn_get_kv_keys l n)"
  proof
    assume "\<forall>x \<in> set (wn_kv_store n). key \<notin> snd x"
    then show "\<forall>l. key \<notin> wn_get_kv_keys l n"
      by (auto simp: wn_get_kv_keys_def split: option.splits dest!: map_of_SomeD)
  next
    assume a: "\<forall>l. key \<notin> wn_get_kv_keys l n"
    show "\<forall>x \<in> set (wn_kv_store n). key \<notin> snd x"
    proof
      fix x assume "x \<in> set (wn_kv_store n)"
      then have "map_of (wn_kv_store n) (fst x) = Some (snd x)" using m by simp
      then show "key \<notin> snd x" using spec [OF a, of "fst x"] by (simp add: wn_get_kv_keys_def)
    qed
  qed
  show "wn_find_key key n = None \<longleftrightarrow> (\<forall>l. key \<notin> wn_get_kv_keys l n)"
    unfolding none [symmetric] wn_find_key_def first_some_None by (auto split: if_splits)
  show "url = wn_peer_init_url n \<and> keys = wn_get_kv_keys (ci_location c) n \<and> key \<in> keys"
    if "wn_find_key key n = Some (c, url, keys)"
  proof -
    have "\<exists>x \<in> set (wn_kv_store n). (case x of (location, keys) \<Rightarrow> if key \<in> keys
       then Some (\<lparr>ci_instance_id = [], ci_worker_id = wn_worker_id n, ci_location = location\<rparr>, wn_peer_init_url n, keys)
       else None) = Some (c, url, keys)"
      using that unfolding wn_find_key_def by (rule first_some_SomeD)
    then have "(ci_location c, keys) \<in> set (wn_kv_store n)" "key \<in> keys" "url = wn_peer_init_url n"
      by (auto split: if_splits)
    moreover from this(1) have "map_of (wn_kv_store n) (ci_location c) = Some keys" unfolding m .
    ultimately show ?thesis by (simp add: wn_get_kv_keys_def)
  qed
qed

lemma in_find_key_spec:
  assumes "registry_ok rt" "(i, inst) \<in> set (rt_instances rt)"
  shows "in_find_key (rt_nodes rt) key inst = None \<longleftrightarrow> (\<forall>w l. key \<notin> get_worker_kv_keys i w l rt)"
    and "in_find_key (rt_nodes rt) key inst = Some (c, url, keys) \<Longrightarrow>
      ci_instance_id c = i \<and> keys = get_worker_kv_keys i (ci_worker_id c) (ci_location c) rt \<and> key \<in> keys \<and>
      (\<exists>r. get_worker i (ci_worker_id c) rt = Some r \<and> url = wn_peer_init_url (rt_nodes rt ! r))"
proof -
  note inst = instance_worker [OF assms]
  have w: "get_worker i w rt = map_of (in_workers inst) w" for w using inst(1) by (simp add: get_worker_eq)
  have "(\<forall>x \<in> set (in_workers inst). wn_find_key key (rt_nodes rt ! snd x) = None) \<longleftrightarrow> (\<forall>w l. key \<notin> get_worker_kv_keys i w l rt)"
  proof
    assume a: "\<forall>x \<in> set (in_workers inst). wn_find_key key (rt_nodes rt ! snd x) = None"
    show "\<forall>w l. key \<notin> get_worker_kv_keys i w l rt"
    proof (intro allI)
      fix w l
      show "key \<notin> get_worker_kv_keys i w l rt"
      proof (cases "get_worker i w rt")
        case (Some r)
        then have "(w, r) \<in> set (in_workers inst)" using w map_of_SomeD by metis
        then have "wn_find_key key (rt_nodes rt ! r) = None" using a by fastforce
        then show ?thesis using wn_find_key_spec(1) [OF get_worker_live(3) [OF assms(1) Some]] Some
          by (simp add: get_worker_kv_keys_def)
      qed (simp add: get_worker_kv_keys_def)
    qed
  next
    assume a: "\<forall>w l. key \<notin> get_worker_kv_keys i w l rt"
    show "\<forall>x \<in> set (in_workers inst). wn_find_key key (rt_nodes rt ! snd x) = None"
    proof
      fix x assume "x \<in> set (in_workers inst)"
      then have r: "get_worker i (fst x) rt = Some (snd x)" using inst(3) by simp
      have "\<forall>l. key \<notin> wn_get_kv_keys l (rt_nodes rt ! snd x)"
        using spec [OF a, of "fst x"] r by (simp add: get_worker_kv_keys_def)
      then show "wn_find_key key (rt_nodes rt ! snd x) = None"
        using wn_find_key_spec(1) [OF get_worker_live(3) [OF assms(1) r]] by simp
    qed
  qed
  then show "in_find_key (rt_nodes rt) key inst = None \<longleftrightarrow> (\<forall>w l. key \<notin> get_worker_kv_keys i w l rt)"
    unfolding in_find_key_def first_some_None by (simp add: case_prod_beta)
  assume "in_find_key (rt_nodes rt) key inst = Some (c, url, keys)"
  then obtain w r c' where r: "(w, r) \<in> set (in_workers inst)" "wn_find_key key (rt_nodes rt ! r) = Some (c', url, keys)"
    "c = \<lparr>ci_instance_id = in_instance_id inst, ci_worker_id = w, ci_location = ci_location c'\<rparr>"
    unfolding in_find_key_def by (auto dest!: first_some_SomeD)
  note g = inst(3) [OF r(1)]
  show "ci_instance_id c = i \<and> keys = get_worker_kv_keys i (ci_worker_id c) (ci_location c) rt \<and> key \<in> keys \<and>
      (\<exists>r. get_worker i (ci_worker_id c) rt = Some r \<and> url = wn_peer_init_url (rt_nodes rt ! r))"
    using wn_find_key_spec(2) [OF get_worker_live(3) [OF assms(1) g] r(2)] r(3) g inst(2)
    by (auto simp: get_worker_kv_keys_def instance_ok_def)
qed

section \<open>Properties\<close>

definition place_of :: "int \<Rightarrow> kv_chunk_info \<Rightarrow> place" where
  "place_of key c = (ci_instance_id c, ci_worker_id c, ci_location c, key)"

text \<open>C18: Searching the registry is sound and complete: find_kv answers None exactly when no worker
  of an instance other than the excluded one stores the key, and otherwise names a place that
  stores it, never in the excluded instance. find_kv_with_worker_info finds the same place, with
  the url of that worker and the keys of that location.\<close>
theorem registry_search_spec:
  assumes "registry_ok rt"
  shows "(case find_kv key exclude rt of
      None \<Rightarrow> \<forall>(i, w, l, k) \<in> places rt. k = key \<longrightarrow> exclude = Some i
    | Some c \<Rightarrow> place_of key c \<in> places rt \<and> exclude \<noteq> Some (ci_instance_id c)) \<and>
    (case find_kv_with_worker_info key exclude rt of
      None \<Rightarrow> find_kv key exclude rt = None
    | Some (c, url, keys) \<Rightarrow> find_kv key exclude rt = Some c \<and>
        keys = get_worker_kv_keys (ci_instance_id c) (ci_worker_id c) (ci_location c) rt \<and>
        (\<exists>r. get_worker (ci_instance_id c) (ci_worker_id c) rt = Some r \<and> url = wn_peer_init_url (rt_nodes rt ! r)))"
proof (cases "find_kv_with_worker_info key exclude rt")
  case None
  then have n: "\<forall>x \<in> set (rt_instances rt). exclude = Some (fst x) \<or> in_find_key (rt_nodes rt) key (snd x) = None"
    unfolding find_kv_with_worker_info_def first_some_None by (auto split: if_splits)
  have "exclude = Some i" if k: "key \<in> get_worker_kv_keys i w l rt" for i w l
  proof -
    obtain r where "get_worker i w rt = Some r" using k by (auto simp: get_worker_kv_keys_def split: option.splits)
    then obtain inst where inst: "(i, inst) \<in> set (rt_instances rt)" using get_worker_instance [OF assms] by blast
    have "in_find_key (rt_nodes rt) key inst \<noteq> None" using in_find_key_spec(1) [OF assms inst] k by blast
    then show ?thesis using bspec [OF n inst] by auto
  qed
  then show ?thesis using None by (auto simp: find_kv_eq places_def)
next
  case (Some x)
  obtain c url keys where x: "x = (c, url, keys)" by (cases x)
  obtain i inst where i: "(i, inst) \<in> set (rt_instances rt)" "exclude \<noteq> Some i" "in_find_key (rt_nodes rt) key inst = Some (c, url, keys)"
    using Some unfolding find_kv_with_worker_info_def x by (auto dest!: first_some_SomeD split: if_splits)
  show ?thesis using in_find_key_spec(2) [OF assms i(1,3)] i(2) Some x
    by (auto simp: find_kv_eq places_def place_of_def)
qed

text \<open>C17: Handling a batch of operations refines the update of the set of places: when the worker is
  registered and not in a full sync, or the batch belongs to one, its admissions and evictions are
  applied in order at the batch's location and nowhere else; otherwise the batch is refused and
  nothing changes. The registry's invariant is kept.\<close>
theorem batch_updates_places:
  assumes "registry_ok rt" "handle_batched_kv_operations msg full rt = (ok, rt')"
  shows "registry_ok rt' \<and>
    (ok \<longleftrightarrow> (\<exists>r. get_worker (kb_instance_id msg) (kb_worker_id msg) rt = Some r \<and> (full \<or> \<not> wn_syncing (rt_nodes rt ! r)))) \<and>
    places rt' = (if ok then places_after (kb_instance_id msg) (kb_worker_id msg) (kb_location msg) (kb_operations msg) (places rt)
      else places rt)"
proof -
  note h = handle_batched_worker [OF assms]
  have p: "(j, v, l, k) \<in> places rt \<longleftrightarrow> k \<in> get_worker_kv_keys j v l rt" for j v l k by (simp add: places_def)
  have "x \<in> places rt' \<longleftrightarrow> x \<in> (if ok then places_after (kb_instance_id msg) (kb_worker_id msg) (kb_location msg) (kb_operations msg) (places rt)
      else places rt)" for x
  proof -
    obtain j v l k where x: "x = (j, v, l, k)" by (cases x)
    have "x \<in> places rt' \<longleftrightarrow> k \<in> get_worker_kv_keys j v l rt'" by (simp add: x places_def)
    then show ?thesis unfolding h(6) by (auto simp: x p places_after_iff)
  qed
  then show ?thesis using h(1,5) by blast
qed

section \<open>A small cluster\<close>

definition sample_registry :: registry_tree where
  "sample_registry =
     (let rt1 = snd (register_worker ''a'' 0 ''ip1'' 1 (Some ''u0'') 10 100 registry_new);
          rt2 = snd (register_worker ''b'' 0 ''ip2'' 1 None 11 100 rt1)
      in snd (handle_batched_kv_operations \<lparr>kb_instance_id = ''b'', kb_worker_id = 0, kb_location = ''cpu'',
        kb_operations = [\<lparr>ko_op_type = ADMIT, ko_key = 7, ko_seq_num = 0\<rparr>, \<lparr>ko_op_type = ADMIT, ko_key = 8, ko_seq_num = 1\<rparr>]\<rparr> False rt2))"

lemma sample_registry_ok: "registry_ok sample_registry"
  unfolding sample_registry_def Let_def
  by (rule handle_batched_worker(1) [OF registry_ok_register [OF registry_ok_register [OF registry_ok_new prod.collapse [symmetric]]
      prod.collapse [symmetric]] prod.collapse [symmetric]])

lemma registry_search_spec_witness:
  "find_kv 7 (Some ''a'') sample_registry = Some \<lparr>ci_instance_id = ''b'', ci_worker_id = 0, ci_location = ''cpu''\<rparr> \<and>
   (''b'', 0, ''cpu'', 7) \<in> places sample_registry"
proof -
  have f: "find_kv 7 (Some ''a'') sample_registry = Some \<lparr>ci_instance_id = ''b'', ci_worker_id = 0, ci_location = ''cpu''\<rparr>"
    by code_simp
  show ?thesis using registry_search_spec [OF sample_registry_ok, of 7 "Some ''a''"] by (simp add: f place_of_def)
qed

definition sample_batch :: kv_batch where
  "sample_batch = \<lparr>kb_instance_id = ''b'', kb_worker_id = 0, kb_location = ''cpu'',
     kb_operations = [\<lparr>ko_op_type = EVICT, ko_key = 7, ko_seq_num = 2\<rparr>]\<rparr>"

lemma batch_updates_places_witness:
  "\<exists>rt'. handle_batched_kv_operations sample_batch False sample_registry = (True, rt') \<and> (''b'', 0, ''cpu'', 7) \<notin> places rt'"
proof -
  obtain ok rt' where h: "handle_batched_kv_operations sample_batch False sample_registry = (ok, rt')" by (metis surj_pair)
  have "fst (handle_batched_kv_operations sample_batch False sample_registry)" by code_simp
  then have ok: "ok" using h by simp
  from batch_updates_places [OF sample_registry_ok h] have "(''b'', 0, ''cpu'', 7) \<notin> places rt'"
    using ok by (simp add: sample_batch_def places_after_iff apply_kv_op_def)
  then show ?thesis using h ok by simp
qed

end
