(* ===== verification/Full_Sync.thy ===== *)
theory Full_Sync
  imports Complex_Main Registry_Tree Token_Database
begin

text \<open>
  The cluster controller's key-value side: FullSyncTracker
  (cache_controller/controllers/full_sync_tracker.py) and KVController
  (cache_controller/controllers/kv_controller.py). The tracker keeps its data in the worker nodes
  of the registry. A handler has no await inside, so it runs without interleaving; its clock
  reading is an argument, and the quotient of two counts is a parameter fdiv, as Python rounds it.
\<close>

section \<open>Full sync tracker\<close>

record full_sync_tracker =
  fs_completion_threshold :: real
  fs_sync_timeout_s :: int
  fs_need_full_sync_all :: bool

definition full_sync_tracker_init :: "real \<Rightarrow> int \<Rightarrow> full_sync_tracker" where
  "full_sync_tracker_init threshold timeout =
     \<lparr>fs_completion_threshold = threshold, fs_sync_timeout_s = timeout, fs_need_full_sync_all = True\<rparr>"

definition get_sync_info :: "string \<Rightarrow> int \<Rightarrow> registry_tree \<Rightarrow> worker_sync_info option" where
  "get_sync_info instance_id worker_id rt =
     (case get_worker instance_id worker_id rt of None \<Rightarrow> None | Some r \<Rightarrow> wn_sync_info (rt_nodes rt ! r))"

definition set_sync_info :: "string \<Rightarrow> int \<Rightarrow> worker_sync_info option \<Rightarrow> registry_tree \<Rightarrow> bool \<times> registry_tree" where
  "set_sync_info instance_id worker_id si rt =
     (case get_worker instance_id worker_id rt of
        None \<Rightarrow> (False, rt)
      | Some r \<Rightarrow> (True, upd_node r (\<lambda>n. n\<lparr>wn_sync_info := si\<rparr>) rt))"

text \<open>A change of the worker's sync info in place, when it has one.\<close>

definition modify_sync_info :: "string \<Rightarrow> int \<Rightarrow> (worker_sync_info \<Rightarrow> worker_sync_info) \<Rightarrow> registry_tree \<Rightarrow> registry_tree" where
  "modify_sync_info instance_id worker_id f rt = snd (set_sync_info instance_id worker_id (map_option f (get_sync_info instance_id worker_id rt)) rt)"

definition set_need_full_sync_all :: "bool \<Rightarrow> full_sync_tracker \<Rightarrow> full_sync_tracker" where
  "set_need_full_sync_all need tr = tr\<lparr>fs_need_full_sync_all := need\<rparr>"

definition should_request_full_sync :: "string \<Rightarrow> int \<Rightarrow> full_sync_tracker \<Rightarrow> registry_tree \<Rightarrow> bool \<times> string option" where
  "should_request_full_sync instance_id worker_id tr rt =
     (let sync_info = get_sync_info instance_id worker_id rt
      in if fs_need_full_sync_all tr \<and>
            (case sync_info of None \<Rightarrow> True | Some si \<Rightarrow> si_state si \<noteq> FS_SYNCING \<and> si_state si \<noteq> FS_COMPLETED)
         then (True, Some ''controller_restart'')
         else if (case sync_info of None \<Rightarrow> False | Some si \<Rightarrow> si_state si = FS_FAILED)
         then (True, Some ''sync_failed_retry'')
         else (False, None))"

definition is_worker_syncing :: "string \<Rightarrow> int \<Rightarrow> registry_tree \<Rightarrow> bool" where
  "is_worker_syncing instance_id worker_id rt =
     (case get_sync_info instance_id worker_id rt of None \<Rightarrow> False | Some si \<Rightarrow> si_state si = FS_SYNCING)"

definition get_sync_id :: "string \<Rightarrow> int \<Rightarrow> registry_tree \<Rightarrow> string option" where
  "get_sync_id instance_id worker_id rt = map_option si_sync_id (get_sync_info instance_id worker_id rt)"

definition start_sync :: "string \<Rightarrow> int \<Rightarrow> string \<Rightarrow> int \<Rightarrow> int \<Rightarrow> int \<Rightarrow> registry_tree \<Rightarrow> bool \<times> registry_tree" where
  "start_sync instance_id worker_id sync_id total_keys batch_count now rt =
     (if (case get_sync_info instance_id worker_id rt of None \<Rightarrow> False
          | Some existing \<Rightarrow> si_state existing = FS_SYNCING \<and> si_sync_id existing \<noteq> sync_id)
      then (False, rt)
      else set_sync_info instance_id worker_id
             (Some (worker_sync_info_new sync_id FS_SYNCING now total_keys batch_count now)) rt)"

definition receive_batch :: "string \<Rightarrow> int \<Rightarrow> string \<Rightarrow> int \<Rightarrow> int \<Rightarrow> int \<Rightarrow> registry_tree \<Rightarrow> bool \<times> registry_tree" where
  "receive_batch instance_id worker_id sync_id batch_id keys_count now rt =
     (case get_sync_info instance_id worker_id rt of
        None \<Rightarrow> (False, rt)
      | Some si \<Rightarrow>
          if si_sync_id si \<noteq> sync_id then (False, rt)
          else if si_state si \<noteq> FS_SYNCING then (False, rt)
          else (True, modify_sync_info instance_id worker_id
                        (\<lambda>si. si\<lparr>si_received_batches := insert batch_id (si_received_batches si),
                                si_received_keys_count := si_received_keys_count si + keys_count,
                                si_last_activity_time := now\<rparr>) rt))"

definition complete_sync :: "string \<Rightarrow> int \<Rightarrow> string \<Rightarrow> int \<Rightarrow> int \<Rightarrow> registry_tree \<Rightarrow> bool \<times> registry_tree" where
  "complete_sync instance_id worker_id sync_id actual_total_keys now rt =
     (case get_sync_info instance_id worker_id rt of
        None \<Rightarrow> (False, rt)
      | Some si \<Rightarrow>
          if si_sync_id si \<noteq> sync_id then (False, rt)
          else (True, modify_sync_info instance_id worker_id
                        (\<lambda>si. si\<lparr>si_state := FS_COMPLETED, si_last_activity_time := now\<rparr>) rt))"

definition mark_failed :: "string \<Rightarrow> int \<Rightarrow> registry_tree \<Rightarrow> registry_tree" where
  "mark_failed instance_id worker_id rt = modify_sync_info instance_id worker_id (\<lambda>si. si\<lparr>si_state := FS_FAILED\<rparr>) rt"

text \<open>The timeout check looks at the cached nodes, which may no longer be those of the registry.\<close>

definition check_timeout_step :: "int \<Rightarrow> int \<Rightarrow> string \<times> nat \<Rightarrow> registry_tree \<Rightarrow> registry_tree" where
  "check_timeout_step timeout now w rt =
     (case w of (instance_id, r) \<Rightarrow>
        let n = rt_nodes rt ! r
        in case wn_sync_info n of
             None \<Rightarrow> rt
           | Some si \<Rightarrow>
               if si_state si = FS_SYNCING \<and> timeout < now - si_last_activity_time si
               then mark_failed instance_id (wn_worker_id n) rt else rt)"

definition check_sync_timeout :: "int \<Rightarrow> full_sync_tracker \<Rightarrow> registry_tree \<Rightarrow> registry_tree" where
  "check_sync_timeout now tr rt =
     (case get_all_worker_nodes_cached None now rt of
        (ws, rt1) \<Rightarrow> fold (check_timeout_step (fs_sync_timeout_s tr) now) ws rt1)"

text \<open>Counting over the cached nodes.\<close>

definition node_state :: "registry_tree \<Rightarrow> string \<times> nat \<Rightarrow> full_sync_state option" where
  "node_state rt w = map_option si_state (wn_sync_info (rt_nodes rt ! snd w))"

definition get_global_progress :: "(nat \<Rightarrow> nat \<Rightarrow> real) \<Rightarrow> int \<Rightarrow> registry_tree \<Rightarrow> real \<times> registry_tree" where
  "get_global_progress fdiv now rt =
     (case get_all_worker_nodes_cached None now rt of
        (all_workers, rt1) \<Rightarrow>
          if all_workers = [] then (0, rt1)
          else let ready_count = length (filter (\<lambda>w. node_state rt1 w = None \<or> node_state rt1 w = Some FS_COMPLETED) all_workers)
               in (fdiv ready_count (length all_workers), rt1))"

definition get_completed_count :: "int \<Rightarrow> registry_tree \<Rightarrow> nat \<times> registry_tree" where
  "get_completed_count now rt =
     (case get_all_worker_nodes_cached None now rt of
        (ws, rt1) \<Rightarrow> (length (filter (\<lambda>w. node_state rt1 w = Some FS_COMPLETED) ws), rt1))"

definition get_syncing_count :: "int \<Rightarrow> registry_tree \<Rightarrow> nat \<times> registry_tree" where
  "get_syncing_count now rt =
     (case get_all_worker_nodes_cached None now rt of
        (ws, rt1) \<Rightarrow> (length (filter (\<lambda>w. node_state rt1 w = Some FS_SYNCING) ws), rt1))"

definition can_exit_freeze :: "real \<Rightarrow> full_sync_tracker \<Rightarrow> bool \<times> full_sync_tracker" where
  "can_exit_freeze progress tr =
     (let can_exit = fs_completion_threshold tr \<le> progress
      in (can_exit, if can_exit \<and> fs_need_full_sync_all tr then tr\<lparr>fs_need_full_sync_all := False\<rparr> else tr))"

definition missing_of :: "worker_sync_info \<Rightarrow> int set" where
  "missing_of si = {0..<si_expected_batch_count si} - si_received_batches si"

definition get_total_missing_batches_count :: "int \<Rightarrow> registry_tree \<Rightarrow> nat \<times> registry_tree" where
  "get_total_missing_batches_count now rt =
     (case get_all_worker_nodes_cached None now rt of
        (ws, rt1) \<Rightarrow>
          (sum_list (map (\<lambda>w. case wn_sync_info (rt_nodes rt1 ! snd w) of None \<Rightarrow> 0
             | Some si \<Rightarrow> if si_state si = FS_SYNCING then card (missing_of si) else 0) ws), rt1))"

definition get_missing_batches :: "string \<Rightarrow> int \<Rightarrow> string \<Rightarrow> registry_tree \<Rightarrow> int list" where
  "get_missing_batches instance_id worker_id sync_id rt =
     (case get_sync_info instance_id worker_id rt of
        None \<Rightarrow> []
      | Some si \<Rightarrow>
          if si_sync_id si \<noteq> sync_id then []
          else if si_state si = FS_COMPLETED then []
          else if si_state si \<noteq> FS_SYNCING then []
          else sorted_list_of_set (missing_of si))"

definition get_sync_status :: "(nat \<Rightarrow> nat \<Rightarrow> real) \<Rightarrow> string \<Rightarrow> int \<Rightarrow> string \<Rightarrow> int \<Rightarrow> full_sync_tracker \<Rightarrow> registry_tree
    \<Rightarrow> (bool \<times> real \<times> bool \<times> int list) \<times> full_sync_tracker \<times> registry_tree" where
  "get_sync_status fdiv instance_id worker_id sync_id now tr rt =
     (let is_complete = (case get_sync_info instance_id worker_id rt of None \<Rightarrow> False
        | Some si \<Rightarrow> si_sync_id si = sync_id \<and> si_state si = FS_COMPLETED)
      in case get_global_progress fdiv now rt of
           (global_progress, rt1) \<Rightarrow>
             (case can_exit_freeze global_progress tr of
                (can_exit, tr1) \<Rightarrow>
                  ((is_complete, global_progress, can_exit, get_missing_batches instance_id worker_id sync_id rt1), tr1, rt1)))"

section \<open>KVController\<close>

record kv_controller =
  kc_token_database :: "int token_db"
  kc_registry :: registry_tree
  kc_full_sync_tracker :: full_sync_tracker

definition kv_controller_init :: "int token_db \<Rightarrow> registry_tree \<Rightarrow> real \<Rightarrow> int \<Rightarrow> kv_controller" where
  "kv_controller_init db rt threshold timeout =
     \<lparr>kc_token_database = db, kc_registry = rt, kc_full_sync_tracker = full_sync_tracker_init threshold timeout\<rparr>"

definition kc_handle_batched_kv_operations :: "kv_batch \<Rightarrow> kv_controller \<Rightarrow> kv_controller" where
  "kc_handle_batched_kv_operations msg kc =
     (if kb_operations msg = [] then kc
      else if is_worker_syncing (kb_instance_id msg) (kb_worker_id msg) (kc_registry kc) then kc
      else kc\<lparr>kc_registry := snd (handle_batched_kv_operations msg False (kc_registry kc))\<rparr>)"

record full_sync_start_msg =
  fss_instance_id :: string
  fss_worker_id :: int
  fss_location :: string
  fss_sync_id :: string
  fss_total_keys :: int
  fss_batch_count :: int

record full_sync_batch_msg =
  fsb_instance_id :: string
  fsb_worker_id :: int
  fsb_location :: string
  fsb_sync_id :: string
  fsb_batch_id :: int
  fsb_keys :: "int list"

record full_sync_end_msg =
  fse_instance_id :: string
  fse_worker_id :: int
  fse_location :: string
  fse_sync_id :: string
  fse_actual_total_keys :: int

text \<open>The reply to a start message is whether it was accepted.\<close>

definition handle_full_sync_start :: "full_sync_start_msg \<Rightarrow> int \<Rightarrow> kv_controller \<Rightarrow> bool \<times> kv_controller" where
  "handle_full_sync_start msg now kc =
     (case start_sync (fss_instance_id msg) (fss_worker_id msg) (fss_sync_id msg) (fss_total_keys msg) (fss_batch_count msg)
             now (kc_registry kc) of
        (success, rt1) \<Rightarrow>
          if \<not> success then (False, kc\<lparr>kc_registry := rt1\<rparr>)
          else let existing_keys = get_worker_kv_keys (fss_instance_id msg) (fss_worker_id msg) (fss_location msg) rt1;
                   rt2 = (if existing_keys \<noteq> {}
                          then snd (clear_worker_kv (fss_instance_id msg) (fss_worker_id msg) (Some (fss_location msg)) rt1) else rt1)
               in (True, kc\<lparr>kc_registry := rt2\<rparr>))"

definition sync_operations :: "int list \<Rightarrow> kv_op list" where
  "sync_operations keys = map (\<lambda>(seq_num, key). \<lparr>ko_op_type = ADMIT, ko_key = key, ko_seq_num = int seq_num\<rparr>) (enumerate 0 keys)"

definition handle_full_sync_batch :: "full_sync_batch_msg \<Rightarrow> int \<Rightarrow> kv_controller \<Rightarrow> kv_controller" where
  "handle_full_sync_batch msg now kc =
     (case receive_batch (fsb_instance_id msg) (fsb_worker_id msg) (fsb_sync_id msg) (fsb_batch_id msg)
             (int (length (fsb_keys msg))) now (kc_registry kc) of
        (recorded, rt1) \<Rightarrow>
          if \<not> recorded then kc\<lparr>kc_registry := rt1\<rparr>
          else let operations = sync_operations (fsb_keys msg);
                   rt2 = (if operations \<noteq> []
                          then snd (handle_batched_kv_operations \<lparr>kb_instance_id = fsb_instance_id msg, kb_worker_id = fsb_worker_id msg,
                                 kb_location = fsb_location msg, kb_operations = operations\<rparr> True rt1) else rt1)
               in kc\<lparr>kc_registry := rt2\<rparr>)"

definition handle_full_sync_end :: "full_sync_end_msg \<Rightarrow> int \<Rightarrow> kv_controller \<Rightarrow> kv_controller" where
  "handle_full_sync_end msg now kc =
     kc\<lparr>kc_registry := snd (complete_sync (fse_instance_id msg) (fse_worker_id msg) (fse_sync_id msg)
          (fse_actual_total_keys msg) now (kc_registry kc))\<rparr>"

definition handle_full_sync_status :: "(nat \<Rightarrow> nat \<Rightarrow> real) \<Rightarrow> string \<Rightarrow> int \<Rightarrow> string \<Rightarrow> int \<Rightarrow> kv_controller
    \<Rightarrow> (bool \<times> real \<times> bool \<times> int list) \<times> kv_controller" where
  "handle_full_sync_status fdiv instance_id worker_id sync_id now kc =
     (case get_sync_status fdiv instance_id worker_id sync_id now (kc_full_sync_tracker kc) (kc_registry kc) of
        (status, tr, rt) \<Rightarrow> (status, kc\<lparr>kc_full_sync_tracker := tr, kc_registry := rt\<rparr>))"

text \<open>lookup: the tokens' chunks in order, until one is found nowhere.\<close>

fun lookup_loop :: "registry_tree \<Rightarrow> (nat \<times> nat \<times> int entry_id) list \<Rightarrow> (string, string \<times> nat) dict
    \<Rightarrow> (string, string \<times> nat) dict" where
  "lookup_loop rt [] layout_info = layout_info"
| "lookup_loop rt ((start_idx, end_idx, key) # items) layout_info =
     (case (case key of HashOf h \<Rightarrow> find_kv h None rt | KeyOf _ _ \<Rightarrow> None) of
        None \<Rightarrow> layout_info
      | Some result \<Rightarrow> lookup_loop rt items (dict_set (ci_instance_id result) (ci_location result, end_idx) layout_info))"

definition kc_lookup :: "int list \<Rightarrow> kv_controller \<Rightarrow> (string, string \<times> nat) dict" where
  "kc_lookup tokens kc =
     lookup_loop (kc_registry kc) (fst (chunked_process_tokens (kc_token_database kc) (Some tokens) None None None False)) []"

definition batched_p2p_lookup :: "string \<Rightarrow> int list \<Rightarrow> kv_controller \<Rightarrow> string \<times> string \<times> nat \<times> string" where
  "batched_p2p_lookup instance_id hashes kc =
     (case hashes of
        [] \<Rightarrow> ([], [], 0, [])
      | h # _ \<Rightarrow>
          (case find_kv_with_worker_info h (Some instance_id) (kc_registry kc) of
             None \<Rightarrow> ([], [], 0, [])
           | Some (kv_info, peer_init_url, current_keys) \<Rightarrow>
               (case peer_init_url of
                  None \<Rightarrow> ([], [], 0, [])
                | Some url \<Rightarrow>
                    let num_hit_chunks = length (takeWhile (\<lambda>key. key \<in> current_keys) hashes)
                    in (ci_instance_id kv_info, ci_location kv_info, num_hit_chunks, url))))"

section \<open>Lemmas\<close>

lemma set_sync_info_worker:
  assumes "registry_ok rt" "set_sync_info i w si rt = (ok, rt')"
  shows "registry_ok rt'" "ok \<longleftrightarrow> get_worker i w rt \<noteq> None" "get_worker j v rt' = get_worker j v rt"
    "get_worker_kv_keys j v l rt' = get_worker_kv_keys j v l rt"
    "get_sync_info j v rt' = (if ok \<and> j = i \<and> v = w then si else get_sync_info j v rt)"
    "rt_instances rt' = rt_instances rt" "length (rt_nodes rt') = length (rt_nodes rt)"
proof -
  have "registry_ok rt' \<and> (ok \<longleftrightarrow> get_worker i w rt \<noteq> None) \<and> get_worker j v rt' = get_worker j v rt \<and>
    get_worker_kv_keys j v l rt' = get_worker_kv_keys j v l rt \<and>
    get_sync_info j v rt' = (if ok \<and> j = i \<and> v = w then si else get_sync_info j v rt) \<and>
    rt_instances rt' = rt_instances rt \<and> length (rt_nodes rt') = length (rt_nodes rt)"
  proof (cases "get_worker i w rt")
    case (Some r)
    let ?f = "\<lambda>n. n\<lparr>wn_sync_info := si\<rparr>"
    note r = get_worker_live [OF assms(1) Some]
    have e: "ok" "rt' = upd_node r ?f rt" using assms(2) Some by (simp_all add: set_sync_info_def)
    have "registry_ok rt'" unfolding e
      by (rule registry_ok_upd_node [OF assms(1) r(1)]) (use r(3) in \<open>simp_all add: node_ok_def\<close>)
    moreover have "get_worker_kv_keys j v l rt' = get_worker_kv_keys j v l rt"
      unfolding e kv_keys_upd_node [OF assms(1) Some] using Some
      by (auto simp: get_worker_kv_keys_def wn_get_kv_keys_def)
    moreover have "get_sync_info j v rt' = (if j = i \<and> v = w then si else get_sync_info j v rt)"
    proof (cases "j = i \<and> v = w")
      case True
      then show ?thesis using Some r(1) by (simp add: e get_sync_info_def upd_node_nth)
    next
      case False
      then have "q \<noteq> r" if "get_worker j v rt = Some q" for q
        using that get_worker_inj [OF assms(1) Some, of j v] by auto
      then show ?thesis using False r(1)
        by (cases "get_worker j v rt") (auto simp: e get_sync_info_def upd_node_nth)
    qed
    ultimately show ?thesis using Some e by simp
  qed (use assms in \<open>auto simp: set_sync_info_def\<close>)
  then show "registry_ok rt'" "ok \<longleftrightarrow> get_worker i w rt \<noteq> None" "get_worker j v rt' = get_worker j v rt"
    "get_worker_kv_keys j v l rt' = get_worker_kv_keys j v l rt"
    "get_sync_info j v rt' = (if ok \<and> j = i \<and> v = w then si else get_sync_info j v rt)"
    "rt_instances rt' = rt_instances rt" "length (rt_nodes rt') = length (rt_nodes rt)"
    by blast+
qed

end
