(* ===== verification/Cluster_Controller.thy ===== *)
theory Cluster_Controller
  imports Full_Sync
begin

text \<open>
  RegistrationController (cache_controller/controllers/registration_controller.py), the dispatch
  of worker messages in controller_manager.py, and the worker's side of a full sync
  (cache_controller/full_sync_sender.py). A history of the controller is a list of messages, each
  with the clock reading at which it is handled; opening a socket is a parameter.
\<close>

section \<open>Registration\<close>

record register_msg =
  rm_instance_id :: string
  rm_worker_id :: int
  rm_ip :: string
  rm_port :: int
  rm_peer_init_url :: "string option"

definition reg_get_socket :: "string \<Rightarrow> int \<Rightarrow> registry_tree \<Rightarrow> nat option" where
  "reg_get_socket instance_id worker_id rt =
     map_option (\<lambda>r. wn_socket (rt_nodes rt ! r)) (get_worker instance_id worker_id rt)"

definition reg_get_peer_init_url :: "string \<Rightarrow> int \<Rightarrow> registry_tree \<Rightarrow> string option" where
  "reg_get_peer_init_url instance_id worker_id rt =
     (case get_worker instance_id worker_id rt of None \<Rightarrow> None | Some r \<Rightarrow> wn_peer_init_url (rt_nodes rt ! r))"

definition reg_get_workers :: "string \<Rightarrow> registry_tree \<Rightarrow> int list" where
  "reg_get_workers instance_id rt = get_worker_ids instance_id rt"

definition reg_get_instance_id :: "string \<Rightarrow> registry_tree \<Rightarrow> string option" where
  "reg_get_instance_id ip rt = map_option in_instance_id (get_instance_by_ip ip rt)"

definition reg_register :: "(string \<Rightarrow> int \<Rightarrow> nat) \<Rightarrow> register_msg \<Rightarrow> int \<Rightarrow> registry_tree \<Rightarrow> registry_tree" where
  "reg_register open_socket msg now rt =
     (case get_worker (rm_instance_id msg) (rm_worker_id msg) rt of
        Some _ \<Rightarrow> snd (clear_worker_kv (rm_instance_id msg) (rm_worker_id msg) None rt)
      | None \<Rightarrow> snd (register_worker (rm_instance_id msg) (rm_worker_id msg) (rm_ip msg) (rm_port msg) (rm_peer_init_url msg)
                  (open_socket (rm_ip msg) (rm_port msg)) now rt))"

definition reg_deregister :: "string \<Rightarrow> int \<Rightarrow> registry_tree \<Rightarrow> registry_tree" where
  "reg_deregister instance_id worker_id rt = snd (deregister_worker instance_id worker_id rt)"

text \<open>The commands of the reply are the reasons of the full syncs it asks for.\<close>

definition reg_heartbeat :: "(string \<Rightarrow> int \<Rightarrow> nat) \<Rightarrow> register_msg \<Rightarrow> int \<Rightarrow> kv_controller \<Rightarrow> string option list \<times> kv_controller" where
  "reg_heartbeat open_socket msg now kc =
     (case update_heartbeat (rm_instance_id msg) (rm_worker_id msg) now (kc_registry kc) of
        (success, rt1) \<Rightarrow>
          if \<not> success then ([Some ''worker_re_registered''], kc\<lparr>kc_registry := reg_register open_socket msg now rt1\<rparr>)
          else (case should_request_full_sync (rm_instance_id msg) (rm_worker_id msg) (kc_full_sync_tracker kc) rt1 of
                  (should_sync, reason) \<Rightarrow> (if should_sync then [reason] else [], kc\<lparr>kc_registry := rt1\<rparr>)))"

definition reg_query_worker_info :: "string \<Rightarrow> int list option \<Rightarrow> int \<Rightarrow> registry_tree \<Rightarrow> worker_info list \<times> registry_tree" where
  "reg_query_worker_info instance_id worker_ids now rt =
     (if instance_id = ''all''
      then (case get_all_worker_infos_cached None now rt of
              (infos, rt1) \<Rightarrow>
                (case worker_ids of
                   None \<Rightarrow> (infos, rt1)
                 | Some ids \<Rightarrow> (if ids = [] then infos else filter (\<lambda>i. wi_worker_id i \<in> set ids) infos, rt1)))
      else case get_instance instance_id rt of
        None \<Rightarrow> ([], rt)
      | Some i \<Rightarrow>
          let ids = (case worker_ids of None \<Rightarrow> in_get_worker_ids i | Some ids \<Rightarrow> if ids = [] then in_get_worker_ids i else ids)
          in (concat (map (\<lambda>w. case in_get_worker w i of None \<Rightarrow> [] | Some r \<Rightarrow> [to_worker_info instance_id (rt_nodes rt ! r)]) ids), rt))"

section \<open>Dispatch\<close>

datatype cluster_msg =
    MRegister register_msg
  | MDeregister string int
  | MBatchedKV kv_batch
  | MSyncStart full_sync_start_msg
  | MSyncBatch full_sync_batch_msg
  | MSyncEnd full_sync_end_msg
  | MSyncStatus string int string
  | MHeartbeat register_msg
  | MP2PLookup string "int list"

datatype cluster_reply =
    NoReply
  | RRegistered
  | RSyncStart bool
  | RSyncStatus bool real bool "int list"
  | RHeartbeat "string option list"
  | RP2PLookup string string nat string

definition handle_message :: "(string \<Rightarrow> int \<Rightarrow> nat) \<Rightarrow> (nat \<Rightarrow> nat \<Rightarrow> real) \<Rightarrow> int \<Rightarrow> cluster_msg \<Rightarrow> kv_controller
    \<Rightarrow> cluster_reply \<times> kv_controller" where
  "handle_message open_socket fdiv now msg kc =
     (case msg of
        MRegister m \<Rightarrow> (RRegistered, kc\<lparr>kc_registry := reg_register open_socket m now (kc_registry kc)\<rparr>)
      | MDeregister i w \<Rightarrow> (NoReply, kc\<lparr>kc_registry := reg_deregister i w (kc_registry kc)\<rparr>)
      | MBatchedKV b \<Rightarrow> (NoReply, kc_handle_batched_kv_operations b kc)
      | MSyncStart m \<Rightarrow> map_prod RSyncStart id (handle_full_sync_start m now kc)
      | MSyncBatch m \<Rightarrow> (NoReply, handle_full_sync_batch m now kc)
      | MSyncEnd m \<Rightarrow> (NoReply, handle_full_sync_end m now kc)
      | MSyncStatus i w a \<Rightarrow>
          (case handle_full_sync_status fdiv i w a now kc of ((c, p, e, bs), kc1) \<Rightarrow> (RSyncStatus c p e bs, kc1))
      | MHeartbeat m \<Rightarrow> map_prod RHeartbeat id (reg_heartbeat open_socket m now kc)
      | MP2PLookup i hashes \<Rightarrow>
          (case batched_p2p_lookup i hashes kc of (j, l, n, u) \<Rightarrow> (RP2PLookup j l n u, kc)))"

definition cluster_run :: "(string \<Rightarrow> int \<Rightarrow> nat) \<Rightarrow> (nat \<Rightarrow> nat \<Rightarrow> real) \<Rightarrow> (int \<times> cluster_msg) list \<Rightarrow> kv_controller \<Rightarrow> kv_controller" where
  "cluster_run open_socket fdiv = fold (\<lambda>(now, msg) kc. snd (handle_message open_socket fdiv now msg kc))"

section \<open>What a message does to one worker\<close>

text \<open>The part of the registry that belongs to a worker.\<close>

definition wview :: "registry_tree \<Rightarrow> string \<times> int \<Rightarrow> bool \<times> worker_sync_info option \<times> (string \<Rightarrow> int set)" where
  "wview rt q = (get_worker (fst q) (snd q) rt \<noteq> None, get_sync_info (fst q) (snd q) rt, (\<lambda>l. get_worker_kv_keys (fst q) (snd q) l rt))"

lemma wview_eqI:
  "get_worker (fst q) (snd q) rt' = get_worker (fst q) (snd q) rt \<Longrightarrow> get_sync_info (fst q) (snd q) rt' = get_sync_info (fst q) (snd q) rt \<Longrightarrow>
   (\<And>l. get_worker_kv_keys (fst q) (snd q) l rt' = get_worker_kv_keys (fst q) (snd q) l rt) \<Longrightarrow> wview rt' q = wview rt q"
  by (simp add: wview_def)

lemma get_sync_info_cong:
  "get_worker i w rt' = get_worker i w rt \<Longrightarrow> (\<And>r. wn_sync_info (rt_nodes rt' ! r) = wn_sync_info (rt_nodes rt ! r)) \<Longrightarrow>
   get_sync_info i w rt' = get_sync_info i w rt"
  by (simp add: get_sync_info_def split: option.splits)

lemma wview_cong:
  assumes "rt_instances rt' = rt_instances rt" "rt_nodes rt' = rt_nodes rt"
  shows "wview rt' q = wview rt q"
  using assms by (intro wview_eqI) (simp_all add: get_worker_eq get_sync_info_def get_worker_kv_keys_def split: option.split)

lemma registered_has_view:
  "get_worker i w rt = None \<Longrightarrow> wview rt (i, w) = (False, None, \<lambda>l. {})"
  by (auto simp: wview_def get_sync_info_def get_worker_kv_keys_def)

lemma wview_clear:
  assumes "registry_ok rt"
  shows "registry_ok (snd (clear_worker_kv i w loc rt)) \<and>
    wview (snd (clear_worker_kv i w loc rt)) q =
      (if q = (i, w) then (case wview rt q of (reg, si, ks) \<Rightarrow> (reg, si, \<lambda>l. if loc = None \<or> loc = Some l then {} else ks l))
       else wview rt q)"
proof -
  obtain ok rt' where c: "clear_worker_kv i w loc rt = (ok, rt')" by (metis surj_pair)
  note r = registry_ok_clear [OF assms c]
  have "get_sync_info j v rt' = get_sync_info j v rt" for j v by (rule get_sync_info_cong [OF r(3) r(6)])
  then show ?thesis using r(1,3,4) by (cases q) (auto simp: c wview_def fun_eq_iff)
qed

lemma wview_batch:
  assumes "registry_ok rt"
  shows "registry_ok (snd (handle_batched_kv_operations msg full rt)) \<and>
    wview (snd (handle_batched_kv_operations msg full rt)) q =
      (if q = (kb_instance_id msg, kb_worker_id msg) \<and> fst (wview rt q) \<and> (full \<or> \<not> is_worker_syncing (fst q) (snd q) rt)
       then (case wview rt q of (reg, si, ks) \<Rightarrow> (reg, si, \<lambda>l. if l = kb_location msg then fold apply_kv_op (kb_operations msg) (ks l) else ks l))
       else wview rt q)"
proof -
  obtain ok rt' where h: "handle_batched_kv_operations msg full rt = (ok, rt')" by (metis surj_pair)
  note r = handle_batched_worker [OF assms h]
  have "get_sync_info j v rt' = get_sync_info j v rt" for j v by (rule get_sync_info_cong [OF r(2) r(4)])
  moreover have "ok \<longleftrightarrow> fst (wview rt (kb_instance_id msg, kb_worker_id msg)) \<and>
      (full \<or> \<not> is_worker_syncing (kb_instance_id msg) (kb_worker_id msg) rt)"
    unfolding r(5) by (auto simp: wview_def is_worker_syncing_def get_sync_info_def wn_syncing_def split: option.splits)
  ultimately show ?thesis using r(1,2,6) by (cases q) (auto simp: h wview_def fun_eq_iff)
qed

lemma wview_set_sync_info:
  assumes "registry_ok rt"
  shows "registry_ok (snd (set_sync_info i w si rt)) \<and>
    wview (snd (set_sync_info i w si rt)) q =
      (if q = (i, w) \<and> fst (wview rt q) then (case wview rt q of (reg, _, ks) \<Rightarrow> (reg, si, ks)) else wview rt q)"
proof -
  obtain ok rt' where h: "set_sync_info i w si rt = (ok, rt')" by (metis surj_pair)
  note r = set_sync_info_worker [OF assms h]
  show ?thesis using r(1-5) by (cases q) (auto simp: h wview_def fun_eq_iff)
qed

lemma wview_heartbeat:
  assumes "registry_ok rt"
  shows "registry_ok (snd (update_heartbeat i w t rt)) \<and> wview (snd (update_heartbeat i w t rt)) q = wview rt q \<and>
    fst (update_heartbeat i w t rt) = fst (wview rt (i, w))"
proof (cases "get_worker i w rt")
  case (Some r)
  let ?f = "\<lambda>n. n\<lparr>wn_last_heartbeat_time := t\<rparr>"
  note r = get_worker_live [OF assms Some]
  have ok: "registry_ok (upd_node r ?f rt)"
    by (rule registry_ok_upd_node [OF assms r(1)]) (use r(3) in \<open>simp_all add: node_ok_def\<close>)
  have "get_worker_kv_keys j v l (upd_node r ?f rt) = get_worker_kv_keys j v l rt" for j v l
    unfolding kv_keys_upd_node [OF assms Some] using Some by (auto simp: get_worker_kv_keys_def wn_get_kv_keys_def)
  moreover have "get_sync_info j v (upd_node r ?f rt) = get_sync_info j v rt" for j v
    by (rule get_sync_info_cong) (use r(1) in \<open>auto simp: upd_node_nth\<close>)
  ultimately show ?thesis using ok Some by (simp add: update_heartbeat_def wview_def)
qed (use assms in \<open>simp add: update_heartbeat_def wview_def\<close>)

lemma wview_register:
  assumes "registry_ok rt"
  shows "registry_ok (reg_register sock m now rt) \<and>
    wview (reg_register sock m now rt) q =
      (if q = (rm_instance_id m, rm_worker_id m) then (True, fst (snd (wview rt q)), \<lambda>l. {}) else wview rt q)"
proof (cases "get_worker (rm_instance_id m) (rm_worker_id m) rt")
  case (Some r)
  then show ?thesis using wview_clear [OF assms, of "rm_instance_id m" "rm_worker_id m" None q]
    by (auto simp: reg_register_def wview_def)
next
  case None
  obtain r rt' where g: "register_worker (rm_instance_id m) (rm_worker_id m) (rm_ip m) (rm_port m) (rm_peer_init_url m)
      (sock (rm_ip m) (rm_port m)) now rt = (r, rt')" by (metis surj_pair)
  note w = register_worker_worker [OF g] and ok = registry_ok_register [OF assms g]
  have old: "rt_nodes rt' ! q = rt_nodes rt ! q" if "get_worker j v rt = Some q" for j v q
    using get_worker_live(1) [OF assms that] by (simp add: w(2) nth_append)
  have new: "rt_nodes rt' ! r = worker_node_new (rm_worker_id m) (rm_ip m) (rm_port m) (rm_peer_init_url m)
      (sock (rm_ip m) (rm_port m)) now" by (simp add: w(1,2))
  have "wview rt' (j, v) = (if (j, v) = (rm_instance_id m, rm_worker_id m) then (True, None, \<lambda>l. {}) else wview rt (j, v))" for j v
    using old [of j v] new
    by (auto simp: wview_def get_sync_info_def get_worker_kv_keys_def w(3) wn_get_kv_keys_def worker_node_new_def
        fun_eq_iff split: option.split)
  then show ?thesis using ok None registered_has_view [OF None] by (cases q) (auto simp: reg_register_def g)
qed

lemma wview_deregister:
  assumes "registry_ok rt"
  shows "registry_ok (reg_deregister i w rt) \<and>
    wview (reg_deregister i w rt) q = (if q = (i, w) then (False, None, \<lambda>l. {}) else wview rt q)"
proof -
  obtain r rt' where g: "deregister_worker i w rt = (r, rt')" by (metis surj_pair)
  note d = deregister_worker_worker [OF assms g]
  have "wview rt' (j, v) = (if (j, v) = (i, w) then (False, None, \<lambda>l. {}) else wview rt (j, v))" for j v
    by (auto simp: wview_def get_sync_info_def get_worker_kv_keys_def d(2,4) fun_eq_iff split: option.split)
  then show ?thesis using d(5) by (cases q) (simp add: reg_deregister_def g)
qed

lemma fresh_nodes_live:
  assumes "registry_ok rt" "(i, r) \<in> set (all_worker_nodes_fresh rt)"
  shows "r < length (rt_nodes rt)"
  using assms by (fastforce simp: all_worker_nodes_fresh_def registry_ok_def instance_ok_def)

lemma wview_nodes_cached:
  assumes "registry_ok rt" "get_all_worker_nodes_cached t now rt = (ws, rt')"
  shows "registry_ok rt'" "wview rt' q = wview rt q" "get_missing_batches i w a rt' = get_missing_batches i w a rt"
    "rt_nodes rt' = rt_nodes rt" "rt_instances rt' = rt_instances rt"
proof -
  have e: "rt_instances rt' = rt_instances rt" "rt_nodes rt' = rt_nodes rt"
    "tc_cache (rt_worker_node_cache rt') = tc_cache (rt_worker_node_cache rt) \<or>
     tc_cache (rt_worker_node_cache rt') = all_worker_nodes_fresh rt"
    using assms(2) by (auto simp: get_all_worker_nodes_cached_def get_cached_def split: prod.splits if_splits)
  show "registry_ok rt'"
    using assms(1) e(3) fresh_nodes_live [OF assms(1)]
    by (intro registry_ok_cong [OF assms(1) e(1,2)]) (auto simp: registry_ok_def)
  show "wview rt' q = wview rt q" "rt_nodes rt' = rt_nodes rt" "rt_instances rt' = rt_instances rt"
    using wview_cong [OF e(1,2)] e by blast+
  have "get_sync_info i w rt' = get_sync_info i w rt" using wview_cong [OF e(1,2), of "(i, w)"] by (simp add: wview_def)
  then show "get_missing_batches i w a rt' = get_missing_batches i w a rt" by (simp add: get_missing_batches_def)
qed

lemma kv_keys_admit: "fold apply_kv_op (sync_operations keys) S = S \<union> set keys"
proof -
  have "fold apply_kv_op (map (\<lambda>(n, key). \<lparr>ko_op_type = ADMIT, ko_key = key, ko_seq_num = int n\<rparr>) (enumerate m keys)) S = S \<union> set keys" for m
    by (induction keys arbitrary: S m) (auto simp: apply_kv_op_def)
  then show ?thesis by (simp add: sync_operations_def)
qed

section \<open>A worker in a full sync\<close>

text \<open>
  The keys and batch numbers a message brings for a worker q in the sync a, and the messages
  that end the sync or restart it.
\<close>

definition sent_keys :: "string \<times> int \<Rightarrow> string \<Rightarrow> string \<Rightarrow> cluster_msg \<Rightarrow> int set" where
  "sent_keys q a l m =
     (case m of MSyncBatch b \<Rightarrow>
        if (fsb_instance_id b, fsb_worker_id b) = q \<and> fsb_sync_id b = a \<and> fsb_location b = l then set (fsb_keys b) else {}
      | _ \<Rightarrow> {})"

definition sent_ids :: "string \<times> int \<Rightarrow> string \<Rightarrow> cluster_msg \<Rightarrow> int set" where
  "sent_ids q a m =
     (case m of MSyncBatch b \<Rightarrow>
        if (fsb_instance_id b, fsb_worker_id b) = q \<and> fsb_sync_id b = a then {fsb_batch_id b} else {}
      | _ \<Rightarrow> {})"

definition closes :: "string \<times> int \<Rightarrow> string \<Rightarrow> cluster_msg \<Rightarrow> bool" where
  "closes q a m =
     (case m of MDeregister i w \<Rightarrow> (i, w) = q
      | MSyncStart s \<Rightarrow> (fss_instance_id s, fss_worker_id s) = q \<and> fss_sync_id s = a
      | MSyncEnd e \<Rightarrow> (fse_instance_id e, fse_worker_id e) = q \<and> fse_sync_id e = a
      | _ \<Rightarrow> False)"

definition registers :: "string \<times> int \<Rightarrow> cluster_msg \<Rightarrow> bool" where
  "registers q m = (case m of MRegister r \<Rightarrow> (rm_instance_id r, rm_worker_id r) = q | _ \<Rightarrow> False)"

lemma wview_modify_sync_info:
  assumes "registry_ok rt" "get_sync_info i w rt = Some si"
  shows "registry_ok (modify_sync_info i w f rt) \<and>
    wview (modify_sync_info i w f rt) q =
      (if q = (i, w) then (case wview rt q of (reg, _, ks) \<Rightarrow> (reg, Some (f si), ks)) else wview rt q)"
proof -
  have "fst (wview rt (i, w))" using assms(2) by (auto simp: wview_def get_sync_info_def split: option.splits)
  then show ?thesis using wview_set_sync_info [OF assms(1), of i w "Some (f si)" q] assms(2)
    by (auto simp: modify_sync_info_def)
qed

definition in_sync :: "string \<Rightarrow> worker_sync_info \<Rightarrow> worker_sync_info \<Rightarrow> int set \<Rightarrow> bool" where
  "in_sync a si si' ids \<longleftrightarrow> si_state si' = FS_SYNCING \<and> si_sync_id si' = a \<and>
     si_expected_batch_count si' = si_expected_batch_count si \<and> si_received_batches si' = si_received_batches si \<union> ids"

lemma wview_sync_start:
  assumes "registry_ok (kc_registry kc)"
  shows "registry_ok (kc_registry (snd (handle_full_sync_start m now kc))) \<and>
    (fst (handle_full_sync_start m now kc) \<longleftrightarrow> fst (wview (kc_registry kc) (fss_instance_id m, fss_worker_id m)) \<and>
      \<not> (\<exists>si. get_sync_info (fss_instance_id m) (fss_worker_id m) (kc_registry kc) = Some si \<and> si_state si = FS_SYNCING \<and>
          si_sync_id si \<noteq> fss_sync_id m)) \<and>
    wview (kc_registry (snd (handle_full_sync_start m now kc))) q =
      (if q = (fss_instance_id m, fss_worker_id m) \<and> fst (handle_full_sync_start m now kc)
       then (case wview (kc_registry kc) q of (reg, _, ks) \<Rightarrow> (reg,
          Some (worker_sync_info_new (fss_sync_id m) FS_SYNCING now (fss_total_keys m) (fss_batch_count m) now),
          \<lambda>l. if l = fss_location m then {} else ks l))
       else wview (kc_registry kc) q)"
proof -
  let ?i = "fss_instance_id m" and ?w = "fss_worker_id m" and ?rt = "kc_registry kc"
  let ?si = "worker_sync_info_new (fss_sync_id m) FS_SYNCING now (fss_total_keys m) (fss_batch_count m) now"
  let ?busy = "\<exists>si. get_sync_info ?i ?w ?rt = Some si \<and> si_state si = FS_SYNCING \<and> si_sync_id si \<noteq> fss_sync_id m"
  have busy: "(case get_sync_info ?i ?w ?rt of None \<Rightarrow> False
      | Some existing \<Rightarrow> si_state existing = FS_SYNCING \<and> si_sync_id existing \<noteq> fss_sync_id m) \<longleftrightarrow> ?busy"
    by (auto split: option.splits)
  obtain ok rt1 where s: "set_sync_info ?i ?w (Some ?si) ?rt = (ok, rt1)" by (metis surj_pair)
  note v = wview_set_sync_info [OF assms, of ?i ?w "Some ?si"] and r = set_sync_info_worker [OF assms s]
  have rt1: "registry_ok rt1" "wview rt1 q = (if q = (?i, ?w) \<and> fst (wview ?rt q)
      then (case wview ?rt q of (reg, _, ks) \<Rightarrow> (reg, Some ?si, ks)) else wview ?rt q)" for q
    using v s by auto
  have ok: "ok \<longleftrightarrow> fst (wview ?rt (?i, ?w))" using r(2) by (simp add: wview_def)
  note c = wview_clear [OF rt1(1), of ?i ?w "Some (fss_location m)"]
  have keys: "(\<lambda>l. if l = fss_location m then {} else ks l) = ks" if "ks (fss_location m) = {}" for ks :: "string \<Rightarrow> int set"
    using that by (simp add: fun_eq_iff)
  have k: "get_worker_kv_keys ?i ?w (fss_location m) rt1 = snd (snd (wview rt1 (?i, ?w))) (fss_location m)"
    by (simp add: wview_def)
  show ?thesis
  proof (cases "?busy \<or> \<not> ok")
    case True
    have "handle_full_sync_start m now kc = (False, kc\<lparr>kc_registry := if ?busy then ?rt else rt1\<rparr>)"
      using True s busy by (auto simp: handle_full_sync_start_def start_sync_def)
    then show ?thesis using True assms ok rt1 by auto
  next
    case False
    then have "handle_full_sync_start m now kc = (True, kc\<lparr>kc_registry :=
        if get_worker_kv_keys ?i ?w (fss_location m) rt1 \<noteq> {} then snd (clear_worker_kv ?i ?w (Some (fss_location m)) rt1) else rt1\<rparr>)"
      using s busy by (auto simp: handle_full_sync_start_def start_sync_def Let_def)
    then show ?thesis using False ok rt1 c k keys [of "snd (snd (wview ?rt (?i, ?w)))"]
      by (auto split: prod.splits simp: fun_eq_iff)
  qed
qed

lemma wview_sync_batch:
  assumes "registry_ok (kc_registry kc)"
  shows "registry_ok (kc_registry (handle_full_sync_batch m now kc)) \<and>
    wview (kc_registry (handle_full_sync_batch m now kc)) q =
      (case wview (kc_registry kc) q of (reg, si, ks) \<Rightarrow>
        (case si of None \<Rightarrow> wview (kc_registry kc) q
         | Some x \<Rightarrow> if q = (fsb_instance_id m, fsb_worker_id m) \<and> si_sync_id x = fsb_sync_id m \<and> si_state x = FS_SYNCING
             then (reg, Some (x\<lparr>si_received_batches := insert (fsb_batch_id m) (si_received_batches x),
                 si_received_keys_count := si_received_keys_count x + int (length (fsb_keys m)), si_last_activity_time := now\<rparr>),
               \<lambda>l. if l = fsb_location m then ks l \<union> set (fsb_keys m) else ks l)
             else wview (kc_registry kc) q))"
proof -
  let ?i = "fsb_instance_id m" and ?w = "fsb_worker_id m" and ?rt = "kc_registry kc"
  show ?thesis
  proof (cases "\<exists>x. get_sync_info ?i ?w ?rt = Some x \<and> si_sync_id x = fsb_sync_id m \<and> si_state x = FS_SYNCING")
    case True
    then obtain x where x: "get_sync_info ?i ?w ?rt = Some x" "si_sync_id x = fsb_sync_id m" "si_state x = FS_SYNCING" by blast
    let ?f = "\<lambda>x. x\<lparr>si_received_batches := insert (fsb_batch_id m) (si_received_batches x),
       si_received_keys_count := si_received_keys_count x + int (length (fsb_keys m)), si_last_activity_time := now\<rparr>"
    let ?rt1 = "modify_sync_info ?i ?w ?f ?rt"
    let ?b = "\<lparr>kb_instance_id = ?i, kb_worker_id = ?w, kb_location = fsb_location m, kb_operations = sync_operations (fsb_keys m)\<rparr>"
    have h: "handle_full_sync_batch m now kc = kc\<lparr>kc_registry :=
        if sync_operations (fsb_keys m) \<noteq> [] then snd (handle_batched_kv_operations ?b True ?rt1) else ?rt1\<rparr>"
      using x by (simp add: handle_full_sync_batch_def receive_batch_def Let_def)
    have rt1: "registry_ok ?rt1" "wview ?rt1 q =
        (if q = (?i, ?w) then (case wview ?rt q of (reg, _, ks) \<Rightarrow> (reg, Some (?f x), ks)) else wview ?rt q)" for q
      using wview_modify_sync_info [OF assms x(1)] by blast+
    obtain ks where reg: "wview ?rt (?i, ?w) = (True, Some x, ks)"
      using x(1) by (auto simp: wview_def get_sync_info_def split: option.splits)
    have empty: "sync_operations (fsb_keys m) = [] \<longleftrightarrow> fsb_keys m = []"
      by (cases "fsb_keys m") (simp_all add: sync_operations_def)
    note b = wview_batch [OF rt1(1), of ?b True]
    have other: "q \<noteq> (?i, ?w) \<Longrightarrow> wview (kc_registry (handle_full_sync_batch m now kc)) q = wview ?rt q"
      using b rt1(2) [of q] by (auto simp: h)
    have same: "wview (kc_registry (handle_full_sync_batch m now kc)) (?i, ?w) =
        (True, Some (?f x), \<lambda>l. if l = fsb_location m then ks l \<union> set (fsb_keys m) else ks l)"
      using b [of "(?i, ?w)"] rt1(2) [of "(?i, ?w)"] reg empty by (auto simp: h kv_keys_admit fun_eq_iff split: prod.splits)
    have ok: "registry_ok (kc_registry (handle_full_sync_batch m now kc))" using b rt1(1) by (auto simp: h)
    show ?thesis
    proof (cases "q = (?i, ?w)")
      case True
      then show ?thesis using same reg x ok by (auto split: prod.splits)
    next
      case False
      then show ?thesis using other ok by (auto split: prod.splits option.splits)
    qed
  next
    case False
    then have h: "handle_full_sync_batch m now kc = kc"
      by (auto simp: handle_full_sync_batch_def receive_batch_def split: option.splits)
    have "fst (snd (wview ?rt (?i, ?w))) = get_sync_info ?i ?w ?rt" by (simp add: wview_def)
    then show ?thesis using False assms unfolding h by (auto split: prod.splits option.splits)
  qed
qed

lemma wview_sync_end:
  assumes "registry_ok (kc_registry kc)"
  shows "registry_ok (kc_registry (handle_full_sync_end m now kc)) \<and>
    wview (kc_registry (handle_full_sync_end m now kc)) q =
      (case wview (kc_registry kc) q of (reg, si, ks) \<Rightarrow>
        (case si of None \<Rightarrow> wview (kc_registry kc) q
         | Some x \<Rightarrow> if q = (fse_instance_id m, fse_worker_id m) \<and> si_sync_id x = fse_sync_id m
             then (reg, Some (x\<lparr>si_state := FS_COMPLETED, si_last_activity_time := now\<rparr>), ks)
             else wview (kc_registry kc) q))"
proof -
  let ?i = "fse_instance_id m" and ?w = "fse_worker_id m" and ?rt = "kc_registry kc"
  show ?thesis
  proof (cases "\<exists>x. get_sync_info ?i ?w ?rt = Some x \<and> si_sync_id x = fse_sync_id m")
    case True
    then obtain x where x: "get_sync_info ?i ?w ?rt = Some x" "si_sync_id x = fse_sync_id m" by blast
    obtain ks where reg: "wview ?rt (?i, ?w) = (True, Some x, ks)"
      using x(1) by (auto simp: wview_def get_sync_info_def split: option.splits)
    show ?thesis
      using wview_modify_sync_info [OF assms x(1), of "\<lambda>x. x\<lparr>si_state := FS_COMPLETED, si_last_activity_time := now\<rparr>" q] x reg
      by (auto simp: handle_full_sync_end_def complete_sync_def split: prod.splits option.splits)
  next
    case False
    then have h: "handle_full_sync_end m now kc = kc"
      by (auto simp: handle_full_sync_end_def complete_sync_def split: option.splits)
    have "fst (snd (wview ?rt (?i, ?w))) = get_sync_info ?i ?w ?rt" by (simp add: wview_def)
    then show ?thesis using False assms unfolding h by (auto split: prod.splits option.splits)
  qed
qed

lemma wview_status:
  assumes "registry_ok (kc_registry kc)"
  shows "registry_ok (kc_registry (snd (handle_full_sync_status fdiv i w a now kc)))"
    "wview (kc_registry (snd (handle_full_sync_status fdiv i w a now kc))) q = wview (kc_registry kc) q"
    "fst (fst (handle_full_sync_status fdiv i w a now kc)) =
      (case get_sync_info i w (kc_registry kc) of None \<Rightarrow> False | Some si \<Rightarrow> si_sync_id si = a \<and> si_state si = FS_COMPLETED)"
    "snd (snd (snd (fst (handle_full_sync_status fdiv i w a now kc)))) = get_missing_batches i w a (kc_registry kc)"
proof -
  obtain ws rt' where c: "get_all_worker_nodes_cached None now (kc_registry kc) = (ws, rt')" by (metis surj_pair)
  note n = wview_nodes_cached [OF assms c]
  obtain p where p: "get_global_progress fdiv now (kc_registry kc) = (p, rt')"
    by (cases "ws = []") (auto simp: get_global_progress_def c Let_def)
  obtain e tr where e: "can_exit_freeze p (kc_full_sync_tracker kc) = (e, tr)" by (metis surj_pair)
  have s: "handle_full_sync_status fdiv i w a now kc =
      ((case get_sync_info i w (kc_registry kc) of None \<Rightarrow> False | Some si \<Rightarrow> si_sync_id si = a \<and> si_state si = FS_COMPLETED,
        p, e, get_missing_batches i w a (kc_registry kc)),
       kc\<lparr>kc_full_sync_tracker := tr, kc_registry := rt'\<rparr>)"
    using n(3) [of i w a] by (simp add: handle_full_sync_status_def get_sync_status_def p e Let_def)
  show "registry_ok (kc_registry (snd (handle_full_sync_status fdiv i w a now kc)))"
    "wview (kc_registry (snd (handle_full_sync_status fdiv i w a now kc))) q = wview (kc_registry kc) q"
    "fst (fst (handle_full_sync_status fdiv i w a now kc)) =
      (case get_sync_info i w (kc_registry kc) of None \<Rightarrow> False | Some si \<Rightarrow> si_sync_id si = a \<and> si_state si = FS_COMPLETED)"
    "snd (snd (snd (fst (handle_full_sync_status fdiv i w a now kc)))) = get_missing_batches i w a (kc_registry kc)"
    using n(1,2) by (simp_all add: s)
qed

lemma handle_message_registry_ok:
  assumes "registry_ok (kc_registry kc)"
  shows "registry_ok (kc_registry (snd (handle_message sock fdiv now m kc)))"
proof (cases m)
  case (MSyncStatus i w a)
  then show ?thesis using wview_status(1) [OF assms] by (simp add: handle_message_def split: prod.split) (metis snd_conv)
next
  case (MHeartbeat r)
  then show ?thesis using wview_heartbeat [OF assms] wview_register
    by (auto simp: handle_message_def reg_heartbeat_def split: prod.splits) (metis snd_conv)+
qed (use assms wview_register [OF assms] wview_deregister [OF assms] wview_batch [OF assms] wview_sync_start [OF assms]
    wview_sync_batch [OF assms] wview_sync_end [OF assms] in
    \<open>auto simp: handle_message_def kc_handle_batched_kv_operations_def split: prod.splits\<close>)

lemma syncing_step:
  assumes ok: "registry_ok (kc_registry kc)" and v: "wview (kc_registry kc) q = (True, Some si, ks)"
    and s: "si_state si = FS_SYNCING" "si_sync_id si = a" and c: "\<not> closes q a m"
  shows "\<exists>si'. wview (kc_registry (snd (handle_message sock fdiv now m kc))) q =
      (True, Some si', \<lambda>l. if registers q m then {} else ks l \<union> sent_keys q a l m) \<and> in_sync a si si' (sent_ids q a m)"
proof -
  have g: "get_sync_info (fst q) (snd q) (kc_registry kc) = Some si" using v by (simp add: wview_def)
  have idle: "in_sync a si si {}" using s by (simp add: in_sync_def)
  note d = handle_message_def sent_keys_def sent_ids_def registers_def closes_def
  have quiet: ?thesis if "wview (kc_registry (snd (handle_message sock fdiv now m kc))) q = wview (kc_registry kc) q"
    "\<forall>l. sent_keys q a l m = {}" "sent_ids q a m = {}" "\<not> registers q m"
    using that v idle by (intro exI [of _ si]) simp
  show ?thesis
  proof (cases m)
    case (MRegister r)
    then show ?thesis using wview_register [OF ok, of sock r now q] v idle
      by (intro exI [of _ si]) (auto simp: d)
  next
    case (MDeregister i w)
    then show ?thesis using wview_deregister [OF ok, of i w q] c by (intro quiet) (auto simp: d)
  next
    case (MBatchedKV b)
    have "is_worker_syncing (fst q) (snd q) (kc_registry kc)" using g s by (simp add: is_worker_syncing_def)
    then show ?thesis using wview_batch [OF ok, of b False q] MBatchedKV
      by (intro quiet) (auto simp: d kc_handle_batched_kv_operations_def)
  next
    case (MSyncStart m')
    have "\<not> fst (handle_full_sync_start m' now kc)" if "q = (fss_instance_id m', fss_worker_id m')"
      using wview_sync_start [OF ok, of m' now q] that c g s MSyncStart by (auto simp: d)
    then show ?thesis using wview_sync_start [OF ok, of m' now q] MSyncStart by (intro quiet) (auto simp: d)
  next
    case (MSyncBatch b)
    let ?mine = "q = (fsb_instance_id b, fsb_worker_id b) \<and> fsb_sync_id b = a"
    show ?thesis
    proof (cases ?mine)
      case True
      let ?si = "si\<lparr>si_received_batches := insert (fsb_batch_id b) (si_received_batches si),
        si_received_keys_count := si_received_keys_count si + int (length (fsb_keys b)), si_last_activity_time := now\<rparr>"
      have "wview (kc_registry (handle_full_sync_batch b now kc)) q =
          (True, Some ?si, \<lambda>l. if l = fsb_location b then ks l \<union> set (fsb_keys b) else ks l)"
        using wview_sync_batch [OF ok, of b now q] v s True by simp
      moreover have "(\<lambda>l. if l = fsb_location b then ks l \<union> set (fsb_keys b) else ks l) = (\<lambda>l. ks l \<union> sent_keys q a l m)"
        using True MSyncBatch by (auto simp: sent_keys_def fun_eq_iff)
      moreover have "in_sync a si ?si (sent_ids q a m)" using True MSyncBatch s by (auto simp: in_sync_def sent_ids_def)
      ultimately show ?thesis using MSyncBatch by (intro exI [of _ ?si]) (simp add: handle_message_def registers_def)
    next
      case False
      then show ?thesis using wview_sync_batch [OF ok, of b now q] MSyncBatch v s by (intro quiet) (auto simp: d)
    qed
  next
    case (MSyncEnd e)
    then show ?thesis using wview_sync_end [OF ok, of e now q] v s c by (intro quiet) (auto simp: d)
  next
    case (MSyncStatus i w b)
    have "snd (handle_message sock fdiv now m kc) = snd (handle_full_sync_status fdiv i w b now kc)"
      using MSyncStatus by (simp add: handle_message_def split: prod.split)
    then show ?thesis using wview_status(2) [OF ok, of fdiv i w b now q] MSyncStatus by (intro quiet) (auto simp: d)
  next
    case (MHeartbeat r)
    let ?rt1 = "snd (update_heartbeat (rm_instance_id r) (rm_worker_id r) now (kc_registry kc))"
    note h = wview_heartbeat [OF ok, of "rm_instance_id r" "rm_worker_id r" now]
    have "kc_registry (snd (handle_message sock fdiv now m kc)) =
        (if fst (wview (kc_registry kc) (rm_instance_id r, rm_worker_id r)) then ?rt1 else reg_register sock r now ?rt1)"
      using MHeartbeat h by (auto simp: handle_message_def reg_heartbeat_def split: prod.split)
    then have "wview (kc_registry (snd (handle_message sock fdiv now m kc))) q = wview (kc_registry kc) q"
      using h wview_register [of ?rt1 sock r now q] v by auto
    then show ?thesis using MHeartbeat by (intro quiet) (auto simp: d)
  next
    case (MP2PLookup i hs)
    then show ?thesis by (intro quiet) (auto simp: d split: prod.splits)
  qed
qed

lemma cluster_run_registry_ok:
  "registry_ok (kc_registry kc) \<Longrightarrow> registry_ok (kc_registry (cluster_run sock fdiv h kc))"
proof (induction h arbitrary: kc)
  case (Cons x h)
  then show ?case using handle_message_registry_ok by (cases x) (simp add: cluster_run_def)
qed (simp add: cluster_run_def)

lemma in_sync_trans: "in_sync a si si' I \<Longrightarrow> in_sync a si' si'' J \<Longrightarrow> in_sync a si si'' (I \<union> J)"
  by (auto simp: in_sync_def)

lemma syncing_run:
  assumes "registry_ok (kc_registry kc)" "wview (kc_registry kc) q = (True, Some si, ks)"
    and "si_state si = FS_SYNCING" "si_sync_id si = a" "\<forall>m \<in> snd ` set h. \<not> closes q a m"
  shows "\<exists>si' ks'. wview (kc_registry (cluster_run sock fdiv h kc)) q = (True, Some si', ks') \<and>
    in_sync a si si' (\<Union>m \<in> snd ` set h. sent_ids q a m) \<and>
    (\<forall>l. ks' l \<subseteq> ks l \<union> (\<Union>m \<in> snd ` set h. sent_keys q a l m)) \<and>
    ((\<forall>m \<in> snd ` set h. \<not> registers q m) \<longrightarrow> (\<forall>l. ks' l = ks l \<union> (\<Union>m \<in> snd ` set h. sent_keys q a l m)))"
  using assms
proof (induction h arbitrary: kc si ks)
  case (Cons x h)
  obtain now m where x: "x = (now, m)" by (cases x)
  let ?kc1 = "snd (handle_message sock fdiv now m kc)"
  have c: "\<not> closes q a m" using Cons.prems(5) x by auto
  obtain si1 where s1: "wview (kc_registry ?kc1) q = (True, Some si1, \<lambda>l. if registers q m then {} else ks l \<union> sent_keys q a l m)"
    "in_sync a si si1 (sent_ids q a m)"
    using syncing_step [OF Cons.prems(1-4) c] by blast
  have ok: "registry_ok (kc_registry ?kc1)" by (rule handle_message_registry_ok [OF Cons.prems(1)])
  have st: "si_state si1 = FS_SYNCING" "si_sync_id si1 = a" using s1(2) by (simp_all add: in_sync_def)
  have "\<forall>m \<in> snd ` set h. \<not> closes q a m" using Cons.prems(5) by simp
  from Cons.IH [OF ok s1(1) st this] obtain si' ks' where r:
    "wview (kc_registry (cluster_run sock fdiv h ?kc1)) q = (True, Some si', ks')"
    "in_sync a si1 si' (\<Union>m \<in> snd ` set h. sent_ids q a m)"
    "\<forall>l. ks' l \<subseteq> (if registers q m then {} else ks l \<union> sent_keys q a l m) \<union> (\<Union>m \<in> snd ` set h. sent_keys q a l m)"
    "(\<forall>m \<in> snd ` set h. \<not> registers q m) \<longrightarrow> (\<forall>l. ks' l =
      (if registers q m then {} else ks l \<union> sent_keys q a l m) \<union> (\<Union>m \<in> snd ` set h. sent_keys q a l m))" by blast
  have run: "cluster_run sock fdiv (x # h) kc = cluster_run sock fdiv h ?kc1" by (simp add: cluster_run_def x)
  have "in_sync a si si' (\<Union>m \<in> snd ` set (x # h). sent_ids q a m)" using in_sync_trans [OF s1(2) r(2)] by (simp add: x)
  moreover have "\<forall>l. ks' l \<subseteq> ks l \<union> (\<Union>m \<in> snd ` set (x # h). sent_keys q a l m)"
    using r(3) by (auto simp: x split: if_splits)
  moreover have "(\<forall>m \<in> snd ` set (x # h). \<not> registers q m) \<longrightarrow>
      (\<forall>l. ks' l = ks l \<union> (\<Union>m \<in> snd ` set (x # h). sent_keys q a l m))"
    using r(4) by (auto simp: x)
  ultimately show ?case using r(1) unfolding run by blast
qed (simp add: cluster_run_def in_sync_def)

section \<open>The worker's side\<close>

record sync_sender =
  ss_instance_id :: string
  ss_worker_id :: int
  ss_location :: string
  ss_batch_size :: nat
  ss_max_retry_count :: nat
  ss_max_poll_attempts :: nat
  ss_is_syncing :: bool

definition sync_batch_count :: "nat \<Rightarrow> 'b list \<Rightarrow> nat" where
  "sync_batch_count batch_size keys = max ((length keys + batch_size - 1) div batch_size) 1"

definition batch_keys :: "nat \<Rightarrow> int list \<Rightarrow> nat \<Rightarrow> int list" where
  "batch_keys batch_size keys batch_id =
     (let start_idx = batch_id * batch_size; end_idx = min (start_idx + batch_size) (length keys)
      in py_slice_nat start_idx end_idx keys)"

definition sync_start_message :: "sync_sender \<Rightarrow> string \<Rightarrow> int list \<Rightarrow> cluster_msg" where
  "sync_start_message s sync_id keys =
     MSyncStart \<lparr>fss_instance_id = ss_instance_id s, fss_worker_id = ss_worker_id s, fss_location = ss_location s,
       fss_sync_id = sync_id, fss_total_keys = int (length keys), fss_batch_count = int (sync_batch_count (ss_batch_size s) keys)\<rparr>"

definition send_sync_batch :: "sync_sender \<Rightarrow> string \<Rightarrow> int list \<Rightarrow> nat \<Rightarrow> cluster_msg" where
  "send_sync_batch s sync_id keys batch_id =
     MSyncBatch \<lparr>fsb_instance_id = ss_instance_id s, fsb_worker_id = ss_worker_id s, fsb_location = ss_location s,
       fsb_sync_id = sync_id, fsb_batch_id = int batch_id, fsb_keys = batch_keys (ss_batch_size s) keys batch_id\<rparr>"

definition send_sync_end :: "sync_sender \<Rightarrow> string \<Rightarrow> int list \<Rightarrow> cluster_msg" where
  "send_sync_end s sync_id keys =
     MSyncEnd \<lparr>fse_instance_id = ss_instance_id s, fse_worker_id = ss_worker_id s, fse_location = ss_location s,
       fse_sync_id = sync_id, fse_actual_total_keys = int (length keys)\<rparr>"

definition send_key_batches :: "sync_sender \<Rightarrow> string \<Rightarrow> int list \<Rightarrow> cluster_msg list" where
  "send_key_batches s sync_id keys =
     map (send_sync_batch s sync_id keys) [0..<sync_batch_count (ss_batch_size s) keys] @ [send_sync_end s sync_id keys]"

definition resend_missing_batches :: "sync_sender \<Rightarrow> string \<Rightarrow> int list \<Rightarrow> int list \<Rightarrow> cluster_msg list" where
  "resend_missing_batches s sync_id keys missing_batches = map (\<lambda>b. send_sync_batch s sync_id keys (nat b)) missing_batches"

text \<open>The replies of the controller, in order: None is a failed request, and a missing reply is one.\<close>

fun start_attempts :: "nat \<Rightarrow> bool option list \<Rightarrow> bool \<times> nat" where
  "start_attempts 0 replies = (False, 0)"
| "start_attempts (Suc n) [] = map_prod id Suc (start_attempts n [])"
| "start_attempts (Suc n) (r # replies) =
     (if r = Some True then (True, 1) else map_prod id Suc (start_attempts n replies))"

fun poll_loop :: "sync_sender \<Rightarrow> string \<Rightarrow> int list \<Rightarrow> nat \<Rightarrow> nat \<Rightarrow> (bool \<times> int list) option list \<Rightarrow> bool \<times> cluster_msg list" where
  "poll_loop s sync_id keys resend_count 0 statuses = (False, [])"
| "poll_loop s sync_id keys resend_count (Suc n) [] = poll_loop s sync_id keys resend_count n []"
| "poll_loop s sync_id keys resend_count (Suc n) (None # statuses) = poll_loop s sync_id keys resend_count n statuses"
| "poll_loop s sync_id keys resend_count (Suc n) (Some (can_exit, missing) # statuses) =
     (if can_exit then (True, [])
      else if missing \<noteq> [] \<and> resend_count < ss_max_retry_count s
      then map_prod id (\<lambda>ms. resend_missing_batches s sync_id keys missing @ [send_sync_end s sync_id keys] @ ms)
             (poll_loop s sync_id keys (Suc resend_count) n statuses)
      else poll_loop s sync_id keys resend_count n statuses)"

text \<open>start_full_sync: its result, the messages it sends and the calls of the engine's freeze.\<close>

definition start_full_sync :: "sync_sender \<Rightarrow> string \<Rightarrow> int list \<Rightarrow> bool option list \<Rightarrow> (bool \<times> int list) option list
    \<Rightarrow> bool \<times> cluster_msg list \<times> bool list" where
  "start_full_sync s sync_id keys replies statuses =
     (if ss_is_syncing s then (False, [], [])
      else case start_attempts (ss_max_retry_count s) replies of
             (accepted, attempts) \<Rightarrow>
               let starts = replicate attempts (sync_start_message s sync_id keys)
               in if \<not> accepted then (False, starts, [True, False])
                  else case poll_loop s sync_id keys 0 (ss_max_poll_attempts s) statuses of
                         (_, resent) \<Rightarrow> (True, starts @ send_key_batches s sync_id keys @ resent, [True, False]))"

lemma in_slice:
  assumes "st \<le> i" "i < st + bs" "i < length keys"
  shows "keys ! i \<in> set (py_slice_nat st (min (st + bs) (length keys)) keys)"
proof -
  have "py_slice_nat st (min (st + bs) (length keys)) keys ! (i - st) = keys ! i"
    using assms unfolding py_slice_nat_def by (subst nth_drop) simp_all
  moreover have "i - st < length (py_slice_nat st (min (st + bs) (length keys)) keys)"
    using assms by (simp add: py_slice_nat_def min_def, linarith)
  ultimately show ?thesis using nth_mem by metis
qed

lemma batches_cover:
  assumes "0 < bs"
  shows "(\<Union>b < sync_batch_count bs keys. set (batch_keys bs keys b)) = set keys"
proof
  show "(\<Union>b < sync_batch_count bs keys. set (batch_keys bs keys b)) \<subseteq> set keys"
    by (auto simp: batch_keys_def py_slice_nat_def Let_def dest: in_set_dropD in_set_takeD)
  show "set keys \<subseteq> (\<Union>b < sync_batch_count bs keys. set (batch_keys bs keys b))"
  proof
    fix x assume "x \<in> set keys"
    then obtain i where i: "i < length keys" "keys ! i = x" by (auto simp: in_set_conv_nth)
    let ?b = "i div bs"
    have le: "?b * bs \<le> i" "i < ?b * bs + bs"
      using dividend_less_times_div [OF assms, of i] by (simp_all add: div_times_less_eq_dividend mult.commute)
    have "?b < (length keys + bs - 1) div bs"
    proof -
      have "?b * bs + bs \<le> length keys + bs - 1" using le(1) i(1) by linarith
      then have "(?b * bs + bs) div bs \<le> (length keys + bs - 1) div bs" by (rule div_le_mono)
      then show ?thesis using assms by simp
    qed
    then have "?b < sync_batch_count bs keys" by (simp add: sync_batch_count_def)
    moreover have "x \<in> set (batch_keys bs keys ?b)"
      using in_slice [OF le i(1)] i(2) by (simp add: batch_keys_def Let_def)
    ultimately show "x \<in> (\<Union>b < sync_batch_count bs keys. set (batch_keys bs keys b))" by blast
  qed
qed

lemma get_sync_info_wview: "wview rt (i, w) = (reg, si, ks) \<Longrightarrow> get_sync_info i w rt = si \<and> get_worker_kv_keys i w l rt = ks l"
  by (auto simp: wview_def)

text \<open>A history in which the sender's sync goes on: its batches are the sender's.\<close>

definition sync_goes_on :: "sync_sender \<Rightarrow> string \<Rightarrow> int list \<Rightarrow> (int \<times> cluster_msg) list \<Rightarrow> bool" where
  "sync_goes_on s a keys h \<longleftrightarrow>
     (\<forall>m \<in> snd ` set h. \<not> closes (ss_instance_id s, ss_worker_id s) a m \<and> \<not> registers (ss_instance_id s, ss_worker_id s) m \<and>
        (sent_ids (ss_instance_id s, ss_worker_id s) a m \<noteq> {} \<longrightarrow>
          (\<exists>b < sync_batch_count (ss_batch_size s) keys. m = send_sync_batch s a keys b)))"

definition delivered :: "sync_sender \<Rightarrow> string \<Rightarrow> (int \<times> cluster_msg) list \<Rightarrow> int set" where
  "delivered s a h = (\<Union>m \<in> snd ` set h. sent_ids (ss_instance_id s, ss_worker_id s) a m)"

lemma sent_of_send:
  "sent_ids (ss_instance_id s, ss_worker_id s) a (send_sync_batch s a keys b) = {int b}"
  "sent_keys (ss_instance_id s, ss_worker_id s) a l (send_sync_batch s a keys b) =
    (if l = ss_location s then set (batch_keys (ss_batch_size s) keys b) else {})"
  by (auto simp: send_sync_batch_def sent_ids_def sent_keys_def)

lemma sent_keys_ids: "sent_ids q a m = {} \<Longrightarrow> sent_keys q a l m = {}"
  by (auto simp: sent_ids_def sent_keys_def split: cluster_msg.splits if_splits)

lemma sync_goes_on_sent:
  assumes "sync_goes_on s a keys h"
  shows "(\<Union>m \<in> snd ` set h. sent_keys (ss_instance_id s, ss_worker_id s) a l m) =
      (if l = ss_location s then (\<Union>b \<in> delivered s a h. set (batch_keys (ss_batch_size s) keys (nat b))) else {})"
    and "delivered s a h \<subseteq> {0..<int (sync_batch_count (ss_batch_size s) keys)}"
proof -
  let ?q = "(ss_instance_id s, ss_worker_id s)"
  have own: "sent_ids ?q a m = {} \<or> (\<exists>b < sync_batch_count (ss_batch_size s) keys. m = send_sync_batch s a keys b)"
    if "m \<in> snd ` set h" for m
    using assms that unfolding sync_goes_on_def by blast
  then show "delivered s a h \<subseteq> {0..<int (sync_batch_count (ss_batch_size s) keys)}"
    unfolding delivered_def by (fastforce simp: sent_of_send)
  have "sent_keys ?q a l m = (if l = ss_location s then (\<Union>b \<in> sent_ids ?q a m. set (batch_keys (ss_batch_size s) keys (nat b))) else {})"
    if "m \<in> snd ` set h" for m
    using own [OF that] sent_keys_ids [of ?q a m l] by (auto simp: sent_of_send)
  then show "(\<Union>m \<in> snd ` set h. sent_keys ?q a l m) =
      (if l = ss_location s then (\<Union>b \<in> delivered s a h. set (batch_keys (ss_batch_size s) keys (nat b))) else {})"
    unfolding delivered_def by simp
qed

section \<open>Properties\<close>

text \<open>C14: A full sync rebuilds what the controller knows of the worker. After an accepted start, and
  whatever else the controller handles meanwhile (operations of the same worker, which it drops,
  and messages of others), the keys known at the worker's location are those of the batches that
  arrived, in any order and any number of times; the batches still missing are what the status
  query reports; and once none is missing the keys are exactly those of the worker's cache.
  The other locations of the worker are as before.\<close>
theorem full_sync_rebuilds_the_cache:
  assumes ok: "registry_ok (kc_registry kc)" and bs: "0 < ss_batch_size s"
    and start: "handle_message sock fdiv t0 (sync_start_message s a keys) kc = (RSyncStart True, kc0)"
    and h: "sync_goes_on s a keys h"
  defines "rt \<equiv> kc_registry (cluster_run sock fdiv h kc0)" and "i \<equiv> ss_instance_id s" and "w \<equiv> ss_worker_id s"
    and "n \<equiv> sync_batch_count (ss_batch_size s) keys"
  shows "get_missing_batches i w a rt = sorted_list_of_set ({0..<int n} - delivered s a h) \<and>
    get_worker_kv_keys i w (ss_location s) rt = (\<Union>b \<in> delivered s a h. set (batch_keys (ss_batch_size s) keys (nat b))) \<and>
    (get_missing_batches i w a rt = [] \<longrightarrow> get_worker_kv_keys i w (ss_location s) rt = set keys) \<and>
    (\<forall>l. l \<noteq> ss_location s \<longrightarrow> get_worker_kv_keys i w l rt = get_worker_kv_keys i w l (kc_registry kc))"
proof -
  let ?m = "\<lparr>fss_instance_id = i, fss_worker_id = w, fss_location = ss_location s, fss_sync_id = a,
    fss_total_keys = int (length keys), fss_batch_count = int n\<rparr>"
  have st: "fst (handle_full_sync_start ?m t0 kc)" "kc0 = snd (handle_full_sync_start ?m t0 kc)"
    using start by (auto simp: handle_message_def sync_start_message_def i_def w_def n_def map_prod_def split: prod.splits)
  note v = wview_sync_start [OF ok, of ?m t0 "(i, w)"]
  have ok0: "registry_ok (kc_registry kc0)" using v st by simp
  obtain si0 ks where old: "wview (kc_registry kc) (i, w) = (True, si0, ks)" using v st by (auto simp: wview_def)
  let ?si = "worker_sync_info_new a FS_SYNCING t0 (int (length keys)) (int n) t0"
  have new: "wview (kc_registry kc0) (i, w) = (True, Some ?si, \<lambda>l. if l = ss_location s then {} else ks l)"
    using v st old by simp
  have si: "si_state ?si = FS_SYNCING" "si_sync_id ?si = a" "si_expected_batch_count ?si = int n" "si_received_batches ?si = {}"
    by (simp_all add: worker_sync_info_new_def)
  have tame: "\<forall>m \<in> snd ` set h. \<not> closes (i, w) a m" "\<forall>m \<in> snd ` set h. \<not> registers (i, w) m"
    using h by (simp_all add: sync_goes_on_def i_def w_def)
  obtain si' ks' where run: "wview rt (i, w) = (True, Some si', ks')" "in_sync a ?si si' (delivered s a h)"
    "\<And>l. ks' l = (if l = ss_location s then {} else ks l) \<union> (\<Union>m \<in> snd ` set h. sent_keys (i, w) a l m)"
    using syncing_run [OF ok0 new si(1,2) tame(1), of sock fdiv] tame(2) unfolding rt_def delivered_def i_def w_def by blast
  note sent = sync_goes_on_sent [OF h]
  have keys: "get_worker_kv_keys i w l rt =
      (if l = ss_location s then (\<Union>b \<in> delivered s a h. set (batch_keys (ss_batch_size s) keys (nat b))) else ks l)" for l
    using get_sync_info_wview [OF run(1)] run(3) [of l] sent(1) [of l] by (simp add: i_def w_def)
  have missing: "get_missing_batches i w a rt = sorted_list_of_set ({0..<int n} - delivered s a h)"
    using get_sync_info_wview [OF run(1)] run(2) si by (simp add: get_missing_batches_def missing_of_def in_sync_def)
  have all: "(\<Union>b \<in> delivered s a h. set (batch_keys (ss_batch_size s) keys (nat b))) = set keys"
    if "sorted_list_of_set ({0..<int n} - delivered s a h) = []"
  proof -
    have "{0..<int n} - delivered s a h = {}" using that by (simp add: sorted_list_of_set_eq_Nil_iff)
    then have "delivered s a h = {0..<int n}" using sent(2) unfolding n_def by blast
    also have "\<dots> = int ` {..<n}" by (simp add: image_int_atLeastLessThan lessThan_atLeast0)
    finally have "(\<Union>b \<in> delivered s a h. set (batch_keys (ss_batch_size s) keys (nat b))) =
        (\<Union>b < n. set (batch_keys (ss_batch_size s) keys b))" by simp
    then show ?thesis using batches_cover [OF bs] unfolding n_def by simp
  qed
  have other: "get_worker_kv_keys i w l (kc_registry kc) = ks l" for l using get_sync_info_wview [OF old] by blast
  show ?thesis using missing keys all other by auto
qed

text \<open>The end message closes a sync even when batches are missing: from then on the status query
  answers that the worker is complete and that nothing is missing, and a batch of that sync that
  arrives later, or is sent again, is dropped.\<close>
theorem end_of_sync_hides_missing_batches:
  assumes "registry_ok (kc_registry kc)" "get_sync_info i w (kc_registry kc) = Some si"
    and "(fse_instance_id e, fse_worker_id e, fse_sync_id e) = (i, w, si_sync_id si)"
    and "(fsb_instance_id b, fsb_worker_id b, fsb_sync_id b) = (i, w, si_sync_id si)"
    and kc1_def: "kc1 = snd (handle_message sock fdiv t (MSyncEnd e) kc)"
  shows "(\<exists>p x. fst (handle_message sock fdiv t1 (MSyncStatus i w (si_sync_id si)) kc1) = RSyncStatus True p x []) \<and>
    (\<forall>l. get_worker_kv_keys i w l (kc_registry (snd (handle_message sock fdiv t2 (MSyncBatch b) kc1))) =
      get_worker_kv_keys i w l (kc_registry kc))"
proof -
  obtain ks where v: "wview (kc_registry kc) (i, w) = (True, Some si, ks)"
    using assms(2) by (auto simp: wview_def get_sync_info_def split: option.splits)
  let ?si = "si\<lparr>si_state := FS_COMPLETED, si_last_activity_time := t\<rparr>"
  have kc1: "kc1 = handle_full_sync_end e t kc" by (simp add: kc1_def handle_message_def)
  have v1: "registry_ok (kc_registry kc1)" "wview (kc_registry kc1) (i, w) = (True, Some ?si, ks)"
    using wview_sync_end [OF assms(1), of e t "(i, w)"] v assms(3) by (simp_all add: kc1)
  have g: "get_sync_info i w (kc_registry kc1) = Some ?si" using get_sync_info_wview [OF v1(2)] by blast
  have "get_missing_batches i w (si_sync_id si) (kc_registry kc1) = []" using g by (simp add: get_missing_batches_def)
  then have "\<exists>p x. fst (handle_message sock fdiv t1 (MSyncStatus i w (si_sync_id si)) kc1) = RSyncStatus True p x []"
    using wview_status(3,4) [OF v1(1), of fdiv i w "si_sync_id si" t1] g
    by (cases "handle_full_sync_status fdiv i w (si_sync_id si) t1 kc1") (auto simp: handle_message_def split: prod.splits)
  moreover have "wview (kc_registry (snd (handle_message sock fdiv t2 (MSyncBatch b) kc1))) (i, w) = (True, Some ?si, ks)"
    using wview_sync_batch [OF v1(1), of b t2 "(i, w)"] v1(2) by (simp add: handle_message_def)
  ultimately show ?thesis using get_sync_info_wview v by metis
qed

text \<open>C15: A sync that is never ended blocks its worker. Once a worker is in the sync a, then as long
  as nothing of the sync a arrives and the worker is not deregistered, whatever else happens, even
  if the worker registers again, the controller keeps it in that sync: it refuses every start with
  another id, drops the worker's operations, so that no key of the worker is ever added, and its
  replies to the worker's heartbeats ask for nothing.\<close>
theorem abandoned_sync_blocks_worker:
  assumes ok: "registry_ok (kc_registry kc)" and si: "get_sync_info i w (kc_registry kc) = Some si" "si_state si = FS_SYNCING"
    and h: "\<forall>m \<in> snd ` set h. \<not> closes (i, w) (si_sync_id si) m \<and> sent_ids (i, w) (si_sync_id si) m = {}"
    and kc1: "kc1 = cluster_run sock fdiv h kc"
  shows "(\<exists>si'. get_sync_info i w (kc_registry kc1) = Some si' \<and> in_sync (si_sync_id si) si si' {}) \<and>
    (\<forall>l. get_worker_kv_keys i w l (kc_registry kc1) \<subseteq> get_worker_kv_keys i w l (kc_registry kc)) \<and>
    (\<forall>m t. (fss_instance_id m, fss_worker_id m) = (i, w) \<longrightarrow> fss_sync_id m \<noteq> si_sync_id si \<longrightarrow>
       fst (handle_message sock fdiv t (MSyncStart m) kc1) = RSyncStart False) \<and>
    (\<forall>m t. (rm_instance_id m, rm_worker_id m) = (i, w) \<longrightarrow> fst (handle_message sock fdiv t (MHeartbeat m) kc1) = RHeartbeat [])"
proof -
  let ?a = "si_sync_id si"
  obtain ks where v: "wview (kc_registry kc) (i, w) = (True, Some si, ks)"
    using si(1) by (auto simp: wview_def get_sync_info_def split: option.splits)
  have c: "\<forall>m \<in> snd ` set h. \<not> closes (i, w) ?a m" using h by blast
  have ids: "(\<Union>m \<in> snd ` set h. sent_ids (i, w) ?a m) = {}" "(\<Union>m \<in> snd ` set h. sent_keys (i, w) ?a l m) = {}" for l
    using h sent_keys_ids by blast+
  obtain si' ks' where run: "wview (kc_registry kc1) (i, w) = (True, Some si', ks')" "in_sync ?a si si' {}" "\<And>l. ks' l \<subseteq> ks l"
    using syncing_run [OF ok v si(2) refl c, of sock fdiv] unfolding kc1 ids by auto
  have ok1: "registry_ok (kc_registry kc1)" unfolding kc1 by (rule cluster_run_registry_ok [OF ok])
  have g: "get_sync_info i w (kc_registry kc1) = Some si'" "si_state si' = FS_SYNCING" "si_sync_id si' = ?a"
    using get_sync_info_wview [OF run(1)] run(2) by (simp_all add: in_sync_def)
  have "fst (handle_message sock fdiv t (MSyncStart m) kc1) = RSyncStart False"
    if "(fss_instance_id m, fss_worker_id m) = (i, w)" "fss_sync_id m \<noteq> ?a" for m t
    using wview_sync_start [OF ok1, of m t "(i, w)"] that g by (auto simp: handle_message_def map_prod_def split: prod.split)
  moreover have "fst (handle_message sock fdiv t (MHeartbeat m) kc1) = RHeartbeat []"
    if "(rm_instance_id m, rm_worker_id m) = (i, w)" for m t
  proof -
    let ?u = "update_heartbeat i w t (kc_registry kc1)"
    note hb = wview_heartbeat [OF ok1, of i w t "(i, w)"]
    have u: "fst ?u" "get_sync_info i w (snd ?u) = Some si'"
      using hb run(1) get_sync_info_wview [of "snd ?u" i w] by auto
    then show ?thesis using that g
      by (auto simp: handle_message_def reg_heartbeat_def should_request_full_sync_def Let_def split: prod.split)
  qed
  moreover have "get_worker_kv_keys i w l (kc_registry kc1) \<subseteq> get_worker_kv_keys i w l (kc_registry kc)" for l
    using get_sync_info_wview [OF run(1)] get_sync_info_wview [OF v] run(3) by metis
  ultimately show ?thesis using g(1) run(2) by blast
qed

section \<open>A worker that synchronises\<close>

definition sample_sender :: sync_sender where
  "sample_sender = \<lparr>ss_instance_id = ''b'', ss_worker_id = 0, ss_location = ''cpu'', ss_batch_size = 2,
     ss_max_retry_count = 3, ss_max_poll_attempts = 60, ss_is_syncing = False\<rparr>"

definition sample_controller :: kv_controller where
  "sample_controller = kv_controller_init \<lparr>db_chunk_size = 4, db_save_unfull_chunk = True, db_hash_func = (\<lambda>p ts. p + sum_list ts),
     db_none_hash = 0, db_world_size = 1, db_save_only_first_rank = False, db_sep_tokens = []\<rparr> sample_registry (4 / 5) 300"

definition no_socket :: "string \<Rightarrow> int \<Rightarrow> nat" where
  "no_socket ip port = 0"

definition exact_div :: "nat \<Rightarrow> nat \<Rightarrow> real" where
  "exact_div m n = of_nat m / of_nat n"

definition sample_syncing :: kv_controller where
  "sample_syncing = snd (handle_message no_socket exact_div 200 (sync_start_message sample_sender ''s'' [1, 2, 3]) sample_controller)"

lemma sample_controller_ok: "registry_ok (kc_registry sample_controller)"
  by (simp add: sample_controller_def kv_controller_init_def sample_registry_ok)

lemma sample_start:
  "handle_message no_socket exact_div 200 (sync_start_message sample_sender ''s'' [1, 2, 3]) sample_controller =
     (RSyncStart True, sample_syncing)"
proof -
  have "(case fst (handle_message no_socket exact_div 200 (sync_start_message sample_sender ''s'' [1, 2, 3]) sample_controller) of
      RSyncStart ok \<Rightarrow> ok | _ \<Rightarrow> False)" by code_simp
  then show ?thesis by (auto simp: sample_syncing_def prod_eq_iff split: cluster_reply.splits)
qed

definition sample_history :: "(int \<times> cluster_msg) list" where
  "sample_history =
     [(201, send_sync_batch sample_sender ''s'' [1, 2, 3] 1), (202, MBatchedKV sample_batch),
      (203, send_sync_batch sample_sender ''s'' [1, 2, 3] 0)]"

lemma sample_history_goes_on: "sync_goes_on sample_sender ''s'' [1, 2, 3] sample_history"
proof -
  have n: "sync_batch_count (ss_batch_size sample_sender) [1, 2, 3 :: int] = 2"
    by (simp add: sample_sender_def sync_batch_count_def)
  have q: "closes q a (send_sync_batch s b keys k) = False" "registers q (send_sync_batch s b keys k) = False"
    "closes q a (MBatchedKV x) = False" "registers q (MBatchedKV x) = False" "sent_ids q a (MBatchedKV x) = {}" for q a s b keys k x
    by (simp_all add: closes_def registers_def send_sync_batch_def sent_ids_def)
  have o: "\<exists>b < 2. send_sync_batch sample_sender ''s'' [1, 2, 3] k = send_sync_batch sample_sender ''s'' [1, 2, 3] b" if "k < 2" for k
    using that by blast
  show ?thesis unfolding sync_goes_on_def n sample_history_def using o [of 0] o [of 1] by (simp add: q)
qed

lemma full_sync_rebuilds_the_cache_witness:
  "get_worker_kv_keys ''b'' 0 ''cpu'' (kc_registry (cluster_run no_socket exact_div sample_history sample_syncing)) = {1, 2, 3}"
proof -
  have d: "delivered sample_sender ''s'' sample_history = {0, 1}"
    by (auto simp: delivered_def sample_history_def sent_of_send) (simp add: sent_ids_def)
  have n: "sync_batch_count (ss_batch_size sample_sender) [1, 2, 3 :: int] = 2"
    by (simp add: sample_sender_def sync_batch_count_def)
  have "{0..<int 2} - {0, 1} = {}" by auto
  then show ?thesis
    using full_sync_rebuilds_the_cache [OF sample_controller_ok _ sample_start sample_history_goes_on]
    by (simp add: d n, simp add: sample_sender_def batch_keys_def py_slice_nat_def eval_nat_numeral, blast)
qed

definition sample_end :: full_sync_end_msg where
  "sample_end = \<lparr>fse_instance_id = ''b'', fse_worker_id = 0, fse_location = ''cpu'', fse_sync_id = ''s'', fse_actual_total_keys = 3\<rparr>"

definition sample_late :: full_sync_batch_msg where
  "sample_late = \<lparr>fsb_instance_id = ''b'', fsb_worker_id = 0, fsb_location = ''cpu'', fsb_sync_id = ''s'', fsb_batch_id = 0, fsb_keys = [1, 2]\<rparr>"

lemma sample_syncing_ok: "registry_ok (kc_registry sample_syncing)"
  "\<exists>si. get_sync_info ''b'' 0 (kc_registry sample_syncing) = Some si \<and> si_state si = FS_SYNCING \<and> si_sync_id si = ''s'' \<and>
     get_worker_kv_keys ''b'' 0 ''cpu'' (kc_registry sample_syncing) = {}"
proof -
  show "registry_ok (kc_registry sample_syncing)" unfolding sample_syncing_def
    by (rule handle_message_registry_ok [OF sample_controller_ok])
  have "(case get_sync_info ''b'' 0 (kc_registry sample_syncing) of None \<Rightarrow> False
      | Some si \<Rightarrow> si_state si = FS_SYNCING \<and> si_sync_id si = ''s'') \<and>
     get_worker_kv_keys ''b'' 0 ''cpu'' (kc_registry sample_syncing) = {}" by code_simp
  then show "\<exists>si. get_sync_info ''b'' 0 (kc_registry sample_syncing) = Some si \<and> si_state si = FS_SYNCING \<and> si_sync_id si = ''s'' \<and>
     get_worker_kv_keys ''b'' 0 ''cpu'' (kc_registry sample_syncing) = {}" by (auto split: option.splits)
qed

lemma end_of_sync_hides_missing_batches_witness:
  "get_worker_kv_keys ''b'' 0 ''cpu'' (kc_registry (snd (handle_message no_socket exact_div 300 (MSyncBatch sample_late)
     (snd (handle_message no_socket exact_div 250 (MSyncEnd sample_end) sample_syncing))))) = {}"
proof -
  obtain si where si: "get_sync_info ''b'' 0 (kc_registry sample_syncing) = Some si" "si_sync_id si = ''s''"
    "get_worker_kv_keys ''b'' 0 ''cpu'' (kc_registry sample_syncing) = {}" using sample_syncing_ok(2) by blast
  from end_of_sync_hides_missing_batches [OF sample_syncing_ok(1) si(1) _ _ refl, of sample_end sample_late] si(2,3)
  show ?thesis by (simp add: sample_end_def sample_late_def)
qed

lemma abandoned_sync_blocks_worker_witness:
  "fst (handle_message no_socket exact_div 99999 (sync_start_message sample_sender ''new'' [4])
     (cluster_run no_socket exact_div [(250, MBatchedKV sample_batch)] sample_syncing)) = RSyncStart False"
proof -
  obtain si where si: "get_sync_info ''b'' 0 (kc_registry sample_syncing) = Some si" "si_state si = FS_SYNCING" "si_sync_id si = ''s''"
    using sample_syncing_ok(2) by blast
  have "\<forall>m \<in> snd ` set [(250 :: int, MBatchedKV sample_batch)]. \<not> closes (''b'', 0) (si_sync_id si) m \<and> sent_ids (''b'', 0) (si_sync_id si) m = {}"
    by (simp add: closes_def sent_ids_def)
  from abandoned_sync_blocks_worker [OF sample_syncing_ok(1) si(1,2) this refl, of no_socket exact_div] si(3)
  show ?thesis by (simp add: sync_start_message_def sample_sender_def)
qed

end
