(* ===== verification/Message_Sender.thy ===== *)
theory Message_Sender
  imports Cluster_Controller
begin

text \<open>
  BatchedMessageSender of storage_backend/batched_message_sender.py: producers put operations in
  a queue, and a consumer thread takes them out one by one, numbers them, and sends what it has
  when the queue is found empty. A put and a get of the queue are the atomic steps; a run is any
  sequence of them. The time outs and the condition variable only decide when the consumer looks.
\<close>

section \<open>The sender\<close>

record message_sender =
  bs_instance_id :: string
  bs_worker_id :: int
  bs_location :: string
  bs_queue :: "kv_op list"
  bs_sequence_number :: nat
  bs_ops_to_send :: "kv_op list"
  bs_sent :: "kv_batch list"

datatype sender_event = PutOp op_type int | GetOp

definition message_sender_init :: "string \<Rightarrow> int \<Rightarrow> string \<Rightarrow> message_sender" where
  "message_sender_init instance_id worker_id location =
     \<lparr>bs_instance_id = instance_id, bs_worker_id = worker_id, bs_location = location, bs_queue = [],
      bs_sequence_number = 0, bs_ops_to_send = [], bs_sent = []\<rparr>"

definition add_kv_op :: "op_type \<Rightarrow> int \<Rightarrow> message_sender \<Rightarrow> message_sender" where
  "add_kv_op op_type key s = s\<lparr>bs_queue := bs_queue s @ [\<lparr>ko_op_type = op_type, ko_key = key, ko_seq_num = -1\<rparr>]\<rparr>"

definition send_batch :: "message_sender \<Rightarrow> message_sender" where
  "send_batch s =
     (if bs_ops_to_send s = [] then s
      else s\<lparr>bs_sent := bs_sent s @ [\<lparr>kb_instance_id = bs_instance_id s, kb_worker_id = bs_worker_id s,
               kb_location = bs_location s, kb_operations = bs_ops_to_send s\<rparr>], bs_ops_to_send := []\<rparr>)"

definition drain_step :: "message_sender \<Rightarrow> message_sender" where
  "drain_step s =
     (case bs_queue s of
        [] \<Rightarrow> send_batch s
      | op # rest \<Rightarrow>
          s\<lparr>bs_queue := rest, bs_sequence_number := bs_sequence_number s + 1,
            bs_ops_to_send := bs_ops_to_send s @ [op\<lparr>ko_seq_num := int (bs_sequence_number s)\<rparr>]\<rparr>)"

primrec sender_event_step :: "sender_event \<Rightarrow> message_sender \<Rightarrow> message_sender" where
  "sender_event_step (PutOp t k) s = add_kv_op t k s"
| "sender_event_step GetOp s = drain_step s"

definition sender_run :: "sender_event list \<Rightarrow> message_sender \<Rightarrow> message_sender" where
  "sender_run = fold sender_event_step"

definition sent_ops :: "message_sender \<Rightarrow> kv_op list" where
  "sent_ops s = concat (map kb_operations (bs_sent s)) @ bs_ops_to_send s"

definition op_of :: "kv_op \<Rightarrow> op_type \<times> int" where
  "op_of op = (ko_op_type op, ko_key op)"

definition put_ops :: "sender_event list \<Rightarrow> (op_type \<times> int) list" where
  "put_ops es = concat (map (\<lambda>e. case e of PutOp t k \<Rightarrow> [(t, k)] | GetOp \<Rightarrow> []) es)"

section \<open>Lemmas\<close>

definition numbered :: "nat \<Rightarrow> kv_op list \<Rightarrow> bool" where
  "numbered n ops \<longleftrightarrow> map ko_seq_num ops = map int [n..<n + length ops]"

lemma numbered_simps:
  "numbered n []" "numbered n (op # ops) \<longleftrightarrow> ko_seq_num op = int n \<and> numbered (Suc n) ops"
  by (simp_all add: numbered_def upt_rec [of n] del: upt_Suc)

lemma numbered_append: "numbered n (xs @ ys) \<longleftrightarrow> numbered n xs \<and> numbered (n + length xs) ys"
  by (induction xs arbitrary: n) (simp_all add: numbered_simps)

definition sender_inv :: "sender_event list \<Rightarrow> message_sender \<Rightarrow> message_sender \<Rightarrow> bool" where
  "sender_inv es s0 s \<longleftrightarrow> numbered 0 (sent_ops s) \<and> bs_sequence_number s = length (sent_ops s) \<and>
     map op_of (sent_ops s @ bs_queue s) = put_ops es \<and>
     (\<forall>m \<in> set (bs_sent s). kb_operations m \<noteq> [] \<and> kb_instance_id m = bs_instance_id s0 \<and>
        kb_worker_id m = bs_worker_id s0 \<and> kb_location m = bs_location s0) \<and>
     bs_instance_id s = bs_instance_id s0 \<and> bs_worker_id s = bs_worker_id s0 \<and> bs_location s = bs_location s0"

lemma sender_inv_step: "sender_inv es s0 s \<Longrightarrow> sender_inv (es @ [e]) s0 (sender_event_step e s)"
  by (cases e) (auto simp: sender_inv_def add_kv_op_def drain_step_def send_batch_def sent_ops_def put_ops_def op_of_def
      numbered_append numbered_simps split: list.split)

lemma sender_inv_run: "sender_inv es (message_sender_init i w l) (sender_run es (message_sender_init i w l))"
proof (induction es rule: rev_induct)
  case Nil
  then show ?case by (simp add: sender_run_def sender_inv_def message_sender_init_def sent_ops_def put_ops_def numbered_simps)
next
  case (snoc e es)
  then show ?case using sender_inv_step by (simp add: sender_run_def)
qed

text \<open>The keys after some operations depend on the operations only, not on their numbers.\<close>

lemma apply_kv_op_of: "map op_of xs = map op_of ys \<Longrightarrow> fold apply_kv_op xs K = fold apply_kv_op ys K"
proof (induction xs arbitrary: ys K)
  case (Cons x xs)
  then obtain y ys' where y: "ys = y # ys'" "op_of x = op_of y" "map op_of xs = map op_of ys'" by auto
  have "apply_kv_op x K = apply_kv_op y K" using y(2) by (cases "ko_op_type y") (simp_all add: op_of_def apply_kv_op_def)
  then show ?case using Cons.IH [OF y(3)] y(1) by simp
qed simp

text \<open>The sequence check on a numbered batch.\<close>

lemma check_seq_numbered:
  assumes "map_of tracker l = None \<or> map_of tracker l = Some (int n - 1)" "numbered n ops"
  shows "snd (fold (check_seq l) ops (tracker, None)) = None \<and>
    map_of (fst (fold (check_seq l) ops (tracker, None))) l = (if ops = [] then map_of tracker l else Some (int (n + length ops) - 1))"
  using assms
proof (induction ops arbitrary: tracker n)
  case (Cons op ops)
  let ?t = "dict_set l (ko_seq_num op) tracker"
  have s: "check_seq l op (tracker, None) = (?t, None)" and t: "map_of ?t l = Some (int (Suc n) - 1)"
    using Cons.prems by (auto simp: check_seq_def numbered_simps dict_simps)
  show ?case using Cons.IH [of ?t "Suc n"] t Cons.prems(2) by (auto simp: s numbered_simps)
qed simp

lemma check_seq_warns: "w \<noteq> None \<Longrightarrow> snd (fold (check_seq l) ops (tracker, w)) \<noteq> None"
  by (induction ops arbitrary: tracker) (auto simp: check_seq_def split: option.splits)

lemma check_seq_gap:
  assumes "map_of tracker l = Some prev" "ko_seq_num op \<noteq> prev + 1"
  shows "snd (fold (check_seq l) (op # ops) (tracker, None)) \<noteq> None"
proof -
  have "check_seq l op (tracker, None) =
      (dict_set l (ko_seq_num op) tracker, Some (prev + 1, ko_seq_num op, ko_seq_num op - (prev + 1)))"
    using assms by (simp add: check_seq_def Let_def)
  then show ?thesis using check_seq_warns [of "Some (prev + 1, ko_seq_num op, ko_seq_num op - (prev + 1))"]
    by (simp only: fold_simps option.distinct(2) simp_thms)
qed

section \<open>The worker's stream at the controller\<close>

text \<open>Handling messages one after the other.\<close>

definition deliver :: "kv_batch list \<Rightarrow> registry_tree \<Rightarrow> registry_tree" where
  "deliver ms rt = fold (\<lambda>m rt. snd (handle_batched_kv_operations m False rt)) ms rt"

text \<open>The worker is registered and not in a full sync, and its last sequence number is as given.\<close>

definition listening :: "registry_tree \<Rightarrow> string \<Rightarrow> int \<Rightarrow> string \<Rightarrow> int option \<Rightarrow> int set \<Rightarrow> bool" where
  "listening rt i w l prev K \<longleftrightarrow> registry_ok rt \<and> \<not> is_worker_syncing i w rt \<and> get_worker_kv_keys i w l rt = K \<and>
     (\<exists>r. get_worker i w rt = Some r \<and> map_of (wn_seq_tracker (rt_nodes rt ! r)) l = prev)"

lemma listening_step:
  assumes "listening rt i w l prev K" "kb_instance_id m = i" "kb_worker_id m = w" "kb_location m = l"
  shows "\<exists>tracker warning. (\<exists>t0. map_of t0 l = prev \<and> fold (check_seq l) (kb_operations m) (t0, None) = (tracker, warning)) \<and>
    listening (snd (handle_batched_kv_operations m False rt)) i w l (map_of tracker l) (fold apply_kv_op (kb_operations m) K) \<and>
    rt_seq_discontinuity_count (snd (handle_batched_kv_operations m False rt)) =
      rt_seq_discontinuity_count rt + (if warning = None then 0 else 1)"
proof -
  obtain r where r: "get_worker i w rt = Some r" "map_of (wn_seq_tracker (rt_nodes rt ! r)) l = prev"
    using assms(1) by (auto simp: listening_def)
  have ok: "registry_ok rt" and ns: "\<not> wn_syncing (rt_nodes rt ! r)" and K: "get_worker_kv_keys i w l rt = K"
    using assms(1) r(1) by (auto simp: listening_def is_worker_syncing_def get_sync_info_def wn_syncing_def)
  obtain tracker warning where c: "fold (check_seq l) (kb_operations m) (wn_seq_tracker (rt_nodes rt ! r), None) = (tracker, warning)"
    by (metis surj_pair)
  obtain n' where n': "wn_handle_batched_kv_operations m False (rt_nodes rt ! r) = ((True, warning), n')" "wn_seq_tracker n' = tracker"
    using ns c assms(4) by (auto simp: wn_handle_batched_kv_operations_def Let_def)
  obtain rt' where h: "handle_batched_kv_operations m False rt = (True, rt')"
    "rt' = (upd_node r (\<lambda>_. n') rt)\<lparr>rt_seq_discontinuity_count := rt_seq_discontinuity_count rt + (if warning = None then 0 else 1)\<rparr>"
    using n'(1) r(1) assms(2,3) by (cases rt) (auto simp: handle_batched_kv_operations_def upd_node_def)
  note b = handle_batched_worker [OF ok h(1)]
  have g: "get_worker i w rt' = Some r" using b(2) r(1) by simp
  have live: "r < length (rt_nodes rt)" using get_worker_live(1) [OF ok r(1)] .
  have node: "rt_nodes rt' ! r = n'" using live by (simp add: h(2) upd_node_nth)
  have "\<not> is_worker_syncing i w rt'"
    using ns b(4) [of r] g by (simp add: is_worker_syncing_def get_sync_info_def wn_syncing_def)
  then have "listening rt' i w l (map_of tracker l) (fold apply_kv_op (kb_operations m) K)"
    using b(1,6) g node n'(2) assms(2-4) K by (simp add: listening_def)
  moreover have "rt_seq_discontinuity_count rt' = rt_seq_discontinuity_count rt + (if warning = None then 0 else 1)"
    by (simp add: h(2) upd_node_def)
  moreover have "snd (handle_batched_kv_operations m False rt) = rt'" by (simp add: h(1))
  ultimately show ?thesis using r(2) c by metis
qed

lemma listening_deliver:
  assumes "listening rt i w l prev K" "prev = None \<or> prev = Some (int n - 1)" "numbered n (concat (map kb_operations ms))"
    and "\<forall>m \<in> set ms. kb_instance_id m = i \<and> kb_worker_id m = w \<and> kb_location m = l"
  shows "listening (deliver ms rt) i w l
      (if concat (map kb_operations ms) = [] then prev else Some (int (n + length (concat (map kb_operations ms))) - 1))
      (fold apply_kv_op (concat (map kb_operations ms)) K) \<and>
    rt_seq_discontinuity_count (deliver ms rt) = rt_seq_discontinuity_count rt"
  using assms
proof (induction ms arbitrary: rt prev K n)
  case (Cons m ms)
  have m: "kb_instance_id m = i" "kb_worker_id m = w" "kb_location m = l" using Cons.prems(4) by simp_all
  let ?rt = "snd (handle_batched_kv_operations m False rt)" and ?n = "n + length (kb_operations m)"
  let ?prev = "if kb_operations m = [] then prev else Some (int ?n - 1)"
  obtain t0 tracker warning where t: "map_of t0 l = prev" "fold (check_seq l) (kb_operations m) (t0, None) = (tracker, warning)"
    "listening ?rt i w l (map_of tracker l) (fold apply_kv_op (kb_operations m) K)"
    "rt_seq_discontinuity_count ?rt = rt_seq_discontinuity_count rt + (if warning = None then 0 else 1)"
    using listening_step [OF Cons.prems(1) m] by blast
  have nm: "numbered n (kb_operations m)" "numbered ?n (concat (map kb_operations ms))"
    using Cons.prems(3) by (simp_all add: numbered_append)
  have w: "warning = None" "map_of tracker l = ?prev"
    using check_seq_numbered [of t0 l n "kb_operations m"] Cons.prems(2) nm(1) t(1,2) by auto
  have "?prev = None \<or> ?prev = Some (int ?n - 1)" using Cons.prems(2) by auto
  moreover have "\<forall>m \<in> set ms. kb_instance_id m = i \<and> kb_worker_id m = w \<and> kb_location m = l" using Cons.prems(4) by simp
  ultimately have ih: "listening (deliver ms ?rt) i w l
      (if concat (map kb_operations ms) = [] then ?prev else Some (int (?n + length (concat (map kb_operations ms))) - 1))
      (fold apply_kv_op (concat (map kb_operations ms)) (fold apply_kv_op (kb_operations m) K)) \<and>
    rt_seq_discontinuity_count (deliver ms ?rt) = rt_seq_discontinuity_count ?rt"
    using Cons.IH [OF t(3) [unfolded w(2)] _ nm(2)] by blast
  have e: "deliver (m # ms) rt = deliver ms ?rt" by (simp add: deliver_def)
  have l: "(if concat (map kb_operations ms) = [] then ?prev
       else Some (int (?n + length (concat (map kb_operations ms))) - 1)) =
      (if concat (map kb_operations (m # ms)) = [] then prev
       else Some (int (n + length (concat (map kb_operations (m # ms)))) - 1))"
    by (simp add: algebra_simps)
  have f: "fold apply_kv_op (concat (map kb_operations ms)) (fold apply_kv_op (kb_operations m) K) =
      fold apply_kv_op (concat (map kb_operations (m # ms))) K" by simp
  have "rt_seq_discontinuity_count ?rt = rt_seq_discontinuity_count rt" using t(4) w(1) by simp
  with conjunct2 [OF ih] have "rt_seq_discontinuity_count (deliver ms ?rt) = rt_seq_discontinuity_count rt" by (rule trans)
  from conjI [OF conjunct1 [OF ih] this] show ?case unfolding e l f .
qed (simp add: deliver_def)

lemma deliver_count_mono: "rt_seq_discontinuity_count rt \<le> rt_seq_discontinuity_count (deliver ms rt)"
proof (induction ms arbitrary: rt)
  case (Cons m ms)
  have "rt_seq_discontinuity_count rt \<le> rt_seq_discontinuity_count (snd (handle_batched_kv_operations m False rt))"
    by (auto simp: handle_batched_kv_operations_def upd_node_def Let_def split: option.split prod.split)
  then show ?case using Cons [of "snd (handle_batched_kv_operations m False rt)"] by (simp add: deliver_def)
qed (simp add: deliver_def)

section \<open>Properties\<close>

text \<open>C16: The stream of a worker's operations reaches the controller in order. However puts and gets
  interleave, the messages sent so far hold a prefix of the operations put, in their order; when
  the controller handles them in order, the keys it knows at the worker's location are what that
  prefix makes of the keys it knew, and no gap is counted. If a message is lost, other than the
  first or the last, a gap is counted.\<close>
theorem kv_stream_is_replayed:
  assumes s: "s = sender_run es (message_sender_init i w l)" and L: "listening rt i w l None K"
  shows "(\<exists>ops. map op_of ops = take (length ops) (put_ops es) \<and> length ops + length (bs_ops_to_send s @ bs_queue s) = length (put_ops es) \<and>
      get_worker_kv_keys i w l (deliver (bs_sent s) rt) = fold apply_kv_op ops K \<and>
      rt_seq_discontinuity_count (deliver (bs_sent s) rt) = rt_seq_discontinuity_count rt) \<and>
    (\<forall>before lost after. bs_sent s = before @ lost # after \<longrightarrow> before \<noteq> [] \<longrightarrow> after \<noteq> [] \<longrightarrow>
      rt_seq_discontinuity_count rt < rt_seq_discontinuity_count (deliver (before @ after) rt))"
proof -
  let ?ops = "concat (map kb_operations (bs_sent s))"
  have inv: "sender_inv es (message_sender_init i w l) s" unfolding s by (rule sender_inv_run)
  have num: "numbered 0 (?ops @ bs_ops_to_send s)" and puts: "map op_of (?ops @ bs_ops_to_send s @ bs_queue s) = put_ops es"
    using inv by (simp_all add: sender_inv_def sent_ops_def)
  have ms: "\<forall>m \<in> set (bs_sent s). kb_operations m \<noteq> [] \<and> kb_instance_id m = i \<and> kb_worker_id m = w \<and> kb_location m = l"
    using inv by (simp add: sender_inv_def message_sender_init_def)
  have one: "listening (deliver xs rt) i w l
      (if concat (map kb_operations xs) = [] then None else Some (int (length (concat (map kb_operations xs))) - 1))
      (fold apply_kv_op (concat (map kb_operations xs)) K) \<and>
    rt_seq_discontinuity_count (deliver xs rt) = rt_seq_discontinuity_count rt" if "bs_sent s = xs @ ys" for xs ys
  proof -
    have n: "numbered 0 (concat (map kb_operations xs))" using num unfolding that by (simp add: numbered_append)
    have "\<forall>m \<in> set xs. kb_instance_id m = i \<and> kb_worker_id m = w \<and> kb_location m = l" using ms that by simp
    then show ?thesis using listening_deliver [OF L disjI1 [OF refl] n] by (simp only: add_0)
  qed
  have "map op_of ?ops = take (length ?ops) (put_ops es)" "length ?ops + length (bs_ops_to_send s @ bs_queue s) = length (put_ops es)"
    by (simp_all add: puts [symmetric] del: length_concat)
  moreover have "get_worker_kv_keys i w l (deliver (bs_sent s) rt) = fold apply_kv_op ?ops K \<and>
      rt_seq_discontinuity_count (deliver (bs_sent s) rt) = rt_seq_discontinuity_count rt"
    using one [of "bs_sent s" "[]"] by (simp add: listening_def)
  moreover have "rt_seq_discontinuity_count rt < rt_seq_discontinuity_count (deliver (before @ after) rt)"
    if split: "bs_sent s = before @ lost # after" and ne: "before \<noteq> []" "after \<noteq> []" for before lost after
  proof -
    let ?b = "concat (map kb_operations before)"
    obtain m rest where after: "after = m # rest" using ne(2) by (cases after) auto
    have "?b \<noteq> []" using ms ne(1) unfolding split by (cases before) auto
    then have b: "listening (deliver before rt) i w l (Some (int (length ?b) - 1)) (fold apply_kv_op ?b K)"
      "rt_seq_discontinuity_count (deliver before rt) = rt_seq_discontinuity_count rt"
      using one [OF split] by (auto split: if_splits)
    have m: "kb_instance_id m = i" "kb_worker_id m = w" "kb_location m = l" "kb_operations m \<noteq> []" "kb_operations lost \<noteq> []"
      using ms unfolding split after by auto
    obtain op ops where op: "kb_operations m = op # ops" using m(4) by (cases "kb_operations m") auto
    have "numbered (length ?b + length (kb_operations lost)) (kb_operations m)"
      using num unfolding split after by (simp add: numbered_append del: length_concat)
    then have seq: "ko_seq_num op \<noteq> (int (length ?b) - 1) + 1" using m(5) by (simp add: op numbered_simps del: length_concat)
    obtain t0 tracker warning where t: "map_of t0 l = Some (int (length ?b) - 1)"
      "fold (check_seq l) (kb_operations m) (t0, None) = (tracker, warning)"
      "rt_seq_discontinuity_count (snd (handle_batched_kv_operations m False (deliver before rt))) =
        rt_seq_discontinuity_count (deliver before rt) + (if warning = None then 0 else 1)"
      using listening_step [OF b(1) m(1-3)] by blast
    have "warning \<noteq> None" using check_seq_gap [OF t(1) seq, of ops] t(2) by (simp add: op)
    then have "rt_seq_discontinuity_count rt < rt_seq_discontinuity_count (snd (handle_batched_kv_operations m False (deliver before rt)))"
      using t(3) b(2) by simp
    also have "\<dots> \<le> rt_seq_discontinuity_count (deliver (before @ after) rt)"
      using deliver_count_mono [of "snd (handle_batched_kv_operations m False (deliver before rt))" rest]
      by (simp add: deliver_def after)
    finally show ?thesis .
  qed
  ultimately show ?thesis by blast
qed

lemma sample_listening: "listening sample_registry ''b'' 0 ''disk'' None {}"
proof -
  have "(case get_worker ''b'' 0 sample_registry of None \<Rightarrow> False
      | Some r \<Rightarrow> map_of (wn_seq_tracker (rt_nodes sample_registry ! r)) ''disk'' = None) \<and>
    \<not> is_worker_syncing ''b'' 0 sample_registry \<and> get_worker_kv_keys ''b'' 0 ''disk'' sample_registry = {}" by code_simp
  then show ?thesis using sample_registry_ok by (auto simp: listening_def split: option.splits)
qed

lemma kv_stream_is_replayed_witness:
  "get_worker_kv_keys ''b'' 0 ''disk''
     (deliver (bs_sent (sender_run [PutOp ADMIT 5, GetOp, PutOp ADMIT 6, GetOp, GetOp, PutOp EVICT 5] (message_sender_init ''b'' 0 ''disk''))) sample_registry) = {5, 6}"
proof -
  let ?es = "[PutOp ADMIT 5, GetOp, PutOp ADMIT 6, GetOp, GetOp, PutOp EVICT 5]"
  let ?s = "sender_run ?es (message_sender_init ''b'' 0 ''disk'')"
  obtain ops where ops: "map op_of ops = take (length ops) (put_ops ?es)"
    "length ops + length (bs_ops_to_send ?s @ bs_queue ?s) = length (put_ops ?es)"
    "get_worker_kv_keys ''b'' 0 ''disk'' (deliver (bs_sent ?s) sample_registry) = fold apply_kv_op ops {}"
    using kv_stream_is_replayed [OF refl sample_listening, of ?es] by blast
  have "length (bs_ops_to_send ?s @ bs_queue ?s) = 1" "put_ops ?es = [(ADMIT, 5), (ADMIT, 6), (EVICT, 5)]" by code_simp+
  then have "map op_of ops = [(ADMIT, 5), (ADMIT, 6)]" using ops(1,2) by simp
  then have "fold apply_kv_op ops {} =
      fold apply_kv_op [\<lparr>ko_op_type = ADMIT, ko_key = 5, ko_seq_num = 0\<rparr>, \<lparr>ko_op_type = ADMIT, ko_key = 6, ko_seq_num = 0\<rparr>] {}"
    by (intro apply_kv_op_of) (simp add: op_of_def)
  then show ?thesis unfolding ops(3) by (simp add: apply_kv_op_def insert_commute)
qed

end
