(* ===== verification/Rw_Lock.thy ===== *)
theory Rw_Lock
  imports Prelude
begin

text \<open>
  RWLockWithTimeout of lmcache/v1/cache_controller/locks.py, a readers-writer lock on a condition
  variable. What a thread does between taking the condition's mutex and giving it back, by
  leaving or by waiting, is one step; a waiting thread may go on when it is notified or when its
  wait times out, and notify_all is remembered as the set of the notified threads. Whether a
  deadline has passed at a test is a choice of the step.
\<close>

section \<open>The lock\<close>

datatype rw_pc = RwIdle | RwWaitRead | RwReading | RwWaitWrite | RwWriting

record rw_lock =
  rw_readers :: nat
  rw_writers_waiting :: nat
  rw_writer_active :: bool
  rw_pc_of :: "nat \<Rightarrow> rw_pc"
  rw_notified :: "nat set"

definition rw_init :: rw_lock where
  "rw_init = \<lparr>rw_readers = 0, rw_writers_waiting = 0, rw_writer_active = False, rw_pc_of = (\<lambda>t. RwIdle), rw_notified = {}\<rparr>"

definition at :: "nat \<Rightarrow> rw_pc \<Rightarrow> rw_lock \<Rightarrow> rw_lock" where
  "at t c s = s\<lparr>rw_pc_of := (rw_pc_of s)(t := c)\<rparr>"

definition notify_all :: "rw_lock \<Rightarrow> rw_lock" where
  "notify_all s = s\<lparr>rw_notified := {t. rw_pc_of s t = RwWaitRead \<or> rw_pc_of s t = RwWaitWrite}\<rparr>"

text \<open>One turn of acquire_read's loop: give up, wait, or become a reader.\<close>

definition read_turn :: "bool \<Rightarrow> nat \<Rightarrow> rw_lock \<Rightarrow> rw_lock" where
  "read_turn expired t s =
     (if rw_writer_active s \<or> 0 < rw_writers_waiting s
      then if expired then at t RwIdle s
           else at t RwWaitRead (s\<lparr>rw_notified := rw_notified s - {t}\<rparr>)
      else at t RwReading (s\<lparr>rw_readers := rw_readers s + 1\<rparr>))"

definition acquire_read :: "bool \<Rightarrow> nat \<Rightarrow> rw_lock \<Rightarrow> rw_lock" where
  "acquire_read expired t s = read_turn expired t s"

definition release_read :: "nat \<Rightarrow> rw_lock \<Rightarrow> rw_lock" where
  "release_read t s =
     (let s1 = at t RwIdle (s\<lparr>rw_readers := rw_readers s - 1\<rparr>)
      in if rw_readers s1 = 0 then notify_all s1 else s1)"

text \<open>One turn of acquire_write's loop; leaving it, either way, stops waiting.\<close>

definition write_turn :: "bool \<Rightarrow> nat \<Rightarrow> rw_lock \<Rightarrow> rw_lock" where
  "write_turn expired t s =
     (if 0 < rw_readers s \<or> rw_writer_active s
      then if expired then at t RwIdle (s\<lparr>rw_writers_waiting := rw_writers_waiting s - 1\<rparr>)
           else at t RwWaitWrite (s\<lparr>rw_notified := rw_notified s - {t}\<rparr>)
      else at t RwWriting (s\<lparr>rw_writer_active := True, rw_writers_waiting := rw_writers_waiting s - 1\<rparr>))"

definition acquire_write :: "bool \<Rightarrow> nat \<Rightarrow> rw_lock \<Rightarrow> rw_lock" where
  "acquire_write expired t s = write_turn expired t (s\<lparr>rw_writers_waiting := rw_writers_waiting s + 1\<rparr>)"

definition release_write :: "nat \<Rightarrow> rw_lock \<Rightarrow> rw_lock" where
  "release_write t s = notify_all (at t RwIdle (s\<lparr>rw_writer_active := False\<rparr>))"

text \<open>
  The steps of the threads. Both context managers release what they acquired, so a release is
  made by a thread that holds the lock.
\<close>

inductive rw_step :: "rw_lock \<Rightarrow> rw_lock \<Rightarrow> bool" where
  enter_read: "rw_pc_of s t = RwIdle \<Longrightarrow> rw_step s (acquire_read expired t s)"
| wake_read: "rw_pc_of s t = RwWaitRead \<Longrightarrow> rw_step s (read_turn expired t s)"
| leave_read: "rw_pc_of s t = RwReading \<Longrightarrow> rw_step s (release_read t s)"
| enter_write: "rw_pc_of s t = RwIdle \<Longrightarrow> rw_step s (acquire_write expired t s)"
| wake_write: "rw_pc_of s t = RwWaitWrite \<Longrightarrow> rw_step s (write_turn expired t s)"
| leave_write: "rw_pc_of s t = RwWriting \<Longrightarrow> rw_step s (release_write t s)"

section \<open>The invariant\<close>

definition threads_at :: "rw_pc \<Rightarrow> rw_lock \<Rightarrow> nat set" where
  "threads_at c s = {t. rw_pc_of s t = c}"

text \<open>
  The counters count the threads, writing excludes the rest, and when nobody holds the lock the
  waiting writers, or the waiting readers when no writer waits, have been notified.
\<close>

definition rw_inv :: "rw_lock \<Rightarrow> bool" where
  "rw_inv s \<longleftrightarrow>
     finite (threads_at RwReading s) \<and> rw_readers s = card (threads_at RwReading s) \<and>
     finite (threads_at RwWaitWrite s) \<and> rw_writers_waiting s = card (threads_at RwWaitWrite s) \<and>
     (rw_writer_active s \<longrightarrow> rw_readers s = 0 \<and> (\<exists>t. threads_at RwWriting s = {t})) \<and>
     (\<not> rw_writer_active s \<longrightarrow> threads_at RwWriting s = {}) \<and>
     (rw_readers s = 0 \<and> \<not> rw_writer_active s \<longrightarrow>
        threads_at RwWaitWrite s \<subseteq> rw_notified s \<and> (rw_writers_waiting s = 0 \<longrightarrow> threads_at RwWaitRead s \<subseteq> rw_notified s))"

lemma threads_at_at: "threads_at c (at t d s) = (if c = d then insert t (threads_at c s) else threads_at c s - {t})"
  by (auto simp: threads_at_def at_def)

lemma at_simps [simp]:
  "rw_readers (at t c s) = rw_readers s" "rw_writers_waiting (at t c s) = rw_writers_waiting s"
  "rw_writer_active (at t c s) = rw_writer_active s" "rw_notified (at t c s) = rw_notified s"
  by (simp_all add: at_def)

lemma threads_at_upd [simp]:
  "threads_at c (s\<lparr>rw_readers := n\<rparr>) = threads_at c s" "threads_at c (s\<lparr>rw_writers_waiting := n\<rparr>) = threads_at c s"
  "threads_at c (s\<lparr>rw_writer_active := b\<rparr>) = threads_at c s" "threads_at c (s\<lparr>rw_notified := N\<rparr>) = threads_at c s"
  "threads_at c (s\<lparr>rw_writer_active := b, rw_writers_waiting := n\<rparr>) = threads_at c s"
  by (simp_all add: threads_at_def)

lemma notify_all_simps [simp]:
  "rw_readers (notify_all s) = rw_readers s" "rw_writers_waiting (notify_all s) = rw_writers_waiting s"
  "rw_writer_active (notify_all s) = rw_writer_active s" "threads_at c (notify_all s) = threads_at c s"
  "rw_notified (notify_all s) = threads_at RwWaitRead s \<union> threads_at RwWaitWrite s"
  by (auto simp: notify_all_def threads_at_def)

lemma in_threads_at: "t \<in> threads_at c s \<longleftrightarrow> rw_pc_of s t = c"
  by (simp add: threads_at_def)

lemma threads_at_other [simp]:
  "rw_pc_of s t = c \<Longrightarrow> insert t (threads_at c s) = threads_at c s"
  "rw_pc_of s t \<noteq> c \<Longrightarrow> threads_at c s - {t} = threads_at c s"
  by (auto simp: threads_at_def)

lemma rw_inv_step: "rw_step s s' \<Longrightarrow> rw_inv s \<Longrightarrow> rw_inv s'"
proof (induction rule: rw_step.induct)
  case (enter_read s t expired)
  then show ?case
    by (auto simp: rw_inv_def acquire_read_def read_turn_def threads_at_at in_threads_at)
next
  case (wake_read s t expired)
  then show ?case
    by (auto simp: rw_inv_def read_turn_def threads_at_at in_threads_at)
next
  case (leave_read s t)
  then show ?case
    by (auto simp: rw_inv_def release_read_def Let_def threads_at_at in_threads_at)
next
  case (enter_write s t expired)
  then show ?case
    by (auto simp: rw_inv_def acquire_write_def write_turn_def threads_at_at in_threads_at)
next
  case (wake_write s t expired)
  then show ?case
    by (auto simp: rw_inv_def write_turn_def threads_at_at in_threads_at)
next
  case (leave_write s t)
  have "t \<in> threads_at RwWriting s" using leave_write(1) by (simp add: in_threads_at)
  then have "threads_at RwWriting s = {t}" using leave_write(2) by (auto simp: rw_inv_def)
  with leave_write show ?case
    by (auto simp: rw_inv_def release_write_def threads_at_at in_threads_at)
qed

lemma rw_inv_init: "rw_inv rw_init"
  by (simp add: rw_inv_def rw_init_def threads_at_def)

lemma rw_reachable_inv: "rw_step\<^sup>*\<^sup>* rw_init s \<Longrightarrow> rw_inv s"
  by (induction rule: rtranclp_induct) (auto intro: rw_inv_init rw_inv_step)

section \<open>Properties\<close>

text \<open>C32: The readers-writer lock excludes and loses no wake-up: in every reachable state a writer
  holds the lock alone, and when nobody holds it every waiting writer has been notified and the
  first one to go on gets the lock; when no writer waits either, the same is true of every
  waiting reader.\<close>
theorem rw_lock_excludes_and_wakes:
  assumes "rw_step\<^sup>*\<^sup>* rw_init s"
  shows "(\<forall>t t'. rw_pc_of s t = RwWriting \<longrightarrow> rw_pc_of s t' \<in> {RwReading, RwWriting} \<longrightarrow> t' = t) \<and>
    ((\<forall>t. rw_pc_of s t \<notin> {RwReading, RwWriting}) \<longrightarrow>
      (\<forall>t expired. rw_pc_of s t = RwWaitWrite \<longrightarrow> t \<in> rw_notified s \<and> rw_pc_of (write_turn expired t s) t = RwWriting) \<and>
      ((\<forall>t. rw_pc_of s t \<noteq> RwWaitWrite) \<longrightarrow>
        (\<forall>t expired. rw_pc_of s t = RwWaitRead \<longrightarrow> t \<in> rw_notified s \<and> rw_pc_of (read_turn expired t s) t = RwReading)))"
proof -
  note inv = rw_reachable_inv [OF assms, unfolded rw_inv_def]
  have excl: "t' = t" if "rw_pc_of s t = RwWriting" "rw_pc_of s t' \<in> {RwReading, RwWriting}" for t t'
  proof -
    have w: "t \<in> threads_at RwWriting s" using that(1) by (simp add: in_threads_at)
    then have a: "rw_writer_active s" using inv by auto
    then have "threads_at RwReading s = {}" using inv by auto
    then have "t' \<in> threads_at RwWriting s" using that(2) by (auto simp: threads_at_def)
    then show ?thesis using w a inv by auto
  qed
  have free: "rw_readers s = 0 \<and> \<not> rw_writer_active s" if "\<forall>t. rw_pc_of s t \<notin> {RwReading, RwWriting}"
  proof -
    have "threads_at RwReading s = {}" "threads_at RwWriting s = {}" using that by (auto simp: threads_at_def)
    then show ?thesis using inv by auto
  qed
  have none: "rw_writers_waiting s = 0" if "\<forall>t. rw_pc_of s t \<noteq> RwWaitWrite"
  proof -
    have "threads_at RwWaitWrite s = {}" using that by (simp add: threads_at_def)
    then show ?thesis using inv by simp
  qed
  have "t \<in> rw_notified s \<and> rw_pc_of (write_turn expired t s) t = RwWriting"
    if "rw_readers s = 0 \<and> \<not> rw_writer_active s" "rw_pc_of s t = RwWaitWrite" for t expired
  proof -
    have "t \<in> threads_at RwWaitWrite s" using that(2) by (simp add: in_threads_at)
    then show ?thesis using inv that(1) by (auto simp: write_turn_def at_def)
  qed
  moreover have "t \<in> rw_notified s \<and> rw_pc_of (read_turn expired t s) t = RwReading"
    if "rw_readers s = 0 \<and> \<not> rw_writer_active s" "rw_writers_waiting s = 0" "rw_pc_of s t = RwWaitRead" for t expired
  proof -
    have "t \<in> threads_at RwWaitRead s" using that(3) by (simp add: in_threads_at)
    then show ?thesis using inv that(1,2) by (auto simp: read_turn_def at_def)
  qed
  ultimately show ?thesis using excl free none by blast
qed

text \<open>A reader, a writer that waits for it, and a second reader that waits for the writer.\<close>

definition rw_waiting :: rw_lock where
  "rw_waiting = acquire_read False 2 (acquire_write False 1 (acquire_read False 0 rw_init))"

lemma rw_waiting_reachable: "rw_step\<^sup>*\<^sup>* rw_init rw_waiting"
proof -
  have s1: "rw_step rw_init (acquire_read False 0 rw_init)"
    by (rule enter_read) (simp add: rw_init_def)
  have s2: "rw_step (acquire_read False 0 rw_init) (acquire_write False 1 (acquire_read False 0 rw_init))"
    by (rule enter_write) (simp add: rw_init_def acquire_read_def read_turn_def at_def)
  have s3: "rw_step (acquire_write False 1 (acquire_read False 0 rw_init)) rw_waiting"
    unfolding rw_waiting_def
    by (rule enter_read) (simp add: rw_init_def acquire_read_def read_turn_def acquire_write_def write_turn_def at_def)
  show ?thesis
    by (rule converse_rtranclp_into_rtranclp [OF s1 converse_rtranclp_into_rtranclp [OF s2 r_into_rtranclp [of rw_step, OF s3]]])
qed

lemma rw_lock_excludes_and_wakes_witness:
  "1 \<in> rw_notified (release_read 0 rw_waiting) \<and> rw_pc_of (write_turn True 1 (release_read 0 rw_waiting)) 1 = RwWriting"
proof -
  have p: "rw_pc_of (release_read 0 rw_waiting) t = (if t = 1 then RwWaitWrite else if t = 2 then RwWaitRead else RwIdle)" for t
    by (simp add: rw_waiting_def release_read_def rw_init_def acquire_read_def read_turn_def acquire_write_def write_turn_def
        at_def notify_all_def)
  have "rw_step rw_waiting (release_read 0 rw_waiting)"
    by (rule leave_read) (simp add: rw_waiting_def rw_init_def acquire_read_def read_turn_def acquire_write_def write_turn_def at_def)
  then have "rw_step\<^sup>*\<^sup>* rw_init (release_read 0 rw_waiting)" by (rule rtranclp.rtrancl_into_rtrancl [OF rw_waiting_reachable])
  note r = conjunct1 [OF mp [OF conjunct2 [OF rw_lock_excludes_and_wakes [OF this]]]]
  have free: "\<forall>t. rw_pc_of (release_read 0 rw_waiting) t \<notin> {RwReading, RwWriting}" unfolding p by auto
  have "rw_pc_of (release_read 0 rw_waiting) 1 = RwWaitWrite" unfolding p by simp
  then show ?thesis by (rule r [OF free, rule_format])
qed

text \<open>
  A writer that gives up does not notify: here the second reader goes on waiting, and has not
  been notified, although only a reader holds the lock and no writer waits any more.
\<close>

lemma expired_writer_wakes_nobody:
  "rw_step\<^sup>*\<^sup>* rw_init (write_turn True 1 rw_waiting) \<and> rw_pc_of (write_turn True 1 rw_waiting) 2 = RwWaitRead \<and>
   2 \<notin> rw_notified (write_turn True 1 rw_waiting) \<and> \<not> rw_writer_active (write_turn True 1 rw_waiting) \<and>
   rw_writers_waiting (write_turn True 1 rw_waiting) = 0"
proof -
  have "rw_step rw_waiting (write_turn True 1 rw_waiting)"
    by (rule wake_write) (simp add: rw_waiting_def rw_init_def acquire_read_def read_turn_def acquire_write_def write_turn_def at_def)
  then have "rw_step\<^sup>*\<^sup>* rw_init (write_turn True 1 rw_waiting)" by (rule rtranclp.rtrancl_into_rtrancl [OF rw_waiting_reachable])
  then show ?thesis
    by (simp add: rw_waiting_def rw_init_def acquire_read_def read_turn_def acquire_write_def write_turn_def at_def)
qed

end
