(* ===== verification/Cache_Policies.thy ===== *)
theory Cache_Policies
  imports Prelude
begin

text \<open>
  The cache policies of the in-process engine, lmcache/v1/storage_backend/cache_policy: LRU, LFU,
  FIFO and MRU. A policy decides which entries of the backend's dictionary make room for new
  ones; entries that are pinned or in use may not go. The dictionary is an association list in
  its insertion order, and move_to_end moves an entry to its end. The locale cache_policy is what
  the backend relies on. SortedDict comes from the package sortedcontainers: sd_items, a parameter,
  lists the items of a dictionary in the order of their keys.
\<close>

section \<open>LRU, FIFO and MRU\<close>

text \<open>
  chunk_hash_to_init_timestamp only serves the reuse metric; on_chunk_reuse is the list of the
  intervals told to the statistics monitor. A time stamp of 0 counts as none.
\<close>

record 'h lru_policy =
  chunk_hash_to_init_timestamp :: "('h, int) dict"
  max_num_chunk_hash :: nat
  on_chunk_reuse :: "int list"

definition lru_policy_init :: "'h lru_policy" where
  "lru_policy_init = \<lparr>chunk_hash_to_init_timestamp = [], max_num_chunk_hash = 12500000,
     on_chunk_reuse = []\<rparr>"

definition update_chunk_hash_dict :: "int \<Rightarrow> 'h \<Rightarrow> 'h lru_policy \<Rightarrow> 'h lru_policy" where
  "update_chunk_hash_dict curr_time key_hash p =
     (case map_of (chunk_hash_to_init_timestamp p) key_hash of
        Some t \<Rightarrow>
          if t \<noteq> 0 then p\<lparr>on_chunk_reuse := on_chunk_reuse p @ [curr_time - t]\<rparr>
          else p\<lparr>chunk_hash_to_init_timestamp := dict_set key_hash curr_time
                 (if max_num_chunk_hash p \<le> length (chunk_hash_to_init_timestamp p) then []
                  else chunk_hash_to_init_timestamp p)\<rparr>
      | None \<Rightarrow>
          p\<lparr>chunk_hash_to_init_timestamp := dict_set key_hash curr_time
              (if max_num_chunk_hash p \<le> length (chunk_hash_to_init_timestamp p) then []
               else chunk_hash_to_init_timestamp p)\<rparr>)"

text \<open>OrderedDict.move_to_end.\<close>

definition od_move_to_end :: "'k \<Rightarrow> ('k, 'v) dict \<Rightarrow> (unit, ('k, 'v) dict) outcome" where
  "od_move_to_end k d =
     (case map_of d k of None \<Rightarrow> (Inl KeyError, d) | Some v \<Rightarrow> (Inr (), dict_del k d @ [(k, v)]))"

text \<open>
  The loop of get_evict_candidates in lru.py, fifo.py and mru.py, over the items in the order
  given; can_evict reads the attribute of the cached value.
\<close>

fun evict_scan :: "('v \<Rightarrow> bool) \<Rightarrow> int \<Rightarrow> ('k, 'v) dict \<Rightarrow> 'k list \<Rightarrow> 'k list" where
  "evict_scan can_evict num_candidates [] evict_keys = evict_keys"
| "evict_scan can_evict num_candidates ((k, v) # items) evict_keys =
     (if \<not> can_evict v then evict_scan can_evict num_candidates items evict_keys
      else let evict_keys' = evict_keys @ [k]
           in if int (length evict_keys') = num_candidates then evict_keys'
              else evict_scan can_evict num_candidates items evict_keys')"

section \<open>LFU\<close>

text \<open>
  freq_to_keys maps a frequency to the keys used that often; those inner dictionaries map keys to
  None, so each is the list of its keys in insertion order.
\<close>

record 'k lfu_policy =
  freq_to_keys :: "(nat, 'k list) dict"
  key_to_freq :: "('k, nat) dict"

definition lfu_policy_init :: "'k lfu_policy" where
  "lfu_policy_init = \<lparr>freq_to_keys = [], key_to_freq = []\<rparr>"

text \<open>
  self.freq_to_keys[freq].pop(key), and dropping the bucket when it is empty: the two statements
  occur in update_on_hit, update_on_force_evict and get_evict_candidates.
\<close>

definition bucket_pop :: "nat \<Rightarrow> 'k \<Rightarrow> 'k lfu_policy \<Rightarrow> (unit, 'k lfu_policy) outcome" where
  "bucket_pop freq key p =
     (case map_of (freq_to_keys p) freq of
        None \<Rightarrow> (Inl KeyError, p)
      | Some ks \<Rightarrow>
          if key \<notin> set ks then (Inl KeyError, p)
          else let ks' = remove1 key ks
               in (Inr (), if ks' = [] then p\<lparr>freq_to_keys := dict_del freq (freq_to_keys p)\<rparr>
                           else p\<lparr>freq_to_keys := dict_set freq ks' (freq_to_keys p)\<rparr>))"

definition bucket_add :: "nat \<Rightarrow> 'k \<Rightarrow> 'k lfu_policy \<Rightarrow> 'k lfu_policy" where
  "bucket_add freq key p =
     (case map_of (freq_to_keys p) freq of
        None \<Rightarrow> p\<lparr>freq_to_keys := dict_set freq [key] (freq_to_keys p)\<rparr>
      | Some ks \<Rightarrow> p\<lparr>freq_to_keys := dict_set freq (if key \<in> set ks then ks else ks @ [key])
                      (freq_to_keys p)\<rparr>)"

definition lfu_update_on_hit :: "'k \<Rightarrow> 'k lfu_policy \<Rightarrow> (unit, 'k lfu_policy) outcome" where
  "lfu_update_on_hit key p =
     (case map_of (key_to_freq p) key of
        None \<Rightarrow> (Inl KeyError, p)
      | Some curr_freq \<Rightarrow>
          (case bucket_pop curr_freq key p of
             (Inl e, p1) \<Rightarrow> (Inl e, p1)
           | (Inr _, p1) \<Rightarrow>
               (Inr (), bucket_add (curr_freq + 1) key
                  (p1\<lparr>key_to_freq := dict_set key (curr_freq + 1) (key_to_freq p1)\<rparr>))))"

definition lfu_update_on_put :: "'k \<Rightarrow> 'k lfu_policy \<Rightarrow> 'k lfu_policy" where
  "lfu_update_on_put key p = bucket_add 1 key (p\<lparr>key_to_freq := dict_set key 1 (key_to_freq p)\<rparr>)"

definition lfu_update_on_force_evict :: "'k \<Rightarrow> 'k lfu_policy \<Rightarrow> (unit, 'k lfu_policy) outcome" where
  "lfu_update_on_force_evict key p =
     (case dict_pop key (key_to_freq p) of
        (None, k2f) \<Rightarrow> (Inr (), p\<lparr>key_to_freq := k2f\<rparr>)
      | (Some freq, k2f) \<Rightarrow>
          if freq = 0 then (Inr (), p\<lparr>key_to_freq := k2f\<rparr>)
          else bucket_pop freq key (p\<lparr>key_to_freq := k2f\<rparr>))"

text \<open>
  The inner loop of get_evict_candidates, over the keys of one bucket. chosen zips evict_freqs and
  evict_keys; every chosen key leaves key_to_freq at once.
\<close>

fun lfu_scan_bucket :: "('v \<Rightarrow> bool) \<Rightarrow> ('k, 'v) dict \<Rightarrow> int \<Rightarrow> nat \<Rightarrow> 'k list
    \<Rightarrow> (nat \<times> 'k) list \<times> ('k, nat) dict
    \<Rightarrow> (unit, (nat \<times> 'k) list \<times> ('k, nat) dict) outcome" where
  "lfu_scan_bucket can_evict cache_dict n f [] st = (Inr (), st)"
| "lfu_scan_bucket can_evict cache_dict n f (k # fifo_keys) (chosen, k2f) =
     (case map_of cache_dict k of
        None \<Rightarrow> (Inl KeyError, (chosen, k2f))
      | Some v \<Rightarrow>
          if \<not> can_evict v then lfu_scan_bucket can_evict cache_dict n f fifo_keys (chosen, k2f)
          else let chosen' = chosen @ [(f, k)]
               in if map_of k2f k = None then (Inl KeyError, (chosen', k2f))
                  else if int (length chosen') = n then (Inr (), (chosen', dict_del k k2f))
                  else lfu_scan_bucket can_evict cache_dict n f fifo_keys (chosen', dict_del k k2f))"

fun lfu_scan :: "('v \<Rightarrow> bool) \<Rightarrow> ('k, 'v) dict \<Rightarrow> int \<Rightarrow> (nat \<times> 'k list) list
    \<Rightarrow> (nat \<times> 'k) list \<times> ('k, nat) dict
    \<Rightarrow> (unit, (nat \<times> 'k) list \<times> ('k, nat) dict) outcome" where
  "lfu_scan can_evict cache_dict n [] st = (Inr (), st)"
| "lfu_scan can_evict cache_dict n ((f, fifo_keys) # buckets) st =
     (case lfu_scan_bucket can_evict cache_dict n f fifo_keys st of
        (Inl e, st') \<Rightarrow> (Inl e, st')
      | (Inr _, st') \<Rightarrow>
          if int (length (fst st')) = n then (Inr (), st')
          else lfu_scan can_evict cache_dict n buckets st')"

fun lfu_drop_chosen :: "(nat \<times> 'k) list \<Rightarrow> 'k lfu_policy \<Rightarrow> (unit, 'k lfu_policy) outcome" where
  "lfu_drop_chosen [] p = (Inr (), p)"
| "lfu_drop_chosen ((freq, key) # chosen) p =
     (case bucket_pop freq key p of
        (Inl e, p1) \<Rightarrow> (Inl e, p1)
      | (Inr _, p1) \<Rightarrow> lfu_drop_chosen chosen p1)"

definition lfu_get_evict_candidates :: "((nat, 'k list) dict \<Rightarrow> (nat \<times> 'k list) list)
    \<Rightarrow> ('v \<Rightarrow> bool) \<Rightarrow> ('k, 'v) dict \<Rightarrow> int \<Rightarrow> 'k lfu_policy \<Rightarrow> ('k list, 'k lfu_policy) outcome" where
  "lfu_get_evict_candidates sd_items can_evict cache_dict num_candidates p =
     (case lfu_scan can_evict cache_dict num_candidates (sd_items (freq_to_keys p))
             ([], key_to_freq p) of
        (Inl e, (_, k2f)) \<Rightarrow> (Inl e, p\<lparr>key_to_freq := k2f\<rparr>)
      | (Inr _, (chosen, k2f)) \<Rightarrow>
          (case lfu_drop_chosen chosen (p\<lparr>key_to_freq := k2f\<rparr>) of
             (Inl e, p1) \<Rightarrow> (Inl e, p1)
           | (Inr _, p1) \<Rightarrow> (Inr (map snd chosen), p1)))"

section \<open>The factory and the operations of a policy\<close>

datatype ('k, 'h) cache_policy =
    LRUCachePolicy "'h lru_policy"
  | LFUCachePolicy "'k lfu_policy"
  | FIFOCachePolicy
  | MRUCachePolicy

fun ascii_upper :: "char \<Rightarrow> char" where
  "ascii_upper c = (if 97 \<le> (of_char c :: nat) \<and> of_char c \<le> (122 :: nat)
     then char_of ((of_char c :: nat) - 32) else c)"

definition get_cache_policy :: "string \<Rightarrow> py_error + ('k, 'h) cache_policy" where
  "get_cache_policy policy_name =
     (if policy_name = [] then Inl ValueError
      else let upper_policy_name = map ascii_upper policy_name
           in if upper_policy_name = ''LRU'' then Inr (LRUCachePolicy lru_policy_init)
              else if upper_policy_name = ''LFU'' then Inr (LFUCachePolicy lfu_policy_init)
              else if upper_policy_name = ''FIFO'' then Inr FIFOCachePolicy
              else if upper_policy_name = ''MRU'' then Inr MRUCachePolicy
              else Inl ValueError)"

text \<open>
  The calls see the policy and the backend's dictionary. chunk_hash_of is the chunk hash of a
  CacheEngineKey.
\<close>

fun update_on_hit :: "('k \<Rightarrow> 'h) \<Rightarrow> int \<Rightarrow> 'k \<Rightarrow> ('k, 'h) cache_policy \<times> ('k, 'v) dict
    \<Rightarrow> (unit, ('k, 'h) cache_policy \<times> ('k, 'v) dict) outcome" where
  "update_on_hit chunk_hash_of now key (LRUCachePolicy p, cache_dict) =
     (case od_move_to_end key cache_dict of
        (r, cache_dict') \<Rightarrow>
          (r, (LRUCachePolicy (update_chunk_hash_dict now (chunk_hash_of key) p), cache_dict')))"
| "update_on_hit chunk_hash_of now key (LFUCachePolicy p, cache_dict) =
     (case lfu_update_on_hit key p of (r, p') \<Rightarrow> (r, (LFUCachePolicy p', cache_dict)))"
| "update_on_hit chunk_hash_of now key (FIFOCachePolicy, cache_dict) =
     (Inr (), (FIFOCachePolicy, cache_dict))"
| "update_on_hit chunk_hash_of now key (MRUCachePolicy, cache_dict) =
     (case od_move_to_end key cache_dict of
        (r, cache_dict') \<Rightarrow> (r, (MRUCachePolicy, cache_dict')))"

fun update_on_put :: "('k \<Rightarrow> 'h) \<Rightarrow> int \<Rightarrow> 'k \<Rightarrow> ('k, 'h) cache_policy \<Rightarrow> ('k, 'h) cache_policy" where
  "update_on_put chunk_hash_of now key (LRUCachePolicy p) =
     LRUCachePolicy (update_chunk_hash_dict now (chunk_hash_of key) p)"
| "update_on_put chunk_hash_of now key (LFUCachePolicy p) = LFUCachePolicy (lfu_update_on_put key p)"
| "update_on_put chunk_hash_of now key FIFOCachePolicy = FIFOCachePolicy"
| "update_on_put chunk_hash_of now key MRUCachePolicy = MRUCachePolicy"

fun update_on_force_evict :: "'k \<Rightarrow> ('k, 'h) cache_policy \<Rightarrow> (unit, ('k, 'h) cache_policy) outcome" where
  "update_on_force_evict key (LFUCachePolicy p) =
     (case lfu_update_on_force_evict key p of (r, p') \<Rightarrow> (r, LFUCachePolicy p'))"
| "update_on_force_evict key (LRUCachePolicy p) = (Inr (), LRUCachePolicy p)"
| "update_on_force_evict key FIFOCachePolicy = (Inr (), FIFOCachePolicy)"
| "update_on_force_evict key MRUCachePolicy = (Inr (), MRUCachePolicy)"

fun get_evict_candidates :: "((nat, 'k list) dict \<Rightarrow> (nat \<times> 'k list) list) \<Rightarrow> ('v \<Rightarrow> bool)
    \<Rightarrow> ('k, 'v) dict \<Rightarrow> int \<Rightarrow> ('k, 'h) cache_policy \<Rightarrow> ('k list, ('k, 'h) cache_policy) outcome" where
  "get_evict_candidates sd_items can_evict cache_dict num_candidates (LRUCachePolicy p) =
     (Inr (evict_scan can_evict num_candidates cache_dict []), LRUCachePolicy p)"
| "get_evict_candidates sd_items can_evict cache_dict num_candidates (LFUCachePolicy p) =
     (case lfu_get_evict_candidates sd_items can_evict cache_dict num_candidates p of
        (r, p') \<Rightarrow> (r, LFUCachePolicy p'))"
| "get_evict_candidates sd_items can_evict cache_dict num_candidates FIFOCachePolicy =
     (Inr (evict_scan can_evict num_candidates cache_dict []), FIFOCachePolicy)"
| "get_evict_candidates sd_items can_evict cache_dict num_candidates MRUCachePolicy =
     (Inr (evict_scan can_evict num_candidates (rev cache_dict) []), MRUCachePolicy)"

section \<open>The scans\<close>

lemma evict_scan_take:
  "int (length acc) < n \<Longrightarrow>
     evict_scan ce n d acc = acc @ take (nat n - length acc) (map fst (filter (ce \<circ> snd) d))"
proof (induction d arbitrary: acc)
  case Nil
  then show ?case by simp
next
  case (Cons e d)
  obtain k v where e: "e = (k, v)" by (cases e)
  show ?case
  proof (cases "ce v")
    case False
    then show ?thesis using Cons by (simp add: e)
  next
    case True
    show ?thesis
    proof (cases "int (length (acc @ [k])) = n")
      case full: True
      then have "nat n - length acc = Suc 0" by simp
      then show ?thesis using True full by (simp add: e)
    next
      case False
      then have "int (length (acc @ [k])) < n" using Cons.prems by simp
      then have "evict_scan ce n d (acc @ [k]) =
          (acc @ [k]) @ take (nat n - length (acc @ [k])) (map fst (filter (ce \<circ> snd) d))"
        by (rule Cons.IH)
      moreover have "nat n - length acc = Suc (nat n - length (acc @ [k]))"
        using \<open>int (length (acc @ [k])) < n\<close> by simp
      ultimately show ?thesis using True False by (simp add: e comp_def)
    qed
  qed
qed

definition sd_items_ok :: "((nat, 'k list) dict \<Rightarrow> (nat \<times> 'k list) list) \<Rightarrow> bool" where
  "sd_items_ok sd_items \<longleftrightarrow> (\<forall>d. distinct (dict_keys d) \<longrightarrow>
     mset (sd_items d) = mset d \<and> sorted (map fst (sd_items d)))"

lemma sort_items_ok: "sd_items_ok (sort_key fst)"
  by (simp add: sd_items_ok_def)

definition flat :: "(nat \<times> 'k list) list \<Rightarrow> (nat \<times> 'k) list" where
  "flat buckets = concat (map (\<lambda>(f, ks). map (Pair f) ks) buckets)"

lemma flat_simps [simp]:
  "flat [] = []" "flat ((f, ks) # bs) = map (Pair f) ks @ flat bs"
  by (simp_all add: flat_def)

definition evictable :: "('v \<Rightarrow> bool) \<Rightarrow> ('k, 'v) dict \<Rightarrow> 'k \<Rightarrow> bool" where
  "evictable ce d k \<longleftrightarrow> (case map_of d k of None \<Rightarrow> False | Some v \<Rightarrow> ce v)"

lemma evictable_keys: "Collect (evictable ce d) \<subseteq> set (dict_keys d)"
proof
  fix k
  assume "k \<in> Collect (evictable ce d)"
  then have "map_of d k \<noteq> None" by (auto simp: evictable_def split: option.splits)
  then show "k \<in> set (dict_keys d)" unfolding dict_in_keys_iff .
qed

definition without :: "'k set \<Rightarrow> ('k, 'v) dict \<Rightarrow> ('k, 'v) dict" where
  "without K d = filter (\<lambda>e. fst e \<notin> K) d"

lemma without_empty [simp]: "without {} d = d"
  by (simp add: without_def)

lemma without_dict_del [simp]: "without K (dict_del k d) = without (insert k K) d"
  by (auto simp: without_def AList.delete_eq intro: filter_cong)

lemma map_of_without [simp]: "map_of (without K d) k = (if k \<in> K then None else map_of d k)"
  by (induction d) (auto simp: without_def)

lemma distinct_without [simp]: "distinct (dict_keys d) \<Longrightarrow> distinct (dict_keys (without K d))"
  by (simp add: without_def distinct_map_filter)

lemma without_without [simp]: "without K (without L d) = without (K \<union> L) d"
  by (auto simp: without_def intro: filter_cong)

lemma lfu_scan_bucket_take:
  assumes "int (length chosen) < n" and "distinct ks"
    and "\<forall>k \<in> set ks. k \<in> set (dict_keys d) \<and> map_of k2f k \<noteq> None"
    and "new = take (nat n - length chosen) (filter (evictable ce d) ks)"
  shows "lfu_scan_bucket ce d n f ks (chosen, k2f) =
    (Inr (), (chosen @ map (Pair f) new, without (set new) k2f))"
  using assms
proof (induction ks arbitrary: chosen k2f new)
  case Nil
  then show ?case by simp
next
  case (Cons k ks)
  have "k \<in> set (dict_keys d)" using Cons.prems(3) by simp
  then obtain v where v: "map_of d k = Some v" unfolding dict_in_keys_iff by blast
  from Cons.prems(3) have k2: "map_of k2f k \<noteq> None" by simp
  show ?case
  proof (cases "ce v")
    case False
    then have "\<not> evictable ce d k" by (simp add: evictable_def v)
    then have "new = take (nat n - length chosen) (filter (evictable ce d) ks)"
      using Cons.prems(4) by simp
    then have "lfu_scan_bucket ce d n f ks (chosen, k2f) =
        (Inr (), (chosen @ map (Pair f) new, without (set new) k2f))"
      by (intro Cons.IH) (use Cons.prems in auto)
    then show ?thesis using v False by simp
  next
    case True
    then have ev: "evictable ce d k" by (simp add: evictable_def v)
    let ?c = "chosen @ [(f, k)]"
    show ?thesis
    proof (cases "int (length ?c) = n")
      case full: True
      then have "nat n - length chosen = Suc 0" by simp
      then have "new = [k]" using Cons.prems(4) ev by simp
      moreover have "dict_del k k2f = without {k} k2f"
        by (auto simp: without_def AList.delete_eq intro: filter_cong)
      ultimately show ?thesis using v True k2 full by (auto simp: Let_def)
    next
      case False
      then have less: "int (length ?c) < n" using Cons.prems(1) by simp
      define rest where "rest = take (nat n - length ?c) (filter (evictable ce d) ks)"
      have "nat n - length chosen = Suc (nat n - length ?c)" using less by simp
      then have new: "new = k # rest" using Cons.prems(4) ev by (simp add: rest_def)
      have "lfu_scan_bucket ce d n f ks (?c, dict_del k k2f) =
          (Inr (), (?c @ map (Pair f) rest, without (set rest) (dict_del k k2f)))"
        by (intro Cons.IH) (use Cons.prems less rest_def in \<open>auto simp: dict_simps\<close>)
      moreover have "lfu_scan_bucket ce d n f (k # ks) (chosen, k2f) =
          lfu_scan_bucket ce d n f ks (?c, dict_del k k2f)"
        using v True k2 False by (auto simp: Let_def)
      ultimately show ?thesis by (simp add: new)
    qed
  qed
qed

lemma lfu_scan_take:
  assumes "int (length chosen) < n" and "distinct (map snd (flat bs))"
    and "\<forall>k \<in> set (map snd (flat bs)). k \<in> set (dict_keys d) \<and> map_of k2f k \<noteq> None"
    and "new = take (nat n - length chosen) (filter (evictable ce d \<circ> snd) (flat bs))"
  shows "lfu_scan ce d n bs (chosen, k2f) =
    (Inr (), (chosen @ new, without (set (map snd new)) k2f))"
  using assms
proof (induction bs arbitrary: chosen k2f new)
  case Nil
  then show ?case by simp
next
  case (Cons b bs)
  obtain f ks where b: "b = (f, ks)" by (cases b)
  define mine where "mine = take (nat n - length chosen) (filter (evictable ce d) ks)"
  have ks: "filter (evictable ce d \<circ> snd) (map (Pair f) ks) = map (Pair f) (filter (evictable ce d) ks)"
    by (simp add: filter_map comp_def)
  have dist: "distinct ks" using Cons.prems(2) by (simp add: b comp_def)
  have bucket: "lfu_scan_bucket ce d n f ks (chosen, k2f) =
      (Inr (), (chosen @ map (Pair f) mine, without (set mine) k2f))"
    by (rule lfu_scan_bucket_take [OF Cons.prems(1) dist _ mine_def]) (use Cons.prems(3) b in auto)
  show ?case
  proof (cases "int (length (chosen @ map (Pair f) mine)) = n")
    case True
    then have "length mine = nat n - length chosen" by simp
    then have "nat n - length chosen \<le> length (filter (evictable ce d) ks)" by (simp add: mine_def)
    then have "new = map (Pair f) mine"
      using Cons.prems(4) by (simp add: b mine_def take_map ks [unfolded comp_def] comp_def)
    then show ?thesis using bucket True by (simp add: b comp_def)
  next
    case False
    then have less: "int (length (chosen @ map (Pair f) mine)) < n"
      using Cons.prems(1) by (simp add: mine_def)
    then have short: "length (filter (evictable ce d) ks) < nat n - length chosen"
      by (simp add: mine_def)
    then have mine: "mine = filter (evictable ce d) ks" by (simp add: mine_def)
    define rest where "rest = take (nat n - length (chosen @ map (Pair f) mine))
      (filter (evictable ce d \<circ> snd) (flat bs))"
    have new: "new = map (Pair f) mine @ rest"
      using Cons.prems(4) short
      by (simp add: b rest_def mine ks [unfolded comp_def] comp_def diff_diff_left)
    have "lfu_scan ce d n bs (chosen @ map (Pair f) mine, without (set mine) k2f) =
        (Inr (), ((chosen @ map (Pair f) mine) @ rest,
                  without (set (map snd rest)) (without (set mine) k2f)))"
    proof (rule Cons.IH [OF less _ _ rest_def])
      show "distinct (map snd (flat bs))" using Cons.prems(2) by (simp add: b)
      show "\<forall>k \<in> set (map snd (flat bs)).
          k \<in> set (dict_keys d) \<and> map_of (without (set mine) k2f) k \<noteq> None"
        using Cons.prems(2,3) by (auto simp: b mine comp_def)
    qed
    then show ?thesis using bucket less by (simp add: b new comp_def Un_commute)
  qed
qed

section \<open>LFU refines a list of counted uses\<close>

text \<open>
  The abstract state is one list of the keys with their use counts, the key used last at the end.
  A put appends the key with count 1, a hit moves the key to the end with one more, an eviction
  deletes it. The candidates are the first evictable keys in the order of the counts, the list's
  order among equal counts.
\<close>

type_synonym 'k uses = "(nat \<times> 'k) list"

definition uses_without :: "'k set \<Rightarrow> 'k uses \<Rightarrow> 'k uses" where
  "uses_without K us = filter (\<lambda>u. snd u \<notin> K) us"

definition bucket_of :: "'k lfu_policy \<Rightarrow> nat \<Rightarrow> 'k list" where
  "bucket_of p f = (case map_of (freq_to_keys p) f of None \<Rightarrow> [] | Some ks \<Rightarrow> ks)"

definition buckets_ok :: "'k lfu_policy \<Rightarrow> 'k uses \<Rightarrow> bool" where
  "buckets_ok p us \<longleftrightarrow> distinct (map snd us) \<and> distinct (dict_keys (freq_to_keys p)) \<and>
     (\<forall>f. bucket_of p f = map snd (filter (\<lambda>u. fst u = f) us)) \<and>
     (\<forall>f. map_of (freq_to_keys p) f \<noteq> Some [])"

definition lfu_refines :: "'k lfu_policy \<Rightarrow> 'k uses \<Rightarrow> bool" where
  "lfu_refines p us \<longleftrightarrow> buckets_ok p us \<and> (\<forall>u \<in> set us. 0 < fst u) \<and>
     (\<forall>k f. map_of (key_to_freq p) k = Some f \<longleftrightarrow> (f, k) \<in> set us)"

lemma buckets_ok_cong [simp]: "buckets_ok (p\<lparr>key_to_freq := d\<rparr>) us = buckets_ok p us"
  by (simp add: buckets_ok_def bucket_of_def)

lemma lfu_refines_init: "lfu_refines lfu_policy_init []"
  by (simp add: lfu_refines_def buckets_ok_def bucket_of_def lfu_policy_init_def)

lemma uses_without_simps [simp]:
  "set (uses_without K us) = {u \<in> set us. snd u \<notin> K}"
  "uses_without {} us = us"
  "uses_without K (uses_without L us) = uses_without (K \<union> L) us"
  by (auto simp: uses_without_def intro: filter_cong)

lemma distinct_uses_without [simp]:
  "distinct (map snd us) \<Longrightarrow> distinct (map snd (uses_without K us))"
  by (simp add: uses_without_def distinct_map_filter)

lemma bucket_pop_ok:
  assumes ok: "buckets_ok p us" and u: "(f, k) \<in> set us"
  shows "\<exists>p'. bucket_pop f k p = (Inr (), p') \<and> buckets_ok p' (uses_without {k} us) \<and>
    key_to_freq p' = key_to_freq p"
proof -
  have dist: "distinct (map snd us)" using ok by (simp add: buckets_ok_def)
  have keys: "distinct (dict_keys (freq_to_keys p))" using ok by (simp add: buckets_ok_def)
  have b: "bucket_of p g = map snd (filter (\<lambda>u. fst u = g) us)" for g
    using ok by (simp add: buckets_ok_def)
  have ne: "map_of (freq_to_keys p) g \<noteq> Some []" for g using ok by (simp add: buckets_ok_def)
  have kin: "k \<in> set (bucket_of p f)" using u by (force simp: b)
  then obtain ks where ks: "map_of (freq_to_keys p) f = Some ks" "k \<in> set ks"
    by (cases "map_of (freq_to_keys p) f") (auto simp: bucket_of_def)
  have ksb: "ks = map snd (filter (\<lambda>u. fst u = f) us)" using b [of f] ks by (simp add: bucket_of_def)
  have "distinct ks" using dist by (simp add: ksb distinct_map_filter)
  then have r1: "remove1 k ks = map snd (filter (\<lambda>u. fst u = f) (uses_without {k} us))"
    unfolding ksb uses_without_def
    by (simp add: distinct_remove1_removeAll removeAll_filter_not_eq filter_map comp_def
        conj_commute eq_commute)
  have other: "filter (\<lambda>u. fst u = g) (uses_without {k} us) = filter (\<lambda>u. fst u = g) us"
    if "g \<noteq> f" for g
  proof -
    have "snd w \<noteq> k" if "w \<in> set us" "fst w = g" for w
    proof
      assume "snd w = k"
      then have "w = (f, k)" using dist that(1) u by (metis eq_key_imp_eq_value inj_on_def snd_conv
            distinct_map)
      then show False using \<open>fst w = g\<close> \<open>g \<noteq> f\<close> by simp
    qed
    then show ?thesis by (auto simp: uses_without_def intro!: filter_cong)
  qed
  let ?p = "if remove1 k ks = [] then p\<lparr>freq_to_keys := dict_del f (freq_to_keys p)\<rparr>
    else p\<lparr>freq_to_keys := dict_set f (remove1 k ks) (freq_to_keys p)\<rparr>"
  have "bucket_pop f k p = (Inr (), ?p)" using ks by (simp add: bucket_pop_def Let_def)
  moreover have "buckets_ok ?p (uses_without {k} us)"
    unfolding buckets_ok_def
  proof (intro conjI allI)
    show "distinct (map snd (uses_without {k} us))" using dist by simp
    show "distinct (dict_keys (freq_to_keys ?p))" using keys by simp
    show "bucket_of ?p g = map snd (filter (\<lambda>u. fst u = g) (uses_without {k} us))" for g
      using b [of g] other [of g] r1 by (cases "g = f") (auto simp: bucket_of_def dict_simps)
    show "map_of (freq_to_keys ?p) g \<noteq> Some []" for g
      using ne [of g] by (auto simp: dict_simps)
  qed
  moreover have "key_to_freq ?p = key_to_freq p" by simp
  ultimately show ?thesis by blast
qed

lemma bucket_add_ok:
  assumes ok: "buckets_ok p us" and new: "k \<notin> snd ` set us"
  shows "buckets_ok (bucket_add f k p) (us @ [(f, k)])"
proof -
  have b: "bucket_of p g = map snd (filter (\<lambda>u. fst u = g) us)" for g
    using ok by (simp add: buckets_ok_def)
  have "k \<notin> set (bucket_of p f)" using new by (auto simp: b)
  then have eq: "bucket_add f k p =
      p\<lparr>freq_to_keys := dict_set f (bucket_of p f @ [k]) (freq_to_keys p)\<rparr>"
    by (auto simp: bucket_add_def bucket_of_def split: option.splits)
  show ?thesis
    using ok new b unfolding eq
    by (auto simp: buckets_ok_def bucket_of_def dict_simps)
qed

lemma key_to_freq_bucket_add [simp]: "key_to_freq (bucket_add f k p) = key_to_freq p"
  by (simp add: bucket_add_def split: option.splits)

lemma lfu_drop_chosen_ok:
  assumes "buckets_ok p us" and "set chosen \<subseteq> set us" and "distinct (map snd chosen)"
  shows "\<exists>p'. lfu_drop_chosen chosen p = (Inr (), p') \<and>
    buckets_ok p' (uses_without (set (map snd chosen)) us) \<and> key_to_freq p' = key_to_freq p"
  using assms
proof (induction chosen arbitrary: p us)
  case Nil
  then show ?case by simp
next
  case (Cons c chosen)
  obtain f k where c: "c = (f, k)" by (cases c)
  obtain p1 where p1: "bucket_pop f k p = (Inr (), p1)" "buckets_ok p1 (uses_without {k} us)"
    "key_to_freq p1 = key_to_freq p"
    using bucket_pop_ok [OF Cons.prems(1), of f k] Cons.prems(2) by (auto simp: c)
  have "set chosen \<subseteq> set (uses_without {k} us)" "distinct (map snd chosen)"
    using Cons.prems(2,3) by (auto simp: c)
  from Cons.IH [OF p1(2) this] show ?case by (auto simp: c p1)
qed

lemma lfu_put_ok:
  assumes ok: "lfu_refines p us" and new: "k \<notin> snd ` set us"
  shows "lfu_refines (lfu_update_on_put k p) (us @ [(1, k)])"
proof -
  have "buckets_ok (p\<lparr>key_to_freq := dict_set k 1 (key_to_freq p)\<rparr>) us"
    using ok by (simp add: lfu_refines_def)
  from bucket_add_ok [OF this new] show ?thesis
    using ok new by (force simp: lfu_refines_def lfu_update_on_put_def dict_simps)
qed

lemma uses_inj:
  assumes "distinct (map snd us)" "(f, k) \<in> set us" "(g, k) \<in> set us"
  shows "f = g"
  using assms by (metis distinct_map inj_on_def prod.inject snd_conv)

lemma lfu_hit_ok:
  assumes ok: "lfu_refines p us" and u: "(f, k) \<in> set us"
  shows "\<exists>p'. lfu_update_on_hit k p = (Inr (), p') \<and>
    lfu_refines p' (uses_without {k} us @ [(f + 1, k)])"
proof -
  have dist: "distinct (map snd us)" using ok by (simp add: lfu_refines_def buckets_ok_def)
  have f: "map_of (key_to_freq p) k = Some f" using ok u by (simp add: lfu_refines_def)
  obtain p1 where p1: "bucket_pop f k p = (Inr (), p1)" "buckets_ok p1 (uses_without {k} us)"
    "key_to_freq p1 = key_to_freq p"
    using bucket_pop_ok [OF _ u, of p] ok unfolding lfu_refines_def by blast
  define p2 where "p2 = bucket_add (f + 1) k (p1\<lparr>key_to_freq := dict_set k (f + 1) (key_to_freq p1)\<rparr>)"
  have hit: "lfu_update_on_hit k p = (Inr (), p2)"
    using f p1 by (simp add: lfu_update_on_hit_def p2_def)
  have "buckets_ok (p1\<lparr>key_to_freq := dict_set k (f + 1) (key_to_freq p1)\<rparr>) (uses_without {k} us)"
    using p1 by simp
  then have b: "buckets_ok p2 (uses_without {k} us @ [(f + 1, k)])"
    unfolding p2_def by (rule bucket_add_ok) auto
  have k: "map_of (key_to_freq p2) j = Some g \<longleftrightarrow>
      (g, j) \<in> set (uses_without {k} us @ [(f + 1, k)])" for j g
    using ok p1(3) by (auto simp: p2_def lfu_refines_def dict_simps)
  show ?thesis using hit b k ok by (auto simp: lfu_refines_def)
qed

lemma lfu_force_evict_ok:
  assumes ok: "lfu_refines p us"
  shows "\<exists>p'. lfu_update_on_force_evict k p = (Inr (), p') \<and> lfu_refines p' (uses_without {k} us)"
proof (cases "map_of (key_to_freq p) k")
  case None
  then have "k \<notin> snd ` set us" using ok by (force simp: lfu_refines_def)
  then have "uses_without {k} us = us" by (auto simp: uses_without_def intro!: filter_True)
  moreover have "dict_del k (key_to_freq p) = key_to_freq p"
    using None by (simp add: map_of_eq_None_iff AList.delete_id)
  ultimately show ?thesis
    using ok None by (simp add: lfu_update_on_force_evict_def dict_pop_def)
next
  case (Some f)
  then have u: "(f, k) \<in> set us" using ok by (simp add: lfu_refines_def)
  then have "f \<noteq> 0" using ok by (auto simp: lfu_refines_def)
  obtain p' where p': "bucket_pop f k (p\<lparr>key_to_freq := dict_del k (key_to_freq p)\<rparr>) = (Inr (), p')"
    "buckets_ok p' (uses_without {k} us)" "key_to_freq p' = dict_del k (key_to_freq p)"
    using bucket_pop_ok [OF _ u, of "p\<lparr>key_to_freq := dict_del k (key_to_freq p)\<rparr>"] ok
    by (auto simp: lfu_refines_def)
  have "lfu_refines p' (uses_without {k} us)"
    using ok p' by (auto simp: lfu_refines_def dict_simps)
  then show ?thesis
    using Some \<open>f \<noteq> 0\<close> p'(1) by (simp add: lfu_update_on_force_evict_def dict_pop_def)
qed

text \<open>The order of the buckets is the stable sort of the uses by their counts.\<close>

lemma filter_flat:
  assumes "distinct (map fst bs)"
  shows "filter (\<lambda>u. fst u = f) (flat bs) =
    map (Pair f) (case map_of bs f of None \<Rightarrow> [] | Some ks \<Rightarrow> ks)"
  using assms
proof (induction bs)
  case (Cons b bs)
  obtain g ks where b: "b = (g, ks)" by (cases b)
  show ?case
  proof (cases "g = f")
    case True
    then have "map_of bs f = None" using Cons.prems by (simp add: b map_of_eq_None_iff)
    then show ?thesis using True Cons by (simp add: b filter_map comp_def)
  next
    case False
    then show ?thesis using Cons by (simp add: b filter_map comp_def)
  qed
qed simp

lemma sorted_flat: "sorted (map fst bs) \<Longrightarrow> sorted (map fst (flat bs))"
proof (induction bs)
  case (Cons b bs)
  obtain f ks where b: "b = (f, ks)" by (cases b)
  have "\<forall>u \<in> set (flat bs). f \<le> fst u" using Cons.prems by (force simp: b flat_def)
  moreover have "sorted (map fst (map (Pair f) ks))"
    by (simp add: sorted_iff_nth_mono)
  ultimately show ?case using Cons by (auto simp: b sorted_append)
qed simp

lemma mset_filter_eqI:
  assumes "\<And>f. filter (\<lambda>u. fst u = f) xs = filter (\<lambda>u. fst u = f) ys"
  shows "mset xs = mset ys"
proof (rule multiset_eqI)
  fix x
  have "count (mset zs) x = count (mset (filter (\<lambda>u. fst u = fst x) zs)) x" for zs :: "('a \<times> 'b) list"
    by (simp add: mset_filter)
  then show "count (mset xs) x = count (mset ys) x" by (metis assms)
qed

lemma flat_items_sorted_uses:
  assumes sd: "sd_items_ok sd_items" and ok: "buckets_ok p us"
  shows "flat (sd_items (freq_to_keys p)) = sort_key fst us"
proof -
  let ?items = "sd_items (freq_to_keys p)"
  have keys: "distinct (dict_keys (freq_to_keys p))" using ok by (simp add: buckets_ok_def)
  then have ms: "mset ?items = mset (freq_to_keys p)" and srt: "sorted (map fst ?items)"
    using sd by (simp_all add: sd_items_ok_def)
  have dist: "distinct (map fst ?items)"
    using keys ms by (metis mset_eq_imp_distinct_iff mset_map)
  have "map_of ?items = map_of (freq_to_keys p)"
    using dist keys ms by (metis map_of_inject_set set_mset_mset)
  then have fl: "filter (\<lambda>u. fst u = f) (flat ?items) = filter (\<lambda>u. fst u = f) us" for f
  proof -
    assume eq: "map_of ?items = map_of (freq_to_keys p)"
    have "bucket_of p f = map snd (filter (\<lambda>u. fst u = f) us)" using ok by (simp add: buckets_ok_def)
    moreover have "map (Pair f) (map snd (filter (\<lambda>u. fst u = f) us)) = filter (\<lambda>u. fst u = f) us"
      by (auto intro: map_idI)
    ultimately show ?thesis by (simp add: filter_flat [OF dist] eq bucket_of_def)
  qed
  show ?thesis
  proof (rule properties_for_sort_key [symmetric])
    show "mset (flat ?items) = mset us" by (rule mset_filter_eqI) (rule fl)
    show "filter (\<lambda>x. fst k = fst x) (flat ?items) = filter (\<lambda>x. fst k = fst x) us"
      if "k \<in> set (flat ?items)" for k
      using fl [of "fst k"] by (simp add: eq_commute)
    show "sorted (map fst (flat ?items))" using srt by (rule sorted_flat)
  qed
qed

definition lfu_spec_candidates :: "('k \<Rightarrow> bool) \<Rightarrow> nat \<Rightarrow> 'k uses \<Rightarrow> 'k list" where
  "lfu_spec_candidates ev n us = take n (filter ev (map snd (sort_key fst us)))"

lemma lfu_candidates_ok:
  assumes sd: "sd_items_ok sd_items" and ok: "lfu_refines p us" and n: "0 < n"
    and cached: "snd ` set us \<subseteq> set (dict_keys d)"
    and ks: "ks = lfu_spec_candidates (evictable ce d) (nat n) us"
  shows "\<exists>p'. lfu_get_evict_candidates sd_items ce d n p = (Inr ks, p') \<and>
    lfu_refines p' (uses_without (set ks) us)"
proof -
  have bk: "buckets_ok p us" using ok by (simp add: lfu_refines_def)
  note fl = flat_items_sorted_uses [OF sd bk]
  have dist: "distinct (map snd us)" using bk by (simp add: buckets_ok_def)
  then have dists: "distinct (map snd (sort_key fst us))"
    by (metis mset_eq_imp_distinct_iff mset_map mset_sort)
  define new where "new = take (nat n) (filter (evictable ce d \<circ> snd) (sort_key fst us))"
  have ksn: "ks = map snd new"
    by (simp add: ks lfu_spec_candidates_def new_def take_map filter_map)
  have k2: "map_of (key_to_freq p) k \<noteq> None" if "k \<in> snd ` set us" for k
  proof -
    from that obtain f where "(f, k) \<in> set us" by auto
    then have "map_of (key_to_freq p) k = Some f" using ok by (simp add: lfu_refines_def)
    then show ?thesis by simp
  qed
  have scan: "lfu_scan ce d n (sd_items (freq_to_keys p)) ([], key_to_freq p) =
      (Inr (), ([] @ new, without (set (map snd new)) (key_to_freq p)))"
    by (rule lfu_scan_take) (use n dists cached k2 in \<open>auto simp: fl new_def\<close>)
  let ?p = "p\<lparr>key_to_freq := without (set ks) (key_to_freq p)\<rparr>"
  have sub: "set new \<subseteq> set us" using set_take_subset by (fastforce simp: new_def)
  have dn: "distinct (map snd new)"
    using dists unfolding new_def take_map [symmetric]
    by (intro distinct_take) (simp add: distinct_map_filter)
  have "buckets_ok ?p us" using bk by simp
  from lfu_drop_chosen_ok [OF this sub dn] obtain p'
    where p': "lfu_drop_chosen new ?p = (Inr (), p')"
      "buckets_ok p' (uses_without (set ks) us)" "key_to_freq p' = without (set ks) (key_to_freq p)"
    by (auto simp: ksn)
  have "lfu_refines p' (uses_without (set ks) us)"
    using ok p'(2,3) by (auto simp: lfu_refines_def)
  moreover have "lfu_get_evict_candidates sd_items ce d n p = (Inr ks, p')"
    using scan p'(1) by (simp add: lfu_get_evict_candidates_def ksn)
  ultimately show ?thesis by blast
qed

text \<open>Histories of the policy: the calls its backend makes, and the same calls on the uses.\<close>

datatype ('k, 'v) lfu_call =
    LfuPut 'k
  | LfuHit 'k
  | LfuForceEvict 'k
  | LfuCandidates "('k, 'v) dict" int

definition lfu_call :: "((nat, 'k list) dict \<Rightarrow> (nat \<times> 'k list) list) \<Rightarrow> ('v \<Rightarrow> bool)
    \<Rightarrow> ('k, 'v) lfu_call \<Rightarrow> 'k lfu_policy \<Rightarrow> ('k list, 'k lfu_policy) outcome" where
  "lfu_call sd_items ce c p = (case c of
     LfuPut k \<Rightarrow> (Inr [], lfu_update_on_put k p)
   | LfuHit k \<Rightarrow> (case lfu_update_on_hit k p of (r, p') \<Rightarrow> (map_sum id (\<lambda>_. []) r, p'))
   | LfuForceEvict k \<Rightarrow> (case lfu_update_on_force_evict k p of (r, p') \<Rightarrow> (map_sum id (\<lambda>_. []) r, p'))
   | LfuCandidates d n \<Rightarrow> lfu_get_evict_candidates sd_items ce d n p)"

fun lfu_calls :: "((nat, 'k list) dict \<Rightarrow> (nat \<times> 'k list) list) \<Rightarrow> ('v \<Rightarrow> bool)
    \<Rightarrow> ('k, 'v) lfu_call list \<Rightarrow> 'k lfu_policy \<Rightarrow> (py_error + 'k list) list" where
  "lfu_calls sd_items ce [] p = []"
| "lfu_calls sd_items ce (c # cs) p =
     (case lfu_call sd_items ce c p of (r, p') \<Rightarrow> r # lfu_calls sd_items ce cs p')"

definition uses_call :: "('v \<Rightarrow> bool) \<Rightarrow> ('k, 'v) lfu_call \<Rightarrow> 'k uses \<Rightarrow> 'k list \<times> 'k uses" where
  "uses_call ce c us = (case c of
     LfuPut k \<Rightarrow> ([], us @ [(1, k)])
   | LfuHit k \<Rightarrow> ([], uses_without {k} us @ [(Suc (the (map_of (map prod.swap us) k)), k)])
   | LfuForceEvict k \<Rightarrow> ([], uses_without {k} us)
   | LfuCandidates d n \<Rightarrow>
       (let ks = lfu_spec_candidates (evictable ce d) (nat n) us in (ks, uses_without (set ks) us)))"

fun uses_calls :: "('v \<Rightarrow> bool) \<Rightarrow> ('k, 'v) lfu_call list \<Rightarrow> 'k uses \<Rightarrow> 'k list list" where
  "uses_calls ce [] us = []"
| "uses_calls ce (c # cs) us = (case uses_call ce c us of (r, us') \<Rightarrow> r # uses_calls ce cs us')"

text \<open>What the backend keeps to: it puts new keys, hits known ones, and its dictionary has them all.\<close>

definition call_fits :: "('k, 'v) lfu_call \<Rightarrow> 'k uses \<Rightarrow> bool" where
  "call_fits c us = (case c of
     LfuPut k \<Rightarrow> k \<notin> snd ` set us
   | LfuHit k \<Rightarrow> k \<in> snd ` set us
   | LfuForceEvict k \<Rightarrow> True
   | LfuCandidates d n \<Rightarrow> 0 < n \<and> snd ` set us \<subseteq> set (dict_keys d))"

fun calls_fit :: "('v \<Rightarrow> bool) \<Rightarrow> ('k, 'v) lfu_call list \<Rightarrow> 'k uses \<Rightarrow> bool" where
  "calls_fit ce [] us \<longleftrightarrow> True"
| "calls_fit ce (c # cs) us \<longleftrightarrow> call_fits c us \<and> calls_fit ce cs (snd (uses_call ce c us))"

lemma lfu_call_refines:
  assumes sd: "sd_items_ok sd_items" and ok: "lfu_refines p us" and fits: "call_fits c us"
    and u: "uses_call ce c us = (r, us')"
  shows "\<exists>p'. lfu_call sd_items ce c p = (Inr r, p') \<and> lfu_refines p' us'"
proof (cases c)
  case (LfuPut k)
  then show ?thesis
    using lfu_put_ok [OF ok] fits u by (auto simp: lfu_call_def uses_call_def call_fits_def)
next
  case (LfuHit k)
  then obtain f where f: "(f, k) \<in> set us" using fits by (auto simp: call_fits_def)
  have "distinct (map fst (map prod.swap us))"
    using ok by (simp add: lfu_refines_def buckets_ok_def comp_def)
  moreover have "(k, f) \<in> set (map prod.swap us)" using imageI [OF f, of prod.swap] by simp
  ultimately have "map_of (map prod.swap us) k = Some f" by (simp add: map_of_is_SomeI)
  then show ?thesis
    using lfu_hit_ok [OF ok f] u LfuHit by (auto simp: lfu_call_def uses_call_def)
next
  case (LfuForceEvict k)
  then show ?thesis
    using lfu_force_evict_ok [OF ok, of k] u by (auto simp: lfu_call_def uses_call_def)
next
  case (LfuCandidates d n)
  then show ?thesis
    using lfu_candidates_ok [OF sd ok _ _ refl, of n d ce] fits u
    by (auto simp: lfu_call_def uses_call_def call_fits_def Let_def)
qed

lemma lfu_calls_refine:
  "sd_items_ok sd_items \<Longrightarrow> lfu_refines p us \<Longrightarrow> calls_fit ce cs us \<Longrightarrow>
     lfu_calls sd_items ce cs p = map Inr (uses_calls ce cs us)"
proof (induction cs arbitrary: p us)
  case (Cons c cs)
  obtain r us' where u: "uses_call ce c us = (r, us')" by (cases "uses_call ce c us")
  from lfu_call_refines [OF Cons.prems(1,2) _ u] Cons.prems(3) obtain p'
    where p': "lfu_call sd_items ce c p = (Inr r, p')" "lfu_refines p' us'" by auto
  show ?case using Cons.IH [OF Cons.prems(1) p'(2)] Cons.prems(3) by (simp add: u p'(1))
qed simp

text \<open>C30: The bucketed LFU policy refines counted uses. In any history of puts of new keys, hits of known
  keys, forced evictions and requests for candidates against a dictionary that holds every
  tracked key, the policy never raises, and each request returns, and forgets, the first
  num_candidates evictable keys in the order of their use counts, among equal counts the one
  that reached the count first.\<close>

theorem lfu_policy_counts_uses:
  assumes "sd_items_ok sd_items" and "calls_fit ce cs []"
  shows "lfu_calls sd_items ce cs lfu_policy_init = map Inr (uses_calls ce cs [])"
  using lfu_calls_refine [OF assms(1) lfu_refines_init assms(2)] .

definition sample_lfu_calls :: "(string, bool) lfu_call list" where
  "sample_lfu_calls =
     [LfuPut ''a'', LfuPut ''b'', LfuPut ''c'', LfuHit ''a'', LfuPut ''d'', LfuForceEvict ''b'',
      LfuCandidates [(''a'', True), (''c'', False), (''d'', True)] 2,
      LfuCandidates [(''c'', True)] 1]"

lemma lfu_policy_counts_uses_witness:
  "lfu_calls (sort_key fst) id sample_lfu_calls lfu_policy_init =
     map Inr [[], [], [], [], [], [], [''d'', ''a''], [''c'']]"
proof -
  have fit: "calls_fit id sample_lfu_calls []" by code_simp
  have "uses_calls id sample_lfu_calls [] = [[], [], [], [], [], [], [''d'', ''a''], [''c'']]"
    by code_simp
  then show ?thesis using lfu_policy_counts_uses [OF sort_items_ok fit] by simp
qed

section \<open>What the backend relies on\<close>

locale cache_policy_laws =
  fixes inv :: "'p \<Rightarrow> 'k set \<Rightarrow> bool"
    and on_hit :: "int \<Rightarrow> 'k \<Rightarrow> 'p \<times> ('k, 'v) dict \<Rightarrow> (unit, 'p \<times> ('k, 'v) dict) outcome"
    and on_put :: "int \<Rightarrow> 'k \<Rightarrow> 'p \<Rightarrow> 'p"
    and on_force_evict :: "'k \<Rightarrow> 'p \<Rightarrow> (unit, 'p) outcome"
    and candidates :: "('v \<Rightarrow> bool) \<Rightarrow> ('k, 'v) dict \<Rightarrow> int \<Rightarrow> 'p \<Rightarrow> ('k list, 'p) outcome"
  assumes hit_law: "inv p (set (dict_keys d)) \<Longrightarrow> distinct (dict_keys d) \<Longrightarrow> k \<in> set (dict_keys d) \<Longrightarrow>
      \<exists>p' d'. on_hit now k (p, d) = (Inr (), (p', d')) \<and> inv p' (set (dict_keys d)) \<and> mset d' = mset d"
    and put_law: "inv p K \<Longrightarrow> k \<notin> K \<Longrightarrow> inv (on_put now k p) (insert k K)"
    and force_law: "inv p K \<Longrightarrow> \<exists>p'. on_force_evict k p = (Inr (), p') \<and> inv p' (K - {k})"
    and candidates_law: "inv p (set (dict_keys d)) \<Longrightarrow> distinct (dict_keys d) \<Longrightarrow> 0 < n \<Longrightarrow>
      \<exists>ks p'. candidates ce d n p = (Inr ks, p') \<and> distinct ks \<and>
        set ks \<subseteq> Collect (evictable ce d) \<and>
        length ks = min (nat n) (card (Collect (evictable ce d))) \<and>
        inv p' (set (dict_keys d) - set ks)"
begin

lemma hit_keeps:
  assumes "inv p (set (dict_keys d))" "distinct (dict_keys d)" "k \<in> set (dict_keys d)"
  shows "\<exists>p' d'. on_hit now k (p, d) = (Inr (), (p', d')) \<and> inv p' (set (dict_keys d')) \<and>
    distinct (dict_keys d') \<and> map_of d' = map_of d"
proof -
  obtain p' d' where h: "on_hit now k (p, d) = (Inr (), (p', d'))" "inv p' (set (dict_keys d))"
    "mset d' = mset d"
    using hit_law [OF assms] by blast
  have "mset (dict_keys d') = mset (dict_keys d)" using h(3) by (metis mset_map)
  then have "distinct (dict_keys d')" "set (dict_keys d') = set (dict_keys d)"
    using assms(2) mset_eq_imp_distinct_iff mset_eq_setD by blast+
  moreover have "map_of d' = map_of d"
    using calculation(1) assms(2) h(3) by (metis map_of_inject_set set_mset_mset)
  ultimately show ?thesis using h by auto
qed

text \<open>One candidate is asked for: there is one exactly when some entry may go.\<close>

lemma one_candidate:
  assumes "inv p (set (dict_keys d))" "distinct (dict_keys d)"
  shows "(\<exists>p'. candidates ce d 1 p = (Inr [], p') \<and> inv p' (set (dict_keys d)) \<and>
      (\<forall>k. \<not> evictable ce d k)) \<or>
    (\<exists>k p'. candidates ce d 1 p = (Inr [k], p') \<and> evictable ce d k \<and>
      inv p' (set (dict_keys d) - {k}))"
proof -
  obtain ks p' where c: "candidates ce d 1 p = (Inr ks, p')" "set ks \<subseteq> Collect (evictable ce d)"
    "length ks = min (nat 1) (card (Collect (evictable ce d)))"
    "inv p' (set (dict_keys d) - set ks)"
    using candidates_law [OF assms, of 1 ce] by auto
  have fin: "finite (Collect (evictable ce d))" by (rule finite_subset [OF evictable_keys]) simp
  show ?thesis
  proof (cases ks)
    case Nil
    then have "card (Collect (evictable ce d)) = 0" using c(3) by (simp add: min_def split: if_splits)
    then have "Collect (evictable ce d) = {}" using fin by simp
    then show ?thesis using c Nil by auto
  next
    case (Cons k ks')
    then have "ks' = []" using c(3) by (simp add: min_def split: if_splits)
    then show ?thesis using c Cons by auto
  qed
qed

end

fun policy_ok :: "('k, 'h) cache_policy \<Rightarrow> 'k set \<Rightarrow> bool" where
  "policy_ok (LFUCachePolicy p) K \<longleftrightarrow> (\<exists>us. lfu_refines p us \<and> snd ` set us = K)"
| "policy_ok _ K \<longleftrightarrow> True"

lemma policy_okI: "lfu_refines p us \<Longrightarrow> snd ` set us = K \<Longrightarrow> policy_ok (LFUCachePolicy p) K"
  by auto

lemma od_move_to_end_ok:
  assumes "k \<in> set (dict_keys d)" "distinct (dict_keys d)"
  shows "\<exists>d'. od_move_to_end k d = (Inr (), d') \<and> mset d' = mset d"
proof -
  obtain v where v: "map_of d k = Some v" using assms(1) unfolding dict_in_keys_iff by blast
  have "mset (dict_del k d @ [(k, v)]) = mset d"
  proof -
    have "distinct d" using assms(2) by (simp add: distinct_map)
    moreover have "distinct (dict_keys (dict_del k d @ [(k, v)]))"
      using assms(2) set_dict_keys_del [of k d] by simp
    then have "distinct (dict_del k d @ [(k, v)])" by (simp only: distinct_map)
    moreover have "set (dict_del k d @ [(k, v)]) = set d"
    proof (rule set_eqI)
      fix e :: "'a \<times> 'b"
      obtain j w where e: "e = (j, w)" by (cases e)
      have "e \<in> set d \<longleftrightarrow> map_of d j = Some w" using assms(2) by (simp add: e)
      moreover have "e \<in> set (dict_del k d) \<longleftrightarrow> e \<in> set d \<and> j \<noteq> k"
        by (auto simp: e AList.delete_eq)
      ultimately show "e \<in> set (dict_del k d @ [(k, v)]) \<longleftrightarrow> e \<in> set d"
        using v by (auto simp: e)
    qed
    ultimately show ?thesis using set_eq_iff_mset_eq_distinct by blast
  qed
  then show ?thesis using v by (simp add: od_move_to_end_def)
qed

lemma evict_scan_law:
  assumes "distinct (dict_keys d)" "0 < n"
  shows "distinct (evict_scan ce n d [])" "set (evict_scan ce n d []) \<subseteq> Collect (evictable ce d)"
    "length (evict_scan ce n d []) = min (nat n) (card (Collect (evictable ce d)))"
proof -
  let ?all = "map fst (filter (ce \<circ> snd) d)"
  have scan: "evict_scan ce n d [] = take (nat n) ?all"
    using evict_scan_take [of "[]" n ce d] assms(2) by simp
  have dist: "distinct ?all" using assms(1) by (simp add: distinct_map_filter)
  have "k \<in> set ?all \<longleftrightarrow> evictable ce d k" for k
  proof -
    have "k \<in> set ?all \<longleftrightarrow> (\<exists>v. (k, v) \<in> set d \<and> ce v)" by force
    also have "\<dots> \<longleftrightarrow> (\<exists>v. map_of d k = Some v \<and> ce v)" using assms(1) by simp
    finally show ?thesis by (auto simp: evictable_def split: option.splits)
  qed
  then have all: "set ?all = Collect (evictable ce d)" by blast
  show "distinct (evict_scan ce n d [])" using dist by (simp add: scan)
  show "set (evict_scan ce n d []) \<subseteq> Collect (evictable ce d)"
    unfolding scan all [symmetric] by (rule set_take_subset)
  have "card (Collect (evictable ce d)) = length ?all"
    unfolding all [symmetric] using dist by (rule distinct_card)
  then show "length (evict_scan ce n d []) = min (nat n) (card (Collect (evictable ce d)))"
    by (simp add: scan min.commute)
qed

lemma map_of_rev_distinct: "distinct (dict_keys d) \<Longrightarrow> map_of (rev d) = map_of d"
proof -
  assume dist: "distinct (dict_keys d)"
  then have "distinct (dict_keys (rev d))" by (simp flip: rev_map)
  then show ?thesis using dist map_of_inject_set [of "rev d" d] by simp
qed

lemma evictable_rev: "distinct (dict_keys d) \<Longrightarrow> evictable ce (rev d) = evictable ce d"
  by (simp add: fun_eq_iff evictable_def map_of_rev_distinct)

lemma lfu_candidates_law:
  assumes sd: "sd_items_ok sd_items" and ok: "lfu_refines p us" and K: "snd ` set us = set (dict_keys d)"
    and n: "0 < n"
  shows "\<exists>ks p'. lfu_get_evict_candidates sd_items ce d n p = (Inr ks, p') \<and> distinct ks \<and>
    set ks \<subseteq> Collect (evictable ce d) \<and>
    length ks = min (nat n) (card (Collect (evictable ce d))) \<and>
    lfu_refines p' (uses_without (set ks) us)"
proof -
  define ks where "ks = lfu_spec_candidates (evictable ce d) (nat n) us"
  obtain p' where p': "lfu_get_evict_candidates sd_items ce d n p = (Inr ks, p')"
    "lfu_refines p' (uses_without (set ks) us)"
    using lfu_candidates_ok [OF sd ok n _ ks_def] K by blast
  let ?all = "filter (evictable ce d) (map snd (sort_key fst us))"
  have "distinct (map snd us)" using ok by (simp add: lfu_refines_def buckets_ok_def)
  then have dist: "distinct ?all"
    by (intro distinct_filter) (metis mset_eq_imp_distinct_iff mset_map mset_sort)
  have all: "set ?all = Collect (evictable ce d)" using evictable_keys [of ce d] K by auto
  have "card (Collect (evictable ce d)) = length ?all"
    unfolding all [symmetric] using dist by (rule distinct_card)
  moreover have "set ks \<subseteq> Collect (evictable ce d)"
    unfolding ks_def lfu_spec_candidates_def all [symmetric] by (rule set_take_subset)
  ultimately show ?thesis
    using p' dist by (auto simp: ks_def lfu_spec_candidates_def min.commute)
qed

lemma policy_hit_law:
  assumes "policy_ok p (set (dict_keys d))" "distinct (dict_keys d)" "k \<in> set (dict_keys d)"
  shows "\<exists>p' d'. update_on_hit h now k (p, d) = (Inr (), (p', d')) \<and>
    policy_ok p' (set (dict_keys d)) \<and> mset d' = mset d"
proof (cases p)
  case (LFUCachePolicy q)
  then obtain us where us: "lfu_refines q us" "snd ` set us = set (dict_keys d)"
    using assms(1) by auto
  have "k \<in> snd ` set us" using us(2) assms(3) by simp
  then obtain f where f: "(f, k) \<in> set us" by auto
  obtain q' where q': "lfu_update_on_hit k q = (Inr (), q')"
    "lfu_refines q' (uses_without {k} us @ [(f + 1, k)])"
    using lfu_hit_ok [OF us(1) f] by blast
  have "snd ` set (uses_without {k} us @ [(f + 1, k)]) = set (dict_keys d)"
    using \<open>k \<in> snd ` set us\<close> unfolding us(2) [symmetric] by auto
  from policy_okI [OF q'(2) this] show ?thesis using LFUCachePolicy q'(1) by simp
qed (use od_move_to_end_ok [OF assms(3,2)] in auto)

lemma policy_force_law:
  assumes "policy_ok p K"
  shows "\<exists>p'. update_on_force_evict k p = (Inr (), p') \<and> policy_ok p' (K - {k})"
proof (cases p)
  case (LFUCachePolicy q)
  then obtain us where us: "lfu_refines q us" "snd ` set us = K" using assms by auto
  obtain q' where q': "lfu_update_on_force_evict k q = (Inr (), q')"
    "lfu_refines q' (uses_without {k} us)"
    using lfu_force_evict_ok [OF us(1)] by blast
  have "snd ` set (uses_without {k} us) = K - {k}" using us(2) by auto
  from policy_okI [OF q'(2) this] show ?thesis using LFUCachePolicy q'(1) by simp
qed auto

lemma policy_candidates_law:
  assumes sd: "sd_items_ok sd_items" and ok: "policy_ok p (set (dict_keys d))"
    and dist: "distinct (dict_keys d)" and n: "0 < n"
  shows "\<exists>ks p'. get_evict_candidates sd_items ce d n p = (Inr ks, p') \<and> distinct ks \<and>
    set ks \<subseteq> Collect (evictable ce d) \<and>
    length ks = min (nat n) (card (Collect (evictable ce d))) \<and>
    policy_ok p' (set (dict_keys d) - set ks)"
proof (cases p)
  case (LFUCachePolicy q)
  then obtain us where us: "lfu_refines q us" "snd ` set us = set (dict_keys d)" using ok by auto
  obtain ks q' where q': "lfu_get_evict_candidates sd_items ce d n q = (Inr ks, q')" "distinct ks"
    "set ks \<subseteq> Collect (evictable ce d)"
    "length ks = min (nat n) (card (Collect (evictable ce d)))"
    "lfu_refines q' (uses_without (set ks) us)"
    using lfu_candidates_law [OF sd us n, of ce] by auto
  have "snd ` set (uses_without (set ks) us) = set (dict_keys d) - set ks"
    unfolding us(2) [symmetric] by auto
  from policy_okI [OF q'(5) this] show ?thesis using LFUCachePolicy q'(1-4) by simp
next
  case MRUCachePolicy
  have "distinct (dict_keys (rev d))" using dist by (simp flip: rev_map)
  from evict_scan_law [OF this n] show ?thesis
    using MRUCachePolicy by (simp add: evictable_rev [OF dist])
qed (use evict_scan_law [OF dist n] in auto)

lemma policy_put_law:
  assumes "policy_ok p K" "k \<notin> K"
  shows "policy_ok (update_on_put h now k p) (insert k K)"
proof (cases p)
  case (LFUCachePolicy q)
  then obtain us where us: "lfu_refines q us" "snd ` set us = K" using assms(1) by auto
  then have "lfu_refines (lfu_update_on_put k q) (us @ [(1, k)])"
    using assms(2) by (intro lfu_put_ok) auto
  moreover have "snd ` set (us @ [(1, k)]) = insert k K" using us(2) by auto
  ultimately have "\<exists>vs. lfu_refines (lfu_update_on_put k q) vs \<and> snd ` set vs = insert k K"
    by blast
  then show ?thesis using LFUCachePolicy by simp
qed auto

interpretation policies: cache_policy_laws "\<lambda>p K. sd_items_ok sd_items \<and> policy_ok p K"
  "update_on_hit h" "update_on_put h" update_on_force_evict "get_evict_candidates sd_items"
  for h :: "'k \<Rightarrow> 'h" and sd_items :: "(nat, 'k list) dict \<Rightarrow> (nat \<times> 'k list) list"
proof unfold_locales
  show "\<exists>p' d'. update_on_hit h now k (p, d) = (Inr (), (p', d')) \<and>
      (sd_items_ok sd_items \<and> policy_ok p' (set (dict_keys d))) \<and> mset d' = mset d"
    if "sd_items_ok sd_items \<and> policy_ok p (set (dict_keys d))" "distinct (dict_keys d)"
      "k \<in> set (dict_keys d)" for p and d :: "('k, 'v) dict" and k now
    using that policy_hit_law [OF _ that(2,3), of p h now] by auto
  show "sd_items_ok sd_items \<and> policy_ok (update_on_put h now k p) (insert k K)"
    if "sd_items_ok sd_items \<and> policy_ok p K" "k \<notin> K" for p and K :: "'k set" and k now
    using that by (auto intro: policy_put_law)
  show "\<exists>p'. update_on_force_evict k p = (Inr (), p') \<and>
      (sd_items_ok sd_items \<and> policy_ok p' (K - {k}))"
    if "sd_items_ok sd_items \<and> policy_ok p K" for p :: "('k, 'h) cache_policy" and K k
    using that policy_force_law [of p K k] by auto
  show "\<exists>ks p'. get_evict_candidates sd_items ce d n p = (Inr ks, p') \<and> distinct ks \<and>
      set ks \<subseteq> Collect (evictable ce d) \<and>
      length ks = min (nat n) (card (Collect (evictable ce d))) \<and>
      (sd_items_ok sd_items \<and> policy_ok p' (set (dict_keys d) - set ks))"
    if "sd_items_ok sd_items \<and> policy_ok p (set (dict_keys d))" "distinct (dict_keys d)" "0 < n"
    for p :: "('k, 'h) cache_policy" and ce and d :: "('k, 'v) dict" and n
    using that policy_candidates_law [of sd_items p d n ce] by auto
qed

text \<open>Whatever the policy's state, the candidates are keys of the dictionary.\<close>

lemma evict_scan_keys: "set (evict_scan ce n d acc) \<subseteq> set acc \<union> set (dict_keys d)"
  by (induction ce n d acc rule: evict_scan.induct) (auto simp: Let_def split: if_splits)

lemma lfu_scan_bucket_keys:
  "lfu_scan_bucket ce d n f ks st = (Inr u, st') \<Longrightarrow>
     snd ` set (fst st') \<subseteq> snd ` set (fst st) \<union> set (dict_keys d)"
proof (induction ce d n f ks st rule: lfu_scan_bucket.induct)
  case (2 ce d n f k ks chosen k2f)
  from "2.prems" obtain v where v: "map_of d k = Some v" by (auto split: option.splits)
  then have k: "k \<in> set (dict_keys d)" by (rule map_of_SomeD_keys)
  show ?case
  proof (cases "ce v")
    case False
    then have "lfu_scan_bucket ce d n f ks (chosen, k2f) = (Inr u, st')" using "2.prems" v by simp
    from "2.IH"(1) [OF v _ this] False show ?thesis by simp
  next
    case True
    show ?thesis
    proof (cases "int (length (chosen @ [(f, k)])) = n")
      case full: True
      then have "fst st' = chosen @ [(f, k)]"
        using "2.prems" v True by (auto simp: Let_def split: if_splits)
      then show ?thesis using k by auto
    next
      case False
      then have m: "map_of k2f k \<noteq> None"
        and r: "lfu_scan_bucket ce d n f ks (chosen @ [(f, k)], dict_del k k2f) = (Inr u, st')"
        using "2.prems" v True by (auto simp: Let_def split: if_splits)
      from "2.IH"(2) [OF v _ refl m False r] True k show ?thesis by auto
    qed
  qed
qed simp

lemma lfu_scan_keys:
  "lfu_scan ce d n bs st = (Inr u, st') \<Longrightarrow>
     snd ` set (fst st') \<subseteq> snd ` set (fst st) \<union> set (dict_keys d)"
proof (induction bs arbitrary: st)
  case (Cons b bs)
  obtain f ks where b: "b = (f, ks)" by (cases b)
  from Cons.prems obtain st1 where s: "lfu_scan_bucket ce d n f ks st = (Inr (), st1)"
    by (auto simp: b split: prod.splits sum.splits)
  note k = lfu_scan_bucket_keys [OF s]
  show ?case
  proof (cases "int (length (fst st1)) = n")
    case True
    then show ?thesis using Cons.prems k by (simp add: b s)
  next
    case False
    then have "lfu_scan ce d n bs st1 = (Inr u, st')" using Cons.prems by (simp add: b s)
    from Cons.IH [OF this] k show ?thesis by blast
  qed
qed simp

lemma candidates_are_keys:
  assumes "get_evict_candidates sd_items ce d n p = (Inr ks, p')"
  shows "set ks \<subseteq> set (dict_keys d)"
proof (cases p)
  case (LFUCachePolicy q)
  then obtain q' where "lfu_get_evict_candidates sd_items ce d n q = (Inr ks, q')"
    using assms by (auto split: prod.splits)
  then obtain chosen k2f where chosen:
    "lfu_scan ce d n (sd_items (freq_to_keys q)) ([], key_to_freq q) = (Inr (), (chosen, k2f))"
    "ks = map snd chosen"
    by (auto simp: lfu_get_evict_candidates_def split: prod.splits sum.splits)
  show ?thesis using lfu_scan_keys [OF chosen(1)] unfolding chosen(2) by simp
next
  case MRUCachePolicy
  then have "ks = evict_scan ce n (rev d) []" using assms by simp
  then show ?thesis using evict_scan_keys [of ce n "rev d" "[]"] by simp
next
  case (LRUCachePolicy q)
  then have "ks = evict_scan ce n d []" using assms by simp
  then show ?thesis using evict_scan_keys [of ce n d "[]"] by simp
next
  case FIFOCachePolicy
  then have "ks = evict_scan ce n d []" using assms by simp
  then show ?thesis using evict_scan_keys [of ce n d "[]"] by simp
qed

end
