(* ===== verification/Cache_Engine_Key.thy ===== *)
theory Cache_Engine_Key
  imports Precision_Tiers
begin

text \<open>
  CacheEngineKey and LayerCacheEngineKey of lmcache/utils.py, the keys of the in-process engine,
  with their textual form, which connectors use as file names and remote keys, and its parser. A
  key's equality ignores its request configurations but for the tags in them, so they are fields
  of an extension of the key. Tag values are strings. Text is ASCII; a chunk hash is an integer.
\<close>

section \<open>Text\<close>

definition digit_char :: "nat \<Rightarrow> char" where
  "digit_char d = char_of (if d < 10 then 48 + d else 87 + d)"

fun base_digits :: "nat \<Rightarrow> nat \<Rightarrow> string" where
  "base_digits b n = (if b < 2 \<or> n < b then [digit_char n] else base_digits b (n div b) @ [digit_char (n mod b)])"

declare base_digits.simps [simp del]

text \<open>The conversions of f-strings: plain is decimal, :x is hexadecimal.\<close>

definition int_text :: "nat \<Rightarrow> int \<Rightarrow> string" where
  "int_text b i = (if i < 0 then CHR ''-'' # base_digits b (nat (- i)) else base_digits b (nat i))"

fun split_char :: "char \<Rightarrow> string \<Rightarrow> string list" where
  "split_char sep [] = [[]]"
| "split_char sep (c # cs) =
     (if c = sep then [] # split_char sep cs
      else case split_char sep cs of [] \<Rightarrow> [[c]] | w # ws \<Rightarrow> (c # w) # ws)"

fun join_char :: "char \<Rightarrow> string list \<Rightarrow> string" where
  "join_char sep [] = []"
| "join_char sep [w] = w"
| "join_char sep (w # ws) = w @ sep # join_char sep ws"

text \<open>int(s, 16): a sign, an optional 0x, hexadecimal digits with single underscores between them.\<close>

definition hex_value :: "char \<Rightarrow> nat option" where
  "hex_value c = (let n = (of_char c :: nat)
     in if 48 \<le> n \<and> n \<le> 57 then Some (n - 48)
        else if 97 \<le> n \<and> n \<le> 102 then Some (n - 87)
        else if 65 \<le> n \<and> n \<le> 70 then Some (n - 55)
        else None)"

fun hex_digits :: "bool \<Rightarrow> int \<Rightarrow> string \<Rightarrow> int option" where
  "hex_digits prev acc [] = (if prev then Some acc else None)"
| "hex_digits prev acc (c # cs) =
     (case hex_value c of
        Some d \<Rightarrow> hex_digits True (16 * acc + int d) cs
      | None \<Rightarrow> if c = CHR ''_'' \<and> prev then hex_digits False acc cs else None)"

definition hex_body :: "string \<Rightarrow> int option" where
  "hex_body s =
     (if take 2 s = ''0x'' \<or> take 2 s = ''0X''
      then hex_digits False 0 (if take 1 (drop 2 s) = ''_'' then drop 3 s else drop 2 s)
      else hex_digits False 0 s)"

definition py_int16 :: "string \<Rightarrow> int option" where
  "py_int16 s =
     (case py_strip s of
        [] \<Rightarrow> None
      | c # cs \<Rightarrow> if c = CHR ''-'' then map_option uminus (hex_body cs)
                  else if c = CHR ''+'' then hex_body cs
                  else hex_body (c # cs))"

definition is_digits :: "string \<Rightarrow> bool" where
  "is_digits s \<longleftrightarrow> s \<noteq> [] \<and> (\<forall>c \<in> set s. 48 \<le> (of_char c :: nat) \<and> of_char c \<le> (57 :: nat))"

text \<open>kv.split("%", 1), which must give two parts.\<close>

definition split_tag :: "string \<Rightarrow> (string \<times> string) option" where
  "split_tag kv =
     (if CHR ''%'' \<in> set kv
      then Some (takeWhile (\<lambda>c. c \<noteq> CHR ''%'') kv, drop 1 (dropWhile (\<lambda>c. c \<noteq> CHR ''%'') kv))
      else None)"

section \<open>Types of tensors and their names\<close>

text \<open>
  TORCH_DTYPE_TO_STR_DTYPE. torch.half, torch.float and torch.double are the objects torch.float16,
  torch.float32 and torch.float64; known are the fp8 types this torch has.
\<close>

definition torch_dtype_to_str :: "torch_dtype set \<Rightarrow> (torch_dtype \<times> string) list" where
  "torch_dtype_to_str known =
     [(''float16'', ''half''), (''bfloat16'', ''bfloat16''), (''float32'', ''float''),
      (''float64'', ''double''), (''int8'', ''int8''), (''uint8'', ''uint8''), (''int16'', ''int16''),
      (''int32'', ''int32''), (''int64'', ''int64''), (''bool'', ''bool'')] @
     filter (\<lambda>e. fst e \<in> known)
       [(''float8_e4m3fn'', ''fp8_e4m3fn''), (''float8_e4m3fnuz'', ''fp8_e4m3fnuz''),
        (''float8_e5m2'', ''fp8_e5m2''), (''float8_e5m2fnuz'', ''fp8_e5m2fnuz'')]"

definition str_dtype_to_torch :: "torch_dtype set \<Rightarrow> (string \<times> torch_dtype) list" where
  "str_dtype_to_torch known = map prod.swap (torch_dtype_to_str known)"

section \<open>Keys\<close>

record cache_engine_key =
  ck_model_name :: string
  ck_world_size :: int
  ck_worker_id :: int
  ck_chunk_hash :: int
  ck_dtype :: torch_dtype
  ck_dtype_str :: string
  ck_tags :: "(string \<times> string) list option"
  ck_layer_id :: "int option"

record engine_key = cache_engine_key +
  ck_request_configs :: "(string, string) dict option"

text \<open>Equality, of keys of one class: all fields but the request configurations.\<close>

definition key_eq :: "engine_key \<Rightarrow> engine_key \<Rightarrow> bool" where
  "key_eq k k' \<longleftrightarrow> (ck_layer_id k = None \<longleftrightarrow> ck_layer_id k' = None) \<and>
     ck_model_name k = ck_model_name k' \<and> ck_world_size k = ck_world_size k' \<and>
     ck_worker_id k = ck_worker_id k' \<and> ck_chunk_hash k = ck_chunk_hash k' \<and>
     ck_dtype k = ck_dtype k' \<and> ck_tags k = ck_tags k' \<and> ck_layer_id k = ck_layer_id k'"

definition tag_prefix :: string where
  "tag_prefix = ''lmcache.tag.''"

definition tags_of :: "(string, string) dict option \<Rightarrow> (string \<times> string) list option" where
  "tags_of request_configs =
     (case request_configs of
        None \<Rightarrow> None
      | Some rc \<Rightarrow>
          (case filter (\<lambda>kv. take (length tag_prefix) (fst kv) = tag_prefix) rc of
             [] \<Rightarrow> None
           | tags \<Rightarrow> Some (map (\<lambda>(k, v). (drop (length tag_prefix) k, v)) tags)))"

text \<open>The constructors of both classes, with __post_init__; layer is the layer of the second one.\<close>

definition cache_engine_key_init :: "torch_dtype set \<Rightarrow> string \<Rightarrow> int \<Rightarrow> int \<Rightarrow> int \<Rightarrow> torch_dtype
    \<Rightarrow> (string, string) dict option \<Rightarrow> int option \<Rightarrow> py_error + engine_key" where
  "cache_engine_key_init known model world worker hash dt rc layer =
     (case map_of (torch_dtype_to_str known) dt of
        None \<Rightarrow> Inl ValueError
      | Some ds \<Rightarrow> Inr \<lparr>ck_model_name = model, ck_world_size = world, ck_worker_id = worker,
          ck_chunk_hash = hash, ck_dtype = dt, ck_dtype_str = ds, ck_tags = tags_of rc,
          ck_layer_id = layer, ck_request_configs = rc\<rparr>)"

definition to_string :: "'a cache_engine_key_scheme \<Rightarrow> string" where
  "to_string k =
     join_char (CHR ''@'')
       ([ck_model_name k, int_text 10 (ck_world_size k), int_text 10 (ck_worker_id k),
         int_text 16 (ck_chunk_hash k), ck_dtype_str k]
        @ (case ck_layer_id k of None \<Rightarrow> [] | Some l \<Rightarrow> [int_text 10 l])
        @ (case ck_tags k of None \<Rightarrow> [] | Some tags \<Rightarrow> map (\<lambda>(t, v). t @ CHR ''%'' # v) tags))"

text \<open>split_layers rebuilds the key with a layer; get_first_layer is its first result.\<close>

definition split_layers :: "int \<Rightarrow> 'a cache_engine_key_scheme \<Rightarrow> 'a cache_engine_key_scheme list" where
  "split_layers num_layers k = map (\<lambda>i. k\<lparr>ck_layer_id := Some (int i)\<rparr>) [0 ..< nat num_layers]"

definition get_first_layer :: "'a cache_engine_key_scheme \<Rightarrow> 'a cache_engine_key_scheme" where
  "get_first_layer k = k\<lparr>ck_layer_id := Some 0\<rparr>"

definition with_new_worker_id :: "int \<Rightarrow> 'a cache_engine_key_scheme \<Rightarrow> 'a cache_engine_key_scheme" where
  "with_new_worker_id w k = k\<lparr>ck_worker_id := w, ck_layer_id := None\<rparr>"

text \<open>The loop over the tags in from_string.\<close>

fun parse_tags :: "string list \<Rightarrow> (string, string) dict \<Rightarrow> py_error + (string, string) dict" where
  "parse_tags [] rc = Inr rc"
| "parse_tags (kv # kvs) rc =
     (case split_tag kv of
        None \<Rightarrow> Inl ValueError
      | Some (t, v) \<Rightarrow> parse_tags kvs (dict_set (tag_prefix @ t) v rc))"

definition parse_fields :: "torch_dtype set \<Rightarrow> string list \<Rightarrow> (string, string) dict option
    \<Rightarrow> string option \<Rightarrow> py_error + engine_key" where
  "parse_fields known parts rc layer =
     (case py_int (parts ! 1) of None \<Rightarrow> Inl ValueError | Some world \<Rightarrow>
     (case py_int (parts ! 2) of None \<Rightarrow> Inl ValueError | Some worker \<Rightarrow>
     (case py_int16 (parts ! 3) of None \<Rightarrow> Inl ValueError | Some hash \<Rightarrow>
     (case map_of (str_dtype_to_torch known) (parts ! 4) of None \<Rightarrow> Inl KeyError | Some dt \<Rightarrow>
     (case (case layer of None \<Rightarrow> Some None | Some s \<Rightarrow> map_option Some (py_int s)) of
        None \<Rightarrow> Inl ValueError
      | Some l \<Rightarrow> cache_engine_key_init known (parts ! 0) world worker hash dt rc l)))))"

text \<open>CacheEngineKey.from_string and LayerCacheEngineKey.from_string.\<close>

definition from_string :: "torch_dtype set \<Rightarrow> bool \<Rightarrow> string \<Rightarrow> py_error + engine_key" where
  "from_string known layered s =
     (let parts = split_char (CHR ''@'') s; fixed = (if layered then 6 else 5)
      in if length parts < fixed then Inl ValueError
         else case (if fixed < length parts then map_sum id Some (parse_tags (drop fixed parts) [])
                    else Inr None) of
                Inl e \<Rightarrow> Inl e
              | Inr rc \<Rightarrow> parse_fields known parts rc (if layered then Some (parts ! 5) else None))"

definition parse_cache_key :: "torch_dtype set \<Rightarrow> string \<Rightarrow> py_error + engine_key" where
  "parse_cache_key known key_str =
     (let parts = split_char (CHR ''@'') (py_strip key_str)
      in from_string known (6 \<le> length parts \<and> is_digits (parts ! 5)) key_str)"

section \<open>The parsers invert the printers\<close>

lemma split_char_free: "sep \<notin> set w \<Longrightarrow> split_char sep w = [w]"
  by (induction w) auto

lemma split_char_append: "sep \<notin> set w \<Longrightarrow> split_char sep (w @ sep # s) = w # split_char sep s"
  by (induction w) auto

lemma split_join_char: "ws \<noteq> [] \<Longrightarrow> \<forall>w \<in> set ws. sep \<notin> set w \<Longrightarrow> split_char sep (join_char sep ws) = ws"
  by (induction sep ws rule: join_char.induct) (auto simp: split_char_free split_char_append)

lemma hex_value_digit: "d < 16 \<Longrightarrow> hex_value (digit_char d) = Some d"
  by (auto simp: hex_value_def digit_char_def Let_def)

lemma dec_code_digit: "d < 10 \<Longrightarrow> (of_char (digit_char d) :: nat) = 48 + d"
  by (simp add: digit_char_def)

lemma base_digits_induct [consumes 1, case_names digit more]:
  fixes b n :: nat
  assumes "2 \<le> b" and "\<And>n. n < b \<Longrightarrow> P n" and "\<And>n. b \<le> n \<Longrightarrow> P (n div b) \<Longrightarrow> P n"
  shows "P n"
proof (induction n rule: less_induct)
  case (less n)
  show ?case
  proof (cases "n < b")
    case False
    then have "n div b < n" using assms(1) by (intro div_less_dividend) auto
    with less assms(3) False show ?thesis by simp
  qed (rule assms(2))
qed

lemma base_digits_small: "2 \<le> b \<Longrightarrow> n < b \<Longrightarrow> base_digits b n = [digit_char n]"
  by (simp add: base_digits.simps)

lemma base_digits_more:
  "2 \<le> b \<Longrightarrow> b \<le> n \<Longrightarrow> base_digits b n = base_digits b (n div b) @ [digit_char (n mod b)]"
  by (subst base_digits.simps) simp

lemma base_digits_set:
  assumes "2 \<le> b" shows "base_digits b n \<noteq> [] \<and> set (base_digits b n) \<subseteq> digit_char ` {..<b}"
  using assms
proof (induction n rule: base_digits_induct)
  case (digit n)
  then show ?case using assms by (simp add: base_digits_small)
next
  case (more n)
  then show ?case using assms by (simp add: base_digits_more)
qed

lemma dec_digits_base_digits: "dec_digits p 0 (base_digits 10 n @ s) = dec_digits True (int n) s"
proof -
  have two: "2 \<le> (10 :: nat)" by simp
  show ?thesis
    using two
  proof (induction n arbitrary: s rule: base_digits_induct)
    case (digit n)
    then show ?case by (simp add: base_digits_small dec_code_digit Let_def)
  next
    case (more n)
    have "dec_digits p 0 (base_digits 10 n @ s) =
        dec_digits True (int (n div 10)) (digit_char (n mod 10) # s)"
      using more by (simp add: base_digits_more)
    also have "\<dots> = dec_digits True (10 * int (n div 10) + int (n mod 10)) s"
    proof -
      have "n mod 10 \<le> 9" by presburger
      then show ?thesis using dec_code_digit [of "n mod 10"] by (simp add: Let_def)
    qed
    also have "10 * int (n div 10) + int (n mod 10) = int n"
      by (metis mult_div_mod_eq of_nat_add of_nat_mult of_nat_numeral)
    finally show ?case .
  qed
qed

lemma hex_digits_base_digits: "hex_digits p 0 (base_digits 16 n @ s) = hex_digits True (int n) s"
proof -
  have two: "2 \<le> (16 :: nat)" by simp
  show ?thesis
    using two
  proof (induction n arbitrary: s rule: base_digits_induct)
    case (digit n)
    then show ?case by (simp add: base_digits_small hex_value_digit)
  next
    case (more n)
    have "hex_digits p 0 (base_digits 16 n @ s) =
        hex_digits True (int (n div 16)) (digit_char (n mod 16) # s)"
      using more by (simp add: base_digits_more)
    also have "\<dots> = hex_digits True (16 * int (n div 16) + int (n mod 16)) s"
      by (simp add: hex_value_digit)
    also have "16 * int (n div 16) + int (n mod 16) = int n"
      by (metis mult_div_mod_eq of_nat_add of_nat_mult of_nat_numeral)
    finally show ?case .
  qed
qed

lemma digit_char_plain:
  assumes "d < 16"
  shows "\<not> is_py_space (digit_char d)" "digit_char d \<noteq> CHR ''-''" "digit_char d \<noteq> CHR ''+''"
    "digit_char d \<noteq> CHR ''@''" "digit_char d \<noteq> CHR ''x''" "digit_char d \<noteq> CHR ''X''"
    "digit_char d \<noteq> CHR ''%''"
proof -
  have n: "(of_char (digit_char d) :: nat) = (if d < 10 then 48 + d else 87 + d)"
    using assms by (simp add: digit_char_def)
  then show "\<not> is_py_space (digit_char d)" by (simp add: is_py_space_def)
  have ne: "digit_char d \<noteq> c" if "(of_char c :: nat) \<notin> {48 ..< 58} \<union> {97 ..< 103}" for c
    using that n assms by (auto split: if_splits)
  show "digit_char d \<noteq> CHR ''-''" "digit_char d \<noteq> CHR ''+''" "digit_char d \<noteq> CHR ''@''"
    "digit_char d \<noteq> CHR ''x''" "digit_char d \<noteq> CHR ''X''" "digit_char d \<noteq> CHR ''%''"
    by (rule ne, simp)+
qed

lemma py_strip_none: "\<forall>c \<in> set s. \<not> is_py_space c \<Longrightarrow> py_strip s = s"
proof -
  assume none: "\<forall>c \<in> set s. \<not> is_py_space c"
  have keep: "dropWhile is_py_space w = w" if "set w = set s" for w
    using none that by (cases w) auto
  show ?thesis by (simp add: py_strip_def keep)
qed

lemma base_digits_chars:
  assumes "2 \<le> b" "b \<le> 16" "c \<in> set (base_digits b n)"
  obtains d where "c = digit_char d" "d < b" "d < 16"
  using base_digits_set [OF assms(1), of n] assms(2,3) by fastforce

lemma int_text_chars:
  assumes "2 \<le> b" "b \<le> 16" "c \<in> set (int_text b i)"
  shows "\<not> is_py_space c" "c \<noteq> CHR ''@''" "c \<noteq> CHR ''%''"
proof -
  have digit: "\<exists>d < 16. c = digit_char d" if "c \<in> set (base_digits b n)" for n
    using base_digits_chars [OF assms(1,2) that] by metis
  have "c = CHR ''-'' \<or> (\<exists>n. c \<in> set (base_digits b n))"
    using assms(3) by (auto simp: int_text_def split: if_splits)
  then have "c = CHR ''-'' \<or> (\<exists>d < 16. c = digit_char d)" using digit by blast
  moreover have "\<not> is_py_space (CHR ''-'')" by (simp add: is_py_space_def)
  ultimately have "\<not> is_py_space c \<and> c \<noteq> CHR ''@'' \<and> c \<noteq> CHR ''%''"
    by (elim disjE exE conjE) (simp_all add: digit_char_plain)
  then show "\<not> is_py_space c" "c \<noteq> CHR ''@''" "c \<noteq> CHR ''%''" by simp_all
qed

lemma base_digits_hd:
  assumes "2 \<le> b" "b \<le> 16"
  obtains d cs where "base_digits b n = digit_char d # cs" "d < 16"
proof -
  obtain c cs where c: "base_digits b n = c # cs" using base_digits_set [OF assms(1), of n] by (cases "base_digits b n") auto
  then show thesis using base_digits_chars [OF assms, of c n] that by auto
qed

lemma py_int_text: "py_int (int_text 10 i) = Some i"
proof -
  have "py_strip (int_text 10 i) = int_text 10 i"
    by (rule py_strip_none) (use int_text_chars(1) [of 10] in auto)
  moreover obtain d cs where "base_digits 10 (nat i) = digit_char d # cs" "d < 16"
    using base_digits_hd [of 10] by auto
  moreover have "dec_digits False 0 (base_digits 10 n) = Some (int n)" for n
    using dec_digits_base_digits [of False n "[]"] by simp
  moreover have "dec_digits False 0 (digit_char d # cs) = Some (int (nat i))"
    using calculation(2,4) by metis
  ultimately show ?thesis
    using digit_char_plain(2,3) [of d]
    by (cases "i < 0") (simp_all add: py_int_def int_text_def del: dec_digits.simps(2))
qed

lemma hex_body_base_digits: "hex_body (base_digits 16 n) = Some (int n)"
proof -
  have no: "c \<noteq> CHR ''x'' \<and> c \<noteq> CHR ''X''" if "c \<in> set (base_digits 16 n)" for c
    by (rule base_digits_chars [OF _ _ that]) (simp_all add: digit_char_plain)
  have "take 2 (base_digits 16 n) \<noteq> ''0x'' \<and> take 2 (base_digits 16 n) \<noteq> ''0X''"
  proof -
    have "CHR ''x'' \<notin> set (take 2 (base_digits 16 n))" "CHR ''X'' \<notin> set (take 2 (base_digits 16 n))"
      using no by (auto dest: in_set_takeD)
    then show ?thesis by auto
  qed
  then show ?thesis using hex_digits_base_digits [of False n "[]"] by (simp add: hex_body_def)
qed

lemma py_int16_text: "py_int16 (int_text 16 i) = Some i"
proof -
  have "py_strip (int_text 16 i) = int_text 16 i"
    by (rule py_strip_none) (use int_text_chars(1) [of 16] in auto)
  moreover obtain d cs where "base_digits 16 (nat i) = digit_char d # cs" "d < 16"
    using base_digits_hd [of 16] by auto
  moreover have "hex_body (digit_char d # cs) = Some (int (nat i))"
    using calculation(2) hex_body_base_digits [of "nat i"] by simp
  ultimately show ?thesis
    using hex_body_base_digits digit_char_plain(2,3) [of d]
    by (cases "i < 0") (simp_all add: py_int16_def int_text_def)
qed

lemma is_digits_text:
  assumes "0 \<le> i" shows "is_digits (int_text 10 i)"
  using base_digits_set [of 10 "nat i"] assms dec_code_digit
  by (auto simp: is_digits_def int_text_def)

lemma split_tag_text: "CHR ''%'' \<notin> set t \<Longrightarrow> split_tag (t @ CHR ''%'' # v) = Some (t, v)"
proof -
  assume "CHR ''%'' \<notin> set t"
  then have "takeWhile (\<lambda>c. c \<noteq> CHR ''%'') (t @ CHR ''%'' # v) = t \<and>
      dropWhile (\<lambda>c. c \<noteq> CHR ''%'') (t @ CHR ''%'' # v) = CHR ''%'' # v"
    by (induction t) auto
  then show ?thesis by (simp add: split_tag_def)
qed

section \<open>Round trip\<close>

text \<open>
  The keys whose text can be read back: their fields are what the constructor makes them, and the
  separators of the text do not occur in the model's name and in the tags, and the text has no
  white space at its ends.
\<close>

definition plain_tag :: "string \<times> string \<Rightarrow> bool" where
  "plain_tag tv \<longleftrightarrow> CHR ''@'' \<notin> set (fst tv) \<and> CHR ''%'' \<notin> set (fst tv) \<and> CHR ''@'' \<notin> set (snd tv)"

definition printable_key :: "torch_dtype set \<Rightarrow> engine_key \<Rightarrow> bool" where
  "printable_key known k \<longleftrightarrow>
     map_of (torch_dtype_to_str known) (ck_dtype k) = Some (ck_dtype_str k) \<and>
     CHR ''@'' \<notin> set (ck_model_name k) \<and> py_strip (to_string k) = to_string k \<and>
     (case ck_tags k of None \<Rightarrow> True
      | Some tags \<Rightarrow> tags \<noteq> [] \<and> distinct (map fst tags) \<and> (\<forall>tv \<in> set tags. plain_tag tv)) \<and>
     (case ck_layer_id k of None \<Rightarrow> True | Some l \<Rightarrow> 0 \<le> l)"

definition tag_text :: "string \<times> string \<Rightarrow> string" where
  "tag_text tv = fst tv @ CHR ''%'' # snd tv"

lemma parse_tags_text:
  assumes "\<forall>tv \<in> set tags. plain_tag tv" "distinct (map fst tags)"
    and "\<forall>t \<in> set (map fst tags). map_of rc (tag_prefix @ t) = None"
  shows "parse_tags (map tag_text tags) rc = Inr (rc @ map (\<lambda>(t, v). (tag_prefix @ t, v)) tags)"
  using assms
proof (induction tags arbitrary: rc)
  case (Cons tv tags)
  obtain t v where tv: "tv = (t, v)" by (cases tv)
  have "parse_tags (map tag_text tags) (rc @ [(tag_prefix @ t, v)]) =
      Inr ((rc @ [(tag_prefix @ t, v)]) @ map (\<lambda>(t, v). (tag_prefix @ t, v)) tags)"
    by (rule Cons.IH) (use Cons.prems in \<open>auto simp: tv map_add_def split: option.splits\<close>)
  then show ?case
    using Cons.prems(1,3) by (simp add: tv tag_text_def [of "(t, v)"] plain_tag_def split_tag_text dict_set_new)
qed simp

lemma tags_of_text: "tags \<noteq> [] \<Longrightarrow> tags_of (Some (map (\<lambda>(t, v). (tag_prefix @ t, v)) tags)) = Some tags"
proof -
  assume ne: "tags \<noteq> []"
  have "filter (\<lambda>kv. take (length tag_prefix) (fst kv) = tag_prefix) (map (\<lambda>(t, v). (tag_prefix @ t, v)) tags) =
      map (\<lambda>(t, v). (tag_prefix @ t, v)) tags"
    by (auto intro!: filter_True)
  then show ?thesis
    using ne by (cases tags) (simp_all add: tags_of_def case_prod_unfold comp_def)
qed

lemma dtype_names_plain:
  assumes "(d, ds) \<in> set (torch_dtype_to_str known)"
  shows "CHR ''@'' \<notin> set ds" "map_of (str_dtype_to_torch known) ds = Some d"
proof -
  have all: "\<forall>e \<in> set (torch_dtype_to_str UNIV). CHR ''@'' \<notin> set (snd e)" by code_simp
  have sub: "set (torch_dtype_to_str known) \<subseteq> set (torch_dtype_to_str UNIV)"
    by (auto simp: torch_dtype_to_str_def)
  show "CHR ''@'' \<notin> set ds" using all sub assms by fastforce
  have dist: "distinct (map snd (torch_dtype_to_str known))"
    by (simp add: torch_dtype_to_str_def)
  have "(ds, d) \<in> set (str_dtype_to_torch known)"
    using imageI [OF assms, of prod.swap] by (simp add: str_dtype_to_torch_def)
  moreover have "distinct (map fst (str_dtype_to_torch known))"
    using dist by (simp add: str_dtype_to_torch_def comp_def)
  ultimately show "map_of (str_dtype_to_torch known) ds = Some d" by (rule map_of_is_SomeI [rotated])
qed

lemma key_text_split:
  assumes "printable_key known k"
  shows "split_char (CHR ''@'') (to_string k) =
    [ck_model_name k, int_text 10 (ck_world_size k), int_text 10 (ck_worker_id k),
     int_text 16 (ck_chunk_hash k), ck_dtype_str k]
    @ (case ck_layer_id k of None \<Rightarrow> [] | Some l \<Rightarrow> [int_text 10 l])
    @ (case ck_tags k of None \<Rightarrow> [] | Some tags \<Rightarrow> map tag_text tags)"
    (is "_ = ?parts")
proof -
  have num: "CHR ''@'' \<notin> set (int_text 10 i)" "CHR ''@'' \<notin> set (int_text 16 i)" for i
    using int_text_chars(2) [of 10 "CHR ''@''" i] int_text_chars(2) [of 16 "CHR ''@''" i] by auto
  have "CHR ''@'' \<notin> set (ck_dtype_str k)"
    using dtype_names_plain(1) [OF map_of_SomeD] assms unfolding printable_key_def by blast
  then have "\<forall>w \<in> set ?parts. CHR ''@'' \<notin> set w"
    using assms num
    by (auto simp: printable_key_def plain_tag_def tag_text_def split: option.splits)
  moreover have "(\<lambda>(t, v). t @ CHR ''%'' # v) = tag_text"
    by (simp add: fun_eq_iff tag_text_def)
  ultimately show ?thesis
    unfolding to_string_def by (simp only:) (rule split_join_char, simp_all)
qed

text \<open>C31: Keys survive their textual form. A key of either class whose model name and tags keep clear of
  the separators, whose text has no white space at its ends and whose layer id, if it has one, is
  not negative is read back by parse_cache_key as an equal key, of the same class, whatever the
  sizes and signs of its world size, worker id and chunk hash; its request configurations come back
  as its tags. (A negative layer id is not read as one, because isdigit refuses the sign.)\<close>

theorem cache_engine_key_roundtrip:
  assumes "printable_key known k"
  shows "\<exists>k'. parse_cache_key known (to_string k) = Inr k' \<and> key_eq k' k \<and>
    ck_request_configs k' = map_option (map (\<lambda>(t, v). (tag_prefix @ t, v))) (ck_tags k)"
proof -
  let ?tags = "case ck_tags k of None \<Rightarrow> [] | Some tags \<Rightarrow> tags"
  let ?rc = "map_option (map (\<lambda>(t, v). (tag_prefix @ t, v))) (ck_tags k)"
  let ?layered = "ck_layer_id k \<noteq> None"
  let ?parts = "split_char (CHR ''@'') (to_string k)"
  note ksplit = key_text_split [OF assms]
  have dt: "map_of (torch_dtype_to_str known) (ck_dtype k) = Some (ck_dtype_str k)"
    and strip: "py_strip (to_string k) = to_string k"
    and tags: "\<And>ts. ck_tags k = Some ts \<Longrightarrow> ts \<noteq> [] \<and> distinct (map fst ts) \<and> (\<forall>tv \<in> set ts. plain_tag tv)"
    and layer: "\<And>l. ck_layer_id k = Some l \<Longrightarrow> 0 \<le> l"
    using assms by (simp_all add: printable_key_def)
  have inv: "map_of (str_dtype_to_torch known) (ck_dtype_str k) = Some (ck_dtype k)"
    using dt by (rule dtype_names_plain(2) [OF map_of_SomeD])
  have not_digits: "\<not> is_digits (tag_text tv)" for tv
    by (auto simp: is_digits_def tag_text_def)
  have cls: "6 \<le> length ?parts \<and> is_digits (?parts ! 5) \<longleftrightarrow> ?layered"
  proof (cases "ck_layer_id k")
    case None
    show ?thesis
    proof (cases "ck_tags k")
      case (Some ts)
      then obtain tv rest where "ts = tv # rest" using tags by (cases ts) auto
      then show ?thesis using None Some not_digits by (simp add: ksplit)
    qed (simp add: ksplit None)
  next
    case (Some l)
    then show ?thesis using is_digits_text [OF layer] by (simp add: ksplit)
  qed
  have rc: "parse_tags (map tag_text ts) [] = Inr (map (\<lambda>(t, v). (tag_prefix @ t, v)) ts)"
    if "ck_tags k = Some ts" for ts
    using parse_tags_text [of ts "[]"] tags [OF that] by simp
  have tags_back: "tags_of ?rc = ck_tags k"
    using tags tags_of_text by (cases "ck_tags k") (auto simp: tags_of_def)
  have init: "cache_engine_key_init known (ck_model_name k) (ck_world_size k) (ck_worker_id k)
      (ck_chunk_hash k) (ck_dtype k) ?rc (ck_layer_id k) =
      Inr (k\<lparr>ck_request_configs := ?rc\<rparr>)"
    by (simp add: cache_engine_key_init_def dt tags_back)
  have fields: "parse_fields known ?parts ?rc
      (if ?layered then Some (?parts ! 5) else None) = Inr (k\<lparr>ck_request_configs := ?rc\<rparr>)"
    using init inv
    by (cases "ck_layer_id k") (simp_all add: parse_fields_def ksplit py_int_text py_int16_text)
  have "from_string known ?layered (to_string k) = Inr (k\<lparr>ck_request_configs := ?rc\<rparr>)"
  proof (cases "ck_tags k")
    case None
    then show ?thesis
      using fields by (cases "ck_layer_id k") (simp_all add: from_string_def ksplit Let_def)
  next
    case (Some ts)
    then obtain tv rest where "ts = tv # rest" using tags by (cases ts) auto
    then show ?thesis
      using fields rc Some by (cases "ck_layer_id k") (simp_all add: from_string_def ksplit Let_def)
  qed
  then have "parse_cache_key known (to_string k) = Inr (k\<lparr>ck_request_configs := ?rc\<rparr>)"
    using cls by (simp add: parse_cache_key_def strip Let_def)
  then show ?thesis by (simp add: key_eq_def)
qed

definition sample_key :: engine_key where
  "sample_key = \<lparr>ck_model_name = ''org/model'', ck_world_size = 8, ck_worker_id = 3,
     ck_chunk_hash = -255, ck_dtype = ''float16'', ck_dtype_str = ''half'',
     ck_tags = Some [(''user'', ''a%b'')], ck_layer_id = Some 31,
     ck_request_configs = Some [(''lmcache.tag.user'', ''a%b''), (''priority'', ''1'')]\<rparr>"

lemma cache_engine_key_roundtrip_witness:
  "to_string sample_key = ''org/model@8@3@-ff@half@31@user%a%b'' \<and>
   (\<exists>k'. parse_cache_key {} ''org/model@8@3@-ff@half@31@user%a%b'' = Inr k' \<and>
      key_eq k' sample_key)"
proof -
  have printed: "to_string sample_key = ''org/model@8@3@-ff@half@31@user%a%b''" by code_simp
  have "map_of (torch_dtype_to_str {}) (ck_dtype sample_key) = Some (ck_dtype_str sample_key)"
    by (simp add: torch_dtype_to_str_def sample_key_def)
  moreover have "py_strip (to_string sample_key) = to_string sample_key" by code_simp
  ultimately have "printable_key {} sample_key"
    by (simp add: printable_key_def) (simp add: sample_key_def plain_tag_def)
  from cache_engine_key_roundtrip [OF this] show ?thesis unfolding printed by blast
qed

text \<open>A model name with a revision, or any other name with the separator, is read wrongly.\<close>

lemma model_name_with_separator_unreadable:
  "parse_cache_key {} (to_string (sample_key\<lparr>ck_model_name := ''org/model@main''\<rparr>)) = Inl ValueError"
  by code_simp

text \<open>with_new_worker_id is inherited by the keys of layers and answers a key without a layer.\<close>

lemma with_new_worker_id_merges_layers:
  "k' \<in> set (split_layers n k) \<Longrightarrow> with_new_worker_id w k' = with_new_worker_id w k"
  by (auto simp: split_layers_def with_new_worker_id_def)

end
