(* ===== verification/Local_Cpu_Backend.thy ===== *)
theory Local_Cpu_Backend
  imports Cache_Policies Cache_Engine_Key L1_Memory Message_Sender
begin

text \<open>
  LocalCPUBackend of lmcache/v1/storage_backend/local_cpu_backend.py, the in-process engine's store
  in CPU memory: the hot cache maps keys to memory objects of a MixedMemoryAllocator, a cache policy
  chooses what to evict when memory runs out, and the controller is told of what comes and goes.
  Each method is one step. While allocate sleeps, other threads run: waits lists what they do to
  the backend in each sleep, and a call that would sleep once more is still waiting.
\<close>

section \<open>Objects of the mixed allocator\<close>

text \<open>
  MixedMemoryAllocator hands out tensor objects of its pool and, for the format BINARY_BUFFER, byte
  buffers that belong to no pool and count no references.
\<close>

definition is_buffer :: "mem_obj \<Rightarrow> bool" where
  "is_buffer m \<longleftrightarrow> fmt (meta m) = BINARY_BUFFER"

definition tensor_formats :: "memory_format set" where
  "tensor_formats = {KV_2LTD, KV_2TD, KV_T2D, KV_MLA_FMT}"

definition bytes_buffer_obj :: "int \<Rightarrow> mem_obj" where
  "bytes_buffer_obj n =
     \<lparr>meta = \<lparr>shape = [n, 0, 0, 0], dtype = None, address = 0, phy_size = 0, ref_count = 1,
        pin_count = 0, fmt = BINARY_BUFFER, shapes = None, dtypes = None\<rparr>,
      raw_data = (0, n), valid = True, has_parent = False, group_prefix_sum = [0, n]\<rparr>"

definition buffer_length :: "torch_size one_or_list \<Rightarrow> py_error + int" where
  "buffer_length sa =
     (case sa of
        One (n # _) \<Rightarrow> Inr n
      | Many ((n # _) # _) \<Rightarrow> Inr n
      | _ \<Rightarrow> Inl IndexError)"

definition buffer_allocate :: "torch_size one_or_list \<Rightarrow> ta_mem \<Rightarrow> (nat, ta_mem) outcome" where
  "buffer_allocate sa st =
     (case buffer_length sa of
        Inl e \<Rightarrow> (Inl e, st)
      | Inr n \<Rightarrow> if n < 0 then (Inl ValueError, st)
                 else (case new_obj (bytes_buffer_obj n) st of (r, st') \<Rightarrow> (Inr r, st')))"

fun new_buffers :: "nat \<Rightarrow> int \<Rightarrow> ta_mem \<Rightarrow> nat list \<times> ta_mem" where
  "new_buffers 0 n st = ([], st)"
| "new_buffers (Suc c) n st =
     (case new_obj (bytes_buffer_obj n) st of
        (r, st1) \<Rightarrow> (case new_buffers c n st1 of (rs, st2) \<Rightarrow> (r # rs, st2)))"

definition buffer_batched_allocate :: "torch_size one_or_list \<Rightarrow> int \<Rightarrow> ta_mem
    \<Rightarrow> (nat list, ta_mem) outcome" where
  "buffer_batched_allocate sa batch_size st =
     (case buffer_length sa of
        Inl e \<Rightarrow> (Inl e, st)
      | Inr n \<Rightarrow> if n < 0 \<and> 0 < batch_size then (Inl ValueError, st)
                 else (case new_buffers (nat batch_size) n st of (rs, st') \<Rightarrow> (Inr rs, st')))"

definition mixed_allocate :: "env \<Rightarrow> torch_size one_or_list \<Rightarrow> torch_dtype one_or_list
    \<Rightarrow> memory_format \<Rightarrow> ta_mem \<Rightarrow> (nat option, ta_mem) outcome" where
  "mixed_allocate E sa da f st =
     (if f = BINARY_BUFFER then (case buffer_allocate sa st of (r, st') \<Rightarrow> (map_sum id Some r, st'))
      else if f \<in> tensor_formats then ta_allocate E sa da f st
      else (Inl ValueError, st))"

definition mixed_batched_allocate :: "env \<Rightarrow> torch_size one_or_list \<Rightarrow> torch_dtype one_or_list
    \<Rightarrow> int \<Rightarrow> memory_format \<Rightarrow> ta_mem \<Rightarrow> (nat list option, ta_mem) outcome" where
  "mixed_batched_allocate E sa da batch_size f st =
     (if f = BINARY_BUFFER
      then (case buffer_batched_allocate sa batch_size st of (r, st') \<Rightarrow> (map_sum id Some r, st'))
      else if f \<in> tensor_formats then ta_batched_allocate E sa da batch_size f st
      else (Inl ValueError, st))"

text \<open>The methods of both classes of objects. Pinning is the same for both.\<close>

definition mo_ref_count_up :: "nat \<Rightarrow> ta_mem \<Rightarrow> ta_mem" where
  "mo_ref_count_up r st =
     (case objs st r of None \<Rightarrow> st | Some m \<Rightarrow> if is_buffer m then st else ref_count_up r st)"

definition mo_ref_count_down :: "env \<Rightarrow> nat \<Rightarrow> ta_mem \<Rightarrow> (unit, ta_mem) outcome" where
  "mo_ref_count_down E r st =
     (case objs st r of
        None \<Rightarrow> (Inr (), st)
      | Some m \<Rightarrow> if is_buffer m then (Inr (), st) else ta_ref_count_down E r st)"

definition mo_can_evict :: "mem_obj \<Rightarrow> bool" where
  "mo_can_evict m = (if is_buffer m then \<not> is_pinned m else can_evict m)"

definition mo_get_num_tokens :: "mem_obj \<Rightarrow> py_error + int" where
  "mo_get_num_tokens m = (if is_buffer m then Inr 1 else get_num_tokens m)"

section \<open>The backend\<close>

record local_cpu_backend =
  lcb_policy :: "(cache_engine_key, int) cache_policy"
  hot_cache :: "(cache_engine_key, nat) dict"
  use_hot :: bool
  lcb_mem :: ta_mem
  lcb_layerwise :: bool
  lcb_enable_blending :: bool
  keys_in_request :: "cache_engine_key list"
  lcb_sender :: "message_sender option"

definition lcb_init :: "string \<Rightarrow> bool \<Rightarrow> bool \<Rightarrow> bool \<Rightarrow> ta_mem \<Rightarrow> message_sender option
    \<Rightarrow> py_error + local_cpu_backend" where
  "lcb_init cache_policy_name local_cpu use_layerwise enable_blending mem sender =
     (case get_cache_policy cache_policy_name of
        Inl e \<Rightarrow> Inl e
      | Inr p \<Rightarrow> Inr \<lparr>lcb_policy = p, hot_cache = [], use_hot = local_cpu, lcb_mem = mem,
          lcb_layerwise = use_layerwise, lcb_enable_blending = enable_blending,
          keys_in_request = [], lcb_sender = sender\<rparr>)"

definition lcb_send :: "op_type \<Rightarrow> cache_engine_key \<Rightarrow> local_cpu_backend \<Rightarrow> local_cpu_backend" where
  "lcb_send t key b = b\<lparr>lcb_sender := map_option (add_kv_op t (ck_chunk_hash key)) (lcb_sender b)\<rparr>"

definition lcb_contains :: "cache_engine_key \<Rightarrow> bool \<Rightarrow> local_cpu_backend
    \<Rightarrow> bool \<times> local_cpu_backend" where
  "lcb_contains key pin_it b =
     (case map_of (hot_cache b) key of
        None \<Rightarrow> (False, b)
      | Some r \<Rightarrow>
          (True, if pin_it then b\<lparr>lcb_mem := snd (pin r (lcb_mem b)),
                                  keys_in_request := keys_in_request b @ [key]\<rparr>
                 else b))"

text \<open>The loop of touch_cache; the policy may move the entry in the hot cache.\<close>

fun touch_loop :: "int \<Rightarrow> cache_engine_key list
    \<Rightarrow> (cache_engine_key, int) cache_policy \<times> (cache_engine_key, nat) dict
    \<Rightarrow> (unit, (cache_engine_key, int) cache_policy \<times> (cache_engine_key, nat) dict) outcome" where
  "touch_loop now [] s = (Inr (), s)"
| "touch_loop now (key # keys) s =
     (case update_on_hit ck_chunk_hash now key s of
        (Inl e, s') \<Rightarrow> (Inl e, s')
      | (Inr _, s') \<Rightarrow> touch_loop now keys s')"

definition touch_cache :: "int \<Rightarrow> local_cpu_backend \<Rightarrow> (unit, local_cpu_backend) outcome" where
  "touch_cache now b =
     (case touch_loop now (rev (keys_in_request b)) (lcb_policy b, hot_cache b) of
        (Inl e, (p, d)) \<Rightarrow> (Inl e, b\<lparr>lcb_policy := p, hot_cache := d\<rparr>)
      | (Inr _, (p, d)) \<Rightarrow>
          (Inr (), b\<lparr>lcb_policy := p, hot_cache := d, keys_in_request := []\<rparr>))"

text \<open>The result says whether on_complete_callback is called, whose exceptions are swallowed.\<close>

definition submit_put_task :: "int \<Rightarrow> cache_engine_key \<Rightarrow> nat \<Rightarrow> local_cpu_backend
    \<Rightarrow> bool \<times> local_cpu_backend" where
  "submit_put_task now key memory_obj b =
     (if map_of (hot_cache b) key \<noteq> None then (False, b)
      else (True, lcb_send ADMIT key
        (b\<lparr>lcb_mem := mo_ref_count_up memory_obj (lcb_mem b),
           hot_cache := dict_set key memory_obj (hot_cache b),
           lcb_policy := update_on_put ck_chunk_hash now key (lcb_policy b)\<rparr>)))"

fun submit_put_tasks :: "int \<Rightarrow> (cache_engine_key \<times> nat) list \<Rightarrow> local_cpu_backend
    \<Rightarrow> cache_engine_key list \<times> local_cpu_backend" where
  "submit_put_tasks now [] b = ([], b)"
| "submit_put_tasks now ((key, memory_obj) # puts) b =
     (case submit_put_task now key memory_obj b of
        (stored, b1) \<Rightarrow>
          (case submit_put_tasks now puts b1 of
             (ks, b2) \<Rightarrow> ((if stored then key # ks else ks), b2)))"

definition batched_submit_put_task :: "int \<Rightarrow> cache_engine_key list \<Rightarrow> nat list
    \<Rightarrow> local_cpu_backend \<Rightarrow> cache_engine_key list \<times> local_cpu_backend" where
  "batched_submit_put_task now keys memory_objs b =
     (if \<not> use_hot b then ([], b) else submit_put_tasks now (zip keys memory_objs) b)"

definition get_blocking :: "cache_engine_key \<Rightarrow> local_cpu_backend
    \<Rightarrow> nat option \<times> local_cpu_backend" where
  "get_blocking key b =
     (case map_of (hot_cache b) key of
        None \<Rightarrow> (None, b)
      | Some r \<Rightarrow> (Some r, b\<lparr>lcb_mem := mo_ref_count_up r (lcb_mem b)\<rparr>))"

fun batched_get_blocking :: "cache_engine_key list \<Rightarrow> local_cpu_backend
    \<Rightarrow> nat option list \<times> local_cpu_backend" where
  "batched_get_blocking [] b = ([], b)"
| "batched_get_blocking (key # keys) b =
     (case get_blocking key b of
        (r, b1) \<Rightarrow> (case batched_get_blocking keys b1 of (rs, b2) \<Rightarrow> (r # rs, b2)))"

fun batched_get_non_blocking :: "cache_engine_key list \<Rightarrow> local_cpu_backend
    \<Rightarrow> (nat list, local_cpu_backend) outcome" where
  "batched_get_non_blocking [] b = (Inr [], b)"
| "batched_get_non_blocking (key # keys) b =
     (case map_of (hot_cache b) key of
        None \<Rightarrow> (Inl KeyError, b)
      | Some r \<Rightarrow>
          (case batched_get_non_blocking keys (b\<lparr>lcb_mem := mo_ref_count_up r (lcb_mem b)\<rparr>) of
             (Inl e, b') \<Rightarrow> (Inl e, b')
           | (Inr rs, b') \<Rightarrow> (Inr (r # rs), b')))"

text \<open>batched_async_contains and the inherited batched_contains count the prefix of the hits.\<close>

fun batched_contains :: "cache_engine_key list \<Rightarrow> bool \<Rightarrow> local_cpu_backend
    \<Rightarrow> nat \<times> local_cpu_backend" where
  "batched_contains [] pin_it b = (0, b)"
| "batched_contains (key # keys) pin_it b =
     (case lcb_contains key pin_it b of
        (False, b1) \<Rightarrow> (0, b1)
      | (True, b1) \<Rightarrow> (case batched_contains keys pin_it b1 of (n, b2) \<Rightarrow> (Suc n, b2)))"

definition lcb_pin :: "cache_engine_key \<Rightarrow> local_cpu_backend \<Rightarrow> bool \<times> local_cpu_backend" where
  "lcb_pin key b =
     (case map_of (hot_cache b) key of
        None \<Rightarrow> (False, b)
      | Some r \<Rightarrow> (True, b\<lparr>lcb_mem := snd (pin r (lcb_mem b))\<rparr>))"

definition lcb_unpin :: "env \<Rightarrow> cache_engine_key \<Rightarrow> local_cpu_backend
    \<Rightarrow> (bool, local_cpu_backend) outcome" where
  "lcb_unpin E key b =
     (case map_of (hot_cache b) key of
        None \<Rightarrow> (Inr False, b)
      | Some r \<Rightarrow>
          (case ta_unpin E r (lcb_mem b) of
             (Inl e, st) \<Rightarrow> (Inl e, b\<lparr>lcb_mem := st\<rparr>)
           | (Inr _, st) \<Rightarrow> (Inr True, b\<lparr>lcb_mem := st\<rparr>)))"

definition lcb_remove :: "env \<Rightarrow> bool \<Rightarrow> cache_engine_key \<Rightarrow> local_cpu_backend
    \<Rightarrow> (bool, local_cpu_backend) outcome" where
  "lcb_remove E force key b =
     (case map_of (hot_cache b) key of
        None \<Rightarrow> (Inr False, b)
      | Some r \<Rightarrow>
          (case mo_ref_count_down E r (lcb_mem b) of
             (Inl e, st) \<Rightarrow> (Inl e, b\<lparr>hot_cache := dict_del key (hot_cache b), lcb_mem := st\<rparr>)
           | (Inr _, st) \<Rightarrow>
               let b1 = b\<lparr>hot_cache := dict_del key (hot_cache b), lcb_mem := st\<rparr>
               in if force then
                    (case update_on_force_evict key (lcb_policy b1) of
                       (Inl e, p) \<Rightarrow> (Inl e, b1\<lparr>lcb_policy := p\<rparr>)
                     | (Inr _, p) \<Rightarrow> (Inr True, lcb_send EVICT key (b1\<lparr>lcb_policy := p\<rparr>)))
                  else (Inr True, lcb_send EVICT key b1)))"

fun batched_remove :: "env \<Rightarrow> bool \<Rightarrow> cache_engine_key list \<Rightarrow> local_cpu_backend
    \<Rightarrow> (nat, local_cpu_backend) outcome" where
  "batched_remove E force [] b = (Inr 0, b)"
| "batched_remove E force (key # keys) b =
     (case lcb_remove E force key b of
        (Inl e, b1) \<Rightarrow> (Inl e, b1)
      | (Inr removed, b1) \<Rightarrow>
          (case batched_remove E force keys b1 of
             (Inl e, b2) \<Rightarrow> (Inl e, b2)
           | (Inr n, b2) \<Rightarrow> (Inr ((if removed then 1 else 0) + n), b2)))"

definition get_keys :: "local_cpu_backend \<Rightarrow> cache_engine_key list" where
  "get_keys b = dict_keys (hot_cache b)"

definition entry_can_evict :: "ta_mem \<Rightarrow> nat \<Rightarrow> bool" where
  "entry_can_evict st r = (case objs st r of None \<Rightarrow> False | Some m \<Rightarrow> mo_can_evict m)"

fun clear_scan :: "ta_mem \<Rightarrow> (cache_engine_key, nat) dict \<Rightarrow> py_error + cache_engine_key list \<times> int" where
  "clear_scan st [] = Inr ([], 0)"
| "clear_scan st ((key, r) # items) =
     (if \<not> entry_can_evict st r then clear_scan st items
      else case (case objs st r of None \<Rightarrow> Inl AttributeError | Some m \<Rightarrow> mo_get_num_tokens m) of
             Inl e \<Rightarrow> Inl e
           | Inr n \<Rightarrow> map_sum id (\<lambda>(ks, t). (key # ks, n + t)) (clear_scan st items))"

definition lcb_clear :: "env \<Rightarrow> local_cpu_backend \<Rightarrow> (int, local_cpu_backend) outcome" where
  "lcb_clear E b =
     (if \<not> use_hot b then (Inr 0, b)
      else case clear_scan (lcb_mem b) (hot_cache b) of
             Inl e \<Rightarrow> (Inl e, b)
           | Inr (clear_keys, num_cleared_tokens) \<Rightarrow>
               (case batched_remove E True clear_keys b of
                  (Inl e, b') \<Rightarrow> (Inl e, b')
                | (Inr _, b') \<Rightarrow> (Inr num_cleared_tokens, b')))"

section \<open>Allocation with eviction\<close>

definition default_fmt :: "memory_format option \<Rightarrow> local_cpu_backend \<Rightarrow> memory_format" where
  "default_fmt f b =
     (case f of
        Some f' \<Rightarrow> f'
      | None \<Rightarrow> if lcb_layerwise b then if lcb_enable_blending b then KV_2TD else KV_T2D else KV_2LTD)"

definition pool_allocate :: "env \<Rightarrow> torch_size one_or_list \<Rightarrow> torch_dtype one_or_list \<Rightarrow> memory_format
    \<Rightarrow> local_cpu_backend \<Rightarrow> (nat option, local_cpu_backend) outcome" where
  "pool_allocate E sa da f b =
     (case mixed_allocate E sa da f (lcb_mem b) of (r, st) \<Rightarrow> (r, b\<lparr>lcb_mem := st\<rparr>))"

text \<open>One turn of eviction under the lock; the result says whether something was evicted.\<close>

definition evict_round :: "env \<Rightarrow> ((nat, cache_engine_key list) dict \<Rightarrow> (nat \<times> cache_engine_key list) list)
    \<Rightarrow> local_cpu_backend \<Rightarrow> (bool, local_cpu_backend) outcome" where
  "evict_round E sd_items b =
     (if \<not> use_hot b then (Inr False, b)
      else case get_evict_candidates sd_items (entry_can_evict (lcb_mem b)) (hot_cache b) 1
                  (lcb_policy b) of
             (Inl e, p) \<Rightarrow> (Inl e, b\<lparr>lcb_policy := p\<rparr>)
           | (Inr [], p) \<Rightarrow> (Inr False, b\<lparr>lcb_policy := p\<rparr>)
           | (Inr evict_keys, p) \<Rightarrow>
               (case batched_remove E False evict_keys (b\<lparr>lcb_policy := p\<rparr>) of
                  (Inl e, b') \<Rightarrow> (Inl e, b')
                | (Inr _, b') \<Rightarrow> (Inr True, b')))"

datatype 'a waiting = Returned 'a | StillWaiting

lemma lcb_remove_shrinks:
  assumes "lcb_remove E force key b = (Inr r, b')"
  shows "hot_cache b' = dict_del key (hot_cache b)"
  using assms
  by (auto simp: lcb_remove_def lcb_send_def AList.delete_id map_of_eq_None_iff Let_def
      split: option.splits prod.splits sum.splits if_splits)

lemma dict_del_length: "length (dict_del k d) \<le> length d"
  by (simp add: AList.delete_eq)

lemma dict_del_shorter: "k \<in> set (dict_keys d) \<Longrightarrow> length (dict_del k d) < length d"
  by (induction d) (auto simp: AList.delete_eq le_imp_less_Suc)

lemma batched_remove_shrinks:
  "batched_remove E force keys b = (Inr n, b') \<Longrightarrow> hot_cache b' = fold dict_del keys (hot_cache b)"
proof (induction keys arbitrary: b n)
  case (Cons key keys)
  from Cons.prems obtain r b1 m where step: "lcb_remove E force key b = (Inr r, b1)"
    "batched_remove E force keys b1 = (Inr m, b')"
    by (auto split: prod.splits sum.splits)
  show ?case using Cons.IH [OF step(2)] lcb_remove_shrinks [OF step(1)] by simp
qed simp

lemma fold_dict_del_length: "length (fold dict_del keys d) \<le> length d"
  by (induction keys arbitrary: d) (auto intro: le_trans dict_del_length)

lemma evict_round_shrinks:
  assumes "evict_round E sd_items b = (Inr True, b')"
  shows "length (hot_cache b') < length (hot_cache b)"
proof -
  obtain key keys p n where c: "get_evict_candidates sd_items (entry_can_evict (lcb_mem b)) (hot_cache b) 1
        (lcb_policy b) = (Inr (key # keys), p)"
      "batched_remove E False (key # keys) (b\<lparr>lcb_policy := p\<rparr>) = (Inr n, b')"
    using assms
    by (auto simp: evict_round_def simp del: batched_remove.simps
        split: if_splits prod.splits sum.splits list.splits)
  have "key \<in> set (dict_keys (hot_cache b))"
    using candidates_are_keys [OF c(1)] by auto
  moreover have "hot_cache b' = fold dict_del keys (dict_del key (hot_cache b))"
    using batched_remove_shrinks [OF c(2)] by simp
  ultimately show ?thesis
    using fold_dict_del_length [of keys "dict_del key (hot_cache b)"] dict_del_shorter
    by (metis order_le_less_trans)
qed

lemma pool_allocate_hot [simp]: "hot_cache (snd (pool_allocate E sa da f b)) = hot_cache b"
  by (simp add: pool_allocate_def split: prod.split)

lemma pool_allocate_hotD: "pool_allocate E sa da f b = (r, b') \<Longrightarrow> hot_cache b' = hot_cache b"
  by (metis pool_allocate_hot snd_conv)

text \<open>
  The loop of allocate. A sleep lets the next of waits run; busy_loop False gives up instead.
\<close>

function allocate_loop :: "env \<Rightarrow> ((nat, cache_engine_key list) dict \<Rightarrow> (nat \<times> cache_engine_key list) list)
    \<Rightarrow> torch_size one_or_list \<Rightarrow> torch_dtype one_or_list \<Rightarrow> memory_format \<Rightarrow> bool
    \<Rightarrow> (local_cpu_backend \<Rightarrow> local_cpu_backend) list \<Rightarrow> local_cpu_backend
    \<Rightarrow> (nat option waiting, local_cpu_backend) outcome" where
  "allocate_loop E sd_items sa da f busy_loop waits b =
     (case evict_round E sd_items b of
        (Inl e, b1) \<Rightarrow> (Inl e, b1)
      | (Inr True, b1) \<Rightarrow>
          (case pool_allocate E sa da f b1 of
             (Inl e, b2) \<Rightarrow> (Inl e, b2)
           | (Inr (Some r), b2) \<Rightarrow> (Inr (Returned (Some r)), b2)
           | (Inr None, b2) \<Rightarrow> allocate_loop E sd_items sa da f busy_loop waits b2)
      | (Inr False, b1) \<Rightarrow>
          if \<not> busy_loop then (Inr (Returned None), b1)
          else case waits of
                 [] \<Rightarrow> (Inr StillWaiting, b1)
               | others # waits' \<Rightarrow>
                   (case pool_allocate E sa da f (others b1) of
                      (Inl e, b2) \<Rightarrow> (Inl e, b2)
                    | (Inr (Some r), b2) \<Rightarrow> (Inr (Returned (Some r)), b2)
                    | (Inr None, b2) \<Rightarrow> allocate_loop E sd_items sa da f busy_loop waits' b2))"
  by pat_completeness auto

termination allocate_loop
proof (relation "measures [\<lambda>(E, sd, sa, da, f, bl, waits, b). length waits,
    \<lambda>(E, sd, sa, da, f, bl, waits, b). length (hot_cache b)]", goal_cases)
  case (2 E sd_items sa da f busy_loop waits b x y ba xa ya bb)
  then have "evict_round E sd_items b = (Inr True, y)" "pool_allocate E sa da f y = (xa, ya)"
    by simp_all
  from evict_round_shrinks [OF this(1)] pool_allocate_hotD [OF this(2)] show ?case by simp
qed auto

declare allocate_loop.simps [simp del]

definition lcb_allocate :: "env \<Rightarrow> ((nat, cache_engine_key list) dict \<Rightarrow> (nat \<times> cache_engine_key list) list)
    \<Rightarrow> torch_size one_or_list \<Rightarrow> torch_dtype one_or_list \<Rightarrow> memory_format option \<Rightarrow> bool \<Rightarrow> bool
    \<Rightarrow> (local_cpu_backend \<Rightarrow> local_cpu_backend) list \<Rightarrow> local_cpu_backend
    \<Rightarrow> (nat option waiting, local_cpu_backend) outcome" where
  "lcb_allocate E sd_items sa da fmt_arg eviction busy_loop waits b =
     (let f = default_fmt fmt_arg b
      in case pool_allocate E sa da f b of
           (Inl e, b1) \<Rightarrow> (Inl e, b1)
         | (Inr (Some r), b1) \<Rightarrow> (Inr (Returned (Some r)), b1)
         | (Inr None, b1) \<Rightarrow>
             if \<not> eviction then (Inr (Returned None), b1)
             else allocate_loop E sd_items sa da f busy_loop waits b1)"

text \<open>
  batched_allocate evicts a chunk with all its layers: the objects are taken from the hot cache and
  freed as they are.
\<close>

fun take_layers :: "cache_engine_key list \<Rightarrow> local_cpu_backend \<Rightarrow> (nat list, local_cpu_backend) outcome" where
  "take_layers [] b = (Inr [], b)"
| "take_layers (key # keys) b =
     (case map_of (hot_cache b) key of
        None \<Rightarrow> (Inl KeyError, b)
      | Some r \<Rightarrow>
          (case update_on_force_evict key (lcb_policy b) of
             (Inl e, p) \<Rightarrow> (Inl e, b\<lparr>lcb_policy := p\<rparr>)
           | (Inr _, p) \<Rightarrow>
               (case take_layers keys (b\<lparr>lcb_policy := p, hot_cache := dict_del key (hot_cache b)\<rparr>) of
                  (Inl e, b') \<Rightarrow> (Inl e, b')
                | (Inr rs, b') \<Rightarrow> (Inr (r # rs), b'))))"

fun evict_chunks :: "env \<Rightarrow> int \<Rightarrow> cache_engine_key list \<Rightarrow> local_cpu_backend
    \<Rightarrow> (unit, local_cpu_backend) outcome" where
  "evict_chunks E batch_size [] b = (Inr (), b)"
| "evict_chunks E batch_size (key # keys) b =
     (case take_layers (split_layers batch_size key) b of
        (Inl e, b1) \<Rightarrow> (Inl e, b1)
      | (Inr old_mem_objs, b1) \<Rightarrow>
          (case mixed_batched_free E old_mem_objs (lcb_mem b1) of
             (Inl e, st) \<Rightarrow> (Inl e, b1\<lparr>lcb_mem := st\<rparr>)
           | (Inr _, st) \<Rightarrow> evict_chunks E batch_size keys (b1\<lparr>lcb_mem := st\<rparr>)))"

definition batched_evict_round :: "env \<Rightarrow> ((nat, cache_engine_key list) dict \<Rightarrow> (nat \<times> cache_engine_key list) list)
    \<Rightarrow> int \<Rightarrow> local_cpu_backend \<Rightarrow> (bool, local_cpu_backend) outcome" where
  "batched_evict_round E sd_items batch_size b =
     (if \<not> use_hot b then (Inr False, b)
      else case get_evict_candidates sd_items (entry_can_evict (lcb_mem b)) (hot_cache b) 1
                  (lcb_policy b) of
             (Inl e, p) \<Rightarrow> (Inl e, b\<lparr>lcb_policy := p\<rparr>)
           | (Inr [], p) \<Rightarrow> (Inr False, b\<lparr>lcb_policy := p\<rparr>)
           | (Inr evict_keys, p) \<Rightarrow>
               (case evict_chunks E batch_size evict_keys (b\<lparr>lcb_policy := p\<rparr>) of
                  (Inl e, b') \<Rightarrow> (Inl e, b')
                | (Inr _, b') \<Rightarrow> (Inr True, b')))"

definition pool_batched_allocate :: "env \<Rightarrow> torch_size one_or_list \<Rightarrow> torch_dtype one_or_list
    \<Rightarrow> int \<Rightarrow> memory_format \<Rightarrow> local_cpu_backend \<Rightarrow> (nat list option, local_cpu_backend) outcome" where
  "pool_batched_allocate E sa da batch_size f b =
     (case mixed_batched_allocate E sa da batch_size f (lcb_mem b) of
        (r, st) \<Rightarrow> (r, b\<lparr>lcb_mem := st\<rparr>))"

text \<open>
  The loop of batched_allocate, with fuel: a batch that is not positive removes nothing in a turn,
  and the loop may not end.
\<close>

fun batched_allocate_loop :: "nat \<Rightarrow> env
    \<Rightarrow> ((nat, cache_engine_key list) dict \<Rightarrow> (nat \<times> cache_engine_key list) list)
    \<Rightarrow> torch_size one_or_list \<Rightarrow> torch_dtype one_or_list \<Rightarrow> int \<Rightarrow> memory_format \<Rightarrow> bool
    \<Rightarrow> (local_cpu_backend \<Rightarrow> local_cpu_backend) list \<Rightarrow> local_cpu_backend
    \<Rightarrow> (nat list option waiting, local_cpu_backend) outcome" where
  "batched_allocate_loop 0 E sd_items sa da batch_size f busy_loop waits b = (Inr StillWaiting, b)"
| "batched_allocate_loop (Suc fuel) E sd_items sa da batch_size f busy_loop waits b =
     (case batched_evict_round E sd_items batch_size b of
        (Inl e, b1) \<Rightarrow> (Inl e, b1)
      | (Inr evicted, b1) \<Rightarrow>
          if \<not> evicted \<and> \<not> busy_loop then (Inr (Returned None), b1)
          else case (if evicted then Some (waits, b1)
                     else case waits of [] \<Rightarrow> None | others # waits' \<Rightarrow> Some (waits', others b1)) of
                 None \<Rightarrow> (Inr StillWaiting, b1)
               | Some (waits', b2) \<Rightarrow>
                   (case pool_batched_allocate E sa da batch_size f b2 of
                      (Inl e, b3) \<Rightarrow> (Inl e, b3)
                    | (Inr None, b3) \<Rightarrow>
                        batched_allocate_loop fuel E sd_items sa da batch_size f busy_loop waits' b3
                    | (Inr (Some []), b3) \<Rightarrow>
                        batched_allocate_loop fuel E sd_items sa da batch_size f busy_loop waits' b3
                    | (Inr (Some rs), b3) \<Rightarrow> (Inr (Returned (Some rs)), b3)))"

text \<open>The assertion is that of the code; the allocator here is a MixedMemoryAllocator.\<close>

definition lcb_batched_allocate :: "nat \<Rightarrow> env
    \<Rightarrow> ((nat, cache_engine_key list) dict \<Rightarrow> (nat \<times> cache_engine_key list) list)
    \<Rightarrow> torch_size one_or_list \<Rightarrow> torch_dtype one_or_list \<Rightarrow> int \<Rightarrow> memory_format option \<Rightarrow> bool \<Rightarrow> bool
    \<Rightarrow> (local_cpu_backend \<Rightarrow> local_cpu_backend) list \<Rightarrow> local_cpu_backend
    \<Rightarrow> (nat list option waiting, local_cpu_backend) outcome" where
  "lcb_batched_allocate fuel E sd_items sa da batch_size fmt_arg eviction busy_loop waits b =
     (let f = default_fmt fmt_arg b
      in case pool_batched_allocate E sa da batch_size f b of
           (Inl e, b1) \<Rightarrow> (Inl e, b1)
         | (Inr (Some rs), b1) \<Rightarrow> (Inr (Returned (Some rs)), b1)
         | (Inr None, b1) \<Rightarrow>
             if \<not> eviction then (Inr (Returned None), b1)
             else batched_allocate_loop fuel E sd_items sa da batch_size f busy_loop waits b1)"

section \<open>Sizes\<close>

definition is_power_of_two :: "int \<Rightarrow> bool" where
  "is_power_of_two v \<longleftrightarrow> 0 < v \<and> and v (v - 1) = 0"

text \<open>
  The entries of extra_config that the alignment depends on, converted as the code converts them;
  None is an absent entry, and an empty device path counts as none.
\<close>

record alignment_config =
  pinned_align_bytes :: "int option"
  raw_block_device_path :: "string option"
  raw_block_use_odirect :: "bool option"
  raw_block_align_local_cpu_allocator :: "bool option"
  raw_block_block_align :: "int option"

definition resolve_local_cpu_allocator_alignment :: "alignment_config \<Rightarrow> py_error + int option" where
  "resolve_local_cpu_allocator_alignment c =
     (case pinned_align_bytes c of
        Some align \<Rightarrow> if is_power_of_two align then Inr (Some align) else Inl ValueError
      | None \<Rightarrow>
          if raw_block_device_path c \<in> {None, Some []} \<or> raw_block_use_odirect c \<noteq> Some True
             \<or> raw_block_align_local_cpu_allocator c = Some False
          then Inr None
          else let align = (case raw_block_block_align c of None \<Rightarrow> 4096 | Some a \<Rightarrow> a)
               in if is_power_of_two align then Inr (Some align) else Inl ValueError)"

text \<open>The alignment of the pool: the configured one, or the default of AddressManager when
  initialize_allocator passes none.\<close>

definition pool_alignment :: "int option \<Rightarrow> int" where
  "pool_alignment configured = (case configured of Some align \<Rightarrow> align | None \<Rightarrow> 4096)"

definition get_full_chunk_size_bytes :: "bool \<Rightarrow> int \<Rightarrow> int \<Rightarrow> int \<Rightarrow> int \<Rightarrow> int \<Rightarrow> int \<Rightarrow> int" where
  "get_full_chunk_size_bytes layerwise tokens num_layers kv_size num_heads head_size dtype_size =
     (let hidden_dim = num_heads * head_size
      in if layerwise then tokens * kv_size * hidden_dim * dtype_size
         else kv_size * num_layers * tokens * hidden_dim * dtype_size)"

text \<open>total_memory is the configured size in bytes.\<close>

definition calculate_chunk_budget :: "int \<Rightarrow> int \<Rightarrow> int \<Rightarrow> py_error + int" where
  "calculate_chunk_budget total_memory chunk_bytes alignment =
     (if alignment = 0 then Inl ZeroDivisionError
      else let aligned = (chunk_bytes + alignment - 1) div alignment * alignment
           in if aligned = 0 then Inl ZeroDivisionError else Inr (total_memory div aligned))"

end
