(* ===== verification/Local_Cpu_History.thy ===== *)
theory Local_Cpu_History
  imports Local_Cpu_Backend
begin

text \<open>
  Correctness of the in-process CPU backend: reference counts are exact, so an object that is cached
  or held by a caller is live, and allocation evicts only entries that nobody uses. The histories
  are those of callers that release what they hold and cache what they hold. The last section shows
  that evicting chunks layer by layer does not keep to this.
\<close>

section \<open>The loop of batched_allocate ends\<close>

lemma take_layers_length:
  "take_layers keys b = (Inr rs, b') \<Longrightarrow>
     length (hot_cache b') \<le> length (hot_cache b) \<and>
     (keys \<noteq> [] \<longrightarrow> length (hot_cache b') < length (hot_cache b))"
proof (induction keys arbitrary: b rs)
  case (Cons key keys)
  obtain r where r: "map_of (hot_cache b) key = Some r"
    using Cons.prems by (auto split: option.splits)
  obtain u p where p: "update_on_force_evict key (lcb_policy b) = (Inr u, p)"
    using Cons.prems r by (auto split: prod.splits sum.splits)
  obtain rs' where "take_layers keys (b\<lparr>lcb_policy := p, hot_cache := dict_del key (hot_cache b)\<rparr>) = (Inr rs', b')"
    using Cons.prems r p by (auto split: prod.splits sum.splits)
  from Cons.IH [OF this] have "length (hot_cache b') \<le> length (dict_del key (hot_cache b))" by simp
  moreover have "length (dict_del key (hot_cache b)) < length (hot_cache b)"
    using r by (intro dict_del_shorter map_of_SomeD_keys)
  ultimately show ?case by simp
qed simp

lemma evict_chunks_length:
  "evict_chunks E batch keys b = (Inr u, b') \<Longrightarrow> length (hot_cache b') \<le> length (hot_cache b) \<and>
     (keys \<noteq> [] \<and> 0 < batch \<longrightarrow> length (hot_cache b') < length (hot_cache b))"
proof (induction keys arbitrary: b)
  case (Cons key keys)
  obtain rs b1 where t: "take_layers (split_layers batch key) b = (Inr rs, b1)"
    using Cons.prems by (auto split: prod.splits sum.splits)
  obtain v st where "mixed_batched_free E rs (lcb_mem b1) = (Inr v, st)"
    using Cons.prems t by (auto split: prod.splits sum.splits)
  then have "evict_chunks E batch keys (b1\<lparr>lcb_mem := st\<rparr>) = (Inr u, b')"
    using Cons.prems t by simp
  from Cons.IH [OF this] have "length (hot_cache b') \<le> length (hot_cache b1)" by simp
  moreover have "split_layers batch key \<noteq> []" if "0 < batch" using that by (simp add: split_layers_def)
  ultimately show ?case using take_layers_length [OF t] by (auto intro: order_le_less_trans le_trans)
qed simp

lemma batched_evict_round_length:
  assumes "batched_evict_round E sd_items batch b = (Inr True, b')" "0 < batch"
  shows "length (hot_cache b') < length (hot_cache b)"
proof -
  obtain key keys p u where
    "evict_chunks E batch (key # keys) (b\<lparr>lcb_policy := p\<rparr>) = (Inr u, b')"
    using assms(1)
    by (auto simp: batched_evict_round_def simp del: evict_chunks.simps
        split: if_splits prod.splits sum.splits list.splits)
  from evict_chunks_length [OF this] assms(2) show ?thesis by simp
qed

lemma batched_allocate_loop_returns:
  assumes "0 < batch"
  shows "length (hot_cache b) < fuel \<Longrightarrow>
    fst (batched_allocate_loop fuel E sd_items sa da batch f False waits b) \<noteq> Inr StillWaiting"
proof (induction fuel arbitrary: b)
  case (Suc fuel)
  obtain r b1 where r: "batched_evict_round E sd_items batch b = (r, b1)" by fastforce
  show ?case
  proof (cases "r = Inr True")
    case True
    then have less: "length (hot_cache b1) < length (hot_cache b)"
      using batched_evict_round_length r assms by blast
    obtain q b2 where q: "pool_batched_allocate E sa da batch f b1 = (q, b2)" by fastforce
    then have "hot_cache b2 = hot_cache b1" by (auto simp: pool_batched_allocate_def split: prod.splits)
    then have "fst (batched_allocate_loop fuel E sd_items sa da batch f False waits b2) \<noteq> Inr StillWaiting"
      using Suc less by simp
    then show ?thesis using r True q by (auto split: sum.split option.split list.split)
  next
    case False
    then show ?thesis using r by (cases r) auto
  qed
qed simp

text \<open>With a positive batch and no busy loop, fuel beyond the size of the cache is enough.\<close>

lemma lcb_batched_allocate_returns:
  assumes "0 < batch" "length (hot_cache b) < fuel"
  shows "fst (lcb_batched_allocate fuel E sd_items sa da batch fo ev False waits b) \<noteq> Inr StillWaiting"
proof -
  obtain q b1 where q: "pool_batched_allocate E sa da batch (default_fmt fo b) b = (q, b1)" by fastforce
  then have "hot_cache b1 = hot_cache b" by (auto simp: pool_batched_allocate_def split: prod.splits)
  then have "fst (batched_allocate_loop fuel E sd_items sa da batch (default_fmt fo b) False waits b1) \<noteq> Inr StillWaiting"
    using batched_allocate_loop_returns assms by simp
  then show ?thesis using q by (auto simp: lcb_batched_allocate_def split: sum.split option.split)
qed

section \<open>Counted references\<close>

text \<open>
  n gives the number of references to each object that the rest of the program holds: every object
  of the pool counts exactly these, and an object with references is live.
\<close>

definition counted :: "(nat \<Rightarrow> nat) \<Rightarrow> mem_obj \<Rightarrow> nat \<Rightarrow> bool" where
  "counted n m r \<longleftrightarrow> ref_count (meta m) = int (n r) \<and> 0 \<le> pin_count (meta m) \<and> has_parent m \<and>
     \<not> is_buffer m"

definition mem_counted :: "nat \<Rightarrow> (nat \<Rightarrow> nat) \<Rightarrow> ta_mem \<Rightarrow> bool" where
  "mem_counted k n st \<longleftrightarrow> pool_ok k st \<and>
     (\<forall>r m. objs st r = Some m \<longrightarrow> valid m \<longrightarrow> counted n m r) \<and>
     (\<forall>r. 0 < n r \<longrightarrow> is_valid st r)"

lemma mem_countedD:
  assumes "mem_counted k n st" "0 < n r"
  obtains m where "objs st r = Some m" "valid m" "counted n m r"
proof -
  have "is_valid st r" using assms by (simp add: mem_counted_def)
  then obtain m where "objs st r = Some m" "valid m" unfolding is_valid_some by blast
  moreover from this have "counted n m r" using assms(1) by (simp add: mem_counted_def)
  ultimately show thesis using that by blast
qed

lemma mem_counted_upd_meta:
  assumes "mem_counted k n st" "is_valid st r \<or> n' r = 0"
    and "\<And>md. address (f md) = address md" "\<And>md. phy_size (f md) = phy_size md"
    and "\<And>md. fmt (f md) = fmt md"
    and "\<And>m. objs st r = Some m \<Longrightarrow> valid m \<Longrightarrow> ref_count (f (meta m)) = int (n' r) \<and> 0 \<le> pin_count (f (meta m))"
    and "\<And>q. q \<noteq> r \<Longrightarrow> n' q = n q"
  shows "mem_counted k n' (upd_meta f r st)"
  unfolding mem_counted_def
proof (intro conjI allI impI)
  show "pool_ok k (upd_meta f r st)"
    using assms(1,3,4) pool_ok_upd_meta by (simp add: mem_counted_def)
  show "counted n' m q" if "objs (upd_meta f r st) q = Some m" "valid m" for q m
  proof (cases "q = r")
    case True
    with that obtain m0 where "objs st r = Some m0" "m = m0\<lparr>meta := f (meta m0)\<rparr>" "valid m0"
      by (auto simp: mem_simps split: option.splits)
    moreover from this have "counted n m0 r" using assms(1) by (simp add: mem_counted_def)
    ultimately show ?thesis using assms(5,6) True by (simp add: counted_def is_buffer_def)
  next
    case False
    with that have "objs st q = Some m" by (simp add: mem_simps split: option.splits if_splits)
    with that(2) assms(1) have "counted n m q" by (simp add: mem_counted_def)
    then show ?thesis using assms(7) [OF False] by (simp add: counted_def)
  qed
  show "is_valid (upd_meta f r st) q" if "0 < n' q" for q
    using assms(1,2,7) that by (cases "q = r") (auto simp: mem_counted_def)
qed

lemma counted_up:
  assumes "mem_counted k n st" "is_valid st r"
  shows "mem_counted k (n(r := Suc (n r))) (mo_ref_count_up r st)"
    and "q \<noteq> r \<Longrightarrow> objs (mo_ref_count_up r st) q = objs st q"
proof -
  obtain m where m: "objs st r = Some m" "valid m" using assms(2) by (auto simp: is_valid_some)
  then have c: "counted n m r" using assms(1) by (simp add: mem_counted_def)
  then have up: "mo_ref_count_up r st = upd_meta (\<lambda>md. md\<lparr>ref_count := ref_count md + 1\<rparr>) r st"
    using m by (simp add: mo_ref_count_up_def counted_def ref_count_up_def)
  show "mem_counted k (n(r := Suc (n r))) (mo_ref_count_up r st)"
    unfolding up
    by (rule mem_counted_upd_meta [OF assms(1)]) (use assms(2) m c in \<open>auto simp: counted_def\<close>)
  show "objs (mo_ref_count_up r st) q = objs st q" if "q \<noteq> r"
    using that m by (simp add: up mem_simps)
qed

lemma counted_pin:
  assumes "mem_counted k n st" "is_valid st r"
  shows "mem_counted k n (snd (pin r st))"
proof -
  obtain m where m: "objs st r = Some m" "valid m" using assms(2) by (auto simp: is_valid_some)
  then have c: "counted n m r" using assms(1) by (simp add: mem_counted_def)
  show ?thesis
    unfolding pin_def snd_conv
    by (rule mem_counted_upd_meta [OF assms(1)]) (use assms(2) m c in \<open>auto simp: counted_def\<close>)
qed

lemma counted_unpin:
  assumes E: "sorted_list_ok E" and c: "mem_counted k n st" and pos: "0 < n r"
  shows "\<exists>st'. ta_unpin E r st = (Inr True, st') \<and> mem_counted k n st'"
proof -
  obtain m where m: "objs st r = Some m" "valid m" "counted n m r" using mem_countedD [OF c pos] .
  let ?p = "pin_count (meta m) - 1"
  have keep: "mem_counted k n (upd_meta (\<lambda>md. md\<lparr>pin_count := max ?p 0\<rparr>) r st)"
    by (rule mem_counted_upd_meta [OF c]) (use m in \<open>auto simp: counted_def is_valid_some\<close>)
  have twice: "upd_meta (\<lambda>md. md\<lparr>pin_count := 0\<rparr>) r (upd_meta (\<lambda>md. md\<lparr>pin_count := ?p\<rparr>) r st) =
      upd_meta (\<lambda>md. md\<lparr>pin_count := 0\<rparr>) r st"
    using m(1) by (simp add: upd_meta_def upd_obj_def)
  have "\<not> ref_count (meta m) \<le> 0" using m(3) pos by (simp add: counted_def)
  then have "ta_unpin E r st =
      (Inr True, upd_meta (\<lambda>md. md\<lparr>pin_count := max ?p 0\<rparr>) r st)"
    using m(1) twice by (simp add: ta_unpin_def unpin_def Let_def max_def)
  then show ?thesis using keep by blast
qed

text \<open>Counting a reference down: the last one frees the object, unless it is pinned.\<close>

lemma counted_down:
  assumes E: "sorted_list_ok E" and c: "mem_counted k n st" and pos: "0 < n r"
  shows "\<exists>st'. mo_ref_count_down E r st = (Inr (), st') \<and> mem_counted k (n(r := n r - 1)) st' \<and>
    (\<forall>q. q \<noteq> r \<longrightarrow> objs st' q = objs st q)"
proof -
  obtain m where m: "objs st r = Some m" "valid m" "counted n m r" using mem_countedD [OF c pos] .
  let ?st = "upd_meta (\<lambda>md. md\<lparr>ref_count := int (n r) - 1\<rparr>) r st"
  have u: "mem_counted k (n(r := n r - 1)) ?st"
    by (rule mem_counted_upd_meta [OF c]) (use m pos in \<open>auto simp: counted_def is_valid_some\<close>)
  have other: "objs ?st q = objs st q" if "q \<noteq> r" for q using that m(1) by (simp add: mem_simps)
  have down: "mo_ref_count_down E r st =
      (if n r = 1 \<and> pin_count (meta m) = 0 then ta_free E r ?st else (Inr (), ?st))"
    using m pos
    by (auto simp: mo_ref_count_down_def ta_ref_count_down_def ref_count_down_def counted_def Let_def)
  show ?thesis
  proof (cases "n r = 1 \<and> pin_count (meta m) = 0")
    case False
    then show ?thesis using down u other by auto
  next
    case True
    have ok: "pool_ok k ?st" using u by (simp add: mem_counted_def)
    obtain st' where f: "ta_free E r ?st = (Inr (), st')" "freed {r} ?st st'"
      using ta_free_freed [OF E ok] by blast
    have o: "objs st' q = (if q = r then map_option (\<lambda>m. m\<lparr>valid := False\<rparr>) (objs ?st r) else objs ?st q)" for q
      using f(2) by (simp add: freed_def freed_objs_def)
    have "mem_counted k (n(r := n r - 1)) st'"
      unfolding mem_counted_def
    proof (intro conjI allI impI)
      show "pool_ok k st'" using freed_ok [OF ok f(2)] .
      show "counted (n(r := n r - 1)) m' q" if "objs st' q = Some m'" "valid m'" for q m'
      proof -
        have "q \<noteq> r" using that o [of r] by auto
        then have "objs ?st q = Some m'" using that(1) o [of q] by simp
        then show ?thesis using u that(2) by (simp add: mem_counted_def)
      qed
      show "is_valid st' q" if "0 < (n(r := n r - 1)) q" for q
      proof -
        have "q \<noteq> r" using that True by auto
        moreover have "is_valid ?st q" using u that by (simp add: mem_counted_def)
        ultimately show ?thesis using freed_views(1) [OF f(2), of q] by simp
      qed
    qed
    then show ?thesis using down True f(1) o other by auto
  qed
qed

lemma counted_allocate:
  assumes E: "sorted_list_ok E" and c: "mem_counted k n st"
    and adapt: "adapt_shapes_and_dtypes sa da = Inr (ss, ds)"
    and sz: "get_size_bytes E ss ds = Inr raw" "0 < raw" and f: "f \<in> tensor_formats"
  shows "(\<exists>r st'. mixed_allocate E sa da f st = (Inr (Some r), st') \<and> \<not> is_valid st r \<and> n r = 0 \<and>
      mem_counted k (n(r := 1)) st' \<and> (\<forall>q. q \<noteq> r \<longrightarrow> objs st' q = objs st q)) \<or>
    mixed_allocate E sa da f st = (Inr None, st)"
proof -
  have ok: "pool_ok k st" using c by (simp add: mem_counted_def)
  have fb: "f \<noteq> BINARY_BUFFER" using f by (auto simp: tensor_formats_def)
  have eq: "mixed_allocate E sa da f st = ta_allocate E sa da f st"
    using f fb by (simp add: mixed_allocate_def)
  let ?r = "next_oid st"
  have none: "objs st ?r = None" using ok by (simp add: pool_ok_def)
  then have nv: "\<not> is_valid st ?r" by (simp add: is_valid_def)
  then have n0: "n ?r = 0" using c by (auto simp: mem_counted_def)
  from ta_allocate_cases [OF E ok adapt sz, of f] show ?thesis
  proof (elim disjE exE conjE)
    fix a am'
    let ?n = "compute_aligned_size (pool_am st) raw"
    let ?m = "obj_of E ss ds f (a, raw) a ?n"
    assume a: "let n = compute_aligned_size (pool_am st) raw; m = obj_of E ss ds f (a, raw) a n
        in am_allocate E (pool_am st) raw = (Inr (a, n), am') \<and>
           ta_allocate E sa da f st = (Inr (Some ?r), with_obj am' m st) \<and>
           pool_ok k (with_obj am' m st)"
    then have al: "ta_allocate E sa da f st = (Inr (Some ?r), with_obj am' ?m st)"
      and pk: "pool_ok k (with_obj am' ?m st)" by (simp_all add: Let_def)
    have "mem_counted k (n(?r := 1)) (with_obj am' ?m st)"
      unfolding mem_counted_def
    proof (intro conjI allI impI)
      show "counted (n(?r := 1)) m' q" if "objs (with_obj am' ?m st) q = Some m'" "valid m'" for q m'
        using that c fb
        by (cases "q = ?r") (auto simp: mem_counted_def counted_def obj_of_def is_buffer_def)
      show "is_valid (with_obj am' ?m st) q" if "0 < (n(?r := 1)) q" for q
        using that c by (cases "q = ?r") (auto simp: mem_counted_def is_valid_def obj_of_def)
    qed (rule pk)
    then show ?thesis using al eq nv n0 by auto
  qed (use eq in simp)
qed

section \<open>The backend's invariant\<close>

text \<open>
  H counts the references that the callers of the backend hold. An object's count is these and one
  for each key under which it is cached.
\<close>

definition uses :: "nat \<Rightarrow> (cache_engine_key, nat) dict \<Rightarrow> nat" where
  "uses r d = length (filter (\<lambda>e. snd e = r) d)"

definition lcb_inv :: "nat \<Rightarrow> (nat \<Rightarrow> nat) \<Rightarrow> local_cpu_backend \<Rightarrow> bool" where
  "lcb_inv k H b \<longleftrightarrow> mem_counted k (\<lambda>r. H r + uses r (hot_cache b)) (lcb_mem b) \<and>
     distinct (dict_keys (hot_cache b)) \<and> policy_ok (lcb_policy b) (set (dict_keys (hot_cache b)))"

lemma uses_mset: "mset d' = mset d \<Longrightarrow> uses r d' = uses r d"
  by (metis mset_filter size_mset uses_def)

lemma uses_new: "map_of d key = None \<Longrightarrow> uses r (dict_set key q d) = (if r = q then Suc (uses r d) else uses r d)"
  by (simp add: dict_set_new uses_def)

lemma uses_pos: "map_of d key = Some r \<Longrightarrow> 0 < uses r d"
proof -
  assume "map_of d key = Some r"
  then have "(key, r) \<in> set (filter (\<lambda>e. snd e = r) d)" using map_of_SomeD [of d key r] by simp
  then show ?thesis unfolding uses_def by (metis length_pos_if_in_set)
qed

lemma uses_del:
  "distinct (dict_keys d) \<Longrightarrow> map_of d key = Some q \<Longrightarrow>
     uses r (dict_del key d) = (if r = q then uses r d - 1 else uses r d)"
proof (induction d)
  case (Cons e d)
  obtain k v where e: "e = (k, v)" by (cases e)
  show ?case
  proof (cases "k = key")
    case True
    then have "key \<notin> set (dict_keys d)" using Cons.prems(1) by (simp add: e)
    then have "dict_del key d = d" by (simp add: AList.delete_id)
    then show ?thesis using True Cons.prems by (simp add: e uses_def)
  next
    case False
    then have "uses r (dict_del key d) = (if r = q then uses r d - 1 else uses r d)"
      using Cons by (simp add: e)
    moreover have "0 < uses r d" if "r = q"
      using False Cons.prems(2) that by (auto simp: e intro: uses_pos)
    ultimately show ?thesis using False by (auto simp: e uses_def)
  qed
qed simp

lemma lcb_send_simps [simp]:
  "hot_cache (lcb_send t key b) = hot_cache b" "lcb_mem (lcb_send t key b) = lcb_mem b"
  "lcb_policy (lcb_send t key b) = lcb_policy b" "use_hot (lcb_send t key b) = use_hot b"
  by (simp_all add: lcb_send_def)

lemma lcb_inv_send [simp]: "lcb_inv k H (lcb_send t key b) = lcb_inv k H b"
  by (simp add: lcb_inv_def)

lemma lcb_inv_keys [simp]: "lcb_inv k H (b\<lparr>keys_in_request := ks\<rparr>) = lcb_inv k H b"
  by (simp add: lcb_inv_def)

lemma cached_live:
  assumes "lcb_inv k H b" "map_of (hot_cache b) key = Some r"
  shows "is_valid (lcb_mem b) r"
  using assms uses_pos [OF assms(2)] by (auto simp: lcb_inv_def mem_counted_def)

lemma held_live: "lcb_inv k H b \<Longrightarrow> 0 < H r \<Longrightarrow> is_valid (lcb_mem b) r"
  by (simp add: lcb_inv_def mem_counted_def)

lemma inv_put:
  assumes inv: "lcb_inv k H b" and held: "is_valid (lcb_mem b) r"
  shows "lcb_inv k H (snd (submit_put_task now key r b))"
proof (cases "map_of (hot_cache b) key")
  case None
  let ?d = "dict_set key r (hot_cache b)"
  have "mem_counted k (\<lambda>q. H q + uses q ?d) (mo_ref_count_up r (lcb_mem b))"
  proof -
    have "(\<lambda>q. H q + uses q ?d) = (\<lambda>q. H q + uses q (hot_cache b))(r := Suc (H r + uses r (hot_cache b)))"
      by (simp add: fun_eq_iff uses_new [OF None])
    moreover have "mem_counted k (\<lambda>q. H q + uses q (hot_cache b)) (lcb_mem b)"
      using inv by (simp add: lcb_inv_def)
    ultimately show ?thesis using counted_up(1) [OF _ held, of k "\<lambda>q. H q + uses q (hot_cache b)"] by simp
  qed
  moreover have "policy_ok (update_on_put ck_chunk_hash now key (lcb_policy b)) (insert key (set (dict_keys (hot_cache b))))"
    by (rule policy_put_law) (use inv None in \<open>auto simp: lcb_inv_def map_of_eq_None_iff\<close>)
  ultimately show ?thesis
    using inv None by (simp add: submit_put_task_def lcb_inv_def set_dict_keys_set del: set_map)
next
  case (Some q)
  then show ?thesis using inv by (simp add: submit_put_task_def)
qed

lemma inv_get:
  assumes inv: "lcb_inv k H b" and hit: "map_of (hot_cache b) key = Some r"
  shows "get_blocking key b = (Some r, b\<lparr>lcb_mem := mo_ref_count_up r (lcb_mem b)\<rparr>)"
    "lcb_inv k (H(r := Suc (H r))) (b\<lparr>lcb_mem := mo_ref_count_up r (lcb_mem b)\<rparr>)"
proof -
  show "get_blocking key b = (Some r, b\<lparr>lcb_mem := mo_ref_count_up r (lcb_mem b)\<rparr>)"
    using hit by (simp add: get_blocking_def)
  have "(\<lambda>q. (H(r := Suc (H r))) q + uses q (hot_cache b)) =
      (\<lambda>q. H q + uses q (hot_cache b))(r := Suc (H r + uses r (hot_cache b)))"
    by (simp add: fun_eq_iff)
  moreover have "mem_counted k (\<lambda>q. H q + uses q (hot_cache b)) (lcb_mem b)"
    using inv by (simp add: lcb_inv_def)
  ultimately have "mem_counted k (\<lambda>q. (H(r := Suc (H r))) q + uses q (hot_cache b)) (mo_ref_count_up r (lcb_mem b))"
    using counted_up(1) [OF _ cached_live [OF assms], of k "\<lambda>q. H q + uses q (hot_cache b)"] by simp
  then show "lcb_inv k (H(r := Suc (H r))) (b\<lparr>lcb_mem := mo_ref_count_up r (lcb_mem b)\<rparr>)"
    using inv by (simp add: lcb_inv_def)
qed

lemma inv_pin:
  assumes "lcb_inv k H b" "is_valid (lcb_mem b) r"
  shows "lcb_inv k H (b\<lparr>lcb_mem := snd (pin r (lcb_mem b))\<rparr>)"
  using assms counted_pin by (simp add: lcb_inv_def)

lemma inv_contains:
  assumes inv: "lcb_inv k H b"
  shows "lcb_inv k H (snd (lcb_contains key p b))"
  using assms inv_pin [OF inv] cached_live [OF inv]
  by (auto simp: lcb_contains_def lcb_inv_def split: option.split)

lemma inv_lcb_pin:
  assumes inv: "lcb_inv k H b"
  shows "lcb_inv k H (snd (lcb_pin key b))"
  using assms inv_pin [OF inv] cached_live [OF inv] by (auto simp: lcb_pin_def split: option.split)

lemma inv_unpin:
  assumes E: "sorted_list_ok E" and inv: "lcb_inv k H b"
  shows "lcb_inv k H (snd (lcb_unpin E key b))"
proof (cases "map_of (hot_cache b) key")
  case (Some r)
  then have "0 < H r + uses r (hot_cache b)" using uses_pos [OF Some] by simp
  then obtain st' where "ta_unpin E r (lcb_mem b) = (Inr True, st')"
    "mem_counted k (\<lambda>q. H q + uses q (hot_cache b)) st'"
    using counted_unpin [OF E, of k "\<lambda>q. H q + uses q (hot_cache b)" "lcb_mem b" r] inv
    by (auto simp: lcb_inv_def)
  then show ?thesis using Some inv by (simp add: lcb_unpin_def lcb_inv_def)
qed (use inv in \<open>simp add: lcb_unpin_def\<close>)

text \<open>A hit of a key that is no longer cached raises and changes nothing that counts.\<close>

lemma policy_miss:
  assumes "policy_ok p (set (dict_keys d))" "key \<notin> set (dict_keys d)"
  shows "\<exists>res p'. update_on_hit h now key (p, d) = (res, (p', d)) \<and> policy_ok p' (set (dict_keys d))"
proof (cases p)
  case (LFUCachePolicy q)
  then obtain us where us: "lfu_refines q us" "snd ` set us = set (dict_keys d)" using assms(1) by auto
  have "map_of (key_to_freq q) key = None"
  proof (rule ccontr)
    assume "map_of (key_to_freq q) key \<noteq> None"
    then obtain f where "(f, key) \<in> set us" using us(1) by (auto simp: lfu_refines_def)
    then show False using us(2) assms(2) by force
  qed
  then show ?thesis using LFUCachePolicy assms(1) by (simp add: lfu_update_on_hit_def)
qed (use assms in \<open>auto simp: od_move_to_end_def map_of_eq_None_iff split: option.split\<close>)

lemma touch_loop_ok:
  assumes "policy_ok p (set (dict_keys d))" "distinct (dict_keys d)"
  shows "\<exists>res p' d'. touch_loop now keys (p, d) = (res, (p', d')) \<and> mset d' = mset d \<and>
    policy_ok p' (set (dict_keys d'))"
  using assms
proof (induction keys arbitrary: p d)
  case (Cons key keys)
  obtain res p1 d1 where step: "update_on_hit ck_chunk_hash now key (p, d) = (res, (p1, d1))"
    "mset d1 = mset d" "policy_ok p1 (set (dict_keys d))"
    using policy_hit_law [OF Cons.prems, of key ck_chunk_hash now]
      policy_miss [OF Cons.prems(1), of key ck_chunk_hash now] by blast
  have "mset (dict_keys d1) = mset (dict_keys d)" using step(2) by (metis mset_map)
  then have keys: "set (dict_keys d1) = set (dict_keys d)" "distinct (dict_keys d1)"
    using mset_eq_setD mset_eq_imp_distinct_iff Cons.prems(2) by blast+
  then have p1: "policy_ok p1 (set (dict_keys d1))" using step(3) by simp
  show ?case
  proof (cases res)
    case (Inl e)
    then show ?thesis using step p1 by simp
  next
    case (Inr u)
    obtain res' p' d' where "touch_loop now keys (p1, d1) = (res', (p', d'))" "mset d' = mset d1"
      "policy_ok p' (set (dict_keys d'))"
      using Cons.IH [OF p1 keys(2)] by blast
    then show ?thesis using step(1,2) Inr by simp
  qed
qed simp

lemma inv_touch:
  assumes inv: "lcb_inv k H b"
  shows "lcb_inv k H (snd (touch_cache now b))"
proof -
  have pol: "policy_ok (lcb_policy b) (set (dict_keys (hot_cache b)))" "distinct (dict_keys (hot_cache b))"
    using inv by (simp_all add: lcb_inv_def)
  from touch_loop_ok [OF pol, of now "rev (keys_in_request b)"] obtain res p d
    where t: "touch_loop now (rev (keys_in_request b)) (lcb_policy b, hot_cache b) = (res, (p, d))"
      "mset d = mset (hot_cache b)" "policy_ok p (set (dict_keys d))" by (elim exE conjE)
  have "mset (dict_keys d) = mset (dict_keys (hot_cache b))" using t(2) by (metis mset_map)
  then have "distinct (dict_keys d)"
    using mset_eq_imp_distinct_iff \<open>distinct (dict_keys (hot_cache b))\<close> by blast
  moreover have "(\<lambda>r. H r + uses r d) = (\<lambda>r. H r + uses r (hot_cache b))"
    using uses_mset [OF t(2)] by (simp add: fun_eq_iff)
  ultimately show ?thesis
    using inv t by (cases res) (simp_all add: touch_cache_def lcb_inv_def)
qed

text \<open>Removing a cached key gives up its reference and touches no other object.\<close>

lemma remove_cached:
  assumes E: "sorted_list_ok E" and inv: "lcb_inv k H b" and hit: "map_of (hot_cache b) key = Some r"
  shows "\<exists>b'. lcb_remove E True key b = (Inr True, b') \<and> lcb_inv k H b' \<and>
    hot_cache b' = dict_del key (hot_cache b)"
proof -
  let ?n = "\<lambda>q. H q + uses q (hot_cache b)"
  have "0 < ?n r" using uses_pos [OF hit] by simp
  then obtain st where st: "mo_ref_count_down E r (lcb_mem b) = (Inr (), st)"
    "mem_counted k (?n(r := ?n r - 1)) st"
    using counted_down [OF E, of k ?n "lcb_mem b" r] inv by (auto simp: lcb_inv_def)
  have dist: "distinct (dict_keys (hot_cache b))" using inv by (simp add: lcb_inv_def)
  have "?n(r := ?n r - 1) = (\<lambda>q. H q + uses q (dict_del key (hot_cache b)))"
    using uses_pos [OF hit] by (auto simp: fun_eq_iff uses_del [OF dist hit])
  then have mem: "mem_counted k (\<lambda>q. H q + uses q (dict_del key (hot_cache b))) st" using st(2) by simp
  have "policy_ok (lcb_policy b) (set (dict_keys (hot_cache b)))" using inv by (simp add: lcb_inv_def)
  from policy_force_law [OF this, of key] obtain p
    where p: "update_on_force_evict key (lcb_policy b) = (Inr (), p)"
      "policy_ok p (set (dict_keys (hot_cache b)) - {key})" by (elim exE conjE)
  let ?b = "lcb_send EVICT key (b\<lparr>hot_cache := dict_del key (hot_cache b), lcb_mem := st, lcb_policy := p\<rparr>)"
  have "lcb_inv k H ?b"
    using mem p(2) dist by (simp add: lcb_inv_def set_dict_keys_del del: set_map)
  moreover have "lcb_remove E True key b = (Inr True, ?b)"
    using hit st(1) p(1) by (simp add: lcb_remove_def Let_def)
  ultimately show ?thesis by auto
qed

lemma inv_remove:
  assumes "sorted_list_ok E" "lcb_inv k H b"
  shows "\<exists>res b'. lcb_remove E True key b = (Inr res, b') \<and> lcb_inv k H b' \<and>
    hot_cache b' = dict_del key (hot_cache b)"
proof (cases "map_of (hot_cache b) key")
  case None
  then have "dict_del key (hot_cache b) = hot_cache b" by (simp add: AList.delete_id map_of_eq_None_iff)
  then have "lcb_remove E True key b = (Inr False, b) \<and> lcb_inv k H b \<and>
      hot_cache b = dict_del key (hot_cache b)"
    using None assms(2) by (simp add: lcb_remove_def)
  then show ?thesis by blast
qed (use remove_cached [OF assms] in blast)

lemma inv_batched_remove:
  assumes E: "sorted_list_ok E"
  shows "lcb_inv k H b \<Longrightarrow> \<exists>n b'. batched_remove E True keys b = (Inr n, b') \<and> lcb_inv k H b'"
proof (induction keys arbitrary: b)
  case (Cons key keys)
  obtain res b1 where r: "lcb_remove E True key b = (Inr res, b1)" "lcb_inv k H b1"
    using inv_remove [OF E Cons.prems] by blast
  then obtain n b2 where "batched_remove E True keys b1 = (Inr n, b2)" "lcb_inv k H b2"
    using Cons.IH by blast
  then show ?case using r by simp
qed simp

lemma inv_clear:
  assumes "sorted_list_ok E" "lcb_inv k H b"
  shows "lcb_inv k H (snd (lcb_clear E b))"
proof (cases "use_hot b \<and> (\<exists>ks n. clear_scan (lcb_mem b) (hot_cache b) = Inr (ks, n))")
  case True
  then obtain ks n where s: "use_hot b" "clear_scan (lcb_mem b) (hot_cache b) = Inr (ks, n)" by blast
  obtain c b' where "batched_remove E True ks b = (Inr c, b')" "lcb_inv k H b'"
    using inv_batched_remove [OF assms] by blast
  then show ?thesis using s by (simp add: lcb_clear_def)
next
  case False
  then show ?thesis using assms(2) by (auto simp: lcb_clear_def split: sum.splits)
qed

section \<open>What allocation evicts\<close>

text \<open>
  b' is b after evicting entries that could be evicted: the other entries stay, in their order, and
  so do the objects of everything else.
\<close>

definition idle_in :: "local_cpu_backend \<Rightarrow> cache_engine_key \<Rightarrow> bool" where
  "idle_in b key \<longleftrightarrow> evictable (entry_can_evict (lcb_mem b)) (hot_cache b) key"

definition evicts :: "cache_engine_key set \<Rightarrow> local_cpu_backend \<Rightarrow> local_cpu_backend \<Rightarrow> bool" where
  "evicts K b b' \<longleftrightarrow> K \<subseteq> Collect (idle_in b) \<and> hot_cache b' = without K (hot_cache b) \<and>
     (\<forall>r. (\<forall>key \<in> K. map_of (hot_cache b) key \<noteq> Some r) \<longrightarrow> objs (lcb_mem b') r = objs (lcb_mem b) r) \<and>
     use_hot b' = use_hot b"

lemma evicts_refl: "hot_cache b' = hot_cache b \<Longrightarrow> lcb_mem b' = lcb_mem b \<Longrightarrow> use_hot b' = use_hot b \<Longrightarrow>
    evicts {} b b'"
  by (simp add: evicts_def)

lemma idle_in_counts:
  assumes inv: "lcb_inv k H b" and idle: "idle_in b key"
  obtains r where "map_of (hot_cache b) key = Some r" "H r = 0" "uses r (hot_cache b) = 1"
proof -
  obtain r where r: "map_of (hot_cache b) key = Some r" "entry_can_evict (lcb_mem b) r"
    using idle by (auto simp: idle_in_def evictable_def split: option.splits)
  obtain m where m: "objs (lcb_mem b) r = Some m" "valid m"
    using cached_live [OF inv r(1)] by (auto simp: is_valid_some)
  then have "counted (\<lambda>q. H q + uses q (hot_cache b)) m r"
    using inv by (simp add: lcb_inv_def mem_counted_def)
  moreover have "mo_can_evict m" using r(2) m(1) by (simp add: entry_can_evict_def)
  ultimately have "H r + uses r (hot_cache b) = 1"
    by (simp add: counted_def mo_can_evict_def can_evict_def)
  with uses_pos [OF r(1)] that r(1) show thesis by auto
qed

lemma uses_one_unique:
  assumes "distinct (dict_keys d)" "uses r d = 1" "map_of d k1 = Some r" "map_of d k2 = Some r"
  shows "k1 = k2"
proof -
  have "(k1, r) \<in> set (filter (\<lambda>e. snd e = r) d)" "(k2, r) \<in> set (filter (\<lambda>e. snd e = r) d)"
    using assms(3,4) map_of_SomeD by fastforce+
  moreover obtain e where "filter (\<lambda>e. snd e = r) d = [e]"
    using assms(2) by (auto simp: uses_def length_Suc_conv)
  ultimately show ?thesis by auto
qed

lemma evicts_trans:
  assumes inv: "lcb_inv k H b" and one: "evicts K b b1" and two: "evicts L b1 b2"
  shows "evicts (K \<union> L) b b2"
proof -
  have h1: "hot_cache b1 = without K (hot_cache b)" using one by (simp add: evicts_def)
  have same: "objs (lcb_mem b1) r = objs (lcb_mem b) r"
    if "map_of (hot_cache b) key = Some r" "key \<notin> K" for key r
  proof -
    have "map_of (hot_cache b) key' \<noteq> Some r" if "key' \<in> K" for key'
    proof
      assume hit: "map_of (hot_cache b) key' = Some r"
      have "idle_in b key'" using one that by (auto simp: evicts_def)
      then obtain r' where "map_of (hot_cache b) key' = Some r'" "uses r' (hot_cache b) = 1"
        by (rule idle_in_counts [OF inv])
      then have "key' = key"
        using hit \<open>map_of (hot_cache b) key = Some r\<close> inv uses_one_unique
        by (metis lcb_inv_def option.inject)
      then show False using that \<open>key \<notin> K\<close> by simp
    qed
    then show ?thesis using one by (simp add: evicts_def)
  qed
  have "idle_in b key" if "key \<in> L" for key
  proof -
    have i: "idle_in b1 key" using two that by (auto simp: evicts_def)
    then obtain r where r: "map_of (hot_cache b1) key = Some r" "entry_can_evict (lcb_mem b1) r"
      by (auto simp: idle_in_def evictable_def split: option.splits)
    then have k: "key \<notin> K" "map_of (hot_cache b) key = Some r" by (auto simp: h1 split: if_splits)
    then show ?thesis using r(2) same [OF k(2,1)] by (simp add: idle_in_def evictable_def entry_can_evict_def)
  qed
  moreover have "objs (lcb_mem b2) r = objs (lcb_mem b) r"
    if "\<forall>key \<in> K \<union> L. map_of (hot_cache b) key \<noteq> Some r" for r
  proof -
    have "map_of (hot_cache b1) key \<noteq> Some r" if "key \<in> L" for key
      using that \<open>\<forall>key \<in> K \<union> L. map_of (hot_cache b) key \<noteq> Some r\<close> by (simp add: h1)
    then have "objs (lcb_mem b2) r = objs (lcb_mem b1) r" using two by (simp add: evicts_def)
    also have "\<dots> = objs (lcb_mem b) r" using one that by (simp add: evicts_def)
    finally show ?thesis .
  qed
  ultimately show ?thesis using one two by (auto simp: evicts_def Un_commute)
qed

lemma evict_round_ok:
  assumes E: "sorted_list_ok E" and sd: "sd_items_ok sd_items" and inv: "lcb_inv k H b"
  shows "(\<exists>b'. evict_round E sd_items b = (Inr False, b') \<and> lcb_inv k H b' \<and> evicts {} b b' \<and>
      (use_hot b \<longrightarrow> (\<forall>key. \<not> idle_in b' key))) \<or>
    (\<exists>key b'. evict_round E sd_items b = (Inr True, b') \<and> lcb_inv k H b' \<and> evicts {key} b b')"
proof (cases "use_hot b")
  case False
  then show ?thesis using inv evicts_refl by (simp add: evict_round_def)
next
  case True
  let ?ce = "entry_can_evict (lcb_mem b)"
  let ?d = "hot_cache b"
  have ok: "sd_items_ok sd_items \<and> policy_ok (lcb_policy b) (set (dict_keys ?d))"
    and dist: "distinct (dict_keys ?d)" using sd inv by (simp_all add: lcb_inv_def)
  from policies.one_candidate [OF ok dist, of ?ce] show ?thesis
  proof (elim disjE exE conjE)
    fix p
    assume c: "get_evict_candidates sd_items ?ce ?d 1 (lcb_policy b) = (Inr [], p)"
      and p: "policy_ok p (set (dict_keys ?d))" and none: "\<forall>key. \<not> evictable ?ce ?d key"
    let ?b = "b\<lparr>lcb_policy := p\<rparr>"
    have "lcb_inv k H ?b" using inv p by (simp add: lcb_inv_def)
    moreover have "evicts {} b ?b" by (rule evicts_refl) simp_all
    moreover have "\<forall>key. \<not> idle_in ?b key" using none by (simp add: idle_in_def)
    ultimately show ?thesis using True c by (simp add: evict_round_def)
  next
    fix key p
    assume c: "get_evict_candidates sd_items ?ce ?d 1 (lcb_policy b) = (Inr [key], p)"
      and idle: "evictable ?ce ?d key" and p: "policy_ok p (set (dict_keys ?d) - {key})"
    let ?b = "b\<lparr>lcb_policy := p\<rparr>"
    have i: "idle_in b key" using idle by (simp add: idle_in_def)
    then obtain r where r: "map_of ?d key = Some r" "H r = 0" "uses r ?d = 1"
      by (rule idle_in_counts [OF inv])
    let ?n = "\<lambda>q. H q + uses q ?d"
    have "0 < ?n r" using r by simp
    then obtain st where st: "mo_ref_count_down E r (lcb_mem b) = (Inr (), st)"
      "mem_counted k (?n(r := ?n r - 1)) st" "\<forall>q. q \<noteq> r \<longrightarrow> objs st q = objs (lcb_mem b) q"
      using counted_down [OF E, of k ?n "lcb_mem b" r] inv by (auto simp: lcb_inv_def)
    have "?n(r := ?n r - 1) = (\<lambda>q. H q + uses q (dict_del key ?d))"
      using r by (auto simp: fun_eq_iff uses_del [OF dist r(1)])
    then have mem: "mem_counted k (\<lambda>q. H q + uses q (dict_del key ?d)) st" using st(2) by simp
    let ?b' = "lcb_send EVICT key (?b\<lparr>hot_cache := dict_del key ?d, lcb_mem := st\<rparr>)"
    have "lcb_inv k H ?b'" using mem p dist by (simp add: lcb_inv_def set_dict_keys_del del: set_map)
    moreover have "evicts {key} b ?b'"
    proof -
      have "dict_del key ?d = without {key} ?d"
        by (auto simp: without_def AList.delete_eq intro: filter_cong)
      then show ?thesis using i r st(3) by (auto simp: evicts_def)
    qed
    moreover have "evict_round E sd_items b = (Inr True, ?b')"
      using True c r(1) st(1) by (simp add: evict_round_def lcb_remove_def Let_def)
    ultimately show ?thesis by blast
  qed
qed

text \<open>The object handed out is new to everybody.\<close>

definition handed_out :: "nat \<Rightarrow> (nat \<Rightarrow> nat) \<Rightarrow> nat \<Rightarrow> local_cpu_backend \<Rightarrow> local_cpu_backend \<Rightarrow> bool" where
  "handed_out k H r b b' \<longleftrightarrow> \<not> is_valid (lcb_mem b) r \<and> H r = 0 \<and> uses r (hot_cache b) = 0 \<and>
     lcb_inv k (H(r := 1)) b' \<and> hot_cache b' = hot_cache b \<and> use_hot b' = use_hot b \<and>
     (\<forall>q. q \<noteq> r \<longrightarrow> objs (lcb_mem b') q = objs (lcb_mem b) q)"

definition sizes_ok :: "env \<Rightarrow> torch_size one_or_list \<Rightarrow> torch_dtype one_or_list \<Rightarrow> bool" where
  "sizes_ok E sa da \<longleftrightarrow> (case adapt_shapes_and_dtypes sa da of
     Inl e \<Rightarrow> False
   | Inr (ss, ds) \<Rightarrow> (case get_size_bytes E ss ds of Inl e \<Rightarrow> False | Inr n \<Rightarrow> 0 < n))"

lemma pool_allocate_ok:
  assumes E: "sorted_list_ok E" and inv: "lcb_inv k H b" and sz: "sizes_ok E sa da" and f: "f \<in> tensor_formats"
  shows "(\<exists>r b'. pool_allocate E sa da f b = (Inr (Some r), b') \<and> handed_out k H r b b') \<or>
    pool_allocate E sa da f b = (Inr None, b)"
proof -
  let ?n = "\<lambda>q. H q + uses q (hot_cache b)"
  obtain ss ds where a: "adapt_shapes_and_dtypes sa da = Inr (ss, ds)"
    using sz by (cases "adapt_shapes_and_dtypes sa da") (auto simp: sizes_ok_def)
  obtain raw where "get_size_bytes E ss ds = Inr raw" "0 < raw"
    using sz by (cases "get_size_bytes E ss ds") (auto simp: sizes_ok_def a)
  note s = a this
  have c: "mem_counted k ?n (lcb_mem b)" using inv by (simp add: lcb_inv_def)
  from counted_allocate [OF E c s f] show ?thesis
  proof (elim disjE exE conjE)
    fix r st
    assume a: "mixed_allocate E sa da f (lcb_mem b) = (Inr (Some r), st)" "\<not> is_valid (lcb_mem b) r"
      "H r + uses r (hot_cache b) = 0" "mem_counted k (?n(r := 1)) st"
      "\<forall>q. q \<noteq> r \<longrightarrow> objs st q = objs (lcb_mem b) q"
    have "?n(r := 1) = (\<lambda>q. (H(r := 1)) q + uses q (hot_cache b))" using a(3) by (auto simp: fun_eq_iff)
    then have "handed_out k H r b (b\<lparr>lcb_mem := st\<rparr>)"
      using a inv by (simp add: handed_out_def lcb_inv_def)
    then show ?thesis using a(1) by (simp add: pool_allocate_def)
  next
    assume "mixed_allocate E sa da f (lcb_mem b) = (Inr None, lcb_mem b)"
    then show ?thesis by (simp add: pool_allocate_def)
  qed
qed

text \<open>What allocate does without a busy loop: it always returns.\<close>

definition allocated :: "nat \<Rightarrow> (nat \<Rightarrow> nat) \<Rightarrow> local_cpu_backend \<Rightarrow> nat option \<Rightarrow> local_cpu_backend \<Rightarrow> bool" where
  "allocated k H b res b' \<longleftrightarrow> (\<exists>K b1. evicts K b b1 \<and> lcb_inv k H b1 \<and>
     (case res of
        None \<Rightarrow> b' = b1 \<and> (use_hot b \<longrightarrow> (\<forall>key. \<not> idle_in b' key))
      | Some r \<Rightarrow> handed_out k H r b1 b'))"

lemma allocated_after:
  assumes inv: "lcb_inv k H b" and e: "evicts K b b1" and a: "allocated k H b1 res b'"
  shows "allocated k H b res b'"
proof -
  obtain L b2 where two: "evicts L b1 b2" "lcb_inv k H b2"
    and c: "case res of None \<Rightarrow> b' = b2 \<and> (use_hot b1 \<longrightarrow> (\<forall>key. \<not> idle_in b' key))
      | Some r \<Rightarrow> handed_out k H r b2 b'"
    using a by (auto simp: allocated_def)
  have "use_hot b1 = use_hot b" using e by (simp add: evicts_def)
  then have "case res of None \<Rightarrow> b' = b2 \<and> (use_hot b \<longrightarrow> (\<forall>key. \<not> idle_in b' key))
      | Some r \<Rightarrow> handed_out k H r b2 b'" using c by (cases res; auto)
  then show ?thesis using evicts_trans [OF inv e two(1)] two(2) unfolding allocated_def by blast
qed

lemma allocate_loop_ok:
  assumes E: "sorted_list_ok E" and sd: "sd_items_ok sd_items" and sz: "sizes_ok E sa da"
    and f: "f \<in> tensor_formats"
  shows "lcb_inv k H b \<Longrightarrow> \<exists>res b'. allocate_loop E sd_items sa da f False waits b = (Inr (Returned res), b') \<and>
    allocated k H b res b'"
proof (induction "length (hot_cache b)" arbitrary: b rule: less_induct)
  case less
  from evict_round_ok [OF E sd less.prems] show ?case
  proof (elim disjE exE conjE)
    fix b1
    assume r: "evict_round E sd_items b = (Inr False, b1)" "lcb_inv k H b1" "evicts {} b b1"
      "use_hot b \<longrightarrow> (\<forall>key. \<not> idle_in b1 key)"
    have "allocate_loop E sd_items sa da f False waits b = (Inr (Returned None), b1)"
      by (subst allocate_loop.simps) (simp add: r(1))
    moreover have "allocated k H b None b1" using r(2-4) by (auto simp: allocated_def)
    ultimately show ?thesis by blast
  next
    fix key b1
    assume r: "evict_round E sd_items b = (Inr True, b1)" "lcb_inv k H b1" "evicts {key} b b1"
    from pool_allocate_ok [OF E r(2) sz f] show ?thesis
    proof (elim disjE exE conjE)
      fix q b2
      assume a: "pool_allocate E sa da f b1 = (Inr (Some q), b2)" "handed_out k H q b1 b2"
      have "allocate_loop E sd_items sa da f False waits b = (Inr (Returned (Some q)), b2)"
        by (subst allocate_loop.simps) (simp add: r(1) a(1))
      moreover have "allocated k H b (Some q) b2" using r(2,3) a(2) by (auto simp: allocated_def)
      ultimately show ?thesis by blast
    next
      assume n: "pool_allocate E sa da f b1 = (Inr None, b1)"
      have l: "allocate_loop E sd_items sa da f False waits b = allocate_loop E sd_items sa da f False waits b1"
        by (subst allocate_loop.simps) (simp add: r(1) n)
      from less.hyps [OF evict_round_shrinks [OF r(1)] r(2)] obtain res b' where
        "allocate_loop E sd_items sa da f False waits b1 = (Inr (Returned res), b')" "allocated k H b1 res b'"
        by blast
      then show ?thesis using allocated_after [OF less.prems r(3)] l by auto
    qed
  qed
qed

lemma lcb_allocate_ok:
  assumes E: "sorted_list_ok E" and sd: "sd_items_ok sd_items" and inv: "lcb_inv k H b"
    and sz: "sizes_ok E sa da" and f: "default_fmt fo b \<in> tensor_formats"
  shows "\<exists>res b'. lcb_allocate E sd_items sa da fo True False waits b = (Inr (Returned res), b') \<and>
    allocated k H b res b'"
  using pool_allocate_ok [OF E inv sz f]
proof (elim disjE exE conjE)
  fix r b1
  assume a: "pool_allocate E sa da (default_fmt fo b) b = (Inr (Some r), b1)" "handed_out k H r b b1"
  have "evicts {} b b" by (simp add: evicts_def)
  then have "allocated k H b (Some r) b1" using inv a(2) by (auto simp: allocated_def)
  then show ?thesis using a(1) by (simp add: lcb_allocate_def)
next
  assume "pool_allocate E sa da (default_fmt fo b) b = (Inr None, b)"
  then show ?thesis using allocate_loop_ok [OF E sd sz f inv, of waits] by (simp add: lcb_allocate_def)
qed

section \<open>Histories\<close>

text \<open>
  The calls that the callers of the backend make, with the references they hold. A caller gives a
  reference back only when it holds one and caches only an object it holds. Allocations of tensors
  do not wait here.
\<close>

inductive lcb_step :: "env \<Rightarrow> ((nat, cache_engine_key list) dict \<Rightarrow> (nat \<times> cache_engine_key list) list)
    \<Rightarrow> local_cpu_backend \<times> (nat \<Rightarrow> nat) \<Rightarrow> local_cpu_backend \<times> (nat \<Rightarrow> nat) \<Rightarrow> bool" for E sd_items where
  step_put: "0 < H r \<Longrightarrow> lcb_step E sd_items (b, H) (snd (submit_put_task now key r b), H)"
| step_get: "get_blocking key b = (Some r, b') \<Longrightarrow>
    lcb_step E sd_items (b, H) (b', H(r := Suc (H r)))"
| step_contains: "lcb_step E sd_items (b, H) (snd (lcb_contains key p b), H)"
| step_touch: "lcb_step E sd_items (b, H) (snd (touch_cache now b), H)"
| step_pin: "lcb_step E sd_items (b, H) (snd (lcb_pin key b), H)"
| step_unpin: "lcb_step E sd_items (b, H) (snd (lcb_unpin E key b), H)"
| step_remove: "lcb_step E sd_items (b, H) (snd (lcb_remove E True key b), H)"
| step_clear: "lcb_step E sd_items (b, H) (snd (lcb_clear E b), H)"
| step_allocate: "sizes_ok E sa da \<Longrightarrow> default_fmt fo b \<in> tensor_formats \<Longrightarrow>
    lcb_allocate E sd_items sa da fo True False [] b = (Inr (Returned (Some r)), b') \<Longrightarrow>
    lcb_step E sd_items (b, H) (b', H(r := Suc (H r)))"
| step_no_memory: "sizes_ok E sa da \<Longrightarrow> default_fmt fo b \<in> tensor_formats \<Longrightarrow>
    lcb_allocate E sd_items sa da fo True False [] b = (Inr (Returned None), b') \<Longrightarrow>
    lcb_step E sd_items (b, H) (b', H)"
| step_retain: "0 < H r \<Longrightarrow>
    lcb_step E sd_items (b, H) (b\<lparr>lcb_mem := mo_ref_count_up r (lcb_mem b)\<rparr>, H(r := Suc (H r)))"
| step_release: "0 < H r \<Longrightarrow> mo_ref_count_down E r (lcb_mem b) = (res, st) \<Longrightarrow>
    lcb_step E sd_items (b, H) (b\<lparr>lcb_mem := st\<rparr>, H(r := H r - 1))"

definition lcb_reachable :: "env \<Rightarrow> ((nat, cache_engine_key list) dict \<Rightarrow> (nat \<times> cache_engine_key list) list)
    \<Rightarrow> nat \<Rightarrow> local_cpu_backend \<Rightarrow> (nat \<Rightarrow> nat) \<Rightarrow> bool" where
  "lcb_reachable E sd_items k b H \<longleftrightarrow>
     (\<exists>policy_name local_cpu layerwise blending sz sender b0. 0 < sz \<and>
        lcb_init policy_name local_cpu layerwise blending (empty_pool E sz (2 ^ k) None) sender = Inr b0 \<and>
        (lcb_step E sd_items)\<^sup>*\<^sup>* (b0, \<lambda>r. 0) (b, H))"

lemma inv_retain:
  assumes "lcb_inv k H b" "0 < H r"
  shows "lcb_inv k (H(r := Suc (H r))) (b\<lparr>lcb_mem := mo_ref_count_up r (lcb_mem b)\<rparr>)"
proof -
  let ?n = "\<lambda>q. H q + uses q (hot_cache b)"
  have c: "mem_counted k ?n (lcb_mem b)" using assms(1) by (simp add: lcb_inv_def)
  have "?n(r := Suc (?n r)) = (\<lambda>q. (H(r := Suc (H r))) q + uses q (hot_cache b))"
    by (simp add: fun_eq_iff)
  then show ?thesis
    using counted_up(1) [OF c held_live [OF assms]] assms(1) by (simp add: lcb_inv_def)
qed

lemma inv_release:
  assumes E: "sorted_list_ok E" and inv: "lcb_inv k H b" and held: "0 < H r"
  shows "\<exists>st. mo_ref_count_down E r (lcb_mem b) = (Inr (), st) \<and>
    lcb_inv k (H(r := H r - 1)) (b\<lparr>lcb_mem := st\<rparr>)"
proof -
  let ?n = "\<lambda>q. H q + uses q (hot_cache b)"
  have c: "mem_counted k ?n (lcb_mem b)" using inv by (simp add: lcb_inv_def)
  have "0 < ?n r" using held by simp
  from counted_down [OF E c this] obtain st where st: "mo_ref_count_down E r (lcb_mem b) = (Inr (), st)"
    "mem_counted k (?n(r := ?n r - 1)) st" by blast
  have "?n(r := ?n r - 1) = (\<lambda>q. (H(r := H r - 1)) q + uses q (hot_cache b))"
    using held by (auto simp: fun_eq_iff)
  then show ?thesis using st inv by (simp add: lcb_inv_def)
qed

lemma lcb_step_inv:
  assumes E: "sorted_list_ok E" and sd: "sd_items_ok sd_items"
    and step: "lcb_step E sd_items (b, H) (b', H')" and inv: "lcb_inv k H b"
  shows "lcb_inv k H' b'"
  using step
proof cases
  case (step_put r now key)
  then show ?thesis using inv_put [OF inv held_live [OF inv]] by simp
next
  case (step_get key r)
  then show ?thesis using inv_get [OF inv] by (auto simp: get_blocking_def split: option.splits)
next
  case (step_allocate sa da fo r)
  from lcb_allocate_ok [OF E sd inv step_allocate(2,3), of "[]"] step_allocate(4)
  have "allocated k H b (Some r) b'" by auto
  then obtain b1 where "handed_out k H r b1 b'" by (auto simp: allocated_def)
  then show ?thesis using step_allocate(1) by (simp add: handed_out_def)
next
  case (step_no_memory sa da fo)
  from lcb_allocate_ok [OF E sd inv step_no_memory(2,3), of "[]"] step_no_memory(4)
  have "allocated k H b None b'" by auto
  then show ?thesis using step_no_memory(1) by (auto simp: allocated_def)
next
  case (step_remove key)
  then show ?thesis using inv_remove [OF E inv, of key] by auto
next
  case (step_retain r)
  then show ?thesis using inv_retain [OF inv] by simp
next
  case (step_release r res st)
  then show ?thesis using inv_release [OF E inv, of r] by auto
qed (use inv inv_contains [OF inv] inv_touch [OF inv] inv_lcb_pin [OF inv] inv_unpin [OF E inv]
    inv_clear [OF E inv] in auto)

lemma lcb_init_inv:
  assumes E: "sorted_list_ok E" and sz: "0 < sz"
    and init: "lcb_init policy_name local_cpu layerwise blending (empty_pool E sz (2 ^ k) None) sender = Inr b"
  shows "lcb_inv k (\<lambda>r. 0) b"
proof -
  have "pool_ok k (empty_pool E sz (2 ^ k) None)" using E sz by (intro empty_pool_ok) simp_all
  then have mem: "mem_counted k (\<lambda>r. 0) (empty_pool E sz (2 ^ k) None)"
    by (simp add: mem_counted_def empty_pool_def)
  have "policy_ok p {}" if "get_cache_policy policy_name = Inr p" for p :: "(cache_engine_key, int) cache_policy"
    using that lfu_refines_init by (auto simp: get_cache_policy_def Let_def split: if_splits)
  then show ?thesis
    using init mem by (auto simp: lcb_init_def lcb_inv_def uses_def split: sum.splits)
qed

lemma lcb_reachable_inv:
  assumes E: "sorted_list_ok E" and sd: "sd_items_ok sd_items" and r: "lcb_reachable E sd_items k b H"
  shows "lcb_inv k H b"
proof -
  obtain policy_name local_cpu layerwise blending sz sender b0 where s: "0 < sz"
    and init: "lcb_init policy_name local_cpu layerwise blending (empty_pool E sz (2 ^ k) None) sender = Inr b0"
    and run: "(lcb_step E sd_items)\<^sup>*\<^sup>* (b0, \<lambda>r. 0) (b, H)"
    using r unfolding lcb_reachable_def by blast
  from run show ?thesis
    by (induction "(b, H)" arbitrary: b H rule: rtranclp_induct)
      (use lcb_init_inv [OF E s init] lcb_step_inv [OF E sd] in auto)
qed

section \<open>Properties\<close>

lemma pool_ok_memcheck: "pool_ok k st \<Longrightarrow> ta_memcheck (allocator st)"
  using check_consistency_inv
  by (simp add: pool_ok_def ta_memcheck_def Let_def get_free_size_def get_heap_size_def)

text \<open>C19: Nothing in use is freed by the backend's operations on single keys. In every history of put, get,
  contains, touch, pin, unpin, remove, clear and allocate (of well-formed shapes, with eviction and
  without waiting), between which callers take further references to what they hold and release
  it, and put only what they hold, whatever the policy, the evictions and the pins: every cached object and
  every object a caller holds is live, each live object's count is exactly the references held
  plus the keys it is cached under, no two live objects share memory, and the allocator's books
  balance. The histories leave batched_allocate out: its layerwise eviction does free objects in
  use, as the lemma batched_allocate_frees_objects_in_use shows.\<close>

theorem objects_in_use_stay_live:
  assumes E: "sorted_list_ok E" and sd: "sd_items_ok sd_items" and r: "lcb_reachable E sd_items k b H"
  shows "(\<forall>r. 0 < H r \<or> r \<in> set (dict_values (hot_cache b)) \<longrightarrow> is_valid (lcb_mem b) r) \<and>
    (\<forall>r m. objs (lcb_mem b) r = Some m \<longrightarrow> valid m \<longrightarrow>
       ref_count (meta m) = int (H r + uses r (hot_cache b))) \<and>
    objs_disjoint (lcb_mem b) \<and> ta_memcheck (allocator (lcb_mem b))"
proof -
  note inv = lcb_reachable_inv [OF assms]
  have pool: "pool_ok k (lcb_mem b)" using inv by (simp add: lcb_inv_def mem_counted_def)
  have dist: "distinct (dict_keys (hot_cache b))" using inv by (simp add: lcb_inv_def)
  have "is_valid (lcb_mem b) q" if "q \<in> set (dict_values (hot_cache b))" for q
  proof -
    from that obtain key where "(key, q) \<in> set (hot_cache b)" by auto
    then have "map_of (hot_cache b) key = Some q" using dist by simp
    then show ?thesis by (rule cached_live [OF inv])
  qed
  moreover have "ref_count (meta m) = int (H q + uses q (hot_cache b))"
    if "objs (lcb_mem b) q = Some m" "valid m" for q m
    using inv that by (simp add: lcb_inv_def mem_counted_def counted_def)
  ultimately show ?thesis
    using held_live [OF inv] pool pool_ok_memcheck [OF pool] by (auto simp: pool_ok_def)
qed

text \<open>C20: Allocation evicts only idle entries and, while the hot cache is in use, gives up only when there
  is none. In a state reached by the operations on single keys (batched_allocate is not among them)
  a call of allocate, of a well-formed shape and tensor format, that may evict and does not wait
  always returns. The entries it evicted
  were neither pinned nor in use, all others stay in their order with their objects untouched; an
  object it returns is new, held by nobody else; and if it returns None while use_hot is on, no entry
  that is left could be evicted. With use_hot off allocate evicts nothing, so it can return None
  although idle entries are cached.\<close>

theorem allocate_evicts_only_idle:
  assumes E: "sorted_list_ok E" and sd: "sd_items_ok sd_items" and r: "lcb_reachable E sd_items k b H"
    and sz: "sizes_ok E sa da" and f: "default_fmt fo b \<in> tensor_formats"
  shows "\<exists>res b' K. lcb_allocate E sd_items sa da fo True False waits b = (Inr (Returned res), b') \<and>
    (\<forall>key \<in> K. idle_in b key) \<and> hot_cache b' = without K (hot_cache b) \<and>
    (\<forall>q. Some q \<noteq> res \<longrightarrow> (\<forall>key \<in> K. map_of (hot_cache b) key \<noteq> Some q) \<longrightarrow>
       objs (lcb_mem b') q = objs (lcb_mem b) q) \<and>
    (case res of
       None \<Rightarrow> use_hot b \<longrightarrow> (\<forall>key. \<not> idle_in b' key)
     | Some q \<Rightarrow> H q = 0 \<and> uses q (hot_cache b') = 0 \<and> is_valid (lcb_mem b') q)"
proof -
  note inv = lcb_reachable_inv [OF E sd r]
  from lcb_allocate_ok [OF E sd inv sz f, of waits] obtain res b'
    where call: "lcb_allocate E sd_items sa da fo True False waits b = (Inr (Returned res), b')"
      and al: "allocated k H b res b'" by (elim exE conjE)
  obtain K b1 where e: "evicts K b b1" and i: "lcb_inv k H b1"
    and c: "case res of None \<Rightarrow> b' = b1 \<and> (use_hot b \<longrightarrow> (\<forall>key. \<not> idle_in b' key))
      | Some q \<Rightarrow> handed_out k H q b1 b'"
    using al unfolding allocated_def by (elim exE conjE)
  have "(\<forall>key \<in> K. idle_in b key) \<and> hot_cache b' = without K (hot_cache b) \<and>
    (\<forall>q. Some q \<noteq> res \<longrightarrow> (\<forall>key \<in> K. map_of (hot_cache b) key \<noteq> Some q) \<longrightarrow>
       objs (lcb_mem b') q = objs (lcb_mem b) q) \<and>
    (case res of
       None \<Rightarrow> use_hot b \<longrightarrow> (\<forall>key. \<not> idle_in b' key)
     | Some q \<Rightarrow> H q = 0 \<and> uses q (hot_cache b') = 0 \<and> is_valid (lcb_mem b') q)"
  proof (cases res)
    case None
    then show ?thesis using e c by (auto simp: evicts_def)
  next
    case (Some q)
    then have h: "handed_out k H q b1 b'" using c by simp
    then have "is_valid (lcb_mem b') q" using held_live [of k "H(q := 1)" b' q] by (simp add: handed_out_def)
    then show ?thesis using e h Some by (auto simp: evicts_def handed_out_def)
  qed
  then show ?thesis using call by blast
qed

text \<open>
  batched_allocate takes the layers of a chunk as they are: it frees the objects of layers that
  callers still hold, and it tells the controller nothing.
\<close>

section \<open>Examples\<close>

definition sample_cek :: "int \<Rightarrow> cache_engine_key" where
  "sample_cek h = \<lparr>ck_model_name = ''m'', ck_world_size = 1, ck_worker_id = 0, ck_chunk_hash = h,
     ck_dtype = ''float16'', ck_dtype_str = ''half'', ck_tags = None, ck_layer_id = None\<rparr>"

definition sample_lcb :: local_cpu_backend where
  "sample_lcb = \<lparr>lcb_policy = FIFOCachePolicy, hot_cache = [], use_hot = True,
     lcb_mem = empty_pool reference_env 4096 (2 ^ 12) None, lcb_layerwise = False,
     lcb_enable_blending = False, keys_in_request = [], lcb_sender = None\<rparr>"

abbreviation sample_allocate :: "local_cpu_backend \<Rightarrow> (nat option waiting, local_cpu_backend) outcome" where
  "sample_allocate \<equiv> lcb_allocate reference_env (sort_key fst) (One [2, 32]) (One ''int8'') None True False []"

definition sample_lcb1 :: local_cpu_backend where
  "sample_lcb1 = snd (sample_allocate sample_lcb)"

definition sample_lcb2 :: local_cpu_backend where
  "sample_lcb2 = snd (submit_put_task 0 (sample_cek 1) 0 sample_lcb1)"

definition sample_lcb3 :: local_cpu_backend where
  "sample_lcb3 = sample_lcb2\<lparr>lcb_mem := snd (mo_ref_count_down reference_env 0 (lcb_mem sample_lcb2))\<rparr>"

lemma sample_lcb_runs:
  "sample_allocate sample_lcb = (Inr (Returned (Some 0)), sample_lcb1)"
  "fst (sample_allocate sample_lcb3) = Inr (Returned (Some 1))"
proof -
  have "fst (sample_allocate sample_lcb) = Inr (Returned (Some 0))" by code_simp
  then show "sample_allocate sample_lcb = (Inr (Returned (Some 0)), sample_lcb1)"
    unfolding sample_lcb1_def by (metis prod.collapse)
  show "fst (sample_allocate sample_lcb3) = Inr (Returned (Some 1))" by code_simp
qed

lemma sample_sizes: "sizes_ok reference_env (One [2, 32]) (One ''int8'')"
  by (simp add: sizes_ok_def sample_shape)

lemma sample_reachable:
  "lcb_reachable reference_env (sort_key fst) 12 sample_lcb1 ((\<lambda>r. 0)(0 := Suc 0))"
  "lcb_reachable reference_env (sort_key fst) 12 sample_lcb3 (\<lambda>r. 0)"
proof -
  let ?step = "lcb_step reference_env (sort_key fst)"
  have init: "lcb_init ''FIFO'' True False False (empty_pool reference_env 4096 (2 ^ 12) None) None = Inr sample_lcb"
    by (simp add: lcb_init_def get_cache_policy_def sample_lcb_def Let_def)
  have fmt: "default_fmt None sample_lcb \<in> tensor_formats"
    by (simp add: default_fmt_def sample_lcb_def tensor_formats_def)
  have s1: "?step (sample_lcb, \<lambda>r. 0) (sample_lcb1, (\<lambda>r. 0)(0 := Suc 0))"
    using step_allocate [OF sample_sizes fmt sample_lcb_runs(1), of "\<lambda>r. 0"] by simp
  have s2: "?step (sample_lcb1, (\<lambda>r. 0)(0 := Suc 0)) (sample_lcb2, (\<lambda>r. 0)(0 := Suc 0))"
    unfolding sample_lcb2_def by (rule step_put) simp
  let ?H = "(\<lambda>r :: nat. 0 :: nat)(0 := Suc 0)"
  let ?down = "mo_ref_count_down reference_env 0 (lcb_mem sample_lcb2)"
  have held: "0 < ?H (0 :: nat)" and down: "?down = (fst ?down, snd ?down)" by simp_all
  have "?H(0 := ?H 0 - 1) = (\<lambda>r. 0)" by (simp add: fun_eq_iff)
  then have s3: "?step (sample_lcb2, ?H) (sample_lcb3, \<lambda>r. 0)"
    using step_release [of ?H 0, OF held down, of "sort_key fst"] unfolding sample_lcb3_def by simp
  show "lcb_reachable reference_env (sort_key fst) 12 sample_lcb1 ((\<lambda>r. 0)(0 := Suc 0))"
    unfolding lcb_reachable_def using init s1 by (intro exI conjI) (auto intro: r_into_rtranclp)
  show "lcb_reachable reference_env (sort_key fst) 12 sample_lcb3 (\<lambda>r. 0)"
    unfolding lcb_reachable_def using init s1 s2 s3
    by (intro exI conjI) (auto intro: rtranclp.rtrancl_into_rtrancl)
qed

lemma objects_in_use_stay_live_witness: "is_valid (lcb_mem sample_lcb1) 0"
  using objects_in_use_stay_live [OF reference_sorted_list_ok sort_items_ok sample_reachable(1)] by simp

lemma allocate_evicts_only_idle_witness:
  "\<exists>b' K. sample_allocate sample_lcb3 = (Inr (Returned (Some 1)), b') \<and>
     (\<forall>key \<in> K. idle_in sample_lcb3 key) \<and> hot_cache b' = without K (hot_cache sample_lcb3) \<and>
     is_valid (lcb_mem b') 1"
proof -
  have fmt: "default_fmt None sample_lcb3 \<in> tensor_formats" by code_simp
  obtain res b' K where c: "sample_allocate sample_lcb3 = (Inr (Returned res), b')"
    "\<forall>key \<in> K. idle_in sample_lcb3 key" "hot_cache b' = without K (hot_cache sample_lcb3)"
    and r: "case res of None \<Rightarrow> use_hot sample_lcb3 \<longrightarrow> (\<forall>key. \<not> idle_in b' key)
     | Some q \<Rightarrow> (0 :: nat) = 0 \<and> uses q (hot_cache b') = 0 \<and> is_valid (lcb_mem b') q"
    using allocate_evicts_only_idle [OF reference_sorted_list_ok sort_items_ok sample_reachable(2) sample_sizes fmt, of "[]"]
    by (elim exE conjE)
  have "res = Some 1" using sample_lcb_runs(2) c(1) by simp
  then show ?thesis using c r by auto
qed

text \<open>
  Two layers of a chunk are cached; a caller still uses the second. batched_allocate of two objects
  finds the first layer idle and evicts the chunk: the object in use is freed, its memory goes to
  the new objects, and no message is sent.
\<close>

definition layer_cek :: "int \<Rightarrow> cache_engine_key" where
  "layer_cek l = (sample_cek 1)\<lparr>ck_layer_id := Some l\<rparr>"

definition layers_lcb :: local_cpu_backend where
  "layers_lcb =
     (let b0 = sample_lcb\<lparr>lcb_mem := empty_pool reference_env 8192 (2 ^ 12) None, lcb_layerwise := True,
                          lcb_sender := Some (message_sender_init ''i'' 0 ''LocalCPUBackend'')\<rparr>;
          b1 = snd (lcb_batched_allocate 5 reference_env (sort_key fst) (One [2, 32]) (One ''int8'') 2 None
                      True False [] b0);
          b2 = snd (batched_submit_put_task 0 [layer_cek 0, layer_cek 1] [0, 1] b1)
      in b2\<lparr>lcb_mem := snd (mo_ref_count_down reference_env 0 (lcb_mem b2))\<rparr>)"

definition layers_lcb_after :: "(nat list option waiting, local_cpu_backend) outcome" where
  "layers_lcb_after = lcb_batched_allocate 5 reference_env (sort_key fst) (One [2, 32]) (One ''int8'') 2 None
     True False [] layers_lcb"

lemma batched_allocate_frees_objects_in_use:
  "map_option (\<lambda>m. (valid m, ref_count (meta m))) (objs (lcb_mem layers_lcb) 1) = Some (True, 2) \<and>
   fst layers_lcb_after = Inr (Returned (Some [2, 3])) \<and>
   map_option (\<lambda>m. (valid m, ref_count (meta m))) (objs (lcb_mem (snd layers_lcb_after)) 1) = Some (False, 2) \<and>
   map_option (\<lambda>m. address (meta m)) (objs (lcb_mem (snd layers_lcb_after)) 1) =
     map_option (\<lambda>m. address (meta m)) (objs (lcb_mem (snd layers_lcb_after)) 3) \<and>
   hot_cache (snd layers_lcb_after) = [] \<and>
   map_option bs_queue (lcb_sender (snd layers_lcb_after)) = map_option bs_queue (lcb_sender layers_lcb)"
proof (intro conjI)
  show "map_option (\<lambda>m. (valid m, ref_count (meta m))) (objs (lcb_mem layers_lcb) 1) = Some (True, 2)"
    by code_simp
  show "fst layers_lcb_after = Inr (Returned (Some [2, 3]))" by code_simp
  show "map_option (\<lambda>m. (valid m, ref_count (meta m))) (objs (lcb_mem (snd layers_lcb_after)) 1) = Some (False, 2)"
    by code_simp
  show "map_option (\<lambda>m. address (meta m)) (objs (lcb_mem (snd layers_lcb_after)) 1) =
      map_option (\<lambda>m. address (meta m)) (objs (lcb_mem (snd layers_lcb_after)) 3)" by code_simp
  show "hot_cache (snd layers_lcb_after) = []" by code_simp
  show "map_option bs_queue (lcb_sender (snd layers_lcb_after)) = map_option bs_queue (lcb_sender layers_lcb)"
    by code_simp
qed

end
