(* ===== verification/Chunk_Budget.thy ===== *)
theory Chunk_Budget
  imports Local_Cpu_Backend
begin

unbundle bit_operations_syntax

text \<open>
  The chunk budget of the CPU backend (calculate_chunk_budget of local_cpu_backend.py): how many
  chunks the asynchronous loader may hold at once. It counts on the pool to hand out that many
  chunks of the aligned size, and the theory shows that a pool nobody else uses does, and not one
  more.
\<close>

section \<open>Powers of two\<close>

lemma and_pred_even: "(2 * w) AND (2 * w - 1) = 2 * (w AND (w - 1))" for w :: int
proof -
  have "(2 * w - 1) div 2 = w - 1" by presburger
  then show ?thesis by (subst and_int_rec) simp
qed

lemma and_pred_odd: "(2 * w + 1) AND (2 * w) = 2 * w" for w :: int
  by (subst and_int_rec) simp

lemma is_power_of_two_iff: "is_power_of_two v \<longleftrightarrow> (\<exists>k. v = 2 ^ k)"
proof
  have "\<exists>k. v = 2 ^ k" if "0 < v" "v AND (v - 1) = 0" for v :: int
    using that
  proof (induction "nat v" arbitrary: v rule: less_induct)
    case less
    show ?case
    proof (cases "even v")
      case True
      then obtain w where w: "v = 2 * w" by blast
      have "w AND (w - 1) = 0" using less.prems(2) by (simp add: w and_pred_even)
      then obtain k where "w = 2 ^ k" using less.hyps [of w] less.prems(1) w by auto
      then have "v = 2 ^ Suc k" by (simp add: w)
      then show ?thesis by blast
    next
      case False
      then obtain w where w: "v = 2 * w + 1" by (rule oddE)
      then have "2 * w = 0" using less.prems(2) and_pred_odd [of w] by simp
      then have "v = 2 ^ 0" by (simp add: w)
      then show ?thesis by blast
    qed
  qed
  then show "is_power_of_two v \<Longrightarrow> \<exists>k. v = 2 ^ k" by (simp add: is_power_of_two_def)
  show "\<exists>k. v = 2 ^ k \<Longrightarrow> is_power_of_two v"
  proof -
    assume "\<exists>k. v = 2 ^ k"
    then obtain k where k: "v = 2 ^ k" by blast
    have "(2 ^ k :: int) AND (2 ^ k - 1) = 0"
      using take_bit_eq_mask [of k "2 ^ k :: int"] by (simp add: mask_eq_exp_minus_1 take_bit_eq_mod)
    then show ?thesis by (simp add: is_power_of_two_def k)
  qed
qed

lemma resolved_alignment:
  assumes "resolve_local_cpu_allocator_alignment c = Inr configured"
  obtains k where "pool_alignment configured = 2 ^ k"
proof -
  have "is_power_of_two 4096" by code_simp
  then have "is_power_of_two (pool_alignment configured)"
    using assms
    by (auto simp: pool_alignment_def resolve_local_cpu_allocator_alignment_def Let_def split: option.splits if_splits)
  then show thesis using that by (auto simp: is_power_of_two_iff)
qed

section \<open>Allocating chunks one after the other\<close>

fun allocate_many :: "env \<Rightarrow> torch_size one_or_list \<Rightarrow> torch_dtype one_or_list \<Rightarrow> memory_format
    \<Rightarrow> nat \<Rightarrow> ta_mem \<Rightarrow> (py_error + nat option) list \<times> ta_mem" where
  "allocate_many E sa da f 0 st = ([], st)"
| "allocate_many E sa da f (Suc n) st =
     (case mixed_allocate E sa da f st of (r, st') \<Rightarrow>
        (case allocate_many E sa da f n st' of (rs, st'') \<Rightarrow> (r # rs, st'')))"

text \<open>Chunk j is a live object of a bytes, the j-th such block of the pool.\<close>

definition chunk_at :: "ta_mem \<Rightarrow> int \<Rightarrow> nat \<Rightarrow> bool" where
  "chunk_at st a j \<longleftrightarrow> (\<exists>m. objs st j = Some m \<and> valid m \<and> address (meta m) = int j * a \<and> phy_size (meta m) = a)"

text \<open>The pool after i chunks, which lie one behind the other; the free addresses are those behind
  them.\<close>

definition filled :: "nat \<Rightarrow> int \<Rightarrow> int \<Rightarrow> nat \<Rightarrow> ta_mem \<Rightarrow> bool" where
  "filled k cap a i st \<longleftrightarrow> pool_ok k st \<and> next_oid st = i \<and> am_size (pool_am st) = cap \<and>
     free_addresses (pool_am st) = {int i * a ..< cap} \<and> (\<forall>j < i. chunk_at st a j)"

lemma region_in_tail: "0 < a \<Longrightarrow> region t a \<subseteq> {lo ..< hi} \<longleftrightarrow> lo \<le> t \<and> t + a \<le> hi" for a :: int
  by (auto simp: region_def)

lemma filled_step:
  assumes E: "sorted_list_ok E" and fl: "filled k cap a i st"
    and adapt: "adapt_shapes_and_dtypes sa da = Inr (ss, ds)"
    and raw: "get_size_bytes E ss ds = Inr raw" "0 < raw" and f: "f \<in> tensor_formats"
    and a: "a = 2 ^ k * ((raw + 2 ^ k - 1) div 2 ^ k)"
  shows "if int (Suc i) * a \<le> cap
    then \<exists>st'. mixed_allocate E sa da f st = (Inr (Some i), st') \<and> filled k cap a (Suc i) st'
    else mixed_allocate E sa da f st = (Inr None, st)"
proof -
  have ok: "pool_ok k st" and nx: "next_oid st = i" and sz: "am_size (pool_am st) = cap"
    and fr: "free_addresses (pool_am st) = {int i * a ..< cap}" and old: "\<forall>j < i. chunk_at st a j"
    using fl by (simp_all add: filled_def)
  have inv: "am_inv (pool_am st)" and al: "am_align (pool_am st) = 2 ^ k"
    using ok by (simp_all add: pool_ok_def)
  have ca: "compute_aligned_size (pool_am st) raw = a"
    using compute_aligned_size_pow2 [OF al] a by simp
  have pos: "0 < compute_aligned_size (pool_am st) raw" using aligned_pos [OF al raw(2)] .
  then have apos: "0 < a" by (simp add: ca)
  have mix: "mixed_allocate E sa da f st = ta_allocate E sa da f st"
    using f by (auto simp: mixed_allocate_def tensor_formats_def)
  have blocks: "blocks_ok (explicit_list (pool_am st))" using inv by (simp add: am_inv_def)
  from ta_allocate_cases [OF E ok adapt raw, of f] show ?thesis
  proof (elim disjE exE conjE)
    fix s am'
    let ?m = "obj_of E ss ds f (s, raw) s a"
    assume "let n = compute_aligned_size (pool_am st) raw; m = obj_of E ss ds f (s, raw) s n
        in am_allocate E (pool_am st) raw = (Inr (s, n), am') \<and>
           ta_allocate E sa da f st = (Inr (Some (next_oid st)), with_obj am' m st) \<and>
           pool_ok k (with_obj am' m st)"
    then have r: "am_allocate E (pool_am st) raw = (Inr (s, a), am')"
      and t: "ta_allocate E sa da f st = (Inr (Some i), with_obj am' ?m st)"
      and pk: "pool_ok k (with_obj am' ?m st)" by (simp_all add: Let_def ca nx)
    note al' = am_allocate_result [OF E inv pos r]
    have in_free: "int i * a \<le> s" "s + a \<le> cap"
      using al'(3) region_in_tail [OF apos, of s "int i * a" cap] by (simp_all add: fr)
    then have "region (int i * a) a \<subseteq> free_addresses (pool_am st)"
      using region_in_tail [OF apos, of "int i * a" "int i * a" cap] by (simp add: fr)
    then have "s = int i * a" using al'(7) [of "int i * a"] in_free(1) by simp
    have "free_addresses am' = {int (Suc i) * a ..< cap}"
      using al'(4) apos \<open>s = int i * a\<close> by (auto simp: fr region_def algebra_simps)
    moreover have "\<forall>j < Suc i. chunk_at (with_obj am' ?m st) a j"
      using old nx \<open>s = int i * a\<close> by (auto simp: chunk_at_def with_obj_def obj_of_def less_Suc_eq)
    ultimately have "filled k cap a (Suc i) (with_obj am' ?m st)"
      using pk al'(5) sz nx by (simp add: filled_def)
    moreover have "int (Suc i) * a \<le> cap"
      using in_free \<open>s = int i * a\<close> by (simp add: algebra_simps)
    ultimately show ?thesis using mix t by auto
  next
    assume n: "am_allocate E (pool_am st) raw = (Inl RuntimeError, pool_am st)"
      and t: "ta_allocate E sa da f st = (Inr None, st)"
    have "first_fit (compute_aligned_size (pool_am st) raw) (explicit_list (pool_am st)) = None"
      using am_allocate_cases [OF E inv pos] n by auto
    then have "\<not> region (int i * a) a \<subseteq> free_addresses (pool_am st)"
      using first_fit_None_no_run [OF blocks pos] by (auto simp: ca)
    then have "\<not> int (Suc i) * a \<le> cap"
      using region_in_tail [OF apos, of "int i * a" "int i * a" cap] by (simp add: fr algebra_simps)
    then show ?thesis using mix t by simp
  qed
qed

lemma allocate_many_filled:
  assumes E: "sorted_list_ok E"
    and adapt: "adapt_shapes_and_dtypes sa da = Inr (ss, ds)"
    and raw: "get_size_bytes E ss ds = Inr raw" "0 < raw" and f: "f \<in> tensor_formats"
    and a: "a = 2 ^ k * ((raw + 2 ^ k - 1) div 2 ^ k)"
  shows "filled k cap a i st \<Longrightarrow> int (i + n) * a \<le> cap \<Longrightarrow> cap < int (Suc (i + n)) * a \<Longrightarrow>
    \<exists>st'. allocate_many E sa da f (Suc n) st = (map (Inr \<circ> Some) [i ..< i + n] @ [Inr None], st') \<and>
      filled k cap a (i + n) st'"
proof (induction n arbitrary: i st)
  case 0
  then show ?case using filled_step [OF E 0(1) adapt raw f a] by simp
next
  case (Suc n)
  have "0 < a"
  proof -
    have "am_align (pool_am st) = 2 ^ k" using Suc.prems(1) by (simp add: filled_def pool_ok_def)
    from aligned_pos [OF this raw(2)] show ?thesis
      using compute_aligned_size_pow2 [OF \<open>am_align (pool_am st) = 2 ^ k\<close>] a by simp
  qed
  then have "int (Suc i) * a \<le> int (i + Suc n) * a" by (intro mult_right_mono) auto
  then have "int (Suc i) * a \<le> cap" using Suc.prems(2) by linarith
  with filled_step [OF E Suc.prems(1) adapt raw f a] obtain st'
    where st': "mixed_allocate E sa da f st = (Inr (Some i), st')" "filled k cap a (Suc i) st'" by auto
  have "\<exists>st2. allocate_many E sa da f (Suc n) st' = (map (Inr \<circ> Some) [Suc i ..< Suc i + n] @ [Inr None], st2) \<and>
      filled k cap a (Suc i + n) st2"
    by (rule Suc.IH [OF st'(2)]) (use Suc.prems in simp_all)
  moreover have "[i ..< i + Suc n] = i # [Suc i ..< Suc i + n]" by (simp add: upt_rec)
  ultimately show ?case using st'(1) by auto
qed

text \<open>C29: The chunk budget is exact. For every alignment that the configuration can give, the default of
  the allocator when it gives none included, the budget is computed without an error, and an
  empty pool of the configured size hands out that many chunks and refuses the next one. Chunk
  number i then is a live object at address i times the aligned chunk size, so the chunks lie
  one behind the other in the order in which they were handed out.\<close>

theorem chunk_budget_is_exact:
  assumes E: "sorted_list_ok E" and align: "resolve_local_cpu_allocator_alignment c = Inr configured"
    and adapt: "adapt_shapes_and_dtypes sa da = Inr (ss, ds)"
    and raw: "get_size_bytes E ss ds = Inr chunk_bytes" "0 < chunk_bytes" and f: "f \<in> tensor_formats"
    and size_pos: "0 < total_memory"
  shows "\<exists>budget pool'. calculate_chunk_budget total_memory chunk_bytes (pool_alignment configured) = Inr (int budget) \<and>
    allocate_many E sa da f (Suc budget) (empty_pool E total_memory (pool_alignment configured) None) =
      (map (Inr \<circ> Some) [0 ..< budget] @ [Inr None], pool') \<and>
    (\<forall>i < budget. \<exists>m. objs pool' i = Some m \<and> valid m \<and>
       address (meta m) = int i * (pool_alignment configured *
         ((chunk_bytes + pool_alignment configured - 1) div pool_alignment configured)))"
proof -
  let ?align = "pool_alignment configured"
  obtain k where k: "?align = 2 ^ k" using resolved_alignment [OF align] .
  let ?a = "2 ^ k * ((chunk_bytes + 2 ^ k - 1) div 2 ^ k)"
  let ?pool = "empty_pool E total_memory (2 ^ k) None"
  have am: "am_size (pool_am ?pool) = total_memory" "free_addresses (pool_am ?pool) = {0 ..< total_memory}"
    "am_align (pool_am ?pool) = 2 ^ k"
    using am_init_ok [OF E size_pos] by (simp_all add: empty_pool_def ta_init_def)
  have "pool_ok k ?pool" using empty_pool_ok [OF E] size_pos by simp
  then have start: "filled k total_memory ?a 0 ?pool"
    using am by (simp add: filled_def) (simp add: empty_pool_def)
  have pos: "0 < ?a"
    using aligned_pos [OF am(3) raw(2)] compute_aligned_size_pow2 [OF am(3)] by simp
  define budget where "budget = nat (total_memory div ?a)"
  have b: "int budget = total_memory div ?a" using size_pos pos by (simp add: budget_def pos_imp_zdiv_nonneg_iff)
  have "int budget * ?a \<le> total_memory" "total_memory < int (Suc budget) * ?a"
    using pos mult_div_mod_eq [of ?a total_memory] pos_mod_bound [OF pos, of total_memory]
      pos_mod_sign [OF pos, of total_memory]
    by (simp_all add: b algebra_simps)
  then have "\<exists>st'. allocate_many E sa da f (Suc budget) ?pool = (map (Inr \<circ> Some) [0 ..< 0 + budget] @ [Inr None], st') \<and>
      filled k total_memory ?a (0 + budget) st'"
    by (intro allocate_many_filled [OF E adapt raw f refl start]) simp_all
  then obtain pool' where "allocate_many E sa da f (Suc budget) ?pool = (map (Inr \<circ> Some) [0 ..< budget] @ [Inr None], pool')"
    and "\<forall>i < budget. chunk_at pool' ?a i" by (auto simp: filled_def)
  moreover have "calculate_chunk_budget total_memory chunk_bytes ?align = Inr (int budget)"
  proof -
    have a: "(chunk_bytes + ?align - 1) div ?align * ?align = ?a" by (simp add: k mult.commute)
    have "?a \<noteq> 0" using pos by linarith
    moreover have "?align \<noteq> 0" by (simp add: k)
    ultimately show ?thesis unfolding calculate_chunk_budget_def Let_def a b by simp
  qed
  ultimately show ?thesis unfolding k chunk_at_def by blast
qed

lemma chunk_budget_is_exact_witness:
  "calculate_chunk_budget 10000 64 4096 = Inr 2 \<and>
   (\<exists>pool'. allocate_many reference_env (One [2, 32]) (One ''int8'') KV_2LTD 3
        (empty_pool reference_env 10000 4096 None) = (map (Inr \<circ> Some) [0, 1] @ [Inr None], pool') \<and>
      (\<exists>m. objs pool' 1 = Some m \<and> address (meta m) = 4096))"
proof -
  let ?c = "\<lparr>pinned_align_bytes = None, raw_block_device_path = None, raw_block_use_odirect = None,
     raw_block_align_local_cpu_allocator = None, raw_block_block_align = None\<rparr>"
  have "resolve_local_cpu_allocator_alignment ?c = Inr None" by code_simp
  from chunk_budget_is_exact [OF reference_sorted_list_ok this sample_shape, of KV_2LTD 10000]
  obtain budget pool' where b: "calculate_chunk_budget 10000 64 4096 = Inr (int budget)"
    "allocate_many reference_env (One [2, 32]) (One ''int8'') KV_2LTD (Suc budget)
      (empty_pool reference_env 10000 4096 None) = (map (Inr \<circ> Some) [0 ..< budget] @ [Inr None], pool')"
    and o: "\<forall>i < budget. \<exists>m. objs pool' i = Some m \<and> address (meta m) = int i * 4096"
    unfolding pool_alignment_def by (simp del: allocate_many.simps add: tensor_formats_def) blast
  have two: "calculate_chunk_budget 10000 64 4096 = Inr 2" by code_simp
  then have "budget = 2" using b(1) by simp
  then show ?thesis using b(2) o two by (force simp: upt_rec numeral_3_eq_3 numeral_2_eq_2 simp del: allocate_many.simps)
qed

end
