(* ===== verification/Chunk_Semaphore.thy ===== *)
theory Chunk_Semaphore
  imports Prelude
begin

text \<open>
  WeightedSemaphore and AsyncMultiSerializer of lmcache/v1/storage_backend/storage_manager.py: loads
  wait until the chunks they need fit half of the chunk budget, and a load that needs more than
  half runs alone. The storage manager constructs AsyncSingleSerializer, which runs one load at a time;
  this serializer is the alternative beside it. A coroutine that waits on the condition goes on when its test holds; every
  release wakes all of them.
\<close>

section \<open>The semaphore\<close>

record weighted_semaphore =
  concurrent_budget_cap :: int
  chunk_budget_cap :: int
  current_chunks :: int

definition ws_init :: "int \<Rightarrow> weighted_semaphore" where
  "ws_init chunk_budget =
     \<lparr>concurrent_budget_cap = chunk_budget div 2, chunk_budget_cap = chunk_budget,
      current_chunks = chunk_budget div 2\<rparr>"

text \<open>acquire up to the wait: the error, or whether the wait's test holds now.\<close>

definition ws_can_acquire :: "int \<Rightarrow> weighted_semaphore \<Rightarrow> py_error + bool" where
  "ws_can_acquire n w =
     (if n > chunk_budget_cap w then Inl ValueError
      else if n \<le> concurrent_budget_cap w then Inr (current_chunks w \<ge> n)
      else Inr (current_chunks w = concurrent_budget_cap w))"

text \<open>The rest of acquire, once the test holds.\<close>

definition ws_acquired :: "int \<Rightarrow> weighted_semaphore \<Rightarrow> weighted_semaphore" where
  "ws_acquired n w =
     (if n \<le> concurrent_budget_cap w then w\<lparr>current_chunks := current_chunks w - n\<rparr>
      else w\<lparr>current_chunks := 0\<rparr>)"

definition ws_release :: "int \<Rightarrow> weighted_semaphore \<Rightarrow> weighted_semaphore" where
  "ws_release n w =
     (if n \<le> concurrent_budget_cap w then w\<lparr>current_chunks := current_chunks w + n\<rparr>
      else w\<lparr>current_chunks := concurrent_budget_cap w\<rparr>)"

section \<open>The serializer\<close>

text \<open>
  A load is its number of chunks. run has three steps: it enters, or raises before it waits; it
  acquires and starts the coroutine; it releases in the finally block, however the coroutine ends.
  The manager asks for at least one chunk.
\<close>

record serializer =
  ms_sem :: weighted_semaphore
  ms_waiting :: "int list"
  ms_running :: "int list"

definition ms_init :: "int \<Rightarrow> serializer" where
  "ms_init chunk_budget = \<lparr>ms_sem = ws_init chunk_budget, ms_waiting = [], ms_running = []\<rparr>"

inductive run_step :: "serializer \<Rightarrow> serializer \<Rightarrow> bool" where
  run_enter: "0 < n \<Longrightarrow> ws_can_acquire n (ms_sem z) = Inr can \<Longrightarrow>
    run_step z (z\<lparr>ms_waiting := ms_waiting z @ [n]\<rparr>)"
| run_start: "n \<in> set (ms_waiting z) \<Longrightarrow> ws_can_acquire n (ms_sem z) = Inr True \<Longrightarrow>
    run_step z (z\<lparr>ms_sem := ws_acquired n (ms_sem z), ms_waiting := remove1 n (ms_waiting z),
                  ms_running := n # ms_running z\<rparr>)"
| run_finish: "n \<in> set (ms_running z) \<Longrightarrow>
    run_step z (z\<lparr>ms_sem := ws_release n (ms_sem z), ms_running := remove1 n (ms_running z)\<rparr>)"

section \<open>The invariant\<close>

text \<open>
  Either only loads of at most half the budget run, and the free chunks are what they leave of
  that half, or one larger load runs alone and no chunk is free.
\<close>

definition shares :: "serializer \<Rightarrow> bool" where
  "shares z \<longleftrightarrow>
     (let w = ms_sem z in
      (\<forall>n \<in> set (ms_running z). n \<le> concurrent_budget_cap w) \<and>
      current_chunks w = concurrent_budget_cap w - sum_list (ms_running z) \<and> 0 \<le> current_chunks w)"

definition alone :: "serializer \<Rightarrow> bool" where
  "alone z \<longleftrightarrow>
     (let w = ms_sem z in
      \<exists>n. ms_running z = [n] \<and> concurrent_budget_cap w < n \<and> n \<le> chunk_budget_cap w \<and> current_chunks w = 0)"

definition sem_inv :: "int \<Rightarrow> serializer \<Rightarrow> bool" where
  "sem_inv chunk_budget z \<longleftrightarrow>
     concurrent_budget_cap (ms_sem z) = chunk_budget div 2 \<and> chunk_budget_cap (ms_sem z) = chunk_budget \<and>
     (\<forall>n \<in> set (ms_waiting z). 0 < n \<and> n \<le> chunk_budget) \<and> (\<forall>n \<in> set (ms_running z). 0 < n) \<and>
     (shares z \<or> alone z)"

lemma sum_list_pos_empty: "\<forall>n \<in> set xs. 0 < n \<Longrightarrow> sum_list xs \<le> 0 \<Longrightarrow> xs = []" for xs :: "int list"
proof (cases xs)
  case (Cons x ys)
  assume "\<forall>n \<in> set xs. 0 < n" "sum_list xs \<le> 0"
  moreover from this have "0 \<le> sum_list ys" by (intro sum_list_nonneg) (auto simp: Cons less_imp_le)
  ultimately show ?thesis by (simp add: Cons)
qed simp

lemma sem_inv_init: "0 \<le> chunk_budget \<Longrightarrow> sem_inv chunk_budget (ms_init chunk_budget)"
  by (simp add: sem_inv_def ms_init_def ws_init_def shares_def pos_imp_zdiv_nonneg_iff)

lemma sem_inv_step:
  assumes step: "run_step z z'" and inv: "sem_inv budget z" and budget: "2 \<le> budget"
  shows "sem_inv budget z'"
  using step
proof cases
  case (run_enter n can)
  then show ?thesis
    using inv by (auto simp: sem_inv_def shares_def alone_def ws_can_acquire_def split: if_splits)
next
  case (run_start n)
  let ?w = "ms_sem z"
  have n: "0 < n" "n \<le> budget" using run_start(2) inv by (auto simp: sem_inv_def)
  have half: "0 < budget div 2" using budget by (simp add: pos_imp_zdiv_pos_iff)
  have caps: "concurrent_budget_cap ?w = budget div 2" "chunk_budget_cap ?w = budget"
    using inv by (simp_all add: sem_inv_def)
  have pos: "\<forall>n \<in> set (ms_running z). 0 < n" using inv by (simp add: sem_inv_def)
  have w: "\<forall>n \<in> set (remove1 n (ms_waiting z)). 0 < n \<and> n \<le> budget"
    using inv set_remove1_subset by (fastforce simp: sem_inv_def)
  have sh: "shares z"
  proof (rule ccontr)
    assume "\<not> shares z"
    then have "alone z" using inv by (simp add: sem_inv_def)
    then have "current_chunks ?w = 0" by (auto simp: alone_def Let_def)
    then show False using run_start(3) n half by (auto simp: ws_can_acquire_def caps split: if_splits)
  qed
  show ?thesis
  proof (cases "n \<le> budget div 2")
    case True
    then have "n \<le> current_chunks ?w" using run_start(3) n by (auto simp: ws_can_acquire_def caps split: if_splits)
    then have "shares z'" using sh True unfolding run_start(1) by (simp add: shares_def ws_acquired_def caps Let_def)
    then show ?thesis using w pos n caps True unfolding run_start(1) by (simp add: sem_inv_def ws_acquired_def)
  next
    case False
    then have "current_chunks ?w = budget div 2"
      using run_start(3) n by (auto simp: ws_can_acquire_def caps split: if_splits)
    then have "sum_list (ms_running z) \<le> 0" using sh by (simp add: shares_def caps Let_def)
    then have "ms_running z = []" using sum_list_pos_empty pos by blast
    then have "alone z'" using False n unfolding run_start(1) by (simp add: alone_def ws_acquired_def caps Let_def)
    then show ?thesis using w pos n caps False unfolding run_start(1) by (simp add: sem_inv_def ws_acquired_def)
  qed
next
  case (run_finish n)
  let ?w = "ms_sem z"
  have half: "0 \<le> budget div 2" using budget by simp
  have caps: "concurrent_budget_cap ?w = budget div 2" "chunk_budget_cap ?w = budget"
    using inv by (simp_all add: sem_inv_def)
  have pos: "\<forall>k \<in> set (remove1 n (ms_running z)). 0 < k" and n: "0 < n"
    using inv run_finish(2) set_remove1_subset by (fastforce simp: sem_inv_def)+
  have "shares z'"
  proof (cases "shares z")
    case True
    then have "n \<le> budget div 2" using run_finish(2) by (simp add: shares_def caps Let_def)
    moreover have "sum_list (remove1 n (ms_running z)) = sum_list (ms_running z) - n"
      using sum_list_remove1 [of n "ms_running z" "\<lambda>x. x"] run_finish(2) by simp
    moreover have "\<forall>k \<in> set (remove1 n (ms_running z)). k \<le> budget div 2"
      using True set_remove1_subset by (fastforce simp: shares_def caps Let_def)
    ultimately show ?thesis
      using True n unfolding run_finish(1) by (simp add: shares_def ws_release_def caps Let_def)
  next
    case False
    then have "alone z" using inv by (simp add: sem_inv_def)
    then have "ms_running z = [n]" "budget div 2 < n"
      using run_finish(2) by (auto simp: alone_def caps Let_def)
    then show ?thesis using half unfolding run_finish(1) by (simp add: shares_def ws_release_def caps Let_def)
  qed
  then show ?thesis using inv pos unfolding run_finish(1) by (simp add: sem_inv_def ws_release_def)
qed

lemma sem_inv_reachable:
  assumes "run_step\<^sup>*\<^sup>* (ms_init budget) z" "2 \<le> budget"
  shows "sem_inv budget z"
  using assms(1)
proof (induction rule: rtranclp_induct)
  case base
  show ?case using assms(2) by (intro sem_inv_init) simp
next
  case (step y z)
  then show ?case using sem_inv_step assms(2) by blast
qed

section \<open>Properties\<close>

text \<open>The loads never hold more chunks than the budget and are never stuck. With a budget of at
  least two chunks, in every history the running loads together need at most the whole budget,
  either at most half of it or a single load; and when no load runs, every waiting load can start,
  whatever was acquired and released before.\<close>

theorem loads_fit_the_chunk_budget:
  assumes "run_step\<^sup>*\<^sup>* (ms_init chunk_budget) z" "2 \<le> chunk_budget"
  shows "sum_list (ms_running z) \<le> chunk_budget \<and>
    (sum_list (ms_running z) \<le> chunk_budget div 2 \<or> length (ms_running z) = 1) \<and>
    (ms_running z = [] \<longrightarrow>
       (\<forall>n \<in> set (ms_waiting z). ws_can_acquire n (ms_sem z) = Inr True))"
proof -
  note inv = sem_inv_reachable [OF assms]
  have caps: "concurrent_budget_cap (ms_sem z) = chunk_budget div 2" "chunk_budget_cap (ms_sem z) = chunk_budget"
    using inv by (simp_all add: sem_inv_def)
  show ?thesis
  proof (cases "shares z")
    case True
    then have "sum_list (ms_running z) \<le> chunk_budget div 2" by (simp add: shares_def caps Let_def)
    moreover have "chunk_budget div 2 \<le> chunk_budget" using assms(2) by simp
    moreover have "ws_can_acquire n (ms_sem z) = Inr True"
      if "ms_running z = []" "n \<in> set (ms_waiting z)" for n
      using inv True that by (auto simp: sem_inv_def shares_def ws_can_acquire_def Let_def)
    ultimately show ?thesis by (intro conjI) auto
  next
    case False
    then have "alone z" using inv by (simp add: sem_inv_def)
    then show ?thesis by (auto simp: alone_def caps Let_def)
  qed
qed

section \<open>Examples\<close>

lemma loads_fit_the_chunk_budget_witness:
  "\<exists>z. run_step\<^sup>*\<^sup>* (ms_init 4) z \<and> ms_running z = [3] \<and> sum_list (ms_running z) \<le> 4"
proof -
  let ?z1 = "(ms_init 4)\<lparr>ms_waiting := [3]\<rparr>"
  let ?z2 = "?z1\<lparr>ms_sem := ws_acquired 3 (ms_sem ?z1), ms_waiting := [], ms_running := [3]\<rparr>"
  have "run_step (ms_init 4) ?z1"
    using run_enter [of 3 "ms_init 4"] by (simp add: ms_init_def ws_init_def ws_can_acquire_def)
  moreover have "run_step ?z1 ?z2"
    using run_start [of 3 ?z1] by (simp add: ms_init_def ws_init_def ws_can_acquire_def)
  ultimately have "run_step\<^sup>*\<^sup>* (ms_init 4) ?z2" by (meson r_into_rtranclp rtranclp_trans)
  from this loads_fit_the_chunk_budget [OF this] show ?thesis by (intro exI [of _ ?z2]) simp
qed

text \<open>
  A budget of one chunk has no half: the test for running alone always holds, so any number of
  loads run at once.
\<close>

lemma budget_of_one_excludes_nobody:
  "\<exists>z. run_step\<^sup>*\<^sup>* (ms_init 1) z \<and> ms_running z = [1, 1]"
proof -
  let ?z1 = "(ms_init 1)\<lparr>ms_waiting := [1]\<rparr>"
  let ?z2 = "(ms_init 1)\<lparr>ms_waiting := [1, 1]\<rparr>"
  let ?z3 = "(ms_init 1)\<lparr>ms_waiting := [1], ms_running := [1]\<rparr>"
  let ?z4 = "(ms_init 1)\<lparr>ms_waiting := [], ms_running := [1, 1]\<rparr>"
  have "run_step (ms_init 1) ?z1"
    using run_enter [of 1 "ms_init 1"] by (simp add: ms_init_def ws_init_def ws_can_acquire_def)
  moreover have "run_step ?z1 ?z2"
    using run_enter [of 1 ?z1] by (simp add: ms_init_def ws_init_def ws_can_acquire_def)
  moreover have "run_step ?z2 ?z3"
    using run_start [of 1 ?z2] by (simp add: ms_init_def ws_init_def ws_can_acquire_def ws_acquired_def)
  moreover have "run_step ?z3 ?z4"
    using run_start [of 1 ?z3] by (simp add: ms_init_def ws_init_def ws_can_acquire_def ws_acquired_def)
  ultimately have "run_step\<^sup>*\<^sup>* (ms_init 1) ?z4" by (meson r_into_rtranclp rtranclp_trans)
  then show ?thesis by (intro exI [of _ ?z4]) simp
qed

end
