(* ===== verification/In_Process_Tiers.thy ===== *)
theory In_Process_Tiers
  imports Local_Cpu_Backend
begin

text \<open>
  StorageManager of lmcache/v1/storage_backend/storage_manager.py, the in-process engine's view of its
  storage backends. The backends are objects of many classes that share memory, so their states are
  one value of type 's, and a backend is the record of its methods on that value
  (StorageBackendInterface of abstract_backend.py). Memory objects are references, as everywhere.
\<close>

section \<open>The interface of a backend\<close>

text \<open>
  The methods the manager calls. be_clear is None for a backend without the method; be_allocator is
  the class name of get_allocator_backend().
\<close>

record 's backend =
  be_contains :: "cache_engine_key \<Rightarrow> bool \<Rightarrow> 's \<Rightarrow> bool \<times> 's"
  be_batched_contains :: "cache_engine_key list \<Rightarrow> bool \<Rightarrow> 's \<Rightarrow> nat \<times> 's"
  be_get_blocking :: "cache_engine_key \<Rightarrow> 's \<Rightarrow> nat option \<times> 's"
  be_batched_get_blocking :: "cache_engine_key list \<Rightarrow> 's \<Rightarrow> nat option list \<times> 's"
  be_batched_async_contains :: "string \<Rightarrow> cache_engine_key list \<Rightarrow> bool \<Rightarrow> 's \<Rightarrow> nat \<times> 's"
  be_batched_get_non_blocking :: "string \<Rightarrow> cache_engine_key list \<Rightarrow> nat list \<Rightarrow> 's \<Rightarrow> (nat list, 's) outcome"
  be_batched_submit_put_task :: "cache_engine_key list \<Rightarrow> nat list \<Rightarrow> 's \<Rightarrow> 's"
  be_remove :: "cache_engine_key \<Rightarrow> 's \<Rightarrow> (bool, 's) outcome"
  be_batched_remove :: "cache_engine_key list \<Rightarrow> 's \<Rightarrow> (nat, 's) outcome"
  be_unpin :: "cache_engine_key \<Rightarrow> 's \<Rightarrow> (bool, 's) outcome"
  be_touch_cache :: "'s \<Rightarrow> (unit, 's) outcome"
  be_clear :: "('s \<Rightarrow> (int, 's) outcome) option"
  be_allocator :: string

text \<open>The methods that StorageBackendInterface implements itself, from those of one key.\<close>

fun default_batched_contains :: "(cache_engine_key \<Rightarrow> bool \<Rightarrow> 's \<Rightarrow> bool \<times> 's) \<Rightarrow> cache_engine_key list
    \<Rightarrow> bool \<Rightarrow> 's \<Rightarrow> nat \<times> 's" where
  "default_batched_contains cont [] pin_it s = (0, s)"
| "default_batched_contains cont (key # keys) pin_it s =
     (case cont key pin_it s of
        (False, s1) \<Rightarrow> (0, s1)
      | (True, s1) \<Rightarrow>
          (case default_batched_contains cont keys pin_it s1 of (n, s2) \<Rightarrow> (Suc n, s2)))"

fun default_batched_get_blocking :: "(cache_engine_key \<Rightarrow> 's \<Rightarrow> nat option \<times> 's) \<Rightarrow> cache_engine_key list
    \<Rightarrow> 's \<Rightarrow> nat option list \<times> 's" where
  "default_batched_get_blocking get [] s = ([], s)"
| "default_batched_get_blocking get (key # keys) s =
     (case get key s of
        (r, s1) \<Rightarrow> (case default_batched_get_blocking get keys s1 of (rs, s2) \<Rightarrow> (r # rs, s2)))"

fun default_batched_remove :: "(cache_engine_key \<Rightarrow> 's \<Rightarrow> (bool, 's) outcome) \<Rightarrow> cache_engine_key list
    \<Rightarrow> 's \<Rightarrow> (nat, 's) outcome" where
  "default_batched_remove rem [] s = (Inr 0, s)"
| "default_batched_remove rem (key # keys) s =
     (case rem key s of
        (Inl e, s1) \<Rightarrow> (Inl e, s1)
      | (Inr removed, s1) \<Rightarrow>
          (case default_batched_remove rem keys s1 of
             (Inl e, s2) \<Rightarrow> (Inl e, s2)
           | (Inr n, s2) \<Rightarrow> (Inr ((if removed then 1 else 0) + n), s2)))"

text \<open>LocalCPUBackend as such a record; E sorts the free list, now is the time of day.\<close>

definition lcb_backend :: "env \<Rightarrow> int \<Rightarrow> local_cpu_backend backend" where
  "lcb_backend E now =
     \<lparr>be_contains = lcb_contains, be_batched_contains = batched_contains,
      be_get_blocking = get_blocking, be_batched_get_blocking = batched_get_blocking,
      be_batched_async_contains = (\<lambda>lookup_id. batched_contains),
      be_batched_get_non_blocking = (\<lambda>lookup_id ks cum. batched_get_non_blocking ks),
      be_batched_submit_put_task = (\<lambda>ks rs b. snd (batched_submit_put_task now ks rs b)),
      be_remove = lcb_remove E True, be_batched_remove = batched_remove E True,
      be_unpin = lcb_unpin E, be_touch_cache = touch_cache now, be_clear = Some (lcb_clear E),
      be_allocator = ''LocalCPUBackend''\<rparr>"

section \<open>The manager\<close>

record 's tier_manager =
  storage_backends :: "(string, 's backend) dict"
  tm_freeze :: bool
  bypassed_backends :: "string set"

definition set_freeze :: "bool \<Rightarrow> 's tier_manager \<Rightarrow> 's tier_manager" where
  "set_freeze enabled m = m\<lparr>tm_freeze := enabled\<rparr>"

definition set_backend_bypass :: "string \<Rightarrow> bool \<Rightarrow> 's tier_manager \<Rightarrow> 's tier_manager" where
  "set_backend_bypass name bypass m =
     m\<lparr>bypassed_backends := (if bypass then insert name (bypassed_backends m)
                             else bypassed_backends m - {name})\<rparr>"

definition is_backend_bypassed :: "string \<Rightarrow> 's tier_manager \<Rightarrow> bool" where
  "is_backend_bypassed name m \<longleftrightarrow> name \<in> bypassed_backends m"

definition get_all_backend_names :: "'s tier_manager \<Rightarrow> string list" where
  "get_all_backend_names m = dict_keys (storage_backends m)"

text \<open>An empty location or search range counts as none.\<close>

definition get_active_storage_backends :: "string option \<Rightarrow> string list option \<Rightarrow> 's tier_manager
    \<Rightarrow> (string \<times> 's backend) list" where
  "get_active_storage_backends location search_range m =
     filter (\<lambda>(name, b).
        \<not> (tm_freeze m \<and> name \<noteq> ''LocalCPUBackend'') \<and>
        name \<notin> bypassed_backends m \<and>
        \<not> (location \<notin> {None, Some []} \<and> location \<noteq> Some name) \<and>
        (case search_range of None \<Rightarrow> True | Some names \<Rightarrow> names = [] \<or> name \<in> set names))
       (storage_backends m)"

text \<open>local_cpu says whether the CPU backend stores, pd_sender whether the PD backend only sends.\<close>

definition get_non_allocator_backends :: "bool \<Rightarrow> bool \<Rightarrow> 's tier_manager \<Rightarrow> string list" where
  "get_non_allocator_backends local_cpu pd_sender m =
     filter (\<lambda>name. \<not> (name = ''LocalCPUBackend'' \<and> \<not> local_cpu) \<and> \<not> (name = ''PDBackend'' \<and> pd_sender))
       (dict_keys (storage_backends m))"

section \<open>Looking up\<close>

fun contains_in :: "(string \<times> 's backend) list \<Rightarrow> cache_engine_key \<Rightarrow> bool \<Rightarrow> 's \<Rightarrow> string option \<times> 's" where
  "contains_in [] key pin_it s = (None, s)"
| "contains_in ((name, b) # tiers) key pin_it s =
     (case be_contains b key (pin_it \<and> name \<noteq> ''PDBackend'') s of
        (True, s1) \<Rightarrow> (Some name, s1)
      | (False, s1) \<Rightarrow> contains_in tiers key pin_it s1)"

definition tm_contains :: "cache_engine_key \<Rightarrow> string list option \<Rightarrow> bool \<Rightarrow> 's tier_manager \<Rightarrow> 's
    \<Rightarrow> string option \<times> 's" where
  "tm_contains key search_range pin_it m s =
     contains_in (get_active_storage_backends None search_range m) key pin_it s"

text \<open>The loop of batched_contains: n_keys is the number of all keys, hits those found so far.\<close>

fun contains_tiers :: "(string \<times> 's backend) list \<Rightarrow> nat \<Rightarrow> nat \<Rightarrow> cache_engine_key list \<Rightarrow> bool
    \<Rightarrow> (string, cache_engine_key list) dict \<Rightarrow> 's \<Rightarrow> (nat \<times> (string, cache_engine_key list) dict) \<times> 's" where
  "contains_tiers [] n_keys hits keys pin_it mapping s = ((hits, mapping), s)"
| "contains_tiers ((name, b) # tiers) n_keys hits keys pin_it mapping s =
     (case be_batched_contains b keys (pin_it \<and> name \<noteq> ''PDBackend'') s of
        (n, s1) \<Rightarrow>
          if n = 0 then contains_tiers tiers n_keys hits keys pin_it mapping s1
          else let mapping1 = dict_set name (take n keys) mapping
               in if hits + n = n_keys then ((hits + n, mapping1), s1)
                  else contains_tiers tiers n_keys (hits + n) (drop n keys) pin_it mapping1 s1)"

definition tm_batched_contains :: "cache_engine_key list \<Rightarrow> string list option \<Rightarrow> bool
    \<Rightarrow> 's tier_manager \<Rightarrow> 's \<Rightarrow> (nat \<times> (string, cache_engine_key list) dict) \<times> 's" where
  "tm_batched_contains keys search_range pin_it m s =
     contains_tiers (get_active_storage_backends None search_range m) (length keys) 0 keys pin_it [] s"

type_synonym chunk_info = "cache_engine_key \<times> nat \<times> nat"

fun mapping_tiers :: "(string \<times> 's backend) list \<Rightarrow> chunk_info list \<Rightarrow> nat \<Rightarrow> cache_engine_key list
    \<Rightarrow> (string, chunk_info list) dict \<Rightarrow> 's \<Rightarrow> (string, chunk_info list) dict \<times> 's" where
  "mapping_tiers [] infos hits keys mapping s = (mapping, s)"
| "mapping_tiers ((name, b) # tiers) infos hits keys mapping s =
     (case be_batched_contains b keys False s of
        (n, s1) \<Rightarrow>
          if n = 0 then mapping_tiers tiers infos hits keys mapping s1
          else let mapping1 = dict_set name (take n (drop hits infos)) mapping
               in if hits + n = length infos then (mapping1, s1)
                  else mapping_tiers tiers infos (hits + n) (drop n keys) mapping1 s1)"

definition get_block_mapping :: "chunk_info list \<Rightarrow> 's tier_manager \<Rightarrow> 's
    \<Rightarrow> (string, chunk_info list) dict \<times> 's" where
  "get_block_mapping infos m s =
     mapping_tiers (get_active_storage_backends None None m) infos 0 (map fst infos) [] s"

section \<open>Getting\<close>

text \<open>
  What get and batched_get bring from another tier is put into the CPU backend too. The storage
  backends are a dictionary, so the CPU backend is looked up by its name.
\<close>

definition write_back :: "string \<Rightarrow> cache_engine_key list \<Rightarrow> nat list \<Rightarrow> 's tier_manager \<Rightarrow> 's \<Rightarrow> 's" where
  "write_back name keys rs m s =
     (if name \<in> {''LocalCPUBackend'', ''PDBackend''} then s
      else case map_of (storage_backends m) ''LocalCPUBackend'' of
             None \<Rightarrow> s
           | Some cpu \<Rightarrow> be_batched_submit_put_task cpu keys rs s)"

fun batched_get_tiers :: "(string \<times> 's backend) list \<Rightarrow> cache_engine_key list \<Rightarrow> 's tier_manager \<Rightarrow> 's
    \<Rightarrow> nat option list \<times> 's" where
  "batched_get_tiers [] keys m s = (replicate (length keys) None, s)"
| "batched_get_tiers ((name, b) # tiers) keys m s =
     (case be_batched_get_blocking b keys s of
        ([], s1) \<Rightarrow> batched_get_tiers tiers keys m s1
      | (r # rs, s1) \<Rightarrow>
          (r # rs, if None \<in> set (r # rs) then s1
                   else write_back name keys (map the (r # rs)) m s1))"

definition tm_batched_get :: "cache_engine_key list \<Rightarrow> string option \<Rightarrow> 's tier_manager \<Rightarrow> 's
    \<Rightarrow> nat option list \<times> 's" where
  "tm_batched_get keys location m s =
     batched_get_tiers (get_active_storage_backends location None m) keys m s"

text \<open>
  get writes one object back with submit_put_task of the CPU backend, which put_one is.
\<close>

fun get_tiers :: "(cache_engine_key \<Rightarrow> nat \<Rightarrow> 's \<Rightarrow> 's) \<Rightarrow> (string \<times> 's backend) list \<Rightarrow> cache_engine_key
    \<Rightarrow> 's tier_manager \<Rightarrow> 's \<Rightarrow> nat option \<times> 's" where
  "get_tiers put_one [] key m s = (None, s)"
| "get_tiers put_one ((name, b) # tiers) key m s =
     (case be_get_blocking b key s of
        (None, s1) \<Rightarrow> get_tiers put_one tiers key m s1
      | (Some r, s1) \<Rightarrow>
          (Some r, if name \<notin> {''LocalCPUBackend'', ''PDBackend''}
                     \<and> ''LocalCPUBackend'' \<in> set (dict_keys (storage_backends m))
                   then put_one key r s1 else s1))"

definition tm_get :: "(cache_engine_key \<Rightarrow> nat \<Rightarrow> 's \<Rightarrow> 's) \<Rightarrow> cache_engine_key \<Rightarrow> string option
    \<Rightarrow> 's tier_manager \<Rightarrow> 's \<Rightarrow> nat option \<times> 's" where
  "tm_get put_one key location m s =
     get_tiers put_one (get_active_storage_backends location None m) key m s"

section \<open>Removing, unpinning, clearing\<close>

text \<open>
  These calls go to every backend in the given locations, frozen, bypassed or not, and add up what
  the backends return.
\<close>

definition in_locations :: "string list option \<Rightarrow> 's tier_manager \<Rightarrow> 's backend list" where
  "in_locations locations m =
     map snd (filter (\<lambda>(name, b). case locations of None \<Rightarrow> True | Some ls \<Rightarrow> name \<in> set ls) (storage_backends m))"

fun sum_backends :: "('s backend \<Rightarrow> 's \<Rightarrow> (int, 's) outcome) \<Rightarrow> 's backend list \<Rightarrow> 's \<Rightarrow> (int, 's) outcome" where
  "sum_backends call [] s = (Inr 0, s)"
| "sum_backends call (b # bs) s =
     (case call b s of
        (Inl e, s1) \<Rightarrow> (Inl e, s1)
      | (Inr i, s1) \<Rightarrow>
          (case sum_backends call bs s1 of
             (Inl e, s2) \<Rightarrow> (Inl e, s2)
           | (Inr j, s2) \<Rightarrow> (Inr (i + j), s2)))"

definition tm_remove :: "cache_engine_key \<Rightarrow> string list option \<Rightarrow> 's tier_manager \<Rightarrow> 's \<Rightarrow> (int, 's) outcome" where
  "tm_remove key locations m s =
     sum_backends (\<lambda>b s. apfst (map_sum id of_bool) (be_remove b key s)) (in_locations locations m) s"

definition tm_batched_remove :: "cache_engine_key list \<Rightarrow> string list option \<Rightarrow> 's tier_manager \<Rightarrow> 's
    \<Rightarrow> (int, 's) outcome" where
  "tm_batched_remove keys locations m s =
     sum_backends (\<lambda>b s. apfst (map_sum id int) (be_batched_remove b keys s)) (in_locations locations m) s"

fun unpin_keys :: "'s backend \<Rightarrow> cache_engine_key list \<Rightarrow> 's \<Rightarrow> (int, 's) outcome" where
  "unpin_keys b [] s = (Inr 0, s)"
| "unpin_keys b (key # keys) s =
     (case be_unpin b key s of
        (Inl e, s1) \<Rightarrow> (Inl e, s1)
      | (Inr _, s1) \<Rightarrow> unpin_keys b keys s1)"

definition tm_batched_unpin :: "cache_engine_key list \<Rightarrow> string list option \<Rightarrow> 's tier_manager \<Rightarrow> 's
    \<Rightarrow> (unit, 's) outcome" where
  "tm_batched_unpin keys locations m s =
     apfst (map_sum id (\<lambda>_. ())) (sum_backends (\<lambda>b. unpin_keys b keys) (in_locations locations m) s)"

definition tm_clear :: "string list option \<Rightarrow> 's tier_manager \<Rightarrow> 's \<Rightarrow> (int, 's) outcome" where
  "tm_clear locations m s =
     sum_backends (\<lambda>b s. case be_clear b of None \<Rightarrow> (Inr 0, s) | Some clear \<Rightarrow> clear s) (in_locations locations m) s"

definition tm_touch_cache :: "'s tier_manager \<Rightarrow> 's \<Rightarrow> (unit, 's) outcome" where
  "tm_touch_cache m s =
     apfst (map_sum id (\<lambda>_. ()))
       (sum_backends (\<lambda>b s. apfst (map_sum id (\<lambda>_. 0)) (be_touch_cache b s))
          (map snd (filter (\<lambda>(name, b). name = ''LocalCPUBackend'' \<or> name = ''LocalDiskBackend'') (storage_backends m))) s)"

text \<open>set_hot_cache reaches into the CPU backend.\<close>

definition set_hot_cache :: "env \<Rightarrow> bool \<Rightarrow> local_cpu_backend \<Rightarrow> (unit, local_cpu_backend) outcome" where
  "set_hot_cache E enabled b =
     (case (if enabled then (Inr 0, b) else lcb_clear E b) of
        (Inl e, b1) \<Rightarrow> (Inl e, b1)
      | (Inr _, b1) \<Rightarrow> (Inr (), b1\<lparr>use_hot := enabled\<rparr>))"

section \<open>Putting\<close>

text \<open>
  The allocator of a backend, as allocate_and_copy_objects uses it: allocate an object of the shapes
  and dtypes of another, copy the bytes, release. al_raw_tensor says that raw_tensor is not None.
\<close>

record 's allocator =
  al_contains :: "cache_engine_key \<Rightarrow> 's \<Rightarrow> bool"
  al_allocate_like :: "nat \<Rightarrow> 's \<Rightarrow> nat option \<times> 's"
  al_raw_tensor :: "nat \<Rightarrow> 's \<Rightarrow> bool"
  al_copy :: "nat \<Rightarrow> nat \<Rightarrow> 's \<Rightarrow> 's"
  al_ref_count_down :: "nat \<Rightarrow> 's \<Rightarrow> 's"

fun copy_objects :: "'s allocator \<Rightarrow> (cache_engine_key \<times> nat) list \<Rightarrow> 's \<Rightarrow> nat list \<times> 's" where
  "copy_objects A [] s = ([], s)"
| "copy_objects A ((key, src) # puts) s =
     (if al_contains A key s then copy_objects A puts s
      else case al_allocate_like A src s of
             (None, s1) \<Rightarrow> ([], s1)
           | (Some dst, s1) \<Rightarrow>
               if \<not> al_raw_tensor A dst s1 \<or> \<not> al_raw_tensor A src s1
               then ([], al_ref_count_down A dst s1)
               else (case copy_objects A puts (al_copy A dst src s1) of (rs, s2) \<Rightarrow> (dst # rs, s2)))"

definition allocate_and_copy_objects :: "'s allocator \<Rightarrow> cache_engine_key list \<Rightarrow> nat list \<Rightarrow> 's
    \<Rightarrow> (cache_engine_key list \<times> nat list) \<times> 's" where
  "allocate_and_copy_objects A keys src_memory_objs s =
     (case copy_objects A (zip keys src_memory_objs) s of
        (rs, s1) \<Rightarrow> ((take (length rs) keys, rs), s1))"

text \<open>
  batched_put: obj_dict maps the class name of an allocator to the keys and objects that its
  backends get; the caller's objects belong to the manager's own allocator. als gives the allocator
  of a class name, release is ref_count_down.
\<close>

type_synonym put_dict = "(string, cache_engine_key list \<times> nat list) dict"

fun put_tiers :: "(string \<Rightarrow> 's allocator) \<Rightarrow> cache_engine_key list \<Rightarrow> nat list \<Rightarrow> string option
    \<Rightarrow> string set \<Rightarrow> (string \<times> 's backend) list \<Rightarrow> put_dict \<Rightarrow> 's \<Rightarrow> put_dict \<times> 's" where
  "put_tiers als keys memory_objs location bypassed [] d s = (d, s)"
| "put_tiers als keys memory_objs location bypassed ((name, b) # tiers) d s =
     (if location \<notin> {None, Some []} \<and> location \<noteq> Some name \<or> name \<in> bypassed
      then put_tiers als keys memory_objs location bypassed tiers d s
      else case (case map_of d (be_allocator b) of
                   Some e \<Rightarrow> (e, d, s)
                 | None \<Rightarrow>
                     (case allocate_and_copy_objects (als (be_allocator b)) keys memory_objs s of
                        (e, s1) \<Rightarrow> (e, dict_set (be_allocator b) e d, s1))) of
             ((ks, rs), d1, s1) \<Rightarrow>
               put_tiers als keys memory_objs location bypassed tiers d1 (be_batched_submit_put_task b ks rs s1))"

definition tm_batched_put :: "(string \<Rightarrow> 's allocator) \<Rightarrow> string option \<Rightarrow> cache_engine_key list \<Rightarrow> nat list
    \<Rightarrow> string option \<Rightarrow> 's tier_manager \<Rightarrow> 's \<Rightarrow> (unit, 's) outcome" where
  "tm_batched_put als allocator_backend keys memory_objs location m s =
     (case allocator_backend of
        None \<Rightarrow> (Inl RuntimeError, s)
      | Some own \<Rightarrow>
          (case put_tiers als keys memory_objs location (bypassed_backends m) (storage_backends m)
                  [(own, (keys, memory_objs))] s of
             (d, s1) \<Rightarrow>
               (Inr (), fold (\<lambda>(cname, (ks, rs)) s. fold (al_ref_count_down (als cname)) rs s) d s1)))"

section \<open>The longest prefix the tiers cover\<close>

text \<open>
  A list of keys is coverable by tiers when it can be cut, in order, into one part per tier such
  that the tier holds every key of its part.
\<close>

fun coverable :: "('k \<Rightarrow> bool) list \<Rightarrow> 'k list \<Rightarrow> bool" where
  "coverable [] ks \<longleftrightarrow> ks = []"
| "coverable (K # Ks) ks \<longleftrightarrow>
     list_ex (\<lambda>i. list_all K (take i ks) \<and> coverable Ks (drop i ks)) [0 ..< Suc (length ks)]"

fun greedy_cover :: "('k \<Rightarrow> bool) list \<Rightarrow> 'k list \<Rightarrow> nat" where
  "greedy_cover [] ks = 0"
| "greedy_cover (K # Ks) ks =
     (let n = length (takeWhile K ks) in n + greedy_cover Ks (drop n ks))"

lemma coverable_Cons:
  "coverable (K # Ks) ks \<longleftrightarrow> (\<exists>i. list_all K (take i ks) \<and> coverable Ks (drop i ks))"
proof
  assume "\<exists>i. list_all K (take i ks) \<and> coverable Ks (drop i ks)"
  then obtain i where i: "list_all K (take i ks)" "coverable Ks (drop i ks)" by blast
  have "min i (length ks) \<in> set [0 ..< Suc (length ks)]" by auto
  moreover have "take (min i (length ks)) ks = take i ks" "drop (min i (length ks)) ks = drop i ks"
    by (auto simp: min_def)
  ultimately show "coverable (K # Ks) ks" using i by (simp only: coverable.simps list_ex_iff) metis
next
  assume "coverable (K # Ks) ks"
  then show "\<exists>i. list_all K (take i ks) \<and> coverable Ks (drop i ks)"
    by (simp only: coverable.simps list_ex_iff) blast
qed

declare coverable.simps(2) [simp del]

lemma coverable_Nil [simp]: "coverable Ks []"
  by (induction Ks) (auto simp: coverable_Cons)

lemma coverable_drop: "coverable Ks ks \<Longrightarrow> coverable Ks (drop j ks)"
proof (induction Ks arbitrary: ks j)
  case (Cons K Ks)
  then obtain i where i: "list_all K (take i ks)" "coverable Ks (drop i ks)" by (auto simp: coverable_Cons)
  have "list_all K (take (i - j) (drop j ks))"
    using i(1) by (metis drop_take in_set_dropD list_all_iff)
  moreover have "coverable Ks (drop (i - j) (drop j ks))"
  proof (cases "j \<le> i")
    case False
    then have "drop (i - j) (drop j ks) = drop (j - i) (drop i ks)" by simp
    then show ?thesis using Cons.IH [OF i(2)] by metis
  qed (use i(2) in simp)
  ultimately show ?case by (auto simp: coverable_Cons)
qed simp

lemma coverable_take: "coverable Ks ks \<Longrightarrow> coverable Ks (take j ks)"
proof (induction Ks arbitrary: ks j)
  case (Cons K Ks)
  then obtain i where i: "list_all K (take i ks)" "coverable Ks (drop i ks)" by (auto simp: coverable_Cons)
  have "list_all K (take i (take j ks))"
    using i(1) by (metis list_all_append append_take_drop_id take_take min.commute)
  moreover have "coverable Ks (drop i (take j ks))"
    using Cons.IH [OF i(2), of "j - i"] by (simp add: drop_take)
  ultimately show ?case by (auto simp: coverable_Cons)
qed simp

lemma greedy_cover_le: "greedy_cover Ks ks \<le> length ks"
proof (induction Ks arbitrary: ks)
  case (Cons K Ks)
  have "length (takeWhile K ks) \<le> length ks" by (rule length_takeWhile_le)
  with Cons [of "drop (length (takeWhile K ks)) ks"] show ?case by (simp add: Let_def)
qed simp

lemma greedy_cover_Nil [simp]: "greedy_cover Ks [] = 0"
  using greedy_cover_le [of Ks "[]"] by simp

lemma coverable_greedy: "coverable Ks (take (greedy_cover Ks ks) ks)"
proof (induction Ks arbitrary: ks)
  case (Cons K Ks)
  let ?n = "length (takeWhile K ks)"
  have t: "take ?n ks = takeWhile K ks" by (metis takeWhile_eq_take)
  have "take ?n (take (greedy_cover (K # Ks) ks) ks) = takeWhile K ks"
    by (simp add: Let_def t min_absorb1)
  then have "list_all K (take ?n (take (greedy_cover (K # Ks) ks) ks))"
    unfolding list_all_iff using set_takeWhileD by metis
  moreover have "drop ?n (take (greedy_cover (K # Ks) ks) ks) = take (greedy_cover Ks (drop ?n ks)) (drop ?n ks)"
    by (simp add: Let_def drop_take)
  ultimately show ?case using Cons by (metis coverable_Cons)
qed simp

lemma coverable_iff_greedy:
  "j \<le> length ks \<Longrightarrow> coverable Ks (take j ks) \<longleftrightarrow> j \<le> greedy_cover Ks ks"
proof
  assume "j \<le> greedy_cover Ks ks"
  then have "take j ks = take j (take (greedy_cover Ks ks) ks)" by (simp add: min_def)
  then show "coverable Ks (take j ks)" using coverable_take [OF coverable_greedy] by metis
next
  show "coverable Ks (take j ks) \<Longrightarrow> j \<le> length ks \<Longrightarrow> j \<le> greedy_cover Ks ks" 
  proof (induction Ks arbitrary: ks j)
    case (Cons K Ks)
    let ?n = "length (takeWhile K ks)"
    obtain i where i: "list_all K (take i (take j ks))" "coverable Ks (drop i (take j ks))"
      using Cons.prems(1) by (auto simp: coverable_Cons)
    show ?case
    proof (cases "j \<le> ?n")
      case False
      have "min i j \<le> ?n"
      proof (rule ccontr)
        assume c: "\<not> min i j \<le> ?n"
        then have lt: "?n < i" "?n < j" by simp_all
        then have "?n < length ks" using Cons.prems(2) by simp
        then have "\<not> K (ks ! ?n)" by (rule nth_length_takeWhile)
        moreover have "ks ! ?n \<in> set (take i (take j ks))"
          using lt \<open>?n < length ks\<close> nth_mem [of ?n "take (min i j) ks"] by simp
        ultimately show False using i(1) by (auto simp: list_all_iff)
      qed
      then have "drop ?n (take j ks) = drop (?n - min i j) (drop i (take j ks))"
        using False by (auto simp: min_def)
      then have "coverable Ks (drop ?n (take j ks))" using coverable_drop [OF i(2)] by metis
      then have "coverable Ks (take (j - ?n) (drop ?n ks))" by (simp add: drop_take)
      then have "j - ?n \<le> greedy_cover Ks (drop ?n ks)" using Cons.IH Cons.prems(2) by simp
      then show ?thesis by (simp add: Let_def)
    qed (simp add: Let_def)
  qed auto
qed

section \<open>Tiers that only read\<close>

text \<open>
  What a lookup without pins relies on: every tier counts the prefix of the keys it holds, and the
  look changes nothing.
\<close>

locale reading_tiers =
  fixes tiers :: "(string \<times> 's backend) list" and holds :: "string \<Rightarrow> cache_engine_key \<Rightarrow> bool" and s :: 's
  assumes names: "distinct (map fst tiers)"
    and counts: "(name, b) \<in> set tiers \<Longrightarrow>
      be_batched_contains b ks False s = (length (takeWhile (holds name) ks), s)"

lemma map_update: "map (\<lambda>(k, v). (k, f v)) (dict_set k v d) = dict_set k (f v) (map (\<lambda>(k, v). (k, f v)) d)"
  by (induction d) auto

lemma mapping_of_contains:
  assumes "keys = drop hits (map fst infos)"
  shows "map_prod (map (\<lambda>(n, is). (n, map fst is))) id (mapping_tiers tiers infos hits keys mapping s) =
    map_prod snd id (contains_tiers tiers (length infos) hits keys False
      (map (\<lambda>(n, is). (n, map fst is)) mapping) s)"
  using assms
proof (induction tiers arbitrary: hits keys mapping s)
  case (Cons t tiers)
  obtain name b where t: "t = (name, b)" by (cases t)
  obtain n s1 where n: "be_batched_contains b keys False s = (n, s1)" by (cases "be_batched_contains b keys False s")
  define part where part: "part = take n (drop hits infos)"
  have "map fst part = take n keys" by (simp add: part Cons.prems take_map drop_map)
  then have m: "map (\<lambda>(n, is). (n, map fst is)) (dict_set name part mapping) =
      dict_set name (take n keys) (map (\<lambda>(n, is). (n, map fst is)) mapping)"
    by (simp add: map_update)
  have d: "drop n keys = drop (hits + n) (map fst infos)" by (simp add: Cons.prems add.commute)
  show ?case
    using Cons.IH [OF Cons.prems, of mapping s1]
      Cons.IH [OF d, of "dict_set name part mapping" s1]
    by (simp add: t n m Let_def part [symmetric])
qed simp

context reading_tiers
begin

lemma mapping_tiers_spec:
  assumes "set ts \<subseteq> set tiers" "distinct (map fst ts)" "\<forall>name \<in> set (map fst ts). map_of mapping name = None"
    and "hits + length keys = length infos" "keys = drop hits (map fst infos)"
  shows "\<exists>new. mapping_tiers ts infos hits keys mapping s = (mapping @ new, s) \<and>
    concat (dict_values new) = take (greedy_cover (map (\<lambda>t. holds (fst t)) ts) keys) (drop hits infos) \<and>
    set (map fst new) \<subseteq> set (map fst ts) \<and>
    (\<forall>(name, is) \<in> set new. is \<noteq> [] \<and> (\<forall>i \<in> set is. holds name (fst i)))"
  using assms
proof (induction ts arbitrary: hits keys mapping)
  case Nil
  show ?case by (rule exI [of _ "[]"]) simp
next
  case (Cons t ts)
  obtain name b where t: "t = (name, b)" by (cases t)
  let ?n = "length (takeWhile (holds name) keys)"
  have n: "be_batched_contains b keys False s = (?n, s)" using counts Cons.prems(1) by (simp add: t)
  show ?case
  proof (cases "?n = 0")
    case True
    have "set ts \<subseteq> set tiers" "distinct (map fst ts)" "\<forall>name \<in> set (map fst ts). map_of mapping name = None"
      using Cons.prems by simp_all
    from Cons.IH [OF this Cons.prems(4,5)] obtain new where
      new: "mapping_tiers ts infos hits keys mapping s = (mapping @ new, s)"
        "concat (dict_values new) = take (greedy_cover (map (\<lambda>t. holds (fst t)) ts) keys) (drop hits infos)"
        "set (map fst new) \<subseteq> set (map fst ts)"
        "\<forall>(name, is) \<in> set new. is \<noteq> [] \<and> (\<forall>i \<in> set is. holds name (fst i))" by blast
    show ?thesis
      by (rule exI [of _ new]) (use n True new in \<open>auto simp: t Let_def\<close>)
  next
    case False
    let ?part = "take ?n (drop hits infos)"
    have len: "?n \<le> length keys" by (rule length_takeWhile_le)
    have fresh: "map_of mapping name = None" using Cons.prems(3) by (simp add: t)
    have part: "\<forall>i \<in> set ?part. holds name (fst i)" "?part \<noteq> []"
    proof -
      have "map fst ?part = takeWhile (holds name) keys"
        by (metis Cons.prems(5) drop_map take_map takeWhile_eq_take)
      then show "\<forall>i \<in> set ?part. holds name (fst i)" by (metis image_eqI list.set_map set_takeWhileD)
      have "0 < length keys" using False len by linarith
      then have "hits < length infos" using Cons.prems(4) by linarith
      then show "?part \<noteq> []" using False by simp
    qed
    let ?m1 = "mapping @ [(name, ?part)]"
    show ?thesis
    proof (cases "hits + ?n = length infos")
      case True
      then have d: "drop ?n keys = []" using Cons.prems(4) by simp
      have "mapping_tiers (t # ts) infos hits keys mapping s = (?m1, s)"
        using n False True by (simp add: t Let_def dict_set_new [OF fresh])
      then show ?thesis using part d by (intro exI [of _ "[(name, ?part)]"]) (auto simp: t Let_def)
    next
      case more: False
      have "set ts \<subseteq> set tiers" "distinct (map fst ts)" using Cons.prems by simp_all
      moreover have "\<forall>name \<in> set (map fst ts). map_of ?m1 name = None"
        using Cons.prems(2,3) by (auto simp: t map_add_def)
      moreover have "(hits + ?n) + length (drop ?n keys) = length infos" using Cons.prems(4) len by simp
      moreover have "drop ?n keys = drop (hits + ?n) (map fst infos)" by (simp add: Cons.prems(5) add.commute)
      ultimately obtain new where
        new: "mapping_tiers ts infos (hits + ?n) (drop ?n keys) ?m1 s = (?m1 @ new, s)"
          "concat (dict_values new) = take (greedy_cover (map (\<lambda>t. holds (fst t)) ts) (drop ?n keys)) (drop (hits + ?n) infos)"
          "set (map fst new) \<subseteq> set (map fst ts)"
          "\<forall>(name, is) \<in> set new. is \<noteq> [] \<and> (\<forall>i \<in> set is. holds name (fst i))"
        using Cons.IH by blast
      have "mapping_tiers (t # ts) infos hits keys mapping s = (mapping @ (name, ?part) # new, s)"
        using n False more new(1) by (simp add: t Let_def dict_set_new [OF fresh])
      moreover have "?part @ concat (dict_values new) =
          take (greedy_cover (map (\<lambda>t. holds (fst t)) (t # ts)) keys) (drop hits infos)"
        by (simp add: new(2) t Let_def take_add add.commute)
      ultimately show ?thesis
        using part new(3,4) by (intro exI [of _ "(name, ?part) # new"]) (auto simp: t)
    qed
  qed
qed

lemma contains_hits:
  assumes "set ts \<subseteq> set tiers" "hits + length keys = n_keys"
  shows "fst (fst (contains_tiers ts n_keys hits keys False mapping s)) =
      hits + greedy_cover (map (\<lambda>t. holds (fst t)) ts) keys \<and>
    snd (contains_tiers ts n_keys hits keys False mapping s) = s"
  using assms
proof (induction ts arbitrary: hits keys mapping)
  case (Cons t ts)
  obtain name b where t: "t = (name, b)" by (cases t)
  let ?n = "length (takeWhile (holds name) keys)"
  have n: "be_batched_contains b keys False s = (?n, s)" using counts Cons.prems(1) by (simp add: t)
  have len: "?n \<le> length keys" by (rule length_takeWhile_le)
  have "hits + ?n + length (drop ?n keys) = n_keys" using Cons.prems(2) len by simp
  then show ?case
    using Cons.IH [of hits keys mapping] Cons.IH [of "hits + ?n" "drop ?n keys"] Cons.prems n
    by (simp add: t Let_def)
qed simp

end

text \<open>The CPU backend as the only tier.\<close>

lemma lcb_reads: "batched_contains ks False b = (length (takeWhile (\<lambda>key. key \<in> set (get_keys b)) ks), b)"
proof (induction ks)
  case (Cons key ks)
  have "key \<in> set (get_keys b) \<longleftrightarrow> map_of (hot_cache b) key \<noteq> None"
    unfolding get_keys_def by (rule dict_in_keys_iff)
  then show ?case using Cons by (auto simp: lcb_contains_def split: option.splits)
qed simp

interpretation cpu_tier: reading_tiers "[(''LocalCPUBackend'', lcb_backend E now)]"
  "\<lambda>name key. key \<in> set (get_keys b)" b
  by unfold_locales (auto simp: lcb_backend_def lcb_reads)

section \<open>Copying for another allocator\<close>

text \<open>
  What the copy relies on: an allocation gives an object that is not live yet and leaves the live
  ones alone, it may evict keys but adds none, and copying changes only the destination.
\<close>

definition copies_ok :: "'s allocator \<Rightarrow> ('s \<Rightarrow> nat set) \<Rightarrow> (nat \<Rightarrow> 's \<Rightarrow> 'c) \<Rightarrow> bool" where
  "copies_ok A live content \<longleftrightarrow>
     (\<forall>src res s s'. al_allocate_like A src s = (res, s') \<longrightarrow>
        (\<forall>r \<in> live s. content r s' = content r s) \<and>
        (\<forall>key. al_contains A key s' \<longrightarrow> al_contains A key s) \<and>
        (\<forall>dst. res = Some dst \<longrightarrow> dst \<notin> live s \<and> live s' = insert dst (live s))) \<and>
     (\<forall>dst src s. dst \<in> live s \<longrightarrow> live (al_copy A dst src s) = live s \<and>
        (\<forall>r. content r (al_copy A dst src s) = content (if r = dst then src else r) s) \<and>
        (\<forall>key. al_contains A key (al_copy A dst src s) = al_contains A key s)) \<and>
     (\<forall>dst r s. r \<noteq> dst \<longrightarrow> content r (al_ref_count_down A dst s) = content r s)"

lemma copies_okD:
  assumes "copies_ok A live content"
  shows "al_allocate_like A src s = (res, s') \<Longrightarrow> r \<in> live s \<Longrightarrow> content r s' = content r s"
    and "al_allocate_like A src s = (res, s') \<Longrightarrow> al_contains A key s' \<Longrightarrow> al_contains A key s"
    and "al_allocate_like A src s = (Some dst, s') \<Longrightarrow> dst \<notin> live s \<and> live s' = insert dst (live s)"
    and "dst \<in> live s \<Longrightarrow> live (al_copy A dst src s) = live s"
    and "dst \<in> live s \<Longrightarrow> content r (al_copy A dst src s) = content (if r = dst then src else r) s"
    and "dst \<in> live s \<Longrightarrow> al_contains A key (al_copy A dst src s) = al_contains A key s"
    and "r \<noteq> dst \<Longrightarrow> content r (al_ref_count_down A dst s) = content r s"
  using assms unfolding copies_ok_def by blast+

lemma copy_objects_contents:
  assumes ok: "copies_ok A live content"
  shows "\<forall>p \<in> set puts. \<not> al_contains A (fst p) s \<and> snd p \<in> live s \<Longrightarrow>
    copy_objects A puts s = (rs, s') \<Longrightarrow>
    length rs \<le> length puts \<and>
    map (\<lambda>r. content r s') rs = map (\<lambda>p. content (snd p) s) (take (length rs) puts) \<and>
    (\<forall>r \<in> live s. content r s' = content r s)"
proof (induction puts arbitrary: s rs)
  case (Cons p puts)
  obtain key src where p: "p = (key, src)" by (cases p)
  have free: "\<not> al_contains A key s" and src: "src \<in> live s" using Cons.prems(1) by (simp_all add: p)
  obtain res s1 where al: "al_allocate_like A src s = (res, s1)" by fastforce
  note keep = copies_okD(1) [OF ok al]
  show ?case
  proof (cases res)
    case None
    then show ?thesis using Cons.prems(2) free al keep by (simp add: p)
  next
    case (Some dst)
    note new = copies_okD(3) [OF ok al [unfolded Some]]
    then have ne: "r \<noteq> dst" if "r \<in> live s" for r using that by blast
    show ?thesis
    proof (cases "al_raw_tensor A dst s1 \<and> al_raw_tensor A src s1")
      case False
      then have "rs = []" "s' = al_ref_count_down A dst s1"
        using Cons.prems(2) free al Some by (auto simp: p split: if_splits)
      then show ?thesis using keep copies_okD(7) [OF ok] ne by simp
    next
      case True
      let ?s2 = "al_copy A dst src s1"
      have dst: "dst \<in> live s1" using new by simp
      have same: "content r ?s2 = content r s" if "r \<in> live s" for r
        using copies_okD(5) [OF ok dst] ne [OF that] keep [OF that] by simp
      have live2: "live ?s2 = insert dst (live s)" using copies_okD(4) [OF ok dst] new by simp
      obtain rs1 where c: "copy_objects A puts ?s2 = (rs1, s')" and rs: "rs = dst # rs1"
        using Cons.prems(2) free al Some True by (auto simp: p split: prod.splits)
      have "\<forall>q \<in> set puts. \<not> al_contains A (fst q) ?s2 \<and> snd q \<in> live ?s2"
        using Cons.prems(1) copies_okD(2) [OF ok al] copies_okD(6) [OF ok dst] live2 by auto
      from Cons.IH [OF this c] have ih: "length rs1 \<le> length puts"
        "map (\<lambda>r. content r s') rs1 = map (\<lambda>p. content (snd p) ?s2) (take (length rs1) puts)"
        "\<forall>r \<in> live ?s2. content r s' = content r ?s2" by blast+
      have "content dst s' = content src s"
        using ih(3) live2 copies_okD(5) [OF ok dst] keep [OF src] by simp
      moreover have "map (\<lambda>p. content (snd p) ?s2) (take (length rs1) puts) =
          map (\<lambda>p. content (snd p) s) (take (length rs1) puts)"
        using Cons.prems(1) same by (intro map_cong) (auto dest: in_set_takeD)
      ultimately show ?thesis using ih same live2 by (simp add: rs p)
    qed
  qed
qed simp

lemma lookup_longest_prefix:
  assumes tiers: "reading_tiers (get_active_storage_backends None None m) holds s"
  shows "\<exists>n mapping. tm_batched_contains (map fst infos) None False m s =
      ((n, map (\<lambda>(name, is). (name, map fst is)) mapping), s) \<and>
    get_block_mapping infos m s = (mapping, s) \<and>
    concat (dict_values mapping) = take n infos \<and> n \<le> length infos \<and>
    (\<forall>(name, is) \<in> set mapping. name \<in> set (map fst (get_active_storage_backends None None m)) \<and>
       is \<noteq> [] \<and> (\<forall>i \<in> set is. holds name (fst i))) \<and>
    (\<forall>j \<le> length infos.
       coverable (map (\<lambda>t. holds (fst t)) (get_active_storage_backends None None m)) (take j (map fst infos)) \<longleftrightarrow> j \<le> n)"
proof -
  let ?ts = "get_active_storage_backends None None m" and ?keys = "map fst infos"
  let ?n = "greedy_cover (map (\<lambda>t. holds (fst t)) ?ts) ?keys"
  note names = reading_tiers.names [OF tiers]
  obtain mapping where g: "mapping_tiers ?ts infos 0 ?keys [] s = (mapping, s)"
    and c: "concat (dict_values mapping) = take ?n infos"
    and act: "set (map fst mapping) \<subseteq> set (map fst ?ts)"
    and h: "\<forall>(name, is) \<in> set mapping. is \<noteq> [] \<and> (\<forall>i \<in> set is. holds name (fst i))"
    using reading_tiers.mapping_tiers_spec [OF tiers subset_refl names, of "[]" 0 ?keys infos] by auto
  have h: "\<forall>(name, is) \<in> set mapping. name \<in> set (map fst ?ts) \<and> is \<noteq> [] \<and> (\<forall>i \<in> set is. holds name (fst i))"
  proof
    fix e assume "e \<in> set mapping"
    then have "fst e \<in> set (map fst ?ts)" using act by (metis image_eqI list.set_map subsetD)
    then show "case e of (name, is) \<Rightarrow> name \<in> set (map fst ?ts) \<and> is \<noteq> [] \<and> (\<forall>i \<in> set is. holds name (fst i))"
      using h \<open>e \<in> set mapping\<close> by (cases e) auto
  qed
  obtain n' m' s' where t: "contains_tiers ?ts (length infos) 0 ?keys False [] s = ((n', m'), s')" by (metis prod.collapse)
  have "n' = ?n" "s' = s"
    using reading_tiers.contains_hits [OF tiers subset_refl, of 0 ?keys "length infos" "[]"] by (simp_all add: t)
  moreover have "m' = map (\<lambda>(name, is). (name, map fst is)) mapping"
    using mapping_of_contains [of ?keys 0 infos ?ts "[]" s] by (simp add: g t)
  ultimately have "tm_batched_contains ?keys None False m s =
      ((?n, map (\<lambda>(name, is). (name, map fst is)) mapping), s)"
    by (simp add: tm_batched_contains_def t)
  moreover have "?n \<le> length infos" using greedy_cover_le [of _ ?keys] by simp
  ultimately show ?thesis
    using c h g coverable_iff_greedy [of _ ?keys] by (simp add: get_block_mapping_def)
qed

section \<open>Properties\<close>

text \<open>C21: A lookup finds the longest prefix that the tiers can serve in their order. For tiers that only
  read, the number of hits is the largest number of leading keys that can be cut into one part per
  active tier, each held by its tier; the mapping is such a cut, no key twice and none left out,
  and nothing changes. The block mapping of a retrieval cuts the chunks at the same places.\<close>

theorem lookup_finds_the_longest_prefix:
  assumes tiers: "reading_tiers (get_active_storage_backends None None m) holds s"
  shows "\<exists>n mapping. tm_batched_contains (map fst infos) None False m s =
      ((n, map (\<lambda>(name, is). (name, map fst is)) mapping), s) \<and>
    get_block_mapping infos m s = (mapping, s) \<and>
    concat (dict_values mapping) = take n infos \<and> n \<le> length infos \<and>
    (\<forall>(name, is) \<in> set mapping. name \<in> set (map fst (get_active_storage_backends None None m)) \<and>
       is \<noteq> [] \<and> (\<forall>i \<in> set is. holds name (fst i))) \<and>
    (\<forall>j \<le> length infos.
       coverable (map (\<lambda>t. holds (fst t)) (get_active_storage_backends None None m)) (take j (map fst infos)) \<longleftrightarrow> j \<le> n)"
  using lookup_longest_prefix [OF tiers] .

text \<open>A copy keeps its key. When another allocator holds none of the keys, the objects that
  allocate_and_copy_objects returns hold, one by one, what the callers' objects for the returned
  keys hold, and the callers' objects are unchanged.\<close>

theorem copies_keep_their_keys:
  assumes ok: "copies_ok A live content" and len: "length keys = length srcs"
    and free: "\<forall>key \<in> set keys. \<not> al_contains A key s" and srcs: "set srcs \<subseteq> live s"
    and call: "allocate_and_copy_objects A keys srcs s = ((ks, rs), s')"
  shows "\<exists>n \<le> length keys. ks = take n keys \<and>
    map (\<lambda>r. content r s') rs = map (\<lambda>r. content r s) (take n srcs) \<and>
    (\<forall>r \<in> live s. content r s' = content r s)"
proof -
  have c: "copy_objects A (zip keys srcs) s = (rs, s')" and ks: "ks = take (length rs) keys"
    using call by (auto simp: allocate_and_copy_objects_def split: prod.splits)
  have "\<forall>p \<in> set (zip keys srcs). \<not> al_contains A (fst p) s \<and> snd p \<in> live s"
    using free srcs by (auto dest: set_zip_leftD set_zip_rightD)
  from copy_objects_contents [OF ok this c] have "length rs \<le> length keys"
    "map (\<lambda>r. content r s') rs = map (\<lambda>p. content (snd p) s) (take (length rs) (zip keys srcs))"
    "\<forall>r \<in> live s. content r s' = content r s" using len by simp_all
  moreover have "map (\<lambda>p. content (snd p) s) (take (length rs) (zip keys srcs)) =
      map (\<lambda>r. content r s) (take (length rs) srcs)"
  proof -
    have "take (length rs) srcs = map snd (take (length rs) (zip keys srcs))"
      using len by (simp add: take_zip)
    then show ?thesis by (simp add: comp_def)
  qed
  ultimately show ?thesis using ks by auto
qed

section \<open>Examples\<close>

text \<open>Two tiers that hold sets of hashes; the PD backend is between them but bypassed.\<close>

definition tier_key :: "int \<Rightarrow> cache_engine_key" where
  "tier_key h = \<lparr>ck_model_name = ''m'', ck_world_size = 1, ck_worker_id = 0, ck_chunk_hash = h,
     ck_dtype = ''float16'', ck_dtype_str = ''half'', ck_tags = None, ck_layer_id = None\<rparr>"

definition sample_holds :: "string \<Rightarrow> cache_engine_key \<Rightarrow> bool" where
  "sample_holds name key \<longleftrightarrow>
     ck_chunk_hash key \<in> (if name = ''LocalCPUBackend'' then {1, 2, 4} else {3, 4})"

definition sample_tier :: "string \<Rightarrow> unit backend" where
  "sample_tier name =
     \<lparr>be_contains = (\<lambda>key pin_it s. (sample_holds name key, s)),
      be_batched_contains = default_batched_contains (\<lambda>key pin_it s. (sample_holds name key, s)),
      be_get_blocking = (\<lambda>key s. (None, s)),
      be_batched_get_blocking = default_batched_get_blocking (\<lambda>key s. (None, s)),
      be_batched_async_contains = (\<lambda>i. default_batched_contains (\<lambda>key pin_it s. (sample_holds name key, s))),
      be_batched_get_non_blocking = (\<lambda>i ks cum s. (Inr [], s)),
      be_batched_submit_put_task = (\<lambda>ks rs s. s),
      be_remove = (\<lambda>key s. (Inr False, s)),
      be_batched_remove = default_batched_remove (\<lambda>key s. (Inr False, s)),
      be_unpin = (\<lambda>key s. (Inr False, s)), be_touch_cache = (\<lambda>s. (Inr (), s)), be_clear = None,
      be_allocator = name\<rparr>"

definition sample_tiers :: "unit tier_manager" where
  "sample_tiers = set_backend_bypass ''PDBackend'' True
     \<lparr>storage_backends = map (\<lambda>name. (name, sample_tier name)) [''LocalCPUBackend'', ''PDBackend'', ''GdsBackend''],
      tm_freeze = False, bypassed_backends = {}\<rparr>"

lemma sample_tiers_active:
  "get_active_storage_backends None None sample_tiers =
     map (\<lambda>name. (name, sample_tier name)) [''LocalCPUBackend'', ''GdsBackend'']"
  by (simp add: get_active_storage_backends_def sample_tiers_def set_backend_bypass_def)

lemma default_reads:
  "default_batched_contains (\<lambda>key pin_it s. (P key, s)) ks pin_it s = (length (takeWhile P ks), s)"
  by (induction ks) auto

lemma sample_tiers_read: "reading_tiers (get_active_storage_backends None None sample_tiers) sample_holds ()"
  unfolding sample_tiers_active
  by unfold_locales (auto simp: sample_tier_def default_reads)

lemma lookup_finds_the_longest_prefix_witness:
  "\<exists>mapping :: (string, chunk_info list) dict. tm_batched_contains (map tier_key [1, 2, 3, 4, 5]) None False sample_tiers () =
     ((4, map (\<lambda>(name, is). (name, map fst is)) mapping), ()) \<and>
   map fst (concat (dict_values mapping)) = map tier_key [1, 2, 3, 4]"
proof -
  let ?infos = "map (\<lambda>h. (tier_key h, nat h, nat h + 1)) [1, 2, 3, 4, 5]"
  have keys: "map fst ?infos = map tier_key [1, 2, 3, 4, 5]" by simp
  from lookup_finds_the_longest_prefix [OF sample_tiers_read, of ?infos] obtain n mapping
    where n: "tm_batched_contains (map fst ?infos) None False sample_tiers () =
        ((n, map (\<lambda>(name, is). (name, map fst is)) mapping), ())"
      "concat (dict_values mapping) = take n ?infos" by blast
  have "fst (fst (tm_batched_contains (map tier_key [1, 2, 3, 4, 5]) None False sample_tiers ())) = 4"
    by code_simp
  then have "n = 4" using n(1) unfolding keys by simp
  then have "map fst (concat (dict_values mapping)) = map tier_key [1, 2, 3, 4]" using n(2) by simp
  then show ?thesis
    using n(1) unfolding keys \<open>n = 4\<close> by blast
qed

text \<open>An allocator over a list of contents, and the keys it holds.\<close>

definition list_allocator :: "(int list \<times> int set) allocator" where
  "list_allocator =
     \<lparr>al_contains = (\<lambda>key s. ck_chunk_hash key \<in> snd s),
      al_allocate_like = (\<lambda>src s. (Some (length (fst s)), (fst s @ [0], snd s))),
      al_raw_tensor = (\<lambda>r s. True),
      al_copy = (\<lambda>dst src s. ((fst s)[dst := fst s ! src], snd s)),
      al_ref_count_down = (\<lambda>r s. s)\<rparr>"

lemma list_allocator_ok: "copies_ok list_allocator (\<lambda>s. {..< length (fst s)}) (\<lambda>r s. fst s ! r)"
  by (auto simp: copies_ok_def list_allocator_def nth_append nth_list_update less_Suc_eq)

lemma copies_keep_their_keys_witness:
  "\<exists>n \<le> 2. [tier_key 1, tier_key 2] = take n [tier_key 1, tier_key 2] \<and> [7, 8 :: int] = take n [7, 8]"
proof -
  have call: "allocate_and_copy_objects list_allocator [tier_key 1, tier_key 2] [0, 1] ([7, 8], {}) =
      (([tier_key 1, tier_key 2], [2, 3]), ([7, 8, 7, 8], {}))" by code_simp
  have "\<forall>key \<in> set [tier_key 1, tier_key 2]. \<not> al_contains list_allocator key ([7, 8], {})"
    by (simp add: list_allocator_def)
  from copies_keep_their_keys [OF list_allocator_ok _ this _ call] show ?thesis by auto
qed

text \<open>
  When the allocator holds a key, its object is skipped but its key is not: the copy of the second
  chunk is handed on under the first chunk's key, and the second key is lost.
\<close>

lemma skipped_key_shifts_the_copies:
  "allocate_and_copy_objects list_allocator [tier_key 1, tier_key 2] [0, 1] ([7, 8], {1}) =
     (([tier_key 1], [2]), ([7, 8, 8], {1}))"
  by code_simp

text \<open>
  A hot cache that is switched off takes nothing from batched_get, but get still writes to it.
\<close>

definition off_cpu :: local_cpu_backend where
  "off_cpu = snd (set_hot_cache reference_env False
     \<lparr>lcb_policy = FIFOCachePolicy, hot_cache = [], use_hot = True,
      lcb_mem = snd (mixed_allocate reference_env (One [2, 32]) (One ''int8'') KV_2LTD
                       (empty_pool reference_env 4096 (2 ^ 12) None)),
      lcb_layerwise = False, lcb_enable_blending = False, keys_in_request = [], lcb_sender = None\<rparr>)"

text \<open>A second tier that always delivers object 0.\<close>

definition off_manager :: "local_cpu_backend tier_manager" where
  "off_manager =
     \<lparr>storage_backends =
        [(''LocalCPUBackend'', lcb_backend reference_env 0),
         (''GdsBackend'', (lcb_backend reference_env 0)
            \<lparr>be_get_blocking := \<lambda>key s. (Some 0, s), be_batched_get_blocking := \<lambda>ks s. (map (\<lambda>k. Some 0) ks, s)\<rparr>)],
      tm_freeze = False, bypassed_backends = {''RemoteBackend''}\<rparr>"

lemma get_fills_a_hot_cache_that_is_off:
  "use_hot off_cpu = False \<and>
   hot_cache (snd (tm_batched_get [tier_key 1] (Some ''GdsBackend'') off_manager off_cpu)) = [] \<and>
   hot_cache (snd (tm_get (\<lambda>key r b. snd (submit_put_task 0 key r b)) (tier_key 1) None off_manager off_cpu)) =
     [(tier_key 1, 0)]"
proof (intro conjI)
  show "use_hot off_cpu = False" by code_simp
  show "hot_cache (snd (tm_batched_get [tier_key 1] (Some ''GdsBackend'') off_manager off_cpu)) = []" by code_simp
  show "hot_cache (snd (tm_get (\<lambda>key r b. snd (submit_put_task 0 key r b)) (tier_key 1) None off_manager off_cpu)) =
     [(tier_key 1, 0)]" by code_simp
qed
end
