(* ===== verification/Async_Loading.thy ===== *)
theory Async_Loading
  imports In_Process_Tiers Local_Cpu_History
begin

text \<open>
  Asynchronous loading of the in-process engine: EventManager (lmcache/v1/event_manager.py), the lookup
  that starts loads on all tiers and the callback that answers the scheduler
  (StorageManager.async_lookup_and_prefetch and prefetch_all_done_callback), and the engine's side,
  which takes the loaded objects and gives them back (async_lookup_and_prefetch,
  _async_process_tokens_internal, cleanup_memory_objs and lookup_unpin of cache_engine.py). Requests
  here do not ask for the BASE fidelity, whose decoding is not modelled.
\<close>

section \<open>EventManager\<close>

text \<open>There is one event type, LOADING. Futures are references.\<close>

datatype event_status = ONGOING | DONE | NOT_FOUND

type_synonym event_manager = "event_status \<Rightarrow> (string, nat) dict"

definition event_manager_init :: event_manager where
  "event_manager_init = (\<lambda>_. [])"

definition add_event :: "string \<Rightarrow> nat \<Rightarrow> event_manager \<Rightarrow> event_manager" where
  "add_event event_id fut ev = ev(ONGOING := dict_set event_id fut (ev ONGOING))"

definition pop_event :: "string \<Rightarrow> event_manager \<Rightarrow> (nat, event_manager) outcome" where
  "pop_event event_id ev =
     (case map_of (ev DONE) event_id of
        None \<Rightarrow> (Inl AssertionError, ev)
      | Some fut \<Rightarrow> (Inr fut, ev(DONE := dict_del event_id (ev DONE))))"

text \<open>The first status, in the order of the enumeration, that has the event.\<close>

definition find_status :: "string \<Rightarrow> event_manager \<Rightarrow> event_status option" where
  "find_status event_id ev = find (\<lambda>st. map_of (ev st) event_id \<noteq> None) [ONGOING, DONE, NOT_FOUND]"

definition update_event_status :: "string \<Rightarrow> event_status \<Rightarrow> event_manager \<Rightarrow> (unit, event_manager) outcome" where
  "update_event_status event_id status ev =
     (case find_status event_id ev of
        None \<Rightarrow> (Inl KeyError, ev)
      | Some st \<Rightarrow>
          (let fut = the (map_of (ev st) event_id);
               ev1 = ev(st := dict_del event_id (ev st))
           in (Inr (), ev1(status := dict_set event_id fut (ev1 status)))))"

definition get_event_status :: "string \<Rightarrow> event_manager \<Rightarrow> event_status" where
  "get_event_status event_id ev =
     (case find_status event_id ev of None \<Rightarrow> NOT_FOUND | Some st \<Rightarrow> st)"

definition get_events_count_by_status :: "event_status \<Rightarrow> event_manager \<Rightarrow> nat" where
  "get_events_count_by_status status ev = length (ev status)"

definition get_event_future :: "string \<Rightarrow> event_manager \<Rightarrow> py_error + nat" where
  "get_event_future event_id ev =
     (case map_of (ev DONE) event_id of None \<Rightarrow> Inl AssertionError | Some fut \<Rightarrow> Inr fut)"

section \<open>Lookup and prefetch\<close>

text \<open>
  A load task asks one tier for its part of the keys; lt_cum is the slice of the cumulative token
  counts the tier gets. lt_expected is the tier's entry of tier_expected_chunks.
\<close>

record load_task =
  lt_backend :: string
  lt_keys :: "cache_engine_key list"
  lt_expected :: nat
  lt_cum :: "nat list"

text \<open>The callback's arguments, kept with the future all_done until the tasks have finished.\<close>

record pending_load =
  pl_lookup_id :: string
  pl_cum_chunk_lengths :: "nat list"
  pl_tasks :: "load_task list"

type_synonym loaded = "(cache_engine_key \<times> nat) list list"

text \<open>ld_server says that there is an async_lookup_server; ld_responses is what it has sent.\<close>

record async_loads =
  ld_events :: event_manager
  ld_pending :: "(nat, pending_load) dict"
  ld_results :: "(nat, py_error + loaded) dict"
  ld_next :: nat
  ld_server :: bool
  ld_responses :: "(string \<times> nat) list"

text \<open>
  The loop over the tiers; ready says that the async serializer exists. Once all keys are found the
  loop stops.
\<close>

fun plan_tiers :: "bool \<Rightarrow> (string \<times> 's backend) list \<Rightarrow> string \<Rightarrow> nat \<Rightarrow> nat \<Rightarrow> cache_engine_key list
    \<Rightarrow> nat list \<Rightarrow> bool \<Rightarrow> load_task list \<Rightarrow> 's \<Rightarrow> (nat \<times> load_task list, 's) outcome" where
  "plan_tiers ready [] lookup_id n_keys hits keys cum pin_it tasks s = (Inr (hits, tasks), s)"
| "plan_tiers ready ((name, b) # tiers) lookup_id n_keys hits keys cum pin_it tasks s =
     (case be_batched_async_contains b lookup_id keys pin_it s of
        (n, s1) \<Rightarrow>
          if n = 0 then plan_tiers ready tiers lookup_id n_keys hits keys cum pin_it tasks s1
          else if \<not> ready then (Inl AssertionError, s1)
          else let tasks1 = tasks @ [\<lparr>lt_backend = name, lt_keys = take n keys, lt_expected = n,
                                      lt_cum = take (n + 1) cum\<rparr>]
               in if hits + n = n_keys then (Inr (hits + n, tasks1), s1)
                  else plan_tiers ready tiers lookup_id n_keys (hits + n) (drop n keys) (drop n cum) pin_it tasks1 s1)"

definition sm_async_lookup_and_prefetch :: "bool \<Rightarrow> string \<Rightarrow> cache_engine_key list \<Rightarrow> nat list
    \<Rightarrow> string list option \<Rightarrow> bool \<Rightarrow> 's tier_manager \<Rightarrow> async_loads \<times> 's
    \<Rightarrow> (unit, async_loads \<times> 's) outcome" where
  "sm_async_lookup_and_prefetch ready lookup_id keys cum search_range pin_it m = (\<lambda>(ld, s).
     case plan_tiers ready (get_active_storage_backends None search_range m) lookup_id (length keys) 0 keys cum
            pin_it [] s of
       (Inl e, s1) \<Rightarrow> (Inl e, (ld, s1))
     | (Inr (hits, tasks), s1) \<Rightarrow>
         if hits = 0
         then (Inr (), (if ld_server ld then ld\<lparr>ld_responses := ld_responses ld @ [(lookup_id, 0)]\<rparr> else ld, s1))
         else (Inr (), (ld\<lparr>ld_pending := dict_set (ld_next ld)
                             \<lparr>pl_lookup_id = lookup_id, pl_cum_chunk_lengths = cum, pl_tasks = tasks\<rparr> (ld_pending ld),
                           ld_events := add_event lookup_id (ld_next ld) (ld_events ld),
                           ld_next := ld_next ld + 1\<rparr>, s1)))"

text \<open>The engine hands the chunks of the request on.\<close>

definition engine_async_lookup :: "bool \<Rightarrow> string \<Rightarrow> (nat \<times> nat \<times> cache_engine_key) list
    \<Rightarrow> string list option \<Rightarrow> bool \<Rightarrow> 's tier_manager \<Rightarrow> async_loads \<times> 's
    \<Rightarrow> (unit, async_loads \<times> 's) outcome" where
  "engine_async_lookup ready lookup_id infos search_range pin_it m st =
     sm_async_lookup_and_prefetch ready lookup_id (map (\<lambda>(beg, stop, key). key) infos)
       (0 # map (\<lambda>(beg, stop, key). stop) infos) search_range pin_it m st"

section \<open>The loads finish\<close>

text \<open>
  gather raises what a task raised, and gather_with_keys pairs the keys of each tier with its
  objects. The outcomes of the tasks are given.
\<close>

fun gather :: "(py_error + nat list) list \<Rightarrow> py_error + nat list list" where
  "gather [] = Inr []"
| "gather (Inl e # rs) = Inl e"
| "gather (Inr r # rs) = map_sum id ((#) r) (gather rs)"

definition gather_with_keys :: "load_task list \<Rightarrow> (py_error + nat list) list \<Rightarrow> py_error + loaded" where
  "gather_with_keys tasks outcomes =
     map_sum id (\<lambda>results. map (\<lambda>(ks, rs). zip ks rs) (zip (map lt_keys tasks) results)) (gather outcomes)"

text \<open>
  The callback calls ref_count_down on every item of the tiers behind a short one. An item may be a
  memory object or, as gather_with_keys makes them, a pair, and a tuple has no such method. down is
  ref_count_down of a memory object.
\<close>

datatype loaded_item = Obj nat | Pair cache_engine_key nat

fun item_ref_count_down :: "(nat \<Rightarrow> 's \<Rightarrow> (unit, 's) outcome) \<Rightarrow> loaded_item \<Rightarrow> 's \<Rightarrow> (unit, 's) outcome" where
  "item_ref_count_down down (Obj r) s = down r s"
| "item_ref_count_down down (Pair key r) s = (Inl AttributeError, s)"

fun each_item :: "('i \<Rightarrow> 's \<Rightarrow> (unit, 's) outcome) \<Rightarrow> 'i list \<Rightarrow> 's \<Rightarrow> (unit, 's) outcome" where
  "each_item f [] s = (Inr (), s)"
| "each_item f (i # is) s =
     (case f i s of
        (Inl e, s1) \<Rightarrow> (Inl e, s1)
      | (Inr _, s1) \<Rightarrow> each_item f is s1)"

fun count_retrieved :: "(nat \<Rightarrow> 's \<Rightarrow> (unit, 's) outcome) \<Rightarrow> loaded_item list list \<Rightarrow> nat list \<Rightarrow> nat
    \<Rightarrow> 's \<Rightarrow> (nat, 's) outcome" where
  "count_retrieved down [] expected retrieved s = (Inr retrieved, s)"
| "count_retrieved down (tier # tiers) [] retrieved s = (Inl IndexError, s)"
| "count_retrieved down (tier # tiers) (e # expected) retrieved s =
     (if length tier < e
      then (case each_item (item_ref_count_down down) (concat tiers) s of
              (Inl err, s1) \<Rightarrow> (Inl err, s1)
            | (Inr _, s1) \<Rightarrow> (Inr (retrieved + length tier), s1))
      else count_retrieved down tiers expected (retrieved + length tier) s)"

definition prefetch_all_done_callback :: "(nat \<Rightarrow> 's \<Rightarrow> (unit, 's) outcome) \<Rightarrow> py_error + loaded_item list list
    \<Rightarrow> string \<Rightarrow> nat list \<Rightarrow> nat list \<Rightarrow> async_loads \<times> 's \<Rightarrow> (unit, async_loads \<times> 's) outcome" where
  "prefetch_all_done_callback down result lookup_id cum expected = (\<lambda>(ld, s).
     if \<not> ld_server ld then (Inl AssertionError, (ld, s))
     else case update_event_status lookup_id DONE (ld_events ld) of
            (Inl e, ev) \<Rightarrow> (Inl e, (ld\<lparr>ld_events := ev\<rparr>, s))
          | (Inr _, ev) \<Rightarrow>
              (let ld1 = ld\<lparr>ld_events := ev\<rparr> in
               case result of
                 Inl e \<Rightarrow> (Inl e, (ld1, s))
               | Inr tiers \<Rightarrow>
                   (case count_retrieved down tiers expected 0 s of
                      (Inl e, s1) \<Rightarrow> (Inl e, (ld1, s1))
                    | (Inr n, s1) \<Rightarrow>
                        if length cum \<le> n then (Inl IndexError, (ld1, s1))
                        else (Inr (), (ld1\<lparr>ld_responses := ld_responses ld1 @ [(lookup_id, cum ! n)]\<rparr>, s1)))))"

text \<open>
  All tasks of a future have finished: the future gets its value, then the callback runs. What the
  callback raises goes to the event loop's handler, which logs it.
\<close>

definition loads_finish :: "(nat \<Rightarrow> 's \<Rightarrow> (unit, 's) outcome) \<Rightarrow> nat \<Rightarrow> (py_error + nat list) list
    \<Rightarrow> async_loads \<times> 's \<Rightarrow> (unit, async_loads \<times> 's) outcome" where
  "loads_finish down fut outcomes = (\<lambda>(ld, s).
     case map_of (ld_pending ld) fut of
       None \<Rightarrow> (Inl KeyError, (ld, s))
     | Some p \<Rightarrow>
         (let result = gather_with_keys (pl_tasks p) outcomes;
              ld1 = ld\<lparr>ld_pending := dict_del fut (ld_pending ld), ld_results := dict_set fut result (ld_results ld)\<rparr>
          in prefetch_all_done_callback down (map_sum id (map (map (\<lambda>(key, r). Pair key r))) result)
               (pl_lookup_id p) (pl_cum_chunk_lengths p) (map lt_expected (pl_tasks p)) (ld1, s)))"

section \<open>The engine takes the objects and gives them back\<close>

definition memory_obj_map :: "loaded \<Rightarrow> (cache_engine_key, nat) dict" where
  "memory_obj_map keyed = fold (\<lambda>(key, r). dict_set key r) (concat keyed) []"

type_synonym processed_chunk = "cache_engine_key \<times> nat \<times> nat \<times> nat"

fun take_loaded :: "(cache_engine_key, nat) dict \<Rightarrow> (nat \<times> nat \<times> cache_engine_key) list \<Rightarrow> processed_chunk list" where
  "take_loaded d [] = []"
| "take_loaded d ((beg, stop, key) # infos) =
     (case map_of d key of
        None \<Rightarrow> []
      | Some r \<Rightarrow> (key, r, beg, stop) # take_loaded d infos)"

text \<open>ret_mask[beg:stop] = v\<close>

definition set_mask :: "nat \<Rightarrow> nat \<Rightarrow> bool \<Rightarrow> bool list \<Rightarrow> bool list" where
  "set_mask beg stop v ret_mask = map (\<lambda>i. if beg \<le> i \<and> i < stop then v else ret_mask ! i) [0 ..< length ret_mask]"

definition mark_chunks :: "processed_chunk list \<Rightarrow> bool list \<Rightarrow> bool list" where
  "mark_chunks chunks ret_mask = fold (\<lambda>(key, r, beg, stop). set_mask beg stop True) chunks ret_mask"

text \<open>
  The engine decodes the objects of the chunks it takes, for a request of the base form; otherwise it
  keeps them. The decoding of one object is an argument.
\<close>

definition keep_obj :: "nat \<Rightarrow> 's \<Rightarrow> (nat, 's) outcome" where
  "keep_obj r s = (Inr r, s)"

fun decode_chunks :: "(nat \<Rightarrow> 's \<Rightarrow> (nat, 's) outcome) \<Rightarrow> processed_chunk list \<Rightarrow> 's
    \<Rightarrow> (processed_chunk list, 's) outcome" where
  "decode_chunks dec [] s = (Inr [], s)"
| "decode_chunks dec ((key, r, beg, stop) # chunks) s =
     (case dec r s of
        (Inl e, s1) \<Rightarrow> (Inl e, s1)
      | (Inr r', s1) \<Rightarrow>
          (case decode_chunks dec chunks s1 of
             (Inl e, s2) \<Rightarrow> (Inl e, s2)
           | (Inr decoded, s2) \<Rightarrow> (Inr ((key, r', beg, stop) # decoded), s2)))"

lemma decode_keep [simp]: "decode_chunks keep_obj chunks s = (Inr chunks, s)"
  by (induction chunks) (auto simp: keep_obj_def)

text \<open>
  infos is what the token database yields for the tokens under the mask of the request, get_size is
  that of an object. An exception of the future is logged and nothing is returned.
\<close>

definition async_process_tokens :: "(nat \<Rightarrow> 's \<Rightarrow> (nat, 's) outcome) \<Rightarrow> (nat \<Rightarrow> 's \<Rightarrow> (unit, 's) outcome)
    \<Rightarrow> (nat \<Rightarrow> int) \<Rightarrow> string \<Rightarrow> (nat \<times> nat \<times> cache_engine_key) list \<Rightarrow> bool list \<Rightarrow> async_loads \<times> 's
    \<Rightarrow> (processed_chunk list \<times> int \<times> bool list, async_loads \<times> 's) outcome" where
  "async_process_tokens dec down get_size req_id infos ret_mask = (\<lambda>(ld, s).
     case get_event_future req_id (ld_events ld) of
       Inl e \<Rightarrow> (Inl e, (ld, s))
     | Inr fut \<Rightarrow>
         (case map_of (ld_results ld) fut of
            Some (Inr keyed) \<Rightarrow>
              (let d = memory_obj_map keyed;
                   chunks = take_loaded d infos;
                   used = map fst chunks;
                   unused = filter (\<lambda>(key, r). key \<notin> set used) d
               in case decode_chunks dec chunks s of
                    (Inl e, s1) \<Rightarrow> (Inl e, (ld, s1))
                  | (Inr decoded, s1) \<Rightarrow>
                      (case each_item (\<lambda>(key, r). down r) unused s1 of
                         (Inl e, s2) \<Rightarrow> (Inl e, (ld, s2))
                       | (Inr _, s2) \<Rightarrow>
                           (Inr (decoded, sum_list (map (\<lambda>(key, r, beg, stop). get_size r) chunks),
                                 mark_chunks chunks ret_mask), (ld, s2))))
          | _ \<Rightarrow> (Inr ([], 0, ret_mask), (ld, s))))"

text \<open>An error while one object is released is logged, and the next one follows.\<close>

fun give_back :: "(nat \<Rightarrow> 's \<Rightarrow> (bool, 's) outcome) \<Rightarrow> (nat \<Rightarrow> 's \<Rightarrow> (unit, 's) outcome)
    \<Rightarrow> (cache_engine_key \<times> nat) list \<Rightarrow> 's \<Rightarrow> 's" where
  "give_back unpin_it down [] s = s"
| "give_back unpin_it down ((key, r) # items) s =
     (case unpin_it r s of
        (Inl e, s1) \<Rightarrow> give_back unpin_it down items s1
      | (Inr _, s1) \<Rightarrow> give_back unpin_it down items (snd (down r s1)))"

definition cleanup_memory_objs :: "(nat \<Rightarrow> 's \<Rightarrow> (bool, 's) outcome) \<Rightarrow> (nat \<Rightarrow> 's \<Rightarrow> (unit, 's) outcome)
    \<Rightarrow> string \<Rightarrow> async_loads \<times> 's \<Rightarrow> async_loads \<times> 's" where
  "cleanup_memory_objs unpin_it down lookup_id = (\<lambda>(ld, s).
     if get_event_status lookup_id (ld_events ld) \<noteq> DONE then (ld, s)
     else case pop_event lookup_id (ld_events ld) of
            (Inl e, ev) \<Rightarrow> (ld\<lparr>ld_events := ev\<rparr>, s)
          | (Inr fut, ev) \<Rightarrow>
              (ld\<lparr>ld_events := ev\<rparr>,
               case map_of (ld_results ld) fut of
                 Some (Inr keyed) \<Rightarrow> give_back unpin_it down (concat keyed) s
               | _ \<Rightarrow> s))"

text \<open>
  lookup_pins maps a lookup to the keys it pinned in each location. The engine's flag async_loading
  is a boolean, never None, so it is not a guard.
\<close>

type_synonym lookup_pins = "(string, (string, cache_engine_key list) dict) dict"

definition lookup_unpin :: "(nat \<Rightarrow> 's \<Rightarrow> (bool, 's) outcome) \<Rightarrow> (nat \<Rightarrow> 's \<Rightarrow> (unit, 's) outcome)
    \<Rightarrow> 's tier_manager \<Rightarrow> string \<Rightarrow> lookup_pins \<times> async_loads \<times> 's
    \<Rightarrow> (unit, lookup_pins \<times> async_loads \<times> 's) outcome" where
  "lookup_unpin unpin_it down m lookup_id = (\<lambda>(pins, ld, s).
     case map_of pins lookup_id of
       Some locations \<Rightarrow>
         (case each_item (\<lambda>(location, keys). tm_batched_unpin keys (Some [location]) m) locations s of
            (r, s1) \<Rightarrow> (r, (dict_del lookup_id pins, ld, s1)))
     | None \<Rightarrow>
         (Inr (), (pins, if get_event_status lookup_id (ld_events ld) \<noteq> NOT_FOUND
                         then cleanup_memory_objs unpin_it down lookup_id (ld, s) else (ld, s))))"

section \<open>The plan\<close>

lemma plan_tiers_spec:
  assumes "\<forall>(name, b) \<in> set tiers. \<forall>ks s. fst (be_batched_async_contains b lookup_id ks pin_it s) \<le> length ks"
    and "plan_tiers ready tiers lookup_id n_keys hits keys cum pin_it tasks s = (Inr (hits', tasks'), s')"
  shows "\<exists>new. tasks' = tasks @ new \<and> hits' = hits + sum_list (map lt_expected new) \<and>
    (\<forall>t \<in> set new. lt_expected t = length (lt_keys t)) \<and>
    hits' \<le> hits + length keys \<and> concat (map lt_keys new) = take (hits' - hits) keys"
  using assms
proof (induction tiers arbitrary: hits keys cum tasks s)
  case Nil
  then show ?case by (intro exI [of _ "[]"]) simp
next
  case (Cons t tiers)
  obtain name b where t: "t = (name, b)" by (cases t)
  obtain n s1 where n: "be_batched_async_contains b lookup_id keys pin_it s = (n, s1)" by fastforce
  have "\<forall>ks s. fst (be_batched_async_contains b lookup_id ks pin_it s) \<le> length ks"
    using Cons.prems(1) by (simp add: t)
  from spec [OF spec [OF this, of keys], of s] have le: "n \<le> length keys" by (simp add: n)
  have tiers: "\<forall>(name, b) \<in> set tiers. \<forall>ks s. fst (be_batched_async_contains b lookup_id ks pin_it s) \<le> length ks"
    using Cons.prems(1) by simp
  let ?task = "\<lparr>lt_backend = name, lt_keys = take n keys, lt_expected = n, lt_cum = take (n + 1) cum\<rparr>"
  show ?case
  proof (cases "n = 0")
    case True
    then show ?thesis using Cons.IH [OF tiers] Cons.prems(2) n by (simp add: t)
  next
    case False
    then have ready: "ready" using Cons.prems(2) n by (auto simp: t split: if_splits)
    show ?thesis
    proof (cases "hits + n = n_keys")
      case True
      then have "hits' = hits + n" "tasks' = tasks @ [?task]"
        using Cons.prems(2) n False ready by (simp_all add: t Let_def)
      then show ?thesis using le by (intro exI [of _ "[?task]"]) simp
    next
      case more: False
      then have "plan_tiers ready tiers lookup_id n_keys (hits + n) (drop n keys) (drop n cum) pin_it
          (tasks @ [?task]) s1 = (Inr (hits', tasks'), s')"
        using Cons.prems(2) n False ready by (simp add: t Let_def)
      from Cons.IH [OF tiers this] obtain new where
        new: "tasks' = (tasks @ [?task]) @ new" "hits' = hits + n + sum_list (map lt_expected new)"
          "\<forall>t \<in> set new. lt_expected t = length (lt_keys t)" "hits' \<le> hits + n + length (drop n keys)"
          "concat (map lt_keys new) = take (hits' - (hits + n)) (drop n keys)" by blast
      have "take n keys @ take (hits' - (hits + n)) (drop n keys) = take (hits' - hits) keys"
        using new(2) by (simp flip: take_add)
      then show ?thesis using new le by (intro exI [of _ "?task # new"]) simp
    qed
  qed
qed

section \<open>Counting what was loaded\<close>

text \<open>
  One flag for each chunk asked for, in order: a tier delivers a prefix of its part.
\<close>

definition loaded_flags :: "nat list \<Rightarrow> 'i list list \<Rightarrow> bool list" where
  "loaded_flags expected tiers =
     concat (map2 (\<lambda>e rs. replicate (length rs) True @ replicate (e - length rs) False) expected tiers)"

text \<open>No chunk was delivered by a tier behind a tier that came short.\<close>

fun nothing_behind_short :: "nat list \<Rightarrow> 'i list list \<Rightarrow> bool" where
  "nothing_behind_short (e # expected) (tier # tiers) \<longleftrightarrow>
     (if length tier < e then concat tiers = [] else nothing_behind_short expected tiers)"
| "nothing_behind_short expected tiers \<longleftrightarrow> True"

lemma takeWhile_replicate: "takeWhile id (replicate a True @ xs) = replicate a True @ takeWhile id xs"
  by (induction a) simp_all

lemma count_retrieved_pairs:
  assumes "list_all2 (\<lambda>e tier. length tier \<le> e) expected tiers"
  shows "count_retrieved down (map (map (\<lambda>(key, r). Pair key r)) tiers) expected n s =
    (if nothing_behind_short expected tiers then Inr (n + length (takeWhile id (loaded_flags expected tiers)))
     else Inl AttributeError, s)"
  using assms
proof (induction arbitrary: n rule: list_all2_induct)
  case (Cons e expected tier tiers)
  show ?case
  proof (cases "length tier < e")
    case True
    then obtain j where "e = length tier + Suc j" using less_imp_Suc_add by fastforce
    then have flags: "takeWhile id (loaded_flags (e # expected) (tier # tiers)) = replicate (length tier) True"
      by (simp add: loaded_flags_def takeWhile_replicate del: replicate.simps(2) replicate_Suc) simp
    have c: "concat (map (map (\<lambda>(key, r). Pair key r)) tiers) = map (\<lambda>(key, r). Pair key r) (concat tiers)"
      by (simp add: map_concat)
    show ?thesis
    proof (cases "concat tiers")
      case Nil
      then show ?thesis
        unfolding flags list.map count_retrieved.simps c nothing_behind_short.simps Nil using True by simp
    next
      case (Cons p ps)
      then show ?thesis by (cases p) (simp add: True c)
    qed
  next
    case False
    then have e: "e = length tier" using Cons.hyps(1) by simp
    have flags: "takeWhile id (loaded_flags (e # expected) (tier # tiers)) =
        replicate (length tier) True @ takeWhile id (loaded_flags expected tiers)"
      by (simp add: loaded_flags_def takeWhile_replicate e)
    show ?thesis unfolding flags using Cons.IH [of "n + length tier"] by (simp add: e)
  qed
qed (simp add: loaded_flags_def)

text \<open>With bare objects, as the unit tests call the callback, a short tier ends the count and the
  objects behind it are released.\<close>

lemma each_item_released:
  assumes "\<forall>r s. fst (down r s) = Inr ()"
  shows "\<exists>s'. each_item (item_ref_count_down down) (map Obj rs) s = (Inr (), s')"
proof (induction rs arbitrary: s)
  case (Cons r rs)
  obtain s1 where "down r s = (Inr (), s1)" using assms by (metis prod.collapse)
  then show ?case using Cons [of s1] by simp
qed simp

lemma count_retrieved_objects:
  assumes "list_all2 (\<lambda>e tier. length tier \<le> e) expected tiers" "\<forall>r s. fst (down r s) = Inr ()"
  shows "\<exists>s'. count_retrieved down (map (map Obj) tiers) expected n s =
    (Inr (n + length (takeWhile id (loaded_flags expected tiers))), s')"
  using assms(1)
proof (induction arbitrary: n rule: list_all2_induct)
  case (Cons e expected tier tiers)
  show ?case
  proof (cases "length tier < e")
    case True
    then obtain j where "e = length tier + Suc j" using less_imp_Suc_add by fastforce
    then have flags: "takeWhile id (loaded_flags (e # expected) (tier # tiers)) = replicate (length tier) True"
      by (simp add: loaded_flags_def takeWhile_replicate del: replicate.simps(2) replicate_Suc) simp
    show ?thesis unfolding flags using each_item_released [OF assms(2), of "concat tiers" s] True
      by (auto simp: map_concat)
  next
    case False
    then have e: "e = length tier" using Cons.hyps(1) by simp
    have flags: "takeWhile id (loaded_flags (e # expected) (tier # tiers)) =
        replicate (length tier) True @ takeWhile id (loaded_flags expected tiers)"
      by (simp add: loaded_flags_def takeWhile_replicate e)
    show ?thesis unfolding flags using Cons.IH [of "n + length tier"] by (simp add: e add.assoc id_def)
  qed
qed (simp add: loaded_flags_def)

lemma loaded_flags_bound:
  "list_all2 (\<lambda>e tier. length tier \<le> e) expected tiers \<Longrightarrow> length (loaded_flags expected tiers) = sum_list expected"
  by (induction rule: list_all2_induct) (simp_all add: loaded_flags_def)

lemma same_lengths:
  assumes "map length ts = map length (us :: 'j list list)"
  shows "loaded_flags es ts = loaded_flags es us \<and> nothing_behind_short es ts = nothing_behind_short es us"
  using assms
proof (induction es arbitrary: ts us)
  case (Cons e es)
  show ?case
  proof (cases ts)
    case Nil
    then show ?thesis using Cons.prems by (simp add: loaded_flags_def)
  next
    case ts: (Cons t ts')
    then obtain u us' where us: "us = u # us'" "length t = length u" "map length ts' = map length us'"
      using Cons.prems by (cases us) auto
    have "concat ts' = [] \<longleftrightarrow> concat us' = []" using us(3) by (metis length_0_conv length_concat)
    then show ?thesis using Cons.IH [OF us(3)] by (simp only: ts us nothing_behind_short.simps) (simp add: loaded_flags_def us)
  qed
qed (simp add: loaded_flags_def)

lemma gather_ok [simp]: "gather (map Inr rss) = Inr rss"
  by (induction rss) simp_all

lemma gather_error: "Inl e \<in> set outcomes \<Longrightarrow> \<exists>e'. gather outcomes = Inl e'"
  by (induction outcomes rule: gather.induct) auto

lemma update_event_status_ok:
  assumes "find_status i ev = Some st"
  shows "\<exists>ev'. update_event_status i DONE ev = (Inr (), ev') \<and> get_event_status i ev' = DONE"
  using assms
  by (auto simp: find_status_def update_event_status_def get_event_status_def Let_def dict_simps
      split: if_splits)

section \<open>References\<close>

text \<open>ref_count_down and unpin of an object of the CPU backend's pool.\<close>

definition lcb_down :: "env \<Rightarrow> nat \<Rightarrow> local_cpu_backend \<Rightarrow> (unit, local_cpu_backend) outcome" where
  "lcb_down E r b = (case mo_ref_count_down E r (lcb_mem b) of (res, st) \<Rightarrow> (res, b\<lparr>lcb_mem := st\<rparr>))"

definition lcb_obj_unpin :: "env \<Rightarrow> nat \<Rightarrow> local_cpu_backend \<Rightarrow> (bool, local_cpu_backend) outcome" where
  "lcb_obj_unpin E r b = (case ta_unpin E r (lcb_mem b) of (res, st) \<Rightarrow> (res, b\<lparr>lcb_mem := st\<rparr>))"

lemma inv_down:
  assumes "sorted_list_ok E" "lcb_inv k H b" "0 < H r"
  shows "\<exists>b'. lcb_down E r b = (Inr (), b') \<and> lcb_inv k (H(r := H r - 1)) b'"
  using inv_release [OF assms] by (auto simp: lcb_down_def)

lemma inv_obj_unpin:
  assumes E: "sorted_list_ok E" and inv: "lcb_inv k H b" and held: "0 < H r"
  shows "\<exists>b'. lcb_obj_unpin E r b = (Inr True, b') \<and> lcb_inv k H b'"
proof -
  have "mem_counted k (\<lambda>q. H q + uses q (hot_cache b)) (lcb_mem b)" using inv by (simp add: lcb_inv_def)
  from counted_unpin [OF E this, of r] held obtain st where
    "ta_unpin E r (lcb_mem b) = (Inr True, st)" "mem_counted k (\<lambda>q. H q + uses q (hot_cache b)) st" by auto
  then show ?thesis using inv by (simp add: lcb_obj_unpin_def lcb_inv_def)
qed

abbreviation refs_of :: "(cache_engine_key \<times> nat) list \<Rightarrow> nat \<Rightarrow> nat" where
  "refs_of items r \<equiv> count_list (map snd items) r"

lemma release_items:
  assumes E: "sorted_list_ok E"
  shows "lcb_inv k H b \<Longrightarrow> \<forall>r. refs_of items r \<le> H r \<Longrightarrow>
    \<exists>b'. each_item (\<lambda>(key, r). lcb_down E r) items b = (Inr (), b') \<and>
      lcb_inv k (\<lambda>r. H r - refs_of items r) b'"
proof (induction items arbitrary: H b)
  case (Cons i items)
  obtain key r where i: "i = (key, r)" by (cases i)
  have "Suc 0 \<le> H r" using spec [OF Cons.prems(2), of r] by (simp add: i)
  then obtain b1 where b1: "lcb_down E r b = (Inr (), b1)" "lcb_inv k (H(r := H r - 1)) b1"
    using inv_down [OF E Cons.prems(1), of r] by auto
  have "\<forall>q. refs_of items q \<le> (H(r := H r - 1)) q"
  proof
    fix q show "refs_of items q \<le> (H(r := H r - 1)) q"
      using spec [OF Cons.prems(2), of q] by (auto simp: i split: if_splits)
  qed
  from Cons.IH [OF b1(2) this] obtain b' where
    b': "each_item (\<lambda>(key, r). lcb_down E r) items b1 = (Inr (), b')"
    "lcb_inv k (\<lambda>q. (H(r := H r - 1)) q - refs_of items q) b'" by blast
  moreover have "(\<lambda>q. (H(r := H r - 1)) q - refs_of items q) = (\<lambda>q. H q - refs_of (i # items) q)"
    by (auto simp: fun_eq_iff i)
  ultimately show ?case using b1(1) by (simp add: i)
qed simp

lemma give_back_items:
  assumes E: "sorted_list_ok E"
  shows "lcb_inv k H b \<Longrightarrow> \<forall>r. refs_of items r \<le> H r \<Longrightarrow>
    lcb_inv k (\<lambda>r. H r - refs_of items r) (give_back (lcb_obj_unpin E) (lcb_down E) items b)"
proof (induction items arbitrary: H b)
  case (Cons i items)
  obtain key r where i: "i = (key, r)" by (cases i)
  have pos: "0 < H r" using spec [OF Cons.prems(2), of r] by (simp add: i)
  obtain b1 where b1: "lcb_obj_unpin E r b = (Inr True, b1)" "lcb_inv k H b1"
    using inv_obj_unpin [OF E Cons.prems(1) pos] by blast
  obtain b2 where b2: "lcb_down E r b1 = (Inr (), b2)" "lcb_inv k (H(r := H r - 1)) b2"
    using inv_down [OF E b1(2) pos] by blast
  have "\<forall>q. refs_of items q \<le> (H(r := H r - 1)) q"
  proof
    fix q show "refs_of items q \<le> (H(r := H r - 1)) q"
      using spec [OF Cons.prems(2), of q] by (auto simp: i split: if_splits)
  qed
  from Cons.IH [OF b2(2) this]
  have "lcb_inv k (\<lambda>q. (H(r := H r - 1)) q - refs_of items q) (give_back (lcb_obj_unpin E) (lcb_down E) items b2)" .
  moreover have "(\<lambda>q. (H(r := H r - 1)) q - refs_of items q) = (\<lambda>q. H q - refs_of (i # items) q)"
    by (auto simp: fun_eq_iff i)
  ultimately show ?case using b1(1) b2(1) by (simp add: i)
qed simp

lemma memory_obj_map_distinct:
  assumes "distinct (map fst (concat keyed))"
  shows "memory_obj_map keyed = concat keyed"
proof -
  have "fold (\<lambda>(key, r). dict_set key r) items d = d @ items"
    if "distinct (map fst (d @ items))" for items :: "(cache_engine_key \<times> nat) list" and d
    using that
  proof (induction items arbitrary: d)
    case (Cons i items)
    obtain key r where i: "i = (key, r)" by (cases i)
    have "map_of d key = None" using Cons.prems by (auto simp: i map_of_eq_None_iff)
    then show ?case using Cons.IH [of "d @ [i]"] Cons.prems by (simp add: i dict_set_new)
  qed simp
  from this [of "[]"] assms show ?thesis by (simp add: memory_obj_map_def)
qed

section \<open>Properties\<close>

text \<open>C24: The scheduler is told the tokens of the loaded prefix, or nothing. When a lookup has
  started loads for the leading keys, and the tiers have delivered their prefixes, the event is done;
  if no chunk came from a tier behind one that was short, the answer is the end of the last chunk
  before the first one that is missing; if one did, the callback raises AttributeError and no answer
  is sent. The second case is not what the code means to do: the comment in
  prefetch_all_done_callback (its cases 2 and 3) and the tests test_middle_tier_partial_retrieval
  and test_first_tier_partial_retrieval want the answer of the loaded prefix there too. The tests
  hand the callback bare memory objects, whereas gather_with_keys hands it pairs of a key and an
  object; on bare objects (whose release does not raise) the callback does answer with the loaded
  prefix in every case, which is the last part of the theorem.\<close>

theorem answer_is_the_loaded_prefix:
  assumes tiers: "\<forall>(name, b) \<in> set (get_active_storage_backends None search_range m). \<forall>ks s.
      fst (be_batched_async_contains b lookup_id ks pin_it s) \<le> length ks"
    and call: "engine_async_lookup ready lookup_id infos search_range pin_it m (ld, s) = (Inr (), (ld1, s1))"
    and started: "ld_next ld1 \<noteq> ld_next ld" and server: "ld_server ld"
  shows "\<exists>p hits. map_of (ld_pending ld1) (ld_next ld) = Some p \<and> 0 < hits \<and> hits \<le> length infos \<and>
    concat (map lt_keys (pl_tasks p)) = take hits (map (\<lambda>(beg, stop, key). key) infos) \<and>
    (\<forall>rss. list_all2 (\<lambda>t rs. length rs \<le> length (lt_keys t)) (pl_tasks p) rss \<longrightarrow>
      (let expected = map lt_expected (pl_tasks p);
           n = length (takeWhile id (loaded_flags expected rss));
           ok = nothing_behind_short expected rss
       in n \<le> hits \<and>
          (\<exists>ld2. loads_finish down (ld_next ld) (map Inr rss) (ld1, s2) =
              (if ok then Inr () else Inl AttributeError, (ld2, s2)) \<and>
            get_event_status lookup_id (ld_events ld2) = DONE \<and>
            ld_responses ld2 = ld_responses ld @
              (if ok then [(lookup_id, (0 # map (\<lambda>(beg, stop, key). stop) infos) ! n)] else [])) \<and>
          ((\<forall>r s. fst (down r s) = Inr ()) \<longrightarrow>
            (\<exists>ld2 s3. prefetch_all_done_callback down (Inr (map (map Obj) rss)) lookup_id (pl_cum_chunk_lengths p)
                expected (ld1, s2) = (Inr (), (ld2, s3)) \<and>
              get_event_status lookup_id (ld_events ld2) = DONE \<and>
              ld_responses ld2 = ld_responses ld @ [(lookup_id, (0 # map (\<lambda>(beg, stop, key). stop) infos) ! n)]))))"
proof -
  let ?keys = "map (\<lambda>(beg, stop, key). key) infos" and ?cum = "0 # map (\<lambda>(beg, stop, key). stop) infos"
  obtain hits tasks where plan: "plan_tiers ready (get_active_storage_backends None search_range m) lookup_id
      (length ?keys) 0 ?keys ?cum pin_it [] s = (Inr (hits, tasks), s1)" and pos: "hits \<noteq> 0"
    and ld1: "ld1 = ld\<lparr>ld_pending := dict_set (ld_next ld)
        \<lparr>pl_lookup_id = lookup_id, pl_cum_chunk_lengths = ?cum, pl_tasks = tasks\<rparr> (ld_pending ld),
      ld_events := add_event lookup_id (ld_next ld) (ld_events ld), ld_next := ld_next ld + 1\<rparr>"
    using call started
    by (auto simp: engine_async_lookup_def sm_async_lookup_and_prefetch_def split: prod.splits sum.splits if_splits)
  let ?p = "\<lparr>pl_lookup_id = lookup_id, pl_cum_chunk_lengths = ?cum, pl_tasks = tasks\<rparr>"
  have p: "map_of (ld_pending ld1) (ld_next ld) = Some ?p" by (simp add: ld1 dict_simps)
  have sum: "hits = sum_list (map lt_expected tasks)" and ex: "\<forall>t \<in> set tasks. lt_expected t = length (lt_keys t)"
    and le: "hits \<le> length infos" and keys: "concat (map lt_keys tasks) = take hits ?keys"
    using plan_tiers_spec [OF tiers plan] by auto
  have ev: "find_status lookup_id (ld_events ld1) = Some ONGOING"
    by (simp add: find_status_def ld1 add_event_def dict_simps)
  obtain ev' where upd: "update_event_status lookup_id DONE (ld_events ld1) = (Inr (), ev')"
    "get_event_status lookup_id ev' = DONE" using update_event_status_ok [OF ev] by blast
  have finish: "let expected = map lt_expected tasks;
           n = length (takeWhile id (loaded_flags expected rss));
           ok = nothing_behind_short expected rss
       in n \<le> hits \<and>
          (\<exists>ld2. loads_finish down (ld_next ld) (map Inr rss) (ld1, s2) =
              (if ok then Inr () else Inl AttributeError, (ld2, s2)) \<and>
            get_event_status lookup_id (ld_events ld2) = DONE \<and>
            ld_responses ld2 = ld_responses ld @ (if ok then [(lookup_id, ?cum ! n)] else [])) \<and>
          ((\<forall>r s. fst (down r s) = Inr ()) \<longrightarrow>
            (\<exists>ld2 s3. prefetch_all_done_callback down (Inr (map (map Obj) rss)) lookup_id ?cum expected (ld1, s2) =
                (Inr (), (ld2, s3)) \<and>
              get_event_status lookup_id (ld_events ld2) = DONE \<and>
              ld_responses ld2 = ld_responses ld @ [(lookup_id, ?cum ! n)]))"
    if shape: "list_all2 (\<lambda>t rs. length rs \<le> length (lt_keys t)) tasks rss" for rss
  proof -
    let ?ex = "map lt_expected tasks"
    define tiers where "tiers = map (\<lambda>(ks, rs). zip ks rs) (zip (map lt_keys tasks) rss)"
    have len: "map length tiers = map length rss" "list_all2 (\<lambda>e tier. length tier \<le> e) ?ex tiers"
      using shape ex unfolding tiers_def by (induction rule: list_all2_induct) auto
    have flags: "loaded_flags ?ex tiers = loaded_flags ?ex rss"
      and behind: "nothing_behind_short ?ex tiers = nothing_behind_short ?ex rss"
      using same_lengths [OF len(1)] by blast+
    let ?n = "length (takeWhile id (loaded_flags ?ex rss))"
    have n: "?n \<le> hits"
      using loaded_flags_bound [OF len(2)] length_takeWhile_le [of id "loaded_flags ?ex rss"] sum by (simp add: flags)
    have cnt: "count_retrieved down (map (map (\<lambda>(key, r). Pair key r)) tiers) ?ex 0 s2 =
        (if nothing_behind_short ?ex rss then Inr ?n else Inl AttributeError, s2)"
      using count_retrieved_pairs [OF len(2), of down 0 s2] by (simp add: flags behind)
    have "gather_with_keys tasks (map Inr rss) = Inr tiers" by (simp add: gather_with_keys_def tiers_def)
    then have pairs: "\<exists>ld2. loads_finish down (ld_next ld) (map Inr rss) (ld1, s2) =
        (if nothing_behind_short ?ex rss then Inr () else Inl AttributeError, (ld2, s2)) \<and>
      get_event_status lookup_id (ld_events ld2) = DONE \<and>
      ld_responses ld2 = ld_responses ld @ (if nothing_behind_short ?ex rss then [(lookup_id, ?cum ! ?n)] else [])"
      using n le cnt upd server
      by (auto simp: Let_def loads_finish_def p prefetch_all_done_callback_def) (auto simp: ld1)
    have bare: "\<exists>ld2 s3. prefetch_all_done_callback down (Inr (map (map Obj) rss)) lookup_id ?cum ?ex (ld1, s2) =
        (Inr (), (ld2, s3)) \<and> get_event_status lookup_id (ld_events ld2) = DONE \<and>
      ld_responses ld2 = ld_responses ld @ [(lookup_id, ?cum ! ?n)]" if down: "\<forall>r s. fst (down r s) = Inr ()"
    proof -
      have "list_all2 (\<lambda>e tier. length tier \<le> e) ?ex rss"
        using shape ex by (induction rule: list_all2_induct) auto
      from count_retrieved_objects [OF this down, of 0 s2] obtain s3
        where "count_retrieved down (map (map Obj) rss) ?ex 0 s2 = (Inr ?n, s3)" by auto
      then show ?thesis using n le upd server
        by (auto simp: Let_def prefetch_all_done_callback_def) (auto simp: ld1)
    qed
    show ?thesis unfolding Let_def using n pairs bare by blast
  qed
  show ?thesis
    by (rule exI [of _ ?p], rule exI [of _ hits]) (use p pos le keys finish in simp)
qed

text \<open>C25: A retrieval and the release after it give back every loaded object once, and a second time
  when the retrieval did not use it. If the callers of the CPU backend hold that many references,
  the counts are exact afterwards; so the loads are balanced exactly when every object is used.\<close>

theorem unused_objects_are_released_twice:
  assumes E: "sorted_list_ok E" and inv: "lcb_inv k H b"
    and event: "map_of (ld_events ld DONE) req_id = Some fut" "map_of (ld_events ld ONGOING) req_id = None"
    and result: "map_of (ld_results ld) fut = Some (Inr keyed)" and keys: "distinct (map fst (concat keyed))"
    and pins: "map_of pins req_id = None"
    and unused: "unused = filter (\<lambda>(key, r). key \<notin> set (map fst (take_loaded (concat keyed) infos))) (concat keyed)"
    and enough: "\<forall>r. refs_of unused r + refs_of (concat keyed) r \<le> H r"
  shows "\<exists>total_size mask' b1 ld' b'.
    async_process_tokens keep_obj (lcb_down E) get_size req_id infos ret_mask (ld, b) =
      (Inr (take_loaded (concat keyed) infos, total_size, mask'), (ld, b1)) \<and>
    lookup_unpin (lcb_obj_unpin E) (lcb_down E) m req_id (pins, ld, b1) = (Inr (), (pins, ld', b')) \<and>
    map_of (ld_events ld' DONE) req_id = None \<and>
    lcb_inv k (\<lambda>r. H r - (refs_of unused r + refs_of (concat keyed) r)) b'"
proof -
  have d: "memory_obj_map keyed = concat keyed" using memory_obj_map_distinct [OF keys] .
  have "\<forall>r. refs_of unused r \<le> H r" using enough by (metis add_leD1)
  from release_items [OF E inv this] obtain b1 where b1:
    "each_item (\<lambda>(key, r). lcb_down E r) unused b = (Inr (), b1)"
    "lcb_inv k (\<lambda>r. H r - refs_of unused r) b1" by blast
  have "\<forall>r. refs_of (concat keyed) r \<le> H r - refs_of unused r"
  proof
    fix r
    show "refs_of (concat keyed) r \<le> H r - refs_of unused r" using spec [OF enough, of r] by linarith
  qed
  from give_back_items [OF E b1(2) this]
  have "lcb_inv k (\<lambda>r. H r - (refs_of unused r + refs_of (concat keyed) r))
      (give_back (lcb_obj_unpin E) (lcb_down E) (concat keyed) b1)" by simp
  moreover have "async_process_tokens keep_obj (lcb_down E) get_size req_id infos ret_mask (ld, b) =
      (Inr (take_loaded (concat keyed) infos,
         sum_list (map (\<lambda>(key, r, beg, stop). get_size r) (take_loaded (concat keyed) infos)),
         mark_chunks (take_loaded (concat keyed) infos) ret_mask), (ld, b1))"
    using b1(1) unfolding unused
    by (simp add: async_process_tokens_def get_event_future_def event result d Let_def)
  moreover have "lookup_unpin (lcb_obj_unpin E) (lcb_down E) m req_id (pins, ld, b1) =
      (Inr (), (pins, ld\<lparr>ld_events := (ld_events ld)(DONE := dict_del req_id (ld_events ld DONE))\<rparr>,
         give_back (lcb_obj_unpin E) (lcb_down E) (concat keyed) b1))"
    by (simp add: lookup_unpin_def pins cleanup_memory_objs_def get_event_status_def find_status_def event
        pop_event_def result)
  moreover have "map_of (dict_del req_id (ld_events ld DONE)) req_id = None" by (simp add: dict_simps)
  ultimately show ?thesis by (intro exI conjI) (assumption | simp)+
qed

section \<open>Loads that are never answered\<close>

text \<open>When a task raises, the event is done, the callback raises too and nothing is sent.\<close>

lemma failed_load_is_not_answered:
  assumes "map_of (ld_pending ld) fut = Some p" "ld_server ld"
    and "find_status (pl_lookup_id p) (ld_events ld) = Some st" "Inl e \<in> set outcomes"
  shows "\<exists>e' ld'. loads_finish down fut outcomes (ld, s) = (Inl e', (ld', s)) \<and>
    get_event_status (pl_lookup_id p) (ld_events ld') = DONE \<and> ld_responses ld' = ld_responses ld"
proof -
  obtain e' where g: "gather outcomes = Inl e'" using gather_error [OF assms(4)] by blast
  obtain ev' where "update_event_status (pl_lookup_id p) DONE (ld_events ld) = (Inr (), ev')"
    "get_event_status (pl_lookup_id p) ev' = DONE" using update_event_status_ok [OF assms(3)] by blast
  then show ?thesis
    using assms(1,2) g by (simp add: loads_finish_def prefetch_all_done_callback_def gather_with_keys_def Let_def)
qed

section \<open>Examples\<close>

text \<open>Chunks of ten tokens; the first tier has two of them and the second the next two.\<close>

definition no_loads :: async_loads where
  "no_loads = \<lparr>ld_events = event_manager_init, ld_pending = [], ld_results = [], ld_next = 0,
     ld_server = True, ld_responses = []\<rparr>"

definition sample_infos :: "(nat \<times> nat \<times> cache_engine_key) list" where
  "sample_infos = map (\<lambda>i. (10 * i, 10 * i + 10, tier_key (int i + 1))) [0, 1, 2, 3, 4]"

definition sample_lookup :: "async_loads" where
  "sample_lookup = fst (snd (engine_async_lookup True ''r'' sample_infos None False sample_tiers (no_loads, ())))"

lemma sample_lookup_call:
  "engine_async_lookup True ''r'' sample_infos None False sample_tiers (no_loads, ()) = (Inr (), (sample_lookup, ()))"
proof -
  have "fst (engine_async_lookup True ''r'' sample_infos None False sample_tiers (no_loads, ())) = Inr ()"
    by code_simp
  then show ?thesis unfolding sample_lookup_def by (metis (full_types) old.unit.exhaust prod.collapse)
qed

lemma sample_lookup_pending:
  "map_option (\<lambda>p. map lt_expected (pl_tasks p)) (map_of (ld_pending sample_lookup) 0) = Some [2, 2]"
  "map_option (\<lambda>p. map (length \<circ> lt_keys) (pl_tasks p)) (map_of (ld_pending sample_lookup) 0) = Some [2, 2]"
  by code_simp+

lemma answer_is_the_loaded_prefix_witness:
  "\<exists>ld2. loads_finish (\<lambda>r s. (Inr (), s)) 0 (map Inr [[0, 1], [2]]) (sample_lookup, ()) = (Inr (), (ld2, ())) \<and>
     get_event_status ''r'' (ld_events ld2) = DONE \<and> ld_responses ld2 = [(''r'', 30)]"
proof -
  have tiers: "\<forall>(name, b) \<in> set (get_active_storage_backends None None sample_tiers). \<forall>ks s.
      fst (be_batched_async_contains b ''r'' ks False s) \<le> length ks"
    unfolding sample_tiers_active by (simp add: sample_tier_def default_reads length_takeWhile_le)
  have next_id: "ld_next sample_lookup \<noteq> ld_next no_loads" "ld_server no_loads" by code_simp+
  from answer_is_the_loaded_prefix [OF tiers sample_lookup_call next_id, of "\<lambda>r s. (Inr (), s)" "()"]
  obtain p hits where p: "map_of (ld_pending sample_lookup) (ld_next no_loads) = Some p"
    and all: "\<And>rss. list_all2 (\<lambda>t rs. length rs \<le> length (lt_keys t)) (pl_tasks p) rss \<Longrightarrow>
      (let expected = map lt_expected (pl_tasks p);
           n = length (takeWhile id (loaded_flags expected rss));
           ok = nothing_behind_short expected rss
       in n \<le> hits \<and>
          (\<exists>ld2. loads_finish (\<lambda>r s. (Inr (), s)) (ld_next no_loads) (map Inr rss) (sample_lookup, ()) =
              (if ok then Inr () else Inl AttributeError, (ld2, ())) \<and>
            get_event_status ''r'' (ld_events ld2) = DONE \<and>
            ld_responses ld2 = ld_responses no_loads @
              (if ok then [(''r'', (0 # map (\<lambda>(beg, stop, key). stop) sample_infos) ! n)] else [])))"
    unfolding Let_def by blast
  have z: "ld_next no_loads = 0" "ld_responses no_loads = []" by (simp_all add: no_loads_def)
  have e: "map lt_expected (pl_tasks p) = [2, 2]" "map (length \<circ> lt_keys) (pl_tasks p) = [2, 2]"
    using sample_lookup_pending p by (simp_all add: z)
  then obtain t1 t2 where t: "pl_tasks p = [t1, t2]" "length (lt_keys t1) = 2" "length (lt_keys t2) = 2" by auto
  have flags: "length (takeWhile id (loaded_flags [2, 2] [[0, 1], [2 :: nat]])) = 3" by code_simp
  have ok: "nothing_behind_short [2, 2] [[0, 1], [2 :: nat]]" by code_simp
  have cum: "(0 # map (\<lambda>(beg, stop, key). stop) sample_infos) ! 3 = 30" by (simp add: sample_infos_def)
  have "list_all2 (\<lambda>t rs. length rs \<le> length (lt_keys t)) (pl_tasks p) [[0, 1], [2 :: nat]]" by (simp add: t)
  from all [OF this] show ?thesis unfolding Let_def e(1) flags z cum using ok by auto
qed

text \<open>The first tier comes short, the second does not: the scheduler hears nothing. On bare objects, as in
  test_middle_tier_partial_retrieval and test_first_tier_partial_retrieval, the callback counts
  four and two chunks.\<close>

lemma bare_objects_are_counted:
  "fst (count_retrieved (\<lambda>r s. (Inr (), s)) [[Obj 0, Obj 1, Obj 2], [Obj 3], [Obj 5, Obj 6]] [3, 2, 2] 0 ()) = Inr 4"
  "fst (count_retrieved (\<lambda>r s. (Inr (), s)) [[Obj 0, Obj 1], [Obj 3, Obj 4], [Obj 5, Obj 6]] [3, 2, 2] 0 ()) = Inr 2"
  by code_simp+

lemma short_tier_silences_the_answer:
  "fst (loads_finish (\<lambda>r s. (Inr (), s)) 0 (map Inr [[0], [2, 3]]) (sample_lookup, ())) = Inl AttributeError \<and>
   ld_responses (fst (snd (loads_finish (\<lambda>r s. (Inr (), s)) 0 (map Inr [[0], [2, 3]]) (sample_lookup, ())))) = []"
proof
  show "fst (loads_finish (\<lambda>r s. (Inr (), s)) 0 (map Inr [[0], [2, 3]]) (sample_lookup, ())) = Inl AttributeError"
    by code_simp
  show "ld_responses (fst (snd (loads_finish (\<lambda>r s. (Inr (), s)) 0 (map Inr [[0], [2, 3]]) (sample_lookup, ())))) = []"
    by code_simp
qed

text \<open>
  One object, cached in the CPU backend and held by nobody else, is pinned and loaded for a request.
\<close>

definition loaded_cpu :: local_cpu_backend where
  "loaded_cpu = snd (get_blocking (sample_cek 1) (snd (lcb_contains (sample_cek 1) True sample_lcb3)))"

definition done_load :: async_loads where
  "done_load = no_loads\<lparr>ld_events := event_manager_init(DONE := [(''r'', 0)]),
                        ld_results := [(0, Inr [[(sample_cek 1, 0)]])]\<rparr>"

lemma loaded_cpu_inv: "lcb_inv 12 ((\<lambda>r. 0)(0 := Suc 0)) loaded_cpu"
proof -
  let ?b = "snd (lcb_contains (sample_cek 1) True sample_lcb3)"
  have "fst (get_blocking (sample_cek 1) ?b) = Some 0" by code_simp
  then have g: "get_blocking (sample_cek 1) ?b = (Some 0, loaded_cpu)"
    unfolding loaded_cpu_def by (metis prod.collapse)
  have "lcb_inv 12 (\<lambda>r. 0) ?b"
    using lcb_reachable_inv [OF reference_sorted_list_ok sort_items_ok sample_reachable(2)] by (rule inv_contains)
  from lcb_step_inv [OF reference_sorted_list_ok sort_items_ok step_get [OF g] this] show ?thesis by simp
qed

abbreviation give_back_call :: "local_cpu_backend \<Rightarrow> (unit, lookup_pins \<times> async_loads \<times> local_cpu_backend) outcome" where
  "give_back_call b \<equiv> lookup_unpin (lcb_obj_unpin reference_env) (lcb_down reference_env) off_manager ''r'' ([], done_load, b)"

abbreviation retrieve_call :: "(nat \<times> nat \<times> cache_engine_key) list
    \<Rightarrow> (processed_chunk list \<times> int \<times> bool list, async_loads \<times> local_cpu_backend) outcome" where
  "retrieve_call infos \<equiv> async_process_tokens keep_obj (lcb_down reference_env) (\<lambda>r. 64) ''r'' infos (replicate 10 False) (done_load, loaded_cpu)"

lemma unused_objects_are_released_twice_witness:
  "\<exists>total_size mask' b1 ld' b'. retrieve_call [(0, 10, sample_cek 1)] =
      (Inr ([(sample_cek 1, 0, 0, 10)], total_size, mask'), (done_load, b1)) \<and>
    give_back_call b1 = (Inr (), ([], ld', b')) \<and> lcb_inv 12 (\<lambda>r. 0) b'"
proof -
  let ?items = "[(sample_cek 1, 0 :: nat)]" and ?H = "(\<lambda>r. 0)(0 := Suc 0) :: nat \<Rightarrow> nat"
  have event: "map_of (ld_events done_load DONE) ''r'' = Some 0" "map_of (ld_events done_load ONGOING) ''r'' = None"
    by (simp_all add: done_load_def event_manager_init_def)
  have result: "map_of (ld_results done_load) 0 = Some (Inr [?items])" by (simp add: done_load_def)
  have keys: "distinct (map fst (concat [?items]))" and pins: "map_of ([] :: lookup_pins) ''r'' = None" by simp_all
  have used: "[] = filter (\<lambda>(key, r). key \<notin> set (map fst (take_loaded (concat [?items]) [(0, 10, sample_cek 1)])))
      (concat [?items])" by simp
  have enough: "\<forall>r. refs_of [] r + refs_of (concat [?items]) r \<le> ?H r" by simp
  have "(\<lambda>r. ?H r - (refs_of [] r + refs_of (concat [?items]) r)) = (\<lambda>r. 0)" by (simp add: fun_eq_iff)
  with unused_objects_are_released_twice [OF reference_sorted_list_ok loaded_cpu_inv event result keys pins used enough,
      of "\<lambda>r. 64" "replicate 10 False" off_manager]
  show ?thesis by (simp only: concat.simps take_loaded.simps append_Nil2 map_of.simps) auto
qed

text \<open>
  The same load when the tokens of the chunk are masked, as they are when the serving engine has
  them already: the retrieval releases the unused object, the release after it frees it, and the
  hot cache still maps the key to it.
\<close>

lemma masked_chunk_frees_a_cached_object:
  "let b1 = snd (snd (retrieve_call []));
       b2 = snd (snd (snd (give_back_call b1)))
   in map_option valid (objs (lcb_mem b1) 0) = Some True \<and>
      map_option valid (objs (lcb_mem b2) 0) = Some False \<and> hot_cache b2 = [(sample_cek 1, 0)]"
proof -
  have "map_option valid (objs (lcb_mem (snd (snd (retrieve_call [])))) 0) = Some True" by code_simp
  moreover have "map_option valid (objs (lcb_mem (snd (snd (snd (give_back_call (snd (snd (retrieve_call [])))))))) 0) = Some False"
    by code_simp
  moreover have "hot_cache (snd (snd (snd (give_back_call (snd (snd (retrieve_call []))))))) = [(sample_cek 1, 0)]"
    by code_simp
  ultimately show ?thesis by (simp add: Let_def)
qed
end
