(* ===== verification/Engine_Retrieve.thy ===== *)
theory Engine_Retrieve
  imports Async_Loading
begin

text \<open>
  Lookup and retrieval of LMCacheEngine (lmcache/v1/cache_engine.py) with synchronous loading: lookup
  tells the serving engine how many tokens are cached, retrieve brings their chunks and says in a
  mask which tokens it has. The chunks of a request are what the token database yields.
\<close>

section \<open>lookup\<close>

text \<open>The chunks are counted off; without a layerwise cache all keys are looked up at once.\<close>

fun end_of_hits :: "nat \<Rightarrow> (nat \<times> nat \<times> cache_engine_key) list \<Rightarrow> nat \<Rightarrow> nat" where
  "end_of_hits hits [] res = res"
| "end_of_hits 0 (info # infos) res = res"
| "end_of_hits (Suc hits) ((beg, stop, key) # infos) res = end_of_hits hits infos stop"

text \<open>
  With a layerwise cache a chunk is a hit when all its layers are found in one place. touch_cache
  runs in the finally block, so its exception replaces what was raised before.
\<close>

fun lookup_layers :: "int \<Rightarrow> string option \<Rightarrow> bool \<Rightarrow> string list option \<Rightarrow> 's tier_manager
    \<Rightarrow> (nat \<times> nat \<times> cache_engine_key) list \<Rightarrow> nat \<Rightarrow> lookup_pins \<times> 's \<Rightarrow> (nat, lookup_pins \<times> 's) outcome" where
  "lookup_layers num_layers lookup_id pin_it search_range m [] res st = (Inr res, st)"
| "lookup_layers num_layers lookup_id pin_it search_range m ((beg, stop, key) # infos) res (pins, s) =
     (let keys = split_layers num_layers key in
      case tm_batched_contains keys search_range pin_it m s of
        ((hits, mapping), s1) \<Rightarrow>
          if int hits = num_layers \<and> length mapping = 1
          then if \<not> pin_it then lookup_layers num_layers lookup_id pin_it search_range m infos stop (pins, s1)
               else (case lookup_id of
                       None \<Rightarrow> (Inl AssertionError, (pins, s1))
                     | Some i \<Rightarrow>
                         let location = fst (hd mapping);
                             old = (case map_of pins i of None \<Rightarrow> [] | Some d \<Rightarrow> d);
                             ks = (case map_of old location of None \<Rightarrow> [] | Some ks \<Rightarrow> ks)
                         in lookup_layers num_layers lookup_id pin_it search_range m infos stop
                              (dict_set i (dict_set location (ks @ keys) old) pins, s1))
          else (Inr res, (pins, s1)))"

definition lookup_chunks :: "string option \<Rightarrow> bool \<Rightarrow> string list option \<Rightarrow> 's tier_manager
    \<Rightarrow> (nat \<times> nat \<times> cache_engine_key) list \<Rightarrow> lookup_pins \<times> 's \<Rightarrow> (nat, lookup_pins \<times> 's) outcome" where
  "lookup_chunks lookup_id pin_it search_range m infos = (\<lambda>(pins, s).
     case tm_batched_contains (map (\<lambda>(beg, stop, key). key) infos) search_range pin_it m s of
       ((hits, mapping), s1) \<Rightarrow>
         if pin_it \<and> mapping \<noteq> []
         then (case lookup_id of
                 None \<Rightarrow> (Inl AssertionError, (pins, s1))
               | Some i \<Rightarrow> (Inr (end_of_hits hits infos 0), (dict_set i mapping pins, s1)))
         else (Inr (end_of_hits hits infos 0), (pins, s1)))"

definition engine_lookup :: "bool \<Rightarrow> int option \<Rightarrow> string option \<Rightarrow> bool \<Rightarrow> string list option \<Rightarrow> 's tier_manager
    \<Rightarrow> (nat \<times> nat \<times> cache_engine_key) list \<Rightarrow> lookup_pins \<times> 's \<Rightarrow> (nat, lookup_pins \<times> 's) outcome" where
  "engine_lookup healthy num_layers lookup_id pin_it search_range m infos st =
     (if \<not> healthy then (Inr 0, st)
      else case (case num_layers of
                   Some n \<Rightarrow> lookup_layers n lookup_id pin_it search_range m infos 0 st
                 | None \<Rightarrow> lookup_chunks lookup_id pin_it search_range m infos st) of
             (r, (pins, s)) \<Rightarrow>
               if \<not> pin_it then (r, (pins, s))
               else (case tm_touch_cache m s of
                       (Inl e, s1) \<Rightarrow> (Inl e, (pins, s1))
                     | (Inr _, s1) \<Rightarrow> (r, (pins, s1))))"

section \<open>retrieve\<close>

text \<open>
  The blocks of one location: the first object that is missing ends them, and the largest start of
  a failed block is kept. The objects found in a location are decoded before the next one is asked.
\<close>

type_synonym retrieval = "nat option \<times> processed_chunk list \<times> bool list"

fun scan_block :: "(chunk_info \<times> nat option) list \<Rightarrow> retrieval \<Rightarrow> retrieval" where
  "scan_block [] acc = acc"
| "scan_block (((key, beg, stop), None) # blocks) (failed, chunks, ret_mask) =
     ((case failed of None \<Rightarrow> Some beg | Some f \<Rightarrow> if f < beg then Some beg else Some f), chunks, ret_mask)"
| "scan_block (((key, beg, stop), Some r) # blocks) (failed, chunks, ret_mask) =
     scan_block blocks (failed, chunks @ [(key, r, beg, stop)], set_mask beg stop True ret_mask)"

fun scan_locations :: "(nat \<Rightarrow> 's \<Rightarrow> (nat, 's) outcome) \<Rightarrow> (nat \<Rightarrow> int) \<Rightarrow> 's tier_manager
    \<Rightarrow> (string, chunk_info list) dict \<Rightarrow> retrieval \<Rightarrow> int \<Rightarrow> 's \<Rightarrow> (retrieval \<times> int, 's) outcome" where
  "scan_locations dec get_size m [] acc kv_size s = (Inr (acc, kv_size), s)"
| "scan_locations dec get_size m ((location, blocks) # mapping) (failed, chunks, ret_mask) kv_size s =
     (case tm_batched_get (map fst blocks) (Some location) m s of
        (rs, s1) \<Rightarrow>
          (case scan_block (zip blocks rs) (failed, [], ret_mask) of
             (failed1, found, ret_mask1) \<Rightarrow>
               (case decode_chunks dec found s1 of
                  (Inl e, s2) \<Rightarrow> (Inl e, s2)
                | (Inr decoded, s2) \<Rightarrow>
                    scan_locations dec get_size m mapping (failed1, chunks @ decoded, ret_mask1)
                      (kv_size + sum_list (map (\<lambda>(key, r, beg, stop). get_size r) found)) s2)))"

definition drop_failed :: "retrieval \<Rightarrow> processed_chunk list \<times> bool list" where
  "drop_failed = (\<lambda>(failed, chunks, ret_mask).
     case failed of
       None \<Rightarrow> (chunks, ret_mask)
     | Some f \<Rightarrow> (filter (\<lambda>(key, r, beg, stop). stop < f) chunks, set_mask f (length ret_mask) False ret_mask))"

text \<open>
  A request whose lookup pinned its keys in a single place gets all its chunks from there. The
  size counts every object that was found, get_size is that of an object.
\<close>

definition process_tokens_internal :: "(nat \<Rightarrow> 's \<Rightarrow> (nat, 's) outcome) \<Rightarrow> (nat \<Rightarrow> int) \<Rightarrow> string option
    \<Rightarrow> lookup_pins \<Rightarrow> 's tier_manager \<Rightarrow> chunk_info list \<Rightarrow> bool list \<Rightarrow> 's
    \<Rightarrow> (processed_chunk list \<times> int \<times> bool list, 's) outcome" where
  "process_tokens_internal dec get_size req_id pins m infos ret_mask s =
     (let pinned = (case req_id of None \<Rightarrow> None | Some i \<Rightarrow> map_of pins i) in
      case (case pinned of
              Some [(location, _)] \<Rightarrow> ([(location, infos)], s)
            | _ \<Rightarrow> get_block_mapping infos m s) of
        (mapping, s1) \<Rightarrow>
          (case scan_locations dec get_size m mapping (None, [], ret_mask) 0 s1 of
             (Inl e, s2) \<Rightarrow> (Inl e, s2)
           | (Inr (acc, kv_size), s2) \<Rightarrow>
               (case drop_failed acc of (kept, ret_mask1) \<Rightarrow> (Inr (kept, kv_size, ret_mask1), s2))))"

text \<open>After the copy to the GPU the chunks are removed, if so configured, and released.\<close>

fun release_chunks :: "(nat \<Rightarrow> 's \<Rightarrow> (unit, 's) outcome) \<Rightarrow> bool \<Rightarrow> string list option \<Rightarrow> bool \<Rightarrow> 's tier_manager
    \<Rightarrow> processed_chunk list \<Rightarrow> 's \<Rightarrow> (unit, 's) outcome" where
  "release_chunks down remove_after_retrieve locations async m [] s = (Inr (), s)"
| "release_chunks down remove_after_retrieve locations async m ((key, r, beg, stop) # chunks) s =
     (case (if remove_after_retrieve then tm_remove key locations m s else (Inr 0, s)) of
        (Inl e, s1) \<Rightarrow> (Inl e, s1)
      | (Inr _, s1) \<Rightarrow>
          (case (if async then (Inr (), s1) else down r s1) of
             (Inl e, s2) \<Rightarrow> (Inl e, s2)
           | (Inr _, s2) \<Rightarrow> release_chunks down remove_after_retrieve locations async m chunks s2))"

section \<open>Consecutive chunks\<close>

fun contiguous :: "nat \<Rightarrow> chunk_info list \<Rightarrow> bool" where
  "contiguous b [] \<longleftrightarrow> True"
| "contiguous b ((key, beg, stop) # infos) \<longleftrightarrow> beg = b \<and> b < stop \<and> contiguous stop infos"

fun end_at :: "nat \<Rightarrow> chunk_info list \<Rightarrow> nat" where
  "end_at b [] = b"
| "end_at b ((key, beg, stop) # infos) = end_at stop infos"

definition chunks_of :: "chunk_info list \<Rightarrow> nat list \<Rightarrow> processed_chunk list" where
  "chunks_of infos rs = map (\<lambda>((key, beg, stop), r). (key, r, beg, stop)) (zip infos rs)"

lemma contiguous_append:
  "contiguous b (xs @ ys) \<longleftrightarrow> contiguous b xs \<and> contiguous (end_at b xs) ys"
  "end_at b (xs @ ys) = end_at (end_at b xs) ys"
  by (induction xs arbitrary: b) auto

lemma end_at_ge: "contiguous b infos \<Longrightarrow> b \<le> end_at b infos"
  by (induction b infos rule: contiguous.induct) auto

lemma set_mask_simps [simp]:
  "length (set_mask beg stop v xs) = length xs"
  "j < length xs \<Longrightarrow> set_mask beg stop v xs ! j = (if beg \<le> j \<and> j < stop then v else xs ! j)"
  by (simp_all add: set_mask_def)

lemma mark_chunks_length [simp]: "length (mark_chunks chunks xs) = length xs"
  by (induction chunks arbitrary: xs) (auto simp: mark_chunks_def)

lemma mark_chunks_append: "mark_chunks (xs @ ys) msk = mark_chunks ys (mark_chunks xs msk)"
  by (simp add: mark_chunks_def)

lemma mark_contiguous:
  "contiguous b infos \<Longrightarrow> length infos = length rs \<Longrightarrow> j < length xs \<Longrightarrow>
     mark_chunks (chunks_of infos rs) xs ! j \<longleftrightarrow> xs ! j \<or> b \<le> j \<and> j < end_at b infos"
proof (induction infos arbitrary: b rs xs)
  case (Cons i infos)
  obtain key beg stop where i: "i = (key, beg, stop)" by (cases i)
  obtain r rs' where rs: "rs = r # rs'" using Cons.prems(2) by (cases rs) auto
  have c: "beg = b" "b < stop" "contiguous stop infos" using Cons.prems(1) by (simp_all add: i)
  have "mark_chunks (chunks_of (i # infos) rs) xs = mark_chunks (chunks_of infos rs') (set_mask beg stop True xs)"
    by (simp add: mark_chunks_def chunks_of_def i rs)
  then show ?case
    using Cons.IH [OF c(3), of rs' "set_mask beg stop True xs"] Cons.prems(2,3) c end_at_ge [OF c(3)]
    by (auto simp: i rs)
qed (auto simp: mark_chunks_def chunks_of_def)

lemma scan_block_found:
  assumes "length infos = length rs"
  shows "scan_block (zip infos (map Some rs) @ later) (failed, chunks, xs) =
    scan_block later (failed, chunks @ chunks_of infos rs, mark_chunks (chunks_of infos rs) xs)"
  using assms
proof (induction infos arbitrary: rs chunks xs)
  case (Cons i infos)
  obtain key beg stop where i: "i = (key, beg, stop)" by (cases i)
  obtain r rs' where rs: "rs = r # rs'" using Cons.prems by (cases rs) auto
  show ?case using Cons by (simp add: i rs chunks_of_def mark_chunks_def)
qed (simp add: chunks_of_def mark_chunks_def)

lemma chunks_before_end:
  assumes "contiguous b infos" "length infos = length rs"
  shows "filter (\<lambda>(key, r, beg, stop). stop < end_at b infos) (chunks_of infos rs) = butlast (chunks_of infos rs)"
  using assms
proof (induction infos arbitrary: b rs)
  case (Cons i infos)
  obtain key beg stop where i: "i = (key, beg, stop)" by (cases i)
  obtain r rs' where rs: "rs = r # rs'" using Cons.prems(2) by (cases rs) auto
  have c: "contiguous stop infos" using Cons.prems(1) by (simp add: i)
  have ch: "chunks_of (i # infos) rs = (key, r, beg, stop) # chunks_of infos rs'" by (simp add: chunks_of_def i rs)
  show ?case
  proof (cases infos)
    case Nil
    then show ?thesis unfolding ch by (simp add: i chunks_of_def)
  next
    case (Cons i' infos')
    obtain key' beg' stop' where i': "i' = (key', beg', stop')" by (cases i')
    have "stop < end_at stop infos"
      using c end_at_ge [of stop' infos'] by (simp add: Cons i')
    moreover have "chunks_of infos rs' \<noteq> []"
      using Cons.prems(2) Cons by (cases rs') (auto simp: chunks_of_def rs)
    ultimately show ?thesis
      unfolding ch using Cons.IH [OF c, of rs'] Cons.prems(2) by (simp add: i rs)
  qed
qed (simp add: chunks_of_def)

lemma chunks_of_append:
  "length xs = length rs \<Longrightarrow> chunks_of (xs @ ys) (rs @ ts) = chunks_of xs rs @ chunks_of ys ts"
  by (simp add: chunks_of_def)

section \<open>Properties\<close>

text \<open>C23: A partial retrieval reports a chunk that it does not deliver. When the pinned place has the
  first chunks of the request but not the next one, the mask covers all chunks before the missing
  one, as it should, but the last of these is dropped from the chunks that are copied; when nothing
  is missing, mask and chunks agree.\<close>

theorem partial_retrieval_spec:
  assumes pins: "map_of pins i = Some [(location, ks)]"
    and infos: "contiguous b infos" "end_at b infos \<le> n_tokens"
    and get: "tm_batched_get (map fst infos) (Some location) m s = (map Some rs @ missing, s1)"
    and shape: "length rs + length missing = length infos" "missing = [] \<or> hd missing = None"
    and call: "process_tokens_internal keep_obj get_size (Some i) pins m infos (replicate n_tokens False) s =
      (Inr (chunks, kv_size, ret_mask), s2)"
  shows "chunks = (let found = chunks_of (take (length rs) infos) rs
                   in if missing = [] then found else butlast found) \<and>
    length ret_mask = n_tokens \<and>
    (\<forall>j < n_tokens. ret_mask ! j \<longleftrightarrow> b \<le> j \<and> j < end_at b (take (length rs) infos))"
proof -
  let ?good = "take (length rs) infos" and ?bad = "drop (length rs) infos"
  have len: "length ?good = length rs" using shape(1) by simp
  have cont: "contiguous b ?good" "contiguous (end_at b ?good) ?bad"
    using infos(1) contiguous_append(1) [of b ?good ?bad] by simp_all
  have "zip infos (map Some rs @ missing) = zip (?good @ ?bad) (map Some rs @ missing)" by simp
  also have "\<dots> = zip ?good (map Some rs) @ zip ?bad missing" by (subst zip_append) (use len in simp_all)
  finally have z: "zip infos (map Some rs @ missing) = zip ?good (map Some rs) @ zip ?bad missing" .
  let ?found = "chunks_of ?good rs" and ?none = "replicate n_tokens False"
  have marks: "mark_chunks ?found ?none ! j \<longleftrightarrow> b \<le> j \<and> j < end_at b ?good" if "j < n_tokens" for j
    using mark_contiguous [OF cont(1) len, of j ?none] that by simp
  have scan: "scan_block (zip infos (map Some rs @ missing)) (None, [], ?none) =
      scan_block (zip ?bad missing) (None, ?found, mark_chunks ?found ?none)"
    unfolding z by (subst scan_block_found [OF len]) simp
  show ?thesis
  proof (cases missing)
    case Nil
    then have "scan_block (zip infos (map Some rs @ missing)) (None, [], ?none) =
        (None, ?found, mark_chunks ?found ?none)" unfolding scan by simp
    then have "chunks = ?found" "ret_mask = mark_chunks ?found ?none"
      using call by (auto simp: process_tokens_internal_def pins get drop_failed_def)
    then show ?thesis using marks Nil by simp
  next
    case (Cons x xs)
    then have x: "x = None" using shape(2) by simp
    obtain i' bad where bad: "?bad = i' # bad" using shape(1) Cons by (cases ?bad) auto
    obtain key beg stop where i': "i' = (key, beg, stop)" by (cases i')
    have beg: "beg = end_at b ?good" using cont(2) by (simp add: bad i')
    have "scan_block (zip infos (map Some rs @ missing)) (None, [], ?none) =
        (Some beg, ?found, mark_chunks ?found ?none)" unfolding scan by (simp add: bad i' Cons x)
    then have c: "chunks = filter (\<lambda>(key, r, beg, stop). stop < end_at b ?good) ?found"
      and m: "ret_mask = set_mask (end_at b ?good) n_tokens False (mark_chunks ?found ?none)"
      using call by (auto simp: process_tokens_internal_def pins get drop_failed_def beg)
    have "chunks = butlast ?found" unfolding c by (rule chunks_before_end [OF cont(1) len])
    moreover have "ret_mask ! j \<longleftrightarrow> b \<le> j \<and> j < end_at b ?good" if "j < n_tokens" for j
      using marks [OF that] that by (auto simp: m)
    ultimately show ?thesis using Cons by (simp add: m)
  qed
qed

section \<open>Tiers that deliver what they hold\<close>

lemma one_location:
  assumes "distinct (map fst d)" "(name, b) \<in> set d"
  shows "filter (\<lambda>p. fst p = name) d = [(name, b)]"
  using assms
proof (induction d)
  case (Cons p d)
  show ?case
  proof (cases "p = (name, b)")
    case True
    then have "filter (\<lambda>p. fst p = name) d = []"
      using Cons.prems(1) by (auto simp: filter_empty_conv)
    then show ?thesis using True by simp
  next
    case False
    then have mem: "(name, b) \<in> set d" using Cons.prems(2) by simp
    then have "name \<in> set (map fst d)" by force
    then have "fst p \<noteq> name" using Cons.prems(1) by auto
    then show ?thesis using Cons mem by simp
  qed
qed simp

lemma active_at:
  assumes "distinct (map fst (storage_backends m))"
    and "(name, b) \<in> set (get_active_storage_backends None None m)" "name \<noteq> []"
  shows "get_active_storage_backends (Some name) None m = [(name, b)]"
proof -
  have mem: "(name, b) \<in> set (storage_backends m)" using assms(2) by (simp add: get_active_storage_backends_def)
  have "get_active_storage_backends (Some name) None m =
      filter (\<lambda>(n, b). \<not> (tm_freeze m \<and> n \<noteq> ''LocalCPUBackend'') \<and> n \<notin> bypassed_backends m)
        (filter (\<lambda>p. fst p = name) (storage_backends m))"
    using assms(3) by (auto simp: get_active_storage_backends_def intro!: filter_cong)
  then show ?thesis
    using one_location [OF assms(1) mem] assms(2) by (simp add: get_active_storage_backends_def)
qed

text \<open>
  What a retrieval relies on. I is an invariant of the tiers' state, for instance that the CPU tier
  still caches some keys: while it holds, a tier delivers an object for each of the keys it holds,
  and neither this nor the copy of the objects into the CPU tier breaks it.
\<close>

locale delivering_tiers =
  fixes m :: "'s tier_manager" and holds :: "string \<Rightarrow> cache_engine_key \<Rightarrow> bool" and I :: "'s \<Rightarrow> bool"
  assumes names: "distinct (map fst (storage_backends m))" "[] \<notin> set (map fst (storage_backends m))"
    and gets: "(name, b) \<in> set (storage_backends m) \<Longrightarrow> I s \<Longrightarrow> \<forall>key \<in> set ks. holds name key \<Longrightarrow>
      \<exists>rs s'. be_batched_get_blocking b ks s = (map Some rs, s') \<and> length rs = length ks \<and>
        I s' \<and> I (write_back name ks rs m s')"
begin

lemma get_from_tier:
  assumes inv: "I s" and name: "name \<in> set (map fst (get_active_storage_backends None None m))"
    and keys: "keys \<noteq> []" "\<forall>key \<in> set keys. holds name key"
  shows "\<exists>rs s'. tm_batched_get keys (Some name) m s = (map Some rs, s') \<and> length rs = length keys \<and> I s'"
proof -
  obtain b where b: "(name, b) \<in> set (get_active_storage_backends None None m)" using name by auto
  then have mem: "(name, b) \<in> set (storage_backends m)" by (simp add: get_active_storage_backends_def)
  then have "name \<noteq> []" using names(2) by force
  note act = active_at [OF names(1) b this]
  obtain rs s' where rs: "be_batched_get_blocking b keys s = (map Some rs, s')" "length rs = length keys"
    "I (write_back name keys rs m s')"
    using gets [OF mem inv keys(2)] by blast
  then obtain r rs' where r: "rs = r # rs'" using keys(1) by (cases rs) auto
  have "tm_batched_get keys (Some name) m s = (map Some rs, write_back name keys rs m s')"
    using rs(1) by (auto simp: tm_batched_get_def act r comp_def)
  then show ?thesis using rs by blast
qed

lemma scan_mapping:
  "I s \<Longrightarrow> \<forall>(name, is) \<in> set mapping. name \<in> set (map fst (get_active_storage_backends None None m)) \<and>
      is \<noteq> [] \<and> (\<forall>i \<in> set is. holds name (fst i)) \<Longrightarrow>
    \<exists>rs kv_size' s'. length rs = length (concat (dict_values mapping)) \<and> I s' \<and>
      scan_locations keep_obj get_size m mapping (None, chunks, xs) kv_size s =
        (Inr ((None, chunks @ chunks_of (concat (dict_values mapping)) rs,
          mark_chunks (chunks_of (concat (dict_values mapping)) rs) xs), kv_size'), s')"
proof (induction mapping arbitrary: chunks xs kv_size s)
  case Nil
  then show ?case by (intro exI [of _ "[]"]) (simp add: chunks_of_def mark_chunks_def)
next
  case (Cons e mapping)
  obtain name infos where e: "e = (name, infos)" by (cases e)
  have h: "name \<in> set (map fst (get_active_storage_backends None None m))" "map fst infos \<noteq> []"
    "\<forall>key \<in> set (map fst infos). holds name key" using Cons.prems by (auto simp: e)
  obtain rs1 s1 where g: "tm_batched_get (map fst infos) (Some name) m s = (map Some rs1, s1)"
    "length rs1 = length (map fst infos)" "I s1" using get_from_tier [OF Cons.prems(1) h] by blast
  have len: "length infos = length rs1" using g(2) by simp
  let ?c1 = "chunks_of infos rs1"
  let ?size = "kv_size + sum_list (map (\<lambda>(key, r, beg, stop). get_size r) ?c1)"
  have scan: "scan_block (zip infos (map Some rs1)) (None, [], xs) = (None, ?c1, mark_chunks ?c1 xs)"
    using scan_block_found [OF len, of "[]"] by simp
  have "\<forall>(name, is) \<in> set mapping. name \<in> set (map fst (get_active_storage_backends None None m)) \<and>
      is \<noteq> [] \<and> (\<forall>i \<in> set is. holds name (fst i))" using Cons.prems by simp
  from Cons.IH [OF g(3) this, of "chunks @ ?c1" "mark_chunks ?c1 xs" ?size] obtain rs kv_size' s' where
    ih: "length rs = length (concat (dict_values mapping))" "I s'"
      "scan_locations keep_obj get_size m mapping (None, chunks @ ?c1, mark_chunks ?c1 xs) ?size s1 =
        (Inr ((None, (chunks @ ?c1) @ chunks_of (concat (dict_values mapping)) rs,
          mark_chunks (chunks_of (concat (dict_values mapping)) rs) (mark_chunks ?c1 xs)), kv_size'), s')" by blast
  show ?case
    by (intro exI [of _ "rs1 @ rs"] exI [of _ kv_size'] exI [of _ s'])
      (use ih g(1) scan len in \<open>simp add: e chunks_of_append mark_chunks_append\<close>)
qed

end

text \<open>The CPU backend delivers what it caches, and puts into it take nothing out of it.\<close>

lemma get_cached:
  "\<forall>key \<in> set keys. map_of (hot_cache b) key \<noteq> None \<Longrightarrow>
    \<exists>rs b'. batched_get_blocking keys b = (map Some rs, b') \<and> length rs = length keys \<and> hot_cache b' = hot_cache b"
proof (induction keys arbitrary: b)
  case (Cons key keys)
  then obtain r where r: "map_of (hot_cache b) key = Some r" by auto
  let ?b = "b\<lparr>lcb_mem := mo_ref_count_up r (lcb_mem b)\<rparr>"
  obtain rs b' where "batched_get_blocking keys ?b = (map Some rs, b')" "length rs = length keys"
    "hot_cache b' = hot_cache ?b" using Cons.IH [of ?b] Cons.prems by auto
  then show ?case by (intro exI [of _ "r # rs"]) (simp add: get_blocking_def r)
qed (simp add: exI [of _ "[]"])

lemma put_keeps_cached:
  assumes "map_of (hot_cache b) key \<noteq> None"
  shows "map_of (hot_cache (snd (batched_submit_put_task now ks rs b))) key \<noteq> None"
proof -
  have "map_of (hot_cache (snd (submit_put_tasks now puts b))) key \<noteq> None" for puts
    using assms
  proof (induction puts arbitrary: b)
    case (Cons put puts)
    obtain k r where p: "put = (k, r)" by (cases put)
    have "map_of (hot_cache (snd (submit_put_task now k r b))) key \<noteq> None"
      using Cons.prems by (simp add: submit_put_task_def lcb_send_def dict_simps)
    from Cons.IH [OF this] show ?case by (simp add: p case_prod_beta)
  qed simp
  then show ?thesis using assms by (simp add: batched_submit_put_task_def)
qed

text \<open>The manager with the CPU backend as its only tier, and with another tier behind it that leaves the
  CPU backend's cache alone when it is read.\<close>

definition cpu_manager :: "env \<Rightarrow> int \<Rightarrow> bool \<Rightarrow> local_cpu_backend tier_manager" where
  "cpu_manager E now frozen = \<lparr>storage_backends = [(''LocalCPUBackend'', lcb_backend E now)], tm_freeze = frozen,
     bypassed_backends = {}\<rparr>"

definition two_tiers :: "env \<Rightarrow> int \<Rightarrow> local_cpu_backend backend \<Rightarrow> local_cpu_backend tier_manager" where
  "two_tiers E now gds = \<lparr>storage_backends = [(''LocalCPUBackend'', lcb_backend E now), (''GdsBackend'', gds)],
     tm_freeze = False, bypassed_backends = {}\<rparr>"

interpretation cpu_delivers: delivering_tiers "cpu_manager E now frozen"
  "\<lambda>name key. key \<in> set (get_keys b)" "\<lambda>b'. hot_cache b' = hot_cache b"
proof unfold_locales
  fix name be ks and b' :: local_cpu_backend
  assume be: "(name, be) \<in> set (storage_backends (cpu_manager E now frozen))"
    and "hot_cache b' = hot_cache b" "\<forall>key \<in> set ks. key \<in> set (get_keys b)"
  then have "\<forall>key \<in> set ks. map_of (hot_cache b') key \<noteq> None"
    by (metis get_keys_def dict_in_keys_iff)
  from get_cached [OF this] show "\<exists>rs s'. be_batched_get_blocking be ks b' = (map Some rs, s') \<and> length rs = length ks \<and>
      hot_cache s' = hot_cache b \<and> hot_cache (write_back name ks rs (cpu_manager E now frozen) s') = hot_cache b"
    using be \<open>hot_cache b' = hot_cache b\<close> by (auto simp: cpu_manager_def lcb_backend_def write_back_def)
qed (simp_all add: cpu_manager_def)

lemma two_tiers_deliver:
  assumes "\<And>ks b. \<forall>key \<in> set ks. key \<in> stored \<Longrightarrow>
    \<exists>rs b'. be_batched_get_blocking gds ks b = (map Some rs, b') \<and> length rs = length ks \<and> hot_cache b' = hot_cache b"
  shows "delivering_tiers (two_tiers E now gds) (\<lambda>name key. if name = ''LocalCPUBackend'' then key \<in> cached else key \<in> stored)
    (\<lambda>b. \<forall>key \<in> cached. map_of (hot_cache b) key \<noteq> None)"
proof unfold_locales
  fix name be b ks
  let ?holds = "\<lambda>name key. if name = ''LocalCPUBackend'' then key \<in> cached else key \<in> stored"
  let ?I = "\<lambda>b :: local_cpu_backend. \<forall>key \<in> cached. map_of (hot_cache b) key \<noteq> None"
  assume be: "(name, be) \<in> set (storage_backends (two_tiers E now gds))"
    and inv: "?I b" and keys: "\<forall>key \<in> set ks. ?holds name key"
  show "\<exists>rs s'. be_batched_get_blocking be ks b = (map Some rs, s') \<and> length rs = length ks \<and> ?I s' \<and>
      ?I (write_back name ks rs (two_tiers E now gds) s')"
  proof (cases "name = ''LocalCPUBackend''")
    case True
    then have "be = lcb_backend E now" using be by (auto simp: two_tiers_def)
    moreover have "\<forall>key \<in> set ks. map_of (hot_cache b) key \<noteq> None" using keys inv True by simp
    from get_cached [OF this] obtain rs b' where "batched_get_blocking ks b = (map Some rs, b')"
      "length rs = length ks" "hot_cache b' = hot_cache b" by blast
    ultimately show ?thesis using inv True
      by (intro exI [of _ rs] exI [of _ b']) (simp add: lcb_backend_def write_back_def)
  next
    case False
    then have "name = ''GdsBackend''" "be = gds" using be by (auto simp: two_tiers_def)
    moreover have "\<forall>key \<in> set ks. key \<in> stored" using keys False by simp
    from assms [OF this, of b] obtain rs b' where "be_batched_get_blocking gds ks b = (map Some rs, b')"
      "length rs = length ks" "hot_cache b' = hot_cache b" by blast
    moreover have "?I (snd (batched_submit_put_task now ks rs b'))"
      using inv \<open>hot_cache b' = hot_cache b\<close> by (intro ballI put_keeps_cached) simp
    ultimately show ?thesis using inv
      by (intro exI [of _ rs] exI [of _ b']) (simp add: write_back_def two_tiers_def lcb_backend_def)
  qed
qed (simp_all add: two_tiers_def)

definition chunk_of :: "nat \<times> nat \<times> cache_engine_key \<Rightarrow> chunk_info" where
  "chunk_of = (\<lambda>(beg, stop, key). (key, beg, stop))"

lemma end_of_hits_at: "end_of_hits n infos res = end_at res (map chunk_of (take n infos))"
  by (induction n infos res rule: end_of_hits.induct) (auto simp: chunk_of_def)

lemma before_end:
  assumes "contiguous b (map chunk_of infos)" "n \<le> length infos"
  shows "filter (\<lambda>(beg, stop, key). stop \<le> end_at b (map chunk_of (take n infos))) infos = take n infos"
  using assms
proof (induction infos arbitrary: b n)
  case (Cons i infos)
  obtain beg stop key where i: "i = (beg, stop, key)" by (cases i)
  have c: "contiguous stop (map chunk_of infos)" "b < stop" using Cons.prems(1) by (simp_all add: i chunk_of_def)
  show ?case
  proof (cases n)
    case 0
    have "filter (\<lambda>(beg, stop, key). stop \<le> b) infos = []"
      using Cons.IH [OF c(1), of 0] c(2) by (force simp: filter_empty_conv)
    then show ?thesis using 0 c(2) by (simp add: i)
  next
    case (Suc n')
    have t: "contiguous stop (map chunk_of (take n' infos))"
      using c(1) contiguous_append(1) [of stop "map chunk_of (take n' infos)" "map chunk_of (drop n' infos)"]
      by (simp flip: map_append)
    then show ?thesis
      using Cons.IH [OF c(1), of n'] Cons.prems(2) end_at_ge [OF t] by (simp add: Suc i chunk_of_def)
  qed
qed simp


section \<open>Examples\<close>

text \<open>The two tiers of the lookup's example, delivering an object for every key they hold.\<close>

definition full_tier :: "string \<Rightarrow> unit backend" where
  "full_tier name = (sample_tier name)
     \<lparr>be_batched_get_blocking := default_batched_get_blocking (\<lambda>key s.
        (if sample_holds name key then Some (nat (ck_chunk_hash key)) else None, s))\<rparr>"

definition full_tiers :: "unit tier_manager" where
  "full_tiers = \<lparr>storage_backends = map (\<lambda>name. (name, full_tier name)) [''LocalCPUBackend'', ''GdsBackend''],
     tm_freeze = False, bypassed_backends = {''PDBackend''}\<rparr>"

lemma default_gets:
  "default_batched_get_blocking (\<lambda>key s. (f key, s)) ks s = (map f ks, s)"
  by (induction ks) auto

lemma kept_scan:
  "\<exists>out s'. scan_locations keep_obj get_size m mapping acc kv_size s = (Inr out, s')"
proof (induction mapping arbitrary: acc kv_size s)
  case (Cons e mapping)
  obtain location blocks where e: "e = (location, blocks)" by (cases e)
  obtain failed chunks ret_mask where acc: "acc = (failed, chunks, ret_mask)" by (rule prod_cases3)
  show ?case using Cons by (simp add: e acc split: prod.split)
qed (simp, metis prod_cases3)

lemma kept_result:
  fixes m :: "unit tier_manager"
  obtains chunks kv_size msk where
    "process_tokens_internal keep_obj get_size req_id pins m infos ret_mask () = (Inr (chunks, kv_size, msk), ())"
proof -
  have "\<exists>out. process_tokens_internal keep_obj get_size req_id pins m infos ret_mask () = (Inr out, ())"
    unfolding process_tokens_internal_def Let_def
    by (auto split: prod.splits sum.splits) (metis kept_scan Pair_inject sum.distinct(1))
  then show ?thesis using that by (metis prod_cases3)
qed

text \<open>The CPU backend of the history's example, which caches the first chunk, and a tier behind it that
  has the second; the third chunk of the request is nowhere.\<close>

definition second_tier :: "local_cpu_backend backend" where
  "second_tier = (lcb_backend reference_env 0)
     \<lparr>be_batched_contains := default_batched_contains (\<lambda>key pin_it b. (key = sample_cek 2, b)),
      be_batched_get_blocking := \<lambda>ks b. (map (\<lambda>key. if key = sample_cek 2 then Some 1 else None) ks, b)\<rparr>"

definition three_chunks :: "(nat \<times> nat \<times> cache_engine_key) list" where
  "three_chunks = map (\<lambda>i. (10 * i, 10 * i + 10, sample_cek (int i + 1))) [0, 1, 2]"


text \<open>
  The CPU tier alone has chunks 1 and 2 of three: twenty tokens are reported, ten are delivered.
\<close>

lemma partial_retrieval_spec_witness:
  "\<exists>chunks kv_size msk. process_tokens_internal keep_obj (\<lambda>r. 64) (Some ''r'') [(''r'', [(''LocalCPUBackend'', [])])] full_tiers
      (map chunk_of (take 3 sample_infos)) (replicate 30 False) () = (Inr (chunks, kv_size, msk), ()) \<and>
    chunks = [(tier_key 1, 1, 0, 10)] \<and> msk ! 15"
proof -
  let ?infos = "map chunk_of (take 3 sample_infos)" and ?pins = "[(''r'', [(''LocalCPUBackend'', [])])] :: lookup_pins"
  have pins: "map_of ?pins ''r'' = Some [(''LocalCPUBackend'', [])]" by simp
  have i: "?infos = [(tier_key 1, 0, 10), (tier_key 2, 10, 20), (tier_key 3, 20, 30)]"
    by (simp add: sample_infos_def chunk_of_def numeral_eq_Suc)
  have infos: "contiguous 0 ?infos" "end_at 0 ?infos \<le> 30" unfolding i by simp_all
  have "tm_batched_get (map fst ?infos) (Some ''LocalCPUBackend'') full_tiers () = ([Some 1, Some 2, None], ())"
    by code_simp
  then have get: "tm_batched_get (map fst ?infos) (Some ''LocalCPUBackend'') full_tiers () = (map Some [1, 2] @ [None], ())"
    by simp
  have shape: "length [1, 2 :: nat] + length [None :: nat option] = length ?infos"
    "[None :: nat option] = [] \<or> hd [None :: nat option] = None" unfolding i by simp_all
  obtain chunks kv_size msk where c: "process_tokens_internal keep_obj (\<lambda>r. 64) (Some ''r'') ?pins full_tiers ?infos
      (replicate 30 False) () = (Inr (chunks, kv_size, msk), ())" by (rule kept_result)
  from partial_retrieval_spec [OF pins infos get shape c] have
    "chunks = butlast (chunks_of (take 2 ?infos) [1, 2])" "msk ! 15 \<longleftrightarrow> 15 < end_at 0 (take 2 ?infos)"
    by (simp_all add: numeral_2_eq_2)
  then have "chunks = [(tier_key 1, 1, 0, 10)]" "msk ! 15" unfolding i by (simp_all add: chunks_of_def)
  then show ?thesis using c by blast
qed

end
