(* ===== verification/Fidelity.thy ===== *)
theory Fidelity
  imports Precision_Tiers Cache_Engine_Key Cache_Policies
begin

text \<open>
  The fidelity of a request: whether its chunks are kept in full precision or in the smaller base form.
  The policy and the normalisation of requests (lmcache/v1/fidelity/), the state of each prefix, the
  counter that finds hot prefixes, and what LMCacheEngine (lmcache/v1/cache_engine.py) does with them
  before and after a store or a retrieval. The last section compares the transitions with the state
  machine of PHASE2_STATE_MACHINE.md. Clock readings are arguments; the store's lock makes each of its
  methods atomic.
\<close>

section \<open>Request configurations\<close>

text \<open>The values of a request's configuration. Floats are real numbers.\<close>

datatype config_value = NoneV | StrV string | BoolV bool | IntV int | FloatV real

type_synonym request_configs = "(string, config_value) dict"

text \<open>Reading and printing floats.\<close>

record float_text =
  ft_parse :: "string \<Rightarrow> real option"
  ft_repr :: "real \<Rightarrow> string"

fun truthy_value :: "config_value \<Rightarrow> bool" where
  "truthy_value NoneV = False"
| "truthy_value (StrV s) = (s \<noteq> [])"
| "truthy_value (BoolV b) = b"
| "truthy_value (IntV i) = (i \<noteq> 0)"
| "truthy_value (FloatV r) = (r \<noteq> 0)"

fun str_value :: "float_text \<Rightarrow> config_value \<Rightarrow> string" where
  "str_value F NoneV = ''None''"
| "str_value F (StrV s) = s"
| "str_value F (BoolV b) = (if b then ''True'' else ''False'')"
| "str_value F (IntV i) = int_text 10 i"
| "str_value F (FloatV r) = ft_repr F r"

text \<open>float(v or 0.0)\<close>

definition float_or_zero :: "float_text \<Rightarrow> config_value \<Rightarrow> py_error + real" where
  "float_or_zero F v =
     (if \<not> truthy_value v then Inr 0
      else case v of
             StrV s \<Rightarrow> (case ft_parse F s of None \<Rightarrow> Inl ValueError | Some r \<Rightarrow> Inr r)
           | BoolV b \<Rightarrow> Inr (of_bool b)
           | IntV i \<Rightarrow> Inr (of_int i)
           | FloatV r \<Rightarrow> Inr r
           | NoneV \<Rightarrow> Inr 0)"

text \<open>d.get(key), None for an absent key.\<close>

definition cfg_get :: "request_configs \<Rightarrow> string \<Rightarrow> config_value" where
  "cfg_get d key = (case map_of d key of None \<Rightarrow> NoneV | Some v \<Rightarrow> v)"

definition py_or :: "config_value \<Rightarrow> config_value \<Rightarrow> config_value" where
  "py_or v w = (if truthy_value v then v else w)"

section \<open>Levels, states and decisions\<close>

datatype fidelity_level = FULL | BASE

fun level_value :: "fidelity_level \<Rightarrow> string" where
  "level_value FULL = ''full''"
| "level_value BASE = ''base''"

text \<open>v in (''full'', ''base''), and the level it names.\<close>

definition level_of :: "config_value \<Rightarrow> fidelity_level option" where
  "level_of v = (if v = StrV ''full'' then Some FULL else if v = StrV ''base'' then Some BASE else None)"

datatype fidelity_state = MISS | BASE_READY | PROMOTING | FULL_READY | FULL_EVICTED

fun state_value :: "fidelity_state \<Rightarrow> string" where
  "state_value MISS = ''MISS''"
| "state_value BASE_READY = ''BASE_READY''"
| "state_value PROMOTING = ''PROMOTING''"
| "state_value FULL_READY = ''FULL_READY''"
| "state_value FULL_EVICTED = ''FULL_EVICTED''"

record fidelity_decision =
  fd_level :: fidelity_level
  fd_policy :: string
  fd_reason :: string

text \<open>The attributes of the configuration that matter here.\<close>

record fidelity_config =
  enable_fidelity_cache :: bool
  default_fidelity :: string
  fidelity_auto_context_threshold :: int
  fidelity_auto_kv_stall_threshold_ms :: real
  config_internal_state :: bool
  promotion_min_access_count :: int
  config_enable_promotion :: bool

abbreviation state_key :: string where
  "state_key \<equiv> ''lmcache.state_store_v0.state''"

abbreviation prefix_id_key :: string where
  "prefix_id_key \<equiv> ''lmcache.state_store_v0.prefix_id''"

abbreviation enable_promotion_key :: string where
  "enable_promotion_key \<equiv> ''lmcache.state_store_v0.enable_promotion''"

definition state_store_decisions :: "(string, fidelity_level \<times> string) dict" where
  "state_store_decisions =
     [(''FULL_READY'', (FULL, ''full_ready_hit'')),
      (''PROMOTING'', (BASE, ''promoting_read_base_no_duplicate'')),
      (''BASE_READY'', (BASE, ''base_ready_hit'')),
      (''FULL_EVICTED'', (FULL, ''full_evicted_reload_full_from_slow'')),
      (''MISS'', (BASE, ''miss_choose_base''))]"

definition py_upper :: "string \<Rightarrow> string" where
  "py_upper s = map ascii_upper s"

definition decide_state_store_v0 :: "float_text \<Rightarrow> request_configs \<Rightarrow> py_error + fidelity_decision option" where
  "decide_state_store_v0 F d =
     (let raw = (if cfg_get d state_key = NoneV then cfg_get d ''lmcache.prefix_state'' else cfg_get d state_key)
      in if raw = NoneV then Inr None
         else case map_of state_store_decisions (py_upper (py_strip (str_value F raw))) of
                None \<Rightarrow> Inl ValueError
              | Some (level, reason) \<Rightarrow>
                  Inr (Some \<lparr>fd_level = level, fd_policy = ''auto_state_store_v0'', fd_reason = reason\<rparr>))"

text \<open>The part of decide_fidelity after the states, for the policy auto.\<close>

definition decide_by_thresholds :: "float_text \<Rightarrow> fidelity_config \<Rightarrow> request_configs \<Rightarrow> int
    \<Rightarrow> py_error + fidelity_decision" where
  "decide_by_thresholds F c d context_len =
     (let stall = (case map_of d ''lmcache.recent_kv_stall_ms'' of
                     Some v \<Rightarrow> v
                   | None \<Rightarrow> (case map_of d ''recent_kv_stall_ms'' of Some v \<Rightarrow> v | None \<Rightarrow> FloatV 0))
      in case float_or_zero F stall of
           Inl e \<Rightarrow> Inl e
         | Inr recent \<Rightarrow>
             Inr (if context_len \<ge> fidelity_auto_context_threshold c \<and> recent \<ge> fidelity_auto_kv_stall_threshold_ms c
                  then \<lparr>fd_level = BASE, fd_policy = ''auto'', fd_reason = ''context_and_kv_stall_threshold''\<rparr>
                  else if context_len \<ge> fidelity_auto_context_threshold c \<and> fidelity_auto_kv_stall_threshold_ms c \<le> 0
                  then \<lparr>fd_level = BASE, fd_policy = ''auto'', fd_reason = ''context_threshold_only''\<rparr>
                  else \<lparr>fd_level = FULL, fd_policy = ''auto'', fd_reason = ''below_auto_threshold''\<rparr>))"

definition explicit_fidelity :: "request_configs \<Rightarrow> config_value" where
  "explicit_fidelity d = py_or (cfg_get d ''lmcache.fidelity'') (cfg_get d ''fidelity'')"

definition decide_fidelity :: "float_text \<Rightarrow> fidelity_config \<Rightarrow> request_configs \<Rightarrow> int
    \<Rightarrow> py_error + fidelity_decision" where
  "decide_fidelity F c d context_len =
     (case level_of (explicit_fidelity d) of
        Some level \<Rightarrow> Inr \<lparr>fd_level = level, fd_policy = ''force_'' @ level_value level,
                           fd_reason = ''explicit_'' @ level_value level\<rparr>
      | None \<Rightarrow>
          (case level_of (StrV (default_fidelity c)) of
             Some level \<Rightarrow> Inr \<lparr>fd_level = level, fd_policy = ''default_'' @ level_value level,
                                fd_reason = ''config_default''\<rparr>
           | None \<Rightarrow>
               if default_fidelity c \<noteq> ''auto'' then Inl ValueError
               else (case decide_state_store_v0 F d of
                       Inl e \<Rightarrow> Inl e
                     | Inr (Some decision) \<Rightarrow> Inr decision
                     | Inr None \<Rightarrow> decide_by_thresholds F c d context_len)))"

text \<open>normalize_request_configs; an absent dictionary is None.\<close>

definition normalize_configs :: "float_text \<Rightarrow> fidelity_config \<Rightarrow> request_configs option \<Rightarrow> int
    \<Rightarrow> py_error + request_configs option \<times> fidelity_decision option" where
  "normalize_configs F c d context_len =
     (let copied = (case d of None \<Rightarrow> [] | Some d \<Rightarrow> d)
      in if \<not> enable_fidelity_cache c then Inr (d, None)
         else case decide_fidelity F c copied context_len of
                Inl e \<Rightarrow> Inl e
              | Inr decision \<Rightarrow>
                  let v = StrV (level_value (fd_level decision))
                  in Inr (Some (dict_set ''lmcache.tag.fidelity'' v
                            (dict_set ''lmcache.fidelity_reason'' (StrV (fd_reason decision))
                              (dict_set ''lmcache.fidelity_policy'' (StrV (fd_policy decision))
                                (dict_set ''lmcache.fidelity'' v copied)))),
                          Some decision))"

definition request_configs_for_level :: "request_configs option \<Rightarrow> fidelity_level \<Rightarrow> request_configs" where
  "request_configs_for_level d level =
     dict_set ''lmcache.tag.fidelity'' (StrV (level_value level))
       (dict_set ''lmcache.fidelity'' (StrV (level_value level)) (case d of None \<Rightarrow> [] | Some d \<Rightarrow> d))"

definition get_fidelity_level :: "request_configs option \<Rightarrow> fidelity_level option" where
  "get_fidelity_level d =
     (case d of None \<Rightarrow> None | Some [] \<Rightarrow> None | Some d \<Rightarrow> level_of (cfg_get d ''lmcache.fidelity''))"

section \<open>The state store and the hotness tracker\<close>

record fidelity_record =
  fr_state :: fidelity_state
  fr_updated_at :: int
  fr_reason :: string

type_synonym state_store = "(string, fidelity_record) dict"

definition fs_get :: "string \<Rightarrow> state_store \<Rightarrow> fidelity_state" where
  "fs_get prefix_id st = (case map_of st prefix_id of None \<Rightarrow> MISS | Some r \<Rightarrow> fr_state r)"

definition fs_set :: "int \<Rightarrow> string \<Rightarrow> fidelity_state \<Rightarrow> string \<Rightarrow> state_store \<Rightarrow> fidelity_state \<times> state_store" where
  "fs_set now prefix_id state reason st =
     (fs_get prefix_id st, dict_set prefix_id \<lparr>fr_state = state, fr_updated_at = now, fr_reason = reason\<rparr> st)"

definition fs_transition :: "int \<Rightarrow> string \<Rightarrow> fidelity_state \<Rightarrow> fidelity_state \<Rightarrow> string \<Rightarrow> state_store
    \<Rightarrow> bool \<times> state_store" where
  "fs_transition now prefix_id from_state to_state reason st =
     (if fs_get prefix_id st \<noteq> from_state then (False, st)
      else (True, dict_set prefix_id \<lparr>fr_state = to_state, fr_updated_at = now, fr_reason = reason\<rparr> st))"

record hotness_tracker =
  min_access_count :: int
  access_counts :: "(string, int) dict"

definition hotness_init :: "int \<Rightarrow> hotness_tracker" where
  "hotness_init n = \<lparr>min_access_count = max 1 n, access_counts = []\<rparr>"

definition hot_get :: "string \<Rightarrow> hotness_tracker \<Rightarrow> int" where
  "hot_get prefix_id h = (case map_of (access_counts h) prefix_id of None \<Rightarrow> 0 | Some n \<Rightarrow> n)"

definition record_access :: "string \<Rightarrow> hotness_tracker \<Rightarrow> (int \<times> bool) \<times> hotness_tracker" where
  "record_access prefix_id h =
     (let n = hot_get prefix_id h + 1
      in ((n, n \<ge> min_access_count h), h\<lparr>access_counts := dict_set prefix_id n (access_counts h)\<rparr>))"

definition hot_reset :: "string \<Rightarrow> hotness_tracker \<Rightarrow> hotness_tracker" where
  "hot_reset prefix_id h = h\<lparr>access_counts := dict_del prefix_id (access_counts h)\<rparr>"

section \<open>The engine\<close>

text \<open>
  fe_stores is None unless the internal state is enabled. sha16 gives the first 16 hexadecimal digits of
  the SHA-1 of a text.
\<close>

record fidelity_engine =
  fe_config :: fidelity_config
  fe_stores :: "(state_store \<times> hotness_tracker) option"

definition fidelity_engine_init :: "fidelity_config \<Rightarrow> fidelity_engine" where
  "fidelity_engine_init c =
     \<lparr>fe_config = c,
      fe_stores = (if enable_fidelity_cache c \<and> config_internal_state c
                   then Some ([], hotness_init (promotion_min_access_count c)) else None)\<rparr>"

record fidelity_env =
  fx_float :: float_text
  fx_sha16 :: "string \<Rightarrow> string"

text \<open>What a request is about: its tokens, or the hashes of its chunks and their lengths.\<close>

record request_tokens =
  rt_tokens :: "int list option"
  rt_hashes :: "int list option"
  rt_offsets :: "int list option"

definition comma_separated :: "int list \<Rightarrow> string" where
  "comma_separated is = join_char (CHR '','') (map (int_text 10) is)"

definition internal_state_prefix_id :: "fidelity_env \<Rightarrow> request_configs option \<Rightarrow> request_tokens \<Rightarrow> string option" where
  "internal_state_prefix_id X d q =
     (let v = (case d of None \<Rightarrow> NoneV | Some d \<Rightarrow> cfg_get d prefix_id_key)
      in if truthy_value v then Some (str_value (fx_float X) v)
         else case rt_tokens q of
                Some ts \<Rightarrow> Some (fx_sha16 X (comma_separated ts))
              | None \<Rightarrow>
                  (case rt_hashes q of
                     Some hs \<Rightarrow>
                       Some (fx_sha16 X (''hashes:'' @ comma_separated hs @
                         (case rt_offsets q of None \<Rightarrow> [] | Some os \<Rightarrow> ''|offsets:'' @ comma_separated os)))
                   | None \<Rightarrow> None))"

definition request_config_bool :: "request_configs option \<Rightarrow> string \<Rightarrow> bool \<Rightarrow> bool" where
  "request_config_bool d key dflt =
     (case d of
        None \<Rightarrow> dflt
      | Some d \<Rightarrow>
          (case map_of d key of
             None \<Rightarrow> dflt
           | Some (StrV s) \<Rightarrow> py_lower (py_strip s) \<in> {''1'', ''true'', ''yes'', ''y'', ''on''}
           | Some v \<Rightarrow> truthy_value v))"

definition maybe_apply_internal_state :: "fidelity_env \<Rightarrow> fidelity_engine \<Rightarrow> request_configs option \<Rightarrow> request_tokens
    \<Rightarrow> request_configs option" where
  "maybe_apply_internal_state X e d q =
     (case fe_stores e of
        None \<Rightarrow> d
      | Some (states, hot) \<Rightarrow>
          let copied = (case d of None \<Rightarrow> [] | Some d \<Rightarrow> d)
          in if default_fidelity (fe_config e) \<noteq> ''auto'' then d
             else if level_of (explicit_fidelity copied) \<noteq> None then d
             else if state_key \<in> set (dict_keys copied) \<or> cfg_get copied ''lmcache.prefix_state'' \<noteq> NoneV then d
             else case internal_state_prefix_id X (Some copied) q of
                    None \<Rightarrow> d
                  | Some p \<Rightarrow>
                      Some (dict_set prefix_id_key (StrV p)
                        (dict_set state_key (StrV (state_value (fs_get p states))) copied)))"

definition context_length :: "request_tokens \<Rightarrow> int" where
  "context_length q =
     (case rt_tokens q of
        Some ts \<Rightarrow> int (length ts)
      | None \<Rightarrow> (case rt_offsets q of Some os \<Rightarrow> sum_list os | None \<Rightarrow> 0))"

text \<open>_normalize_request_configs of the engine; the log is left out.\<close>

definition engine_normalize :: "fidelity_env \<Rightarrow> fidelity_engine \<Rightarrow> request_configs option \<Rightarrow> request_tokens
    \<Rightarrow> py_error + request_configs option \<times> fidelity_level option" where
  "engine_normalize X e d q =
     map_sum id (map_prod id (map_option fd_level))
       (normalize_configs (fx_float X) (fe_config e) (maybe_apply_internal_state X e d q) (context_length q))"

definition update_after_store :: "fidelity_env \<Rightarrow> int \<Rightarrow> request_configs option \<Rightarrow> fidelity_level option
    \<Rightarrow> request_tokens \<Rightarrow> fidelity_engine \<Rightarrow> fidelity_engine" where
  "update_after_store X now d level q e =
     (case (fe_stores e, level) of
        (Some (states, hot), Some l) \<Rightarrow>
          if request_config_bool d ''lmcache.skip_save'' False then e
          else (case internal_state_prefix_id X d q of
                  None \<Rightarrow> e
                | Some p \<Rightarrow>
                    (case l of
                       BASE \<Rightarrow>
                         if fs_get p states \<in> {PROMOTING, FULL_READY} then e
                         else e\<lparr>fe_stores := Some (snd (fs_set now p BASE_READY ''store_base_complete'' states), hot)\<rparr>
                     | FULL \<Rightarrow>
                         e\<lparr>fe_stores := Some (snd (fs_set now p FULL_READY ''store_full_complete'' states),
                                              hot_reset p hot)\<rparr>))
      | _ \<Rightarrow> e)"

definition update_after_retrieve :: "fidelity_env \<Rightarrow> int \<Rightarrow> request_configs option \<Rightarrow> fidelity_level option
    \<Rightarrow> int \<Rightarrow> int list option \<Rightarrow> fidelity_engine \<Rightarrow> fidelity_engine" where
  "update_after_retrieve X now d level retrieved_tokens tokens e =
     (case (fe_stores e, level) of
        (Some (states, hot), Some l) \<Rightarrow>
          if request_config_bool d ''lmcache.skip_save'' False then e
          else (case internal_state_prefix_id X d \<lparr>rt_tokens = tokens, rt_hashes = None, rt_offsets = None\<rparr> of
                  None \<Rightarrow> e
                | Some p \<Rightarrow>
                    let current = fs_get p states
                    in if retrieved_tokens \<le> 0
                       then (if l = FULL \<and> current = FULL_READY
                             then e\<lparr>fe_stores := Some (snd (fs_set now p FULL_EVICTED
                                      ''full_retrieve_miss_after_full_ready'' states), hot)\<rparr>
                             else e)
                       else (case l of
                               FULL \<Rightarrow>
                                 e\<lparr>fe_stores := Some (snd (fs_set now p FULL_READY ''full_retrieve_hit'' states),
                                                      hot_reset p hot)\<rparr>
                             | BASE \<Rightarrow>
                                 let states1 = (if current = MISS
                                                then snd (fs_set now p BASE_READY ''base_retrieve_hit_recovered_state'' states)
                                                else states);
                                     current1 = (if current = MISS then BASE_READY else current);
                                     ((access_count, hot_enough), hot1) = record_access p hot;
                                     promote = request_config_bool d enable_promotion_key
                                                 (config_enable_promotion (fe_config e))
                                 in if promote \<and> hot_enough \<and> current1 = BASE_READY
                                    then e\<lparr>fe_stores := Some (snd (fs_transition now p BASE_READY PROMOTING
                                             ''hotness_threshold'' states1), hot1)\<rparr>
                                    else e\<lparr>fe_stores := Some (states1, hot1)\<rparr>))
      | _ \<Rightarrow> e)"

section \<open>What a request can change\<close>

abbreviation state_of :: "fidelity_engine \<Rightarrow> string \<Rightarrow> fidelity_state" where
  "state_of e p \<equiv> (case fe_stores e of None \<Rightarrow> MISS | Some (states, hot) \<Rightarrow> fs_get p states)"

lemma fs_get_set [simp]:
  "fs_get p (dict_set p' r st) = (if p = p' then fr_state r else fs_get p st)"
  by (simp add: fs_get_def dict_simps)

text \<open>The step of one request on one prefix, with the internal state enabled.\<close>

definition fidelity_moves :: "fidelity_state \<Rightarrow> fidelity_state \<Rightarrow> bool" where
  "fidelity_moves s s' \<longleftrightarrow>
     (\<exists>X now d level q n tokens e e' p. fe_stores e \<noteq> None \<and> state_of e p = s \<and> state_of e' p = s' \<and>
        (e' = update_after_store X now d level q e \<or> e' = update_after_retrieve X now d level n tokens e))"

text \<open>The transitions of PHASE2_STATE_MACHINE.md.\<close>

definition documented_transitions :: "(fidelity_state \<times> fidelity_state) set" where
  "documented_transitions =
     {(MISS, BASE_READY), (BASE_READY, PROMOTING), (PROMOTING, FULL_READY), (PROMOTING, BASE_READY),
      (FULL_READY, FULL_EVICTED), (FULL_EVICTED, FULL_READY), (FULL_EVICTED, MISS)}"

lemma store_cases:
  obtains (none) "update_after_store X now d level q e = e"
  | (base) p states hot where "fe_stores e = Some (states, hot)" "level = Some BASE"
      "fs_get p states \<notin> {PROMOTING, FULL_READY}"
      "update_after_store X now d level q e =
         e\<lparr>fe_stores := Some (snd (fs_set now p BASE_READY ''store_base_complete'' states), hot)\<rparr>"
  | (full) p states hot where "fe_stores e = Some (states, hot)" "level = Some FULL"
      "update_after_store X now d level q e =
         e\<lparr>fe_stores := Some (snd (fs_set now p FULL_READY ''store_full_complete'' states), hot_reset p hot)\<rparr>"
proof (cases "fe_stores e = None \<or> level = None \<or> request_config_bool d ''lmcache.skip_save'' False \<or>
    internal_state_prefix_id X d q = None")
  case True
  then have "update_after_store X now d level q e = e"
    by (auto simp: update_after_store_def split: option.splits)
  then show ?thesis by (rule none)
next
  case False
  then obtain states hot l p where st: "fe_stores e = Some (states, hot)" "level = Some l"
    and skip: "\<not> request_config_bool d ''lmcache.skip_save'' False"
    and p: "internal_state_prefix_id X d q = Some p" by auto
  note unfold = update_after_store_def st skip p
  show ?thesis
  proof (cases l)
    case FULL
    then show ?thesis using st by (intro full [of states hot p]) (simp_all add: unfold)
  next
    case BASE
    show ?thesis
    proof (cases "fs_get p states \<in> {PROMOTING, FULL_READY}")
      case True
      then show ?thesis using BASE by (intro none) (auto simp: unfold)
    next
      case False
      then have "update_after_store X now d level q e =
          e\<lparr>fe_stores := Some (snd (fs_set now p BASE_READY ''store_base_complete'' states), hot)\<rparr>"
        using BASE by (simp add: unfold)
      then show ?thesis using BASE st False by (intro base) simp_all
    qed
  qed
qed

lemma store_moves:
  assumes "e' = update_after_store X now d level q e" "state_of e' p \<noteq> state_of e p"
  shows "state_of e' p = FULL_READY \<and> level = Some FULL \<or>
    state_of e' p = BASE_READY \<and> level = Some BASE \<and> state_of e p \<in> {MISS, FULL_EVICTED}"
proof (cases rule: store_cases [of X now d level q e])
  case none
  then show ?thesis using assms by simp
next
  case (base p' states hot)
  then show ?thesis using assms by (cases "fs_get p states") (auto simp: fs_set_def split: if_splits)
next
  case (full p' states hot)
  then show ?thesis using assms by (auto simp: fs_set_def split: if_splits)
qed

lemma retrieve_cases:
  obtains (none) "update_after_retrieve X now d level n tokens e = e"
  | (evicted) p states hot where "fe_stores e = Some (states, hot)" "level = Some FULL"
      "fs_get p states = FULL_READY"
      "update_after_retrieve X now d level n tokens e =
         e\<lparr>fe_stores := Some (snd (fs_set now p FULL_EVICTED ''full_retrieve_miss_after_full_ready'' states), hot)\<rparr>"
  | (full) p states hot where "fe_stores e = Some (states, hot)" "level = Some FULL"
      "update_after_retrieve X now d level n tokens e =
         e\<lparr>fe_stores := Some (snd (fs_set now p FULL_READY ''full_retrieve_hit'' states), hot_reset p hot)\<rparr>"
  | (base) p states hot states' hot' where "fe_stores e = Some (states, hot)" "level = Some BASE"
      "update_after_retrieve X now d level n tokens e = e\<lparr>fe_stores := Some (states', hot')\<rparr>"
      "\<forall>q. q \<noteq> p \<longrightarrow> fs_get q states' = fs_get q states"
      "fs_get p states' = fs_get p states \<or> fs_get p states' = BASE_READY \<and> fs_get p states = MISS \<or>
        fs_get p states' = PROMOTING \<and> fs_get p states \<in> {MISS, BASE_READY}"
proof (cases "fe_stores e = None \<or> level = None \<or> request_config_bool d ''lmcache.skip_save'' False \<or>
    internal_state_prefix_id X d \<lparr>rt_tokens = tokens, rt_hashes = None, rt_offsets = None\<rparr> = None")
  case True
  then have "update_after_retrieve X now d level n tokens e = e"
    by (auto simp: update_after_retrieve_def split: option.splits)
  then show ?thesis by (rule none)
next
  case False
  then obtain states hot l p where st: "fe_stores e = Some (states, hot)" "level = Some l"
    and skip: "\<not> request_config_bool d ''lmcache.skip_save'' False"
    and p: "internal_state_prefix_id X d \<lparr>rt_tokens = tokens, rt_hashes = None, rt_offsets = None\<rparr> = Some p"
    by auto
  note unfold = update_after_retrieve_def st skip p Let_def
  show ?thesis
  proof (cases l)
    case FULL
    then consider "n \<le> 0" "fs_get p states = FULL_READY" | "n \<le> 0" "fs_get p states \<noteq> FULL_READY" | "0 < n"
      by linarith
    then show ?thesis
    proof cases
      case 1
      then show ?thesis using FULL st by (intro evicted [of states hot p]) (simp_all add: unfold)
    next
      case 2
      then show ?thesis using FULL by (intro none) (simp add: unfold)
    next
      case 3
      then show ?thesis using FULL st by (intro full [of states hot p]) (simp_all add: unfold)
    qed
  next
    case BASE
    show ?thesis
    proof (cases "n \<le> 0")
      case True
      then show ?thesis using BASE by (intro none) (simp add: unfold)
    next
      case False
      define states1 where "states1 = (if fs_get p states = MISS
        then snd (fs_set now p BASE_READY ''base_retrieve_hit_recovered_state'' states) else states)"
      define current where "current = (if fs_get p states = MISS then BASE_READY else fs_get p states)"
      obtain k hot_enough hot1 where h: "record_access p hot = ((k, hot_enough), hot1)" by (metis prod.collapse)
      define up where "up \<longleftrightarrow> request_config_bool d enable_promotion_key (config_enable_promotion (fe_config e)) \<and>
        hot_enough \<and> current = BASE_READY"
      define states' where "states' = (if up then snd (fs_transition now p BASE_READY PROMOTING ''hotness_threshold'' states1)
        else states1)"
      have e': "update_after_retrieve X now d level n tokens e = e\<lparr>fe_stores := Some (states', hot1)\<rparr>"
        using False BASE by (simp add: unfold h states'_def up_def states1_def current_def)
      show ?thesis
        by (rule base [OF st(1) _ e', of p])
          (use st BASE in \<open>auto simp: states'_def states1_def up_def current_def fs_set_def fs_transition_def split: if_splits\<close>)
    qed
  qed
qed

lemma retrieve_moves:
  assumes "e' = update_after_retrieve X now d level n tokens e" "state_of e' p \<noteq> state_of e p"
  shows "state_of e' p = FULL_READY \<and> level = Some FULL \<or>
    state_of e' p = FULL_EVICTED \<and> level = Some FULL \<and> state_of e p = FULL_READY \<or>
    level = Some BASE \<and> (state_of e' p = BASE_READY \<and> state_of e p = MISS \<or>
      state_of e' p = PROMOTING \<and> state_of e p \<in> {MISS, BASE_READY})"
proof (cases rule: retrieve_cases [of X now d level n tokens e])
  case none
  then show ?thesis using assms by simp
next
  case (evicted p' states hot)
  then show ?thesis using assms by (auto simp: fs_set_def split: if_splits)
next
  case (full p' states hot)
  then show ?thesis using assms by (auto simp: fs_set_def split: if_splits)
next
  case (base p' states hot states' hot')
  then show ?thesis using assms by (cases "p = p'") auto
qed

text \<open>A configuration with every feature on, and an engine that knows one prefix.\<close>

definition promoting_config :: fidelity_config where
  "promoting_config = \<lparr>enable_fidelity_cache = True, default_fidelity = ''auto'',
     fidelity_auto_context_threshold = 16384, fidelity_auto_kv_stall_threshold_ms = 200,
     config_internal_state = True, promotion_min_access_count = 1, config_enable_promotion = True\<rparr>"

definition plain_env :: fidelity_env where
  "plain_env = \<lparr>fx_float = \<lparr>ft_parse = \<lambda>s. None, ft_repr = \<lambda>r. []\<rparr>, fx_sha16 = take 16\<rparr>"

definition knowing :: "fidelity_state \<Rightarrow> fidelity_engine" where
  "knowing s = \<lparr>fe_config = promoting_config,
     fe_stores = Some ([(''p'', \<lparr>fr_state = s, fr_updated_at = 0, fr_reason = []\<rparr>)], hotness_init 1)\<rparr>"

abbreviation about_p :: "request_configs option" where
  "about_p \<equiv> Some [(prefix_id_key, StrV ''p'')]"

lemma move_by_store:
  "state_of (update_after_store plain_env 1 about_p (Some l) q (knowing s)) ''p'' = s' \<Longrightarrow> fidelity_moves s s'"
  unfolding fidelity_moves_def
  by (rule exI [of _ plain_env], rule exI [of _ 1], rule exI [of _ about_p], rule exI [of _ "Some l"],
      rule exI [of _ q], rule exI [of _ 0], rule exI [of _ None], rule exI [of _ "knowing s"])
    (auto simp: knowing_def fs_get_def)

lemma move_by_retrieve:
  "state_of (update_after_retrieve plain_env 1 about_p (Some l) n None (knowing s)) ''p'' = s' \<Longrightarrow> fidelity_moves s s'"
  unfolding fidelity_moves_def
  by (rule exI [of _ plain_env], rule exI [of _ 1], rule exI [of _ about_p], rule exI [of _ "Some l"],
      rule exI [of _ undefined], rule exI [of _ n], rule exI [of _ None], rule exI [of _ "knowing s"])
    (auto simp: knowing_def fs_get_def)

lemmas knowing_defs = knowing_def promoting_config_def plain_env_def update_after_store_def update_after_retrieve_def
  request_config_bool_def internal_state_prefix_id_def cfg_get_def fs_set_def fs_transition_def fs_get_def
  record_access_def hot_get_def hotness_init_def hot_reset_def Let_def

lemma moves_exist:
  "fidelity_moves s FULL_READY" "fidelity_moves FULL_READY FULL_EVICTED" "fidelity_moves MISS BASE_READY"
  "fidelity_moves FULL_EVICTED BASE_READY" "fidelity_moves MISS PROMOTING" "fidelity_moves BASE_READY PROMOTING"
  by (rule move_by_store [of FULL undefined], simp add: knowing_defs)
    (rule move_by_retrieve [of FULL 0], simp add: knowing_defs,
     rule move_by_store [of BASE undefined], simp add: knowing_defs,
     rule move_by_store [of BASE undefined], simp add: knowing_defs,
     rule move_by_retrieve [of BASE 1], simp add: knowing_defs,
     rule move_by_retrieve [of BASE 1], simp add: knowing_defs)

section \<open>Requests that leave the choice to the policy\<close>

datatype fidelity_event =
    Stored "request_configs option" request_tokens int
  | Retrieved "request_configs option" "int list" int int

text \<open>
  A store that has finished, and a retrieval of so many tokens; a request that cannot be normalised
  raises before it changes anything. The last argument of each is the time.
\<close>

fun handle_event :: "fidelity_env \<Rightarrow> fidelity_event \<Rightarrow> fidelity_engine \<Rightarrow> fidelity_engine" where
  "handle_event X (Stored d q now) e =
     (case engine_normalize X e d q of
        Inl err \<Rightarrow> e
      | Inr (d', level) \<Rightarrow> update_after_store X now d' level q e)"
| "handle_event X (Retrieved d tokens n now) e =
     (case engine_normalize X e d \<lparr>rt_tokens = Some tokens, rt_hashes = None, rt_offsets = None\<rparr> of
        Inl err \<Rightarrow> e
      | Inr (d', level) \<Rightarrow> update_after_retrieve X now d' level n (Some tokens) e)"

text \<open>The request names neither a fidelity nor a state.\<close>

definition implicit :: "request_configs option \<Rightarrow> bool" where
  "implicit d \<longleftrightarrow>
     (let d = (case d of None \<Rightarrow> [] | Some d \<Rightarrow> d)
      in level_of (explicit_fidelity d) = None \<and> state_key \<notin> set (dict_keys d) \<and>
         cfg_get d ''lmcache.prefix_state'' = NoneV)"

definition has_tokens :: "request_tokens \<Rightarrow> bool" where
  "has_tokens q \<longleftrightarrow> rt_tokens q \<noteq> None \<or> rt_hashes q \<noteq> None"

fun implicit_event :: "fidelity_event \<Rightarrow> bool" where
  "implicit_event (Stored d q now) \<longleftrightarrow> implicit d \<and> has_tokens q"
| "implicit_event (Retrieved d tokens n now) \<longleftrightarrow> implicit d"

definition auto_inv :: "fidelity_config \<Rightarrow> fidelity_engine \<Rightarrow> bool" where
  "auto_inv c e \<longleftrightarrow> fe_config e = c \<and> fe_stores e \<noteq> None \<and>
     (\<forall>p. state_of e p \<in> {MISS, BASE_READY, PROMOTING})"

lemma cfg_get_set [simp]: "cfg_get (dict_set k v d) j = (if j = k then v else cfg_get d j)"
  by (simp add: cfg_get_def dict_simps)

lemma state_names:
  "map_of state_store_decisions (py_upper (py_strip (state_value MISS))) = Some (BASE, ''miss_choose_base'')"
  "map_of state_store_decisions (py_upper (py_strip (state_value BASE_READY))) = Some (BASE, ''base_ready_hit'')"
  "map_of state_store_decisions (py_upper (py_strip (state_value PROMOTING))) =
     Some (BASE, ''promoting_read_base_no_duplicate'')"
  by code_simp+

lemma decide_known_state:
  assumes "level_of (explicit_fidelity d) = None" "default_fidelity c = ''auto''"
    and "cfg_get d state_key = StrV (state_value st)" "st \<in> {MISS, BASE_READY, PROMOTING}"
  shows "\<exists>decision. decide_fidelity F c d len = Inr decision \<and> fd_level decision = BASE"
proof -
  have "\<exists>reason. map_of state_store_decisions (py_upper (py_strip (state_value st))) = Some (BASE, reason)"
    using assms(4) state_names by blast
  then obtain reason where "map_of state_store_decisions (py_upper (py_strip (state_value st))) = Some (BASE, reason)" ..
  then have "decide_state_store_v0 F d =
      Inr (Some \<lparr>fd_level = BASE, fd_policy = ''auto_state_store_v0'', fd_reason = reason\<rparr>)"
    using assms(3) by (simp add: decide_state_store_v0_def)
  then show ?thesis using assms(1,2) by (simp add: decide_fidelity_def level_of_def)
qed

lemma implicit_is_base:
  assumes inv: "auto_inv c e" and c: "enable_fidelity_cache c" "default_fidelity c = ''auto''"
    and d: "implicit d" and q: "has_tokens q"
  shows "\<exists>d'. engine_normalize X e d q = Inr (d', Some BASE)"
proof -
  obtain states hot where st: "fe_stores e = Some (states, hot)" using inv by (auto simp: auto_inv_def)
  let ?d = "case d of None \<Rightarrow> [] | Some d \<Rightarrow> d"
  have im: "level_of (explicit_fidelity ?d) = None" "state_key \<notin> set (dict_keys ?d)"
    "cfg_get ?d ''lmcache.prefix_state'' = NoneV" using d by (simp_all add: implicit_def Let_def)
  have "internal_state_prefix_id X (Some ?d) q \<noteq> None"
    using q by (cases "rt_tokens q"; cases "rt_hashes q") (simp_all add: internal_state_prefix_id_def has_tokens_def Let_def)
  then obtain p where p: "internal_state_prefix_id X (Some ?d) q = Some p" by auto
  let ?d1 = "dict_set prefix_id_key (StrV p) (dict_set state_key (StrV (state_value (fs_get p states))) ?d)"
  have cfg: "fe_config e = c" using inv by (simp add: auto_inv_def)
  have apply_state: "maybe_apply_internal_state X e d q = Some ?d1"
    unfolding maybe_apply_internal_state_def st Let_def option.case prod.case using im p c(2) cfg by simp
  have ex: "level_of (explicit_fidelity ?d1) = None" using im(1) by (simp add: explicit_fidelity_def)
  have st_of: "fs_get p states \<in> {MISS, BASE_READY, PROMOTING}"
    using inv st by (simp add: auto_inv_def)
  have "cfg_get ?d1 state_key = StrV (state_value (fs_get p states))" by simp
  from decide_known_state [OF ex c(2) this st_of, of "fx_float X" "context_length q"] obtain decision where
    "decide_fidelity (fx_float X) c ?d1 (context_length q) = Inr decision" "fd_level decision = BASE" by blast
  then show ?thesis
    unfolding engine_normalize_def apply_state normalize_configs_def option.case cfg Let_def using c(1) by simp
qed

lemma auto_inv_event:
  assumes inv: "auto_inv c e" and c: "enable_fidelity_cache c" "default_fidelity c = ''auto''"
    and ev: "implicit_event ev"
  shows "auto_inv c (handle_event X ev e) \<and>
    (\<forall>p. state_of e p = PROMOTING \<longrightarrow> state_of (handle_event X ev e) p = PROMOTING)"
proof (cases ev)
  case (Stored d q now)
  from implicit_is_base [OF inv c, of d q X] ev Stored obtain d'
    where n: "engine_normalize X e d q = Inr (d', Some BASE)" by auto
  let ?e = "update_after_store X now d' (Some BASE) q e"
  have h: "handle_event X ev e = ?e" by (simp add: Stored n)
  have cfg: "fe_config ?e = fe_config e \<and> fe_stores ?e \<noteq> None"
    by (cases rule: store_cases [of X now d' "Some BASE" q e]) (use inv in \<open>auto simp: auto_inv_def\<close>)
  have mv: "state_of ?e p = state_of e p \<or> state_of ?e p = BASE_READY \<and> state_of e p \<in> {MISS, FULL_EVICTED}" for p
    using store_moves [of ?e X now d' "Some BASE" q e p] by blast
  have "state_of ?e p \<in> {MISS, BASE_READY, PROMOTING}" for p
    using mv [of p] inv by (auto simp: auto_inv_def)
  moreover have "state_of ?e p = PROMOTING" if "state_of e p = PROMOTING" for p
    using mv [of p] that by auto
  ultimately show ?thesis using inv cfg unfolding h by (simp add: auto_inv_def)
next
  case (Retrieved d tokens k now)
  let ?q = "\<lparr>rt_tokens = Some tokens, rt_hashes = None, rt_offsets = None\<rparr>"
  have q: "has_tokens ?q" by (simp add: has_tokens_def)
  from implicit_is_base [OF inv c _ q, of d X] ev Retrieved obtain d'
    where n: "engine_normalize X e d ?q = Inr (d', Some BASE)" by auto
  let ?e = "update_after_retrieve X now d' (Some BASE) k (Some tokens) e"
  have h: "handle_event X ev e = ?e" by (simp add: Retrieved n)
  have cfg: "fe_config ?e = fe_config e \<and> fe_stores ?e \<noteq> None"
    by (cases rule: retrieve_cases [of X now d' "Some BASE" k "Some tokens" e])
      (use inv in \<open>auto simp: auto_inv_def\<close>)
  have mv: "state_of ?e p = state_of e p \<or> state_of ?e p = BASE_READY \<and> state_of e p = MISS \<or>
      state_of ?e p = PROMOTING \<and> state_of e p \<in> {MISS, BASE_READY}" for p
    using retrieve_moves [of ?e X now d' "Some BASE" k "Some tokens" e p] by blast
  have "state_of ?e p \<in> {MISS, BASE_READY, PROMOTING}" for p
    using mv [of p] inv by (auto simp: auto_inv_def)
  moreover have "state_of ?e p = PROMOTING" if "state_of e p = PROMOTING" for p
    using mv [of p] that by auto
  ultimately show ?thesis using inv cfg unfolding h by (simp add: auto_inv_def)
qed

lemma auto_inv_run:
  assumes c: "enable_fidelity_cache c" "default_fidelity c = ''auto''"
  shows "auto_inv c e \<Longrightarrow> \<forall>ev \<in> set evs. implicit_event ev \<Longrightarrow>
    auto_inv c (fold (handle_event X) evs e) \<and>
    (\<forall>p. state_of e p = PROMOTING \<longrightarrow> state_of (fold (handle_event X) evs e) p = PROMOTING)"
proof (induction evs arbitrary: e)
  case (Cons ev evs)
  have "implicit_event ev" using Cons.prems(2) by simp
  from auto_inv_event [OF Cons.prems(1) c this, of X] Cons show ?case by simp
qed simp

section \<open>Properties\<close>

text \<open>C27: What a request can change about a prefix. The transitions of the engine are those that
  PHASE2_STATE_MACHINE.md lists, without the two for failures (a promotion that fails never goes
  back to BASE_READY, an evicted prefix never becomes MISS), and with four more: a miss can become
  promoting or full at once, a base prefix can become full without promotion, and a base store makes
  an evicted prefix BASE_READY.\<close>

theorem fidelity_transitions_spec:
  "fidelity_moves s s' \<and> s \<noteq> s' \<longleftrightarrow>
     (s, s') \<in> documented_transitions - {(PROMOTING, BASE_READY), (FULL_EVICTED, MISS)} \<union>
       {(MISS, PROMOTING), (MISS, FULL_READY), (BASE_READY, FULL_READY), (FULL_EVICTED, BASE_READY)}"
proof
  assume "fidelity_moves s s' \<and> s \<noteq> s'"
  then obtain X now d level q n tokens e e' p where
    st: "state_of e p = s" "state_of e' p = s'" "s \<noteq> s'"
    and up: "e' = update_after_store X now d level q e \<or> e' = update_after_retrieve X now d level n tokens e"
    unfolding fidelity_moves_def by blast
  have ne: "state_of e' p \<noteq> state_of e p" using st by simp
  from up have "s' = FULL_READY \<or> s' = BASE_READY \<and> s \<in> {MISS, FULL_EVICTED} \<or>
    s' = FULL_EVICTED \<and> s = FULL_READY \<or> s' = PROMOTING \<and> s \<in> {MISS, BASE_READY}"
  proof
    assume "e' = update_after_store X now d level q e"
    from store_moves [OF this ne] show ?thesis unfolding st(1,2) by blast
  next
    assume "e' = update_after_retrieve X now d level n tokens e"
    from retrieve_moves [OF this ne] show ?thesis unfolding st(1,2) by blast
  qed
  then show "(s, s') \<in> documented_transitions - {(PROMOTING, BASE_READY), (FULL_EVICTED, MISS)} \<union>
       {(MISS, PROMOTING), (MISS, FULL_READY), (BASE_READY, FULL_READY), (FULL_EVICTED, BASE_READY)}"
    using st(3) by (cases s) (auto simp: documented_transitions_def)
next
  assume "(s, s') \<in> documented_transitions - {(PROMOTING, BASE_READY), (FULL_EVICTED, MISS)} \<union>
       {(MISS, PROMOTING), (MISS, FULL_READY), (BASE_READY, FULL_READY), (FULL_EVICTED, BASE_READY)}"
  then show "fidelity_moves s s' \<and> s \<noteq> s'" using moves_exist by (auto simp: documented_transitions_def)
qed

text \<open>C28: Left to the policy, a prefix is never promoted to full precision. With the automatic policy
  and the internal state, after any history of stores and retrievals that name no fidelity, every such
  request is given the base form, no prefix is in full precision, and one that is hot enough to be
  promoted stays promoting for ever.\<close>

theorem automatic_requests_stay_base:
  assumes c: "enable_fidelity_cache c" "default_fidelity c = ''auto''" "config_internal_state c"
    and evs: "\<forall>ev \<in> set (evs @ later). implicit_event ev" and d: "implicit d" "has_tokens q"
  shows "(\<exists>d'. engine_normalize X (fold (handle_event X) evs (fidelity_engine_init c)) d q = Inr (d', Some BASE)) \<and>
    state_of (fold (handle_event X) evs (fidelity_engine_init c)) p \<in> {MISS, BASE_READY, PROMOTING} \<and>
    (state_of (fold (handle_event X) evs (fidelity_engine_init c)) p = PROMOTING \<longrightarrow>
     state_of (fold (handle_event X) (evs @ later) (fidelity_engine_init c)) p = PROMOTING)"
proof -
  have "auto_inv c (fidelity_engine_init c)"
    using c by (simp add: auto_inv_def fidelity_engine_init_def fs_get_def)
  with auto_inv_run [OF c(1,2) this, of evs X] evs
  have inv: "auto_inv c (fold (handle_event X) evs (fidelity_engine_init c))" by simp
  have later: "\<forall>ev \<in> set later. implicit_event ev" using evs by simp
  from auto_inv_run [OF c(1,2) inv later, of X] implicit_is_base [OF inv c(1,2) d, of X] inv show ?thesis
    by (simp add: auto_inv_def)
qed

section \<open>Examples\<close>

text \<open>A store and a hit make the prefix of two tokens promoting; nothing later changes that.\<close>

definition hot_requests :: "fidelity_event list" where
  "hot_requests =
     [Stored None \<lparr>rt_tokens = Some [7, 8], rt_hashes = None, rt_offsets = None\<rparr> 1, Retrieved None [7, 8] 2 2]"

lemma automatic_requests_stay_base_witness:
  "(\<exists>d'. engine_normalize plain_env (fold (handle_event plain_env) hot_requests (fidelity_engine_init promoting_config))
      None \<lparr>rt_tokens = Some [7, 8], rt_hashes = None, rt_offsets = None\<rparr> = Inr (d', Some BASE)) \<and>
    state_of (fold (handle_event plain_env) (hot_requests @ hot_requests) (fidelity_engine_init promoting_config)) ''7,8'' =
      PROMOTING"
proof -
  have c: "enable_fidelity_cache promoting_config" "default_fidelity promoting_config = ''auto''"
    "config_internal_state promoting_config" by (simp_all add: promoting_config_def)
  have im: "implicit None" by (simp add: implicit_def explicit_fidelity_def cfg_get_def py_or_def level_of_def)
  then have evs: "\<forall>ev \<in> set (hot_requests @ hot_requests). implicit_event ev"
    by (simp add: hot_requests_def has_tokens_def)
  have q: "has_tokens \<lparr>rt_tokens = Some [7, 8], rt_hashes = None, rt_offsets = None\<rparr>" by (simp add: has_tokens_def)
  have "state_of (fold (handle_event plain_env) hot_requests (fidelity_engine_init promoting_config)) ''7,8'' = PROMOTING"
    by code_simp
  with automatic_requests_stay_base [OF c evs im q, of plain_env "''7,8''"] show ?thesis by blast
qed

end
