(* ===== verification/Engine_Store.thy ===== *)
theory Engine_Store
  imports Engine_Retrieve Fidelity
begin

text \<open>
  LMCacheEngine.store of lmcache/v1/cache_engine.py: the chunks of a request get memory, are filled from
  the GPU and put into the storage backends, in one precision or, for the dual store, in both. The
  copy from the GPU and the codec are arguments, as are the token database and the manager's
  batched_put; tracing and the events for the serving engine are left out. The state is the fidelity
  part of the engine, as in Fidelity, and the state of the storage.
\<close>

section \<open>Where the two forms go\<close>

record store_config =
  store_base_variant :: bool
  store_full_variant :: bool
  cleanup_base_on_full_store :: bool
  store_base_target :: "string option"
  store_full_target :: "string option"
  store_location :: "string option"

definition target_mapping :: "(string, string) dict" where
  "target_mapping =
     [(''local_cpu'', ''LocalCPUBackend''), (''cpu'', ''LocalCPUBackend''), (''localdisk'', ''LocalDiskBackend''),
      (''local_disk'', ''LocalDiskBackend''), (''disk'', ''LocalDiskBackend'')]"

definition resolve_store_location :: "store_config \<Rightarrow> 's tier_manager \<Rightarrow> bool \<Rightarrow> string option
    \<Rightarrow> py_error + string option \<times> bool" where
  "resolve_store_location c m require_available target =
     (let name = py_strip (case target of None \<Rightarrow> [] | Some t \<Rightarrow> t)
      in if name = [] \<or> py_lower name \<in> {''default'', ''store_location''} then Inr (store_location c, True)
         else let location = (case map_of target_mapping (py_lower name) of None \<Rightarrow> name | Some l \<Rightarrow> l)
              in if location \<notin> set (dict_keys (storage_backends m))
                 then (if require_available then Inl ValueError else Inr (None, False))
                 else Inr (Some location, True))"

definition validate_dual_store_targets :: "string option \<Rightarrow> string option \<Rightarrow> py_error + unit" where
  "validate_dual_store_targets base_location full_location =
     (if base_location \<noteq> Some ''LocalCPUBackend'' then Inl ValueError
      else if full_location = None then Inl ValueError else Inr ())"

definition should_dual_store_base :: "store_config \<Rightarrow> fidelity_config \<Rightarrow> fidelity_level option \<Rightarrow> bool" where
  "should_dual_store_base c fc level \<longleftrightarrow>
     enable_fidelity_cache fc \<and> level = Some BASE \<and> store_base_variant c \<and> store_full_variant c"

definition should_cleanup_base_on_full_store :: "store_config \<Rightarrow> fidelity_config \<Rightarrow> fidelity_level option \<Rightarrow> bool" where
  "should_cleanup_base_on_full_store c fc level \<longleftrightarrow>
     enable_fidelity_cache fc \<and> level = Some FULL \<and> cleanup_base_on_full_store c"

text \<open>Both targets of a dual store, or the error that ends it.\<close>

definition dual_targets :: "store_config \<Rightarrow> 's tier_manager \<Rightarrow> py_error + string option \<times> string option" where
  "dual_targets c m =
     (case resolve_store_location c m True (store_base_target c) of
        Inl e \<Rightarrow> Inl e
      | Inr (base_location, base_ok) \<Rightarrow>
          (case resolve_store_location c m True (store_full_target c) of
             Inl e \<Rightarrow> Inl e
           | Inr (full_location, full_ok) \<Rightarrow>
               if \<not> (base_ok \<and> full_ok) then Inl AssertionError
               else map_sum id (\<lambda>_. (base_location, full_location))
                      (validate_dual_store_targets base_location full_location)))"

section \<open>The store\<close>

text \<open>
  What the store calls: allocate an object for so many tokens in the dtypes of the form, copy from the GPU, encode an object for
  the base form (it may return the same object), and the methods of objects and of the manager.
\<close>

record 's store_ops =
  so_allocate :: "fidelity_level option \<Rightarrow> nat \<Rightarrow> 's \<Rightarrow> nat option \<times> 's"
  so_from_gpu :: "nat list \<Rightarrow> 's \<Rightarrow> 's"
  so_encode :: "nat \<Rightarrow> 's \<Rightarrow> (nat, 's) outcome"
  so_ref_count_up :: "nat \<Rightarrow> 's \<Rightarrow> 's"
  so_ref_count_down :: "nat \<Rightarrow> 's \<Rightarrow> 's"
  so_batched_put :: "cache_engine_key list \<Rightarrow> nat list \<Rightarrow> string option \<Rightarrow> 's \<Rightarrow> (unit, 's) outcome"

fun allocate_chunks :: "'s store_ops \<Rightarrow> fidelity_level option \<Rightarrow> (nat \<times> nat \<times> cache_engine_key) list \<Rightarrow> 's
    \<Rightarrow> (cache_engine_key \<times> nat) list \<times> 's" where
  "allocate_chunks so level [] s = ([], s)"
| "allocate_chunks so level ((beg, stop, key) # infos) s =
     (case so_allocate so level (stop - beg) s of
        (None, s1) \<Rightarrow> ([], s1)
      | (Some r, s1) \<Rightarrow> (case allocate_chunks so level infos s1 of (stored, s2) \<Rightarrow> ((key, r) # stored, s2)))"

fun encode_objects :: "(nat \<Rightarrow> 's \<Rightarrow> (nat, 's) outcome) \<Rightarrow> nat list \<Rightarrow> 's \<Rightarrow> (nat list, 's) outcome" where
  "encode_objects enc [] s = (Inr [], s)"
| "encode_objects enc (r # rs) s =
     (case enc r s of
        (Inl e, s1) \<Rightarrow> (Inl e, s1)
      | (Inr r', s1) \<Rightarrow>
          (case encode_objects enc rs s1 of
             (Inl e, s2) \<Rightarrow> (Inl e, s2)
           | (Inr rs', s2) \<Rightarrow> (Inr (r' # rs'), s2)))"

text \<open>
  The encoding of a dual store keeps the original, of which it takes another reference when the
  codec returns it; the encoding of a single store gives the original back.
\<close>

definition encode_dual :: "'s store_ops \<Rightarrow> nat \<Rightarrow> 's \<Rightarrow> (nat, 's) outcome" where
  "encode_dual so r s =
     (case so_encode so r s of
        (Inl e, s1) \<Rightarrow> (Inl e, s1)
      | (Inr r', s1) \<Rightarrow> (Inr r', if r' = r then so_ref_count_up so r s1 else s1))"

definition encode_single :: "'s store_ops \<Rightarrow> fidelity_level option \<Rightarrow> nat \<Rightarrow> 's \<Rightarrow> (nat, 's) outcome" where
  "encode_single so level r s =
     (if level \<noteq> Some BASE then (Inr r, s)
      else case so_encode so r s of
             (Inl e, s1) \<Rightarrow> (Inl e, s1)
           | (Inr r', s1) \<Rightarrow> (Inr r', if r' \<noteq> r then so_ref_count_down so r s1 else s1))"

definition put_dual :: "'s store_ops \<Rightarrow> cache_engine_key list \<Rightarrow> cache_engine_key list \<Rightarrow> nat list
    \<Rightarrow> string option \<Rightarrow> string option \<Rightarrow> 's \<Rightarrow> (unit, 's) outcome" where
  "put_dual so full_keys keys rs base_location full_location s =
     (if length full_keys \<noteq> length keys then (Inl ValueError, s)
      else case encode_objects (encode_dual so) rs s of
             (Inl e, s1) \<Rightarrow> (Inl e, s1)
           | (Inr base_rs, s1) \<Rightarrow>
               (case so_batched_put so full_keys rs full_location s1 of
                  (Inl e, s2) \<Rightarrow> (Inl e, s2)
                | (Inr _, s2) \<Rightarrow> so_batched_put so keys base_rs base_location s2))"

definition put_single :: "'s store_ops \<Rightarrow> fidelity_level option \<Rightarrow> cache_engine_key list \<Rightarrow> nat list
    \<Rightarrow> string option \<Rightarrow> 's \<Rightarrow> (unit, 's) outcome" where
  "put_single so level keys rs location s =
     (case encode_objects (encode_single so level) rs s of
        (Inl e, s1) \<Rightarrow> (Inl e, s1)
      | (Inr rs', s1) \<Rightarrow> so_batched_put so keys rs' location s1)"

text \<open>
  The keys of all chunks in one form. db is what the token database yields for the request's tokens
  and mask, given its configuration.
\<close>

type_synonym token_chunks = "request_configs option \<Rightarrow> (nat \<times> nat \<times> cache_engine_key) list"

definition build_variant_keys :: "token_chunks \<Rightarrow> fidelity_config \<Rightarrow> request_configs option \<Rightarrow> fidelity_level
    \<Rightarrow> cache_engine_key list" where
  "build_variant_keys db fc d level =
     map (\<lambda>(beg, stop, key). key)
       (db (if enable_fidelity_cache fc then Some (request_configs_for_level d level) else d))"

definition cleanup_base_variant :: "token_chunks \<Rightarrow> fidelity_config \<Rightarrow> request_configs option \<Rightarrow> string option
    \<Rightarrow> 's tier_manager \<Rightarrow> 's \<Rightarrow> (int, 's) outcome" where
  "cleanup_base_variant db fc d location m s =
     (let base_keys = build_variant_keys db fc d BASE
      in if base_keys = [] then (Inr 0, s)
         else tm_batched_remove base_keys (if location \<in> {None, Some []} then None else Some [the location]) m s)"

text \<open>From the copy on: the put in one form or in both, then the cleanup of the base form.\<close>

definition put_chunks :: "'s store_ops \<Rightarrow> store_config \<Rightarrow> fidelity_config \<Rightarrow> token_chunks \<Rightarrow> request_configs option
    \<Rightarrow> fidelity_level option \<Rightarrow> 's tier_manager \<Rightarrow> cache_engine_key list \<Rightarrow> nat list \<Rightarrow> 's \<Rightarrow> (unit, 's) outcome" where
  "put_chunks so c fc db d level m keys rs s =
     (if should_dual_store_base c fc level
      then (case dual_targets c m of
              Inl e \<Rightarrow> (Inl e, s)
            | Inr (base_location, full_location) \<Rightarrow>
                put_dual so (build_variant_keys db fc d FULL) keys rs base_location full_location s)
      else put_single so level keys rs (store_location c) s)"

definition cleanup_after_store :: "store_config \<Rightarrow> fidelity_config \<Rightarrow> token_chunks \<Rightarrow> request_configs option
    \<Rightarrow> fidelity_level option \<Rightarrow> 's tier_manager \<Rightarrow> 's \<Rightarrow> (unit, 's) outcome" where
  "cleanup_after_store c fc db d level m s =
     (if \<not> should_cleanup_base_on_full_store c fc level then (Inr (), s)
      else case resolve_store_location c m False (store_base_target c) of
             Inl e \<Rightarrow> (Inl e, s)
           | Inr (location, ok) \<Rightarrow>
               if \<not> ok then (Inr (), s)
               else apfst (map_sum id (\<lambda>_. ())) (cleanup_base_variant db fc d location m s))"

text \<open>
  store for the tokens q of a request with the configuration d; masked says that it comes with a
  mask. Unhealthy, passive and frozen engines do nothing.
\<close>

definition engine_store :: "fidelity_env \<Rightarrow> int \<Rightarrow> 's store_ops \<Rightarrow> store_config \<Rightarrow> bool \<Rightarrow> bool \<Rightarrow> token_chunks
    \<Rightarrow> bool \<Rightarrow> request_configs option \<Rightarrow> request_tokens \<Rightarrow> 's tier_manager \<Rightarrow> fidelity_engine \<times> 's
    \<Rightarrow> (unit, fidelity_engine \<times> 's) outcome" where
  "engine_store X now so c healthy passive db masked d q m = (\<lambda>(fe, s).
     if \<not> healthy \<or> passive then (Inr (), (fe, s))
     else if \<not> masked \<and> rt_tokens q = None \<and> rt_hashes q \<noteq> None \<and> rt_offsets q = None
     then (Inl AssertionError, (fe, s))
     else if rt_tokens q = None \<and> rt_hashes q = None then (Inl AssertionError, (fe, s))
     else if tm_freeze m then (Inr (), (fe, s))
     else case engine_normalize X fe d q of
            Inl e \<Rightarrow> (Inl e, (fe, s))
          | Inr (d1, level) \<Rightarrow>
              (case allocate_chunks so level (db d1) s of
                 ([], s1) \<Rightarrow> (Inr (), (fe, s1))
               | (stored, s1) \<Rightarrow>
                   (case put_chunks so c (fe_config fe) db d1 level m (map fst stored) (map snd stored)
                           (so_from_gpu so (map snd stored) s1) of
                      (Inl e, s2) \<Rightarrow> (Inl e, (fe, s2))
                    | (Inr _, s2) \<Rightarrow>
                        (case cleanup_after_store c (fe_config fe) db d1 level m s2 of
                           (Inl e, s3) \<Rightarrow> (Inl e, (fe, s3))
                         | (Inr _, s3) \<Rightarrow> (Inr (), (update_after_store X now d1 level q fe, s3))))))"

section \<open>Memory pressure\<close>

lemma allocate_chunks_prefix:
  "allocate_chunks so level infos s = (stored, s') \<Longrightarrow>
     map fst stored = take (length stored) (map (\<lambda>(beg, stop, key). key) infos)"
  by (induction infos arbitrary: s stored) (auto split: prod.splits option.splits)

text \<open>
  A dual store that gets memory for some of its chunks and not for all raises; the objects it has
  allocated are neither stored nor released, and the prefix keeps its state.
\<close>

lemma dual_store_under_pressure_raises:
  assumes norm: "engine_normalize X fe d q = Inr (d1, level)"
    and alloc: "allocate_chunks so level (db d1) s = (stored, s1)" "stored \<noteq> []" "length stored < length (db d1)"
    and variants: "length (build_variant_keys db (fe_config fe) d1 FULL) = length (db d1)"
    and dual: "should_dual_store_base c (fe_config fe) level" and targets: "dual_targets c m = Inr locations"
    and run: "\<not> tm_freeze m" "rt_tokens q \<noteq> None"
  shows "engine_store X now so c True False db masked d q m (fe, s) =
    (Inl ValueError, (fe, so_from_gpu so (map snd stored) s1))"
proof -
  obtain base_location full_location where l: "locations = (base_location, full_location)" by (cases locations)
  have "put_chunks so c (fe_config fe) db d1 level m (map fst stored) (map snd stored) t = (Inl ValueError, t)" for t
    using alloc(3) variants dual targets by (simp add: put_chunks_def put_dual_def l)
  then show ?thesis
    using norm alloc run by (cases stored) (auto simp: engine_store_def)
qed

text \<open>
  A store in one form puts the chunks that got memory, and with the put done the engine records the
  form of the prefix.
\<close>

lemma single_store_puts_the_prefix:
  assumes norm: "engine_normalize X fe d q = Inr (d1, level)"
    and alloc: "allocate_chunks so level (db d1) s = (stored, s1)" "stored \<noteq> []"
    and single: "level \<noteq> Some BASE" "\<not> should_cleanup_base_on_full_store c (fe_config fe) level"
    and run: "\<not> tm_freeze m" "rt_tokens q \<noteq> None"
    and put: "so_batched_put so (take (length stored) (map (\<lambda>(beg, stop, key). key) (db d1))) (map snd stored)
      (store_location c) (so_from_gpu so (map snd stored) s1) = (Inr (), s2)"
  shows "engine_store X now so c True False db masked d q m (fe, s) =
    (Inr (), (update_after_store X now d1 level q fe, s2))"
proof -
  have enc: "encode_objects (encode_single so level) rs s = (Inr rs, s)" for rs s
    using single(1) by (induction rs) (simp_all add: encode_single_def)
  have "put_chunks so c (fe_config fe) db d1 level m (map fst stored) (map snd stored)
      (so_from_gpu so (map snd stored) s1) = (Inr (), s2)"
    using put single(1) enc allocate_chunks_prefix [OF alloc(1)]
    by (simp add: put_chunks_def should_dual_store_base_def put_single_def)
  then show ?thesis
    using norm alloc single(2) run by (cases stored) (auto simp: engine_store_def cleanup_after_store_def)
qed

end
