(* ===== verification/Engine_Requests.thy ===== *)
theory Engine_Requests
  imports Engine_Store
begin

text \<open>
  Whole requests of LMCacheEngine (lmcache/v1/cache_engine.py): retrieve, clear, move, compress and
  decompress. The copy to the GPU, the decoding of base objects, the serialisers and the sending to
  another node are arguments. The engine does not broadcast to other ranks.
\<close>

section \<open>retrieve\<close>

record 's retrieve_ops =
  ro_decode :: "nat \<Rightarrow> 's \<Rightarrow> (nat, 's) outcome"
  ro_down :: "nat \<Rightarrow> 's \<Rightarrow> (unit, 's) outcome"
  ro_get_size :: "nat \<Rightarrow> int"
  ro_to_gpu :: "processed_chunk list \<Rightarrow> 's \<Rightarrow> 's"

record retrieve_config =
  rc_async_loading :: bool
  remove_after_retrieve :: bool
  retrieve_locations :: "string list option"

definition decode_memory_obj :: "'s retrieve_ops \<Rightarrow> fidelity_level option \<Rightarrow> nat \<Rightarrow> 's \<Rightarrow> (nat, 's) outcome" where
  "decode_memory_obj ro level r s =
     (if level \<noteq> Some BASE then (Inr r, s)
      else case ro_decode ro r s of
             (Inl e, s1) \<Rightarrow> (Inl e, s1)
           | (Inr r', s1) \<Rightarrow>
               if r' = r then (Inr r', s1)
               else (case ro_down ro r s1 of
                       (Inl e, s2) \<Rightarrow> (Inl e, s2)
                     | (Inr _, s2) \<Rightarrow> (Inr r', s2)))"

abbreviation of_tokens :: "int list \<Rightarrow> request_tokens" where
  "of_tokens tokens \<equiv> \<lparr>rt_tokens = Some tokens, rt_hashes = None, rt_offsets = None\<rparr>"

text \<open>Both ways of loading normalise the configuration, which retrieve has normalised before, again.\<close>

definition load_chunks :: "fidelity_env \<Rightarrow> fidelity_engine \<Rightarrow> 's retrieve_ops \<Rightarrow> bool \<Rightarrow> token_chunks
    \<Rightarrow> request_configs option \<Rightarrow> int list \<Rightarrow> string option \<Rightarrow> lookup_pins \<Rightarrow> 's tier_manager \<Rightarrow> bool list
    \<Rightarrow> async_loads \<times> 's \<Rightarrow> (processed_chunk list \<times> int \<times> bool list, async_loads \<times> 's) outcome" where
  "load_chunks X fe ro async db d tokens req_id pins m ret_mask = (\<lambda>(ld, s).
     if async \<and> req_id = None then (Inl AssertionError, (ld, s))
     else case engine_normalize X fe d (of_tokens tokens) of
            Inl e \<Rightarrow> (Inl e, (ld, s))
          | Inr (d1, level) \<Rightarrow>
              if async
              then async_process_tokens (decode_memory_obj ro level) (ro_down ro) (ro_get_size ro) (the req_id) (db d1)
                     ret_mask (ld, s)
              else (case process_tokens_internal (decode_memory_obj ro level) (ro_get_size ro) req_id pins m
                           (map chunk_of (db d1)) ret_mask s of
                      (res, s1) \<Rightarrow> (res, (ld, s1))))"

definition engine_retrieve :: "fidelity_env \<Rightarrow> int \<Rightarrow> 's retrieve_ops \<Rightarrow> retrieve_config \<Rightarrow> store_config \<Rightarrow> bool
    \<Rightarrow> token_chunks \<Rightarrow> request_configs option \<Rightarrow> int list \<Rightarrow> string option \<Rightarrow> lookup_pins \<Rightarrow> 's tier_manager
    \<Rightarrow> fidelity_engine \<times> async_loads \<times> 's \<Rightarrow> (bool list, fidelity_engine \<times> async_loads \<times> 's) outcome" where
  "engine_retrieve X now ro rc c healthy db d tokens req_id pins m = (\<lambda>(fe, ld, s).
     let nothing = replicate (length tokens) False in
     if \<not> healthy then (Inr nothing, (fe, ld, s))
     else case engine_normalize X fe d (of_tokens tokens) of
            Inl e \<Rightarrow> (Inl e, (fe, ld, s))
          | Inr (d1, level) \<Rightarrow>
              (case load_chunks X fe ro (rc_async_loading rc) db d1 tokens req_id pins m nothing (ld, s) of
                 (Inl e, (ld1, s1)) \<Rightarrow> (Inl e, (fe, ld1, s1))
               | (Inr (chunks, kv_size, ret_mask), (ld1, s1)) \<Rightarrow>
                   (case release_chunks (ro_down ro) (remove_after_retrieve rc) (retrieve_locations rc)
                           (rc_async_loading rc) m chunks (if chunks = [] then s1 else ro_to_gpu ro chunks s1) of
                      (Inl e, s2) \<Rightarrow> (Inl e, (fe, ld1, s2))
                    | (Inr _, s2) \<Rightarrow>
                        (let retrieved = length (filter id ret_mask);
                             fe1 = update_after_retrieve X now d1 level (int retrieved) (Some tokens) fe
                         in if retrieved = 0 then (Inr ret_mask, (fe1, ld1, s2))
                            else (case cleanup_after_store c (fe_config fe) db d1 level m s2 of
                                    (Inl e, s3) \<Rightarrow> (Inl e, (fe1, ld1, s3))
                                  | (Inr _, s3) \<Rightarrow> (Inr ret_mask, (fe1, ld1, s3)))))))"

section \<open>clear\<close>

fun remove_each :: "cache_engine_key list \<Rightarrow> string list option \<Rightarrow> 's tier_manager \<Rightarrow> 's \<Rightarrow> (int, 's) outcome" where
  "remove_each [] locations m s = (Inr 0, s)"
| "remove_each (key # keys) locations m s =
     (case tm_remove key locations m s of
        (Inl e, s1) \<Rightarrow> (Inl e, s1)
      | (Inr n, s1) \<Rightarrow>
          (case remove_each keys locations m s1 of
             (Inl e, s2) \<Rightarrow> (Inl e, s2)
           | (Inr k, s2) \<Rightarrow> (Inr (n + k), s2)))"

text \<open>
  passive says that only the first rank saves and this is another one. Without tokens everything
  goes; with tokens the keys are those of the configuration as the caller gives it.
\<close>

definition engine_clear :: "bool \<Rightarrow> token_chunks \<Rightarrow> request_configs option \<Rightarrow> int list option \<Rightarrow> string list option
    \<Rightarrow> 's tier_manager \<Rightarrow> 's \<Rightarrow> (int, 's) outcome" where
  "engine_clear passive db d tokens locations m s =
     (if passive then (Inr 0, s)
      else if tokens \<in> {None, Some []} then tm_clear locations m s
      else remove_each (map (\<lambda>(beg, stop, key). key) (db d)) locations m s)"

section \<open>move, compress and decompress\<close>

text \<open>
  All three pin the chunks of the tokens in one location by a lookup, whose pins they read back, and
  get the objects. lookup_pins is a dictionary with empty defaults.
\<close>

definition pinned_objects :: "bool \<Rightarrow> int option \<Rightarrow> string \<Rightarrow> string \<Rightarrow> 's tier_manager
    \<Rightarrow> (nat \<times> nat \<times> cache_engine_key) list \<Rightarrow> lookup_pins \<times> 's
    \<Rightarrow> (nat \<times> cache_engine_key list \<times> nat list, lookup_pins \<times> 's) outcome" where
  "pinned_objects healthy num_layers location event_id m infos st =
     (case engine_lookup healthy num_layers (Some event_id) True (Some [location]) m infos st of
        (Inl e, st1) \<Rightarrow> (Inl e, st1)
      | (Inr n_tokens, (pins, s1)) \<Rightarrow>
          if n_tokens = 0 then (Inr (0, [], []), (pins, s1))
          else let mapping = (case map_of pins event_id of None \<Rightarrow> [] | Some d \<Rightarrow> d)
               in if length mapping \<noteq> 1 then (Inl AssertionError, (pins, s1))
                  else (case map_of mapping location of
                          None \<Rightarrow> (Inl KeyError, (pins, s1))
                        | Some keys \<Rightarrow>
                            (case tm_batched_get keys (Some location) m s1 of
                               (rs, s2) \<Rightarrow>
                                 if None \<in> set rs then (Inl AssertionError, (pins, s2))
                                 else (Inr (n_tokens, keys, map the rs), (pins, s2)))))"

text \<open>Each object is converted and unpinned.\<close>

fun convert_objects :: "(nat \<Rightarrow> 's \<Rightarrow> (nat, 's) outcome) \<Rightarrow> (nat \<Rightarrow> 's \<Rightarrow> (bool, 's) outcome) \<Rightarrow> nat list \<Rightarrow> 's
    \<Rightarrow> (nat list, 's) outcome" where
  "convert_objects conv unpin_it [] s = (Inr [], s)"
| "convert_objects conv unpin_it (r # rs) s =
     (case conv r s of
        (Inl e, s1) \<Rightarrow> (Inl e, s1)
      | (Inr r', s1) \<Rightarrow>
          (case unpin_it r s1 of
             (Inl e, s2) \<Rightarrow> (Inl e, s2)
           | (Inr _, s2) \<Rightarrow>
               (case convert_objects conv unpin_it rs s2 of
                  (Inl e, s3) \<Rightarrow> (Inl e, s3)
                | (Inr rs', s3) \<Rightarrow> (Inr (r' # rs'), s3))))"

text \<open>compress and decompress differ in the conversion alone; put is batched_put into the location.\<close>

definition engine_convert :: "(nat \<Rightarrow> 's \<Rightarrow> (nat, 's) outcome) \<Rightarrow> (nat \<Rightarrow> 's \<Rightarrow> (bool, 's) outcome)
    \<Rightarrow> (cache_engine_key list \<Rightarrow> nat list \<Rightarrow> 's \<Rightarrow> (unit, 's) outcome) \<Rightarrow> string \<Rightarrow> bool \<Rightarrow> int option \<Rightarrow> string \<Rightarrow> string
    \<Rightarrow> 's tier_manager \<Rightarrow> (nat \<times> nat \<times> cache_engine_key) list \<Rightarrow> lookup_pins \<times> 's \<Rightarrow> (nat, lookup_pins \<times> 's) outcome" where
  "engine_convert conv unpin_it put meth healthy num_layers location event_id m infos st =
     (if meth \<noteq> ''cachegen'' then (Inr 0, st)
      else case pinned_objects healthy num_layers location event_id m infos st of
             (Inl e, st1) \<Rightarrow> (Inl e, st1)
           | (Inr (n_tokens, keys, rs), (pins, s1)) \<Rightarrow>
               if n_tokens = 0 then (Inr 0, (pins, s1))
               else (case convert_objects conv unpin_it rs s1 of
                       (Inl e, s2) \<Rightarrow> (Inl e, (pins, s2))
                     | (Inr new, s2) \<Rightarrow>
                         (case tm_batched_remove keys (Some [location]) m s2 of
                            (Inl e, s3) \<Rightarrow> (Inl e, (pins, s3))
                          | (Inr _, s3) \<Rightarrow>
                              (case put keys new s3 of
                                 (Inl e, s4) \<Rightarrow> (Inl e, (pins, s4))
                               | (Inr _, s4) \<Rightarrow> (Inr n_tokens, (pins, s4))))))"

text \<open>send is the P2P backend's put to the other node, which move waits for.\<close>

definition engine_move :: "(cache_engine_key list \<Rightarrow> nat list \<Rightarrow> 's \<Rightarrow> (unit, 's) outcome) option \<Rightarrow> bool \<Rightarrow> int option
    \<Rightarrow> string \<Rightarrow> string \<Rightarrow> bool \<Rightarrow> 's tier_manager \<Rightarrow> (nat \<times> nat \<times> cache_engine_key) list \<Rightarrow> lookup_pins \<times> 's
    \<Rightarrow> (nat, lookup_pins \<times> 's) outcome" where
  "engine_move send healthy num_layers old_position event_id do_copy m infos st =
     (case pinned_objects healthy num_layers old_position event_id m infos st of
        (Inl e, st1) \<Rightarrow> (Inl e, st1)
      | (Inr (n_tokens, keys, rs), (pins, s1)) \<Rightarrow>
          if n_tokens = 0 then (Inr 0, (pins, s1))
          else case send of
                 None \<Rightarrow> (Inl KeyError, (pins, s1))
               | Some to_peer \<Rightarrow>
                   (case to_peer keys rs s1 of
                      (Inl e, s2) \<Rightarrow> (Inl e, (pins, s2))
                    | (Inr _, s2) \<Rightarrow>
                        if do_copy then (Inr n_tokens, (pins, s2))
                        else (case tm_batched_remove keys (Some [old_position]) m s2 of
                                (Inl e, s3) \<Rightarrow> (Inl e, (pins, s3))
                              | (Inr _, s3) \<Rightarrow> (Inr n_tokens, (pins, s3)))))"

section \<open>References of a retrieval\<close>

lemma cpu_active:
  "get_active_storage_backends None None (cpu_manager E now frozen) = [(''LocalCPUBackend'', lcb_backend E now)]"
  "get_active_storage_backends (Some ''LocalCPUBackend'') None (cpu_manager E now frozen) =
     [(''LocalCPUBackend'', lcb_backend E now)]"
  by (simp_all add: get_active_storage_backends_def cpu_manager_def)

lemma get_items:
  assumes "lcb_inv k H b" "\<forall>key \<in> set keys. map_of (hot_cache b) key \<noteq> None"
  shows "\<exists>rs b'. batched_get_blocking keys b = (map Some rs, b') \<and> length rs = length keys \<and>
    hot_cache b' = hot_cache b \<and> lcb_inv k (\<lambda>r. H r + count_list rs r) b'"
  using assms
proof (induction keys arbitrary: H b)
  case Nil
  then show ?case by (intro exI [of _ "[]"] exI [of _ b]) simp
next
  case (Cons key keys)
  then obtain r where r: "map_of (hot_cache b) key = Some r" by auto
  let ?b = "b\<lparr>lcb_mem := mo_ref_count_up r (lcb_mem b)\<rparr>"
  note g = inv_get [OF Cons.prems(1) r]
  have "\<forall>key \<in> set keys. map_of (hot_cache ?b) key \<noteq> None" using Cons.prems(2) by simp
  from Cons.IH [OF g(2) this] obtain rs b' where
    ih: "batched_get_blocking keys ?b = (map Some rs, b')" "length rs = length keys"
      "hot_cache b' = hot_cache ?b" "lcb_inv k (\<lambda>q. (H(r := Suc (H r))) q + count_list rs q) b'" by blast
  have "(\<lambda>q. (H(r := Suc (H r))) q + count_list rs q) = (\<lambda>q. H q + count_list (r # rs) q)" by (auto simp: fun_eq_iff)
  then show ?case using ih g(1) by (intro exI [of _ "r # rs"] exI [of _ b']) simp
qed

definition chunk_obj :: "processed_chunk \<Rightarrow> nat" where
  "chunk_obj = (\<lambda>(key, r, beg, stop). r)"

lemma release_all:
  assumes E: "sorted_list_ok E"
  shows "lcb_inv k H b \<Longrightarrow> \<forall>r. count_list (map chunk_obj chunks) r \<le> H r \<Longrightarrow>
    \<exists>b'. release_chunks (lcb_down E) False locations False m chunks b = (Inr (), b') \<and>
      hot_cache b' = hot_cache b \<and> lcb_inv k (\<lambda>r. H r - count_list (map chunk_obj chunks) r) b'"
proof (induction chunks arbitrary: H b)
  case (Cons c chunks)
  obtain key r beg stop where c: "c = (key, r, beg, stop)" by (rule prod_cases4)
  have "Suc 0 \<le> H r" using spec [OF Cons.prems(2), of r] by (simp add: c chunk_obj_def)
  then obtain st where st: "mo_ref_count_down E r (lcb_mem b) = (Inr (), st)"
    "lcb_inv k (H(r := H r - 1)) (b\<lparr>lcb_mem := st\<rparr>)"
    using inv_release [OF E Cons.prems(1), of r] by auto
  let ?b = "b\<lparr>lcb_mem := st\<rparr>"
  have "\<forall>q. count_list (map chunk_obj chunks) q \<le> (H(r := H r - 1)) q"
  proof
    fix q show "count_list (map chunk_obj chunks) q \<le> (H(r := H r - 1)) q"
      using spec [OF Cons.prems(2), of q] by (auto simp: c chunk_obj_def split: if_splits)
  qed
  from Cons.IH [OF st(2) this] obtain b' where
    b': "release_chunks (lcb_down E) False locations False m chunks ?b = (Inr (), b')" "hot_cache b' = hot_cache ?b"
    "lcb_inv k (\<lambda>q. (H(r := H r - 1)) q - count_list (map chunk_obj chunks) q) b'" by blast
  have "(\<lambda>q. (H(r := H r - 1)) q - count_list (map chunk_obj chunks) q) =
      (\<lambda>q. H q - count_list (map chunk_obj (c # chunks)) q)"
    by (auto simp: fun_eq_iff c chunk_obj_def)
  moreover have "lcb_down E r b = (Inr (), ?b)" using st(1) by (simp add: lcb_down_def)
  ultimately show ?case using b' by (intro exI [of _ b']) (simp add: c)
qed simp

lemma objs_of_chunks: "length infos = length rs \<Longrightarrow> map chunk_obj (chunks_of infos rs) = rs"
  by (auto simp: chunks_of_def chunk_obj_def intro!: nth_equalityI split: prod.splits)

text \<open>What one place has of the chunks is got, marked and released.\<close>

lemma scan_cpu:
  assumes inv: "lcb_inv k H b" and cached: "\<forall>i \<in> set infos. map_of (hot_cache b) (fst i) \<noteq> None"
  shows "\<exists>rs kv_size b'. scan_locations keep_obj get_size (cpu_manager E now frozen) [(''LocalCPUBackend'', infos)]
      (None, [], xs) 0 b = (Inr ((None, chunks_of infos rs, mark_chunks (chunks_of infos rs) xs), kv_size), b') \<and>
    length rs = length infos \<and> hot_cache b' = hot_cache b \<and> lcb_inv k (\<lambda>r. H r + count_list rs r) b'"
proof -
  have "\<forall>key \<in> set (map fst infos). map_of (hot_cache b) key \<noteq> None" using cached by simp
  from get_items [OF inv this] obtain rs b' where
    g: "batched_get_blocking (map fst infos) b = (map Some rs, b')" "length rs = length infos"
      "hot_cache b' = hot_cache b" "lcb_inv k (\<lambda>r. H r + count_list rs r) b'" by auto
  have get: "tm_batched_get (map fst infos) (Some ''LocalCPUBackend'') (cpu_manager E now frozen) b = (map Some rs, b')"
    using g(1,2) by (cases rs) (auto simp: tm_batched_get_def cpu_active lcb_backend_def write_back_def)
  have "scan_block (zip infos (map Some rs)) (None, [], xs) = (None, chunks_of infos rs, mark_chunks (chunks_of infos rs) xs)"
    using scan_block_found [of infos rs "[]" None "[]" xs] g(2) by simp
  then show ?thesis using get g by (intro exI [of _ rs]) simp
qed

lemma process_cpu:
  assumes inv: "lcb_inv k H b"
    and pinned: "\<forall>i location ks. req_id = Some i \<and> map_of pins i = Some [(location, ks)] \<longrightarrow>
      location = ''LocalCPUBackend'' \<and> (\<forall>info \<in> set infos. map_of (hot_cache b) (fst info) \<noteq> None)"
  shows "\<exists>found rs kv_size b'. process_tokens_internal keep_obj get_size req_id pins (cpu_manager E now frozen) infos xs b =
      (Inr (chunks_of found rs, kv_size, mark_chunks (chunks_of found rs) xs), b') \<and>
    length rs = length found \<and> hot_cache b' = hot_cache b \<and> lcb_inv k (\<lambda>r. H r + count_list rs r) b'"
proof -
  let ?m = "cpu_manager E now frozen" and ?cpu = "''LocalCPUBackend''"
  have "\<exists>mapping found. (case (case req_id of None \<Rightarrow> None | Some i \<Rightarrow> map_of pins i) of
              Some [(location, _)] \<Rightarrow> ([(location, infos)], b)
            | _ \<Rightarrow> get_block_mapping infos ?m b) = (mapping, b) \<and>
      (mapping = [] \<and> found = [] \<or> mapping = [(?cpu, found)]) \<and>
      (\<forall>info \<in> set found. map_of (hot_cache b) (fst info) \<noteq> None)"
  proof (cases "\<exists>i location ks. req_id = Some i \<and> map_of pins i = Some [(location, ks)]")
    case True
    then show ?thesis using pinned by fastforce
  next
    case False
    let ?has = "\<lambda>key. key \<in> set (get_keys b)"
    let ?n = "length (takeWhile ?has (map fst infos))"
    define mapping where "mapping = (if ?n = 0 then [] else [(?cpu, take ?n infos)])"
    have "get_block_mapping infos ?m b = (mapping, b)"
      by (simp add: get_block_mapping_def cpu_active lcb_backend_def lcb_reads mapping_def Let_def dict_simps)
    then have "(case (case req_id of None \<Rightarrow> None | Some i \<Rightarrow> map_of pins i) of
              Some [(location, _)] \<Rightarrow> ([(location, infos)], b)
            | _ \<Rightarrow> get_block_mapping infos ?m b) = (mapping, b)"
      using False by (auto split: option.split list.split)
    moreover have "\<forall>info \<in> set (take ?n infos). ?has (fst info)"
    proof -
      have "map fst (take ?n infos) = take ?n (map fst infos)" by (simp add: take_map)
      also have "\<dots> = takeWhile ?has (map fst infos)" by (rule takeWhile_eq_take [symmetric])
      finally have t: "map fst (take ?n infos) = takeWhile ?has (map fst infos)" .
      show ?thesis
      proof
        fix info assume "info \<in> set (take ?n infos)"
        then have "fst info \<in> set (map fst (take ?n infos))" by simp
        then show "?has (fst info)" unfolding t by (rule set_takeWhileD [THEN conjunct2])
      qed
    qed
    then have "\<forall>info \<in> set (take ?n infos). map_of (hot_cache b) (fst info) \<noteq> None"
      by (metis get_keys_def dict_in_keys_iff)
    ultimately show ?thesis
      by (intro exI [of _ mapping] exI [of _ "take ?n infos"]) (auto simp: mapping_def)
  qed
  then obtain mapping found where m: "(case (case req_id of None \<Rightarrow> None | Some i \<Rightarrow> map_of pins i) of
              Some [(location, _)] \<Rightarrow> ([(location, infos)], b)
            | _ \<Rightarrow> get_block_mapping infos ?m b) = (mapping, b)"
    and shape: "mapping = [] \<and> found = [] \<or> mapping = [(?cpu, found)]"
    and cached: "\<forall>info \<in> set found. map_of (hot_cache b) (fst info) \<noteq> None" by blast
  from scan_cpu [OF inv cached] obtain rs kv_size b' where
    s: "scan_locations keep_obj get_size ?m [(?cpu, found)] (None, [], xs) 0 b =
        (Inr ((None, chunks_of found rs, mark_chunks (chunks_of found rs) xs), kv_size), b')"
      "length rs = length found" "hot_cache b' = hot_cache b" "lcb_inv k (\<lambda>r. H r + count_list rs r) b'" by blast
  show ?thesis
  proof (cases "mapping = []")
    case True
    then have "process_tokens_internal keep_obj get_size req_id pins ?m infos xs b = (Inr ([], 0, xs), b)"
      using m by (simp add: process_tokens_internal_def drop_failed_def)
    then show ?thesis
      by (intro exI [of _ "[]"] exI [of _ 0] exI [of _ b]) (simp add: inv chunks_of_def mark_chunks_def)
  next
    case False
    then have "mapping = [(?cpu, found)]" using shape by blast
    then have "process_tokens_internal keep_obj get_size req_id pins ?m infos xs b =
        (Inr (chunks_of found rs, kv_size, mark_chunks (chunks_of found rs) xs), b')"
      using m s(1) by (simp add: process_tokens_internal_def drop_failed_def del: scan_locations.simps)
    then show ?thesis using s by blast
  qed
qed

section \<open>Properties\<close>

text \<open>C26: A retrieval that finds its chunks gives back every reference. The CPU backend is the only tier,
  loading is synchronous, the fidelity cache is off, remove_after_retrieve is off, and copying to the
  GPU changes nothing in the backend. If the request has its lookup's pins in one place, that place is the CPU
  backend and it still has the chunks that the token database yields for the request's
  configuration as the engine normalises it. Then retrieve never raises, leaves the cache as it is, and
  the reference counts are exact afterwards for the same holders: nothing leaks and nothing in use
  is freed.\<close>

theorem retrieval_balances_references:
  assumes E: "sorted_list_ok E" and inv: "lcb_inv k H b" and off: "\<not> enable_fidelity_cache (fe_config fe)"
    and pinned: "\<forall>i location ks. req_id = Some i \<and> map_of pins i = Some [(location, ks)] \<longrightarrow>
      location = ''LocalCPUBackend'' \<and>
      (\<forall>d1 l1 d2 l2. engine_normalize X fe d (of_tokens tokens) = Inr (d1, l1) \<and>
         engine_normalize X fe d1 (of_tokens tokens) = Inr (d2, l2) \<longrightarrow>
         (\<forall>(beg, stop, key) \<in> set (db d2). map_of (hot_cache b) key \<noteq> None))"
    and ops: "ro_down ro = lcb_down E" "\<And>chunks b. ro_to_gpu ro chunks b = b"
    and rc: "\<not> rc_async_loading rc" "\<not> remove_after_retrieve rc"
  shows "\<exists>ret_mask fe' b'. engine_retrieve X now ro rc c True db d tokens req_id pins (cpu_manager E t frozen) (fe, ld, b) =
      (Inr ret_mask, (fe', ld, b')) \<and> length ret_mask = length tokens \<and>
    hot_cache b' = hot_cache b \<and> lcb_inv k H b'"
proof -
  have norm: "\<exists>d'. engine_normalize X fe d'' q = Inr (d', None)" for d'' q
    using off by (simp add: engine_normalize_def normalize_configs_def Let_def)
  obtain d1 where d1: "engine_normalize X fe d (of_tokens tokens) = Inr (d1, None)" using norm by blast
  obtain d2 where d2: "engine_normalize X fe d1 (of_tokens tokens) = Inr (d2, None)" using norm by blast
  have dec: "decode_memory_obj ro None = keep_obj"
    by (simp add: fun_eq_iff decode_memory_obj_def keep_obj_def)
  let ?m = "cpu_manager E t frozen" and ?none = "replicate (length tokens) False"
  have pinned': "\<forall>i location ks. req_id = Some i \<and> map_of pins i = Some [(location, ks)] \<longrightarrow>
      location = ''LocalCPUBackend'' \<and> (\<forall>info \<in> set (map chunk_of (db d2)). map_of (hot_cache b) (fst info) \<noteq> None)"
    using pinned d1 d2 by (fastforce simp: chunk_of_def)
  obtain found rs kv_size b1 where p: "process_tokens_internal keep_obj (ro_get_size ro) req_id pins ?m
      (map chunk_of (db d2)) ?none b = (Inr (chunks_of found rs, kv_size, mark_chunks (chunks_of found rs) ?none), b1)"
    and b1: "length rs = length found" "hot_cache b1 = hot_cache b" "lcb_inv k (\<lambda>r. H r + count_list rs r) b1"
    using process_cpu [OF inv pinned', of "ro_get_size ro" E t frozen ?none] by auto
  let ?chunks = "chunks_of found rs" and ?msk = "mark_chunks (chunks_of found rs) ?none"
  have objs: "map chunk_obj ?chunks = rs" using b1(1) by (simp add: objs_of_chunks)
  obtain b2 where b2: "release_chunks (lcb_down E) False (retrieve_locations rc) False ?m ?chunks b1 = (Inr (), b2)"
    "hot_cache b2 = hot_cache b1" "lcb_inv k H b2"
    using release_all [OF E b1(3), of ?chunks "retrieve_locations rc" ?m] by (auto simp: objs)
  have load: "load_chunks X fe ro False db d1 tokens req_id pins ?m ?none (ld, b) = (Inr (?chunks, kv_size, ?msk), (ld, b1))"
    by (simp add: load_chunks_def d2 dec p)
  have clean: "cleanup_after_store c (fe_config fe) db d1 None ?m s = (Inr (), s)" for s
    by (simp add: cleanup_after_store_def should_cleanup_base_on_full_store_def off)
  have "engine_retrieve X now ro rc c True db d tokens req_id pins ?m (fe, ld, b) =
      (Inr ?msk, (update_after_retrieve X now d1 None (int (length (filter id ?msk))) (Some tokens) fe, ld, b2))"
    using rc b2(1) by (auto simp: engine_retrieve_def d1 load ops clean Let_def)
  then show ?thesis using b1(2) b2 by (intro exI conjI) auto
qed

section \<open>Clearing\<close>

text \<open>After a clear of some tokens the CPU backend has none of the chunks, and every other chunk it had.\<close>

lemma remove_each_cpu:
  assumes E: "sorted_list_ok E"
  shows "lcb_inv k H b \<Longrightarrow> \<exists>n b'. remove_each keys None (cpu_manager E now frozen) b = (Inr n, b') \<and>
    lcb_inv k H b' \<and> (\<forall>key. map_of (hot_cache b') key = (if key \<in> set keys then None else map_of (hot_cache b) key))"
proof (induction keys arbitrary: b)
  case (Cons key keys)
  obtain res b1 where b1: "lcb_remove E True key b = (Inr res, b1)" "lcb_inv k H b1"
    "hot_cache b1 = dict_del key (hot_cache b)" using inv_remove [OF E Cons.prems] by blast
  have one: "\<exists>n. tm_remove key None (cpu_manager E now frozen) b = (Inr n, b1)"
    using b1(1) by (simp add: tm_remove_def in_locations_def cpu_manager_def lcb_backend_def)
  show ?case using Cons.IH [OF b1(2)] one b1(3) by (fastforce simp: dict_simps)
qed simp

lemma clear_forgets_the_chunks:
  assumes "sorted_list_ok E" "lcb_inv k H b" "tokens \<noteq> []"
  shows "\<exists>n b'. engine_clear False db d (Some tokens) None (cpu_manager E now frozen) b = (Inr n, b') \<and> lcb_inv k H b' \<and>
    (\<forall>key. map_of (hot_cache b') key =
       (if key \<in> (\<lambda>(beg, stop, key). key) ` set (db d) then None else map_of (hot_cache b) key))"
  using remove_each_cpu [OF assms(1,2), of "map (\<lambda>(beg, stop, key). key) (db d)"] assms(3)
  by (simp add: engine_clear_def)

section \<open>Examples\<close>

text \<open>
  The CPU backend of the history's example, which has one chunk; a request of two chunks. The fidelity
  cache is off.
\<close>

definition two_chunks :: token_chunks where
  "two_chunks d = [(0, 10, sample_cek 1), (10, 20, sample_cek 2)]"

definition plain_engine :: fidelity_engine where
  "plain_engine = \<lparr>fe_config = promoting_config\<lparr>enable_fidelity_cache := False\<rparr>, fe_stores = None\<rparr>"

definition cpu_ops :: "local_cpu_backend retrieve_ops" where
  "cpu_ops = \<lparr>ro_decode = \<lambda>r b. (Inr r, b), ro_down = lcb_down reference_env, ro_get_size = \<lambda>r. 64,
     ro_to_gpu = \<lambda>chunks b. b\<rparr>"

definition sync_config :: retrieve_config where
  "sync_config = \<lparr>rc_async_loading = False, remove_after_retrieve = False, retrieve_locations = None\<rparr>"

definition plain_store_config :: store_config where
  "plain_store_config = \<lparr>store_base_variant = False, store_full_variant = False, cleanup_base_on_full_store = False,
     store_base_target = None, store_full_target = None, store_location = None\<rparr>"

abbreviation retrieve_both :: "lookup_pins \<Rightarrow> (bool list, fidelity_engine \<times> async_loads \<times> local_cpu_backend) outcome" where
  "retrieve_both pins \<equiv> engine_retrieve plain_env 0 cpu_ops sync_config plain_store_config True two_chunks None [1 .. 20]
     (Some ''r'') pins (cpu_manager reference_env 0 False) (plain_engine, no_loads, sample_lcb3)"

text \<open>A request whose only chunk is pinned in the CPU backend and still there. Under another configuration
  the chunk would have another key, which is not cached.\<close>

definition one_chunk :: token_chunks where
  "one_chunk d = [(0, 10, sample_cek (if d = None then 1 else 2))]"

lemma retrieval_balances_references_witness:
  "\<exists>ret_mask fe' b'. engine_retrieve plain_env 0 cpu_ops sync_config plain_store_config True one_chunk None [1 .. 10]
     (Some ''r'') [(''r'', [(''LocalCPUBackend'', [sample_cek 1])])] (cpu_manager reference_env 0 False)
     (plain_engine, no_loads, sample_lcb3) = (Inr ret_mask, (fe', no_loads, b')) \<and> length ret_mask = 10 \<and>
     hot_cache b' = [(sample_cek 1, 0)] \<and> lcb_inv 12 (\<lambda>r. 0) b'"
proof -
  let ?pins = "[(''r'', [(''LocalCPUBackend'', [sample_cek 1])])] :: lookup_pins"
  have inv: "lcb_inv 12 (\<lambda>r. 0) sample_lcb3"
    using lcb_reachable_inv [OF reference_sorted_list_ok sort_items_ok sample_reachable(2)] .
  have off: "\<not> enable_fidelity_cache (fe_config plain_engine)" by (simp add: plain_engine_def)
  have hot: "hot_cache sample_lcb3 = [(sample_cek 1, 0)]" by code_simp
  have norm: "engine_normalize plain_env plain_engine None (of_tokens [1 .. 10]) = Inr (None, None)" by code_simp
  have pinned: "\<forall>i location ks. Some ''r'' = Some i \<and> map_of ?pins i = Some [(location, ks)] \<longrightarrow>
      location = ''LocalCPUBackend'' \<and>
      (\<forall>d1 l1 d2 l2. engine_normalize plain_env plain_engine None (of_tokens [1 .. 10]) = Inr (d1, l1) \<and>
         engine_normalize plain_env plain_engine d1 (of_tokens [1 .. 10]) = Inr (d2, l2) \<longrightarrow>
         (\<forall>(beg, stop, key) \<in> set (one_chunk d2). map_of (hot_cache sample_lcb3) key \<noteq> None))"
    using norm by (auto simp: one_chunk_def hot)
  have ops: "ro_down cpu_ops = lcb_down reference_env" "\<And>chunks b. ro_to_gpu cpu_ops chunks b = b"
    by (simp_all add: cpu_ops_def)
  have rc: "\<not> rc_async_loading sync_config" "\<not> remove_after_retrieve sync_config" by (simp_all add: sync_config_def)
  from retrieval_balances_references [OF reference_sorted_list_ok inv off pinned ops rc, of 0
      plain_store_config 0 False no_loads]
  show ?thesis using hot by simp
qed

text \<open>
  With both chunks pinned in the CPU backend, which has only the first by now: its tokens are
  reported, but the chunk is dropped and its object keeps the reference of the retrieval.
\<close>

lemma partial_retrieval_leaks:
  "let (res, fe, ld, b) = retrieve_both [(''r'', [(''LocalCPUBackend'', [])])]
   in res = Inr (replicate 10 True @ replicate 10 False) \<and>
      map_option (\<lambda>x. ref_count (meta x)) (objs (lcb_mem sample_lcb3) 0) = Some 1 \<and>
      map_option (\<lambda>x. ref_count (meta x)) (objs (lcb_mem b) 0) = Some 2"
  by code_simp

text \<open>
  A conversion that allocates a new object in the pool, and the put of the CPU tier, whose backend has
  one chunk and room for two. The original is
  no longer cached afterwards, but it stays live: nobody releases the reference of the get.
\<close>

definition new_object :: "nat \<Rightarrow> local_cpu_backend \<Rightarrow> (nat, local_cpu_backend) outcome" where
  "new_object r b =
     (case mixed_allocate reference_env (One [2, 16]) (One ''int8'') KV_2LTD (lcb_mem b) of
        (Inr (Some r'), st) \<Rightarrow> (Inr r', b\<lparr>lcb_mem := st\<rparr>)
      | (_, st) \<Rightarrow> (Inl ValueError, b\<lparr>lcb_mem := st\<rparr>))"

definition put_cpu :: "cache_engine_key list \<Rightarrow> nat list \<Rightarrow> local_cpu_backend \<Rightarrow> (unit, local_cpu_backend) outcome" where
  "put_cpu keys rs b =
     tm_batched_put (\<lambda>name. \<lparr>al_contains = \<lambda>key b. False, al_allocate_like = \<lambda>src b. (None, b),
         al_raw_tensor = \<lambda>r b. True, al_copy = \<lambda>dst src b. b,
         al_ref_count_down = \<lambda>r b. snd (lcb_down reference_env r b)\<rparr>)
       (Some ''LocalCPUBackend'') keys rs (Some ''LocalCPUBackend'') (cpu_manager reference_env 0 False) b"

definition roomy_lcb :: local_cpu_backend where
  "roomy_lcb = sample_lcb\<lparr>hot_cache := [(sample_cek 1, 0)],
     lcb_mem := snd (mixed_allocate reference_env (One [2, 32]) (One ''int8'') KV_2LTD
                       (empty_pool reference_env 8192 (2 ^ 12) None))\<rparr>"

lemma compression_leaks_the_original:
  "let (res, pins, b) = engine_convert new_object (lcb_obj_unpin reference_env) put_cpu ''cachegen'' True None
         ''LocalCPUBackend'' ''e'' (cpu_manager reference_env 0 False) [(0, 10, sample_cek 1)] ([], roomy_lcb)
   in res = Inr 10 \<and> hot_cache b = [(sample_cek 1, 1)] \<and>
      map_option valid (objs (lcb_mem b) 0) = Some True \<and>
      map_option (\<lambda>x. ref_count (meta x)) (objs (lcb_mem b) 0) = Some 1 \<and>
      map_option (\<lambda>x. ref_count (meta x)) (objs (lcb_mem b) 1) = Some 1"
  by code_simp

end
