(* ===== verification/Lookup_Client.thy ===== *)
theory Lookup_Client
  imports Prelude
begin

text \<open>
  LMCacheAsyncLookupClient of lmcache/v1/lookup_client/lmcache_async_lookup_client.py: the scheduler asks
  all workers how many tokens of a request are cached, polls for the answer, and gives up after a
  time. The sockets are the lists of what was sent; the methods that hold the client's lock are
  atomic. Times are milliseconds and are arguments.
\<close>

section \<open>The client\<close>

text \<open>
  reqs_status maps a lookup to None while it is ongoing. The set of aborted lookups is a list without
  repetitions. cleanup_sent holds each message to the workers once per worker.
\<close>

record lookup_client =
  world_size :: nat
  lookup_timeout_ms :: int
  reqs_status :: "(string, int option) dict"
  res_for_each_worker :: "(string, int list) dict"
  first_lookup_time :: "(string, int) dict"
  aborted_lookups :: "string list"
  cleanup_sent :: "string list"

definition lookup_client_init :: "nat \<Rightarrow> int \<Rightarrow> lookup_client" where
  "lookup_client_init n timeout =
     \<lparr>world_size = n, lookup_timeout_ms = timeout, reqs_status = [], res_for_each_worker = [],
      first_lookup_time = [], aborted_lookups = [], cleanup_sent = []\<rparr>"

definition clear_lookup_status :: "string \<Rightarrow> lookup_client \<Rightarrow> lookup_client" where
  "clear_lookup_status lookup_id c =
     c\<lparr>reqs_status := dict_del lookup_id (reqs_status c),
       first_lookup_time := dict_del lookup_id (first_lookup_time c)\<rparr>"

definition cancel_lookup :: "string \<Rightarrow> lookup_client \<Rightarrow> lookup_client" where
  "cancel_lookup lookup_id c = c\<lparr>aborted_lookups := List.insert lookup_id (aborted_lookups c)\<rparr>"

definition send_cleanup_message :: "string \<Rightarrow> lookup_client \<Rightarrow> lookup_client" where
  "send_cleanup_message lookup_id c =
     c\<lparr>cleanup_sent := cleanup_sent c @ replicate (world_size c) lookup_id\<rparr>"

definition cleanup_finished_aborted_lookups :: "lookup_client \<Rightarrow> lookup_client" where
  "cleanup_finished_aborted_lookups c =
     (let finished = filter (\<lambda>i. case map_of (reqs_status c) i of Some (Some n) \<Rightarrow> True | _ \<Rightarrow> False)
                       (aborted_lookups c);
          c1 = c\<lparr>aborted_lookups := filter (\<lambda>i. i \<notin> set finished) (aborted_lookups c)\<rparr>
      in fold (\<lambda>i c. clear_lookup_status i (send_cleanup_message i c)) finished c1)"

text \<open>
  lookup_cache: -1 for a lookup that is not known yet, None for one that is ongoing. now is the time
  of the call and wake the time after the back-off.
\<close>

definition lookup_cache :: "int \<Rightarrow> int \<Rightarrow> string \<Rightarrow> lookup_client \<Rightarrow> (int option, lookup_client) outcome" where
  "lookup_cache now wake lookup_id c =
     (let c0 = cleanup_finished_aborted_lookups c in
      case map_of (reqs_status c0) lookup_id of
        None \<Rightarrow>
          (Inr (Some (-1)), c0\<lparr>reqs_status := dict_set lookup_id None (reqs_status c0),
                               first_lookup_time := dict_set lookup_id now (first_lookup_time c0)\<rparr>)
      | Some (Some n) \<Rightarrow> (Inr (Some n), c0)
      | Some None \<Rightarrow>
          (case map_of (first_lookup_time c0) lookup_id of
             None \<Rightarrow> (Inl KeyError, c0)
           | Some t \<Rightarrow>
               if wake - t > lookup_timeout_ms c0
               then (Inr (Some 0), (cancel_lookup lookup_id c0)
                       \<lparr>first_lookup_time := dict_del lookup_id (first_lookup_time c0)\<rparr>)
               else (Inr None, c0)))"

text \<open>One turn of the thread that takes the workers' answers.\<close>

definition process_response :: "string \<times> int \<Rightarrow> lookup_client \<Rightarrow> lookup_client" where
  "process_response = (\<lambda>(lookup_id, res) c.
     let all_res = (case map_of (res_for_each_worker c) lookup_id of None \<Rightarrow> [res] | Some rs \<Rightarrow> rs @ [res]);
         c1 = c\<lparr>res_for_each_worker := dict_set lookup_id all_res (res_for_each_worker c)\<rparr>
     in if length all_res = world_size c
        then c1\<lparr>res_for_each_worker := dict_del lookup_id (res_for_each_worker c1),
                reqs_status := dict_set lookup_id (Some (Min (set all_res))) (reqs_status c1)\<rparr>
        else c1)"

section \<open>The answer\<close>

lemma process_response_world [simp]: "world_size (process_response m c) = world_size c"
  by (cases m) (simp add: process_response_def Let_def)

text \<open>
  Whatever answers for other lookups come between, a lookup gets its status with the answer of the
  last worker, and it is the least number of tokens that any of them has.
\<close>

lemma answer_is_the_minimum:
  assumes "\<forall>rs. map_of (res_for_each_worker c) i = Some rs \<longrightarrow> rs \<noteq> []"
    and "length (case map_of (res_for_each_worker c) i of None \<Rightarrow> [] | Some rs \<Rightarrow> rs) < world_size c"
    and "length ((case map_of (res_for_each_worker c) i of None \<Rightarrow> [] | Some rs \<Rightarrow> rs) @
      map snd (filter (\<lambda>m. fst m = i) msgs)) \<le> world_size c"
  shows "let all_res = (case map_of (res_for_each_worker c) i of None \<Rightarrow> [] | Some rs \<Rightarrow> rs) @
          map snd (filter (\<lambda>m. fst m = i) msgs);
         c' = fold process_response msgs c
     in map_of (reqs_status c') i =
          (if length all_res < world_size c then map_of (reqs_status c) i else Some (Some (Min (set all_res))))"
  using assms
proof (induction msgs arbitrary: c)
  case (Cons m msgs)
  obtain j res where m: "m = (j, res)" by (cases m)
  let ?old = "case map_of (res_for_each_worker c) i of None \<Rightarrow> [] | Some rs \<Rightarrow> rs"
  let ?c = "process_response m c"
  let ?new = "case map_of (res_for_each_worker ?c) i of None \<Rightarrow> [] | Some rs \<Rightarrow> rs"
  show ?case
  proof (cases "j = i")
    case False
    then have same: "map_of (res_for_each_worker ?c) i = map_of (res_for_each_worker c) i"
      "map_of (reqs_status ?c) i = map_of (reqs_status c) i"
      by (auto simp: m process_response_def Let_def dict_simps)
    have "let all_res = ?new @ map snd (filter (\<lambda>m. fst m = i) msgs); c' = fold process_response msgs ?c
        in map_of (reqs_status c') i =
          (if length all_res < world_size ?c then map_of (reqs_status ?c) i else Some (Some (Min (set all_res))))"
      using Cons.prems False by (intro Cons.IH) (simp_all add: same [unfolded m] m)
    then show ?thesis using False by (simp add: same [unfolded m] m)
  next
    case True
    have "(case map_of (res_for_each_worker c) i of None \<Rightarrow> [res] | Some rs \<Rightarrow> rs @ [res]) = ?old @ [res]"
      by (simp split: option.split)
    then have step: "?c = (let c1 = c\<lparr>res_for_each_worker := dict_set i (?old @ [res]) (res_for_each_worker c)\<rparr>
      in if length (?old @ [res]) = world_size c
         then c1\<lparr>res_for_each_worker := dict_del i (res_for_each_worker c1),
                 reqs_status := dict_set i (Some (Min (set (?old @ [res])))) (reqs_status c1)\<rparr>
         else c1)" by (simp add: m True process_response_def Let_def)
    show ?thesis
    proof (cases "length (?old @ [res]) = world_size c")
      case full: True
      then have "Suc (length ?old) = world_size c" by simp
      moreover have "length ?old + length (filter (\<lambda>m. fst m = i) (m # msgs)) \<le> world_size c"
        using Cons.prems(3) by (simp only: length_append length_map)
      moreover have "length (filter (\<lambda>m. fst m = i) (m # msgs)) = Suc (length (filter (\<lambda>m. fst m = i) msgs))"
        by (simp add: m True)
      ultimately have "length (filter (\<lambda>m. fst m = i) msgs) = 0" by linarith
      then have none: "filter (\<lambda>m. fst m = i) msgs = []" by simp
      have later: "map_of (reqs_status (fold process_response msgs d)) i = map_of (reqs_status d) i" for d
        using none
      proof (induction msgs arbitrary: d)
        case (Cons a msgs)
        obtain k r where a: "a = (k, r)" by (cases a)
        have "k \<noteq> i" using Cons.prems by (auto simp: a split: if_splits)
        then have "map_of (reqs_status (process_response a d)) i = map_of (reqs_status d) i"
          by (auto simp: a process_response_def Let_def dict_simps)
        moreover have "filter (\<lambda>m. fst m = i) msgs = []" using Cons.prems by (auto split: if_splits)
        ultimately show ?case using Cons.IH by simp
      qed simp
      have "map_of (reqs_status ?c) i = Some (Some (Min (set (?old @ [res]))))"
        unfolding step Let_def using full by (simp add: dict_simps)
      then show ?thesis using later [of ?c] full by (simp add: m True none Let_def)
    next
      case part: False
      then have st: "map_of (res_for_each_worker ?c) i = Some (?old @ [res])"
        "map_of (reqs_status ?c) i = map_of (reqs_status c) i"
        unfolding step Let_def by (simp_all add: dict_simps)
      have "length (?old @ [res]) < world_size c" using part Cons.prems(2) by simp
      then have "let all_res = ?new @ map snd (filter (\<lambda>m. fst m = i) msgs); c' = fold process_response msgs ?c
        in map_of (reqs_status c') i =
          (if length all_res < world_size ?c then map_of (reqs_status ?c) i else Some (Some (Min (set all_res))))"
        using Cons.prems(3) by (intro Cons.IH) (simp_all add: st [unfolded m True] m True)
      then show ?thesis by (simp add: st [unfolded m True] m True)
    qed
  qed
qed simp

section \<open>Properties\<close>

text \<open>A lookup is answered by the slowest worker with the least count. From a client that holds no
  answers for a lookup, whatever the order of the workers' messages and whatever lookups they
  interleave, the status of the lookup does not change until as many answers as there are workers
  have come, and is then the minimum of them.\<close>

theorem lookup_takes_the_minimum:
  assumes "map_of (res_for_each_worker c) i = None" "0 < world_size c"
    and "length (filter (\<lambda>m. fst m = i) msgs) \<le> world_size c"
  shows "map_of (reqs_status (fold process_response msgs c)) i =
    (if length (filter (\<lambda>m. fst m = i) msgs) < world_size c then map_of (reqs_status c) i
     else Some (Some (Min (snd ` {m \<in> set msgs. fst m = i}))))"
  using answer_is_the_minimum [of c i msgs] assms by (simp add: Let_def)

section \<open>Examples\<close>

lemma lookup_takes_the_minimum_witness:
  "map_of (reqs_status (fold process_response [(''r'', 512), (''q'', 0), (''r'', 256)] (lookup_client_init 2 1000))) ''r'' =
     Some (Some 256)"
proof -
  have "map_of (res_for_each_worker (lookup_client_init 2 1000)) ''r'' = None" "0 < world_size (lookup_client_init 2 1000)"
    "length (filter (\<lambda>m. fst m = ''r'') [(''r'', 512), (''q'', 0), (''r'', 256 :: int)]) \<le> world_size (lookup_client_init 2 1000)"
    by (simp_all add: lookup_client_init_def)
  from lookup_takes_the_minimum [OF this]
  have "map_of (reqs_status (fold process_response [(''r'', 512), (''q'', 0), (''r'', 256)] (lookup_client_init 2 1000))) ''r'' =
     Some (Some (Min (snd ` {m \<in> set [(''r'', 512), (''q'', 0), (''r'', 256 :: int)]. fst m = ''r''})))"
    by (simp add: lookup_client_init_def)
  moreover have "{m \<in> set [(''r'', 512), (''q'', 0), (''r'', 256 :: int)]. fst m = ''r''} = {(''r'', 512), (''r'', 256)}"
    by auto
  ultimately show ?thesis by simp
qed

text \<open>
  A lookup that times out answers 0 and forgets when it began, but not that it is ongoing: asking
  again raises.
\<close>

lemma asking_after_the_timeout_raises:
  "let c1 = snd (lookup_cache 0 0 ''r'' (lookup_client_init 2 1000));
       (r2, c2) = lookup_cache 5000 5010 ''r'' c1
   in r2 = Inr (Some 0) \<and> fst (lookup_cache 5020 5030 ''r'' c2) = Inl KeyError"
  by code_simp

end
