(* ===== verification/Spec2Isabelle.thy ===== *)
theory Spec2Isabelle
  imports L1_Properties Paged_Pool Object_Keys Token_Database Eviction_Controller Prefetch_Accounting Storage_Manager
    Message_Sender Rw_Lock Local_Cpu_History Chunk_Budget Chunk_Semaphore Engine_Requests Lookup_Client
begin

text \<open>
  A verification development for the LMCache key-value cache store, the Python package
  src/LMCache-precision-allfull/lmcache and the C++ classes under
  src/LMCache-precision-allfull/csrc/storage_manager. Paths below are relative to lmcache/v1 unless
  they start with csrc or lmcache.

  The program. LMCache keeps the attention keys and values of token chunks in CPU memory and in
  slower stores, so that a serving engine can reuse them. It has two modes.

  In the distributed mode (distributed/), a StorageManager owns an L1Manager, which maps keys to
  memory objects with a write lock and a read lock each, and one or more L2 adapters, which store
  and load objects asynchronously. Three controllers run in threads of their own: the store
  controller copies what was written to L2, the prefetch controller looks keys up in L2 and loads
  them into L1, and the eviction controller frees L1 memory above a watermark. They communicate
  through listeners that L1 calls, through the read and write locks, and through the adapters' task
  results. Keys come from hashing the tokens of a request (multiprocess/), and a policy decides
  which chunks are stored in reduced precision.

  In the in-process mode, an LMCacheEngine (cache_engine.py) cuts a request into chunks with the token
  database and stores, looks up and retrieves them through a storage manager
  (storage_backend/storage_manager.py), which asks its backends, the tiers, in order. The first tier is
  the LocalCPUBackend, which keeps objects in memory and evicts them by a cache policy when an
  allocation fails. With asynchronous loading a lookup starts load tasks, an EventManager keeps their
  futures, and the answer goes to a lookup client in the scheduler. The tasks run one at a time, or,
  with the alternative serializer that the manager does not construct at present, as many as a
  semaphore of chunks admits.
  A chunk can be stored in full or in base precision (fidelity/): a policy chooses, and a state
  machine per prefix remembers which form is ready.

  Below both modes lie the memory allocators (memory_management.py, lazy_memory_allocator.py). Beside
  both stands the cluster controller (cache_controller/), which is told by every worker which chunks
  it holds and answers where a chunk can be found.

  Which theory models what.

  Shared vocabulary: Prelude (errors as values, Python dictionaries as association lists),
  Third_Party (the functions of other packages that the allocators call, as one record with their
  documented laws).

  Memory: Address_Manager and Address_Space (AddressManager of memory_management.py: allocate,
  batched_allocate, free, sbrk and coalescing over a sorted free list), Memory_Objects (MemoryFormat,
  MemoryObjMetadata, TensorMemoryObj), Tensor_Allocator and Tensor_Pool (TensorMemoryAllocator),
  Paged_Allocator and Paged_Pool (PagedTensorMemoryAllocator), Lazy_Allocator (LazyMemoryAllocator).

  L1: Ttl_Lock (csrc/storage_manager/ttl_lock.cpp), Eviction (eviction.py, eviction_policy/, the
  StoreListener), L1_Memory (distributed/memory_manager.py), L1_Manager (distributed/l1_manager.py),
  L1_State, L1_History, L1_Exclusion and L1_Properties (its invariant, histories and properties).

  L2 and the controllers: Bitmap (csrc/storage_manager/bitmap.cpp), L2_Adapter (l2_adapters/base.py
  and mock_l2_adapter.py), Store_Controller, Eviction_Controller, Prefetch_Plan,
  Prefetch_Controller and Prefetch_Accounting (storage_controllers/), Storage_Manager
  (distributed/storage_manager.py).

  Keys: Token_Hashing (multiprocess/token_hasher.py, session.py), Object_Keys (distributed/api.py,
  multiprocess/custom_types.py), Token_Database (token_database.py), Precision_Tiers
  (multiprocess/precision_codec.py), Cache_Engine_Key (lmcache/utils.py).

  In-process mode: Cache_Policies (storage_backend/cache_policy/), Local_Cpu_Backend,
  Local_Cpu_History and Chunk_Budget (storage_backend/local_cpu_backend.py and the mixed allocator),
  In_Process_Tiers and Chunk_Semaphore (storage_backend/storage_manager.py), Async_Loading
  (event_manager.py, the asynchronous lookup of the storage manager and of the engine),
  Engine_Retrieve, Engine_Store and Engine_Requests (lookup, store, retrieve, clear, move and compress
  of cache_engine.py), Fidelity (fidelity/ and the engine's internal state), Lookup_Client
  (lookup_client/lmcache_async_lookup_client.py).

  Cluster: Registry_Tree (cache_controller/utils.py, utils/cache_utils.py), Full_Sync
  (controllers/full_sync_tracker.py, kv_controller.py), Cluster_Controller
  (controllers/registration_controller.py, controller_manager.py, full_sync_sender.py),
  Message_Sender (storage_backend/batched_message_sender.py), Rw_Lock (cache_controller/locks.py).

  A class is a record with the class's attributes, a method a function with the method's name (with a
  prefix where two classes share it), in the order of the source. A method that raises returns Inl of
  the error and the state as it is at that point. The properties carry the identifiers C1 to C40 in
  the text blocks before them.

  What the groups of lemmas show.

  Allocators: live regions never overlap and with the free list they tile the space; allocation is
  lowest-address first fit and fails only when no free run is long enough; freeing undoes it; a batch
  freed at once equals its objects freed one by one; the lazy expansion reaches the final size. L1:
  its invariant holds along every history of calls and no call raises; the locks protect what they
  should until they expire, and readers and writers exclude each other. Controllers: every written key
  reaches every adapter, store tasks give back the locks they take, no prefetch request is lost or
  answered twice, exactly the loaded prefix is handed over while L1 is as the request left it,
  eviction reaches the watermark when nothing is locked and its ratio is positive. L2: the in-memory
  adapter keeps locked objects and its capacity; the bitmap refines a list of booleans. Keys:
  incremental hashing equals hashing from scratch, errors included, the rolling kernel is the
  polynomial hash, one equal key means equal prefixes, keys survive their textual form. CPU backend:
  reference counts are exact along the operations on single keys, so these free nothing in use,
  allocation evicts only idle entries, the policies keep to one contract, the bucketed LFU refines
  counted uses, and the chunk budget is exact. Tiers and engine: a lookup finds the longest prefix
  that the tiers can serve in their order, a retrieval delivers what the lookup promised and gives its
  references back, loads under the semaphore fit the chunk budget and are never stuck, the scheduler
  is told the loaded prefix or nothing, and the transitions between the forms of a prefix are exactly
  those listed. Cluster: a batch of operations refines the update of the set of places, a worker's
  stream arrives in order, a full sync rebuilds the worker's keys, searching is sound and complete,
  the readers-writer lock loses no wake-up.

  The interfaces are locales, each interpreted on the model: object_memory (what L1 needs of its memory
  manager), eviction_policy (what the eviction controller needs of its policy), the laws of an L2
  adapter, cache_policy_laws (what the CPU backend needs of its policy), reading_tiers (what the
  storage manager's lookup needs of its backends) and delivering_tiers (what a retrieval needs of
  them).

  Some theorems show what the code does wrong, or other than it says; they state it as the code's
  behaviour: an abandoned write becomes readable (L1_Properties), a concurrent lock can be lost within
  one clock reading (Ttl_Lock), a page counted down twice is handed out twice (Paged_Pool), short or
  overlapping separators break the segment database (Token_Database), a sync that is never ended
  blocks its worker and an end message hides lost batches (Cluster_Controller), a writer that gives up
  wakes nobody (Rw_Lock), batched_allocate frees layers in use (Local_Cpu_History), keys with the
  separator in the model's name cannot be read back and with_new_worker_id merges layers
  (Cache_Engine_Key), a copy for a second allocator pairs keys with the wrong objects and a read fills
  a hot cache that is off (In_Process_Tiers), a budget of one chunk excludes nobody (Chunk_Semaphore),
  a short tier, when a later one delivers, or a failed load leaves the scheduler without an answer,
  against the callback's comment and tests, and an unused object is released twice (Async_Loading), a
  partial retrieval reports a chunk that it drops (Engine_Retrieve) and does not release, nor does a
  compression release its originals (Engine_Requests), a dual store under memory pressure raises and
  leaks (Engine_Store), left to the policy no prefix is ever promoted (Fidelity), and asking again
  after a time-out raises (Lookup_Client).

  Choices of the model.

  Atomicity. A method that holds its object's lock throughout is one step, at one clock reading, which
  is an argument. A controller's turn is a sequence of handlers, each at one reading. Where threads
  meet without a common lock the model has smaller steps: the TTL lock's atomic accesses, the
  readers-writer lock's critical sections, the adapter's jobs in any order, the message sender's puts
  and gets, the expansion of the lazy allocator, what other threads do while allocate sleeps. Handlers
  of the cluster controller have no await inside and are atomic.

  Numbers. Python's integers are int or nat. Bytes and the hashing kernels are words of 8 and 64 bits.
  Milliseconds, counters and addresses of the C++ classes are unbounded: their 64 bits do not wrap in
  any uptime. Floating-point operations are parameters with the laws used (truncated products,
  quotients, parsing), but for the usage ratio of the eviction controller, which is compared as an
  exact quotient. Text is ASCII.

  Other packages. The operations of SortedList, element counts and item sizes of torch, the order of a
  SortedDict, the hash functions (that of a TokenHasher may raise, and blake3_hash is modelled up to the
  digest), the sockets of the cluster controller and the answers of the network
  are parameters; their documented behaviour is a named hypothesis (sorted_list_ok, torch_ok, float_ok,
  float_div_ok, sd_items_ok), and reference_env, exact_env and sort_key are instances for which it
  holds. Tensors are ranges of the pool's buffer; their contents are not represented.

  Identity. Memory objects and worker nodes have identity and are shared, so they live in stores and
  are named by numbers. A memory object that becomes garbage is not reclaimed (the destructor would
  free it).

  Loops. Loops over lists are structural recursions or folds. allocate's loop of the CPU backend is a
  function whose termination is proved: every eviction shortens the cache and every sleep consumes one
  element of the list of waits. batched_allocate takes fuel: with a positive batch and no busy loop,
  fuel beyond the number of cached entries is enough (lcb_batched_allocate_returns in
  Local_Cpu_History); a batch that is not positive may loop forever. The expansion of the lazy
  allocator and the eviction loop are iterated as often as the statement says.

  Not modelled. The destructor of memory objects, the pin monitor, metrics, logging, tracing and
  statistics. The GPU connectors, the serialisers and the INT8 codec, which are arithmetic and copies
  on device tensors. The engines' adapters (vLLM, SGLang), which orchestrate calls into those. Of
  LMCacheEngine the layerwise store and retrieval, which interleave generators with device copies, and
  the broadcast among ranks; the copies from and to the GPU, the codec, the serialisers and the
  sending to a peer are arguments. The remote connectors and the disk, RDMA and device backends, which
  are I/O through other packages. The message queue, the servers and the command line. Starting,
  stopping and polling of threads, and event descriptors beyond the number written to them. Of the
  modelled classes, reports that only print or nest other reports, and constructors' look-ups of
  environment, NUMA layout and available memory. The choice among vLLM's hash functions at
  construction. Message-pack hooks.
\<close>

end
